(* ===== verification/Prelude.thy ===== *)
theory Prelude
  imports Main "HOL-Library.Word"
begin

text \<open>
  Shared vocabulary of the development: the machine types of the target (an LP64 AArch64,
  little endian), the error-or-value type in which failed \<^verbatim>\<open>KASSERT\<close>s, panics and undefined
  behaviour appear, and the list, word and option facts used by more than one component.
\<close>

unbundle bit_operations_syntax

subsection \<open>Machine types\<close>

type_synonym u8 = "8 word"
type_synonym u16 = "16 word"
type_synonym u32 = "32 word"
type_synonym u64 = "64 word"

text \<open>\<^verbatim>\<open>size_t\<close>, \<^verbatim>\<open>uintptr_t\<close>, \<^verbatim>\<open>PhysicalPA\<close> and \<^verbatim>\<open>VirtualPA\<close> are all 64-bit unsigned.\<close>

type_synonym usize = "64 word"
type_synonym addr = "64 word"

subsection \<open>Ways a kernel operation can go wrong\<close>

text \<open>
  \<open>Panic\<close> is a call to \<^verbatim>\<open>libk::panic\<close> (a failed \<^verbatim>\<open>KASSERT\<close> is one). \<open>Undefined\<close> is a C++
  operation the language leaves undefined (a null or freed pointer is dereferenced, a shift
  amount is not below the width). \<open>Diverges\<close> is a loop that does not end.
\<close>

datatype fault = Panic | Undefined | Diverges

type_synonym 'a outcome = "fault + 'a"

abbreviation ok :: "'a \<Rightarrow> 'a outcome" where
  "ok \<equiv> Inr"

definition kassert :: "bool \<Rightarrow> 'a outcome \<Rightarrow> 'a outcome" where
  "kassert c k = (if c then k else Inl Panic)"

fun bindE :: "'a outcome \<Rightarrow> ('a \<Rightarrow> 'b outcome) \<Rightarrow> 'b outcome" where
  "bindE (Inl e) k = Inl e"
| "bindE (Inr x) k = k x"

text \<open>A fallible step repeated \<open>n\<close> times.\<close>

fun repeatE :: "nat \<Rightarrow> ('a \<Rightarrow> 'a outcome) \<Rightarrow> 'a \<Rightarrow> 'a outcome" where
  "repeatE 0 f s = Inr s"
| "repeatE (Suc n) f s = bindE (f s) (repeatE n f)"

subsection \<open>Collections of rewrite rules\<close>

named_theorems outcome_simps \<open>rules that evaluate the sequencing of fallible operations\<close>
named_theorems word_facts \<open>facts that turn word arithmetic into arithmetic on naturals\<close>

lemma kassert_True [simp, outcome_simps]: "kassert True k = k"
  by (simp add: kassert_def)

lemma kassert_False [simp, outcome_simps]: "kassert False k = Inl Panic"
  by (simp add: kassert_def)

lemma kassert_ok_iff [simp, outcome_simps]: "kassert c k = Inr x \<longleftrightarrow> c \<and> k = Inr x"
  by (simp add: kassert_def)

lemma bindE_ok_iff [simp, outcome_simps]: "bindE m k = Inr y \<longleftrightarrow> (\<exists>x. m = Inr x \<and> k x = Inr y)"
  by (cases m) auto

lemma bindE_assoc: "bindE (bindE m f) g = bindE m (\<lambda>x. bindE (f x) g)"
  by (cases m) auto

lemma repeatE_add: "repeatE (m + n) f s = bindE (repeatE m f s) (repeatE n f)"
proof (induction m arbitrary: s)
  case (Suc m)
  then show ?case by (cases "f s") simp_all
qed simp

subsection \<open>Lists\<close>

lemma count_list_distinct: "distinct xs \<Longrightarrow> count_list xs x = (if x \<in> set xs then 1 else 0)"
  by (induction xs) auto

subsection \<open>Quotients\<close>

text \<open>Moving inside a block of \<open>b\<close> keeps the block.\<close>

lemma block_offset:
  fixes k i b :: nat
  assumes "k mod b + i < b"
  shows "(k + i) div b = k div b" and "(k + i) mod b = k mod b + i"
proof -
  have e: "k + i = (k mod b + i) + k div b * b" using div_mult_mod_eq [of k b] by linarith
  have b: "b \<noteq> 0" using assms by linarith
  show "(k + i) div b = k div b" by (subst e, subst div_mult_self1) (use assms b in simp_all)
  show "(k + i) mod b = k mod b + i" by (subst e, subst mod_mult_self1) (use assms in simp)
qed

subsection \<open>Words\<close>

lemma unat_add_no_wrap [word_facts]:
  fixes a b :: "'a::len word"
  assumes "unat a + unat b < 2 ^ LENGTH('a)"
  shows "unat (a + b) = unat a + unat b"
  using assms by (simp add: unat_word_ariths)

lemma unat_sub_no_wrap [word_facts]:
  fixes a b :: "'a::len word"
  assumes "b \<le> a"
  shows "unat (a - b) = unat a - unat b"
  using assms by (simp add: unat_sub_if' word_le_nat_alt)

lemma unat_mult_no_wrap [word_facts]:
  fixes a b :: "'a::len word"
  assumes "unat a * unat b < 2 ^ LENGTH('a)"
  shows "unat (a * b) = unat a * unat b"
  using assms by (simp add: unat_word_ariths)

lemma unat_exp [word_facts]:
  "k < LENGTH('a) \<Longrightarrow> unat (2 ^ k :: 'a::len word) = 2 ^ k"
  by transfer (simp add: take_bit_eq_mod nat_power_eq)

lemma unat_and_mask_low: "unat (w AND mask k :: 'a::len word) = unat w mod 2 ^ k"
proof -
  have "unat (w AND mask k) = take_bit k (unat w)"
    by (simp flip: take_bit_eq_mask add: unsigned_take_bit_eq)
  then show ?thesis by (simp add: take_bit_eq_mod)
qed

lemma unat_and_not_mask: "unat (w AND NOT (mask k) :: 'a::len word) = unat w - unat w mod 2 ^ k"
proof -
  have eq: "w AND NOT (mask k) = w - (w AND mask k)"
    by (subst disjunctive_diff_eq_and_not) (auto simp: bit_eq_iff bit_simps)
  have "(w AND mask k) \<le> w" by (rule word_and_le2)
  with eq show ?thesis by (simp add: unat_sub_no_wrap unat_and_mask_low)
qed

text \<open>A natural number with \<open>n AND (n - 1) = 0\<close> is a power of two.\<close>

lemma nat_and_pred_zero_power:
  fixes n :: nat
  assumes "0 < n" and "n AND (n - 1) = 0"
  shows "\<exists>k. n = 2 ^ k"
  using assms
proof (induction n rule: less_induct)
  case (less n)
  note rec = and_rec [of n "n - 1"]
  show ?case
  proof (cases "even n")
    case True
    then obtain m where m: "n = 2 * m" by blast
    with less.prems(1) have pos: "0 < m" and lt: "m < n" by auto
    from m pos have "(n - 1) div 2 = m - 1" by simp
    with m rec less.prems(2) have "m AND (m - 1) = 0" by simp
    from less.IH [OF lt pos this] obtain k where "m = 2 ^ k" ..
    with m have "n = 2 ^ Suc k" by simp
    then show ?thesis ..
  next
    case False
    then obtain m where m: "n = 2 * m + 1" by (blast elim: oddE)
    with rec less.prems(2) have "m = 0" by simp
    with m have "n = 2 ^ 0" by simp
    then show ?thesis ..
  qed
qed

end
