(* ===== verification/Utils.thy ===== *)
theory Utils
  imports Prelude
begin

text \<open>
  The arithmetic helpers of \<^verbatim>\<open>lib/libk/include/libk/utils.hpp\<close>: clamping, masks, rounding
  divisions, power-of-two alignment, byte swapping and the integer square root.
\<close>

subsection \<open>Definitions\<close>

definition min_k :: "'a::linorder \<Rightarrow> 'a \<Rightarrow> 'a" where
  "min_k a b = (if a < b then a else b)"

definition max_k :: "'a::linorder \<Rightarrow> 'a \<Rightarrow> 'a" where
  "max_k a b = (if a < b then b else a)"

definition clamp :: "'a::linorder \<Rightarrow> 'a \<Rightarrow> 'a \<Rightarrow> 'a" where
  "clamp val min_val max_val = min_k max_val (max_k min_val val)"

text \<open>A shift of a 64-bit value by 64 or more is undefined in C++.\<close>

definition mask_bits :: "usize \<Rightarrow> usize \<Rightarrow> u64 outcome" where
  "mask_bits start stop =
     (if stop < start then Inr 0
      else if unat (stop - start + 1) \<ge> 64 \<or> unat start \<ge> 64 then Inl Undefined
      else Inr (push_bit (unat start) (push_bit (unat (stop - start + 1)) 1 - 1)))"

definition div_round_up :: "u64 \<Rightarrow> u64 \<Rightarrow> u64" where
  "div_round_up a b = (a + b - 1) div b"

definition div_round_down :: "u64 \<Rightarrow> u64 \<Rightarrow> u64" where
  "div_round_down a b = a div b"

definition is_power_of_two :: "usize \<Rightarrow> bool" where
  "is_power_of_two n \<longleftrightarrow> n > 0 \<and> (n AND (n - 1)) = 0"

definition align_to_next :: "addr \<Rightarrow> usize \<Rightarrow> addr outcome" where
  "align_to_next value alignment =
     kassert (is_power_of_two alignment)
       (let mask = alignment - 1 in Inr ((value + mask) AND NOT mask))"

definition align_to_previous :: "addr \<Rightarrow> usize \<Rightarrow> addr outcome" where
  "align_to_previous value alignment =
     kassert (is_power_of_two alignment)
       (let mask = alignment - 1 in Inr (value AND NOT mask))"

text \<open>
  \<^verbatim>\<open>bswap\<close> on 16, 32 and 64 bits: the bytes in reverse order. \<^verbatim>\<open>from_be\<close> and \<^verbatim>\<open>to_be\<close> are
  \<^verbatim>\<open>bswap\<close> on the little-endian target.
\<close>

definition bswap16 :: "u16 \<Rightarrow> u16" where
  "bswap16 v = push_bit 8 (v AND 0xff) OR (drop_bit 8 v AND 0xff)"

definition bswap32 :: "u32 \<Rightarrow> u32" where
  "bswap32 v =
     push_bit 24 (v AND 0xff) OR push_bit 16 (drop_bit 8 v AND 0xff)
     OR push_bit 8 (drop_bit 16 v AND 0xff) OR (drop_bit 24 v AND 0xff)"

definition bswap64 :: "u64 \<Rightarrow> u64" where
  "bswap64 v =
     push_bit 56 (v AND 0xff) OR push_bit 48 (drop_bit 8 v AND 0xff)
     OR push_bit 40 (drop_bit 16 v AND 0xff) OR push_bit 32 (drop_bit 24 v AND 0xff)
     OR push_bit 24 (drop_bit 32 v AND 0xff) OR push_bit 16 (drop_bit 40 v AND 0xff)
     OR push_bit 8 (drop_bit 48 v AND 0xff) OR (drop_bit 56 v AND 0xff)"

definition from_be32 :: "u32 \<Rightarrow> u32" where
  "from_be32 v = bswap32 v"

definition to_be32 :: "u32 \<Rightarrow> u32" where
  "to_be32 v = bswap32 v"

text \<open>
  \<^verbatim>\<open>isqrt\<close> for arguments below \<open>2 ^ 32\<close>: its estimates are \<^verbatim>\<open>unsigned int\<close>, and its only use, the mosaic layout of the window
  manager, passes a number of windows.
  The loop body runs while the next Newton estimate is smaller than the current one.
\<close>

function isqrt_loop :: "u32 \<Rightarrow> u32 \<Rightarrow> u32 \<Rightarrow> u32" where
  "isqrt_loop s x0 x1 =
     (if x1 < x0 then isqrt_loop s x1 ((x1 + s div x1) div 2) else x0)"
  by pat_completeness auto
termination
  by (relation "measure (\<lambda>(s, x0, x1). unat x0)") (auto simp: word_less_nat_alt)

definition isqrt :: "u32 \<Rightarrow> u32" where
  "isqrt s =
     (if s \<le> 1 then s
      else let x0 = s div 2; x1 = (x0 + s div x0) div 2 in isqrt_loop s x0 x1)"

subsection \<open>Clamping\<close>

lemma min_k_eq [simp]: "min_k = min"
  by (intro ext) (auto simp: min_k_def)

lemma max_k_eq [simp]: "max_k = max"
  by (intro ext) (auto simp: max_k_def)

lemma clamp_range:
  "min_val \<le> max_val \<Longrightarrow> min_val \<le> clamp val min_val max_val \<and> clamp val min_val max_val \<le> max_val"
  by (auto simp: clamp_def)

subsection \<open>Masks\<close>

lemma mask_bits_bit:
  assumes "unat start \<le> unat stop" and "unat stop < 63 \<or> (unat stop = 63 \<and> 0 < unat start)"
  shows "\<exists>m. mask_bits start stop = Inr m \<and> (\<forall>i. bit m i \<longleftrightarrow> unat start \<le> i \<and> i \<le> unat stop)"
proof -
  have le: "start \<le> stop" using assms(1) by (simp add: word_le_nat_alt)
  then have diff: "unat (stop - start) = unat stop - unat start" by (rule unat_sub_no_wrap)
  have cnt: "unat (stop - start + 1) = unat stop - unat start + 1"
    using assms(2) by (subst unat_add_no_wrap) (auto simp: diff)
  have ones: "push_bit (unat (stop - start + 1)) 1 - 1 = (mask (unat stop - unat start + 1) :: u64)"
    by (simp add: cnt mask_eq_exp_minus_1 push_bit_eq_mult)
  have "mask_bits start stop = Inr (push_bit (unat start) (mask (unat stop - unat start + 1)))"
    using le assms cnt ones unfolding mask_bits_def by auto
  moreover have "bit (push_bit (unat start) (mask (unat stop - unat start + 1)) :: u64) i
      \<longleftrightarrow> unat start \<le> i \<and> i \<le> unat stop" for i
    using assms by (auto simp: bit_simps)
  ultimately show ?thesis by blast
qed

subsection \<open>Powers of two and alignment\<close>

lemma is_power_of_two_iff: "is_power_of_two n \<longleftrightarrow> (\<exists>k<64. n = 2 ^ k)"
proof
  assume n: "is_power_of_two n"
  then have pos: "0 < unat n" by (auto simp: is_power_of_two_def unat_gt_0)
  then have "unat (n - 1) = unat n - 1"
    by (subst unat_sub_no_wrap) (auto simp: word_le_nat_alt)
  with n have "unat n AND (unat n - 1) = 0"
    by (metis is_power_of_two_def unsigned_0 unsigned_and_eq)
  with pos obtain k where k: "unat n = 2 ^ k" using nat_and_pred_zero_power by blast
  have "(2::nat) ^ k < 2 ^ 64" using unsigned_less [of n, where ?'a = nat] k by simp
  then have lt: "k < 64" by (rule power_less_imp_less_exp [rotated]) simp
  then have "n = 2 ^ k" using k by (simp add: word_unat_eq_iff unat_exp)
  with lt show "\<exists>k<64. n = 2 ^ k" by blast
next
  assume "\<exists>k<64. n = 2 ^ k"
  then obtain k where k: "k < 64" "n = 2 ^ k" by blast
  then have "n - 1 = mask k" by (simp add: mask_eq_exp_minus_1)
  moreover have "(2 ^ k :: u64) AND mask k = 0"
    by (rule bit_word_eqI) (auto simp: bit_simps)
  moreover have "0 < n" using k by (simp add: word_less_nat_alt unat_exp)
  ultimately show "is_power_of_two n"
    using k(2) by (simp add: is_power_of_two_def)
qed

lemma is_power_of_two_exp [simp]: "k < 64 \<Longrightarrow> is_power_of_two (2 ^ k)"
  by (auto simp: is_power_of_two_iff)

lemma align_to_previous_unat:
  assumes "k < 64"
  shows "\<exists>r. align_to_previous v (2 ^ k) = Inr r \<and> unat r = unat v - unat v mod 2 ^ k"
  using assms
  by (simp add: align_to_previous_def Let_def flip: mask_eq_exp_minus_1) (simp add: unat_and_not_mask)

lemma align_to_next_unat:
  assumes "k < 64" and "unat v + (2 ^ k - 1) < 2 ^ 64"
  shows "\<exists>r. align_to_next v (2 ^ k) = Inr r
           \<and> unat r = (unat v + (2 ^ k - 1)) - (unat v + (2 ^ k - 1)) mod 2 ^ k"
proof -
  have m: "unat (mask k :: u64) = 2 ^ k - 1"
    using assms(1) by (simp add: mask_eq_exp_minus_1 unat_sub_no_wrap word_le_nat_alt unat_exp)
  then have "unat (v + mask k) = unat v + (2 ^ k - 1)"
    using assms(2) by (simp add: unat_add_no_wrap)
  then show ?thesis
    using assms(1)
    by (simp add: align_to_next_def Let_def flip: mask_eq_exp_minus_1) (simp add: unat_and_not_mask)
qed

lemma round_up_bounds:
  fixes a m :: nat
  assumes "0 < m"
  defines "r \<equiv> (a + (m - 1)) - (a + (m - 1)) mod m"
  shows "a \<le> r" and "r < a + m" and "m dvd r"
proof -
  have r: "r = (a + (m - 1)) div m * m"
    unfolding r_def by (simp add: minus_mod_eq_div_mult)
  have lt: "(a + (m - 1)) mod m < m" using assms(1) by simp
  then show "a \<le> r" and "r < a + m" unfolding r_def using assms(1) by linarith+
  show "m dvd r" unfolding r by simp
qed

lemma round_up_least:
  fixes a m b :: nat
  assumes "0 < m" and "a \<le> b" and "m dvd b"
  shows "(a + (m - 1)) - (a + (m - 1)) mod m \<le> b"
proof (rule ccontr)
  let ?r = "(a + (m - 1)) - (a + (m - 1)) mod m"
  assume "\<not> ?r \<le> b"
  then have "b < ?r" by simp
  moreover have "m dvd ?r" by (rule round_up_bounds(3) [OF assms(1)])
  ultimately have "b + m \<le> ?r"
    using assms(3) by (metis add_le_cancel_left dvd_diffD1 dvd_imp_le le_add_diff_inverse less_imp_le zero_less_diff dvd_diff_nat)
  with round_up_bounds(2) [OF assms(1), of a] assms(2) show False by linarith
qed

subsection \<open>Byte order\<close>

text \<open>Byte \<open>b\<close> of the result is byte \<open>3 - b\<close> (or \<open>7 - b\<close>) of the argument.\<close>

lemma bit_bswap32:
  assumes "b < 4" and "j < 8"
  shows "bit (bswap32 v) (8 * b + j) \<longleftrightarrow> bit v (8 * (3 - b) + j)"
proof -
  have ff: "(0xff :: u32) = mask 8" by (simp add: mask_eq_exp_minus_1)
  from assms(1) consider "b = 0" | "b = 1" | "b = 2" | "b = 3" by linarith
  then show ?thesis
    unfolding bswap32_def ff using assms(2) by cases (auto simp: bit_simps)
qed

lemma bit_bswap64:
  assumes "b < 8" and "j < 8"
  shows "bit (bswap64 v) (8 * b + j) \<longleftrightarrow> bit v (8 * (7 - b) + j)"
proof -
  have ff: "(0xff :: u64) = mask 8" by (simp add: mask_eq_exp_minus_1)
  from assms(1) consider "b = 0" | "b = 1" | "b = 2" | "b = 3" | "b = 4" | "b = 5" | "b = 6" | "b = 7"
    by linarith
  then show ?thesis
    unfolding bswap64_def ff using assms(2) by cases (auto simp: bit_simps)
qed

lemma byte_split: "(n::nat) = 8 * (n div 8) + n mod 8"
  by simp

lemma bswap32_involution: "bswap32 (bswap32 v) = v"
proof (rule bit_word_eqI)
  fix n assume "n < LENGTH(32)"
  then have b: "n div 8 < 4" and j: "n mod 8 < 8" and b': "3 - n div 8 < 4" by auto
  have "bit (bswap32 (bswap32 v)) (8 * (n div 8) + n mod 8) = bit v (8 * (3 - (3 - n div 8)) + n mod 8)"
    using bit_bswap32 [OF b j] bit_bswap32 [OF b' j] by simp
  moreover have "3 - (3 - n div 8) = n div 8" using b by simp
  ultimately show "bit (bswap32 (bswap32 v)) n = bit v n" by (simp flip: byte_split)
qed

lemma bswap64_involution: "bswap64 (bswap64 v) = v"
proof (rule bit_word_eqI)
  fix n assume "n < LENGTH(64)"
  then have b: "n div 8 < 8" and j: "n mod 8 < 8" and b': "7 - n div 8 < 8" by auto
  have "bit (bswap64 (bswap64 v)) (8 * (n div 8) + n mod 8) = bit v (8 * (7 - (7 - n div 8)) + n mod 8)"
    using bit_bswap64 [OF b j] bit_bswap64 [OF b' j] by simp
  moreover have "7 - (7 - n div 8) = n div 8" using b by simp
  ultimately show "bit (bswap64 (bswap64 v)) n = bit v n" by (simp flip: byte_split)
qed

subsection \<open>Newton's integer square root\<close>

text \<open>One Newton step never falls below the root, whatever the estimate it starts from.\<close>

lemma newton_upper:
  fixes s x :: nat
  assumes "0 < x"
  shows "s < ((x + s div x) div 2 + 1) * ((x + s div x) div 2 + 1)"
proof -
  define q where "q = s div x"
  define y where "y = (x + q) div 2"
  have s: "s < x * (q + 1)" unfolding q_def using assms
    by (metis add.commute dividend_less_times_div mult.commute mult_Suc_right Suc_eq_plus1 distrib_left mult.right_neutral)
  have y: "x + (q + 1) \<le> 2 * (y + 1)" unfolding y_def by presburger
  have "4 * (x * (q + 1)) \<le> (x + (q + 1)) * (x + (q + 1))"
  proof -
    have "0 \<le> (int x - int (q + 1)) * (int x - int (q + 1))" by simp
    then have "4 * (int x * int (q + 1)) \<le> (int x + int (q + 1)) * (int x + int (q + 1))"
      by (simp add: algebra_simps)
    then show ?thesis by (metis of_nat_add of_nat_le_iff of_nat_mult of_nat_numeral)
  qed
  also have "\<dots> \<le> (2 * (y + 1)) * (2 * (y + 1))" using y by (rule mult_le_mono [OF _ y])
  also have "\<dots> = 4 * ((y + 1) * (y + 1))" by simp
  finally show ?thesis using s unfolding q_def y_def by linarith
qed

text \<open>The 32-bit sum \<open>x0 + s div x0\<close> of a step does not wrap.\<close>

lemma newton_no_wrap:
  fixes s x :: nat
  assumes "0 < x" and "x \<le> s div 2" and "s < (x + 1) * (x + 1)" and "s < 2 ^ 32"
  shows "x + s div x < 2 ^ 32"
proof (cases "x < 2 ^ 17")
  case True
  have "s div x \<le> x + 2"
  proof -
    have "s \<le> x * (x + 2)" using assms(3) by (simp add: algebra_simps)
    then have "s div x \<le> x * (x + 2) div x" by (rule div_le_mono)
    then show ?thesis using assms(1) by simp
  qed
  with True show ?thesis by simp
next
  case False
  then have "s div x \<le> s div 2 ^ 17" by (intro div_le_mono2) auto
  with assms(2,4) show ?thesis by simp
qed

definition newton_inv :: "u32 \<Rightarrow> u32 \<Rightarrow> u32 \<Rightarrow> bool" where
  "newton_inv s x0 x1 \<longleftrightarrow>
     0 < unat x0 \<and> unat x0 \<le> unat s div 2 \<and> unat s < (unat x0 + 1) * (unat x0 + 1)
     \<and> unat x1 = (unat x0 + unat s div unat x0) div 2"

lemma newton_step_unat:
  assumes "0 < unat x" and "unat x \<le> unat s div 2" and "unat s < (unat x + 1) * (unat x + 1)"
  shows "unat ((x + s div x) div 2 :: u32) = (unat x + unat s div unat x) div 2"
proof -
  have "unat s < 2 ^ 32" using unsigned_less [of s, where ?'a = nat] by simp
  with assms have "unat x + unat s div unat x < 2 ^ 32" by (intro newton_no_wrap)
  then have "unat (x + s div x) = unat x + unat s div unat x"
    by (subst unat_add_no_wrap) (simp_all add: unat_div)
  then show ?thesis by (simp add: unat_div)
qed

lemma newton_inv_step:
  assumes inv: "newton_inv s x0 x1" and lt: "x1 < x0" and s: "2 \<le> unat s"
  shows "newton_inv s x1 ((x1 + s div x1) div 2)"
proof -
  let ?x = "unat x0"
  have x1: "unat x1 = (?x + unat s div ?x) div 2" and pos: "0 < ?x" and half: "?x \<le> unat s div 2"
    using inv by (simp_all add: newton_inv_def)
  have upper: "unat s < (unat x1 + 1) * (unat x1 + 1)"
    unfolding x1 using pos by (rule newton_upper)
  have pos1: "0 < unat x1"
  proof (rule ccontr)
    assume "\<not> 0 < unat x1"
    with upper s show False by simp
  qed
  have "unat x1 \<le> unat s div 2" using lt half by (simp add: word_less_nat_alt)
  with pos1 upper show ?thesis by (simp add: newton_inv_def newton_step_unat)
qed

lemma isqrt_loop_root:
  assumes "newton_inv s x0 x1" and "2 \<le> unat s"
  shows "unat (isqrt_loop s x0 x1) * unat (isqrt_loop s x0 x1) \<le> unat s
       \<and> unat s < (unat (isqrt_loop s x0 x1) + 1) * (unat (isqrt_loop s x0 x1) + 1)"
  using assms
proof (induction s x0 x1 rule: isqrt_loop.induct)
  case (1 s x0 x1)
  show ?case
  proof (cases "x1 < x0")
    case True
    with "1.IH" [OF True newton_inv_step [OF "1.prems"(1) True "1.prems"(2)] "1.prems"(2)]
    show ?thesis by (simp add: isqrt_loop.simps [of s x0 x1])
  next
    case False
    then have "unat x0 \<le> (unat x0 + unat s div unat x0) div 2" and inv: "newton_inv s x0 x1"
      using "1.prems"(1) by (auto simp: newton_inv_def word_less_nat_alt)
    moreover have "a \<le> (a + b) div 2 \<Longrightarrow> a \<le> b" for a b :: nat by presburger
    ultimately have "unat x0 \<le> unat s div unat x0" by blast
    then have "unat x0 * unat x0 \<le> unat s"
      by (metis div_times_less_eq_dividend le_trans mult_le_mono1)
    with False inv show ?thesis by (simp add: isqrt_loop.simps [of s x0 x1] newton_inv_def)
  qed
qed

lemma isqrt_root:
  "unat (isqrt s) * unat (isqrt s) \<le> unat s \<and> unat s < (unat (isqrt s) + 1) * (unat (isqrt s) + 1)"
proof (cases "s \<le> 1")
  case True
  then have "unat s \<le> 1" by (simp add: word_le_nat_alt)
  then have "unat s = 0 \<or> unat s = 1" by linarith
  with True show ?thesis by (auto simp: isqrt_def)
next
  case False
  then have two: "2 \<le> unat s" by (simp add: word_le_nat_alt)
  let ?x0 = "s div 2"
  have x0: "unat ?x0 = unat s div 2" by (simp add: unat_div)
  have up: "unat s < (unat ?x0 + 1) * (unat ?x0 + 1)"
  proof -
    have "unat s < 2 * (unat s div 2 + 1)" by presburger
    also have "\<dots> \<le> (unat s div 2 + 1) * (unat s div 2 + 1)" using two by (intro mult_le_mono1) simp
    finally show ?thesis using x0 by simp
  qed
  have "newton_inv s ?x0 ((?x0 + s div ?x0) div 2)"
    using two x0 up by (simp add: newton_inv_def newton_step_unat)
  from isqrt_loop_root [OF this two] False show ?thesis by (simp add: isqrt_def Let_def)
qed

subsection \<open>Properties\<close>

text \<open>
  For every power-of-two alignment and every address for which rounding up does not leave the
  64-bit range, \<^verbatim>\<open>align_to_next\<close> returns the least multiple of the alignment that is not below the
  address, and \<^verbatim>\<open>align_to_previous\<close> the greatest one that is not above it. An alignment that is not
  a power of two is refused by the assertion.
\<close>

lemma align_bounds:
  assumes "unat v + (unat a - 1) < 2 ^ 64"
  shows "if \<exists>k<64. a = 2 ^ k
         then \<exists>up down. align_to_next v a = Inr up \<and> align_to_previous v a = Inr down
                \<and> unat a dvd unat up \<and> unat v \<le> unat up
                \<and> (\<forall>m. unat a dvd m \<and> unat v \<le> m \<longrightarrow> unat up \<le> m)
                \<and> unat a dvd unat down \<and> unat down \<le> unat v
                \<and> (\<forall>m. unat a dvd m \<and> m \<le> unat v \<longrightarrow> m \<le> unat down)
         else align_to_next v a = Inl Panic \<and> align_to_previous v a = Inl Panic"
proof (cases "\<exists>k<64. a = 2 ^ k")
  case True
  then obtain k where k: "k < 64" "a = 2 ^ k" by blast
  then have a: "unat a = 2 ^ k" by (simp add: unat_exp)
  obtain up where up: "align_to_next v a = Inr up"
      "unat up = (unat v + (2 ^ k - 1)) - (unat v + (2 ^ k - 1)) mod 2 ^ k"
    using align_to_next_unat [OF k(1), of v] assms a k(2) by auto
  obtain down where down: "align_to_previous v a = Inr down" "unat down = unat v - unat v mod 2 ^ k"
    using align_to_previous_unat [OF k(1), of v] k(2) by auto
  have d: "unat down = unat v div unat a * unat a" by (simp only: down(2) a minus_mod_eq_div_mult)
  have "m \<le> unat down" if "unat a dvd m" "m \<le> unat v" for m
  proof -
    have "m = m div unat a * unat a" using that(1) by (metis dvd_div_mult_self)
    also have "\<dots> \<le> unat v div unat a * unat a" by (intro mult_le_mono1 div_le_mono that(2))
    finally show ?thesis by (simp only: d)
  qed
  moreover have "unat a dvd unat down" "unat down \<le> unat v"
    by (simp_all only: d dvd_triv_right div_times_less_eq_dividend)
  moreover have "unat a dvd unat up" "unat v \<le> unat up"
    using round_up_bounds [of "2 ^ k" "unat v"] by (simp_all only: a up(2)) simp_all
  moreover have "unat up \<le> m" if "unat a dvd m" "unat v \<le> m" for m
    using round_up_least [of "2 ^ k" "unat v" m] that by (simp only: a up(2)) simp
  ultimately have "align_to_next v a = Inr up \<and> align_to_previous v a = Inr down
                \<and> unat a dvd unat up \<and> unat v \<le> unat up
                \<and> (\<forall>m. unat a dvd m \<and> unat v \<le> m \<longrightarrow> unat up \<le> m)
                \<and> unat a dvd unat down \<and> unat down \<le> unat v
                \<and> (\<forall>m. unat a dvd m \<and> m \<le> unat v \<longrightarrow> m \<le> unat down)"
    using up(1) down(1) by blast
  with True show ?thesis by (simp only: if_True) blast
next
  case False
  then have "\<not> is_power_of_two a" using is_power_of_two_iff [of a] by blast
  then have "align_to_next v a = Inl Panic \<and> align_to_previous v a = Inl Panic"
    by (simp add: align_to_next_def align_to_previous_def)
  with False show ?thesis by (simp only: if_False)
qed

text \<open>
  C6. The Newton iteration of \<^verbatim>\<open>isqrt\<close> ends for every 32-bit argument, its intermediate sums do not
  wrap, and the result is the integer square root: its square does not exceed the argument and the
  square of its successor does.
\<close>

theorem isqrt_is_floor_sqrt:
  "(unat (isqrt s))\<^sup>2 \<le> unat s \<and> unat s < (unat (isqrt s) + 1)\<^sup>2"
  using isqrt_root [of s] by (simp add: power2_eq_square)

end
