(* ===== verification/Bit_Array.thy ===== *)
theory Bit_Array
  imports Utils
begin

text \<open>
  \<^verbatim>\<open>libk::BitArray\<close> (\<^verbatim>\<open>lib/libk/src/bit_array.cpp\<close>): bits packed in an array of 64-bit words. The
  array is raw memory with no bounds check, so the model reads it as a function from the word
  index to the word stored there; a null \<^verbatim>\<open>m_array\<close> is \<open>None\<close>. The interface the page
  allocators rely on is the locale \<open>bit_store\<close>, interpreted here on the model.
\<close>

record bit_array =
  m_array :: "(nat \<Rightarrow> u64) option"
  m_bytes_size :: nat

subsection \<open>Operations\<close>

definition BitArray :: "(nat \<Rightarrow> u64) option \<Rightarrow> nat \<Rightarrow> bit_array" where
  "BitArray begin bytes_size = \<lparr>m_array = begin, m_bytes_size = bytes_size\<rparr>"

definition ba_get_bit :: "bit_array \<Rightarrow> nat \<Rightarrow> bool" where
  "ba_get_bit b index =
     (case m_array b of
        None \<Rightarrow> False
      | Some a \<Rightarrow> a (index div 64) AND push_bit (index mod 64) 1 \<noteq> 0)"

definition ba_set_bit :: "bit_array \<Rightarrow> nat \<Rightarrow> bool \<Rightarrow> bit_array" where
  "ba_set_bit b index value =
     (case m_array b of
        None \<Rightarrow> b
      | Some a \<Rightarrow>
          let v = a (index div 64) in
          if value
          then b\<lparr>m_array := Some (a(index div 64 := v OR push_bit (index mod 64) 1))\<rparr>
          else b\<lparr>m_array := Some (a(index div 64 := v AND NOT (push_bit (index mod 64) 1)))\<rparr>)"

text \<open>
  \<^verbatim>\<open>fill_array\<close> is \<^verbatim>\<open>memset(m_array, value ? 0xff : 0, m_bytes_size)\<close>: byte \<open>j\<close> of word \<open>w\<close> is
  byte \<open>8 * w + j\<close> of the array, so word \<open>w\<close> has its lowest \<open>m_bytes_size - 8 * w\<close> bytes
  written, at most eight.
\<close>

definition memset_word :: "bool \<Rightarrow> nat \<Rightarrow> u64 \<Rightarrow> u64" where
  "memset_word value k old =
     (let m = mask (8 * min 8 k) in if value then old OR m else old AND NOT m)"

definition ba_fill_array :: "bit_array \<Rightarrow> bool \<Rightarrow> bit_array" where
  "ba_fill_array b value =
     (case m_array b of
        None \<Rightarrow> b
      | Some a \<Rightarrow> b\<lparr>m_array := Some (\<lambda>w. memset_word value (m_bytes_size b - 8 * w) (a w))\<rparr>)"

subsection \<open>The interface of a bit store\<close>

locale bit_store =
  fixes live :: "'b \<Rightarrow> bool"
    and getb :: "'b \<Rightarrow> nat \<Rightarrow> bool"
    and setb :: "'b \<Rightarrow> nat \<Rightarrow> bool \<Rightarrow> 'b"
  assumes get_set: "live b \<Longrightarrow> getb (setb b i v) j = (if j = i then v else getb b j)"
    and live_set: "live b \<Longrightarrow> live (setb b i v)"
begin

text \<open>Writing one value to a run of indices.\<close>

lemma live_fold: "live b \<Longrightarrow> live (fold (\<lambda>i b. setb b i v) is b)"
  by (induction "is" arbitrary: b) (auto intro: live_set)

lemma get_fold:
  "live b \<Longrightarrow> getb (fold (\<lambda>i b. setb b i v) is b) j = (if j \<in> set is then v else getb b j)"
  by (induction "is" arbitrary: b) (auto simp: get_set live_set)

end

subsection \<open>The bit array provides it\<close>

definition non_null :: "bit_array \<Rightarrow> bool" where
  "non_null b \<longleftrightarrow> (\<exists>a. m_array b = Some a)"

lemma ba_get_bit_bit: "m_array b = Some a \<Longrightarrow> ba_get_bit b i \<longleftrightarrow> bit (a (i div 64)) (i mod 64)"
  by (simp add: ba_get_bit_def bit_iff_and_push_bit_not_eq_0)

lemma index_split: "i div 64 = j div 64 \<Longrightarrow> i mod 64 = j mod 64 \<Longrightarrow> i = (j::nat)"
  by (metis div_mult_mod_eq)

lemma ba_get_set_bit:
  assumes "non_null b"
  shows "ba_get_bit (ba_set_bit b i v) j = (if j = i then v else ba_get_bit b j)"
proof -
  obtain a where a: "m_array b = Some a" using assms by (auto simp: non_null_def)
  have lt: "j mod 64 < 64" "i mod 64 < 64" by simp_all
  show ?thesis
  proof (cases "j div 64 = i div 64")
    case True
    with lt show ?thesis
      using index_split [of j i]
      by (cases "j mod 64 = i mod 64")
        (auto simp: ba_get_bit_bit [OF a] ba_get_bit_bit ba_set_bit_def a Let_def bit_simps)
  next
    case False
    then have "j \<noteq> i" by auto
    with False show ?thesis by (auto simp: ba_get_bit_bit [OF a] ba_get_bit_bit ba_set_bit_def a Let_def)
  qed
qed

lemma non_null_ba_set_bit [simp]: "non_null (ba_set_bit b i v) \<longleftrightarrow> non_null b"
  by (auto simp: non_null_def ba_set_bit_def Let_def split: option.splits)

interpretation bits: bit_store non_null ba_get_bit ba_set_bit
  by unfold_locales (simp_all add: ba_get_set_bit)

lemma ba_get_bit_fill_array:
  assumes "non_null b" and "i < 8 * m_bytes_size b"
  shows "ba_get_bit (ba_fill_array b v) i = v"
proof -
  obtain a where a: "m_array b = Some a" using assms by (auto simp: non_null_def)
  let ?k = "m_bytes_size b - 8 * (i div 64)"
  have "i = 64 * (i div 64) + i mod 64" by simp
  then have "i mod 64 < 8 * ?k" using assms(2) by linarith
  moreover have lt: "i mod 64 < 64" by simp
  ultimately have bound: "i mod 64 < 8 * min 8 ?k" by (simp add: min_def)
  with lt have "bit (memset_word v ?k (a (i div 64))) (i mod 64) = v"
    by (auto simp: memset_word_def Let_def bit_simps)
  then show ?thesis by (simp add: ba_fill_array_def a ba_get_bit_bit)
qed

lemma non_null_ba_fill_array [simp]: "non_null (ba_fill_array b v) \<longleftrightarrow> non_null b"
  by (auto simp: non_null_def ba_fill_array_def split: option.splits)

lemma m_bytes_size_simps [simp]:
  "m_bytes_size (ba_set_bit b i v) = m_bytes_size b"
  "m_bytes_size (ba_fill_array b v) = m_bytes_size b"
  by (auto simp: ba_set_bit_def ba_fill_array_def Let_def split: option.splits)

end
