(* ===== verification/Page_Alloc.thy ===== *)
theory Page_Alloc
  imports Bit_Array
begin

text \<open>
  \<^verbatim>\<open>PageAlloc\<close> (\<^verbatim>\<open>kernel/memory/page_alloc.cpp\<close>): the physical pages of one memory section as the
  leaves of a binary tree stored in a bit array. Node \<open>i\<close> has the children \<open>2 * i\<close> and
  \<open>2 * i + 1\<close>, the leaf of page \<open>p\<close> is node \<open>m_nb_pages + p\<close>, and a set bit says that some page
  below the node is free. Addresses are relative to the section start. Tree indices stay below
  twice the number of pages, which is below \<open>2 ^ 53\<close> on a 64-bit machine, so they are natural
  numbers here.

  The contract a page allocator offers is the locale \<open>page_allocator\<close>; the tree provides it.
\<close>

definition PAGE_SIZE :: nat where
  "PAGE_SIZE = 4096"

record page_alloc =
  m_nb_pages :: nat
  m_mmap :: bit_array

subsection \<open>Operations\<close>

definition pa_memory_needed :: "nat \<Rightarrow> nat" where
  "pa_memory_needed nb_pages = (nb_pages * 2 + 8 - 1) div 8"

definition PageAlloc :: "nat \<Rightarrow> (nat \<Rightarrow> u64) option \<Rightarrow> page_alloc" where
  "PageAlloc nb_pages array =
     \<lparr>m_nb_pages = nb_pages,
      m_mmap = ba_set_bit (ba_fill_array (BitArray array (pa_memory_needed nb_pages)) True) 0 False\<rparr>"

definition pa_page_index :: "page_alloc \<Rightarrow> nat \<Rightarrow> nat" where
  "pa_page_index p addr = m_nb_pages p + addr div PAGE_SIZE"

definition pa_page_status :: "page_alloc \<Rightarrow> nat \<Rightarrow> bool" where
  "pa_page_status p addr = ba_get_bit (m_mmap p) (pa_page_index p addr)"

fun mark_loop :: "bit_array \<Rightarrow> bool \<Rightarrow> nat \<Rightarrow> bit_array" where
  "mark_loop m side_value index =
     (if \<not> side_value \<and> index \<noteq> 0
      then let m' = ba_set_bit m index False
           in mark_loop m' (ba_get_bit m' (index XOR 1)) (index div 2)
      else m)"

definition pa_mark_as_used :: "page_alloc \<Rightarrow> nat \<Rightarrow> page_alloc" where
  "pa_mark_as_used p addr = p\<lparr>m_mmap := mark_loop (m_mmap p) False (pa_page_index p addr)\<rparr>"

fun free_loop :: "bit_array \<Rightarrow> nat \<Rightarrow> bit_array" where
  "free_loop m index =
     (if index \<noteq> 0
      then if ba_get_bit m index then m
           else free_loop (ba_set_bit m index True) (index div 2)
      else m)"

definition pa_free_page :: "page_alloc \<Rightarrow> nat \<Rightarrow> page_alloc" where
  "pa_free_page p addr = p\<lparr>m_mmap := free_loop (m_mmap p) (pa_page_index p addr)\<rparr>"

text \<open>
  The \<^verbatim>\<open>while (true)\<close> of \<^verbatim>\<open>fresh_page\<close>. The result is \<open>None\<close> when the loop does not end,
  \<open>Some None\<close> for \<^verbatim>\<open>return false\<close> and \<open>Some (Some i)\<close> when leaf \<open>i\<close> is chosen.
\<close>

partial_function (option) fresh_search :: "bit_array \<Rightarrow> nat \<Rightarrow> nat \<Rightarrow> nat option option" where
  "fresh_search m n index =
     (if ba_get_bit m index
      then if index \<ge> n then Some (Some index) else fresh_search m n (index * 2)
      else if index mod 2 = 1 then Some None
      else fresh_search m n (index + 1))"

definition pa_fresh_page :: "page_alloc \<Rightarrow> (nat option \<times> page_alloc) outcome" where
  "pa_fresh_page p =
     (case fresh_search (m_mmap p) (m_nb_pages p) 1 of
        None \<Rightarrow> Inl Diverges
      | Some None \<Rightarrow> Inr (None, p)
      | Some (Some index) \<Rightarrow>
          let addr = (index - m_nb_pages p) * PAGE_SIZE
          in Inr (Some addr, pa_mark_as_used p addr))"

declare mark_loop.simps [simp del] free_loop.simps [simp del]

subsection \<open>The tree invariant\<close>

definition node_ok :: "bit_array \<Rightarrow> nat \<Rightarrow> bool" where
  "node_ok m i \<longleftrightarrow> (ba_get_bit m i \<longleftrightarrow> ba_get_bit m (2 * i) \<or> ba_get_bit m (2 * i + 1))"

definition tree_ok :: "bit_array \<Rightarrow> nat \<Rightarrow> bool" where
  "tree_ok m n \<longleftrightarrow> non_null m \<and> 0 < n \<and> \<not> ba_get_bit m 0 \<and> (\<forall>i. 1 \<le> i \<and> i < n \<longrightarrow> node_ok m i)"

definition page_alloc_inv :: "page_alloc \<Rightarrow> bool" where
  "page_alloc_inv p \<longleftrightarrow> tree_ok (m_mmap p) (m_nb_pages p)"

definition pa_managed :: "page_alloc \<Rightarrow> nat set" where
  "pa_managed p = {i * PAGE_SIZE | i. i < m_nb_pages p}"

definition pa_free_set :: "page_alloc \<Rightarrow> nat set" where
  "pa_free_set p = {i * PAGE_SIZE | i. i < m_nb_pages p \<and> ba_get_bit (m_mmap p) (m_nb_pages p + i)}"

text \<open>The tree while a bit travels upwards: every node but \<open>k\<close> agrees with its children.\<close>

definition tree_ok_but :: "bit_array \<Rightarrow> nat \<Rightarrow> nat \<Rightarrow> bool" where
  "tree_ok_but m n k \<longleftrightarrow>
     non_null m \<and> 0 < n \<and> \<not> ba_get_bit m 0 \<and> (\<forall>i. 1 \<le> i \<and> i < n \<and> i \<noteq> k \<longrightarrow> node_ok m i)"

lemma tree_ok_but_leaf: "tree_ok m n \<Longrightarrow> n \<le> k \<Longrightarrow> tree_ok_but m n k"
  by (auto simp: tree_ok_def tree_ok_but_def)

lemma tree_ok_but_0: "tree_ok_but m n 0 \<Longrightarrow> tree_ok m n"
  by (auto simp: tree_ok_def tree_ok_but_def)

lemma tree_ok_butI: "tree_ok_but m n k \<Longrightarrow> (1 \<le> k \<Longrightarrow> k < n \<Longrightarrow> node_ok m k) \<Longrightarrow> tree_ok m n"
  unfolding tree_ok_def tree_ok_but_def by blast

lemma node_ok_set_other:
  "non_null m \<Longrightarrow> node_ok m i \<Longrightarrow> i \<noteq> k \<Longrightarrow> i \<noteq> k div 2 \<Longrightarrow> node_ok (ba_set_bit m k v) i"
  by (auto simp: node_ok_def bits.get_set)

text \<open>After node \<open>k\<close> is written, only its parent can disagree, if \<open>k\<close> agrees with its children.\<close>

lemma tree_ok_but_set:
  assumes "tree_ok_but m n k" and "k \<noteq> 0" and "k < n \<Longrightarrow> node_ok (ba_set_bit m k v) k"
  shows "tree_ok_but (ba_set_bit m k v) n (k div 2)"
  using assms by (auto simp: tree_ok_but_def bits.get_set intro: node_ok_set_other)

lemma sibling: "(k::nat) XOR Suc 0 = (if even k then Suc k else k - 1)"
  by (auto simp: xor_Suc_0_eq)

lemma sibling_children:
  fixes k :: nat
  assumes "2 \<le> k"
  shows "{k, k XOR 1} = {2 * (k div 2), 2 * (k div 2) + 1}"
proof (cases "even k")
  case False
  then obtain j where "k = 2 * j + 1" by (blast elim: oddE)
  then show ?thesis by (auto simp: sibling)
qed (auto simp: sibling)

lemma node_ok_parent_iff:
  assumes "2 \<le> k"
  shows "node_ok m (k div 2) \<longleftrightarrow> (ba_get_bit m (k div 2) \<longleftrightarrow> ba_get_bit m k \<or> ba_get_bit m (k XOR 1))"
  using sibling_children [OF assms] unfolding node_ok_def doubleton_eq_iff by metis

lemma mark_loop_stop [simp]: "mark_loop m True k = m" "mark_loop m b 0 = m"
  by (simp_all add: mark_loop.simps)

subsection \<open>Marking a page as used\<close>

lemma mark_loop_correct:
  assumes "tree_ok_but m n k" and "1 \<le> k" and "k < 2 * n"
    and "k < n \<Longrightarrow> \<not> ba_get_bit m (2 * k) \<and> \<not> ba_get_bit m (2 * k + 1)"
  shows "tree_ok (mark_loop m False k) n
       \<and> (\<forall>j\<ge>n. ba_get_bit (mark_loop m False k) j \<longleftrightarrow> j \<noteq> k \<and> ba_get_bit m j)"
  using assms
proof (induction k arbitrary: m rule: less_induct)
  case (less k)
  define m' where "m' = ba_set_bit m k False"
  have nn: "non_null m" using less.prems(1) by (simp add: tree_ok_but_def)
  have get: "ba_get_bit m' j = (j \<noteq> k \<and> ba_get_bit m j)" for j
    by (simp add: m'_def bits.get_set [OF nn])
  have but: "tree_ok_but m' n (k div 2)"
    unfolding m'_def using less.prems(1,2,4) nn
    by (intro tree_ok_but_set) (auto simp: node_ok_def bits.get_set)
  have unfold: "mark_loop m False k = mark_loop m' (ba_get_bit m' (k XOR 1)) (k div 2)"
    using less.prems(2) by (simp add: mark_loop.simps [of m False k] m'_def Let_def)
  show ?case
  proof (cases "k = 1")
    case True
    with but have "tree_ok m' n" by (simp add: tree_ok_but_0)
    moreover have "mark_loop m False k = m'"
      unfolding unfold using True by simp
    ultimately show ?thesis using get by simp
  next
    case False
    then have k2: "2 \<le> k" using less.prems(2) by simp
    then have p: "k div 2 < k" "1 \<le> k div 2" "k div 2 < n" using less.prems(3) by auto
    show ?thesis
    proof (cases "ba_get_bit m' (k XOR 1)")
      case True
      have "node_ok m' (k div 2)"
      proof (cases "k div 2 = k")
        case False
        have "node_ok m (k div 2)" using less.prems(1) p by (simp add: tree_ok_but_def)
        then show ?thesis using True p(1) k2 by (simp add: node_ok_parent_iff get)
      qed (use p in simp)
      with but have "tree_ok m' n" by (blast intro: tree_ok_butI)
      moreover have "mark_loop m False k = m'" unfolding unfold using True by simp
      ultimately show ?thesis using get by simp
    next
      case False
      have "\<not> ba_get_bit m' k" by (simp add: get)
      with False sibling_children [OF k2]
      have "\<not> ba_get_bit m' (2 * (k div 2)) \<and> \<not> ba_get_bit m' (2 * (k div 2) + 1)"
        by (metis insertI1 insert_iff singletonD)
      from less.IH [OF p(1) but p(2) _ this] p(3)
      have "tree_ok (mark_loop m' False (k div 2)) n
         \<and> (\<forall>j\<ge>n. ba_get_bit (mark_loop m' False (k div 2)) j \<longleftrightarrow> j \<noteq> k div 2 \<and> ba_get_bit m' j)"
        by simp
      moreover have "mark_loop m False k = mark_loop m' False (k div 2)" unfolding unfold using False by simp
      ultimately show ?thesis using p(3) get by auto
    qed
  qed
qed

subsection \<open>Freeing a page\<close>

lemma free_loop_correct:
  assumes "tree_ok_but m n k" and "k < 2 * n"
    and "1 \<le> k \<Longrightarrow> k < n \<Longrightarrow> ba_get_bit m (2 * k) \<or> ba_get_bit m (2 * k + 1)"
  shows "tree_ok (free_loop m k) n
       \<and> (\<forall>j\<ge>n. ba_get_bit (free_loop m k) j \<longleftrightarrow> j = k \<and> k \<noteq> 0 \<or> ba_get_bit m j)"
  using assms
proof (induction k arbitrary: m rule: less_induct)
  case (less k)
  have nn: "non_null m" and n: "0 < n" using less.prems(1) by (simp_all add: tree_ok_but_def)
  consider "k = 0" | "k \<noteq> 0" "ba_get_bit m k" | "k \<noteq> 0" "\<not> ba_get_bit m k" by blast
  then show ?case
  proof cases
    case 1
    then show ?thesis using less.prems(1) by (auto simp: free_loop.simps tree_ok_but_0)
  next
    case 2
    then have "tree_ok m n"
      using less.prems(1,3) by (intro tree_ok_butI) (auto simp: node_ok_def)
    with 2 show ?thesis by (auto simp: free_loop.simps [of m k])
  next
    case 3
    define m' where "m' = ba_set_bit m k True"
    have get: "ba_get_bit m' j = (j = k \<or> ba_get_bit m j)" for j
      by (simp add: m'_def bits.get_set [OF nn])
    have but: "tree_ok_but m' n (k div 2)"
      unfolding m'_def using less.prems(1,3) nn 3
      by (intro tree_ok_but_set) (auto simp: node_ok_def bits.get_set)
    have child: "ba_get_bit m' (2 * (k div 2)) \<or> ba_get_bit m' (2 * (k div 2) + 1)"
      using get by (metis even_two_times_div_two odd_two_times_div_two_succ)
    have "k div 2 < k" "k div 2 < n" using 3 less.prems(2) by auto
    with less.IH [OF this(1) but _ child]
    have "tree_ok (free_loop m' (k div 2)) n
       \<and> (\<forall>j\<ge>n. ba_get_bit (free_loop m' (k div 2)) j \<longleftrightarrow> ba_get_bit m' j)" by auto
    then show ?thesis using 3 get by (auto simp: free_loop.simps [of m k] m'_def)
  qed
qed

subsection \<open>Searching a free page\<close>

lemma fresh_search_found:
  assumes "tree_ok m n" and "1 \<le> k" and "k < 2 * n"
    and "ba_get_bit m k \<or> even k \<and> ba_get_bit m (k + 1)"
  shows "\<exists>i. fresh_search m n k = Some (Some i) \<and> n \<le> i \<and> i < 2 * n \<and> ba_get_bit m i"
  using assms(2-4)
proof (induction "2 * n - k" arbitrary: k rule: less_induct)
  case less
  note unfold = fresh_search.simps [of m n k]
  consider (leaf) "ba_get_bit m k" "n \<le> k" | (inner) "ba_get_bit m k" "k < n"
    | (right) "\<not> ba_get_bit m k" by linarith
  then show ?case
  proof cases
    case leaf
    then show ?thesis using less.prems by (auto simp: unfold)
  next
    case inner
    then have "node_ok m k" using assms(1) less.prems(1) by (simp add: tree_ok_def)
    with inner have "ba_get_bit m (k * 2) \<or> even (k * 2) \<and> ba_get_bit m (k * 2 + 1)"
      by (auto simp: node_ok_def mult.commute)
    with less.hyps [of "k * 2"] less.prems inner show ?thesis by (auto simp: unfold)
  next
    case right
    with less.prems(3) have ev: "even k" and set: "ba_get_bit m (k + 1)" by auto
    with less.prems(2) have "k + 1 < 2 * n" by (metis Suc_eq_plus1 Suc_lessI dvd_triv_left even_Suc)
    with less.hyps [of "k + 1"] less.prems set ev right show ?thesis by (auto simp: unfold)
  qed
qed

lemma leaf_reaches_root:
  assumes "tree_ok m n" and "1 \<le> j" and "j < 2 * n" and "ba_get_bit m j"
  shows "ba_get_bit m 1"
  using assms(2-4)
proof (induction j rule: less_induct)
  case (less j)
  show ?case
  proof (cases "j = 1")
    case False
    then have j: "2 \<le> j" "1 \<le> j div 2" "j div 2 < n" using less.prems by auto
    then have "node_ok m (j div 2)" using assms(1) by (simp add: tree_ok_def)
    with less.prems(3) j(1) have "ba_get_bit m (j div 2)" by (simp add: node_ok_parent_iff)
    then show ?thesis using less.IH [of "j div 2"] j by simp
  qed (use less.prems in simp)
qed

lemma fresh_search_none: "\<not> ba_get_bit m (Suc 0) \<Longrightarrow> fresh_search m n (Suc 0) = Some None"
  by (simp add: fresh_search.simps [of m n "Suc 0"])

subsection \<open>The operations on the whole allocator\<close>

lemma page_index_leaf: "i < m_nb_pages p \<Longrightarrow> pa_page_index p (i * PAGE_SIZE) = m_nb_pages p + i"
  by (simp add: pa_page_index_def PAGE_SIZE_def)

lemma PAGE_SIZE_pos [simp]: "0 < PAGE_SIZE" "PAGE_SIZE \<noteq> 0"
  by (simp_all add: PAGE_SIZE_def)

lemma m_nb_pages_simps [simp]:
  "m_nb_pages (pa_mark_as_used p a) = m_nb_pages p"
  "m_nb_pages (pa_free_page p a) = m_nb_pages p"
  by (simp_all add: pa_mark_as_used_def pa_free_page_def)

lemma pa_managed_simps [simp]:
  "pa_managed (pa_mark_as_used p a) = pa_managed p"
  "pa_managed (pa_free_page p a) = pa_managed p"
  by (simp_all add: pa_managed_def)

lemma mem_pa_managed: "a \<in> pa_managed p \<longleftrightarrow> (\<exists>i<m_nb_pages p. a = i * PAGE_SIZE)"
  by (auto simp: pa_managed_def)

lemma pa_mark_as_used_correct:
  assumes inv: "page_alloc_inv p" and a: "a \<in> pa_managed p"
  shows "page_alloc_inv (pa_mark_as_used p a)" and "pa_free_set (pa_mark_as_used p a) = pa_free_set p - {a}"
proof -
  obtain i where i: "i < m_nb_pages p" "a = i * PAGE_SIZE" using a by (auto simp: mem_pa_managed)
  let ?n = "m_nb_pages p" and ?m = "m_mmap p"
  have "tree_ok (mark_loop ?m False (?n + i)) ?n
     \<and> (\<forall>j\<ge>?n. ba_get_bit (mark_loop ?m False (?n + i)) j \<longleftrightarrow> j \<noteq> ?n + i \<and> ba_get_bit ?m j)"
    using inv i(1) by (intro mark_loop_correct tree_ok_but_leaf) (auto simp: page_alloc_inv_def tree_ok_def)
  then show "page_alloc_inv (pa_mark_as_used p a)"
    and "pa_free_set (pa_mark_as_used p a) = pa_free_set p - {a}"
    using i by (auto simp: page_alloc_inv_def pa_mark_as_used_def page_index_leaf pa_free_set_def)
qed

lemma pa_free_page_correct:
  assumes inv: "page_alloc_inv p" and a: "a \<in> pa_managed p"
  shows "page_alloc_inv (pa_free_page p a)" and "pa_free_set (pa_free_page p a) = insert a (pa_free_set p)"
proof -
  obtain i where i: "i < m_nb_pages p" "a = i * PAGE_SIZE" using a by (auto simp: mem_pa_managed)
  let ?n = "m_nb_pages p" and ?m = "m_mmap p"
  have "tree_ok (free_loop ?m (?n + i)) ?n
     \<and> (\<forall>j\<ge>?n. ba_get_bit (free_loop ?m (?n + i)) j \<longleftrightarrow> j = ?n + i \<and> ?n + i \<noteq> 0 \<or> ba_get_bit ?m j)"
    using inv i(1) by (intro free_loop_correct tree_ok_but_leaf) (auto simp: page_alloc_inv_def tree_ok_def)
  then show "page_alloc_inv (pa_free_page p a)"
    and "pa_free_set (pa_free_page p a) = insert a (pa_free_set p)"
    using i by (auto simp: page_alloc_inv_def pa_free_page_def page_index_leaf pa_free_set_def)
qed

lemma pa_fresh_page_correct:
  assumes inv: "page_alloc_inv p"
  shows "pa_free_set p = {} \<and> pa_fresh_page p = Inr (None, p)
       \<or> (\<exists>a\<in>pa_free_set p. pa_fresh_page p = Inr (Some a, pa_mark_as_used p a))"
proof (cases "ba_get_bit (m_mmap p) 1")
  case True
  let ?n = "m_nb_pages p" and ?m = "m_mmap p"
  have ok: "tree_ok ?m ?n" using inv by (simp add: page_alloc_inv_def)
  then have "(1::nat) < 2 * ?n" by (simp add: tree_ok_def)
  from fresh_search_found [OF ok _ this] True obtain i where
    i: "fresh_search ?m ?n 1 = Some (Some i)" "?n \<le> i" "i < 2 * ?n" "ba_get_bit ?m i" by auto
  have "(i - ?n) * PAGE_SIZE \<in> pa_free_set p"
    using i by (auto simp: pa_free_set_def intro!: exI [of _ "i - ?n"])
  with i show ?thesis by (auto simp: pa_fresh_page_def Let_def)
next
  case False
  have "pa_free_set p = {}"
    using leaf_reaches_root [of "m_mmap p" "m_nb_pages p"] inv False
    by (fastforce simp: pa_free_set_def page_alloc_inv_def tree_ok_def)
  with False show ?thesis by (simp add: pa_fresh_page_def fresh_search_none)
qed

text \<open>The constructor starts with every page free.\<close>

lemma PageAlloc_bits:
  assumes "i < 2 * n"
  shows "ba_get_bit (m_mmap (PageAlloc n (Some a))) i \<longleftrightarrow> i \<noteq> 0"
proof -
  let ?b = "BitArray (Some a) (pa_memory_needed n)"
  have nn: "non_null ?b" by (simp add: non_null_def BitArray_def)
  have "i < 8 * m_bytes_size ?b"
    using assms by (simp add: BitArray_def pa_memory_needed_def)
  with nn show ?thesis
    by (auto simp: PageAlloc_def bits.get_set ba_get_bit_fill_array)
qed

lemma PageAlloc_correct:
  assumes "0 < n"
  shows "page_alloc_inv (PageAlloc n (Some a))"
    and "pa_free_set (PageAlloc n (Some a)) = pa_managed (PageAlloc n (Some a))"
proof -
  have nn: "non_null (m_mmap (PageAlloc n (Some a)))"
    by (simp add: PageAlloc_def) (simp add: non_null_def BitArray_def)
  have n: "m_nb_pages (PageAlloc n (Some a)) = n" by (simp add: PageAlloc_def)
  show "page_alloc_inv (PageAlloc n (Some a))"
    using assms nn n by (auto simp: page_alloc_inv_def tree_ok_def node_ok_def PageAlloc_bits)
  show "pa_free_set (PageAlloc n (Some a)) = pa_managed (PageAlloc n (Some a))"
    using assms n by (auto simp: pa_free_set_def pa_managed_def PageAlloc_bits)
qed

subsection \<open>The contract of a page allocator\<close>

text \<open>
  A client that allocates and gives back pages. Giving back a page the client does not hold is
  not part of the protocol and is skipped.
\<close>

datatype page_op = Fresh | Release nat

fun page_run ::
  "('s \<Rightarrow> (nat option \<times> 's) outcome) \<Rightarrow> ('s \<Rightarrow> nat \<Rightarrow> 's) \<Rightarrow> page_op list \<Rightarrow> 's \<times> nat list \<Rightarrow> ('s \<times> nat list) outcome"
where
  "page_run fresh release [] st = Inr st"
| "page_run fresh release (Fresh # ops) (s, own) =
     bindE (fresh s) (\<lambda>(r, s'). page_run fresh release ops (s', case r of None \<Rightarrow> own | Some a \<Rightarrow> a # own))"
| "page_run fresh release (Release a # ops) (s, own) =
     (if a \<in> set own then page_run fresh release ops (release s a, removeAll a own)
      else page_run fresh release ops (s, own))"

locale page_allocator =
  fixes inv :: "'s \<Rightarrow> bool"
    and managed :: "'s \<Rightarrow> nat set"
    and free_pages :: "'s \<Rightarrow> nat set"
    and fresh :: "'s \<Rightarrow> (nat option \<times> 's) outcome"
    and release :: "'s \<Rightarrow> nat \<Rightarrow> 's"
  assumes free_managed: "inv s \<Longrightarrow> free_pages s \<subseteq> managed s"
    and fresh_cases: "inv s \<Longrightarrow>
          free_pages s = {} \<and> fresh s = Inr (None, s)
          \<or> (\<exists>a s'. a \<in> free_pages s \<and> fresh s = Inr (Some a, s') \<and> inv s'
               \<and> managed s' = managed s \<and> free_pages s' = free_pages s - {a})"
    and release_inv: "inv s \<Longrightarrow> a \<in> managed s \<Longrightarrow> inv (release s a)"
    and release_managed: "inv s \<Longrightarrow> a \<in> managed s \<Longrightarrow> managed (release s a) = managed s"
    and release_free: "inv s \<Longrightarrow> a \<in> managed s \<Longrightarrow> free_pages (release s a) = insert a (free_pages s)"
begin

text \<open>Pages are never handed out twice, and none is lost.\<close>

definition accounts :: "nat set \<Rightarrow> 's \<times> nat list \<Rightarrow> bool" where
  "accounts all st = (case st of (s, own) \<Rightarrow>
     inv s \<and> distinct own \<and> set own \<subseteq> managed s
     \<and> set own \<inter> free_pages s = {} \<and> set own \<union> free_pages s = all)"

lemma accounts_fresh:
  assumes "accounts all (s, own)"
  shows "\<exists>r s'. fresh s = Inr (r, s') \<and> accounts all (s', case r of None \<Rightarrow> own | Some a \<Rightarrow> a # own)"
proof -
  have inv: "inv s" using assms by (simp add: accounts_def)
  from fresh_cases [OF inv] show ?thesis
  proof
    assume "free_pages s = {} \<and> fresh s = Inr (None, s)"
    with assms show ?thesis by auto
  next
    assume "\<exists>a s'. a \<in> free_pages s \<and> fresh s = Inr (Some a, s') \<and> inv s'
               \<and> managed s' = managed s \<and> free_pages s' = free_pages s - {a}"
    then obtain a s' where a: "a \<in> free_pages s" "fresh s = Inr (Some a, s')" "inv s'"
      "managed s' = managed s" "free_pages s' = free_pages s - {a}" by blast
    with assms free_managed [OF inv] have "accounts all (s', a # own)"
      by (auto simp: accounts_def)
    with a(2) show ?thesis by auto
  qed
qed

lemma accounts_release:
  assumes "accounts all (s, own)" and "a \<in> set own"
  shows "accounts all (release s a, removeAll a own)"
proof -
  have "inv s" "a \<in> managed s" using assms by (auto simp: accounts_def)
  then show ?thesis
    using assms by (auto simp: accounts_def release_inv release_managed release_free distinct_removeAll)
qed

lemma page_run_accounts:
  "accounts all (s, own) \<Longrightarrow> \<exists>st'. page_run fresh release ops (s, own) = Inr st' \<and> accounts all st'"
proof (induction ops arbitrary: s own)
  case Nil
  then show ?case by simp
next
  case (Cons op ops)
  show ?case
  proof (cases op)
    case Fresh
    obtain r s' where "fresh s = Inr (r, s')"
      "accounts all (s', case r of None \<Rightarrow> own | Some a \<Rightarrow> a # own)"
      using accounts_fresh [OF Cons.prems] by blast
    with Cons.IH Fresh show ?thesis by simp
  next
    case (Release a)
    with Cons accounts_release [OF Cons.prems] show ?thesis by simp
  qed
qed

text \<open>A page given back is available again, and a fresh page leaves every other page alone.\<close>

lemma fresh_then_release:
  assumes "inv s" and "fresh s = Inr (Some a, s')"
  shows "inv (release s' a) \<and> free_pages (release s' a) = free_pages s"
proof -
  obtain "a \<in> free_pages s" "inv s'" "managed s' = managed s" "free_pages s' = free_pages s - {a}"
    using fresh_cases [OF assms(1)] assms(2) by auto
  then show ?thesis using free_managed [OF assms(1)] by (auto simp: release_inv release_free)
qed

end

interpretation pa: page_allocator page_alloc_inv pa_managed pa_free_set pa_fresh_page pa_free_page
proof
  fix s a
  assume inv: "page_alloc_inv s"
  show "pa_free_set s \<subseteq> pa_managed s" by (auto simp: pa_free_set_def pa_managed_def)
  then show "pa_free_set s = {} \<and> pa_fresh_page s = Inr (None, s)
          \<or> (\<exists>a s'. a \<in> pa_free_set s \<and> pa_fresh_page s = Inr (Some a, s') \<and> page_alloc_inv s'
               \<and> pa_managed s' = pa_managed s \<and> pa_free_set s' = pa_free_set s - {a})"
    using pa_fresh_page_correct [OF inv] pa_mark_as_used_correct [OF inv] by auto
  assume a: "a \<in> pa_managed s"
  show "page_alloc_inv (pa_free_page s a)" "pa_managed (pa_free_page s a) = pa_managed s"
    "pa_free_set (pa_free_page s a) = insert a (pa_free_set s)"
    using pa_free_page_correct [OF inv a] by simp_all
qed

subsection \<open>Properties\<close>

text \<open>
  C1. Any sequence of allocations and frees on a tree allocator with at least one page returns
  (no call loops or fails); at every point the pages the client holds are pairwise distinct and
  disjoint from the free ones, and together they are exactly the pages of the section.
\<close>

theorem page_alloc_no_double_allocation:
  assumes "0 < n"
  shows "\<exists>p own. page_run pa_fresh_page pa_free_page ops (PageAlloc n (Some mem), []) = Inr (p, own)
           \<and> page_alloc_inv p \<and> distinct own \<and> set own \<inter> pa_free_set p = {}
           \<and> set own \<union> pa_free_set p = {i * PAGE_SIZE | i. i < n}"
proof -
  have "pa.accounts (pa_managed (PageAlloc n (Some mem))) (PageAlloc n (Some mem), [])"
    using PageAlloc_correct [OF assms] by (simp add: pa.accounts_def)
  from pa.page_run_accounts [OF this, of ops] show ?thesis
    by (auto simp: pa.accounts_def pa_managed_def) (auto simp: PageAlloc_def)
qed

theorem page_alloc_no_double_allocation_witness:
  "\<exists>p own. page_run pa_fresh_page pa_free_page [Fresh, Fresh, Release 0, Fresh]
             (PageAlloc 3 (Some (\<lambda>_. 0)), []) = Inr (p, own)
     \<and> page_alloc_inv p \<and> distinct own \<and> set own \<inter> pa_free_set p = {}
     \<and> set own \<union> pa_free_set p = {i * PAGE_SIZE | i. i < 3}"
  by (rule page_alloc_no_double_allocation) simp

text \<open>
  C2. \<^verbatim>\<open>fresh_page\<close> on a well-formed allocator always returns. It fails exactly when no page is free;
  otherwise the page it returns was free, is used afterwards, and the status of every other page
  of the section is what it was.
\<close>

theorem fresh_page_complete:
  assumes "page_alloc_inv p"
  shows "if \<forall>i<m_nb_pages p. \<not> pa_page_status p (i * PAGE_SIZE)
         then pa_fresh_page p = Inr (None, p)
         else \<exists>i p'. i < m_nb_pages p \<and> pa_fresh_page p = Inr (Some (i * PAGE_SIZE), p')
                \<and> pa_page_status p (i * PAGE_SIZE) \<and> page_alloc_inv p'
                \<and> (\<forall>j<m_nb_pages p. pa_page_status p' (j * PAGE_SIZE)
                        \<longleftrightarrow> j \<noteq> i \<and> pa_page_status p (j * PAGE_SIZE))"
proof -
  have status: "i * PAGE_SIZE \<in> pa_free_set q \<longleftrightarrow> pa_page_status q (i * PAGE_SIZE)"
    if "i < m_nb_pages q" for q i
    using that by (auto simp: pa_free_set_def pa_page_status_def page_index_leaf)
  from pa_fresh_page_correct [OF assms] show ?thesis
  proof
    assume e: "pa_free_set p = {} \<and> pa_fresh_page p = Inr (None, p)"
    then have "\<forall>i<m_nb_pages p. \<not> pa_page_status p (i * PAGE_SIZE)" using status by blast
    with e show ?thesis by simp
  next
    assume "\<exists>a\<in>pa_free_set p. pa_fresh_page p = Inr (Some a, pa_mark_as_used p a)"
    then obtain a where a: "a \<in> pa_free_set p" "pa_fresh_page p = Inr (Some a, pa_mark_as_used p a)" ..
    then obtain i where i: "i < m_nb_pages p" "a = i * PAGE_SIZE" by (auto simp: pa_free_set_def)
    then have m: "a \<in> pa_managed p" by (auto simp: mem_pa_managed)
    have "pa_page_status (pa_mark_as_used p a) (j * PAGE_SIZE) \<longleftrightarrow> j \<noteq> i \<and> pa_page_status p (j * PAGE_SIZE)"
      if "j < m_nb_pages p" for j
      using that status [of j p] status [of j "pa_mark_as_used p a"] i
        pa_mark_as_used_correct(2) [OF assms m] by auto
    moreover have "pa_page_status p (i * PAGE_SIZE)" using a i status by blast
    ultimately show ?thesis using a(2) i pa_mark_as_used_correct(1) [OF assms m] by auto
  qed
qed

theorem fresh_page_complete_witness:
  "let p = PageAlloc 3 (Some (\<lambda>_. 0)) in
     if \<forall>i<m_nb_pages p. \<not> pa_page_status p (i * PAGE_SIZE)
     then pa_fresh_page p = Inr (None, p)
     else \<exists>i p'. i < m_nb_pages p \<and> pa_fresh_page p = Inr (Some (i * PAGE_SIZE), p')
            \<and> pa_page_status p (i * PAGE_SIZE) \<and> page_alloc_inv p'
            \<and> (\<forall>j<m_nb_pages p. pa_page_status p' (j * PAGE_SIZE)
                    \<longleftrightarrow> j \<noteq> i \<and> pa_page_status p (j * PAGE_SIZE))"
proof -
  have "page_alloc_inv (PageAlloc 3 (Some (\<lambda>_. 0)))" by (rule PageAlloc_correct) simp
  from fresh_page_complete [OF this] show ?thesis unfolding Let_def .
qed

end
