(* ===== verification/Page_Alloc_List.thy ===== *)
theory Page_Alloc_List
  imports Page_Alloc
begin

text \<open>
  \<^verbatim>\<open>PageAllocList\<close> (\<^verbatim>\<open>kernel/memory/page_alloc_list.cpp\<close>): one tree allocator per memory section of
  the device tree, in a singly linked list, here a list of sections. It is a client of the
  \<open>page_allocator\<close> contract of its sections and provides the same contract for all of them.
\<close>

record alloc_section =
  section_start :: nat
  section_stop :: nat
  alloc :: page_alloc

record page_alloc_list =
  contiguous_res_start :: nat
  contiguous_res_stop :: nat
  sections :: "alloc_section list"

subsection \<open>Operations\<close>

text \<open>
  \<^verbatim>\<open>add_allocator\<close> appends at \<^verbatim>\<open>_list_end\<close>. The list element comes from the boot-time linear
  allocator; \<open>None\<close> is its null result, which the code dereferences.
\<close>

definition add_allocator ::
  "page_alloc_list \<Rightarrow> addr option \<Rightarrow> nat \<Rightarrow> nat \<Rightarrow> nat \<Rightarrow> (nat \<Rightarrow> u64) option \<Rightarrow> page_alloc_list outcome"
where
  "add_allocator l new_elm page_start page_end nb_pages array =
     (case new_elm of
        None \<Rightarrow> Inl Undefined
      | Some _ \<Rightarrow>
          Inr (l\<lparr>sections := sections l @
                 [\<lparr>section_start = page_start, section_stop = page_end,
                   alloc = PageAlloc nb_pages array\<rparr>]\<rparr>))"

fun fresh_sections :: "alloc_section list \<Rightarrow> (nat option \<times> alloc_section list) outcome" where
  "fresh_sections [] = Inr (None, [])"
| "fresh_sections (cur # rest) =
     bindE (pa_fresh_page (alloc cur)) (\<lambda>(r, p).
       case r of
         Some a \<Rightarrow> Inr (Some (a + section_start cur), cur\<lparr>alloc := p\<rparr> # rest)
       | None \<Rightarrow> bindE (fresh_sections rest) (\<lambda>(r', rest'). Inr (r', cur\<lparr>alloc := p\<rparr> # rest')))"

definition pal_fresh_page :: "page_alloc_list \<Rightarrow> (nat option \<times> page_alloc_list) outcome" where
  "pal_fresh_page l = bindE (fresh_sections (sections l)) (\<lambda>(r, cs). Inr (r, l\<lparr>sections := cs\<rparr>))"

definition free_in_section :: "nat \<Rightarrow> alloc_section \<Rightarrow> alloc_section" where
  "free_in_section addr cur =
     (if section_start cur \<le> addr \<and> addr < section_stop cur
      then cur\<lparr>alloc := pa_free_page (alloc cur) (addr - section_start cur)\<rparr>
      else cur)"

definition pal_free_page :: "page_alloc_list \<Rightarrow> nat \<Rightarrow> page_alloc_list" where
  "pal_free_page l addr = l\<lparr>sections := map (free_in_section addr) (sections l)\<rparr>"

function mark_pages :: "page_alloc \<Rightarrow> nat \<Rightarrow> nat \<Rightarrow> nat \<Rightarrow> page_alloc" where
  "mark_pages p start page page_stop =
     (if page < page_stop
      then mark_pages (pa_mark_as_used p (page - start)) start (page + PAGE_SIZE) page_stop
      else p)"
  by pat_completeness auto
termination
  by (relation "measure (\<lambda>(p, s, page, stop). stop - page)") (auto simp: PAGE_SIZE_def)

declare mark_pages.simps [simp del]

definition mark_in_section :: "nat \<Rightarrow> nat \<Rightarrow> alloc_section \<Rightarrow> alloc_section" where
  "mark_in_section start stop cur =
     (if stop > section_start cur \<and> start < section_stop cur
      then let page_start = max_k start (section_start cur);
               page_stop = min_k stop (section_stop cur)
           in cur\<lparr>alloc := mark_pages (alloc cur) (section_start cur) page_start page_stop\<rparr>
      else cur)"

definition pal_mark_as_used_range :: "page_alloc_list \<Rightarrow> nat \<Rightarrow> nat \<Rightarrow> page_alloc_list" where
  "pal_mark_as_used_range l start stop =
     (if start \<ge> stop then l
      else l\<lparr>sections := map (mark_in_section start stop) (sections l)\<rparr>)"

subsection \<open>Invariant and views\<close>

definition section_inv :: "alloc_section \<Rightarrow> bool" where
  "section_inv c \<longleftrightarrow> page_alloc_inv (alloc c)
     \<and> section_stop c = section_start c + m_nb_pages (alloc c) * PAGE_SIZE"

definition section_managed :: "alloc_section \<Rightarrow> nat set" where
  "section_managed c = (\<lambda>a. a + section_start c) ` pa_managed (alloc c)"

definition section_free :: "alloc_section \<Rightarrow> nat set" where
  "section_free c = (\<lambda>a. a + section_start c) ` pa_free_set (alloc c)"

definition extents :: "alloc_section list \<Rightarrow> (nat \<times> nat) list" where
  "extents cs = map (\<lambda>c. (section_start c, section_stop c)) cs"

definition sections_disjoint :: "alloc_section list \<Rightarrow> bool" where
  "sections_disjoint cs \<longleftrightarrow> sorted_wrt (\<lambda>(a, b) (c, d). b \<le> c \<or> d \<le> a) (extents cs)"

definition pal_inv :: "page_alloc_list \<Rightarrow> bool" where
  "pal_inv l \<longleftrightarrow> (\<forall>c\<in>set (sections l). section_inv c) \<and> sections_disjoint (sections l)"

definition sections_managed :: "alloc_section list \<Rightarrow> nat set" where
  "sections_managed cs = \<Union> (section_managed ` set cs)"

definition sections_free :: "alloc_section list \<Rightarrow> nat set" where
  "sections_free cs = \<Union> (section_free ` set cs)"

definition pal_managed :: "page_alloc_list \<Rightarrow> nat set" where
  "pal_managed l = sections_managed (sections l)"

definition pal_free_set :: "page_alloc_list \<Rightarrow> nat set" where
  "pal_free_set l = sections_free (sections l)"

lemmas section_views = section_managed_def section_free_def sections_managed_def sections_free_def

subsection \<open>One section\<close>

lemma section_managed_range:
  "section_inv c \<Longrightarrow> a \<in> section_managed c \<Longrightarrow> section_start c \<le> a \<and> a < section_stop c"
  by (auto simp: section_inv_def section_managed_def mem_pa_managed)

lemma section_free_managed: "section_free c \<subseteq> section_managed c"
  by (auto simp: section_views pa_free_set_def pa_managed_def)

lemma free_in_section_outside [simp]:
  "\<not> (section_start c \<le> a \<and> a < section_stop c) \<Longrightarrow> free_in_section a c = c"
  by (auto simp: free_in_section_def)

lemma free_in_section_inside:
  assumes "section_inv c" and "a \<in> section_managed c"
  shows "section_inv (free_in_section a c)" and "section_free (free_in_section a c) = insert a (section_free c)"
proof -
  obtain b where b: "a = b + section_start c" "b \<in> pa_managed (alloc c)"
    using assms(2) by (auto simp: section_managed_def)
  have inv: "page_alloc_inv (alloc c)" using assms(1) by (simp add: section_inv_def)
  have eq: "free_in_section a c = c\<lparr>alloc := pa_free_page (alloc c) b\<rparr>"
    using section_managed_range [OF assms] b(1) by (simp add: free_in_section_def)
  show "section_inv (free_in_section a c)"
    using assms(1) pa.release_inv [OF inv b(2)] unfolding eq by (simp add: section_inv_def)
  show "section_free (free_in_section a c) = insert a (section_free c)"
    using pa.release_free [OF inv b(2)] b(1) unfolding eq by (simp add: section_free_def)
qed

lemma free_in_section_frame [simp]:
  "section_start (free_in_section a c) = section_start c"
  "section_stop (free_in_section a c) = section_stop c"
  "section_managed (free_in_section a c) = section_managed c"
  by (simp_all add: free_in_section_def section_managed_def)

subsection \<open>The list provides the contract\<close>

lemma sections_disjoint_managed:
  assumes "sections_disjoint (c # cs)" and "\<forall>d\<in>set (c # cs). section_inv d"
  shows "section_managed c \<inter> sections_managed cs = {}"
proof -
  have "section_managed c \<inter> section_managed d = {}" if d: "d \<in> set cs" for d
  proof -
    have "section_stop c \<le> section_start d \<or> section_stop d \<le> section_start c"
      using assms(1) d by (auto simp: sections_disjoint_def extents_def)
    then show ?thesis
      using section_managed_range [of c] section_managed_range [of d] assms(2) d by fastforce
  qed
  then show ?thesis by (auto simp: sections_managed_def)
qed

lemma sections_disjoint_tl: "sections_disjoint (c # cs) \<Longrightarrow> sections_disjoint cs"
  by (simp add: sections_disjoint_def extents_def)

lemma sections_free_sub: "sections_free cs \<subseteq> sections_managed cs"
  using section_free_managed by (fastforce simp: sections_free_def sections_managed_def)

lemma sections_Cons [simp]:
  "sections_free (c # cs) = section_free c \<union> sections_free cs"
  "sections_managed (c # cs) = section_managed c \<union> sections_managed cs"
  by (simp_all add: sections_free_def sections_managed_def)

lemma sections_Nil [simp]: "sections_free [] = {}" "sections_managed [] = {}"
  by (simp_all add: sections_free_def sections_managed_def)

text \<open>What a successful \<^verbatim>\<open>fresh_page\<close> does to the list of sections.\<close>

definition took :: "nat \<Rightarrow> alloc_section list \<Rightarrow> alloc_section list \<Rightarrow> bool" where
  "took a cs cs' \<longleftrightarrow> a \<in> sections_free cs \<and> (\<forall>c\<in>set cs'. section_inv c) \<and> extents cs' = extents cs
     \<and> sections_managed cs' = sections_managed cs \<and> sections_free cs' = sections_free cs - {a}"

lemma took_head:
  assumes disj: "sections_disjoint (c # cs)" and inv: "\<forall>d\<in>set (c # cs). section_inv d"
    and a: "a \<in> pa_free_set (alloc c)" "page_alloc_inv p" "pa_managed p = pa_managed (alloc c)"
      "pa_free_set p = pa_free_set (alloc c) - {a}" "m_nb_pages p = m_nb_pages (alloc c)"
  shows "took (a + section_start c) (c # cs) (c\<lparr>alloc := p\<rparr> # cs)"
proof -
  have here: "a + section_start c \<in> section_free c" using a(1) by (auto simp: section_free_def)
  then have "a + section_start c \<notin> sections_free cs"
    using sections_disjoint_managed [OF disj inv] section_free_managed sections_free_sub by blast
  moreover have "section_free (c\<lparr>alloc := p\<rparr>) = section_free c - {a + section_start c}"
    using a(4) image_set_diff [of "\<lambda>x. x + section_start c" "pa_free_set (alloc c)" "{a}"]
    by (simp add: section_free_def inj_def)
  moreover have "section_managed (c\<lparr>alloc := p\<rparr>) = section_managed c"
    using a(3) by (simp add: section_managed_def)
  ultimately show ?thesis
    using here inv a(2,5) by (auto simp: took_def extents_def section_inv_def)
qed

lemma took_tail:
  assumes disj: "sections_disjoint (c # cs)" and inv: "\<forall>d\<in>set (c # cs). section_inv d"
    and t: "took a cs cs'" and e: "section_free c = {}"
  shows "took a (c # cs) (c # cs')"
  using assms by (auto simp: took_def extents_def)

lemma pa_fresh_page_nb_pages:
  assumes "page_alloc_inv p" and "pa_fresh_page p = Inr (Some a, q)"
  shows "m_nb_pages q = m_nb_pages p"
  using pa_fresh_page_correct [OF assms(1)] assms(2) by auto

lemma fresh_sections_correct:
  assumes "\<forall>c\<in>set cs. section_inv c" and "sections_disjoint cs"
  shows "sections_free cs = {} \<and> fresh_sections cs = Inr (None, cs)
       \<or> (\<exists>a cs'. fresh_sections cs = Inr (Some a, cs') \<and> took a cs cs')"
  using assms
proof (induction cs)
  case Nil
  then show ?case by simp
next
  case (Cons c cs)
  have inv: "page_alloc_inv (alloc c)" using Cons.prems by (simp add: section_inv_def)
  from pa.fresh_cases [OF inv] show ?case
  proof
    assume e: "pa_free_set (alloc c) = {} \<and> pa_fresh_page (alloc c) = Inr (None, alloc c)"
    then have empty: "section_free c = {}" by (simp add: section_free_def)
    have "sections_free cs = {} \<and> fresh_sections cs = Inr (None, cs)
       \<or> (\<exists>a cs'. fresh_sections cs = Inr (Some a, cs') \<and> took a cs cs')"
      using Cons.prems sections_disjoint_tl by (intro Cons.IH) auto
    then show ?thesis
    proof
      assume "sections_free cs = {} \<and> fresh_sections cs = Inr (None, cs)"
      with e empty show ?thesis by simp
    next
      assume "\<exists>a cs'. fresh_sections cs = Inr (Some a, cs') \<and> took a cs cs'"
      then obtain a cs' where r: "fresh_sections cs = Inr (Some a, cs')" "took a cs cs'" by blast
      from r e have "fresh_sections (c # cs) = Inr (Some a, c # cs')" by simp
      with took_tail [OF Cons.prems(2,1) r(2) empty] show ?thesis by blast
    qed
  next
    assume "\<exists>a s'. a \<in> pa_free_set (alloc c) \<and> pa_fresh_page (alloc c) = Inr (Some a, s') \<and> page_alloc_inv s'
         \<and> pa_managed s' = pa_managed (alloc c) \<and> pa_free_set s' = pa_free_set (alloc c) - {a}"
    then obtain a p where a: "a \<in> pa_free_set (alloc c)" "pa_fresh_page (alloc c) = Inr (Some a, p)"
      "page_alloc_inv p" "pa_managed p = pa_managed (alloc c)" "pa_free_set p = pa_free_set (alloc c) - {a}"
      by blast
    then have "fresh_sections (c # cs) = Inr (Some (a + section_start c), c\<lparr>alloc := p\<rparr> # cs)" by simp
    with took_head [OF Cons.prems(2,1) a(1,3,4,5) pa_fresh_page_nb_pages [OF inv a(2)]] show ?thesis by blast
  qed
qed

lemma free_sections_correct:
  assumes "\<forall>c\<in>set cs. section_inv c" and "sections_disjoint cs" and "a \<in> sections_managed cs"
  shows "(\<forall>c\<in>set (map (free_in_section a) cs). section_inv c)
       \<and> sections_free (map (free_in_section a) cs) = insert a (sections_free cs)"
  using assms
proof (induction cs)
  case (Cons c cs)
  show ?case
  proof (cases "a \<in> section_managed c")
    case True
    then have "free_in_section a d = d" if d: "d \<in> set cs" for d
    proof -
      have "section_stop c \<le> section_start d \<or> section_stop d \<le> section_start c"
        using Cons.prems(2) d by (auto simp: sections_disjoint_def extents_def)
      then show ?thesis using section_managed_range [of c a] True Cons.prems(1) by auto
    qed
    then have "map (free_in_section a) cs = cs" by (simp add: map_idI)
    with True Cons.prems(1) free_in_section_inside [of c a] show ?thesis by auto
  next
    case False
    with Cons.prems(3) have tl: "a \<in> sections_managed cs" by simp
    then obtain d where d: "d \<in> set cs" "a \<in> section_managed d" by (auto simp: sections_managed_def)
    have "section_stop c \<le> section_start d \<or> section_stop d \<le> section_start c"
      using Cons.prems(2) d by (auto simp: sections_disjoint_def extents_def)
    then have "free_in_section a c = c" using section_managed_range [of d a] d Cons.prems(1) by auto
    with Cons.IH [OF _ sections_disjoint_tl [OF Cons.prems(2)] tl] Cons.prems(1) show ?thesis by simp
  qed
qed simp

interpretation pal: page_allocator pal_inv pal_managed pal_free_set pal_fresh_page pal_free_page
proof
  fix s a
  assume inv: "pal_inv s"
  then have i: "\<forall>c\<in>set (sections s). section_inv c" "sections_disjoint (sections s)"
    by (simp_all add: pal_inv_def)
  show "pal_free_set s \<subseteq> pal_managed s"
    unfolding pal_free_set_def pal_managed_def by (rule sections_free_sub)
  show "pal_free_set s = {} \<and> pal_fresh_page s = Inr (None, s)
      \<or> (\<exists>a s'. a \<in> pal_free_set s \<and> pal_fresh_page s = Inr (Some a, s') \<and> pal_inv s'
           \<and> pal_managed s' = pal_managed s \<and> pal_free_set s' = pal_free_set s - {a})"
    using fresh_sections_correct [OF i] i(2)
    by (auto simp: pal_fresh_page_def pal_free_set_def pal_managed_def pal_inv_def took_def sections_disjoint_def)
  assume a: "a \<in> pal_managed s"
  have ext: "extents (map (free_in_section a) cs) = extents cs" for cs by (simp add: extents_def)
  have man: "sections_managed (map (free_in_section a) cs) = sections_managed cs" for cs
    by (simp add: sections_managed_def)
  show "pal_inv (pal_free_page s a)" "pal_managed (pal_free_page s a) = pal_managed s"
    "pal_free_set (pal_free_page s a) = insert a (pal_free_set s)"
    using free_sections_correct [OF i] a i(2) ext man
    by (auto simp: pal_inv_def pal_free_page_def pal_managed_def pal_free_set_def sections_disjoint_def)
qed

subsection \<open>Reserving a range\<close>

lemma mark_pages_correct:
  assumes "page_alloc_inv p" and "page = start + i * PAGE_SIZE"
    and "stop \<le> start + m_nb_pages p * PAGE_SIZE"
  shows "page_alloc_inv (mark_pages p start page stop)
       \<and> m_nb_pages (mark_pages p start page stop) = m_nb_pages p
       \<and> pa_free_set (mark_pages p start page stop) = pa_free_set p - {a. page \<le> a + start \<and> a + start < stop}"
  using assms
proof (induction p start page stop arbitrary: i rule: mark_pages.induct)
  case (1 p start page stop)
  note unfold = mark_pages.simps [of p start page stop]
  show ?case
  proof (cases "page < stop")
    case True
    then have "start + i * PAGE_SIZE < start + m_nb_pages p * PAGE_SIZE" using "1.prems"(2,3) by linarith
    then have i: "i < m_nb_pages p" by simp
    then have m: "page - start \<in> pa_managed p" using "1.prems"(2) by (auto simp: mem_pa_managed)
    note used = pa_mark_as_used_correct [OF "1.prems"(1) m]
    let ?p = "pa_mark_as_used p (page - start)"
    have IH: "page_alloc_inv (mark_pages ?p start (page + PAGE_SIZE) stop)
       \<and> m_nb_pages (mark_pages ?p start (page + PAGE_SIZE) stop) = m_nb_pages p
       \<and> pa_free_set (mark_pages ?p start (page + PAGE_SIZE) stop)
           = pa_free_set ?p - {a. page + PAGE_SIZE \<le> a + start \<and> a + start < stop}"
      using "1.IH" [OF True used(1), of "Suc i"] "1.prems"(2,3) by simp
    have "a = page - start"
      if a: "a \<in> pa_free_set p" "page \<le> a + start" "\<not> page + PAGE_SIZE \<le> a + start" for a
    proof -
      obtain j where j: "a = j * PAGE_SIZE" using a(1) by (auto simp: pa_free_set_def)
      then have "i * PAGE_SIZE \<le> j * PAGE_SIZE" "j * PAGE_SIZE < Suc i * PAGE_SIZE"
        using a(2,3) "1.prems"(2) by auto
      then have "j = i" by (metis PAGE_SIZE_pos(1) less_Suc_eq_le mult_le_cancel2 mult_less_cancel2 le_antisym)
      with j "1.prems"(2) show ?thesis by simp
    qed
    then have "pa_free_set p - {page - start} - {a. page + PAGE_SIZE \<le> a + start \<and> a + start < stop}
             = pa_free_set p - {a. page \<le> a + start \<and> a + start < stop}"
      using True "1.prems"(2) by auto
    with IH used(2) True show ?thesis by (simp add: unfold)
  next
    case False
    then have "pa_free_set p - {a. page \<le> a + start \<and> a + start < stop} = pa_free_set p" by auto
    with False "1.prems"(1) show ?thesis by (simp add: unfold)
  qed
qed

lemma mark_in_section_correct:
  assumes inv: "section_inv c" and al: "section_start c < start \<Longrightarrow> PAGE_SIZE dvd start - section_start c"
  shows "section_inv (mark_in_section start stop c)"
    and "section_free (mark_in_section start stop c) = section_free c - {start..<stop}"
    and "section_start (mark_in_section start stop c) = section_start c"
    and "section_stop (mark_in_section start stop c) = section_stop c"
proof -
  let ?s = "section_start c" and ?t = "section_stop c"
  have range: "?s \<le> a \<and> a < ?t" if "a \<in> section_free c" for a
    using section_managed_range [OF inv] section_free_managed that by blast
  show "section_start (mark_in_section start stop c) = ?s" "section_stop (mark_in_section start stop c) = ?t"
    by (simp_all add: mark_in_section_def Let_def)
  show "section_inv (mark_in_section start stop c)"
    and "section_free (mark_in_section start stop c) = section_free c - {start..<stop}"
  proof (atomize (full), cases "stop > ?s \<and> start < ?t")
    case True
    define page where "page = max start ?s"
    obtain i where i: "page = ?s + i * PAGE_SIZE"
    proof (cases "?s < start")
      case True
      with al obtain k where "start - ?s = PAGE_SIZE * k" by blast
      with True that [of k] show thesis by (simp add: page_def mult.commute)
    next
      case False
      then show thesis using that [of 0] by (simp add: page_def)
    qed
    let ?p = "mark_pages (alloc c) ?s page (min stop ?t)"
    have res: "mark_in_section start stop c = c\<lparr>alloc := ?p\<rparr>"
      using True by (simp add: mark_in_section_def page_def Let_def)
    have p: "page_alloc_inv ?p \<and> m_nb_pages ?p = m_nb_pages (alloc c)
       \<and> pa_free_set ?p = pa_free_set (alloc c) - {a. page \<le> a + ?s \<and> a + ?s < min stop ?t}"
      using inv by (intro mark_pages_correct [OF _ i]) (auto simp: section_inv_def)
    have "section_free (mark_in_section start stop c) = {a \<in> section_free c. \<not> (page \<le> a \<and> a < min stop ?t)}"
      unfolding res using p by (auto simp: section_free_def)
    also have "\<dots> = section_free c - {start..<stop}"
      using range by (auto simp: page_def)
    finally show "section_inv (mark_in_section start stop c)
        \<and> section_free (mark_in_section start stop c) = section_free c - {start..<stop}"
      using p inv res by (simp add: section_inv_def)
  next
    case False
    then show "section_inv (mark_in_section start stop c)
        \<and> section_free (mark_in_section start stop c) = section_free c - {start..<stop}"
      using inv range by (fastforce simp: mark_in_section_def)
  qed
qed

lemma mark_range_correct:
  assumes inv: "pal_inv l"
    and al: "\<And>c. c \<in> set (sections l) \<Longrightarrow> section_start c < start \<Longrightarrow> PAGE_SIZE dvd start - section_start c"
  shows "pal_inv (pal_mark_as_used_range l start stop)"
    and "pal_free_set (pal_mark_as_used_range l start stop) = pal_free_set l - {start..<stop}"
proof -
  let ?m = "mark_in_section start stop"
  have sec: "section_inv c" if "c \<in> set (sections l)" for c using inv that by (simp add: pal_inv_def)
  note one = mark_in_section_correct [OF sec al]
  have ext: "extents (map ?m (sections l)) = extents (sections l)"
    using one(3,4) by (auto simp: extents_def)
  have "sections_free (map ?m (sections l)) = sections_free (sections l) - {start..<stop}"
    using one(2) by (fastforce simp: sections_free_def)
  moreover have "\<forall>c\<in>set (map ?m (sections l)). section_inv c" using one(1) by auto
  ultimately show "pal_inv (pal_mark_as_used_range l start stop)"
    and "pal_free_set (pal_mark_as_used_range l start stop) = pal_free_set l - {start..<stop}"
    using inv ext
    by (auto simp: pal_inv_def pal_mark_as_used_range_def pal_free_set_def sections_disjoint_def)
qed

subsection \<open>Properties\<close>

text \<open>
  C3. Reserving a range before the allocator is used (the kernel image, its stack, the device tree,
  the file system image): whatever the clients do afterwards, no page of the range is ever handed
  out, nothing else is lost, and no page is handed out twice. The range starts on a page boundary
  of every section it starts inside of.
\<close>

theorem reserved_range_never_allocated:
  assumes "pal_inv l"
    and "\<forall>c\<in>set (sections l). section_start c < start \<longrightarrow> PAGE_SIZE dvd start - section_start c"
  shows "\<exists>l' own. page_run pal_fresh_page pal_free_page ops (pal_mark_as_used_range l start stop, []) = Inr (l', own)
           \<and> pal_inv l' \<and> distinct own \<and> set own \<inter> {start..<stop} = {}
           \<and> set own \<inter> pal_free_set l' = {}
           \<and> set own \<union> pal_free_set l' = pal_free_set l - {start..<stop}"
proof -
  let ?l = "pal_mark_as_used_range l start stop"
  have m: "pal_inv ?l" "pal_free_set ?l = pal_free_set l - {start..<stop}"
    using mark_range_correct [OF assms(1)] assms(2) by auto
  then have "pal.accounts (pal_free_set ?l) (?l, [])" by (simp add: pal.accounts_def)
  from pal.page_run_accounts [OF this, of ops] m(2) show ?thesis
    by (auto simp: pal.accounts_def)
qed

definition example_list :: page_alloc_list where
  "example_list =
     \<lparr>contiguous_res_start = 0, contiguous_res_stop = 0,
      sections = [\<lparr>section_start = 0, section_stop = 3 * PAGE_SIZE, alloc = PageAlloc 3 (Some (\<lambda>_. 0))\<rparr>]\<rparr>"

lemma example_list_inv: "pal_inv example_list"
  using PageAlloc_correct(1) [of 3 "\<lambda>_. 0"]
  by (simp add: pal_inv_def example_list_def section_inv_def sections_disjoint_def extents_def PageAlloc_def)

theorem reserved_range_never_allocated_witness:
  "\<exists>l' own. page_run pal_fresh_page pal_free_page [Fresh, Fresh]
       (pal_mark_as_used_range example_list 4096 8192, []) = Inr (l', own)
     \<and> pal_inv l' \<and> distinct own \<and> set own \<inter> {4096..<8192} = {}
     \<and> set own \<inter> pal_free_set l' = {}
     \<and> set own \<union> pal_free_set l' = pal_free_set example_list - {4096..<8192}"
  by (rule reserved_range_never_allocated [OF example_list_inv]) (simp add: example_list_def PAGE_SIZE_def)

end
