(* ===== verification/Contiguous_Alloc.thy ===== *)
theory Contiguous_Alloc
  imports Page_Alloc
begin

text \<open>
  \<^verbatim>\<open>ContiguousPageAllocator\<close> (\<^verbatim>\<open>kernel/memory/contiguous_page_alloc.cpp\<close>): runs of contiguous pages
  for DMA buffers, one bit per page and a cursor from which the next search starts. Ranges are
  given by their first and last page, both included. The candidate \<^verbatim>\<open>-1\<close> is \<open>None\<close>.
\<close>

record contiguous_alloc =
  nb_pages_c :: nat
  free_page_c :: bit_array
  page_cursor :: nat

subsection \<open>Operations\<close>

definition ca_memory_needed :: "nat \<Rightarrow> nat" where
  "ca_memory_needed nb_pages = (nb_pages + 8 - 1) div 8"

definition ContiguousPageAllocator :: "nat \<Rightarrow> (nat \<Rightarrow> u64) option \<Rightarrow> contiguous_alloc" where
  "ContiguousPageAllocator nb_pages array =
     \<lparr>nb_pages_c = nb_pages,
      free_page_c = ba_fill_array (BitArray array (ca_memory_needed nb_pages)) True,
      page_cursor = 0\<rparr>"

definition ca_page_index :: "nat \<Rightarrow> nat" where
  "ca_page_index addr = addr div PAGE_SIZE"

text \<open>The loop \<^verbatim>\<open>for (page_i = page_index(start); page_i <= page_index(end); ++page_i)\<close>.\<close>

definition set_pages :: "bit_array \<Rightarrow> nat \<Rightarrow> nat \<Rightarrow> bool \<Rightarrow> bit_array" where
  "set_pages b start_i stop_i v = fold (\<lambda>i b. ba_set_bit b i v) [start_i..<Suc stop_i] b"

definition ca_mark_as_used :: "contiguous_alloc \<Rightarrow> nat \<Rightarrow> nat \<Rightarrow> contiguous_alloc outcome" where
  "ca_mark_as_used c start stop =
     (if start > stop then Inr c
      else if ca_page_index stop \<ge> nb_pages_c c then Inl Panic
      else Inr (c\<lparr>free_page_c := set_pages (free_page_c c) (ca_page_index start) (ca_page_index stop) False\<rparr>))"

definition ca_free_pages :: "contiguous_alloc \<Rightarrow> nat \<Rightarrow> nat \<Rightarrow> contiguous_alloc outcome" where
  "ca_free_pages c start stop =
     (if start > stop then Inr c
      else if ca_page_index stop \<ge> nb_pages_c c then Inl Panic
      else Inr (c\<lparr>free_page_c := set_pages (free_page_c c) (ca_page_index start) (ca_page_index stop) True\<rparr>))"

definition ca_page_status :: "contiguous_alloc \<Rightarrow> nat \<Rightarrow> bool" where
  "ca_page_status c addr =
     (if ca_page_index addr < nb_pages_c c then ba_get_bit (free_page_c c) (ca_page_index addr) else False)"

text \<open>
  The search loop of \<^verbatim>\<open>try_fresh_pages\<close>, from the cursor to the last page. It gives the cursor at
  which it stopped and, when a run of \<open>nb_pages\<close> free pages ends there, the candidate.
\<close>

function scan_pages ::
  "contiguous_alloc \<Rightarrow> nat \<Rightarrow> nat \<Rightarrow> nat option \<Rightarrow> nat \<Rightarrow> (nat option \<times> nat) option \<times> nat"
where
  "scan_pages c nb_pages cursor candidate found =
     (if ca_page_index cursor < nb_pages_c c
      then if ba_get_bit (free_page_c c) (ca_page_index cursor)
           then let candidate' = (if found = 0 then Some cursor else candidate);
                    found' = (if found = 0 then 1 else found + 1)
                in if found' = nb_pages
                   then (Some (candidate', cursor), cursor)
                   else scan_pages c nb_pages (cursor + PAGE_SIZE) candidate' found'
           else scan_pages c nb_pages (cursor + PAGE_SIZE) None 0
      else (None, cursor))"
  by pat_completeness auto
termination
  by (relation "measure (\<lambda>(c, n, cursor, cand, found). nb_pages_c c - ca_page_index cursor)")
    (auto simp: ca_page_index_def PAGE_SIZE_def)

declare scan_pages.simps [simp del]

text \<open>One pass: the search, then the reservation of the run it found.\<close>

definition try_pass :: "contiguous_alloc \<Rightarrow> nat \<Rightarrow> ((nat \<times> nat) option \<times> contiguous_alloc) outcome" where
  "try_pass c nb_pages =
     (case scan_pages c nb_pages (page_cursor c) None 0 of
        (None, cursor) \<Rightarrow> Inr (None, c\<lparr>page_cursor := cursor\<rparr>)
      | (Some (None, _), cursor) \<Rightarrow> Inl Panic
      | (Some (Some candidate, stop), cursor) \<Rightarrow>
          bindE (ca_mark_as_used c candidate stop) (\<lambda>c'.
            Inr (Some (candidate, stop), c'\<lparr>page_cursor := cursor + PAGE_SIZE\<rparr>)))"

definition ca_fresh_pages :: "contiguous_alloc \<Rightarrow> nat \<Rightarrow> ((nat \<times> nat) option \<times> contiguous_alloc) outcome" where
  "ca_fresh_pages c nb_pages =
     bindE (try_pass c nb_pages) (\<lambda>(r, c').
       case r of
         Some pages \<Rightarrow> Inr (Some pages, c')
       | None \<Rightarrow> try_pass (c'\<lparr>page_cursor := 0\<rparr>) nb_pages)"

subsection \<open>Invariant\<close>

definition ca_inv :: "contiguous_alloc \<Rightarrow> bool" where
  "ca_inv c \<longleftrightarrow> non_null (free_page_c c) \<and> PAGE_SIZE dvd page_cursor c"

definition is_free :: "contiguous_alloc \<Rightarrow> nat \<Rightarrow> bool" where
  "is_free c i \<longleftrightarrow> i < nb_pages_c c \<and> ba_get_bit (free_page_c c) i"

definition free_run :: "contiguous_alloc \<Rightarrow> nat \<Rightarrow> nat \<Rightarrow> bool" where
  "free_run c s k \<longleftrightarrow> (\<forall>i. s \<le> i \<and> i < s + k \<longrightarrow> is_free c i)"

lemma set_pages_get:
  "non_null b \<Longrightarrow> ba_get_bit (set_pages b s t v) i = (if s \<le> i \<and> i \<le> t then v else ba_get_bit b i)"
  unfolding set_pages_def by (subst bits.get_fold) auto

lemma set_pages_live: "non_null b \<Longrightarrow> non_null (set_pages b s t v)"
  unfolding set_pages_def by (rule bits.live_fold)

subsection \<open>The search\<close>

text \<open>What the search from page \<open>lo\<close> on must report for a run of length \<open>k\<close>.\<close>

inductive scan_result :: "contiguous_alloc \<Rightarrow> nat \<Rightarrow> nat \<Rightarrow> (nat option \<times> nat) option \<times> nat \<Rightarrow> bool"
  for c k lo where
  found: "lo \<le> s \<Longrightarrow> free_run c s k \<Longrightarrow>
     scan_result c k lo (Some (Some (s * PAGE_SIZE), (s + k - 1) * PAGE_SIZE), (s + k - 1) * PAGE_SIZE)"
| none: "(\<And>s. lo \<le> s \<Longrightarrow> \<not> free_run c s k) \<Longrightarrow> scan_result c k lo (None, j * PAGE_SIZE)"

lemma scan_result_widen:
  assumes "scan_result c k hi r" and "lo \<le> hi" and "\<And>s. lo \<le> s \<Longrightarrow> s < hi \<Longrightarrow> \<not> free_run c s k"
  shows "scan_result c k lo r"
  using assms(1)
proof cases
  case (found s)
  then show ?thesis using assms(2) scan_result.found [of lo s c k] by simp
next
  case (none j)
  have "\<not> free_run c s k" if "lo \<le> s" for s
    using none(2) assms(3) that by (cases "s < hi") auto
  then show ?thesis unfolding none(1) by (rule scan_result.none)
qed

lemma free_run_inside: "free_run c s k \<Longrightarrow> s \<le> i \<Longrightarrow> i < s + k \<Longrightarrow> is_free c i"
  by (simp add: free_run_def)

lemma ca_page_index_mult [simp]: "ca_page_index (i * PAGE_SIZE) = i"
  by (simp add: ca_page_index_def)

lemma scan_pages_end:
  assumes "nb_pages_c c \<le> i" and "f < k" and "f \<le> i"
  shows "scan_result c k (i - f) (scan_pages c k (i * PAGE_SIZE) cand f)"
proof -
  have "\<not> free_run c s k" if s: "i - f \<le> s" for s
  proof
    assume "free_run c s k"
    then have "is_free c (s + k - 1)" by (rule free_run_inside) (use assms(2) in auto)
    then have "s + k - 1 < nb_pages_c c" by (simp add: is_free_def)
    with s assms show False by linarith
  qed
  moreover have "scan_pages c k (i * PAGE_SIZE) cand f = (None, i * PAGE_SIZE)"
    using assms(1) by (simp add: scan_pages.simps [of c k "i * PAGE_SIZE" cand f])
  ultimately show ?thesis by (auto intro: scan_result.none)
qed

lemma scan_pages_spec:
  assumes "f < k" and "f \<le> i" and "\<forall>j. i - f \<le> j \<and> j < i \<longrightarrow> is_free c j"
    and "cand = (if f = 0 then None else Some ((i - f) * PAGE_SIZE))"
  shows "scan_result c k (i - f) (scan_pages c k (i * PAGE_SIZE) cand f)"
  using assms
proof (induction "nb_pages_c c - i" arbitrary: i f cand rule: less_induct)
  case less
  note unfold = scan_pages.simps [of c k "i * PAGE_SIZE" cand f]
  have nxt: "i * PAGE_SIZE + PAGE_SIZE = Suc i * PAGE_SIZE" by simp
  consider (past) "nb_pages_c c \<le> i" | (used) "i < nb_pages_c c" "\<not> ba_get_bit (free_page_c c) i"
    | (free) "i < nb_pages_c c" "ba_get_bit (free_page_c c) i" by linarith
  then show ?case
  proof cases
    case past
    then show ?thesis using less.prems(1,2) by (rule scan_pages_end)
  next
    case used
    have no_run: "\<not> free_run c s k" if "i - f \<le> s" "s < Suc i" for s
    proof
      assume "free_run c s k"
      moreover have "i < s + k" using that(1) less.prems(1,2) by linarith
      ultimately have "is_free c i" using that(2) by (intro free_run_inside [of c s k]) auto
      with used(2) show False by (simp add: is_free_def)
    qed
    have "scan_result c k (Suc i - 0) (scan_pages c k (Suc i * PAGE_SIZE) None 0)"
      using less.prems(1) used(1) by (intro less.hyps) auto
    then have "scan_result c k (Suc i) (scan_pages c k (Suc i * PAGE_SIZE) None 0)" by simp
    then have "scan_result c k (i - f) (scan_pages c k (Suc i * PAGE_SIZE) None 0)"
      by (rule scan_result_widen) (simp, rule no_run)
    then show ?thesis using used by (simp add: unfold nxt)
  next
    case free
    let ?cand = "Some ((i - f) * PAGE_SIZE)"
    have all: "\<forall>j. i - f \<le> j \<and> j < Suc i \<longrightarrow> is_free c j"
      using less.prems(3) free less_Suc_eq by (auto simp: is_free_def)
    have step: "scan_pages c k (i * PAGE_SIZE) cand f =
        (if Suc f = k then (Some (?cand, i * PAGE_SIZE), i * PAGE_SIZE)
         else scan_pages c k (Suc i * PAGE_SIZE) ?cand (Suc f))"
      using free less.prems(4) by (subst unfold) (auto simp: nxt Let_def)
    show ?thesis
    proof (cases "Suc f = k")
      case True
      then have "free_run c (i - f) k" and "i - f + k - 1 = i"
        using all less.prems(2) by (auto simp: free_run_def)
      then show ?thesis unfolding step using True scan_result.found [of "i - f" "i - f" c k] by simp
    next
      case False
      then have "scan_result c k (Suc i - Suc f) (scan_pages c k (Suc i * PAGE_SIZE) ?cand (Suc f))"
        using less.prems(1,2) free(1) all by (intro less.hyps) auto
      then show ?thesis using False step by simp
    qed
  qed
qed

lemma scan_from:
  assumes "0 < k"
  shows "scan_result c k i (scan_pages c k (i * PAGE_SIZE) None 0)"
proof -
  have "\<forall>j. i - 0 \<le> j \<and> j < i \<longrightarrow> is_free c j" by auto
  from scan_pages_spec [OF assms _ this] show ?thesis by simp
qed

subsection \<open>Allocation and release\<close>

text \<open>The state after the pages \<open>s\<close> to \<open>s + k - 1\<close> changed hands.\<close>

definition pages_become :: "bool \<Rightarrow> nat \<Rightarrow> nat \<Rightarrow> contiguous_alloc \<Rightarrow> contiguous_alloc \<Rightarrow> bool" where
  "pages_become v s k c c' \<longleftrightarrow>
     ca_inv c' \<and> nb_pages_c c' = nb_pages_c c
     \<and> (\<forall>i<nb_pages_c c. is_free c' i \<longleftrightarrow> (if s \<le> i \<and> i < s + k then v else is_free c i))"

lemma try_pass_spec:
  assumes inv: "ca_inv c" and k: "0 < k" and cur: "page_cursor c = i * PAGE_SIZE"
  shows "(\<exists>s c'. i \<le> s \<and> free_run c s k \<and> try_pass c k = Inr (Some (s * PAGE_SIZE, (s + k - 1) * PAGE_SIZE), c')
             \<and> pages_become False s k c c')
       \<or> (\<forall>s\<ge>i. \<not> free_run c s k) \<and> (\<exists>j. try_pass c k = Inr (None, c\<lparr>page_cursor := j * PAGE_SIZE\<rparr>))"
  using scan_from [OF k, of c i]
proof cases
  case (found s)
  note s = found(2,3) and r = found(1)
  let ?t = "s + k - 1"
  let ?c = "c\<lparr>free_page_c := set_pages (free_page_c c) s ?t False\<rparr>"
  have "is_free c ?t" using s(2) by (rule free_run_inside) (use k in auto)
  then have t: "?t < nb_pages_c c" by (simp add: is_free_def)
  have "s * PAGE_SIZE \<le> ?t * PAGE_SIZE" using k by simp
  then have "ca_mark_as_used c (s * PAGE_SIZE) (?t * PAGE_SIZE) = Inr ?c"
    using t by (simp add: ca_mark_as_used_def)
  then have "try_pass c k = Inr (Some (s * PAGE_SIZE, ?t * PAGE_SIZE), ?c\<lparr>page_cursor := ?t * PAGE_SIZE + PAGE_SIZE\<rparr>)"
    using r cur by (simp add: try_pass_def)
  moreover have "pages_become False s k c (?c\<lparr>page_cursor := ?t * PAGE_SIZE + PAGE_SIZE\<rparr>)"
    using inv k by (auto simp: pages_become_def ca_inv_def is_free_def set_pages_get set_pages_live)
  ultimately show ?thesis using s by blast
next
  case (none j)
  then show ?thesis using cur by (auto simp: try_pass_def)
qed

lemma ca_fresh_pages_spec:
  assumes inv: "ca_inv c" and k: "0 < k"
  shows "(\<exists>s c'. free_run c s k \<and> ca_fresh_pages c k = Inr (Some (s * PAGE_SIZE, (s + k - 1) * PAGE_SIZE), c')
             \<and> pages_become False s k c c')
       \<or> (\<forall>s. \<not> free_run c s k) \<and> (\<exists>j. ca_fresh_pages c k = Inr (None, c\<lparr>page_cursor := j * PAGE_SIZE\<rparr>))"
proof -
  obtain i where i: "page_cursor c = i * PAGE_SIZE" using inv by (auto simp: ca_inv_def mult.commute)
  from try_pass_spec [OF inv k i] show ?thesis
  proof (elim disjE exE conjE)
    fix j
    assume first: "try_pass c k = Inr (None, c\<lparr>page_cursor := j * PAGE_SIZE\<rparr>)"
    let ?c = "c\<lparr>page_cursor := 0\<rparr>"
    have inv0: "ca_inv ?c" and cur0: "page_cursor ?c = 0 * PAGE_SIZE" using inv by (simp_all add: ca_inv_def)
    have run: "free_run ?c = free_run c" and become: "pages_become v s k ?c = pages_become v s k c" for v s
      by (auto simp: free_run_def is_free_def pages_become_def fun_eq_iff)
    have "ca_fresh_pages c k = try_pass ?c k" using first by (simp add: ca_fresh_pages_def)
    with try_pass_spec [OF inv0 k cur0] show ?thesis by (auto simp: run become)
  qed (auto simp: ca_fresh_pages_def)
qed

lemma ca_free_pages_spec:
  assumes "ca_inv c" and "0 < k" and "s + k \<le> nb_pages_c c"
  shows "\<exists>c'. ca_free_pages c (s * PAGE_SIZE) ((s + k - 1) * PAGE_SIZE) = Inr c' \<and> pages_become True s k c c'"
  using assms
  by (auto simp: ca_free_pages_def pages_become_def ca_inv_def is_free_def set_pages_get set_pages_live)

subsection \<open>Properties\<close>

text \<open>
  C4. A request for \<open>k > 0\<close> contiguous pages succeeds exactly when a run of \<open>k\<close> free pages exists,
  wherever the cursor is. The range it returns was free, has exactly \<open>k\<close> pages, is in use
  afterwards, and no other page changes; freeing that range gives back the pages it took.
\<close>

theorem contiguous_fresh_free:
  assumes "ca_inv c" and "0 < k"
  shows "if \<exists>s. free_run c s k
         then \<exists>s c' c''. free_run c s k
                \<and> ca_fresh_pages c k = Inr (Some (s * PAGE_SIZE, (s + k - 1) * PAGE_SIZE), c')
                \<and> ca_inv c'
                \<and> (\<forall>i<nb_pages_c c. is_free c' i \<longleftrightarrow> \<not> (s \<le> i \<and> i < s + k) \<and> is_free c i)
                \<and> ca_free_pages c' (s * PAGE_SIZE) ((s + k - 1) * PAGE_SIZE) = Inr c''
                \<and> ca_inv c'' \<and> (\<forall>i<nb_pages_c c. is_free c'' i \<longleftrightarrow> is_free c i)
         else \<exists>c'. ca_fresh_pages c k = Inr (None, c') \<and> (\<forall>i. is_free c' i \<longleftrightarrow> is_free c i)"
  using ca_fresh_pages_spec [OF assms]
proof (elim disjE exE conjE)
  fix s c'
  assume run: "free_run c s k" and res: "ca_fresh_pages c k = Inr (Some (s * PAGE_SIZE, (s + k - 1) * PAGE_SIZE), c')"
    and b: "pages_become False s k c c'"
  have "is_free c (s + k - 1)" using run by (rule free_run_inside) (use assms(2) in auto)
  then have "s + k - 1 < nb_pages_c c'" using b by (simp add: is_free_def pages_become_def)
  then have "s + k \<le> nb_pages_c c'" by linarith
  then obtain c'' where c'': "ca_free_pages c' (s * PAGE_SIZE) ((s + k - 1) * PAGE_SIZE) = Inr c''"
    "pages_become True s k c' c''"
    using ca_free_pages_spec [of c' k s] b assms(2) by (auto simp: pages_become_def)
  moreover have "\<forall>i<nb_pages_c c. is_free c'' i \<longleftrightarrow> is_free c i"
    using b c''(2) run by (auto simp: pages_become_def free_run_def)
  ultimately show ?thesis using run res b by (auto simp: pages_become_def)
qed (auto simp: is_free_def)

theorem contiguous_fresh_free_witness:
  "let c = ContiguousPageAllocator 4 (Some (\<lambda>_. 0)) in
     if \<exists>s. free_run c s 2
     then \<exists>s c' c''. free_run c s 2
            \<and> ca_fresh_pages c 2 = Inr (Some (s * PAGE_SIZE, (s + 2 - 1) * PAGE_SIZE), c')
            \<and> ca_inv c'
            \<and> (\<forall>i<nb_pages_c c. is_free c' i \<longleftrightarrow> \<not> (s \<le> i \<and> i < s + 2) \<and> is_free c i)
            \<and> ca_free_pages c' (s * PAGE_SIZE) ((s + 2 - 1) * PAGE_SIZE) = Inr c''
            \<and> ca_inv c'' \<and> (\<forall>i<nb_pages_c c. is_free c'' i \<longleftrightarrow> is_free c i)
     else \<exists>c'. ca_fresh_pages c 2 = Inr (None, c') \<and> (\<forall>i. is_free c' i \<longleftrightarrow> is_free c i)"
proof -
  have "ca_inv (ContiguousPageAllocator 4 (Some (\<lambda>_. 0)))"
    by (simp add: ca_inv_def ContiguousPageAllocator_def) (simp add: BitArray_def non_null_def)
  from contiguous_fresh_free [OF this, of 2] show ?thesis unfolding Let_def by simp
qed

end
