(* ===== verification/Linked_List.thy ===== *)
theory Linked_List
  imports Prelude
begin

text \<open>
  \<^verbatim>\<open>libk::LinkedList\<close> (\<^verbatim>\<open>lib/libk/include/libk/linked_list.hpp\<close>): the doubly linked list every other
  kernel component stores its collections in. Nodes live in an explicit heap, so that a freed
  node that is still used, or a pointer that is not repaired, is visible: dereferencing a null or
  freed pointer is \<open>Undefined\<close>. \<^verbatim>\<open>new Node{data}\<close> is represented by its result, the address of
  the new node, \<open>None\<close> when it is null; what the list relies on is that the address is not in use.

  The interface the clients rely on is the locale \<open>sequence\<close>: the list behaves as a finite
  sequence. The interpretation at the end discharges it for the heap model.
\<close>

record 'a node =
  data :: 'a
  "next" :: "nat option"
  previous :: "nat option"

record 'a linked_list =
  cells :: "nat \<Rightarrow> 'a node option"
  m_head :: "nat option"
  m_tail :: "nat option"

subsection \<open>Memory accesses\<close>

definition deref :: "'a linked_list \<Rightarrow> nat option \<Rightarrow> 'a node outcome" where
  "deref l p = (case p of None \<Rightarrow> Inl Undefined
     | Some a \<Rightarrow> (case cells l a of None \<Rightarrow> Inl Undefined | Some n \<Rightarrow> Inr n))"

definition set_node :: "'a linked_list \<Rightarrow> nat option \<Rightarrow> ('a node \<Rightarrow> 'a node) \<Rightarrow> 'a linked_list outcome" where
  "set_node l p f = bindE (deref l p) (\<lambda>n. Inr (l\<lparr>cells := (cells l)(the p \<mapsto> f n)\<rparr>))"

definition delete_node :: "'a linked_list \<Rightarrow> nat \<Rightarrow> 'a linked_list" where
  "delete_node l a = l\<lparr>cells := (cells l)(a := None)\<rparr>"

definition new_node :: "'a linked_list \<Rightarrow> nat option \<Rightarrow> 'a \<Rightarrow> 'a linked_list outcome" where
  "new_node l new x =
     (case new of None \<Rightarrow> Inl Panic
      | Some a \<Rightarrow> Inr (l\<lparr>cells := (cells l)(a \<mapsto> \<lparr>data = x, next = None, previous = None\<rparr>)\<rparr>))"

subsection \<open>The list operations\<close>

definition insert_after :: "'a linked_list \<Rightarrow> nat option \<Rightarrow> nat option \<Rightarrow> 'a linked_list outcome" where
  "insert_after l node new =
     bindE (set_node l new (\<lambda>n. n\<lparr>previous := node\<rparr>)) (\<lambda>l.
     bindE (deref l node) (\<lambda>n.
     bindE (set_node l new (\<lambda>m. m\<lparr>next := next n\<rparr>)) (\<lambda>l.
     bindE (deref l node) (\<lambda>n.
     bindE (if next n = None then Inr (l\<lparr>m_tail := new\<rparr>)
            else set_node l (next n) (\<lambda>m. m\<lparr>previous := new\<rparr>)) (\<lambda>l.
     set_node l node (\<lambda>m. m\<lparr>next := new\<rparr>))))))"

definition insert_back :: "'a linked_list \<Rightarrow> nat option \<Rightarrow> 'a linked_list outcome" where
  "insert_back l node =
     (if m_tail l = None then Inr (l\<lparr>m_head := node, m_tail := node\<rparr>)
      else insert_after l (m_tail l) node)"

definition insert_before :: "'a linked_list \<Rightarrow> nat option \<Rightarrow> nat option \<Rightarrow> 'a linked_list outcome" where
  "insert_before l node new =
     bindE (set_node l new (\<lambda>n. n\<lparr>next := node\<rparr>)) (\<lambda>l.
     bindE (deref l node) (\<lambda>n.
     bindE (set_node l new (\<lambda>m. m\<lparr>previous := previous n\<rparr>)) (\<lambda>l.
     bindE (deref l node) (\<lambda>n.
     bindE (if previous n = None then Inr (l\<lparr>m_head := new\<rparr>)
            else set_node l (previous n) (\<lambda>m. m\<lparr>next := new\<rparr>)) (\<lambda>l.
     set_node l node (\<lambda>m. m\<lparr>previous := new\<rparr>))))))"

definition insert_front :: "'a linked_list \<Rightarrow> nat option \<Rightarrow> 'a linked_list outcome" where
  "insert_front l node =
     (if m_tail l = None then Inr (l\<lparr>m_head := node, m_tail := node\<rparr>)
      else insert_before l (m_head l) node)"

definition remove_node :: "'a linked_list \<Rightarrow> nat option \<Rightarrow> 'a linked_list outcome" where
  "remove_node l node =
     bindE (deref l node) (\<lambda>n.
     bindE (if previous n = None then Inr (l\<lparr>m_head := next n\<rparr>)
            else set_node l (previous n) (\<lambda>m. m\<lparr>next := next n\<rparr>)) (\<lambda>l.
     bindE (deref l node) (\<lambda>n.
     bindE (if next n = None then Inr (l\<lparr>m_tail := previous n\<rparr>)
            else set_node l (next n) (\<lambda>m. m\<lparr>previous := previous n\<rparr>)) (\<lambda>l.
     Inr (delete_node l (the node))))))"

definition ll_is_empty :: "'a linked_list \<Rightarrow> bool" where
  "ll_is_empty l \<longleftrightarrow> m_head l = None"

definition ll_front :: "'a linked_list \<Rightarrow> 'a outcome" where
  "ll_front l = kassert (\<not> ll_is_empty l) (bindE (deref l (m_head l)) (\<lambda>n. Inr (data n)))"

definition ll_back :: "'a linked_list \<Rightarrow> 'a outcome" where
  "ll_back l = kassert (\<not> ll_is_empty l) (bindE (deref l (m_tail l)) (\<lambda>n. Inr (data n)))"

definition ll_pop_back :: "'a linked_list \<Rightarrow> ('a \<times> 'a linked_list) outcome" where
  "ll_pop_back l =
     kassert (\<not> ll_is_empty l)
       (bindE (deref l (m_tail l)) (\<lambda>n.
        bindE (remove_node l (m_tail l)) (\<lambda>l. Inr (data n, l))))"

definition ll_pop_front :: "'a linked_list \<Rightarrow> ('a \<times> 'a linked_list) outcome" where
  "ll_pop_front l =
     kassert (\<not> ll_is_empty l)
       (bindE (deref l (m_head l)) (\<lambda>n.
        bindE (remove_node l (m_head l)) (\<lambda>l. Inr (data n, l))))"

definition ll_push_front :: "'a linked_list \<Rightarrow> nat option \<Rightarrow> 'a \<Rightarrow> 'a linked_list outcome" where
  "ll_push_front l new x = bindE (new_node l new x) (\<lambda>l. insert_front l new)"

definition ll_push_back :: "'a linked_list \<Rightarrow> nat option \<Rightarrow> 'a \<Rightarrow> 'a linked_list outcome" where
  "ll_push_back l new x = bindE (new_node l new x) (\<lambda>l. insert_back l new)"

text \<open>The iterator versions: an iterator is the pointer it wraps, \<^verbatim>\<open>end()\<close> is null.\<close>

definition ll_insert_before :: "'a linked_list \<Rightarrow> nat option \<Rightarrow> nat option \<Rightarrow> 'a \<Rightarrow> 'a linked_list outcome" where
  "ll_insert_before l it new x = bindE (new_node l new x) (\<lambda>l. insert_before l it new)"

definition ll_insert_after :: "'a linked_list \<Rightarrow> nat option \<Rightarrow> nat option \<Rightarrow> 'a \<Rightarrow> 'a linked_list outcome" where
  "ll_insert_after l it new x = bindE (new_node l new x) (\<lambda>l. insert_after l it new)"

definition ll_erase :: "'a linked_list \<Rightarrow> nat option \<Rightarrow> 'a linked_list outcome" where
  "ll_erase l it = remove_node l it"

text \<open>
  \<^verbatim>\<open>clear()\<close> walks the chain and deletes each node. The walk is bounded by fuel, one unit per node;
  \<open>Diverges\<close> is running out of it.
\<close>

fun clear_loop :: "nat \<Rightarrow> 'a linked_list \<Rightarrow> nat option \<Rightarrow> 'a linked_list outcome" where
  "clear_loop fuel l None = Inr l"
| "clear_loop 0 l (Some a) = Inl Diverges"
| "clear_loop (Suc fuel) l (Some a) =
     bindE (deref l (Some a)) (\<lambda>n. clear_loop fuel (delete_node l a) (next n))"

definition ll_clear :: "nat \<Rightarrow> 'a linked_list \<Rightarrow> 'a linked_list outcome" where
  "ll_clear fuel l =
     bindE (clear_loop fuel l (m_head l)) (\<lambda>l. Inr (l\<lparr>m_head := None, m_tail := None\<rparr>))"

text \<open>
  The range-based \<^verbatim>\<open>for\<close>: from \<^verbatim>\<open>begin()\<close> to \<^verbatim>\<open>end()\<close>, the body runs on the current node and may
  change the list, and \<^verbatim>\<open>operator++\<close> then reads \<^verbatim>\<open>next\<close> of that node in the changed list.
\<close>

fun for_loop :: "nat \<Rightarrow> (nat \<Rightarrow> 'a linked_list \<times> 's \<Rightarrow> ('a linked_list \<times> 's) outcome) \<Rightarrow>
    'a linked_list \<times> 's \<Rightarrow> nat option \<Rightarrow> ('a linked_list \<times> 's) outcome" where
  "for_loop fuel body st None = Inr st"
| "for_loop 0 body st (Some a) = Inl Diverges"
| "for_loop (Suc fuel) body st (Some a) =
     bindE (body a st) (\<lambda>st'. bindE (deref (fst st') (Some a)) (\<lambda>n. for_loop fuel body st' (next n)))"

subsection \<open>Chains\<close>

definition first_of :: "nat list \<Rightarrow> nat option \<Rightarrow> nat option" where
  "first_of ps q = (case ps of [] \<Rightarrow> q | p # _ \<Rightarrow> Some p)"

definition last_of :: "nat list \<Rightarrow> nat option \<Rightarrow> nat option" where
  "last_of ps q = (if ps = [] then q else Some (last ps))"

text \<open>
  \<open>chain h prev ps nxt xs\<close>: the nodes at the addresses \<open>ps\<close> are linked both ways, hold the values
  \<open>xs\<close>, and the segment sits between \<open>prev\<close> and \<open>nxt\<close>.
\<close>

fun chain :: "(nat \<Rightarrow> 'a node option) \<Rightarrow> nat option \<Rightarrow> nat list \<Rightarrow> nat option \<Rightarrow> 'a list \<Rightarrow> bool" where
  "chain h prev [] nxt xs \<longleftrightarrow> xs = []"
| "chain h prev (p # ps) nxt [] \<longleftrightarrow> False"
| "chain h prev (p # ps) nxt (x # xs) \<longleftrightarrow>
     h p = Some \<lparr>data = x, next = first_of ps nxt, previous = prev\<rparr> \<and> chain h (Some p) ps nxt xs"

definition holds :: "'a linked_list \<Rightarrow> nat list \<Rightarrow> 'a list \<Rightarrow> bool" where
  "holds l ps xs \<longleftrightarrow> distinct ps \<and> m_head l = first_of ps None \<and> m_tail l = last_of ps None
     \<and> chain (cells l) None ps None xs"

text \<open>Every node of the heap belongs to the list: nothing leaks.\<close>

definition exact :: "'a linked_list \<Rightarrow> nat list \<Rightarrow> bool" where
  "exact l ps \<longleftrightarrow> dom (cells l) = set ps"

lemma first_of_simps [simp]: "first_of [] q = q" "first_of (p # ps) q = Some p"
  by (simp_all add: first_of_def)

lemma last_of_simps [simp]: "last_of [] q = q" "last_of (p # ps) q = last_of ps (Some p)"
  by (simp_all add: last_of_def)

lemma last_of_snoc [simp]: "last_of (ps @ [p]) q = Some p"
  by (simp add: last_of_def)

lemma first_of_append [simp]: "first_of (ps @ qs) q = first_of ps (first_of qs q)"
  by (cases ps) simp_all

lemma last_of_append [simp]: "last_of (ps @ qs) q = last_of qs (last_of ps q)"
  by (induction ps arbitrary: q) simp_all

lemma chain_length: "chain h prev ps nxt xs \<Longrightarrow> length xs = length ps"
  by (induction h prev ps nxt xs rule: chain.induct) auto

lemma chain_append:
  "length xs = length ps \<Longrightarrow> chain h prev (ps @ qs) nxt (xs @ ys) \<longleftrightarrow>
     chain h prev ps (first_of qs nxt) xs \<and> chain h (last_of ps prev) qs nxt ys"
  by (induction ps xs arbitrary: prev rule: list_induct2') auto

lemma chain_frame [simp]: "a \<notin> set ps \<Longrightarrow> chain (h(a := v)) prev ps nxt xs \<longleftrightarrow> chain h prev ps nxt xs"
  by (induction h prev ps nxt xs rule: chain.induct) auto

text \<open>Repairing the two ends of a segment.\<close>

lemma chain_set_prev:
  assumes "chain h prev (p # ps) nxt (x # xs)" and "p \<notin> set ps"
  shows "chain (h(p \<mapsto> (the (h p))\<lparr>previous := prev'\<rparr>)) prev' (p # ps) nxt (x # xs)"
  using assms by simp

lemma chain_set_next:
  assumes "chain h prev (ps @ [p]) nxt (xs @ [x])" and "p \<notin> set ps"
  shows "chain (h(p \<mapsto> (the (h p))\<lparr>next := nxt'\<rparr>)) prev (ps @ [p]) nxt' (xs @ [x])"
proof -
  have len: "length xs = length ps" using chain_length [OF assms(1)] by simp
  show ?thesis using assms by (simp add: chain_append [OF len])
qed

subsection \<open>The operations on chains\<close>

text \<open>A list seen around one of its nodes.\<close>

lemma holds_split:
  assumes "length xs = length ps"
  shows "holds l (ps @ p # qs) (xs @ x # ys) \<longleftrightarrow>
     distinct (ps @ p # qs) \<and> m_head l = first_of ps (Some p) \<and> m_tail l = last_of qs (Some p)
     \<and> cells l p = Some \<lparr>data = x, next = first_of qs None, previous = last_of ps None\<rparr>
     \<and> chain (cells l) None ps (Some p) xs \<and> chain (cells l) (Some p) qs None ys"
  by (auto simp: holds_def chain_append [OF assms])

lemma chain_relink_right:
  assumes "chain h (Some p) qs nxt ys" and "p \<notin> set qs" and "distinct qs"
  shows "qs = [] \<and> ys = []
       \<or> (\<exists>q qs' y ys'. qs = q # qs' \<and> ys = y # ys'
            \<and> h q = Some \<lparr>data = y, next = first_of qs' nxt, previous = Some p\<rparr>
            \<and> chain (h(q \<mapsto> \<lparr>data = y, next = first_of qs' nxt, previous = prev'\<rparr>)) prev' qs nxt ys)"
  using assms by (cases qs; cases ys) auto

lemma chain_relink_left:
  assumes "chain h prev ps (Some p) xs" and "p \<notin> set ps" and "distinct ps"
  shows "ps = [] \<and> xs = []
       \<or> (\<exists>q ps' y xs'. ps = ps' @ [q] \<and> xs = xs' @ [y]
            \<and> h q = Some \<lparr>data = y, next = Some p, previous = last_of ps' prev\<rparr>
            \<and> chain (h(q \<mapsto> \<lparr>data = y, next = nxt', previous = last_of ps' prev\<rparr>)) prev ps nxt' xs)"
proof (cases ps rule: rev_cases)
  case Nil
  then show ?thesis using assms by simp
next
  case (snoc ps' q)
  with chain_length [OF assms(1)] obtain xs' y where xs: "xs = xs' @ [y]" "length xs' = length ps'"
    by (cases xs rule: rev_cases) auto
  with assms snoc show ?thesis by (auto simp: chain_append)
qed

lemma remove_node_correct:
  assumes h: "holds l (ps @ p # qs) (xs @ x # ys)" and len: "length xs = length ps"
  shows "\<exists>l'. remove_node l (Some p) = Inr l' \<and> holds l' (ps @ qs) (xs @ ys)
           \<and> dom (cells l') = dom (cells l) - {p}"
proof -
  note view = h [unfolded holds_split [OF len]]
  have d: "p \<notin> set ps" "p \<notin> set qs" "distinct ps" "distinct qs" "set ps \<inter> set qs = {}"
    using view by auto
  have left: "chain (cells l) None ps (Some p) xs" and right: "chain (cells l) (Some p) qs None ys"
    using view by auto
  show ?thesis
    using chain_relink_left [OF left d(1,3), of "first_of qs None"]
      chain_relink_right [OF right d(2,4), of "last_of ps None"] view d
    by (auto simp: remove_node_def set_node_def deref_def delete_node_def holds_def chain_append len
        simp del: bindE_ok_iff)
qed

lemma chain_dom: "chain h prev ps nxt xs \<Longrightarrow> set ps \<subseteq> dom h"
  by (induction h prev ps nxt xs rule: chain.induct) auto

lemma holds_fresh: "holds l ps xs \<Longrightarrow> cells l a = None \<Longrightarrow> a \<notin> set ps"
  using chain_dom [of "cells l" None ps None xs] by (auto simp: holds_def)

lemmas list_op_defs = new_node_def set_node_def deref_def delete_node_def

lemma insert_after_correct:
  assumes h: "holds l (ps @ p # qs) (xs @ x # ys)" and len: "length xs = length ps"
    and a: "cells l a = None"
  shows "\<exists>l'. ll_insert_after l (Some p) (Some a) y = Inr l' \<and> holds l' (ps @ p # a # qs) (xs @ x # y # ys)
           \<and> dom (cells l') = insert a (dom (cells l))"
proof -
  note view = h [unfolded holds_split [OF len]]
  have d: "p \<notin> set qs" "distinct qs" "a \<notin> set ps" "a \<noteq> p" "a \<notin> set qs"
    using view holds_fresh [OF h a] by auto
  have right: "chain (cells l) (Some p) qs None ys" using view by auto
  show ?thesis
    using chain_relink_right [OF right d(1,2), of "Some a"] view d
    by (auto simp: ll_insert_after_def insert_after_def list_op_defs holds_def chain_append len
        simp del: bindE_ok_iff)
qed

lemma insert_before_correct:
  assumes h: "holds l (ps @ p # qs) (xs @ x # ys)" and len: "length xs = length ps"
    and a: "cells l a = None"
  shows "\<exists>l'. ll_insert_before l (Some p) (Some a) y = Inr l' \<and> holds l' (ps @ a # p # qs) (xs @ y # x # ys)
           \<and> dom (cells l') = insert a (dom (cells l))"
proof -
  note view = h [unfolded holds_split [OF len]]
  have d: "p \<notin> set ps" "distinct ps" "a \<notin> set ps" "a \<noteq> p" "a \<notin> set qs"
    using view holds_fresh [OF h a] by auto
  have left: "chain (cells l) None ps (Some p) xs" using view by auto
  show ?thesis
    using chain_relink_left [OF left d(1,2), of "Some a"] view d len
    by (auto simp: ll_insert_before_def insert_before_def list_op_defs holds_def chain_append
        simp del: bindE_ok_iff)
qed

text \<open>The operations at the two ends.\<close>

lemma holds_Nil: "holds l [] xs \<longleftrightarrow> xs = [] \<and> m_head l = None \<and> m_tail l = None"
  by (auto simp: holds_def)

lemma holds_snocE:
  assumes "holds l ps xs" and "ps \<noteq> []"
  obtains ps' p xs' x where "ps = ps' @ p # []" "xs = xs' @ x # []" "length xs' = length ps'"
proof -
  have len: "length xs = length ps" using assms(1) chain_length unfolding holds_def by blast
  show thesis
    using assms(2) len that by (cases ps rule: rev_cases; cases xs rule: rev_cases) auto
qed

lemma push_back_correct:
  assumes h: "holds l ps xs" and a: "cells l a = None"
  shows "\<exists>l'. ll_push_back l (Some a) y = Inr l' \<and> holds l' (ps @ [a]) (xs @ [y])
           \<and> dom (cells l') = insert a (dom (cells l))"
proof (cases "ps = []")
  case True
  with h show ?thesis by (auto simp: holds_def ll_push_back_def new_node_def insert_back_def)
next
  case False
  then obtain ps' p xs' x where s: "ps = ps' @ p # []" "xs = xs' @ x # []" "length xs' = length ps'"
    using holds_snocE [OF h] by blast
  then have "m_tail l = Some p" using h by (simp add: holds_def)
  then have "ll_push_back l (Some a) y = ll_insert_after l (Some p) (Some a) y"
    by (simp add: ll_push_back_def ll_insert_after_def insert_back_def new_node_def del: bindE_ok_iff)
  with insert_after_correct [OF h [unfolded s] s(3) a, of y] show ?thesis by (simp add: s)
qed

lemma push_front_correct:
  assumes h: "holds l ps xs" and a: "cells l a = None"
  shows "\<exists>l'. ll_push_front l (Some a) y = Inr l' \<and> holds l' (a # ps) (y # xs)
           \<and> dom (cells l') = insert a (dom (cells l))"
proof (cases ps)
  case Nil
  with h show ?thesis by (auto simp: holds_def ll_push_front_def new_node_def insert_front_def)
next
  case (Cons p qs)
  then obtain x ys where xs: "xs = x # ys" using h by (cases xs) (auto simp: holds_def)
  have "m_head l = Some p" "m_tail l = Some (last ps)" using h Cons by (auto simp: holds_def last_of_def)
  then have "ll_push_front l (Some a) y = ll_insert_before l (Some p) (Some a) y"
    by (simp add: ll_push_front_def ll_insert_before_def insert_front_def new_node_def del: bindE_ok_iff)
  with insert_before_correct [of l "[]" p qs "[]" x ys a y] h a Cons xs show ?thesis by simp
qed

lemma pop_front_correct:
  assumes h: "holds l (p # ps) (x # xs)"
  shows "\<exists>l'. ll_pop_front l = Inr (x, l') \<and> holds l' ps xs \<and> dom (cells l') = dom (cells l) - {p}"
proof -
  have "m_head l = Some p" "deref l (Some p) = Inr \<lparr>data = x, next = first_of ps None, previous = None\<rparr>"
    using h by (simp_all add: holds_def deref_def)
  with remove_node_correct [of l "[]" p ps "[]" x xs] h show ?thesis
    by (auto simp: ll_pop_front_def ll_is_empty_def)
qed

lemma pop_back_correct:
  assumes h: "holds l (ps @ [p]) (xs @ [x])"
  shows "\<exists>l'. ll_pop_back l = Inr (x, l') \<and> holds l' ps xs \<and> dom (cells l') = dom (cells l) - {p}"
proof -
  have len: "length xs = length ps" using h chain_length unfolding holds_def by force
  have tail: "m_tail l = Some p" and head: "m_head l \<noteq> None"
    using h by (auto simp: holds_def first_of_def split: list.splits)
  have d: "deref l (Some p) = Inr \<lparr>data = x, next = None, previous = last_of ps None\<rparr>"
    using h by (simp add: holds_def deref_def chain_append [OF len])
  obtain l' where "remove_node l (Some p) = Inr l'" "holds l' ps xs" "dom (cells l') = dom (cells l) - {p}"
    using remove_node_correct [of l ps p "[]" xs x "[]"] h len by auto
  with tail head d show ?thesis by (simp add: ll_pop_back_def ll_is_empty_def)
qed

lemma is_empty_correct: "holds l ps xs \<Longrightarrow> ll_is_empty l \<longleftrightarrow> xs = []"
  by (cases ps; cases xs) (auto simp: holds_def ll_is_empty_def)

lemma front_correct: "holds l (p # ps) (x # xs) \<Longrightarrow> ll_front l = Inr x"
  by (auto simp: holds_def ll_front_def ll_is_empty_def deref_def)

lemma clear_loop_correct:
  assumes "chain (cells l) prev ps None xs" and "distinct ps" and "length ps \<le> fuel"
  shows "clear_loop fuel l (first_of ps None) = Inr (l\<lparr>cells := (cells l) |` (- set ps)\<rparr>)"
  using assms
proof (induction ps arbitrary: l prev xs fuel)
  case Nil
  then show ?case by simp
next
  case (Cons p ps)
  obtain x xs' where xs: "xs = x # xs'" using Cons.prems(1) by (cases xs) auto
  obtain fuel' where fuel: "fuel = Suc fuel'" using Cons.prems(3) by (cases fuel) auto
  have "chain (cells (delete_node l p)) (Some p) ps None xs'"
    using Cons.prems(1,2) xs unfolding delete_node_def by (simp del: fun_upd_apply)
  then have "clear_loop fuel' (delete_node l p) (first_of ps None)
      = Inr ((delete_node l p)\<lparr>cells := (cells (delete_node l p)) |` (- set ps)\<rparr>)"
    using Cons.prems(2,3) fuel by (intro Cons.IH) auto
  moreover have "((cells l)(p := None)) |` (- set ps) = (cells l) |` (- set (p # ps))"
    by (auto simp: restrict_map_def fun_eq_iff)
  ultimately show ?case
    using Cons.prems(1) xs fuel by (simp add: deref_def delete_node_def del: bindE_ok_iff)
qed

lemma clear_correct:
  assumes "holds l ps xs" and "length ps \<le> fuel"
  shows "\<exists>l'. ll_clear fuel l = Inr l' \<and> holds l' [] [] \<and> dom (cells l') = dom (cells l) - set ps"
  using clear_loop_correct [of l None ps xs fuel] assms
  by (auto simp: holds_def ll_clear_def restrict_map_def split: if_splits)

text \<open>A loop whose body leaves the list alone visits the elements in order.\<close>

lemma for_loop_visits:
  assumes "chain (cells l) prev ps None xs" and "length ps \<le> fuel"
    and "\<And>a n s. cells l a = Some n \<Longrightarrow> body a (l, s) = Inr (l, f (data n) s)"
  shows "for_loop fuel body (l, s) (first_of ps None) = Inr (l, fold f xs s)"
  using assms(1,2)
proof (induction ps arbitrary: prev xs fuel s)
  case (Cons p ps)
  obtain x xs' where xs: "xs = x # xs'" using Cons.prems(1) by (cases xs) auto
  obtain fuel' where "fuel = Suc fuel'" using Cons.prems(2) by (cases fuel) auto
  with Cons.prems Cons.IH [of "Some p" xs' fuel' "f x s"] xs assms(3) show ?case
    by (simp add: deref_def del: bindE_ok_iff)
qed simp

subsection \<open>The interface: a finite sequence\<close>

fun push_all :: "('l \<Rightarrow> nat option \<Rightarrow> 'a \<Rightarrow> 'l outcome) \<Rightarrow> 'l \<Rightarrow> (nat option \<times> 'a) list \<Rightarrow> 'l outcome" where
  "push_all push l [] = Inr l"
| "push_all push l ((a, x) # rest) = bindE (push l a x) (\<lambda>l. push_all push l rest)"

fun pop_n :: "('l \<Rightarrow> ('a \<times> 'l) outcome) \<Rightarrow> nat \<Rightarrow> 'l \<Rightarrow> ('a list \<times> 'l) outcome" where
  "pop_n pop 0 l = Inr ([], l)"
| "pop_n pop (Suc n) l =
     bindE (pop l) (\<lambda>(x, l). bindE (pop_n pop n l) (\<lambda>(xs, l). Inr (x # xs, l)))"

locale sequence =
  fixes rep :: "'l \<Rightarrow> nat set \<Rightarrow> 'a list \<Rightarrow> bool"
    and is_empty :: "'l \<Rightarrow> bool"
    and push_back push_front :: "'l \<Rightarrow> nat option \<Rightarrow> 'a \<Rightarrow> 'l outcome"
    and pop_front pop_back :: "'l \<Rightarrow> ('a \<times> 'l) outcome"
  assumes rep_is_empty: "rep l A xs \<Longrightarrow> is_empty l \<longleftrightarrow> xs = []"
    and rep_push_back: "rep l A xs \<Longrightarrow> a \<notin> A \<Longrightarrow> \<exists>l'. push_back l (Some a) x = Inr l' \<and> rep l' (insert a A) (xs @ [x])"
    and rep_push_front: "rep l A xs \<Longrightarrow> a \<notin> A \<Longrightarrow> \<exists>l'. push_front l (Some a) x = Inr l' \<and> rep l' (insert a A) (x # xs)"
    and rep_pop_front: "rep l A (x # xs) \<Longrightarrow> \<exists>l' A'. pop_front l = Inr (x, l') \<and> A' \<subseteq> A \<and> rep l' A' xs"
    and rep_pop_back: "rep l A (xs @ [x]) \<Longrightarrow> \<exists>l' A'. pop_back l = Inr (x, l') \<and> A' \<subseteq> A \<and> rep l' A' xs"
    and pop_empty: "rep l A [] \<Longrightarrow> pop_front l = Inl Panic \<and> pop_back l = Inl Panic"
begin

lemma push_all_rep:
  "rep l A xs \<Longrightarrow> distinct as \<Longrightarrow> set as \<inter> A = {} \<Longrightarrow> length ys = length as \<Longrightarrow>
     \<exists>l' A'. push_all push_back l (zip (map Some as) ys) = Inr l' \<and> rep l' A' (xs @ ys)"
proof (induction as ys arbitrary: l A xs rule: list_induct2')
  case (4 a as y ys)
  from rep_push_back [OF "4.prems"(1), of a y] "4.prems"(3)
  obtain l' where l': "push_back l (Some a) y = Inr l'" "rep l' (insert a A) (xs @ [y])" by auto
  from "4.IH" [OF l'(2)] "4.prems" obtain l'' A' where
    "push_all push_back l' (zip (map Some as) ys) = Inr l''" "rep l'' A' ((xs @ [y]) @ ys)" by auto
  with l' show ?case by auto
qed auto

lemma pop_n_rep:
  "rep l A (xs @ ys) \<Longrightarrow> \<exists>l' A'. pop_n pop_front (length xs) l = Inr (xs, l') \<and> rep l' A' ys"
proof (induction xs arbitrary: l A)
  case (Cons x xs)
  from rep_pop_front [of l A x "xs @ ys"] Cons.prems
  obtain l' A' where l': "pop_front l = Inr (x, l')" "rep l' A' (xs @ ys)" by auto
  with Cons.IH [OF l'(2)] show ?case by auto
qed auto

text \<open>First in, first out.\<close>

lemma fifo:
  assumes "rep l A []" and "distinct as" and "set as \<inter> A = {}" and "length ys = length as"
  shows "\<exists>l' l'' A'. push_all push_back l (zip (map Some as) ys) = Inr l'
           \<and> pop_n pop_front (length ys) l' = Inr (ys, l'') \<and> rep l'' A' []"
proof -
  from push_all_rep [OF assms] obtain l' A' where
    l': "push_all push_back l (zip (map Some as) ys) = Inr l'" "rep l' A' (ys @ [])" by auto
  with pop_n_rep [OF l'(2)] show ?thesis by blast
qed

end

text \<open>The list owns exactly the nodes of the heap: \<open>A\<close> is the set of allocated addresses.\<close>

definition list_rep :: "'a linked_list \<Rightarrow> nat set \<Rightarrow> 'a list \<Rightarrow> bool" where
  "list_rep l A xs \<longleftrightarrow> (\<exists>ps. holds l ps xs \<and> dom (cells l) = A \<and> A = set ps)"

lemma list_rep_NilD: "list_rep l A [] \<Longrightarrow> m_head l = None \<and> A = {}"
  using chain_length by (fastforce simp: list_rep_def holds_def)

interpretation ll: sequence list_rep ll_is_empty ll_push_back ll_push_front ll_pop_front ll_pop_back
proof
  fix l :: "'a linked_list" and A xs a x
  show "list_rep l A xs \<Longrightarrow> ll_is_empty l \<longleftrightarrow> xs = []"
    by (auto simp: list_rep_def is_empty_correct)
  show "list_rep l A xs \<Longrightarrow> a \<notin> A \<Longrightarrow> \<exists>l'. ll_push_back l (Some a) x = Inr l' \<and> list_rep l' (insert a A) (xs @ [x])"
    using push_back_correct [of l _ xs a x] unfolding list_rep_def by (metis Un_insert_right domIff list.set set_append sup_bot_right)
  show "list_rep l A xs \<Longrightarrow> a \<notin> A \<Longrightarrow> \<exists>l'. ll_push_front l (Some a) x = Inr l' \<and> list_rep l' (insert a A) (x # xs)"
    using push_front_correct [of l _ xs a x] unfolding list_rep_def by (metis domIff list.set(2))
  show "\<exists>l' A'. ll_pop_front l = Inr (x, l') \<and> A' \<subseteq> A \<and> list_rep l' A' xs" if r: "list_rep l A (x # xs)"
  proof -
    obtain ps where ps: "holds l ps (x # xs)" "dom (cells l) = A" "A = set ps" using r by (auto simp: list_rep_def)
    then obtain p qs where pq: "ps = p # qs" by (cases ps) (auto simp: holds_def)
    then have "p \<notin> set qs" using ps(1) by (simp add: holds_def)
    with pop_front_correct [OF ps(1) [unfolded pq]] ps(2,3) pq show ?thesis
      unfolding list_rep_def by fastforce
  qed
  show "\<exists>l' A'. ll_pop_back l = Inr (x, l') \<and> A' \<subseteq> A \<and> list_rep l' A' xs" if r: "list_rep l A (xs @ [x])"
  proof -
    obtain ps where ps: "holds l ps (xs @ [x])" "dom (cells l) = A" "A = set ps" using r by (auto simp: list_rep_def)
    then obtain p qs where pq: "ps = qs @ [p]" by (cases ps rule: rev_cases) (auto simp: holds_def)
    then have "p \<notin> set qs" using ps(1) by (simp add: holds_def)
    with pop_back_correct [OF ps(1) [unfolded pq]] ps(2,3) pq show ?thesis
      unfolding list_rep_def by fastforce
  qed
  show "list_rep l A [] \<Longrightarrow> ll_pop_front l = Inl Panic \<and> ll_pop_back l = Inl Panic"
    using list_rep_NilD [of l A] by (simp add: ll_pop_front_def ll_pop_back_def ll_is_empty_def)
qed

subsection \<open>Properties\<close>

definition empty_list :: "'a linked_list" where
  "empty_list = \<lparr>cells = Map.empty, m_head = None, m_tail = None\<rparr>"

lemma list_rep_empty: "list_rep empty_list {} []"
  by (auto simp: list_rep_def holds_def empty_list_def)

text \<open>
  The list is a queue: the values pushed at the back of an empty list come out at the front in
  the same order, no operation touches a null or freed node, and afterwards no node is left in the
  heap. The nodes may be placed at any pairwise distinct addresses.
\<close>

lemma linked_list_fifo:
  assumes "distinct as" and "length ys = length as"
  shows "\<exists>l l'. push_all ll_push_back empty_list (zip (map Some as) ys) = Inr l
           \<and> pop_n ll_pop_front (length ys) l = Inr (ys, l') \<and> cells l' = Map.empty"
proof -
  obtain l l' A where "push_all ll_push_back empty_list (zip (map Some as) ys) = Inr l"
    "pop_n ll_pop_front (length ys) l = Inr (ys, l')" and r: "list_rep l' A []"
    using ll.fifo [OF list_rep_empty assms(1) _ assms(2)] by auto
  moreover from r have "cells l' = Map.empty" using list_rep_NilD [OF r] by (auto simp: list_rep_def)
  ultimately show ?thesis by blast
qed

text \<open>
  The three positional operations at any place of any well-formed list: inserting before or
  after an iterator and erasing at an iterator give the expected sequence, keep every other node at
  its address, and allocate or free exactly one node.
\<close>

lemma linked_list_positional:
  assumes "holds l (ps @ p # qs) (xs @ x # ys)" and "length xs = length ps" and "cells l a = None"
  shows "\<exists>l1 l2 l3.
       ll_insert_before l (Some p) (Some a) y = Inr l1
     \<and> holds l1 (ps @ a # p # qs) (xs @ y # x # ys) \<and> dom (cells l1) = insert a (dom (cells l))
     \<and> ll_insert_after l (Some p) (Some a) y = Inr l2
     \<and> holds l2 (ps @ p # a # qs) (xs @ x # y # ys) \<and> dom (cells l2) = insert a (dom (cells l))
     \<and> ll_erase l (Some p) = Inr l3
     \<and> holds l3 (ps @ qs) (xs @ ys) \<and> dom (cells l3) = dom (cells l) - {p}"
proof -
  obtain l1 where l1: "ll_insert_before l (Some p) (Some a) y = Inr l1"
    "holds l1 (ps @ a # p # qs) (xs @ y # x # ys)" "dom (cells l1) = insert a (dom (cells l))"
    using insert_before_correct [OF assms] by blast
  obtain l2 where l2: "ll_insert_after l (Some p) (Some a) y = Inr l2"
    "holds l2 (ps @ p # a # qs) (xs @ x # y # ys)" "dom (cells l2) = insert a (dom (cells l))"
    using insert_after_correct [OF assms] by blast
  obtain l3 where l3: "ll_erase l (Some p) = Inr l3"
    "holds l3 (ps @ qs) (xs @ ys)" "dom (cells l3) = dom (cells l) - {p}"
    using remove_node_correct [OF assms(1,2)] unfolding ll_erase_def by blast
  show ?thesis using l1 l2 l3 by (intro exI conjI)
qed

definition two_nodes :: "nat linked_list" where
  "two_nodes =
     \<lparr>cells = [4 \<mapsto> \<lparr>data = 10, next = Some 9, previous = None\<rparr>,
               9 \<mapsto> \<lparr>data = 20, next = None, previous = Some 4\<rparr>],
      m_head = Some 4, m_tail = Some 9\<rparr>"

text \<open>
  C5. A range-based loop that erases the element it stands on dereferences a freed node: whatever
  the list, if it is not empty the loop is undefined. Loops of this form are in
  \<^verbatim>\<open>Task::free_resources\<close> (pipes), \<^verbatim>\<open>MemoryChunk::~MemoryChunk\<close>, \<^verbatim>\<open>Buffer::~Buffer\<close> and
  \<^verbatim>\<open>ProcessMemory::free\<close>.
\<close>

definition erase_each :: "nat \<Rightarrow> 'a linked_list \<Rightarrow> 'a linked_list outcome" where
  "erase_each fuel l =
     bindE (for_loop fuel (\<lambda>a (l, s). bindE (ll_erase l (Some a)) (\<lambda>l. Inr (l, s))) (l, ()) (m_head l))
       (\<lambda>(l, _). Inr l)"

theorem erase_while_iterating_undefined:
  assumes "holds l ps xs" and "xs \<noteq> []" and "0 < fuel"
  shows "erase_each fuel l = Inl Undefined"
proof -
  obtain x ys where xs: "xs = x # ys" using assms(2) by (cases xs) auto
  with assms(1) obtain p qs where ps: "ps = p # qs" by (cases ps) (auto simp: holds_def)
  obtain fuel' where fuel: "fuel = Suc fuel'" using assms(3) by (cases fuel) auto
  obtain l' where l': "ll_erase l (Some p) = Inr l'" "dom (cells l') = dom (cells l) - {p}"
    using remove_node_correct [of l "[]" p qs "[]" x ys] assms(1) xs ps by (auto simp: ll_erase_def)
  then have "cells l' p = None" by (metis DiffD2 domIff singletonI)
  moreover have "m_head l = Some p" using assms(1) ps by (simp add: holds_def)
  ultimately show ?thesis using l' fuel by (simp add: erase_each_def deref_def)
qed

theorem erase_while_iterating_undefined_witness: "erase_each 5 two_nodes = Inl Undefined"
  by (rule erase_while_iterating_undefined [of two_nodes "[4, 9]" "[10, 20]"])
    (simp_all add: two_nodes_def holds_def)

end
