(* ===== verification/Task.thy ===== *)
theory Task
  imports Prelude
begin

text \<open>
  Tasks, \<^verbatim>\<open>kernel/task/task.hpp\<close> and \<^verbatim>\<open>task.cpp\<close>. Tasks are created by the task manager only, which
  keeps every one of them in \<^verbatim>\<open>m_tasks\<close> for the life of the kernel, so that a \<^verbatim>\<open>TaskPtr\<close> is a
  position in that list, \<open>None\<close> for the null pointer. The saved registers and the address space of a
  task are not part of this record. \<open>m_manager\<close> says whether the pointer of that name is the one task
  manager of the kernel (its constructor asserts that there is no other).
\<close>

subsection \<open>The task object\<close>

datatype task_state = RUNNING | INTERRUPTIBLE | UNINTERRUPTIBLE | TERMINATED

type_synonym tptr = nat

record task =
  m_id :: u32
  m_state :: task_state
  m_priority :: nat
  m_elapsed_ticks :: u64
  m_is_kernel :: bool
  m_marked_kill :: bool
  m_preempt_count :: int
  m_manager :: bool
  m_parent :: "tptr option"
  m_children :: "tptr list"
  m_windows :: "nat list"
  m_open_files :: "nat list"
  m_open_dirs :: "nat list"
  m_open_pipes :: "nat list"

text \<open>\<open>make_shared<Task>()\<close> with the member initialisers (\<open>m_id\<close> has none and is set by the manager).\<close>

definition make_task :: "u32 \<Rightarrow> task" where
  "make_task pid = \<lparr>m_id = pid, m_state = INTERRUPTIBLE, m_priority = 0, m_elapsed_ticks = 0, m_is_kernel = False,
     m_marked_kill = False, m_preempt_count = 0, m_manager = False, m_parent = None, m_children = [],
     m_windows = [], m_open_files = [], m_open_dirs = [], m_open_pipes = []\<rparr>"

definition is_running :: "task \<Rightarrow> bool" where
  "is_running t \<longleftrightarrow> m_state t = RUNNING"

definition is_interruptible :: "task \<Rightarrow> bool" where
  "is_interruptible t \<longleftrightarrow> m_state t = INTERRUPTIBLE"

definition is_uninterruptible :: "task \<Rightarrow> bool" where
  "is_uninterruptible t \<longleftrightarrow> m_state t = UNINTERRUPTIBLE"

definition is_terminated :: "task \<Rightarrow> bool" where
  "is_terminated t \<longleftrightarrow> m_state t = TERMINATED"

text \<open>\<^verbatim>\<open>children_end()\<close> returns \<^verbatim>\<open>m_children.begin()\<close>, so the range from begin to end is empty.\<close>

definition children_begin :: "task \<Rightarrow> nat" where
  "children_begin t = 0"

definition children_end :: "task \<Rightarrow> nat" where
  "children_end t = 0"

definition can_preempt :: "task \<Rightarrow> bool" where
  "can_preempt t \<longleftrightarrow> m_preempt_count t = 0"

definition disable_preempt :: "task \<Rightarrow> task" where
  "disable_preempt t = t\<lparr>m_preempt_count := m_preempt_count t + 1\<rparr>"

definition enable_preempt :: "task \<Rightarrow> task outcome" where
  "enable_preempt t =
     (let t' = t\<lparr>m_preempt_count := m_preempt_count t - 1\<rparr> in kassert (m_preempt_count t' \<ge> 0) (ok t'))"

definition mark_to_be_killed :: "task \<Rightarrow> task" where
  "mark_to_be_killed t = t\<lparr>m_marked_kill := True\<rparr>"

subsection \<open>Owned resources\<close>

text \<open>
  The four kinds of resources share one pattern: \<^verbatim>\<open>own\<close> is \<^verbatim>\<open>std::find\<close> over the list, \<^verbatim>\<open>register\<close> pushes
  at the back, \<^verbatim>\<open>unregister\<close> asserts that the resource is there and erases its first occurrence.
  For windows both also assert that this task is the window's task.
\<close>

definition owns :: "nat list \<Rightarrow> nat option \<Rightarrow> bool" where
  "owns rs r = (case r of None \<Rightarrow> False | Some x \<Rightarrow> x \<in> set rs)"

definition own_window :: "task \<Rightarrow> nat option \<Rightarrow> bool" where
  "own_window t w = owns (m_windows t) w"

definition register_window :: "(nat \<Rightarrow> tptr) \<Rightarrow> tptr \<Rightarrow> task \<Rightarrow> nat option \<Rightarrow> task outcome" where
  "register_window window_task self t w =
     (case w of None \<Rightarrow> Inl Panic
      | Some x \<Rightarrow> kassert (window_task x = self) (ok (t\<lparr>m_windows := m_windows t @ [x]\<rparr>)))"

definition unregister_window :: "(nat \<Rightarrow> tptr) \<Rightarrow> tptr \<Rightarrow> task \<Rightarrow> nat option \<Rightarrow> task outcome" where
  "unregister_window window_task self t w =
     (case w of None \<Rightarrow> Inl Panic
      | Some x \<Rightarrow> kassert (window_task x = self)
          (kassert (x \<in> set (m_windows t)) (ok (t\<lparr>m_windows := remove1 x (m_windows t)\<rparr>))))"

definition own_file :: "task \<Rightarrow> nat option \<Rightarrow> bool" where
  "own_file t f = owns (m_open_files t) f"

definition register_file :: "task \<Rightarrow> nat option \<Rightarrow> task outcome" where
  "register_file t f =
     (case f of None \<Rightarrow> Inl Panic | Some x \<Rightarrow> ok (t\<lparr>m_open_files := m_open_files t @ [x]\<rparr>))"

definition unregister_file :: "task \<Rightarrow> nat option \<Rightarrow> task outcome" where
  "unregister_file t f =
     (case f of None \<Rightarrow> Inl Panic
      | Some x \<Rightarrow> kassert (x \<in> set (m_open_files t)) (ok (t\<lparr>m_open_files := remove1 x (m_open_files t)\<rparr>)))"

definition own_dir :: "task \<Rightarrow> nat option \<Rightarrow> bool" where
  "own_dir t d = owns (m_open_dirs t) d"

definition register_dir :: "task \<Rightarrow> nat option \<Rightarrow> task outcome" where
  "register_dir t d =
     (case d of None \<Rightarrow> Inl Panic | Some x \<Rightarrow> ok (t\<lparr>m_open_dirs := m_open_dirs t @ [x]\<rparr>))"

definition unregister_dir :: "task \<Rightarrow> nat option \<Rightarrow> task outcome" where
  "unregister_dir t d =
     (case d of None \<Rightarrow> Inl Panic
      | Some x \<Rightarrow> kassert (x \<in> set (m_open_dirs t)) (ok (t\<lparr>m_open_dirs := remove1 x (m_open_dirs t)\<rparr>)))"

definition own_pipe :: "task \<Rightarrow> nat option \<Rightarrow> bool" where
  "own_pipe t p = owns (m_open_pipes t) p"

subsection \<open>Lemmas\<close>

lemmas state_simps = is_running_def is_interruptible_def is_uninterruptible_def is_terminated_def

lemma own_register_file: "register_file t (Some x) = ok t' \<Longrightarrow> own_file t' (Some y) \<longleftrightarrow> y = x \<or> own_file t (Some y)"
  by (auto simp: register_file_def own_file_def owns_def)

lemma file_round_trip:
  assumes "\<not> own_file t (Some x)"
  shows "bindE (register_file t (Some x)) (\<lambda>t. unregister_file t (Some x)) = ok t"
proof -
  have "remove1 x (m_open_files t @ [x]) = m_open_files t"
    using assms by (simp add: own_file_def owns_def remove1_append)
  then show ?thesis by (simp add: register_file_def unregister_file_def)
qed

lemma enable_after_disable: "m_preempt_count t \<ge> 0 \<Longrightarrow> enable_preempt (disable_preempt t) = ok t"
  by (simp add: enable_preempt_def disable_preempt_def)

end
