(* ===== verification/Scheduler.thy ===== *)
theory Scheduler
  imports Task
begin

text \<open>
  The multilevel queue scheduler, \<^verbatim>\<open>kernel/task/scheduler.cpp\<close>: one run queue for each of the 32
  priorities, the current task, and the tasks themselves. The linked lists of the run queues are HOL
  lists (refined in \<^verbatim>\<open>Linked_List\<close>). An index above the last priority would be out of the bounds of the
  array and is \<open>Undefined\<close>, as is a pointer that is not a task.

  The specification of the scheduler is a set of tasks: \<open>schedules s R\<close> says that the tasks of \<open>R\<close>, and
  no others, are either the current task or exactly once in the run queue of their priority.
\<close>

subsection \<open>Model\<close>

definition MIN_PRIORITY :: nat where
  "MIN_PRIORITY = 0"

definition MAX_PRIORITY :: nat where
  "MAX_PRIORITY = 31"

definition DEFAULT_PRIORITY :: nat where
  "DEFAULT_PRIORITY = (MAX_PRIORITY - MIN_PRIORITY) div 2"

record sched =
  tasks :: "task list"
  m_current_task :: "tptr option"
  m_run_queue :: "nat \<Rightarrow> tptr list"

definition task_at :: "'z sched_scheme \<Rightarrow> tptr \<Rightarrow> task outcome" where
  "task_at s p = (if p < length (tasks s) then ok (tasks s ! p) else Inl Undefined)"

definition set_task :: "'z sched_scheme \<Rightarrow> tptr \<Rightarrow> (task \<Rightarrow> task) \<Rightarrow> 'z sched_scheme" where
  "set_task s p f = s\<lparr>tasks := (tasks s)[p := f (tasks s ! p)]\<rparr>"

definition rq_push_back :: "'z sched_scheme \<Rightarrow> nat \<Rightarrow> tptr \<Rightarrow> 'z sched_scheme outcome" where
  "rq_push_back s i p =
     (if i \<le> MAX_PRIORITY then ok (s\<lparr>m_run_queue := (m_run_queue s)(i := m_run_queue s i @ [p])\<rparr>) else Inl Undefined)"

definition sched_add_task :: "'z sched_scheme \<Rightarrow> tptr option \<Rightarrow> 'z sched_scheme outcome" where
  "sched_add_task s task =
     (case task of None \<Rightarrow> Inl Panic
      | Some p \<Rightarrow> bindE (task_at s p) (\<lambda>t.
          kassert (\<not> is_running t) (
          kassert (m_priority t \<ge> MIN_PRIORITY \<and> m_priority t \<le> MAX_PRIORITY) (
          rq_push_back s (m_priority t) p))))"

fun schedule_loop :: "(nat \<Rightarrow> tptr list) \<Rightarrow> nat \<Rightarrow> tptr option \<times> (nat \<Rightarrow> tptr list)" where
  "schedule_loop rq i =
     (case rq i of
        p # ps \<Rightarrow> (Some p, rq(i := ps))
      | [] \<Rightarrow> if i > MIN_PRIORITY then schedule_loop rq (i - 1) else (None, rq))"

declare schedule_loop.simps [simp del]

lemma schedule_loop_step:
  "rq i = p # ps \<Longrightarrow> schedule_loop rq i = (Some p, rq(i := ps))"
  "rq i = [] \<Longrightarrow> i \<noteq> 0 \<Longrightarrow> schedule_loop rq i = schedule_loop rq (i - 1)"
  "rq 0 = [] \<Longrightarrow> schedule_loop rq 0 = (None, rq)"
  by (subst schedule_loop.simps, simp add: MIN_PRIORITY_def)+

definition switch_to :: "'z sched_scheme \<Rightarrow> tptr option \<Rightarrow> 'z sched_scheme outcome" where
  "switch_to s new_task =
     (case new_task of None \<Rightarrow> ok s
      | Some n \<Rightarrow> bindE (task_at s n) (\<lambda>t. kassert (is_running t) (
          bindE (case m_current_task s of
                   None \<Rightarrow> ok s
                 | Some c \<Rightarrow> if c \<noteq> n then bindE (task_at s c) (\<lambda>ct. rq_push_back s (m_priority ct) c) else ok s)
            (\<lambda>s. ok (set_task (s\<lparr>m_current_task := Some n\<rparr>) n (\<lambda>t. t\<lparr>m_elapsed_ticks := 0\<rparr>))))))"

definition schedule :: "'z sched_scheme \<Rightarrow> 'z sched_scheme outcome" where
  "schedule s =
     bindE (case m_current_task s of None \<Rightarrow> ok True | Some c \<Rightarrow> bindE (task_at s c) (\<lambda>t. ok (can_preempt t)))
       (\<lambda>may. if \<not> may then ok s
              else case schedule_loop (m_run_queue s) MAX_PRIORITY of
                     (new_task, rq) \<Rightarrow> switch_to (s\<lparr>m_run_queue := rq\<rparr>) new_task)"

definition sched_remove_task :: "'z sched_scheme \<Rightarrow> tptr option \<Rightarrow> (bool \<times> 'z sched_scheme) outcome" where
  "sched_remove_task s task =
     (case task of None \<Rightarrow> Inl Panic
      | Some p \<Rightarrow> bindE (task_at s p) (\<lambda>t.
          kassert (is_running t) (
          kassert (m_priority t \<ge> MIN_PRIORITY \<and> m_priority t \<le> MAX_PRIORITY) (
          if m_current_task s = Some p
          then bindE (schedule (s\<lparr>m_current_task := None\<rparr>)) (\<lambda>s. ok (True, s))
          else if p \<in> set (m_run_queue s (m_priority t))
          then ok (True, s\<lparr>m_run_queue := (m_run_queue s)(m_priority t := remove1 p (m_run_queue s (m_priority t)))\<rparr>)
          else ok (False, s)))))"

definition update_task_priority :: "'z sched_scheme \<Rightarrow> tptr option \<Rightarrow> nat \<Rightarrow> 'z sched_scheme outcome" where
  "update_task_priority s task old_priority =
     (case task of None \<Rightarrow> Inl Panic
      | Some p \<Rightarrow>
          if m_current_task s = Some p then ok s
          else bindE (task_at s p) (\<lambda>t. let new_priority = m_priority t in
            kassert (new_priority \<ge> MIN_PRIORITY \<and> new_priority \<le> MAX_PRIORITY) (
            if new_priority = old_priority then ok s
            else if old_priority > MAX_PRIORITY then Inl Undefined
            else if p \<notin> set (m_run_queue s old_priority) then ok s
            else rq_push_back (s\<lparr>m_run_queue := (m_run_queue s)(old_priority := remove1 p (m_run_queue s old_priority))\<rparr>)
                   new_priority p)))"

definition get_current_priority :: "'z sched_scheme \<Rightarrow> nat outcome" where
  "get_current_priority s =
     (case m_current_task s of None \<Rightarrow> ok 0 | Some c \<Rightarrow> bindE (task_at s c) (\<lambda>t. ok (m_priority t)))"

fun find_higher :: "(nat \<Rightarrow> tptr list) \<Rightarrow> nat \<Rightarrow> nat \<Rightarrow> tptr option \<times> (nat \<Rightarrow> tptr list)" where
  "find_higher rq current_priority i =
     (if i > current_priority
      then (case rq i of
              p # ps \<Rightarrow> (Some p, rq(i := ps))
            | [] \<Rightarrow> find_higher rq current_priority (i - 1))
      else (None, rq))"

declare find_higher.simps [simp del]

definition get_time_slice_for_priority :: "nat \<Rightarrow> u64" where
  "get_time_slice_for_priority priority = (if priority = 0 then 1 else 10)"

text \<open>The round-robin loop of \<^verbatim>\<open>tick\<close>: the body indexes the queues with \<open>current_priority\<close>, not with \<open>i\<close>.\<close>

fun round_robin :: "(nat \<Rightarrow> tptr list) \<Rightarrow> nat \<Rightarrow> nat \<Rightarrow> tptr option \<times> (nat \<Rightarrow> tptr list)" where
  "round_robin rq current_priority i =
     (case rq current_priority of
        p # ps \<Rightarrow> (Some p, rq(current_priority := ps))
      | [] \<Rightarrow> if i > MIN_PRIORITY then round_robin rq current_priority (i - 1) else (None, rq))"

declare round_robin.simps [simp del]

definition sched_tick :: "'z sched_scheme \<Rightarrow> 'z sched_scheme outcome" where
  "sched_tick s0 =
     (case m_current_task s0 of
        None \<Rightarrow>
          (case find_higher (m_run_queue s0) 0 MAX_PRIORITY of
             (new_task, rq) \<Rightarrow> switch_to (s0\<lparr>m_run_queue := rq\<rparr>) new_task)
      | Some c \<Rightarrow> bindE (task_at s0 c) (\<lambda>_.
          let s = set_task s0 c (\<lambda>t. t\<lparr>m_elapsed_ticks := m_elapsed_ticks t + 1\<rparr>) in
          bindE (task_at s c) (\<lambda>old.
            if \<not> can_preempt old then ok s
            else bindE (get_current_priority s) (\<lambda>cp.
              case find_higher (m_run_queue s) cp MAX_PRIORITY of
                (Some n, rq) \<Rightarrow> switch_to (s\<lparr>m_run_queue := rq\<rparr>) (Some n)
              | (None, rq) \<Rightarrow>
                  if m_elapsed_ticks old \<ge> get_time_slice_for_priority (m_priority old)
                  then if cp > MAX_PRIORITY then Inl Undefined
                       else (case round_robin rq cp cp of
                          (new_task, rq) \<Rightarrow> switch_to (s\<lparr>m_run_queue := rq\<rparr>) new_task)
                  else switch_to (s\<lparr>m_run_queue := rq\<rparr>) None))))"

subsection \<open>Specification\<close>

definition prio :: "'z sched_scheme \<Rightarrow> tptr \<Rightarrow> nat" where
  "prio s p = m_priority (tasks s ! p)"

definition schedules :: "'z sched_scheme \<Rightarrow> tptr set \<Rightarrow> bool" where
  "schedules s R \<longleftrightarrow>
     (\<forall>p\<in>R. p < length (tasks s) \<and> is_running (tasks s ! p) \<and> prio s p \<le> MAX_PRIORITY)
     \<and> (\<forall>c. m_current_task s = Some c \<longrightarrow> c \<in> R)
     \<and> (\<forall>i. distinct (m_run_queue s i) \<and> set (m_run_queue s i) = {p \<in> R. prio s p = i \<and> m_current_task s \<noteq> Some p})"

lemma schedulesD:
  assumes "schedules s R"
  shows "p \<in> R \<Longrightarrow> p < length (tasks s)" and "p \<in> R \<Longrightarrow> is_running (tasks s ! p)"
    and "p \<in> R \<Longrightarrow> prio s p \<le> MAX_PRIORITY" and "m_current_task s = Some c \<Longrightarrow> c \<in> R"
    and "distinct (m_run_queue s i)" and "p \<in> set (m_run_queue s i) \<longleftrightarrow> p \<in> R \<and> prio s p = i \<and> m_current_task s \<noteq> Some p"
  using assms unfolding schedules_def by blast+

subsection \<open>The three searches\<close>

text \<open>What a search returns: the head of a queue, or nothing and the queues unchanged.\<close>

definition takes_head :: "(nat \<Rightarrow> tptr list) \<Rightarrow> tptr option \<times> (nat \<Rightarrow> tptr list) \<Rightarrow> nat \<Rightarrow> bool" where
  "takes_head rq r i \<longleftrightarrow> (\<exists>p ps. rq i = p # ps \<and> r = (Some p, rq(i := ps)))"

lemma schedule_loop_spec:
  "(\<exists>i\<le>n. takes_head rq (schedule_loop rq n) i \<and> (\<forall>j\<le>n. i < j \<longrightarrow> rq j = []))
   \<or> (schedule_loop rq n = (None, rq) \<and> (\<forall>j\<le>n. rq j = []))"
proof (induction n)
  case 0
  show ?case
    by (cases "rq 0") (simp_all add: schedule_loop.simps [of rq 0] takes_head_def MIN_PRIORITY_def)
next
  case (Suc n)
  show ?case
  proof (cases "rq (Suc n)")
    case Nil
    then have "schedule_loop rq (Suc n) = schedule_loop rq n"
      by (simp add: schedule_loop.simps [of rq "Suc n"] MIN_PRIORITY_def)
    with Suc Nil show ?thesis by (metis le_Suc_eq)
  next
    case (Cons p ps)
    then have "takes_head rq (schedule_loop rq (Suc n)) (Suc n)"
      by (simp add: schedule_loop.simps [of rq "Suc n"] takes_head_def)
    then show ?thesis by auto
  qed
qed

lemma find_higher_spec:
  "(\<exists>i\<le>n. c < i \<and> takes_head rq (find_higher rq c n) i \<and> (\<forall>j\<le>n. i < j \<longrightarrow> rq j = []))
   \<or> (find_higher rq c n = (None, rq) \<and> (\<forall>j\<le>n. c < j \<longrightarrow> rq j = []))"
proof (induction n)
  case 0
  show ?case by (simp add: find_higher.simps)
next
  case (Suc n)
  consider (out) "\<not> c < Suc n" | (empty) "c < Suc n" "rq (Suc n) = []" | (found) p ps where "c < Suc n" "rq (Suc n) = p # ps"
    by (cases "rq (Suc n)") auto
  then show ?case
  proof cases
    case out
    then show ?thesis by (simp add: find_higher.simps [of rq c "Suc n"])
  next
    case empty
    then have "find_higher rq c (Suc n) = find_higher rq c n" by (simp add: find_higher.simps [of rq c "Suc n"])
    with Suc empty show ?thesis by (metis le_Suc_eq)
  next
    case found
    then have "takes_head rq (find_higher rq c (Suc n)) (Suc n)"
      by (simp add: find_higher.simps [of rq c "Suc n"] takes_head_def)
    with found show ?thesis by (metis Suc_leI le_refl not_le)
  qed
qed

lemma round_robin_spec:
  "takes_head rq (round_robin rq c n) c \<or> (round_robin rq c n = (None, rq) \<and> rq c = [])"
proof (cases "rq c")
  case Nil
  have "round_robin rq c n = (None, rq)"
  proof (induction n)
    case 0
    show ?case using Nil by (simp add: round_robin.simps [of rq c 0] MIN_PRIORITY_def)
  next
    case (Suc n)
    then show ?case using Nil by (simp add: round_robin.simps [of rq c "Suc n"] MIN_PRIORITY_def)
  qed
  with Nil show ?thesis by simp
next
  case (Cons p ps)
  then show ?thesis by (simp add: round_robin.simps [of rq c n] takes_head_def)
qed

subsection \<open>Switching tasks\<close>

text \<open>The scheduler writes nothing but the time slices in the tasks, and nothing outside its own state.\<close>

definition same_but_ticks :: "'z sched_scheme \<Rightarrow> 'z sched_scheme \<Rightarrow> bool" where
  "same_but_ticks s s' \<longleftrightarrow> sched.more s' = sched.more s
     \<and> map (\<lambda>t. t\<lparr>m_elapsed_ticks := 0\<rparr>) (tasks s') = map (\<lambda>t. t\<lparr>m_elapsed_ticks := 0\<rparr>) (tasks s)"

lemma same_but_ticks_length: "same_but_ticks s s' \<Longrightarrow> length (tasks s') = length (tasks s)"
  unfolding same_but_ticks_def by (metis length_map)

lemma same_but_ticks_task:
  assumes "same_but_ticks s s'" and "p < length (tasks s)"
  shows "(tasks s' ! p)\<lparr>m_elapsed_ticks := 0\<rparr> = (tasks s ! p)\<lparr>m_elapsed_ticks := 0\<rparr>"
  using assms same_but_ticks_length [OF assms(1)] unfolding same_but_ticks_def by (metis nth_map)

lemma same_but_ticks_fields:
  assumes "same_but_ticks s s'" and "p < length (tasks s)"
  shows "m_priority (tasks s' ! p) = m_priority (tasks s ! p)" and "m_state (tasks s' ! p) = m_state (tasks s ! p)"
    and "m_preempt_count (tasks s' ! p) = m_preempt_count (tasks s ! p)" and "m_manager (tasks s' ! p) = m_manager (tasks s ! p)"
    and "m_id (tasks s' ! p) = m_id (tasks s ! p)"
  using arg_cong [OF same_but_ticks_task [OF assms], of m_priority] arg_cong [OF same_but_ticks_task [OF assms], of m_state]
    arg_cong [OF same_but_ticks_task [OF assms], of m_preempt_count] arg_cong [OF same_but_ticks_task [OF assms], of m_manager]
    arg_cong [OF same_but_ticks_task [OF assms], of m_id]
  by simp_all

lemma same_but_ticks_refl [simp]: "same_but_ticks s s"
  by (simp add: same_but_ticks_def)

lemma same_but_ticks_trans: "same_but_ticks a b \<Longrightarrow> same_but_ticks b c \<Longrightarrow> same_but_ticks a c"
  by (simp add: same_but_ticks_def)

lemma same_but_ticks_updates [simp]:
  "same_but_ticks s (s'\<lparr>m_run_queue := rq\<rparr>) = same_but_ticks s s'"
  "same_but_ticks s (s'\<lparr>m_current_task := c\<rparr>) = same_but_ticks s s'"
  "same_but_ticks (s\<lparr>m_run_queue := rq\<rparr>) s' = same_but_ticks s s'"
  "same_but_ticks (s\<lparr>m_current_task := c\<rparr>) s' = same_but_ticks s s'"
  by (simp_all add: same_but_ticks_def)

lemma same_but_ticks_set_task [simp]: "same_but_ticks s (set_task s p (\<lambda>t. t\<lparr>m_elapsed_ticks := f t\<rparr>))"
proof (cases "p < length (tasks s)")
  case True
  then have "(map (\<lambda>t. t\<lparr>m_elapsed_ticks := 0\<rparr>) (tasks s))[p := (tasks s ! p)\<lparr>m_elapsed_ticks := 0\<rparr>] = map (\<lambda>t. t\<lparr>m_elapsed_ticks := 0\<rparr>) (tasks s)"
    by (metis list_update_id nth_map)
  then show ?thesis by (simp add: same_but_ticks_def set_task_def map_update)
qed (simp add: same_but_ticks_def set_task_def list_update_beyond)

lemma set_task_fields [simp]:
  "m_current_task (set_task s p f) = m_current_task s" "m_run_queue (set_task s p f) = m_run_queue s"
  "length (tasks (set_task s p f)) = length (tasks s)" "sched.more (set_task s p f) = sched.more s"
  by (simp_all add: set_task_def)

lemma prio_updates [simp]: "prio (s\<lparr>m_run_queue := rq\<rparr>) = prio s" "prio (s\<lparr>m_current_task := c\<rparr>) = prio s"
  by (simp_all add: prio_def fun_eq_iff)

lemma schedules_same_but_ticks:
  assumes "schedules s R" and "same_but_ticks s s'" and "m_run_queue s' = m_run_queue s" and "m_current_task s' = m_current_task s"
  shows "schedules s' R"
proof -
  have "p \<in> R \<Longrightarrow> prio s' p = prio s p" for p
    using same_but_ticks_fields(1) [OF assms(2), of p] schedulesD(1) [OF assms(1)] by (simp add: prio_def)
  moreover have "p \<in> R \<Longrightarrow> is_running (tasks s' ! p)" for p
    using same_but_ticks_fields(2) [OF assms(2), of p] schedulesD(1,2) [OF assms(1)] by (simp add: is_running_def)
  ultimately show ?thesis
    using assms(1,3,4) same_but_ticks_length [OF assms(2)] unfolding schedules_def by (auto simp: set_eq_iff)
qed

lemma schedules_queue_cases:
  assumes "schedules s R" and "m_run_queue s i = p # ps"
  shows "p \<in> R" and "prio s p = i" and "m_current_task s \<noteq> Some p" and "p \<notin> set ps" and "i \<le> MAX_PRIORITY"
    and "p < length (tasks s)" and "is_running (tasks s ! p)"
  using schedulesD [OF assms(1)] assms(2) by (metis distinct.simps(2) list.set_intros(1))+

lemma requeue_current:
  assumes s: "schedules s R" and p: "p \<in> R" "m_current_task s \<noteq> Some p"
    and rq: "\<And>k. distinct (rq k)" "\<And>k. set (rq k) = {q \<in> R. prio s q = k \<and> m_current_task s \<noteq> Some q \<and> q \<noteq> p}"
  shows "schedules (s\<lparr>m_run_queue := (case m_current_task s of None \<Rightarrow> rq | Some c \<Rightarrow> rq(prio s c := rq (prio s c) @ [c])),
           m_current_task := Some p\<rparr>) R"
proof (cases "m_current_task s")
  case None
  then show ?thesis using schedulesD(1-3) [OF s] p rq by (simp add: schedules_def) blast
next
  case (Some c)
  have c: "c \<in> R" "c \<notin> set (rq k)" "c \<noteq> p" for k using Some schedulesD(4) [OF s] rq(2) p by auto
  have "set ((rq(prio s c := rq (prio s c) @ [c])) j) = {q \<in> R. prio s q = j \<and> Some p \<noteq> Some q}" for j
  proof (cases "j = prio s c")
    case True
    have "set (rq j) = {q \<in> R. prio s q = j \<and> q \<noteq> c \<and> q \<noteq> p}" using rq(2) [of j] Some by auto
    then show ?thesis using True c by auto
  next
    case False
    then show ?thesis using rq(2) [of j] Some by auto
  qed
  moreover have "distinct ((rq(prio s c := rq (prio s c) @ [c])) j)" for j using rq(1) c(2) by simp
  ultimately show ?thesis using schedulesD(1-3) [OF s] p(1) Some by (simp add: schedules_def del: fun_upd_apply)
qed

text \<open>Popping the head of a queue and switching to it keeps the scheduled set.\<close>

lemma switch_to_head:
  assumes s: "schedules s R" and q: "m_run_queue s i = p # ps"
  obtains s' where "switch_to (s\<lparr>m_run_queue := (m_run_queue s)(i := ps)\<rparr>) (Some p) = ok s'"
    and "schedules s' R" and "m_current_task s' = Some p" and "same_but_ticks s s'"
    and "m_elapsed_ticks (tasks s' ! p) = 0"
    and "\<forall>c. m_current_task s = Some c \<longrightarrow> m_run_queue s' = ((m_run_queue s)(i := ps))(prio s c := ((m_run_queue s)(i := ps)) (prio s c) @ [c])"
proof -
  note p = schedules_queue_cases [OF s q]
  let ?rq = "(m_run_queue s)(i := ps)"
  let ?requeued = "case m_current_task s of None \<Rightarrow> ?rq | Some c \<Rightarrow> ?rq(prio s c := ?rq (prio s c) @ [c])"
  let ?s = "set_task (s\<lparr>m_run_queue := ?requeued, m_current_task := Some p\<rparr>) p (\<lambda>t. t\<lparr>m_elapsed_ticks := 0\<rparr>)"
  have c: "c \<in> R \<and> c < length (tasks s) \<and> prio s c \<le> MAX_PRIORITY" if "m_current_task s = Some c" for c
    using that schedulesD [OF s] by blast
  have popped: "set (?rq k) = {q \<in> R. prio s q = k \<and> m_current_task s \<noteq> Some q \<and> q \<noteq> p}" for k
  proof (cases "k = i")
    case True
    have "set ps = set (m_run_queue s i) - {p}" using p(4) q by auto
    then show ?thesis using True schedulesD(6) [OF s, of _ i] by auto
  next
    case False
    then show ?thesis using schedulesD(6) [OF s, of _ k] p(2) by auto
  qed
  have sw: "switch_to (s\<lparr>m_run_queue := ?rq\<rparr>) (Some p) = ok ?s"
    using p(3,6,7) c
    by (cases "m_current_task s") (auto simp: switch_to_def task_at_def rq_push_back_def prio_def set_task_def)
  have "distinct (?rq k)" for k
    using schedulesD(5) [OF s, of k] schedulesD(5) [OF s, of i] q by simp
  then have "schedules (s\<lparr>m_run_queue := ?requeued, m_current_task := Some p\<rparr>) R"
    using requeue_current [OF s p(1,3), of ?rq] popped by blast
  then have "schedules ?s R" by (rule schedules_same_but_ticks) simp_all
  moreover have "same_but_ticks s ?s"
    by (rule same_but_ticks_trans [OF _ same_but_ticks_set_task]) simp
  moreover have "m_elapsed_ticks (tasks ?s ! p) = 0" using p(6) by (simp add: set_task_def)
  moreover have "m_run_queue ?s = ?rq(prio s c := ?rq (prio s c) @ [c])" if "m_current_task s = Some c" for c
    using that by simp
  ultimately show ?thesis using that [of ?s] sw by simp
qed

lemma takes_headE:
  assumes "takes_head rq r i"
  obtains p ps where "rq i = p # ps" and "r = (Some p, rq(i := ps))"
  using assms by (auto simp: takes_head_def)

lemma queues_above_empty:
  assumes "schedules s R" and "\<forall>j\<le>MAX_PRIORITY. i < j \<longrightarrow> m_run_queue s j = []" and "q \<in> R" and "m_current_task s \<noteq> Some q"
  shows "prio s q \<le> i"
proof (rule ccontr)
  assume "\<not> prio s q \<le> i"
  then have "m_run_queue s (prio s q) = []" using assms schedulesD(3) [OF assms(1,3)] by simp
  with schedulesD(6) [OF assms(1), of q "prio s q"] assms(3,4) show False by simp
qed

subsection \<open>Operations on the scheduled set\<close>

text \<open>
  \<^verbatim>\<open>schedule\<close> gives the processor to a task of the highest waiting priority, unless the current task
  has disabled preemption.
\<close>

lemma schedule_spec:
  assumes s: "schedules s R"
  obtains s' where "schedule s = ok s'" and "schedules s' R" and "same_but_ticks s s'"
    and "(\<exists>c. m_current_task s = Some c \<and> \<not> can_preempt (tasks s ! c)) \<Longrightarrow> s' = s"
    and "\<And>q. \<lbrakk>\<forall>c. m_current_task s = Some c \<longrightarrow> can_preempt (tasks s ! c); q \<in> R; m_current_task s \<noteq> Some q\<rbrakk>
         \<Longrightarrow> \<exists>n. m_current_task s' = Some n \<and> prio s q \<le> prio s n"
proof (cases "\<exists>c. m_current_task s = Some c \<and> \<not> can_preempt (tasks s ! c)")
  case True
  then obtain c where c: "m_current_task s = Some c" "\<not> can_preempt (tasks s ! c)" by blast
  then have "c < length (tasks s)" using schedulesD(1,4) [OF s] by blast
  then have "schedule s = ok s" using c by (simp add: schedule_def task_at_def del: bindE_ok_iff)
  then show ?thesis using that [of s] s c by simp
next
  case False
  let ?r = "schedule_loop (m_run_queue s) MAX_PRIORITY"
  have "c < length (tasks s)" if "m_current_task s = Some c" for c using that schedulesD(1,4) [OF s] by blast
  then have sch: "schedule s = (case ?r of (n, rq) \<Rightarrow> switch_to (s\<lparr>m_run_queue := rq\<rparr>) n)"
    using False by (cases "m_current_task s") (simp_all add: schedule_def task_at_def)
  consider (found) i where "takes_head (m_run_queue s) ?r i" "\<forall>j\<le>MAX_PRIORITY. i < j \<longrightarrow> m_run_queue s j = []"
    | (none) "?r = (None, m_run_queue s)" "\<forall>j\<le>MAX_PRIORITY. m_run_queue s j = []"
    using schedule_loop_spec [of MAX_PRIORITY "m_run_queue s"] by blast
  then show ?thesis
  proof cases
    case found
    then obtain p ps where p: "m_run_queue s i = p # ps" "?r = (Some p, (m_run_queue s)(i := ps))"
      by (blast elim: takes_headE)
    obtain s' where s': "switch_to (s\<lparr>m_run_queue := (m_run_queue s)(i := ps)\<rparr>) (Some p) = ok s'"
      "schedules s' R" "m_current_task s' = Some p" "same_but_ticks s s'" by (rule switch_to_head [OF s p(1)])
    have "prio s p = i" using schedules_queue_cases [OF s p(1)] by simp
    with s' p sch queues_above_empty [OF s found(2)] have "schedule s = ok s'"
      "\<And>q. q \<in> R \<Longrightarrow> m_current_task s \<noteq> Some q \<Longrightarrow> \<exists>n. m_current_task s' = Some n \<and> prio s q \<le> prio s n" by simp_all
    with s' False that [of s'] show ?thesis by blast
  next
    case none
    then have "schedule s = ok s" using sch by (simp add: switch_to_def)
    moreover have "m_current_task s = Some q" if "q \<in> R" for q
    proof (rule ccontr)
      assume "m_current_task s \<noteq> Some q"
      then have "q \<in> set (m_run_queue s (prio s q))" using schedulesD(6) [OF s] that by blast
      then show False using none(2) schedulesD(3) [OF s that] by simp
    qed
    ultimately show ?thesis using that [of s] s by simp
  qed
qed

lemma sched_add_task_spec:
  assumes "schedules s R" and "p < length (tasks s)" and "\<not> is_running (tasks s ! p)" and "prio s p \<le> MAX_PRIORITY"
  obtains s' where "sched_add_task s (Some p) = ok s'"
    and "s' = s\<lparr>m_run_queue := (m_run_queue s)(prio s p := m_run_queue s (prio s p) @ [p])\<rparr>"
  using assms by (simp add: sched_add_task_def task_at_def rq_push_back_def prio_def MIN_PRIORITY_def)

lemma sched_remove_task_spec:
  assumes s: "schedules s R" and p: "p \<in> R"
  obtains s' where "sched_remove_task s (Some p) = ok (True, s')" and "schedules s' (R - {p})" and "same_but_ticks s s'"
    and "m_current_task s \<noteq> Some p \<Longrightarrow> m_current_task s' = m_current_task s"
proof (cases "m_current_task s = Some p")
  case True
  note d = schedulesD [OF s]
  have "p \<notin> set (m_run_queue s i)" for i using True d(6) by blast
  then have "schedules (s\<lparr>m_current_task := None\<rparr>) (R - {p})"
    using s True unfolding schedules_def by (auto simp: set_eq_iff)
  then obtain s' where "schedule (s\<lparr>m_current_task := None\<rparr>) = ok s'" "schedules s' (R - {p})"
    "same_but_ticks (s\<lparr>m_current_task := None\<rparr>) s'" by (rule schedule_spec)
  then show ?thesis using that [of s'] True d(1-3) [OF p]
    by (simp add: sched_remove_task_def task_at_def prio_def MIN_PRIORITY_def)
next
  case False
  note d = schedulesD [OF s]
  let ?rq = "(m_run_queue s)(prio s p := remove1 p (m_run_queue s (prio s p)))"
  have "set (?rq i) = {q \<in> R - {p}. prio s q = i \<and> m_current_task s \<noteq> Some q}" for i
    using d(5) [of i] d(6) [of _ i] by (cases "i = prio s p") (auto simp: set_remove1_eq)
  moreover have "distinct (?rq i)" for i using d(5) [of i] d(5) [of "prio s p"] by (simp add: distinct_remove1)
  ultimately have "schedules (s\<lparr>m_run_queue := ?rq\<rparr>) (R - {p})"
    using s False unfolding schedules_def by (auto simp: set_eq_iff simp del: fun_upd_apply)
  moreover have "p \<in> set (m_run_queue s (prio s p))" using p False d(6) by blast
  ultimately show ?thesis using that [of "s\<lparr>m_run_queue := ?rq\<rparr>"] False d(1-3) [OF p]
    by (simp add: sched_remove_task_def task_at_def prio_def MIN_PRIORITY_def)
qed

text \<open>
  Changing a priority: the manager writes the task first and then lets the scheduler move it.
\<close>

lemma update_task_priority_spec:
  assumes s: "schedules s R" and p: "p < length (tasks s)" and n: "n \<le> MAX_PRIORITY"
    and old: "p \<notin> R \<Longrightarrow> prio s p \<le> MAX_PRIORITY"
  defines "s1 \<equiv> set_task s p (\<lambda>t. t\<lparr>m_priority := n\<rparr>)"
  obtains s' where "update_task_priority s1 (Some p) (prio s p) = ok s'" and "schedules s' R"
    and "tasks s' = tasks s1" and "m_current_task s' = m_current_task s" and "sched.more s' = sched.more s"
proof -
  note d = schedulesD [OF s]
  have pr: "prio s1 q = (if q = p then n else prio s q)" for q
    using p by (simp add: s1_def prio_def set_task_def)
  have run: "is_running (tasks s1 ! q) = is_running (tasks s ! q)" for q
    using p by (cases "q = p") (simp_all add: s1_def set_task_def is_running_def)
  have bound: "prio s p \<le> MAX_PRIORITY" using old d(3) by blast
  have R: "q < length (tasks s1) \<and> is_running (tasks s1 ! q) \<and> prio s1 q \<le> MAX_PRIORITY" if "q \<in> R" for q
    using that d(1-3) run pr n by (simp add: s1_def)
  have at: "task_at s1 p = ok (tasks s1 ! p)" "m_priority (tasks s1 ! p) = n"
    using p pr [of p] by (simp_all add: task_at_def s1_def prio_def)
  show ?thesis
  proof (cases "m_current_task s = Some p \<or> n = prio s p \<or> p \<notin> R")
    case True
    then have "update_task_priority s1 (Some p) (prio s p) = ok s1"
      using at n bound d(6) [of p "prio s p"] by (auto simp: update_task_priority_def s1_def MIN_PRIORITY_def)
    moreover have "schedules s1 R"
      unfolding schedules_def
    proof (intro conjI allI)
      show "set (m_run_queue s1 i) = {q \<in> R. prio s1 q = i \<and> m_current_task s1 \<noteq> Some q}" for i
        using True d(6) [of _ i] pr by (auto simp: s1_def)
    qed (use R d(4,5) in \<open>auto simp: s1_def\<close>)
    ultimately show ?thesis using that [of s1] by (simp add: s1_def)
  next
    case False
    let ?rq = "(m_run_queue s)(prio s p := remove1 p (m_run_queue s (prio s p)))"
    let ?s = "s1\<lparr>m_run_queue := ?rq(n := ?rq n @ [p])\<rparr>"
    have "p \<in> set (m_run_queue s (prio s p))" using False d(6) by blast
    then have upd: "update_task_priority s1 (Some p) (prio s p) = ok ?s"
      using False at n bound by (simp add: update_task_priority_def s1_def rq_push_back_def MIN_PRIORITY_def)
    have q: "set (?rq i) = {q \<in> R. prio s q = i \<and> m_current_task s \<noteq> Some q \<and> q \<noteq> p}" for i
      using d(5) [of i] d(6) [of _ i] by (cases "i = prio s p") (auto simp: set_remove1_eq)
    have dist: "distinct (?rq i)" for i using d(5) [of i] d(5) [of "prio s p"] by (simp add: distinct_remove1)
    have "set ((?rq(n := ?rq n @ [p])) i) = {q \<in> R. prio s1 q = i \<and> m_current_task s \<noteq> Some q}" for i
      using q [of i] False pr by (cases "i = n") (auto simp del: fun_upd_apply simp: fun_upd_same fun_upd_other)
    moreover have "distinct ((?rq(n := ?rq n @ [p])) i)" for i
      using q [of n] dist [of n] dist [of i] by (cases "i = n") (auto simp del: fun_upd_apply simp: fun_upd_same fun_upd_other)
    moreover have "m_current_task ?s = m_current_task s" "tasks ?s = tasks s1" "prio ?s = prio s1" by (simp_all add: s1_def)
    ultimately have "schedules ?s R"
      using R d(4) unfolding schedules_def by (simp del: fun_upd_apply)
    then show ?thesis using that [of ?s] upd by (simp add: s1_def)
  qed
qed

subsection \<open>Timer ticks\<close>

text \<open>
  After a tick the task on the processor has at least the priority of every waiting task, provided
  that it could be preempted; the exception is an idle processor, where only tasks of a priority above
  zero are looked for.
\<close>

lemma sched_tick_idle:
  assumes s: "schedules s R" and idle: "m_current_task s = None"
  obtains s' where "sched_tick s = ok s'" and "schedules s' R" and "same_but_ticks s s'"
    and "(\<forall>q\<in>R. prio s q = 0) \<Longrightarrow> s' = s"
    and "\<And>q. q \<in> R \<Longrightarrow> 0 < prio s q \<Longrightarrow> \<exists>n. m_current_task s' = Some n \<and> prio s q \<le> prio s n"
proof -
  let ?r = "find_higher (m_run_queue s) 0 MAX_PRIORITY"
  have t: "sched_tick s = (case ?r of (n, rq) \<Rightarrow> switch_to (s\<lparr>m_run_queue := rq\<rparr>) n)"
    using idle by (simp add: sched_tick_def)
  consider (found) i where "0 < i" "takes_head (m_run_queue s) ?r i" "\<forall>j\<le>MAX_PRIORITY. i < j \<longrightarrow> m_run_queue s j = []"
    | (none) "?r = (None, m_run_queue s)" "\<forall>j\<le>MAX_PRIORITY. 0 < j \<longrightarrow> m_run_queue s j = []"
    using find_higher_spec [of MAX_PRIORITY 0 "m_run_queue s"] by blast
  then show ?thesis
  proof cases
    case found
    then obtain p ps where p: "m_run_queue s i = p # ps" "?r = (Some p, (m_run_queue s)(i := ps))"
      by (blast elim: takes_headE)
    obtain s' where s': "switch_to (s\<lparr>m_run_queue := (m_run_queue s)(i := ps)\<rparr>) (Some p) = ok s'"
      "schedules s' R" "m_current_task s' = Some p" "same_but_ticks s s'" by (rule switch_to_head [OF s p(1)])
    have pi: "p \<in> R" "prio s p = i" using schedules_queue_cases [OF s p(1)] by simp_all
    have "sched_tick s = ok s'" using t p(2) s'(1) by simp
    moreover have "(\<forall>q\<in>R. prio s q = 0) \<Longrightarrow> s' = s" using pi found(1) by auto
    moreover have "q \<in> R \<Longrightarrow> \<exists>n. m_current_task s' = Some n \<and> prio s q \<le> prio s n" for q
      using queues_above_empty [OF s found(3), of q] idle s'(3) pi by simp
    ultimately show ?thesis using that s'(2,4) by blast
  next
    case none
    then have "sched_tick s = ok s" using t by (simp add: switch_to_def)
    moreover have "prio s q = 0" if "q \<in> R" for q using queues_above_empty [OF s none(2) that] idle by simp
    ultimately show ?thesis using that [of s] s by simp
  qed
qed

definition slice_left :: "'z sched_scheme \<Rightarrow> tptr \<Rightarrow> bool" where
  "slice_left s c \<longleftrightarrow> \<not> m_elapsed_ticks (tasks s ! c) + 1 \<ge> get_time_slice_for_priority (prio s c)"

lemma sched_tick_unfold:
  assumes s: "schedules s R" and c: "m_current_task s = Some c"
  defines "s1 \<equiv> set_task s c (\<lambda>t. t\<lparr>m_elapsed_ticks := m_elapsed_ticks t + 1\<rparr>)"
  shows "sched_tick s =
    (if \<not> can_preempt (tasks s ! c) then ok s1
     else case find_higher (m_run_queue s) (prio s c) MAX_PRIORITY of
         (Some n, rq) \<Rightarrow> switch_to (s1\<lparr>m_run_queue := rq\<rparr>) (Some n)
       | (None, rq) \<Rightarrow>
           if slice_left s c then ok (s1\<lparr>m_run_queue := rq\<rparr>)
           else case round_robin rq (prio s c) (prio s c) of (n, rq) \<Rightarrow> switch_to (s1\<lparr>m_run_queue := rq\<rparr>) n)"
proof -
  have len: "c < length (tasks s)" "prio s c \<le> MAX_PRIORITY" using schedulesD [OF s] c by blast+
  have t1: "tasks s1 ! c = (tasks s ! c)\<lparr>m_elapsed_ticks := m_elapsed_ticks (tasks s ! c) + 1\<rparr>"
    using len by (simp add: s1_def set_task_def)
  have at: "task_at s c = ok (tasks s ! c)" "task_at s1 c = ok (tasks s1 ! c)" "m_current_task s1 = Some c" "m_run_queue s1 = m_run_queue s"
    using len c by (simp_all add: task_at_def s1_def)
  show ?thesis
    unfolding sched_tick_def c option.case at bindE.simps Let_def s1_def [symmetric] get_current_priority_def
    using len by (simp add: t1 prio_def slice_left_def can_preempt_def switch_to_def [of _ None] split: prod.split option.split)
qed

text \<open>What a tick does when a task is on the processor, by the outcome of the two searches.\<close>

definition tick_outcome :: "'z sched_scheme \<Rightarrow> tptr \<Rightarrow> 'z sched_scheme \<Rightarrow> bool" where
  "tick_outcome s c s' \<longleftrightarrow>
     (if \<not> can_preempt (tasks s ! c) \<or> (slice_left s c \<and> (\<forall>j\<le>MAX_PRIORITY. prio s c < j \<longrightarrow> m_run_queue s j = []))
         \<or> (\<forall>j\<le>MAX_PRIORITY. prio s c \<le> j \<longrightarrow> m_run_queue s j = [])
      then m_current_task s' = Some c \<and> m_run_queue s' = m_run_queue s
        \<and> m_elapsed_ticks (tasks s' ! c) = m_elapsed_ticks (tasks s ! c) + 1
      else \<exists>i n ns. prio s c \<le> i \<and> i \<le> MAX_PRIORITY \<and> m_run_queue s i = n # ns \<and> (\<forall>j\<le>MAX_PRIORITY. i < j \<longrightarrow> m_run_queue s j = [])
        \<and> m_current_task s' = Some n \<and> m_elapsed_ticks (tasks s' ! n) = 0
        \<and> m_run_queue s' = ((m_run_queue s)(i := ns))(prio s c := ((m_run_queue s)(i := ns)) (prio s c) @ [c]))"

lemma sched_tick_busy:
  assumes s: "schedules s R" and c: "m_current_task s = Some c"
  obtains s' where "sched_tick s = ok s'" and "schedules s' R" and "same_but_ticks s s'" and "tick_outcome s c s'"
proof -
  let ?s1 = "set_task s c (\<lambda>t. t\<lparr>m_elapsed_ticks := m_elapsed_ticks t + 1\<rparr>)"
  have s1: "schedules ?s1 R" by (rule schedules_same_but_ticks [OF s]) simp_all
  have len: "c < length (tasks s)" "prio s c \<le> MAX_PRIORITY" using schedulesD [OF s] c by blast+
  have pc: "prio ?s1 c = prio s c" "m_elapsed_ticks (tasks ?s1 ! c) = m_elapsed_ticks (tasks s ! c) + 1"
    using len(1) by (simp_all add: prio_def set_task_def)
  have stay: thesis if "sched_tick s = ok ?s1" "\<not> can_preempt (tasks s ! c) \<or> (slice_left s c \<and> (\<forall>j\<le>MAX_PRIORITY. prio s c < j \<longrightarrow> m_run_queue s j = []))
         \<or> (\<forall>j\<le>MAX_PRIORITY. prio s c \<le> j \<longrightarrow> m_run_queue s j = [])"
    using that(1) s1 by (rule \<open>\<And>s'. \<lbrakk>sched_tick s = ok s'; schedules s' R; same_but_ticks s s'; tick_outcome s c s'\<rbrakk> \<Longrightarrow> thesis\<close>)
      (use that(2) c pc in \<open>simp_all add: tick_outcome_def\<close>)
  have switch: thesis if "sched_tick s = switch_to (?s1\<lparr>m_run_queue := (m_run_queue s)(i := ns)\<rparr>) (Some n)"
    "prio s c \<le> i" "i \<le> MAX_PRIORITY" "m_run_queue s i = n # ns" "\<forall>j\<le>MAX_PRIORITY. i < j \<longrightarrow> m_run_queue s j = []"
    "can_preempt (tasks s ! c)" "\<not> (slice_left s c \<and> (\<forall>j\<le>MAX_PRIORITY. prio s c < j \<longrightarrow> m_run_queue s j = []))" for i n ns
  proof -
    have "m_run_queue ?s1 i = n # ns" using that(4) by simp
    then obtain s' where s1': "switch_to (?s1\<lparr>m_run_queue := (m_run_queue ?s1)(i := ns)\<rparr>) (Some n) = ok s'"
      "schedules s' R" "m_current_task s' = Some n" "same_but_ticks ?s1 s'" "m_elapsed_ticks (tasks s' ! n) = 0"
      "\<forall>d. m_current_task ?s1 = Some d \<longrightarrow>
         m_run_queue s' = ((m_run_queue ?s1)(i := ns))(prio ?s1 d := ((m_run_queue ?s1)(i := ns)) (prio ?s1 d) @ [d])"
      by (rule switch_to_head [OF s1])
    note s' = s1'(1-5) [unfolded set_task_fields] s1'(6) [THEN spec, of c, unfolded set_task_fields pc(1), THEN mp, OF c]
    have "\<not> (\<forall>j\<le>MAX_PRIORITY. prio s c \<le> j \<longrightarrow> m_run_queue s j = [])" using that(2-4) by auto
    then have neg: "\<not> (\<not> can_preempt (tasks s ! c) \<or> (slice_left s c \<and> (\<forall>j\<le>MAX_PRIORITY. prio s c < j \<longrightarrow> m_run_queue s j = []))
         \<or> (\<forall>j\<le>MAX_PRIORITY. prio s c \<le> j \<longrightarrow> m_run_queue s j = []))" using that(6,7) by blast
    have "tick_outcome s c s'" unfolding tick_outcome_def if_not_P [OF neg]
      by (intro exI [of _ i] exI [of _ n] exI [of _ ns] conjI that(2-5) s'(3,5,6))
    moreover have "same_but_ticks s s'" using same_but_ticks_trans [OF same_but_ticks_set_task s'(4)] .
    ultimately show thesis using that(1) s'(1,2) \<open>\<And>s'. \<lbrakk>sched_tick s = ok s'; schedules s' R; same_but_ticks s s'; tick_outcome s c s'\<rbrakk> \<Longrightarrow> thesis\<close> by simp
  qed
  let ?h = "find_higher (m_run_queue s) (prio s c) MAX_PRIORITY"
  let ?rr = "round_robin (m_run_queue s) (prio s c) (prio s c)"
  note u = sched_tick_unfold [OF s c]
  consider (locked) "\<not> can_preempt (tasks s ! c)"
    | (higher) i where "can_preempt (tasks s ! c)" "i \<le> MAX_PRIORITY" "prio s c < i" "takes_head (m_run_queue s) ?h i" "\<forall>j\<le>MAX_PRIORITY. i < j \<longrightarrow> m_run_queue s j = []"
    | (same) "can_preempt (tasks s ! c)" "?h = (None, m_run_queue s)" "\<forall>j\<le>MAX_PRIORITY. prio s c < j \<longrightarrow> m_run_queue s j = []"
    using find_higher_spec [of MAX_PRIORITY "prio s c" "m_run_queue s"] by blast
  then show thesis
  proof cases
    case locked
    then show thesis using u stay by simp
  next
    case higher
    then obtain n ns where "m_run_queue s i = n # ns" "?h = (Some n, (m_run_queue s)(i := ns))" by (blast elim: takes_headE)
    with higher u show thesis by (intro switch [of i ns n]) auto
  next
    case same
    note u = u [unfolded same(2) prod.case option.case]
    have id: "?s1\<lparr>m_run_queue := m_run_queue s\<rparr> = ?s1" 
      by (simp add: set_task_def)
    show thesis
    proof (cases "slice_left s c")
      case True
      then show thesis using u same stay id by simp
    next
      case False
      consider (head) "takes_head (m_run_queue s) ?rr (prio s c)" | (none) "?rr = (None, m_run_queue s)" "m_run_queue s (prio s c) = []"
        using round_robin_spec by blast
      then show thesis
      proof cases
        case head
        then obtain n ns where "m_run_queue s (prio s c) = n # ns" "?rr = (Some n, (m_run_queue s)(prio s c := ns))"
          by (blast elim: takes_headE)
        with False same u len show thesis by (intro switch [of "prio s c" ns n]) auto
      next
        case none
        then have "\<forall>j\<le>MAX_PRIORITY. prio s c \<le> j \<longrightarrow> m_run_queue s j = []" using same(3) by (metis le_neq_implies_less)
        then show thesis using u same False none id stay by (simp add: switch_to_def)
      qed
    qed
  qed
qed

lemma tick_outcome_highest:
  assumes s: "schedules s R" and c: "m_current_task s = Some c" and pre: "can_preempt (tasks s ! c)" and t: "tick_outcome s c s'"
  obtains n where "m_current_task s' = Some n" and "n \<in> R" and "\<forall>q\<in>R. prio s q \<le> prio s n"
proof -
  have le: "prio s q \<le> i" if "q \<in> R" "prio s c \<le> i" "\<forall>j\<le>MAX_PRIORITY. i < j \<longrightarrow> m_run_queue s j = []" for q i
    using queues_above_empty [OF s that(3,1)] that(2) c by (cases "q = c") auto
  have cR: "c \<in> R" using schedulesD(4) [OF s] c by blast
  consider (stay) "m_current_task s' = Some c" "\<forall>j\<le>MAX_PRIORITY. prio s c < j \<longrightarrow> m_run_queue s j = []"
    | (switch) i n ns where "prio s c \<le> i" "m_run_queue s i = n # ns" "\<forall>j\<le>MAX_PRIORITY. i < j \<longrightarrow> m_run_queue s j = []" "m_current_task s' = Some n"
    using t pre unfolding tick_outcome_def by (auto split: if_splits)
  then show ?thesis
  proof cases
    case stay
    then show ?thesis using that [of c] le [of _ "prio s c"] cR by blast
  next
    case switch
    then show ?thesis using that [of n] le [OF _ switch(1,3)] schedules_queue_cases [OF s switch(2)] by simp
  qed
qed

end
