(* ===== verification/Delta_Queue.thy ===== *)
theory Delta_Queue
  imports Prelude
begin

text \<open>
  The queue of sleeping tasks, \<^verbatim>\<open>kernel/task/delta_queue.cpp\<close>. Each item holds the number of ticks
  after the item before it, a 64-bit counter, so that a timer tick touches the head only. The linked
  list of items is a HOL list here (\<^verbatim>\<open>Linked_List\<close> shows that the list class refines it), a task is
  any type \<open>'t\<close>, and the two calls into the task manager are arguments: \<open>running\<close> for
  \<^verbatim>\<open>Task::is_running\<close> and \<open>wake\<close> for \<^verbatim>\<open>TaskManager::wake_task\<close>.

  The specification is the list of absolute wake-up times, \<open>deadlines\<close>. The lemmas show that adding a
  task inserts its deadline after the ones that are not later, that a tick wakes exactly the tasks whose
  deadline is one tick away and moves every other deadline one tick closer, and that the 64-bit sums
  do not wrap.
\<close>

subsection \<open>Model\<close>

record 't dq_item =
  item_task :: 't
  remaining_ticks :: u64

definition mk_item :: "'t \<Rightarrow> u64 \<Rightarrow> 't dq_item" where
  "mk_item t n = \<lparr>item_task = t, remaining_ticks = n\<rparr>"

fun wake_loop :: "('t \<Rightarrow> 's \<Rightarrow> 's outcome) \<Rightarrow> 't dq_item list \<Rightarrow> 's \<Rightarrow> ('t dq_item list \<times> 's) outcome" where
  "wake_loop wake [] s = ok ([], s)"
| "wake_loop wake (it # its) s =
     (if remaining_ticks it = 0
      then bindE (wake (item_task it) s) (\<lambda>s. wake_loop wake its s)
      else ok (it # its, s))"

definition dq_tick :: "('t \<Rightarrow> 's \<Rightarrow> 's outcome) \<Rightarrow> 't dq_item list \<Rightarrow> 's \<Rightarrow> ('t dq_item list \<times> 's) outcome" where
  "dq_tick wake q s =
     (case q of
        [] \<Rightarrow> ok ([], s)
      | it # its \<Rightarrow> wake_loop wake (it\<lparr>remaining_ticks := remaining_ticks it - 1\<rparr> # its) s)"

fun add_loop :: "u64 \<Rightarrow> 't \<Rightarrow> u64 \<Rightarrow> 't dq_item list \<Rightarrow> 't dq_item list" where
  "add_loop elapsed sleepy ticks [] = [mk_item sleepy (ticks - elapsed)]"
| "add_loop elapsed sleepy ticks (it # its) =
     (if elapsed + remaining_ticks it > ticks
      then let remaining_time = ticks - elapsed in
           mk_item sleepy remaining_time # it\<lparr>remaining_ticks := remaining_ticks it - remaining_time\<rparr> # its
      else it # add_loop (elapsed + remaining_ticks it) sleepy ticks its)"

definition dq_add_task :: "bool \<Rightarrow> 't \<Rightarrow> u64 \<Rightarrow> 't dq_item list \<Rightarrow> 't dq_item list outcome" where
  "dq_add_task running sleepy ticks q = kassert (\<not> running) (ok (add_loop 0 sleepy ticks q))"

subsection \<open>Specification: absolute deadlines\<close>

fun deadlines_from :: "nat \<Rightarrow> 't dq_item list \<Rightarrow> ('t \<times> nat) list" where
  "deadlines_from e [] = []"
| "deadlines_from e (it # its) =
     (item_task it, e + unat (remaining_ticks it)) # deadlines_from (e + unat (remaining_ticks it)) its"

definition deadlines :: "'t dq_item list \<Rightarrow> ('t \<times> nat) list" where
  "deadlines q = deadlines_from 0 q"

fun total_ticks :: "'t dq_item list \<Rightarrow> nat" where
  "total_ticks [] = 0"
| "total_ticks (it # its) = unat (remaining_ticks it) + total_ticks its"

definition dq_inv :: "'t dq_item list \<Rightarrow> bool" where
  "dq_inv q \<longleftrightarrow> total_ticks q < 2 ^ 64 \<and> (q \<noteq> [] \<longrightarrow> remaining_ticks (hd q) \<noteq> 0)"

text \<open>The abstract queue: deadlines in increasing order, later arrivals after equal ones.\<close>

fun insert_deadline :: "'t \<Rightarrow> nat \<Rightarrow> ('t \<times> nat) list \<Rightarrow> ('t \<times> nat) list" where
  "insert_deadline t n [] = [(t, n)]"
| "insert_deadline t n ((u, m) # ds) = (if m > n then (t, n) # (u, m) # ds else (u, m) # insert_deadline t n ds)"

definition due :: "('t \<times> nat) list \<Rightarrow> 't list" where
  "due ds = map fst (takeWhile (\<lambda>(t, n). n \<le> 1) ds)"

definition pending :: "('t \<times> nat) list \<Rightarrow> ('t \<times> nat) list" where
  "pending ds = map (\<lambda>(t, n). (t, n - 1)) (dropWhile (\<lambda>(t, n). n \<le> 1) ds)"

fun wake_all_of :: "('t \<Rightarrow> 's \<Rightarrow> 's outcome) \<Rightarrow> 't list \<Rightarrow> 's \<Rightarrow> 's outcome" where
  "wake_all_of wake [] s = ok s"
| "wake_all_of wake (t # ts) s = bindE (wake t s) (wake_all_of wake ts)"

subsection \<open>Lemmas\<close>

lemma deadlines_from_shift: "deadlines_from (e + d) q = map (\<lambda>(t, n). (t, n + d)) (deadlines_from e q)"
  by (induction q arbitrary: e) (simp_all add: add.commute add.left_commute, metis add.assoc add.commute)

lemma deadlines_from_ge: "(t, n) \<in> set (deadlines_from e q) \<Longrightarrow> e \<le> n"
  by (induction q arbitrary: e) (auto dest: add_leD1)

lemma add_loop_deadlines:
  assumes "unat e + total_ticks q < 2 ^ 64" and "e \<le> n"
  shows "deadlines_from (unat e) (add_loop e t n q) = insert_deadline t (unat n) (deadlines_from (unat e) q)
    \<and> unat e + total_ticks (add_loop e t n q) = max (unat n) (unat e + total_ticks q)"
  using assms
proof (induction q arbitrary: e)
  case Nil
  then show ?case by (simp add: mk_item_def unat_sub word_le_nat_alt)
next
  case (Cons it its)
  let ?r = "remaining_ticks it"
  have no_wrap: "unat (e + ?r) = unat e + unat ?r"
    using Cons.prems(1) by (intro unat_add_no_wrap) simp
  show ?case
  proof (cases "e + ?r > n")
    case True
    then have less: "unat n < unat e + unat ?r" using no_wrap by (simp add: word_less_nat_alt)
    have d: "unat (n - e) = unat n - unat e" using Cons.prems(2) by (simp add: unat_sub)
    then have "n - e \<le> ?r" using less Cons.prems(2) by (simp add: word_le_nat_alt)
    then have "unat (?r - (n - e)) = unat ?r - (unat n - unat e)" by (simp add: unat_sub d)
    with True d less no_wrap Cons.prems(2) show ?thesis
      by (simp add: mk_item_def word_le_nat_alt max_def Let_def add.commute)
  next
    case False
    then have "e + ?r \<le> n" by simp
    with Cons.IH [of "e + ?r"] Cons.prems(1) no_wrap have
      ih: "deadlines_from (unat e + unat ?r) (add_loop (e + ?r) t n its)
             = insert_deadline t (unat n) (deadlines_from (unat e + unat ?r) its)"
          "unat e + unat ?r + total_ticks (add_loop (e + ?r) t n its) = max (unat n) (unat e + unat ?r + total_ticks its)"
      by simp_all
    have "\<not> unat e + unat ?r > unat n" using False no_wrap by (simp add: word_less_nat_alt)
    with False ih show ?thesis by (simp add: add.assoc)
  qed
qed

lemma wake_loop_wakes_zeros:
  "wake_loop wake q s =
     bindE (wake_all_of wake (map item_task (takeWhile (\<lambda>it. remaining_ticks it = 0) q)) s)
       (\<lambda>s'. ok (dropWhile (\<lambda>it. remaining_ticks it = 0) q, s'))"
proof (induction q arbitrary: s)
  case (Cons it its)
  then show ?case by (cases "wake (item_task it) s") simp_all
qed simp

lemma takeWhile_deadlines:
  "takeWhile (\<lambda>(t, n). n = 0) (deadlines_from 0 q) = deadlines_from 0 (takeWhile (\<lambda>it. remaining_ticks it = 0) q)"
  and dropWhile_deadlines:
  "dropWhile (\<lambda>(t, n). n = 0) (deadlines_from 0 q) = deadlines_from 0 (dropWhile (\<lambda>it. remaining_ticks it = 0) q)"
  by (induction q) (simp_all add: unat_eq_zero)

lemma map_fst_deadlines: "map fst (deadlines_from e q) = map item_task q"
  by (induction q arbitrary: e) simp_all

lemma total_dropWhile: "total_ticks (dropWhile (\<lambda>it. remaining_ticks it = 0) q) = total_ticks q"
  by (induction q) auto

lemma sorted_deadlines_from: "sorted (map snd (deadlines_from e q))"
  by (induction q arbitrary: e) (auto dest: deadlines_from_ge add_leD1)

text \<open>A tick moves every deadline one closer before the expired items are popped.\<close>

lemma decremented_deadlines:
  assumes "remaining_ticks it \<noteq> 0"
  shows "deadlines (it # its) =
    map (\<lambda>(t, n). (t, n + 1)) (deadlines (it\<lparr>remaining_ticks := remaining_ticks it - 1\<rparr> # its))"
proof -
  have "unat (remaining_ticks it) = unat (remaining_ticks it - 1) + 1"
    using assms by (simp add: unat_minus_one unat_gt_0)
  then show ?thesis
    using deadlines_from_shift [of "unat (remaining_ticks it - 1)" 1 its] by (simp add: deadlines_def)
qed

lemma takeWhile_map_suc:
  "takeWhile (\<lambda>(t, n). n \<le> 1) (map (\<lambda>(t, n). (t, n + 1)) ds) = map (\<lambda>(t, n). (t, n + 1)) (takeWhile (\<lambda>(t, n :: nat). n = 0) ds)"
  and dropWhile_map_suc:
  "dropWhile (\<lambda>(t, n). n \<le> 1) (map (\<lambda>(t, n). (t, n + 1)) ds) = map (\<lambda>(t, n). (t, n + 1)) (dropWhile (\<lambda>(t, n :: nat). n = 0) ds)"
  by (induction ds) auto

lemma due_suc: "due (map (\<lambda>(t, n). (t, n + 1)) ds) = map fst (takeWhile (\<lambda>(t, n). n = 0) ds)"
  unfolding due_def takeWhile_map_suc by (induction ds) auto

lemma pending_suc: "pending (map (\<lambda>(t, n). (t, n + 1)) ds) = dropWhile (\<lambda>(t, n). n = 0) ds"
  unfolding pending_def dropWhile_map_suc by (simp add: case_prod_unfold comp_def)

lemma dq_tick_spec:
  assumes "dq_inv q"
  obtains q' where "dq_inv q'" and "deadlines q' = pending (deadlines q)"
    and "\<And>wake s. dq_tick wake q s = bindE (wake_all_of wake (due (deadlines q)) s) (\<lambda>s'. ok (q', s'))"
proof (cases q)
  case Nil
  then have "dq_tick wake q s = bindE (wake_all_of wake (due (deadlines q)) s) (\<lambda>s'. ok ([], s'))" for wake :: "_ \<Rightarrow> 's \<Rightarrow> 's outcome" and s
    by (simp add: dq_tick_def deadlines_def due_def)
  with that [of "[]"] Nil show ?thesis by (simp add: dq_inv_def deadlines_def pending_def dq_tick_def due_def)
next
  case (Cons it its)
  let ?dec = "it\<lparr>remaining_ticks := remaining_ticks it - 1\<rparr> # its"
  let ?rest = "dropWhile (\<lambda>it. remaining_ticks it = 0) ?dec"
  have nz: "remaining_ticks it \<noteq> 0" using assms Cons by (simp add: dq_inv_def)
  have d: "deadlines q = map (\<lambda>(t, n). (t, n + 1)) (deadlines ?dec)"
    using decremented_deadlines [OF nz] Cons by simp
  have "dq_inv ?rest"
  proof -
    have "total_ticks ?dec \<le> total_ticks q"
      using Cons nz by (simp add: unat_minus_one)
    then have "total_ticks ?rest < 2 ^ 64" using assms total_dropWhile [of ?dec] by (simp add: dq_inv_def)
    moreover have "?rest \<noteq> [] \<longrightarrow> remaining_ticks (hd ?rest) \<noteq> 0"
      by (metis (mono_tags, lifting) hd_dropWhile)
    ultimately show ?thesis by (simp only: dq_inv_def)
  qed
  moreover have "deadlines ?rest = pending (deadlines q)"
    unfolding d pending_suc by (simp only: deadlines_def dropWhile_deadlines)
  moreover have "due (deadlines q) = map item_task (takeWhile (\<lambda>it. remaining_ticks it = 0) ?dec)"
    unfolding d due_suc by (simp only: deadlines_def takeWhile_deadlines map_fst_deadlines)
  ultimately show ?thesis
    using that [of ?rest] Cons by (simp add: dq_tick_def wake_loop_wakes_zeros del: bindE_ok_iff dropWhile.simps takeWhile.simps)
qed

lemma dq_add_task_spec:
  assumes "dq_inv q" and "n \<noteq> 0"
  obtains q' where "dq_add_task False t n q = ok q'" and "dq_inv q'"
    and "deadlines q' = insert_deadline t (unat n) (deadlines q)"
proof -
  have tot: "unat (0 :: u64) + total_ticks q < 2 ^ 64" using assms(1) by (simp add: dq_inv_def)
  have spec: "deadlines (add_loop 0 t n q) = insert_deadline t (unat n) (deadlines q)"
      "total_ticks (add_loop 0 t n q) = max (unat n) (total_ticks q)"
    using add_loop_deadlines [OF tot, of n t] by (simp_all add: deadlines_def)
  have "remaining_ticks (hd (add_loop 0 t n q)) \<noteq> 0"
    using assms by (cases q) (simp_all add: dq_inv_def mk_item_def Let_def)
  moreover have "unat n < 2 ^ 64" using unsigned_less [of n] by simp
  ultimately have "dq_inv (add_loop 0 t n q)" using tot spec(2) by (simp add: dq_inv_def)
  with that [of "add_loop 0 t n q"] spec(1) show ?thesis by (simp add: dq_add_task_def)
qed

subsection \<open>One sleeper among the deadlines\<close>

lemma tick_not_yet:
  assumes f: "filter (\<lambda>e. fst e = t) ds = [(t, Suc (Suc d))]"
  shows "t \<notin> set (due ds)" and "filter (\<lambda>e. fst e = t) (pending ds) = [(t, Suc d)]"
proof -
  let ?P = "\<lambda>(u, n). n \<le> (1 :: nat)"
  have split: "filter (\<lambda>e. fst e = t) ds = filter (\<lambda>e. fst e = t) (takeWhile ?P ds) @ filter (\<lambda>e. fst e = t) (dropWhile ?P ds)"
    by (metis filter_append takeWhile_dropWhile_id)
  have none: "filter (\<lambda>e. fst e = t) (takeWhile ?P ds) = []"
  proof (rule ccontr)
    assume "\<not> ?thesis"
    then obtain e where "e \<in> set (takeWhile ?P ds)" "fst e = t" by (auto simp: filter_empty_conv)
    then have "e \<in> set (filter (\<lambda>e. fst e = t) ds)" "?P e" by (auto dest: set_takeWhileD)
    with f show False by auto
  qed
  then show "t \<notin> set (due ds)" by (auto simp: due_def filter_empty_conv)
  show "filter (\<lambda>e. fst e = t) (pending ds) = [(t, Suc d)]"
    using f split none by (auto simp: pending_def filter_map comp_def case_prod_unfold)
qed

lemma due_now:
  assumes "filter (\<lambda>e. fst e = t) ds = [(t, 1)]" and "sorted (map snd ds)"
  shows "t \<in> set (due ds)"
proof -
  have "(t, 1) \<in> set (filter (\<lambda>e. fst e = t) ds)" using assms(1) by simp
  then have e: "(t, 1) \<in> set ds" by simp
  have "(t, 1) \<in> set ds \<Longrightarrow> sorted (map snd ds) \<Longrightarrow> (t, 1) \<in> set (takeWhile (\<lambda>(u, n :: nat). n \<le> 1) ds)"
    by (induction ds) auto
  from this [OF e assms(2)] show ?thesis by (force simp: due_def)
qed

lemma filter_insert_other: "u \<noteq> t \<Longrightarrow> filter (\<lambda>e. fst e = t) (insert_deadline u n ds) = filter (\<lambda>e. fst e = t) ds"
  by (induction u n ds rule: insert_deadline.induct) auto

lemma filter_insert_own: "\<forall>e\<in>set ds. fst e \<noteq> t \<Longrightarrow> filter (\<lambda>e. fst e = t) (insert_deadline t n ds) = [(t, n)]"
  by (induction t n ds rule: insert_deadline.induct) auto

subsection \<open>The interface its clients rely on\<close>

datatype 't dq_event = Sleep 't u64 | Tick

fun tick_count :: "'t dq_event list \<Rightarrow> nat" where
  "tick_count [] = 0"
| "tick_count (Tick # es) = Suc (tick_count es)"
| "tick_count (Sleep t n # es) = tick_count es"

fun sleeps_ok :: "'t \<Rightarrow> 't dq_event list \<Rightarrow> bool" where
  "sleeps_ok t [] = True"
| "sleeps_ok t (Tick # es) = sleeps_ok t es"
| "sleeps_ok t (Sleep u n # es) = (u \<noteq> t \<and> n \<noteq> 0 \<and> sleeps_ok t es)"

fun event_run ::
  "('t \<Rightarrow> u64 \<Rightarrow> 'q \<Rightarrow> 'q outcome) \<Rightarrow> ('q \<Rightarrow> 's \<Rightarrow> ('q \<times> 's) outcome) \<Rightarrow> 't dq_event list \<Rightarrow> 'q \<times> 's \<Rightarrow> ('q \<times> 's) outcome" where
  "event_run add tick [] (q, s) = ok (q, s)"
| "event_run add tick (Sleep t n # es) (q, s) = bindE (add t n q) (\<lambda>q. event_run add tick es (q, s))"
| "event_run add tick (Tick # es) (q, s) = bindE (tick q s) (event_run add tick es)"

text \<open>
  A queue of sleepers, with the log of the tasks it wakes: \<open>view\<close> is the list of pending deadlines.
  The contract is the behaviour of the abstract queue.
\<close>

locale sleep_queue =
  fixes inv :: "'q \<Rightarrow> bool"
    and view :: "'q \<Rightarrow> ('t \<times> nat) list"
    and add :: "'t \<Rightarrow> u64 \<Rightarrow> 'q \<Rightarrow> 'q outcome"
    and tick :: "'q \<Rightarrow> 't list \<Rightarrow> ('q \<times> 't list) outcome"
  assumes sorted_view: "inv q \<Longrightarrow> sorted (map snd (view q))"
    and add_inserts: "\<lbrakk>inv q; n \<noteq> 0\<rbrakk> \<Longrightarrow>
      \<exists>q'. add t n q = ok q' \<and> inv q' \<and> view q' = insert_deadline t (unat n) (view q)"
    and tick_wakes_due: "inv q \<Longrightarrow>
      \<exists>q'. tick q log = ok (q', log @ due (view q)) \<and> inv q' \<and> view q' = pending (view q)"
begin

definition waits :: "'t \<Rightarrow> nat \<Rightarrow> 'q \<Rightarrow> bool" where
  "waits t d q \<longleftrightarrow> inv q \<and> filter (\<lambda>e. fst e = t) (view q) = [(t, d)]"

lemma waits_add_other:
  assumes "waits t d q" and "u \<noteq> t" and "n \<noteq> 0"
  obtains q' where "add u n q = ok q'" and "waits t d q'"
  using assms add_inserts [of q n u] filter_insert_other [of u t "unat n" "view q"]
  by (auto simp: waits_def)

lemma waits_add_own:
  assumes "inv q" and "t \<notin> fst ` set (view q)" and "n \<noteq> 0"
  obtains q' where "add t n q = ok q'" and "waits t (unat n) q'"
  using assms add_inserts [of q n t] filter_insert_own [of "view q" t "unat n"]
  by (force simp: waits_def)

lemma waits_tick:
  assumes "waits t (Suc (Suc d)) q"
  obtains q' new where "tick q log = ok (q', log @ new)" and "t \<notin> set new" and "waits t (Suc d) q'"
  using assms that tick_wakes_due [of q log] tick_not_yet [of t "view q" d] by (auto simp: waits_def)

lemma waits_run:
  assumes "waits t (Suc (tick_count es)) q" and "sleeps_ok t es"
  obtains q' new where "event_run add tick es (q, log) = ok (q', log @ new)" and "t \<notin> set new" and "waits t 1 q'"
  using assms
proof (induction es arbitrary: q log thesis)
  case Nil
  then show ?case by (auto intro: Nil(1) [of q "[]"])
next
  case (Cons e es)
  show ?case
  proof (cases e)
    case (Sleep u n)
    then obtain q1 where q1: "add u n q = ok q1" "waits t (Suc (tick_count es)) q1"
      using waits_add_other [of t "Suc (tick_count es)" q u n] Cons.prems by auto
    then show ?thesis using Cons.IH [OF _ q1(2), of log] Cons.prems(1,3) Sleep by auto
  next
    case Tick
    then have "waits t (Suc (Suc (tick_count es))) q" using Cons.prems(2) by simp
    from waits_tick [OF this, of log] obtain q1 new where
      q1: "tick q log = ok (q1, log @ new)" "t \<notin> set new" "waits t (Suc (tick_count es)) q1" by blast
    have "sleeps_ok t es" using Cons.prems(3) Tick by simp
    from Cons.IH [OF _ q1(3) this, of "log @ new"] obtain q2 new2 where
      "event_run add tick es (q1, log @ new) = ok (q2, (log @ new) @ new2)" "t \<notin> set new2" "waits t 1 q2" by blast
    then show ?thesis using Cons.prems(1) [of q2 "new @ new2"] Tick q1 by simp
  qed
qed

lemma due_at_one: "waits t 1 q \<Longrightarrow> t \<in> set (due (view q))"
  using due_now [of t "view q"] sorted_view [of q] by (simp add: waits_def)

text \<open>A task is woken at the tick that ends its sleep, and at none before.\<close>

lemma sleeper_wakes_on_time:
  assumes "inv q" and "t \<notin> fst ` set (view q)" and "n \<noteq> 0"
    and "sleeps_ok t es" and "Suc (tick_count es) = unat n"
  shows "\<exists>q1 q2 log2 q3 log3. add t n q = ok q1 \<and> event_run add tick es (q1, []) = ok (q2, log2) \<and> t \<notin> set log2
    \<and> tick q2 log2 = ok (q3, log2 @ log3) \<and> t \<in> set log3"
proof -
  obtain q1 where q1: "add t n q = ok q1" "waits t (unat n) q1" using waits_add_own [OF assms(1-3)] by blast
  obtain q2 log2 where q2: "event_run add tick es (q1, []) = ok (q2, log2)" "t \<notin> set log2" "waits t 1 q2"
    using waits_run [of t es q1 "[]"] q1(2) assms(4,5) by auto
  from q2(3) have "inv q2" by (simp add: waits_def)
  from tick_wakes_due [OF this, of log2] q1 q2 due_at_one [OF q2(3)] show ?thesis by blast
qed

end

subsection \<open>The delta queue provides the interface\<close>

definition log_wake :: "'t \<Rightarrow> 't list \<Rightarrow> 't list outcome" where
  "log_wake t log = ok (log @ [t])"

lemma wake_all_of_log: "wake_all_of log_wake ts log = ok (log @ ts)"
  by (induction ts arbitrary: log) (simp_all add: log_wake_def del: bindE_ok_iff)

interpretation dq: sleep_queue dq_inv deadlines "dq_add_task False" "dq_tick log_wake"
proof
  show "sorted (map snd (deadlines q))" for q :: "'t dq_item list"
    by (simp add: deadlines_def sorted_deadlines_from)
  show "\<exists>q'. dq_add_task False t n q = ok q' \<and> dq_inv q' \<and> deadlines q' = insert_deadline t (unat n) (deadlines q)"
    if "dq_inv q" "n \<noteq> 0" for q :: "'t dq_item list" and n t
    using dq_add_task_spec [OF that, of t] by blast
  show "\<exists>q'. dq_tick log_wake q log = ok (q', log @ due (deadlines q)) \<and> dq_inv q' \<and> deadlines q' = pending (deadlines q)"
    if "dq_inv q" for q :: "'t dq_item list" and log
    using dq_tick_spec [OF that] by (metis bindE.simps(2) wake_all_of_log)
qed

subsection \<open>Properties\<close>

text \<open>
  C12. A task put to sleep for \<open>n\<close> ticks is woken by the \<open>n\<close>-th tick and by no earlier one, whatever
  other tasks are put to sleep in between: the delta encoding, with its 64-bit counters, behaves as
  a queue of absolute deadlines.
\<close>

theorem delta_queue_wakes_on_time:
  assumes "dq_inv q" and "t \<notin> fst ` set (deadlines q)" and "n \<noteq> 0"
    and "sleeps_ok t es" and "Suc (tick_count es) = unat n"
  shows "\<exists>q1 q2 log2 q3 log3. dq_add_task False t n q = ok q1
    \<and> event_run (dq_add_task False) (dq_tick log_wake) es (q1, []) = ok (q2, log2) \<and> t \<notin> set log2
    \<and> dq_tick log_wake q2 log2 = ok (q3, log2 @ log3) \<and> t \<in> set log3"
  using dq.sleeper_wakes_on_time [OF assms] .

theorem delta_queue_wakes_on_time_witness:
  "\<exists>q1 q2 log2 q3 log3. dq_add_task False (1 :: nat) 2 [mk_item 7 1] = ok q1
    \<and> event_run (dq_add_task False) (dq_tick log_wake) [Sleep 9 1, Tick] (q1, []) = ok (q2, log2) \<and> 1 \<notin> set log2
    \<and> dq_tick log_wake q2 log2 = ok (q3, log2 @ log3) \<and> 1 \<in> set log3"
  using delta_queue_wakes_on_time [of "[mk_item (7 :: nat) 1]" 1 2 "[Sleep 9 1, Tick]"]
  by (simp add: dq_inv_def mk_item_def deadlines_def)

end
