(* ===== verification/Task_Manager.thy ===== *)
theory Task_Manager
  imports Scheduler Delta_Queue Utils
begin

text \<open>
  The task manager, \<^verbatim>\<open>kernel/task/task_manager.cpp\<close>: the list of all tasks, process identifiers, the
  scheduler and the queue of sleepers. Its state extends the scheduler's record, so the scheduler's
  operations apply to it as they are. Memory set-up and program loading of \<^verbatim>\<open>create_task\<close> are not
  modelled here; \<open>alloc_ok\<close> says whether \<^verbatim>\<open>make_shared\<close> found memory.

  The invariant \<open>tm_inv\<close> says that the scheduler runs exactly the tasks in state \<open>RUNNING\<close> and that the
  sleepers' queue is well formed. Every operation preserves it and none of them faults on its
  documented domain; \<open>tm_step\<close> collects the operations as a transition relation.
\<close>

subsection \<open>Model\<close>

definition TICK_TIME :: u64 where
  "TICK_TIME = 10"

definition SYS_PID_CURRENT :: u32 where
  "SYS_PID_CURRENT = 0"

record task_manager = sched +
  m_next_available_pid :: u32
  m_delta_queue :: "tptr dq_item list"
  m_ready :: bool

fun find_task :: "u32 \<Rightarrow> task list \<Rightarrow> nat \<Rightarrow> tptr option" where
  "find_task pid [] i = None"
| "find_task pid (t # ts) i = (if m_id t = pid then Some i else find_task pid ts (Suc i))"

definition find_by_id :: "task_manager \<Rightarrow> u32 \<Rightarrow> tptr option" where
  "find_by_id s pid = (if pid = SYS_PID_CURRENT then m_current_task s else find_task pid (tasks s) 0)"

definition create_task_common ::
  "task_manager \<Rightarrow> bool \<Rightarrow> bool \<Rightarrow> tptr option \<Rightarrow> (tptr option \<times> task_manager) outcome" where
  "create_task_common s alloc_ok is_kernel parent =
     (if \<not> alloc_ok then ok (None, s)
      else let p = length (tasks s) in
        bindE (case parent of
                 None \<Rightarrow> ok s
               | Some q \<Rightarrow> bindE (task_at s q) (\<lambda>_. ok (set_task s q (\<lambda>t. t\<lparr>m_children := m_children t @ [p]\<rparr>))))
          (\<lambda>s. let t = (make_task (m_next_available_pid s))\<lparr>m_manager := True, m_parent := parent, m_priority := DEFAULT_PRIORITY\<rparr> in
             ok (Some p, s\<lparr>tasks := tasks s @ [t], m_next_available_pid := m_next_available_pid s + 1\<rparr>)))"

definition create_kernel_task :: "task_manager \<Rightarrow> bool \<Rightarrow> (tptr option \<times> task_manager) outcome" where
  "create_kernel_task s alloc_ok =
     bindE (create_task_common s alloc_ok True None) (\<lambda>(r, s).
       case r of None \<Rightarrow> ok (None, s) | Some p \<Rightarrow> ok (Some p, set_task s p (\<lambda>t. t\<lparr>m_is_kernel := True\<rparr>)))"

definition set_state :: "task_manager \<Rightarrow> tptr \<Rightarrow> task_state \<Rightarrow> task_manager" where
  "set_state s p st = set_task s p (\<lambda>t. t\<lparr>m_state := st\<rparr>)"

text \<open>The three assertions every operation on a task starts with.\<close>

definition with_live_task :: "task_manager \<Rightarrow> tptr option \<Rightarrow> (tptr \<Rightarrow> task \<Rightarrow> 'a outcome) \<Rightarrow> 'a outcome" where
  "with_live_task s task k =
     (case task of None \<Rightarrow> Inl Panic
      | Some p \<Rightarrow> bindE (task_at s p) (\<lambda>t. kassert (m_manager t) (kassert (\<not> is_terminated t) (k p t))))"

definition sleep_ticks :: "u64 \<Rightarrow> u64" where
  "sleep_ticks time_in_us = max_k 1 (div_round_up time_in_us (TICK_TIME * 1000))"

definition sleep_task :: "task_manager \<Rightarrow> tptr option \<Rightarrow> u64 \<Rightarrow> task_manager outcome" where
  "sleep_task s task time_in_us = with_live_task s task (\<lambda>p t.
     if \<not> is_running t then ok s
     else let ticks_count = sleep_ticks time_in_us in
       bindE (sched_remove_task s task) (\<lambda>(_, s).
         let s = set_state s p INTERRUPTIBLE in
         bindE (task_at s p) (\<lambda>t.
         bindE (dq_add_task (is_running t) p ticks_count (m_delta_queue s)) (\<lambda>q. ok (s\<lparr>m_delta_queue := q\<rparr>)))))"

definition pause_task :: "task_manager \<Rightarrow> tptr option \<Rightarrow> task_manager outcome" where
  "pause_task s task = with_live_task s task (\<lambda>p t.
     if \<not> is_running t then ok s
     else bindE (sched_remove_task s task) (\<lambda>(_, s). ok (set_state s p UNINTERRUPTIBLE)))"

definition wake_task :: "task_manager \<Rightarrow> tptr option \<Rightarrow> task_manager outcome" where
  "wake_task s task = with_live_task s task (\<lambda>p t.
     if is_running t then ok s
     else let s = set_task s p (\<lambda>t. t\<lparr>m_elapsed_ticks := 0\<rparr>) in
       bindE (sched_add_task s task) (\<lambda>s. ok (set_state s p RUNNING)))"

text \<open>
  \<^verbatim>\<open>kill_task\<close> recurses over the range from \<^verbatim>\<open>children_begin\<close> to \<^verbatim>\<open>children_end\<close>; \<open>depth\<close> bounds the recursion.
  \<open>free_resources\<close> stands for the call of that name on the task.
\<close>

definition children_range :: "task \<Rightarrow> tptr list" where
  "children_range t = map ((!) (m_children t)) [children_begin t ..< children_end t]"

fun kill_each :: "(task_manager \<Rightarrow> tptr option \<Rightarrow> task_manager outcome) \<Rightarrow> tptr list \<Rightarrow> task_manager \<Rightarrow> task_manager outcome" where
  "kill_each kill [] s = ok s"
| "kill_each kill (c # cs) s = bindE (kill s (Some c)) (kill_each kill cs)"

fun kill_task ::
  "(task_manager \<Rightarrow> tptr \<Rightarrow> task_manager outcome) \<Rightarrow> nat \<Rightarrow> task_manager \<Rightarrow> tptr option \<Rightarrow> task_manager outcome" where
  "kill_task free_resources 0 s task = Inl Diverges"
| "kill_task free_resources (Suc depth) s task =
     (case task of None \<Rightarrow> Inl Panic
      | Some p \<Rightarrow> bindE (task_at s p) (\<lambda>t. kassert (m_manager t) (
          if is_terminated t then ok s
          else bindE (kill_each (kill_task free_resources depth) (children_range t) s) (\<lambda>s.
            bindE (sched_remove_task s (Some p)) (\<lambda>(_, s).
              bindE (free_resources s p) (\<lambda>s. ok (set_state s p TERMINATED)))))))"

definition set_task_priority :: "task_manager \<Rightarrow> tptr option \<Rightarrow> nat \<Rightarrow> (bool \<times> task_manager) outcome" where
  "set_task_priority s task new_priority =
     (case task of None \<Rightarrow> Inl Panic
      | Some p \<Rightarrow> bindE (task_at s p) (\<lambda>t. kassert (\<not> is_terminated t) (
          if new_priority < MIN_PRIORITY \<or> new_priority > MAX_PRIORITY then ok (False, s)
          else let old_priority = m_priority t;
                   s = set_task s p (\<lambda>t. t\<lparr>m_priority := new_priority\<rparr>) in
               bindE (update_task_priority s task old_priority) (\<lambda>s. ok (True, s)))))"

definition tm_tick :: "task_manager \<Rightarrow> task_manager outcome" where
  "tm_tick s =
     bindE (dq_tick (\<lambda>p s. wake_task s (Some p)) (m_delta_queue s) s)
       (\<lambda>(q, s). sched_tick (s\<lparr>m_delta_queue := q\<rparr>))"

subsection \<open>Invariant\<close>

definition running_set :: "'z sched_scheme \<Rightarrow> tptr set" where
  "running_set s = {p. p < length (tasks s) \<and> is_running (tasks s ! p)}"

definition live :: "task_manager \<Rightarrow> tptr \<Rightarrow> bool" where
  "live s p \<longleftrightarrow> p < length (tasks s) \<and> \<not> is_terminated (tasks s ! p)"

definition tm_inv :: "task_manager \<Rightarrow> bool" where
  "tm_inv s \<longleftrightarrow> schedules s (running_set s)
     \<and> (\<forall>t\<in>set (tasks s). m_priority t \<le> MAX_PRIORITY \<and> m_manager t)
     \<and> dq_inv (m_delta_queue s) \<and> (\<forall>it\<in>set (m_delta_queue s). live s (item_task it))"

lemma tm_invD:
  assumes "tm_inv s"
  shows "schedules s (running_set s)" and "p < length (tasks s) \<Longrightarrow> m_priority (tasks s ! p) \<le> MAX_PRIORITY"
    and "p < length (tasks s) \<Longrightarrow> m_manager (tasks s ! p)" and "dq_inv (m_delta_queue s)"
    and "it \<in> set (m_delta_queue s) \<Longrightarrow> live s (item_task it)"
  using assms by (auto simp: tm_inv_def)

text \<open>The parts of the state an operation on one task leaves alone.\<close>

definition others_same :: "tptr \<Rightarrow> task_manager \<Rightarrow> task_manager \<Rightarrow> bool" where
  "others_same p s s' \<longleftrightarrow> length (tasks s') = length (tasks s)
     \<and> (\<forall>q<length (tasks s). m_priority (tasks s' ! q) = m_priority (tasks s ! q) \<and> m_manager (tasks s' ! q) = m_manager (tasks s ! q)
          \<and> m_id (tasks s' ! q) = m_id (tasks s ! q) \<and> m_preempt_count (tasks s' ! q) = m_preempt_count (tasks s ! q)
          \<and> (q \<noteq> p \<longrightarrow> m_state (tasks s' ! q) = m_state (tasks s ! q)))"

lemma others_same_refl [simp]: "others_same p s s"
  by (simp add: others_same_def)

lemma same_but_ticks_others: "same_but_ticks s s' \<Longrightarrow> others_same p s s'"
  by (simp add: others_same_def same_but_ticks_length same_but_ticks_fields)

lemma others_same_trans: "others_same p a b \<Longrightarrow> others_same p b c \<Longrightarrow> others_same p a c"
  by (simp add: others_same_def)

lemma others_same_set_state: "others_same p s (set_state s p st)"
  by (cases "p < length (tasks s)") (auto simp: others_same_def set_state_def set_task_def nth_list_update list_update_beyond)

lemma set_state_state: "p < length (tasks s) \<Longrightarrow> m_state (tasks (set_state s p st) ! p) = st"
  by (simp add: set_state_def set_task_def)

lemma set_state_fields [simp]:
  "m_delta_queue (set_state s p st) = m_delta_queue s" "m_current_task (set_state s p st) = m_current_task s"
  "m_run_queue (set_state s p st) = m_run_queue s" "length (tasks (set_state s p st)) = length (tasks s)"
  by (simp_all add: set_state_def set_task_def)

lemma same_but_ticks_delta: "same_but_ticks s s' \<Longrightarrow> m_delta_queue s' = m_delta_queue s"
  by (cases s, cases s') (simp add: same_but_ticks_def task_manager.defs)

lemma schedules_set_other:
  assumes "schedules s R" and "p \<notin> R"
  shows "schedules (set_task s p f) R"
proof -
  have "tasks (set_task s p f) ! q = tasks s ! q" if "q \<in> R" for q
    using that assms(2) by (cases "q = p") (auto simp: set_task_def)
  then show ?thesis using assms(1) unfolding schedules_def prio_def by (auto simp: set_eq_iff)
qed

lemma tm_inv_intro:
  assumes "tm_inv s" and "others_same p s s'" and "schedules s' (running_set s')"
    and "dq_inv (m_delta_queue s')" and "\<And>it. it \<in> set (m_delta_queue s') \<Longrightarrow> live s' (item_task it)"
  shows "tm_inv s'"
  using assms unfolding tm_inv_def others_same_def by (metis in_set_conv_nth)

lemma live_others:
  assumes "others_same p s s'" and "m_state (tasks s' ! p) \<noteq> TERMINATED" and "live s q"
  shows "live s' q"
  using assms by (cases "q = p") (auto simp: live_def others_same_def is_terminated_def)

subsection \<open>Taking a task off the scheduler and putting it back\<close>

lemma leave_scheduler:
  assumes inv: "tm_inv s" and p: "p \<in> running_set s" and st: "st \<noteq> RUNNING"
  obtains s1 b where "sched_remove_task s (Some p) = ok (b, s1)" and "schedules (set_state s1 p st) (running_set (set_state s1 p st))"
    and "others_same p s (set_state s1 p st)" and "m_delta_queue s1 = m_delta_queue s"
    and "m_state (tasks (set_state s1 p st) ! p) = st" and "same_but_ticks s s1" and "schedules s1 (running_set s - {p})"
proof -
  obtain s1 where s1: "sched_remove_task s (Some p) = ok (True, s1)" "schedules s1 (running_set s - {p})" "same_but_ticks s s1"
    using sched_remove_task_spec [OF tm_invD(1) [OF inv] p] by metis
  have len: "p < length (tasks s)" "length (tasks s1) = length (tasks s)"
    using p same_but_ticks_length [OF s1(3)] by (simp_all add: running_set_def)
  have o: "others_same p s (set_state s1 p st)"
    by (rule others_same_trans [OF same_but_ticks_others [OF s1(3)] others_same_set_state])
  have st': "m_state (tasks (set_state s1 p st) ! p) = st" using len by (simp add: set_state_state)
  have "running_set (set_state s1 p st) = running_set s - {p}"
    using o st st' len unfolding running_set_def others_same_def is_running_def by auto
  moreover have "schedules (set_state s1 p st) (running_set s - {p})"
    unfolding set_state_def by (rule schedules_set_other [OF s1(2)]) simp
  ultimately show ?thesis using that [OF s1(1) _ o _ st' s1(3,2)] same_but_ticks_delta [OF s1(3)] by simp
qed

lemma pause_task_spec:
  assumes inv: "tm_inv s" and p: "live s p"
  obtains s' where "pause_task s (Some p) = ok s'" and "tm_inv s'" and "others_same p s s'"
    and "m_state (tasks s' ! p) = (if is_running (tasks s ! p) then UNINTERRUPTIBLE else m_state (tasks s ! p))"
    and "m_delta_queue s' = m_delta_queue s"
proof (cases "is_running (tasks s ! p)")
  case False
  then have "pause_task s (Some p) = ok s"
    using p tm_invD(3) [OF inv, of p] by (simp add: pause_task_def with_live_task_def task_at_def live_def)
  then show ?thesis using that [of s] inv False by simp
next
  case True
  then have "p \<in> running_set s" using p by (simp add: running_set_def live_def)
  from leave_scheduler [OF inv this, of UNINTERRUPTIBLE] obtain s1 b where s1: "sched_remove_task s (Some p) = ok (b, s1)"
    "schedules (set_state s1 p UNINTERRUPTIBLE) (running_set (set_state s1 p UNINTERRUPTIBLE))"
    "others_same p s (set_state s1 p UNINTERRUPTIBLE)" "m_delta_queue s1 = m_delta_queue s"
    "m_state (tasks (set_state s1 p UNINTERRUPTIBLE) ! p) = UNINTERRUPTIBLE" by blast
  have "tm_inv (set_state s1 p UNINTERRUPTIBLE)"
    by (rule tm_inv_intro [OF inv s1(3,2)]) (use tm_invD(4,5) [OF inv] s1(4,5) live_others [OF s1(3)] in simp_all)
  moreover have "pause_task s (Some p) = ok (set_state s1 p UNINTERRUPTIBLE)"
    using True p tm_invD(3) [OF inv, of p] s1(1) by (simp add: pause_task_def with_live_task_def task_at_def live_def)
  ultimately show ?thesis using that s1(3-5) True by simp
qed

lemma sleep_ticks_nonzero: "sleep_ticks us \<noteq> 0"
proof -
  have "(1 :: u64) \<le> sleep_ticks us" by (auto simp: sleep_ticks_def max_k_def not_less)
  then show ?thesis by (metis word_not_simps(2) not_less word_le_0_iff zero_neq_one)
qed

lemma set_insert_deadline: "set (insert_deadline t n ds) = insert (t, n) (set ds)"
  by (induction t n ds rule: insert_deadline.induct) auto

lemma deadlines_tasks: "item_task ` set q = fst ` set (deadlines q)"
  unfolding deadlines_def by (metis map_fst_deadlines set_map)

lemma sleep_task_spec:
  assumes inv: "tm_inv s" and p: "p \<in> running_set s"
  obtains s' where "sleep_task s (Some p) us = ok s'" and "tm_inv s'" and "others_same p s s'"
    and "m_state (tasks s' ! p) = INTERRUPTIBLE"
    and "deadlines (m_delta_queue s') = insert_deadline p (unat (sleep_ticks us)) (deadlines (m_delta_queue s))"
proof -
  from leave_scheduler [OF inv p, of INTERRUPTIBLE] obtain s1 b where s1: "sched_remove_task s (Some p) = ok (b, s1)"
    "schedules (set_state s1 p INTERRUPTIBLE) (running_set (set_state s1 p INTERRUPTIBLE))"
    "others_same p s (set_state s1 p INTERRUPTIBLE)" "m_delta_queue s1 = m_delta_queue s"
    "m_state (tasks (set_state s1 p INTERRUPTIBLE) ! p) = INTERRUPTIBLE" by blast
  obtain q where q: "dq_add_task False p (sleep_ticks us) (m_delta_queue s) = ok q" "dq_inv q"
    "deadlines q = insert_deadline p (unat (sleep_ticks us)) (deadlines (m_delta_queue s))"
    using dq_add_task_spec [OF tm_invD(4) [OF inv] sleep_ticks_nonzero] by blast
  let ?s = "(set_state s1 p INTERRUPTIBLE)\<lparr>m_delta_queue := q\<rparr>"
  have len: "p < length (tasks s)" "is_running (tasks s ! p)" "p < length (tasks s1)"
    using p s1(3) by (simp_all add: running_set_def others_same_def)
  have o: "others_same p s ?s" using s1(3) by (simp add: others_same_def)
  have state: "m_state (tasks ?s ! p) = INTERRUPTIBLE" using s1(5) by simp
  have items: "item_task ` set q = insert p (item_task ` set (m_delta_queue s))"
    by (simp add: deadlines_tasks q(3) set_insert_deadline)
  have "live ?s (item_task it)" if "it \<in> set q" for it
  proof -
    from that items have "item_task it = p \<or> live s (item_task it)" using tm_invD(5) [OF inv] by (metis imageE imageI insertE)
    then show ?thesis using live_others [OF o] state len by (auto simp: live_def is_terminated_def is_running_def)
  qed
  moreover have "schedules ?s (running_set ?s)" using s1(2) by (simp add: schedules_def running_set_def prio_def)
  ultimately have "tm_inv ?s" by (intro tm_inv_intro [OF inv o]) (simp_all add: q(2))
  moreover have "sleep_task s (Some p) us = ok ?s"
    using len tm_invD(3) [OF inv, of p] s1 q(1)
    by (simp add: sleep_task_def with_live_task_def task_at_def is_terminated_def is_running_def Let_def)
  ultimately show ?thesis using that [of ?s] o state q(3) by simp
qed

lemma wake_task_spec:
  assumes inv: "tm_inv s" and p: "live s p"
  obtains s' where "wake_task s (Some p) = ok s'" and "tm_inv s'" and "others_same p s s'"
    and "m_state (tasks s' ! p) = RUNNING" and "m_delta_queue s' = m_delta_queue s" and "m_current_task s' = m_current_task s"
proof (cases "is_running (tasks s ! p)")
  case True
  then have "wake_task s (Some p) = ok s"
    using p tm_invD(3) [OF inv, of p] by (simp add: wake_task_def with_live_task_def task_at_def live_def)
  then show ?thesis using that [of s] inv True by (simp add: is_running_def)
next
  case False
  let ?R = "running_set s"
  let ?s0 = "set_task s p (\<lambda>t. t\<lparr>m_elapsed_ticks := 0\<rparr>)"
  let ?s1 = "?s0\<lparr>m_run_queue := (m_run_queue s)(prio s p := m_run_queue s (prio s p) @ [p])\<rparr>"
  let ?s2 = "set_state ?s1 p RUNNING"
  have len: "p < length (tasks s)" and pR: "p \<notin> ?R" using p False by (auto simp: live_def running_set_def)
  note d = schedulesD [OF tm_invD(1) [OF inv]]
  have o: "others_same p s ?s2"
    using len by (auto simp: others_same_def set_state_def set_task_def nth_list_update)
  have t: "tasks ?s2 ! q = (if q = p then (tasks s ! p)\<lparr>m_elapsed_ticks := 0, m_state := RUNNING\<rparr> else tasks s ! q)" for q
    using len by (simp add: set_state_def set_task_def)
  have run: "running_set ?s2 = insert p ?R" using len t by (auto simp: running_set_def is_running_def)
  have pr: "prio ?s2 = prio s" using t by (simp add: prio_def fun_eq_iff)
  have prb: "prio s p \<le> MAX_PRIORITY" using tm_invD(2) [OF inv len] by (simp add: prio_def)
  have cur: "m_current_task s \<noteq> Some p" using d(4) pR by blast
  have "schedules ?s2 (running_set ?s2)"
    unfolding schedules_def run pr
  proof (intro conjI ballI allI)
    fix i
    have "p \<notin> set (m_run_queue s i)" using d(6) pR by blast
    then show "distinct (m_run_queue ?s2 i)" using d(5) [of i] by auto
    show "set (m_run_queue ?s2 i) = {q \<in> insert p ?R. prio s q = i \<and> m_current_task ?s2 \<noteq> Some q}"
      using d(6) [of _ i] cur by (auto simp: set_eq_iff)
  qed (use d(1-4) t prb len in \<open>auto simp: is_running_def\<close>)
  then have "tm_inv ?s2"
    by (rule tm_inv_intro [OF inv o])
      (use tm_invD(4,5) [OF inv] live_others [OF o] t in \<open>simp_all add: set_task_def\<close>)
  moreover have "wake_task s (Some p) = ok ?s2"
  proof -
    have "tasks ?s0 ! p = (tasks s ! p)\<lparr>m_elapsed_ticks := 0\<rparr>" using len by (simp add: set_task_def)
    then have "sched_add_task ?s0 (Some p) = ok ?s1"
      using False len prb by (simp add: sched_add_task_def task_at_def rq_push_back_def MIN_PRIORITY_def prio_def is_running_def)
    then show ?thesis using False p tm_invD(3) [OF inv len]
      by (simp add: wake_task_def with_live_task_def task_at_def live_def Let_def)
  qed
  ultimately show ?thesis using that [of ?s2] o t by (simp add: set_task_def)
qed

subsection \<open>Creation, priorities and termination\<close>

lemma create_task_common_spec:
  assumes inv: "tm_inv s" and parent: "\<forall>q. parent = Some q \<longrightarrow> q < length (tasks s)"
  obtains s' where "create_task_common s True k parent = ok (Some (length (tasks s)), s')" and "tm_inv s'"
    and "length (tasks s') = Suc (length (tasks s))" and "m_id (tasks s' ! length (tasks s)) = m_next_available_pid s"
    and "m_state (tasks s' ! length (tasks s)) = INTERRUPTIBLE" and "m_next_available_pid s' = m_next_available_pid s + 1"
    and "\<And>p. p < length (tasks s) \<Longrightarrow> m_id (tasks s' ! p) = m_id (tasks s ! p) \<and> m_state (tasks s' ! p) = m_state (tasks s ! p)"
proof -
  let ?p = "length (tasks s)"
  let ?add = "\<lambda>q. set_task s q (\<lambda>t. t\<lparr>m_children := m_children t @ [?p]\<rparr>)"
  define s1 where "s1 = (case parent of None \<Rightarrow> s | Some q \<Rightarrow> ?add q)"
  let ?t = "(make_task (m_next_available_pid s))\<lparr>m_manager := True, m_parent := parent, m_priority := DEFAULT_PRIORITY\<rparr>"
  let ?s = "s1\<lparr>tasks := tasks s1 @ [?t], m_next_available_pid := m_next_available_pid s + 1\<rparr>"
  have same: "length (tasks s1) = ?p" "m_run_queue s1 = m_run_queue s" "m_current_task s1 = m_current_task s"
      "m_delta_queue s1 = m_delta_queue s" "m_next_available_pid s1 = m_next_available_pid s"
    by (cases parent; simp add: s1_def set_task_def)+
  have fields: "m_priority (tasks ?s ! q) = m_priority (tasks s ! q) \<and> m_state (tasks ?s ! q) = m_state (tasks s ! q)
      \<and> m_manager (tasks ?s ! q) = m_manager (tasks s ! q) \<and> m_id (tasks ?s ! q) = m_id (tasks s ! q)" if "q < ?p" for q
    using that same(1) parent by (cases parent) (auto simp: s1_def set_task_def nth_append nth_list_update)
  have last: "tasks ?s ! ?p = ?t" using nth_append_length [of "tasks s1" ?t] unfolding same(1) by simp
  have create: "create_task_common s True k parent = ok (Some ?p, ?s)"
    using parent same(5) by (cases parent) (simp_all add: create_task_common_def s1_def task_at_def Let_def set_task_def)
  have "running_set ?s = running_set s"
    using same(1) fields last by (auto simp: running_set_def is_running_def less_Suc_eq make_task_def)
  moreover have "schedules ?s (running_set s)"
    using tm_invD(1) [OF inv] fields same unfolding schedules_def prio_def
    by (auto simp: running_set_def is_running_def set_eq_iff less_Suc_eq)
  moreover have "m_priority t \<le> MAX_PRIORITY \<and> m_manager t" if t: "t \<in> set (tasks ?s)" for t
  proof -
    have "length (tasks ?s) = Suc ?p" using same(1) by simp
    then obtain q where q: "q < Suc ?p" "t = tasks ?s ! q" using t by (metis in_set_conv_nth)
    then show ?thesis
      using fields [of q] last tm_invD(2,3) [OF inv, of q] by (cases "q = ?p") (auto simp: DEFAULT_PRIORITY_def MAX_PRIORITY_def)
  qed
  moreover have "live ?s (item_task it)" if "it \<in> set (m_delta_queue s)" for it
    using tm_invD(5) [OF inv that] fields [of "item_task it"] same(1) by (auto simp: live_def is_terminated_def)
  ultimately have "tm_inv ?s" using tm_invD(4) [OF inv] same(4) by (simp add: tm_inv_def)
  then show ?thesis using that [OF create] same fields last by (simp add: make_task_def)
qed

lemma find_task_Some: "find_task pid ts i = Some p \<Longrightarrow> i \<le> p \<and> p < i + length ts \<and> m_id (ts ! (p - i)) = pid"
  by (induction pid ts i rule: find_task.induct) (force split: if_splits simp: nth_Cons')+

lemma find_task_None: "find_task pid ts i = None \<longleftrightarrow> (\<forall>t\<in>set ts. m_id t \<noteq> pid)"
  by (induction pid ts i rule: find_task.induct) auto

lemma set_task_priority_spec:
  assumes inv: "tm_inv s" and p: "live s p"
  obtains s' where "set_task_priority s (Some p) n = ok (n \<le> MAX_PRIORITY, s')" and "tm_inv s'"
    and "m_priority (tasks s' ! p) = (if n \<le> MAX_PRIORITY then n else m_priority (tasks s ! p))"
    and "\<And>q. q < length (tasks s) \<Longrightarrow> m_state (tasks s' ! q) = m_state (tasks s ! q)"
    and "m_current_task s' = m_current_task s"
proof (cases "n \<le> MAX_PRIORITY")
  case False
  then have "set_task_priority s (Some p) n = ok (False, s)"
    using p by (simp add: set_task_priority_def live_def task_at_def)
  then show ?thesis using that [of s] False inv by simp
next
  case True
  let ?s1 = "set_task s p (\<lambda>t. t\<lparr>m_priority := n\<rparr>)"
  have len: "p < length (tasks s)" using p by (simp add: live_def)
  have "prio s p \<le> MAX_PRIORITY" using tm_invD(2) [OF inv len] by (simp add: prio_def)
  from update_task_priority_spec [OF tm_invD(1) [OF inv] len True this]
  obtain s' where s': "update_task_priority ?s1 (Some p) (prio s p) = ok s'" "schedules s' (running_set s)"
    "tasks s' = tasks ?s1" "m_current_task s' = m_current_task s" "sched.more s' = sched.more s" by metis
  have t: "tasks s' ! q = (if q = p then (tasks s ! p)\<lparr>m_priority := n\<rparr> else tasks s ! q)" for q
    using s'(3) len by (simp add: set_task_def)
  have l: "length (tasks s') = length (tasks s)" using s'(3) by simp
  have dq: "m_delta_queue s' = m_delta_queue s" using s'(5) by (cases s, cases s') (simp add: task_manager.defs)
  have "running_set s' = running_set s" using t l by (auto simp: running_set_def is_running_def)
  moreover have "m_priority u \<le> MAX_PRIORITY \<and> m_manager u" if "u \<in> set (tasks s')" for u
    using that t l True tm_invD(2,3) [OF inv] by (auto simp: in_set_conv_nth)
  moreover have "live s' q \<longleftrightarrow> live s q" for q using t l by (auto simp: live_def is_terminated_def)
  ultimately have "tm_inv s'" using s'(2) tm_invD(4,5) [OF inv] dq by (simp add: tm_inv_def)
  moreover have "set_task_priority s (Some p) n = ok (True, s')"
    using p True s'(1) len by (simp add: set_task_priority_def live_def task_at_def MIN_PRIORITY_def prio_def Let_def)
  ultimately show ?thesis using that [of s'] True t s'(4) by simp
qed

lemma children_range_empty [simp]: "children_range t = []"
  by (simp add: children_range_def children_begin_def children_end_def)

lemma kill_task_spec:
  assumes inv: "tm_inv s" and p: "p \<in> running_set s" and awake: "p \<notin> item_task ` set (m_delta_queue s)"
    and release: "\<And>s1. schedules s1 (running_set s - {p}) \<Longrightarrow> same_but_ticks s s1 \<Longrightarrow> free_resources s1 p = ok s1"
  obtains s' where "kill_task free_resources (Suc d) s (Some p) = ok s'" and "tm_inv s'" and "others_same p s s'"
    and "m_state (tasks s' ! p) = TERMINATED" and "m_delta_queue s' = m_delta_queue s"
proof -
  from leave_scheduler [OF inv p, of TERMINATED] obtain s1 b where s1: "sched_remove_task s (Some p) = ok (b, s1)"
    "schedules (set_state s1 p TERMINATED) (running_set (set_state s1 p TERMINATED))"
    "others_same p s (set_state s1 p TERMINATED)" "m_delta_queue s1 = m_delta_queue s"
    "m_state (tasks (set_state s1 p TERMINATED) ! p) = TERMINATED" "same_but_ticks s s1" "schedules s1 (running_set s - {p})" by blast
  have "live (set_state s1 p TERMINATED) (item_task it)" if "it \<in> set (m_delta_queue s)" for it
  proof -
    have "item_task it \<noteq> p" using awake that by auto
    then show ?thesis using tm_invD(5) [OF inv that] s1(3) by (auto simp: live_def others_same_def is_terminated_def)
  qed
  then have "tm_inv (set_state s1 p TERMINATED)"
    by (intro tm_inv_intro [OF inv s1(3,2)]) (use tm_invD(4) [OF inv] s1(4) in simp_all)
  moreover have "kill_task free_resources (Suc d) s (Some p) = ok (set_state s1 p TERMINATED)"
    using p tm_invD(3) [OF inv, of p] s1(1) release [OF s1(7,6)]
    by (simp add: running_set_def task_at_def is_terminated_def is_running_def)
  ultimately show ?thesis using that s1(3-5) by simp
qed

text \<open>A task that is paused or asleep is not in the scheduler, and \<^verbatim>\<open>remove_task\<close> asserts that it runs.\<close>

lemma kill_task_not_running:
  assumes "p < length (tasks s)" and "m_manager (tasks s ! p)" and "m_state (tasks s ! p) \<in> {INTERRUPTIBLE, UNINTERRUPTIBLE}"
  shows "kill_task free_resources (Suc d) s (Some p) = Inl Panic"
  using assms by (auto simp: task_at_def is_terminated_def sched_remove_task_def is_running_def)

subsection \<open>Timer ticks\<close>

lemma sched_tick_spec:
  assumes "schedules s R"
  obtains s' where "sched_tick s = ok s'" and "schedules s' R" and "same_but_ticks s s'"
  by (cases "m_current_task s") (use sched_tick_idle [OF assms] sched_tick_busy [OF assms] in metis)+

lemma same_but_ticks_running: "same_but_ticks s s' \<Longrightarrow> running_set s' = running_set s"
  by (auto simp: running_set_def same_but_ticks_length same_but_ticks_fields is_running_def)

lemma tm_inv_same_but_ticks:
  assumes inv: "tm_inv s" and "same_but_ticks s s'" and "schedules s' (running_set s)"
  shows "tm_inv s'"
proof -
  have "live s' q" if "live s q" for q
    using that same_but_ticks_fields(2) [OF assms(2), of q] same_but_ticks_length [OF assms(2)] by (auto simp: live_def is_terminated_def)
  then show ?thesis
    using assms(3) tm_invD(4,5) [OF inv] same_but_ticks_delta [OF assms(2)] same_but_ticks_running [OF assms(2)]
    by (intro tm_inv_intro [OF inv same_but_ticks_others [OF assms(2)]]) simp_all
qed

text \<open>What a sequence of wake-ups does to the task states.\<close>

definition woken :: "tptr set \<Rightarrow> task_manager \<Rightarrow> task_manager \<Rightarrow> bool" where
  "woken W s s' \<longleftrightarrow> length (tasks s') = length (tasks s)
     \<and> (\<forall>q<length (tasks s). m_state (tasks s' ! q) = (if q \<in> W then RUNNING else m_state (tasks s ! q))
          \<and> m_priority (tasks s' ! q) = m_priority (tasks s ! q) \<and> m_id (tasks s' ! q) = m_id (tasks s ! q)
          \<and> m_preempt_count (tasks s' ! q) = m_preempt_count (tasks s ! q))"

lemma wake_all_of_spec:
  assumes "tm_inv s" and "\<forall>p\<in>set ts. live s p"
  obtains s' where "wake_all_of (\<lambda>p s. wake_task s (Some p)) ts s = ok s'" and "tm_inv s'" and "woken (set ts) s s'"
    and "m_delta_queue s' = m_delta_queue s" and "m_current_task s' = m_current_task s"
  using assms
proof (induction ts arbitrary: s thesis)
  case Nil
  then show ?case by (simp add: woken_def)
next
  case (Cons p ts)
  obtain s1 where s1: "wake_task s (Some p) = ok s1" "tm_inv s1" "others_same p s s1" "m_state (tasks s1 ! p) = RUNNING"
    "m_delta_queue s1 = m_delta_queue s" "m_current_task s1 = m_current_task s"
    using wake_task_spec [OF Cons.prems(2), of p] Cons.prems(3) by auto
  have "\<forall>q\<in>set ts. live s1 q" using Cons.prems(3) live_others [OF s1(3)] s1(4) by simp
  then obtain s2 where s2: "wake_all_of (\<lambda>p s. wake_task s (Some p)) ts s1 = ok s2" "tm_inv s2" "woken (set ts) s1 s2"
    "m_delta_queue s2 = m_delta_queue s1" "m_current_task s2 = m_current_task s1" using Cons.IH [OF _ s1(2)] by metis
  have "woken (set (p # ts)) s s2"
    using s1(3,4) s2(3) by (auto simp: woken_def others_same_def)
  with s1 s2 show ?case by (intro Cons.prems(1) [of s2]) simp_all
qed

lemma set_due: "set (due (deadlines q)) \<subseteq> item_task ` set q"
  unfolding deadlines_tasks by (auto simp: due_def dest: set_takeWhileD)

lemma set_pending: "fst ` set (pending ds) \<subseteq> fst ` set ds"
  by (force simp: pending_def dest: set_dropWhileD)

lemma tm_tick_spec:
  assumes inv: "tm_inv s"
  obtains s1 s' where "tm_tick s = ok s'" and "tm_inv s'" and "woken (set (due (deadlines (m_delta_queue s)))) s s'"
    and "deadlines (m_delta_queue s') = pending (deadlines (m_delta_queue s))"
    and "sched_tick s1 = ok s'" and "tm_inv s1" and "m_current_task s1 = m_current_task s" and "same_but_ticks s1 s'"
    and "woken (set (due (deadlines (m_delta_queue s)))) s s1"
proof -
  let ?due = "due (deadlines (m_delta_queue s))"
  let ?wake = "\<lambda>p s. wake_task s (Some p)"
  obtain q where q: "dq_inv q" "deadlines q = pending (deadlines (m_delta_queue s))"
    "dq_tick ?wake (m_delta_queue s) s = bindE (wake_all_of ?wake ?due s) (\<lambda>s'. ok (q, s'))"
    using dq_tick_spec [OF tm_invD(4) [OF inv]] by metis
  have "\<forall>p\<in>set ?due. live s p" using set_due [of "m_delta_queue s"] tm_invD(5) [OF inv] by auto
  then obtain s0 where s0: "wake_all_of ?wake ?due s = ok s0" "tm_inv s0" "woken (set ?due) s s0"
    "m_delta_queue s0 = m_delta_queue s" "m_current_task s0 = m_current_task s" by (rule wake_all_of_spec [OF inv])
  let ?s1 = "s0\<lparr>m_delta_queue := q\<rparr>"
  have "item_task ` set q \<subseteq> item_task ` set (m_delta_queue s0)"
    using set_pending by (simp add: deadlines_tasks q(2) s0(4))
  then have "live ?s1 (item_task it)" if "it \<in> set q" for it
    using that tm_invD(5) [OF s0(2)] by (force simp: live_def)
  moreover have "schedules ?s1 (running_set ?s1)"
    using tm_invD(1) [OF s0(2)] by (simp add: schedules_def running_set_def prio_def)
  ultimately have inv1: "tm_inv ?s1"
    using q(1) by (intro tm_inv_intro [OF s0(2)]) (simp_all add: others_same_def)
  obtain s' where s': "sched_tick ?s1 = ok s'" "schedules s' (running_set ?s1)" "same_but_ticks ?s1 s'"
    by (rule sched_tick_spec [OF tm_invD(1) [OF inv1]])
  have "tm_inv s'" by (rule tm_inv_same_but_ticks [OF inv1 s'(3,2)])
  moreover have "woken (set ?due) s s'"
    using s0(3) same_but_ticks_length [OF s'(3)] same_but_ticks_fields [OF s'(3)] by (simp add: woken_def)
  moreover have "tm_tick s = ok s'" using q(3) s0(1) s'(1) by (simp add: tm_tick_def)
  ultimately show ?thesis
    using that [OF _ _ _ _ s'(1) inv1] s'(3) s0(3,5) same_but_ticks_delta [OF s'(3)] q(2) by (simp add: woken_def)
qed

lemma tm_schedule_spec:
  assumes "tm_inv s"
  obtains s' where "schedule s = ok s'" and "tm_inv s'" and "same_but_ticks s s'"
  using schedule_spec [OF tm_invD(1) [OF assms]] tm_inv_same_but_ticks [OF assms] by metis

subsection \<open>The operations as a transition system\<close>

definition tm_init :: task_manager where
  "tm_init = \<lparr>tasks = [], m_current_task = None, m_run_queue = (\<lambda>_. []), m_next_available_pid = 0, m_delta_queue = [], m_ready = False\<rparr>"

definition owns_nothing :: "task \<Rightarrow> bool" where
  "owns_nothing t \<longleftrightarrow> m_windows t = [] \<and> m_open_files t = [] \<and> m_open_dirs t = [] \<and> m_open_pipes t = []"

inductive tm_step :: "task_manager \<Rightarrow> task_manager \<Rightarrow> bool" where
  create: "create_task_common s alloc k parent = ok (r, s') \<Longrightarrow> tm_step s s'"
| wake: "live s p \<Longrightarrow> wake_task s (Some p) = ok s' \<Longrightarrow> tm_step s s'"
| pause: "live s p \<Longrightarrow> pause_task s (Some p) = ok s' \<Longrightarrow> tm_step s s'"
| sleep: "live s p \<Longrightarrow> sleep_task s (Some p) us = ok s' \<Longrightarrow> tm_step s s'"
| kill: "\<lbrakk>p \<notin> item_task ` set (m_delta_queue s); p < length (tasks s) \<Longrightarrow> owns_nothing (tasks s ! p);
          kill_task (\<lambda>s _. ok s) d s (Some p) = ok s'\<rbrakk> \<Longrightarrow> tm_step s s'"
| priority: "live s p \<Longrightarrow> set_task_priority s (Some p) n = ok (r, s') \<Longrightarrow> tm_step s s'"
| reschedule: "schedule s = ok s' \<Longrightarrow> tm_step s s'"
| tick: "tm_tick s = ok s' \<Longrightarrow> tm_step s s'"
| no_preempt: "p < length (tasks s) \<Longrightarrow> tm_step s (set_task s p disable_preempt)"
| preempt: "\<lbrakk>p < length (tasks s); enable_preempt (tasks s ! p) = ok t\<rbrakk> \<Longrightarrow> tm_step s (set_task s p (\<lambda>_. t))"
| mark_ready: "tm_step s (s\<lparr>m_ready := True\<rparr>)"

inductive tm_reachable :: "task_manager \<Rightarrow> bool" where
  start: "tm_reachable tm_init"
| step: "tm_reachable s \<Longrightarrow> tm_step s s' \<Longrightarrow> tm_reachable s'"

lemma tm_inv_init: "tm_inv tm_init"
  by (simp add: tm_init_def tm_inv_def schedules_def running_set_def dq_inv_def)

lemma tm_inv_set_task:
  assumes inv: "tm_inv s" and p: "p < length (tasks s)"
    and f: "m_state (f (tasks s ! p)) = m_state (tasks s ! p)" "m_priority (f (tasks s ! p)) = m_priority (tasks s ! p)"
      "m_manager (f (tasks s ! p)) = m_manager (tasks s ! p)"
  shows "tm_inv (set_task s p f)"
proof -
  let ?s = "set_task s p f"
  have t: "m_state (tasks ?s ! q) = m_state (tasks s ! q) \<and> m_priority (tasks ?s ! q) = m_priority (tasks s ! q)
      \<and> m_manager (tasks ?s ! q) = m_manager (tasks s ! q)" for q
    using p f by (cases "q = p") (simp_all add: set_task_def)
  have "running_set ?s = running_set s" using t by (simp add: running_set_def is_running_def)
  moreover have "schedules ?s (running_set s)"
    using tm_invD(1) [OF inv] t unfolding schedules_def prio_def is_running_def by simp
  moreover have "live ?s q \<longleftrightarrow> live s q" for q using t by (simp add: live_def is_terminated_def)
  moreover have "m_priority u \<le> MAX_PRIORITY \<and> m_manager u" if u: "u \<in> set (tasks ?s)" for u
  proof -
    from u obtain q where "q < length (tasks s)" "u = tasks ?s ! q" by (metis in_set_conv_nth set_task_fields(3))
    then show ?thesis using t [of q] tm_invD(2,3) [OF inv] by simp
  qed
  moreover have "m_delta_queue ?s = m_delta_queue s" by (simp add: set_task_def)
  ultimately show ?thesis using tm_invD(4,5) [OF inv] by (simp add: tm_inv_def)
qed

lemma create_task_common_inv:
  assumes "tm_inv s" and "create_task_common s alloc k parent = ok (r, s')"
  shows "tm_inv s'"
proof (cases alloc)
  case False
  then show ?thesis using assms by (simp add: create_task_common_def)
next
  case True
  have "\<forall>q. parent = Some q \<longrightarrow> q < length (tasks s)"
    using assms(2) True by (auto simp: create_task_common_def task_at_def Let_def split: if_splits)
  from create_task_common_spec [OF assms(1) this, of k] obtain s'' where
    "create_task_common s True k parent = ok (Some (length (tasks s)), s'')" "tm_inv s''" by blast
  with assms(2) True show ?thesis by simp
qed

lemma kill_task_inv:
  assumes "tm_inv s" and "p \<notin> item_task ` set (m_delta_queue s)" and "kill_task (\<lambda>s _. ok s) d s (Some p) = ok s'"
  shows "tm_inv s'"
proof (cases d)
  case 0
  then show ?thesis using assms(3) by simp
next
  case (Suc n)
  show ?thesis
  proof (cases "p \<in> running_set s")
    case True
    then show ?thesis using kill_task_spec [OF assms(1) True assms(2), of "\<lambda>s _. ok s" n] assms(3) Suc by (metis sum.inject(2))
  next
    case False
    then have "s' = s"
      using assms(3) Suc by (auto simp: running_set_def task_at_def sched_remove_task_def split: if_splits)
    then show ?thesis using assms(1) by simp
  qed
qed

lemma sleep_task_inv:
  assumes "tm_inv s" and "live s p" and "sleep_task s (Some p) us = ok s'"
  shows "tm_inv s'"
proof (cases "p \<in> running_set s")
  case True
  then show ?thesis using sleep_task_spec [OF assms(1) True] assms(3) by (metis sum.inject(2))
next
  case False
  then have "s' = s"
    using assms(2,3) by (auto simp: running_set_def live_def sleep_task_def with_live_task_def task_at_def split: if_splits)
  then show ?thesis using assms(1) by simp
qed

lemma tm_step_inv: "tm_step s s' \<Longrightarrow> tm_inv s \<Longrightarrow> tm_inv s'"
proof (induction rule: tm_step.induct)
  case (create s alloc k parent r s')
  then show ?case using create_task_common_inv by blast
next
  case (wake s p s')
  then show ?case using wake_task_spec [of s p] by (metis sum.inject(2))
next
  case (pause s p s')
  then show ?case using pause_task_spec [of s p] by (metis sum.inject(2))
next
  case (sleep s p us s')
  then show ?case using sleep_task_inv by blast
next
  case (kill p s d s')
  then show ?case using kill_task_inv by blast
next
  case (priority s p n r s')
  from set_task_priority_spec [OF priority(3,1), of n] obtain s'' where
    "set_task_priority s (Some p) n = ok (n \<le> MAX_PRIORITY, s'')" "tm_inv s''" by blast
  with priority(2) show ?case by simp
next
  case (reschedule s s')
  then show ?case using tm_schedule_spec [of s] by (metis sum.inject(2))
next
  case (tick s s')
  then show ?case using tm_tick_spec [of s] by (metis sum.inject(2))
next
  case (no_preempt p s)
  then show ?case by (intro tm_inv_set_task) (simp_all add: disable_preempt_def)
next
  case (preempt p s t)
  then show ?case by (intro tm_inv_set_task) (auto simp: enable_preempt_def Let_def)
next
  case (mark_ready s)
  then show ?case by (simp add: tm_inv_def schedules_def running_set_def prio_def live_def)
qed

lemma tm_reachable_inv: "tm_reachable s \<Longrightarrow> tm_inv s"
  by (induction rule: tm_reachable.induct) (auto intro: tm_inv_init tm_step_inv)

subsection \<open>Sleeping\<close>

lemma sorted_deadlines: "sorted (map snd (deadlines q))"
  by (simp add: deadlines_def sorted_deadlines_from)

definition asleep :: "task_manager \<Rightarrow> tptr \<Rightarrow> nat \<Rightarrow> bool" where
  "asleep s p d \<longleftrightarrow> tm_inv s \<and> p < length (tasks s) \<and> m_state (tasks s ! p) = INTERRUPTIBLE
     \<and> filter (\<lambda>e. fst e = p) (deadlines (m_delta_queue s)) = [(p, d)]"

lemma asleep_tick:
  assumes "asleep s p (Suc (Suc d))"
  obtains s' where "tm_tick s = ok s'" and "asleep s' p (Suc d)"
proof -
  have inv: "tm_inv s" using assms by (simp add: asleep_def)
  obtain s1 s' where s': "tm_tick s = ok s'" "tm_inv s'" "woken (set (due (deadlines (m_delta_queue s)))) s s'"
    "deadlines (m_delta_queue s') = pending (deadlines (m_delta_queue s))" using tm_tick_spec [OF inv] by metis
  have "asleep s' p (Suc d)"
    using assms s'(2-4) tick_not_yet [of p "deadlines (m_delta_queue s)" d] by (auto simp: asleep_def woken_def)
  with s'(1) that show ?thesis by blast
qed

lemma asleep_last_tick:
  assumes "asleep s p 1"
  obtains s' where "tm_tick s = ok s'" and "tm_inv s'" and "is_running (tasks s' ! p)"
proof -
  have inv: "tm_inv s" using assms by (simp add: asleep_def)
  obtain s1 s' where s': "tm_tick s = ok s'" "tm_inv s'" "woken (set (due (deadlines (m_delta_queue s)))) s s'"
    using tm_tick_spec [OF inv] by metis
  have "p \<in> set (due (deadlines (m_delta_queue s)))"
    using assms unfolding asleep_def by (blast intro: due_now sorted_deadlines)
  with s'(3) assms have "is_running (tasks s' ! p)" by (auto simp: woken_def asleep_def is_running_def)
  with s'(1,2) that show ?thesis by blast
qed

lemma asleep_ticks:
  "asleep s p (Suc (k + d)) \<Longrightarrow> \<exists>s'. repeatE k tm_tick s = ok s' \<and> asleep s' p (Suc d)"
proof (induction k arbitrary: s)
  case (Suc k)
  then obtain s1 where "tm_tick s = ok s1" "asleep s1 p (Suc (k + d))" using asleep_tick [of s p "k + d"] by auto
  with Suc.IH [of s1] show ?case by auto
qed auto

lemma sleep_task_asleep:
  assumes inv: "tm_inv s" and p: "p \<in> running_set s" and new: "p \<notin> item_task ` set (m_delta_queue s)"
  obtains s' where "sleep_task s (Some p) us = ok s'" and "asleep s' p (unat (sleep_ticks us))"
proof -
  obtain s' where s': "sleep_task s (Some p) us = ok s'" "tm_inv s'" "others_same p s s'"
    "m_state (tasks s' ! p) = INTERRUPTIBLE"
    "deadlines (m_delta_queue s') = insert_deadline p (unat (sleep_ticks us)) (deadlines (m_delta_queue s))"
    using sleep_task_spec [OF inv p] by metis
  have "\<forall>e\<in>set (deadlines (m_delta_queue s)). fst e \<noteq> p" using new by (auto simp: deadlines_tasks)
  then have "asleep s' p (unat (sleep_ticks us))"
    using s' p filter_insert_own [of "deadlines (m_delta_queue s)" p] by (simp add: asleep_def running_set_def others_same_def)
  with s'(1) that show ?thesis by blast
qed

subsection \<open>Round robin\<close>

text \<open>
  The situation of a priority level at which the current task runs: nothing above it is ready, and
  nobody has disabled preemption.
\<close>

definition top_level :: "'z sched_scheme \<Rightarrow> tptr set \<Rightarrow> tptr \<Rightarrow> nat \<Rightarrow> tptr list \<Rightarrow> bool" where
  "top_level s R c i q \<longleftrightarrow> schedules s R \<and> m_current_task s = Some c \<and> prio s c = i \<and> m_run_queue s i = q
     \<and> (\<forall>p\<in>R. prio s p \<le> i \<and> can_preempt (tasks s ! p))"

lemma top_level_above:
  assumes "top_level s R c i q"
  shows "\<forall>j\<le>MAX_PRIORITY. i < j \<longrightarrow> m_run_queue s j = []"
proof (intro allI impI)
  fix j assume "j \<le> MAX_PRIORITY" "i < j"
  have "p \<notin> set (m_run_queue s j)" for p
    using assms schedulesD(6) [of s R p j] \<open>i < j\<close> by (auto simp: top_level_def)
  then show "m_run_queue s j = []" by (cases "m_run_queue s j") auto
qed

lemma top_level_same_but_ticks:
  assumes "top_level s R c i q" and "same_but_ticks s s'" and "schedules s' R" and "m_current_task s' = Some n"
    and "prio s n = i" and "n \<in> R" and "m_run_queue s' i = q'"
  shows "top_level s' R n i q'"
  using assms same_but_ticks_fields [OF assms(2)] schedulesD(1) [of s R]
  by (auto simp: top_level_def prio_def can_preempt_def)

lemma top_level_tick:
  assumes t: "top_level s R c i (n # ns)"
  obtains s' where "sched_tick s = ok s'"
    and "if slice_left s c then top_level s' R c i (n # ns) \<and> m_elapsed_ticks (tasks s' ! c) = m_elapsed_ticks (tasks s ! c) + 1
         else top_level s' R n i (ns @ [c]) \<and> m_elapsed_ticks (tasks s' ! n) = 0"
proof -
  have s: "schedules s R" "m_current_task s = Some c" "prio s c = i" "m_run_queue s i = n # ns" "can_preempt (tasks s ! c)"
    using t schedulesD(4) [of s R] by (auto simp: top_level_def)
  note above = top_level_above [OF t]
  obtain s' where s': "sched_tick s = ok s'" "schedules s' R" "same_but_ticks s s'" "tick_outcome s c s'"
    by (rule sched_tick_busy [OF s(1,2)])
  have i: "i \<le> MAX_PRIORITY" using schedulesD(3,4) [OF s(1)] s(2,3) by blast
  then have ne: "\<not> (\<forall>j\<le>MAX_PRIORITY. i \<le> j \<longrightarrow> m_run_queue s j = [])" using s(4) by (metis le_refl list.distinct(1))
  show ?thesis
  proof (cases "slice_left s c")
    case True
    then have "m_current_task s' = Some c" "m_run_queue s' = m_run_queue s" "m_elapsed_ticks (tasks s' ! c) = m_elapsed_ticks (tasks s ! c) + 1"
      using s'(4) above s(3) by (simp_all add: tick_outcome_def)
    moreover have "c \<in> R" using schedulesD(4) [OF s(1)] s(2) by blast
    ultimately show ?thesis using that [OF s'(1)] True top_level_same_but_ticks [OF t s'(3,2)] s(3,4) by simp
  next
    case False
    then obtain j m ms where j: "i \<le> j" "j \<le> MAX_PRIORITY" "m_run_queue s j = m # ms" "m_current_task s' = Some m"
        "m_elapsed_ticks (tasks s' ! m) = 0" "m_run_queue s' = ((m_run_queue s)(j := ms))(i := ((m_run_queue s)(j := ms)) i @ [c])"
      using s'(4) s(3,5) ne unfolding tick_outcome_def by auto
    then have "j = i" using above by (metis le_neq_implies_less list.distinct(1))
    then have m: "m = n" "ms = ns" using j(3) s(4) by simp_all
    have "n \<in> R" "prio s n = i" using schedules_queue_cases [OF s(1,4)] by simp_all
    then show ?thesis
      using that [OF s'(1)] False top_level_same_but_ticks [OF t s'(3,2)] j(4-6) \<open>j = i\<close> m by simp
  qed
qed

lemma slice_left_next:
  assumes "slice_left s c"
  shows "unat (m_elapsed_ticks (tasks s ! c) + 1) \<le> 9"
proof -
  have "m_elapsed_ticks (tasks s ! c) + 1 < 10"
    using assms by (auto simp: slice_left_def get_time_slice_for_priority_def not_le split: if_splits)
  then show ?thesis by (simp add: word_less_nat_alt)
qed

lemma slice_runs_out:
  assumes "top_level s R c i (n # ns)" and "unat (m_elapsed_ticks (tasks s ! c)) \<le> 9"
  shows "\<exists>k\<le>10 - unat (m_elapsed_ticks (tasks s ! c)). \<exists>s'. repeatE k sched_tick s = ok s'
    \<and> top_level s' R n i (ns @ [c]) \<and> m_elapsed_ticks (tasks s' ! n) = 0"
  using assms
proof (induction "10 - unat (m_elapsed_ticks (tasks s ! c))" arbitrary: s rule: less_induct)
  case less
  let ?e = "unat (m_elapsed_ticks (tasks s ! c))"
  obtain s1 where s1: "sched_tick s = ok s1" "if slice_left s c then top_level s1 R c i (n # ns) \<and> m_elapsed_ticks (tasks s1 ! c) = m_elapsed_ticks (tasks s ! c) + 1
         else top_level s1 R n i (ns @ [c]) \<and> m_elapsed_ticks (tasks s1 ! n) = 0"
    using top_level_tick [OF less.prems(1)] by blast
  show ?case
  proof (cases "slice_left s c")
    case False
    then have "repeatE 1 sched_tick s = ok s1" using s1(1) by simp
    then show ?thesis using s1(2) False less.prems(2) by (intro exI [of _ 1]) auto
  next
    case True
    have e1: "unat (m_elapsed_ticks (tasks s1 ! c)) = Suc ?e"
      using s1(2) True less.prems(2) unat_add_no_wrap [of "m_elapsed_ticks (tasks s ! c)" 1] by simp
    have le: "Suc ?e \<le> 9" using slice_left_next [OF True] s1(2) True e1 by simp
    then have lt: "10 - unat (m_elapsed_ticks (tasks s1 ! c)) < 10 - ?e" using e1 by simp
    have top: "top_level s1 R c i (n # ns)" using s1(2) True by simp
    from less.hyps [OF lt top] e1 le obtain k s' where "k \<le> 10 - Suc ?e" "repeatE k sched_tick s1 = ok s'"
        "top_level s' R n i (ns @ [c])" "m_elapsed_ticks (tasks s' ! n) = 0" by auto
    then show ?thesis using s1(1) le by (intro exI [of _ "Suc k"]) auto
  qed
qed

lemma fresh_turn:
  assumes "top_level s R c i (xs @ p # ys)" and "m_elapsed_ticks (tasks s ! c) = 0"
  shows "\<exists>k\<le>10 * Suc (length xs). \<exists>s'. repeatE k sched_tick s = ok s' \<and> m_current_task s' = Some p"
  using assms
proof (induction xs arbitrary: s c ys)
  case Nil
  then obtain k s' where "k \<le> 10" "repeatE k sched_tick s = ok s'" "top_level s' R p i (ys @ [c])"
    using slice_runs_out [of s R c i p ys] by auto
  then show ?case by (intro exI [of _ k]) (simp add: top_level_def)
next
  case (Cons x xs)
  then obtain k s1 where k: "k \<le> 10" "repeatE k sched_tick s = ok s1" "top_level s1 R x i ((xs @ p # ys) @ [c])"
      "m_elapsed_ticks (tasks s1 ! x) = 0"
    using slice_runs_out [of s R c i x "xs @ p # ys"] by auto
  then obtain l s' where "l \<le> 10 * Suc (length xs)" "repeatE l sched_tick s1 = ok s'" "m_current_task s' = Some p"
    using Cons.IH [of s1 x "ys @ [c]"] by auto
  with k show ?case by (intro exI [of _ "k + l"]) (auto simp: repeatE_add)
qed

lemma any_turn:
  assumes "top_level s R c i (xs @ p # ys)"
  shows "\<exists>k\<le>10 * Suc (length xs) + 1. \<exists>s'. repeatE k sched_tick s = ok s' \<and> m_current_task s' = Some p"
proof -
  obtain n ns where n: "xs @ p # ys = n # ns" by (cases xs) auto
  obtain s1 where s1: "sched_tick s = ok s1" "if slice_left s c then top_level s1 R c i (n # ns) \<and> m_elapsed_ticks (tasks s1 ! c) = m_elapsed_ticks (tasks s ! c) + 1
         else top_level s1 R n i (ns @ [c]) \<and> m_elapsed_ticks (tasks s1 ! n) = 0"
    using top_level_tick [of s R c i n ns] assms n by auto
  have reach: "\<exists>k\<le>10 * Suc (length xs) + 1. \<exists>s'. repeatE k sched_tick s = ok s' \<and> m_current_task s' = Some p"
    if m: "m \<le> 11" "repeatE m sched_tick s = ok s2" "top_level s2 R n i (ns @ [c])" "m_elapsed_ticks (tasks s2 ! n) = 0" for m s2
  proof (cases xs)
    case Nil
    then show ?thesis using m n by (intro exI [of _ m]) (simp add: top_level_def)
  next
    case (Cons x xs')
    then have "ns @ [c] = xs' @ p # (ys @ [c])" using n by simp
    then obtain l s' where "l \<le> 10 * Suc (length xs')" "repeatE l sched_tick s2 = ok s'" "m_current_task s' = Some p"
      using fresh_turn [of s2 R n i xs' p "ys @ [c]"] m(3,4) by auto
    then show ?thesis using m(1,2) Cons by (intro exI [of _ "m + l"]) (auto simp: repeatE_add)
  qed
  show ?thesis
  proof (cases "slice_left s c")
    case False
    then show ?thesis using s1 by (intro reach [of 1 s1]) auto
  next
    case True
    then obtain k s2 where "k \<le> 10" "repeatE k sched_tick s1 = ok s2" "top_level s2 R n i (ns @ [c])" "m_elapsed_ticks (tasks s2 ! n) = 0"
      using slice_runs_out [of s1 R c i n ns] s1(2) slice_left_next [OF True] by (auto dest: le_trans [OF _ diff_le_self])
    then show ?thesis using s1(1) by (intro reach [of "Suc k" s2]) auto
  qed
qed

lemma tm_tick_no_sleepers: "m_delta_queue s = [] \<Longrightarrow> tm_tick s = sched_tick s"
  by (cases s) (simp add: tm_tick_def dq_tick_def)

lemma tm_ticks_no_sleepers:
  "schedules s R \<Longrightarrow> m_delta_queue s = [] \<Longrightarrow> repeatE k tm_tick s = repeatE k sched_tick s"
proof (induction k arbitrary: s)
  case (Suc k)
  obtain s' where "sched_tick s = ok s'" "schedules s' R" "same_but_ticks s s'" by (rule sched_tick_spec [OF Suc.prems(1)])
  with Suc.IH [of s'] Suc.prems(2) tm_tick_no_sleepers [of s] same_but_ticks_delta [of s s'] show ?case by simp
qed simp

subsection \<open>Properties\<close>

text \<open>A reachable state with two running tasks, one of them current: the state after two creations, two wake-ups and a reschedule.\<close>

definition example_task :: "u32 \<Rightarrow> task_state \<Rightarrow> task" where
  "example_task pid st = (make_task pid)\<lparr>m_manager := True, m_priority := DEFAULT_PRIORITY, m_state := st\<rparr>"

definition example_tm :: task_manager where
  "example_tm = \<lparr>tasks = [example_task 0 RUNNING, example_task 1 RUNNING], m_current_task = Some 0,
     m_run_queue = (\<lambda>_. [])(DEFAULT_PRIORITY := [1]), m_next_available_pid = 2, m_delta_queue = [], m_ready = False\<rparr>"

lemma example_reachable: "tm_reachable example_tm"
proof -
  let ?s1 = "tm_init\<lparr>tasks := [example_task 0 INTERRUPTIBLE], m_next_available_pid := 1\<rparr>"
  let ?s2 = "tm_init\<lparr>tasks := [example_task 0 INTERRUPTIBLE, example_task 1 INTERRUPTIBLE], m_next_available_pid := 2\<rparr>"
  let ?s3 = "?s2\<lparr>tasks := [example_task 0 RUNNING, example_task 1 INTERRUPTIBLE], m_run_queue := (\<lambda>_. [])(DEFAULT_PRIORITY := [0])\<rparr>"
  let ?s4 = "?s2\<lparr>tasks := [example_task 0 RUNNING, example_task 1 RUNNING], m_run_queue := (\<lambda>_. [])(DEFAULT_PRIORITY := [0, 1])\<rparr>"
  note defs = tm_init_def example_task_def make_task_def create_task_common_def wake_task_def with_live_task_def task_at_def
    set_task_def set_state_def sched_add_task_def rq_push_back_def is_running_def is_terminated_def live_def
    DEFAULT_PRIORITY_def MAX_PRIORITY_def MIN_PRIORITY_def Let_def
  have 1: "tm_step tm_init ?s1" by (rule tm_step.create [of _ True False None "Some 0"]) (simp add: defs)
  have 2: "tm_step ?s1 ?s2" by (rule tm_step.create [of _ True False None "Some 1"]) (simp add: defs)
  have 3: "tm_step ?s2 ?s3" by (rule tm_step.wake [of _ 0]) (simp_all add: defs)
  have 4: "tm_step ?s3 ?s4" by (rule tm_step.wake [of _ 1]) (simp_all add: defs fun_upd_idem)
  have 5: "tm_step ?s4 example_tm"
  proof (rule tm_step.reschedule)
    have "schedule_loop ((\<lambda>_. [])(15 := [0, 1])) 31 = (Some 0, (\<lambda>_. [])(15 := [1]))"
      by (simp add: schedule_loop_step)
    then show "schedule ?s4 = ok example_tm"
      by (simp add: defs schedule_def switch_to_def example_tm_def)
  qed
  show ?thesis
    by (rule tm_reachable.step [OF tm_reachable.step [OF tm_reachable.step [OF tm_reachable.step [OF tm_reachable.step [OF tm_reachable.start 1] 2] 3] 4] 5])
qed

text \<open>
  C7. In every state the task manager can reach by creating, waking, pausing, putting to sleep, killing
  and re-prioritising tasks, by rescheduling and by timer ticks in any order, the tasks in state
  \<^verbatim>\<open>RUNNING\<close> are exactly the tasks of the scheduler: the current task is one of them, each of the
  others is exactly once in the run queue of its own priority, and no other task is in any queue.
\<close>

theorem scheduler_holds_running_tasks:
  assumes "tm_reachable s"
  shows "(\<forall>p i. count_list (m_run_queue s i) p =
            (if p < length (tasks s) \<and> is_running (tasks s ! p) \<and> m_priority (tasks s ! p) = i \<and> m_current_task s \<noteq> Some p
             then 1 else 0))
       \<and> (\<forall>c. m_current_task s = Some c \<longrightarrow> c < length (tasks s) \<and> is_running (tasks s ! c))"
proof -
  note d = schedulesD [OF tm_invD(1) [OF tm_reachable_inv [OF assms]]]
  have "count_list (m_run_queue s i) p = (if p \<in> set (m_run_queue s i) then 1 else 0)" for p i
    using d(5) [of i] by (simp add: count_list_distinct)
  then show ?thesis using d(4) by (auto simp: d(6) running_set_def prio_def)
qed

theorem scheduler_holds_running_tasks_witness:
  "tm_reachable example_tm \<and> count_list (m_run_queue example_tm 15) 1 = 1 \<and> is_running (tasks example_tm ! 0)"
  using scheduler_holds_running_tasks [OF example_reachable] example_reachable
  by (auto simp: example_tm_def example_task_def make_task_def is_running_def DEFAULT_PRIORITY_def MAX_PRIORITY_def MIN_PRIORITY_def)

text \<open>
  C11. A running task that is put to sleep stays asleep through the ticks before the last one of the
  computed number, and the last one makes it runnable again. This is for a task that has no item in the
  sleepers' queue from an earlier sleep that was cut short: \<^verbatim>\<open>wake_task\<close> leaves the item of the task it
  wakes in the queue, and such an item ends the next sleep of the task when its own time has come.
\<close>

theorem sleep_ends_after_its_ticks:
  assumes "tm_reachable s" and "p < length (tasks s)" and "is_running (tasks s ! p)"
    and "p \<notin> item_task ` set (m_delta_queue s)"
  shows "\<exists>s1. sleep_task s (Some p) us = ok s1
    \<and> (\<forall>k. k < unat (sleep_ticks us) \<longrightarrow> (\<exists>s2. repeatE k tm_tick s1 = ok s2 \<and> m_state (tasks s2 ! p) = INTERRUPTIBLE))
    \<and> (\<exists>s3. repeatE (unat (sleep_ticks us)) tm_tick s1 = ok s3 \<and> is_running (tasks s3 ! p))"
proof -
  let ?n = "unat (sleep_ticks us)"
  have p: "p \<in> running_set s" using assms(2,3) by (simp add: running_set_def)
  obtain s1 where s1: "sleep_task s (Some p) us = ok s1" "asleep s1 p ?n"
    by (rule sleep_task_asleep [OF tm_reachable_inv [OF assms(1)] p assms(4)])
  have pos: "0 < ?n" using sleep_ticks_nonzero [of us] by (simp add: unat_gt_0)
  have during: "\<exists>s2. repeatE k tm_tick s1 = ok s2 \<and> asleep s2 p (?n - k)" if "k < ?n" for k
    using asleep_ticks [of s1 p k "?n - Suc k"] s1(2) that by (simp add: Suc_diff_Suc)
  obtain s2 where s2: "repeatE (?n - 1) tm_tick s1 = ok s2" "asleep s2 p 1" using during [of "?n - 1"] pos by auto
  obtain s3 where s3: "tm_tick s2 = ok s3" "is_running (tasks s3 ! p)" by (rule asleep_last_tick [OF s2(2)])
  have "repeatE (?n - 1 + 1) tm_tick s1 = ok s3" unfolding repeatE_add s2(1) using s3(1) by simp
  then have "repeatE ?n tm_tick s1 = ok s3" using pos by simp
  moreover have "\<exists>s2. repeatE k tm_tick s1 = ok s2 \<and> m_state (tasks s2 ! p) = INTERRUPTIBLE" if "k < ?n" for k
    using during [OF that] by (auto simp: asleep_def)
  ultimately show ?thesis using s1(1) s3(2) by blast
qed

theorem sleep_ends_after_its_ticks_witness:
  "tm_reachable example_tm \<and> (\<exists>s1. sleep_task example_tm (Some 0) 25000 = ok s1
     \<and> (\<exists>s2. repeatE 2 tm_tick s1 = ok s2 \<and> m_state (tasks s2 ! 0) = INTERRUPTIBLE)
     \<and> (\<exists>s3. repeatE 3 tm_tick s1 = ok s3 \<and> is_running (tasks s3 ! 0)))"
proof -
  have n: "unat (sleep_ticks 25000) = 3" by (simp add: sleep_ticks_def div_round_up_def TICK_TIME_def)
  have "0 < length (tasks example_tm)" "is_running (tasks example_tm ! 0)" "0 \<notin> item_task ` set (m_delta_queue example_tm)"
    by (simp_all add: example_tm_def example_task_def make_task_def is_running_def)
  from sleep_ends_after_its_ticks [OF example_reachable this, of 25000] show ?thesis
    using example_reachable unfolding n by (metis lessI numeral_2_eq_2 numeral_3_eq_3)
qed

text \<open>
  The number of ticks of a sleep is the duration divided by the 10 ms period, rounded up, and at
  least one, as long as the rounding does not leave 64 bits; from there on the sum wraps and the
  task sleeps for a single tick.
\<close>

lemma sleep_ticks_value:
  "unat (sleep_ticks us) = (if unat us + 9999 < 2 ^ 64 then max 1 ((unat us + 9999) div 10000) else 1)"
proof -
  let ?n = "(us + 9999) div 10000"
  have eq: "sleep_ticks us = max 1 ?n" by (simp add: sleep_ticks_def div_round_up_def TICK_TIME_def add.commute)
  have d: "unat ?n = unat (us + 9999) div 10000" by (simp add: unat_div)
  have m: "unat (max 1 ?n) = max 1 (unat ?n)" by (simp add: max_def word_le_nat_alt)
  show ?thesis
  proof (cases "unat us + 9999 < 2 ^ 64")
    case True
    then have "unat (us + 9999) = unat us + 9999" using unat_add_no_wrap [of us 9999] by simp
    with True show ?thesis by (simp add: eq d m)
  next
    case False
    have "unat (us + 9999) = (unat us + 9999) mod 2 ^ 64" by (simp add: unat_word_ariths)
    moreover have "unat us < 2 ^ 64" using unsigned_less [of us] by simp
    ultimately have "unat (us + 9999) = unat us + 9999 - 2 ^ 64" using False by (simp add: mod_if)
    then have "unat ?n = 0" using d \<open>unat us < 2 ^ 64\<close> False by simp
    with False show ?thesis by (simp add: eq m)
  qed
qed

text \<open>
  C10. After a timer tick that finds a preemptible task on the processor, the task on the processor has
  the highest priority of all running tasks, those the tick has just woken included; in particular
  a tick never hands the processor to a task of a lower priority. The comment in \<^verbatim>\<open>Scheduler::tick\<close>
  (\<^verbatim>\<open>scheduler.cpp\<close>, lines 108 and 109) says that it falls back to lower priorities when a level has no
  more tasks; the loop does not, because it looks at the current level in every round.
\<close>

theorem tick_runs_highest_priority:
  assumes "tm_reachable s" and "m_current_task s = Some c" and "can_preempt (tasks s ! c)"
  shows "\<exists>s' n. tm_tick s = ok s' \<and> m_current_task s' = Some n
    \<and> (\<forall>q<length (tasks s'). is_running (tasks s' ! q) \<longrightarrow> m_priority (tasks s' ! q) \<le> m_priority (tasks s' ! n))"
proof -
  note inv = tm_reachable_inv [OF assms(1)]
  obtain s1 s' where s': "tm_tick s = ok s'" "sched_tick s1 = ok s'" "tm_inv s1" "m_current_task s1 = m_current_task s"
    "same_but_ticks s1 s'" "woken (set (due (deadlines (m_delta_queue s)))) s s1"
    using tm_tick_spec [OF inv] by metis
  note sch = tm_invD(1) [OF s'(3)]
  have c: "m_current_task s1 = Some c" using s'(4) assms(2) by simp
  have "c < length (tasks s)" using schedulesD(1,4) [OF tm_invD(1) [OF inv]] assms(2) by blast
  then have pre: "can_preempt (tasks s1 ! c)" using s'(6) assms(3) by (simp add: woken_def can_preempt_def)
  have "tick_outcome s1 c s'" using sched_tick_busy [OF sch c] s'(2) by (metis sum.inject(2))
  from tick_outcome_highest [OF sch c pre this] obtain n where
    n: "m_current_task s' = Some n" "n \<in> running_set s1" "\<forall>q\<in>running_set s1. prio s1 q \<le> prio s1 n" by blast
  have "m_priority (tasks s' ! q) \<le> m_priority (tasks s' ! n)" if "q < length (tasks s')" "is_running (tasks s' ! q)" for q
    using that n(2,3) same_but_ticks_fields [OF s'(5)] same_but_ticks_length [OF s'(5)]
    by (simp add: running_set_def prio_def is_running_def)
  with s'(1) n(1) show ?thesis by blast
qed

theorem tick_runs_highest_priority_witness:
  "tm_reachable example_tm \<and> (\<exists>s' n. tm_tick example_tm = ok s' \<and> m_current_task s' = Some n
    \<and> (\<forall>q<length (tasks s'). is_running (tasks s' ! q) \<longrightarrow> m_priority (tasks s' ! q) \<le> m_priority (tasks s' ! n)))"
  using tick_runs_highest_priority [OF example_reachable, of 0] example_reachable
  by (simp add: example_tm_def example_task_def make_task_def can_preempt_def)

text \<open>
  On an idle processor a tick looks for tasks of a priority above zero only. If there are such
  tasks, one of the highest priority gets the processor; if all runnable tasks have priority zero,
  the processor stays idle, although they are ready to run.
\<close>

lemma idle_tick_ignores_priority_zero:
  assumes "tm_reachable s" and "m_current_task s = None" and "m_delta_queue s = []"
  shows "\<exists>s'. tm_tick s = ok s' \<and>
    (if \<exists>q<length (tasks s). is_running (tasks s ! q) \<and> 0 < m_priority (tasks s ! q)
     then \<exists>n. m_current_task s' = Some n \<and> (\<forall>q<length (tasks s). is_running (tasks s ! q) \<longrightarrow> m_priority (tasks s ! q) \<le> m_priority (tasks s ! n))
     else m_current_task s' = None)"
proof -
  note sch = tm_invD(1) [OF tm_reachable_inv [OF assms(1)]]
  have t: "tm_tick s = sched_tick s" by (rule tm_tick_no_sleepers [OF assms(3)])
  obtain s' where s': "sched_tick s = ok s'" "(\<forall>q\<in>running_set s. prio s q = 0) \<Longrightarrow> s' = s"
    "\<And>q. q \<in> running_set s \<Longrightarrow> 0 < prio s q \<Longrightarrow> \<exists>n. m_current_task s' = Some n \<and> prio s q \<le> prio s n"
    using sched_tick_idle [OF sch assms(2)] by blast
  show ?thesis
  proof (cases "\<exists>q<length (tasks s). is_running (tasks s ! q) \<and> 0 < m_priority (tasks s ! q)")
    case True
    then obtain q where "q \<in> running_set s" "0 < prio s q" by (auto simp: running_set_def prio_def)
    from s'(3) [OF this] obtain n where n: "m_current_task s' = Some n" by blast
    have "m_priority (tasks s ! r) \<le> m_priority (tasks s ! n)" if "r < length (tasks s)" "is_running (tasks s ! r)" for r
      using s'(3) [of r] n that by (cases "prio s r = 0") (auto simp: running_set_def prio_def)
    then show ?thesis using True t s'(1) n by auto
  next
    case False
    then have "s' = s" by (intro s'(2)) (auto simp: running_set_def prio_def)
    then show ?thesis using False t s'(1) assms(2) by auto
  qed
qed

definition idle_tm :: task_manager where
  "idle_tm = \<lparr>tasks = [(example_task 0 RUNNING)\<lparr>m_priority := 0\<rparr>], m_current_task = None,
     m_run_queue = (\<lambda>_. [])(0 := [0]), m_next_available_pid = 1, m_delta_queue = [], m_ready = False\<rparr>"

lemma idle_reachable: "tm_reachable idle_tm"
proof -
  let ?s1 = "tm_init\<lparr>tasks := [example_task 0 INTERRUPTIBLE], m_next_available_pid := 1\<rparr>"
  let ?s2 = "tm_init\<lparr>tasks := [(example_task 0 INTERRUPTIBLE)\<lparr>m_priority := 0\<rparr>], m_next_available_pid := 1\<rparr>"
  note defs = tm_init_def example_task_def make_task_def create_task_common_def wake_task_def with_live_task_def task_at_def
    set_task_def set_state_def sched_add_task_def rq_push_back_def is_running_def is_terminated_def live_def
    DEFAULT_PRIORITY_def MAX_PRIORITY_def MIN_PRIORITY_def Let_def set_task_priority_def update_task_priority_def idle_tm_def
  have 1: "tm_step tm_init ?s1" by (rule tm_step.create [of _ True False None "Some 0"]) (simp add: defs)
  have 2: "tm_step ?s1 ?s2" by (rule tm_step.priority [of _ 0 0 True]) (simp_all add: defs)
  have 3: "tm_step ?s2 idle_tm" by (rule tm_step.wake [of _ 0]) (simp_all add: defs)
  show ?thesis by (rule tm_reachable.step [OF tm_reachable.step [OF tm_reachable.step [OF tm_reachable.start 1] 2] 3])
qed

text \<open>
  C9. Round robin is fair: with no task asleep (an empty delta queue), no runnable task of a higher
  priority than the current one, and every runnable task preemptible, the task at position \<open>k\<close> (from 0)
  of the current task's run queue gets the processor after at most \<open>10 (k + 1) + 1\<close> ticks.
\<close>

theorem round_robin_is_fair:
  assumes "tm_reachable s" and "m_delta_queue s = []" and "m_current_task s = Some c"
    and "m_run_queue s (m_priority (tasks s ! c)) = xs @ p # ys"
    and "\<forall>q<length (tasks s). is_running (tasks s ! q) \<longrightarrow> m_priority (tasks s ! q) \<le> m_priority (tasks s ! c) \<and> can_preempt (tasks s ! q)"
  shows "\<exists>k\<le>10 * (length xs + 1) + 1. \<exists>s'. repeatE k tm_tick s = ok s' \<and> m_current_task s' = Some p"
proof -
  note sch = tm_invD(1) [OF tm_reachable_inv [OF assms(1)]]
  have "top_level s (running_set s) c (m_priority (tasks s ! c)) (xs @ p # ys)"
    using assms(3-5) sch by (simp add: top_level_def prio_def running_set_def)
  from any_turn [OF this] obtain k s' where "k \<le> 10 * Suc (length xs) + 1" "repeatE k sched_tick s = ok s'" "m_current_task s' = Some p" by blast
  moreover from this(2) have "repeatE k tm_tick s = ok s'" using tm_ticks_no_sleepers [OF sch assms(2)] by simp
  ultimately show ?thesis by auto
qed

theorem round_robin_is_fair_witness:
  "tm_reachable example_tm \<and> (\<exists>k\<le>11. \<exists>s'. repeatE k tm_tick example_tm = ok s' \<and> m_current_task s' = Some 1)"
  using round_robin_is_fair [OF example_reachable, of 0 "[]" 1 "[]"] example_reachable
  by (simp add: example_tm_def example_task_def make_task_def can_preempt_def nth_Cons' split: if_splits)

text \<open>
  Killing a running task that owns no resources takes it off the scheduler and marks it as
  terminated; every other task, the children of the killed one included, keeps its state. Killing a
  task that is paused or asleep panics.
\<close>

lemma kill_affects_one_task:
  assumes "tm_reachable s" and "live s p" and "p \<notin> item_task ` set (m_delta_queue s)"
  shows "if is_running (tasks s ! p)
     then \<exists>s'. kill_task (\<lambda>s _. ok s) (Suc d) s (Some p) = ok s' \<and> is_terminated (tasks s' ! p)
       \<and> m_current_task s' \<noteq> Some p \<and> (\<forall>i. p \<notin> set (m_run_queue s' i))
       \<and> (\<forall>c<length (tasks s). c \<noteq> p \<longrightarrow> m_state (tasks s' ! c) = m_state (tasks s ! c))
     else kill_task (\<lambda>s _. ok s) (Suc d) s (Some p) = Inl Panic"
proof (cases "is_running (tasks s ! p)")
  case True
  note inv = tm_reachable_inv [OF assms(1)]
  have p: "p \<in> running_set s" using True assms(2) by (simp add: running_set_def live_def)
  from kill_task_spec [OF inv p assms(3), of "\<lambda>s _. ok s" d] obtain s' where s': "kill_task (\<lambda>s _. ok s) (Suc d) s (Some p) = ok s'"
    "tm_inv s'" "others_same p s s'" "m_state (tasks s' ! p) = TERMINATED" by metis
  then have "p \<notin> running_set s'" by (simp add: running_set_def is_running_def)
  then have "m_current_task s' \<noteq> Some p \<and> (\<forall>i. p \<notin> set (m_run_queue s' i))"
    using schedulesD(4,6) [OF tm_invD(1) [OF s'(2)]] by blast
  moreover have "is_terminated (tasks s' ! p)" "\<forall>c<length (tasks s). c \<noteq> p \<longrightarrow> m_state (tasks s' ! c) = m_state (tasks s ! c)"
    using s'(3,4) by (simp_all add: is_terminated_def others_same_def)
  ultimately show ?thesis using True s'(1) unfolding if_P [OF True] by blast
next
  case False
  have "m_manager (tasks s ! p)" using tm_invD(3) [OF tm_reachable_inv [OF assms(1)]] assms(2) by (simp add: live_def)
  moreover have "m_state (tasks s ! p) \<in> {INTERRUPTIBLE, UNINTERRUPTIBLE}"
    using assms(2) False by (cases "m_state (tasks s ! p)") (auto simp: live_def is_terminated_def is_running_def)
  ultimately have "kill_task (\<lambda>s _. ok s) (Suc d) s (Some p) = Inl Panic"
    using assms(2) by (intro kill_task_not_running) (auto simp: live_def)
  then show ?thesis using False by simp
qed



end
