(* ===== verification/Wait_List.thy ===== *)
theory Wait_List
  imports Task_Manager
begin

text \<open>
  Lists of tasks that wait for an event, \<^verbatim>\<open>kernel/task/wait_list.cpp\<close>. A wait list is a list of task
  pointers; its operations pause and wake tasks through the task manager, whose state they
  take and return.

  \<^verbatim>\<open>wake_all\<close> makes every waiting task that is alive runnable and empties the list. The loop of
  \<^verbatim>\<open>wake_one\<close> runs while the popped task is \<^emph>\<open>not\<close> terminated, so it either discards all waiting tasks
  or reaches a terminated one and trips the assertion of \<^verbatim>\<open>wake_task\<close>.
\<close>

subsection \<open>Model\<close>

definition wl_add :: "task_manager \<Rightarrow> tptr list \<Rightarrow> tptr option \<Rightarrow> (tptr list \<times> task_manager) outcome" where
  "wl_add s wl task =
     (case task of None \<Rightarrow> Inl Panic
      | Some p \<Rightarrow> bindE (task_at s p) (\<lambda>t.
          if is_terminated t then ok (wl, s)
          else bindE (pause_task s task) (\<lambda>s. ok (wl @ [p], s))))"

fun wl_wake_one :: "task_manager \<Rightarrow> tptr list \<Rightarrow> (tptr list \<times> task_manager) outcome" where
  "wl_wake_one s [] = ok ([], s)"
| "wl_wake_one s (p # wl) =
     bindE (task_at s p) (\<lambda>t.
       if \<not> is_terminated t then wl_wake_one s wl
       else bindE (wake_task s (Some p)) (\<lambda>s. ok (wl, s)))"

fun wake_each :: "task_manager \<Rightarrow> tptr list \<Rightarrow> task_manager outcome" where
  "wake_each s [] = ok s"
| "wake_each s (p # wl) =
     bindE (task_at s p) (\<lambda>t.
       if is_terminated t then wake_each s wl
       else bindE (wake_task s (Some p)) (\<lambda>s. wake_each s wl))"

definition wl_wake_all :: "task_manager \<Rightarrow> tptr list \<Rightarrow> (tptr list \<times> task_manager) outcome" where
  "wl_wake_all s wl = bindE (wake_each s wl) (\<lambda>s. ok ([], s))"

subsection \<open>Lemmas\<close>

definition waiters_ok :: "task_manager \<Rightarrow> tptr list \<Rightarrow> bool" where
  "waiters_ok s wl \<longleftrightarrow> tm_inv s \<and> (\<forall>p\<in>set wl. p < length (tasks s))"

text \<open>What waking does to the task states: the live tasks of \<open>W\<close> run, all others are as before.\<close>

definition live_woken :: "tptr set \<Rightarrow> task_manager \<Rightarrow> task_manager \<Rightarrow> bool" where
  "live_woken W s s' \<longleftrightarrow> woken {p \<in> W. live s p} s s'"

lemma wake_each_spec:
  assumes "waiters_ok s wl"
  obtains s' where "wake_each s wl = ok s'" and "tm_inv s'" and "live_woken (set wl) s s'" and "m_current_task s' = m_current_task s"
  using assms
proof (induction wl arbitrary: s thesis)
  case Nil
  then show ?case by (simp add: waiters_ok_def live_woken_def woken_def)
next
  case (Cons p wl)
  have p: "p < length (tasks s)" "tm_inv s" "waiters_ok s wl" using Cons.prems(2) by (auto simp: waiters_ok_def)
  show ?case
  proof (cases "is_terminated (tasks s ! p)")
    case True
    obtain s' where s': "wake_each s wl = ok s'" "tm_inv s'" "live_woken (set wl) s s'" "m_current_task s' = m_current_task s"
      by (rule Cons.IH [OF _ p(3)])
    moreover have "{q \<in> set (p # wl). live s q} = {q \<in> set wl. live s q}" using True by (auto simp: live_def)
    ultimately show ?thesis using Cons.prems(1) [of s'] True p(1) by (simp add: live_woken_def task_at_def)
  next
    case False
    then have live: "live s p" using p(1) by (simp add: live_def)
    obtain s1 where s1: "wake_task s (Some p) = ok s1" "tm_inv s1" "others_same p s s1" "m_state (tasks s1 ! p) = RUNNING"
      "m_current_task s1 = m_current_task s" using wake_task_spec [OF p(2) live] by metis
    have "waiters_ok s1 wl" using p(3) s1(2,3) by (simp add: waiters_ok_def others_same_def)
    from Cons.IH [OF _ this] obtain s' where s': "wake_each s1 wl = ok s'" "tm_inv s'" "live_woken (set wl) s1 s'"
      "m_current_task s' = m_current_task s1" by metis
    have "live s1 q \<longleftrightarrow> live s q" for q
      using s1(3,4) live by (cases "q = p") (auto simp: live_def others_same_def is_terminated_def)
    then have "live_woken (set (p # wl)) s s'"
      using s1(3,4) s'(3) live unfolding live_woken_def woken_def others_same_def by auto
    then show ?thesis using Cons.prems(1) [of s'] False p(1) s1(1,5) s'(1,2,4) by (simp add: task_at_def)
  qed
qed

lemma wl_wake_all_spec:
  assumes "waiters_ok s wl"
  obtains s' where "wl_wake_all s wl = ok ([], s')" and "tm_inv s'" and "live_woken (set wl) s s'"
  using wake_each_spec [OF assms] by (auto simp: wl_wake_all_def)

lemma wl_add_spec:
  assumes inv: "waiters_ok s wl" and p: "live s p"
  obtains s' where "wl_add s wl (Some p) = ok (wl @ [p], s')" and "waiters_ok s' (wl @ [p])"
    and "\<not> is_running (tasks s' ! p)" and "live s' p" and "others_same p s s'"
proof -
  have tm: "tm_inv s" using inv by (simp add: waiters_ok_def)
  obtain s' where s': "pause_task s (Some p) = ok s'" "tm_inv s'" "others_same p s s'"
    "m_state (tasks s' ! p) = (if is_running (tasks s ! p) then UNINTERRUPTIBLE else m_state (tasks s ! p))"
    using pause_task_spec [OF tm p] by metis
  have "wl_add s wl (Some p) = ok (wl @ [p], s')" using s'(1) p by (simp add: wl_add_def task_at_def live_def)
  moreover have "waiters_ok s' (wl @ [p])" using inv s'(2,3) p by (auto simp: waiters_ok_def others_same_def live_def)
  moreover have "\<not> is_running (tasks s' ! p)" using s'(4) by (auto simp: is_running_def)
  moreover have "live s' p" using s'(3,4) p by (auto simp: live_def others_same_def is_terminated_def is_running_def)
  ultimately show ?thesis using that s'(3) by blast
qed

lemma wl_add_terminated:
  "p < length (tasks s) \<Longrightarrow> is_terminated (tasks s ! p) \<Longrightarrow> wl_add s wl (Some p) = ok (wl, s)"
  by (simp add: wl_add_def task_at_def)

subsection \<open>The interface for the objects tasks wait on\<close>

text \<open>
  An event source keeps a list of waiting tasks next to a system state. Blocking a task stops it;
  signalling makes every waiting task that is still alive runnable and leaves nobody waiting.
\<close>

fun block_all :: "('s \<Rightarrow> tptr list \<Rightarrow> tptr option \<Rightarrow> (tptr list \<times> 's) outcome) \<Rightarrow> 's \<Rightarrow> tptr list \<Rightarrow> tptr list \<Rightarrow> (tptr list \<times> 's) outcome" where
  "block_all block s wl [] = ok (wl, s)"
| "block_all block s wl (p # ps) = bindE (block s wl (Some p)) (\<lambda>(wl, s). block_all block s wl ps)"

locale event_source =
  fixes inv :: "'s \<Rightarrow> tptr list \<Rightarrow> bool"
    and alive :: "'s \<Rightarrow> tptr \<Rightarrow> bool"
    and runs :: "'s \<Rightarrow> tptr \<Rightarrow> bool"
    and block :: "'s \<Rightarrow> tptr list \<Rightarrow> tptr option \<Rightarrow> (tptr list \<times> 's) outcome"
    and signal :: "'s \<Rightarrow> tptr list \<Rightarrow> (tptr list \<times> 's) outcome"
  assumes block_stops: "\<lbrakk>inv s wl; alive s p\<rbrakk> \<Longrightarrow>
      \<exists>s'. block s wl (Some p) = ok (wl @ [p], s') \<and> inv s' (wl @ [p]) \<and> \<not> runs s' p \<and> alive s' p \<and> (\<forall>q. alive s q \<longrightarrow> alive s' q)"
    and signal_wakes: "inv s wl \<Longrightarrow>
      \<exists>s'. signal s wl = ok ([], s') \<and> inv s' [] \<and> (\<forall>p\<in>set wl. alive s p \<longrightarrow> runs s' p)"
begin

lemma block_all_waits:
  "\<lbrakk>inv s wl; \<forall>p\<in>set ps. alive s p\<rbrakk> \<Longrightarrow>
   \<exists>s'. block_all block s wl ps = ok (wl @ ps, s') \<and> inv s' (wl @ ps) \<and> (\<forall>q. alive s q \<longrightarrow> alive s' q)"
proof (induction ps arbitrary: s wl)
  case (Cons p ps)
  obtain s1 where s1: "block s wl (Some p) = ok (wl @ [p], s1)" "inv s1 (wl @ [p])" "\<forall>q. alive s q \<longrightarrow> alive s1 q"
    using block_stops [OF Cons.prems(1), of p] Cons.prems(2) by auto
  then obtain s2 where "block_all block s1 (wl @ [p]) ps = ok ((wl @ [p]) @ ps, s2)" "inv s2 ((wl @ [p]) @ ps)" "\<forall>q. alive s1 q \<longrightarrow> alive s2 q"
    using Cons.IH [OF s1(2)] Cons.prems(2) by auto
  with s1 show ?case by auto
qed auto

text \<open>No wake-up is lost: whoever blocks is running after the next signal.\<close>

lemma nobody_left_waiting:
  assumes "inv s wl" and "\<forall>p\<in>set ps. alive s p"
  shows "\<exists>s1 s2. block_all block s wl ps = ok (wl @ ps, s1) \<and> signal s1 (wl @ ps) = ok ([], s2) \<and> (\<forall>p\<in>set ps. runs s2 p)"
proof -
  obtain s1 where s1: "block_all block s wl ps = ok (wl @ ps, s1)" "inv s1 (wl @ ps)" "\<forall>q. alive s q \<longrightarrow> alive s1 q"
    using block_all_waits [OF assms] by blast
  from signal_wakes [OF this(2)] show ?thesis using s1 assms(2) by (metis UnCI set_append)
qed

end

interpretation wl: event_source waiters_ok live "\<lambda>s p. is_running (tasks s ! p)" wl_add wl_wake_all
proof
  show "\<exists>s'. wl_add s wl (Some p) = ok (wl @ [p], s') \<and> waiters_ok s' (wl @ [p]) \<and> \<not> is_running (tasks s' ! p) \<and> live s' p \<and> (\<forall>q. live s q \<longrightarrow> live s' q)"
    if h: "waiters_ok s wl" "live s p" for s wl p
  proof -
    obtain s' where s': "wl_add s wl (Some p) = ok (wl @ [p], s')" "waiters_ok s' (wl @ [p])" "\<not> is_running (tasks s' ! p)"
      "live s' p" "others_same p s s'" by (rule wl_add_spec [OF h])
    moreover have "\<forall>q. live s q \<longrightarrow> live s' q"
      using s'(4,5) live_others [OF s'(5)] by (auto simp: live_def is_terminated_def)
    ultimately show ?thesis by blast
  qed
  show "\<exists>s'. wl_wake_all s wl = ok ([], s') \<and> waiters_ok s' [] \<and> (\<forall>p\<in>set wl. live s p \<longrightarrow> is_running (tasks s' ! p))"
    if h: "waiters_ok s wl" for s wl
  proof -
    obtain s' where s': "wl_wake_all s wl = ok ([], s')" "tm_inv s'" "live_woken (set wl) s s'" by (rule wl_wake_all_spec [OF h])
    moreover have "is_running (tasks s' ! p)" if "p \<in> set wl" "live s p" for p
      using s'(3) that by (auto simp: live_woken_def woken_def is_running_def live_def)
    ultimately show ?thesis by (auto simp: waiters_ok_def)
  qed
qed

subsection \<open>Properties\<close>

text \<open>
  C16. Tasks that are added to a wait list stop running, and after \<^verbatim>\<open>wake_all\<close> all of them are running
  again and the list is empty: no wake-up is lost.
\<close>

theorem wake_all_loses_no_waiter:
  assumes "waiters_ok s wl" and "\<forall>p\<in>set ps. live s p"
  shows "\<exists>s1 s2. block_all wl_add s wl ps = ok (wl @ ps, s1) \<and> wl_wake_all s1 (wl @ ps) = ok ([], s2)
    \<and> (\<forall>p\<in>set ps. is_running (tasks s2 ! p))"
  using wl.nobody_left_waiting [OF assms] .

theorem wake_all_loses_no_waiter_witness:
  "\<exists>s1 s2. block_all wl_add example_tm [] [1, 0] = ok ([1, 0], s1) \<and> wl_wake_all s1 [1, 0] = ok ([], s2)
    \<and> is_running (tasks s2 ! 1) \<and> is_running (tasks s2 ! 0)"
proof -
  have "waiters_ok example_tm []" using tm_reachable_inv [OF example_reachable] by (simp add: waiters_ok_def)
  moreover have "\<forall>p\<in>set [1, 0]. live example_tm p"
    by (simp add: live_def example_tm_def example_task_def make_task_def is_terminated_def)
  ultimately show ?thesis using wake_all_loses_no_waiter [of example_tm "[]" "[1, 0]"] by simp
qed

text \<open>
  C17. \<^verbatim>\<open>wake_one\<close> wakes no one. If no waiting task has been terminated it empties the list and leaves
  all tasks as they are, so the waiters are lost; otherwise it reaches a terminated task and the
  assertion in \<^verbatim>\<open>wake_task\<close> fails.
\<close>

theorem wake_one_wakes_nobody:
  assumes "waiters_ok s wl"
  shows "wl_wake_one s wl = (if \<exists>p\<in>set wl. is_terminated (tasks s ! p) then Inl Panic else ok ([], s))"
  using assms
proof (induction wl)
  case (Cons p wl)
  have p: "p < length (tasks s)" "m_manager (tasks s ! p)" "waiters_ok s wl"
    using Cons.prems tm_invD(3) [of s p] by (auto simp: waiters_ok_def)
  then have "is_terminated (tasks s ! p) \<Longrightarrow> wake_task s (Some p) = Inl Panic"
    by (simp add: wake_task_def with_live_task_def task_at_def)
  then show ?case using p(1) Cons.IH [OF p(3)] by (simp add: task_at_def)
qed simp

theorem wake_one_wakes_nobody_witness:
  "waiters_ok example_tm [1] \<and> wl_wake_one example_tm [1] = ok ([], example_tm)"
proof -
  have w: "waiters_ok example_tm [1]"
    using tm_reachable_inv [OF example_reachable] by (simp add: waiters_ok_def) (simp add: example_tm_def)
  moreover have "\<not> is_terminated (tasks example_tm ! 1)"
    by (simp add: example_tm_def example_task_def make_task_def is_terminated_def)
  ultimately show ?thesis using wake_one_wakes_nobody [OF w] by simp
qed

end
