(* ===== verification/Pipe.thy ===== *)
theory Pipe
  imports Wait_List
begin

text \<open>
  Pipes, \<^verbatim>\<open>kernel/task/pipe.cpp\<close>: a circular buffer of bytes with a read and a write index and two wait
  lists. Indices and sizes are naturals: all of them stay at most twice the capacity of an allocated
  buffer, far from \<open>2 ^ 64\<close>. A copy outside the buffer and a copy from or to the null pointer are
  \<open>Undefined\<close>. The array's initial bytes are an argument, since \<^verbatim>\<open>new uint8_t[n]\<close> does not set them.

  The specification is the sequence of the bytes in transit, \<open>pipe_contents\<close>: a write appends a prefix of
  its data, a read removes a prefix, in both the contiguous and the fragmented scenario of the code.
\<close>

subsection \<open>Model\<close>

record pipe =
  pipe_parent :: "tptr option"
  pipe_name :: "string option"
  m_write_wait_list :: "tptr list"
  m_read_wait_list :: "tptr list"
  m_buffer :: "u8 list option"
  m_capacity :: nat
  m_size :: nat
  m_read_index :: nat
  m_write_index :: nat

definition PipeResource :: "nat \<Rightarrow> u8 list \<Rightarrow> pipe" where
  "PipeResource capacity fresh =
     \<lparr>pipe_parent = None, pipe_name = None, m_write_wait_list = [], m_read_wait_list = [], m_buffer = Some fresh,
      m_capacity = capacity, m_size = 0, m_read_index = 0, m_write_index = 0\<rparr>"

definition is_closed :: "pipe \<Rightarrow> bool" where
  "is_closed p \<longleftrightarrow> pipe_parent p = None"

definition can_read :: "pipe \<Rightarrow> bool" where
  "can_read p \<longleftrightarrow> m_size p > 0"

definition can_write :: "pipe \<Rightarrow> bool" where
  "can_write p \<longleftrightarrow> m_size p < m_capacity p"

definition wait_read :: "task_manager \<Rightarrow> pipe \<Rightarrow> tptr option \<Rightarrow> (bool \<times> pipe \<times> task_manager) outcome" where
  "wait_read s p task =
     (if can_read p then ok (True, p, s)
      else if is_closed p then ok (False, p, s)
      else bindE (wl_add s (m_read_wait_list p) task) (\<lambda>(wl, s). ok (False, p\<lparr>m_read_wait_list := wl\<rparr>, s)))"

definition wait_write :: "task_manager \<Rightarrow> pipe \<Rightarrow> tptr option \<Rightarrow> (bool \<times> pipe \<times> task_manager) outcome" where
  "wait_write s p task =
     (if can_write p then ok (True, p, s)
      else if is_closed p then ok (False, p, s)
      else bindE (wl_add s (m_write_wait_list p) task) (\<lambda>(wl, s). ok (False, p\<lparr>m_write_wait_list := wl\<rparr>, s)))"

text \<open>\<^verbatim>\<open>libk::memcpy\<close> out of and into the pipe's array.\<close>

definition copy_out :: "u8 list option \<Rightarrow> nat \<Rightarrow> nat \<Rightarrow> u8 list outcome" where
  "copy_out buf from n =
     (case buf of None \<Rightarrow> Inl Undefined
      | Some b \<Rightarrow> if from + n \<le> length b then ok (take n (drop from b)) else Inl Undefined)"

definition copy_in :: "u8 list option \<Rightarrow> nat \<Rightarrow> u8 list \<Rightarrow> u8 list option outcome" where
  "copy_in buf to bytes =
     (case buf of None \<Rightarrow> Inl Undefined
      | Some b \<Rightarrow> if to + length bytes \<le> length b
                  then ok (Some (take to b @ bytes @ drop (to + length bytes) b)) else Inl Undefined)"

definition pipe_read :: "task_manager \<Rightarrow> pipe \<Rightarrow> nat \<Rightarrow> (u8 list \<times> pipe \<times> task_manager) outcome" where
  "pipe_read s p count0 =
     (if is_closed p then ok ([], p, s)
      else let count = min_k count0 (m_size p) in
        if count = 0 then ok ([], p, s)
        else
          bindE (if m_read_index p + count \<le> m_capacity p
                 then copy_out (m_buffer p) (m_read_index p) count
                 else let first_part = m_capacity p - m_read_index p in
                   bindE (copy_out (m_buffer p) (m_read_index p) first_part) (\<lambda>b1.
                   bindE (copy_out (m_buffer p) 0 (count - first_part)) (\<lambda>b2. ok (b1 @ b2))))
            (\<lambda>bytes.
              let index = m_read_index p + count;
                  p = p\<lparr>m_read_index := (if index \<ge> m_capacity p then index - m_capacity p else index),
                        m_size := m_size p - count\<rparr> in
              bindE (wl_wake_all s (m_write_wait_list p)) (\<lambda>(wl, s). ok (bytes, p\<lparr>m_write_wait_list := wl\<rparr>, s))))"

definition pipe_write :: "task_manager \<Rightarrow> pipe \<Rightarrow> u8 list \<Rightarrow> (nat \<times> pipe \<times> task_manager) outcome" where
  "pipe_write s p data =
     (if is_closed p then ok (0, p, s)
      else let count = min_k (length data) (m_capacity p - m_size p) in
        if count = 0 then ok (0, p, s)
        else
          bindE (if m_write_index p + count \<le> m_capacity p
                 then copy_in (m_buffer p) (m_write_index p) (take count data)
                 else let first_part = m_capacity p - m_write_index p in
                   bindE (copy_in (m_buffer p) (m_write_index p) (take first_part data)) (\<lambda>b.
                   copy_in b 0 (take (count - first_part) (drop first_part data))))
            (\<lambda>buf.
              let index = m_write_index p + count;
                  p = p\<lparr>m_buffer := buf,
                        m_write_index := (if index \<ge> m_capacity p then index - m_capacity p else index),
                        m_size := m_size p + count\<rparr> in
              bindE (wl_wake_all s (m_read_wait_list p)) (\<lambda>(wl, s). ok (count, p\<lparr>m_read_wait_list := wl\<rparr>, s))))"

definition pipe_close :: "task_manager \<Rightarrow> pipe \<Rightarrow> (pipe \<times> task_manager) outcome" where
  "pipe_close s p =
     (let p = p\<lparr>pipe_parent := None, m_buffer := None, m_capacity := 0, m_size := 0, m_read_index := 0, m_write_index := 0\<rparr> in
      bindE (wl_wake_all s (m_read_wait_list p)) (\<lambda>(rl, s).
      bindE (wl_wake_all s (m_write_wait_list p)) (\<lambda>(wl, s).
      ok (p\<lparr>m_read_wait_list := rl, m_write_wait_list := wl\<rparr>, s))))"

subsection \<open>Invariant and abstraction\<close>

definition ring_ok :: "pipe \<Rightarrow> bool" where
  "ring_ok p \<longleftrightarrow> (\<exists>b. m_buffer p = Some b \<and> length b = m_capacity p) \<and> 0 < m_capacity p \<and> m_size p \<le> m_capacity p
     \<and> m_read_index p < m_capacity p \<and> m_write_index p = (m_read_index p + m_size p) mod m_capacity p"

definition pipe_ok :: "pipe \<times> task_manager \<Rightarrow> bool" where
  "pipe_ok = (\<lambda>(p, s). \<not> is_closed p \<and> ring_ok p \<and> waiters_ok s (m_read_wait_list p) \<and> waiters_ok s (m_write_wait_list p))"

definition ring :: "u8 list \<Rightarrow> nat \<Rightarrow> nat \<Rightarrow> u8 list" where
  "ring b from n = map (\<lambda>k. b ! ((from + k) mod length b)) [0..<n]"

definition pipe_contents :: "pipe \<Rightarrow> u8 list" where
  "pipe_contents p = ring (the (m_buffer p)) (m_read_index p) (m_size p)"

subsection \<open>The circular buffer\<close>

lemma length_ring [simp]: "length (ring b i n) = n"
  by (simp add: ring_def)

lemma ring_0 [simp]: "ring b i 0 = []"
  by (simp add: ring_def)

lemma nth_ring [simp]: "k < n \<Longrightarrow> ring b i n ! k = b ! ((i + k) mod length b)"
  by (simp add: ring_def)

lemma ring_contiguous: "i + n \<le> length b \<Longrightarrow> take n (drop i b) = ring b i n"
  by (rule nth_equalityI) (auto simp: mod_less)

lemma take_ring: "m \<le> n \<Longrightarrow> take m (ring b i n) = ring b i m"
  by (rule nth_equalityI) auto

lemma drop_ring: "m \<le> n \<Longrightarrow> drop m (ring b i n) = ring b ((i + m) mod length b) (n - m)"
  by (rule nth_equalityI) (auto simp: mod_simps add.assoc)

lemma ring_split: "m \<le> n \<Longrightarrow> ring b i n = ring b i m @ ring b ((i + m) mod length b) (n - m)"
  using append_take_drop_id [of m "ring b i n"] by (simp add: take_ring drop_ring)

lemma wrap_index: "i < c \<Longrightarrow> n \<le> c \<Longrightarrow> (if i + n \<ge> c then i + n - c else i + n) = (i + n) mod (c :: nat)"
  by (auto simp: mod_if)

lemma fragmented_read:
  assumes "i < length b" and "n \<le> length b" and "\<not> i + n \<le> length b"
  shows "take (length b - i) (drop i b) @ take (n - (length b - i)) b = ring b i n"
proof -
  have "take (n - (length b - i)) (drop 0 b) = ring b 0 (n - (length b - i))"
    using assms by (intro ring_contiguous) simp
  moreover have "take (length b - i) (drop i b) = ring b i (length b - i)" using assms by (intro ring_contiguous) simp
  moreover have "(i + (length b - i)) mod length b = 0" using assms by simp
  ultimately show ?thesis using ring_split [of "length b - i" n b i] assms by simp
qed

text \<open>Writing \<open>xs\<close> at index \<open>w\<close>, wrapping around: byte \<open>w + k\<close> becomes \<open>xs ! k\<close>.\<close>

definition wrote :: "u8 list \<Rightarrow> nat \<Rightarrow> u8 list \<Rightarrow> u8 list \<Rightarrow> bool" where
  "wrote b w xs b' \<longleftrightarrow> length b' = length b \<and> (\<forall>k<length xs. b' ! ((w + k) mod length b) = xs ! k)
     \<and> (\<forall>j<length b. (\<forall>k<length xs. j \<noteq> (w + k) mod length b) \<longrightarrow> b' ! j = b ! j)"

lemma wrote_contiguous:
  assumes "w + length xs \<le> length b"
  shows "wrote b w xs (take w b @ xs @ drop (w + length xs) b)"
proof -
  have "(w + k) mod length b = w + k" if "k < length xs" for k using that assms by simp
  moreover have "(take w b @ xs @ drop (w + length xs) b) ! j = b ! j" if "j < length b" "\<forall>k<length xs. j \<noteq> w + k" for j
  proof (cases "j < w")
    case False
    then have "w + length xs \<le> j" using that(2) by (metis le_add_diff_inverse nat_add_left_cancel_less not_less)
    then have "\<not> j - w < length xs" "\<not> j < w" by simp_all
    then show ?thesis using that(1) assms \<open>w + length xs \<le> j\<close> by (simp add: nth_append)
  qed (use assms in \<open>simp add: nth_append\<close>)
  ultimately show ?thesis using assms by (simp add: wrote_def nth_append)
qed

lemma wrote_fragmented:
  assumes w: "w < length b" and n: "length xs \<le> length b" and far: "\<not> w + length xs \<le> length b"
  defines "f \<equiv> length b - w"
  defines "b1 \<equiv> take w b @ take f xs @ drop (w + f) b"
  shows "wrote b w xs (drop f xs @ drop (length xs - f) b1)"
proof -
  have f: "f \<le> length xs" "0 < f" "length xs - f \<le> w" using assms(1-3) by (auto simp: f_def)
  have b1: "b1 = take w b @ take f xs" using w by (simp add: b1_def f_def)
  let ?b2 = "drop f xs @ drop (length xs - f) b1"
  have len: "length b1 = length b" "length ?b2 = length b" using f w n by (auto simp: b1 f_def)
  have "?b2 ! ((w + k) mod length b) = xs ! k" if k: "k < length xs" for k
  proof (cases "k < f")
    case True
    then have "(w + k) mod length b = w + k" using w by (simp add: f_def)
    moreover have "\<not> w + k + f - length xs < w + f - length xs" using f(1,3) by linarith
    ultimately show ?thesis using True f w by (simp add: nth_append b1 min_def)
  next
    case False
    then have "w + k = length b + (k - f)" "k - f < length b" using w k n by (auto simp: f_def)
    then have "(w + k) mod length b = k - f" by simp
    moreover have "k - f < length xs - f" using False k by linarith
    ultimately show ?thesis using False k by (simp add: nth_append)
  qed
  moreover have "?b2 ! j = b ! j" if j: "j < length b" "\<forall>k<length xs. j \<noteq> (w + k) mod length b" for j
  proof -
    have jw: "\<not> w \<le> j"
    proof
      assume "w \<le> j"
      then have "j - w < length xs" "(w + (j - w)) mod length b = j" using j(1) far by auto
      with j(2) show False by metis
    qed
    have jf: "\<not> j < length xs - f"
    proof
      assume "j < length xs - f"
      then have "j + f < length xs" "(w + (j + f)) mod length b = j" using w f(3) by (auto simp: f_def mod_if)
      with j(2) show False by metis
    qed
    have "?b2 ! j = b1 ! j" using jf jw f len(1) w by (simp add: nth_append)
    also have "\<dots> = b ! j" using jw w by (simp add: b1 nth_append)
    finally show ?thesis .
  qed
  ultimately show ?thesis using len by (simp add: wrote_def)
qed

lemma ring_after_write:
  assumes "wrote b ((r + m) mod length b) xs b'" and "r < length b" and "m + length xs \<le> length b"
  shows "ring b' r (m + length xs) = ring b r m @ xs"
proof (rule nth_equalityI)
  fix k assume k: "k < length (ring b' r (m + length xs))"
  have len: "length b' = length b" using assms(1) by (simp add: wrote_def)
  show "ring b' r (m + length xs) ! k = (ring b r m @ xs) ! k"
  proof (cases "k < m")
    case True
    have "(r + k) mod length b \<noteq> ((r + m) mod length b + l) mod length b" if "l < length xs" for l
    proof
      assume "(r + k) mod length b = ((r + m) mod length b + l) mod length b"
      then have "(r + k) mod length b = (r + (m + l)) mod length b" by (simp add: mod_simps add.assoc)
      moreover have "r + k < r + (m + l)" "m + l < length b" using True that assms(3) by simp_all
      ultimately have "length b dvd (r + (m + l)) - (r + k)" by (metis less_imp_le mod_eq_dvd_iff_nat)
      then show False using True \<open>m + l < length b\<close> by (auto dest!: dvd_imp_le)
    qed
    moreover have "(r + k) mod length b < length b" using assms(2) by (intro mod_less_divisor) linarith
    ultimately have "b' ! ((r + k) mod length b) = b ! ((r + k) mod length b)"
      using assms(1) unfolding wrote_def by blast
    then show ?thesis using True len k by (simp add: nth_append)
  next
    case False
    then have "r + k = (r + m) + (k - m)" by simp
    then have "(r + k) mod length b = ((r + m) mod length b + (k - m)) mod length b" by (metis mod_add_left_eq)
    moreover have "b' ! (((r + m) mod length b + (k - m)) mod length b) = xs ! (k - m)"
      using assms(1) False k unfolding wrote_def by (metis length_ring less_diff_conv2 not_less add.commute)
    ultimately show ?thesis using False len k by (simp add: nth_append)
  qed
qed simp

subsection \<open>Reading and writing\<close>

lemma wake_all_keeps_waiters:
  assumes "waiters_ok s wl" and "waiters_ok s other"
  obtains s' where "wl_wake_all s wl = ok ([], s')" and "waiters_ok s' other" and "live_woken (set wl) s s'"
  using wl_wake_all_spec [OF assms(1)] assms(2)
  by (auto simp: waiters_ok_def live_woken_def woken_def)

lemma pipe_read_spec:
  assumes inv: "pipe_ok (p, s)"
  obtains p' s' where "pipe_read s p n = ok (take n (pipe_contents p), p', s')" and "pipe_ok (p', s')"
    and "pipe_contents p' = drop n (pipe_contents p)" and "m_capacity p' = m_capacity p"
    and "n > 0 \<Longrightarrow> m_size p > 0 \<Longrightarrow> m_write_wait_list p' = [] \<and> live_woken (set (m_write_wait_list p)) s s'"
proof (cases "min n (m_size p) = 0")
  case True
  then have "pipe_read s p n = ok ([], p, s)" "take n (pipe_contents p) = []" "drop n (pipe_contents p) = pipe_contents p"
    by (auto simp: pipe_read_def pipe_contents_def min_def split: if_splits)
  then show ?thesis using that [of p s] inv True by auto
next
  case False
  let ?c = "min n (m_size p)"
  obtain b where b: "m_buffer p = Some b" "length b = m_capacity p" using inv by (auto simp: pipe_ok_def ring_ok_def)
  have ring: "0 < m_capacity p" "m_size p \<le> m_capacity p" "m_read_index p < m_capacity p"
      "m_write_index p = (m_read_index p + m_size p) mod m_capacity p" "\<not> is_closed p"
    using inv by (simp_all add: pipe_ok_def ring_ok_def)
  obtain s' where s': "wl_wake_all s (m_write_wait_list p) = ok ([], s')" "waiters_ok s' (m_read_wait_list p)"
      "live_woken (set (m_write_wait_list p)) s s'"
    using wake_all_keeps_waiters [of s "m_write_wait_list p" "m_read_wait_list p"] inv by (auto simp: pipe_ok_def)
  let ?i = "(m_read_index p + ?c) mod m_capacity p"
  let ?p = "p\<lparr>m_read_index := ?i, m_size := m_size p - ?c, m_write_wait_list := []\<rparr>"
  have idx: "(if m_read_index p + ?c \<ge> m_capacity p then m_read_index p + ?c - m_capacity p else m_read_index p + ?c) = ?i"
    using ring by (intro wrap_index) simp_all
  have bytes: "(if m_read_index p + ?c \<le> m_capacity p then copy_out (m_buffer p) (m_read_index p) ?c
      else let first_part = m_capacity p - m_read_index p in
           bindE (copy_out (m_buffer p) (m_read_index p) first_part) (\<lambda>b1.
           bindE (copy_out (m_buffer p) 0 (?c - first_part)) (\<lambda>b2. ok (b1 @ b2))))
      = ok (ring b (m_read_index p) ?c)"
    using ring b fragmented_read [of "m_read_index p" b ?c] ring_contiguous [of "m_read_index p" ?c b]
    by (auto simp: copy_out_def Let_def)
  have t: "ring b (m_read_index p) ?c = take n (pipe_contents p)"
    using b take_ring [of ?c "m_size p" b "m_read_index p"] by (cases "n \<le> m_size p") (simp_all add: pipe_contents_def min_def)
  have read: "pipe_read s p n = ok (take n (pipe_contents p), ?p, s')"
    unfolding pipe_read_def min_k_eq Let_def [of ?c] if_not_P [OF ring(5)] if_not_P [OF False] bytes t
    using idx s'(1) by (simp add: Let_def del: bindE_ok_iff)
  have "pipe_contents ?p = drop n (pipe_contents p)"
    using b drop_ring [of ?c "m_size p" b "m_read_index p"] by (cases "n \<le> m_size p") (simp_all add: pipe_contents_def min_def)
  moreover have "(?i + (m_size p - ?c)) mod m_capacity p = m_write_index p"
    unfolding ring(4) mod_add_left_eq by (simp add: min_def)
  then have "pipe_ok (?p, s')"
    using inv s'(2) ring b by (simp add: pipe_ok_def ring_ok_def is_closed_def waiters_ok_def)
  ultimately show ?thesis using that [OF read] s'(3) by simp
qed

lemma pipe_write_spec:
  fixes data :: "u8 list"
  assumes inv: "pipe_ok (p, s)"
  defines "n \<equiv> min (length data) (m_capacity p - m_size p)"
  obtains p' s' where "pipe_write s p data = ok (n, p', s')" and "pipe_ok (p', s')"
    and "pipe_contents p' = pipe_contents p @ take n data" and "m_capacity p' = m_capacity p"
    and "n > 0 \<longrightarrow> m_read_wait_list p' = [] \<and> live_woken (set (m_read_wait_list p)) s s'"
proof (cases "n = 0")
  case True
  then have "pipe_write s p data = ok (0, p, s)" by (auto simp: pipe_write_def n_def Let_def)
  then show ?thesis using that [of p s] inv True by simp
next
  case False
  obtain b where b: "m_buffer p = Some b" "length b = m_capacity p" using inv by (auto simp: pipe_ok_def ring_ok_def)
  have ring: "0 < m_capacity p" "m_size p \<le> m_capacity p" "m_read_index p < m_capacity p"
      "m_write_index p = (m_read_index p + m_size p) mod m_capacity p" "\<not> is_closed p"
    using inv by (simp_all add: pipe_ok_def ring_ok_def)
  obtain s' where s': "wl_wake_all s (m_read_wait_list p) = ok ([], s')" "waiters_ok s' (m_write_wait_list p)"
      "live_woken (set (m_read_wait_list p)) s s'"
    using wake_all_keeps_waiters [of s "m_read_wait_list p" "m_write_wait_list p"] inv by (auto simp: pipe_ok_def)
  let ?w = "m_write_index p"
  have w: "?w < m_capacity p" using ring by simp
  have n: "n \<le> length data" "m_size p + n \<le> m_capacity p" using ring(2) by (auto simp: n_def)
  define buf where "buf = (if ?w + n \<le> m_capacity p then take ?w b @ take n data @ drop (?w + n) b
     else let f = m_capacity p - ?w in drop f (take n data) @ drop (n - f) (take ?w b @ take f (take n data) @ drop (?w + f) b))"
  have wrote: "wrote b ?w (take n data) buf"
    using wrote_contiguous [of ?w "take n data" b] wrote_fragmented [of ?w b "take n data"] n w b by (auto simp: buf_def Let_def)
  have len: "length buf = m_capacity p" using wrote b by (simp add: wrote_def)
  have idx: "(if ?w + n \<ge> m_capacity p then ?w + n - m_capacity p else ?w + n) = (?w + n) mod m_capacity p"
    using w n by (intro wrap_index) simp_all
  let ?p = "p\<lparr>m_buffer := Some buf, m_write_index := (?w + n) mod m_capacity p, m_size := m_size p + n, m_read_wait_list := []\<rparr>"
  have bytes: "(if ?w + n \<le> m_capacity p then copy_in (m_buffer p) ?w (take n data)
      else let first_part = m_capacity p - ?w in
           bindE (copy_in (m_buffer p) ?w (take first_part data)) (\<lambda>b.
           copy_in b 0 (take (n - first_part) (drop first_part data)))) = ok (Some buf)"
  proof (cases "?w + n \<le> m_capacity p")
    case True
    then show ?thesis using b n by (simp add: copy_in_def buf_def min_absorb2)
  next
    case False
    let ?f = "m_capacity p - ?w"
    have f: "?f \<le> n" "?w + ?f = m_capacity p" "n - ?f \<le> m_capacity p" using False w n by auto
    have "length (take ?f data) = ?f" "length (take (n - ?f) (drop ?f data)) = n - ?f" using f n by auto
    moreover have "take (n - ?f) (drop ?f data) = drop ?f (take n data)" "take ?f (take n data) = take ?f data"
      using f by (simp_all add: drop_take min_absorb1)
    ultimately show ?thesis using False b f w by (simp add: copy_in_def buf_def Let_def)
  qed
  have wr: "pipe_write s p data = ok (n, ?p, s')"
    using False ring(5) bytes idx s'(1) unfolding pipe_write_def min_k_eq n_def [symmetric] by (simp add: Let_def del: bindE_ok_iff)
  have "pipe_contents ?p = pipe_contents p @ take n data"
    using ring_after_write [of b "m_read_index p" "m_size p" "take n data" buf] wrote ring b n by (simp add: pipe_contents_def)
  moreover have "pipe_ok (?p, s')"
    using inv s'(2) ring b n len by (simp add: pipe_ok_def ring_ok_def is_closed_def waiters_ok_def mod_simps add.assoc)
  ultimately show ?thesis using that [OF wr] s'(3) by simp
qed

subsection \<open>Closing\<close>

lemma pipe_close_spec:
  assumes "waiters_ok s (m_read_wait_list p)" and "waiters_ok s (m_write_wait_list p)"
  obtains p' s' where "pipe_close s p = ok (p', s')" and "is_closed p'" and "m_buffer p' = None" and "tm_inv s'"
    and "m_read_wait_list p' = []" and "m_write_wait_list p' = []"
    and "\<forall>q\<in>set (m_read_wait_list p) \<union> set (m_write_wait_list p). live s q \<longrightarrow> is_running (tasks s' ! q)"
proof -
  obtain s1 where s1: "wl_wake_all s (m_read_wait_list p) = ok ([], s1)" "waiters_ok s1 (m_write_wait_list p)"
      "live_woken (set (m_read_wait_list p)) s s1"
    by (rule wake_all_keeps_waiters [OF assms])
  obtain s2 where s2: "wl_wake_all s1 (m_write_wait_list p) = ok ([], s2)" "tm_inv s2" "live_woken (set (m_write_wait_list p)) s1 s2"
    by (rule wl_wake_all_spec [OF s1(2)])
  have "is_running (tasks s2 ! q)" if "q \<in> set (m_read_wait_list p) \<union> set (m_write_wait_list p)" "live s q" for q
  proof -
    have "live s1 q" using s1(3) that(2) by (auto simp: live_woken_def woken_def live_def is_terminated_def)
    then show ?thesis using that s1(3) s2(3) by (auto simp: live_woken_def woken_def is_running_def live_def)
  qed
  then show ?thesis using that s1(1) s2(1,2) by (simp add: pipe_close_def is_closed_def Let_def)
qed

subsection \<open>The interface of a byte channel\<close>

datatype channel_op = Send "u8 list" | Receive nat

text \<open>
  A bounded channel of bytes: what it holds is a sequence; sending appends what fits, receiving
  removes from the front. A run of operations records the bytes accepted and the bytes delivered.
\<close>

fun channel_run ::
  "('c \<Rightarrow> u8 list \<Rightarrow> (nat \<times> 'c) outcome) \<Rightarrow> ('c \<Rightarrow> nat \<Rightarrow> (u8 list \<times> 'c) outcome) \<Rightarrow> channel_op list \<Rightarrow>
   'c \<times> u8 list \<times> u8 list \<Rightarrow> ('c \<times> u8 list \<times> u8 list) outcome" where
  "channel_run send receive [] st = ok st"
| "channel_run send receive (Send d # ops) (c, accepted, delivered) =
     bindE (send c d) (\<lambda>(n, c). channel_run send receive ops (c, accepted @ take n d, delivered))"
| "channel_run send receive (Receive n # ops) (c, accepted, delivered) =
     bindE (receive c n) (\<lambda>(d, c). channel_run send receive ops (c, accepted, delivered @ d))"

locale byte_channel =
  fixes inv :: "'c \<Rightarrow> bool"
    and contents :: "'c \<Rightarrow> u8 list"
    and capacity :: "'c \<Rightarrow> nat"
    and send :: "'c \<Rightarrow> u8 list \<Rightarrow> (nat \<times> 'c) outcome"
    and receive :: "'c \<Rightarrow> nat \<Rightarrow> (u8 list \<times> 'c) outcome"
  assumes bounded: "inv c \<Longrightarrow> length (contents c) \<le> capacity c"
    and send_appends: "inv c \<Longrightarrow> \<exists>c' n. send c d = ok (n, c') \<and> n = min (length d) (capacity c - length (contents c))
          \<and> inv c' \<and> contents c' = contents c @ take n d \<and> capacity c' = capacity c"
    and receive_removes: "inv c \<Longrightarrow> \<exists>c'. receive c n = ok (take n (contents c), c')
          \<and> inv c' \<and> contents c' = drop n (contents c) \<and> capacity c' = capacity c"
begin

lemma run_conserves:
  assumes "inv c"
  shows "\<exists>c' a' d'. channel_run send receive ops (c, a, d) = ok (c', a', d') \<and> inv c' \<and> capacity c' = capacity c
    \<and> (a = d @ contents c \<longrightarrow> a' = d' @ contents c')"
  using assms
proof (induction ops arbitrary: c a d)
  case (Cons x ops)
  show ?case
  proof (cases x)
    case (Send b)
    from send_appends [OF Cons.prems, of b] obtain c1 n where c1: "send c b = ok (n, c1)" "inv c1" "contents c1 = contents c @ take n b" "capacity c1 = capacity c"
      by blast
    from Cons.IH [OF c1(2), of "a @ take n b" d] show ?thesis using c1 Send by auto
  next
    case (Receive n)
    from receive_removes [OF Cons.prems, of n] obtain c1 where c1: "receive c n = ok (take n (contents c), c1)" "inv c1"
        "contents c1 = drop n (contents c)" "capacity c1 = capacity c" by blast
    from Cons.IH [OF c1(2), of a "d @ take n (contents c)"] show ?thesis using c1 Receive by auto
  qed
qed auto

text \<open>Bytes are delivered in the order in which they were accepted, none lost, none twice.\<close>

lemma fifo:
  assumes "inv c" and "contents c = []"
  shows "\<exists>c' a d. channel_run send receive ops (c, [], []) = ok (c', a, d) \<and> a = d @ contents c' \<and> length a - length d \<le> capacity c"
proof -
  obtain c' a d where r: "channel_run send receive ops (c, [], []) = ok (c', a, d)" "inv c'" "capacity c' = capacity c" "a = d @ contents c'"
    using run_conserves [OF assms(1), of ops "[]" "[]"] assms(2) by auto
  moreover have "length a - length d \<le> capacity c" using bounded [OF r(2)] r(3,4) by simp
  ultimately show ?thesis by blast
qed

end

text \<open>A pipe with the task manager's state is a byte channel.\<close>

definition chan_send :: "pipe \<times> task_manager \<Rightarrow> u8 list \<Rightarrow> (nat \<times> pipe \<times> task_manager) outcome" where
  "chan_send = (\<lambda>(p, s) d. pipe_write s p d)"

definition chan_receive :: "pipe \<times> task_manager \<Rightarrow> nat \<Rightarrow> (u8 list \<times> pipe \<times> task_manager) outcome" where
  "chan_receive = (\<lambda>(p, s) n. pipe_read s p n)"

lemma length_pipe_contents [simp]: "length (pipe_contents p) = m_size p"
  by (simp add: pipe_contents_def)

interpretation pipe: byte_channel pipe_ok "\<lambda>(p, s). pipe_contents p" "\<lambda>(p, s). m_capacity p" chan_send chan_receive
proof
  fix c :: "pipe \<times> task_manager" and n and d :: "u8 list"
  obtain p s where c: "c = (p, s)" by (cases c)
  assume inv: "pipe_ok c"
  then show "length ((\<lambda>(p, s). pipe_contents p) c) \<le> (\<lambda>(p, s). m_capacity p) c"
    by (simp add: c pipe_ok_def ring_ok_def)
  from pipe_write_spec [OF inv [unfolded c], of d] obtain p' s' where
    w: "pipe_write s p d = ok (min (length d) (m_capacity p - m_size p), p', s')" "pipe_ok (p', s')"
      "pipe_contents p' = pipe_contents p @ take (min (length d) (m_capacity p - m_size p)) d" "m_capacity p' = m_capacity p" by blast
  then show "\<exists>c' n. chan_send c d = ok (n, c') \<and> n = min (length d) ((\<lambda>(p, s). m_capacity p) c - length ((\<lambda>(p, s). pipe_contents p) c))
      \<and> pipe_ok c' \<and> (\<lambda>(p, s). pipe_contents p) c' = (\<lambda>(p, s). pipe_contents p) c @ take n d
      \<and> (\<lambda>(p, s). m_capacity p) c' = (\<lambda>(p, s). m_capacity p) c"
    by (intro exI [of _ "(p', s')"]) (simp add: c chan_send_def)
  from pipe_read_spec [OF inv [unfolded c], of n] obtain p1 s1 where
    "pipe_read s p n = ok (take n (pipe_contents p), p1, s1)" "pipe_ok (p1, s1)" "pipe_contents p1 = drop n (pipe_contents p)"
    "m_capacity p1 = m_capacity p" by blast
  then show "\<exists>c'. chan_receive c n = ok (take n ((\<lambda>(p, s). pipe_contents p) c), c') \<and> pipe_ok c'
      \<and> (\<lambda>(p, s). pipe_contents p) c' = drop n ((\<lambda>(p, s). pipe_contents p) c)
      \<and> (\<lambda>(p, s). m_capacity p) c' = (\<lambda>(p, s). m_capacity p) c"
    by (intro exI [of _ "(p1, s1)"]) (simp add: c chan_receive_def)
qed

lemma fresh_pipe_ok:
  assumes "tm_inv s" and "0 < cap" and "length fresh = cap"
  shows "pipe_ok ((PipeResource cap fresh)\<lparr>pipe_parent := Some t\<rparr>, s)"
    and "pipe_contents ((PipeResource cap fresh)\<lparr>pipe_parent := Some t\<rparr>) = []"
  using assms by (simp_all add: pipe_ok_def PipeResource_def is_closed_def ring_ok_def waiters_ok_def pipe_contents_def)

subsection \<open>Properties\<close>

text \<open>
  C13. On a newly created pipe every sequence of reads and writes of any sizes returns without a fault,
  and the bytes delivered followed by the bytes still in the pipe are the bytes the writes accepted:
  the circular buffer is a FIFO queue that never holds more than its capacity.
\<close>

theorem pipe_is_fifo:
  assumes "tm_reachable s" and "0 < cap" and "length fresh = cap"
  shows "\<exists>p' s' accepted delivered.
    channel_run chan_send chan_receive ops (((PipeResource cap fresh)\<lparr>pipe_parent := Some t\<rparr>, s), [], [])
      = ok ((p', s'), accepted, delivered)
    \<and> accepted = delivered @ pipe_contents p' \<and> length accepted - length delivered \<le> cap"
proof -
  note fresh = fresh_pipe_ok [OF tm_reachable_inv [OF assms(1)] assms(2,3), of t]
  have "(\<lambda>(p, s). pipe_contents p) ((PipeResource cap fresh)\<lparr>pipe_parent := Some t\<rparr>, s) = []" using fresh(2) by simp
  from pipe.fifo [OF fresh(1) this, of ops] show ?thesis by (auto simp: PipeResource_def)
qed

theorem pipe_is_fifo_witness:
  "tm_reachable example_tm \<and> (\<exists>p' s' accepted delivered.
    channel_run chan_send chan_receive [Send [1, 2, 3], Receive 2, Send [4, 5], Receive 9]
      (((PipeResource 3 [0, 0, 0])\<lparr>pipe_parent := Some 0\<rparr>, example_tm), [], []) = ok ((p', s'), accepted, delivered)
    \<and> accepted = delivered @ pipe_contents p' \<and> length accepted - length delivered \<le> 3)"
  using pipe_is_fifo [OF example_reachable, of 3 "[0, 0, 0]" "[Send [1, 2, 3], Receive 2, Send [4, 5], Receive 9]" 0] example_reachable
  by (simp del: bindE_ok_iff channel_run.simps)

text \<open>
  C14. A task that waits to read from an open and empty pipe is stopped and remembered; the next write
  of at least one byte makes it run again, with nobody left in the wait list, and a read then returns
  the bytes that were written.
\<close>

theorem blocked_reader_gets_the_data:
  assumes "pipe_ok (p, s)" and "pipe_contents p = []" and "live s t" and "data \<noteq> []" and "length data \<le> m_capacity p"
  shows "\<exists>p1 s1 p2 s2 p3 s3. wait_read s p (Some t) = ok (False, p1, s1) \<and> \<not> is_running (tasks s1 ! t)
    \<and> pipe_write s1 p1 data = ok (length data, p2, s2) \<and> is_running (tasks s2 ! t) \<and> m_read_wait_list p2 = []
    \<and> pipe_read s2 p2 (length data) = ok (data, p3, s3)"
proof -
  have size: "m_size p = 0" using assms(2) length_pipe_contents [of p] by simp
  have w: "waiters_ok s (m_read_wait_list p)" "waiters_ok s (m_write_wait_list p)" "\<not> is_closed p" "ring_ok p"
    using assms(1) by (simp_all add: pipe_ok_def)
  obtain s1 where s1: "wl_add s (m_read_wait_list p) (Some t) = ok (m_read_wait_list p @ [t], s1)"
    "waiters_ok s1 (m_read_wait_list p @ [t])" "\<not> is_running (tasks s1 ! t)" "live s1 t" "others_same t s s1"
    by (rule wl_add_spec [OF w(1) assms(3)])
  let ?p1 = "p\<lparr>m_read_wait_list := m_read_wait_list p @ [t]\<rparr>"
  have read: "wait_read s p (Some t) = ok (False, ?p1, s1)" using size w(3) s1(1) by (simp add: wait_read_def can_read_def)
  have ok1: "pipe_ok (?p1, s1)"
    using w s1(2,5) by (simp add: pipe_ok_def is_closed_def ring_ok_def waiters_ok_def others_same_def)
  have n: "min (length data) (m_capacity ?p1 - m_size ?p1) = length data" using assms(5) size by simp
  from pipe_write_spec [OF ok1, of data] obtain p2 s2 where w2: "pipe_write s1 ?p1 data = ok (length data, p2, s2)" "pipe_ok (p2, s2)"
    "pipe_contents p2 = pipe_contents ?p1 @ data" "m_read_wait_list p2 = []" "live_woken (set (m_read_wait_list ?p1)) s1 s2"
    unfolding n using assms(4) by (metis length_greater_0_conv order_refl take_all)
  have "is_running (tasks s2 ! t)" using w2(5) s1(4) by (auto simp: live_woken_def woken_def is_running_def live_def)
  moreover have "pipe_contents p2 = data" using w2(3) assms(2) by (simp add: pipe_contents_def)
  ultimately show ?thesis using read s1(3) w2(1,4) pipe_read_spec [OF w2(2), of "length data"] by (metis order_refl take_all)
qed

theorem blocked_reader_gets_the_data_witness:
  "\<exists>p1 s1 p2 s2 p3 s3. wait_read example_tm ((PipeResource 4 [0, 0, 0, 0])\<lparr>pipe_parent := Some 1\<rparr>) (Some 0) = ok (False, p1, s1)
    \<and> \<not> is_running (tasks s1 ! 0) \<and> pipe_write s1 p1 [7, 8] = ok (2, p2, s2) \<and> is_running (tasks s2 ! 0)
    \<and> m_read_wait_list p2 = [] \<and> pipe_read s2 p2 2 = ok ([7, 8], p3, s3)"
proof -
  let ?p = "(PipeResource 4 [0, 0, 0, 0])\<lparr>pipe_parent := Some 1\<rparr>"
  have "pipe_ok (?p, example_tm)" "pipe_contents ?p = []"
    using fresh_pipe_ok [OF tm_reachable_inv [OF example_reachable], of 4 "[0, 0, 0, 0]" 1] by simp_all
  moreover have "live example_tm 0"
    by (simp add: live_def example_tm_def example_task_def make_task_def is_terminated_def)
  moreover have "length [7, 8 :: u8] \<le> m_capacity ?p" by (simp add: PipeResource_def)
  ultimately have "\<exists>p1 s1 p2 s2 p3 s3. wait_read example_tm ?p (Some 0) = ok (False, p1, s1) \<and> \<not> is_running (tasks s1 ! 0)
    \<and> pipe_write s1 p1 [7, 8] = ok (length [7, 8 :: u8], p2, s2) \<and> is_running (tasks s2 ! 0) \<and> m_read_wait_list p2 = []
    \<and> pipe_read s2 p2 (length [7, 8 :: u8]) = ok ([7, 8], p3, s3)"
    by (intro blocked_reader_gets_the_data) simp_all
  then show ?thesis by (simp add: numeral_2_eq_2)
qed

text \<open>
  Closing a pipe frees its buffer, wakes every task that waits on either end and leaves nobody
  waiting; afterwards reads and writes transfer nothing and waiting for it returns at once.
\<close>

lemma closed_pipe_blocks_nobody:
  assumes "pipe_ok (p, s)"
  shows "\<exists>p' s'. pipe_close s p = ok (p', s')
    \<and> (\<forall>q\<in>set (m_read_wait_list p) \<union> set (m_write_wait_list p). live s q \<longrightarrow> is_running (tasks s' ! q))
    \<and> pipe_read s' p' n = ok ([], p', s') \<and> pipe_write s' p' data = ok (0, p', s')
    \<and> wait_read s' p' task = ok (False, p', s') \<and> wait_write s' p' task = ok (False, p', s')"
proof -
  have "waiters_ok s (m_read_wait_list p)" "waiters_ok s (m_write_wait_list p)" using assms by (simp_all add: pipe_ok_def)
  from pipe_close_spec [OF this] obtain p' s' where c: "pipe_close s p = ok (p', s')" "is_closed p'"
    "\<forall>q\<in>set (m_read_wait_list p) \<union> set (m_write_wait_list p). live s q \<longrightarrow> is_running (tasks s' ! q)" by metis
  have "m_size p' = 0 \<and> m_capacity p' = 0" using c(1) by (auto simp: pipe_close_def Let_def)
  then show ?thesis using c
    by (intro exI [of _ p'] exI [of _ s']) (simp add: pipe_read_def pipe_write_def wait_read_def wait_write_def can_read_def can_write_def)
qed

end
