(* ===== verification/Message_Queue.thy ===== *)
theory Message_Queue
  imports Wait_List
begin

text \<open>
  The message queue of a window, \<^verbatim>\<open>kernel/wm/message_queue.cpp\<close>: an array of 64 messages whose first
  \<open>m_pending_count\<close> entries are pending, and the list of the tasks that wait for a message. A message is
  any type \<open>'m\<close>, since the queue only copies it. The lemmas show that the array with its \<^verbatim>\<open>memmove\<close> is a
  bounded FIFO queue and that a blocked task runs after the next message.
\<close>

subsection \<open>Model\<close>

definition MAX_PENDING_MESSAGES :: nat where
  "MAX_PENDING_MESSAGES = 64"

record 'm message_queue =
  mq_wait_list :: "tptr list"
  m_pending_count :: nat
  m_queue :: "'m list"

definition mq_is_empty :: "'m message_queue \<Rightarrow> bool" where
  "mq_is_empty q \<longleftrightarrow> m_pending_count q = 0"

definition mq_is_full :: "'m message_queue \<Rightarrow> bool" where
  "mq_is_full q \<longleftrightarrow> m_pending_count q = MAX_PENDING_MESSAGES"

definition mq_enqueue :: "task_manager \<Rightarrow> 'm message_queue \<Rightarrow> 'm \<Rightarrow> (bool \<times> 'm message_queue \<times> task_manager) outcome" where
  "mq_enqueue s q msg =
     (if mq_is_full q then ok (False, q, s)
      else if m_pending_count q \<ge> length (m_queue q) then Inl Undefined
      else let q = q\<lparr>m_queue := (m_queue q)[m_pending_count q := msg], m_pending_count := m_pending_count q + 1\<rparr> in
        bindE (wl_wake_all s (mq_wait_list q)) (\<lambda>(wl, s). ok (True, q\<lparr>mq_wait_list := wl\<rparr>, s)))"

definition mq_dequeue :: "'m message_queue \<Rightarrow> ('m option \<times> 'm message_queue) outcome" where
  "mq_dequeue q =
     (if mq_is_empty q then ok (None, q)
      else let n = m_pending_count q - 1 in
        if n + 1 > length (m_queue q) then Inl Undefined
        else ok (Some (m_queue q ! 0),
                 q\<lparr>m_pending_count := n, m_queue := take n (drop 1 (m_queue q)) @ drop n (m_queue q)\<rparr>))"

definition mq_peek :: "'m message_queue \<Rightarrow> 'm option outcome" where
  "mq_peek q =
     (if mq_is_empty q then ok None
      else if m_queue q = [] then Inl Undefined else ok (Some (m_queue q ! 0)))"

definition block_task_until_not_empty ::
  "task_manager \<Rightarrow> 'm message_queue \<Rightarrow> tptr option \<Rightarrow> (bool \<times> 'm message_queue \<times> task_manager) outcome" where
  "block_task_until_not_empty s q task =
     (if \<not> mq_is_empty q then ok (False, q, s)
      else bindE (wl_add s (mq_wait_list q) task) (\<lambda>(wl, s). ok (True, q\<lparr>mq_wait_list := wl\<rparr>, s)))"

subsection \<open>Refinement to a bounded queue\<close>

definition mq_ok :: "'m message_queue \<times> task_manager \<Rightarrow> bool" where
  "mq_ok = (\<lambda>(q, s). length (m_queue q) = MAX_PENDING_MESSAGES \<and> m_pending_count q \<le> MAX_PENDING_MESSAGES
     \<and> waiters_ok s (mq_wait_list q))"

definition mq_contents :: "'m message_queue \<Rightarrow> 'm list" where
  "mq_contents q = take (m_pending_count q) (m_queue q)"

lemma length_mq_contents: "mq_ok (q, s) \<Longrightarrow> length (mq_contents q) = m_pending_count q"
  by (simp add: mq_ok_def mq_contents_def)

lemma mq_enqueue_spec:
  assumes inv: "mq_ok (q, s)"
  obtains q' s' where "mq_enqueue s q msg = ok (m_pending_count q < MAX_PENDING_MESSAGES, q', s')" and "mq_ok (q', s')"
    and "mq_contents q' = mq_contents q @ (if m_pending_count q < MAX_PENDING_MESSAGES then [msg] else [])"
    and "m_pending_count q < MAX_PENDING_MESSAGES \<longrightarrow> mq_wait_list q' = [] \<and> live_woken (set (mq_wait_list q)) s s'"
proof (cases "m_pending_count q < MAX_PENDING_MESSAGES")
  case False
  then have "mq_enqueue s q msg = ok (False, q, s)" using inv by (simp add: mq_enqueue_def mq_is_full_def mq_ok_def)
  then show ?thesis using that [of q s] False inv by simp
next
  case True
  have w: "waiters_ok s (mq_wait_list q)" and len: "length (m_queue q) = MAX_PENDING_MESSAGES" using inv by (simp_all add: mq_ok_def)
  obtain s' where s': "wl_wake_all s (mq_wait_list q) = ok ([], s')" "tm_inv s'" "live_woken (set (mq_wait_list q)) s s'"
    by (rule wl_wake_all_spec [OF w])
  let ?q = "q\<lparr>m_queue := (m_queue q)[m_pending_count q := msg], m_pending_count := m_pending_count q + 1, mq_wait_list := []\<rparr>"
  have "mq_enqueue s q msg = ok (True, ?q, s')" using True len s'(1) by (simp add: mq_enqueue_def mq_is_full_def Let_def)
  moreover have "mq_contents ?q = mq_contents q @ [msg]"
    using True len by (simp add: mq_contents_def take_Suc_conv_app_nth)
  moreover have "mq_ok (?q, s')" using True len s'(2) by (simp add: mq_ok_def waiters_ok_def)
  ultimately show ?thesis using that [of ?q s'] True s'(3) by simp
qed

lemma mq_dequeue_spec:
  assumes inv: "mq_ok (q, s)"
  obtains q' where "mq_dequeue q = ok ((case mq_contents q of [] \<Rightarrow> None | m # _ \<Rightarrow> Some m), q')" and "mq_ok (q', s)"
    and "mq_contents q' = tl (mq_contents q)" and "mq_wait_list q' = mq_wait_list q"
proof (cases "m_pending_count q")
  case 0
  then have "mq_dequeue q = ok (None, q)" "mq_contents q = []" by (simp_all add: mq_dequeue_def mq_is_empty_def mq_contents_def)
  then show ?thesis using that [of q] inv by simp
next
  case (Suc n)
  have len: "length (m_queue q) = MAX_PENDING_MESSAGES" "Suc n \<le> MAX_PENDING_MESSAGES" using inv Suc by (simp_all add: mq_ok_def)
  then obtain m ms where m: "m_queue q = m # ms" by (cases "m_queue q") auto
  let ?q = "q\<lparr>m_pending_count := n, m_queue := take n ms @ drop n (m # ms)\<rparr>"
  have "mq_dequeue q = ok (Some m, ?q)" using Suc len m by (simp add: mq_dequeue_def mq_is_empty_def Let_def)
  moreover have "mq_contents q = m # take n ms" using Suc m by (simp add: mq_contents_def)
  moreover have "mq_contents ?q = take n ms" using len m by (simp add: mq_contents_def)
  moreover have "mq_ok (?q, s)" using inv len m by (simp add: mq_ok_def)
  ultimately show ?thesis using that [of ?q] by simp
qed

lemma mq_peek_spec: "mq_ok (q, s) \<Longrightarrow> mq_peek q = ok (case mq_contents q of [] \<Rightarrow> None | m # _ \<Rightarrow> Some m)"
  by (cases "m_queue q"; cases "m_pending_count q") (auto simp: mq_peek_def mq_is_empty_def mq_contents_def mq_ok_def MAX_PENDING_MESSAGES_def)

subsection \<open>Runs\<close>

datatype 'm mq_op = Post 'm | Fetch

text \<open>A run collects the messages that were accepted and those that were delivered.\<close>

fun mq_run :: "'m mq_op list \<Rightarrow> ('m message_queue \<times> task_manager) \<times> 'm list \<times> 'm list \<Rightarrow>
   (('m message_queue \<times> task_manager) \<times> 'm list \<times> 'm list) outcome" where
  "mq_run [] st = ok st"
| "mq_run (Post m # ops) ((q, s), accepted, delivered) =
     bindE (mq_enqueue s q m) (\<lambda>(b, q, s). mq_run ops ((q, s), accepted @ (if b then [m] else []), delivered))"
| "mq_run (Fetch # ops) ((q, s), accepted, delivered) =
     bindE (mq_dequeue q) (\<lambda>(m, q). mq_run ops ((q, s), accepted, delivered @ (case m of None \<Rightarrow> [] | Some x \<Rightarrow> [x])))"

lemma mq_run_conserves:
  assumes "mq_ok (q, s)" and "accepted = delivered @ mq_contents q"
  shows "\<exists>q' s' a d. mq_run ops ((q, s), accepted, delivered) = ok ((q', s'), a, d) \<and> mq_ok (q', s') \<and> a = d @ mq_contents q'"
  using assms
proof (induction ops arbitrary: q s accepted delivered)
  case (Cons x ops)
  show ?case
  proof (cases x)
    case (Post m)
    obtain q' s' where q': "mq_enqueue s q m = ok (m_pending_count q < MAX_PENDING_MESSAGES, q', s')" "mq_ok (q', s')"
      "mq_contents q' = mq_contents q @ (if m_pending_count q < MAX_PENDING_MESSAGES then [m] else [])"
      using mq_enqueue_spec [OF Cons.prems(1), of m] by metis
    from Cons.IH [OF q'(2)] show ?thesis using q' Post Cons.prems(2) by simp
  next
    case Fetch
    obtain q' where q': "mq_dequeue q = ok ((case mq_contents q of [] \<Rightarrow> None | m # _ \<Rightarrow> Some m), q')" "mq_ok (q', s)"
      "mq_contents q' = tl (mq_contents q)" using mq_dequeue_spec [OF Cons.prems(1)] by metis
    have "accepted = (delivered @ (case case mq_contents q of [] \<Rightarrow> None | m # _ \<Rightarrow> Some m of None \<Rightarrow> [] | Some x \<Rightarrow> [x])) @ mq_contents q'"
      using q'(3) Cons.prems(2) by (cases "mq_contents q") simp_all
    from Cons.IH [OF q'(2) this] show ?thesis using q'(1) Fetch by simp
  qed
qed auto

subsection \<open>Properties\<close>

text \<open>
  C15. Messages are delivered in the order in which they were accepted, none lost and none twice, and a
  message is refused only when 64 are pending; no access leaves the array.
\<close>

theorem message_queue_is_fifo:
  assumes "mq_ok (q, s)" and "mq_contents q = []"
  shows "\<exists>q' s' accepted delivered. mq_run ops ((q, s), [], []) = ok ((q', s'), accepted, delivered)
    \<and> accepted = delivered @ mq_contents q' \<and> length (mq_contents q') \<le> 64
    \<and> (\<exists>q2 s2. mq_enqueue s' q' m = ok (length (mq_contents q') < 64, q2, s2))"
proof -
  obtain q' s' a d where r: "mq_run ops ((q, s), [], []) = ok ((q', s'), a, d)" "mq_ok (q', s')" "a = d @ mq_contents q'"
    using mq_run_conserves [OF assms(1), of "[]" "[]" ops] assms(2) by auto
  moreover have "length (mq_contents q') \<le> 64" using length_mq_contents [OF r(2)] r(2) by (simp add: mq_ok_def MAX_PENDING_MESSAGES_def)
  moreover have "\<exists>q2 s2. mq_enqueue s' q' m = ok (length (mq_contents q') < 64, q2, s2)"
    using mq_enqueue_spec [OF r(2), of m] length_mq_contents [OF r(2)] by (metis MAX_PENDING_MESSAGES_def)
  ultimately show ?thesis by blast
qed

theorem message_queue_is_fifo_witness:
  "\<exists>q' s' accepted delivered. mq_run [Post (5 :: nat), Post 6, Fetch]
      ((\<lparr>mq_wait_list = [1], m_pending_count = 0, m_queue = replicate 64 0\<rparr>, example_tm), [], []) = ok ((q', s'), accepted, delivered)
    \<and> accepted = delivered @ mq_contents q'"
proof -
  let ?q = "\<lparr>mq_wait_list = [1], m_pending_count = 0, m_queue = replicate 64 (0 :: nat)\<rparr>"
  have "tm_inv example_tm" by (rule tm_reachable_inv [OF example_reachable])
  then have "mq_ok (?q, example_tm)"
    by (simp add: mq_ok_def waiters_ok_def MAX_PENDING_MESSAGES_def) (simp add: example_tm_def)
  moreover have "mq_contents ?q = []" by (simp add: mq_contents_def)
  ultimately show ?thesis using message_queue_is_fifo [of ?q example_tm "[Post 5, Post 6, Fetch]" 0] by blast
qed

end
