(* ===== verification/C_String.thy ===== *)
theory C_String
  imports Prelude "HOL-Library.Sublist"
begin

text \<open>
  Byte strings and memory blocks: the user-space library's \<^verbatim>\<open>lib/libsyscall/src/string\<close> and the kernel's
  \<^verbatim>\<open>lib/libk/include/libk/string.hpp\<close>, whose \<^verbatim>\<open>strlen\<close>, \<^verbatim>\<open>memcmp\<close>, \<^verbatim>\<open>memset\<close>, \<^verbatim>\<open>memcpy\<close> and \<^verbatim>\<open>memmove\<close> are the same code.
  Memory is a function from addresses to bytes, a plain \<^verbatim>\<open>char\<close> is unsigned as on AArch64. A loop that
  runs to a terminator is a \<open>partial_function\<close>, \<open>None\<close> if there is none; the lemmas show that it returns on
  every terminated string.
\<close>

subsection \<open>Model\<close>

type_synonym mem = "nat \<Rightarrow> u8"

partial_function (option) strlen_loop :: "mem \<Rightarrow> nat \<Rightarrow> nat \<Rightarrow> nat option" where
  "strlen_loop m str len = (if m str \<noteq> 0 then strlen_loop m (str + 1) (len + 1) else Some len)"

definition strlen :: "mem \<Rightarrow> nat \<Rightarrow> nat option" where
  "strlen m str = strlen_loop m str 0"

partial_function (option) strcpy_loop :: "mem \<Rightarrow> nat \<Rightarrow> nat \<Rightarrow> mem option" where
  "strcpy_loop m dst src =
     (let c = m src; m' = m(dst := c) in if c \<noteq> 0 then strcpy_loop m' (dst + 1) (src + 1) else Some m')"

definition strcpy :: "mem \<Rightarrow> nat \<Rightarrow> nat \<Rightarrow> (nat \<times> mem) option" where
  "strcpy m dst src = map_option (\<lambda>m'. (dst, m')) (strcpy_loop m dst src)"

partial_function (option) strcmp :: "mem \<Rightarrow> nat \<Rightarrow> nat \<Rightarrow> int option" where
  "strcmp m lhs rhs =
     (if m lhs \<noteq> 0 \<and> m lhs = m rhs then strcmp m (lhs + 1) (rhs + 1)
      else Some (uint (m lhs) - uint (m rhs)))"

fun strncmp :: "mem \<Rightarrow> nat \<Rightarrow> nat \<Rightarrow> nat \<Rightarrow> int" where
  "strncmp m lhs rhs 0 = 0"
| "strncmp m lhs rhs (Suc count) =
     (if m lhs \<noteq> 0 \<and> m lhs = m rhs then strncmp m (lhs + 1) (rhs + 1) count
      else uint (m lhs) - uint (m rhs))"

partial_function (option) strchr :: "mem \<Rightarrow> nat \<Rightarrow> u8 \<Rightarrow> nat option option" where
  "strchr m str ch =
     (if m str = ch then Some (Some str)
      else if m str \<noteq> 0 then strchr m (str + 1) ch else Some None)"

fun strrchr_back :: "mem \<Rightarrow> nat \<Rightarrow> u8 \<Rightarrow> nat \<Rightarrow> nat option" where
  "strrchr_back m str ch 0 = None"
| "strrchr_back m str ch (Suc i) = (if m (str + i) = ch then Some (str + i) else strrchr_back m str ch i)"

definition strrchr :: "mem \<Rightarrow> nat \<Rightarrow> u8 \<Rightarrow> nat option option" where
  "strrchr m str ch = map_option (\<lambda>n. strrchr_back m str ch (n + 1)) (strlen_loop m str 0)"

partial_function (option) strchrnul :: "mem \<Rightarrow> nat \<Rightarrow> u8 \<Rightarrow> nat option" where
  "strchrnul m str ch = (if m str \<noteq> 0 \<and> m str \<noteq> ch then strchrnul m (str + 1) ch else Some str)"

partial_function (option) strstr_loop :: "mem \<Rightarrow> nat \<Rightarrow> nat \<Rightarrow> nat \<Rightarrow> nat option option" where
  "strstr_loop m haystack needle needle_length =
     (if m haystack \<noteq> 0
      then if m haystack = m needle \<and> strncmp m haystack needle needle_length = 0 then Some (Some haystack)
           else strstr_loop m (haystack + 1) needle needle_length
      else Some None)"

definition strstr :: "mem \<Rightarrow> nat \<Rightarrow> nat \<Rightarrow> nat option option" where
  "strstr m haystack needle =
     (case strlen m needle of
        None \<Rightarrow> None
      | Some needle_length \<Rightarrow>
          if needle_length = 0 then Some (Some haystack) else strstr_loop m haystack needle needle_length)"

fun memchr :: "mem \<Rightarrow> nat \<Rightarrow> u8 \<Rightarrow> nat \<Rightarrow> nat option" where
  "memchr m p v 0 = None"
| "memchr m p v (Suc n) = (if m p = v then Some p else memchr m (p + 1) v n)"

fun memcmp :: "mem \<Rightarrow> nat \<Rightarrow> nat \<Rightarrow> nat \<Rightarrow> int" where
  "memcmp m p1 p2 0 = 0"
| "memcmp m p1 p2 (Suc n) =
     (if m p1 \<noteq> m p2 then uint (m p1) - uint (m p2) else memcmp m (p1 + 1) (p2 + 1) n)"

fun memset :: "mem \<Rightarrow> nat \<Rightarrow> u8 \<Rightarrow> nat \<Rightarrow> mem" where
  "memset m p v 0 = m"
| "memset m p v (Suc n) = memset (m(p := v)) (p + 1) v n"

definition bzero :: "mem \<Rightarrow> nat \<Rightarrow> nat \<Rightarrow> mem" where
  "bzero m p n = memset m p 0 n"

fun memcpy :: "mem \<Rightarrow> nat \<Rightarrow> nat \<Rightarrow> nat \<Rightarrow> mem" where
  "memcpy m d s 0 = m"
| "memcpy m d s (Suc n) = memcpy (m(d := m s)) (d + 1) (s + 1) n"

text \<open>The second loop of \<^verbatim>\<open>memmove\<close>, from the ends of the two blocks downwards.\<close>

fun copy_down :: "mem \<Rightarrow> nat \<Rightarrow> nat \<Rightarrow> nat \<Rightarrow> mem" where
  "copy_down m d s 0 = m"
| "copy_down m d s (Suc n) = copy_down (m(d - 1 := m (s - 1))) (d - 1) (s - 1) n"

definition memmove :: "mem \<Rightarrow> nat \<Rightarrow> nat \<Rightarrow> nat \<Rightarrow> mem" where
  "memmove m d s n = (if d \<le> s then memcpy m d s n else copy_down m (d + n) (s + n) n)"

subsection \<open>Blocks and terminated strings\<close>

definition block :: "mem \<Rightarrow> nat \<Rightarrow> nat \<Rightarrow> u8 list" where
  "block m p n = map (\<lambda>k. m (p + k)) [0..<n]"

definition c_string :: "mem \<Rightarrow> nat \<Rightarrow> u8 list \<Rightarrow> bool" where
  "c_string m p s \<longleftrightarrow> block m p (length s) = s \<and> 0 \<notin> set s \<and> m (p + length s) = 0"

lemma block_0 [simp]: "block m p 0 = []"
  by (simp add: block_def)

lemma length_block [simp]: "length (block m p n) = n"
  by (simp add: block_def)

lemma block_Suc: "block m p (Suc n) = m p # block m (p + 1) n"
  by (rule nth_equalityI) (auto simp: block_def nth_Cons' simp del: upt_Suc)

lemma nth_block: "k < n \<Longrightarrow> block m p n ! k = m (p + k)"
  by (simp add: block_def)

lemma c_string_Nil [simp]: "c_string m p [] \<longleftrightarrow> m p = 0"
  by (simp add: c_string_def)

lemma c_string_Cons [simp]: "c_string m p (c # s) \<longleftrightarrow> m p = c \<and> c \<noteq> 0 \<and> c_string m (p + 1) s"
  by (auto simp: c_string_def block_Suc)

subsection \<open>Lemmas\<close>

lemma strlen_loop_correct: "c_string m p s \<Longrightarrow> strlen_loop m p n = Some (n + length s)"
  by (induction s arbitrary: p n) (subst strlen_loop.simps, simp)+

lemma memset_get: "memset m p v n a = (if p \<le> a \<and> a < p + n then v else m a)"
  by (induction n arbitrary: m p) auto

lemma memcpy_get:
  assumes "d \<le> s \<or> s + n \<le> d"
  shows "memcpy m d s n a = (if d \<le> a \<and> a < d + n then m (s + (a - d)) else m a)"
  using assms
proof (induction n arbitrary: m d s)
  case (Suc n)
  have "d + 1 \<le> s + 1 \<or> s + 1 + n \<le> d + 1" using Suc.prems by auto
  note ih = Suc.IH [OF this, of "m(d := m s)"]
  show ?case
  proof (cases "d + 1 \<le> a \<and> a < d + 1 + n")
    case True
    then have "s + 1 + (a - (d + 1)) = s + (a - d)" "s + (a - d) \<noteq> d" using Suc.prems by linarith+
    then show ?thesis unfolding memcpy.simps ih using True by simp
  next
    case False
    then show ?thesis unfolding memcpy.simps ih using Suc.prems by auto
  qed
qed auto

lemma copy_down_get:
  assumes "s \<le> d"
  shows "copy_down m (d + n) (s + n) n a = (if d \<le> a \<and> a < d + n then m (s + (a - d)) else m a)"
  using assms
proof (induction n arbitrary: m)
  case (Suc n)
  have eq: "copy_down m (d + Suc n) (s + Suc n) (Suc n) = copy_down (m(d + n := m (s + n))) (d + n) (s + n) n" by simp
  show ?case unfolding eq Suc.IH [OF Suc.prems] using Suc.prems by auto
qed auto

lemma memmove_get: "memmove m d s n a = (if d \<le> a \<and> a < d + n then m (s + (a - d)) else m a)"
  by (simp add: memmove_def memcpy_get copy_down_get)

lemma memcmp_first_difference:
  "memcmp m p q n = (if block m p n = block m q n then 0
     else let k = length (longest_common_prefix (block m p n) (block m q n)) in uint (m (p + k)) - uint (m (q + k)))"
proof (induction n arbitrary: p q)
  case (Suc n)
  then show ?case by (simp add: block_Suc Let_def)
qed simp

lemma memchr_first:
  "memchr m p v n = (let k = length (takeWhile (\<lambda>c. c \<noteq> v) (block m p n)) in if k < n then Some (p + k) else None)"
proof (induction n arbitrary: p)
  case (Suc n)
  show ?case unfolding memchr.simps block_Suc Suc [of "p + 1"] by (simp add: Let_def)
qed simp

lemma strcpy_loop_correct:
  assumes "c_string m src s" and "dst + length s < src \<or> src + length s < dst"
  shows "\<exists>m'. strcpy_loop m dst src = Some m' \<and> c_string m' dst s
    \<and> (\<forall>a. \<not> (dst \<le> a \<and> a \<le> dst + length s) \<longrightarrow> m' a = m a)"
  using assms
proof (induction s arbitrary: m dst src)
  case Nil
  then show ?case by (subst strcpy_loop.simps) (simp add: Let_def)
next
  case (Cons c s)
  let ?m = "m(dst := m src)"
  have c: "m src = c" "c \<noteq> 0" "c_string m (src + 1) s" using Cons.prems(1) by simp_all
  have "block ?m (src + 1) (length s) = block m (src + 1) (length s)"
    using Cons.prems(2) by (auto simp: block_def)
  then have "c_string ?m (src + 1) s" using c(3) Cons.prems(2) by (auto simp: c_string_def)
  moreover have "dst + 1 + length s < src + 1 \<or> src + 1 + length s < dst + 1" using Cons.prems(2) by auto
  ultimately obtain m' where m': "strcpy_loop ?m (dst + 1) (src + 1) = Some m'" "c_string m' (dst + 1) s"
      "\<forall>a. \<not> (dst + 1 \<le> a \<and> a \<le> dst + 1 + length s) \<longrightarrow> m' a = ?m a" using Cons.IH by blast
  have "strcpy_loop m dst src = Some m'" using m'(1) c by (subst strcpy_loop.simps) (simp add: Let_def)
  moreover have "m' dst = c" using m'(3) c(1) by simp
  moreover have "m' a = m a" if "\<not> (dst \<le> a \<and> a \<le> dst + length (c # s))" for a using m'(3) that by auto
  ultimately show ?case using m'(2) c(2) by auto
qed

lemma strcmp_correct:
  assumes "c_string m p s" and "c_string m q t"
  shows "\<exists>r. strcmp m p q = Some r \<and> (r = 0 \<longleftrightarrow> s = t) \<and> (r < 0 \<longleftrightarrow> (s, t) \<in> lexord {(a, b). a < b})"
  using assms
proof (induction s arbitrary: t p q)
  case Nil
  then show ?case by (cases t) (subst strcmp.simps, simp add: word_less_def word_neq_0_conv)+
next
  case (Cons c s)
  then show ?case
  proof (cases t)
    case Nil
    then show ?thesis using Cons.prems by (subst strcmp.simps) (simp add: not_less unsigned_eq_0_iff)
  next
    case (Cons d t')
    show ?thesis
    proof (cases "c = d")
      case True
      then have "strcmp m p q = strcmp m (p + 1) (q + 1)"
        using Cons Cons.prems \<open>c_string m p (c # s)\<close> \<open>c_string m q t\<close> by (subst strcmp.simps) simp
      then show ?thesis using Cons.IH [of "p + 1" "q + 1" t'] Cons Cons.prems True \<open>c_string m p (c # s)\<close> \<open>c_string m q t\<close> by simp
    next
      case False
      then have "strcmp m p q = Some (uint c - uint d)"
        using Cons \<open>c_string m p (c # s)\<close> \<open>c_string m q t\<close> by (subst strcmp.simps) simp
      then show ?thesis using Cons False by (simp add: word_less_def word_uint_eq_iff)
    qed
  qed
qed

lemma block_prefix:
  "c_string m p s \<Longrightarrow> 0 \<notin> set t \<Longrightarrow> block m p (length t) = t \<longleftrightarrow> prefix t s"
proof (induction t arbitrary: p s)
  case (Cons d t)
  then show ?case by (cases s) (auto simp: block_Suc)
qed simp

lemma strncmp_zero:
  "c_string m q t \<Longrightarrow> strncmp m p q (length t) = 0 \<longleftrightarrow> block m p (length t) = t"
proof (induction t arbitrary: p q)
  case (Cons d t)
  then show ?case by (auto simp: block_Suc unsigned_eq_0_iff dest: word_uint_eqI)
qed simp

text \<open>\<open>first_at s t k\<close>: the first occurrence of \<open>t\<close> in \<open>s\<close> starts at \<open>k\<close>.\<close>

definition first_at :: "u8 list \<Rightarrow> u8 list \<Rightarrow> nat \<Rightarrow> bool" where
  "first_at s t k \<longleftrightarrow> k \<le> length s \<and> prefix t (drop k s) \<and> (\<forall>j<k. \<not> prefix t (drop j s))"

lemma first_at_0: "prefix t s \<Longrightarrow> first_at s t 0"
  by (simp add: first_at_def)

lemma first_at_Suc: "first_at s t k \<Longrightarrow> \<not> prefix t (c # s) \<Longrightarrow> first_at (c # s) t (Suc k)"
  by (auto simp: first_at_def less_Suc_eq_0_disj)

lemma strstr_loop_correct:
  assumes "c_string m h s" and "c_string m q t" and "t \<noteq> []"
  shows "\<exists>r. strstr_loop m h q (length t) = Some r
    \<and> (case r of None \<Rightarrow> \<not> sublist t s | Some a \<Rightarrow> \<exists>k. a = h + k \<and> first_at s t k)"
  using assms(1)
proof (induction s arbitrary: h)
  case Nil
  then show ?case using assms(3) by (subst strstr_loop.simps) simp
next
  case (Cons c s)
  obtain d t' where t: "t = d # t'" using assms(3) by (cases t) auto
  have hit: "strncmp m h q (length t) = 0 \<longleftrightarrow> prefix t (c # s)"
    using strncmp_zero [OF assms(2)] block_prefix [OF Cons.prems, of t] assms(2) by (simp add: c_string_def)
  have c: "m h = c" "c \<noteq> 0" "m q = d" "c_string m (h + 1) s" using Cons.prems assms(2) t by simp_all
  show ?case
  proof (cases "prefix t (c # s)")
    case True
    then have "strstr_loop m h q (length t) = Some (Some h)"
      using hit c t by (subst strstr_loop.simps) auto
    then show ?thesis using True by (auto intro: exI [of _ 0] first_at_0)
  next
    case False
    then have step: "strstr_loop m h q (length t) = strstr_loop m (h + 1) q (length t)"
      using hit c by (subst strstr_loop.simps) simp
    obtain r where r: "strstr_loop m (h + 1) q (length t) = Some r"
        "case r of None \<Rightarrow> \<not> sublist t s | Some a \<Rightarrow> \<exists>k. a = h + 1 + k \<and> first_at s t k"
      using Cons.IH [OF c(4)] by blast
    have "case r of None \<Rightarrow> \<not> sublist t (c # s) | Some a \<Rightarrow> \<exists>k. a = h + k \<and> first_at (c # s) t k"
    proof (cases r)
      case None
      then show ?thesis using r(2) False by (simp add: sublist_Cons_right)
    next
      case (Some a)
      then obtain k where "a = h + 1 + k" "first_at s t k" using r(2) by auto
      then show ?thesis using Some first_at_Suc [OF _ False] by (auto intro: exI [of _ "Suc k"])
    qed
    then show ?thesis using step r(1) by auto
  qed
qed

lemma strchr_correct:
  "c_string m p s \<Longrightarrow> strchr m p ch = Some (let k = length (takeWhile (\<lambda>c. c \<noteq> ch) s) in
     if k < length s \<or> ch = 0 then Some (p + k) else None)"
proof (induction s arbitrary: p)
  case Nil
  then show ?case by (subst strchr.simps) auto
next
  case (Cons c s)
  then show ?case using Cons.IH [of "p + 1"] by (subst strchr.simps) (auto simp: Let_def)
qed

lemma strchrnul_correct:
  "c_string m p s \<Longrightarrow> strchrnul m p ch = Some (p + length (takeWhile (\<lambda>c. c \<noteq> ch) s))"
proof (induction s arbitrary: p)
  case Nil
  then show ?case by (subst strchrnul.simps) auto
next
  case (Cons c s)
  then show ?case using Cons.IH [of "p + 1"] by (subst strchrnul.simps) auto
qed

lemma strrchr_back_last:
  "strrchr_back m p ch n = (if \<exists>k<n. m (p + k) = ch then Some (p + Max {k. k < n \<and> m (p + k) = ch}) else None)"
proof (induction n)
  case (Suc n)
  show ?case
  proof (cases "m (p + n) = ch")
    case True
    then have "Max {k. k < Suc n \<and> m (p + k) = ch} = n" by (intro Max_eqI) auto
    then show ?thesis using True by auto
  next
    case False
    then have "{k. k < Suc n \<and> m (p + k) = ch} = {k. k < n \<and> m (p + k) = ch}" by (auto simp: less_Suc_eq)
    then show ?thesis using False Suc by (auto simp: less_Suc_eq)
  qed
qed simp

subsection \<open>Properties\<close>

text \<open>
  \<^verbatim>\<open>memmove\<close> copies the block as it was before the call, whether or not the two blocks overlap and on
  whichever side, and changes no byte outside the destination.
\<close>

lemma memmove_copies_overlapping_blocks:
  "block (memmove m d s n) d n = block m s n \<and> (\<forall>a. a < d \<or> d + n \<le> a \<longrightarrow> memmove m d s n a = m a)"
proof
  show "block (memmove m d s n) d n = block m s n" by (rule nth_equalityI) (auto simp: nth_block memmove_get)
  show "\<forall>a. a < d \<or> d + n \<le> a \<longrightarrow> memmove m d s n a = m a" by (auto simp: memmove_get)
qed

text \<open>
  On two terminated strings \<^verbatim>\<open>strcmp\<close> returns, zero exactly when they are equal and a negative number
  exactly when the first is smaller in the lexicographic order of unsigned bytes.
\<close>

lemma strcmp_is_lexicographic:
  assumes "c_string m p s" and "c_string m q t"
  shows "\<exists>r. strcmp m p q = Some r \<and> (r = 0 \<longleftrightarrow> s = t) \<and> (r < 0 \<longleftrightarrow> (s, t) \<in> lexord {(a, b). a < b})"
  by (rule strcmp_correct [OF assms])

text \<open>
  C18. On two terminated strings \<^verbatim>\<open>strstr\<close> returns the first position at which the second occurs in the
  first, the beginning for an empty one, and the null pointer exactly when it does not occur.
\<close>

theorem strstr_finds_first_occurrence:
  assumes "c_string m p s" and "c_string m q t"
  shows "\<exists>r. strstr m p q = Some r \<and> (case r of None \<Rightarrow> \<not> sublist t s | Some a \<Rightarrow> \<exists>k. a = p + k \<and> first_at s t k)"
proof (cases "t = []")
  case True
  then show ?thesis using strlen_loop_correct [OF assms(2), of 0] by (simp add: strstr_def strlen_def first_at_def)
next
  case False
  then have "strstr m p q = strstr_loop m p q (length t)"
    using strlen_loop_correct [OF assms(2), of 0] by (simp add: strstr_def strlen_def)
  then show ?thesis using strstr_loop_correct [OF assms False] by simp
qed

theorem strstr_finds_first_occurrence_witness:
  "\<exists>r. strstr ((\<lambda>_. 0)(0 := 1, 1 := 2, 2 := 3, 10 := 2, 11 := 3)) 0 10 = Some r \<and> r \<noteq> None"
proof -
  let ?m = "(\<lambda>_. 0)(0 := 1, 1 := 2, 2 := 3, 10 := 2, 11 := 3) :: mem"
  have "sublist [2, 3 :: u8] [1, 2, 3]" by (simp add: sublist_Cons_right)
  then show ?thesis using strstr_finds_first_occurrence [of ?m 0 "[1, 2, 3]" 10 "[2, 3]"] by (auto split: option.splits)
qed

end
