(* ===== verification/Key_Event.thy ===== *)
theory Key_Event
  imports Prelude
begin

text \<open>
  Key events, \<^verbatim>\<open>lib/libsyscall/src/sys/keyboard.c\<close>: a 64-bit word that packs a key code (bits 0 to 15), the
  state of the modifiers (bits 20 to 26) and the kind of the event (bits 30 and 31). The kernel's input
  layer builds events with \<^verbatim>\<open>sys_create_press_event\<close> and \<^verbatim>\<open>sys_create_release_event\<close>; programs read them with the
  other functions. The lemmas show that reading returns what was packed.
\<close>

subsection \<open>Model\<close>

type_synonym key_event = u64
type_synonym key_modifiers = u32
type_synonym key_code = u32

definition MASK :: "nat \<Rightarrow> u64" where
  "MASK x = push_bit x 1"

definition SYS_KEY_MOD_CTRL :: u32 where "SYS_KEY_MOD_CTRL = 0x1"

definition SYS_KEY_MOD_SHIFT :: u32 where "SYS_KEY_MOD_SHIFT = 0x2"

definition SYS_KEY_MOD_ALT :: u32 where "SYS_KEY_MOD_ALT = 0x4"

definition SYS_KEY_MOD_GUI :: u32 where "SYS_KEY_MOD_GUI = 0x8"

definition SYS_KEY_MOD_NUM :: u32 where "SYS_KEY_MOD_NUM = 0x10"

definition SYS_KEY_MOD_CAPS :: u32 where "SYS_KEY_MOD_CAPS = 0x20"

definition SYS_KEY_MOD_SCROLL :: u32 where "SYS_KEY_MOD_SCROLL = 0x40"

definition sys_is_ctrl_pressed :: "key_event \<Rightarrow> bool" where
  "sys_is_ctrl_pressed event \<longleftrightarrow> event AND MASK 20 \<noteq> 0"

definition sys_is_shift_pressed :: "key_event \<Rightarrow> bool" where
  "sys_is_shift_pressed event \<longleftrightarrow> event AND MASK 21 \<noteq> 0"

definition sys_is_alt_pressed :: "key_event \<Rightarrow> bool" where
  "sys_is_alt_pressed event \<longleftrightarrow> event AND MASK 22 \<noteq> 0"

definition sys_is_gui_pressed :: "key_event \<Rightarrow> bool" where
  "sys_is_gui_pressed event \<longleftrightarrow> event AND MASK 23 \<noteq> 0"

definition sys_is_num_lock_on :: "key_event \<Rightarrow> bool" where
  "sys_is_num_lock_on event \<longleftrightarrow> event AND MASK 24 \<noteq> 0"

definition sys_is_caps_lock_on :: "key_event \<Rightarrow> bool" where
  "sys_is_caps_lock_on event \<longleftrightarrow> event AND MASK 25 \<noteq> 0"

definition sys_is_scroll_lock_on :: "key_event \<Rightarrow> bool" where
  "sys_is_scroll_lock_on event \<longleftrightarrow> event AND MASK 26 \<noteq> 0"

definition sys_get_key_code :: "key_event \<Rightarrow> key_code" where
  "sys_get_key_code event = ucast (event AND 0xffff)"

definition sys_is_press_event :: "key_event \<Rightarrow> bool" where
  "sys_is_press_event event \<longleftrightarrow> event AND MASK 30 \<noteq> 0"

definition sys_is_release_event :: "key_event \<Rightarrow> bool" where
  "sys_is_release_event event \<longleftrightarrow> event AND MASK 31 \<noteq> 0"

text \<open>One line of the packing code: \<^verbatim>\<open>e |= (mods & FLAG) != 0 ? BIT : 0\<close>.\<close>

definition pack_flag :: "key_modifiers \<Rightarrow> u32 \<Rightarrow> nat \<Rightarrow> u64 \<Rightarrow> u64" where
  "pack_flag mods flag b e = e OR (if mods AND flag \<noteq> 0 then MASK b else 0)"

definition pack_modifiers :: "key_code \<Rightarrow> key_modifiers \<Rightarrow> u64" where
  "pack_modifiers code mods =
     (let e = ucast code;
          e = pack_flag mods SYS_KEY_MOD_CTRL 20 e;
          e = pack_flag mods SYS_KEY_MOD_SHIFT 21 e;
          e = pack_flag mods SYS_KEY_MOD_ALT 22 e;
          e = pack_flag mods SYS_KEY_MOD_GUI 23 e;
          e = pack_flag mods SYS_KEY_MOD_NUM 24 e;
          e = pack_flag mods SYS_KEY_MOD_CAPS 25 e;
          e = pack_flag mods SYS_KEY_MOD_SCROLL 26 e
      in e)"

definition sys_create_press_event :: "key_code \<Rightarrow> key_modifiers \<Rightarrow> key_event" where
  "sys_create_press_event code mods = pack_modifiers code mods OR MASK 30"

definition sys_create_release_event :: "key_code \<Rightarrow> key_modifiers \<Rightarrow> key_event" where
  "sys_create_release_event code mods = pack_modifiers code mods OR MASK 31"

subsection \<open>Lemmas\<close>

lemma bit_MASK: "bit (MASK x) n \<longleftrightarrow> n = x \<and> n < 64"
proof -
  have "MASK x = (2 ^ x :: u64)" by (simp add: MASK_def)
  then show ?thesis using bit_exp_iff [of x n, where 'a = u64] by (auto simp: possible_bit_word)
qed

lemma and_MASK: "x < 64 \<Longrightarrow> e AND MASK x \<noteq> 0 \<longleftrightarrow> bit e x"
proof
  assume x: "x < 64" and "e AND MASK x \<noteq> 0"
  then obtain n where "bit (e AND MASK x) n" by (metis bit_0_eq bot_apply bot_bool_def bit_eqI)
  then show "bit e x" by (auto simp: bit_and_iff bit_MASK)
next
  assume "x < 64" and "bit e x"
  then have "bit (e AND MASK x) x" by (simp add: bit_and_iff bit_MASK)
  then show "e AND MASK x \<noteq> 0" by (metis bit_0_eq bot_apply bot_bool_def)
qed

lemma bit_pack_flag: "bit (pack_flag mods flag b e) n \<longleftrightarrow> bit e n \<or> (n = b \<and> n < 64 \<and> mods AND flag \<noteq> 0)"
  by (simp add: pack_flag_def bit_or_iff bit_MASK)

lemma small_code_bit: "\<not> bit code n" if "code < 0x10000" "16 \<le> n" for code :: u32
proof -
  have "unat code < 2 ^ 16" using that(1) by (simp add: word_less_nat_alt)
  then have "take_bit 16 (unat code) = unat code" by (simp add: take_bit_nat_eq_self)
  then have "\<not> bit (unat code) n" using that(2) by (metis bit_take_bit_iff linorder_not_le)
  then show ?thesis by (simp add: bit_unsigned_iff)
qed

lemma key_code_mask: "bit (0xffff :: u64) n \<longleftrightarrow> n < 16"
proof -
  have m: "(0xffff :: u64) = mask 16" by (simp add: mask_eq_exp_minus_1)
  show ?thesis unfolding m bit_mask_iff by (auto simp: possible_bit_word)
qed

lemmas getter_defs = sys_is_ctrl_pressed_def sys_is_shift_pressed_def sys_is_alt_pressed_def sys_is_gui_pressed_def
  sys_is_num_lock_on_def sys_is_caps_lock_on_def sys_is_scroll_lock_on_def sys_is_press_event_def sys_is_release_event_def

lemma bit_pack_modifiers:
  assumes "code < 0x10000"
  shows "bit (pack_modifiers code mods) n \<longleftrightarrow>
    (if n < 16 then bit code n
     else (n = 20 \<and> mods AND SYS_KEY_MOD_CTRL \<noteq> 0) \<or> (n = 21 \<and> mods AND SYS_KEY_MOD_SHIFT \<noteq> 0) \<or> (n = 22 \<and> mods AND SYS_KEY_MOD_ALT \<noteq> 0)
       \<or> (n = 23 \<and> mods AND SYS_KEY_MOD_GUI \<noteq> 0) \<or> (n = 24 \<and> mods AND SYS_KEY_MOD_NUM \<noteq> 0) \<or> (n = 25 \<and> mods AND SYS_KEY_MOD_CAPS \<noteq> 0)
       \<or> (n = 26 \<and> mods AND SYS_KEY_MOD_SCROLL \<noteq> 0))"
proof -
  have u: "bit (ucast code :: u64) n \<longleftrightarrow> n < 16 \<and> bit code n"
    using small_code_bit [OF assms, of n] by (simp add: bit_unsigned_iff possible_bit_word) linarith
  show ?thesis
    unfolding pack_modifiers_def Let_def bit_pack_flag u by (cases "n < 16") (simp_all add: disj_assoc cong: conj_cong)
qed

subsection \<open>Properties\<close>

text \<open>
  For every key code of at most 16 bits and every set of modifiers, a packed event yields back the
  key code and each of the seven modifiers, and it is a press event or a release event as created,
  never both.
\<close>

lemma key_event_round_trip:
  assumes "code < 0x10000" and "e = (if press then sys_create_press_event code mods else sys_create_release_event code mods)"
  shows "sys_get_key_code e = code \<and> (sys_is_press_event e \<longleftrightarrow> press) \<and> (sys_is_release_event e \<longleftrightarrow> \<not> press)
    \<and> (sys_is_ctrl_pressed e \<longleftrightarrow> mods AND SYS_KEY_MOD_CTRL \<noteq> 0) \<and> (sys_is_shift_pressed e \<longleftrightarrow> mods AND SYS_KEY_MOD_SHIFT \<noteq> 0)
    \<and> (sys_is_alt_pressed e \<longleftrightarrow> mods AND SYS_KEY_MOD_ALT \<noteq> 0) \<and> (sys_is_gui_pressed e \<longleftrightarrow> mods AND SYS_KEY_MOD_GUI \<noteq> 0)
    \<and> (sys_is_num_lock_on e \<longleftrightarrow> mods AND SYS_KEY_MOD_NUM \<noteq> 0) \<and> (sys_is_caps_lock_on e \<longleftrightarrow> mods AND SYS_KEY_MOD_CAPS \<noteq> 0)
    \<and> (sys_is_scroll_lock_on e \<longleftrightarrow> mods AND SYS_KEY_MOD_SCROLL \<noteq> 0)"
proof -
  have b: "bit e n \<longleftrightarrow> bit (pack_modifiers code mods) n \<or> n = (if press then 30 else 31)" for n
    using assms(2) by (auto simp: sys_create_press_event_def sys_create_release_event_def bit_or_iff bit_MASK)
  have "sys_get_key_code e = code"
    unfolding sys_get_key_code_def
  proof (rule bit_eqI)
    fix n assume "possible_bit TYPE(u32) n"
    then have n: "n < 32" by (simp add: possible_bit_word)
    then show "bit (ucast (e AND 0xffff) :: u32) n \<longleftrightarrow> bit code n"
      using b [of n] bit_pack_modifiers [OF assms(1), of mods n] small_code_bit [OF assms(1), of n]
      unfolding bit_unsigned_iff bit_and_iff key_code_mask by (auto simp: possible_bit_word)
  qed
  then show ?thesis
    unfolding getter_defs
    by (simp add: and_MASK b bit_pack_modifiers [OF assms(1)])
qed

end
