(* ===== verification/Fat_Types.thy ===== *)
theory Fat_Types
  imports Prelude
begin

text \<open>
  Data of the FAT file system module \<^verbatim>\<open>kernel/fs/fat\<close> in the configuration of \<^verbatim>\<open>ffconf.h\<close>: read-only, one volume,
  512-byte sectors, 64-bit sector numbers, exFAT and long names enabled, UTF-8 paths, code page 850. The
  structures of \<^verbatim>\<open>ff.h\<close> are records with the fields that exist in this configuration. A byte buffer is a function
  from offsets. A pointer to the only \<^verbatim>\<open>FATFS\<close> object of the kernel is a truth value (false is the null pointer)
  and a pointer into its sector window is the offset.
\<close>

subsection \<open>Types\<close>

type_synonym bytes = "nat \<Rightarrow> u8"
type_synonym wchars = "nat \<Rightarrow> u16"

datatype FRESULT = FR_OK | FR_DISK_ERR | FR_INT_ERR | FR_NOT_READY | FR_NO_FILE | FR_NO_PATH | FR_INVALID_NAME
  | FR_DENIED | FR_EXIST | FR_INVALID_OBJECT | FR_WRITE_PROTECTED | FR_INVALID_DRIVE | FR_NOT_ENABLED
  | FR_NO_FILESYSTEM | FR_MKFS_ABORTED | FR_TIMEOUT | FR_LOCKED | FR_NOT_ENOUGH_CORE | FR_TOO_MANY_OPEN_FILES
  | FR_INVALID_PARAMETER

record FATFS =
  fs_type :: u8
  pdrv :: u8
  n_fats :: u8
  wflag :: u8
  fs_id :: u16
  n_rootdir :: u16
  csize :: u16
  lfnbuf :: wchars
  dirbuf :: bytes
  n_fatent :: u32
  fat_size :: u32
  volbase :: u64
  fatbase :: u64
  dirbase :: u64
  database :: u64
  bitbase :: u64
  winsect :: u64
  win :: bytes

record FFOBJID =
  obj_fs :: bool
  obj_id :: u16
  attr :: u8
  stat :: u8
  sclust :: u32
  objsize :: u64
  n_cont :: u32
  n_frag :: u32
  c_scl :: u32
  c_size :: u32
  c_ofs :: u32

record FIL =
  fil_obj :: FFOBJID
  flag :: u8
  err :: FRESULT
  fptr :: u64
  clust :: u32
  sect :: u64
  buf :: bytes

record DIR =
  dir_obj :: FFOBJID
  dptr :: u32
  dir_clust :: u32
  dir_sect :: u64
  dir :: nat
  fn :: bytes
  blk_ofs :: u32

record FILINFO =
  fi_size :: u64
  fdate :: u16
  ftime :: u16
  fattrib :: u8
  altname :: bytes
  fname :: bytes

subsection \<open>Constants\<close>

abbreviation SS :: "'a::numeral" where "SS \<equiv> 512"

abbreviation FS_FAT12 :: u8 where "FS_FAT12 \<equiv> 1"

abbreviation FS_FAT16 :: u8 where "FS_FAT16 \<equiv> 2"

abbreviation FS_FAT32 :: u8 where "FS_FAT32 \<equiv> 3"

abbreviation FS_EXFAT :: u8 where "FS_EXFAT \<equiv> 4"

abbreviation MAX_DIR :: u32 where "MAX_DIR \<equiv> 0x200000"

abbreviation MAX_DIR_EX :: u32 where "MAX_DIR_EX \<equiv> 0x10000000"

abbreviation SZDIRE :: "'a::numeral" where "SZDIRE \<equiv> 32"

abbreviation AM_DIR :: u8 where "AM_DIR \<equiv> 0x10"

abbreviation AM_ARC :: u8 where "AM_ARC \<equiv> 0x20"

abbreviation AM_VOL :: u8 where "AM_VOL \<equiv> 0x08"

abbreviation AM_LFN :: u8 where "AM_LFN \<equiv> 0x0F"

abbreviation AM_MASK :: u8 where "AM_MASK \<equiv> 0x3F"

abbreviation AM_MASKX :: u8 where "AM_MASKX \<equiv> 0x37"

abbreviation FA_READ :: u8 where "FA_READ \<equiv> 0x01"

abbreviation FF_MAX_LFN :: "'a::numeral" where "FF_MAX_LFN \<equiv> 255"

subsection \<open>Little-endian loads\<close>

definition ld_word :: "bytes \<Rightarrow> nat \<Rightarrow> u16" where
  "ld_word b ptr =
     (let rv = ucast (b (ptr + 1));
          rv = push_bit 8 rv OR ucast (b ptr)
      in rv)"

definition ld_dword :: "bytes \<Rightarrow> nat \<Rightarrow> u32" where
  "ld_dword b ptr =
     (let rv = ucast (b (ptr + 3));
          rv = push_bit 8 rv OR ucast (b (ptr + 2));
          rv = push_bit 8 rv OR ucast (b (ptr + 1));
          rv = push_bit 8 rv OR ucast (b ptr)
      in rv)"

definition ld_qword :: "bytes \<Rightarrow> nat \<Rightarrow> u64" where
  "ld_qword b ptr =
     (let rv = ucast (b (ptr + 7));
          rv = push_bit 8 rv OR ucast (b (ptr + 6));
          rv = push_bit 8 rv OR ucast (b (ptr + 5));
          rv = push_bit 8 rv OR ucast (b (ptr + 4));
          rv = push_bit 8 rv OR ucast (b (ptr + 3));
          rv = push_bit 8 rv OR ucast (b (ptr + 2));
          rv = push_bit 8 rv OR ucast (b (ptr + 1));
          rv = push_bit 8 rv OR ucast (b ptr)
      in rv)"

subsection \<open>Lemmas\<close>

lemma ld_word_cong:
  assumes "\<And>i. i < 2 \<Longrightarrow> b (p + i) = c (q + i)"
  shows "ld_word b p = ld_word c q"
  using assms [of 0] assms [of 1] by (simp add: ld_word_def)

lemma ld_dword_cong:
  assumes "\<And>i. i < 4 \<Longrightarrow> b (p + i) = c (q + i)"
  shows "ld_dword b p = ld_dword c q"
  using assms [of 0] assms [of 1] assms [of 2] assms [of 3] by (simp add: ld_dword_def)

text \<open>Appending a byte below a word that has room for it is multiplication and addition.\<close>

lemma unat_append_byte:
  fixes rv :: "'a::len word" and x :: u8
  assumes "unat rv * 256 < 2 ^ LENGTH('a)" "8 \<le> LENGTH('a)"
  shows "unat (push_bit 8 rv OR ucast x) = unat rv * 256 + unat x"
proof -
  have x: "unat x < 256" using unsigned_less [of x, where ?'a = nat] by simp
  have "push_bit 8 rv AND ucast x = 0"
    by (rule bit_eqI) (auto simp: bit_and_iff bit_push_bit_iff bit_unsigned_iff dest: bit_imp_le_length)
  then have "push_bit 8 rv OR ucast x = push_bit 8 rv + ucast x"
    by (simp add: disjunctive_add_eq_or)
  moreover have "unat (push_bit 8 rv) = unat rv * 256"
    using assms(1) by (simp add: push_bit_eq_mult unat_word_ariths take_bit_eq_mod mod_mult_right_eq)
  moreover have "unat (ucast x :: 'a word) = unat x"
    using order_less_le_trans [OF x, of "2 ^ LENGTH('a)"] power_increasing [OF assms(2), of "2::nat"]
    by (simp add: unsigned_ucast_eq take_bit_nat_eq_self)
  moreover have "unat rv * 256 + unat x < 2 ^ LENGTH('a)"
  proof -
    define k where "k = LENGTH('a) - 8"
    have "LENGTH('a) = 8 + k" using assms(2) by (simp add: k_def)
    then have k: "2 ^ LENGTH('a) = 256 * (2 ^ k :: nat)" by (simp add: power_add)
    have "unat rv < 2 ^ k" using assms(1) k by simp
    then have "unat rv * 256 + 256 \<le> 2 ^ k * 256" by (simp flip: mult_Suc)
    then show ?thesis using x k by simp
  qed
  ultimately show ?thesis by (simp add: unat_word_ariths)
qed

lemma unat_ucast_u8: "8 \<le> LENGTH('a::len) \<Longrightarrow> unat (ucast (x :: u8) :: 'a word) = unat x"
  using unat_append_byte [of "0 :: 'a word" x] by simp

lemma byte_lt: "unat (x :: u8) < 256"
  using unsigned_less [of x, where ?'a = nat] by simp

lemma unat_ld_word: "unat (ld_word b p) = unat (b p) + 256 * unat (b (p + 1))"
  using byte_lt [of "b (p + 1)"] by (simp add: ld_word_def unat_append_byte unat_ucast_u8)

lemma unat_ld_dword:
  "unat (ld_dword b p) = unat (b p) + 256 * (unat (b (p + 1)) + 256 * (unat (b (p + 2)) + 256 * unat (b (p + 3))))"
proof -
  note B = byte_lt [of "b (p + 1)"] byte_lt [of "b (p + 2)"] byte_lt [of "b (p + 3)"]
  define r3 :: u32 where "r3 = ucast (b (p + 3))"
  define r2 where "r2 = push_bit 8 r3 OR ucast (b (p + 2))"
  define r1 where "r1 = push_bit 8 r2 OR ucast (b (p + 1))"
  have 3: "unat r3 = unat (b (p + 3))" by (simp add: r3_def unat_ucast_u8)
  have 2: "unat r2 = unat r3 * 256 + unat (b (p + 2))"
    unfolding r2_def by (rule unat_append_byte) (use B 3 in simp_all)
  have 1: "unat r1 = unat r2 * 256 + unat (b (p + 1))"
    unfolding r1_def by (rule unat_append_byte) (use B 3 2 in simp_all)
  have "unat (push_bit 8 r1 OR ucast (b p)) = unat r1 * 256 + unat (b p)"
    by (rule unat_append_byte) (use B 3 2 1 in simp_all)
  then show ?thesis
    unfolding ld_dword_def Let_def r3_def [symmetric] r2_def [symmetric] r1_def [symmetric] by (simp add: 1 2 3)
qed

text \<open>A fact on bytes that computes is checked on all of them.\<close>

lemma byte_all: "(\<forall>x :: u8 \<in> set (map of_nat [0..<256]). P x) \<Longrightarrow> P b"
  using byte_lt [of b] by (auto dest: bspec [of _ _ "unat b"])

end
