(* ===== verification/Fat_Volume.thy ===== *)
theory Fat_Volume
  imports Fat_Types
begin

text \<open>
  The volume layer of the file system: the ram disk driver \<^verbatim>\<open>ramdisk.cpp\<close> and, of \<^verbatim>\<open>ff.c\<close>, the sector window
  (\<^verbatim>\<open>move_window\<close>), the sector of a cluster (\<^verbatim>\<open>clst2sect\<close>) and the reading of a FAT entry (\<^verbatim>\<open>get_fat\<close>) for the four
  kinds of volume. The disk is the memory behind \<^verbatim>\<open>ramdisk_buffer\<close>, a function from byte offsets. The
  lemmas show that the window caches the disk without changing what is read, so that every operation
  above may be understood on the disk alone.
\<close>

subsection \<open>The ram disk\<close>

type_synonym disk = "u64 \<Rightarrow> u8"

datatype DRESULT = RES_OK | RES_ERROR | RES_WRPRT | RES_NOTRDY | RES_PARERR

abbreviation STA_NOINIT :: u8 where "STA_NOINIT \<equiv> 0x01"

definition disk_status :: "u8 \<Rightarrow> u8" where
  "disk_status drive = (if drive = 0 then 0 else STA_NOINIT)"

text \<open>\<open>mem_fs\<close> is the memory at \<^verbatim>\<open>KernelMemory::get_fs_address()\<close>, \<open>None\<close> for a null address; the result is the
  status and the new value of \<^verbatim>\<open>ramdisk_buffer\<close>.\<close>

definition disk_initialize :: "disk option \<Rightarrow> disk option \<Rightarrow> u8 \<Rightarrow> u8 \<times> disk option" where
  "disk_initialize mem_fs rd drive =
     (if drive = 0 then if mem_fs = None then (STA_NOINIT, mem_fs) else (0, mem_fs)
      else (STA_NOINIT, rd))"

text \<open>\<^verbatim>\<open>memcpy\<close> of \<open>n\<close> bytes of \<open>src\<close> to offset \<open>at\<close> of a buffer.\<close>

definition blit_bytes :: "bytes \<Rightarrow> nat \<Rightarrow> bytes \<Rightarrow> nat \<Rightarrow> bytes" where
  "blit_bytes buff at src n = (\<lambda>i. if at \<le> i \<and> i < at + n then src (i - at) else buff i)"

definition disk_read :: "disk option \<Rightarrow> u8 \<Rightarrow> bytes \<Rightarrow> nat \<Rightarrow> u64 \<Rightarrow> u32 \<Rightarrow> DRESULT \<times> bytes" where
  "disk_read rd drive buff at sector count =
     (case rd of
        None \<Rightarrow> (RES_NOTRDY, buff)
      | Some d \<Rightarrow>
          if drive \<noteq> 0 then (RES_NOTRDY, buff)
          else (RES_OK, blit_bytes buff at (\<lambda>i. d (sector * SS + of_nat i)) (unat count * SS)))"

subsection \<open>Window, clusters and the allocation table\<close>

definition move_window :: "disk option \<Rightarrow> FATFS \<Rightarrow> u64 \<Rightarrow> FRESULT \<times> FATFS" where
  "move_window rd fs sct =
     (if sct \<noteq> winsect fs then
        case disk_read rd (pdrv fs) (win fs) 0 sct 1 of (dr, w) \<Rightarrow>
          if dr \<noteq> RES_OK then (FR_DISK_ERR, fs\<lparr>win := w, winsect := - 1\<rparr>)
          else (FR_OK, fs\<lparr>win := w, winsect := sct\<rparr>)
      else (FR_OK, fs))"

definition clst2sect :: "FATFS \<Rightarrow> u32 \<Rightarrow> u64" where
  "clst2sect fs clst =
     (let clst = clst - 2 in
      if n_fatent fs - 2 \<le> clst then 0
      else database fs + ucast (csize fs) * ucast clst)"

text \<open>\<^verbatim>\<open>get_fat\<close> returns 0xFFFFFFFF on a disk error and 1 on an internal error.\<close>

definition get_fat :: "disk option \<Rightarrow> FATFS \<Rightarrow> FFOBJID \<Rightarrow> u32 \<Rightarrow> u32 \<times> FATFS" where
  "get_fat rd fs obj clst =
     (if clst < 2 \<or> n_fatent fs \<le> clst then (1, fs)
      else if fs_type fs = FS_FAT12 then
        let bc = clst + clst div 2 in
        (case move_window rd fs (fatbase fs + ucast (bc div SS)) of (r, fs) \<Rightarrow>
         if r \<noteq> FR_OK then (0xFFFFFFFF, fs)
         else
           let wc = ucast (win fs (unat (bc mod SS))); bc = bc + 1 in
           (case move_window rd fs (fatbase fs + ucast (bc div SS)) of (r, fs) \<Rightarrow>
            if r \<noteq> FR_OK then (0xFFFFFFFF, fs)
            else
              let wc = wc OR push_bit 8 (ucast (win fs (unat (bc mod SS)))) in
              (if clst AND 1 \<noteq> 0 then drop_bit 4 wc else wc AND 0xFFF, fs)))
      else if fs_type fs = FS_FAT16 then
        (case move_window rd fs (fatbase fs + ucast (clst div (SS div 2))) of (r, fs) \<Rightarrow>
         if r \<noteq> FR_OK then (0xFFFFFFFF, fs)
         else (ucast (ld_word (win fs) (unat (clst * 2 mod SS))), fs))
      else if fs_type fs = FS_FAT32 then
        (case move_window rd fs (fatbase fs + ucast (clst div (SS div 4))) of (r, fs) \<Rightarrow>
         if r \<noteq> FR_OK then (0xFFFFFFFF, fs)
         else (ld_dword (win fs) (unat (clst * 4 mod SS)) AND 0x0FFFFFFF, fs))
      else if fs_type fs = FS_EXFAT then
        let cofs = clst - sclust obj;
            clen = ucast ((objsize obj - 1) div SS div ucast (csize fs)) in
        if (objsize obj \<noteq> 0 \<and> sclust obj \<noteq> 0) \<or> stat obj = 0 then
          if stat obj = 2 \<and> cofs \<le> clen then (if cofs = clen then 0x7FFFFFFF else clst + 1, fs)
          else if stat obj = 3 \<and> cofs < n_cont obj then (clst + 1, fs)
          else if stat obj \<noteq> 2 then
            if n_frag obj \<noteq> 0 then (0x7FFFFFFF, fs)
            else (case move_window rd fs (fatbase fs + ucast (clst div (SS div 4))) of (r, fs) \<Rightarrow>
                  if r \<noteq> FR_OK then (0xFFFFFFFF, fs)
                  else (ld_dword (win fs) (unat (clst * 4 mod SS)) AND 0x7FFFFFFF, fs))
          else (1, fs)
        else (1, fs)
      else (1, fs))"

subsection \<open>The window caches the disk\<close>

lemma blit_cong:
  assumes "\<And>i. i < n \<Longrightarrow> f i = g i"
  shows "blit_bytes b at f n = blit_bytes b at g n"
proof (rule ext)
  fix i
  show "blit_bytes b at f n i = blit_bytes b at g n i"
    using assms [of "i - at"] by (cases "at \<le> i \<and> i < at + n") (auto simp: blit_bytes_def)
qed

lemma blit_blit:
  "blit_bytes (blit_bytes b at f n) (at + n) (\<lambda>i. f (n + i)) m = blit_bytes b at f (n + m)"
  by (auto simp: blit_bytes_def fun_eq_iff)

text \<open>The bytes of a sector on the disk, and the coherence of the window.\<close>

definition sector :: "disk \<Rightarrow> u64 \<Rightarrow> bytes" where
  "sector d s = (\<lambda>i. d (s * SS + of_nat i))"

definition win_ok :: "disk \<Rightarrow> FATFS \<Rightarrow> bool" where
  "win_ok d fs \<longleftrightarrow> pdrv fs = 0 \<and> (winsect fs \<noteq> - 1 \<longrightarrow> (\<forall>i < SS. win fs i = sector d (winsect fs) i))"

text \<open>Two states of the volume that differ at most in what the window shows.\<close>

definition same_vol :: "FATFS \<Rightarrow> FATFS \<Rightarrow> bool" where
  "same_vol fs fs' \<longleftrightarrow> fs' = fs\<lparr>win := win fs', winsect := winsect fs'\<rparr>"

lemma same_vol_refl [simp, intro]: "same_vol fs fs"
  by (simp add: same_vol_def)

lemma same_vol_trans [trans]: "same_vol a b \<Longrightarrow> same_vol b c \<Longrightarrow> same_vol a c"
  unfolding same_vol_def by (cases a, cases b, cases c) simp

lemma same_vol_fields:
  assumes "same_vol fs fs'"
  shows "fs_type fs' = fs_type fs" "pdrv fs' = pdrv fs" "n_fats fs' = n_fats fs" "fs_id fs' = fs_id fs"
    "n_rootdir fs' = n_rootdir fs" "csize fs' = csize fs" "lfnbuf fs' = lfnbuf fs" "dirbuf fs' = dirbuf fs"
    "n_fatent fs' = n_fatent fs" "fat_size fs' = fat_size fs" "volbase fs' = volbase fs" "fatbase fs' = fatbase fs"
    "dirbase fs' = dirbase fs" "database fs' = database fs" "bitbase fs' = bitbase fs" "wflag fs' = wflag fs"
  using assms by (cases fs; cases fs'; simp add: same_vol_def)+

lemma same_vol_clst2sect: "same_vol fs fs' \<Longrightarrow> clst2sect fs' c = clst2sect fs c"
  by (simp add: clst2sect_def same_vol_fields Let_def)

lemma move_window_ok:
  assumes "win_ok d fs" "s \<noteq> - 1"
  obtains fs' where "move_window (Some d) fs s = (FR_OK, fs')" "same_vol fs fs'" "win_ok d fs'"
    "winsect fs' = s" "\<And>i. i < SS \<Longrightarrow> win fs' i = sector d s i"
proof (cases "s = winsect fs")
  case True
  then show thesis using assms by (intro that [of fs]) (auto simp: move_window_def win_ok_def)
next
  case False
  define w where "w = blit_bytes (win fs) 0 (\<lambda>i. d (s * SS + of_nat i)) SS"
  have w: "w i = sector d s i" if "i < SS" for i
    using that by (simp add: w_def blit_bytes_def sector_def)
  have "move_window (Some d) fs s = (FR_OK, fs\<lparr>win := w, winsect := s\<rparr>)"
    using False assms by (simp add: move_window_def disk_read_def win_ok_def w_def)
  then show thesis
    using assms w by (intro that [of "fs\<lparr>win := w, winsect := s\<rparr>"]) (auto simp: same_vol_def win_ok_def)
qed

subsection \<open>The allocation table as a function of the disk\<close>

text \<open>Byte \<open>k\<close> of the table, and the entry of a cluster as the FAT specification has it: 12-bit entries are
  packed in pairs, the others are little-endian words of which FAT32 uses 28 bits.\<close>

definition fat_byte :: "disk \<Rightarrow> FATFS \<Rightarrow> nat \<Rightarrow> nat" where
  "fat_byte d fs k = unat (d (fatbase fs * SS + of_nat k))"

definition fat_dword :: "disk \<Rightarrow> FATFS \<Rightarrow> nat \<Rightarrow> nat" where
  "fat_dword d fs k =
     fat_byte d fs k + 256 * (fat_byte d fs (k + 1) + 256 * (fat_byte d fs (k + 2) + 256 * fat_byte d fs (k + 3)))"

definition fat_entry :: "disk \<Rightarrow> FATFS \<Rightarrow> nat \<Rightarrow> nat" where
  "fat_entry d fs c =
     (if fs_type fs = FS_FAT12 then
        let w = fat_byte d fs (c + c div 2) + 256 * fat_byte d fs (c + c div 2 + 1)
        in if odd c then w div 16 else w mod 4096
      else if fs_type fs = FS_FAT16 then fat_byte d fs (2 * c) + 256 * fat_byte d fs (2 * c + 1)
      else if fs_type fs = FS_FAT32 then fat_dword d fs (4 * c) mod 2 ^ 28
      else fat_dword d fs (4 * c) mod 2 ^ 31)"

definition geom_ok :: "FATFS \<Rightarrow> bool" where
  "geom_ok fs \<longleftrightarrow> fatbase fs < 2 ^ 63 \<and> (fs_type fs = FS_FAT12 \<longrightarrow> n_fatent fs \<le> 0xFF7)"

lemma fat_byte_lt: "fat_byte d fs k < 256"
  using unsigned_less [of "d (fatbase fs * SS + of_nat k)", where ?'a = nat] by (simp add: fat_byte_def)

lemma sector_addr: "sector d (fb + of_nat q) r = d (fb * SS + of_nat (q * SS + r))"
  by (simp add: sector_def algebra_simps)

lemma fat_byte_sector:
  "q * SS + r = k \<Longrightarrow> sector d (fatbase fs + of_nat q) r = of_nat (fat_byte d fs k)"
  unfolding fat_byte_def sector_addr by simp

lemma fat_sector_no_wrap:
  assumes "geom_ok fs"
  shows "fatbase fs + ucast (x :: u32) \<noteq> - 1"
proof
  assume "fatbase fs + ucast x = - 1"
  then have "unat (fatbase fs + ucast x) = unat (- 1 :: u64)" by simp
  then have "unat (fatbase fs + ucast x) = 2 ^ 64 - 1" by (simp add: unsigned_minus_1_eq_mask mask_eq_exp_minus_1)
  moreover have "unat (fatbase fs) < 2 ^ 63" using assms by (simp add: geom_ok_def word_less_nat_alt)
  moreover have "unat (ucast x :: u64) < 2 ^ 32"
    using unsigned_less [of x, where ?'a = nat] by (simp add: unsigned_ucast_eq take_bit_nat_eq_self)
  ultimately show False by (simp add: unat_word_ariths)
qed

lemma get_fat_window:
  assumes w: "win_ok d fs" and g: "geom_ok fs"
  obtains fs' where "move_window (Some d) fs (fatbase fs + ucast (q :: u32)) = (FR_OK, fs')" "same_vol fs fs'" "win_ok d fs'"
    "\<And>r k. r < SS \<Longrightarrow> unat q * SS + r = k \<Longrightarrow> unat (win fs' r) = fat_byte d fs k"
proof -
  obtain fs' where m: "move_window (Some d) fs (fatbase fs + ucast q) = (FR_OK, fs')" "same_vol fs fs'" "win_ok d fs'"
    and s: "\<And>i. i < SS \<Longrightarrow> win fs' i = sector d (fatbase fs + ucast q) i"
    using move_window_ok [OF w fat_sector_no_wrap [OF g, of q]] by blast
  have "unat (win fs' r) = fat_byte d fs k" if r: "r < SS" and k: "unat q * SS + r = k" for r k
  proof -
    have "ucast q = (of_nat (unat q) :: u64)" by simp
    then have "win fs' r = of_nat (fat_byte d fs k)" using s [OF r] fat_byte_sector [OF k, of d fs] by metis
    then show ?thesis using fat_byte_lt [of d fs k] by (simp add: unsigned_of_nat take_bit_nat_eq_self)
  qed
  with m show thesis by (rule that)
qed

text \<open>What a cluster links to for an object, on the disk alone. On exFAT an object whose chain is contiguous
  (\<open>stat\<close> 2) has no entries in the table.\<close>

definition fat_val :: "disk \<Rightarrow> FATFS \<Rightarrow> FFOBJID \<Rightarrow> u32 \<Rightarrow> u32" where
  "fat_val d fs obj c =
     (if c < 2 \<or> n_fatent fs \<le> c then 1
      else if fs_type fs \<in> {FS_FAT12, FS_FAT16, FS_FAT32} then of_nat (fat_entry d fs (unat c))
      else if fs_type fs = FS_EXFAT \<and> ((objsize obj \<noteq> 0 \<and> sclust obj \<noteq> 0) \<or> stat obj = 0) then
        let cofs = c - sclust obj; clen = ucast ((objsize obj - 1) div SS div ucast (csize fs)) in
        if stat obj = 2 then if cofs < clen then c + 1 else if cofs = clen then 0x7FFFFFFF else 1
        else if stat obj = 3 \<and> cofs < n_cont obj then c + 1
        else if n_frag obj \<noteq> 0 then 0x7FFFFFFF
        else of_nat (fat_entry d fs (unat c))
      else 1)"

lemma u32_eqI: "unat x = n \<Longrightarrow> (x :: u32) = of_nat n"
  by auto

lemma get_fat12:
  assumes w: "win_ok d fs" and g: "geom_ok fs" and c: "2 \<le> c" "c < n_fatent fs" and t: "fs_type fs = FS_FAT12"
  obtains fs' where "get_fat (Some d) fs obj c = (of_nat (fat_entry d fs (unat c)), fs')" "same_vol fs fs'" "win_ok d fs'"
proof -
  define bc where "bc = c + c div 2"
  have cl: "unat c < 0xFF7" using c(2) g t by (auto simp: geom_ok_def word_less_nat_alt word_le_nat_alt)
  have h: "unat (c div 2) = unat c div 2" by (simp add: unat_div)
  have u: "unat bc = unat c + unat c div 2" unfolding bc_def using cl by (simp add: unat_word_ariths h)
  have u1: "unat (bc + 1) = unat bc + 1" using u cl by (simp add: unat_word_ariths)
  have q: "unat (x div SS) * SS + unat (x mod SS) = unat x" "unat (x mod SS) < SS" for x :: u32
    by (simp_all add: unat_div unat_mod)
  obtain fs1 where 1: "move_window (Some d) fs (fatbase fs + ucast (bc div SS)) = (FR_OK, fs1)" "same_vol fs fs1" "win_ok d fs1"
    and b1: "\<And>r k. r < SS \<Longrightarrow> unat (bc div SS) * SS + r = k \<Longrightarrow> unat (win fs1 r) = fat_byte d fs k"
    using get_fat_window [OF w g, of "bc div SS"] by blast
  have g1: "geom_ok fs1" using g 1(2) by (simp add: geom_ok_def same_vol_fields)
  obtain fs2 where 2: "move_window (Some d) fs1 (fatbase fs1 + ucast ((bc + 1) div SS)) = (FR_OK, fs2)" "same_vol fs1 fs2" "win_ok d fs2"
    and b2: "\<And>r k. r < SS \<Longrightarrow> unat ((bc + 1) div SS) * SS + r = k \<Longrightarrow> unat (win fs2 r) = fat_byte d fs1 k"
    using get_fat_window [OF 1(3) g1, of "(bc + 1) div SS"] by blast
  have fb: "fat_byte d fs1 k = fat_byte d fs k" for k using 1(2) by (simp add: fat_byte_def same_vol_fields)
  define wc :: u32 where "wc = ucast (win fs1 (unat (bc mod SS))) OR push_bit 8 (ucast (win fs2 (unat ((bc + 1) mod SS))))"
  define W where "W = fat_byte d fs (unat bc) + 256 * fat_byte d fs (unat bc + 1)"
  have B1: "unat (win fs1 (unat (bc mod SS))) = fat_byte d fs (unat bc)" using b1 q by blast
  have B2: "unat (win fs2 (unat ((bc + 1) mod SS))) = fat_byte d fs (unat bc + 1)" using b2 q u1 fb by metis
  have W: "unat wc = W"
    unfolding wc_def W_def
    by (subst or.commute, subst unat_append_byte) (simp_all add: unat_ucast_u8 B1 B2 fat_byte_lt [THEN order_less_trans])
  have odd: "c AND 1 \<noteq> 0 \<longleftrightarrow> odd (unat c)"
  proof -
    have "c AND 1 \<noteq> 0 \<longleftrightarrow> unat (c mod 2) \<noteq> 0" by (simp add: and_one_eq unat_eq_zero)
    then show ?thesis by (simp add: unat_mod odd_iff_mod_2_eq_one)
  qed
  have "get_fat (Some d) fs obj c = (if c AND 1 \<noteq> 0 then drop_bit 4 wc else wc AND 0xFFF, fs2)"
    using c t by (simp add: get_fat_def 1(1) 2(1) Let_def wc_def flip: bc_def not_less)
  moreover have "drop_bit 4 wc = of_nat (W div 16)"
    by (rule u32_eqI) (simp add: drop_bit_eq_div unat_div W)
  moreover have "wc AND 0xFFF = of_nat (W mod 4096)"
  proof (rule u32_eqI)
    have "wc AND 0xFFF = take_bit 12 wc" by (simp add: take_bit_eq_mask mask_eq_exp_minus_1)
    then show "unat (wc AND 0xFFF) = W mod 4096" by (simp add: take_bit_eq_mod unat_mod W)
  qed
  ultimately have "get_fat (Some d) fs obj c = (of_nat (fat_entry d fs (unat c)), fs2)"
    by (simp add: fat_entry_def t odd W_def u)
  moreover have "same_vol fs fs2" using 1(2) 2(2) by (rule same_vol_trans)
  ultimately show thesis using 2(3) that by blast
qed

lemma unat_mask_mult:
  fixes c :: u32
  shows "unat (c * 2 mod SS) = unat c * 2 mod SS" "unat (c * 4 mod SS) = unat c * 4 mod SS"
  by (simp_all add: unat_mod unat_word_ariths mod_mod_cancel)

lemma fat_word_addr:
  fixes n :: nat
  shows "i < 2 \<Longrightarrow> n * 2 mod SS + i < SS" "n div 256 * SS + (n * 2 mod SS + i) = 2 * n + i"
    "i < 4 \<Longrightarrow> n * 4 mod SS + i < SS" "n div 128 * SS + (n * 4 mod SS + i) = 4 * n + i"
proof -
  have 2: "n * 2 mod SS = 2 * (n mod 256)" and 4: "n * 4 mod SS = 4 * (n mod 128)"
    by (simp_all add: mult_mod_right mult.commute)
  have "n mod 256 < 256" "n mod 128 < 128" by simp_all
  then show "i < 2 \<Longrightarrow> n * 2 mod SS + i < SS" "i < 4 \<Longrightarrow> n * 4 mod SS + i < SS" unfolding 2 4 by linarith+
  show "n div 256 * SS + (n * 2 mod SS + i) = 2 * n + i" "n div 128 * SS + (n * 4 mod SS + i) = 4 * n + i"
    unfolding 2 4 using div_mult_mod_eq [of n 256] div_mult_mod_eq [of n 128] by linarith+
qed

lemma unat_numerals_u32: "unat (256 :: u32) = 256" "unat (128 :: u32) = 128"
  by simp_all

lemma get_fat_word:
  assumes w: "win_ok d fs" and g: "geom_ok fs"
  obtains fs' where "move_window (Some d) fs (fatbase fs + ucast ((c :: u32) div 256)) = (FR_OK, fs')" "same_vol fs fs'" "win_ok d fs'"
    "unat (ld_word (win fs') (unat (c * 2 mod SS))) = fat_byte d fs (2 * unat c) + 256 * fat_byte d fs (2 * unat c + 1)"
proof -
  obtain fs' where m: "move_window (Some d) fs (fatbase fs + ucast (c div 256)) = (FR_OK, fs')" "same_vol fs fs'" "win_ok d fs'"
    and b: "\<And>r k. r < SS \<Longrightarrow> unat (c div 256) * SS + r = k \<Longrightarrow> unat (win fs' r) = fat_byte d fs k"
    using get_fat_window [OF w g, of "c div 256"] by blast
  have "unat (win fs' (unat c * 2 mod SS + i)) = fat_byte d fs (2 * unat c + i)" if "i < 2" for i
    by (rule b [OF fat_word_addr(1) [OF that]]) (simp only: unat_div fat_word_addr(2) unat_numerals_u32)
  from this [of 0] this [of 1] show thesis
    using that [OF m] by (simp add: unat_ld_word unat_mask_mult)
qed

lemma get_fat_dword:
  assumes w: "win_ok d fs" and g: "geom_ok fs"
  obtains fs' where "move_window (Some d) fs (fatbase fs + ucast ((c :: u32) div 128)) = (FR_OK, fs')" "same_vol fs fs'" "win_ok d fs'"
    "unat (ld_dword (win fs') (unat (c * 4 mod SS))) = fat_dword d fs (4 * unat c)"
proof -
  obtain fs' where m: "move_window (Some d) fs (fatbase fs + ucast (c div 128)) = (FR_OK, fs')" "same_vol fs fs'" "win_ok d fs'"
    and b: "\<And>r k. r < SS \<Longrightarrow> unat (c div 128) * SS + r = k \<Longrightarrow> unat (win fs' r) = fat_byte d fs k"
    using get_fat_window [OF w g, of "c div 128"] by blast
  have "unat (win fs' (unat c * 4 mod SS + i)) = fat_byte d fs (4 * unat c + i)" if "i < 4" for i
    by (rule b [OF fat_word_addr(3) [OF that]]) (simp only: unat_div fat_word_addr(4) unat_numerals_u32)
  from this [of 0] this [of 1] this [of 2] this [of 3] show thesis
    using that [OF m] by (simp add: unat_ld_dword unat_mask_mult fat_dword_def)
qed

lemma u32_and_mask:
  fixes x :: u32
  shows "x AND 0x0FFFFFFF = of_nat (unat x mod 2 ^ 28)" "x AND 0x7FFFFFFF = of_nat (unat x mod 2 ^ 31)"
proof -
  have "x AND 0x0FFFFFFF = take_bit 28 x" "x AND 0x7FFFFFFF = take_bit 31 x"
    by (simp_all add: take_bit_eq_mask mask_eq_exp_minus_1)
  then have "unat (x AND 0x0FFFFFFF) = unat x mod 2 ^ 28" "unat (x AND 0x7FFFFFFF) = unat x mod 2 ^ 31"
    by (simp_all add: take_bit_eq_mod unat_mod)
  then show "x AND 0x0FFFFFFF = of_nat (unat x mod 2 ^ 28)" "x AND 0x7FFFFFFF = of_nat (unat x mod 2 ^ 31)"
    by (auto intro: u32_eqI)
qed

lemma get_fat_ok:
  assumes w: "win_ok d fs" and g: "geom_ok fs"
  obtains fs' where "get_fat (Some d) fs obj c = (fat_val d fs obj c, fs')" "same_vol fs fs'" "win_ok d fs'"
proof -
  consider "c < 2 \<or> n_fatent fs \<le> c" | "2 \<le> c" "c < n_fatent fs" "fs_type fs = FS_FAT12"
    | "2 \<le> c" "c < n_fatent fs" "fs_type fs = FS_FAT16" | "2 \<le> c" "c < n_fatent fs" "fs_type fs = FS_FAT32"
    | "2 \<le> c" "c < n_fatent fs" "fs_type fs \<notin> {FS_FAT12, FS_FAT16, FS_FAT32}"
    by (metis linorder_not_le insertE empty_iff)
  then show thesis
  proof cases
    case 1
    then show thesis using that [of fs] w by (simp add: get_fat_def fat_val_def)
  next
    case 2
    obtain fs' where "get_fat (Some d) fs obj c = (of_nat (fat_entry d fs (unat c)), fs')" "same_vol fs fs'" "win_ok d fs'"
      by (rule get_fat12 [OF w g 2])
    moreover have "fat_val d fs obj c = of_nat (fat_entry d fs (unat c))" using 2 by (simp add: fat_val_def flip: not_less)
    ultimately show thesis using that by simp
  next
    case 3
    obtain fs' where m: "move_window (Some d) fs (fatbase fs + ucast (c div 256)) = (FR_OK, fs')" "same_vol fs fs'" "win_ok d fs'"
      and v: "unat (ld_word (win fs') (unat (c * 2 mod SS))) = fat_byte d fs (2 * unat c) + 256 * fat_byte d fs (2 * unat c + 1)"
      using get_fat_word [OF w g] by blast
    have "ucast (ld_word (win fs') (unat (c * 2 mod SS))) = (of_nat (fat_entry d fs (unat c)) :: u32)"
    proof -
      have "fat_entry d fs (unat c) = unat (ld_word (win fs') (unat (c * 2 mod SS)))"
        unfolding v using 3(3) by (simp add: fat_entry_def)
      then show ?thesis by (simp only: of_nat_unat)
    qed
    then show thesis using that m 3 by (simp add: get_fat_def fat_val_def flip: not_less)
  next
    case 4
    obtain fs' where m: "move_window (Some d) fs (fatbase fs + ucast (c div 128)) = (FR_OK, fs')" "same_vol fs fs'" "win_ok d fs'"
      and v: "unat (ld_dword (win fs') (unat (c * 4 mod SS))) = fat_dword d fs (4 * unat c)"
      using get_fat_dword [OF w g] by blast
    have "ld_dword (win fs') (unat (c * 4 mod SS)) AND 0x0FFFFFFF = of_nat (fat_entry d fs (unat c))"
      unfolding u32_and_mask(1) v using 4(3) by (simp add: fat_entry_def)
    then show thesis using that m 4 by (simp add: get_fat_def fat_val_def flip: not_less)
  next
    case 5
    obtain fs' where m: "move_window (Some d) fs (fatbase fs + ucast (c div 128)) = (FR_OK, fs')" "same_vol fs fs'" "win_ok d fs'"
      and v: "unat (ld_dword (win fs') (unat (c * 4 mod SS))) = fat_dword d fs (4 * unat c)"
      using get_fat_dword [OF w g] by blast
    have "ld_dword (win fs') (unat (c * 4 mod SS)) AND 0x7FFFFFFF = of_nat (fat_entry d fs (unat c))"
      unfolding u32_and_mask(2) v using 5(3) by (simp add: fat_entry_def)
    note t = this
    show thesis
    proof (cases "fs_type fs = FS_EXFAT \<and> ((objsize obj \<noteq> 0 \<and> sclust obj \<noteq> 0) \<or> stat obj = 0) \<and> stat obj \<noteq> 2
        \<and> \<not> (stat obj = 3 \<and> c - sclust obj < n_cont obj) \<and> n_frag obj = 0")
      case True
      then have "get_fat (Some d) fs obj c = (fat_val d fs obj c, fs')"
        using 5 m t by (simp add: get_fat_def fat_val_def Let_def flip: not_less) blast
      then show thesis using that m by blast
    next
      case False
      then have "get_fat (Some d) fs obj c = (fat_val d fs obj c, fs)"
        using 5 by (simp add: get_fat_def fat_val_def Let_def flip: not_less) force
      then show thesis using that w by blast
    qed
  qed
qed

subsection \<open>Properties\<close>

text \<open>
  On a mounted volume of any of the four kinds, \<^verbatim>\<open>get_fat\<close> returns the entry of the cluster as it stands in
  the allocation table on the disk (12-bit entries that straddle two sectors included), whatever sector
  the window shows before; it leaves a coherent window and changes nothing else of the volume.
\<close>

lemma get_fat_reads_the_table:
  assumes "win_ok d fs" and "geom_ok fs"
  shows "\<exists>fs'. get_fat (Some d) fs obj c = (fat_val d fs obj c, fs') \<and> same_vol fs fs' \<and> win_ok d fs'"
  using get_fat_ok [OF assms, of obj c] by blast

definition example_fs :: FATFS where
  "example_fs = \<lparr>fs_type = FS_FAT12, pdrv = 0, n_fats = 1, wflag = 0, fs_id = 1, n_rootdir = 16, csize = 1, lfnbuf = (\<lambda>_. 0),
     dirbuf = (\<lambda>_. 0), n_fatent = 400, fat_size = 2, volbase = 0, fatbase = 1, dirbase = 3, database = 4, bitbase = 0,
     winsect = - 1, win = (\<lambda>_. 0)\<rparr>"

text \<open>Cluster 341 has its entry in bytes 511 and 512 of the table, on both sides of a sector boundary.\<close>

definition example_disk :: disk where
  "example_disk a = (if a = 1023 then 0x70 else if a = 1024 then 0x15 else 0)"

definition example_obj :: FFOBJID where
  "example_obj = \<lparr>obj_fs = True, obj_id = 1, attr = 0, stat = 0, sclust = 341, objsize = 1000, n_cont = 0, n_frag = 0,
     c_scl = 0, c_size = 0, c_ofs = 0\<rparr>"

end
