(* ===== verification/Fat_Unicode.thy ===== *)
theory Fat_Unicode
  imports Fat_Types
begin

text \<open>
  Character codes of the file system: UTF-8 decoding and encoding of \<^verbatim>\<open>ff.c\<close> (\<^verbatim>\<open>tchar2uni\<close>, \<^verbatim>\<open>put_utf\<close>) and the
  conversions of \<^verbatim>\<open>ffunicode.c\<close> between Unicode and code page 850 and to upper case, with their tables. A code point
  outside the basic plane is a surrogate pair in one 32-bit word. The lemmas show that decoding inverts encoding
  and that the two conversions of the code page are inverse to each other.
\<close>

subsection \<open>UTF-8\<close>

abbreviation IsSurrogate :: "'a::len word \<Rightarrow> bool" where
  "IsSurrogate c \<equiv> 0xD800 \<le> c \<and> c \<le> 0xDFFF"

text \<open>The loop over the trailing bytes: \<open>None\<close> for a wrong sequence.\<close>

fun trailing_bytes :: "bytes \<Rightarrow> nat \<Rightarrow> u32 \<Rightarrow> nat \<Rightarrow> (u32 \<times> nat) option" where
  "trailing_bytes s p uc 0 = Some (uc, p)"
| "trailing_bytes s p uc (Suc nf) =
     (let b = s p in
      if b AND 0xC0 \<noteq> 0x80 then None
      else trailing_bytes s (p + 1) (push_bit 6 uc OR ucast (b AND 0x3F)) nf)"

text \<open>The character at \<open>str\<close> and the pointer behind it; on a decoding error the pointer stays.\<close>

definition tchar2uni :: "bytes \<Rightarrow> nat \<Rightarrow> u32 \<times> nat" where
  "tchar2uni s str =
     (let uc = ucast (s str) :: u32; p = str + 1 in
      if uc AND 0x80 \<noteq> 0 then
        (case (if uc AND 0xE0 = 0xC0 then Some (uc AND 0x1F, 1)
               else if uc AND 0xF0 = 0xE0 then Some (uc AND 0x0F, 2)
               else if uc AND 0xF8 = 0xF0 then Some (uc AND 0x07, 3)
               else None) of
           None \<Rightarrow> (0xFFFFFFFF, str)
         | Some (uc, nf) \<Rightarrow>
             (case trailing_bytes s p uc nf of
                None \<Rightarrow> (0xFFFFFFFF, str)
              | Some (uc, p) \<Rightarrow>
                  if uc < 0x80 \<or> IsSurrogate uc \<or> 0x110000 \<le> uc then (0xFFFFFFFF, str)
                  else if 0x10000 \<le> uc
                    then (0xD800DC00 OR (push_bit 6 (uc - 0x10000) AND 0x3FF0000) OR (uc AND 0x3FF), p)
                    else (uc, p)))
      else (uc, p))"

text \<open>The number of bytes stored at \<open>p\<close> of the buffer (0 for an overflow or a wrong code) and the new buffer.\<close>

definition put_utf :: "u32 \<Rightarrow> bytes \<Rightarrow> nat \<Rightarrow> u32 \<Rightarrow> u32 \<times> bytes" where
  "put_utf chr b p szb =
     (if chr < 0x80 then
        if szb < 1 then (0, b) else (1, b(p := ucast chr))
      else if chr < 0x800 then
        if szb < 2 then (0, b)
        else (2, b(p := ucast (0xC0 OR (drop_bit 6 chr AND 0x1F)), p + 1 := ucast (0x80 OR (chr AND 0x3F))))
      else if chr < 0x10000 then
        if szb < 3 \<or> IsSurrogate chr then (0, b)
        else (3, b(p := ucast (0xE0 OR (drop_bit 12 chr AND 0x0F)), p + 1 := ucast (0x80 OR (drop_bit 6 chr AND 0x3F)),
                   p + 2 := ucast (0x80 OR (chr AND 0x3F))))
      else if szb < 4 then (0, b)
      else
        let hc = drop_bit 6 ((chr AND 0xFFFF0000) - 0xD8000000); chr = (chr AND 0xFFFF) - 0xDC00 in
        if 0x100000 \<le> hc \<or> 0x400 \<le> chr then (0, b)
        else
          let chr = (hc OR chr) + 0x10000 in
          (4, b(p := ucast (0xF0 OR (drop_bit 18 chr AND 0x07)), p + 1 := ucast (0x80 OR (drop_bit 12 chr AND 0x3F)),
                p + 2 := ucast (0x80 OR (drop_bit 6 chr AND 0x3F)), p + 3 := ucast (0x80 OR (chr AND 0x3F)))))"

subsection \<open>Code page and upper case\<close>

abbreviation FF_CODE_PAGE :: u16 where "FF_CODE_PAGE \<equiv> 850"

definition uc850 :: "u16 list" where
  "uc850 = [
    0x00C7, 0x00FC, 0x00E9, 0x00E2, 0x00E4, 0x00E0, 0x00E5, 0x00E7, 0x00EA, 0x00EB, 0x00E8, 0x00EF, 0x00EE, 0x00EC, 0x00C4, 0x00C5,
    0x00C9, 0x00E6, 0x00C6, 0x00F4, 0x00F6, 0x00F2, 0x00FB, 0x00F9, 0x00FF, 0x00D6, 0x00DC, 0x00F8, 0x00A3, 0x00D8, 0x00D7, 0x0192,
    0x00E1, 0x00ED, 0x00F3, 0x00FA, 0x00F1, 0x00D1, 0x00AA, 0x00BA, 0x00BF, 0x00AE, 0x00AC, 0x00BD, 0x00BC, 0x00A1, 0x00AB, 0x00BB,
    0x2591, 0x2592, 0x2593, 0x2502, 0x2524, 0x00C1, 0x00C2, 0x00C0, 0x00A9, 0x2563, 0x2551, 0x2557, 0x255D, 0x00A2, 0x00A5, 0x2510,
    0x2514, 0x2534, 0x252C, 0x251C, 0x2500, 0x253C, 0x00E3, 0x00C3, 0x255A, 0x2554, 0x2569, 0x2566, 0x2560, 0x2550, 0x256C, 0x00A4,
    0x00F0, 0x00D0, 0x00CA, 0x00CB, 0x00C8, 0x0131, 0x00CD, 0x00CE, 0x00CF, 0x2518, 0x250C, 0x2588, 0x2584, 0x00A6, 0x00CC, 0x2580,
    0x00D3, 0x00DF, 0x00D4, 0x00D2, 0x00F5, 0x00D5, 0x00B5, 0x00FE, 0x00DE, 0x00DA, 0x00DB, 0x00D9, 0x00FD, 0x00DD, 0x00AF, 0x00B4,
    0x00AD, 0x00B1, 0x2017, 0x00BE, 0x00B6, 0x00A7, 0x00F7, 0x00B8, 0x00B0, 0x00A8, 0x00B7, 0x00B9, 0x00B3, 0x00B2, 0x25A0, 0x00A0]"

text \<open>Upper case of the extended characters of the code page (\<^verbatim>\<open>ExCvt\<close>).\<close>

definition TBL_CT850 :: "u8 list" where
  "TBL_CT850 = [
    0x43, 0x55, 0x45, 0x41, 0x41, 0x41, 0x41, 0x43, 0x45, 0x45, 0x45, 0x49, 0x49, 0x49, 0x41, 0x41,
    0x45, 0x92, 0x92, 0x4F, 0x4F, 0x4F, 0x55, 0x55, 0x59, 0x4F, 0x55, 0x4F, 0x9C, 0x4F, 0x9E, 0x9F,
    0x41, 0x49, 0x4F, 0x55, 0xA5, 0xA5, 0xA6, 0xA7, 0xA8, 0xA9, 0xAA, 0xAB, 0xAC, 0xAD, 0xAE, 0xAF,
    0xB0, 0xB1, 0xB2, 0xB3, 0xB4, 0x41, 0x41, 0x41, 0xB8, 0xB9, 0xBA, 0xBB, 0xBC, 0xBD, 0xBE, 0xBF,
    0xC0, 0xC1, 0xC2, 0xC3, 0xC4, 0xC5, 0x41, 0x41, 0xC8, 0xC9, 0xCA, 0xCB, 0xCC, 0xCD, 0xCE, 0xCF,
    0xD1, 0xD1, 0x45, 0x45, 0x45, 0x49, 0x49, 0x49, 0x49, 0xD9, 0xDA, 0xDB, 0xDC, 0xDD, 0x49, 0xDF,
    0x4F, 0xE1, 0x4F, 0x4F, 0x4F, 0x4F, 0xE6, 0xE8, 0xE8, 0x55, 0x55, 0x55, 0x59, 0x59, 0xEE, 0xEF,
    0xF0, 0xF1, 0xF2, 0xF3, 0xF4, 0xF5, 0xF6, 0xF7, 0xF8, 0xF9, 0xFA, 0xFB, 0xFC, 0xFD, 0xFE, 0xFF]"

text \<open>The search loop of \<^verbatim>\<open>ff_uni2oem\<close>: the index of the code in the table, the length if there is none.\<close>

fun table_index :: "u16 \<Rightarrow> u16 list \<Rightarrow> nat" where
  "table_index u [] = 0"
| "table_index u (x # xs) = (if u = x then 0 else Suc (table_index u xs))"

definition ff_uni2oem :: "u32 \<Rightarrow> u16 \<Rightarrow> u16" where
  "ff_uni2oem uni cp =
     (if uni < 0x80 then ucast uni
      else if uni < 0x10000 \<and> cp = FF_CODE_PAGE
        then (of_nat (table_index (ucast uni) uc850) + 0x80) AND 0xFF
      else 0)"

definition ff_oem2uni :: "u16 \<Rightarrow> u16 \<Rightarrow> u16" where
  "ff_oem2uni oem cp =
     (if oem < 0x80 then oem
      else if cp = FF_CODE_PAGE \<and> oem < 0x100 then uc850 ! unat (oem - 0x80)
      else 0)"

definition cvt1 :: "u16 list" where
  "cvt1 = [
    0x0061, 0x031A, 0x00E0, 0x0317, 0x00F8, 0x0307, 0x00FF, 0x0001, 0x0178, 0x0100, 0x0130, 0x0132, 0x0106, 0x0139, 0x0110, 0x014A,
    0x012E, 0x0179, 0x0106, 0x0180, 0x004D, 0x0243, 0x0181, 0x0182, 0x0182, 0x0184, 0x0184, 0x0186, 0x0187, 0x0187, 0x0189, 0x018A,
    0x018B, 0x018B, 0x018D, 0x018E, 0x018F, 0x0190, 0x0191, 0x0191, 0x0193, 0x0194, 0x01F6, 0x0196, 0x0197, 0x0198, 0x0198, 0x023D,
    0x019B, 0x019C, 0x019D, 0x0220, 0x019F, 0x01A0, 0x01A0, 0x01A2, 0x01A2, 0x01A4, 0x01A4, 0x01A6, 0x01A7, 0x01A7, 0x01A9, 0x01AA,
    0x01AB, 0x01AC, 0x01AC, 0x01AE, 0x01AF, 0x01AF, 0x01B1, 0x01B2, 0x01B3, 0x01B3, 0x01B5, 0x01B5, 0x01B7, 0x01B8, 0x01B8, 0x01BA,
    0x01BB, 0x01BC, 0x01BC, 0x01BE, 0x01F7, 0x01C0, 0x01C1, 0x01C2, 0x01C3, 0x01C4, 0x01C5, 0x01C4, 0x01C7, 0x01C8, 0x01C7, 0x01CA,
    0x01CB, 0x01CA, 0x01CD, 0x0110, 0x01DD, 0x0001, 0x018E, 0x01DE, 0x0112, 0x01F3, 0x0003, 0x01F1, 0x01F4, 0x01F4, 0x01F8, 0x0128,
    0x0222, 0x0112, 0x023A, 0x0009, 0x2C65, 0x023B, 0x023B, 0x023D, 0x2C66, 0x023F, 0x0240, 0x0241, 0x0241, 0x0246, 0x010A, 0x0253,
    0x0040, 0x0181, 0x0186, 0x0255, 0x0189, 0x018A, 0x0258, 0x018F, 0x025A, 0x0190, 0x025C, 0x025D, 0x025E, 0x025F, 0x0193, 0x0261,
    0x0262, 0x0194, 0x0264, 0x0265, 0x0266, 0x0267, 0x0197, 0x0196, 0x026A, 0x2C62, 0x026C, 0x026D, 0x026E, 0x019C, 0x0270, 0x0271,
    0x019D, 0x0273, 0x0274, 0x019F, 0x0276, 0x0277, 0x0278, 0x0279, 0x027A, 0x027B, 0x027C, 0x2C64, 0x027E, 0x027F, 0x01A6, 0x0281,
    0x0282, 0x01A9, 0x0284, 0x0285, 0x0286, 0x0287, 0x01AE, 0x0244, 0x01B1, 0x01B2, 0x0245, 0x028D, 0x028E, 0x028F, 0x0290, 0x0291,
    0x01B7, 0x037B, 0x0003, 0x03FD, 0x03FE, 0x03FF, 0x03AC, 0x0004, 0x0386, 0x0388, 0x0389, 0x038A, 0x03B1, 0x0311, 0x03C2, 0x0002,
    0x03A3, 0x03A3, 0x03C4, 0x0308, 0x03CC, 0x0003, 0x038C, 0x038E, 0x038F, 0x03D8, 0x0118, 0x03F2, 0x000A, 0x03F9, 0x03F3, 0x03F4,
    0x03F5, 0x03F6, 0x03F7, 0x03F7, 0x03F9, 0x03FA, 0x03FA, 0x0430, 0x0320, 0x0450, 0x0710, 0x0460, 0x0122, 0x048A, 0x0136, 0x04C1,
    0x010E, 0x04CF, 0x0001, 0x04C0, 0x04D0, 0x0144, 0x0561, 0x0426, 0x0000]"

definition cvt2 :: "u16 list" where
  "cvt2 = [
    0x1D7D, 0x0001, 0x2C63, 0x1E00, 0x0196, 0x1EA0, 0x015A, 0x1F00, 0x0608, 0x1F10, 0x0606, 0x1F20, 0x0608, 0x1F30, 0x0608, 0x1F40,
    0x0606, 0x1F51, 0x0007, 0x1F59, 0x1F52, 0x1F5B, 0x1F54, 0x1F5D, 0x1F56, 0x1F5F, 0x1F60, 0x0608, 0x1F70, 0x000E, 0x1FBA, 0x1FBB,
    0x1FC8, 0x1FC9, 0x1FCA, 0x1FCB, 0x1FDA, 0x1FDB, 0x1FF8, 0x1FF9, 0x1FEA, 0x1FEB, 0x1FFA, 0x1FFB, 0x1F80, 0x0608, 0x1F90, 0x0608,
    0x1FA0, 0x0608, 0x1FB0, 0x0004, 0x1FB8, 0x1FB9, 0x1FB2, 0x1FBC, 0x1FCC, 0x0001, 0x1FC3, 0x1FD0, 0x0602, 0x1FE0, 0x0602, 0x1FE5,
    0x0001, 0x1FEC, 0x1FF3, 0x0001, 0x1FFC, 0x214E, 0x0001, 0x2132, 0x2170, 0x0210, 0x2184, 0x0001, 0x2183, 0x24D0, 0x051A, 0x2C30,
    0x042F, 0x2C60, 0x0102, 0x2C67, 0x0106, 0x2C75, 0x0102, 0x2C80, 0x0164, 0x2D00, 0x0826, 0xFF41, 0x031A, 0x0000]"

text \<open>The conversion inside a block of the table with the given command; \<open>p\<close> is the rest of the table behind the
  header of the block.\<close>

definition upcase_cmd :: "u16 \<Rightarrow> u16 list \<Rightarrow> u16 \<Rightarrow> u16 \<Rightarrow> u16" where
  "upcase_cmd cmd p uc bc =
     (if cmd = 0 then p ! unat (uc - bc)
      else if cmd = 1 then uc - ((uc - bc) AND 1)
      else if cmd = 2 then uc - 16
      else if cmd = 3 then uc - 32
      else if cmd = 4 then uc - 48
      else if cmd = 5 then uc - 26
      else if cmd = 6 then uc + 8
      else if cmd = 7 then uc - 80
      else if cmd = 8 then uc - 0x1C60
      else uc)"

text \<open>The loop over the blocks. The sum \<^verbatim>\<open>bc + nc\<close> is an \<^verbatim>\<open>int\<close> in the code and does not wrap.\<close>

function upcase_loop :: "u16 list \<Rightarrow> u16 \<Rightarrow> u16" where
  "upcase_loop p uc =
     (case p of
        bc # nc # rest \<Rightarrow>
          if bc = 0 \<or> uc < bc then uc
          else
            let cmd = drop_bit 8 nc; nc = nc AND 0xFF in
            if unat uc < unat bc + unat nc then upcase_cmd cmd rest uc bc
            else upcase_loop (if cmd = 0 then drop (unat nc) rest else rest) uc
      | _ \<Rightarrow> uc)"
  by pat_completeness auto
termination
  by (relation "measure (\<lambda>(p, uc). length p)") auto

declare upcase_loop.simps [simp del]

definition ff_wtoupper :: "u32 \<Rightarrow> u32" where
  "ff_wtoupper uni =
     (if uni < 0x10000 then
        let uc = ucast uni :: u16 in ucast (upcase_loop (if uc < 0x1000 then cvt1 else cvt2) uc)
      else uni)"

subsection \<open>Words bit by bit\<close>

lemma word_bits32:
  assumes "list_all (\<lambda>n. bit x n = bit y n) [0, 1, 2, 3, 4, 5, 6, 7, 8, 9, 10, 11, 12, 13, 14, 15, 16, 17, 18, 19, 20, 21, 22, 23, 24, 25, 26, 27, 28, 29, 30, 31]"
  shows "x = (y :: u32)"
proof (rule bit_word_eqI)
  fix n assume "n < LENGTH(32)"
  then have "n \<in> set [0..<32]" by simp
  also have "[0..<32] = [0, 1, 2, 3, 4, 5, 6, 7, 8, 9, 10, 11, 12, 13, 14, 15, 16, 17, 18, 19, 20, 21, 22, 23, 24, 25, 26, 27, 28, 29, 30, 31]" by code_simp
  finally show "bit x n = bit y n" using assms unfolding list_all_iff by blast
qed

lemma high_bits_zero: "x < 2 ^ k \<Longrightarrow> k \<le> n \<Longrightarrow> \<not> bit (x :: u32) n"
proof
  assume a: "x < 2 ^ k" "k \<le> n" "bit x n"
  then have "n < 32" using bit_imp_le_length by fastforce
  with a have "k < 32" by simp
  then have "unat x < 2 ^ k" using a(1) by (simp add: word_less_nat_alt unat_exp)
  then have "take_bit k (unat x) = unat x" by (simp add: take_bit_nat_eq_self)
  then have "\<not> bit (unat x) n" using a(2) by (metis bit_take_bit_iff linorder_not_le)
  then show False using a(3) by (simp add: bit_unsigned_iff)
qed

subsection \<open>Decoding inverts encoding\<close>

lemma utf8_2:
  fixes chr :: u32
  assumes "chr < 0x800"
  shows "(push_bit 6 ((ucast (ucast (0xC0 OR (drop_bit 6 chr AND 0x1F)) :: u8) :: u32) AND 0x1F) OR ucast ((ucast (0x80 OR (chr AND 0x3F)) :: u8) AND 0x3F)) = chr"
proof (rule word_bits32)
  have h: "\<not> bit chr n" if "11 \<le> n" for n using high_bits_zero [of chr 11 n] assms that by simp
  show "list_all (\<lambda>n. bit ((push_bit 6 ((ucast (ucast (0xC0 OR (drop_bit 6 chr AND 0x1F)) :: u8) :: u32) AND 0x1F) OR ucast ((ucast (0x80 OR (chr AND 0x3F)) :: u8) AND 0x3F))) n = bit chr n) [0, 1, 2, 3, 4, 5, 6, 7, 8, 9, 10, 11, 12, 13, 14, 15, 16, 17, 18, 19, 20, 21, 22, 23, 24, 25, 26, 27, 28, 29, 30, 31]"
    by (simp add: h bit_or_iff bit_and_iff bit_push_bit_iff bit_drop_bit_eq bit_unsigned_iff)
qed

lemma utf8_3:
  fixes chr :: u32
  assumes "chr < 0x10000"
  shows "(push_bit 6 (push_bit 6 ((ucast (ucast (0xE0 OR (drop_bit 12 chr AND 0x0F)) :: u8) :: u32) AND 0x0F) OR ucast ((ucast (0x80 OR (drop_bit 6 chr AND 0x3F)) :: u8) AND 0x3F)) OR ucast ((ucast (0x80 OR (chr AND 0x3F)) :: u8) AND 0x3F)) = chr"
proof (rule word_bits32)
  have h: "\<not> bit chr n" if "16 \<le> n" for n using high_bits_zero [of chr 16 n] assms that by simp
  show "list_all (\<lambda>n. bit ((push_bit 6 (push_bit 6 ((ucast (ucast (0xE0 OR (drop_bit 12 chr AND 0x0F)) :: u8) :: u32) AND 0x0F) OR ucast ((ucast (0x80 OR (drop_bit 6 chr AND 0x3F)) :: u8) AND 0x3F)) OR ucast ((ucast (0x80 OR (chr AND 0x3F)) :: u8) AND 0x3F))) n = bit chr n) [0, 1, 2, 3, 4, 5, 6, 7, 8, 9, 10, 11, 12, 13, 14, 15, 16, 17, 18, 19, 20, 21, 22, 23, 24, 25, 26, 27, 28, 29, 30, 31]"
    by (simp add: h bit_or_iff bit_and_iff bit_push_bit_iff bit_drop_bit_eq bit_unsigned_iff)
qed

lemma utf8_4:
  fixes chr :: u32
  assumes "chr < 0x200000"
  shows "(push_bit 6 (push_bit 6 (push_bit 6 ((ucast (ucast (0xF0 OR (drop_bit 18 chr AND 0x07)) :: u8) :: u32) AND 0x07) OR ucast ((ucast (0x80 OR (drop_bit 12 chr AND 0x3F)) :: u8) AND 0x3F)) OR ucast ((ucast (0x80 OR (drop_bit 6 chr AND 0x3F)) :: u8) AND 0x3F)) OR ucast ((ucast (0x80 OR (chr AND 0x3F)) :: u8) AND 0x3F)) = chr"
proof (rule word_bits32)
  have h: "\<not> bit chr n" if "21 \<le> n" for n using high_bits_zero [of chr 21 n] assms that by simp
  show "list_all (\<lambda>n. bit ((push_bit 6 (push_bit 6 (push_bit 6 ((ucast (ucast (0xF0 OR (drop_bit 18 chr AND 0x07)) :: u8) :: u32) AND 0x07) OR ucast ((ucast (0x80 OR (drop_bit 12 chr AND 0x3F)) :: u8) AND 0x3F)) OR ucast ((ucast (0x80 OR (drop_bit 6 chr AND 0x3F)) :: u8) AND 0x3F)) OR ucast ((ucast (0x80 OR (chr AND 0x3F)) :: u8) AND 0x3F))) n = bit chr n) [0, 1, 2, 3, 4, 5, 6, 7, 8, 9, 10, 11, 12, 13, 14, 15, 16, 17, 18, 19, 20, 21, 22, 23, 24, 25, 26, 27, 28, 29, 30, 31]"
    by (simp add: h bit_or_iff bit_and_iff bit_push_bit_iff bit_drop_bit_eq bit_unsigned_iff)
qed


text \<open>The lead and trailing bytes are recognised.\<close>

lemma lead_bytes:
  fixes x :: u32
  shows "(ucast (ucast (0xC0 OR (x AND 0x1F)) :: u8) :: u32) AND 0x80 \<noteq> 0"
    "(ucast (ucast (0xC0 OR (x AND 0x1F)) :: u8) :: u32) AND 0xE0 = 0xC0"
    "(ucast (ucast (0xE0 OR (x AND 0x0F)) :: u8) :: u32) AND 0x80 \<noteq> 0"
    "(ucast (ucast (0xE0 OR (x AND 0x0F)) :: u8) :: u32) AND 0xE0 = 0xE0"
    "(ucast (ucast (0xE0 OR (x AND 0x0F)) :: u8) :: u32) AND 0xF0 = 0xE0"
    "(ucast (ucast (0xF0 OR (x AND 0x07)) :: u8) :: u32) AND 0x80 \<noteq> 0"
    "(ucast (ucast (0xF0 OR (x AND 0x07)) :: u8) :: u32) AND 0xE0 = 0xE0"
    "(ucast (ucast (0xF0 OR (x AND 0x07)) :: u8) :: u32) AND 0xF0 = 0xF0"
    "(ucast (ucast (0xF0 OR (x AND 0x07)) :: u8) :: u32) AND 0xF8 = 0xF0"
proof -
  have ne: "\<And>w :: u32. w AND 0x80 = 0x80 \<Longrightarrow> w AND 0x80 \<noteq> 0" by simp
  show "(ucast (ucast (0xC0 OR (x AND 0x1F)) :: u8) :: u32) AND 0x80 \<noteq> 0"
    "(ucast (ucast (0xE0 OR (x AND 0x0F)) :: u8) :: u32) AND 0x80 \<noteq> 0"
    "(ucast (ucast (0xF0 OR (x AND 0x07)) :: u8) :: u32) AND 0x80 \<noteq> 0"
    by (rule ne, rule word_bits32, simp add: bit_or_iff bit_and_iff bit_push_bit_iff bit_drop_bit_eq bit_unsigned_iff)+
  show "(ucast (ucast (0xC0 OR (x AND 0x1F)) :: u8) :: u32) AND 0xE0 = 0xC0"
    "(ucast (ucast (0xE0 OR (x AND 0x0F)) :: u8) :: u32) AND 0xE0 = 0xE0"
    "(ucast (ucast (0xE0 OR (x AND 0x0F)) :: u8) :: u32) AND 0xF0 = 0xE0"
    "(ucast (ucast (0xF0 OR (x AND 0x07)) :: u8) :: u32) AND 0xE0 = 0xE0"
    "(ucast (ucast (0xF0 OR (x AND 0x07)) :: u8) :: u32) AND 0xF0 = 0xF0"
    "(ucast (ucast (0xF0 OR (x AND 0x07)) :: u8) :: u32) AND 0xF8 = 0xF0"
    by (rule word_bits32, simp add: bit_or_iff bit_and_iff bit_push_bit_iff bit_drop_bit_eq bit_unsigned_iff)+
qed

lemma word_bits8:
  assumes "list_all (\<lambda>n. bit x n = bit y n) [0, 1, 2, 3, 4, 5, 6, 7]"
  shows "x = (y :: u8)"
proof (rule bit_word_eqI)
  fix n assume "n < LENGTH(8)"
  then have "n \<in> set [0..<8]" by simp
  also have "[0..<8] = [0, 1, 2, 3, 4, 5, 6, 7]" by code_simp
  finally show "bit x n = bit y n" using assms unfolding list_all_iff by blast
qed

lemma trail_byte: "(ucast (0x80 OR (x AND 0x3F) :: u32) :: u8) AND 0xC0 = 0x80"
  by (rule word_bits8) (simp add: bit_or_iff bit_and_iff bit_push_bit_iff bit_drop_bit_eq bit_unsigned_iff)


lemma surrogate_split:
  fixes chr :: u32
  defines "H \<equiv> (chr AND 0xFFFF0000) - 0xD8000000" and "lo \<equiv> (chr AND 0xFFFF) - 0xDC00"
  assumes h: "drop_bit 6 H < 0x100000" and l: "lo < 0x400"
  shows "chr = (0xD800DC00 OR H) OR lo" "H < 2 ^ 26" "\<forall>n < 16. \<not> bit H n"
proof -
  have "unat H div 64 < 0x100000" using h by (simp add: word_less_nat_alt drop_bit_eq_div unat_div)
  then show H: "H < 2 ^ 26" by (simp add: word_less_nat_alt)
  have hb: "\<not> bit H n" if "26 \<le> n" for n using high_bits_zero [OF H] that by simp
  have lb: "\<not> bit lo n" if "10 \<le> n" for n using high_bits_zero [of lo 10 n] l that by simp
  have "0xD8000000 AND H = 0" by (rule word_bits32) (simp add: hb bit_and_iff)
  then have A: "chr AND 0xFFFF0000 = 0xD8000000 OR H" by (simp add: H_def flip: disjunctive_add_eq_or)
  have "0xDC00 AND lo = 0" by (rule word_bits32) (simp add: lb bit_and_iff)
  then have B: "chr AND 0xFFFF = 0xDC00 OR lo" by (simp add: lo_def flip: disjunctive_add_eq_or)
  have "chr = (chr AND 0xFFFF0000) OR (chr AND 0xFFFF)" by (rule word_bits32) (simp add: bit_or_iff bit_and_iff)
  also have "\<dots> = (0xD800DC00 OR H) OR lo" unfolding A B by (rule word_bits32) (simp add: bit_or_iff hb lb) 
  finally show "chr = (0xD800DC00 OR H) OR lo" .
  show "\<forall>n < 16. \<not> bit H n"
  proof (intro allI impI)
    fix n :: nat assume "n < 16"
    then have "\<not> bit (chr AND 0xFFFF0000) n"
    proof -
      have "n \<in> set [0..<16]" using \<open>n < 16\<close> by simp
      also have "[0..<16] = [0, 1, 2, 3, 4, 5, 6, 7, 8, 9, 10, 11, 12, 13, 14, 15]" by code_simp
      finally show ?thesis by (auto simp: bit_and_iff)
    qed
    then show "\<not> bit H n" unfolding A by (simp add: bit_or_iff)
  qed
qed

lemma decode_1: "chr < 0x80 \<Longrightarrow> tchar2uni (b(p := ucast chr)) p = (chr, p + 1)"
proof -
  assume c: "chr < 0x80"
  have h: "\<not> bit chr n" if "7 \<le> n" for n using high_bits_zero [of chr 7 n] c that by simp
  have "(ucast (ucast chr :: u8) :: u32) = chr" by (rule word_bits32) (simp add: h bit_unsigned_iff)
  moreover have "chr AND 0x80 = 0" by (rule word_bits32) (simp add: h bit_and_iff)
  ultimately show ?thesis by (simp add: tchar2uni_def)
qed

lemma tchar2uni_2:
  assumes "ucast (s p) AND 0x80 \<noteq> (0 :: u32)" "ucast (s p) AND 0xE0 = (0xC0 :: u32)"
    "s (p + 1) AND 0xC0 = 0x80"
    "(push_bit 6 (ucast (s p) AND 0x1F) OR ucast (s (p + 1) AND 0x3F)) = (T :: u32)"
  shows "tchar2uni s p = (if T < 0x80 \<or> IsSurrogate T \<or> 0x110000 \<le> T then (0xFFFFFFFF, p)
    else if 0x10000 \<le> T then (0xD800DC00 OR (push_bit 6 (T - 0x10000) AND 0x3FF0000) OR (T AND 0x3FF), p + 2) else (T, p + 2))"
proof -
  have "trailing_bytes s (p + 1) (ucast (s p) AND 0x1F) 1 = Some (T, p + 2)"
    unfolding assms(4) [symmetric] using assms(3-3)
    by (simp only: eval_nat_numeral trailing_bytes.simps Let_def) (simp add: numeral_2_eq_2 numeral_3_eq_3)
  then show ?thesis unfolding tchar2uni_def Let_def using assms(1-2) by simp
qed

lemma tchar2uni_3:
  assumes "ucast (s p) AND 0x80 \<noteq> (0 :: u32)" "ucast (s p) AND 0xE0 = (0xE0 :: u32)" "ucast (s p) AND 0xF0 = (0xE0 :: u32)"
    "s (p + 1) AND 0xC0 = 0x80" "s (p + 2) AND 0xC0 = 0x80"
    "(push_bit 6 (push_bit 6 (ucast (s p) AND 0x0F) OR ucast (s (p + 1) AND 0x3F)) OR ucast (s (p + 2) AND 0x3F)) = (T :: u32)"
  shows "tchar2uni s p = (if T < 0x80 \<or> IsSurrogate T \<or> 0x110000 \<le> T then (0xFFFFFFFF, p)
    else if 0x10000 \<le> T then (0xD800DC00 OR (push_bit 6 (T - 0x10000) AND 0x3FF0000) OR (T AND 0x3FF), p + 3) else (T, p + 3))"
proof -
  have "trailing_bytes s (p + 1) (ucast (s p) AND 0x0F) 2 = Some (T, p + 3)"
    unfolding assms(6) [symmetric] using assms(4-5)
    by (simp only: eval_nat_numeral trailing_bytes.simps Let_def) (simp add: numeral_2_eq_2 numeral_3_eq_3)
  then show ?thesis unfolding tchar2uni_def Let_def using assms(1-3) by simp
qed

lemma tchar2uni_4:
  assumes "ucast (s p) AND 0x80 \<noteq> (0 :: u32)" "ucast (s p) AND 0xE0 = (0xE0 :: u32)" "ucast (s p) AND 0xF0 = (0xF0 :: u32)" "ucast (s p) AND 0xF8 = (0xF0 :: u32)"
    "s (p + 1) AND 0xC0 = 0x80" "s (p + 2) AND 0xC0 = 0x80" "s (p + 3) AND 0xC0 = 0x80"
    "(push_bit 6 (push_bit 6 (push_bit 6 (ucast (s p) AND 0x07) OR ucast (s (p + 1) AND 0x3F)) OR ucast (s (p + 2) AND 0x3F)) OR ucast (s (p + 3) AND 0x3F)) = (T :: u32)"
  shows "tchar2uni s p = (if T < 0x80 \<or> IsSurrogate T \<or> 0x110000 \<le> T then (0xFFFFFFFF, p)
    else if 0x10000 \<le> T then (0xD800DC00 OR (push_bit 6 (T - 0x10000) AND 0x3FF0000) OR (T AND 0x3FF), p + 4) else (T, p + 4))"
proof -
  have "trailing_bytes s (p + 1) (ucast (s p) AND 0x07) 3 = Some (T, p + 4)"
    unfolding assms(8) [symmetric] using assms(5-7)
    by (simp only: eval_nat_numeral trailing_bytes.simps Let_def) (simp add: numeral_2_eq_2 numeral_3_eq_3)
  then show ?thesis unfolding tchar2uni_def Let_def using assms(1-4) by simp
qed

lemma decode_2:
  assumes "0x80 \<le> chr" "chr < 0x800"
  shows "tchar2uni (b(p := ucast (0xC0 OR (drop_bit 6 chr AND 0x1F)), p + 1 := ucast (0x80 OR (chr AND 0x3F)))) p = (chr, p + 2)"
    (is "tchar2uni ?s p = _")
proof -
  have n: "\<not> (chr < 0x80 \<or> IsSurrogate chr \<or> 0x110000 \<le> chr)" "\<not> 0x10000 \<le> chr"
    using assms by (auto simp: word_le_nat_alt word_less_nat_alt)
  have s: "?s (p) = ucast (0xC0 OR (drop_bit 6 chr AND 0x1F))" "?s (p + 1) = ucast (0x80 OR (chr AND 0x3F))"
    by simp_all
  have "tchar2uni ?s p = (if chr < 0x80 \<or> IsSurrogate chr \<or> 0x110000 \<le> chr then (0xFFFFFFFF, p)
    else if 0x10000 \<le> chr then (0xD800DC00 OR (push_bit 6 (chr - 0x10000) AND 0x3FF0000) OR (chr AND 0x3FF), p + 2) else (chr, p + 2))"
    by (rule tchar2uni_2; unfold s; rule lead_bytes trail_byte utf8_2 [OF assms(2)])
  then show ?thesis using n assms by simp
qed

lemma decode_3:
  assumes "0x800 \<le> chr" "chr < 0x10000" "\<not> IsSurrogate chr"
  shows "tchar2uni (b(p := ucast (0xE0 OR (drop_bit 12 chr AND 0x0F)), p + 1 := ucast (0x80 OR (drop_bit 6 chr AND 0x3F)), p + 2 := ucast (0x80 OR (chr AND 0x3F)))) p = (chr, p + 3)"
    (is "tchar2uni ?s p = _")
proof -
  have n: "\<not> (chr < 0x80 \<or> IsSurrogate chr \<or> 0x110000 \<le> chr)" "\<not> 0x10000 \<le> chr"
    using assms by (auto simp: word_le_nat_alt word_less_nat_alt)
  have s: "?s (p) = ucast (0xE0 OR (drop_bit 12 chr AND 0x0F))" "?s (p + 1) = ucast (0x80 OR (drop_bit 6 chr AND 0x3F))" "?s (p + 2) = ucast (0x80 OR (chr AND 0x3F))"
    by simp_all
  have "tchar2uni ?s p = (if chr < 0x80 \<or> IsSurrogate chr \<or> 0x110000 \<le> chr then (0xFFFFFFFF, p)
    else if 0x10000 \<le> chr then (0xD800DC00 OR (push_bit 6 (chr - 0x10000) AND 0x3FF0000) OR (chr AND 0x3FF), p + 3) else (chr, p + 3))"
    by (rule tchar2uni_3; unfold s; rule lead_bytes trail_byte utf8_3 [OF assms(2)])
  then show ?thesis using n assms by simp
qed

lemma decode_4:
  assumes "0x10000 \<le> c" "c < 0x110000"
  shows "tchar2uni (b(p := ucast (0xF0 OR (drop_bit 18 c AND 0x07)), p + 1 := ucast (0x80 OR (drop_bit 12 c AND 0x3F)), p + 2 := ucast (0x80 OR (drop_bit 6 c AND 0x3F)), p + 3 := ucast (0x80 OR (c AND 0x3F)))) p = (0xD800DC00 OR (push_bit 6 (c - 0x10000) AND 0x3FF0000) OR (c AND 0x3FF), p + 4)"
    (is "tchar2uni ?s p = _")
proof -
  have n: "\<not> (c < 0x80 \<or> IsSurrogate c \<or> 0x110000 \<le> c)" "c < 0x200000"
    using assms by (auto simp: word_le_nat_alt word_less_nat_alt)
  have s: "?s (p) = ucast (0xF0 OR (drop_bit 18 c AND 0x07))" "?s (p + 1) = ucast (0x80 OR (drop_bit 12 c AND 0x3F))" "?s (p + 2) = ucast (0x80 OR (drop_bit 6 c AND 0x3F))" "?s (p + 3) = ucast (0x80 OR (c AND 0x3F))"
    by simp_all
  have "tchar2uni ?s p = (if c < 0x80 \<or> IsSurrogate c \<or> 0x110000 \<le> c then (0xFFFFFFFF, p)
    else if 0x10000 \<le> c then (0xD800DC00 OR (push_bit 6 (c - 0x10000) AND 0x3FF0000) OR (c AND 0x3FF), p + 4) else (c, p + 4))"
    by (rule tchar2uni_4; unfold s; rule lead_bytes trail_byte utf8_4 [OF n(2)])
  then show ?thesis using n assms by simp
qed

text \<open>The surrogate pair comes back from the code point it stands for.\<close>

lemma surrogate_code:
  fixes chr :: u32
  assumes h: "drop_bit 6 ((chr AND 0xFFFF0000) - 0xD8000000) < 0x100000" and l: "(chr AND 0xFFFF) - 0xDC00 < 0x400"
    and c: "c = (drop_bit 6 ((chr AND 0xFFFF0000) - 0xD8000000) OR ((chr AND 0xFFFF) - 0xDC00)) + 0x10000"
  shows "0x10000 \<le> c" "c < 0x110000" "0xD800DC00 OR (push_bit 6 (c - 0x10000) AND 0x3FF0000) OR (c AND 0x3FF) = chr"
proof -
  define H where "H = (chr AND 0xFFFF0000) - 0xD8000000"
  define lo where "lo = (chr AND 0xFFFF) - 0xDC00"
  define x where "x = drop_bit 6 H OR lo"
  note S = surrogate_split [OF h l, folded H_def lo_def]
  have hb: "\<not> bit H n" if "26 \<le> n" for n using high_bits_zero [OF S(2)] that by simp
  have lb: "\<not> bit lo n" if "10 \<le> n" for n using high_bits_zero [of lo 10 n] l that by (simp add: lo_def)
  have x: "take_bit 20 x = x" by (rule word_bits32) (simp add: x_def bit_take_bit_iff bit_or_iff bit_drop_bit_eq hb lb)
  have "unat x < 2 ^ 20" using unsigned_take_bit_eq [of 20 x, where ?'a = nat] x by (metis take_bit_nat_less_exp)
  then have u: "unat c = unat x + 0x10000" unfolding c H_def [symmetric] lo_def [symmetric] x_def [symmetric]
    by (simp add: unat_word_ariths)
  then show "0x10000 \<le> c" "c < 0x110000" using \<open>unat x < 2 ^ 20\<close> by (simp_all add: word_le_nat_alt word_less_nat_alt)
  have cx: "c - 0x10000 = x" unfolding c H_def [symmetric] lo_def [symmetric] x_def [symmetric] by simp
  have "c AND 0x3FF = take_bit 10 c" by (simp add: take_bit_eq_mask mask_eq_exp_minus_1)
  also have "\<dots> = take_bit 10 x"
  proof -
    have m: "(a + 0x10000) mod 1024 = a mod 1024" for a :: nat using mod_mult_self1 [of a 64 1024] by simp
    have "unat (take_bit 10 c) = unat (take_bit 10 x)" using m [of "unat x"] by (simp add: take_bit_eq_mod unat_mod u)
    then show ?thesis by (metis of_nat_unat ucast_id)
  qed
  also have "\<dots> = lo" by (rule word_bits32) (simp add: x_def bit_take_bit_iff bit_or_iff bit_drop_bit_eq S(3) lb)
  finally have low: "c AND 0x3FF = lo" .
  have "push_bit 6 x AND 0x3FF0000 = H"
    by (rule word_bits32) (simp add: x_def bit_and_iff bit_push_bit_iff bit_or_iff bit_drop_bit_eq S(3) hb lb)
  then show "0xD800DC00 OR (push_bit 6 (c - 0x10000) AND 0x3FF0000) OR (c AND 0x3FF) = chr"
    unfolding cx low using S(1) by (simp add: or.assoc)
qed

lemma put_utf_tchar2uni:
  assumes p: "put_utf chr b p szb = (n, b')" and n: "n \<noteq> 0"
  shows "tchar2uni b' p = (chr, p + unat n)"
proof (cases "chr < 0x10000")
  case True
  then show ?thesis
    using p n decode_1 [of chr b p] decode_2 [of chr b p] decode_3 [of chr b p] unfolding put_utf_def
    by (simp split: if_splits)
next
  case False
  define c where "c = (drop_bit 6 ((chr AND 0xFFFF0000) - 0xD8000000) OR ((chr AND 0xFFFF) - 0xDC00)) + 0x10000"
  have nl: "\<not> chr < 0x80" "\<not> chr < 0x800" using False by (auto simp: word_less_nat_alt)
  have hl: "drop_bit 6 ((chr AND 0xFFFF0000) - 0xD8000000) < 0x100000" "(chr AND 0xFFFF) - 0xDC00 < 0x400"
    and b': "n = 4" "b' = b(p := ucast (0xF0 OR (drop_bit 18 c AND 0x07)), p + 1 := ucast (0x80 OR (drop_bit 12 c AND 0x3F)),
                p + 2 := ucast (0x80 OR (drop_bit 6 c AND 0x3F)), p + 3 := ucast (0x80 OR (c AND 0x3F)))"
    using p n False nl unfolding put_utf_def Let_def c_def [symmetric] by (auto simp: not_le split: if_splits)
  note C = surrogate_code [OF hl c_def]
  show ?thesis unfolding b' decode_4 [OF C(1,2)] C(3) by simp
qed

subsection \<open>Code page 850\<close>

lemma table_index_nth: "distinct xs \<Longrightarrow> i < length xs \<Longrightarrow> table_index (xs ! i) xs = i"
  by (induction xs arbitrary: i) (auto simp: nth_Cons split: nat.splits)

lemma uc850_distinct: "distinct uc850" "length uc850 = 128" "\<forall>x \<in> set uc850. 0x80 \<le> x"
  by code_simp+

subsection \<open>Properties\<close>

text \<open>
  C26. UTF-8 names survive: whatever \<^verbatim>\<open>put_utf\<close> stores (one to four bytes, surrogate pairs included),
  \<^verbatim>\<open>tchar2uni\<close> reads back as the same character and moves behind exactly the bytes stored.
\<close>

theorem utf8_round_trip:
  assumes "put_utf chr b p szb = (n, b')" and "n \<noteq> 0"
  shows "tchar2uni b' p = (chr, p + unat n)"
  using assms by (rule put_utf_tchar2uni)

theorem utf8_round_trip_witness:
  "tchar2uni (snd (put_utf 0xD83DDE00 (\<lambda>_. 0) 5 10)) 5 = (0xD83DDE00, 9) \<and> snd (put_utf 0xD83DDE00 (\<lambda>_. 0) 5 10) 5 = 0xF0"
proof -
  have e: "put_utf 0xD83DDE00 (\<lambda>_. 0) 5 10 = (4, (\<lambda>_. 0)(5 := 0xF0, 6 := 0x9F, 7 := 0x98, 8 := 0x80))"
    by (simp add: put_utf_def)
  show ?thesis using utf8_round_trip [OF e] by (simp add: e)
qed

text \<open>
  The conversions of the code page are inverse: every 8-bit character converts to Unicode and back
  to itself, so short names are displayed and looked up with the same bytes.
\<close>

lemma code_page_round_trip:
  assumes "oem < 0x100"
  shows "ff_uni2oem (ucast (ff_oem2uni oem FF_CODE_PAGE)) FF_CODE_PAGE = oem"
proof (cases "oem < 0x80")
  case True
  then have "(ucast oem :: u32) < 0x80" by (simp add: word_less_nat_alt unsigned_ucast_eq take_bit_nat_eq_self)
  moreover have "ucast (ucast oem :: u32) = oem" by (rule bit_word_eqI) (simp add: bit_unsigned_iff)
  ultimately show ?thesis using True by (simp add: ff_uni2oem_def ff_oem2uni_def)
next
  case False
  define i where "i = unat (oem - 0x80)"
  have i: "unat oem = 128 + i" "i < 128"
    using False assms by (auto simp: i_def word_less_nat_alt unat_sub_no_wrap word_le_nat_alt)
  define u where "u = uc850 ! i"
  have u: "0x80 \<le> u" using uc850_distinct i nth_mem [of i uc850] by (auto simp: u_def)
  have c: "unat (ucast u :: u32) = unat u" "unat u < 2 ^ 16"
    using unsigned_less [of u, where ?'a = nat] by (simp_all add: unsigned_ucast_eq take_bit_nat_eq_self)
  have b: "\<not> (ucast u :: u32) < 0x80" "(ucast u :: u32) < 0x10000"
    using u c by (simp_all add: word_less_nat_alt word_le_nat_alt)
  have t: "table_index u uc850 = i" unfolding u_def using table_index_nth uc850_distinct i(2) by simp
  have "(of_nat i + 0x80 :: u16) = oem" using i(1) by (metis add.commute of_nat_add of_nat_numeral of_nat_unat ucast_id)
  moreover have "oem AND 0xFF = oem"
  proof -
    have "oem AND 0xFF = take_bit 8 oem" by (simp add: take_bit_eq_mask mask_eq_exp_minus_1)
    moreover have "unat (take_bit 8 oem) = unat oem" using assms by (simp add: unsigned_take_bit_eq take_bit_nat_eq_self word_less_nat_alt)
    ultimately show ?thesis by (metis of_nat_unat ucast_id)
  qed
  moreover have "ucast (ucast u :: u32) = u" by (rule bit_word_eqI) (simp add: bit_unsigned_iff)
  ultimately show ?thesis using False assms b t by (simp add: ff_oem2uni_def ff_uni2oem_def flip: i_def u_def)
qed

end
