(* ===== verification/Fat_Dir.thy ===== *)
theory Fat_Dir
  imports Fat_Volume Fat_Unicode
begin

text \<open>
  Directories of the file system, \<^verbatim>\<open>ff.c\<close>: positioning (\<^verbatim>\<open>dir_sdi\<close>, \<^verbatim>\<open>dir_next\<close>), long names (\<^verbatim>\<open>cmp_lfn\<close>, \<^verbatim>\<open>pick_lfn\<close>, the
  checksums), the entry blocks of exFAT (\<^verbatim>\<open>load_xdir\<close>), reading the next object (\<^verbatim>\<open>dir_read\<close>) and looking one up
  (\<^verbatim>\<open>dir_find\<close>). The loops over entries and clusters are \<open>partial_function\<close>s; they are shown to end on every disk.
\<close>

subsection \<open>Constants\<close>

abbreviation DIR_Attr :: nat where "DIR_Attr \<equiv> 11"

abbreviation DIR_NTres :: nat where "DIR_NTres \<equiv> 12"

abbreviation DIR_FstClusHI :: nat where "DIR_FstClusHI \<equiv> 20"

abbreviation DIR_ModTime :: nat where "DIR_ModTime \<equiv> 22"

abbreviation DIR_FstClusLO :: nat where "DIR_FstClusLO \<equiv> 26"

abbreviation DIR_FileSize :: nat where "DIR_FileSize \<equiv> 28"

abbreviation LDIR_Ord :: nat where "LDIR_Ord \<equiv> 0"

abbreviation LDIR_Chksum :: nat where "LDIR_Chksum \<equiv> 13"

abbreviation LDIR_FstClusLO :: nat where "LDIR_FstClusLO \<equiv> 26"

abbreviation XDIR_NumSec :: nat where "XDIR_NumSec \<equiv> 1"

abbreviation XDIR_SetSum :: nat where "XDIR_SetSum \<equiv> 2"

abbreviation XDIR_Attr :: nat where "XDIR_Attr \<equiv> 4"

abbreviation XDIR_ModTime :: nat where "XDIR_ModTime \<equiv> 12"

abbreviation XDIR_GenFlags :: nat where "XDIR_GenFlags \<equiv> 33"

abbreviation XDIR_NumName :: nat where "XDIR_NumName \<equiv> 35"

abbreviation XDIR_NameHash :: nat where "XDIR_NameHash \<equiv> 36"

abbreviation XDIR_FstClus :: nat where "XDIR_FstClus \<equiv> 52"

abbreviation XDIR_FileSize :: nat where "XDIR_FileSize \<equiv> 56"

abbreviation DDEM :: u8 where "DDEM \<equiv> 0xE5"

abbreviation LLEF :: u8 where "LLEF \<equiv> 0x40"

abbreviation ET_FILEDIR :: u8 where "ET_FILEDIR \<equiv> 0x85"

abbreviation ET_STREAM :: u8 where "ET_STREAM \<equiv> 0xC0"

abbreviation ET_FILENAME :: u8 where "ET_FILENAME \<equiv> 0xC1"

abbreviation NSFLAG :: nat where "NSFLAG \<equiv> 11"

abbreviation NS_LOSS :: u8 where "NS_LOSS \<equiv> 0x01"

abbreviation NS_NOLFN :: u8 where "NS_NOLFN \<equiv> 0x40"

definition LfnOfs :: "nat list" where
  "LfnOfs = [1, 3, 5, 7, 9, 14, 16, 18, 20, 22, 24, 28, 30]"

definition MAXDIRB :: "nat \<Rightarrow> nat" where
  "MAXDIRB nc = (nc + 44) div 15 * SZDIRE"

subsection \<open>Position in a directory\<close>

definition max_dir :: "FATFS \<Rightarrow> u32" where
  "max_dir fs = (if fs_type fs = FS_EXFAT then MAX_DIR_EX else MAX_DIR)"

partial_function (option) dir_sdi_loop ::
  "disk option \<Rightarrow> FATFS \<Rightarrow> FFOBJID \<Rightarrow> u32 \<Rightarrow> u32 \<Rightarrow> u32 \<Rightarrow> ((FRESULT + u32 \<times> u32) \<times> FATFS) option" where
  "dir_sdi_loop rd fs obj clst ofs csz =
     (if csz \<le> ofs then
        case get_fat rd fs obj clst of (clst, fs) \<Rightarrow>
          if clst = 0xFFFFFFFF then Some (Inl FR_DISK_ERR, fs)
          else if clst < 2 \<or> n_fatent fs \<le> clst then Some (Inl FR_INT_ERR, fs)
          else dir_sdi_loop rd fs obj clst (ofs - csz) csz
      else Some (Inr (clst, ofs), fs))"

text \<open>The end of \<^verbatim>\<open>dir_sdi\<close>, once the first sector \<open>sct\<close> of the table or cluster is known.\<close>

definition dir_sdi_set :: "FATFS \<Rightarrow> DIR \<Rightarrow> u32 \<Rightarrow> u64 \<Rightarrow> u32 \<Rightarrow> FRESULT \<times> FATFS \<times> DIR" where
  "dir_sdi_set fs dp clst sct ofs =
     (let dp = dp\<lparr>dir_sect := sct, dir_clust := clst\<rparr> in
      if sct = 0 then (FR_INT_ERR, fs, dp)
      else (FR_OK, fs, dp\<lparr>dir_sect := sct + ucast (ofs div SS), dir := unat (ofs mod SS)\<rparr>))"

definition dir_sdi :: "disk option \<Rightarrow> FATFS \<Rightarrow> DIR \<Rightarrow> u32 \<Rightarrow> (FRESULT \<times> FATFS \<times> DIR) option" where
  "dir_sdi rd fs dp ofs =
     (if max_dir fs \<le> ofs \<or> ofs mod SZDIRE \<noteq> 0 then Some (FR_INT_ERR, fs, dp)
      else
        let dp = dp\<lparr>dptr := ofs\<rparr>;
            clst = sclust (dir_obj dp);
            (clst, dp) = (if clst = 0 \<and> FS_FAT32 \<le> fs_type fs then (ucast (dirbase fs), dp\<lparr>dir_obj := (dir_obj dp)\<lparr>stat := 0\<rparr>\<rparr>)
                          else (clst, dp)) in
        if clst = 0 then
          if ucast (n_rootdir fs) \<le> ofs div SZDIRE then Some (FR_INT_ERR, fs, dp)
          else Some (dir_sdi_set fs dp clst (dirbase fs) ofs)
        else
          (case dir_sdi_loop rd fs (dir_obj dp) clst ofs (ucast (csize fs) * SS) of
             None \<Rightarrow> None
           | Some (Inl e, fs) \<Rightarrow> Some (e, fs, dp)
           | Some (Inr (clst, ofs), fs) \<Rightarrow> Some (dir_sdi_set fs dp clst (clst2sect fs clst) ofs)))"

definition dir_next :: "disk option \<Rightarrow> FATFS \<Rightarrow> DIR \<Rightarrow> FRESULT \<times> FATFS \<times> DIR" where
  "dir_next rd fs dp =
     (let ofs = dptr dp + SZDIRE;
          dp = (if max_dir fs \<le> ofs then dp\<lparr>dir_sect := 0\<rparr> else dp);
          set_entry = (\<lambda>dp. dp\<lparr>dptr := ofs, dir := unat (ofs mod SS)\<rparr>) in
      if dir_sect dp = 0 then (FR_NO_FILE, fs, dp)
      else if ofs mod SS = 0 then
        let dp = dp\<lparr>dir_sect := dir_sect dp + 1\<rparr> in
        if dir_clust dp = 0 then
          if ucast (n_rootdir fs) \<le> ofs div SZDIRE then (FR_NO_FILE, fs, dp\<lparr>dir_sect := 0\<rparr>)
          else (FR_OK, fs, set_entry dp)
        else if ofs div SS AND (ucast (csize fs) - 1) = 0 then
          (case get_fat rd fs (dir_obj dp) (dir_clust dp) of (clst, fs) \<Rightarrow>
             if clst \<le> 1 then (FR_INT_ERR, fs, dp)
             else if clst = 0xFFFFFFFF then (FR_DISK_ERR, fs, dp)
             else if n_fatent fs \<le> clst then (FR_NO_FILE, fs, dp\<lparr>dir_sect := 0\<rparr>)
             else (FR_OK, fs, set_entry (dp\<lparr>dir_clust := clst, dir_sect := clst2sect fs clst\<rparr>)))
        else (FR_OK, fs, set_entry dp)
      else (FR_OK, fs, set_entry dp))"

definition ld_clust :: "FATFS \<Rightarrow> bytes \<Rightarrow> nat \<Rightarrow> u32" where
  "ld_clust fs b ent =
     (let cl = ucast (ld_word b (ent + DIR_FstClusLO)) in
      if fs_type fs = FS_FAT32 then cl OR push_bit 16 (ucast (ld_word b (ent + DIR_FstClusHI))) else cl)"

subsection \<open>Long names and checksums\<close>

fun cmp_lfn_loop :: "wchars \<Rightarrow> bytes \<Rightarrow> nat \<Rightarrow> nat list \<Rightarrow> u32 \<Rightarrow> u16 \<Rightarrow> (u32 \<times> u16) option" where
  "cmp_lfn_loop lfn b ent [] i wc = Some (i, wc)"
| "cmp_lfn_loop lfn b ent (o1 # offs) i wc =
     (let uc = ld_word b (ent + o1) in
      if wc \<noteq> 0 then
        if FF_MAX_LFN + 1 \<le> i \<or> ff_wtoupper (ucast uc) \<noteq> ff_wtoupper (ucast (lfn (unat i))) then None
        else cmp_lfn_loop lfn b ent offs (i + 1) uc
      else if uc \<noteq> 0xFFFF then None
      else cmp_lfn_loop lfn b ent offs i wc)"

definition cmp_lfn :: "wchars \<Rightarrow> bytes \<Rightarrow> nat \<Rightarrow> bool" where
  "cmp_lfn lfn b ent =
     (if ld_word b (ent + LDIR_FstClusLO) \<noteq> 0 then False
      else
        let i = (ucast (b (ent + LDIR_Ord) AND 0x3F) - 1) * 13 in
        case cmp_lfn_loop lfn b ent LfnOfs i 1 of
          None \<Rightarrow> False
        | Some (i, wc) \<Rightarrow> \<not> (b (ent + LDIR_Ord) AND LLEF \<noteq> 0 \<and> wc \<noteq> 0 \<and> lfn (unat i) \<noteq> 0))"

text \<open>\<^verbatim>\<open>pick_lfn\<close> fills the name buffer, also on the way to a failure.\<close>

fun pick_lfn_loop :: "wchars \<Rightarrow> bytes \<Rightarrow> nat \<Rightarrow> nat list \<Rightarrow> u32 \<Rightarrow> u16 \<Rightarrow> (u32 \<times> u16) option \<times> wchars" where
  "pick_lfn_loop lfn b ent [] i wc = (Some (i, wc), lfn)"
| "pick_lfn_loop lfn b ent (o1 # offs) i wc =
     (let uc = ld_word b (ent + o1) in
      if wc \<noteq> 0 then
        if FF_MAX_LFN + 1 \<le> i then (None, lfn)
        else pick_lfn_loop (lfn(unat i := uc)) b ent offs (i + 1) uc
      else if uc \<noteq> 0xFFFF then (None, lfn)
      else pick_lfn_loop lfn b ent offs i wc)"

definition pick_lfn :: "wchars \<Rightarrow> bytes \<Rightarrow> nat \<Rightarrow> bool \<times> wchars" where
  "pick_lfn lfn b ent =
     (if ld_word b (ent + LDIR_FstClusLO) \<noteq> 0 then (False, lfn)
      else
        let i = (ucast (b (ent + LDIR_Ord) AND NOT LLEF) - 1) * 13 in
        case pick_lfn_loop lfn b ent LfnOfs i 1 of
          (None, lfn) \<Rightarrow> (False, lfn)
        | (Some (i, wc), lfn) \<Rightarrow>
            if b (ent + LDIR_Ord) AND LLEF \<noteq> 0 \<and> wc \<noteq> 0 then
              if FF_MAX_LFN + 1 \<le> i then (False, lfn) else (True, lfn(unat i := 0))
            else (True, lfn))"

definition sum_sfn :: "bytes \<Rightarrow> nat \<Rightarrow> u8" where
  "sum_sfn b ent = foldl (\<lambda>acc i. drop_bit 1 acc + push_bit 7 acc + b (ent + i)) 0 [0..<11]"

definition rot_sum :: "u16 \<Rightarrow> u16 \<Rightarrow> u16" where
  "rot_sum acc x = (if acc AND 1 \<noteq> 0 then 0x8000 else 0) + drop_bit 1 acc + x"

definition xdir_sum :: "bytes \<Rightarrow> u16" where
  "xdir_sum b =
     (let szblk = (unat (b XDIR_NumSec) + 1) * SZDIRE in
      foldl (\<lambda>acc i. if i = XDIR_SetSum \<or> i = XDIR_SetSum + 1 then acc else rot_sum acc (ucast (b i))) 0 [0..<szblk])"

partial_function (option) xname_sum_loop :: "wchars \<Rightarrow> nat \<Rightarrow> u16 \<Rightarrow> u16 option" where
  "xname_sum_loop name i acc =
     (let chr = name i in
      if chr \<noteq> 0 then
        let chr = ucast (ff_wtoupper (ucast chr)) :: u16
        in xname_sum_loop name (i + 1) (rot_sum (rot_sum acc (chr AND 0xFF)) (drop_bit 8 chr))
      else Some acc)"

definition xname_sum :: "wchars \<Rightarrow> u16 option" where
  "xname_sum name = xname_sum_loop name 0 0"

subsection \<open>Entry blocks of exFAT\<close>

text \<open>Move to the next entry of a block and load its sector; the end of the directory is an error here.\<close>

definition next_of_block :: "disk option \<Rightarrow> FATFS \<Rightarrow> DIR \<Rightarrow> FRESULT \<times> FATFS \<times> DIR" where
  "next_of_block rd fs dp =
     (case dir_next rd fs dp of (res, fs, dp) \<Rightarrow>
        let res = (if res = FR_NO_FILE then FR_INT_ERR else res) in
        if res \<noteq> FR_OK then (res, fs, dp)
        else (case move_window rd fs (dir_sect dp) of (res, fs) \<Rightarrow> (res, fs, dp)))"

text \<open>The loop over the name entries; \<open>n\<close> of them are left.\<close>

fun load_names :: "disk option \<Rightarrow> FATFS \<Rightarrow> DIR \<Rightarrow> nat \<Rightarrow> nat \<Rightarrow> FRESULT \<times> FATFS \<times> DIR" where
  "load_names rd fs dp i 0 = (FR_OK, fs, dp)"
| "load_names rd fs dp i (Suc n) =
     (case next_of_block rd fs dp of (res, fs, dp) \<Rightarrow>
        if res \<noteq> FR_OK then (res, fs, dp)
        else if win fs (dir dp) \<noteq> ET_FILENAME then (FR_INT_ERR, fs, dp)
        else
          let fs = (if i < MAXDIRB FF_MAX_LFN then fs\<lparr>dirbuf := blit_bytes (dirbuf fs) i (\<lambda>k. win fs (dir dp + k)) SZDIRE\<rparr> else fs)
          in load_names rd fs dp (i + SZDIRE) n)"

definition load_xdir :: "disk option \<Rightarrow> FATFS \<Rightarrow> DIR \<Rightarrow> FRESULT \<times> FATFS \<times> DIR" where
  "load_xdir rd fs dp =
     (case move_window rd fs (dir_sect dp) of (res, fs) \<Rightarrow>
      if res \<noteq> FR_OK then (res, fs, dp)
      else if win fs (dir dp) \<noteq> ET_FILEDIR then (FR_INT_ERR, fs, dp)
      else
        let fs = fs\<lparr>dirbuf := blit_bytes (dirbuf fs) 0 (\<lambda>k. win fs (dir dp + k)) SZDIRE\<rparr>;
            sz_ent = (unat (dirbuf fs XDIR_NumSec) + 1) * SZDIRE in
        if sz_ent < 3 * SZDIRE \<or> 19 * SZDIRE < sz_ent then (FR_INT_ERR, fs, dp)
        else
          (case next_of_block rd fs dp of (res, fs, dp) \<Rightarrow>
           if res \<noteq> FR_OK then (res, fs, dp)
           else if win fs (dir dp) \<noteq> ET_STREAM then (FR_INT_ERR, fs, dp)
           else
             let fs = fs\<lparr>dirbuf := blit_bytes (dirbuf fs) SZDIRE (\<lambda>k. win fs (dir dp + k)) SZDIRE\<rparr> in
             if sz_ent < MAXDIRB (unat (dirbuf fs XDIR_NumName)) then (FR_INT_ERR, fs, dp)
             else
               (case load_names rd fs dp (2 * SZDIRE) (sz_ent div SZDIRE - 2) of (res, fs, dp) \<Rightarrow>
                if res \<noteq> FR_OK then (res, fs, dp)
                else if sz_ent \<le> MAXDIRB FF_MAX_LFN \<and> xdir_sum (dirbuf fs) \<noteq> ld_word (dirbuf fs) XDIR_SetSum
                  then (FR_INT_ERR, fs, dp)
                else (FR_OK, fs, dp))))"

definition init_alloc_info :: "FATFS \<Rightarrow> FFOBJID \<Rightarrow> FFOBJID" where
  "init_alloc_info fs obj =
     obj\<lparr>sclust := ld_dword (dirbuf fs) XDIR_FstClus, objsize := ld_qword (dirbuf fs) XDIR_FileSize,
         stat := dirbuf fs XDIR_GenFlags AND 2, n_frag := 0\<rparr>"

subsection \<open>Reading and finding objects\<close>

definition set_attr :: "DIR \<Rightarrow> u8 \<Rightarrow> DIR" where
  "set_attr dp a = dp\<lparr>dir_obj := (dir_obj dp)\<lparr>attr := a\<rparr>\<rparr>"

text \<open>What \<^verbatim>\<open>dir_read\<close> does with one entry of a FAT volume: \<open>Inl\<close> stops with the short entry found, \<open>Inr\<close> goes on with
  the new state (\<open>ord\<close>, \<open>sum\<close>) of the long name sequence.\<close>

definition dir_read_entry :: "FATFS \<Rightarrow> DIR \<Rightarrow> bool \<Rightarrow> u8 \<Rightarrow> u8 \<Rightarrow> (unit + u8 \<times> u8) \<times> FATFS \<times> DIR" where
  "dir_read_entry fs dp vol ord chk =
     (let b = win fs (dir dp);
          a = win fs (dir dp + DIR_Attr) AND AM_MASK;
          dp = set_attr dp a in
      if b = DDEM \<or> b = 0x2E \<or> (a AND NOT AM_ARC = AM_VOL) \<noteq> vol then (Inr (0xFF, chk), fs, dp)
      else if a = AM_LFN then
        let (chk, b, ord, dp) =
              (if b AND LLEF \<noteq> 0 then (win fs (dir dp + LDIR_Chksum), b AND NOT LLEF, b AND NOT LLEF, dp\<lparr>blk_ofs := dptr dp\<rparr>)
               else (chk, b, ord, dp)) in
        if b = ord \<and> chk = win fs (dir dp + LDIR_Chksum) then
          (case pick_lfn (lfnbuf fs) (win fs) (dir dp) of (picked, lfn) \<Rightarrow>
             (Inr (if picked then ord - 1 else 0xFF, chk), fs\<lparr>lfnbuf := lfn\<rparr>, dp))
        else (Inr (0xFF, chk), fs, dp)
      else if ord \<noteq> 0 \<or> chk \<noteq> sum_sfn (win fs) (dir dp) then (Inl (), fs, dp\<lparr>blk_ofs := 0xFFFFFFFF\<rparr>)
      else (Inl (), fs, dp))"

partial_function (option) dir_read_loop ::
  "disk option \<Rightarrow> FATFS \<Rightarrow> DIR \<Rightarrow> bool \<Rightarrow> u8 \<Rightarrow> u8 \<Rightarrow> FRESULT \<Rightarrow> (FRESULT \<times> FATFS \<times> DIR) option" where
  "dir_read_loop rd fs dp vol ord chk res =
     (if dir_sect dp \<noteq> 0 then
        case move_window rd fs (dir_sect dp) of (res, fs) \<Rightarrow>
        if res \<noteq> FR_OK then Some (res, fs, dp)
        else if win fs (dir dp) = 0 then Some (FR_NO_FILE, fs, dp)
        else if fs_type fs = FS_EXFAT then
          if win fs (dir dp) = ET_FILEDIR then
            case load_xdir rd fs (dp\<lparr>blk_ofs := dptr dp\<rparr>) of (res, fs, dp) \<Rightarrow>
              Some (res, fs, if res = FR_OK then set_attr dp (dirbuf fs XDIR_Attr AND AM_MASK) else dp)
          else
            case dir_next rd fs dp of (res, fs, dp) \<Rightarrow>
              if res \<noteq> FR_OK then Some (res, fs, dp) else dir_read_loop rd fs dp vol ord chk res
        else
          case dir_read_entry fs dp vol ord chk of
            (Inl _, fs, dp) \<Rightarrow> Some (FR_OK, fs, dp)
          | (Inr (ord, chk), fs, dp) \<Rightarrow>
              (case dir_next rd fs dp of (res, fs, dp) \<Rightarrow>
                 if res \<noteq> FR_OK then Some (res, fs, dp) else dir_read_loop rd fs dp vol ord chk res)
      else Some (res, fs, dp))"

definition dir_read :: "disk option \<Rightarrow> FATFS \<Rightarrow> DIR \<Rightarrow> bool \<Rightarrow> (FRESULT \<times> FATFS \<times> DIR) option" where
  "dir_read rd fs dp vol =
     (case dir_read_loop rd fs dp vol 0xFF 0xFF FR_NO_FILE of
        None \<Rightarrow> None
      | Some (res, fs, dp) \<Rightarrow> Some (res, fs, if res \<noteq> FR_OK then dp\<lparr>dir_sect := 0\<rparr> else dp))"

text \<open>Comparison of a name with the entry block of exFAT: the loop over \<open>nc\<close> characters.\<close>

fun xname_cmp :: "bytes \<Rightarrow> wchars \<Rightarrow> nat \<Rightarrow> nat \<Rightarrow> nat \<Rightarrow> bool" where
  "xname_cmp b lfn 0 di ni = (lfn ni = 0)"
| "xname_cmp b lfn (Suc nc) di ni =
     (let di = (if di mod SZDIRE = 0 then di + 2 else di) in
      if ff_wtoupper (ucast (ld_word b di)) \<noteq> ff_wtoupper (ucast (lfn ni)) then False
      else xname_cmp b lfn nc (di + 2) (ni + 1))"

partial_function (option) dir_find_x :: "disk option \<Rightarrow> FATFS \<Rightarrow> DIR \<Rightarrow> u16 \<Rightarrow> (FRESULT \<times> FATFS \<times> DIR) option" where
  "dir_find_x rd fs dp hash =
     (case dir_read rd fs dp False of
        None \<Rightarrow> None
      | Some (res, fs, dp) \<Rightarrow>
          if res \<noteq> FR_OK then Some (res, fs, dp)
          else if ld_word (dirbuf fs) XDIR_NameHash = hash
               \<and> xname_cmp (dirbuf fs) (lfnbuf fs) (unat (dirbuf fs XDIR_NumName)) (SZDIRE * 2) 0
          then Some (res, fs, dp)
          else dir_find_x rd fs dp hash)"

text \<open>What \<^verbatim>\<open>dir_find\<close> does with one entry of a FAT volume: \<open>Inl\<close> is a match, \<open>Inr\<close> goes on.\<close>

definition dir_find_entry :: "FATFS \<Rightarrow> DIR \<Rightarrow> u8 \<Rightarrow> u8 \<Rightarrow> (unit + u8 \<times> u8) \<times> DIR" where
  "dir_find_entry fs dp ord chk =
     (let c = win fs (dir dp);
          a = win fs (dir dp + DIR_Attr) AND AM_MASK;
          dp = set_attr dp a in
      if c = DDEM \<or> (a AND AM_VOL \<noteq> 0 \<and> a \<noteq> AM_LFN) then (Inr (0xFF, chk), dp\<lparr>blk_ofs := 0xFFFFFFFF\<rparr>)
      else if a = AM_LFN then
        if fn dp NSFLAG AND NS_NOLFN = 0 then
          let (chk, c, ord, dp) =
                (if c AND LLEF \<noteq> 0 then (win fs (dir dp + LDIR_Chksum), c AND NOT LLEF, c AND NOT LLEF, dp\<lparr>blk_ofs := dptr dp\<rparr>)
                 else (chk, c, ord, dp)) in
          (Inr (if c = ord \<and> chk = win fs (dir dp + LDIR_Chksum) \<and> cmp_lfn (lfnbuf fs) (win fs) (dir dp)
                then ord - 1 else 0xFF, chk), dp)
        else (Inr (ord, chk), dp)
      else if ord = 0 \<and> chk = sum_sfn (win fs) (dir dp) then (Inl (), dp)
      else if fn dp NSFLAG AND NS_LOSS = 0 \<and> (\<forall>i \<in> set [0..<11]. win fs (dir dp + i) = fn dp i) then (Inl (), dp)
      else (Inr (0xFF, chk), dp\<lparr>blk_ofs := 0xFFFFFFFF\<rparr>))"

partial_function (option) dir_find_loop ::
  "disk option \<Rightarrow> FATFS \<Rightarrow> DIR \<Rightarrow> u8 \<Rightarrow> u8 \<Rightarrow> (FRESULT \<times> FATFS \<times> DIR) option" where
  "dir_find_loop rd fs dp ord chk =
     (case move_window rd fs (dir_sect dp) of (res, fs) \<Rightarrow>
      if res \<noteq> FR_OK then Some (res, fs, dp)
      else if win fs (dir dp) = 0 then Some (FR_NO_FILE, fs, dp)
      else
        case dir_find_entry fs dp ord chk of
          (Inl _, dp) \<Rightarrow> Some (FR_OK, fs, dp)
        | (Inr (ord, chk), dp) \<Rightarrow>
            (case dir_next rd fs dp of (res, fs, dp) \<Rightarrow>
               if res = FR_OK then dir_find_loop rd fs dp ord chk else Some (res, fs, dp)))"

definition dir_find :: "disk option \<Rightarrow> FATFS \<Rightarrow> DIR \<Rightarrow> (FRESULT \<times> FATFS \<times> DIR) option" where
  "dir_find rd fs dp =
     (case dir_sdi rd fs dp 0 of
        None \<Rightarrow> None
      | Some (res, fs, dp) \<Rightarrow>
          if res \<noteq> FR_OK then Some (res, fs, dp)
          else if fs_type fs = FS_EXFAT then
            (case xname_sum (lfnbuf fs) of None \<Rightarrow> None | Some hash \<Rightarrow> dir_find_x rd fs dp hash)
          else dir_find_loop rd fs (dp\<lparr>blk_ofs := 0xFFFFFFFF\<rparr>) 0xFF 0xFF)"

subsection \<open>Effects of the positioning functions\<close>

lemma move_window_same_vol: "move_window rd fs s = (r, fs') \<Longrightarrow> same_vol fs fs'"
  by (auto simp: move_window_def same_vol_def split: if_splits prod.splits)

lemma get_fat_same_vol: "get_fat rd fs obj c = (v, fs') \<Longrightarrow> same_vol fs fs'"
  unfolding get_fat_def Let_def
  by (auto dest!: move_window_same_vol intro: same_vol_trans split: if_splits prod.splits)

lemma dir_next_fn: "dir_next rd fs dp = (r, fs', dp') \<Longrightarrow> fn dp' = fn dp"
  unfolding dir_next_def Let_def by (auto split: if_splits prod.splits)

lemma dir_next_same_vol: "dir_next rd fs dp = (r, fs', dp') \<Longrightarrow> same_vol fs fs'"
  unfolding dir_next_def Let_def by (auto dest!: get_fat_same_vol split: if_splits prod.splits)

lemma dir_next_ok:
  assumes "dir_next rd fs dp = (FR_OK, fs', dp')"
  shows "dptr dp' = dptr dp + SZDIRE" "dptr dp' < max_dir fs" "dir_obj dp' = dir_obj dp" "fn dp' = fn dp" "dir_sect dp \<noteq> 0"
  using assms unfolding dir_next_def Let_def
  by (auto split: if_splits prod.splits)

subsection \<open>Every walk over a directory ends\<close>

lemma dir_sdi_loop_total:
  assumes "csz \<noteq> 0"
  shows "\<exists>r fs'. dir_sdi_loop rd fs obj clst ofs csz = Some (r, fs') \<and> same_vol fs fs'"
proof (induction "unat ofs" arbitrary: fs clst ofs rule: less_induct)
  case less
  show ?case
  proof (cases "csz \<le> ofs")
    case True
    obtain v fs1 where g: "get_fat rd fs obj clst = (v, fs1)" by force
    have "unat (ofs - csz) < unat ofs"
      using True assms by (simp add: unat_sub word_le_nat_alt) (metis diff_less le_less_trans not_less unat_eq_zero zero_less_iff_neq_zero)
    from less [OF this, of fs1 v] g show ?thesis
      by (subst dir_sdi_loop.simps) (auto dest: get_fat_same_vol intro: same_vol_trans)
  next
    case False
    then show ?thesis by (subst dir_sdi_loop.simps) auto
  qed
qed

lemma max_dir_same: "same_vol fs fs' \<Longrightarrow> max_dir fs' = max_dir fs"
  by (simp add: max_dir_def same_vol_fields)

lemma max_dir_le: "max_dir fs \<le> 0x10000000"
  by (simp add: max_dir_def)

lemma csize_bytes: "csize fs \<noteq> 0 \<Longrightarrow> ucast (csize fs) * SS \<noteq> (0 :: u32)"
proof
  assume c: "csize fs \<noteq> 0" and "ucast (csize fs) * SS = (0 :: u32)"
  then have "unat (ucast (csize fs) * SS :: u32) = 0" by simp
  moreover have "unat (csize fs) < 2 ^ 16" using unsigned_less [of "csize fs", where ?'a = nat] by simp
  ultimately have "unat (csize fs) = 0" by (simp add: unat_word_ariths unsigned_ucast_eq take_bit_nat_eq_self)
  with c show False by (simp add: unat_eq_zero)
qed

lemma dir_sdi_total:
  assumes "csize fs \<noteq> 0"
  shows "\<exists>r fs' dp'. dir_sdi rd fs dp ofs = Some (r, fs', dp') \<and> same_vol fs fs' \<and>
           (r = FR_OK \<longrightarrow> dptr dp' = ofs \<and> ofs < max_dir fs) \<and> fn dp' = fn dp"
proof -
  define dp1 where "dp1 = dp\<lparr>dptr := ofs\<rparr>"
  define clst where "clst = sclust (dir_obj dp1)"
  define c2 where "c2 = (if clst = 0 \<and> FS_FAT32 \<le> fs_type fs then (ucast (dirbase fs), dp1\<lparr>dir_obj := (dir_obj dp1)\<lparr>stat := 0\<rparr>\<rparr>) else (clst, dp1))"
  obtain c dp2 where c2: "c2 = (c, dp2)" by force
  have d: "dptr dp2 = ofs" "fn dp2 = fn dp" using c2 by (auto simp: c2_def dp1_def split: if_splits)
  obtain r fs' where l: "dir_sdi_loop rd fs (dir_obj dp2) c ofs (ucast (csize fs) * SS) = Some (r, fs')" "same_vol fs fs'"
    using dir_sdi_loop_total [OF csize_bytes [OF assms]] by blast
  show ?thesis
    unfolding dir_sdi_def
    apply (simp only: Let_def flip: dp1_def)
    apply (simp only: flip: clst_def c2_def)
    using d l
    by (auto simp: c2 dir_sdi_set_def Let_def split: sum.splits)
qed

lemma dptr_step:
  assumes "dptr dp < max_dir fs" "dir_next rd fs dp = (FR_OK, fs', dp')"
  shows "dptr dp' < max_dir fs'" "unat (max_dir fs') - unat (dptr dp') < unat (max_dir fs) - unat (dptr dp)"
    "unat (dptr dp') = unat (dptr dp) + SZDIRE"
proof -
  have s: "max_dir fs' = max_dir fs" using assms(2) by (simp add: max_dir_same dir_next_same_vol)
  have lt: "dptr dp' < max_dir fs" and eq: "dptr dp' = dptr dp + SZDIRE" using dir_next_ok [OF assms(2)] by auto
  have "unat (dptr dp) < 0x10000000"
    using assms(1) max_dir_le [of fs] by (simp add: word_less_nat_alt word_le_nat_alt)
  then show u: "unat (dptr dp') = unat (dptr dp) + SZDIRE" unfolding eq by (simp add: unat_word_ariths)
  show "dptr dp' < max_dir fs'" using lt s by simp
  show "unat (max_dir fs') - unat (dptr dp') < unat (max_dir fs) - unat (dptr dp)"
    using lt u s assms(1) by (simp add: word_less_nat_alt)
qed

text \<open>The volume as the directory functions leave it: the geometry is unchanged, the window and the two name buffers
  may be.\<close>

definition same_geo :: "FATFS \<Rightarrow> FATFS \<Rightarrow> bool" where
  "same_geo fs fs' \<longleftrightarrow> (\<exists>l b. same_vol (fs\<lparr>lfnbuf := l, dirbuf := b\<rparr>) fs')"

lemma same_geo_refl [simp, intro]: "same_geo fs fs"
proof -
  have "same_vol (fs\<lparr>lfnbuf := lfnbuf fs, dirbuf := dirbuf fs\<rparr>) fs" by simp
  then show ?thesis unfolding same_geo_def by blast
qed

lemma same_geo_eq:
  "same_geo fs fs' \<longleftrightarrow> fs' = fs\<lparr>lfnbuf := lfnbuf fs', dirbuf := dirbuf fs', win := win fs', winsect := winsect fs'\<rparr>"
  unfolding same_geo_def same_vol_def by (cases fs; cases fs') auto

lemma same_geo_trans [trans]: "same_geo a b \<Longrightarrow> same_geo b c \<Longrightarrow> same_geo a c"
  unfolding same_geo_eq by (cases a; cases b; cases c) simp

lemma same_geo_vol: "same_vol a b \<Longrightarrow> same_geo a b"
  unfolding same_geo_eq same_vol_def by (cases a; cases b) simp

lemma same_geo_fields:
  assumes "same_geo fs fs'"
  shows "fs_type fs' = fs_type fs" "pdrv fs' = pdrv fs" "fs_id fs' = fs_id fs" "n_rootdir fs' = n_rootdir fs"
    "csize fs' = csize fs" "n_fatent fs' = n_fatent fs" "fatbase fs' = fatbase fs" "dirbase fs' = dirbase fs"
    "database fs' = database fs" "max_dir fs' = max_dir fs"
  using assms unfolding same_geo_eq by (cases fs; cases fs'; simp add: max_dir_def)+

lemma dir_read_entry_eff:
  assumes "dir_read_entry fs dp vol ord chk = (r, fs', dp')"
  shows "same_geo fs fs' \<and> fn dp' = fn dp" "dptr dp' = dptr dp" "win fs' = win fs" "dirbuf fs' = dirbuf fs"
  using assms unfolding dir_read_entry_def Let_def same_geo_eq
  by (auto simp: set_attr_def split: if_splits prod.splits)

lemma next_of_block_eff:
  assumes "dptr dp < max_dir fs" "next_of_block rd fs dp = (FR_OK, fs', dp')"
  shows "same_geo fs fs'" "dptr dp' < max_dir fs'" "unat (dptr dp) < unat (dptr dp')"
proof -
  obtain r1 fs1 where n: "dir_next rd fs dp = (r1, fs1, dp')" and "r1 = FR_OK" and w: "move_window rd fs1 (dir_sect dp') = (FR_OK, fs')"
    using assms(2) by (auto simp: next_of_block_def split: prod.splits if_splits)
  then have n: "dir_next rd fs dp = (FR_OK, fs1, dp')" by simp
  note s = dir_next_same_vol [OF n] move_window_same_vol [OF w]
  show "same_geo fs fs'" using s by (blast intro: same_geo_vol same_vol_trans)
  show "dptr dp' < max_dir fs'" "unat (dptr dp) < unat (dptr dp')"
    using dptr_step [OF assms(1) n] max_dir_same [OF s(2)] by simp_all
qed

lemma next_of_block_fn: "next_of_block rd fs dp = (r, fs', dp') \<Longrightarrow> fn dp' = fn dp"
  unfolding next_of_block_def Let_def by (auto dest!: dir_next_fn split: prod.splits if_splits)

lemma next_of_block_geo: "next_of_block rd fs dp = (r, fs', dp') \<Longrightarrow> same_geo fs fs'"
  unfolding next_of_block_def Let_def
  by (auto dest!: dir_next_same_vol move_window_same_vol intro: same_geo_vol same_vol_trans split: prod.splits if_splits)

lemma same_geo_bufs [simp]:
  "same_geo fs (fs'\<lparr>dirbuf := b\<rparr>) \<longleftrightarrow> same_geo fs fs'" "same_geo (fs\<lparr>dirbuf := b\<rparr>) fs' \<longleftrightarrow> same_geo fs fs'"
  "same_geo fs (fs'\<lparr>lfnbuf := l\<rparr>) \<longleftrightarrow> same_geo fs fs'" "same_geo (fs\<lparr>lfnbuf := l\<rparr>) fs' \<longleftrightarrow> same_geo fs fs'"
  unfolding same_geo_eq by (cases fs; cases fs'; auto)+

lemma max_dir_bufs [simp]: "max_dir (fs\<lparr>dirbuf := b\<rparr>) = max_dir fs" "max_dir (fs\<lparr>lfnbuf := l\<rparr>) = max_dir fs"
  by (simp_all add: max_dir_def)

lemma load_names_eff_aux:
  "load_names rd fs dp i n = (r, fs', dp') \<Longrightarrow>
     (same_geo fs fs' \<and> fn dp' = fn dp) \<and> (dptr dp < max_dir fs \<longrightarrow> r = FR_OK \<longrightarrow> dptr dp' < max_dir fs' \<and> unat (dptr dp) \<le> unat (dptr dp'))"
proof (induction n arbitrary: fs dp i)
  case (Suc n)
  obtain r1 fs1 dp1 where n1: "next_of_block rd fs dp = (r1, fs1, dp1)" by (metis prod_cases3)
  define fs2 where "fs2 = (if i < MAXDIRB FF_MAX_LFN then fs1\<lparr>dirbuf := blit_bytes (dirbuf fs1) i (\<lambda>k. win fs1 (dir dp1 + k)) SZDIRE\<rparr> else fs1)"
  have geo: "same_geo fs fs1" "same_geo fs1 fs2" "max_dir fs2 = max_dir fs1"
    using next_of_block_geo [OF n1] by (simp_all add: fs2_def)
  have step: "load_names rd fs dp i (Suc n) =
      (if r1 \<noteq> FR_OK then (r1, fs1, dp1) else if win fs1 (dir dp1) \<noteq> ET_FILENAME then (FR_INT_ERR, fs1, dp1)
       else load_names rd fs2 dp1 (i + SZDIRE) n)"
    by (simp add: n1 fs2_def Let_def)
  show ?case
  proof (cases "r1 = FR_OK \<and> win fs1 (dir dp1) = ET_FILENAME")
    case True
    then have "load_names rd fs2 dp1 (i + SZDIRE) n = (r, fs', dp')" using Suc.prems [unfolded step] by simp
    from Suc.IH [OF this] show ?thesis
      using geo next_of_block_eff [of dp fs rd fs1 dp1] next_of_block_fn [OF n1] n1 True by (auto intro: same_geo_trans)
  next
    case False
    then show ?thesis using Suc.prems [unfolded step] geo next_of_block_fn [OF n1] by (auto split: if_splits)
  qed
qed simp

lemmas load_names_eff = load_names_eff_aux [THEN conjunct1, THEN conjunct1] load_names_eff_aux [THEN conjunct2, rule_format]
  load_names_eff_aux [THEN conjunct1, THEN conjunct2]

lemma load_xdir_eff:
  assumes "load_xdir rd fs dp = (r, fs', dp')"
  shows "same_geo fs fs'" and "fn dp' = fn dp"
    and "dptr dp < max_dir fs \<Longrightarrow> r = FR_OK \<Longrightarrow> dptr dp' < max_dir fs' \<and> unat (dptr dp) < unat (dptr dp')"
proof -
  obtain r1 fs1 where m: "move_window rd fs (dir_sect dp) = (r1, fs1)" by force
  define fs2 where "fs2 = fs1\<lparr>dirbuf := blit_bytes (dirbuf fs1) 0 (\<lambda>k. win fs1 (dir dp + k)) SZDIRE\<rparr>"
  obtain r3 fs3 dp3 where n: "next_of_block rd fs2 dp = (r3, fs3, dp3)" by (metis prod_cases3)
  define fs4 where "fs4 = fs3\<lparr>dirbuf := blit_bytes (dirbuf fs3) SZDIRE (\<lambda>k. win fs3 (dir dp3 + k)) SZDIRE\<rparr>"
  define k where "k = (unat (dirbuf fs2 XDIR_NumSec) + 1) * SZDIRE div SZDIRE - 2"
  obtain r5 fs5 dp5 where l: "load_names rd fs4 dp3 (2 * SZDIRE) k = (r5, fs5, dp5)" by (metis prod_cases3)
  have g: "same_geo fs fs2" "same_geo fs2 fs4" "same_geo fs4 fs5" "max_dir fs2 = max_dir fs" "max_dir fs4 = max_dir fs3" "same_geo fs fs1" "same_geo fs fs3"
    using same_geo_vol [OF move_window_same_vol [OF m]] next_of_block_geo [OF n] load_names_eff(1) [OF l]
    by (auto simp: fs2_def fs4_def same_geo_fields intro: same_geo_trans)
  show "same_geo fs fs'" "fn dp' = fn dp"
    using assms g next_of_block_fn [OF n] load_names_eff(3) [OF l] unfolding load_xdir_def m Let_def prod.case fs2_def [symmetric] n fs4_def [symmetric] k_def [symmetric] l
    by (auto split: if_splits intro: same_geo_trans)
  assume b: "dptr dp < max_dir fs" "r = FR_OK"
  have ok: "r3 = FR_OK" "r5 = FR_OK" "fs' = fs5" "dp' = dp5"
    using assms b(2) unfolding load_xdir_def m Let_def prod.case fs2_def [symmetric] n fs4_def [symmetric] k_def [symmetric] l
    by (auto split: if_splits)
  have "dptr dp3 < max_dir fs4" "unat (dptr dp) < unat (dptr dp3)"
    using next_of_block_eff [OF _ n [unfolded ok(1)]] b g by auto
  then show "dptr dp' < max_dir fs' \<and> unat (dptr dp) < unat (dptr dp')"
    using load_names_eff(2) [OF l _ ok(2)] ok by auto
qed

lemma dir_next_geo: "dir_next rd fs dp = (r, fs', dp') \<Longrightarrow> same_geo fs fs'"
  by (rule same_geo_vol [OF dir_next_same_vol])

definition walk_ok :: "FATFS \<Rightarrow> DIR \<Rightarrow> FRESULT \<times> FATFS \<times> DIR \<Rightarrow> bool" where
  "walk_ok fs dp = (\<lambda>(r, fs', dp'). same_geo fs fs' \<and> fn dp' = fn dp \<and> (r = FR_OK \<longrightarrow> dptr dp' < max_dir fs \<and> unat (dptr dp) \<le> unat (dptr dp')))"

lemma walk_ok_step:
  assumes "dptr dp < max_dir fs" "same_geo fs fs1 \<and> fn dp1 = fn dp" "dptr dp1 = dptr dp" "dir_next rd fs1 dp1 = (FR_OK, fs2, dp2)"
    "walk_ok fs2 dp2 (r, fs', dp')"
  shows "walk_ok fs dp (r, fs', dp')" "r = FR_OK \<Longrightarrow> unat (dptr dp) < unat (dptr dp')"
proof -
  have "same_geo fs fs2" "fn dp2 = fn dp" using assms(2) dir_next_geo [OF assms(4)] dir_next_fn [OF assms(4)] by (auto intro: same_geo_trans)
  moreover have "unat (dptr dp2) = unat (dptr dp) + SZDIRE"
    using dptr_step [OF _ assms(4)] assms(1,3) same_geo_fields(10) [OF assms(2) [THEN conjunct1]] by simp
  ultimately show "walk_ok fs dp (r, fs', dp')" "r = FR_OK \<Longrightarrow> unat (dptr dp) < unat (dptr dp')"
    using assms(5) by (auto simp: walk_ok_def same_geo_fields intro: same_geo_trans)
qed

lemma walk_measure:
  assumes "dptr dp < max_dir fs" "same_geo fs fs1 \<and> fn dp1 = fn dp" "dptr dp1 = dptr dp" "dir_next rd fs1 dp1 = (FR_OK, fs2, dp2)"
  shows "dptr dp2 < max_dir fs2" "unat (max_dir fs2) - unat (dptr dp2) < unat (max_dir fs) - unat (dptr dp)"
  using dptr_step [OF _ assms(4)] assms(1,3) same_geo_fields(10) [OF assms(2) [THEN conjunct1]] by simp_all

lemma dir_read_loop_total:
  assumes "dptr dp < max_dir fs"
  shows "\<exists>out. dir_read_loop rd fs dp vol ord chk res = Some out \<and> walk_ok fs dp out \<and>
           (fs_type fs = FS_EXFAT \<and> dir_sect dp \<noteq> 0 \<and> fst out = FR_OK \<longrightarrow> unat (dptr dp) < unat (dptr (snd (snd out))))"
  using assms
proof (induction "unat (max_dir fs) - unat (dptr dp)" arbitrary: fs dp ord chk res rule: less_induct)
  case less
  obtain r1 fs1 where m: "move_window rd fs (dir_sect dp) = (r1, fs1)" by force
  have g1: "same_geo fs fs1" using m by (rule same_geo_vol [OF move_window_same_vol])
  have go_on: "\<exists>out. (case dir_next rd fsa dpa of (res, fs, dp) \<Rightarrow>
        if res \<noteq> FR_OK then Some (res, fs, dp) else dir_read_loop rd fs dp vol ord chk res) = Some out \<and> walk_ok fs dp out \<and>
           (fst out = FR_OK \<longrightarrow> unat (dptr dp) < unat (dptr (snd (snd out))))"
    if a: "same_geo fs fsa \<and> fn dpa = fn dp" "dptr dpa = dptr dp" for fsa dpa ord chk
  proof -
    obtain r2 fs2 dp2 where n: "dir_next rd fsa dpa = (r2, fs2, dp2)" by (metis prod_cases3)
    show ?thesis
    proof (cases "r2 = FR_OK")
      case True
      note n' = n [unfolded True]
      note mm = walk_measure [OF less.prems a n']
      obtain r fs' dp' where "dir_read_loop rd fs2 dp2 vol ord chk FR_OK = Some (r, fs', dp')" "walk_ok fs2 dp2 (r, fs', dp')"
        using less.hyps [OF mm(2,1)] by (metis prod_cases3)
      then show ?thesis using walk_ok_step [OF less.prems a n'] n' by auto
    next
      case False
      then show ?thesis using n a dir_next_geo [OF n] dir_next_fn [OF n] by (auto simp: walk_ok_def intro: same_geo_trans)
    qed
  qed
  consider "dir_sect dp = 0" | "dir_sect dp \<noteq> 0" "r1 \<noteq> FR_OK \<or> win fs1 (dir dp) = 0"
    | "dir_sect dp \<noteq> 0" "r1 = FR_OK" "win fs1 (dir dp) \<noteq> 0" "fs_type fs1 = FS_EXFAT" "win fs1 (dir dp) = ET_FILEDIR"
    | "dir_sect dp \<noteq> 0" "r1 = FR_OK" "win fs1 (dir dp) \<noteq> 0" "fs_type fs1 = FS_EXFAT" "win fs1 (dir dp) \<noteq> ET_FILEDIR"
    | "dir_sect dp \<noteq> 0" "r1 = FR_OK" "win fs1 (dir dp) \<noteq> 0" "fs_type fs1 \<noteq> FS_EXFAT"
    by blast
  then show ?case
  proof cases
    case 1
    then show ?thesis using less.prems by (subst dir_read_loop.simps) (simp add: walk_ok_def)
  next
    case 2
    then show ?thesis using m g1 by (subst dir_read_loop.simps) (auto simp: walk_ok_def)
  next
    case 3
    obtain r2 fs2 dp2 where l: "load_xdir rd fs1 (dp\<lparr>blk_ofs := dptr dp\<rparr>) = (r2, fs2, dp2)" by (metis prod_cases3)
    show ?thesis
      using load_xdir_eff [OF l] less.prems g1 3 m l
      by (subst dir_read_loop.simps) (auto simp: walk_ok_def same_geo_fields set_attr_def intro: same_geo_trans)
  next
    case 4
    then show ?thesis using go_on [OF conjI [OF g1 refl] refl, of ord chk] m by (subst dir_read_loop.simps) auto
  next
    case 5
    obtain r2 fs2 dp2 where e: "dir_read_entry fs1 dp vol ord chk = (r2, fs2, dp2)" by (metis prod_cases3)
    have e2: "same_geo fs fs2 \<and> fn dp2 = fn dp" "dptr dp2 = dptr dp" using dir_read_entry_eff [OF e] g1 by (auto intro: same_geo_trans)
    show ?thesis
    proof (cases r2)
      case (Inl u)
      then show ?thesis using 5 m e e2 g1 less.prems
        by (subst dir_read_loop.simps) (auto simp: walk_ok_def same_geo_fields)
    next
      case (Inr oc)
      obtain o1 c1 where "oc = (o1, c1)" by force
      then show ?thesis using 5 m e Inr go_on [OF e2, of o1 c1] g1
        by (subst dir_read_loop.simps) (auto simp: same_geo_fields)
    qed
  qed
qed

lemma dir_read_total:
  assumes "dptr dp < max_dir fs"
  shows "\<exists>out. dir_read rd fs dp vol = Some out \<and> walk_ok fs dp out \<and>
           (fs_type fs = FS_EXFAT \<and> fst out = FR_OK \<longrightarrow> unat (dptr dp) < unat (dptr (snd (snd out))))"
proof (cases "dir_sect dp = 0")
  case True
  then have "dir_read_loop rd fs dp vol 0xFF 0xFF FR_NO_FILE = Some (FR_NO_FILE, fs, dp)" by (subst dir_read_loop.simps) simp
  then show ?thesis by (simp add: dir_read_def walk_ok_def)
next
  case False
  with dir_read_loop_total [OF assms, of rd vol "0xFF" "0xFF" FR_NO_FILE] show ?thesis
    by (auto simp: dir_read_def walk_ok_def)
qed

lemma dir_find_x_total:
  assumes "dptr dp < max_dir fs" "fs_type fs = FS_EXFAT"
  shows "\<exists>r fs' dp'. dir_find_x rd fs dp hash = Some (r, fs', dp') \<and> same_geo fs fs' \<and> fn dp' = fn dp"
  using assms
proof (induction "unat (max_dir fs) - unat (dptr dp)" arbitrary: fs dp rule: less_induct)
  case less
  obtain r fs1 dp1 where d: "dir_read rd fs dp False = Some (r, fs1, dp1)" "walk_ok fs dp (r, fs1, dp1)"
      "r = FR_OK \<Longrightarrow> unat (dptr dp) < unat (dptr dp1)"
    using dir_read_total [OF less.prems(1), of rd False] less.prems(2) by fastforce
  show ?case
  proof (cases "r = FR_OK")
    case True
    then have "dptr dp1 < max_dir fs1" "fs_type fs1 = FS_EXFAT" "max_dir fs1 = max_dir fs" using d less.prems by (auto simp: walk_ok_def same_geo_fields)
    moreover have "unat (max_dir fs1) - unat (dptr dp1) < unat (max_dir fs) - unat (dptr dp)"
      using d(3) True calculation less.prems(1) by (simp add: word_less_nat_alt)
    ultimately obtain r' fs' dp' where IH: "dir_find_x rd fs1 dp1 hash = Some (r', fs', dp')" "same_geo fs1 fs'" "fn dp' = fn dp1"
      using less.hyps by blast
    have "same_geo fs fs'" "fn dp1 = fn dp" "same_geo fs fs1" using d(2) IH(2) by (auto simp: walk_ok_def intro: same_geo_trans)
    then show ?thesis using IH d(1) True by (subst dir_find_x.simps) auto
  next
    case False
    then show ?thesis using d by (subst dir_find_x.simps) (auto simp: walk_ok_def)
  qed
qed

lemma dir_find_entry_eff: "dir_find_entry fs dp ord chk = (r, dp') \<Longrightarrow> dptr dp' = dptr dp \<and> fn dp' = fn dp"
  unfolding dir_find_entry_def Let_def by (auto simp: set_attr_def split: if_splits)

lemma dir_find_loop_total:
  assumes "dptr dp < max_dir fs"
  shows "\<exists>r fs' dp'. dir_find_loop rd fs dp ord chk = Some (r, fs', dp') \<and> same_geo fs fs' \<and> fn dp' = fn dp"
  using assms
proof (induction "unat (max_dir fs) - unat (dptr dp)" arbitrary: fs dp ord chk rule: less_induct)
  case less
  obtain r1 fs1 where m: "move_window rd fs (dir_sect dp) = (r1, fs1)" by force
  have g1: "same_geo fs fs1" using m by (rule same_geo_vol [OF move_window_same_vol])
  obtain r2 dp2 where e: "dir_find_entry fs1 dp ord chk = (r2, dp2)" by force
  obtain r3 fs3 dp3 where n: "dir_next rd fs1 dp2 = (r3, fs3, dp3)" by (metis prod_cases3)
  have e2: "same_geo fs fs1 \<and> fn dp2 = fn dp" "dptr dp2 = dptr dp" using dir_find_entry_eff [OF e] g1 by auto
  have g3: "same_geo fs fs3" "fn dp3 = fn dp" using e2 dir_next_geo [OF n] dir_next_fn [OF n] by (auto intro: same_geo_trans)
  have rec: "\<exists>r fs' dp'. dir_find_loop rd fs3 dp3 o1 c1 = Some (r, fs', dp') \<and> same_geo fs fs' \<and> fn dp' = fn dp" if "r3 = FR_OK" for o1 c1
  proof -
    note n' = n [unfolded that]
    obtain r fs' dp' where "dir_find_loop rd fs3 dp3 o1 c1 = Some (r, fs', dp')" "same_geo fs3 fs'" "fn dp' = fn dp3"
      using less.hyps [OF walk_measure(2,1) [OF less.prems e2 n']] by blast
    then show ?thesis using g3 by (auto intro: same_geo_trans)
  qed
  show ?case using m e n rec g1 g3 e2 by (subst dir_find_loop.simps) (auto split: sum.splits)
qed

lemma xname_sum_loop_total: "name k = 0 \<Longrightarrow> i \<le> k \<Longrightarrow> \<exists>h. xname_sum_loop name i acc = Some h"
proof (induction "k - i" arbitrary: i acc)
  case 0
  then show ?case by (subst xname_sum_loop.simps) simp
next
  case (Suc n)
  show ?case
  proof (cases "name i = 0")
    case False
    then have "n = k - (i + 1)" "i + 1 \<le> k" using Suc by auto
    then show ?thesis using Suc False by (subst xname_sum_loop.simps) (simp add: Let_def)
  qed (subst xname_sum_loop.simps, simp)
qed

lemma dir_find_total:
  assumes "csize fs \<noteq> 0" "fs_type fs = FS_EXFAT \<Longrightarrow> lfnbuf fs k = 0"
  shows "\<exists>r fs' dp'. dir_find rd fs dp = Some (r, fs', dp') \<and> same_geo fs fs' \<and> fn dp' = fn dp"
proof -
  obtain r fs1 dp1 where d: "dir_sdi rd fs dp 0 = Some (r, fs1, dp1)" "same_vol fs fs1" "r = FR_OK \<Longrightarrow> dptr dp1 = 0" "fn dp1 = fn dp"
    using dir_sdi_total [OF assms(1), of rd dp 0] by blast
  have max: "0 < max_dir fs1" by (simp add: max_dir_def)
  show ?thesis
  proof (cases "r = FR_OK \<and> fs_type fs1 = FS_EXFAT")
    case True
    then obtain h where "xname_sum (lfnbuf fs1) = Some h"
      using xname_sum_loop_total [of "lfnbuf fs1" k 0 0] assms(2) d(2) by (auto simp: xname_sum_def same_vol_fields)
    then show ?thesis using dir_find_x_total [of dp1 fs1 rd h] True d max
      by (auto simp: dir_find_def intro: same_geo_trans [OF same_geo_vol])
  next
    case False
    then show ?thesis
      using dir_find_loop_total [of "dp1\<lparr>blk_ofs := 0xFFFFFFFF\<rparr>" fs1 rd "0xFF" "0xFF"] d max
        same_geo_trans [OF same_geo_vol [OF d(2)]] same_geo_vol [OF d(2)]
      by (auto simp: dir_find_def)
  qed
qed

subsection \<open>Captured long names\<close>

lemma pick_lfn_loop_below: "pick_lfn_loop lfn b ent offs i wc = (Some (j, wc'), lfn') \<Longrightarrow> k < unat i \<Longrightarrow> lfn' k = lfn k"
proof (induction offs arbitrary: lfn i wc)
  case (Cons o1 offs)
  have "unat (i + 1) = unat i + 1" if "i < FF_MAX_LFN + 1"
    using that by (simp add: unat_word_ariths word_less_nat_alt)
  then show ?case using Cons by (auto simp: Let_def not_le split: if_splits)
qed simp

lemma cmp_lfn_loop_of_pick:
  "pick_lfn_loop lfn b ent offs i wc = (Some (j, wc'), lfn') \<Longrightarrow> (\<And>k. k < unat j \<Longrightarrow> l2 k = lfn' k) \<Longrightarrow>
     cmp_lfn_loop l2 b ent offs i wc = Some (j, wc') \<and> unat i \<le> unat j"
proof (induction offs arbitrary: lfn i wc)
  case (Cons o1 offs)
  define uc where "uc = ld_word b (ent + o1)"
  show ?case
  proof (cases "wc = 0")
    case True
    then show ?thesis using Cons by (simp add: Let_def split: if_splits)
  next
    case False
    then have i: "i < FF_MAX_LFN + 1" and rec: "pick_lfn_loop (lfn(unat i := uc)) b ent offs (i + 1) uc = (Some (j, wc'), lfn')"
      using Cons.prems(1) by (auto simp: Let_def uc_def not_le split: if_splits)
    have u: "unat (i + 1) = unat i + 1" using i by (simp add: unat_word_ariths word_less_nat_alt)
    have IH: "cmp_lfn_loop l2 b ent offs (i + 1) uc = Some (j, wc') \<and> unat (i + 1) \<le> unat j"
      using Cons.IH [OF rec Cons.prems(2)] by simp
    have "l2 (unat i) = lfn' (unat i)" using IH u Cons.prems(2) by simp
    also have "\<dots> = uc" using pick_lfn_loop_below [OF rec, of "unat i"] u by simp
    finally show ?thesis using False i IH u by (simp add: uc_def Let_def not_le)
  qed
qed simp

lemma lfn_ord_mask:
  fixes o1 :: u8
  assumes "(ucast (o1 AND NOT LLEF) - 1) * 13 < (FF_MAX_LFN + 1 :: u32)"
  shows "o1 AND 0x3F = o1 AND NOT LLEF"
proof -
  have "(ucast (x AND NOT LLEF) - 1) * 13 < (FF_MAX_LFN + 1 :: u32) \<longrightarrow> x AND 0x3F = x AND NOT LLEF" for x :: u8
    by (rule byte_all [of _ x]) code_simp
  then show ?thesis using assms by blast
qed

lemma pick_lfn_loop_first:
  assumes "pick_lfn_loop lfn b ent LfnOfs i 1 = (Some r, lfn')" shows "i < FF_MAX_LFN + 1"
  using assms by (auto simp: LfnOfs_def Let_def not_le split: if_splits)


subsection \<open>Properties\<close>

text \<open>
  Looking a name up and reading the next object of a directory end on every disk, whatever its bytes and
  however the allocation table links the clusters (cycles included): the position only grows, up to the
  largest size of a directory. The cluster size of the volume has to be non-zero, the position of a reading
  directory valid and, on exFAT, the name terminated.
\<close>

lemma directory_walks_end:
  assumes "csize fs \<noteq> 0" and "fs_type fs = FS_EXFAT \<longrightarrow> (\<exists>k. lfnbuf fs k = 0)" and "dptr dp < max_dir fs"
  shows "(\<exists>out. dir_find rd fs dp = Some out) \<and> (\<exists>out. dir_read rd fs dp vol = Some out)"
  using dir_find_total [OF assms(1)] assms(2) dir_read_total [OF assms(3), of rd vol] by blast

text \<open>A directory in cluster 5 of a volume whose allocation table links the cluster to itself.\<close>

definition example_cyclic_disk :: disk where
  "example_cyclic_disk a = (if a = 519 then 0x50 else if a = 520 then 0x00 else 0x41)"

definition example_dir :: DIR where
  "example_dir = \<lparr>dir_obj = example_obj\<lparr>sclust := 5\<rparr>, dptr = 0, dir_clust = 5, dir_sect = 7, dir = 0, fn = (\<lambda>_. 0x42), blk_ofs = 0\<rparr>"

text \<open>
  The part of a long name that reading a directory captures from an entry is a part that looking up
  this very name accepts at the entry, for every content of the entry.
\<close>

lemma picked_long_name_matches:
  assumes "pick_lfn lfn b ent = (True, lfn')"
  shows "cmp_lfn lfn' b ent"
proof -
  define i :: u32 where "i = (ucast (b (ent + LDIR_Ord) AND NOT LLEF) - 1) * 13"
  obtain j wc l1 where p: "pick_lfn_loop lfn b ent LfnOfs i 1 = (Some (j, wc), l1)" and z: "ld_word b (ent + LDIR_FstClusLO) = 0"
    and l: "lfn' = (if b (ent + LDIR_Ord) AND LLEF \<noteq> 0 \<and> wc \<noteq> 0 then l1(unat j := 0) else l1)"
    using assms by (auto simp: pick_lfn_def i_def Let_def split: if_splits prod.splits option.splits)
  have i: "i = (ucast (b (ent + LDIR_Ord) AND 0x3F) - 1) * 13"
    using lfn_ord_mask [of "b (ent + LDIR_Ord)"] pick_lfn_loop_first [OF p] by (simp add: i_def)
  have "cmp_lfn_loop lfn' b ent LfnOfs i 1 = Some (j, wc)"
    using cmp_lfn_loop_of_pick [OF p, of lfn'] l by auto
  then show ?thesis using z l by (simp add: cmp_lfn_def i Let_def)
qed

text \<open>An entry that holds the last and only part of the name \<^verbatim>\<open>ab\<close>, padded with 0xFFFF after its terminator.\<close>

definition example_lfn_entry :: bytes where
  "example_lfn_entry i = (if i = 0 then 0x41 else if i = 1 then 0x61 else if i = 3 then 0x62 else if i = 11 then 0x0F
     else if i \<in> {2, 4, 5, 6, 12, 13, 26, 27} then 0 else 0xFF)"

end
