(* ===== verification/Fat_Path.thy ===== *)
theory Fat_Path
  imports Fat_Dir
begin

text \<open>
  Paths of the file system, \<^verbatim>\<open>ff.c\<close>: cutting a segment off a path and forming its long and short names
  (\<^verbatim>\<open>create_name\<close>), following a path from the root directory (\<^verbatim>\<open>follow_path\<close>), the drive number (\<^verbatim>\<open>get_ldnumber\<close>) and the
  information on an object that is returned to the caller (\<^verbatim>\<open>get_fileinfo\<close>). A path is a byte string in memory with
  an offset into it. The lemmas bound what is stored in the name buffers and show that a path with an end is
  followed to an end.
\<close>

subsection \<open>Characters and flags\<close>

abbreviation IsUpper :: "'a::len word \<Rightarrow> bool" where "IsUpper c \<equiv> 0x41 \<le> c \<and> c \<le> 0x5A"

abbreviation IsLower :: "'a::len word \<Rightarrow> bool" where "IsLower c \<equiv> 0x61 \<le> c \<and> c \<le> 0x7A"

abbreviation IsDigit :: "'a::len word \<Rightarrow> bool" where "IsDigit c \<equiv> 0x30 \<le> c \<and> c \<le> 0x39"

abbreviation IsSeparator :: "'a::len word \<Rightarrow> bool" where "IsSeparator c \<equiv> c = 0x2F \<or> c = 0x5C"

abbreviation IsTerminator :: "'a::len word \<Rightarrow> bool" where "IsTerminator c \<equiv> c < 0x20"

abbreviation NS_LFN :: u8 where "NS_LFN \<equiv> 0x02"

abbreviation NS_LAST :: u8 where "NS_LAST \<equiv> 0x04"

abbreviation NS_BODY :: u8 where "NS_BODY \<equiv> 0x08"

abbreviation NS_EXT :: u8 where "NS_EXT \<equiv> 0x10"

abbreviation NS_NONAME :: u8 where "NS_NONAME \<equiv> 0x80"

abbreviation RDDEM :: u8 where "RDDEM \<equiv> 0x05"

abbreviation FF_LFN_BUF :: "'a::numeral" where "FF_LFN_BUF \<equiv> 255"

abbreviation FF_SFN_BUF :: "'a::numeral" where "FF_SFN_BUF \<equiv> 12"

definition dbc_1st :: "u8 \<Rightarrow> bool" where
  "dbc_1st c = False"

definition dbc_2nd :: "u8 \<Rightarrow> bool" where
  "dbc_2nd c = False"

text \<open>The characters that no long name and no short name may contain.\<close>

definition bad_lfn_chars :: "u16 list" where
  "bad_lfn_chars = [0x2A, 0x3A, 0x3C, 0x3E, 0x7C, 0x22, 0x3F, 0x7F]"

definition bad_sfn_chars :: "u16 list" where
  "bad_sfn_chars = [0x2B, 0x2C, 0x3B, 0x3D, 0x5B, 0x5D]"

subsection \<open>Names of a segment\<close>

text \<open>The loop that stores the segment in the long name buffer: \<open>None\<close> for a wrong name, otherwise the character that
  ended it, the pointer behind it and the length of the name.\<close>

function create_lfn :: "bytes \<Rightarrow> nat \<Rightarrow> wchars \<Rightarrow> nat \<Rightarrow> (u16 \<times> nat \<times> nat) option \<times> wchars" where
  "create_lfn s p lfn di =
     (case tchar2uni s p of (uc, p) \<Rightarrow>
      if uc = 0xFFFFFFFF then (None, lfn)
      else
        let (lfn, di) = (if 0x10000 \<le> uc then (lfn(di := ucast (drop_bit 16 uc)), di + 1) else (lfn, di));
            wc = ucast uc :: u16 in
        if wc < 0x20 \<or> IsSeparator wc then (Some (wc, p, di), lfn)
        else if wc < 0x80 \<and> wc \<in> set bad_lfn_chars then (None, lfn)
        else if FF_MAX_LFN \<le> di then (None, lfn)
        else create_lfn s p (lfn(di := wc)) (di + 1))"
  by pat_completeness auto
termination
  by (relation "measure (\<lambda>(s, p, lfn, di). FF_MAX_LFN - di)") (auto split: if_splits)

declare create_lfn.simps [simp del]

partial_function (option) skip_separators :: "bytes \<Rightarrow> nat \<Rightarrow> nat option" where
  "skip_separators s p = (if IsSeparator (s p) then skip_separators s (p + 1) else Some p)"

fun snip_trailing :: "wchars \<Rightarrow> nat \<Rightarrow> nat" where
  "snip_trailing lfn 0 = 0"
| "snip_trailing lfn (Suc di) = (if lfn di \<noteq> 0x20 \<and> lfn di \<noteq> 0x2E then Suc di else snip_trailing lfn di)"

partial_function (option) leading_spaces :: "wchars \<Rightarrow> nat \<Rightarrow> nat option" where
  "leading_spaces lfn si = (if lfn si = 0x20 then leading_spaces lfn (si + 1) else Some si)"

fun last_dot :: "wchars \<Rightarrow> nat \<Rightarrow> nat" where
  "last_dot lfn 0 = 0"
| "last_dot lfn (Suc di) = (if lfn di \<noteq> 0x2E then last_dot lfn di else Suc di)"

text \<open>One character of the short name: to the code page in upper case, then ASCII letters to upper case.\<close>

definition sfn_oem :: "u16 \<Rightarrow> u8 \<Rightarrow> u16 \<times> u8" where
  "sfn_oem wc cf =
     (if 0x80 \<le> wc then
        let wc = ff_uni2oem (ucast wc) FF_CODE_PAGE;
            wc = (if wc AND 0x80 \<noteq> 0 then ucast (TBL_CT850 ! unat (wc AND 0x7F)) else wc)
        in (wc, cf OR NS_LFN)
      else (wc, cf))"

definition sfn_sbc :: "u16 \<Rightarrow> u8 \<Rightarrow> u8 \<Rightarrow> u16 \<times> u8 \<times> u8" where
  "sfn_sbc wc b cf =
     (if wc = 0 \<or> wc \<in> set bad_sfn_chars then (0x5F, b, cf OR NS_LOSS OR NS_LFN)
      else
        let b = (if IsUpper wc then b OR 2 else b) in
        if IsLower wc then (wc - 0x20, b OR 1, cf) else (wc, b, cf))"

partial_function (option) sfn_loop ::
  "wchars \<Rightarrow> nat \<Rightarrow> nat \<Rightarrow> nat \<Rightarrow> nat \<Rightarrow> u8 \<Rightarrow> u8 \<Rightarrow> bytes \<Rightarrow> (nat \<times> u8 \<times> u8 \<times> bytes) option" where
  "sfn_loop lfn di si i ni b cf sfn =
     (let wc = lfn si; si = si + 1 in
      if wc = 0 then Some (ni, b, cf, sfn)
      else if wc = 0x20 \<or> (wc = 0x2E \<and> si \<noteq> di) then sfn_loop lfn di si i ni b (cf OR NS_LOSS OR NS_LFN) sfn
      else if ni \<le> i \<or> si = di then
        if ni = 11 then Some (ni, b, cf OR NS_LOSS OR NS_LFN, sfn)
        else
          let cf = (if si \<noteq> di then cf OR NS_LOSS OR NS_LFN else cf) in
          if di < si then Some (ni, b, cf, sfn)
          else sfn_loop lfn di di 8 11 (push_bit 2 b) cf sfn
      else
        case sfn_oem wc cf of (wc, cf) \<Rightarrow>
        if 0x100 \<le> wc then
          if ni - 1 \<le> i then sfn_loop lfn di si ni ni b (cf OR NS_LOSS OR NS_LFN) sfn
          else sfn_loop lfn di si (i + 2) ni b cf (sfn(i := ucast (drop_bit 8 wc), i + 1 := ucast wc))
        else
          case sfn_sbc wc b cf of (wc, b, cf) \<Rightarrow> sfn_loop lfn di si (i + 1) ni b cf (sfn(i := ucast wc)))"

text \<open>The end of \<^verbatim>\<open>create_name\<close>: the first character and the flags.\<close>

definition sfn_finish :: "nat \<Rightarrow> u8 \<Rightarrow> u8 \<Rightarrow> bytes \<Rightarrow> bytes" where
  "sfn_finish ni b cf sfn =
     (let sfn = (if sfn 0 = DDEM then sfn(0 := RDDEM) else sfn);
          b = (if ni = 8 then push_bit 2 b else b);
          cf = (if b AND 0x0C = 0x0C \<or> b AND 0x03 = 0x03 then cf OR NS_LFN else cf);
          cf = (if cf AND NS_LFN = 0 then
                  let cf = (if b AND 0x01 \<noteq> 0 then cf OR NS_EXT else cf)
                  in if b AND 0x04 \<noteq> 0 then cf OR NS_BODY else cf
                else cf)
      in sfn(NSFLAG := cf))"

text \<open>The result, the volume and directory objects (their name buffers are filled) and the pointer to the next segment.\<close>

definition create_name :: "FATFS \<Rightarrow> DIR \<Rightarrow> bytes \<Rightarrow> nat \<Rightarrow> (FRESULT \<times> FATFS \<times> DIR \<times> nat) option" where
  "create_name fs dp s path =
     (case create_lfn s path (lfnbuf fs) 0 of
        (None, lfn) \<Rightarrow> Some (FR_INVALID_NAME, fs\<lparr>lfnbuf := lfn\<rparr>, dp, path)
      | (Some (wc, p, di), lfn) \<Rightarrow>
          (case (if wc < 0x20 then Some (p, NS_LAST)
                 else case skip_separators s p of
                        None \<Rightarrow> None
                      | Some p \<Rightarrow> Some (p, if IsTerminator (s p) then NS_LAST else 0)) of
             None \<Rightarrow> None
           | Some (path, cf) \<Rightarrow>
               let di = snip_trailing lfn di;
                   lfn = lfn(di := 0);
                   fs = fs\<lparr>lfnbuf := lfn\<rparr> in
               if di = 0 then Some (FR_INVALID_NAME, fs, dp, path)
               else
                 (case leading_spaces lfn 0 of
                    None \<Rightarrow> None
                  | Some si \<Rightarrow>
                      let cf = (if 0 < si \<or> lfn si = 0x2E then cf OR NS_LOSS OR NS_LFN else cf);
                          di = last_dot lfn di;
                          sfn = blit_bytes (fn dp) 0 (\<lambda>_. 0x20) 11 in
                      (case sfn_loop lfn di si 0 8 0 cf sfn of
                         None \<Rightarrow> None
                       | Some (ni, b, cf, sfn) \<Rightarrow> Some (FR_OK, fs, dp\<lparr>fn := sfn_finish ni b cf sfn\<rparr>, path)))))"

subsection \<open>Following a path\<close>

text \<open>Get into the sub-directory that was found.\<close>

definition enter_dir :: "FATFS \<Rightarrow> DIR \<Rightarrow> DIR" where
  "enter_dir fs dp =
     (let obj = dir_obj dp in
      dp\<lparr>dir_obj :=
        (if fs_type fs = FS_EXFAT then
           init_alloc_info fs (obj\<lparr>c_scl := sclust obj, c_size := (ucast (objsize obj) AND 0xFFFFFF00) OR ucast (stat obj), c_ofs := blk_ofs dp\<rparr>)
         else obj\<lparr>sclust := ld_clust fs (win fs) (unat (dptr dp mod SS))\<rparr>)\<rparr>)"

partial_function (option) follow_loop ::
  "disk option \<Rightarrow> bytes \<Rightarrow> FATFS \<Rightarrow> DIR \<Rightarrow> nat \<Rightarrow> (FRESULT \<times> FATFS \<times> DIR) option" where
  "follow_loop rd s fs dp path =
     (case create_name fs dp s path of
        None \<Rightarrow> None
      | Some (res, fs, dp, path) \<Rightarrow>
          if res \<noteq> FR_OK then Some (res, fs, dp)
          else
            (case dir_find rd fs dp of
               None \<Rightarrow> None
             | Some (res, fs, dp) \<Rightarrow>
                 let ns = fn dp NSFLAG in
                 if res \<noteq> FR_OK then
                   Some (if res = FR_NO_FILE \<and> ns AND NS_LAST = 0 then FR_NO_PATH else res, fs, dp)
                 else if ns AND NS_LAST \<noteq> 0 then Some (FR_OK, fs, dp)
                 else if attr (dir_obj dp) AND AM_DIR = 0 then Some (FR_NO_PATH, fs, dp)
                 else follow_loop rd s fs (enter_dir fs dp) path))"

definition follow_path :: "disk option \<Rightarrow> bytes \<Rightarrow> FATFS \<Rightarrow> DIR \<Rightarrow> nat \<Rightarrow> (FRESULT \<times> FATFS \<times> DIR) option" where
  "follow_path rd s fs dp path =
     (case skip_separators s path of
        None \<Rightarrow> None
      | Some path \<Rightarrow>
          let dp = dp\<lparr>dir_obj := (dir_obj dp)\<lparr>sclust := 0, n_frag := 0\<rparr>\<rparr> in
          if IsTerminator (s path) then dir_sdi rd fs (dp\<lparr>fn := (fn dp)(NSFLAG := NS_NONAME)\<rparr>) 0
          else follow_loop rd s fs dp path)"

subsection \<open>Drive number\<close>

text \<open>The loop that looks for a colon: the last character read and the pointer behind it.\<close>

partial_function (option) find_colon :: "bytes \<Rightarrow> nat \<Rightarrow> (u8 \<times> nat) option" where
  "find_colon s tt =
     (let tc = s tt; tt = tt + 1 in
      if \<not> IsTerminator tc \<and> tc \<noteq> 0x3A then find_colon s tt else Some (tc, tt))"

text \<open>The drive number, -1 for an invalid one, and the path without its drive prefix; a null pointer is \<open>None\<close>.\<close>

definition get_ldnumber :: "bytes \<Rightarrow> nat option \<Rightarrow> (int \<times> nat option) option" where
  "get_ldnumber s path =
     (case path of
        None \<Rightarrow> Some (- 1, path)
      | Some tp \<Rightarrow>
          (case find_colon s tp of
             None \<Rightarrow> None
           | Some (tc, tt) \<Rightarrow>
               if tc = 0x3A then
                 let i = (if IsDigit (s tp) \<and> tp + 2 = tt then uint (s tp) - 0x30 else 1)
                 in Some (if i < 1 then (i, Some tt) else (- 1, path))
               else Some (0, path)))"

subsection \<open>Information on an object\<close>

text \<open>The loop that stores the long name in UTF-8: the length (0 for a wrong character or an overflow), the pending
  high surrogate and the buffer.\<close>

partial_function (option) lfn_to_utf :: "wchars \<Rightarrow> nat \<Rightarrow> nat \<Rightarrow> u16 \<Rightarrow> bytes \<Rightarrow> (nat \<times> u16 \<times> bytes) option" where
  "lfn_to_utf lfn si di hs name =
     (if lfn si \<noteq> 0 then
        let wc = lfn si; si = si + 1 in
        if hs = 0 \<and> IsSurrogate wc then lfn_to_utf lfn si di wc name
        else
          case put_utf (push_bit 16 (ucast hs) OR ucast wc) name di (FF_LFN_BUF - of_nat di) of (nw, name) \<Rightarrow>
            if nw = 0 then Some (0, hs, name) else lfn_to_utf lfn si (di + unat nw) 0 name
      else Some (di, hs, name))"

text \<open>The same for the entry block of exFAT, where \<open>n\<close> characters are left.\<close>

fun xname_to_utf :: "bytes \<Rightarrow> nat \<Rightarrow> nat \<Rightarrow> nat \<Rightarrow> u16 \<Rightarrow> bytes \<Rightarrow> nat \<times> u16 \<times> bytes" where
  "xname_to_utf b 0 si di hs name = (di, hs, name)"
| "xname_to_utf b (Suc n) si di hs name =
     (if MAXDIRB FF_MAX_LFN \<le> si then (0, hs, name)
      else
        let si = (if si mod SZDIRE = 0 then si + 2 else si);
            wc = ld_word b si; si = si + 2 in
        if hs = 0 \<and> IsSurrogate wc then xname_to_utf b n si di wc name
        else
          case put_utf (push_bit 16 (ucast hs) OR ucast wc) name di (FF_LFN_BUF - of_nat di) of (nw, name) \<Rightarrow>
            if nw = 0 then (0, hs, name) else xname_to_utf b n si (di + unat nw) 0 name)"

text \<open>The loop that stores the short name of the entry at \<open>ent\<close>: its length and the buffer.\<close>

function sfn_to_utf :: "bytes \<Rightarrow> nat \<Rightarrow> nat \<Rightarrow> nat \<Rightarrow> bytes \<Rightarrow> nat \<times> bytes" where
  "sfn_to_utf b ent si di name =
     (if si < 11 then
        let wc = ucast (b (ent + si)) :: u16; si = si + 1 in
        if wc = 0x20 then sfn_to_utf b ent si di name
        else
          let wc = (if wc = ucast RDDEM then ucast DDEM else wc);
              (di, name) = (if si = 9 \<and> di < FF_SFN_BUF then (di + 1, name(di := 0x2E)) else (di, name));
              (wc, si) = (if dbc_1st (ucast wc) \<and> si \<noteq> 8 \<and> si \<noteq> 11 \<and> dbc_2nd (b (ent + si))
                          then (push_bit 8 wc OR ucast (b (ent + si)), si + 1) else (wc, si));
              wc = ff_oem2uni wc FF_CODE_PAGE in
          if wc = 0 then (0, name)
          else
            case put_utf (ucast wc) name di (FF_SFN_BUF - of_nat di) of (nw, name) \<Rightarrow>
              if nw = 0 then (0, name) else sfn_to_utf b ent si (di + unat nw) name
      else (di, name))"
  by pat_completeness auto
termination
  by (relation "measure (\<lambda>(b, ent, si, di, name). 11 - si)") (auto split: if_splits)

declare sfn_to_utf.simps [simp del]

text \<open>The loop that copies the short name to the long one with the case information \<open>ntres\<close>.\<close>

partial_function (option) copy_case :: "bytes \<Rightarrow> u8 \<Rightarrow> nat \<Rightarrow> u8 \<Rightarrow> bytes \<Rightarrow> (nat \<times> bytes) option" where
  "copy_case alt ntres si lcf name =
     (if alt si \<noteq> 0 then
        let wc = alt si;
            lcf = (if wc = 0x2E then NS_EXT else lcf);
            wc = (if IsUpper wc \<and> ntres AND lcf \<noteq> 0 then wc + 0x20 else wc)
        in copy_case alt ntres (si + 1) lcf (name(si := wc))
      else Some (si, name))"

definition get_fileinfo_x :: "FATFS \<Rightarrow> FILINFO \<Rightarrow> FILINFO" where
  "get_fileinfo_x fs fno =
     (case xname_to_utf (dirbuf fs) (unat (dirbuf fs XDIR_NumName)) (SZDIRE * 2) 0 0 (fname fno) of (di, hs, name) \<Rightarrow>
      let di = (if hs \<noteq> 0 then 0 else di);
          (di, name) = (if di = 0 then (1, name(0 := 0x3F)) else (di, name));
          a = dirbuf fs XDIR_Attr AND AM_MASKX in
      fno\<lparr>fname := name(di := 0), altname := (altname fno)(0 := 0), fattrib := a,
          fi_size := (if a AND AM_DIR \<noteq> 0 then 0 else ld_qword (dirbuf fs) XDIR_FileSize),
          ftime := ld_word (dirbuf fs) XDIR_ModTime, fdate := ld_word (dirbuf fs) (XDIR_ModTime + 2)\<rparr>)"

definition get_fileinfo :: "FATFS \<Rightarrow> DIR \<Rightarrow> FILINFO \<Rightarrow> FILINFO option" where
  "get_fileinfo fs dp fno =
     (let fno = fno\<lparr>fname := (fname fno)(0 := 0)\<rparr>; ent = dir dp in
      if dir_sect dp = 0 then Some fno
      else if fs_type fs = FS_EXFAT then Some (get_fileinfo_x fs fno)
      else
        (case (if blk_ofs dp \<noteq> 0xFFFFFFFF then
                 (case lfn_to_utf (lfnbuf fs) 0 0 0 (fname fno) of
                    None \<Rightarrow> None
                  | Some (di, hs, name) \<Rightarrow> Some (fno\<lparr>fname := name((if hs \<noteq> 0 then 0 else di) := 0)\<rparr>))
               else Some fno) of
           None \<Rightarrow> None
         | Some fno \<Rightarrow>
             (case sfn_to_utf (win fs) ent 0 0 (altname fno) of (di, alt) \<Rightarrow>
              let fno = fno\<lparr>altname := alt(di := 0)\<rparr> in
              (case (if fname fno 0 = 0 then
                       (case (if di = 0 then Some (1, (fname fno)(0 := 0x3F))
                              else copy_case (altname fno) (win fs (ent + DIR_NTres)) 0 NS_BODY (fname fno)) of
                          None \<Rightarrow> None
                        | Some (di, name) \<Rightarrow>
                            let fno = fno\<lparr>fname := name(di := 0)\<rparr> in
                            Some (if win fs (ent + DIR_NTres) = 0 then fno\<lparr>altname := (altname fno)(0 := 0)\<rparr> else fno))
                     else Some fno) of
                 None \<Rightarrow> None
               | Some fno \<Rightarrow>
                   Some (fno\<lparr>fattrib := win fs (ent + DIR_Attr) AND AM_MASK, fi_size := ucast (ld_dword (win fs) (ent + DIR_FileSize)),
                     ftime := ld_word (win fs) (ent + DIR_ModTime), fdate := ld_word (win fs) (ent + DIR_ModTime + 2)\<rparr>)))))"

subsection \<open>Decoding moves forward and stops at the end of the path\<close>

lemma trailing_bytes_end:
  assumes "trailing_bytes s p uc n = Some (uc', q)" "s e < 0x20" "p \<le> e"
  shows "p \<le> q \<and> q \<le> e"
  using assms
proof (induction s p uc n rule: trailing_bytes.induct)
  case (2 s p uc n)
  have nz: "b AND 0xC0 = 0x80 \<longrightarrow> \<not> b < 0x20" for b :: u8
    by (rule byte_all [of _ b]) code_simp
  have step: "s p AND 0xC0 = 0x80" "trailing_bytes s (p + 1) (push_bit 6 uc OR ucast (s p AND 0x3F)) n = Some (uc', q)"
    using 2(2) by (auto simp: Let_def split: if_splits)
  then have "p \<noteq> e" using nz 2(3) by blast
  then show ?case using 2(1) [OF refl] step 2(3,4) by fastforce
qed simp

lemma low_surrogate_high:
  fixes x y :: u32
  shows "0x8000 \<le> (ucast (0xD800DC00 OR (x AND 0x3FF0000) OR (y AND 0x3FF)) :: u16)"
proof -
  define w where "w = (ucast (0xD800DC00 OR (x AND 0x3FF0000) OR (y AND 0x3FF)) :: u16)"
  have "bit w 15" by (simp add: w_def bit_unsigned_iff bit_or_iff)
  then have "bit (unat w) 15" by (simp add: bit_unsigned_iff)
  then have "unat w div 2 ^ 15 \<noteq> 0" by (metis bit_iff_odd even_zero)
  then have "0 < unat w div 2 ^ 15" by (simp only: neq0_conv)
  then show ?thesis unfolding w_def [symmetric] by (simp add: word_le_nat_alt div_greater_zero_iff)
qed

lemma terminator_ascii: "b < 0x20 \<longrightarrow> (ucast b :: u32) AND 0x80 = 0 \<and> (ucast b :: u32) < 0x20 \<and> (ucast (ucast b :: u32) :: u16) < 0x20" for b :: u8
  by (rule byte_all [of _ b]) code_simp

lemma tchar2uni_ok:
  assumes "tchar2uni s p = (uc, q)" "uc \<noteq> 0xFFFFFFFF" "s e < 0x20" "p \<le> e"
  shows "p < q" "p = e \<Longrightarrow> uc < 0x20 \<and> (ucast uc :: u16) < 0x20" "p \<noteq> e \<Longrightarrow> q \<le> e" "0x10000 \<le> uc \<Longrightarrow> 0x8000 \<le> (ucast uc :: u16)"
proof -
  have "p < q \<and> (p = e \<longrightarrow> uc < 0x20 \<and> (ucast uc :: u16) < 0x20) \<and> (p \<noteq> e \<longrightarrow> q \<le> e) \<and> (0x10000 \<le> uc \<longrightarrow> 0x8000 \<le> (ucast uc :: u16))"
  proof (cases "(ucast (s p) :: u32) AND 0x80 = 0")
    case True
    then have r: "uc = ucast (s p)" "q = p + 1" using assms(1) by (simp_all add: tchar2uni_def Let_def)
    have "(ucast (s p) :: u32) < 0x10000"
      using byte_lt [of "s p"] by (simp add: word_less_nat_alt unat_ucast_u8)
    then show ?thesis using r assms(3,4) terminator_ascii [of "s e"] by (auto simp flip: not_less)
  next
    case False
    then have pe: "p \<noteq> e" using terminator_ascii [of "s e"] assms(3) by auto
    obtain u0 nf uc1 q1 where t: "trailing_bytes s (p + 1) u0 nf = Some (uc1, q1)"
      and r: "q = q1" "uc = (if 0x10000 \<le> uc1 then 0xD800DC00 OR (push_bit 6 (uc1 - 0x10000) AND 0x3FF0000) OR (uc1 AND 0x3FF) else uc1)"
      using assms(1,2) False by (auto simp: tchar2uni_def Let_def simp del: trailing_bytes.simps split: if_splits option.splits)
    have "p + 1 \<le> q1" "q1 \<le> e" using trailing_bytes_end [OF t assms(3)] pe assms(4) by auto
    then show ?thesis using pe r low_surrogate_high by auto
  qed
  then show "p < q" "p = e \<Longrightarrow> uc < 0x20 \<and> (ucast uc :: u16) < 0x20" "p \<noteq> e \<Longrightarrow> q \<le> e" "0x10000 \<le> uc \<Longrightarrow> 0x8000 \<le> (ucast uc :: u16)"
    by blast+
qed

lemma skip_separators_ok:
  assumes "s e < 0x20" "p \<le> e"
  shows "\<exists>q. skip_separators s p = Some q \<and> p \<le> q \<and> q \<le> e"
  using assms(2)
proof (induction "e - p" arbitrary: p)
  case 0
  have "\<not> IsSeparator (s e)" using assms(1) by auto
  then show ?case using 0 by (subst skip_separators.simps) simp
next
  case (Suc n)
  then have "n = e - (p + 1)" "p + 1 \<le> e" by auto
  from Suc(1) [OF this] show ?case using Suc(3) by (subst skip_separators.simps) auto
qed

lemma create_lfn_step:
  assumes "tchar2uni s p = (uc, q)" "uc \<noteq> 0xFFFFFFFF"
    "lfn1 = (if 0x10000 \<le> uc then lfn(di := ucast (drop_bit 16 uc)) else lfn)" "di1 = (if 0x10000 \<le> uc then di + 1 else di)"
  shows "create_lfn s p lfn di =
     (if (ucast uc :: u16) < 0x20 \<or> IsSeparator (ucast uc :: u16) then (Some (ucast uc, q, di1), lfn1)
      else if (ucast uc :: u16) < 0x80 \<and> ucast uc \<in> set bad_lfn_chars then (None, lfn1)
      else if FF_MAX_LFN \<le> di1 then (None, lfn1)
      else create_lfn s q (lfn1(di1 := ucast uc)) (di1 + 1))"
  using assms by (subst create_lfn.simps) (simp add: Let_def)

text \<open>Only the name buffer of 256 characters is stored to.\<close>

lemma create_lfn_buf:
  "create_lfn s p lfn di = (r, lfn') \<Longrightarrow> di \<le> FF_MAX_LFN \<Longrightarrow> FF_MAX_LFN < k \<Longrightarrow> lfn' k = lfn k"
proof (induction "FF_MAX_LFN - di" arbitrary: p lfn di rule: less_induct)
  case less
  obtain uc q where t: "tchar2uni s p = (uc, q)" by force
  show ?case
  proof (cases "uc = 0xFFFFFFFF")
    case True
    then show ?thesis using less.prems t by (simp add: create_lfn.simps [of s p lfn di])
  next
    case False
    define lfn1 where "lfn1 = (if 0x10000 \<le> uc then lfn(di := ucast (drop_bit 16 uc)) else lfn)"
    define di1 where "di1 = (if 0x10000 \<le> uc then di + 1 else di)"
    note step = create_lfn_step [OF t False lfn1_def di1_def]
    have k: "lfn1 k = lfn k" using less.prems by (simp add: lfn1_def)
    show ?thesis
      using less.prems k less.hyps [of "di1 + 1" q "lfn1(di1 := ucast uc)"] unfolding step
      by (auto simp: di1_def split: if_splits)
  qed
qed

lemma create_lfn_ok:
  assumes "create_lfn s p lfn di = (Some (wc, q, n), lfn')" "s e < 0x20" "p \<le> e" "di \<le> FF_MAX_LFN"
  shows "n \<le> FF_MAX_LFN \<and> (\<not> wc < 0x20 \<longrightarrow> p < q \<and> q \<le> e)"
  using assms
proof (induction "FF_MAX_LFN - di" arbitrary: p lfn di rule: less_induct)
  case less
  obtain uc q1 where t: "tchar2uni s p = (uc, q1)" by force
  have uc: "uc \<noteq> 0xFFFFFFFF" using less.prems(1) t by (auto simp: create_lfn.simps [of s p lfn di])
  note ok = tchar2uni_ok [OF t uc less.prems(2,3)]
  define lfn1 where "lfn1 = (if 0x10000 \<le> uc then lfn(di := ucast (drop_bit 16 uc)) else lfn)"
  define di1 where "di1 = (if 0x10000 \<le> uc then di + 1 else di)"
  note step = create_lfn_step [OF t uc lfn1_def di1_def]
  show ?case
  proof (cases "(ucast uc :: u16) < 0x20 \<or> IsSeparator (ucast uc :: u16)")
    case True
    then have "\<not> 0x10000 \<le> uc" using ok(4) by (auto simp: word_le_nat_alt word_less_nat_alt)
    then have "n = di" "q = q1" "wc = ucast uc" using less.prems(1) True unfolding step by (auto simp: di1_def)
    then show ?thesis using ok less.prems(4) by auto
  next
    case False
    then have rec: "create_lfn s q1 (lfn1(di1 := ucast uc)) (di1 + 1) = (Some (wc, q, n), lfn')" and di1: "di1 < FF_MAX_LFN"
      using less.prems(1) unfolding step by (auto split: if_splits)
    have pe: "p \<noteq> e" using ok(2) False by blast
    have "FF_MAX_LFN - (di1 + 1) < FF_MAX_LFN - di" using di1 by (auto simp: di1_def split: if_splits)
    from less.hyps [OF this rec less.prems(2) ok(3) [OF pe]] di1 have "n \<le> FF_MAX_LFN \<and> (\<not> wc < 0x20 \<longrightarrow> q1 < q \<and> q \<le> e)" by simp
    then show ?thesis using ok(1) by auto
  qed
qed

lemma snip_trailing_le: "snip_trailing lfn n \<le> n"
  by (induction n) auto

lemma last_dot_le: "last_dot lfn n \<le> n"
  by (induction n) auto

lemma leading_spaces_ok:
  assumes "lfn n = 0" "si \<le> n"
  shows "\<exists>k. leading_spaces lfn si = Some k \<and> k \<le> n"
  using assms(2)
proof (induction "n - si" arbitrary: si)
  case 0
  then show ?case using assms(1) by (subst leading_spaces.simps) simp
next
  case (Suc m)
  then have "m = n - (si + 1)" "si + 1 \<le> n" by auto
  from Suc(1) [OF this] show ?case using Suc(3) by (subst leading_spaces.simps) auto
qed

text \<open>What the short name loop does to the flags: it sets the flags for a lossy or long name, nothing else.\<close>

definition keeps_flags :: "u8 \<Rightarrow> u8 \<Rightarrow> bool" where
  "keeps_flags cf cf' \<longleftrightarrow> cf' AND 0xFC = cf AND 0xFC"

lemma keeps_flags_refl [simp]: "keeps_flags cf cf"
  by (simp add: keeps_flags_def)

lemma keeps_flags_or [simp]:
  "keeps_flags (cf OR NS_LOSS OR NS_LFN) cf' = keeps_flags cf cf'" "keeps_flags (cf OR NS_LFN) cf' = keeps_flags cf cf'"
  "keeps_flags cf (cf' OR NS_LOSS OR NS_LFN) = keeps_flags cf cf'" "keeps_flags cf (cf' OR NS_LFN) = keeps_flags cf cf'"
  "keeps_flags (cf OR 3) cf' = keeps_flags cf cf'" "keeps_flags cf (cf' OR 3) = keeps_flags cf cf'"
  by (simp_all add: keeps_flags_def bit.conj_disj_distrib2)

lemma sfn_oem_flags: "sfn_oem wc cf = (wc', cf') \<Longrightarrow> keeps_flags cf' x = keeps_flags cf x"
  by (auto simp: sfn_oem_def Let_def split: if_splits)

lemma sfn_sbc_flags: "sfn_sbc wc b cf = (wc', b', cf') \<Longrightarrow> keeps_flags cf' x = keeps_flags cf x"
  by (auto simp: sfn_sbc_def Let_def split: if_splits)

lemma sfn_loop_ok:
  assumes "lfn n = 0" "di \<le> n" "si \<le> n" "ni \<le> 11"
  shows "\<exists>ni' b' cf' sfn'. sfn_loop lfn di si i ni b cf sfn = Some (ni', b', cf', sfn') \<and> keeps_flags cf cf' \<and> (\<forall>k \<ge> 11. sfn' k = sfn k)"
  using assms(3,4)
proof (induction "n - si" arbitrary: si i ni b cf sfn rule: less_induct)
  case less
  define wc where "wc = lfn si"
  obtain wc1 cf1 where o1: "sfn_oem wc cf = (wc1, cf1)" by force
  obtain wc2 b2 cf2 where s1: "sfn_sbc wc1 b cf1 = (wc2, b2, cf2)" by (metis prod_cases3)
  show ?case
  proof (cases "wc = 0")
    case True
    then show ?thesis by (subst sfn_loop.simps) (simp add: wc_def)
  next
    case False
    then have si: "si < n" using less.prems assms(1) by (cases "si = n") (auto simp: wc_def)
    note IH = less.hyps [where si = "si + 1"] less.hyps [where si = di]
    have next_si: "n - (si + 1) < n - si" "si + 1 \<le> n" using si by auto
    have next_di: "n - di < n - si" if "\<not> di < si + 1" using si that assms(2) by auto
    have f: "keeps_flags cf1 x = keeps_flags cf x" "keeps_flags cf2 x = keeps_flags cf x" for x
      using sfn_oem_flags [OF o1] sfn_sbc_flags [OF s1] by simp_all
    consider "wc = 0x20 \<or> (wc = 0x2E \<and> si + 1 \<noteq> di)" | "\<not> (wc = 0x20 \<or> (wc = 0x2E \<and> si + 1 \<noteq> di))" "ni \<le> i \<or> si + 1 = di"
      | "\<not> (wc = 0x20 \<or> (wc = 0x2E \<and> si + 1 \<noteq> di))" "i < ni" "si + 1 \<noteq> di" by linarith
    then show ?thesis
    proof cases
      case 1
      then show ?thesis using False IH(1) [OF next_si less.prems(2), of i b "cf OR NS_LOSS OR NS_LFN" sfn]
        by (subst sfn_loop.simps) (simp flip: wc_def)
    next
      case 2
      define cf3 where "cf3 = (if si + 1 \<noteq> di then cf OR NS_LOSS OR NS_LFN else cf)"
      have f3: "keeps_flags cf3 x = keeps_flags cf x" "keeps_flags x cf3 = keeps_flags x cf" for x by (simp_all add: cf3_def)
      have eq: "sfn_loop lfn di si i ni b cf sfn =
          (if ni = 11 then Some (ni, b, cf OR NS_LOSS OR NS_LFN, sfn) else if di < si + 1 then Some (ni, b, cf3, sfn)
           else sfn_loop lfn di di 8 11 (push_bit 2 b) cf3 sfn)"
        by (subst sfn_loop.simps) (simp only: Let_def wc_def [symmetric] False if_False if_not_P [OF 2(1)] if_P [OF 2(2)] cf3_def)
      show ?thesis
      proof (cases "ni = 11 \<or> di < si + 1")
        case True
        then show ?thesis unfolding eq by (auto simp: f3)
      next
        case go: False
        then show ?thesis using IH(2) [OF next_di assms(2), of 11 8 "push_bit 2 b" cf3 sfn] unfolding eq by (simp add: f3)
      qed
    next
      case 3
      have eq: "sfn_loop lfn di si i ni b cf sfn =
          (if 0x100 \<le> wc1 then
             if ni - 1 \<le> i then sfn_loop lfn di (si + 1) ni ni b (cf1 OR NS_LOSS OR NS_LFN) sfn
             else sfn_loop lfn di (si + 1) (i + 2) ni b cf1 (sfn(i := ucast (drop_bit 8 wc1), i + 1 := ucast wc1))
           else sfn_loop lfn di (si + 1) (i + 1) ni b2 cf2 (sfn(i := ucast wc2)))"
        using 3 False by (subst sfn_loop.simps) (simp add: Let_def o1 s1 flip: wc_def)
      have "\<forall>k \<ge> 11. (sfn(i := x)) k = sfn k" for x using 3 less.prems(2) by simp
      moreover have "\<forall>k \<ge> 11. (sfn(i := x, i + 1 := y)) k = sfn k" if "\<not> ni - 1 \<le> i" for x y using that less.prems(2) by auto
      ultimately show ?thesis
        using IH(1) [OF next_si less.prems(2), of ni b "cf1 OR NS_LOSS OR NS_LFN" sfn]
          IH(1) [OF next_si less.prems(2), of "i + 2" b cf1 "sfn(i := ucast (drop_bit 8 wc1), i + 1 := ucast wc1)"]
          IH(1) [OF next_si less.prems(2), of "i + 1" b2 cf2 "sfn(i := ucast wc2)"]
        unfolding eq by (auto simp: f)
    qed
  qed
qed

lemma sfn_finish_ok:
  "sfn_finish ni b cf sfn NSFLAG AND 0xC4 = cf AND 0xC4" "11 < k \<Longrightarrow> sfn_finish ni b cf sfn k = sfn k"
  by (auto simp: sfn_finish_def Let_def bit.conj_disj_distrib2)

lemma flags_C4:
  fixes x :: u8
  shows "x AND NS_NOLFN = (x AND 0xC4) AND NS_NOLFN" "x AND NS_LAST = (x AND 0xC4) AND NS_LAST"
    "x AND NS_NONAME = (x AND 0xC4) AND NS_NONAME"
  by (simp_all add: and.assoc)

lemma keeps_flags_C4: "keeps_flags cf cf' \<Longrightarrow> cf' AND 0xC4 = cf AND 0xC4"
proof -
  assume "keeps_flags cf cf'"
  then have "(cf' AND 0xFC) AND 0xC4 = (cf AND 0xFC) AND 0xC4" by (simp only: keeps_flags_def)
  then show ?thesis by (simp add: and.assoc)
qed

text \<open>What \<^verbatim>\<open>create_name\<close> does at a path that ends at \<open>e\<close>.\<close>

definition name_ok :: "FATFS \<Rightarrow> DIR \<Rightarrow> nat \<Rightarrow> nat \<Rightarrow> FRESULT \<Rightarrow> FATFS \<Rightarrow> DIR \<Rightarrow> nat \<Rightarrow> bool" where
  "name_ok fs dp path e res fs' dp' path' \<longleftrightarrow> fs' = fs\<lparr>lfnbuf := lfnbuf fs'\<rparr> \<and> dp' = dp\<lparr>fn := fn dp'\<rparr>
     \<and> (\<forall>k > FF_MAX_LFN. lfnbuf fs' k = lfnbuf fs k) \<and> (\<forall>k > 11. fn dp' k = fn dp k) \<and> res \<in> {FR_OK, FR_INVALID_NAME}
     \<and> (res = FR_OK \<longrightarrow> (\<exists>k \<le> FF_MAX_LFN. lfnbuf fs' k = 0) \<and> fn dp' NSFLAG AND NS_NOLFN = 0
          \<and> fn dp' NSFLAG AND NS_NONAME = 0 \<and> (fn dp' NSFLAG AND NS_LAST = 0 \<longrightarrow> path < path' \<and> path' \<le> e))"

lemma create_name_ok:
  assumes "s e < 0x20" "path \<le> e"
  shows "\<exists>res fs' dp' path'. create_name fs dp s path = Some (res, fs', dp', path') \<and> name_ok fs dp path e res fs' dp' path'"
proof -
  obtain r lfn where l: "create_lfn s path (lfnbuf fs) 0 = (r, lfn)" by force
  have buf: "lfn k = lfnbuf fs k" if "FF_MAX_LFN < k" for k using create_lfn_buf [OF l _ that] by simp
  show ?thesis
  proof (cases r)
    case None
    then show ?thesis using l buf by (simp add: create_name_def name_ok_def)
  next
    case (Some x)
    obtain wc p n where "x = (wc, p, n)" by (metis prod_cases3)
    then have l': "create_lfn s path (lfnbuf fs) 0 = (Some (wc, p, n), lfn)" using l Some by simp
    from create_lfn_ok [OF l' assms(1,2)] have n: "n \<le> FF_MAX_LFN" and p: "\<not> wc < 0x20 \<Longrightarrow> path < p \<and> p \<le> e" by auto
    define x1 where "x1 = (if wc < 0x20 then Some (p, NS_LAST)
        else case skip_separators s p of None \<Rightarrow> None | Some p \<Rightarrow> Some (p, if IsTerminator (s p) then NS_LAST else 0))"
    obtain q cf where x1: "x1 = Some (q, cf)" and cf: "cf = NS_LAST \<or> (cf = 0 \<and> path < q \<and> q \<le> e)"
    proof (cases "wc < 0x20")
      case True
      then show thesis using that [of p NS_LAST] by (simp add: x1_def)
    next
      case False
      from p [OF this] obtain q where "skip_separators s p = Some q" "p \<le> q" "q \<le> e"
        using skip_separators_ok [of s e p] assms(1) by blast
      then show thesis using that [of q "if IsTerminator (s q) then NS_LAST else 0"] False p by (auto simp: x1_def)
    qed
    define m where "m = snip_trailing lfn n"
    define lfn1 where "lfn1 = lfn(m := 0)"
    have m: "m \<le> FF_MAX_LFN" using snip_trailing_le [of lfn n] n by (simp add: m_def)
    have buf1: "lfn1 k = lfnbuf fs k" if "FF_MAX_LFN < k" for k using buf [OF that] that m by (simp add: lfn1_def)
    have name: "create_name fs dp s path =
        (if m = 0 then Some (FR_INVALID_NAME, fs\<lparr>lfnbuf := lfn1\<rparr>, dp, q)
         else case leading_spaces lfn1 0 of None \<Rightarrow> None | Some si \<Rightarrow>
           (case sfn_loop lfn1 (last_dot lfn1 m) si 0 8 0 (if 0 < si \<or> lfn1 si = 0x2E then cf OR NS_LOSS OR NS_LFN else cf)
                   (blit_bytes (fn dp) 0 (\<lambda>_. 0x20) 11) of
              None \<Rightarrow> None
            | Some (ni, b, cf, sfn) \<Rightarrow> Some (FR_OK, fs\<lparr>lfnbuf := lfn1\<rparr>, dp\<lparr>fn := sfn_finish ni b cf sfn\<rparr>, q)))"
      unfolding create_name_def l' by (simp only: prod.case option.case x1_def [symmetric] x1 Let_def m_def [symmetric] lfn1_def [symmetric])
    show ?thesis
    proof (cases "m = 0")
      case True
      then show ?thesis unfolding name using buf1 by (simp add: name_ok_def)
    next
      case False
      have z: "lfn1 m = 0" by (simp add: lfn1_def)
      obtain si where si: "leading_spaces lfn1 0 = Some si" "si \<le> m" using leading_spaces_ok [of lfn1 m 0] z by blast
      define cf1 where "cf1 = (if 0 < si \<or> lfn1 si = 0x2E then cf OR NS_LOSS OR NS_LFN else cf)"
      have k1: "keeps_flags cf1 x = keeps_flags cf x" for x by (simp add: cf1_def)
      obtain ni b cf2 sfn where sf: "sfn_loop lfn1 (last_dot lfn1 m) si 0 8 0 cf1 (blit_bytes (fn dp) 0 (\<lambda>_. 0x20) 11) = Some (ni, b, cf2, sfn)"
        and k2: "keeps_flags cf1 cf2" and keep: "\<forall>k \<ge> 11. sfn k = blit_bytes (fn dp) 0 (\<lambda>_. 0x20) 11 k"
        using sfn_loop_ok [of lfn1 m "last_dot lfn1 m" si 8 0 0 cf1 "blit_bytes (fn dp) 0 (\<lambda>_. 0x20) 11"] z si(2) last_dot_le by auto
      define f where "f = sfn_finish ni b cf2 sfn NSFLAG"
      have f: "f AND 0xC4 = cf AND 0xC4" using sfn_finish_ok(1) [of ni b cf2 sfn] keeps_flags_C4 k1 k2 by (metis f_def)
      then have "f AND NS_NOLFN = 0" "f AND NS_NONAME = 0" "f AND NS_LAST = 0 \<longrightarrow> cf = 0"
        using cf unfolding flags_C4 [of f] by auto
      moreover have "sfn_finish ni b cf2 sfn k = fn dp k" if "11 < k" for k
        using that keep by (simp add: sfn_finish_ok(2) blit_bytes_def)
      ultimately show ?thesis
        unfolding name using False si sf cf buf1 m z by (auto simp: name_ok_def f_def cf1_def)
    qed
  qed
qed

lemma name_ok_geo: "name_ok fs dp path e res fs' dp' path' \<Longrightarrow> same_geo fs fs'"
proof -
  assume "name_ok fs dp path e res fs' dp' path'"
  then have "fs' = fs\<lparr>lfnbuf := lfnbuf fs'\<rparr>" by (simp add: name_ok_def)
  moreover have "same_geo fs (fs\<lparr>lfnbuf := lfnbuf fs'\<rparr>)" by simp
  ultimately show ?thesis by metis
qed

lemma follow_loop_total:
  assumes "s e < 0x20" "path \<le> e" "csize fs \<noteq> 0"
  shows "\<exists>r fs' dp'. follow_loop rd s fs dp path = Some (r, fs', dp') \<and> same_geo fs fs'"
  using assms(2,3)
proof (induction "e - path" arbitrary: fs dp path rule: less_induct)
  case less
  obtain r1 fs1 dp1 path1 where n: "create_name fs dp s path = Some (r1, fs1, dp1, path1)" "name_ok fs dp path e r1 fs1 dp1 path1"
    using create_name_ok [of s e path fs dp] assms(1) less.prems(1) by blast
  note g1 = name_ok_geo [OF n(2)]
  show ?case
  proof (cases "r1 = FR_OK")
    case False
    then show ?thesis using n g1 by (subst follow_loop.simps) simp
  next
    case True
    then obtain k where "lfnbuf fs1 k = 0" using n(2) by (auto simp: name_ok_def)
    then obtain r2 fs2 dp2 where d: "dir_find rd fs1 dp1 = Some (r2, fs2, dp2)" "same_geo fs1 fs2" "fn dp2 = fn dp1"
      using dir_find_total [of fs1 k rd dp1] less.prems(2) same_geo_fields [OF g1] by auto
    have g2: "same_geo fs fs2" using g1 d(2) by (rule same_geo_trans)
    show ?thesis
    proof (cases "r2 = FR_OK \<and> fn dp2 NSFLAG AND NS_LAST = 0 \<and> attr (dir_obj dp2) AND AM_DIR \<noteq> 0")
      case go: True
      then have p: "path < path1" "path1 \<le> e" using n(2) True d(3) by (simp_all add: name_ok_def)
      have "e - path1 < e - path" "csize fs2 \<noteq> 0" using p less.prems same_geo_fields [OF g2] by auto
      then obtain r fs' dp' where "follow_loop rd s fs2 (enter_dir fs2 dp2) path1 = Some (r, fs', dp')" "same_geo fs2 fs'"
        using less.hyps p(2) by blast
      then show ?thesis using n d go True g2 by (subst follow_loop.simps) (auto intro: same_geo_trans)
    next
      case False
      then show ?thesis using n d True g2 by (subst follow_loop.simps) (auto simp: Let_def)
    qed
  qed
qed

lemma follow_path_total:
  assumes "s e < 0x20" "path \<le> e" "csize fs \<noteq> 0"
  shows "\<exists>r fs' dp'. follow_path rd s fs dp path = Some (r, fs', dp') \<and> same_geo fs fs'"
proof -
  obtain q where q: "skip_separators s path = Some q" "q \<le> e"
    using skip_separators_ok [of s e path] assms by blast
  define dp1 where "dp1 = dp\<lparr>dir_obj := (dir_obj dp)\<lparr>sclust := 0, n_frag := 0\<rparr>\<rparr>"
  have eq: "follow_path rd s fs dp path = (if IsTerminator (s q) then dir_sdi rd fs (dp1\<lparr>fn := (fn dp1)(NSFLAG := NS_NONAME)\<rparr>) 0
      else follow_loop rd s fs dp1 q)"
    by (simp add: follow_path_def q Let_def dp1_def)
  obtain r1 fs1 d1 where "dir_sdi rd fs (dp1\<lparr>fn := (fn dp1)(NSFLAG := NS_NONAME)\<rparr>) 0 = Some (r1, fs1, d1)" "same_vol fs fs1"
    using dir_sdi_total [OF assms(3)] by blast
  moreover obtain r2 fs2 d2 where "follow_loop rd s fs dp1 q = Some (r2, fs2, d2)" "same_geo fs fs2"
    using follow_loop_total [of s e q fs rd dp1] q(2) assms(1,3) by blast
  ultimately show ?thesis unfolding eq by (auto intro: same_geo_vol)
qed

subsection \<open>Properties\<close>

text \<open>
  C24. Following a path ends on every disk, whatever its directories and allocation table contain, when the path
  has an end: every segment moves the pointer forward but never past the end of the path.
\<close>

theorem paths_are_followed_to_an_end:
  assumes "s e < 0x20" and "path \<le> e" and "csize fs \<noteq> 0"
  shows "\<exists>out. follow_path rd s fs dp path = Some out"
  using follow_path_total [of s e path fs rd dp] assms by blast

definition example_path :: bytes where
  "example_path i = ([0x2F, 0x61, 0x2F, 0x42, 0x2E, 0x63, 0] :: u8 list) ! min i 6"

theorem paths_are_followed_to_an_end_witness:
  "\<exists>out. follow_path (Some example_cyclic_disk) example_path example_fs example_dir 0 = Some out"
  using paths_are_followed_to_an_end [of example_path 6 0 example_fs "Some example_cyclic_disk" example_dir]
  by (simp add: example_path_def example_fs_def)

text \<open>
  C25. For every path that has an end (a character below \<open>0x20\<close>), whatever else it contains, \<^verbatim>\<open>create_name\<close> returns and stores only
  inside its buffers, the 256 characters of the long name and the 12 bytes of the short one. On success the long name
  is terminated inside its buffer, the flags say that there is a name and that long names are to be compared (\<^verbatim>\<open>NS_NOLFN\<close> and
  \<^verbatim>\<open>NS_NONAME\<close> are off, as the look-up in a directory needs it), and the path pointer has moved to the next segment
  unless this one is the last; the only other result is an invalid name.
\<close>

theorem create_name_stays_in_its_buffers:
  assumes "s e < 0x20" and "path \<le> e"
  shows "\<exists>res fs' dp' path'. create_name fs dp s path = Some (res, fs', dp', path') \<and>
    (\<forall>k > FF_MAX_LFN. lfnbuf fs' k = lfnbuf fs k) \<and> (\<forall>k > 11. fn dp' k = fn dp k) \<and> res \<in> {FR_OK, FR_INVALID_NAME} \<and>
    (res = FR_OK \<longrightarrow> (\<exists>k \<le> FF_MAX_LFN. lfnbuf fs' k = 0) \<and> fn dp' NSFLAG AND NS_NOLFN = 0 \<and> fn dp' NSFLAG AND NS_NONAME = 0
       \<and> (fn dp' NSFLAG AND NS_LAST = 0 \<longrightarrow> path < path' \<and> path' \<le> e))"
proof -
  obtain res fs' dp' path' where "create_name fs dp s path = Some (res, fs', dp', path')" "name_ok fs dp path e res fs' dp' path'"
    using create_name_ok [of s e path fs dp] assms by blast
  then show ?thesis unfolding name_ok_def by blast
qed

theorem create_name_stays_in_its_buffers_witness:
  "\<exists>res fs' dp' path'. create_name example_fs example_dir example_path 1 = Some (res, fs', dp', path') \<and> res \<in> {FR_OK, FR_INVALID_NAME}"
  using create_name_stays_in_its_buffers [of example_path 6 1 example_fs example_dir] by (auto simp: example_path_def)

end
