(* ===== verification/Fat_File.thy ===== *)
theory Fat_File
  imports Fat_Volume
begin

text \<open>
  Reading of open files, \<^verbatim>\<open>f_read\<close>, \<^verbatim>\<open>f_lseek\<close> and \<^verbatim>\<open>f_close\<close> of \<^verbatim>\<open>ff.c\<close>. The loops over the data and over the cluster
  chain are \<open>partial_function\<close>s: \<open>None\<close> is a loop that does not end. \<open>fil_ok\<close> is the invariant of an open file over
  the chain of its clusters on the disk; under it the operations return, and a file behaves as the sequence
  of the bytes of its clusters.
\<close>

subsection \<open>Model\<close>

definition validate :: "FATFS \<Rightarrow> FFOBJID \<Rightarrow> FRESULT" where
  "validate fs obj =
     (if obj_fs obj \<and> fs_type fs \<noteq> 0 \<and> obj_id obj = fs_id fs \<and> disk_status (pdrv fs) AND STA_NOINIT = 0
      then FR_OK else FR_INVALID_OBJECT)"

definition ABORT :: "FIL \<Rightarrow> FRESULT \<Rightarrow> FIL" where
  "ABORT fp res = fp\<lparr>err := res\<rparr>"

text \<open>The first part of the body of the loop of \<^verbatim>\<open>f_read\<close>, on a sector boundary: follow the cluster chain at a
  cluster boundary and compute the sector (0 for an error, recorded in the file object).\<close>

definition f_read_cluster :: "disk option \<Rightarrow> FATFS \<Rightarrow> FIL \<Rightarrow> u32 \<Rightarrow> (FRESULT + FIL) \<times> FATFS" where
  "f_read_cluster rd fs fp csect =
     (if csect = 0 then
        case (if fptr fp = 0 then (sclust (fil_obj fp), fs) else get_fat rd fs (fil_obj fp) (clust fp)) of (clst, fs) \<Rightarrow>
          if clst < 2 then (Inl FR_INT_ERR, fs)
          else if clst = 0xFFFFFFFF then (Inl FR_DISK_ERR, fs)
          else (Inr (fp\<lparr>clust := clst\<rparr>), fs)
      else (Inr fp, fs))"

text \<open>The end of the body: copy from the sector buffer of the file.\<close>

definition f_read_partial :: "FIL \<Rightarrow> bytes \<Rightarrow> nat \<Rightarrow> u32 \<Rightarrow> u32 \<times> bytes" where
  "f_read_partial fp buff rbuff btr =
     (let rcnt = SS - ucast (fptr fp) mod SS;
          rcnt = (if btr < rcnt then btr else rcnt)
      in (rcnt, blit_bytes buff rbuff (\<lambda>i. buf fp (unat (fptr fp mod SS) + i)) (unat rcnt)))"

definition f_read_step :: "disk option \<Rightarrow> FATFS \<Rightarrow> FIL \<Rightarrow> bytes \<Rightarrow> nat \<Rightarrow> u32 \<Rightarrow> (FRESULT + u32) \<times> bytes \<times> FATFS \<times> FIL" where
  "f_read_step rd fs fp buff rbuff btr =
     (if fptr fp mod SS = 0 then
        let csect = ucast (fptr fp div SS AND (ucast (csize fs) - 1)) in
        case f_read_cluster rd fs fp csect of
          (Inl e, fs) \<Rightarrow> (Inl e, buff, fs, ABORT fp e)
        | (Inr fp, fs) \<Rightarrow>
            let sct = clst2sect fs (clust fp) in
            if sct = 0 then (Inl FR_INT_ERR, buff, fs, ABORT fp FR_INT_ERR)
            else
              let sct = sct + ucast csect; cc = btr div SS in
              if 0 < cc then
                let cc = (if ucast (csize fs) < csect + cc then ucast (csize fs) - csect else cc) in
                case disk_read rd (pdrv fs) buff rbuff sct cc of (dr, buff) \<Rightarrow>
                  if dr \<noteq> RES_OK then (Inl FR_DISK_ERR, buff, fs, ABORT fp FR_DISK_ERR)
                  else (Inr (SS * cc), buff, fs, fp)
              else
                case (if sect fp \<noteq> sct then disk_read rd (pdrv fs) (buf fp) 0 sct 1 else (RES_OK, buf fp)) of (dr, b) \<Rightarrow>
                  let fp = fp\<lparr>buf := b\<rparr> in
                  if dr \<noteq> RES_OK then (Inl FR_DISK_ERR, buff, fs, ABORT fp FR_DISK_ERR)
                  else
                    let fp = fp\<lparr>sect := sct\<rparr> in
                    case f_read_partial fp buff rbuff btr of (rcnt, buff) \<Rightarrow> (Inr rcnt, buff, fs, fp)
      else case f_read_partial fp buff rbuff btr of (rcnt, buff) \<Rightarrow> (Inr rcnt, buff, fs, fp))"

partial_function (option) f_read_loop ::
  "disk option \<Rightarrow> FATFS \<Rightarrow> FIL \<Rightarrow> bytes \<Rightarrow> nat \<Rightarrow> u32 \<Rightarrow> u32 \<Rightarrow> (FRESULT \<times> u32 \<times> bytes \<times> FATFS \<times> FIL) option" where
  "f_read_loop rd fs fp buff rbuff btr br =
     (if 0 < btr then
        case f_read_step rd fs fp buff rbuff btr of
          (Inl e, buff, fs, fp) \<Rightarrow> Some (e, br, buff, fs, fp)
        | (Inr rcnt, buff, fs, fp) \<Rightarrow>
            f_read_loop rd fs (fp\<lparr>fptr := fptr fp + ucast rcnt\<rparr>) buff (rbuff + unat rcnt) (btr - rcnt) (br + rcnt)
      else Some (FR_OK, br, buff, fs, fp))"

definition f_read :: "disk option \<Rightarrow> FATFS \<Rightarrow> FIL \<Rightarrow> bytes \<Rightarrow> u32 \<Rightarrow> (FRESULT \<times> u32 \<times> bytes \<times> FATFS \<times> FIL) option" where
  "f_read rd fs fp buff btr =
     (let br = 0; res = validate fs (fil_obj fp) in
      if res \<noteq> FR_OK then Some (res, br, buff, fs, fp)
      else if err fp \<noteq> FR_OK then Some (err fp, br, buff, fs, fp)
      else if flag fp AND FA_READ = 0 then Some (FR_DENIED, br, buff, fs, fp)
      else
        let remain = objsize (fil_obj fp) - fptr fp;
            btr = (if remain < ucast btr then ucast remain else btr)
        in f_read_loop rd fs fp buff 0 btr br)"

definition f_close :: "FATFS \<Rightarrow> FIL \<Rightarrow> FRESULT \<times> FIL" where
  "f_close fs fp =
     (let res = validate fs (fil_obj fp) in
      if res = FR_OK then (res, fp\<lparr>fil_obj := (fil_obj fp)\<lparr>obj_fs := False\<rparr>\<rparr>) else (res, fp))"

text \<open>\<^verbatim>\<open>f_lseek\<close>: the loop that follows the chain; the result is an error or the cluster and the offset left.\<close>

partial_function (option) f_lseek_loop ::
  "disk option \<Rightarrow> FATFS \<Rightarrow> FIL \<Rightarrow> u32 \<Rightarrow> u64 \<Rightarrow> u32 \<Rightarrow> ((FRESULT + u32 \<times> u64) \<times> FATFS \<times> FIL) option" where
  "f_lseek_loop rd fs fp clst ofs cbytes =
     (if ucast cbytes < ofs then
        let ofs = ofs - ucast cbytes; fp = fp\<lparr>fptr := fptr fp + ucast cbytes\<rparr> in
        (case get_fat rd fs (fil_obj fp) clst of (clst, fs) \<Rightarrow>
          if clst = 0xFFFFFFFF then Some (Inl FR_DISK_ERR, fs, fp)
          else if clst \<le> 1 \<or> n_fatent fs \<le> clst then Some (Inl FR_INT_ERR, fs, fp)
          else f_lseek_loop rd fs (fp\<lparr>clust := clst\<rparr>) clst ofs cbytes)
      else Some (Inr (clst, ofs), fs, fp))"

text \<open>The end of the function: load the sector buffer when the new position is inside a sector.\<close>

definition f_lseek_fill :: "disk option \<Rightarrow> FATFS \<Rightarrow> FIL \<Rightarrow> u64 \<Rightarrow> FRESULT \<times> FATFS \<times> FIL" where
  "f_lseek_fill rd fs fp nsect =
     (if fptr fp mod SS \<noteq> 0 \<and> nsect \<noteq> sect fp then
        case disk_read rd (pdrv fs) (buf fp) 0 nsect 1 of (dr, b) \<Rightarrow>
          let fp = fp\<lparr>buf := b\<rparr> in
          if dr \<noteq> RES_OK then (FR_DISK_ERR, fs, ABORT fp FR_DISK_ERR)
          else (FR_OK, fs, fp\<lparr>sect := nsect\<rparr>)
      else (FR_OK, fs, fp))"

text \<open>Where the search starts: at the cluster of the current position if the target is not before it, at the first
  cluster otherwise.\<close>

definition f_lseek_origin :: "FATFS \<Rightarrow> u64 \<Rightarrow> FIL \<Rightarrow> u64 \<Rightarrow> FIL \<times> u64 \<times> u32" where
  "f_lseek_origin fs ifptr fp ofs =
     (let cbytes = ucast (csize fs) * SS :: u32 in
      if 0 < ifptr \<and> (ifptr - 1) div ucast cbytes \<le> (ofs - 1) div ucast cbytes
      then let p = (ifptr - 1) AND NOT (ucast cbytes - 1) in (fp\<lparr>fptr := p\<rparr>, ofs - p, clust fp)
      else (fp\<lparr>clust := sclust (fil_obj fp)\<rparr>, ofs, sclust (fil_obj fp)))"

definition f_lseek :: "disk option \<Rightarrow> FATFS \<Rightarrow> FIL \<Rightarrow> u64 \<Rightarrow> (FRESULT \<times> FATFS \<times> FIL) option" where
  "f_lseek rd fs fp ofs =
     (let res = validate fs (fil_obj fp); res = (if res = FR_OK then err fp else res) in
      if res \<noteq> FR_OK then Some (res, fs, fp)
      else
        let ofs = (if fs_type fs \<noteq> FS_EXFAT \<and> 0x100000000 \<le> ofs then 0xFFFFFFFF else ofs);
            ofs = (if objsize (fil_obj fp) < ofs then objsize (fil_obj fp) else ofs);
            ifptr = fptr fp;
            fp = fp\<lparr>fptr := 0\<rparr> in
        if 0 < ofs then
          let cbytes = ucast (csize fs) * SS :: u32;
              (fp, ofs, clst) = f_lseek_origin fs ifptr fp ofs in
          if clst \<noteq> 0 then
            (case f_lseek_loop rd fs fp clst ofs cbytes of
               None \<Rightarrow> None
             | Some (Inl e, fs, fp) \<Rightarrow> Some (e, fs, ABORT fp e)
             | Some (Inr (clst, ofs), fs, fp) \<Rightarrow>
                 let fp = fp\<lparr>fptr := fptr fp + ofs\<rparr> in
                 if ofs mod SS \<noteq> 0 then
                   let nsect = clst2sect fs clst in
                   if nsect = 0 then Some (FR_INT_ERR, fs, ABORT fp FR_INT_ERR)
                   else Some (f_lseek_fill rd fs fp (nsect + ucast (ucast (ofs div SS) :: u32)))
                 else Some (f_lseek_fill rd fs fp 0))
          else Some (f_lseek_fill rd fs fp 0)
        else Some (f_lseek_fill rd fs fp 0))"

subsection \<open>Files as sequences of bytes\<close>

definition bcs :: "FATFS \<Rightarrow> nat" where
  "bcs fs = unat (csize fs) * SS"

definition file_byte :: "disk \<Rightarrow> FATFS \<Rightarrow> u32 list \<Rightarrow> nat \<Rightarrow> u8" where
  "file_byte d fs cs k = d (clst2sect fs (cs ! (k div bcs fs)) * SS + of_nat (k mod bcs fs))"

text \<open>The sector of a byte of the file.\<close>

definition file_sect :: "FATFS \<Rightarrow> u32 list \<Rightarrow> nat \<Rightarrow> u64" where
  "file_sect fs cs k = clst2sect fs (cs ! (k div bcs fs)) + of_nat (k mod bcs fs div SS)"

text \<open>A mounted volume: cluster size a power of two, clusters inside the address space of the disk.\<close>

definition vol_ok :: "disk \<Rightarrow> FATFS \<Rightarrow> bool" where
  "vol_ok d fs \<longleftrightarrow> win_ok d fs \<and> geom_ok fs \<and> fs_type fs \<noteq> 0 \<and> (\<exists>k < 16. csize fs = 2 ^ k)
     \<and> 0 < database fs \<and> unat (database fs) + unat (csize fs) * unat (n_fatent fs) < 2 ^ 64"

text \<open>The clusters of an object, linked by the allocation table, with room for its size.\<close>

definition chain :: "disk \<Rightarrow> FATFS \<Rightarrow> FFOBJID \<Rightarrow> u32 list \<Rightarrow> bool" where
  "chain d fs obj cs \<longleftrightarrow> (\<forall>c \<in> set cs. 2 \<le> c \<and> c < n_fatent fs)
     \<and> (\<forall>i. Suc i < length cs \<longrightarrow> fat_val d fs obj (cs ! i) = cs ! Suc i)
     \<and> unat (objsize obj) \<le> length cs * bcs fs \<and> (0 < objsize obj \<longrightarrow> sclust obj = cs ! 0)"

definition fil_ok :: "disk \<Rightarrow> FATFS \<Rightarrow> FIL \<Rightarrow> u32 list \<Rightarrow> bool" where
  "fil_ok d fs fp cs \<longleftrightarrow> obj_fs (fil_obj fp) \<and> obj_id (fil_obj fp) = fs_id fs \<and> err fp = FR_OK
     \<and> flag fp AND FA_READ \<noteq> 0 \<and> chain d fs (fil_obj fp) cs \<and> fptr fp \<le> objsize (fil_obj fp)
     \<and> (0 < fptr fp \<longrightarrow> clust fp = cs ! ((unat (fptr fp) - 1) div bcs fs))
     \<and> (unat (fptr fp) mod SS \<noteq> 0 \<longrightarrow> sect fp = file_sect fs cs (unat (fptr fp)))
     \<and> (sect fp \<noteq> 0 \<longrightarrow> (\<forall>i < SS. buf fp i = sector d (sect fp) i))"

subsection \<open>Addresses\<close>

lemma vol_ok_bcs:
  assumes "vol_ok d fs"
  obtains k where "k < 16" "unat (csize fs) = 2 ^ k" "bcs fs = 2 ^ k * SS"
proof -
  obtain k where k: "k < 16" "csize fs = 2 ^ k" using assms by (auto simp: vol_ok_def)
  then have "unat (csize fs) = 2 ^ k" by (simp add: unat_exp)
  then show thesis using that k(1) by (simp add: bcs_def)
qed

lemma bcs_pos: "vol_ok d fs \<Longrightarrow> 0 < bcs fs"
  by (elim vol_ok_bcs) simp

lemma unat_clst2sect:
  assumes v: "vol_ok d fs" and c: "2 \<le> c" "c < n_fatent fs" and q: "q \<le> unat (csize fs)"
  shows "unat (clst2sect fs c + of_nat q) = unat (database fs) + unat (csize fs) * (unat c - 2) + q"
proof -
  have n: "2 \<le> unat c" "unat c < unat (n_fatent fs)" using c by (simp_all add: word_le_nat_alt word_less_nat_alt)
  have u: "unat (c - 2) = unat c - 2" using c(1) by (simp add: unat_sub)
  have "c - 2 < n_fatent fs - 2" using n c by (simp add: word_less_nat_alt unat_sub word_le_nat_alt)
  then have e: "clst2sect fs c = database fs + of_nat (unat (csize fs)) * of_nat (unat c - 2)"
    by (simp add: clst2sect_def Let_def flip: u not_less)
  have "unat (csize fs) * (unat c - 2) + q \<le> unat (csize fs) * unat (n_fatent fs)"
  proof -
    have "unat (csize fs) * (unat c - 2) + q \<le> unat (csize fs) * (unat c - 2) + unat (csize fs)" using q by simp
    also have "\<dots> = unat (csize fs) * (unat c - 1)" using n(1) by (simp add: algebra_simps Suc_diff_Suc flip: mult_Suc_right)
    also have "\<dots> \<le> unat (csize fs) * unat (n_fatent fs)" by (rule mult_le_mono2) (use n in linarith)
    finally show ?thesis .
  qed
  then have lt: "unat (database fs) + unat (csize fs) * (unat c - 2) + q < 2 ^ 64"
    using v by (simp add: vol_ok_def)
  have "clst2sect fs c + of_nat q = of_nat (unat (database fs) + unat (csize fs) * (unat c - 2) + q)"
    unfolding e by simp
  then show ?thesis using lt by (simp only: unsigned_of_nat) (simp add: take_bit_nat_eq_self)
qed

lemma sect_not_zero:
  assumes "vol_ok d fs" "2 \<le> c" "c < n_fatent fs" "q \<le> unat (csize fs)"
  shows "clst2sect fs c + of_nat q \<noteq> 0" "clst2sect fs c \<noteq> 0"
proof -
  have d: "0 < unat (database fs)" using assms(1) by (simp add: vol_ok_def word_less_nat_alt)
  show "clst2sect fs c + of_nat q \<noteq> 0" using unat_clst2sect [OF assms] d by (metis add_is_0 less_numeral_extra(3) unsigned_0)
  show "clst2sect fs c \<noteq> 0" using unat_clst2sect [OF assms(1-3), of 0] d by auto
qed

lemma file_byte_offset:
  assumes "k mod bcs fs + i < bcs fs"
  shows "file_byte d fs cs (k + i) = d (clst2sect fs (cs ! (k div bcs fs)) * SS + of_nat (k mod bcs fs) + of_nat i)"
proof -
  note block_offset [OF assms]
  then show ?thesis by (simp add: file_byte_def add.assoc)
qed

lemma file_byte_sector:
  assumes "vol_ok d fs" "k mod SS + i < SS"
  shows "file_byte d fs cs (k + i) = sector d (file_sect fs cs k) (k mod SS + i)"
proof -
  obtain n where n: "bcs fs = 2 ^ n * SS" using vol_ok_bcs [OF assms(1)] by blast
  have m: "k mod bcs fs mod SS = k mod SS" by (simp add: n mod_mod_cancel)
  have e: "k mod bcs fs = k mod bcs fs div SS * SS + k mod SS" using div_mult_mod_eq [of "k mod bcs fs" SS] m by simp
  have "k mod bcs fs div SS < 2 ^ n" using bcs_pos [OF assms(1)] by (simp add: n less_mult_imp_div_less)
  then have "k mod bcs fs div SS * SS + SS \<le> bcs fs" unfolding n by (simp flip: mult_Suc)
  then have "k mod bcs fs + i < bcs fs" using e assms(2) by linarith
  then have "file_byte d fs cs (k + i)
      = d (clst2sect fs (cs ! (k div bcs fs)) * SS + of_nat (k mod bcs fs div SS * SS + k mod SS) + of_nat i)"
    using file_byte_offset e by metis
  then show ?thesis by (simp add: sector_def file_sect_def algebra_simps)
qed

lemma sector_in_cluster:
  assumes "vol_ok d fs"
  shows "unat (ucast (x div SS AND (ucast (csize fs) - 1)) :: u32) = unat (x :: u64) mod bcs fs div SS"
    and "unat x mod bcs fs div SS < unat (csize fs)"
proof -
  obtain k where k: "k < 16" "unat (csize fs) = 2 ^ k" "bcs fs = 2 ^ k * SS" using vol_ok_bcs [OF assms] .
  have "ucast (csize fs) = (2 ^ k :: u64)" using arg_cong [OF k(2), of "of_nat :: nat \<Rightarrow> u64"] by simp
  then have "x div SS AND (ucast (csize fs) - 1) = x div SS AND mask k" by (simp add: mask_eq_exp_minus_1)
  then have "unat (x div SS AND (ucast (csize fs) - 1)) = unat x div SS mod 2 ^ k"
    by (simp add: unat_and_mask_low unat_div)
  moreover have "unat x div SS mod 2 ^ k = unat x mod bcs fs div SS"
    using mod_mult2_eq [of "unat x" SS "2 ^ k"] by (simp add: k(3) mult.commute)
  moreover have "unat x div SS mod 2 ^ k < 2 ^ k" by simp
  moreover have "(2 ^ k :: nat) < 2 ^ 32" using power_strict_increasing [of k 32 "2::nat"] k(1) by simp
  ultimately show "unat (ucast (x div SS AND (ucast (csize fs) - 1)) :: u32) = unat x mod bcs fs div SS"
      "unat x mod bcs fs div SS < unat (csize fs)"
    by (auto simp: unsigned_ucast_eq take_bit_nat_eq_self k(2))
qed

lemma same_vol_views:
  assumes "same_vol fs fs'"
  shows "fat_val d fs' obj c = fat_val d fs obj c" "bcs fs' = bcs fs" "file_byte d fs' cs k = file_byte d fs cs k"
    "file_sect fs' cs k = file_sect fs cs k" "chain d fs' obj cs = chain d fs obj cs" "fil_ok d fs' fp cs = fil_ok d fs fp cs"
    "geom_ok fs' = geom_ok fs"
proof -
  note f = same_vol_fields [OF assms] same_vol_clst2sect [OF assms]
  have b: "fat_byte d fs' k = fat_byte d fs k" for k by (simp add: fat_byte_def f)
  have e: "fat_entry d fs' k = fat_entry d fs k" for k by (simp add: fat_entry_def fat_dword_def b f)
  show v: "fat_val d fs' obj c = fat_val d fs obj c" for obj c unfolding fat_val_def e f ..
  show 1: "bcs fs' = bcs fs" by (simp add: bcs_def f)
  show "file_byte d fs' cs k = file_byte d fs cs k" by (simp add: file_byte_def 1 f)
  show s: "file_sect fs' cs k = file_sect fs cs k" for k by (simp add: file_sect_def 1 f)
  show c: "chain d fs' obj cs = chain d fs obj cs" for obj by (simp add: chain_def v 1 f)
  show "fil_ok d fs' fp cs = fil_ok d fs fp cs" by (simp add: fil_ok_def c s 1 f)
  show "geom_ok fs' = geom_ok fs" by (simp add: geom_ok_def f)
qed

lemma vol_ok_same: "vol_ok d fs \<Longrightarrow> same_vol fs fs' \<Longrightarrow> win_ok d fs' \<Longrightarrow> vol_ok d fs'"
  by (simp add: vol_ok_def same_vol_fields same_vol_views)

subsection \<open>One iteration of the read loop\<close>

lemma chain_cluster:
  assumes "vol_ok d fs" "chain d fs obj cs" "k < unat (objsize obj)"
  shows "k div bcs fs < length cs" "2 \<le> cs ! (k div bcs fs)" "cs ! (k div bcs fs) < n_fatent fs"
proof -
  show l: "k div bcs fs < length cs"
    using assms bcs_pos [OF assms(1)] by (auto simp: chain_def less_mult_imp_div_less)
  then show "2 \<le> cs ! (k div bcs fs)" "cs ! (k div bcs fs) < n_fatent fs"
    using assms(2) nth_mem [OF l] by (auto simp: chain_def)
qed

lemma div_pred_block:
  fixes P B :: nat
  assumes "0 < B" "0 < P"
  shows "P mod B = 0 \<Longrightarrow> P div B = Suc ((P - 1) div B)" "P mod B \<noteq> 0 \<Longrightarrow> (P - 1) div B = P div B"
proof -
  have "P = Suc (P - 1)" using assms(2) by simp
  then have e: "P div B = (if Suc (P - 1) mod B = 0 then Suc ((P - 1) div B) else (P - 1) div B)"
    using div_Suc [of "P - 1" B] by metis
  then show "P mod B = 0 \<Longrightarrow> P div B = Suc ((P - 1) div B)" "P mod B \<noteq> 0 \<Longrightarrow> (P - 1) div B = P div B"
    using assms(2) by simp_all
qed

lemma f_read_cluster_ok:
  assumes v: "vol_ok d fs" and f: "fil_ok d fs fp cs" and r: "fptr fp < objsize (fil_obj fp)"
    and s: "unat (fptr fp) mod SS = 0" and c: "unat csect = unat (fptr fp) mod bcs fs div SS"
  obtains fs' where "f_read_cluster (Some d) fs fp csect = (Inr (fp\<lparr>clust := cs ! (unat (fptr fp) div bcs fs)\<rparr>), fs')"
    "same_vol fs fs'" "win_ok d fs'"
proof -
  let ?P = "unat (fptr fp)" and ?B = "bcs fs"
  have B: "0 < ?B" using bcs_pos [OF v] .
  obtain n where n: "?B = 2 ^ n * SS" using vol_ok_bcs [OF v] by blast
  have m0: "?P mod ?B mod SS = 0" using s by (simp add: n mod_mod_cancel)
  have ch: "chain d fs (fil_obj fp) cs" using f by (simp add: fil_ok_def)
  have lt: "?P < unat (objsize (fil_obj fp))" using r by (simp add: word_less_nat_alt)
  note C = chain_cluster [OF v ch lt]
  have C3: "\<not> cs ! (?P div ?B) < 2" "cs ! (?P div ?B) \<noteq> 0xFFFFFFFF"
    using C(2,3) unsigned_less [of "n_fatent fs", where ?'a = nat] by (auto simp: not_less word_less_nat_alt word_le_nat_alt)
  have w: "win_ok d fs" "geom_ok fs" using v by (simp_all add: vol_ok_def)
  consider (first) "csect = 0" "fptr fp = 0" | (boundary) "csect = 0" "0 < ?P" | (inside) "csect \<noteq> 0"
    by (cases "csect = 0"; cases "fptr fp = 0") (auto simp: unat_gt_0)
  then show thesis
  proof cases
    case first
    then have "sclust (fil_obj fp) = cs ! (?P div ?B)" using ch r by (simp add: chain_def)
    then show thesis using that [of fs] first C3 w by (simp add: f_read_cluster_def)
  next
    case boundary
    have "?P mod ?B = 0" using c boundary(1) m0 by (simp add: div_eq_0_iff)
    note e = div_pred_block(1) [OF B boundary(2) this]
    have "clust fp = cs ! ((?P - 1) div ?B)" using f boundary(2) by (simp add: fil_ok_def unat_gt_0 word_gt_0)
    then have "fat_val d fs (fil_obj fp) (clust fp) = cs ! (?P div ?B)" using ch C(1) by (simp add: chain_def e)
    moreover obtain fs' where "get_fat (Some d) fs (fil_obj fp) (clust fp) = (fat_val d fs (fil_obj fp) (clust fp), fs')"
      "same_vol fs fs'" "win_ok d fs'" using get_fat_ok [OF w] .
    moreover have "fptr fp \<noteq> 0" using boundary(2) by auto
    ultimately show thesis using that [of fs'] boundary(1) C3 by (simp add: f_read_cluster_def)
  next
    case inside
    then have "unat csect \<noteq> 0" by (simp add: unat_eq_zero)
    then have "?P mod ?B \<noteq> 0" unfolding c by (metis div_0)
    moreover from this have P: "0 < ?P" by (cases "?P = 0") simp_all
    ultimately have "(?P - 1) div ?B = ?P div ?B" using div_pred_block(2) [OF B] by blast
    moreover have "clust fp = cs ! ((?P - 1) div ?B)" using f P by (simp add: fil_ok_def unat_gt_0 word_gt_0)
    ultimately have "fp\<lparr>clust := cs ! (?P div ?B)\<rparr> = fp" by simp
    then show thesis using that [of fs] inside w by (simp add: f_read_cluster_def)
  qed
qed

lemma in_cluster:
  assumes "vol_ok d fs" "k mod SS + i < SS"
  shows "k mod bcs fs + i < bcs fs" "(k mod bcs fs + i) div SS = k mod bcs fs div SS"
proof -
  obtain n where n: "bcs fs = 2 ^ n * SS" using vol_ok_bcs [OF assms(1)] by blast
  have m: "k mod bcs fs mod SS = k mod SS" by (simp add: n mod_mod_cancel)
  show "(k mod bcs fs + i) div SS = k mod bcs fs div SS" using block_offset(1) [of "k mod bcs fs" SS i] assms(2) m by simp
  have "k mod bcs fs div SS < 2 ^ n" using bcs_pos [OF assms(1)] by (simp add: n less_mult_imp_div_less)
  then have "k mod bcs fs div SS * SS + SS \<le> bcs fs" unfolding n by (simp flip: mult_Suc)
  then show "k mod bcs fs + i < bcs fs" using div_mult_mod_eq [of "k mod bcs fs" SS] m assms(2) by linarith
qed

lemma file_sect_offset:
  assumes "vol_ok d fs" "k mod SS + i < SS"
  shows "file_sect fs cs (k + i) = file_sect fs cs k"
  using block_offset [OF in_cluster(1) [OF assms]] in_cluster(2) [OF assms] by (simp add: file_sect_def)

lemma unat_fptr_add:
  assumes "unat (fptr fp) + unat n \<le> unat (objsize (fil_obj fp))"
  shows "unat (fptr fp + ucast (n :: u32)) = unat (fptr fp) + unat n"
proof -
  have "unat (ucast n :: u64) = unat n"
    using unsigned_less [of n, where ?'a = nat] by (simp add: unsigned_ucast_eq take_bit_nat_eq_self)
  moreover have "unat (fptr fp) + unat n < 2 ^ 64"
    using assms unsigned_less [of "objsize (fil_obj fp)", where ?'a = nat] by (simp add: order_le_less_trans)
  ultimately show ?thesis using unat_add_no_wrap [of "fptr fp" "ucast n"] by simp
qed

text \<open>Advancing the file pointer inside a cluster whose number is known keeps the invariant.\<close>

lemma advance_ok:
  assumes f: "fil_ok d fs fp0 cs" and eq: "fil_obj fp = fil_obj fp0" "err fp = err fp0" "flag fp = flag fp0"
    and n: "0 < unat n" "unat (fptr fp) + unat n \<le> unat (objsize (fil_obj fp))"
    and c: "clust fp = cs ! (unat (fptr fp) div bcs fs)" "unat (fptr fp) mod bcs fs + unat n \<le> bcs fs"
    and s: "(unat (fptr fp) + unat n) mod SS \<noteq> 0 \<Longrightarrow> sect fp = file_sect fs cs (unat (fptr fp) + unat n)"
    and b: "sect fp \<noteq> 0 \<Longrightarrow> \<forall>i < SS. buf fp i = sector d (sect fp) i"
  shows "fil_ok d fs (fp\<lparr>fptr := fptr fp + ucast (n :: u32)\<rparr>) cs"
proof -
  note u = unat_fptr_add [OF n(2)]
  have "(unat (fptr fp) + unat n - 1) div bcs fs = unat (fptr fp) div bcs fs"
    using block_offset(1) [of "unat (fptr fp)" "bcs fs" "unat n - 1"] c(2) n(1) by (simp add: Nat.add_diff_assoc)
  then show ?thesis using f eq c(1) s b n(2) by (simp add: fil_ok_def u word_le_nat_alt)
qed

lemma unat_rcnt:
  fixes x :: u64 and btr :: u32
  shows "unat (if btr < SS - ucast x mod SS then btr else SS - ucast x mod SS) = min (unat btr) (SS - unat x mod SS)"
proof -
  have "unat (ucast x mod SS :: u32) = unat x mod SS"
    by (simp add: unat_mod unsigned_ucast_eq take_bit_eq_mod mod_mod_cancel)
  moreover from this have "(ucast x mod SS :: u32) \<le> SS" by (simp add: word_le_nat_alt)
  ultimately have "unat (SS - ucast x mod SS :: u32) = SS - unat x mod SS" by (simp add: unat_sub_no_wrap)
  then show ?thesis by (auto simp: word_less_nat_alt min_def)
qed

lemma f_read_partial_ok:
  assumes v: "vol_ok d fs" and f: "fil_ok d fs fp0 cs" and eq: "fil_obj fp = fil_obj fp0" "err fp = err fp0" "flag fp = flag fp0"
    and r: "0 < btr" "unat (fptr fp) + unat btr \<le> unat (objsize (fil_obj fp))"
    and c: "clust fp = cs ! (unat (fptr fp) div bcs fs)" and s: "sect fp = file_sect fs cs (unat (fptr fp))"
    and b: "\<forall>i < SS. buf fp i = sector d (sect fp) i"
  obtains n where "f_read_partial fp buff rbuff btr = (n, blit_bytes buff rbuff (\<lambda>i. file_byte d fs cs (unat (fptr fp) + i)) (unat n))"
    "0 < unat n" "n \<le> btr" "fil_ok d fs (fp\<lparr>fptr := fptr fp + ucast n\<rparr>) cs"
proof -
  let ?P = "unat (fptr fp)"
  define n where "n = (if btr < SS - ucast (fptr fp) mod SS then btr else SS - ucast (fptr fp) mod SS)"
  have n: "unat n = min (unat btr) (SS - ?P mod SS)" unfolding n_def by (rule unat_rcnt)
  have pos: "0 < unat n" using r(1) by (simp add: n unat_gt_0 word_gt_0)
  have le: "n \<le> btr" by (simp add: word_le_nat_alt n)
  have room: "?P mod SS + unat n \<le> SS" by (simp add: n)
  have e: "buf fp (unat (fptr fp mod SS) + i) = file_byte d fs cs (?P + i)" if "i < unat n" for i
    using file_byte_sector [OF v, of ?P i cs] b s that room by (simp add: unat_mod)
  have "f_read_partial fp buff rbuff btr = (n, blit_bytes buff rbuff (\<lambda>i. file_byte d fs cs (?P + i)) (unat n))"
    unfolding f_read_partial_def Let_def n_def [symmetric] by (simp add: blit_cong [OF e])
  moreover have "fil_ok d fs (fp\<lparr>fptr := fptr fp + ucast n\<rparr>) cs"
  proof (rule advance_ok [OF f eq pos _ c])
    show "?P + unat n \<le> unat (objsize (fil_obj fp))" using r(2) le by (simp add: word_le_nat_alt)
    show "?P mod bcs fs + unat n \<le> bcs fs"
    proof -
      have "?P mod SS + (unat n - 1) < SS" using room pos by linarith
      from in_cluster(1) [OF v this] pos show ?thesis by linarith
    qed
    show "sect fp = file_sect fs cs (?P + unat n)" if "(?P + unat n) mod SS \<noteq> 0"
    proof -
      have "?P mod SS + unat n \<noteq> SS" using that by (metis mod_add_left_eq mod_self)
      then show ?thesis using file_sect_offset [OF v, of ?P "unat n"] room s by simp
    qed
  qed (use b in simp)
  ultimately show thesis using that pos le by blast
qed

text \<open>The direct transfer of whole sectors.\<close>

lemma whole_sectors:
  assumes v: "vol_ok d fs" and s: "k mod SS = 0" and q: "k mod bcs fs div SS + cc \<le> unat (csize fs)" and i: "i < cc * SS"
  shows "d ((clst2sect fs (cs ! (k div bcs fs)) + of_nat (k mod bcs fs div SS)) * SS + of_nat i) = file_byte d fs cs (k + i)"
    and "k mod bcs fs + cc * SS \<le> bcs fs"
proof -
  obtain n where n: "bcs fs = 2 ^ n * SS" using vol_ok_bcs [OF v] by blast
  have "k mod bcs fs mod SS = 0" using s by (simp add: n mod_mod_cancel)
  then have e: "k mod bcs fs = k mod bcs fs div SS * SS" by (metis add_0_right div_mult_mod_eq)
  have "(k mod bcs fs div SS + cc) * SS \<le> bcs fs" using q unfolding bcs_def by (rule mult_le_mono1)
  then show r: "k mod bcs fs + cc * SS \<le> bcs fs" using e by (simp add: add_mult_distrib)
  then have "k mod bcs fs + i < bcs fs" using i by linarith
  from file_byte_offset [OF this, of d cs]
  show "d ((clst2sect fs (cs ! (k div bcs fs)) + of_nat (k mod bcs fs div SS)) * SS + of_nat i) = file_byte d fs cs (k + i)"
    by (subst (asm) e) (simp add: algebra_simps)
qed

lemma unat_clip_cc:
  fixes csect cc :: u32 and cz :: u16
  assumes "unat csect < unat cz" "unat cc * SS < 2 ^ 32"
  shows "unat (if ucast cz < csect + cc then ucast cz - csect else cc) = min (unat cc) (unat cz - unat csect)"
proof -
  have z: "unat (ucast cz :: u32) = unat cz" "unat cz < 2 ^ 16"
    using unsigned_less [of cz, where ?'a = nat] by (simp_all add: unsigned_ucast_eq take_bit_nat_eq_self)
  have a: "unat (csect + cc) = unat csect + unat cc" using assms z by (simp add: unat_add_no_wrap)
  have "csect \<le> ucast cz" using assms(1) z by (simp add: word_le_nat_alt)
  then have "unat (ucast cz - csect) = unat cz - unat csect" by (simp add: unat_sub_no_wrap z)
  then show ?thesis by (auto simp: word_less_nat_alt a z min_def)
qed

lemma f_read_direct_ok:
  assumes v: "vol_ok d fs" and f: "fil_ok d fs fp0 cs" and eq: "fil_obj fp = fil_obj fp0" "err fp = err fp0" "flag fp = flag fp0"
    and r: "0 < btr div SS" "unat (fptr fp) + unat btr \<le> unat (objsize (fil_obj fp))"
    and s: "unat (fptr fp) mod SS = 0" and c: "clust fp = cs ! (unat (fptr fp) div bcs fs)"
    and b: "sect fp \<noteq> 0 \<Longrightarrow> \<forall>i < SS. buf fp i = sector d (sect fp) i"
    and q: "unat csect = unat (fptr fp) mod bcs fs div SS" "unat csect < unat (csize fs)"
    and cc: "cc = (if ucast (csize fs) < csect + btr div SS then ucast (csize fs) - csect else btr div SS)"
  shows "disk_read (Some d) (pdrv fs) buff rbuff (clst2sect fs (clust fp) + ucast csect) cc
      = (RES_OK, blit_bytes buff rbuff (\<lambda>i. file_byte d fs cs (unat (fptr fp) + i)) (unat (SS * cc)))"
    and "0 < unat (SS * cc)" "SS * cc \<le> btr" "fil_ok d fs (fp\<lparr>fptr := fptr fp + ucast (SS * cc)\<rparr>) cs"
proof -
  let ?P = "unat (fptr fp)"
  have bt: "unat (btr div SS) * SS \<le> unat btr" "0 < unat (btr div SS)"
    using r(1) by (simp_all add: unat_div word_less_nat_alt)
  have b32: "unat btr < 2 ^ 32" using unsigned_less [of btr, where ?'a = nat] by simp
  have u: "unat cc = min (unat (btr div SS)) (unat (csize fs) - unat csect)"
    unfolding cc by (rule unat_clip_cc) (use q bt b32 in auto)
  have pos: "0 < unat cc" using u bt q by simp
  have le: "unat cc * SS \<le> unat btr" using u bt(1) by linarith
  have m: "unat (SS * cc) = unat cc * SS" using le b32 by (simp add: unat_mult_no_wrap)
  show 0: "0 < unat (SS * cc)" "SS * cc \<le> btr" using m pos le by (simp_all add: word_le_nat_alt)
  have room: "?P mod bcs fs div SS + unat cc \<le> unat (csize fs)" using u q by simp
  have pd: "pdrv fs = 0" using v by (simp add: vol_ok_def win_ok_def)
  have e: "d ((clst2sect fs (clust fp) + ucast csect) * SS + of_nat i) = file_byte d fs cs (?P + i)" if "i < unat cc * SS" for i
    using whole_sectors(1) [OF v s room that, of cs] arg_cong [OF q(1), of "of_nat :: nat \<Rightarrow> u64"] by (simp add: c)
  show "disk_read (Some d) (pdrv fs) buff rbuff (clst2sect fs (clust fp) + ucast csect) cc
      = (RES_OK, blit_bytes buff rbuff (\<lambda>i. file_byte d fs cs (?P + i)) (unat (SS * cc)))"
    using pd by (simp add: disk_read_def m) (rule blit_cong, use e in \<open>simp add: distrib_right\<close>)
  show "fil_ok d fs (fp\<lparr>fptr := fptr fp + ucast (SS * cc)\<rparr>) cs"
  proof (rule advance_ok [OF f eq 0(1) _ c])
    show "?P + unat (SS * cc) \<le> unat (objsize (fil_obj fp))" using r(2) le m by linarith
    show "?P mod bcs fs + unat (SS * cc) \<le> bcs fs"
      using whole_sectors(2) [OF v s room, of 0] pos m by simp
    show "(?P + unat (SS * cc)) mod SS \<noteq> 0 \<Longrightarrow> sect fp = file_sect fs cs (?P + unat (SS * cc))"
      using s by (simp add: m mod_add_left_eq)
  qed (use b in blast)
qed

lemma f_read_step_ok:
  assumes v: "vol_ok d fs" and f: "fil_ok d fs fp cs" and r: "0 < btr" "unat (fptr fp) + unat btr \<le> unat (objsize (fil_obj fp))"
  obtains n fs' fp' where
    "f_read_step (Some d) fs fp buff rbuff btr =
       (Inr n, blit_bytes buff rbuff (\<lambda>i. file_byte d fs cs (unat (fptr fp) + i)) (unat n), fs', fp')"
    "0 < unat n" "n \<le> btr" "same_vol fs fs'" "win_ok d fs'" "fptr fp' = fptr fp" "fil_obj fp' = fil_obj fp"
    "fil_ok d fs (fp'\<lparr>fptr := fptr fp' + ucast n\<rparr>) cs"
proof -
  let ?P = "unat (fptr fp)" and ?B = "bcs fs"
  have s: "fptr fp mod SS = 0 \<longleftrightarrow> ?P mod SS = 0" using unat_mod [of "fptr fp" SS] unat_eq_zero [of "fptr fp mod SS"] by simp
  have lt: "?P < unat (objsize (fil_obj fp))" using r by (simp add: word_less_nat_alt)
  have ch: "chain d fs (fil_obj fp) cs" using f by (simp add: fil_ok_def)
  note C = chain_cluster [OF v ch lt]
  define csect :: u32 where "csect = ucast (fptr fp div SS AND (ucast (csize fs) - 1))"
  note q = sector_in_cluster [OF v, of "fptr fp", folded csect_def]
  have q2: "unat csect < unat (csize fs)" using q by simp
  have nz: "clst2sect fs (cs ! (?P div ?B)) \<noteq> 0" "file_sect fs cs ?P \<noteq> 0"
    using sect_not_zero [OF v C(2,3), of "?P mod ?B div SS"] q by (simp_all add: file_sect_def)
  have buf: "sect fp \<noteq> 0 \<Longrightarrow> \<forall>i < SS. buf fp i = sector d (sect fp) i" using f by (simp add: fil_ok_def)
  show thesis
  proof (cases "?P mod SS = 0")
    case False
    obtain m where m: "?B = 2 ^ m * SS" using vol_ok_bcs [OF v] by blast
    have "?P mod ?B \<noteq> 0" using False by (metis m mod_0 mod_mod_cancel dvd_triv_right)
    moreover have P: "0 < ?P" using False by (cases "?P = 0") simp_all
    ultimately have "(?P - 1) div ?B = ?P div ?B" by (rule div_pred_block(2) [OF bcs_pos [OF v], rotated])
    then have c: "clust fp = cs ! (?P div ?B)" using f P by (simp add: fil_ok_def unat_gt_0 word_gt_0)
    have st: "sect fp = file_sect fs cs ?P" using f False by (simp add: fil_ok_def)
    obtain n where n: "f_read_partial fp buff rbuff btr = (n, blit_bytes buff rbuff (\<lambda>i. file_byte d fs cs (?P + i)) (unat n))"
      "0 < unat n" "n \<le> btr" "fil_ok d fs (fp\<lparr>fptr := fptr fp + ucast n\<rparr>) cs"
      using f_read_partial_ok [OF v f refl refl refl r c st buf] nz st by metis
    have "f_read_step (Some d) fs fp buff rbuff btr = (Inr n, blit_bytes buff rbuff (\<lambda>i. file_byte d fs cs (?P + i)) (unat n), fs, fp)"
      using False s n(1) by (simp add: f_read_step_def)
    then show thesis using that n(2-4) v by (auto simp: vol_ok_def)
  next
    case True
    define fp1 where "fp1 = fp\<lparr>clust := cs ! (?P div ?B)\<rparr>"
    have o: "fptr fp < objsize (fil_obj fp)" using lt by (simp add: word_less_nat_alt)
    obtain fs1 where 1: "f_read_cluster (Some d) fs fp csect = (Inr fp1, fs1)" "same_vol fs fs1" "win_ok d fs1"
      unfolding fp1_def using f_read_cluster_ok [OF v f o True q(1)] by blast
    have e1: "fil_obj fp1 = fil_obj fp" "err fp1 = err fp" "flag fp1 = flag fp" "fptr fp1 = fptr fp" "sect fp1 = sect fp" "buf fp1 = buf fp"
      "clust fp1 = cs ! (?P div ?B)" by (simp_all add: fp1_def)
    note f1 = same_vol_fields [OF 1(2)] same_vol_clst2sect [OF 1(2)]
    show thesis
    proof (cases "0 < btr div SS")
      case True
      define cc where "cc = (if ucast (csize fs) < csect + btr div SS then ucast (csize fs) - csect else btr div SS)"
      note D = f_read_direct_ok [OF v f e1(1-3) True _ _ _ _ _ _ cc_def, unfolded e1, OF r(2) \<open>?P mod SS = 0\<close> refl buf q(1) q2]
      have "f_read_step (Some d) fs fp buff rbuff btr = (Inr (SS * cc), blit_bytes buff rbuff (\<lambda>i. file_byte d fs cs (?P + i)) (unat (SS * cc)), fs1, fp1)"
        using s \<open>?P mod SS = 0\<close> True nz D(1) [of buff rbuff]
        by (simp add: f_read_step_def 1(1) e1(7) f1 Let_def flip: csect_def cc_def cong: if_cong)
      then show thesis using that D(2,3) 1(2,3) e1 D(4) [folded e1(4)] by blast
    next
      case False
      define fp2 where "fp2 = fp1\<lparr>buf := (if sect fp \<noteq> file_sect fs cs ?P then blit_bytes (buf fp) 0 (\<lambda>i. d (file_sect fs cs ?P * SS + of_nat i)) SS else buf fp), sect := file_sect fs cs ?P\<rparr>"
      have e2: "fil_obj fp2 = fil_obj fp" "err fp2 = err fp" "flag fp2 = flag fp" "fptr fp2 = fptr fp" "sect fp2 = file_sect fs cs ?P"
        "clust fp2 = cs ! (?P div ?B)" by (simp_all add: fp2_def e1)
      have b2: "\<forall>i < SS. buf fp2 i = sector d (sect fp2) i"
        using buf nz by (auto simp: fp2_def sector_def blit_bytes_def)
      obtain n where n: "f_read_partial fp2 buff rbuff btr = (n, blit_bytes buff rbuff (\<lambda>i. file_byte d fs cs (?P + i)) (unat n))"
        "0 < unat n" "n \<le> btr" "fil_ok d fs (fp2\<lparr>fptr := fptr fp + ucast n\<rparr>) cs"
        using f_read_partial_ok [OF v f e2(1-3) r(1), unfolded e2, OF r(2) refl refl b2 [unfolded e2]] by blast
      have fsct: "clst2sect fs (cs ! (?P div ?B)) + ucast csect = file_sect fs cs ?P"
        using arg_cong [OF q(1), of "of_nat :: nat \<Rightarrow> u64"] by (simp add: file_sect_def)
      have pd: "pdrv fs = 0" using v by (simp add: vol_ok_def win_ok_def)
      have "f_read_step (Some d) fs fp buff rbuff btr = (Inr n, blit_bytes buff rbuff (\<lambda>i. file_byte d fs cs (?P + i)) (unat n), fs1, fp2)"
        using s \<open>?P mod SS = 0\<close> False nz n(1)
        by (cases "sect fp = file_sect fs cs ?P") (simp_all add: f_read_step_def 1(1) e1 f1 fsct disk_read_def pd fp2_def Let_def flip: csect_def)
      then show thesis using that n(2-4) 1(2,3) e2 by metis
    qed
  qed
qed

subsection \<open>The whole read\<close>

lemma f_read_loop_ok:
  assumes "vol_ok d fs" "fil_ok d fs fp cs" "unat (fptr fp) + unat btr \<le> unat (objsize (fil_obj fp))"
  shows "\<exists>fs' fp'. f_read_loop (Some d) fs fp buff rbuff btr br =
        Some (FR_OK, br + btr, blit_bytes buff rbuff (\<lambda>i. file_byte d fs cs (unat (fptr fp) + i)) (unat btr), fs', fp')
      \<and> same_vol fs fs' \<and> win_ok d fs' \<and> fil_ok d fs' fp' cs \<and> fptr fp' = fptr fp + ucast btr \<and> fil_obj fp' = fil_obj fp"
  using assms
proof (induction "unat btr" arbitrary: fs fp buff rbuff btr br rule: less_induct)
  case less
  note v = less.prems(1) and f = less.prems(2) and r = less.prems(3)
  show ?case
  proof (cases "0 < btr")
    case False
    then have "btr = 0" by (simp add: word_gt_0)
    then show ?thesis using v f by (subst f_read_loop.simps) (auto simp: vol_ok_def blit_bytes_def fun_eq_iff)
  next
    case True
    obtain n fs1 fp1 where 1: "f_read_step (Some d) fs fp buff rbuff btr =
        (Inr n, blit_bytes buff rbuff (\<lambda>i. file_byte d fs cs (unat (fptr fp) + i)) (unat n), fs1, fp1)"
      "0 < unat n" "n \<le> btr" "same_vol fs fs1" "win_ok d fs1" "fptr fp1 = fptr fp" "fil_obj fp1 = fil_obj fp"
      "fil_ok d fs (fp1\<lparr>fptr := fptr fp1 + ucast n\<rparr>) cs"
      using f_read_step_ok [OF v f True r] by blast
    define fp2 where "fp2 = fp1\<lparr>fptr := fptr fp1 + ucast n\<rparr>"
    have ub: "unat (btr - n) = unat btr - unat n" "unat n \<le> unat btr"
      using 1(3) by (simp_all add: unat_sub_no_wrap word_le_nat_alt)
    have up: "unat (fptr fp2) = unat (fptr fp) + unat n"
      using unat_fptr_add [of fp n] r ub(2) by (simp add: fp2_def 1(6))
    have v1: "vol_ok d fs1" using vol_ok_same [OF v 1(4,5)] .
    have f2: "fil_ok d fs1 fp2 cs" using 1(8) same_vol_views(6) [OF 1(4)] by (simp add: fp2_def)
    have "unat (fptr fp2) + unat (btr - n) \<le> unat (objsize (fil_obj fp2))"
      using r up ub by (simp add: fp2_def 1(7))
    from less.hyps [OF _ v1 f2 this, of "blit_bytes buff rbuff (\<lambda>i. file_byte d fs cs (unat (fptr fp) + i)) (unat n)" "rbuff + unat n" "br + n"]
    obtain fs' fp' where L: "f_read_loop (Some d) fs1 fp2 (blit_bytes buff rbuff (\<lambda>i. file_byte d fs cs (unat (fptr fp) + i)) (unat n)) (rbuff + unat n) (btr - n) (br + n) =
        Some (FR_OK, br + btr, blit_bytes (blit_bytes buff rbuff (\<lambda>i. file_byte d fs cs (unat (fptr fp) + i)) (unat n)) (rbuff + unat n)
          (\<lambda>i. file_byte d fs1 cs (unat (fptr fp2) + i)) (unat (btr - n)), fs', fp')"
      and R: "same_vol fs1 fs'" "win_ok d fs'" "fil_ok d fs' fp' cs" "fptr fp' = fptr fp2 + ucast (btr - n)" "fil_obj fp' = fil_obj fp2"
      using 1(2,3) ub by auto
    have B: "blit_bytes (blit_bytes buff rbuff (\<lambda>i. file_byte d fs cs (unat (fptr fp) + i)) (unat n)) (rbuff + unat n)
          (\<lambda>i. file_byte d fs1 cs (unat (fptr fp2) + i)) (unat (btr - n))
        = blit_bytes buff rbuff (\<lambda>i. file_byte d fs cs (unat (fptr fp) + i)) (unat btr)"
      using blit_blit [of buff rbuff "\<lambda>i. file_byte d fs cs (unat (fptr fp) + i)" "unat n" "unat (btr - n)"] ub
      by (simp add: same_vol_views(3) [OF 1(4)] up add.assoc)
    have "f_read_loop (Some d) fs fp buff rbuff btr br =
        Some (FR_OK, br + btr, blit_bytes buff rbuff (\<lambda>i. file_byte d fs cs (unat (fptr fp) + i)) (unat btr), fs', fp')"
      using True L by (subst f_read_loop.simps) (simp add: 1(1) B flip: fp2_def)
    moreover have "fptr fp' = fptr fp + ucast btr"
    proof -
      have "unat (fptr fp') = unat (fptr fp) + unat btr" 
        using unat_fptr_add [of fp2 "btr - n"] R(4) up ub r by (simp add: fp2_def 1(7))
      moreover have "unat (fptr fp + ucast btr) = unat (fptr fp) + unat btr" by (rule unat_fptr_add [OF r])
      ultimately show ?thesis by (metis of_nat_unat ucast_id)
    qed
    moreover have "same_vol fs fs'" using same_vol_trans [OF 1(4) R(1)] .
    moreover have "fil_obj fp' = fil_obj fp" using R(5) 1(7) by (simp add: fp2_def)
    ultimately show ?thesis using R(2,3) by blast
  qed
qed

lemma f_read_ok:
  assumes v: "vol_ok d fs" and f: "fil_ok d fs fp cs"
    and n: "n = min (unat btr) (unat (objsize (fil_obj fp)) - unat (fptr fp))"
  shows "\<exists>fs' fp'. f_read (Some d) fs fp buff btr =
        Some (FR_OK, of_nat n, blit_bytes buff 0 (\<lambda>i. file_byte d fs cs (unat (fptr fp) + i)) n, fs', fp')
      \<and> vol_ok d fs' \<and> same_vol fs fs' \<and> fil_ok d fs' fp' cs \<and> unat (fptr fp') = unat (fptr fp) + n \<and> fil_obj fp' = fil_obj fp"
proof -
  define remain where "remain = objsize (fil_obj fp) - fptr fp"
  define b where "b = (if remain < ucast btr then ucast remain else btr)"
  have o: "fptr fp \<le> objsize (fil_obj fp)" using f by (simp add: fil_ok_def)
  then have ur: "unat remain = unat (objsize (fil_obj fp)) - unat (fptr fp)" by (simp add: remain_def unat_sub_no_wrap)
  have ut: "unat (ucast btr :: u64) = unat btr" "unat btr < 2 ^ 32"
    using unsigned_less [of btr, where ?'a = nat] by (simp_all add: unsigned_ucast_eq take_bit_nat_eq_self)
  have "unat (ucast remain :: u32) = unat remain" if "unat remain < unat btr"
    using that ut(2) by (simp add: unsigned_ucast_eq take_bit_nat_eq_self)
  then have ub: "unat b = n" by (auto simp: b_def n ur [symmetric] word_less_nat_alt ut)
  have r: "unat (fptr fp) + unat b \<le> unat (objsize (fil_obj fp))" using o ub n by (simp add: word_le_nat_alt)
  have ok: "validate fs (fil_obj fp) = FR_OK" "err fp = FR_OK" "flag fp AND FA_READ \<noteq> 0"
    using f v by (simp_all add: fil_ok_def vol_ok_def win_ok_def validate_def disk_status_def)
  from f_read_loop_ok [OF v f r, of buff 0 0] obtain fs' fp' where L: "f_read_loop (Some d) fs fp buff 0 b 0 =
        Some (FR_OK, b, blit_bytes buff 0 (\<lambda>i. file_byte d fs cs (unat (fptr fp) + i)) n, fs', fp')"
      "same_vol fs fs'" "win_ok d fs'" "fil_ok d fs' fp' cs" "fptr fp' = fptr fp + ucast b" "fil_obj fp' = fil_obj fp"
    using ub by auto
  have "f_read (Some d) fs fp buff btr = f_read_loop (Some d) fs fp buff 0 b 0"
    using ok by (simp add: f_read_def Let_def b_def remain_def)
  moreover have "b = of_nat n" using ub by auto
  moreover have "unat (fptr fp') = unat (fptr fp) + n" using unat_fptr_add [OF r] L(5) ub by simp
  ultimately show ?thesis using L vol_ok_same [OF v L(2,3)] by auto
qed

subsection \<open>Seeking\<close>

lemma unat_cluster_bytes:
  assumes "vol_ok d fs"
  shows "unat (ucast (csize fs) * SS :: u32) = bcs fs" "unat (ucast (ucast (csize fs) * SS :: u32) :: u64) = bcs fs" "bcs fs \<le> 2 ^ 24"
proof -
  obtain k where k: "k < 16" "unat (csize fs) = 2 ^ k" "bcs fs = 2 ^ k * SS" using vol_ok_bcs [OF assms] .
  have "(2 ^ k :: nat) \<le> 2 ^ 15" using k(1) power_increasing [of k 15 "2::nat"] by simp
  then show le: "bcs fs \<le> 2 ^ 24" by (simp add: k(3))
  have "unat (ucast (csize fs) :: u32) = 2 ^ k"
    using \<open>2 ^ k \<le> 2 ^ 15\<close> k(1) by (simp add: unsigned_ucast_eq take_bit_nat_eq_self k(2))
  then show u: "unat (ucast (csize fs) * SS :: u32) = bcs fs" using le by (simp add: unat_mult_no_wrap k(3))
  show "unat (ucast (ucast (csize fs) * SS :: u32) :: u64) = bcs fs"
    unfolding unsigned_ucast_eq u using le by (simp add: take_bit_nat_eq_self)
qed

text \<open>Position \<open>P\<close> is the start of a cluster of the chain and \<open>T\<close> the offset aimed at.\<close>

lemma f_lseek_loop_ok:
  assumes "vol_ok d fs" "chain d fs (fil_obj fp) cs" "clst = cs ! (unat (fptr fp) div bcs fs)" "clust fp = clst"
    "unat (fptr fp) mod bcs fs = 0" "0 < ofs" "unat (fptr fp) + unat ofs \<le> unat (objsize (fil_obj fp))"
  shows "\<exists>fs' p clst' ofs'. f_lseek_loop (Some d) fs fp clst ofs (ucast (csize fs) * SS) =
        Some (Inr (clst', ofs'), fs', fp\<lparr>fptr := p, clust := clst'\<rparr>) \<and> same_vol fs fs' \<and> win_ok d fs'
      \<and> unat p + unat ofs' = unat (fptr fp) + unat ofs \<and> unat p mod bcs fs = 0 \<and> 0 < unat ofs' \<and> unat ofs' \<le> bcs fs
      \<and> clst' = cs ! (unat p div bcs fs)"
  using assms
proof (induction "unat ofs" arbitrary: fs fp clst ofs rule: less_induct)
  case less
  note v = less.prems(1) and ch = less.prems(2) and r = less.prems(7)
  note u = unat_cluster_bytes [OF v]
  show ?case
  proof (cases "bcs fs < unat ofs")
    case False
    then have "f_lseek_loop (Some d) fs fp clst ofs (ucast (csize fs) * SS) = Some (Inr (clst, ofs), fs, fp)"
      by (subst f_lseek_loop.simps) (simp add: word_less_nat_alt u(2))
    moreover have "0 < unat ofs" using less.prems(6) by (simp add: unat_gt_0 word_gt_0)
    ultimately show ?thesis
      using False v less.prems(3-5) by (intro exI [of _ fs] exI [of _ "fptr fp"] exI [of _ clst] exI [of _ ofs]) (auto simp: vol_ok_def)
  next
    case True
    define cb where "cb = (ucast (ucast (csize fs) * SS :: u32) :: u64)"
    have cb: "unat cb = bcs fs" unfolding cb_def by (rule u(2))
    have o: "unat (ofs - cb) = unat ofs - bcs fs" using True by (simp add: unat_sub_no_wrap word_le_nat_alt cb)
    have p: "unat (fptr fp + cb) = unat (fptr fp) + bcs fs"
      using unat_add_no_wrap [of "fptr fp" cb] r True cb unsigned_less [of "objsize (fil_obj fp)", where ?'a = nat] by simp
    have d1: "(unat (fptr fp) + bcs fs) div bcs fs = Suc (unat (fptr fp) div bcs fs)"
      using div_add_self2 [of "bcs fs" "unat (fptr fp)"] bcs_pos [OF v] by simp
    have "unat (fptr fp) + bcs fs < unat (objsize (fil_obj fp))" using r True by linarith
    note C = chain_cluster [OF v ch this, unfolded d1]
    have w: "win_ok d fs" "geom_ok fs" using v by (simp_all add: vol_ok_def)
    obtain fs1 where 1: "get_fat (Some d) fs (fil_obj fp) clst = (fat_val d fs (fil_obj fp) clst, fs1)" "same_vol fs fs1" "win_ok d fs1"
      using get_fat_ok [OF w] .
    define c1 where "c1 = cs ! Suc (unat (fptr fp) div bcs fs)"
    have c1: "fat_val d fs (fil_obj fp) clst = c1" using ch C(1) less.prems(3) by (simp add: chain_def c1_def)
    have ok: "c1 \<noteq> 0xFFFFFFFF" "\<not> c1 \<le> 1" "\<not> n_fatent fs \<le> c1"
      using C(2,3) unsigned_less [of "n_fatent fs", where ?'a = nat]
      by (auto simp: word_less_nat_alt word_le_nat_alt simp flip: c1_def)
    define fp1 where "fp1 = fp\<lparr>fptr := fptr fp + cb, clust := c1\<rparr>"
    have step: "f_lseek_loop (Some d) fs fp clst ofs (ucast (csize fs) * SS) = f_lseek_loop (Some d) fs1 fp1 c1 (ofs - cb) (ucast (csize fs1) * SS)"
      using True ok
      by (subst f_lseek_loop.simps) (simp add: word_less_nat_alt u(2) cb 1(1) c1 same_vol_fields [OF 1(2)] fp1_def flip: cb_def)
    have b1: "bcs fs1 = bcs fs" by (simp add: same_vol_views [OF 1(2)])
    have h1: "unat (ofs - cb) < unat ofs" using o True bcs_pos [OF v] by linarith
    have h2: "chain d fs1 (fil_obj fp1) cs" using ch by (simp add: same_vol_views [OF 1(2)] fp1_def)
    have h3: "c1 = cs ! (unat (fptr fp1) div bcs fs1)" "clust fp1 = c1" by (simp_all add: fp1_def p b1 d1 c1_def)
    have h4: "unat (fptr fp1) mod bcs fs1 = 0" using less.prems(5) by (simp add: fp1_def p b1)
    have h5: "0 < ofs - cb" using o True by (simp add: word_less_nat_alt)
    have h6: "unat (fptr fp1) + unat (ofs - cb) \<le> unat (objsize (fil_obj fp1))" using o p r True by (simp add: fp1_def)
    from less.hyps [OF h1 vol_ok_same [OF v 1(2,3)] h2 h3 h4 h5 h6, unfolded b1] obtain fs' p' clst' ofs' where
      L: "f_lseek_loop (Some d) fs1 fp1 c1 (ofs - cb) (ucast (csize fs1) * SS) = Some (Inr (clst', ofs'), fs', fp1\<lparr>fptr := p', clust := clst'\<rparr>)"
        "same_vol fs1 fs'" "win_ok d fs'" "unat p' + unat ofs' = unat (fptr fp1) + unat (ofs - cb)" "unat p' mod bcs fs = 0" "0 < unat ofs'"
        "unat ofs' \<le> bcs fs" "clst' = cs ! (unat p' div bcs fs)"
      by (elim exE conjE) (rule that)
    have sum: "unat (fptr fp1) + unat (ofs - cb) = unat (fptr fp) + unat ofs" using p o True by (simp add: fp1_def)
    have "same_vol fs fs'" using same_vol_trans [OF 1(2) L(2)] .
    then show ?thesis
      unfolding step L(1) using L(3-8) sum by (intro exI [of _ fs'] exI [of _ p'] exI [of _ clst'] exI [of _ ofs']) (simp add: fp1_def)
  qed
qed

lemma unat_cluster_start:
  assumes "vol_ok d fs"
  shows "unat (x AND NOT (ucast (ucast (csize fs) * SS :: u32) - 1)) = bcs fs * (unat (x :: u64) div bcs fs)"
proof -
  obtain k where k: "k < 16" "unat (csize fs) = 2 ^ k" "bcs fs = 2 ^ k * SS" using vol_ok_bcs [OF assms] .
  have e: "bcs fs = 2 ^ (k + 9)" by (simp add: k(3) power_add)
  have "(ucast (ucast (csize fs) * SS :: u32) :: u64) = 2 ^ (k + 9)"
    using arg_cong [OF unat_cluster_bytes(2) [OF assms, unfolded e], of "of_nat :: nat \<Rightarrow> u64"] by simp
  then have "unat (x AND NOT (ucast (ucast (csize fs) * SS :: u32) - 1)) = unat x - unat x mod bcs fs"
    by (simp only: e unat_and_not_mask flip: mask_eq_exp_minus_1)
  then show ?thesis by (simp add: minus_mod_eq_mult_div)
qed

text \<open>Where the search for the cluster starts.\<close>

lemma f_lseek_start:
  assumes v: "vol_ok d fs" and f: "fil_ok d fs fp cs" and o: "0 < ofs" "ofs \<le> objsize (fil_obj fp)"
    and e: "f_lseek_origin fs (fptr fp) (fp\<lparr>fptr := 0\<rparr>) ofs = (fp1, ofs1, clst)"
  shows "\<exists>p. fp1 = fp\<lparr>fptr := p, clust := clst\<rparr> \<and> clst = cs ! (unat p div bcs fs) \<and> unat p mod bcs fs = 0
    \<and> 0 < ofs1 \<and> unat p + unat ofs1 = unat ofs \<and> 2 \<le> clst"
proof -
  define B where "B = bcs fs"
  have B: "0 < B" using bcs_pos [OF v] by (simp add: B_def)
  have ch: "chain d fs (fil_obj fp) cs" using f by (simp add: fil_ok_def)
  have on: "0 < unat ofs" "unat ofs \<le> unat (objsize (fil_obj fp))" using o by (simp_all add: word_le_nat_alt unat_gt_0 word_gt_0)
  show ?thesis
  proof (cases "0 < fptr fp \<and> (fptr fp - 1) div ucast (ucast (csize fs) * SS :: u32) \<le> (ofs - 1) div ucast (ucast (csize fs) * SS :: u32)")
    case True
    define p where "p = (fptr fp - 1) AND NOT (ucast (ucast (csize fs) * SS :: u32) - 1)"
    have one: "unat (x - 1) = unat x - 1" if "0 < x" for x :: u64
      using that by (simp add: unat_sub_no_wrap word_le_nat_alt unat_gt_0 word_gt_0 Suc_le_eq)
    have up: "unat p = B * ((unat (fptr fp) - 1) div B)"
      unfolding p_def B_def unat_cluster_start [OF v] using one True by simp
    have le: "(unat (fptr fp) - 1) div B \<le> (unat ofs - 1) div B"
      using True one [of "fptr fp"] one [OF o(1)] by (simp add: word_le_nat_alt unat_div unat_cluster_bytes(2) [OF v] B_def)
    have "unat p \<le> unat ofs - 1" unfolding up using le by (metis div_times_less_eq_dividend mult.commute mult_le_mono2 le_trans)
    then have plt: "unat p < unat ofs" using on(1) by linarith
    then have "unat (ofs - p) = unat ofs - unat p" by (simp add: unat_sub_no_wrap word_le_nat_alt)
    moreover have c: "clust fp = cs ! (unat p div B)" using f True B by (simp add: fil_ok_def up B_def)
    moreover have "2 \<le> clust fp" unfolding c using chain_cluster(2) [OF v ch, of "unat p"] plt on(2) by (simp add: B_def)
    moreover have "fp1 = fp\<lparr>fptr := p\<rparr>" "ofs1 = ofs - p" "clst = clust fp" using e True by (simp_all add: f_lseek_origin_def Let_def p_def)
    ultimately show ?thesis using plt up by (intro exI [of _ p]) (simp add: word_less_nat_alt B_def)
  next
    case False
    have "fp1 = fp\<lparr>fptr := 0, clust := sclust (fil_obj fp)\<rparr>" "ofs1 = ofs" "clst = sclust (fil_obj fp)" using e False by (auto simp: f_lseek_origin_def Let_def)
    moreover have "sclust (fil_obj fp) = cs ! 0" using ch on by (simp add: chain_def word_less_nat_alt)
    moreover have "2 \<le> cs ! 0" using chain_cluster(2) [OF v ch, of 0] on by simp
    ultimately show ?thesis using o by (intro exI [of _ 0]) simp
  qed
qed

lemma f_lseek_fill_ok:
  assumes v: "vol_ok d fs" and f: "fil_ok d fs fp0 cs" and eq: "fil_obj fp = fil_obj fp0" "err fp = err fp0" "flag fp = flag fp0"
      "sect fp = sect fp0" "buf fp = buf fp0"
    and o: "fptr fp \<le> objsize (fil_obj fp)" and c: "0 < fptr fp \<Longrightarrow> clust fp = cs ! ((unat (fptr fp) - 1) div bcs fs)"
    and n: "unat (fptr fp) mod SS \<noteq> 0 \<Longrightarrow> nsect = file_sect fs cs (unat (fptr fp))"
  shows "\<exists>fp'. f_lseek_fill (Some d) fs fp nsect = (FR_OK, fs, fp') \<and> fil_ok d fs fp' cs \<and> fptr fp' = fptr fp \<and> fil_obj fp' = fil_obj fp"
proof -
  have pd: "pdrv fs = 0" using v by (simp add: vol_ok_def win_ok_def)
  have s: "fptr fp mod SS = 0 \<longleftrightarrow> unat (fptr fp) mod SS = 0" using unat_mod [of "fptr fp" SS] unat_eq_zero [of "fptr fp mod SS"] by simp
  define fp' where "fp' = (if fptr fp mod SS \<noteq> 0 \<and> nsect \<noteq> sect fp
    then fp\<lparr>buf := blit_bytes (buf fp) 0 (\<lambda>i. d (nsect * SS + of_nat i)) SS, sect := nsect\<rparr> else fp)"
  have "f_lseek_fill (Some d) fs fp nsect = (FR_OK, fs, fp')"
    by (simp add: f_lseek_fill_def disk_read_def pd fp'_def Let_def)
  moreover have "fil_ok d fs fp' cs"
    using f eq o c n s by (auto simp: fil_ok_def fp'_def sector_def blit_bytes_def)
  ultimately show ?thesis by (auto simp: fp'_def)
qed

lemma f_lseek_ok:
  assumes v: "vol_ok d fs" and f: "fil_ok d fs fp cs" and small: "fs_type fs = FS_EXFAT \<or> objsize (fil_obj fp) < 0x100000000"
  shows "\<exists>fs' fp'. f_lseek (Some d) fs fp ofs = Some (FR_OK, fs', fp') \<and> vol_ok d fs' \<and> same_vol fs fs' \<and> fil_ok d fs' fp' cs
    \<and> fptr fp' = min ofs (objsize (fil_obj fp)) \<and> fil_obj fp' = fil_obj fp"
proof -
  define T where "T = min ofs (objsize (fil_obj fp))"
  define ofs0 where "ofs0 = (if fs_type fs \<noteq> FS_EXFAT \<and> 0x100000000 \<le> ofs then 0xFFFFFFFF else ofs)"
  have T: "(if objsize (fil_obj fp) < ofs0 then objsize (fil_obj fp) else ofs0) = T"
  proof (cases "fs_type fs \<noteq> FS_EXFAT \<and> 0x100000000 \<le> ofs")
    case True
    then have "objsize (fil_obj fp) \<le> 0xFFFFFFFF" "objsize (fil_obj fp) \<le> ofs"
      using small by (auto simp: word_less_nat_alt word_le_nat_alt)
    then show ?thesis using True by (auto simp: T_def ofs0_def min_def)
  qed (auto simp: T_def ofs0_def min_def)
  have ch: "chain d fs (fil_obj fp) cs" using f by (simp add: fil_ok_def)
  have ok: "validate fs (fil_obj fp) = FR_OK" "err fp = FR_OK"
    using f v by (simp_all add: fil_ok_def vol_ok_def win_ok_def validate_def disk_status_def)
  show ?thesis
  proof (cases "0 < T")
    case False
    then have "T = 0" by (simp add: word_gt_0)
    have "\<exists>fp'. f_lseek_fill (Some d) fs (fp\<lparr>fptr := 0\<rparr>) 0 = (FR_OK, fs, fp') \<and> fil_ok d fs fp' cs \<and> fptr fp' = 0 \<and> fil_obj fp' = fil_obj fp"
      using f_lseek_fill_ok [OF v f, of "fp\<lparr>fptr := 0\<rparr>" 0] by simp
    then show ?thesis using v \<open>T = 0\<close> unfolding T_def [symmetric]
      by (auto simp: f_lseek_def ok Let_def T simp flip: ofs0_def)
  next
    case True
    have T2: "T \<le> objsize (fil_obj fp)" by (simp add: T_def)
    obtain fp1 ofs1 clst where st: "f_lseek_origin fs (fptr fp) (fp\<lparr>fptr := 0\<rparr>) T = (fp1, ofs1, clst)" by (metis prod_cases3)
    from f_lseek_start [OF v f True T2 st] obtain p where
      P: "fp1 = fp\<lparr>fptr := p, clust := clst\<rparr>" "clst = cs ! (unat p div bcs fs)" "unat p mod bcs fs = 0" "0 < ofs1" "unat p + unat ofs1 = unat T" "2 \<le> clst"
      by (elim exE conjE) (rule that)
    have clst0: "clst \<noteq> 0" using P(6) by auto
    have "unat p + unat ofs1 \<le> unat (objsize (fil_obj fp))" using P(5) T2 by (simp add: word_le_nat_alt)
    then have h: "chain d fs (fil_obj fp1) cs" "clst = cs ! (unat (fptr fp1) div bcs fs)" "clust fp1 = clst" "unat (fptr fp1) mod bcs fs = 0"
      "0 < ofs1" "unat (fptr fp1) + unat ofs1 \<le> unat (objsize (fil_obj fp1))" using ch P by simp_all
    from f_lseek_loop_ok [OF v h] obtain fs1 p' clst' ofs' where
      L: "f_lseek_loop (Some d) fs fp1 clst ofs1 (ucast (csize fs) * SS) = Some (Inr (clst', ofs'), fs1, fp1\<lparr>fptr := p', clust := clst'\<rparr>)"
        "same_vol fs fs1" "win_ok d fs1" "unat p' + unat ofs' = unat (fptr fp1) + unat ofs1" "unat p' mod bcs fs = 0" "0 < unat ofs'" "unat ofs' \<le> bcs fs"
        "clst' = cs ! (unat p' div bcs fs)"
      by (elim exE conjE) (rule that)
    have L4: "unat p' + unat ofs' = unat T" using L(4) P(1,5) by simp
    note v1 = vol_ok_same [OF v L(2,3)]
    have f1: "fil_ok d fs1 fp cs" using f by (simp add: same_vol_views(6) [OF L(2)])
    have sum: "p' + ofs' = T"
    proof -
      have "unat (p' + ofs') = unat T" using L4 unsigned_less [of T, where ?'a = nat] by (simp add: unat_add_no_wrap)
      then show ?thesis by (metis of_nat_unat ucast_id)
    qed
    define fp2 where "fp2 = fp1\<lparr>fptr := T, clust := clst'\<rparr>"
    have e2: "fil_obj fp2 = fil_obj fp" "err fp2 = err fp" "flag fp2 = flag fp" "sect fp2 = sect fp" "buf fp2 = buf fp" "fptr fp2 = T" "clust fp2 = clst'"
      by (simp_all add: fp2_def P(1))
    have bl: "(unat T - 1) div bcs fs = unat p' div bcs fs"
      using block_offset(1) [of "unat p'" "bcs fs" "unat ofs' - 1"] L4 L(5-7) by (simp add: Nat.add_diff_assoc)
    define nsect where "nsect = (if ofs' mod SS \<noteq> 0 then clst2sect fs1 clst' + ucast (ucast (ofs' div SS) :: u32) else 0)"
    have "unat p' < unat (objsize (fil_obj fp))" using L4 L(6) T2 by (simp add: word_le_nat_alt)
    note C = chain_cluster [OF v ch this, folded L(8)]
    have nz: "clst2sect fs1 clst' \<noteq> 0"
      using sect_not_zero(2) [OF v C(2,3), of 0] by (simp add: same_vol_clst2sect [OF L(2)])
    obtain k where k: "bcs fs = 2 ^ k * SS" using vol_ok_bcs [OF v] by blast
    have "unat p' mod SS = 0" using L(5) k by (metis dvd_eq_mod_eq_0 dvd_mult_right)
    then have m: "unat T mod SS = unat ofs' mod SS" using L4 by (metis add_0 mod_add_left_eq)
    have mo: "ofs' mod SS = 0 \<longleftrightarrow> unat ofs' mod SS = 0" using unat_mod [of ofs' SS] unat_eq_zero [of "ofs' mod SS"] by simp
    have sct: "nsect = file_sect fs1 cs (unat T)" if "unat T mod SS \<noteq> 0"
    proof -
      have "unat ofs' \<noteq> bcs fs" using that m k by auto
      then have lt: "unat p' mod bcs fs + unat ofs' < bcs fs" using L(5,7) by simp
      have T': "unat T div bcs fs = unat p' div bcs fs" "unat T mod bcs fs = unat ofs'"
        using block_offset [OF lt] L(5) by (simp_all add: L4)
      have "unat ofs' div SS < 2 ^ 32" using L(7) unat_cluster_bytes(3) [OF v] by (simp add: div_less_dividend order_le_less_trans [OF div_le_dividend])
      then have "unat (ucast (ofs' div SS) :: u32) = unat ofs' div SS"
        by (simp add: unsigned_ucast_eq take_bit_nat_eq_self unat_div)
      then have "ucast (ucast (ofs' div SS) :: u32) = (of_nat (unat ofs' div SS) :: u64)"
        using of_nat_unat [of "ucast (ofs' div SS) :: u32"] by metis
      then show ?thesis using that m mo by (simp add: nsect_def file_sect_def same_vol_views [OF L(2)] T' L(8))
    qed
    have cl: "clust fp2 = cs ! ((unat (fptr fp2) - 1) div bcs fs1)" using bl by (simp add: e2 L(8) same_vol_views [OF L(2)])
    have fill: "\<exists>fp'. f_lseek_fill (Some d) fs1 fp2 nsect = (FR_OK, fs1, fp') \<and> fil_ok d fs1 fp' cs \<and> fptr fp' = fptr fp2 \<and> fil_obj fp' = fil_obj fp2"
      by (rule f_lseek_fill_ok [OF v1 f1 e2(1-5) _ cl]) (use T2 sct e2 in simp_all)
    have "f_lseek (Some d) fs fp ofs = Some (f_lseek_fill (Some d) fs1 fp2 nsect)"
    proof -
      have fp': "fp1\<lparr>clust := clst', fptr := p' + ofs'\<rparr> = fp2" by (simp add: fp2_def sum)
      show ?thesis
        unfolding f_lseek_def Let_def ofs0_def [symmetric] T using True ok clst0 nz
        by (simp add: st L(1) fp' nsect_def)
    qed
    then show ?thesis using fill v1 L(2) e2 by (auto simp flip: T_def)
  qed
qed

subsection \<open>Properties\<close>

text \<open>
  C20. Reading an open file: whatever the position, the request and the state of the sector window, \<^verbatim>\<open>f_read\<close>
  returns, reports the number of bytes that were left or asked for, whichever is smaller, stores exactly those
  bytes of the cluster chain of the file in the buffer and leaves the rest of the buffer alone, advances
  the file pointer by their number, and keeps the invariant of the file, so that the next read continues there.
\<close>

theorem f_read_returns_the_bytes_of_the_file:
  assumes "vol_ok d fs" and "fil_ok d fs fp cs"
    and "n = min (unat btr) (unat (objsize (fil_obj fp)) - unat (fptr fp))"
  shows "\<exists>fs' fp' buff'. f_read (Some d) fs fp buff btr = Some (FR_OK, of_nat n, buff', fs', fp')
      \<and> (\<forall>i. buff' i = (if i < n then file_byte d fs cs (unat (fptr fp) + i) else buff i))
      \<and> vol_ok d fs' \<and> fil_ok d fs' fp' cs \<and> unat (fptr fp') = unat (fptr fp) + n"
  using f_read_ok [OF assms, of buff] by (auto simp: blit_bytes_def)

text \<open>
  Seeking: \<^verbatim>\<open>f_lseek\<close> returns on every offset, forwards and backwards; it clips the offset at the size of the
  file and leaves the file at that position, with the cluster and the buffered sector a read there needs.
\<close>

lemma f_lseek_moves_the_file_pointer:
  assumes "vol_ok d fs" and "fil_ok d fs fp cs" and "fs_type fs = FS_EXFAT \<or> objsize (fil_obj fp) < 0x100000000"
  shows "\<exists>fs' fp'. f_lseek (Some d) fs fp ofs = Some (FR_OK, fs', fp') \<and> vol_ok d fs' \<and> fil_ok d fs' fp' cs
      \<and> fptr fp' = min ofs (objsize (fil_obj fp))"
  using f_lseek_ok [OF assms, of ofs] by blast

text \<open>A file of 600 bytes in clusters 341 and 343 of the example volume.\<close>

definition example_file_disk :: disk where
  "example_file_disk a = (if a = 1023 then 0x70 else if a = 1024 then 0x15 else if a = 176648 then 0x41 else 0)"

definition example_fil :: FIL where
  "example_fil = \<lparr>fil_obj = example_obj\<lparr>objsize := 600\<rparr>, flag = FA_READ, err = FR_OK, fptr = 0, clust = 0, sect = 0, buf = (\<lambda>_. 0)\<rparr>"

lemma example_fil_ok:
  "vol_ok example_file_disk example_fs" "fil_ok example_file_disk example_fs example_fil [341, 343]"
proof -
  have "csize example_fs = 2 ^ 0" by (simp add: example_fs_def)
  then show "vol_ok example_file_disk example_fs"
    unfolding vol_ok_def win_ok_def geom_ok_def by (intro conjI exI [of _ 0]) (simp_all add: example_fs_def)
  have "fat_val example_file_disk example_fs (example_obj\<lparr>objsize := 600\<rparr>) 341 = 343"
    by (simp add: fat_val_def fat_entry_def fat_byte_def example_fs_def example_file_disk_def)
  then show "fil_ok example_file_disk example_fs example_fil [341, 343]"
    by (simp add: fil_ok_def chain_def bcs_def example_fil_def example_obj_def example_fs_def less_Suc_eq nth_Cons')
qed

theorem f_read_returns_the_bytes_of_the_file_witness:
  "\<exists>fs' fp' buff'. f_read (Some example_file_disk) example_fs example_fil (\<lambda>_. 7) 1000 = Some (FR_OK, 600, buff', fs', fp')
    \<and> buff' 520 = 0x41 \<and> buff' 521 = 0 \<and> buff' 600 = 7 \<and> unat (fptr fp') = 600"
proof -
  have n: "600 = min (unat (1000 :: u32)) (unat (objsize (fil_obj example_fil)) - unat (fptr example_fil))"
    by (simp add: example_fil_def)
  have "file_byte example_file_disk example_fs [341, 343] 520 = 0x41" "file_byte example_file_disk example_fs [341, 343] 521 = 0"
    by (simp_all add: file_byte_def bcs_def clst2sect_def example_fs_def example_file_disk_def)
  then show ?thesis
    using f_read_returns_the_bytes_of_the_file [OF example_fil_ok n, of "\<lambda>_. 7"] by (auto simp: example_fil_def)
qed

end
