(* ===== verification/Fat_Lookup.thy ===== *)
theory Fat_Lookup
  imports Fat_Dir Fat_File
begin

text \<open>
  What looking up and reading a directory means on the disk. A directory is a table of entries of 32 bytes,
  either the fixed root table of a FAT12/16 volume or the contents of a chain of clusters. The locale \<open>entry_table\<close>
  states how the functions of \<^verbatim>\<open>ff.c\<close> move in such a table; the loops of \<^verbatim>\<open>dir_find\<close> and \<^verbatim>\<open>dir_read\<close> are verified once
  inside it, against a specification over the entries alone, and it is interpreted for both kinds of table.
\<close>

subsection \<open>Names in a table of entries\<close>

text \<open>An entry with a part of the long name \<open>lfn\<close>, for the short name with checksum \<open>s\<close>; \<open>c\<close> is its sequence byte.\<close>

definition lfn_piece :: "(nat \<Rightarrow> bytes) \<Rightarrow> wchars \<Rightarrow> u8 \<Rightarrow> nat \<Rightarrow> u8 \<Rightarrow> bool" where
  "lfn_piece E lfn s k c \<longleftrightarrow> E k LDIR_Ord = c \<and> c \<noteq> DDEM \<and> E k DIR_Attr AND AM_MASK = AM_LFN \<and> E k LDIR_Chksum = s
     \<and> cmp_lfn lfn (E k) 0"

text \<open>\<open>lfn_run E lfn s k n\<close>: before entry \<open>k\<close> stand parts of the long name in descending order, the last part of the
  name first and marked as such, and parts \<open>n, \<dots>, 1\<close> are still to come.\<close>

inductive lfn_run :: "(nat \<Rightarrow> bytes) \<Rightarrow> wchars \<Rightarrow> u8 \<Rightarrow> nat \<Rightarrow> u8 \<Rightarrow> bool" for E lfn s where
  first: "lfn_piece E lfn s k c \<Longrightarrow> c AND LLEF \<noteq> 0 \<Longrightarrow> lfn_run E lfn s (Suc k) ((c AND NOT LLEF) - 1)"
| more: "lfn_run E lfn s k c \<Longrightarrow> lfn_piece E lfn s k c \<Longrightarrow> c AND LLEF = 0 \<Longrightarrow> lfn_run E lfn s (Suc k) (c - 1)"

inductive_cases lfn_run_SucE: "lfn_run E lfn s (Suc k) n"
inductive_cases lfn_run_0E: "lfn_run E lfn s 0 n"

text \<open>Entry \<open>k\<close> is the short entry of an object with the wanted name: a complete long name stands before it, or its
  short name is the wanted one.\<close>

definition entry_matches :: "(nat \<Rightarrow> bytes) \<Rightarrow> wchars \<Rightarrow> bytes \<Rightarrow> nat \<Rightarrow> bool" where
  "entry_matches E lfn name k \<longleftrightarrow> E k 0 \<noteq> DDEM \<and> (E k DIR_Attr AND AM_MASK) AND AM_VOL = 0
     \<and> (lfn_run E lfn (sum_sfn (E k) 0) k 0 \<or> (name NSFLAG AND NS_LOSS = 0 \<and> (\<forall>i < 11. E k i = name i)))"

text \<open>Entry \<open>k\<close> is the short entry of a file or directory, the dot entries apart.\<close>

definition entry_visible :: "(nat \<Rightarrow> bytes) \<Rightarrow> nat \<Rightarrow> bool" where
  "entry_visible E k \<longleftrightarrow> E k 0 \<noteq> DDEM \<and> E k 0 \<noteq> 0x2E \<and> (E k DIR_Attr AND AM_MASK) AND NOT AM_ARC \<noteq> AM_VOL
     \<and> E k DIR_Attr AND AM_MASK \<noteq> AM_LFN"

text \<open>The first entry from \<open>k\<close> on, before the end mark, with a property.\<close>

definition first_entry :: "(nat \<Rightarrow> bytes) \<Rightarrow> nat \<Rightarrow> nat \<Rightarrow> (nat \<Rightarrow> bool) \<Rightarrow> nat option" where
  "first_entry E k n P = find P (takeWhile (\<lambda>j. E j 0 \<noteq> 0) [k..<n])"

lemma first_entry_step:
  assumes "k < n"
  shows "first_entry E k n P = (if E k 0 = 0 then None else if P k then Some k else first_entry E (Suc k) n P)"
  using assms by (simp add: first_entry_def upt_conv_Cons)

lemma first_entry_end: "first_entry E n n P = None"
  by (simp add: first_entry_def)

text \<open>The state of the long name sequence in the loop of \<^verbatim>\<open>dir_find\<close> agrees with the entries before \<open>k\<close>.\<close>

definition lfn_state :: "(nat \<Rightarrow> bytes) \<Rightarrow> wchars \<Rightarrow> nat \<Rightarrow> u8 \<Rightarrow> u8 \<Rightarrow> bool" where
  "lfn_state E lfn k ord chk \<longleftrightarrow> (ord \<noteq> 0xFF \<longrightarrow> lfn_run E lfn chk k ord) \<and>
     (\<forall>s n. lfn_run E lfn s k n \<longrightarrow> n \<noteq> 0xFF \<longrightarrow> ord = n \<and> chk = s)"

lemma lfn_state_0: "lfn_state E lfn 0 0xFF chk"
  by (auto simp: lfn_state_def elim: lfn_run_0E)

lemma lfn_run_Suc_piece: "lfn_run E lfn s (Suc k) n \<Longrightarrow> lfn_piece E lfn (E k LDIR_Chksum) k (E k 0) \<and> s = E k LDIR_Chksum"
  by (erule lfn_run_SucE) (auto simp: lfn_piece_def)

lemma lfn_state_reset: "\<not> lfn_piece E lfn (E k LDIR_Chksum) k (E k 0) \<Longrightarrow> lfn_state E lfn (Suc k) 0xFF chk"
  unfolding lfn_state_def using lfn_run_Suc_piece by blast

lemma no_llef: "c AND LLEF = 0 \<Longrightarrow> c \<noteq> (0xFF :: u8)"
  by auto

lemma lfn_run_first_iff:
  assumes "E k 0 AND LLEF \<noteq> 0" "lfn_piece E lfn s k (E k 0)"
  shows "lfn_run E lfn s' (Suc k) n \<longleftrightarrow> s' = s \<and> n = (E k 0 AND NOT LLEF) - 1"
proof
  assume "lfn_run E lfn s' (Suc k) n"
  then show "s' = s \<and> n = (E k 0 AND NOT LLEF) - 1"
    using assms by (elim lfn_run_SucE) (auto simp: lfn_piece_def)
qed (use assms lfn_run.first in blast)

lemma lfn_run_more_iff:
  assumes "E k 0 AND LLEF = 0" "lfn_piece E lfn s k (E k 0)"
  shows "lfn_run E lfn s' (Suc k) n \<longleftrightarrow> s' = s \<and> lfn_run E lfn s k (E k 0) \<and> n = E k 0 - 1"
proof
  assume "lfn_run E lfn s' (Suc k) n"
  then show "s' = s \<and> lfn_run E lfn s k (E k 0) \<and> n = E k 0 - 1"
    using assms by (elim lfn_run_SucE) (auto simp: lfn_piece_def)
qed (use assms lfn_run.more in blast)

lemma lfn_state_first:
  assumes "E k 0 AND LLEF \<noteq> 0" "E k 0 \<noteq> DDEM" "E k DIR_Attr AND AM_MASK = AM_LFN"
  shows "lfn_state E lfn (Suc k) (if cmp_lfn lfn (E k) 0 then (E k 0 AND NOT LLEF) - 1 else 0xFF) (E k LDIR_Chksum)"
proof (cases "cmp_lfn lfn (E k) 0")
  case True
  then have "lfn_piece E lfn (E k LDIR_Chksum) k (E k 0)" using assms by (simp add: lfn_piece_def)
  from lfn_run_first_iff [OF assms(1) this] True show ?thesis by (simp add: lfn_state_def)
next
  case False
  then show ?thesis by (auto intro!: lfn_state_reset simp: lfn_piece_def)
qed

lemma lfn_state_more:
  assumes s: "lfn_state E lfn k ord chk" and e: "E k 0 AND LLEF = 0" "E k 0 \<noteq> DDEM" "E k DIR_Attr AND AM_MASK = AM_LFN"
  shows "lfn_state E lfn (Suc k) (if E k 0 = ord \<and> chk = E k LDIR_Chksum \<and> cmp_lfn lfn (E k) 0 then ord - 1 else 0xFF) chk"
proof (cases "cmp_lfn lfn (E k) 0")
  case True
  then have p: "lfn_piece E lfn (E k LDIR_Chksum) k (E k 0)" using e by (simp add: lfn_piece_def)
  have "lfn_run E lfn (E k LDIR_Chksum) k (E k 0) \<longleftrightarrow> E k 0 = ord \<and> chk = E k LDIR_Chksum"
    using s no_llef [OF e(1)] unfolding lfn_state_def by metis
  with lfn_run_more_iff [OF e(1) p] True show ?thesis by (simp add: lfn_state_def)
next
  case False
  then show ?thesis by (auto intro!: lfn_state_reset simp: lfn_piece_def)
qed

subsection \<open>Entries seen through the window\<close>

lemma sum_sfn_cong:
  assumes "\<And>i. i < SZDIRE \<Longrightarrow> b (p + i) = c i"
  shows "sum_sfn b p = sum_sfn c 0"
  unfolding sum_sfn_def by (rule foldl_cong) (use assms in auto)

lemma cmp_lfn_loop_cong:
  assumes "\<And>o1. o1 \<in> set offs \<Longrightarrow> ld_word b (p + o1) = ld_word c (q + o1)"
  shows "cmp_lfn_loop lfn b p offs i wc = cmp_lfn_loop lfn c q offs i wc"
  using assms
proof (induction offs arbitrary: i wc)
  case (Cons o1 offs)
  have "ld_word b (p + o1) = ld_word c (q + o1)" using Cons.prems by simp
  then show ?case using Cons by (simp add: Let_def)
qed simp

lemma cmp_lfn_cong:
  assumes "\<And>i. i < SZDIRE \<Longrightarrow> b (p + i) = c i"
  shows "cmp_lfn lfn b p = cmp_lfn lfn c 0"
proof -
  have w: "ld_word b (p + o1) = ld_word c o1" if "o1 < 31" for o1
    using ld_word_cong [of b "p + o1" c o1] assms that by (simp add: add.assoc)
  have "cmp_lfn_loop lfn b p LfnOfs i wc = cmp_lfn_loop lfn c 0 LfnOfs i wc" for i wc
    by (rule cmp_lfn_loop_cong, subst w, auto simp: LfnOfs_def)
  note loop = this
  have b: "b p = c 0" and "ld_word b (p + LDIR_FstClusLO) = ld_word c LDIR_FstClusLO" using assms [of 0] w [of LDIR_FstClusLO] by simp_all
  then show ?thesis unfolding cmp_lfn_def Let_def add_0_right add_0 loop b by simp
qed

text \<open>One step of \<^verbatim>\<open>dir_find\<close> on an entry: a match is found exactly at a matching entry, and otherwise the state of the long
  name sequence is kept up to date.\<close>

lemma dir_find_entry_ok:
  assumes w: "\<And>i. i < SZDIRE \<Longrightarrow> win fs (dir dp + i) = E k i" and s: "lfn_state E (lfnbuf fs) k ord chk"
    and nolfn: "fn dp NSFLAG AND NS_NOLFN = 0"
  obtains "entry_matches E (lfnbuf fs) (fn dp) k"
      "dir_find_entry fs dp ord chk = (Inl (), set_attr dp (E k DIR_Attr AND AM_MASK))"
    | b ord' chk' where "\<not> entry_matches E (lfnbuf fs) (fn dp) k" "lfn_state E (lfnbuf fs) (Suc k) ord' chk'"
      "dir_find_entry fs dp ord chk = (Inr (ord', chk'), set_attr dp (E k DIR_Attr AND AM_MASK)\<lparr>blk_ofs := b\<rparr>)"
proof -
  define a where "a = E k DIR_Attr AND AM_MASK"
  have w0: "win fs (dir dp) = E k 0" "win fs (dir dp + DIR_Attr) = E k DIR_Attr" "win fs (dir dp + LDIR_Chksum) = E k LDIR_Chksum"
    using w [of 0] w [of DIR_Attr] w [of LDIR_Chksum] by simp_all
  have sum: "sum_sfn (win fs) (dir dp) = sum_sfn (E k) 0" and cmp: "cmp_lfn l (win fs) (dir dp) = cmp_lfn l (E k) 0" for l
    by (rule sum_sfn_cong cmp_lfn_cong; use w in blast)+
  have name: "(\<forall>i \<in> set [0..<11]. win fs (dir dp + i) = fn dp i) \<longleftrightarrow> (\<forall>i < 11. E k i = fn dp i)"
    using w by (auto simp del: upt_rec_numeral)
  note def = dir_find_entry_def [of fs dp ord chk, unfolded Let_def w0, folded a_def]
  have fn: "fn (set_attr dp a) = fn dp" "dir (set_attr dp a) = dir dp" "dptr (set_attr dp a) = dptr dp" by (simp_all add: set_attr_def)
  consider "E k 0 = DDEM \<or> (a AND AM_VOL \<noteq> 0 \<and> a \<noteq> AM_LFN)"
    | "E k 0 \<noteq> DDEM" "a = AM_LFN" "E k 0 AND LLEF \<noteq> 0" | "E k 0 \<noteq> DDEM" "a = AM_LFN" "E k 0 AND LLEF = 0"
    | "E k 0 \<noteq> DDEM" "a AND AM_VOL = 0" "a \<noteq> AM_LFN"
    by auto
  then show thesis
  proof cases
    case 1
    then have "dir_find_entry fs dp ord chk = (Inr (0xFF, chk), set_attr dp a\<lparr>blk_ofs := 0xFFFFFFFF\<rparr>)" unfolding def by simp
    moreover have "\<not> entry_matches E (lfnbuf fs) (fn dp) k" "lfn_state E (lfnbuf fs) (Suc k) 0xFF chk"
      using 1 by (auto simp: entry_matches_def a_def lfn_piece_def intro!: lfn_state_reset)
    ultimately show thesis using that(2) unfolding a_def by blast
  next
    case 2
    then have "dir_find_entry fs dp ord chk =
        (Inr (if cmp_lfn (lfnbuf fs) (E k) 0 then (E k 0 AND NOT LLEF) - 1 else 0xFF, E k LDIR_Chksum), set_attr dp a\<lparr>blk_ofs := dptr dp\<rparr>)"
      unfolding def fn using nolfn w0 cmp by (simp add: set_attr_def)
    moreover have "\<not> entry_matches E (lfnbuf fs) (fn dp) k" using 2 by (simp add: entry_matches_def a_def)
    ultimately show thesis using that(2) lfn_state_first [of E k] 2 unfolding a_def by blast
  next
    case 3
    then have "dir_find_entry fs dp ord chk =
        (Inr (if E k 0 = ord \<and> chk = E k LDIR_Chksum \<and> cmp_lfn (lfnbuf fs) (E k) 0 then ord - 1 else 0xFF, chk), set_attr dp a\<lparr>blk_ofs := blk_ofs dp\<rparr>)"
      unfolding def fn using nolfn w0 cmp by (simp add: set_attr_def)
    moreover have "\<not> entry_matches E (lfnbuf fs) (fn dp) k" using 3 by (simp add: entry_matches_def a_def)
    ultimately show thesis using that(2) lfn_state_more [OF s] 3 unfolding a_def by blast
  next
    case 4
    have run: "ord = 0 \<and> chk = sum_sfn (E k) 0 \<longleftrightarrow> lfn_run E (lfnbuf fs) (sum_sfn (E k) 0) k 0"
    proof -
      have "(0 :: u8) \<noteq> 0xFF" by simp
      then show ?thesis using s unfolding lfn_state_def by metis
    qed
    have "dir_find_entry fs dp ord chk = (if entry_matches E (lfnbuf fs) (fn dp) k then (Inl (), set_attr dp a)
        else (Inr (0xFF, chk), set_attr dp a\<lparr>blk_ofs := 0xFFFFFFFF\<rparr>))"
      unfolding def fn sum name entry_matches_def a_def [symmetric] run [symmetric] using 4 by simp
    moreover have "lfn_state E (lfnbuf fs) (Suc k) 0xFF chk"
      using 4 by (auto simp: a_def lfn_piece_def intro!: lfn_state_reset)
    ultimately show thesis using that unfolding a_def by metis
  qed
qed

lemma dir_read_entry_ok:
  assumes w: "\<And>i. i < SZDIRE \<Longrightarrow> win fs (dir dp + i) = E k i"
  obtains b where "entry_visible E k"
      "dir_read_entry fs dp False ord chk = (Inl (), fs, set_attr dp (E k DIR_Attr AND AM_MASK)\<lparr>blk_ofs := b\<rparr>)"
    | b oc l where "\<not> entry_visible E k"
      "dir_read_entry fs dp False ord chk = (Inr oc, fs\<lparr>lfnbuf := l\<rparr>, set_attr dp (E k DIR_Attr AND AM_MASK)\<lparr>blk_ofs := b\<rparr>)"
proof -
  define a where "a = E k DIR_Attr AND AM_MASK"
  have w0: "win fs (dir dp) = E k 0" "win fs (dir dp + DIR_Attr) = E k DIR_Attr" using w [of 0] w [of DIR_Attr] by simp_all
  have keep: "\<exists>b. set_attr dp a = set_attr dp a\<lparr>blk_ofs := b\<rparr>" "\<exists>l. fs = fs\<lparr>lfnbuf := l\<rparr>"
    by (rule exI [of _ "blk_ofs dp"], simp add: set_attr_def) (rule exI [of _ "lfnbuf fs"], simp)
  note def = dir_read_entry_def [of fs dp False ord chk, unfolded Let_def w0, folded a_def]
  show thesis
  proof (cases "entry_visible E k")
    case True
    then have v: "E k 0 \<noteq> DDEM" "E k 0 \<noteq> 0x2E" "a AND NOT AM_ARC \<noteq> AM_VOL" "a \<noteq> AM_LFN" by (simp_all add: entry_visible_def a_def)
    have "\<exists>b. dir_read_entry fs dp False ord chk = (Inl (), fs, set_attr dp a\<lparr>blk_ofs := b\<rparr>)"
      unfolding def using v keep(1) by auto
    then show thesis using that(1) [OF True] unfolding a_def by blast
  next
    case False
    have "\<exists>oc l b. dir_read_entry fs dp False ord chk = (Inr oc, fs\<lparr>lfnbuf := l\<rparr>, set_attr dp a\<lparr>blk_ofs := b\<rparr>)"
    proof (cases "E k 0 = DDEM \<or> E k 0 = 0x2E \<or> a AND NOT AM_ARC = AM_VOL")
      case True
      then show ?thesis unfolding def using keep by simp
    next
      case skip: False
      then have l: "a = AM_LFN" using False by (auto simp: entry_visible_def a_def)
      obtain pk l' where p: "pick_lfn (lfnbuf fs) (win fs) (dir (set_attr dp a)) = (pk, l')" by force
      then have p': "pick_lfn (lfnbuf fs) (win fs) (dir dp) = (pk, l')" by (simp add: set_attr_def)
      show ?thesis
      proof (cases "E k 0 AND LLEF \<noteq> 0")
        case True
        then show ?thesis unfolding def using skip l keep p p' by (simp add: set_attr_def) metis
      next
        case False
        then show ?thesis unfolding def using skip l keep p p' by (simp add: set_attr_def) metis
      qed
    qed
    then show thesis using that(2) [OF False] unfolding a_def by blast
  qed
qed

subsection \<open>Moving in a table of entries\<close>

locale entry_table =
  fixes at :: "'t \<Rightarrow> disk \<Rightarrow> FATFS \<Rightarrow> DIR \<Rightarrow> nat \<Rightarrow> bool"
    and entry :: "'t \<Rightarrow> disk \<Rightarrow> FATFS \<Rightarrow> nat \<Rightarrow> bytes"
    and entries :: "'t \<Rightarrow> FATFS \<Rightarrow> nat"
  assumes at_in: "at t d fs dp k \<Longrightarrow> k < entries t fs \<and> dir_sect dp \<noteq> 0"
    and at_window: "at t d fs dp k \<Longrightarrow> \<exists>fs'. move_window (Some d) fs (dir_sect dp) = (FR_OK, fs') \<and> same_vol fs fs'
           \<and> at t d fs' dp k \<and> (\<forall>i < SZDIRE. win fs' (dir dp + i) = entry t d fs k i)"
    and at_next: "at t d fs dp k \<Longrightarrow> Suc k < entries t fs \<Longrightarrow>
           \<exists>fs' dp'. dir_next (Some d) fs dp = (FR_OK, fs', dp') \<and> at t d fs' dp' (Suc k)"
    and at_end: "at t d fs dp k \<Longrightarrow> Suc k = entries t fs \<Longrightarrow> \<exists>fs' dp'. dir_next (Some d) fs dp = (FR_NO_FILE, fs', dp')"
    and view_geo: "same_geo fs fs' \<Longrightarrow> entry t d fs' = entry t d fs \<and> entries t fs' = entries t fs"
    and at_attr: "at t d fs dp k \<Longrightarrow> at t d fs (set_attr dp a\<lparr>blk_ofs := b\<rparr>) k"
    and at_lfnbuf: "at t d fs dp k \<Longrightarrow> at t d (fs\<lparr>lfnbuf := l\<rparr>) dp k"
begin

lemma at_set_attr: "at t d fs dp k \<Longrightarrow> at t d fs (set_attr dp a) k"
  using at_attr [of t d fs dp k "blk_ofs (set_attr dp a)" a] by simp

lemma find_loop:
  assumes "at t d fs dp k" "lfn_state (entry t d fs) (lfnbuf fs) k ord chk" "fn dp NSFLAG AND NS_NOLFN = 0"
  shows "case first_entry (entry t d fs) k (entries t fs) (entry_matches (entry t d fs) (lfnbuf fs) (fn dp)) of
      None \<Rightarrow> \<exists>fs' dp'. dir_find_loop (Some d) fs dp ord chk = Some (FR_NO_FILE, fs', dp')
    | Some j \<Rightarrow> \<exists>fs' dp'. dir_find_loop (Some d) fs dp ord chk = Some (FR_OK, fs', dp') \<and> same_vol fs fs' \<and> at t d fs' dp' j
        \<and> (\<forall>i < SZDIRE. win fs' (dir dp' + i) = entry t d fs j i) \<and> attr (dir_obj dp') = entry t d fs j DIR_Attr AND AM_MASK"
  using assms
proof (induction "entries t fs - k" arbitrary: fs dp k ord chk rule: less_induct)
  case less
  define E where "E = entry t d fs"
  note in_k = at_in [OF less.prems(1), THEN conjunct1]
  obtain fs1 where m: "move_window (Some d) fs (dir_sect dp) = (FR_OK, fs1)" and v1: "same_vol fs fs1" and at1: "at t d fs1 dp k"
    and w: "\<And>i. i < SZDIRE \<Longrightarrow> win fs1 (dir dp + i) = E k i"
    using at_window [OF less.prems(1)] unfolding E_def by blast
  have same: "entry t d fs1 = E" "entries t fs1 = entries t fs" "lfnbuf fs1 = lfnbuf fs"
    using view_geo [OF same_geo_vol [OF v1]] v1 by (simp_all add: E_def same_vol_fields)
  have first: "win fs1 (dir dp) = E k 0" using w [of 0] by simp
  note simps = dir_find_loop.simps [of "Some d" fs dp ord chk, unfolded m]
  show ?case
  proof (cases "E k 0 = 0")
    case True
    then have "first_entry E k (entries t fs) P = None" for P using first_entry_step [OF in_k, of E] by simp
    moreover have "dir_find_loop (Some d) fs dp ord chk = Some (FR_NO_FILE, fs1, dp)" using True first by (simp add: simps)
    ultimately show ?thesis by (simp add: E_def)
  next
    case False
    have s: "lfn_state E (lfnbuf fs1) k ord chk" using less.prems(2) by (simp add: same E_def)
    from w s less.prems(3) show ?thesis
    proof (rule dir_find_entry_ok)
      assume h: "entry_matches E (lfnbuf fs1) (fn dp) k"
        and e: "dir_find_entry fs1 dp ord chk = (Inl (), set_attr dp (E k DIR_Attr AND AM_MASK))"
      have "first_entry E k (entries t fs) (entry_matches E (lfnbuf fs) (fn dp)) = Some k"
        using first_entry_step [OF in_k, of E] False h same by simp
      moreover have "dir_find_loop (Some d) fs dp ord chk = Some (FR_OK, fs1, set_attr dp (E k DIR_Attr AND AM_MASK))"
        using False first e by (simp add: simps)
      ultimately show ?thesis using v1 at_set_attr [OF at1] w by (simp add: E_def set_attr_def)
    next
      fix b ord' chk'
      define dp1 where "dp1 = set_attr dp (E k DIR_Attr AND AM_MASK)\<lparr>blk_ofs := b\<rparr>"
      assume h: "\<not> entry_matches E (lfnbuf fs1) (fn dp) k" and s': "lfn_state E (lfnbuf fs1) (Suc k) ord' chk'"
        and "dir_find_entry fs1 dp ord chk = (Inr (ord', chk'), set_attr dp (E k DIR_Attr AND AM_MASK)\<lparr>blk_ofs := b\<rparr>)"
      then have e: "dir_find_entry fs1 dp ord chk = (Inr (ord', chk'), dp1)" by (simp add: dp1_def)
      have at2: "at t d fs1 dp1 k" unfolding dp1_def by (rule at_attr [OF at1])
      have fe: "first_entry E k (entries t fs) (entry_matches E (lfnbuf fs) (fn dp))
          = first_entry E (Suc k) (entries t fs) (entry_matches E (lfnbuf fs) (fn dp))"
        using first_entry_step [OF in_k, of E] False h same by simp
      show ?thesis
      proof (cases "Suc k < entries t fs")
        case True
        then obtain fs2 dp2 where n: "dir_next (Some d) fs1 dp1 = (FR_OK, fs2, dp2)" and at3: "at t d fs2 dp2 (Suc k)"
          using at_next [OF at2] same by auto
        have v2: "same_vol fs1 fs2" by (rule dir_next_same_vol [OF n])
        have same2: "entry t d fs2 = E" "entries t fs2 = entries t fs" "lfnbuf fs2 = lfnbuf fs" "fn dp2 = fn dp"
          using view_geo [OF same_geo_vol [OF v2]] v2 same dir_next_ok(4) [OF n] by (simp_all add: same_vol_fields dp1_def set_attr_def)
        have loop: "dir_find_loop (Some d) fs dp ord chk = dir_find_loop (Some d) fs2 dp2 ord' chk'"
          using False first e n by (simp add: simps)
        have "entries t fs2 - Suc k < entries t fs - k" using in_k same2 by simp
        note IH = less.hyps [OF this at3, of ord' chk', unfolded same2]
        have "same_vol fs2 f \<Longrightarrow> same_vol fs f" for f using v1 v2 by (blast intro: same_vol_trans)
        then show ?thesis using IH s' less.prems(3) fe unfolding loop same E_def [symmetric]
          by (fastforce split: option.splits)
      next
        case last: False
        then obtain fs2 dp2 where n: "dir_next (Some d) fs1 dp1 = (FR_NO_FILE, fs2, dp2)"
          using at_end [OF at2] same in_k by (metis less_antisym Suc_lessI)
        have "Suc k = entries t fs" using in_k last by simp
        then have "first_entry E k (entries t fs) (entry_matches E (lfnbuf fs) (fn dp)) = None" using fe first_entry_end by metis
        then show ?thesis using False first e n by (simp add: simps E_def)
      qed
    qed
  qed
qed

lemma read_loop:
  assumes "at t d fs dp k" "fs_type fs \<noteq> FS_EXFAT"
  shows "case first_entry (entry t d fs) k (entries t fs) (entry_visible (entry t d fs)) of
      None \<Rightarrow> \<exists>fs' dp'. dir_read_loop (Some d) fs dp False ord chk res = Some (FR_NO_FILE, fs', dp')
    | Some j \<Rightarrow> \<exists>fs' dp'. dir_read_loop (Some d) fs dp False ord chk res = Some (FR_OK, fs', dp') \<and> same_geo fs fs' \<and> at t d fs' dp' j
        \<and> (\<forall>i < SZDIRE. win fs' (dir dp' + i) = entry t d fs j i) \<and> attr (dir_obj dp') = entry t d fs j DIR_Attr AND AM_MASK"
  using assms
proof (induction "entries t fs - k" arbitrary: fs dp k ord chk res rule: less_induct)
  case less
  define E where "E = entry t d fs"
  note in_k = at_in [OF less.prems(1), THEN conjunct1] and sect = at_in [OF less.prems(1), THEN conjunct2]
  obtain fs1 where m: "move_window (Some d) fs (dir_sect dp) = (FR_OK, fs1)" and v1: "same_vol fs fs1" and at1: "at t d fs1 dp k"
    and w: "\<And>i. i < SZDIRE \<Longrightarrow> win fs1 (dir dp + i) = E k i"
    using at_window [OF less.prems(1)] unfolding E_def by blast
  note g1 = same_geo_vol [OF v1]
  have same: "entry t d fs1 = E" "entries t fs1 = entries t fs" "fs_type fs1 \<noteq> FS_EXFAT"
    using view_geo [OF g1] g1 less.prems(2) by (simp_all add: E_def same_geo_fields)
  have first: "win fs1 (dir dp) = E k 0" using w [of 0] by simp
  note simps = dir_read_loop.simps [of "Some d" fs dp False ord chk res, unfolded m]
  show ?case
  proof (cases "E k 0 = 0")
    case True
    then have "first_entry E k (entries t fs) P = None" for P using first_entry_step [OF in_k, of E] by simp
    moreover have "dir_read_loop (Some d) fs dp False ord chk res = Some (FR_NO_FILE, fs1, dp)" using True first sect by (simp add: simps)
    ultimately show ?thesis by (simp add: E_def)
  next
    case False
    from w show ?thesis
    proof (rule dir_read_entry_ok [of fs1 dp E k ord chk])
      fix b
      assume h: "entry_visible E k"
        and e: "dir_read_entry fs1 dp False ord chk = (Inl (), fs1, set_attr dp (E k DIR_Attr AND AM_MASK)\<lparr>blk_ofs := b\<rparr>)"
      have "first_entry E k (entries t fs) (entry_visible E) = Some k"
        using first_entry_step [OF in_k, of E] False h by simp
      moreover have "dir_read_loop (Some d) fs dp False ord chk res = Some (FR_OK, fs1, set_attr dp (E k DIR_Attr AND AM_MASK)\<lparr>blk_ofs := b\<rparr>)"
        using False first e sect same by (simp add: simps)
      ultimately show ?thesis using g1 at_attr [OF at1] w by (simp add: E_def set_attr_def)
    next
      fix b oc l
      define dp1 where "dp1 = set_attr dp (E k DIR_Attr AND AM_MASK)\<lparr>blk_ofs := b\<rparr>"
      assume h: "\<not> entry_visible E k"
        and "dir_read_entry fs1 dp False ord chk = (Inr oc, fs1\<lparr>lfnbuf := l\<rparr>, set_attr dp (E k DIR_Attr AND AM_MASK)\<lparr>blk_ofs := b\<rparr>)"
      moreover obtain ord' chk' where "oc = (ord', chk')" by force
      ultimately have e: "dir_read_entry fs1 dp False ord chk = (Inr (ord', chk'), fs1\<lparr>lfnbuf := l\<rparr>, dp1)" by (simp add: dp1_def)
      have at2: "at t d (fs1\<lparr>lfnbuf := l\<rparr>) dp1 k" unfolding dp1_def by (rule at_attr [OF at_lfnbuf [OF at1]])
      have same1: "entries t (fs1\<lparr>lfnbuf := l\<rparr>) = entries t fs"
        using view_geo [of fs "fs1\<lparr>lfnbuf := l\<rparr>"] g1 by simp
      have fe: "first_entry E k (entries t fs) (entry_visible E) = first_entry E (Suc k) (entries t fs) (entry_visible E)"
        using first_entry_step [OF in_k, of E] False h by simp
      show ?thesis
      proof (cases "Suc k < entries t fs")
        case True
        then obtain fs2 dp2 where n: "dir_next (Some d) (fs1\<lparr>lfnbuf := l\<rparr>) dp1 = (FR_OK, fs2, dp2)" and at3: "at t d fs2 dp2 (Suc k)"
          using at_next [OF at2] same1 by auto
        have g2: "same_geo fs fs2" using dir_next_geo [OF n] g1 by (auto intro: same_geo_trans)
        have same2: "entry t d fs2 = E" "entries t fs2 = entries t fs" "fs_type fs2 \<noteq> FS_EXFAT"
          using view_geo [OF g2] g2 less.prems(2) by (simp_all add: E_def same_geo_fields)
        have loop: "dir_read_loop (Some d) fs dp False ord chk res = dir_read_loop (Some d) fs2 dp2 False ord' chk' FR_OK"
          using False first e n sect same by (simp add: simps)
        have "entries t fs2 - Suc k < entries t fs - k" using in_k same2 by simp
        note IH = less.hyps [OF this at3 same2(3), of ord' chk' FR_OK, unfolded same2(1,2)]
        have "same_geo fs2 f \<Longrightarrow> same_geo fs f" for f using g2 by (rule same_geo_trans)
        then show ?thesis using IH fe unfolding loop E_def [symmetric]
          by (fastforce split: option.splits)
      next
        case last: False
        have suc: "Suc k = entries t fs" using in_k last by simp
        then obtain fs2 dp2 where n: "dir_next (Some d) (fs1\<lparr>lfnbuf := l\<rparr>) dp1 = (FR_NO_FILE, fs2, dp2)"
          using at_end [OF at2] same1 by auto
        have "first_entry E k (entries t fs) (entry_visible E) = None" using fe suc first_entry_end by metis
        then show ?thesis using False first e n sect same by (simp add: simps E_def)
      qed
    qed
  qed
qed

end

subsection \<open>The root table of FAT12 and FAT16\<close>

definition root_ok :: "FATFS \<Rightarrow> bool" where
  "root_ok fs \<longleftrightarrow> (fs_type fs = FS_FAT12 \<or> fs_type fs = FS_FAT16) \<and> 16 dvd unat (n_rootdir fs) \<and> 0 < dirbase fs \<and> dirbase fs < 2 ^ 63"

definition root_at :: "unit \<Rightarrow> disk \<Rightarrow> FATFS \<Rightarrow> DIR \<Rightarrow> nat \<Rightarrow> bool" where
  "root_at t d fs dp k \<longleftrightarrow> win_ok d fs \<and> root_ok fs \<and> k < unat (n_rootdir fs) \<and> dptr dp = of_nat (SZDIRE * k) \<and> dir_clust dp = 0
     \<and> dir_sect dp = dirbase fs + of_nat (SZDIRE * k div SS) \<and> dir dp = SZDIRE * k mod SS"

definition root_entry :: "unit \<Rightarrow> disk \<Rightarrow> FATFS \<Rightarrow> nat \<Rightarrow> bytes" where
  "root_entry t d fs k = (\<lambda>i. d (dirbase fs * SS + of_nat (SZDIRE * k + i)))"

definition root_entries :: "unit \<Rightarrow> FATFS \<Rightarrow> nat" where
  "root_entries t fs = unat (n_rootdir fs)"

lemma unat_ucast_u16: "unat (ucast (x :: u16) :: u32) = unat x"
  using unsigned_less [of x, where ?'a = nat] by (simp add: unsigned_ucast_eq take_bit_nat_eq_self)

lemma entry_in_sector:
  fixes k i :: nat
  assumes "i < SZDIRE"
  shows "SZDIRE * k mod SS + i < SS" "SZDIRE * k div SS * SS + (SZDIRE * k mod SS + i) = SZDIRE * k + i"
proof -
  have "SZDIRE * k mod SS = SZDIRE * (k mod 16)" using mult_mod_right [of 32 k 16] by simp
  moreover have "k mod 16 < 16" by simp
  ultimately show "SZDIRE * k mod SS + i < SS" using assms by linarith
  show "SZDIRE * k div SS * SS + (SZDIRE * k mod SS + i) = SZDIRE * k + i"
    using div_mult_mod_eq [of "SZDIRE * k" SS] by linarith
qed

lemma table_window:
  assumes w: "win_ok d fs" and s: "sct \<noteq> - 1" and b: "\<And>i. i < SZDIRE \<Longrightarrow> sector d sct (o1 + i) = e i" and o1: "o1 + 31 < SS"
  shows "\<exists>fs'. move_window (Some d) fs sct = (FR_OK, fs') \<and> same_vol fs fs' \<and> win_ok d fs' \<and> (\<forall>i < SZDIRE. win fs' (o1 + i) = e i)"
proof -
  obtain fs' where "move_window (Some d) fs sct = (FR_OK, fs')" "same_vol fs fs'" "win_ok d fs'"
    "\<And>i. i < SS \<Longrightarrow> win fs' i = sector d sct i"
    using move_window_ok [OF w s] by blast
  moreover have "o1 + i < SS" if "i < SZDIRE" for i using o1 that by linarith
  ultimately show ?thesis using b by auto
qed

lemma root_sector:
  assumes "root_ok fs" "k < unat (n_rootdir fs)"
  shows "dirbase fs + of_nat (SZDIRE * k div SS) \<noteq> - 1" "dirbase fs + of_nat (SZDIRE * k div SS) \<noteq> 0"
proof -
  have k: "k < 2 ^ 16" using assms(2) unsigned_less [of "n_rootdir fs", where ?'a = nat] by simp
  have d: "0 < unat (dirbase fs)" "unat (dirbase fs) < 2 ^ 63" using assms(1) by (simp_all add: root_ok_def word_less_nat_alt)
  have "unat (of_nat (SZDIRE * k div SS) :: u64) = SZDIRE * k div SS" using k by (simp add: unsigned_of_nat take_bit_nat_eq_self)
  then have u: "unat (dirbase fs + of_nat (SZDIRE * k div SS)) = unat (dirbase fs) + SZDIRE * k div SS"
    using k d by (simp add: unat_word_ariths)
  have "unat (- 1 :: u64) = 2 ^ 64 - 1" by (simp add: unsigned_minus_1_eq_mask mask_eq_exp_minus_1)
  then show "dirbase fs + of_nat (SZDIRE * k div SS) \<noteq> - 1" "dirbase fs + of_nat (SZDIRE * k div SS) \<noteq> 0"
    using u d k by (metis less_irrefl add_is_0 unsigned_0 | auto)+
qed

lemma unat_dptr:
  assumes "SZDIRE * Suc k \<le> 0x10000000"
  shows "unat (of_nat (SZDIRE * k) + SZDIRE :: u32) = SZDIRE * Suc k"
proof -
  have "of_nat (SZDIRE * k) + SZDIRE = (of_nat (SZDIRE * Suc k) :: u32)" by simp
  then show ?thesis using assms by (simp only: unsigned_of_nat) (simp add: take_bit_nat_eq_self)
qed

lemma next_entry_sector:
  fixes k :: nat
  shows "SZDIRE * Suc k mod SS = 0 \<Longrightarrow> SZDIRE * Suc k div SS = Suc (SZDIRE * k div SS)"
    "SZDIRE * Suc k mod SS \<noteq> 0 \<Longrightarrow> SZDIRE * Suc k div SS = SZDIRE * k div SS"
proof -
  have 1: "SZDIRE * j div SS = j div 16" "SZDIRE * j mod SS = SZDIRE * (j mod 16)" for j :: nat
    using div_mult2_eq [of "32 * j" 32 16] mult_mod_right [of 32 j 16] by simp_all
  show "SZDIRE * Suc k mod SS = 0 \<Longrightarrow> SZDIRE * Suc k div SS = Suc (SZDIRE * k div SS)"
    "SZDIRE * Suc k mod SS \<noteq> 0 \<Longrightarrow> SZDIRE * Suc k div SS = SZDIRE * k div SS"
    unfolding 1 by (simp_all add: div_Suc)
qed

lemma dir_next_root:
  assumes "root_at t d fs dp k"
  shows "Suc k < unat (n_rootdir fs) \<Longrightarrow> \<exists>dp'. dir_next (Some d) fs dp = (FR_OK, fs, dp') \<and> root_at t d fs dp' (Suc k)"
    and "Suc k = unat (n_rootdir fs) \<Longrightarrow> \<exists>dp'. dir_next (Some d) fs dp = (FR_NO_FILE, fs, dp')"
proof -
  note a = assms [unfolded root_at_def]
  have n: "unat (n_rootdir fs) < 2 ^ 16" using unsigned_less [of "n_rootdir fs", where ?'a = nat] by simp
  have r: "root_ok fs" and k: "k < unat (n_rootdir fs)" using a by simp_all
  have max: "max_dir fs = MAX_DIR" using r by (auto simp: max_dir_def root_ok_def)
  define ofs where "ofs = dptr dp + SZDIRE"
  have u: "unat ofs = SZDIRE * Suc k" using unat_dptr [of k] a n by (simp add: ofs_def)
  have lt: "\<not> max_dir fs \<le> ofs" using u n k unfolding max by (simp add: word_le_nat_alt)
  have um: "unat (ofs mod SS) = SZDIRE * Suc k mod SS" by (simp add: unat_mod u)
  have mod: "ofs mod SS = 0 \<longleftrightarrow> SZDIRE * Suc k mod SS = 0" unfolding um [symmetric] by (simp only: unat_eq_zero)
  have ge: "ucast (n_rootdir fs) \<le> ofs div SZDIRE \<longleftrightarrow> unat (n_rootdir fs) \<le> Suc k"
    by (simp add: word_le_nat_alt unat_div u unat_ucast_u16)
  have sect: "dir_sect dp \<noteq> 0" using a root_sector(2) [OF r k] by simp
  note def = dir_next_def [of "Some d" fs dp, folded ofs_def, unfolded Let_def]
  {
    assume suc: "Suc k < unat (n_rootdir fs)"
    define dp' where "dp' = dp\<lparr>dir_sect := dirbase fs + of_nat (SZDIRE * Suc k div SS), dptr := ofs, dir := unat (ofs mod SS)\<rparr>"
    have "dir_next (Some d) fs dp = (FR_OK, fs, dp')"
    proof (cases "ofs mod SS = 0")
      case True
      then have "dir_sect dp + 1 = dirbase fs + of_nat (SZDIRE * Suc k div SS)"
        using next_entry_sector(1) mod a by simp
      then show ?thesis using def lt sect True a ge suc by (simp add: dp'_def)
    next
      case False
      then have "dir_sect dp = dirbase fs + of_nat (SZDIRE * Suc k div SS)"
        using next_entry_sector(2) mod a by simp
      then show ?thesis using def lt sect False by (simp add: dp'_def)
    qed
    moreover have "root_at t d fs dp' (Suc k)"
      using a suc by (simp add: root_at_def dp'_def um) (simp add: ofs_def)
    ultimately show "\<exists>dp'. dir_next (Some d) fs dp = (FR_OK, fs, dp') \<and> root_at t d fs dp' (Suc k)" by blast
  next
    assume suc: "Suc k = unat (n_rootdir fs)"
    then have "16 dvd Suc k" using r by (simp add: root_ok_def)
    then have "SZDIRE * Suc k mod SS = 0" using mult_mod_right [of 32 "Suc k" 16] by simp
    then show "\<exists>dp'. dir_next (Some d) fs dp = (FR_NO_FILE, fs, dp')"
      using def lt sect mod a ge suc by simp
  }
qed

lemma root_view_geo: "same_geo fs fs' \<Longrightarrow> root_entry t d fs' = root_entry t d fs \<and> root_entries t fs' = root_entries t fs"
  by (simp add: root_entry_def root_entries_def same_geo_fields fun_eq_iff)

lemma root_at_same: "root_at t d fs dp k \<Longrightarrow> same_vol fs fs' \<Longrightarrow> win_ok d fs' \<Longrightarrow> root_at t d fs' dp k"
  by (simp add: root_at_def root_ok_def same_vol_fields)

lemma root_window:
  assumes "root_at t d fs dp k"
  shows "\<exists>fs'. move_window (Some d) fs (dir_sect dp) = (FR_OK, fs') \<and> same_vol fs fs' \<and> root_at t d fs' dp k
           \<and> (\<forall>i < SZDIRE. win fs' (dir dp + i) = root_entry t d fs k i)"
proof -
  note a = assms [unfolded root_at_def]
  have "sector d (dir_sect dp) (dir dp + i) = root_entry t d fs k i" if "i < SZDIRE" for i
  proof -
    have "sector d (dirbase fs + of_nat (SZDIRE * k div SS)) (SZDIRE * k mod SS + i) = d (dirbase fs * SS + of_nat (SZDIRE * k + i))"
      unfolding sector_addr entry_in_sector(2) [OF that] ..
    then show ?thesis using a by (simp add: root_entry_def)
  qed
  then show ?thesis
    using table_window [of d fs "dir_sect dp" "dir dp" "root_entry t d fs k"] a root_sector(1) entry_in_sector(1) [of 31 k]
      root_at_same [OF assms] by auto
qed

interpretation rt: entry_table root_at root_entry root_entries
proof unfold_locales
  fix t d fs dp k assume a: "root_at t d fs dp k"
  show "k < root_entries t fs \<and> dir_sect dp \<noteq> 0"
    using a root_sector(2) [of fs k] by (simp add: root_at_def root_entries_def)
  show "\<exists>fs'. move_window (Some d) fs (dir_sect dp) = (FR_OK, fs') \<and> same_vol fs fs' \<and> root_at t d fs' dp k
           \<and> (\<forall>i < SZDIRE. win fs' (dir dp + i) = root_entry t d fs k i)" by (rule root_window [OF a])
  show "Suc k < root_entries t fs \<Longrightarrow> \<exists>fs' dp'. dir_next (Some d) fs dp = (FR_OK, fs', dp') \<and> root_at t d fs' dp' (Suc k)"
    using dir_next_root(1) [OF a] by (auto simp: root_entries_def)
  show "Suc k = root_entries t fs \<Longrightarrow> \<exists>fs' dp'. dir_next (Some d) fs dp = (FR_NO_FILE, fs', dp')"
    using dir_next_root(2) [OF a] by (auto simp: root_entries_def)
  show "root_at t d fs (set_attr dp a\<lparr>blk_ofs := b\<rparr>) k" for a b
    using a by (simp add: root_at_def set_attr_def)
  show "root_at t d (fs\<lparr>lfnbuf := l\<rparr>) dp k" for l
    using a by (simp add: root_at_def root_ok_def win_ok_def)
qed (rule root_view_geo)

subsection \<open>Directories in clusters\<close>

text \<open>The clusters of a directory: linked by the allocation table up to an end mark, not longer than a directory may be.\<close>

definition dir_chain :: "disk \<Rightarrow> FATFS \<Rightarrow> FFOBJID \<Rightarrow> u32 list \<Rightarrow> bool" where
  "dir_chain d fs obj cs \<longleftrightarrow> cs \<noteq> [] \<and> (\<forall>c \<in> set cs. 2 \<le> c \<and> c < n_fatent fs)
     \<and> (\<forall>i. Suc i < length cs \<longrightarrow> fat_val d fs obj (cs ! i) = cs ! Suc i)
     \<and> n_fatent fs \<le> fat_val d fs obj (last cs) \<and> fat_val d fs obj (last cs) \<noteq> 0xFFFFFFFF
     \<and> length cs * bcs fs \<le> unat (max_dir fs)"

definition chain_at :: "u32 list \<Rightarrow> disk \<Rightarrow> FATFS \<Rightarrow> DIR \<Rightarrow> nat \<Rightarrow> bool" where
  "chain_at cs d fs dp k \<longleftrightarrow> vol_ok d fs \<and> dir_chain d fs (dir_obj dp) cs \<and> SZDIRE * k < length cs * bcs fs
     \<and> dptr dp = of_nat (SZDIRE * k) \<and> dir_clust dp = cs ! (SZDIRE * k div bcs fs)
     \<and> dir_sect dp = file_sect fs cs (SZDIRE * k) \<and> dir dp = SZDIRE * k mod SS"

definition chain_entry :: "u32 list \<Rightarrow> disk \<Rightarrow> FATFS \<Rightarrow> nat \<Rightarrow> bytes" where
  "chain_entry cs d fs k = (\<lambda>i. file_byte d fs cs (SZDIRE * k + i))"

definition chain_entries :: "u32 list \<Rightarrow> FATFS \<Rightarrow> nat" where
  "chain_entries cs fs = length cs * bcs fs div SZDIRE"

lemma chain_entries_iff: "SZDIRE * k < length cs * bcs fs \<longleftrightarrow> k < chain_entries cs fs"
proof -
  have "bcs fs = SZDIRE * (16 * unat (csize fs))" by (simp add: bcs_def)
  then show ?thesis by (simp add: chain_entries_def)
qed

lemma fat_val_attr: "fat_val d fs (obj\<lparr>attr := a\<rparr>) c = fat_val d fs obj c"
proof -
  have f: "objsize (obj\<lparr>attr := a\<rparr>) = objsize obj" "sclust (obj\<lparr>attr := a\<rparr>) = sclust obj" "stat (obj\<lparr>attr := a\<rparr>) = stat obj"
    "n_cont (obj\<lparr>attr := a\<rparr>) = n_cont obj" "n_frag (obj\<lparr>attr := a\<rparr>) = n_frag obj" by simp_all
  show ?thesis unfolding fat_val_def f ..
qed

lemma fat_val_geo: "same_geo fs fs' \<Longrightarrow> fat_val d fs' obj c = fat_val d fs obj c"
proof -
  assume g: "same_geo fs fs'"
  note f = same_geo_fields [OF g]
  have b: "fat_byte d fs' k = fat_byte d fs k" for k by (simp add: fat_byte_def f)
  have e: "fat_entry d fs' k = fat_entry d fs k" for k by (simp add: fat_entry_def fat_dword_def b f)
  show ?thesis unfolding fat_val_def e f ..
qed

lemma views_geo:
  assumes "same_geo fs fs'"
  shows "bcs fs' = bcs fs" "file_byte d fs' cs k = file_byte d fs cs k" "file_sect fs' cs k = file_sect fs cs k"
    "dir_chain d fs' obj cs = dir_chain d fs obj cs"
proof -
  note f = same_geo_fields [OF assms] fat_val_geo [OF assms]
  have c: "clst2sect fs' x = clst2sect fs x" for x unfolding clst2sect_def f ..
  show 1: "bcs fs' = bcs fs" by (simp add: bcs_def f)
  show "file_byte d fs' cs k = file_byte d fs cs k" by (simp add: file_byte_def 1 c)
  show "file_sect fs' cs k = file_sect fs cs k" by (simp add: file_sect_def 1 c)
  show "dir_chain d fs' obj cs = dir_chain d fs obj cs" by (simp add: dir_chain_def 1 f)
qed

lemma vol_ok_geo: "vol_ok d fs \<Longrightarrow> same_geo fs fs' \<Longrightarrow> win_ok d fs' \<Longrightarrow> vol_ok d fs'"
  by (simp add: vol_ok_def geom_ok_def same_geo_fields)

lemma chain_sector:
  assumes "vol_ok d fs" "dir_chain d fs obj cs" "P < length cs * bcs fs"
  shows "P div bcs fs < length cs" "file_sect fs cs P \<noteq> 0" "file_sect fs cs P \<noteq> - 1"
    "2 \<le> cs ! (P div bcs fs)" "cs ! (P div bcs fs) < n_fatent fs"
proof -
  show l: "P div bcs fs < length cs" using assms(3) by (simp add: less_mult_imp_div_less)
  show r: "2 \<le> cs ! (P div bcs fs)" "cs ! (P div bcs fs) < n_fatent fs" using assms(2) nth_mem [OF l] by (auto simp: dir_chain_def)
  have "P mod bcs fs < unat (csize fs) * SS" using bcs_pos [OF assms(1)] by (simp add: bcs_def mod_less_divisor)
  then have q: "P mod bcs fs div SS < unat (csize fs)" by (simp add: less_mult_imp_div_less)
  then show "file_sect fs cs P \<noteq> 0" using sect_not_zero(1) [OF assms(1) r] by (simp add: file_sect_def)
  have u: "unat (clst2sect fs (cs ! (P div bcs fs)) + of_nat (P mod bcs fs div SS + 1)) \<noteq> 0"
    using sect_not_zero(1) [OF assms(1) r, of "P mod bcs fs div SS + 1"] q by (simp add: unat_eq_zero)
  show "file_sect fs cs P \<noteq> - 1"
  proof
    assume "file_sect fs cs P = - 1"
    moreover have "clst2sect fs (cs ! (P div bcs fs)) + of_nat (P mod bcs fs div SS + 1) = file_sect fs cs P + 1"
      by (simp add: file_sect_def)
    ultimately have "clst2sect fs (cs ! (P div bcs fs)) + of_nat (P mod bcs fs div SS + 1) = 0" by simp
    with u show False by simp
  qed
qed

lemma chain_window:
  assumes "chain_at cs d fs dp k"
  shows "\<exists>fs'. move_window (Some d) fs (dir_sect dp) = (FR_OK, fs') \<and> same_vol fs fs' \<and> chain_at cs d fs' dp k
           \<and> (\<forall>i < SZDIRE. win fs' (dir dp + i) = chain_entry cs d fs k i)"
proof -
  note a = assms [unfolded chain_at_def]
  have "sector d (dir_sect dp) (dir dp + i) = chain_entry cs d fs k i" if "i < SZDIRE" for i
    using file_byte_sector [of d fs "SZDIRE * k" i cs] entry_in_sector(1) [OF that] a by (simp add: chain_entry_def)
  moreover have "win_ok d fs" "dir_sect dp \<noteq> - 1" using a chain_sector(3) [of d fs "dir_obj dp" cs] by (auto simp: vol_ok_def)
  moreover have "chain_at cs d fs' dp k" if "same_vol fs fs'" "win_ok d fs'" for fs'
    using a that vol_ok_same [of d fs fs'] views_geo [OF same_geo_vol [OF that(1)]] by (simp add: chain_at_def)
  ultimately show ?thesis
    using table_window [of d fs "dir_sect dp" "dir dp" "chain_entry cs d fs k"] a entry_in_sector(1) [of 31 k] by auto
qed

text \<open>Where the next entry stands: in the same sector, in the next sector of the cluster or in the next cluster.\<close>

lemma next_entry_cluster:
  fixes k m :: nat
  assumes "0 < m"
  shows "SZDIRE * Suc k mod SS \<noteq> 0 \<Longrightarrow> SZDIRE * Suc k div (m * SS) = SZDIRE * k div (m * SS)
           \<and> SZDIRE * Suc k mod (m * SS) div SS = SZDIRE * k mod (m * SS) div SS"
    and "SZDIRE * Suc k mod SS = 0 \<Longrightarrow> SZDIRE * Suc k div SS mod m \<noteq> 0 \<Longrightarrow> SZDIRE * Suc k div (m * SS) = SZDIRE * k div (m * SS)
           \<and> SZDIRE * Suc k mod (m * SS) div SS = Suc (SZDIRE * k mod (m * SS) div SS)"
    and "SZDIRE * Suc k mod SS = 0 \<Longrightarrow> SZDIRE * Suc k div SS mod m = 0 \<Longrightarrow> SZDIRE * Suc k div (m * SS) = Suc (SZDIRE * k div (m * SS))
           \<and> SZDIRE * Suc k mod (m * SS) div SS = 0"
proof -
  have d: "x div (m * SS) = x div SS div m" "x mod (m * SS) div SS = x div SS mod m" for x :: nat
    using div_mult2_eq [of x SS m] mod_mult2_eq [of x SS m] by (simp_all add: mult.commute)
  {
    assume "SZDIRE * Suc k mod SS \<noteq> 0"
    from next_entry_sector(2) [OF this] show "SZDIRE * Suc k div (m * SS) = SZDIRE * k div (m * SS)
           \<and> SZDIRE * Suc k mod (m * SS) div SS = SZDIRE * k mod (m * SS) div SS" unfolding d by simp
  next
    assume "SZDIRE * Suc k mod SS = 0"
    note n = next_entry_sector(1) [OF this]
    show "SZDIRE * Suc k div SS mod m \<noteq> 0 \<Longrightarrow> SZDIRE * Suc k div (m * SS) = SZDIRE * k div (m * SS)
           \<and> SZDIRE * Suc k mod (m * SS) div SS = Suc (SZDIRE * k mod (m * SS) div SS)"
      "SZDIRE * Suc k div SS mod m = 0 \<Longrightarrow> SZDIRE * Suc k div (m * SS) = Suc (SZDIRE * k div (m * SS))
           \<and> SZDIRE * Suc k mod (m * SS) div SS = 0"
      unfolding d n using assms by (auto simp: div_Suc mod_Suc split: if_splits)
  }
qed

lemma cluster_changed:
  assumes "vol_ok d fs"
  shows "(ofs :: u32) div SS AND (ucast (csize fs) - 1) = 0 \<longleftrightarrow> unat ofs div SS mod unat (csize fs) = 0"
proof -
  obtain j where j: "j < 16" "unat (csize fs) = 2 ^ j" "bcs fs = 2 ^ j * SS" using vol_ok_bcs [OF assms] .
  have "ucast (csize fs) = (2 ^ j :: u32)" using arg_cong [OF j(2), of "of_nat :: nat \<Rightarrow> u32"] by simp
  then have "ofs div SS AND (ucast (csize fs) - 1) = ofs div SS AND mask j" by (simp add: mask_eq_exp_minus_1)
  then have "unat (ofs div SS AND (ucast (csize fs) - 1)) = unat ofs div SS mod unat (csize fs)"
    by (simp add: unat_and_mask_low unat_div j)
  then show ?thesis by (metis unat_eq_zero)
qed

lemma dir_next_chain:
  assumes a: "chain_at cs d fs dp k"
  shows "Suc k < chain_entries cs fs \<Longrightarrow> \<exists>fs' dp'. dir_next (Some d) fs dp = (FR_OK, fs', dp') \<and> chain_at cs d fs' dp' (Suc k)"
    and "Suc k = chain_entries cs fs \<Longrightarrow> \<exists>fs' dp'. dir_next (Some d) fs dp = (FR_NO_FILE, fs', dp')"
proof -
  define P where "P = SZDIRE * Suc k"
  define ofs where "ofs = dptr dp + SZDIRE"
  define m where "m = unat (csize fs)"
  have v: "vol_ok d fs" and c: "dir_chain d fs (dir_obj dp) cs" and k: "SZDIRE * k < length cs * bcs fs" using a by (simp_all add: chain_at_def)
  have B: "bcs fs = m * SS" "0 < m" using bcs_pos [OF v] by (simp_all add: m_def bcs_def)
  have len: "length cs * bcs fs = SZDIRE * chain_entries cs fs" using B by (simp add: chain_entries_def)
  have P_le: "P \<le> length cs * bcs fs" using k unfolding P_def len by simp
  have max: "length cs * bcs fs \<le> unat (max_dir fs)" "unat (max_dir fs) \<le> 0x10000000"
    using c max_dir_le [of fs] by (simp_all add: dir_chain_def word_le_nat_alt)
  have u: "unat ofs = P" using unat_dptr [of k] a P_le max by (simp add: ofs_def P_def chain_at_def)
  have um: "unat (ofs mod SS) = P mod SS" by (simp add: unat_mod u)
  have mod: "ofs mod SS = 0 \<longleftrightarrow> P mod SS = 0" unfolding um [symmetric] by (simp only: unat_eq_zero)
  have cc: "ofs div SS AND (ucast (csize fs) - 1) = 0 \<longleftrightarrow> P div SS mod m = 0" unfolding cluster_changed [OF v] u m_def ..
  note sec = chain_sector [OF v c k]
  have sect: "dir_sect dp \<noteq> 0" "dir_clust dp \<noteq> 0" using a sec by (auto simp: chain_at_def)
  obtain fs1 where g: "get_fat (Some d) fs (dir_obj dp) (dir_clust dp) = (fat_val d fs (dir_obj dp) (dir_clust dp), fs1)"
    "same_vol fs fs1" "win_ok d fs1" using get_fat_ok v unfolding vol_ok_def by blast
  note def = dir_next_def [of "Some d" fs dp, folded ofs_def, unfolded Let_def]
  note same = next_entry_cluster [OF B(2), of k, folded P_def, folded B(1)]
  {
    assume "Suc k < chain_entries cs fs"
    then have P: "P < length cs * bcs fs" by (simp add: P_def len)
    then have lt: "\<not> max_dir fs \<le> ofs" using max u by (simp add: word_le_nat_alt)
    define dp' where "dp' = dp\<lparr>dir_clust := cs ! (P div bcs fs), dir_sect := file_sect fs cs P, dptr := ofs, dir := unat (ofs mod SS)\<rparr>"
    have "\<exists>fs'. dir_next (Some d) fs dp = (FR_OK, fs', dp') \<and> same_vol fs fs' \<and> win_ok d fs'"
    proof (cases "P mod SS = 0 \<and> P div SS mod m = 0")
      case True
      then have s: "P div bcs fs = Suc (SZDIRE * k div bcs fs)" "P mod bcs fs div SS = 0" using same(3) by simp_all
      then have "Suc (SZDIRE * k div bcs fs) < length cs" using P by (metis less_mult_imp_div_less)
      then have f: "fat_val d fs (dir_obj dp) (dir_clust dp) = cs ! (P div bcs fs)" using a c s by (simp add: chain_at_def dir_chain_def)
      have r: "2 \<le> cs ! (P div bcs fs)" "cs ! (P div bcs fs) < n_fatent fs" by (fact chain_sector [OF v c P])+
      then have r': "\<not> cs ! (P div bcs fs) \<le> 1" "cs ! (P div bcs fs) \<noteq> 0xFFFFFFFF" "\<not> n_fatent fs \<le> cs ! (P div bcs fs)"
        using unsigned_less [of "n_fatent fs", where ?'a = nat] by (auto simp: word_le_nat_alt word_less_nat_alt)
      have "file_sect fs cs P = clst2sect fs1 (cs ! (P div bcs fs))" using s g by (simp add: file_sect_def same_vol_clst2sect)
      then show ?thesis using def lt sect mod cc True g f r' by (simp add: dp'_def same_vol_fields)
    next
      case False
      have "P div bcs fs = SZDIRE * k div bcs fs" using same(1,2) False by (cases "P mod SS = 0") simp_all
      then have c': "cs ! (P div bcs fs) = dir_clust dp" using a by (simp add: chain_at_def)
      show ?thesis
      proof (cases "P mod SS = 0")
        case True
        then have "file_sect fs cs P = dir_sect dp + 1" using same(2) False a by (simp add: chain_at_def file_sect_def)
        then show ?thesis using def lt sect mod cc True False c' v by (simp add: dp'_def vol_ok_def)
      next
        case nz: False
        then have "file_sect fs cs P = dir_sect dp" using same(1) a by (simp add: chain_at_def file_sect_def)
        then show ?thesis using def lt sect mod nz c' v by (simp add: dp'_def vol_ok_def)
      qed
    qed
    moreover have "chain_at cs d fs' dp' (Suc k)" if "same_vol fs fs'" "win_ok d fs'" for fs'
    proof -
      have "chain_at cs d fs dp' (Suc k)"
        using v c P by (simp add: chain_at_def dp'_def um flip: P_def) (use a in \<open>simp add: ofs_def chain_at_def P_def\<close>)
      then show ?thesis using that vol_ok_same [OF v that] views_geo [OF same_geo_vol [OF that(1)]] by (simp add: chain_at_def)
    qed
    ultimately show "\<exists>fs' dp'. dir_next (Some d) fs dp = (FR_OK, fs', dp') \<and> chain_at cs d fs' dp' (Suc k)" by blast
  next
    assume "Suc k = chain_entries cs fs"
    then have P: "P = length cs * (m * SS)" by (simp add: P_def len flip: B(1))
    then have z: "P mod SS = 0" "P div SS mod m = 0" by (simp_all add: mult.assoc [symmetric])
    have "P div bcs fs = length cs" using P B by simp
    then have "SZDIRE * k div bcs fs = length cs - 1" using same(3) z by simp
    then have "dir_clust dp = last cs" using a c by (simp add: chain_at_def dir_chain_def last_conv_nth)
    then have f: "n_fatent fs \<le> fat_val d fs (dir_obj dp) (dir_clust dp)" "fat_val d fs (dir_obj dp) (dir_clust dp) \<noteq> 0xFFFFFFFF"
      using c by (simp_all add: dir_chain_def)
    moreover have "\<not> fat_val d fs (dir_obj dp) (dir_clust dp) \<le> 1"
      using f(1) sec(4,5) by (auto simp: word_le_nat_alt word_less_nat_alt)
    ultimately show "\<exists>fs' dp'. dir_next (Some d) fs dp = (FR_NO_FILE, fs', dp')"
      using def sect mod cc z g by (simp add: same_vol_fields)
  }
qed

interpretation ct: entry_table chain_at chain_entry chain_entries
proof unfold_locales
  fix cs d fs dp k assume a: "chain_at cs d fs dp k"
  show "k < chain_entries cs fs \<and> dir_sect dp \<noteq> 0"
    using a chain_sector(2) [of d fs "dir_obj dp" cs "SZDIRE * k"] by (simp add: chain_at_def flip: chain_entries_iff)
  show "\<exists>fs'. move_window (Some d) fs (dir_sect dp) = (FR_OK, fs') \<and> same_vol fs fs' \<and> chain_at cs d fs' dp k
           \<and> (\<forall>i < SZDIRE. win fs' (dir dp + i) = chain_entry cs d fs k i)" by (rule chain_window [OF a])
  show "Suc k < chain_entries cs fs \<Longrightarrow> \<exists>fs' dp'. dir_next (Some d) fs dp = (FR_OK, fs', dp') \<and> chain_at cs d fs' dp' (Suc k)"
    "Suc k = chain_entries cs fs \<Longrightarrow> \<exists>fs' dp'. dir_next (Some d) fs dp = (FR_NO_FILE, fs', dp')"
    by (fact dir_next_chain [OF a])+
  show "chain_at cs d fs (set_attr dp a\<lparr>blk_ofs := b\<rparr>) k" for a b
    using a by (simp add: chain_at_def set_attr_def dir_chain_def fat_val_attr)
  show "chain_at cs d (fs\<lparr>lfnbuf := l\<rparr>) dp k" for l
    using a vol_ok_geo [of d fs "fs\<lparr>lfnbuf := l\<rparr>"] views_geo [of fs "fs\<lparr>lfnbuf := l\<rparr>"]
    by (simp add: chain_at_def win_ok_def vol_ok_def [of d fs])
next
  fix cs d fs fs' assume "same_geo fs fs'"
  from views_geo [OF this] show "chain_entry cs d fs' = chain_entry cs d fs \<and> chain_entries cs fs' = chain_entries cs fs"
    by (simp add: chain_entry_def chain_entries_def fun_eq_iff)
qed

subsection \<open>Looking up and reading a directory of either kind\<close>

text \<open>Where the table of a directory starts: \<^verbatim>\<open>dir_sdi\<close> replaces cluster 0 by the root cluster on FAT32 and exFAT.\<close>

definition dir_start :: "FATFS \<Rightarrow> FFOBJID \<Rightarrow> u32 \<times> FFOBJID" where
  "dir_start fs obj = (if sclust obj = 0 \<and> FS_FAT32 \<le> fs_type fs then (ucast (dirbase fs), obj\<lparr>stat := 0\<rparr>) else (sclust obj, obj))"

text \<open>The directory object \<open>obj\<close> is the table \<open>E\<close> of \<open>n\<close> entries on the disk.\<close>

definition dir_table :: "disk \<Rightarrow> FATFS \<Rightarrow> FFOBJID \<Rightarrow> (nat \<Rightarrow> bytes) \<Rightarrow> nat \<Rightarrow> bool" where
  "dir_table d fs obj E n \<longleftrightarrow>
     (sclust obj = 0 \<and> root_ok fs \<and> win_ok d fs \<and> 0 < n \<and> n = root_entries () fs \<and> E = root_entry () d fs) \<or>
     (\<exists>cs. vol_ok d fs \<and> dir_chain d fs (snd (dir_start fs obj)) cs \<and> cs ! 0 = fst (dir_start fs obj)
         \<and> n = chain_entries cs fs \<and> E = chain_entry cs d fs)"

definition table_at :: "disk \<Rightarrow> FATFS \<Rightarrow> DIR \<Rightarrow> (nat \<Rightarrow> bytes) \<Rightarrow> nat \<Rightarrow> nat \<Rightarrow> bool" where
  "table_at d fs dp E n k \<longleftrightarrow> (root_at () d fs dp k \<and> E = root_entry () d fs \<and> n = root_entries () fs) \<or>
     (\<exists>cs. chain_at cs d fs dp k \<and> E = chain_entry cs d fs \<and> n = chain_entries cs fs)"

text \<open>A search for the entry \<open>r\<close> ends there, with the entry in the window, or reports that there is none.\<close>

definition search_ok :: "disk \<Rightarrow> FATFS \<Rightarrow> (nat \<Rightarrow> bytes) \<Rightarrow> nat \<Rightarrow> nat option \<Rightarrow> (FRESULT \<times> FATFS \<times> DIR) option \<Rightarrow> bool" where
  "search_ok d fs E n r out =
     (case r of
        None \<Rightarrow> \<exists>fs' dp'. out = Some (FR_NO_FILE, fs', dp')
      | Some j \<Rightarrow> \<exists>fs' dp'. out = Some (FR_OK, fs', dp') \<and> same_geo fs fs' \<and> table_at d fs' dp' E n j \<and> dptr dp' = of_nat (SZDIRE * j)
          \<and> (\<forall>i < SZDIRE. win fs' (dir dp' + i) = E j i) \<and> attr (dir_obj dp') = E j DIR_Attr AND AM_MASK)"

lemma root_found:
  assumes "root_at () d fs' dp j" "same_geo fs fs'"
  shows "table_at d fs' dp (root_entry () d fs) (root_entries () fs) j"
  using assms rt.view_geo [OF assms(2), of "()" d] by (simp add: table_at_def)

lemma chain_found:
  assumes "chain_at cs d fs' dp j" "same_geo fs fs'"
  shows "table_at d fs' dp (chain_entry cs d fs) (chain_entries cs fs) j"
  using assms ct.view_geo [OF assms(2), of cs d] unfolding table_at_def by metis

lemma root_at_dptr: "root_at t d fs dp j \<Longrightarrow> dptr dp = of_nat (SZDIRE * j)"
  by (simp add: root_at_def)

lemma chain_at_dptr: "chain_at cs d fs dp j \<Longrightarrow> dptr dp = of_nat (SZDIRE * j)"
  by (simp add: chain_at_def)

lemma table_find_loop:
  assumes "table_at d fs dp E n 0" "fn dp NSFLAG AND NS_NOLFN = 0"
  shows "search_ok d fs E n (first_entry E 0 n (entry_matches E (lfnbuf fs) (fn dp))) (dir_find_loop (Some d) fs dp 0xFF 0xFF)"
proof -
  note s = lfn_state_0 [of E "lfnbuf fs" "0xFF"]
  consider (root) "root_at () d fs dp 0" "E = root_entry () d fs" "n = root_entries () fs"
    | (chain) cs where "chain_at cs d fs dp 0" "E = chain_entry cs d fs" "n = chain_entries cs fs"
    using assms(1) unfolding table_at_def by blast
  then show ?thesis
  proof cases
    case root
    from rt.find_loop [OF root(1) s [unfolded root] assms(2)] show ?thesis unfolding search_ok_def root
      by (auto split: option.splits simp: same_geo_vol root_found root_at_dptr)
  next
    case chain
    from ct.find_loop [OF chain(1) s [unfolded chain] assms(2)] show ?thesis unfolding search_ok_def chain
      by (auto split: option.splits simp: same_geo_vol chain_found chain_at_dptr)
  qed
qed

lemma table_read_loop:
  assumes "table_at d fs dp E n k" "fs_type fs \<noteq> FS_EXFAT"
  shows "search_ok d fs E n (first_entry E k n (entry_visible E)) (dir_read_loop (Some d) fs dp False ord chk res)"
proof -
  consider (root) "root_at () d fs dp k" "E = root_entry () d fs" "n = root_entries () fs"
    | (chain) cs where "chain_at cs d fs dp k" "E = chain_entry cs d fs" "n = chain_entries cs fs"
    using assms(1) unfolding table_at_def by blast
  then show ?thesis
  proof cases
    case root
    from rt.read_loop [OF root(1) assms(2), of ord chk res] show ?thesis unfolding search_ok_def root
      by (auto split: option.splits simp: root_found root_at_dptr)
  next
    case chain
    from ct.read_loop [OF chain(1) assms(2), of ord chk res] show ?thesis unfolding search_ok_def chain
      by (auto split: option.splits simp: chain_found chain_at_dptr)
  qed
qed

lemma dir_sdi_start:
  assumes "dir_table d fs (dir_obj dp) E n"
  obtains dp' where "dir_sdi (Some d) fs dp 0 = Some (FR_OK, fs, dp')" "table_at d fs (dp'\<lparr>blk_ofs := b\<rparr>) E n 0" "fn dp' = fn dp"
proof -
  have max: "0 < max_dir fs" by (simp add: max_dir_def)
  consider (root) "sclust (dir_obj dp) = 0" "root_ok fs" "win_ok d fs" "0 < n" "n = root_entries () fs" "E = root_entry () d fs"
    | (chain) cs where "vol_ok d fs" "dir_chain d fs (snd (dir_start fs (dir_obj dp))) cs" "cs ! 0 = fst (dir_start fs (dir_obj dp))"
        "n = chain_entries cs fs" "E = chain_entry cs d fs"
    using assms unfolding dir_table_def by blast
  then show thesis
  proof cases
    case root
    define dp' where "dp' = dp\<lparr>dptr := 0, dir_sect := dirbase fs, dir_clust := 0, dir := 0\<rparr>"
    have t: "\<not> FS_FAT32 \<le> fs_type fs" using root(2) by (auto simp: root_ok_def word_le_nat_alt)
    have n: "\<not> ucast (n_rootdir fs) \<le> (0 :: u32)"
      using root(4,5) by (simp add: root_entries_def word_le_nat_alt unat_ucast_u16)
    have "dir_sdi (Some d) fs dp 0 = Some (FR_OK, fs, dp')"
      using root t n max by (auto simp: dir_sdi_def dir_sdi_set_def dp'_def root_ok_def Let_def)
    moreover have "root_at () d fs (dp'\<lparr>blk_ofs := b\<rparr>) 0"
      using root by (simp add: root_at_def dp'_def root_entries_def)
    ultimately show thesis using that [of dp'] root by (simp add: table_at_def dp'_def)
  next
    case chain
    obtain c obj where s: "dir_start fs (dir_obj dp) = (c, obj)" by force
    have "cs \<noteq> []" using chain(2) by (simp add: dir_chain_def)
    then have c: "2 \<le> c" "c < n_fatent fs" "0 < length cs * bcs fs"
      using chain s bcs_pos [OF chain(1)] by (auto simp: dir_chain_def)
    then have c0: "c \<noteq> 0" by auto
    note sect = sect_not_zero(2) [OF chain(1) c(1,2), of 0]
    define dp' where "dp' = dp\<lparr>dptr := 0, dir_obj := obj, dir_sect := clst2sect fs c, dir_clust := c, dir := 0\<rparr>"
    have "csize fs \<noteq> 0" using bcs_pos [OF chain(1)] by (auto simp: bcs_def)
    from csize_bytes [OF this] have "0 < (ucast (csize fs) * SS :: u32)" by (simp only: word_gt_0)
    then have "dir_sdi_loop (Some d) fs obj c 0 (ucast (csize fs) * SS) = Some (Inr (c, 0), fs)"
      by (subst dir_sdi_loop.simps) (simp flip: not_less)
    then have "dir_sdi (Some d) fs dp 0 = Some (FR_OK, fs, dp')"
      using s c0 sect max
      by (auto simp: dir_sdi_def dir_sdi_set_def dp'_def dir_start_def Let_def not_le split: if_splits)
    moreover have "chain_at cs d fs (dp'\<lparr>blk_ofs := b\<rparr>) 0"
      using chain c s by (simp add: chain_at_def dp'_def file_sect_def)
    ultimately show thesis using that [of dp'] chain by (auto simp: table_at_def dp'_def)
  qed
qed

lemma dir_find_table:
  assumes "dir_table d fs (dir_obj dp) E n" "fs_type fs \<noteq> FS_EXFAT" "fn dp NSFLAG AND NS_NOLFN = 0"
  shows "search_ok d fs E n (first_entry E 0 n (entry_matches E (lfnbuf fs) (fn dp))) (dir_find (Some d) fs dp)"
proof -
  obtain dp' where s: "dir_sdi (Some d) fs dp 0 = Some (FR_OK, fs, dp')" "table_at d fs (dp'\<lparr>blk_ofs := 0xFFFFFFFF\<rparr>) E n 0" "fn dp' = fn dp"
    using dir_sdi_start [OF assms(1)] by blast
  have "dir_find (Some d) fs dp = dir_find_loop (Some d) fs (dp'\<lparr>blk_ofs := 0xFFFFFFFF\<rparr>) 0xFF 0xFF"
    using s(1) assms(2) by (simp add: dir_find_def)
  then show ?thesis using table_find_loop [OF s(2)] s(3) assms(3) by simp
qed

lemma dir_read_table:
  assumes "table_at d fs dp E n k" "fs_type fs \<noteq> FS_EXFAT"
  shows "search_ok d fs E n (first_entry E k n (entry_visible E)) (dir_read (Some d) fs dp False)"
  using table_read_loop [OF assms, of "0xFF" "0xFF" FR_NO_FILE]
  by (auto simp: search_ok_def dir_read_def split: option.splits)

subsection \<open>Properties\<close>

text \<open>
  C21. Looking up a name in a directory of a FAT12, FAT16 or FAT32 volume, the root table or a chain of clusters,
  stops at the first entry, before the end mark, that is the entry of an object with this name: its short name is
  the wanted one, or the parts of a long name equal to the wanted one stand right before it, complete, in order
  and with its checksum. The entry is then in the window. Without such an entry the result is \<^verbatim>\<open>FR_NO_FILE\<close>.
\<close>

theorem dir_find_finds_the_first_match:
  assumes "dir_table d fs (dir_obj dp) E n" and "fs_type fs \<noteq> FS_EXFAT" and "fn dp NSFLAG AND NS_NOLFN = 0"
  shows "search_ok d fs E n (first_entry E 0 n (entry_matches E (lfnbuf fs) (fn dp))) (dir_find (Some d) fs dp)"
  by (rule dir_find_table [OF assms])

text \<open>The root table of \<open>example_fs\<close> with a deleted entry, a volume label and the file \<^verbatim>\<open>BBBBBBBBBBB\<close>.\<close>

definition example_root_disk :: disk where
  "example_root_disk a = (let n = unat a in if n = 1536 then DDEM else if n = 1579 then AM_VOL else if 1536 \<le> n \<and> n < 1611 then 0x42 else 0)"

definition example_root_dir :: DIR where
  "example_root_dir = example_dir\<lparr>dir_obj := example_obj\<lparr>sclust := 0\<rparr>, fn := (\<lambda>i. if i < 11 then 0x42 else 0)\<rparr>"

lemma example_root_table: "dir_table example_root_disk example_fs (dir_obj example_root_dir) (root_entry () example_root_disk example_fs) 16"
proof -
  have "win_ok example_root_disk example_fs" "root_ok example_fs" by (simp_all add: win_ok_def root_ok_def example_fs_def)
  then show ?thesis by (simp add: dir_table_def example_root_dir_def root_entries_def example_fs_def)
qed

lemma example_root_bytes:
  assumes "k < 16" "i < SZDIRE"
  shows "root_entry () example_root_disk example_fs k i =
    (let n = 1536 + (SZDIRE * k + i) in if n = 1536 then DDEM else if n = 1579 then AM_VOL else if 1536 \<le> n \<and> n < 1611 then 0x42 else 0)"
proof -
  define n where "n = 1536 + (SZDIRE * k + i)"
  have "dirbase example_fs * SS + of_nat (SZDIRE * k + i) = (of_nat n :: u64)" by (simp add: n_def example_fs_def)
  moreover have "unat (of_nat n :: u64) = n" using assms by (simp only: unsigned_of_nat) (simp add: n_def take_bit_nat_eq_self)
  ultimately show ?thesis by (simp only: root_entry_def example_root_disk_def Let_def n_def)
qed

lemma example_root_entries:
  "root_entry () example_root_disk example_fs 0 0 = DDEM" "root_entry () example_root_disk example_fs 1 0 = 0x42"
  "root_entry () example_root_disk example_fs 2 0 = 0x42" "root_entry () example_root_disk example_fs 1 DIR_Attr = AM_VOL"
  "root_entry () example_root_disk example_fs 2 DIR_Attr = 0" "i < 11 \<Longrightarrow> root_entry () example_root_disk example_fs 2 i = 0x42"
  by (simp_all add: example_root_bytes)

theorem dir_find_finds_the_first_match_witness:
  "\<exists>fs' dp'. dir_find (Some example_root_disk) example_fs example_root_dir = Some (FR_OK, fs', dp') \<and> dptr dp' = 64"
proof -
  let ?E = "root_entry () example_root_disk example_fs" and ?l = "lfnbuf example_fs" and ?n = "fn example_root_dir"
  have "first_entry ?E 0 16 (entry_matches ?E ?l ?n) = Some 2"
    using example_root_entries by (simp add: first_entry_step entry_matches_def example_root_dir_def flip: One_nat_def numeral_2_eq_2)
  moreover have "fs_type example_fs \<noteq> FS_EXFAT" "?n NSFLAG AND NS_NOLFN = 0" by (simp_all add: example_fs_def example_root_dir_def)
  ultimately show ?thesis
    using dir_find_finds_the_first_match [OF example_root_table] by (simp add: search_ok_def) blast
qed

text \<open>
  C23. Reading a directory of a FAT12, FAT16 or FAT32 volume from entry \<open>k\<close> on returns the first entry of a file or
  directory from there, skipping deleted entries, dot entries, labels and the parts of long names, and leaves it in
  the window; at the end mark or the end of the table the result is \<^verbatim>\<open>FR_NO_FILE\<close>. What the name buffer holds then
  is not part of the statement.
\<close>

theorem dir_read_returns_the_next_object:
  assumes "table_at d fs dp E n k" and "fs_type fs \<noteq> FS_EXFAT"
  shows "search_ok d fs E n (first_entry E k n (entry_visible E)) (dir_read (Some d) fs dp False)"
  by (rule dir_read_table [OF assms])

theorem dir_read_returns_the_next_object_witness:
  "\<exists>fs' dp'. dir_read (Some example_root_disk) example_fs (example_root_dir\<lparr>dir_sect := 3, dir_clust := 0\<rparr>) False = Some (FR_OK, fs', dp')
     \<and> dptr dp' = 64"
proof -
  let ?E = "root_entry () example_root_disk example_fs" and ?d = "example_root_dir\<lparr>dir_sect := 3, dir_clust := 0\<rparr>"
  have "first_entry ?E 0 16 (entry_visible ?E) = Some 2"
    using example_root_entries by (simp add: first_entry_step entry_visible_def flip: One_nat_def numeral_2_eq_2)
  moreover have "table_at example_root_disk example_fs ?d ?E 16 0"
  proof -
    have "root_at () example_root_disk example_fs ?d 0"
      by (simp add: root_at_def win_ok_def root_ok_def example_fs_def example_root_dir_def example_dir_def)
    moreover have "root_entries () example_fs = 16" by (simp add: root_entries_def example_fs_def)
    ultimately show ?thesis unfolding table_at_def by metis
  qed
  moreover have "fs_type example_fs \<noteq> FS_EXFAT" by (simp add: example_fs_def)
  ultimately show ?thesis
    using dir_read_returns_the_next_object [of example_root_disk example_fs ?d ?E 16 0] by (simp add: search_ok_def) blast
qed

end
