(* ===== verification/Fat_Mount.thy ===== *)
theory Fat_Mount
  imports Fat_Path Fat_Lookup
begin

text \<open>
  Mounting a volume, \<^verbatim>\<open>ff.c\<close>: recognising boot sectors (\<^verbatim>\<open>check_fs\<close>), partition tables of both kinds (\<^verbatim>\<open>test_gpt_header\<close>,
  \<^verbatim>\<open>find_volume\<close>) and reading the geometry of the volume (\<^verbatim>\<open>mount_volume\<close>), and \<^verbatim>\<open>f_mount\<close>. The lemmas show that the
  geometry of a mounted FAT volume is consistent, whatever the boot sector contains. A shift \<^verbatim>\<open>1 << n\<close> of an \<^verbatim>\<open>int\<close> by 31 or more
  places, which the code computes from bytes of an exFAT boot sector, is undefined in C: its value is the parameter \<open>ub\<close>.
\<close>

subsection \<open>Constants\<close>

abbreviation MAX_FAT12 :: u32 where "MAX_FAT12 \<equiv> 0xFF5"

abbreviation MAX_FAT16 :: u32 where "MAX_FAT16 \<equiv> 0xFFF5"

abbreviation MAX_FAT32 :: u32 where "MAX_FAT32 \<equiv> 0x0FFFFFF5"

abbreviation MAX_EXFAT :: u32 where "MAX_EXFAT \<equiv> 0x7FFFFFFD"

abbreviation ET_BITMAP :: u8 where "ET_BITMAP \<equiv> 0x81"

abbreviation BS_JmpBoot :: nat where "BS_JmpBoot \<equiv> 0"

abbreviation BPB_BytsPerSec :: nat where "BPB_BytsPerSec \<equiv> 11"

abbreviation BPB_SecPerClus :: nat where "BPB_SecPerClus \<equiv> 13"

abbreviation BPB_RsvdSecCnt :: nat where "BPB_RsvdSecCnt \<equiv> 14"

abbreviation BPB_NumFATs :: nat where "BPB_NumFATs \<equiv> 16"

abbreviation BPB_RootEntCnt :: nat where "BPB_RootEntCnt \<equiv> 17"

abbreviation BPB_TotSec16 :: nat where "BPB_TotSec16 \<equiv> 19"

abbreviation BPB_FATSz16 :: nat where "BPB_FATSz16 \<equiv> 22"

abbreviation BPB_TotSec32 :: nat where "BPB_TotSec32 \<equiv> 32"

abbreviation BPB_FATSz32 :: nat where "BPB_FATSz32 \<equiv> 36"

abbreviation BPB_FSVer32 :: nat where "BPB_FSVer32 \<equiv> 42"

abbreviation BPB_RootClus32 :: nat where "BPB_RootClus32 \<equiv> 44"

abbreviation BS_FilSysType32 :: nat where "BS_FilSysType32 \<equiv> 82"

abbreviation BS_55AA :: nat where "BS_55AA \<equiv> 510"

abbreviation BPB_ZeroedEx :: nat where "BPB_ZeroedEx \<equiv> 11"

abbreviation BPB_TotSecEx :: nat where "BPB_TotSecEx \<equiv> 72"

abbreviation BPB_FatOfsEx :: nat where "BPB_FatOfsEx \<equiv> 80"

abbreviation BPB_FatSzEx :: nat where "BPB_FatSzEx \<equiv> 84"

abbreviation BPB_DataOfsEx :: nat where "BPB_DataOfsEx \<equiv> 88"

abbreviation BPB_NumClusEx :: nat where "BPB_NumClusEx \<equiv> 92"

abbreviation BPB_RootClusEx :: nat where "BPB_RootClusEx \<equiv> 96"

abbreviation BPB_FSVerEx :: nat where "BPB_FSVerEx \<equiv> 104"

abbreviation BPB_BytsPerSecEx :: nat where "BPB_BytsPerSecEx \<equiv> 108"

abbreviation BPB_SecPerClusEx :: nat where "BPB_SecPerClusEx \<equiv> 109"

abbreviation BPB_NumFATsEx :: nat where "BPB_NumFATsEx \<equiv> 110"

abbreviation MBR_Table :: nat where "MBR_Table \<equiv> 446"

abbreviation SZ_PTE :: nat where "SZ_PTE \<equiv> 16"

abbreviation PTE_System :: nat where "PTE_System \<equiv> 4"

abbreviation PTE_StLba :: nat where "PTE_StLba \<equiv> 8"

abbreviation GPTH_Sign :: nat where "GPTH_Sign \<equiv> 0"

abbreviation GPTH_Size :: nat where "GPTH_Size \<equiv> 12"

abbreviation GPTH_Bcc :: u32 where "GPTH_Bcc \<equiv> 16"

abbreviation GPTH_PtOfs :: nat where "GPTH_PtOfs \<equiv> 72"

abbreviation GPTH_PtNum :: nat where "GPTH_PtNum \<equiv> 80"

abbreviation GPTH_PteSize :: nat where "GPTH_PteSize \<equiv> 84"

abbreviation SZ_GPTE :: "'a::numeral" where "SZ_GPTE \<equiv> 128"

abbreviation GPTE_PtGuid :: nat where "GPTE_PtGuid \<equiv> 0"

abbreviation GPTE_FstLba :: nat where "GPTE_FstLba \<equiv> 32"

definition GUID_MS_Basic :: "u8 list" where
  "GUID_MS_Basic = [0xA2, 0xA0, 0xD0, 0xEB, 0xE5, 0xB9, 0x33, 0x44, 0x87, 0xC0, 0x68, 0xB6, 0xB7, 0x26, 0x99, 0xC7]"

text \<open>The byte strings that \<^verbatim>\<open>memcmp\<close> is called with.\<close>

definition sig_exfat :: "u8 list" where
  "sig_exfat = [0xEB, 0x76, 0x90, 0x45, 0x58, 0x46, 0x41, 0x54, 0x20, 0x20, 0x20]"

definition sig_fat32 :: "u8 list" where
  "sig_fat32 = [0x46, 0x41, 0x54, 0x33, 0x32, 0x20, 0x20, 0x20]"

definition sig_gpt :: "u8 list" where
  "sig_gpt = [0x45, 0x46, 0x49, 0x20, 0x50, 0x41, 0x52, 0x54, 0, 0, 1, 0]"

definition bytes_are :: "bytes \<Rightarrow> nat \<Rightarrow> u8 list \<Rightarrow> bool" where
  "bytes_are b p xs \<longleftrightarrow> map (\<lambda>i. b (p + i)) [0..<length xs] = xs"

definition shift_one :: "(nat \<Rightarrow> u32) \<Rightarrow> u8 \<Rightarrow> u32" where
  "shift_one ub n = (if n < 31 then push_bit (unat n) 1 else ub (unat n))"

subsection \<open>Partition tables\<close>

text \<open>The loop over the eight bits of the byte.\<close>

definition crc32_bit :: "u8 \<Rightarrow> u32 \<Rightarrow> nat \<Rightarrow> u32" where
  "crc32_bit d crc i =
     (let crc = crc XOR (if d AND push_bit i 1 \<noteq> 0 then 1 else 0)
      in if crc AND 1 \<noteq> 0 then drop_bit 1 crc XOR 0xEDB88320 else drop_bit 1 crc)"

definition crc32 :: "u32 \<Rightarrow> u8 \<Rightarrow> u32" where
  "crc32 crc d = foldl (crc32_bit d) crc [0..<8]"

definition test_gpt_header :: "bytes \<Rightarrow> bool" where
  "test_gpt_header gpth =
     (if \<not> bytes_are gpth GPTH_Sign sig_gpt then False
      else
        let hlen = ld_dword gpth GPTH_Size in
        if hlen < 92 \<or> SS < hlen then False
        else
          let bcc = foldl (\<lambda>bcc i. crc32 bcc (if of_nat i - GPTH_Bcc < 4 then 0 else gpth i)) 0xFFFFFFFF [0..<unat hlen] in
          if NOT bcc \<noteq> ld_dword gpth (unat GPTH_Bcc) then False
          else if ld_dword gpth GPTH_PteSize \<noteq> SZ_GPTE then False
          else \<not> 128 < ld_dword gpth GPTH_PtNum)"

text \<open>0: FAT boot sector, 1: exFAT boot sector, 2: another boot sector, 3: no boot sector, 4: disk error.\<close>

definition check_fs :: "disk option \<Rightarrow> FATFS \<Rightarrow> u64 \<Rightarrow> nat \<times> FATFS" where
  "check_fs rd fs sct =
     (let fs = fs\<lparr>wflag := 0, winsect := - 1\<rparr> in
      case move_window rd fs sct of (res, fs) \<Rightarrow>
      if res \<noteq> FR_OK then (4, fs)
      else
        let sign = ld_word (win fs) BS_55AA in
        if sign = 0xAA55 \<and> bytes_are (win fs) BS_JmpBoot sig_exfat then (1, fs)
        else
          let b = win fs BS_JmpBoot in
          if (b = 0xEB \<or> b = 0xE9 \<or> b = 0xE8) \<and>
             (sign = 0xAA55 \<and> bytes_are (win fs) BS_FilSysType32 sig_fat32 \<or>
              (let w = ld_word (win fs) BPB_BytsPerSec; b = win fs BPB_SecPerClus in
               w AND (w - 1) = 0 \<and> SS \<le> w \<and> w \<le> SS
               \<and> b \<noteq> 0 \<and> b AND (b - 1) = 0
               \<and> ld_word (win fs) BPB_RsvdSecCnt \<noteq> 0
               \<and> (ucast (win fs BPB_NumFATs) - 1 :: u32) \<le> 1
               \<and> ld_word (win fs) BPB_RootEntCnt \<noteq> 0
               \<and> (128 \<le> ld_word (win fs) BPB_TotSec16 \<or> 0x10000 \<le> ld_dword (win fs) BPB_TotSec32)
               \<and> ld_word (win fs) BPB_FATSz16 \<noteq> 0))
          then (0, fs)
          else (if sign = 0xAA55 then 2 else 3, fs))"

text \<open>The loop over the entries of a GUID partition table; \<open>n\<close> of them are left.\<close>

fun gpt_scan :: "disk option \<Rightarrow> FATFS \<Rightarrow> nat \<Rightarrow> u64 \<Rightarrow> nat \<Rightarrow> nat \<Rightarrow> nat \<Rightarrow> nat \<times> FATFS" where
  "gpt_scan rd fs part pt_lba v_ent i 0 = (3, fs)"
| "gpt_scan rd fs part pt_lba v_ent i (Suc n) =
     (case move_window rd fs (pt_lba + of_nat (i * SZ_GPTE div SS)) of (res, fs) \<Rightarrow>
      if res \<noteq> FR_OK then (4, fs)
      else
        let ofs = i * SZ_GPTE mod SS in
        if bytes_are (win fs) (ofs + GPTE_PtGuid) GUID_MS_Basic then
          let v_ent = v_ent + 1 in
          case check_fs rd fs (ld_qword (win fs) (ofs + GPTE_FstLba)) of (fmt, fs) \<Rightarrow>
            if part = 0 \<and> fmt \<le> 1 then (fmt, fs)
            else if part \<noteq> 0 \<and> v_ent = part then (fmt, fs)
            else gpt_scan rd fs part pt_lba v_ent (i + 1) n
        else gpt_scan rd fs part pt_lba v_ent (i + 1) n)"

text \<open>The loop over the partitions of a master boot record.\<close>

fun mbr_scan :: "disk option \<Rightarrow> FATFS \<Rightarrow> nat \<Rightarrow> u32 list \<Rightarrow> nat \<times> FATFS" where
  "mbr_scan rd fs part [] = (3, fs)"
| "mbr_scan rd fs part (lba # lbas) =
     (case (if lba \<noteq> 0 then check_fs rd fs (ucast lba) else (3, fs)) of (fmt, fs) \<Rightarrow>
        if part = 0 \<and> 2 \<le> fmt \<and> lbas \<noteq> [] then mbr_scan rd fs part lbas else (fmt, fs))"

definition find_volume :: "disk option \<Rightarrow> FATFS \<Rightarrow> nat \<Rightarrow> nat \<times> FATFS" where
  "find_volume rd fs part =
     (case check_fs rd fs 0 of (fmt, fs) \<Rightarrow>
      if fmt \<noteq> 2 \<and> (3 \<le> fmt \<or> part = 0) then (fmt, fs)
      else if win fs (MBR_Table + PTE_System) = 0xEE then
        (case move_window rd fs 1 of (res, fs) \<Rightarrow>
         if res \<noteq> FR_OK then (4, fs)
         else if \<not> test_gpt_header (win fs) then (3, fs)
         else gpt_scan rd fs part (ld_qword (win fs) GPTH_PtOfs) 0 0 (unat (ld_dword (win fs) GPTH_PtNum)))
      else
        let mbr_pt = map (\<lambda>i. ld_dword (win fs) (MBR_Table + i * SZ_PTE + PTE_StLba)) [0..<4];
            i = (if part \<noteq> 0 then part - 1 else 0)
        in mbr_scan rd fs part (drop i mbr_pt))"

subsection \<open>Geometry of a volume\<close>

text \<open>The search for the bitmap entry in the first cluster of the root directory, \<open>n\<close> sectors from sector \<open>so\<close> on, and the check
  that the bitmap is contiguous. The result of the first is the offset of the entry in the window.\<close>

partial_function (option) find_bitmap :: "disk option \<Rightarrow> FATFS \<Rightarrow> u32 \<Rightarrow> nat \<Rightarrow> ((FRESULT + nat) \<times> FATFS) option" where
  "find_bitmap rd fs so i =
     (if i = 0 \<and> ucast (csize fs) \<le> so then Some (Inl FR_NO_FILESYSTEM, fs)
      else
        case (if i = 0 then move_window rd fs (clst2sect fs (ucast (dirbase fs)) + ucast so) else (FR_OK, fs)) of (res, fs) \<Rightarrow>
        if res \<noteq> FR_OK then Some (Inl FR_DISK_ERR, fs)
        else
          let so = (if i = 0 then so + 1 else so) in
          if win fs i = ET_BITMAP then Some (Inr i, fs)
          else find_bitmap rd fs so ((i + SZDIRE) mod SS))"

partial_function (option) check_bitmap :: "disk option \<Rightarrow> FATFS \<Rightarrow> u32 \<Rightarrow> (FRESULT \<times> FATFS) option" where
  "check_bitmap rd fs bcl =
     (case move_window rd fs (fatbase fs + ucast (bcl div (SS div 4))) of (res, fs) \<Rightarrow>
      if res \<noteq> FR_OK then Some (FR_DISK_ERR, fs)
      else
        let cv = ld_dword (win fs) (unat (bcl mod (SS div 4) * 4)) in
        if cv = 0xFFFFFFFF then Some (FR_OK, fs)
        else if cv \<noteq> bcl + 1 then Some (FR_NO_FILESYSTEM, fs)
        else check_bitmap rd fs (bcl + 1))"

text \<open>The branch of \<^verbatim>\<open>mount_volume\<close> for exFAT; \<open>bsect\<close> is the first sector of the volume.\<close>

definition mount_exfat :: "(nat \<Rightarrow> u32) \<Rightarrow> disk option \<Rightarrow> FATFS \<Rightarrow> u64 \<Rightarrow> ((FRESULT + u8) \<times> FATFS) option" where
  "mount_exfat ub rd fs bsect =
     (let b = win fs in
      if \<not> (\<forall>i \<in> set [BPB_ZeroedEx..<BPB_ZeroedEx + 53]. b i = 0) then Some (Inl FR_NO_FILESYSTEM, fs)
      else if ld_word b BPB_FSVerEx \<noteq> 0x100 then Some (Inl FR_NO_FILESYSTEM, fs)
      else if shift_one ub (b BPB_BytsPerSecEx) \<noteq> SS then Some (Inl FR_NO_FILESYSTEM, fs)
      else
        let maxlba = ld_qword b BPB_TotSecEx + bsect;
            fs = fs\<lparr>fat_size := ld_dword b BPB_FatSzEx, n_fats := b BPB_NumFATsEx\<rparr> in
        if n_fats fs \<noteq> 1 then Some (Inl FR_NO_FILESYSTEM, fs)
        else
          let fs = fs\<lparr>csize := ucast (shift_one ub (b BPB_SecPerClusEx))\<rparr> in
          if csize fs = 0 then Some (Inl FR_NO_FILESYSTEM, fs)
          else
            let nclst = ld_dword b BPB_NumClusEx in
            if MAX_EXFAT < nclst then Some (Inl FR_NO_FILESYSTEM, fs)
            else
              let fs = fs\<lparr>n_fatent := nclst + 2, volbase := bsect, database := bsect + ucast (ld_dword b BPB_DataOfsEx),
                          fatbase := bsect + ucast (ld_dword b BPB_FatOfsEx)\<rparr> in
              if maxlba < database fs + ucast (nclst * ucast (csize fs)) then Some (Inl FR_NO_FILESYSTEM, fs)
              else
                let fs = fs\<lparr>dirbase := ucast (ld_dword b BPB_RootClusEx)\<rparr> in
                (case find_bitmap rd fs 0 0 of
                   None \<Rightarrow> None
                 | Some (Inl e, fs) \<Rightarrow> Some (Inl e, fs)
                 | Some (Inr i, fs) \<Rightarrow>
                     let bcl = ld_dword (win fs) (i + 20) in
                     if bcl < 2 \<or> n_fatent fs \<le> bcl then Some (Inl FR_NO_FILESYSTEM, fs)
                     else
                       let fs = fs\<lparr>bitbase := database fs + ucast (ucast (csize fs) * (bcl - 2))\<rparr> in
                       (case check_bitmap rd fs bcl of
                          None \<Rightarrow> None
                        | Some (res, fs) \<Rightarrow> Some (if res \<noteq> FR_OK then Inl res else Inr FS_EXFAT, fs))))"

text \<open>The branch for FAT12, FAT16 and FAT32; the boot sector is in the window.\<close>

definition fat_sub_type :: "u32 \<Rightarrow> u8" where
  "fat_sub_type nclst =
     (let fmt = 0;
          fmt = (if nclst \<le> MAX_FAT32 then FS_FAT32 else fmt);
          fmt = (if nclst \<le> MAX_FAT16 then FS_FAT16 else fmt)
      in if nclst \<le> MAX_FAT12 then FS_FAT12 else fmt)"

definition mount_limits :: "FATFS \<Rightarrow> u8 \<Rightarrow> u32 \<Rightarrow> (FRESULT + u8) \<times> FATFS" where
  "mount_limits fs fmt fasize =
     (let b = win fs in
      if fmt = FS_FAT32 \<and> ld_word b BPB_FSVer32 \<noteq> 0 then (Inl FR_NO_FILESYSTEM, fs)
      else if fmt = FS_FAT32 \<and> n_rootdir fs \<noteq> 0 then (Inl FR_NO_FILESYSTEM, fs)
      else if fmt \<noteq> FS_FAT32 \<and> n_rootdir fs = 0 then (Inl FR_NO_FILESYSTEM, fs)
      else
        let fs = fs\<lparr>dirbase := (if fmt = FS_FAT32 then ucast (ld_dword b BPB_RootClus32) else fatbase fs + ucast fasize)\<rparr>;
            szbfat = (if fmt = FS_FAT32 then n_fatent fs * 4
                      else if fmt = FS_FAT16 then n_fatent fs * 2
                      else n_fatent fs * 3 div 2 + (n_fatent fs AND 1)) in
        if fat_size fs < (szbfat + (SS - 1)) div SS then (Inl FR_NO_FILESYSTEM, fs)
        else (Inr fmt, fs))"

definition mount_fat :: "FATFS \<Rightarrow> u64 \<Rightarrow> (FRESULT + u8) \<times> FATFS" where
  "mount_fat fs bsect =
     (let b = win fs in
      if ld_word b BPB_BytsPerSec \<noteq> SS then (Inl FR_NO_FILESYSTEM, fs)
      else
        let fasize = ucast (ld_word b BPB_FATSz16);
            fasize = (if fasize = 0 then ld_dword b BPB_FATSz32 else fasize);
            fs = fs\<lparr>fat_size := fasize, n_fats := b BPB_NumFATs\<rparr> in
        if n_fats fs \<noteq> 1 \<and> n_fats fs \<noteq> 2 then (Inl FR_NO_FILESYSTEM, fs)
        else
          let fasize = fasize * ucast (n_fats fs);
              fs = fs\<lparr>csize := ucast (b BPB_SecPerClus)\<rparr> in
          if csize fs = 0 \<or> csize fs AND (csize fs - 1) \<noteq> 0 then (Inl FR_NO_FILESYSTEM, fs)
          else
            let fs = fs\<lparr>n_rootdir := ld_word b BPB_RootEntCnt\<rparr> in
            if n_rootdir fs mod (SS div SZDIRE) \<noteq> 0 then (Inl FR_NO_FILESYSTEM, fs)
            else
              let tsect = ucast (ld_word b BPB_TotSec16);
                  tsect = (if tsect = 0 then ld_dword b BPB_TotSec32 else tsect);
                  nrsv = ld_word b BPB_RsvdSecCnt in
              if nrsv = 0 then (Inl FR_NO_FILESYSTEM, fs)
              else
                let sysect = ucast nrsv + fasize + ucast (n_rootdir fs div (SS div SZDIRE)) in
                if tsect < sysect then (Inl FR_NO_FILESYSTEM, fs)
                else
                  let nclst = (tsect - sysect) div ucast (csize fs) in
                  if nclst = 0 then (Inl FR_NO_FILESYSTEM, fs)
                  else if fat_sub_type nclst = 0 then (Inl FR_NO_FILESYSTEM, fs)
                  else
                    mount_limits (fs\<lparr>n_fatent := nclst + 2, volbase := bsect, fatbase := bsect + ucast nrsv, database := bsect + ucast sysect\<rparr>)
                      (fat_sub_type nclst) fasize)"

subsection \<open>Mounting\<close>

text \<open>The static data of the module and of the ram disk: whether \<^verbatim>\<open>FatFs[0]\<close> is set, the mount counter, the object it
  points to and the buffer of the disk.\<close>

record ff_state =
  FatFs :: bool
  Fsid :: u16
  fatfs :: FATFS
  ramdisk_buffer :: "disk option"

text \<open>Mount the volume of the registered object: the part of \<^verbatim>\<open>mount_volume\<close> behind the checks of the drive and of the object.\<close>

definition do_mount :: "(nat \<Rightarrow> u32) \<Rightarrow> disk option \<Rightarrow> ff_state \<Rightarrow> (FRESULT \<times> ff_state) option" where
  "do_mount ub mem_fs st =
     (let fs = (fatfs st)\<lparr>fs_type := 0\<rparr> in
      case disk_initialize mem_fs (ramdisk_buffer st) (pdrv fs) of (stt, rd) \<Rightarrow>
      let st = st\<lparr>fatfs := fs, ramdisk_buffer := rd\<rparr> in
      if stt AND STA_NOINIT \<noteq> 0 then Some (FR_NOT_READY, st)
      else
        case find_volume rd fs 0 of (fmt, fs) \<Rightarrow>
        let st = st\<lparr>fatfs := fs\<rparr> in
        if fmt = 4 then Some (FR_DISK_ERR, st)
        else if 2 \<le> fmt then Some (FR_NO_FILESYSTEM, st)
        else
          (case (if fmt = 1 then mount_exfat ub rd fs (winsect fs) else Some (mount_fat fs (winsect fs))) of
             None \<Rightarrow> None
           | Some (Inl e, fs) \<Rightarrow> Some (e, st\<lparr>fatfs := fs\<rparr>)
           | Some (Inr fmt, fs) \<Rightarrow>
               Some (FR_OK, st\<lparr>Fsid := Fsid st + 1, fatfs := fs\<lparr>fs_type := fmt, fs_id := Fsid st + 1\<rparr>\<rparr>)))"

text \<open>The result, the path without its drive prefix, whether the object was found, and the state.\<close>

definition mount_volume ::
  "(nat \<Rightarrow> u32) \<Rightarrow> disk option \<Rightarrow> ff_state \<Rightarrow> bytes \<Rightarrow> nat option \<Rightarrow> (FRESULT \<times> nat option \<times> bool \<times> ff_state) option" where
  "mount_volume ub mem_fs st s path =
     (case get_ldnumber s path of
        None \<Rightarrow> None
      | Some (vol, path) \<Rightarrow>
          if vol < 0 then Some (FR_INVALID_DRIVE, path, False, st)
          else if \<not> FatFs st then Some (FR_NOT_ENABLED, path, False, st)
          else if fs_type (fatfs st) \<noteq> 0 \<and> disk_status (pdrv (fatfs st)) AND STA_NOINIT = 0 then Some (FR_OK, path, True, st)
          else (case do_mount ub mem_fs st of None \<Rightarrow> None | Some (res, st) \<Rightarrow> Some (res, path, True, st)))"

text \<open>\<^verbatim>\<open>f_mount\<close>; the object to register is the only one of the kernel, or none.\<close>

definition f_mount :: "(nat \<Rightarrow> u32) \<Rightarrow> disk option \<Rightarrow> ff_state \<Rightarrow> bool \<Rightarrow> bytes \<Rightarrow> nat option \<Rightarrow> u8 \<Rightarrow> (FRESULT \<times> ff_state) option" where
  "f_mount ub mem_fs st fs s path opt =
     (case get_ldnumber s path of
        None \<Rightarrow> None
      | Some (vol, rp) \<Rightarrow>
          if vol < 0 then Some (FR_INVALID_DRIVE, st)
          else
            let st = (if FatFs st then st\<lparr>FatFs := False, fatfs := (fatfs st)\<lparr>fs_type := 0\<rparr>\<rparr> else st);
                st = (if fs then st\<lparr>FatFs := True, fatfs := (fatfs st)\<lparr>pdrv := of_int vol, fs_type := 0\<rparr>\<rparr> else st) in
            if opt = 0 then Some (FR_OK, st)
            else (case mount_volume ub mem_fs st s path of None \<Rightarrow> None | Some (res, _, _, st) \<Rightarrow> Some (res, st)))"

subsection \<open>The window stays coherent\<close>

lemma move_window_win_ok: "win_ok d fs \<Longrightarrow> move_window (Some d) fs s = (r, fs') \<Longrightarrow> win_ok d fs' \<and> r = FR_OK"
  by (auto simp: move_window_def disk_read_def win_ok_def blit_bytes_def sector_def split: if_splits)

lemma check_fs_win_ok: "win_ok d fs \<Longrightarrow> check_fs (Some d) fs s = (r, fs') \<Longrightarrow> win_ok d fs'"
proof -
  assume w: "win_ok d fs" and c: "check_fs (Some d) fs s = (r, fs')"
  have "win_ok d (fs\<lparr>wflag := 0, winsect := - 1\<rparr>)" using w by (simp add: win_ok_def)
  then show ?thesis using c by (auto simp: check_fs_def Let_def dest: move_window_win_ok split: prod.splits if_splits)
qed

lemma gpt_scan_win_ok: "win_ok d fs \<Longrightarrow> gpt_scan (Some d) fs part lba v i n = (r, fs') \<Longrightarrow> win_ok d fs'"
proof (induction n arbitrary: fs v i)
  case (Suc n)
  obtain r1 fs1 where m: "move_window (Some d) fs (lba + of_nat (i * SZ_GPTE div SS)) = (r1, fs1)" by force
  note w1 = move_window_win_ok [OF Suc.prems(1) m]
  obtain r2 fs2 where c: "check_fs (Some d) fs1 (ld_qword (win fs1) (i * SZ_GPTE mod SS + GPTE_FstLba)) = (r2, fs2)" by force
  have w2: "win_ok d fs2" using check_fs_win_ok [OF _ c] w1 by blast
  show ?case using Suc.prems(2) [unfolded gpt_scan.simps m prod.case Let_def c] Suc.IH w1 w2 by (auto split: if_splits)
qed simp

lemma mbr_scan_win_ok: "win_ok d fs \<Longrightarrow> mbr_scan (Some d) fs part lbas = (r, fs') \<Longrightarrow> win_ok d fs'"
proof (induction lbas arbitrary: fs)
  case (Cons lba lbas)
  obtain r1 fs1 where c: "(if lba \<noteq> 0 then check_fs (Some d) fs (ucast lba) else (3, fs)) = (r1, fs1)" by force
  have w1: "win_ok d fs1" using c Cons.prems(1) by (auto dest: check_fs_win_ok split: if_splits)
  show ?case using Cons.prems(2) Cons.IH [OF w1] w1 by (auto simp: c split: if_splits)
qed simp

lemma find_volume_win_ok: "win_ok d fs \<Longrightarrow> find_volume (Some d) fs part = (r, fs') \<Longrightarrow> win_ok d fs'"
proof -
  assume w: "win_ok d fs" and f: "find_volume (Some d) fs part = (r, fs')"
  obtain r1 fs1 where c: "check_fs (Some d) fs 0 = (r1, fs1)" by force
  note w1 = check_fs_win_ok [OF w c]
  show ?thesis using f w1
    by (auto simp: find_volume_def c Let_def split: if_splits prod.splits dest: mbr_scan_win_ok gpt_scan_win_ok move_window_win_ok)
qed

subsection \<open>The geometry of a mounted FAT volume\<close>

lemma byte_power_of_two:
  "(ucast b :: u16) \<noteq> 0 \<and> (ucast b :: u16) AND (ucast b - 1) = 0 \<longrightarrow> (\<exists>k \<in> set [0..<8]. (ucast b :: u16) = 2 ^ k)" for b :: u8
  by (rule byte_all [of _ b]) code_simp

text \<open>Bytes of the allocation table that the entry of a cluster occupies.\<close>

definition fat_entry_end :: "u8 \<Rightarrow> nat \<Rightarrow> nat" where
  "fat_entry_end fmt c = (if fmt = FS_FAT12 then c + c div 2 + 2 else if fmt = FS_FAT16 then 2 * c + 2 else 4 * c + 4)"

text \<open>What holds of the fields after a successful \<open>mount_fat\<close>.\<close>

definition geometry_ok :: "FATFS \<Rightarrow> u8 \<Rightarrow> u64 \<Rightarrow> bool" where
  "geometry_ok fs fmt bsect \<longleftrightarrow> (fmt = FS_FAT12 \<or> fmt = FS_FAT16 \<or> fmt = FS_FAT32) \<and> (\<exists>k < 8. csize fs = 2 ^ k) \<and>
     (n_fats fs = 1 \<or> n_fats fs = 2) \<and> volbase fs = bsect \<and> 16 dvd unat (n_rootdir fs) \<and> (fmt = FS_FAT32 \<longleftrightarrow> n_rootdir fs = 0) \<and>
     3 \<le> n_fatent fs \<and> n_fatent fs \<le> 0x0FFFFFF7 \<and> (fmt = FS_FAT12 \<longrightarrow> n_fatent fs \<le> 0xFF7) \<and>
     (\<forall>c < unat (n_fatent fs). fat_entry_end fmt c \<le> unat (fat_size fs) * SS) \<and>
     (\<exists>nrsv :: u16. \<exists>sysect :: u32. nrsv \<noteq> 0 \<and> fatbase fs = bsect + ucast nrsv \<and> database fs = bsect + ucast sysect \<and>
        sysect = ucast nrsv + fat_size fs * ucast (n_fats fs) + ucast (n_rootdir fs div 16) \<and>
        unat sysect + unat (csize fs) * (unat (n_fatent fs) - 2) < 2 ^ 32 \<and>
        (fmt \<noteq> FS_FAT32 \<longrightarrow> dirbase fs = fatbase fs + ucast (fat_size fs * ucast (n_fats fs))))"

lemma unat_ceil_sectors:
  assumes "unat (x :: u32) + 511 < 2 ^ 32" "\<not> f < (x + (SS - 1)) div SS"
  shows "unat x \<le> unat f * SS"
proof -
  have "unat (x + 511) = unat x + 511" using assms(1) by (simp add: unat_word_ariths)
  then have "(unat x + 511) div SS \<le> unat f" using assms(2) by (simp add: word_less_nat_alt unat_div not_less)
  then have "(unat x + 511) div SS * SS \<le> unat f * SS" by simp
  moreover have "unat x + 511 = (unat x + 511) div SS * SS + (unat x + 511) mod SS" "(unat x + 511) mod SS < SS" by simp_all
  ultimately show ?thesis by linarith
qed

lemma fat_sub_type_cases:
  "fat_sub_type n \<noteq> 0 \<Longrightarrow> (fat_sub_type n = FS_FAT12 \<and> n \<le> MAX_FAT12) \<or> (fat_sub_type n = FS_FAT16 \<and> n \<le> MAX_FAT16)
     \<or> (fat_sub_type n = FS_FAT32 \<and> n \<le> MAX_FAT32)"
  by (simp add: fat_sub_type_def split: if_splits)

lemma needed_fat_size:
  assumes t: "(fmt = FS_FAT12 \<and> n \<le> 0xFF7) \<or> (fmt = FS_FAT16 \<and> n \<le> 0xFFF7) \<or> (fmt = FS_FAT32 \<and> n \<le> (0x0FFFFFF7 :: u32))"
    and f: "\<not> f < ((if fmt = FS_FAT32 then n * 4 else if fmt = FS_FAT16 then n * 2 else n * 3 div 2 + (n AND 1)) + (SS - 1)) div SS"
    and c: "c < unat n"
  shows "fat_entry_end fmt c \<le> unat f * SS"
proof -
  define sz where "sz = (if fmt = FS_FAT32 then n * 4 else if fmt = FS_FAT16 then n * 2 else n * 3 div 2 + (n AND 1))"
  have odd: "unat (n AND 1) = unat n mod 2" by (simp add: and_one_eq unat_mod)
  have u: "unat sz = (if fmt = FS_FAT32 then unat n * 4 else if fmt = FS_FAT16 then unat n * 2 else unat n * 3 div 2 + unat n mod 2)"
    using t odd by (auto simp: sz_def word_le_nat_alt unat_word_ariths unat_div)
  have "unat sz + 511 < 2 ^ 32" using u t by (auto simp: word_le_nat_alt)
  then have "unat sz \<le> unat f * SS" using unat_ceil_sectors f unfolding sz_def [symmetric] by blast
  moreover have "fat_entry_end fmt c \<le> unat sz"
  proof -
    have half: "j + j div 2 + 2 \<le> m * 3 div 2 + m mod 2" if "j < m" for j m :: nat
    proof -
      have "j div 2 \<le> (m - 1) div 2" by (rule div_le_mono) (use that in simp)
      moreover have "m - 1 + (m - 1) div 2 + 2 = m * 3 div 2 + m mod 2"
        using that by (cases "even m") (auto elim!: evenE oddE)
      ultimately show ?thesis using that by linarith
    qed
    have "c + c div 2 + 2 \<le> unat n * 3 div 2 + unat n mod 2" by (rule half [OF c])
    then show ?thesis using u t c by (auto simp: fat_entry_end_def)
  qed
  ultimately show ?thesis by linarith
qed

lemma mount_fat_success:
  assumes "mount_fat fs bsect = (Inr fmt, fs')"
  obtains fasize csb nrsv tsect sysect nclst fs1 where
    "sysect = ucast nrsv + fasize * ucast (n_fats fs1) + ucast (n_rootdir fs1 div 16)" "nclst = (tsect - sysect) div ucast (csize fs1)"
    "csize fs1 = ucast (csb :: u8)" "csize fs1 \<noteq> 0" "csize fs1 AND (csize fs1 - 1) = 0" "n_fats fs1 = 1 \<or> n_fats fs1 = 2"
    "n_rootdir fs1 mod 16 = 0" "nrsv \<noteq> 0" "\<not> tsect < sysect" "nclst \<noteq> 0" "fat_sub_type nclst \<noteq> 0" "fat_size fs1 = fasize"
    "n_fatent fs1 = nclst + 2" "volbase fs1 = bsect" "fatbase fs1 = bsect + ucast (nrsv :: u16)" "database fs1 = bsect + ucast sysect"
    "fs1 = fs\<lparr>fat_size := fat_size fs1, n_fats := n_fats fs1, csize := csize fs1, n_rootdir := n_rootdir fs1, n_fatent := n_fatent fs1,
       volbase := volbase fs1, fatbase := fatbase fs1, database := database fs1\<rparr>"
    "mount_limits fs1 (fat_sub_type nclst) (fasize * ucast (n_fats fs1)) = (Inr fmt, fs')"
proof -
  define b where "b = win fs"
  define fasize where "fasize = (if ucast (ld_word b BPB_FATSz16) = (0 :: u32) then ld_dword b BPB_FATSz32 else ucast (ld_word b BPB_FATSz16))"
  define nrsv where "nrsv = ld_word b BPB_RsvdSecCnt"
  define tsect where "tsect = (if ucast (ld_word b BPB_TotSec16) = (0 :: u32) then ld_dword b BPB_TotSec32 else ucast (ld_word b BPB_TotSec16))"
  define sysect where "sysect = ucast nrsv + fasize * ucast (b BPB_NumFATs) + ucast (ld_word b BPB_RootEntCnt div 16)"
  define nclst where "nclst = (tsect - sysect) div ucast (ucast (b BPB_SecPerClus) :: u16)"
  define fs1 where "fs1 = fs\<lparr>fat_size := fasize, n_fats := b BPB_NumFATs, csize := ucast (b BPB_SecPerClus), n_rootdir := ld_word b BPB_RootEntCnt,
     n_fatent := nclst + 2, volbase := bsect, fatbase := bsect + ucast nrsv, database := bsect + ucast sysect\<rparr>"
  have "ld_word b BPB_BytsPerSec = SS \<and> (n_fats fs1 = 1 \<or> n_fats fs1 = 2) \<and> csize fs1 \<noteq> 0 \<and> csize fs1 AND (csize fs1 - 1) = 0
      \<and> n_rootdir fs1 mod 16 = 0 \<and> nrsv \<noteq> 0 \<and> \<not> tsect < sysect \<and> nclst \<noteq> 0 \<and> fat_sub_type nclst \<noteq> 0
      \<and> mount_limits fs1 (fat_sub_type nclst) (fasize * ucast (n_fats fs1)) = (Inr fmt, fs')"
    using assms unfolding mount_fat_def Let_def b_def [symmetric]
    by (simp only: fasize_def [symmetric] nrsv_def [symmetric] tsect_def [symmetric] FATFS.simps sysect_def fs1_def nclst_def fun_upd_def split: if_splits) auto
  then show thesis
    by (intro that [of sysect nrsv fasize fs1 nclst tsect "b BPB_SecPerClus"]) (simp_all add: fs1_def sysect_def nclst_def)
qed

lemma mount_limits_success:
  assumes "mount_limits fs t fasize = (Inr fmt, fs')"
  shows "fmt = t" "t = FS_FAT32 \<longleftrightarrow> n_rootdir fs = 0" "fs' = fs\<lparr>dirbase := dirbase fs'\<rparr>"
    "t \<noteq> FS_FAT32 \<Longrightarrow> dirbase fs' = fatbase fs + ucast fasize"
    "\<not> fat_size fs < ((if t = FS_FAT32 then n_fatent fs * 4 else if t = FS_FAT16 then n_fatent fs * 2
       else n_fatent fs * 3 div 2 + (n_fatent fs AND 1)) + (SS - 1)) div SS"
  using assms by (auto simp: mount_limits_def Let_def split: if_splits)

lemma ucast_16_mult: "unat ((tsect - sysect :: u32) div ucast (cs :: u16)) * unat cs \<le> unat tsect - unat sysect" if "\<not> tsect < sysect"
proof -
  have "unat (tsect - sysect) = unat tsect - unat sysect" using that by (simp add: unat_sub)
  moreover have "unat (ucast cs :: u32) = unat cs"
    using unsigned_less [of cs, where ?'a = nat] by (simp add: unsigned_ucast_eq take_bit_nat_eq_self)
  ultimately show ?thesis by (simp add: unat_div)
qed

lemma mount_fat_geometry:
  assumes "mount_fat fs bsect = (Inr fmt, fs')"
  shows "geometry_ok fs' fmt bsect" "pdrv fs' = pdrv fs" "win fs' = win fs" "winsect fs' = winsect fs"
proof -
  obtain fasize csb nrsv tsect sysect nclst fs1 where
    sy: "sysect = ucast nrsv + fasize * ucast (n_fats fs1) + ucast (n_rootdir fs1 div 16)" "nclst = (tsect - sysect) div ucast (csize fs1)" and
    cs: "csize fs1 = ucast (csb :: u8)" "csize fs1 \<noteq> 0" "csize fs1 AND (csize fs1 - 1) = 0" and nf: "n_fats fs1 = 1 \<or> n_fats fs1 = 2" and
    nr: "n_rootdir fs1 mod 16 = 0" "nrsv \<noteq> 0" "\<not> tsect < sysect" "nclst \<noteq> 0" "fat_sub_type nclst \<noteq> 0" "fat_size fs1 = fasize" and
    f1: "n_fatent fs1 = nclst + 2" "volbase fs1 = bsect" "fatbase fs1 = bsect + ucast (nrsv :: u16)" "database fs1 = bsect + ucast sysect" and
    e1: "fs1 = fs\<lparr>fat_size := fat_size fs1, n_fats := n_fats fs1, csize := csize fs1, n_rootdir := n_rootdir fs1, n_fatent := n_fatent fs1,
       volbase := volbase fs1, fatbase := fatbase fs1, database := database fs1\<rparr>" and
    ml: "mount_limits fs1 (fat_sub_type nclst) (fasize * ucast (n_fats fs1)) = (Inr fmt, fs')"
    using mount_fat_success [OF assms] .
  note m = mount_limits_success [OF ml]
  have same: "csize fs' = csize fs1" "n_fats fs' = n_fats fs1" "n_rootdir fs' = n_rootdir fs1" "n_fatent fs' = n_fatent fs1"
    "fat_size fs' = fat_size fs1" "volbase fs' = volbase fs1" "fatbase fs' = fatbase fs1" "database fs' = database fs1"
    "pdrv fs' = pdrv fs1" "win fs' = win fs1" "winsect fs' = winsect fs1"
    by (subst m(3), simp)+
  have "pdrv fs1 = pdrv fs" "win fs1 = win fs" "winsect fs1 = winsect fs" by (subst e1, simp)+
  then show "pdrv fs' = pdrv fs" "win fs' = win fs" "winsect fs' = winsect fs" using same by simp_all
  have t: "(fmt = FS_FAT12 \<and> nclst \<le> MAX_FAT12) \<or> (fmt = FS_FAT16 \<and> nclst \<le> MAX_FAT16) \<or> (fmt = FS_FAT32 \<and> nclst \<le> MAX_FAT32)"
    using fat_sub_type_cases [OF nr(5)] m(1) by simp
  then have "unat nclst \<le> 0x0FFFFFF5" by (auto simp: word_le_nat_alt)
  then have un: "unat (nclst + 2) = unat nclst + 2" by (simp add: unat_word_ariths)
  have t2: "(fmt = FS_FAT12 \<and> n_fatent fs' \<le> 0xFF7) \<or> (fmt = FS_FAT16 \<and> n_fatent fs' \<le> 0xFFF7) \<or> (fmt = FS_FAT32 \<and> n_fatent fs' \<le> 0x0FFFFFF7)"
    using t un by (simp add: same f1 word_le_nat_alt)
  have pow: "\<exists>k < 8. csize fs' = 2 ^ k" using byte_power_of_two [of csb] cs by (auto simp: same)
  have "unat nclst \<noteq> 0" using nr(4) by (simp add: unat_eq_zero)
  then have n3: "3 \<le> n_fatent fs'" using un by (simp add: same f1 word_le_nat_alt)
  have fits: "fat_entry_end fmt c \<le> unat (fat_size fs') * SS" if "c < unat (n_fatent fs')" for c
    by (rule needed_fat_size [OF t2 _ that]) (use m(5) in \<open>simp only: same m(1) not_False_eq_True\<close>)
  have "unat (n_rootdir fs1 mod 16) = 0" using nr(1) by simp
  then have dvd: "16 dvd unat (n_rootdir fs')" by (simp add: same unat_mod dvd_eq_mod_eq_0)
  have ts: "unat sysect \<le> unat tsect" "unat tsect < 2 ^ 32"
    using nr(3) unsigned_less [of tsect, where ?'a = nat] by (simp_all add: word_less_nat_alt)
  have "unat sysect + unat (csize fs') * (unat (n_fatent fs') - 2) < 2 ^ 32"
    using ucast_16_mult [OF nr(3), of "csize fs1"] ts un by (simp add: same f1 mult.commute flip: sy(2))
  then have "\<exists>nrsv :: u16. \<exists>sysect :: u32. nrsv \<noteq> 0 \<and> fatbase fs' = bsect + ucast nrsv \<and> database fs' = bsect + ucast sysect \<and>
        sysect = ucast nrsv + fat_size fs' * ucast (n_fats fs') + ucast (n_rootdir fs' div 16) \<and>
        unat sysect + unat (csize fs') * (unat (n_fatent fs') - 2) < 2 ^ 32 \<and>
        (fmt \<noteq> FS_FAT32 \<longrightarrow> dirbase fs' = fatbase fs' + ucast (fat_size fs' * ucast (n_fats fs')))"
    using nr(2,6) f1 sy(1) m(1,4) by (intro exI [of _ nrsv] exI [of _ sysect]) (simp add: same)
  then show "geometry_ok fs' fmt bsect"
    using t2 pow nf n3 fits dvd m(1,2) f1(2) by (auto simp: geometry_ok_def same word_le_nat_alt)
qed

subsection \<open>A mounted volume is ready for the operations on it\<close>

lemma get_ldnumber_range: "get_ldnumber s path = Some (vol, path') \<Longrightarrow> vol < 0 \<or> vol = 0"
  by (auto simp: get_ldnumber_def Let_def word_le_nat_alt uint_nat split: option.splits if_splits)

lemma find_bitmap_error: "find_bitmap rd fs so i = Some (Inl e, fs') \<Longrightarrow> e \<noteq> FR_OK"
proof -
  assume h: "find_bitmap rd fs so i = Some (Inl e, fs')"
  have "fst (Inl e :: FRESULT + nat, fs') \<noteq> Inl FR_OK"
  proof (rule find_bitmap.raw_induct [OF _ h, where P = "\<lambda>_ _ _ _ r. fst r \<noteq> Inl FR_OK"])
    fix f rd fs so i r
    assume "\<And>rd fs so i r. f rd fs so i = Some r \<Longrightarrow> fst r \<noteq> Inl FR_OK"
      and "(if i = 0 \<and> ucast (csize fs) \<le> so then Some (Inl FR_NO_FILESYSTEM, fs)
        else case (if i = 0 then move_window rd fs (clst2sect fs (ucast (dirbase fs)) + ucast so) else (FR_OK, fs)) of (res, fs) \<Rightarrow>
          if res \<noteq> FR_OK then Some (Inl FR_DISK_ERR, fs)
          else let so = if i = 0 then so + 1 else so
               in if win fs i = ET_BITMAP then Some (Inr i, fs) else f rd fs so ((i + SZDIRE) mod SS)) = Some r"
    then show "fst r \<noteq> Inl FR_OK" by (auto simp: Let_def split: if_splits prod.splits)
  qed
  then show ?thesis by simp
qed

text \<open>What the branches of \<^verbatim>\<open>mount_volume\<close> can return: an error other than \<^verbatim>\<open>FR_OK\<close>, or a sub-type.\<close>

definition branch_ok :: "(u8 \<Rightarrow> bool) \<Rightarrow> ((FRESULT + u8) \<times> FATFS) option \<Rightarrow> bool" where
  "branch_ok P r = (case r of None \<Rightarrow> True | Some (Inl e, _) \<Rightarrow> e \<noteq> FR_OK | Some (Inr t, _) \<Rightarrow> P t)"

lemma branch_ok_if: "branch_ok P a \<Longrightarrow> branch_ok P b \<Longrightarrow> branch_ok P (if c then a else b)"
  by simp

lemma branch_ok_Inl: "e \<noteq> FR_OK \<Longrightarrow> branch_ok P (Some (Inl e, fs))"
  by (simp add: branch_ok_def)

lemma branch_ok_bitmap: "branch_ok (\<lambda>t. t = FS_EXFAT) (case check_bitmap rd fs c of None \<Rightarrow> None
    | Some (res, fs) \<Rightarrow> Some (if res \<noteq> FR_OK then Inl res else Inr FS_EXFAT, fs))"
  by (auto simp: branch_ok_def split: option.splits)

lemma branch_ok_find:
  assumes "\<And>i fs. branch_ok P (f i fs)"
  shows "branch_ok P (case find_bitmap rd fs so i of None \<Rightarrow> None | Some (Inl e, fs) \<Rightarrow> Some (Inl e, fs) | Some (Inr i, fs) \<Rightarrow> f i fs)"
  using assms by (auto simp: branch_ok_def [of P "Some _"] branch_ok_def [of P None] dest: find_bitmap_error split: option.splits sum.splits)

lemma mount_exfat_branch: "branch_ok (\<lambda>t. t = FS_EXFAT) (mount_exfat ub rd fs b)"
  unfolding mount_exfat_def Let_def
  by (intro branch_ok_if branch_ok_find branch_ok_bitmap branch_ok_Inl) simp_all

lemma fst_if: "fst a \<noteq> x \<Longrightarrow> fst b \<noteq> x \<Longrightarrow> fst (if c then a else b) \<noteq> x"
  by simp

lemma mount_fat_error: "fst (mount_fat fs b) \<noteq> Inl FR_OK"
  unfolding mount_fat_def mount_limits_def Let_def by (intro fst_if) simp_all

lemma geometry_ok_id: "geometry_ok (fs\<lparr>fs_type := t, fs_id := n\<rparr>) fmt b = geometry_ok fs fmt b"
  by (simp add: geometry_ok_def)

lemma do_mount_ok:
  assumes "do_mount ub (Some d) st = Some (FR_OK, st')" "pdrv (fatfs st) = 0" "fs_type (fatfs st') \<noteq> FS_EXFAT"
  shows "win_ok d (fatfs st')" "ramdisk_buffer st' = Some d" "geometry_ok (fatfs st') (fs_type (fatfs st')) (volbase (fatfs st'))"
    "Fsid st' = Fsid st + 1" "fs_id (fatfs st') = Fsid st'" "FatFs st' = FatFs st"
proof -
  define fs0 where "fs0 = (fatfs st)\<lparr>fs_type := 0\<rparr>"
  obtain fmt fs where f: "find_volume (Some d) (fs0\<lparr>winsect := - 1\<rparr>) 0 = (fmt, fs)" by force
  have "check_fs (Some d) (fs0\<lparr>winsect := - 1\<rparr>) 0 = check_fs (Some d) fs0 0" by (simp add: check_fs_def Let_def)
  then have f: "find_volume (Some d) fs0 0 = (fmt, fs)" using f by (simp add: find_volume_def)
  obtain fs1 where c: "check_fs (Some d) fs0 0 = (fst (check_fs (Some d) fs0 0), fs1)" by (metis prod.collapse)
  have "win_ok d (fs0\<lparr>winsect := - 1\<rparr>)" using assms(2) by (simp add: win_ok_def fs0_def)
  then have w: "win_ok d fs"
    using find_volume_win_ok \<open>find_volume (Some d) (fs0\<lparr>winsect := - 1\<rparr>) 0 = (fmt, fs)\<close> by blast
  have dm: "do_mount ub (Some d) st =
     (let st = st\<lparr>ramdisk_buffer := Some d, fatfs := fs\<rparr> in
      if fmt = 4 then Some (FR_DISK_ERR, st)
      else if 2 \<le> fmt then Some (FR_NO_FILESYSTEM, st)
      else (case (if fmt = 1 then mount_exfat ub (Some d) fs (winsect fs) else Some (mount_fat fs (winsect fs))) of
             None \<Rightarrow> None
           | Some (Inl e, fs) \<Rightarrow> Some (e, st\<lparr>fatfs := fs\<rparr>)
           | Some (Inr fmt, fs) \<Rightarrow>
               Some (FR_OK, st\<lparr>Fsid := Fsid st + 1, fatfs := fs\<lparr>fs_type := fmt, fs_id := Fsid st + 1\<rparr>\<rparr>)))"
    using assms(2) by (simp add: do_mount_def disk_initialize_def Let_def f flip: fs0_def) (simp add: f fs0_def)
  define mres where "mres = (if fmt = 1 then mount_exfat ub (Some d) fs (winsect fs) else Some (mount_fat fs (winsect fs)))"
  have br: "branch_ok (\<lambda>t. fmt = 1 \<longrightarrow> t = FS_EXFAT) mres"
    using mount_exfat_branch [of ub "Some d" fs "winsect fs"] mount_fat_error [of fs "winsect fs"]
    by (auto simp: mres_def branch_ok_def split: sum.splits prod.splits option.splits)
  obtain t fs2 where mr: "mres = Some (Inr t, fs2)"
    and st': "st' = st\<lparr>fatfs := fs2\<lparr>fs_type := t, fs_id := Fsid st + 1\<rparr>, ramdisk_buffer := Some d, Fsid := Fsid st + 1\<rparr>"
    using assms(1) br unfolding dm mres_def [symmetric] Let_def branch_ok_def
    by (auto split: if_splits option.splits prod.splits sum.splits)
  have "fmt \<noteq> 1" using br assms(3) by (auto simp: branch_ok_def mr st')
  then have m: "mount_fat fs (winsect fs) = (Inr t, fs2)" using mr by (simp add: mres_def)
  note g = mount_fat_geometry [OF m]
  show "win_ok d (fatfs st')" using w g(2-4) by (simp add: st' win_ok_def)
  show "ramdisk_buffer st' = Some d" "Fsid st' = Fsid st + 1" "fs_id (fatfs st') = Fsid st'" "FatFs st' = FatFs st" by (simp_all add: st')
  have "volbase fs2 = winsect fs" using g(1) by (simp add: geometry_ok_def)
  then show "geometry_ok (fatfs st') (fs_type (fatfs st')) (volbase (fatfs st'))"
    using g(1) by (simp add: st' geometry_ok_id)
qed

lemma geometry_vol_ok:
  assumes g: "geometry_ok fs (fs_type fs) (volbase fs)" and w: "win_ok d fs"
    and b: "volbase fs < 2 ^ 62" and a: "unat (fat_size fs) * unat (n_fats fs) < 2 ^ 31"
  shows "vol_ok d fs" "unat (database fs) = unat (fatbase fs) + unat (fat_size fs) * unat (n_fats fs) + unat (n_rootdir fs div 16)"
    "fs_type fs \<noteq> FS_FAT32 \<Longrightarrow> root_ok fs"
proof -
  obtain k where k: "k < 8" "csize fs = 2 ^ k" using g by (auto simp: geometry_ok_def)
  obtain nrsv :: u16 and sysect :: u32 where ns: "nrsv \<noteq> 0" "fatbase fs = volbase fs + ucast nrsv" "database fs = volbase fs + ucast sysect"
      "sysect = ucast nrsv + fat_size fs * ucast (n_fats fs) + ucast (n_rootdir fs div 16)"
      "unat sysect + unat (csize fs) * (unat (n_fatent fs) - 2) < 2 ^ 32"
      "fs_type fs \<noteq> FS_FAT32 \<longrightarrow> dirbase fs = fatbase fs + ucast (fat_size fs * ucast (n_fats fs))"
    using g by (auto simp: geometry_ok_def)
  have u16: "unat (x :: u16) < 2 ^ 16" for x using unsigned_less [of x, where ?'a = nat] by simp
  have vb: "unat (volbase fs) < 2 ^ 62" using b by (simp add: word_less_nat_alt)
  have n0: "0 < unat nrsv" using ns(1) by (simp add: unat_gt_0)
  have fa: "unat (fat_size fs * ucast (n_fats fs)) = unat (fat_size fs) * unat (n_fats fs)"
    using a by (simp add: unat_word_ariths unat_ucast_u8)
  have u16_32: "unat (ucast (x :: u16) :: u32) = unat x" and u16_64: "unat (ucast x :: u64) = unat x" for x
    using u16 [of x] by (simp_all add: unsigned_ucast_eq take_bit_nat_eq_self)
  have u32_64: "unat (ucast (x :: u32) :: u64) = unat x" for x
    using unsigned_less [of x, where ?'a = nat] by (simp add: unsigned_ucast_eq take_bit_nat_eq_self)
  have rd: "unat (n_rootdir fs div 16) < 2 ^ 16" by (rule u16)
  have sy: "unat sysect = unat nrsv + unat (fat_size fs) * unat (n_fats fs) + unat (n_rootdir fs div 16)"
    unfolding ns(4) using a rd u16 [of nrsv] by (simp add: unat_word_ariths(1) fa u16_32)
  have fb: "unat (fatbase fs) = unat (volbase fs) + unat nrsv"
    unfolding ns(2) using vb u16 [of nrsv] by (simp add: unat_word_ariths(1) u16_64)
  have db: "unat (database fs) = unat (volbase fs) + unat sysect"
    unfolding ns(3) using vb unsigned_less [of sysect, where ?'a = nat] by (simp add: unat_word_ariths(1) u32_64)
  have n2: "2 \<le> unat (n_fatent fs)" using g by (simp add: geometry_ok_def word_le_nat_alt)
  have c8: "unat (csize fs) \<le> 2 ^ 7"
  proof -
    have "unat (csize fs) = 2 ^ k" using k by (simp add: unat_exp)
    then show ?thesis using k(1) power_increasing [of k 7 "2::nat"] by simp
  qed
  have "unat (csize fs) * unat (n_fatent fs) = unat (csize fs) * (unat (n_fatent fs) - 2) + 2 * unat (csize fs)"
    using n2 by (simp add: algebra_simps flip: diff_mult_distrib2)
  moreover have "2 ^ 62 + 2 ^ 32 + 2 * 2 ^ 7 \<le> (2 ^ 64 :: nat)" by simp
  ultimately have "unat (database fs) + unat (csize fs) * unat (n_fatent fs) < 2 ^ 64" using db vb ns(5) c8 by linarith
  moreover have "0 < database fs" using db sy n0 by (simp add: word_less_nat_alt)
  moreover have "fatbase fs < 2 ^ 63" using fb vb u16 [of nrsv] by (simp add: word_less_nat_alt)
  moreover have "\<exists>k < 16. csize fs = 2 ^ k" using k by (intro exI [of _ k]) simp
  moreover have "fs_type fs \<noteq> 0" "fs_type fs = FS_FAT12 \<longrightarrow> n_fatent fs \<le> 0xFF7" using g by (auto simp: geometry_ok_def)
  ultimately show "vol_ok d fs" using w by (simp add: vol_ok_def geom_ok_def)
  show "unat (database fs) = unat (fatbase fs) + unat (fat_size fs) * unat (n_fats fs) + unat (n_rootdir fs div 16)"
    using db fb sy by simp
  show "root_ok fs" if t: "fs_type fs \<noteq> FS_FAT32"
  proof -
    have "unat (dirbase fs) = unat (fatbase fs) + unat (fat_size fs) * unat (n_fats fs)"
      using ns(6) t fb vb u16 [of nrsv] a by (simp add: unat_word_ariths(1) u32_64 fa)
    then have "0 < dirbase fs" "dirbase fs < 2 ^ 63" using fb vb n0 a u16 [of nrsv] by (simp_all add: word_less_nat_alt)
    then show ?thesis using g t by (auto simp: root_ok_def geometry_ok_def)
  qed
qed

text \<open>
  C19. When \<^verbatim>\<open>f_mount\<close> reports success for a FAT12, FAT16 or FAT32 volume that starts below sector \<open>2 ^ 62\<close> and whose tables have
  together less than \<open>2 ^ 31\<close> sectors, the volume object satisfies what the operations on files and directories need: the cluster
  size is a power of two, the data sectors begin right behind the tables and the root table, the sectors of all clusters lie within
  64 bits, the root table of FAT12 and FAT16 is made of whole sectors, and the entries of all clusters lie inside the allocation
  table. Both bounds are on fields that come from the disk: \<^verbatim>\<open>mount_volume\<close> does not test them, and with larger tables its
  32-bit sum of sectors can wrap.
\<close>

theorem f_mount_establishes_the_volume:
  assumes "f_mount ub (Some d) st True s path opt = Some (FR_OK, st')" and "opt \<noteq> 0"
    and "fs_type (fatfs st') \<noteq> FS_EXFAT" and "volbase (fatfs st') < 2 ^ 62" and "unat (fat_size (fatfs st')) * unat (n_fats (fatfs st')) < 2 ^ 31"
  shows "FatFs st' \<and> ramdisk_buffer st' = Some d \<and> vol_ok d (fatfs st') \<and> (fs_type (fatfs st') \<noteq> FS_FAT32 \<longrightarrow> root_ok (fatfs st'))
    \<and> unat (database (fatfs st')) = unat (fatbase (fatfs st')) + unat (fat_size (fatfs st')) * unat (n_fats (fatfs st')) + unat (n_rootdir (fatfs st') div 16)
    \<and> (\<forall>c < unat (n_fatent (fatfs st')). fat_entry_end (fs_type (fatfs st')) c \<le> unat (fat_size (fatfs st')) * SS)"
proof -
  obtain vol rp where v: "get_ldnumber s path = Some (vol, rp)" using assms(1) by (auto simp: f_mount_def split: option.splits)
  define st1 where "st1 = (if FatFs st then st\<lparr>FatFs := False, fatfs := (fatfs st)\<lparr>fs_type := 0\<rparr>\<rparr> else st)"
  define st2 where "st2 = st1\<lparr>FatFs := True, fatfs := (fatfs st1)\<lparr>pdrv := of_int vol, fs_type := 0\<rparr>\<rparr>"
  have v0: "vol = 0" using assms(1) get_ldnumber_range [OF v] v by (auto simp: f_mount_def)
  have "\<exists>rp b. mount_volume ub (Some d) st2 s path = Some (FR_OK, rp, b, st')"
    using assms(1,2) v v0 by (auto simp: f_mount_def st2_def st1_def Let_def split: option.splits if_splits prod.splits)
  moreover have "FatFs st2" "fs_type (fatfs st2) = 0" "pdrv (fatfs st2) = 0" by (simp_all add: st2_def v0)
  ultimately have m: "do_mount ub (Some d) st2 = Some (FR_OK, st')"
    using v v0 by (auto simp: mount_volume_def split: option.splits)
  note ok = do_mount_ok [OF m \<open>pdrv (fatfs st2) = 0\<close> assms(3)]
  have "\<forall>c < unat (n_fatent (fatfs st')). fat_entry_end (fs_type (fatfs st')) c \<le> unat (fat_size (fatfs st')) * SS"
    using ok(3) by (simp add: geometry_ok_def)
  then show ?thesis using geometry_vol_ok [OF ok(3,1) assms(4,5)] ok(2,6) \<open>FatFs st2\<close> by simp
qed

text \<open>A disk of 200 sectors formatted with FAT12: the fields of its boot sector.\<close>

definition example_boot_disk :: disk where
  "example_boot_disk a = (let n = unat a in
     if n = 0 then 0xEB else if n = 12 then 0x02 else if n = 13 then 1 else if n = 14 then 1 else if n = 16 then 1 else if n = 17 then 16
     else if n = 19 then 200 else if n = 22 then 2 else 0)"

definition example_ff :: ff_state where
  "example_ff = \<lparr>FatFs = False, Fsid = 0, fatfs = example_fs, ramdisk_buffer = None\<rparr>"

definition example_root_path :: bytes where
  "example_root_path i = (if i = 0 then 0x2F else 0)"

lemma example_boot_bytes: "i < 512 \<Longrightarrow> blit_bytes w 0 (\<lambda>i. example_boot_disk (of_nat i)) 512 i =
   (if i = 0 then 0xEB else if i = 12 then 0x02 else if i = 13 then 1 else if i = 14 then 1 else if i = 16 then 1 else if i = 17 then 16
     else if i = 19 then 200 else if i = 22 then 2 else 0)"
  by (simp add: blit_bytes_def example_boot_disk_def Let_def unsigned_of_nat take_bit_nat_eq_self)

lemma example_drive: "get_ldnumber example_root_path (Some 0) = Some (0, Some 0)"
  by (simp add: get_ldnumber_def find_colon.simps example_root_path_def)

definition example_boot_fs :: FATFS where
  "example_boot_fs = example_fs\<lparr>fs_type := 0, winsect := 0, win := blit_bytes (\<lambda>_. 0) 0 (\<lambda>i. example_boot_disk (of_nat i)) 512\<rparr>"

lemma example_find_volume: "find_volume (Some example_boot_disk) (example_fs\<lparr>fs_type := 0\<rparr>) 0 = (0, example_boot_fs)"
proof -
  have m: "move_window (Some example_boot_disk) (example_fs\<lparr>fs_type := 0, wflag := 0, winsect := - 1\<rparr>) 0 = (FR_OK, example_boot_fs)"
    by (simp add: move_window_def disk_read_def example_boot_fs_def example_fs_def)
  have "win example_boot_fs = blit_bytes (\<lambda>_. 0) 0 (\<lambda>i. example_boot_disk (of_nat i)) 512" by (simp add: example_boot_fs_def)
  then have "check_fs (Some example_boot_disk) (example_fs\<lparr>fs_type := 0\<rparr>) 0 = (0, example_boot_fs)"
    by (simp add: check_fs_def m Let_def example_boot_bytes ld_word_def word_le_nat_alt)
  then show ?thesis by (simp add: find_volume_def)
qed

definition example_mounted_fs :: FATFS where
  "example_mounted_fs = example_boot_fs\<lparr>fs_type := FS_FAT12, fs_id := 1, fat_size := 2, n_fats := 1, csize := 1, n_rootdir := 16, n_fatent := 198,
     volbase := 0, fatbase := 1, database := 4, dirbase := 3\<rparr>"

lemma example_mount_fat: "mount_fat example_boot_fs 0 = (Inr FS_FAT12, example_mounted_fs\<lparr>fs_type := 0, fs_id := 1\<rparr>)"
proof -
  have w: "win example_boot_fs = blit_bytes (\<lambda>_. 0) 0 (\<lambda>i. example_boot_disk (of_nat i)) 512" by (simp add: example_boot_fs_def)
  show ?thesis
    by (simp add: mount_fat_def mount_limits_def fat_sub_type_def Let_def w example_boot_bytes ld_word_def example_mounted_fs_def)
      (simp add: example_boot_fs_def example_fs_def)
qed

lemma example_mount: "f_mount ub (Some example_boot_disk) example_ff True example_root_path (Some 0) 1 =
  Some (FR_OK, \<lparr>FatFs = True, Fsid = 1, fatfs = example_mounted_fs, ramdisk_buffer = Some example_boot_disk\<rparr>)"
proof -
  have e: "example_fs\<lparr>pdrv := 0, fs_type := 0\<rparr> = example_fs\<lparr>fs_type := 0\<rparr>" "winsect example_boot_fs = 0"
    by (simp_all add: example_fs_def example_boot_fs_def)
  show ?thesis
    by (simp add: f_mount_def example_drive mount_volume_def example_ff_def do_mount_def e disk_initialize_def example_find_volume
      example_mount_fat Let_def example_mounted_fs_def)
qed

theorem f_mount_establishes_the_volume_witness:
  "vol_ok example_boot_disk example_mounted_fs \<and> root_ok example_mounted_fs"
  using f_mount_establishes_the_volume [OF example_mount]
  by (simp add: example_mounted_fs_def)

end
