(* ===== verification/Fat_Api.thy ===== *)
theory Fat_Api
  imports Fat_Mount
begin

text \<open>
  The functions that programs reach: opening, listing and inspecting (\<^verbatim>\<open>f_open\<close>, \<^verbatim>\<open>f_opendir\<close>, \<^verbatim>\<open>f_closedir\<close>,
  \<^verbatim>\<open>f_readdir\<close>, \<^verbatim>\<open>f_stat\<close> of \<^verbatim>\<open>ff.c\<close>), and the classes over them (\<^verbatim>\<open>FileSystem\<close>, \<^verbatim>\<open>File\<close>, \<^verbatim>\<open>Dir\<close>). The contents of
  an object that is not initialised (a local variable, a new \<^verbatim>\<open>File\<close>) are a parameter. \<open>nambuf\<close> is the working
  buffer that \<^verbatim>\<open>INIT_NAMBUF\<close> takes from the heap, \<open>None\<close> when the heap is exhausted. The lemmas compose the lookup
  of the name with the reading of the clusters: what a program reads from a file it opened by its path.
\<close>

subsection \<open>Opening and inspecting\<close>

definition init_nambuf :: "FATFS \<Rightarrow> wchars \<times> bytes \<Rightarrow> FATFS" where
  "init_nambuf fs b = fs\<lparr>lfnbuf := fst b, dirbuf := snd b\<rparr>"

text \<open>The object that is not valid any more.\<close>

definition close_obj :: "FFOBJID \<Rightarrow> FFOBJID" where
  "close_obj obj = obj\<lparr>obj_fs := False\<rparr>"

text \<open>What \<^verbatim>\<open>f_open\<close> makes of the path that was followed, and how it fills the file object.\<close>

definition f_open_check :: "FRESULT \<Rightarrow> DIR \<Rightarrow> FRESULT" where
  "f_open_check res dj =
     (if res = FR_OK then
        if fn dj NSFLAG AND NS_NONAME \<noteq> 0 then FR_INVALID_NAME
        else if attr (dir_obj dj) AND AM_DIR \<noteq> 0 then FR_NO_FILE else res
      else res)"

definition f_open_fill :: "FATFS \<Rightarrow> DIR \<Rightarrow> FIL \<Rightarrow> u8 \<Rightarrow> FIL" where
  "f_open_fill fs dj fp mode =
     (let obj = fil_obj fp;
          obj = (if fs_type fs = FS_EXFAT then
                   init_alloc_info fs (obj\<lparr>c_scl := sclust (dir_obj dj),
                     c_size := (ucast (objsize (dir_obj dj)) AND 0xFFFFFF00) OR ucast (stat (dir_obj dj)), c_ofs := blk_ofs dj\<rparr>)
                 else obj\<lparr>sclust := ld_clust fs (win fs) (dir dj), objsize := ucast (ld_dword (win fs) (dir dj + DIR_FileSize))\<rparr>)
      in fp\<lparr>fil_obj := obj\<lparr>obj_fs := True, obj_id := fs_id fs\<rparr>, flag := mode, err := FR_OK, sect := 0, fptr := 0\<rparr>)"

definition f_open ::
  "(nat \<Rightarrow> u32) \<Rightarrow> disk option \<Rightarrow> (wchars \<times> bytes) option \<Rightarrow> DIR \<Rightarrow> ff_state \<Rightarrow> FIL option \<Rightarrow> bytes \<Rightarrow> nat option \<Rightarrow> u8
    \<Rightarrow> (FRESULT \<times> ff_state \<times> FIL option) option" where
  "f_open ub mem_fs nambuf dj st fp s path mode =
     (case fp of
        None \<Rightarrow> Some (FR_INVALID_OBJECT, st, None)
      | Some fp \<Rightarrow>
          let mode = mode AND FA_READ in
          (case mount_volume ub mem_fs st s path of
             None \<Rightarrow> None
           | Some (res, path, _, st) \<Rightarrow>
               if res \<noteq> FR_OK then Some (res, st, Some (fp\<lparr>fil_obj := close_obj (fil_obj fp)\<rparr>))
               else
                 (case (nambuf, path) of
                    (None, _) \<Rightarrow> Some (FR_NOT_ENOUGH_CORE, st, Some fp)
                  | (Some b, None) \<Rightarrow> None
                  | (Some b, Some path) \<Rightarrow>
                      (case follow_path (ramdisk_buffer st) s (init_nambuf (fatfs st) b) (dj\<lparr>dir_obj := (dir_obj dj)\<lparr>obj_fs := True\<rparr>\<rparr>) path of
                         None \<Rightarrow> None
                       | Some (res, fs, dj) \<Rightarrow>
                           let res = f_open_check res dj in
                           Some (res, st\<lparr>fatfs := fs\<rparr>,
                             Some (if res = FR_OK then f_open_fill fs dj fp mode
                                   else fp\<lparr>fil_obj := close_obj (fil_obj fp)\<rparr>))))))"

text \<open>The object of the directory that \<^verbatim>\<open>f_opendir\<close> found.\<close>

definition f_opendir_enter :: "FATFS \<Rightarrow> DIR \<Rightarrow> DIR" where
  "f_opendir_enter fs dp =
     (let obj = dir_obj dp in
      dp\<lparr>dir_obj :=
        (if fs_type fs = FS_EXFAT then
           init_alloc_info fs (obj\<lparr>c_scl := sclust obj, c_size := (ucast (objsize obj) AND 0xFFFFFF00) OR ucast (stat obj), c_ofs := blk_ofs dp\<rparr>)
         else obj\<lparr>sclust := ld_clust fs (win fs) (dir dp)\<rparr>)\<rparr>)"

text \<open>Behind the path: enter the directory and rewind it.\<close>

definition f_opendir_rewind :: "disk option \<Rightarrow> FRESULT \<Rightarrow> FATFS \<Rightarrow> DIR \<Rightarrow> (FRESULT \<times> FATFS \<times> DIR) option" where
  "f_opendir_rewind rd res fs dp =
     (if res = FR_OK then
        let (res, dp) = (if fn dp NSFLAG AND NS_NONAME = 0 then
                           if attr (dir_obj dp) AND AM_DIR \<noteq> 0 then (FR_OK, f_opendir_enter fs dp) else (FR_NO_PATH, dp)
                         else (FR_OK, dp)) in
        if res = FR_OK then dir_sdi rd fs (dp\<lparr>dir_obj := (dir_obj dp)\<lparr>obj_id := fs_id fs\<rparr>\<rparr>) 0
        else Some (res, fs, dp)
      else Some (res, fs, dp))"

definition f_opendir ::
  "(nat \<Rightarrow> u32) \<Rightarrow> disk option \<Rightarrow> (wchars \<times> bytes) option \<Rightarrow> ff_state \<Rightarrow> DIR option \<Rightarrow> bytes \<Rightarrow> nat option
    \<Rightarrow> (FRESULT \<times> ff_state \<times> DIR option) option" where
  "f_opendir ub mem_fs nambuf st dp s path =
     (case dp of
        None \<Rightarrow> Some (FR_INVALID_OBJECT, st, None)
      | Some dp \<Rightarrow>
          (case mount_volume ub mem_fs st s path of
             None \<Rightarrow> None
           | Some (res, path, _, st) \<Rightarrow>
               if res \<noteq> FR_OK then Some (res, st, Some (dp\<lparr>dir_obj := close_obj (dir_obj dp)\<rparr>))
               else
                 let dp = dp\<lparr>dir_obj := (dir_obj dp)\<lparr>obj_fs := True\<rparr>\<rparr> in
                 (case (nambuf, path) of
                    (None, _) \<Rightarrow> Some (FR_NOT_ENOUGH_CORE, st, Some dp)
                  | (Some b, None) \<Rightarrow> None
                  | (Some b, Some path) \<Rightarrow>
                      (case follow_path (ramdisk_buffer st) s (init_nambuf (fatfs st) b) dp path of
                         None \<Rightarrow> None
                       | Some (res, fs, dp) \<Rightarrow>
                           (case f_opendir_rewind (ramdisk_buffer st) res fs dp of
                              None \<Rightarrow> None
                            | Some (res, fs, dp) \<Rightarrow>
                                let res = (if res = FR_NO_FILE then FR_NO_PATH else res) in
                                Some (res, st\<lparr>fatfs := fs\<rparr>,
                                  Some (if res \<noteq> FR_OK then dp\<lparr>dir_obj := close_obj (dir_obj dp)\<rparr> else dp)))))))"

definition f_closedir :: "FATFS \<Rightarrow> DIR \<Rightarrow> FRESULT \<times> DIR" where
  "f_closedir fs dp =
     (let res = validate fs (dir_obj dp) in
      if res = FR_OK then (res, dp\<lparr>dir_obj := close_obj (dir_obj dp)\<rparr>) else (res, dp))"

text \<open>\<open>fno = None\<close> is the null pointer, which rewinds the directory.\<close>

definition f_readdir ::
  "disk option \<Rightarrow> (wchars \<times> bytes) option \<Rightarrow> FATFS \<Rightarrow> DIR \<Rightarrow> FILINFO option \<Rightarrow> (FRESULT \<times> FATFS \<times> DIR \<times> FILINFO option) option" where
  "f_readdir rd nambuf fs dp fno =
     (let res = validate fs (dir_obj dp) in
      if res \<noteq> FR_OK then Some (res, fs, dp, fno)
      else
        (case (fno, nambuf) of
           (None, _) \<Rightarrow> map_option (\<lambda>(res, fs, dp). (res, fs, dp, None)) (dir_sdi rd fs dp 0)
         | (Some fno, None) \<Rightarrow> Some (FR_NOT_ENOUGH_CORE, fs, dp, Some fno)
         | (Some fno, Some b) \<Rightarrow>
             (case dir_read rd (init_nambuf fs b) dp False of
                None \<Rightarrow> None
              | Some (res, fs, dp) \<Rightarrow>
                  if res = FR_OK \<or> res = FR_NO_FILE then
                    (case get_fileinfo fs dp fno of
                       None \<Rightarrow> None
                     | Some fno \<Rightarrow>
                         (case dir_next rd fs dp of (res, fs, dp) \<Rightarrow>
                            Some (if res = FR_NO_FILE then FR_OK else res, fs, dp, Some fno)))
                  else Some (res, fs, dp, Some fno))))"

definition f_stat ::
  "(nat \<Rightarrow> u32) \<Rightarrow> disk option \<Rightarrow> (wchars \<times> bytes) option \<Rightarrow> DIR \<Rightarrow> ff_state \<Rightarrow> bytes \<Rightarrow> nat option \<Rightarrow> FILINFO option
    \<Rightarrow> (FRESULT \<times> ff_state \<times> FILINFO option) option" where
  "f_stat ub mem_fs nambuf dj st s path fno =
     (case mount_volume ub mem_fs st s path of
        None \<Rightarrow> None
      | Some (res, path, _, st) \<Rightarrow>
          if res \<noteq> FR_OK then Some (res, st, fno)
          else
            (case (nambuf, path) of
               (None, _) \<Rightarrow> Some (FR_NOT_ENOUGH_CORE, st, fno)
             | (Some b, None) \<Rightarrow> None
             | (Some b, Some path) \<Rightarrow>
                 (case follow_path (ramdisk_buffer st) s (init_nambuf (fatfs st) b) (dj\<lparr>dir_obj := (dir_obj dj)\<lparr>obj_fs := True\<rparr>\<rparr>) path of
                    None \<Rightarrow> None
                  | Some (res, fs, dj) \<Rightarrow>
                      let st = st\<lparr>fatfs := fs\<rparr> in
                      if res \<noteq> FR_OK then Some (res, st, fno)
                      else if fn dj NSFLAG AND NS_NONAME \<noteq> 0 then Some (FR_INVALID_NAME, st, fno)
                      else
                        (case fno of
                           None \<Rightarrow> Some (res, st, None)
                         | Some fno \<Rightarrow> map_option (\<lambda>fno. (res, st, Some fno)) (get_fileinfo fs dj fno)))))"

subsection \<open>The control function of the ram disk\<close>

text \<open>The result and what is stored at \<^verbatim>\<open>buff\<close>.\<close>

datatype ioctl_value = LBA u64 | WORD u16 | DWORD u32

definition disk_ioctl :: "disk option \<Rightarrow> u8 \<Rightarrow> u8 \<Rightarrow> DRESULT \<times> ioctl_value option" where
  "disk_ioctl rd drive cmd =
     (if drive \<noteq> 0 \<or> rd = None then (RES_NOTRDY, None)
      else if cmd = 0 then (RES_OK, None)
      else if cmd = 1 then (RES_PARERR, Some (LBA (0xa00000 div SS)))
      else if cmd = 2 then (RES_PARERR, Some (WORD SS))
      else if cmd = 3 then (RES_OK, Some (DWORD 1))
      else if cmd = 4 then (RES_OK, None)
      else (RES_PARERR, None))"

subsection \<open>File and directory objects of the kernel\<close>

text \<open>A \<^verbatim>\<open>File\<close> is its \<^verbatim>\<open>FIL\<close>, a \<^verbatim>\<open>Dir\<close> its \<^verbatim>\<open>DIR\<close>; \<open>None\<close> is the null pointer.\<close>

abbreviation SYS_FM_READ :: u32 where "SYS_FM_READ \<equiv> 0x1"

abbreviation SYS_FM_WRITE :: u32 where "SYS_FM_WRITE \<equiv> 0x2"

abbreviation FA_WRITE :: u8 where "FA_WRITE \<equiv> 0x02"

text \<open>A computation that may not return as an outcome.\<close>

definition returns :: "'a option \<Rightarrow> 'a outcome" where
  "returns m = (case m of None \<Rightarrow> Inl Diverges | Some x \<Rightarrow> Inr x)"

definition FileSystem_init :: "(nat \<Rightarrow> u32) \<Rightarrow> disk option \<Rightarrow> ff_state \<Rightarrow> ff_state outcome" where
  "FileSystem_init ub mem_fs st =
     bindE (returns (f_mount ub mem_fs st True (\<lambda>i. if i = 0 then 0x2F else 0) (Some 0) 1)) (\<lambda>(res, st). ok st)"

text \<open>\<open>file\<close> is the new object, with the contents of its memory, or the null pointer.\<close>

definition FileSystem_open ::
  "(nat \<Rightarrow> u32) \<Rightarrow> disk option \<Rightarrow> (wchars \<times> bytes) option \<Rightarrow> DIR \<Rightarrow> FIL option \<Rightarrow> ff_state \<Rightarrow> bytes \<Rightarrow> nat option \<Rightarrow> u32
    \<Rightarrow> (FIL option \<times> ff_state) outcome" where
  "FileSystem_open ub mem_fs nambuf dj file st s path flags =
     kassert (path \<noteq> None)
      (let mode = 0;
           mode = (if flags AND SYS_FM_READ \<noteq> 0 then mode OR FA_READ else mode);
           mode = (if flags AND SYS_FM_WRITE \<noteq> 0 then mode OR FA_WRITE else mode) in
       bindE (returns (f_open ub mem_fs nambuf dj st file s path mode)) (\<lambda>(res, st, file).
         if res = FR_OK then ok (file, st) else ok (None, st)))"

definition FileSystem_close :: "ff_state \<Rightarrow> FIL option \<Rightarrow> ff_state outcome" where
  "FileSystem_close st handle =
     (case handle of None \<Rightarrow> Inl Panic | Some handle \<Rightarrow> let _ = f_close (fatfs st) handle in ok st)"

definition FileSystem_open_dir ::
  "(nat \<Rightarrow> u32) \<Rightarrow> disk option \<Rightarrow> (wchars \<times> bytes) option \<Rightarrow> DIR option \<Rightarrow> ff_state \<Rightarrow> bytes \<Rightarrow> nat option
    \<Rightarrow> (DIR option \<times> ff_state) outcome" where
  "FileSystem_open_dir ub mem_fs nambuf new_dir st s path =
     kassert (path \<noteq> None)
      (bindE (returns (f_opendir ub mem_fs nambuf st new_dir s path)) (\<lambda>(res, st, new_dir).
         if res = FR_OK then ok (new_dir, st) else ok (None, st)))"

definition FileSystem_close_dir :: "ff_state \<Rightarrow> DIR option \<Rightarrow> ff_state outcome" where
  "FileSystem_close_dir st handle =
     (case handle of None \<Rightarrow> Inl Panic | Some handle \<Rightarrow> let _ = f_closedir (fatfs st) handle in ok st)"

text \<open>\<^verbatim>\<open>File::read\<close> returns whether it succeeded, the number of bytes read, the buffer and the state.\<close>

definition File_read :: "ff_state \<Rightarrow> FIL \<Rightarrow> bytes \<Rightarrow> u64 \<Rightarrow> (bool \<times> u64 \<times> bytes \<times> ff_state \<times> FIL) outcome" where
  "File_read st m_handle buffer bytes_to_read =
     bindE (returns (f_read (ramdisk_buffer st) (fatfs st) m_handle buffer (ucast bytes_to_read))) (\<lambda>(result, n, buffer, fs, m_handle).
       ok (result = FR_OK, ucast n, buffer, st\<lparr>fatfs := fs\<rparr>, m_handle))"

definition File_write :: "bytes \<Rightarrow> u64 \<Rightarrow> bool" where
  "File_write buffer bytes_to_write = False"

definition File_seek :: "ff_state \<Rightarrow> FIL \<Rightarrow> u64 \<Rightarrow> (bool \<times> ff_state \<times> FIL) outcome" where
  "File_seek st m_handle offset =
     bindE (returns (f_lseek (ramdisk_buffer st) (fatfs st) m_handle offset)) (\<lambda>(result, fs, m_handle).
       ok (result = FR_OK, st\<lparr>fatfs := fs\<rparr>, m_handle))"

definition File_truncate :: "FIL \<Rightarrow> bool" where
  "File_truncate m_handle = False"

definition File_get_size :: "FIL \<Rightarrow> u64" where
  "File_get_size m_handle = objsize (fil_obj m_handle)"

definition File_tell :: "FIL \<Rightarrow> u64" where
  "File_tell m_handle = fptr m_handle"

definition File_eof :: "FIL \<Rightarrow> bool" where
  "File_eof m_handle \<longleftrightarrow> fptr m_handle = objsize (fil_obj m_handle)"

record sys_file_info =
  info_name :: bytes
  is_dir :: bool

text \<open>\<^verbatim>\<open>Dir::read\<close>; \<open>filinfo\<close> is its uninitialised local variable.\<close>

definition Dir_read ::
  "(wchars \<times> bytes) option \<Rightarrow> FILINFO \<Rightarrow> ff_state \<Rightarrow> DIR \<Rightarrow> sys_file_info option \<Rightarrow> (bool \<times> sys_file_info option \<times> ff_state \<times> DIR) outcome" where
  "Dir_read nambuf filinfo st m_handle file_info =
     (case file_info of
        None \<Rightarrow> Inl Panic
      | Some info \<Rightarrow>
          bindE (returns (f_readdir (ramdisk_buffer st) nambuf (fatfs st) m_handle (Some filinfo))) (\<lambda>(res, fs, m_handle, fno).
            let st = st\<lparr>fatfs := fs\<rparr>; filinfo = the fno in
            if res \<noteq> FR_OK \<or> fname filinfo 0 = 0 then ok (False, Some info, st, m_handle)
            else ok (True, Some (info\<lparr>info_name := blit_bytes (info_name info) 0 (fname filinfo) (FF_LFN_BUF + 1),
                                      is_dir := fattrib filinfo AND AM_DIR \<noteq> 0\<rparr>), st, m_handle)))"

subsection \<open>Paths lead to entries\<close>

text \<open>
  The path at \<open>path\<close>, read from the directory of \<open>dp\<close>, leads to the entry \<open>e\<close>: every segment but the last names a
  sub-directory, and each name is that of the first matching entry of its directory. What the name buffers and the
  sector window hold when a sub-directory is entered does not matter.
\<close>

inductive leads_to :: "disk \<Rightarrow> bytes \<Rightarrow> FATFS \<Rightarrow> DIR \<Rightarrow> nat \<Rightarrow> bytes \<Rightarrow> bool" for d s where
  leads_here: "create_name fs dp s path = Some (FR_OK, fs1, dp1, path1) \<Longrightarrow> dir_table d fs1 (dir_obj dp1) E n
    \<Longrightarrow> first_entry E 0 n (entry_matches E (lfnbuf fs1) (fn dp1)) = Some j
    \<Longrightarrow> fn dp1 NSFLAG AND NS_LAST \<noteq> 0 \<Longrightarrow> leads_to d s fs dp path (E j)"
| leads_in: "create_name fs dp s path = Some (FR_OK, fs1, dp1, path1) \<Longrightarrow> dir_table d fs1 (dir_obj dp1) E n
    \<Longrightarrow> first_entry E 0 n (entry_matches E (lfnbuf fs1) (fn dp1)) = Some j
    \<Longrightarrow> fn dp1 NSFLAG AND NS_LAST = 0 \<Longrightarrow> (E j DIR_Attr AND AM_MASK) AND AM_DIR \<noteq> 0
    \<Longrightarrow> \<forall>fs2 dp2. same_geo fs fs2 \<and> win_ok d fs2 \<and> sclust (dir_obj dp2) = ld_clust fs (E j) 0 \<longrightarrow> leads_to d s fs2 dp2 path1 e
    \<Longrightarrow> leads_to d s fs dp path e"

text \<open>An entry in the window.\<close>

definition shows_entry :: "FATFS \<Rightarrow> DIR \<Rightarrow> bytes \<Rightarrow> bool" where
  "shows_entry fs dp e \<longleftrightarrow> (\<forall>i < SZDIRE. win fs (dir dp + i) = e i)"

lemma shows_entry_loads:
  assumes "shows_entry fs dp e" "fs_type fs = fs_type fs0"
  shows "ld_clust fs (win fs) (dir dp) = ld_clust fs0 e 0" "ld_dword (win fs) (dir dp + DIR_FileSize) = ld_dword e DIR_FileSize"
proof -
  have b: "win fs (dir dp + i) = e i" if "i < SZDIRE" for i using assms(1) that by (simp add: shows_entry_def)
  have w: "ld_word (win fs) (dir dp + k) = ld_word e k" if "k + 1 < SZDIRE" for k
    using b [of k] b [of "k + 1"] that by (simp add: ld_word_def add.assoc)
  show "ld_clust fs (win fs) (dir dp) = ld_clust fs0 e 0" by (simp add: ld_clust_def w assms(2) cong: if_cong)
  show "ld_dword (win fs) (dir dp + DIR_FileSize) = ld_dword e DIR_FileSize"
    by (rule ld_dword_cong) (use b in \<open>simp add: add.assoc\<close>)
qed

lemma table_at_facts:
  assumes "table_at d fs dp E n j"
  shows "win_ok d fs" "dir dp = SZDIRE * j mod SS"
  using assms by (auto simp: table_at_def root_at_def chain_at_def vol_ok_def)

lemma dir_find_leads:
  assumes n: "create_name fs dp s path = Some (FR_OK, fs1, dp1, path1)" and t: "dir_table d fs1 (dir_obj dp1) E n"
    and j: "first_entry E 0 n (entry_matches E (lfnbuf fs1) (fn dp1)) = Some j" and e: "s e < 0x20" "path \<le> e"
    and f: "fs_type fs \<noteq> FS_EXFAT" "csize fs \<noteq> 0"
  obtains fs2 dp2 where "dir_find (Some d) fs1 dp1 = Some (FR_OK, fs2, dp2)" "same_geo fs fs2" "win_ok d fs2" "shows_entry fs2 dp2 (E j)"
    "attr (dir_obj dp2) = E j DIR_Attr AND AM_MASK" "fn dp2 = fn dp1" "dptr dp2 = of_nat (SZDIRE * j)" "dir dp2 = SZDIRE * j mod SS"
    "fn dp1 NSFLAG AND NS_NONAME = 0" "fn dp1 NSFLAG AND NS_LAST = 0 \<longrightarrow> path < path1 \<and> path1 \<le> e" "dir_obj dp1 = dir_obj dp"
proof -
  have ok: "name_ok fs dp path e FR_OK fs1 dp1 path1" using create_name_ok [of s e path fs dp] n e by auto
  note g1 = name_ok_geo [OF ok]
  have flags: "fn dp1 NSFLAG AND NS_NOLFN = 0" "fn dp1 NSFLAG AND NS_NONAME = 0"
      "fn dp1 NSFLAG AND NS_LAST = 0 \<longrightarrow> path < path1 \<and> path1 \<le> e" and obj: "dir_obj dp1 = dir_obj dp"
    using ok unfolding name_ok_def by (simp, simp, simp, metis DIR.select_convs(1) DIR.surjective DIR.update_convs(6))
  have f1: "fs_type fs1 \<noteq> FS_EXFAT" "csize fs1 \<noteq> 0" using f same_geo_fields [OF g1] by simp_all
  from dir_find_table [OF t f1(1) flags(1)] j obtain fs2 dp2 where d2: "dir_find (Some d) fs1 dp1 = Some (FR_OK, fs2, dp2)"
      "same_geo fs1 fs2" "table_at d fs2 dp2 E n j" "dptr dp2 = of_nat (SZDIRE * j)" "shows_entry fs2 dp2 (E j)"
      "attr (dir_obj dp2) = E j DIR_Attr AND AM_MASK"
    by (auto simp: search_ok_def shows_entry_def)
  have "fn dp2 = fn dp1" using dir_find_total [OF f1(2), of 0 "Some d" dp1] f1(1) d2(1) by auto
  then show thesis
    using that d2 flags obj table_at_facts [OF d2(3)] same_geo_trans [OF g1 d2(2)] by blast
qed

lemma entry_offset: "unat (of_nat k mod SS :: u32) = k mod SS"
proof -
  have "(k mod 2 ^ 32) mod 2 ^ 9 = k mod (2 ^ 9 :: nat)" by (rule mod_mod_cancel) (simp add: le_imp_power_dvd)
  then show ?thesis by (simp add: unat_mod unsigned_of_nat take_bit_eq_mod)
qed

lemma follow_leads:
  assumes "leads_to d s fs dp path en" "s e < 0x20" "path \<le> e" "fs_type fs \<noteq> FS_EXFAT" "csize fs \<noteq> 0"
  shows "\<exists>fs' dp'. follow_loop (Some d) s fs dp path = Some (FR_OK, fs', dp') \<and> same_geo fs fs' \<and> win_ok d fs' \<and> shows_entry fs' dp' en
    \<and> attr (dir_obj dp') = en DIR_Attr AND AM_MASK \<and> fn dp' NSFLAG AND NS_NONAME = 0"
  using assms
proof (induction rule: leads_to.induct)
  case (leads_here fs dp path fs1 dp1 path1 E n j)
  obtain fs2 dp2 where "dir_find (Some d) fs1 dp1 = Some (FR_OK, fs2, dp2)" "same_geo fs fs2" "win_ok d fs2" "shows_entry fs2 dp2 (E j)"
      "attr (dir_obj dp2) = E j DIR_Attr AND AM_MASK" "fn dp2 = fn dp1" "fn dp1 NSFLAG AND NS_NONAME = 0"
    by (rule dir_find_leads [OF leads_here(1-3,5-8)])
  moreover from this have "follow_loop (Some d) s fs dp path = Some (FR_OK, fs2, dp2)"
    using leads_here(1,4) by (subst follow_loop.simps) (simp add: Let_def)
  ultimately show ?case by auto
next
  case (leads_in fs dp path fs1 dp1 path1 E n j en)
  obtain fs2 dp2 where f: "dir_find (Some d) fs1 dp1 = Some (FR_OK, fs2, dp2)" "same_geo fs fs2" "win_ok d fs2" "shows_entry fs2 dp2 (E j)"
      "attr (dir_obj dp2) = E j DIR_Attr AND AM_MASK" "fn dp2 = fn dp1" "dptr dp2 = of_nat (SZDIRE * j)" "dir dp2 = SZDIRE * j mod SS"
      "fn dp1 NSFLAG AND NS_LAST = 0 \<longrightarrow> path < path1 \<and> path1 \<le> e"
    by (rule dir_find_leads [OF leads_in(1-3,7-10)])
  note geo = same_geo_fields [OF f(2)]
  have "dir dp2 = unat (dptr dp2 mod SS)" using entry_offset [of "SZDIRE * j"] by (simp only: f(7,8))
  then have "sclust (dir_obj (enter_dir fs2 dp2)) = ld_clust fs (E j) 0"
    using shows_entry_loads(1) [OF f(4) geo(1)] leads_in(9) geo(1) by (simp add: enter_dir_def Let_def)
  with leads_in(6) [rule_format, of fs2 "enter_dir fs2 dp2"] f leads_in(4,7,9,10) geo obtain fs3 dp3 where
      r: "follow_loop (Some d) s fs2 (enter_dir fs2 dp2) path1 = Some (FR_OK, fs3, dp3)" "same_geo fs2 fs3" "win_ok d fs3"
         "shows_entry fs3 dp3 en" "attr (dir_obj dp3) = en DIR_Attr AND AM_MASK" "fn dp3 NSFLAG AND NS_NONAME = 0"
    by auto
  have "follow_loop (Some d) s fs dp path = follow_loop (Some d) s fs2 (enter_dir fs2 dp2) path1"
    using leads_in(1,4,5) f(1,5,6) by (subst follow_loop.simps) (simp add: Let_def)
  then show ?case using r same_geo_trans [OF f(2) r(2)] by auto
qed

subsection \<open>Opening by path and reading\<close>

text \<open>The volume is mounted from the disk \<open>d\<close> as FAT12, FAT16 or FAT32.\<close>

definition mounted_fat :: "disk \<Rightarrow> ff_state \<Rightarrow> bool" where
  "mounted_fat d st \<longleftrightarrow> FatFs st \<and> ramdisk_buffer st = Some d \<and> vol_ok d (fatfs st) \<and> fs_type (fatfs st) \<noteq> FS_EXFAT"

text \<open>The text at \<open>path\<close> has its first name at \<open>q\<close>, behind a drive prefix and separators, and a terminator at \<open>e\<close>.\<close>

definition path_text :: "bytes \<Rightarrow> nat \<Rightarrow> nat \<Rightarrow> nat \<Rightarrow> bool" where
  "path_text s path q e \<longleftrightarrow> (\<exists>p. get_ldnumber s (Some path) = Some (0, Some p) \<and> skip_separators s p = Some q)
     \<and> \<not> IsTerminator (s q) \<and> s e < 0x20 \<and> q \<le> e"

text \<open>The directory object with which \<^verbatim>\<open>follow_path\<close> starts, and the object an entry describes.\<close>

definition root_search :: "DIR \<Rightarrow> DIR" where
  "root_search dj = dj\<lparr>dir_obj := (dir_obj dj)\<lparr>obj_fs := True, sclust := 0, n_frag := 0\<rparr>\<rparr>"

definition entry_obj :: "FATFS \<Rightarrow> FFOBJID \<Rightarrow> bytes \<Rightarrow> FFOBJID" where
  "entry_obj fs obj en = obj\<lparr>sclust := ld_clust fs en 0, objsize := ucast (ld_dword en DIR_FileSize)\<rparr>"

lemma mount_volume_mounted:
  assumes "mounted_fat d st" "get_ldnumber s path = Some (0, p)"
  shows "mount_volume ub mem_fs st s path = Some (FR_OK, p, True, st)"
  using assms by (simp add: mount_volume_def mounted_fat_def vol_ok_def win_ok_def disk_status_def)

lemma init_nambuf_geo: "same_geo fs (init_nambuf fs b)"
  by (simp add: same_geo_eq init_nambuf_def)

lemma follow_path_leads:
  assumes m: "mounted_fat d st" and p: "get_ldnumber s path = Some (0, Some p)" "skip_separators s p = Some q" "\<not> IsTerminator (s q)"
    and e: "s e < 0x20" "q \<le> e" and l: "leads_to d s (init_nambuf (fatfs st) b) (root_search dj) q en"
  shows "\<exists>fs' dp'. follow_path (Some d) s (init_nambuf (fatfs st) b) (dj\<lparr>dir_obj := (dir_obj dj)\<lparr>obj_fs := True\<rparr>\<rparr>) p = Some (FR_OK, fs', dp')
    \<and> same_geo (fatfs st) fs' \<and> vol_ok d fs' \<and> shows_entry fs' dp' en
    \<and> attr (dir_obj dp') = en DIR_Attr AND AM_MASK \<and> fn dp' NSFLAG AND NS_NONAME = 0"
proof -
  note geo = same_geo_fields [OF init_nambuf_geo]
  have v: "vol_ok d (fatfs st)" and t: "fs_type (fatfs st) \<noteq> FS_EXFAT" using m by (simp_all add: mounted_fat_def)
  have c: "csize (fatfs st) \<noteq> 0" using bcs_pos [OF v] by (auto simp: bcs_def)
  obtain fs' dp' where r: "follow_loop (Some d) s (init_nambuf (fatfs st) b) (root_search dj) q = Some (FR_OK, fs', dp')"
      "same_geo (init_nambuf (fatfs st) b) fs'" "win_ok d fs'" "shows_entry fs' dp' en"
      "attr (dir_obj dp') = en DIR_Attr AND AM_MASK" "fn dp' NSFLAG AND NS_NONAME = 0"
    using follow_leads [OF l e] t c by (auto simp: geo)
  have g: "same_geo (fatfs st) fs'" by (rule same_geo_trans [OF init_nambuf_geo r(2)])
  have "follow_path (Some d) s (init_nambuf (fatfs st) b) (dj\<lparr>dir_obj := (dir_obj dj)\<lparr>obj_fs := True\<rparr>\<rparr>) p = Some (FR_OK, fs', dp')"
    using r(1) p(2,3) unfolding follow_path_def root_search_def by (simp add: Let_def)
  then show ?thesis using g vol_ok_geo [OF v g r(3)] r(4-6) by blast
qed

lemma fat_val_id: "fat_val d fs (obj\<lparr>obj_fs := a, obj_id := i\<rparr>) c = fat_val d fs obj c"
proof -
  have f: "objsize (obj\<lparr>obj_fs := a, obj_id := i\<rparr>) = objsize obj" "sclust (obj\<lparr>obj_fs := a, obj_id := i\<rparr>) = sclust obj"
    "stat (obj\<lparr>obj_fs := a, obj_id := i\<rparr>) = stat obj" "n_cont (obj\<lparr>obj_fs := a, obj_id := i\<rparr>) = n_cont obj"
    "n_frag (obj\<lparr>obj_fs := a, obj_id := i\<rparr>) = n_frag obj" by simp_all
  show ?thesis unfolding fat_val_def f ..
qed

lemma chain_geo: "same_geo fs fs' \<Longrightarrow> chain d fs' obj cs = chain d fs obj cs"
  by (simp add: chain_def fat_val_geo views_geo same_geo_fields)

lemma chain_id: "chain d fs (obj\<lparr>obj_fs := a, obj_id := i\<rparr>) cs = chain d fs obj cs"
  by (simp add: chain_def fat_val_id)

lemma f_open_leads:
  assumes m: "mounted_fat d st" and p: "path_text s path q e"
    and l: "leads_to d s (init_nambuf (fatfs st) b) (root_search dj) q en" and a: "(en DIR_Attr AND AM_MASK) AND AM_DIR = 0"
    and c: "chain d (fatfs st) (entry_obj (fatfs st) (fil_obj f) en) cs"
  shows "\<exists>st1 fp. f_open ub mem_fs (Some b) dj st (Some f) s (Some path) FA_READ = Some (FR_OK, st1, Some fp) \<and> mounted_fat d st1
    \<and> same_geo (fatfs st) (fatfs st1) \<and> fil_ok d (fatfs st1) fp cs \<and> fptr fp = 0 \<and> objsize (fil_obj fp) = ucast (ld_dword en DIR_FileSize)"
proof -
  obtain pp where pp: "get_ldnumber s (Some path) = Some (0, Some pp)" "skip_separators s pp = Some q" "\<not> IsTerminator (s q)" "s e < 0x20" "q \<le> e"
    using p by (auto simp: path_text_def)
  have rd: "ramdisk_buffer st = Some d" and t: "fs_type (fatfs st) \<noteq> FS_EXFAT" using m by (simp_all add: mounted_fat_def)
  obtain fs' dp' where r: "follow_path (Some d) s (init_nambuf (fatfs st) b) (dj\<lparr>dir_obj := (dir_obj dj)\<lparr>obj_fs := True\<rparr>\<rparr>) pp = Some (FR_OK, fs', dp')"
      "same_geo (fatfs st) fs'" "vol_ok d fs'" "shows_entry fs' dp' en" "attr (dir_obj dp') = en DIR_Attr AND AM_MASK" "fn dp' NSFLAG AND NS_NONAME = 0"
    using follow_path_leads [OF m pp l] by blast
  note geo = same_geo_fields [OF r(2)]
  define fp where "fp = f_open_fill fs' dp' f FA_READ"
  have fp: "err fp = FR_OK" "flag fp = FA_READ" "fptr fp = 0" "sect fp = 0" by (simp_all add: fp_def f_open_fill_def Let_def)
  have check: "f_open_check FR_OK dp' = FR_OK" using r(5,6) a by (simp add: f_open_check_def)
  have "f_open ub mem_fs (Some b) dj st (Some f) s (Some path) FA_READ = Some (FR_OK, st\<lparr>fatfs := fs'\<rparr>, Some fp)"
    using r(1) check unfolding f_open_def by (simp add: mount_volume_mounted [OF m pp(1)] rd fp_def)
  moreover have obj: "fil_obj fp = (entry_obj (fatfs st) (fil_obj f) en)\<lparr>obj_fs := True, obj_id := fs_id fs'\<rparr>"
    using t geo(1) shows_entry_loads [OF r(4) geo(1)] by (simp add: fp_def f_open_fill_def entry_obj_def Let_def)
  moreover have "fil_ok d fs' fp cs"
    using c unfolding fil_ok_def obj chain_id chain_geo [OF r(2)] by (simp add: fp)
  ultimately show ?thesis using r(2,3) m geo(1) fp(3) by (auto simp: mounted_fat_def entry_obj_def)
qed

text \<open>
  C22. A program that opens a file by its path for reading and reads it gets the file's bytes: on a mounted FAT12,
  FAT16 or FAT32 volume, when the path leads, through sub-directories and by short or long names, to the entry \<open>en\<close> of a
  file whose clusters \<open>cs\<close> the allocation table links, \<^verbatim>\<open>FileSystem::open\<close> returns a file of the size in the entry
  and \<^verbatim>\<open>File::read\<close> stores the first \<open>k\<close> bytes of the clusters in the buffer and nothing else, \<open>k\<close> being the smaller of
  that size and the request cut to 32 bits.
\<close>

theorem opened_file_reads_its_clusters:
  assumes "mounted_fat d st" and "path_text s path q e" and "leads_to d s (init_nambuf (fatfs st) b) (root_search dj) q en"
    and "(en DIR_Attr AND AM_MASK) AND AM_DIR = 0" and "chain d (fatfs st) (entry_obj (fatfs st) (fil_obj f) en) cs"
    and "k = min (unat (ucast n :: u32)) (unat (ld_dword en DIR_FileSize))"
  shows "\<exists>st1 fp. FileSystem_open ub mem_fs (Some b) dj (Some f) st s (Some path) SYS_FM_READ = ok (Some fp, st1)
    \<and> File_get_size fp = ucast (ld_dword en DIR_FileSize)
    \<and> (\<exists>buff' st2 fp2. File_read st1 fp buff n = ok (True, of_nat k, buff', st2, fp2)
        \<and> (\<forall>i. buff' i = (if i < k then file_byte d (fatfs st) cs i else buff i)))"
proof -
  obtain st1 fp where o: "f_open ub mem_fs (Some b) dj st (Some f) s (Some path) FA_READ = Some (FR_OK, st1, Some fp)" "mounted_fat d st1"
      "same_geo (fatfs st) (fatfs st1)" "fil_ok d (fatfs st1) fp cs" "fptr fp = 0" "objsize (fil_obj fp) = ucast (ld_dword en DIR_FileSize)"
    using f_open_leads [OF assms(1-5)] by blast
  have "FileSystem_open ub mem_fs (Some b) dj (Some f) st s (Some path) SYS_FM_READ = ok (Some fp, st1)"
    using o(1) by (simp add: FileSystem_open_def returns_def)
  moreover have sz: "unat (objsize (fil_obj fp)) = unat (ld_dword en DIR_FileSize)" 
    using unsigned_less [of "ld_dword en DIR_FileSize", where ?'a = nat] by (simp add: o(6) unsigned_ucast_eq take_bit_nat_eq_self)
  have v: "vol_ok d (fatfs st1)" "ramdisk_buffer st1 = Some d" using o(2) by (simp_all add: mounted_fat_def)
  have k: "k = min (unat (ucast n :: u32)) (unat (objsize (fil_obj fp)) - unat (fptr fp))" using assms(6) o(5) sz by simp
  obtain fs' fp' where "f_read (Some d) (fatfs st1) fp buff (ucast n) =
      Some (FR_OK, of_nat k, blit_bytes buff 0 (file_byte d (fatfs st1) cs) k, fs', fp')"
    using f_read_ok [OF v(1) o(4) k, of buff] o(5) by auto
  then have "File_read st1 fp buff n = ok (True, ucast (of_nat k :: u32), blit_bytes buff 0 (file_byte d (fatfs st1) cs) k, st1\<lparr>fatfs := fs'\<rparr>, fp')"
    by (simp add: File_read_def returns_def v(2))
  moreover have "ucast (of_nat k :: u32) = (of_nat k :: u64)"
    using assms(6) unsigned_less [of "ld_dword en DIR_FileSize", where ?'a = nat]
    by (simp add: unsigned_of_nat take_bit_nat_eq_self)
  moreover have "file_byte d (fatfs st1) cs i = file_byte d (fatfs st) cs i" for i using views_geo(2) [OF o(3)] by simp
  ultimately show ?thesis using o(6) by (auto simp: File_get_size_def blit_bytes_def)
qed

text \<open>A root table with the entry of the file \<^verbatim>\<open>B\<close> of 600 bytes in the clusters 341 and 343, and the path \<^verbatim>\<open>/b\<close>.\<close>

definition example_entry :: "nat \<Rightarrow> u8" where
  "example_entry i = (if i = 0 then 0x42 else if i < 12 then 0x20 else if i = 26 then 0x55 else if i = 27 then 0x01
     else if i = 28 then 0x58 else if i = 29 then 0x02 else 0)"

definition example_tree_disk :: disk where
  "example_tree_disk a = (if 1536 \<le> a \<and> a < 1568 then example_entry (unat a - 1536) else example_file_disk a)"

definition example_b_path :: bytes where
  "example_b_path i = (if i = 0 then 0x2F else if i = 1 then 0x62 else 0)"

definition example_state :: ff_state where
  "example_state = \<lparr>FatFs = True, Fsid = 1, fatfs = example_fs, ramdisk_buffer = Some example_tree_disk\<rparr>"

lemma example_tree_entry: "i < SZDIRE \<Longrightarrow> root_entry () example_tree_disk example_fs 0 i = example_entry i"
proof -
  assume i: "i < SZDIRE"
  then have u: "unat (1536 + of_nat i :: u64) = 1536 + i"
    by (subst unat_add_no_wrap) (simp_all add: unsigned_of_nat take_bit_nat_eq_self)
  then have "(1536 :: u64) \<le> 1536 + of_nat i" "1536 + of_nat i < (1568 :: u64)" using i by (simp_all add: word_le_nat_alt word_less_nat_alt)
  then show ?thesis using u by (simp add: root_entry_def example_tree_disk_def example_fs_def)
qed

lemma example_mounted: "mounted_fat example_tree_disk example_state"
proof -
  have "csize example_fs = 2 ^ 0" by (simp add: example_fs_def)
  then have "vol_ok example_tree_disk example_fs"
    unfolding vol_ok_def win_ok_def geom_ok_def by (intro conjI exI [of _ 0]) (simp_all add: example_fs_def)
  then show ?thesis by (simp add: mounted_fat_def example_state_def) (simp add: example_fs_def)
qed

lemma example_b_text: "path_text example_b_path 0 1 2"
  by (simp add: path_text_def get_ldnumber_def find_colon.simps skip_separators.simps example_b_path_def)

lemma example_b_name: "create_name fs dp example_b_path 1 =
  Some (FR_OK, fs\<lparr>lfnbuf := (lfnbuf fs)(0 := 0x62, 1 := 0)\<rparr>, dp\<lparr>fn := (blit_bytes (fn dp) 0 (\<lambda>_. 0x20) 11)(0 := 0x42, NSFLAG := NS_LAST OR NS_BODY)\<rparr>, 3)"
proof -
  have l: "create_lfn example_b_path (Suc 0) lfn 0 = (Some (0, 3, Suc 0), lfn(0 := 0x62))" for lfn
    by (subst create_lfn.simps, simp add: tchar2uni_def example_b_path_def bad_lfn_chars_def)
      (subst create_lfn.simps, simp add: tchar2uni_def example_b_path_def)
  have t: "snip_trailing (lfn(0 := 0x62)) (Suc 0) = Suc 0" "last_dot (lfn(0 := 0x62, Suc 0 := 0)) (Suc 0) = 0" "leading_spaces (lfn(0 := 0x62, Suc 0 := 0)) 0 = Some 0" for lfn
    by (simp_all, subst leading_spaces.simps, simp)
  have "sfn_loop (lfn(0 := 0x62, Suc 0 := 0)) 0 0 0 8 0 NS_LAST sfn = Some (8, 1, NS_LAST, sfn(0 := 0x42))" for lfn sfn
    by (subst sfn_loop.simps, simp add: sfn_oem_def sfn_sbc_def bad_sfn_chars_def) (subst sfn_loop.simps, simp)
  then show ?thesis by (simp add: create_name_def l t sfn_finish_def Let_def)
qed

abbreviation (input) example_en :: bytes where "example_en \<equiv> root_entry () example_tree_disk example_fs 0"

lemma example_b_leads: "leads_to example_tree_disk example_b_path (init_nambuf (fatfs example_state) b) (root_search example_dir) 1 example_en"
proof -
  define fs where "fs = init_nambuf example_fs b"
  have geo: "same_geo example_fs (fs\<lparr>lfnbuf := lfn\<rparr>)" for lfn by (simp add: same_geo_eq fs_def init_nambuf_def)
  have w: "win_ok example_tree_disk (fs\<lparr>lfnbuf := lfn\<rparr>)" "root_ok (fs\<lparr>lfnbuf := lfn\<rparr>)" for lfn
    by (simp_all add: win_ok_def root_ok_def fs_def init_nambuf_def example_fs_def)
  have t: "dir_table example_tree_disk (fs\<lparr>lfnbuf := lfn\<rparr>) (dir_obj (root_search example_dir)) (root_entry () example_tree_disk example_fs) 16" for lfn
    using w rt.view_geo [OF geo, of "()" example_tree_disk]
    by (simp add: dir_table_def root_search_def root_entries_def) (simp add: example_fs_def)
  have m: "entry_matches (root_entry () example_tree_disk example_fs) lfn ((blit_bytes w 0 (\<lambda>_. 0x20) 11)(0 := 0x42, NSFLAG := NS_LAST OR NS_BODY)) 0" for lfn w
    by (simp add: entry_matches_def example_tree_entry example_entry_def blit_bytes_def)
  have z: "root_entry () example_tree_disk example_fs 0 0 \<noteq> 0" by (simp add: example_tree_entry example_entry_def)
  have f: "first_entry (root_entry () example_tree_disk example_fs) 0 16 (entry_matches (root_entry () example_tree_disk example_fs) lfn
      ((blit_bytes w 0 (\<lambda>_. 0x20) 11)(0 := 0x42, NSFLAG := NS_LAST OR NS_BODY))) = Some 0" for lfn w
    using m [of lfn w] z by (subst first_entry_step) simp_all
  show ?thesis
    unfolding example_state_def ff_state.simps fs_def [symmetric]
    by (rule leads_here [OF example_b_name, where j = 0 and n = 16]) (use t f in simp_all)
qed

lemma example_b_loads: "ld_clust example_fs example_en 0 = 341" "ld_dword example_en DIR_FileSize = 600" "example_en DIR_Attr = 0x20"
  by (simp_all add: ld_clust_def ld_word_def ld_dword_def example_tree_entry example_entry_def example_fs_def [THEN arg_cong, of fs_type])

theorem opened_file_reads_its_clusters_witness:
  "\<exists>st1 fp buff' st2 fp2. FileSystem_open (\<lambda>_. 0) None (Some (\<lambda>_. 7, \<lambda>_. 7)) example_dir (Some example_fil) example_state example_b_path (Some 0) SYS_FM_READ
      = ok (Some fp, st1) \<and> File_get_size fp = 600 \<and> File_read st1 fp (\<lambda>_. 7) 1000 = ok (True, 600, buff', st2, fp2) \<and> buff' 520 = 0x41 \<and> buff' 600 = 7"
proof -
  have "fat_val example_tree_disk example_fs obj 341 = 343" for obj
    by (simp add: fat_val_def fat_entry_def fat_byte_def example_fs_def example_tree_disk_def example_file_disk_def)
  then have c: "chain example_tree_disk (fatfs example_state) (entry_obj (fatfs example_state) (fil_obj example_fil) example_en) [341, 343]"
    by (simp add: chain_def bcs_def entry_obj_def example_state_def example_b_loads less_Suc_eq nth_Cons') (simp add: example_fs_def)
  have k: "600 = min (unat (ucast (1000 :: u64) :: u32)) (unat (ld_dword example_en DIR_FileSize))" by (simp add: example_b_loads)
  have a: "(example_en DIR_Attr AND AM_MASK) AND AM_DIR = 0" by (simp add: example_b_loads)
  have "file_byte example_tree_disk (fatfs example_state) [341, 343] 520 = 0x41"
    by (simp add: file_byte_def bcs_def clst2sect_def example_state_def example_fs_def example_tree_disk_def example_file_disk_def)
  then show ?thesis
    using opened_file_reads_its_clusters [OF example_mounted example_b_text example_b_leads a c k, of "\<lambda>_. 0" None "(\<lambda>_. 7, \<lambda>_. 7)" "\<lambda>_. 7"]
    by (auto simp: example_b_loads)
qed

end
