(* ===== verification/Mmu_Entry.thy ===== *)
theory Mmu_Entry
  imports Utils
begin

text \<open>
  Entries and addresses of the translation tables of \<^verbatim>\<open>kernel/memory/mmu_table.cpp\<close>: page attributes, the encoding and
  decoding of an entry, its kind at a level, and the arithmetic on virtual addresses. An enumeration of \<^verbatim>\<open>mmu_table.hpp\<close> is
  its 8-bit underlying value, as the code casts raw bits to it. A page-aligned address of an address space is
  \<open>page_va base p\<close>, the page number \<open>p\<close> counted from the base; the lemmas turn the bit operations on such addresses into
  arithmetic on page numbers.
\<close>

subsection \<open>Attributes\<close>

type_synonym Shareability = u8
type_synonym ExecutionPermission = u8
type_synonym ReadWritePermission = u8
type_synonym Accessibility = u8
type_synonym MemoryType = u8

abbreviation NonShareable :: Shareability where "NonShareable \<equiv> 0"

abbreviation OuterShareable :: Shareability where "OuterShareable \<equiv> 2"

abbreviation InnerShareable :: Shareability where "InnerShareable \<equiv> 3"

abbreviation AllExecute :: ExecutionPermission where "AllExecute \<equiv> 0"

abbreviation ProcessExecute :: ExecutionPermission where "ProcessExecute \<equiv> 1"

abbreviation PrivilegedExecute :: ExecutionPermission where "PrivilegedExecute \<equiv> 2"

abbreviation NeverExecute :: ExecutionPermission where "NeverExecute \<equiv> 3"

abbreviation ReadWrite :: ReadWritePermission where "ReadWrite \<equiv> 0"

abbreviation ReadOnly :: ReadWritePermission where "ReadOnly \<equiv> 1"

abbreviation Privileged :: Accessibility where "Privileged \<equiv> 0"

abbreviation AllProcess :: Accessibility where "AllProcess \<equiv> 1"

abbreviation Normal :: MemoryType where "Normal \<equiv> 0"

abbreviation Device_nGnRnE :: MemoryType where "Device_nGnRnE \<equiv> 1"

record PagesAttributes =
  sh :: Shareability
  exec :: ExecutionPermission
  rw :: ReadWritePermission
  access :: Accessibility
  mem_type :: MemoryType

datatype table_kind = Kernel | Process

datatype EntryKind = Invalid | Table | Page | Block

subsection \<open>Constants and masks\<close>

abbreviation KERNEL_BASE :: addr where "KERNEL_BASE \<equiv> 0xffff000000000000"

abbreviation PROCESS_BASE :: addr where "PROCESS_BASE \<equiv> 0"

abbreviation TTBR_MASK :: u64 where "TTBR_MASK \<equiv> 0xffff000000000000"

abbreviation PAGE_BYTES :: "'a::numeral" where "PAGE_BYTES \<equiv> 4096"

text \<open>\<^verbatim>\<open>mask_bits\<close> where the shifts are defined.\<close>

definition mask_of :: "nat \<Rightarrow> nat \<Rightarrow> u64" where
  "mask_of lo hi = (if hi < lo then 0 else push_bit lo (mask (hi - lo + 1)))"

definition PAGE_ADDRESS_MASK :: u64 where
  "PAGE_ADDRESS_MASK = mask_of 0 11"

abbreviation TABLE_ENTRIES :: nat where "TABLE_ENTRIES \<equiv> 512"

abbreviation PAGE_MARKER :: u64 where "PAGE_MARKER \<equiv> 3"

abbreviation BLOCK_MARKER :: u64 where "BLOCK_MARKER \<equiv> 1"

abbreviation TABLE_MARKER :: u64 where "TABLE_MARKER \<equiv> 3"

subsection \<open>Addresses and entries\<close>

definition get_base_address :: "table_kind \<Rightarrow> addr" where
  "get_base_address k = (case k of Kernel \<Rightarrow> KERNEL_BASE | Process \<Rightarrow> PROCESS_BASE)"

definition check_va :: "table_kind \<Rightarrow> addr \<Rightarrow> bool" where
  "check_va k va \<longleftrightarrow> va AND TTBR_MASK = get_base_address k \<and> va AND PAGE_ADDRESS_MASK = 0"

definition get_entry_kind :: "u64 \<Rightarrow> nat \<Rightarrow> EntryKind" where
  "get_entry_kind entry level =
     (if entry AND 1 = 0 then Invalid
      else if entry AND 2 = 0 then Block
      else if level = 4 then Page else Table)"

definition get_table_pa_from_entry :: "u64 \<Rightarrow> addr" where
  "get_table_pa_from_entry entry = entry AND mask_of 12 47"

text \<open>The shift \<^verbatim>\<open>12 + 9 * (4 - level)\<close>; a level of 5 wraps to 3.\<close>

definition level_shift :: "nat \<Rightarrow> nat" where
  "level_shift level = nat (12 + 9 * (4 - int level))"

definition get_index_in_table :: "addr \<Rightarrow> nat \<Rightarrow> nat" where
  "get_index_in_table va level = unat (drop_bit (level_shift level) va AND mask_of 0 8)"

definition get_entry_va_from_table_index :: "addr \<Rightarrow> nat \<Rightarrow> nat \<Rightarrow> addr" where
  "get_entry_va_from_table_index table_va level index = table_va + push_bit (level_shift level) (of_nat index)"

definition table_last_page :: "addr \<Rightarrow> nat \<Rightarrow> addr outcome" where
  "table_last_page first level =
     kassert (first AND mask_of 0 (level_shift level - 1) = 0)
       (ok (first + mask_of 12 (level_shift level + 9 - 1)))"

definition encode_new_entry :: "table_kind \<Rightarrow> addr \<Rightarrow> nat \<Rightarrow> PagesAttributes \<Rightarrow> u64" where
  "encode_new_entry k pa level attr =
     (let upper_attr = push_bit 53 (ucast (exec attr));
          nG_flag = (if k = Kernel then 0 else 1);
          lower_attr = push_bit 2 (ucast (mem_type attr)) OR push_bit 6 (ucast (access attr)) OR push_bit 7 (ucast (rw attr))
            OR push_bit 8 (ucast (sh attr)) OR push_bit 10 1 OR push_bit 11 nG_flag;
          marker = (if level = 4 then PAGE_MARKER else BLOCK_MARKER)
      in upper_attr OR (pa AND mask_of 12 47) OR lower_attr OR marker)"

definition decode_entry :: "u64 \<Rightarrow> addr \<times> PagesAttributes" where
  "decode_entry entry =
     (entry AND mask_of 12 47,
      \<lparr>sh = ucast (drop_bit 8 entry AND 3), exec = ucast (drop_bit 53 entry AND 3), rw = ucast (drop_bit 7 entry AND 1),
       access = ucast (drop_bit 6 entry AND 1), mem_type = ucast (drop_bit 2 entry AND 3)\<rparr>)"

subsection \<open>Encoding and decoding\<close>

definition attr_ok :: "PagesAttributes \<Rightarrow> bool" where
  "attr_ok a \<longleftrightarrow> sh a < 4 \<and> exec a < 4 \<and> rw a < 2 \<and> access a < 2 \<and> mem_type a < 4"

lemma bit_mask_of: "bit (mask_of lo hi) i \<longleftrightarrow> lo \<le> i \<and> i \<le> hi \<and> i < 64"
  by (auto simp: mask_of_def bit_simps)

lemma mask_bits_mask_of:
  assumes "lo \<le> hi" "hi < 63 \<or> (hi = 63 \<and> 0 < lo)"
  shows "mask_bits (of_nat lo) (of_nat hi) = ok (mask_of lo hi)"
proof -
  have u: "unat (of_nat lo :: u64) = lo" "unat (of_nat hi :: u64) = hi"
    using assms by (auto simp: unsigned_of_nat intro!: take_bit_nat_eq_self)
  obtain m where m: "mask_bits (of_nat lo) (of_nat hi) = Inr m" "\<And>i. bit m i \<longleftrightarrow> lo \<le> i \<and> i \<le> hi"
    using mask_bits_bit [of "of_nat lo" "of_nat hi"] assms u by auto
  have "m = mask_of lo hi" by (rule bit_word_eqI) (use assms m(2) in \<open>auto simp: bit_mask_of\<close>)
  then show ?thesis using m(1) by simp
qed

lemma small_bits:
  fixes x :: u8
  shows "x < 4 \<Longrightarrow> bit x i \<Longrightarrow> i < 2" "x < 2 \<Longrightarrow> bit x i \<Longrightarrow> i < 1"
proof -
  have "i < k" if "x < 2 ^ k" "k < 8" "bit x i" for k
  proof (rule ccontr)
    assume "\<not> i < k"
    moreover have "take_bit k x = x"
      using that by (simp add: word_unat_eq_iff unsigned_take_bit_eq take_bit_nat_eq_self word_less_nat_alt unat_exp)
    ultimately show False using that(3) by (metis bit_take_bit_iff)
  qed
  from this [of 2] this [of 1] show "x < 4 \<Longrightarrow> bit x i \<Longrightarrow> i < 2" "x < 2 \<Longrightarrow> bit x i \<Longrightarrow> i < 1" by simp_all
qed

lemma bit_3: "bit (3 :: u64) n \<longleftrightarrow> n = 0 \<or> n = 1"
proof -
  have "(3 :: u64) = mask 2" by (simp add: mask_eq_exp_minus_1)
  then have "bit (3 :: u64) n \<longleftrightarrow> n < 64 \<and> n < 2" by (simp only: bit_mask_iff) simp
  then show ?thesis by auto
qed

lemma push_field:
  fixes x :: u8
  shows "x < 4 \<Longrightarrow> c \<le> 62 \<Longrightarrow> bit (push_bit c (ucast x :: u64)) j \<longleftrightarrow> c \<le> j \<and> j < c + 2 \<and> bit x (j - c)"
    and "x < 2 \<Longrightarrow> c \<le> 63 \<Longrightarrow> bit (push_bit c (ucast x :: u64)) j \<longleftrightarrow> c \<le> j \<and> j < c + 1 \<and> bit x (j - c)"
  using small_bits [of x "j - c"] by (auto simp: bit_push_bit_iff bit_unsigned_iff)

lemma bit_encode:
  assumes "attr_ok attr"
  shows "bit (encode_new_entry k pa level attr) j \<longleftrightarrow> j = 0 \<or> (j = 1 \<and> level = 4) \<or> (2 \<le> j \<and> j < 4 \<and> bit (mem_type attr) (j - 2))
    \<or> (6 \<le> j \<and> j < 7 \<and> bit (access attr) (j - 6)) \<or> (7 \<le> j \<and> j < 8 \<and> bit (rw attr) (j - 7))
    \<or> (8 \<le> j \<and> j < 10 \<and> bit (sh attr) (j - 8)) \<or> j = 10
    \<or> (j = 11 \<and> k = Process) \<or> (12 \<le> j \<and> j \<le> 47 \<and> bit pa j) \<or> (53 \<le> j \<and> j < 55 \<and> bit (exec attr) (j - 53))"
proof -
  have f: "bit (push_bit 53 (ucast (exec attr) :: u64)) j \<longleftrightarrow> 53 \<le> j \<and> j < 55 \<and> bit (exec attr) (j - 53)"
    "bit (push_bit 2 (ucast (mem_type attr) :: u64)) j \<longleftrightarrow> 2 \<le> j \<and> j < 4 \<and> bit (mem_type attr) (j - 2)"
    "bit (push_bit 6 (ucast (access attr) :: u64)) j \<longleftrightarrow> 6 \<le> j \<and> j < 7 \<and> bit (access attr) (j - 6)"
    "bit (push_bit 7 (ucast (rw attr) :: u64)) j \<longleftrightarrow> 7 \<le> j \<and> j < 8 \<and> bit (rw attr) (j - 7)"
    "bit (push_bit 8 (ucast (sh attr) :: u64)) j \<longleftrightarrow> 8 \<le> j \<and> j < 10 \<and> bit (sh attr) (j - 8)"
    using assms by (simp_all add: attr_ok_def push_field)
  have k: "bit (if k = Kernel then 0 else 1 :: u64) n \<longleftrightarrow> n = 0 \<and> k = Process" for n
    by (cases k) (simp_all add: bit_1_iff)
  have g: "bit (push_bit 10 (1 :: u64)) j \<longleftrightarrow> j = 10" "bit (push_bit 11 (if k = Kernel then 0 else 1 :: u64)) j \<longleftrightarrow> j = 11 \<and> k = Process"
    unfolding bit_push_bit_iff bit_1_iff k by auto
  have h: "bit (if level = 4 then PAGE_MARKER else BLOCK_MARKER) j \<longleftrightarrow> j = 0 \<or> (j = 1 \<and> level = 4)"
    by (simp only: bit_3 bit_1_iff split: if_split) auto
  have i: "bit (pa AND mask_of 12 47) j \<longleftrightarrow> 12 \<le> j \<and> j \<le> 47 \<and> bit pa j" by (auto simp: bit_and_iff bit_mask_of)
  show ?thesis unfolding encode_new_entry_def Let_def bit_or_iff f g h i by (simp only: disj_ac)
qed

lemma and_1_bit: "(x :: u64) AND 1 = 0 \<longleftrightarrow> \<not> bit x 0"
  by (simp add: and_one_eq odd_iff_mod_2_eq_one bit_0)

lemma and_2_bit: "(x :: u64) AND 2 = 0 \<longleftrightarrow> \<not> bit x 1"
proof -
  have "bit (2 :: u64) n \<longleftrightarrow> n = 1" for n using bit_exp_iff [of 1 n, where ?'a = "64 word"] by auto
  then have "bit (x AND 2) n \<longleftrightarrow> n = 1 \<and> bit x 1" for n by (simp only: bit_and_iff) auto
  then show ?thesis using bit_eq_iff [of "x AND 2" 0] by (simp only: bit_0_eq bot_apply bot_bool_def possible_bit_word) auto
qed

lemma entry_kind_bits:
  "get_entry_kind e level = (if \<not> bit e 0 then Invalid else if \<not> bit e 1 then Block else if level = 4 then Page else Table)"
  by (simp add: get_entry_kind_def and_1_bit and_2_bit)

lemma kind_encode: "attr_ok attr \<Longrightarrow> get_entry_kind (encode_new_entry k pa level attr) level = (if level = 4 then Page else Block)"
  by (simp add: entry_kind_bits bit_encode)

text \<open>The page-aligned physical addresses that an entry can hold.\<close>

definition pa_ok :: "addr \<Rightarrow> bool" where
  "pa_ok pa \<longleftrightarrow> pa AND mask_of 12 47 = pa"

lemma kind_table_entry:
  assumes "pa_ok pa" "level \<noteq> 4"
  shows "get_entry_kind (pa OR TABLE_MARKER) level = Table" "get_table_pa_from_entry (pa OR TABLE_MARKER) = pa"
proof -
  show "get_entry_kind (pa OR TABLE_MARKER) level = Table"
    using assms(2) by (simp add: entry_kind_bits bit_or_iff bit_3)
  have "bit pa j \<Longrightarrow> 12 \<le> j \<and> j \<le> 47" for j
    using arg_cong [OF assms(1) [unfolded pa_ok_def], of "\<lambda>x. bit x j"] unfolding bit_and_iff bit_mask_of by blast
  then show "get_table_pa_from_entry (pa OR TABLE_MARKER) = pa"
    unfolding get_table_pa_from_entry_def by (intro bit_word_eqI) (unfold bit_and_iff bit_or_iff bit_3 bit_mask_of, fastforce)
qed

lemma field_encode:
  fixes x :: u8
  assumes "\<And>i. i < w \<Longrightarrow> bit (e :: u64) (c + i) \<longleftrightarrow> bit x i" "\<And>i. bit x i \<Longrightarrow> i < w" "c + w \<le> 64"
  shows "ucast (drop_bit c e AND mask w) = x"
proof (rule bit_word_eqI)
  fix i
  assume "i < LENGTH(8)"
  then show "bit (ucast (drop_bit c e AND mask w) :: u8) i \<longleftrightarrow> bit x i"
    using assms(1) [of i] assms(2) [of i] assms(3) by (auto simp: bit_unsigned_iff bit_and_iff bit_drop_bit_eq bit_mask_iff)
qed

text \<open>Decoding an encoded entry gives its address and its attributes back.\<close>

lemma decode_encode:
  assumes "attr_ok attr"
  shows "decode_entry (encode_new_entry k pa level attr) = (pa AND mask_of 12 47, attr)"
proof -
  define e where "e = encode_new_entry k pa level attr"
  note be = bit_encode [OF assms, of k pa level, folded e_def]
  have m: "(3 :: u64) = mask 2" "(1 :: u64) = mask 1" by (simp_all add: mask_eq_exp_minus_1)
  have a: "sh attr < 4" "exec attr < 4" "mem_type attr < 4" "rw attr < 2" "access attr < 2" using assms by (simp_all add: attr_ok_def)
  have "ucast (drop_bit 8 e AND 3) = sh attr" "ucast (drop_bit 53 e AND 3) = exec attr" "ucast (drop_bit 2 e AND 3) = mem_type attr"
    unfolding m by (rule field_encode; use small_bits(1) a in \<open>force simp: be\<close>)+
  moreover have "ucast (drop_bit 7 e AND 1) = rw attr" "ucast (drop_bit 6 e AND 1) = access attr"
    unfolding m by (rule field_encode; use small_bits(2) a in \<open>force simp: be\<close>)+
  moreover have "e AND mask_of 12 47 = pa AND mask_of 12 47"
    by (rule bit_word_eqI) (auto simp: bit_and_iff bit_mask_of be)
  ultimately show ?thesis by (simp add: decode_entry_def e_def)
qed

subsection \<open>Pages of an address space\<close>

abbreviation PAGES :: nat where "PAGES \<equiv> 2 ^ 36"

definition page_va :: "table_kind \<Rightarrow> nat \<Rightarrow> addr" where
  "page_va k p = get_base_address k + of_nat (p * PAGE_BYTES)"

lemma base_unat: "unat (get_base_address k) = (case k of Kernel \<Rightarrow> 65535 | Process \<Rightarrow> 0) * 2 ^ 48"
  by (simp add: get_base_address_def split: table_kind.splits)

lemma unat_page_va: "p < PAGES \<Longrightarrow> unat (page_va k p) = unat (get_base_address k) + p * PAGE_BYTES"
proof -
  assume p: "p < PAGES"
  then have "unat (of_nat (p * PAGE_BYTES) :: u64) = p * PAGE_BYTES"
    by (simp only: unsigned_of_nat) (simp add: take_bit_nat_eq_self)
  moreover have "unat (get_base_address k) + p * PAGE_BYTES < 2 ^ 64" using p by (cases k) (simp_all add: base_unat)
  ultimately show ?thesis unfolding page_va_def by (subst unat_add_no_wrap) (simp_all only: len_bit0 len_num1, simp)
qed

lemma page_va_le: "p < PAGES \<Longrightarrow> q < PAGES \<Longrightarrow> page_va k p \<le> page_va k q \<longleftrightarrow> p \<le> q"
  by (simp add: word_le_nat_alt unat_page_va)

lemma page_va_less: "p < PAGES \<Longrightarrow> q < PAGES \<Longrightarrow> page_va k p < page_va k q \<longleftrightarrow> p < q"
  by (simp add: word_less_nat_alt unat_page_va)

lemma page_va_add: "page_va k p + of_nat (i * PAGE_BYTES) = page_va k (p + i)"
  by (simp add: page_va_def algebra_simps)

lemma page_va_diff: "q \<le> p \<Longrightarrow> page_va k p - page_va k q = of_nat ((p - q) * PAGE_BYTES)"
  by (simp add: page_va_def of_nat_diff algebra_simps)

lemma page_va_next: "page_va k p + PAGE_BYTES = page_va k (Suc p)"
  using page_va_add [of k p 1] by simp

lemma page_va_prev: "0 < p \<Longrightarrow> page_va k p - PAGE_BYTES = page_va k (p - 1)"
  by (metis Suc_diff_1 add_diff_cancel_right' page_va_next)

lemma level_shift_depth: "n \<le> 3 \<Longrightarrow> level_shift (4 - n) = 12 + 9 * n"
  by (simp add: level_shift_def of_nat_diff)

lemma index_depth:
  assumes "n \<le> 3" "p < PAGES"
  shows "get_index_in_table (page_va k p) (4 - n) = p div 512 ^ n mod 512"
proof -
  define c :: nat where "c = (case k of Kernel \<Rightarrow> 65535 | Process \<Rightarrow> 0) * 2 ^ (27 - 9 * n)"
  have e: "2 ^ 48 = 2 ^ (27 - 9 * n) * 512 * (2 ^ (12 + 9 * n) :: nat)"
    using assms(1) by (simp flip: power_add power_Suc2 add: power_mult [symmetric])
  have "(2 :: nat) ^ (12 + 9 * n) = PAGE_BYTES * 512 ^ n" by (simp add: power_add power_mult)
  moreover have "unat (page_va k p) = c * 512 * 2 ^ (12 + 9 * n) + p * PAGE_BYTES"
    unfolding unat_page_va [OF assms(2)] base_unat c_def e by (simp add: ac_simps)
  moreover have "(p + c * 512 * 512 ^ n) div 512 ^ n = c * 512 + p div 512 ^ n" by (rule div_mult_self1) simp
  moreover have "(c * 512 * (PAGE_BYTES * 512 ^ n) + p * PAGE_BYTES) div (PAGE_BYTES * 512 ^ n) = (p + c * 512 * 512 ^ n) div 512 ^ n"
    using div_mult_mult2 [of PAGE_BYTES "p + c * 512 * 512 ^ n" "512 ^ n"] by (simp add: algebra_simps)
  ultimately have "unat (page_va k p) div 2 ^ (12 + 9 * n) = c * 512 + p div 512 ^ n" by (simp only:)
  moreover have "mask_of 0 8 = mask 9" by (simp add: mask_of_def)
  moreover have "unat (drop_bit (12 + 9 * n) (page_va k p)) = unat (page_va k p) div 2 ^ (12 + 9 * n)"
    by (simp only: unat_drop_bit_eq) (simp only: drop_bit_eq_div)
  ultimately show ?thesis
    unfolding get_index_in_table_def level_shift_depth [OF assms(1)] by (simp add: unat_and_mask_low)
qed

lemma pow512: "(512 :: 'a::comm_semiring_1) ^ n = 2 ^ (9 * n)"
  by (simp add: power_mult)

lemma entry_va_depth:
  assumes "n \<le> 3"
  shows "get_entry_va_from_table_index (page_va k f) (4 - n) i = page_va k (f + i * 512 ^ n)"
proof -
  have "push_bit (12 + 9 * n) (of_nat i) = (of_nat (i * 512 ^ n * PAGE_BYTES) :: u64)"
    by (simp add: push_bit_eq_mult power_add pow512 ac_simps)
  then show ?thesis
    unfolding get_entry_va_from_table_index_def level_shift_depth [OF assms] using page_va_add [of k f "i * 512 ^ n"] by simp
qed

lemma low_bits_zero: "(w :: u64) AND mask m = 0 \<longleftrightarrow> 2 ^ m dvd unat w"
  by (simp add: word_unat_eq_iff unat_and_mask_low mod_eq_0_iff_dvd)

lemma last_page_depth:
  assumes "n \<le> 3" "512 ^ n dvd f" "f < PAGES"
  shows "table_last_page (page_va k f) (4 - n) = ok (page_va k (f + 512 ^ Suc n - 1))"
proof -
  obtain m where m: "f = 512 ^ n * m" using assms(2) by blast
  have "2 ^ (12 + 9 * n) dvd unat (page_va k f)"
  proof -
    have "(2 :: nat) ^ (12 + 9 * n) dvd 2 ^ 48" using assms(1) by (intro le_imp_power_dvd) simp
    moreover have "(2 :: nat) ^ (12 + 9 * n) = PAGE_BYTES * 512 ^ n" by (simp add: power_add pow512)
    ultimately show ?thesis unfolding unat_page_va [OF assms(3)] base_unat unfolding m by (simp add: dvd_add dvd_mult)
  qed
  moreover have "mask_of 0 (12 + 9 * n - 1) = mask (12 + 9 * n)" by (simp add: mask_of_def)
  ultimately have a: "page_va k f AND mask_of 0 (12 + 9 * n - 1) = 0" by (simp only: low_bits_zero)
  have "mask_of 12 (12 + 9 * n + 9 - 1) = push_bit 12 (mask (9 * Suc n))" by (simp add: mask_of_def)
  also have "\<dots> = of_nat ((512 ^ Suc n - 1) * PAGE_BYTES)"
    by (simp add: push_bit_eq_mult mask_eq_exp_minus_1 pow512 of_nat_diff power_add algebra_simps)
  finally show ?thesis
    using page_va_add [of k f "512 ^ Suc n - 1"] a
    by (simp add: table_last_page_def level_shift_depth [OF assms(1)])
qed

text \<open>The last page that an entry covers.\<close>

lemma entry_last_page:
  assumes "n \<le> 3" "512 ^ n dvd e" "e < PAGES"
  shows "table_last_page (page_va k e) (4 - n + 1) = ok (page_va k (e + 512 ^ n - 1))"
proof (cases n)
  case 0
  have "page_va k e AND mask_of 0 2 = 0"
  proof -
    have "2 ^ 3 dvd unat (page_va k e)"
      unfolding unat_page_va [OF assms(3)] base_unat by (intro dvd_add dvd_mult) (simp_all add: dvd_def exI [of _ "2 ^ 45"] exI [of _ 512])
    moreover have "mask_of 0 2 = mask 3" by (simp add: mask_of_def)
    ultimately show ?thesis by (simp only: low_bits_zero)
  qed
  moreover have "level_shift 5 = 3" "mask_of 12 11 = 0" by (simp_all add: level_shift_def mask_of_def)
  ultimately show ?thesis using 0 by (simp add: table_last_page_def)
next
  case (Suc m)
  have "512 ^ m dvd e" using assms(2) Suc dvd_trans [of "512 ^ m" "512 ^ n" e] by (simp add: le_imp_power_dvd)
  moreover have "4 - n + 1 = 4 - m" using Suc assms(1) by simp
  ultimately show ?thesis using last_page_depth [of m e k] assms Suc by simp
qed

lemma check_va_page:
  "check_va k va \<longleftrightarrow> (\<exists>p < PAGES. va = page_va k p)"
proof
  assume c: "check_va k va"
  have t: "TTBR_MASK = NOT (mask 48)" by (simp add: mask_eq_exp_minus_1)
  have "va AND mask 12 = 0" using c by (simp add: check_va_def PAGE_ADDRESS_MASK_def mask_of_def)
  then have "PAGE_BYTES dvd unat va mod 2 ^ 48" unfolding low_bits_zero by (intro dvd_mod) simp_all
  then obtain p where p: "unat va mod 2 ^ 48 = p * PAGE_BYTES" by (metis dvdE mult.commute)
  have "unat va - unat va mod 2 ^ 48 = unat (get_base_address k)"
    using c unat_and_not_mask [of va 48] unfolding check_va_def t by simp
  then have "unat va = unat (get_base_address k) + p * PAGE_BYTES" using p by (metis le_add_diff_inverse2 mod_less_eq_dividend)
  moreover have "p < PAGES" using p mod_less_divisor [of "2 ^ 48" "unat va"] by simp
  ultimately show "\<exists>p < PAGES. va = page_va k p" using unat_page_va [of p k] by (metis word_unat_eq_iff)
next
  assume "\<exists>p < PAGES. va = page_va k p"
  then obtain p where p: "p < PAGES" "va = page_va k p" by blast
  have t: "TTBR_MASK = NOT (mask 48)" by (simp add: mask_eq_exp_minus_1)
  have u: "unat va = unat (get_base_address k) + p * PAGE_BYTES" using p by (simp add: unat_page_va)
  have "unat va mod 2 ^ 48 = p * PAGE_BYTES" using u p by (simp add: base_unat)
  then have "unat (va AND NOT (mask 48)) = unat (get_base_address k)" using u by (simp add: unat_and_not_mask)
  moreover have "va AND mask 12 = 0" unfolding low_bits_zero u base_unat by (simp add: dvd_add)
  ultimately show "check_va k va"
    unfolding check_va_def t PAGE_ADDRESS_MASK_def by (simp add: word_unat_eq_iff mask_of_def)
qed

end
