(* ===== verification/Mmu_Table.thy ===== *)
theory Mmu_Table
  imports Mmu_Entry
begin

text \<open>
  The translation tables of \<^verbatim>\<open>kernel/memory/mmu_table.cpp\<close>: looking an entry up, mapping and unmapping a range of pages,
  changing the attributes of a page or a range, and clearing the tree. A table is a page of the kernel's memory, a function
  from indices at its virtual address; \<open>pages\<close> is the state of the page allocator behind the function pointers of
  \<^verbatim>\<open>MMUTable\<close>. The recursive functions take the number \<open>n\<close> of levels below the table, so that the level of the code is
  \<open>4 - n\<close>. The barriers and the invalidation of the TLB have no effect on the tables and are left out.
\<close>

subsection \<open>State\<close>

record 'a mmu_state =
  tables :: "addr \<Rightarrow> nat \<Rightarrow> u64"
  pages :: 'a

text \<open>\<^verbatim>\<open>MMUTable\<close>; a function pointer is \<open>None\<close> when it is null and the top table is null at address 0.\<close>

record 'a MMUTable =
  kind :: table_kind
  pgd :: addr
  asid :: u8
  alloc_fun :: "('a mmu_state \<Rightarrow> (addr \<times> 'a mmu_state) outcome) option"
  free_fun :: "(addr \<Rightarrow> 'a mmu_state \<Rightarrow> 'a mmu_state outcome) option"
  resolve_pa :: "(addr \<Rightarrow> addr) option"
  resolve_va :: "(addr \<Rightarrow> addr) option"

definition set_entry :: "'a mmu_state \<Rightarrow> addr \<Rightarrow> nat \<Rightarrow> u64 \<Rightarrow> 'a mmu_state" where
  "set_entry st table index entry = st\<lparr>tables := (tables st)(table := (tables st table)(index := entry))\<rparr>"

text \<open>A loop over indices whose body may fail.\<close>

fun for_each :: "('i \<Rightarrow> 's \<Rightarrow> 's outcome) \<Rightarrow> 'i list \<Rightarrow> 's \<Rightarrow> 's outcome" where
  "for_each body [] st = ok st"
| "for_each body (i # is) st = bindE (body i st) (for_each body is)"

subsection \<open>Looking an entry up\<close>

text \<open>The table, the index and the level of the entry of a virtual address.\<close>

fun find_entry_in_table :: "'a MMUTable \<Rightarrow> 'a mmu_state \<Rightarrow> nat \<Rightarrow> addr \<Rightarrow> addr \<Rightarrow> (addr \<times> nat \<times> nat) option" where
  "find_entry_in_table tbl st n cur_tbl entry_va =
     (let cur_lvl = 4 - n;
          cur_index = get_index_in_table entry_va cur_lvl;
          cur_entry = tables st cur_tbl cur_index in
      case get_entry_kind cur_entry cur_lvl of
        Invalid \<Rightarrow> None
      | Table \<Rightarrow>
          (case n of
             0 \<Rightarrow> None
           | Suc m \<Rightarrow>
               let sub_table = the (resolve_pa tbl) (get_table_pa_from_entry cur_entry) in
               if sub_table = 0 then None else find_entry_in_table tbl st m sub_table entry_va)
      | _ \<Rightarrow> Some (cur_tbl, cur_index, cur_lvl))"

declare find_entry_in_table.simps [simp del]

definition get_attr :: "'a MMUTable \<Rightarrow> 'a mmu_state \<Rightarrow> addr \<Rightarrow> PagesAttributes option" where
  "get_attr tbl st va =
     (if pgd tbl = 0 \<or> resolve_pa tbl = None \<or> \<not> check_va (kind tbl) va then None
      else
        (case find_entry_in_table tbl st 3 (pgd tbl) va of
           None \<Rightarrow> None
         | Some (va_table, va_index, _) \<Rightarrow> Some (snd (decode_entry (tables st va_table va_index)))))"

definition change_attr_va :: "'a MMUTable \<Rightarrow> 'a mmu_state \<Rightarrow> addr \<Rightarrow> PagesAttributes \<Rightarrow> bool \<times> 'a mmu_state" where
  "change_attr_va tbl st va attr =
     (if pgd tbl = 0 \<or> resolve_pa tbl = None \<or> \<not> check_va (kind tbl) va then (False, st)
      else
        (case find_entry_in_table tbl st 3 (pgd tbl) va of
           None \<Rightarrow> (False, st)
         | Some (va_table, va_index, va_level) \<Rightarrow>
             let old_pa = fst (decode_entry (tables st va_table va_index));
                 new_entry = encode_new_entry (kind tbl) old_pa va_level attr;
                 st = set_entry st va_table va_index 0
             in (True, set_entry st va_table va_index new_entry)))"

subsection \<open>Mapping a range\<close>

text \<open>What the recursive functions share: nothing is done when the range misses the table, otherwise the body runs for the
  entries of the table that the range meets.\<close>

definition visit_range :: "(nat \<Rightarrow> 's \<Rightarrow> 's outcome) \<Rightarrow> addr \<Rightarrow> addr \<Rightarrow> nat \<Rightarrow> addr \<Rightarrow> 's \<Rightarrow> 's outcome" where
  "visit_range body va_start va_end level table_first_page_va st =
     bindE (table_last_page table_first_page_va level) (\<lambda>table_last_page_va.
       if va_end < table_first_page_va \<or> table_last_page_va < va_start \<or> va_end < va_start then ok st
       else
         let inter_start_va = max_k va_start table_first_page_va;
             inter_end_va = min_k va_end table_last_page_va;
             inter_start_index = get_index_in_table inter_start_va level;
             inter_end_index = get_index_in_table inter_end_va level
         in for_each body [inter_start_index ..< Suc inter_end_index] st)"

type_synonym 'a map_fun =
  "addr \<Rightarrow> addr \<Rightarrow> addr \<Rightarrow> PagesAttributes \<Rightarrow> addr \<Rightarrow> addr \<Rightarrow> 'a mmu_state \<Rightarrow> 'a mmu_state outcome"

text \<open>The body of the loop of \<^verbatim>\<open>map_range_in_table\<close>; \<open>rec\<close> is the recursive call on a table one level down.\<close>

definition map_entry ::
  "'a map_fun \<Rightarrow> 'a MMUTable \<Rightarrow> addr \<Rightarrow> addr \<Rightarrow> addr \<Rightarrow> PagesAttributes \<Rightarrow> addr \<Rightarrow> nat \<Rightarrow> addr \<Rightarrow> nat \<Rightarrow> 'a mmu_state
    \<Rightarrow> 'a mmu_state outcome" where
  "map_entry rec tbl va_start va_end pa_start attr table level first index st =
     (let entry = tables st table index;
          entry_va_start = get_entry_va_from_table_index first level index;
          entry_kind = get_entry_kind entry level in
      if entry_kind = Table then
        rec va_start va_end pa_start attr (the (resolve_pa tbl) (get_table_pa_from_entry entry)) entry_va_start st
      else
        bindE (table_last_page entry_va_start (level + 1)) (\<lambda>entry_va_stop.
          if level = 4 \<or> (va_start \<le> entry_va_start \<and> entry_va_stop \<le> va_end \<and> 2 \<le> level) then
            let offset = entry_va_start - va_start;
                entry_pa = pa_start + offset;
                new_entry = encode_new_entry (kind tbl) entry_pa level attr;
                st = (if entry_kind \<noteq> Invalid then set_entry st table index 0 else st)
            in ok (set_entry st table index new_entry)
          else
            let (old_pa, old_attr) = decode_entry entry;
                st = (if entry_kind = Block then set_entry st table index 0 else st) in
            bindE (the (alloc_fun tbl) st) (\<lambda>(new_table, st).
              let new_table_pa = the (resolve_va tbl) new_table;
                  st = set_entry st table index (new_table_pa OR TABLE_MARKER) in
              bindE (rec va_start va_end pa_start attr new_table entry_va_start st) (\<lambda>st.
                if entry_kind = Block then
                  bindE (rec entry_va_start (va_start - PAGE_BYTES) old_pa old_attr new_table entry_va_start st) (\<lambda>st.
                    let pa_offset = va_end + PAGE_BYTES - entry_va_start in
                    rec (va_end + PAGE_BYTES) entry_va_stop (old_pa + pa_offset) old_attr new_table entry_va_start st)
                else ok st))))"

text \<open>At level 4 the body makes no recursive call.\<close>

primrec map_range_in_table :: "nat \<Rightarrow> 'a MMUTable \<Rightarrow> 'a map_fun" where
  "map_range_in_table 0 tbl = (\<lambda>va_start va_end pa_start attr table first st.
     visit_range (map_entry (\<lambda>_ _ _ _ _ _ _. Inl Undefined) tbl va_start va_end pa_start attr table 4 first) va_start va_end 4 first st)"
| "map_range_in_table (Suc n) tbl = (\<lambda>va_start va_end pa_start attr table first st.
     visit_range (map_entry (map_range_in_table n tbl) tbl va_start va_end pa_start attr table (3 - n) first) va_start va_end (3 - n) first st)"

definition map_range :: "'a MMUTable \<Rightarrow> addr \<Rightarrow> addr \<Rightarrow> addr \<Rightarrow> PagesAttributes \<Rightarrow> 'a mmu_state \<Rightarrow> (bool \<times> 'a mmu_state) outcome" where
  "map_range tbl va_start va_end pa_start attr st =
     (if alloc_fun tbl = None \<or> resolve_va tbl = None \<or> resolve_pa tbl = None \<or> pgd tbl = 0
        \<or> \<not> check_va (kind tbl) va_start \<or> \<not> check_va (kind tbl) va_end then ok (False, st)
      else bindE (map_range_in_table 3 tbl va_start va_end pa_start attr (pgd tbl) (get_base_address (kind tbl)) st) (\<lambda>st. ok (True, st)))"

subsection \<open>Unmapping a range\<close>

text \<open>Give the block \<open>entry\<close> at \<open>index\<close> a new table, in which the pages outside the range are mapped as they were; \<open>rec\<close> is
  \<^verbatim>\<open>map_range_in_table\<close> one level down.\<close>

definition unmap_split ::
  "'a map_fun \<Rightarrow> 'a MMUTable \<Rightarrow> addr \<Rightarrow> addr \<Rightarrow> addr \<Rightarrow> nat \<Rightarrow> addr \<Rightarrow> addr \<Rightarrow> 'a mmu_state \<Rightarrow> 'a mmu_state outcome" where
  "unmap_split rec tbl va_start va_end table index entry_va_start entry_va_stop st =
     (let (entry_pa, entry_attr) = decode_entry (tables st table index) in
      bindE (the (alloc_fun tbl) st) (\<lambda>(new_table, st).
        let new_table_pa = the (resolve_va tbl) new_table;
            st = set_entry st table index 0;
            st = set_entry st table index (new_table_pa OR TABLE_MARKER) in
        bindE (rec entry_va_start (va_start - PAGE_BYTES) entry_pa entry_attr new_table entry_va_start st) (\<lambda>st.
          let pa_offset = va_end + PAGE_BYTES - entry_va_start in
          rec (va_end + PAGE_BYTES) entry_va_stop (entry_pa + pa_offset) entry_attr new_table entry_va_start st)))"

definition unmap_entry ::
  "'a map_fun \<Rightarrow> (addr \<Rightarrow> addr \<Rightarrow> 'a mmu_state \<Rightarrow> 'a mmu_state outcome) \<Rightarrow> 'a MMUTable \<Rightarrow> addr \<Rightarrow> addr \<Rightarrow> addr \<Rightarrow> nat \<Rightarrow> addr \<Rightarrow> nat
    \<Rightarrow> 'a mmu_state \<Rightarrow> 'a mmu_state outcome" where
  "unmap_entry map_rec rec tbl va_start va_end table level first index st =
     (let entry = tables st table index;
          entry_va_start = get_entry_va_from_table_index first level index in
      case get_entry_kind entry level of
        Invalid \<Rightarrow> ok st
      | Block \<Rightarrow>
          bindE (table_last_page first (level + 1)) (\<lambda>entry_va_stop.
            if va_start \<le> entry_va_start \<and> entry_va_stop \<le> va_end then ok (set_entry st table index 0)
            else unmap_split map_rec tbl va_start va_end table index entry_va_start entry_va_stop st)
      | Page \<Rightarrow> ok (set_entry st table index 0)
      | Table \<Rightarrow>
          bindE (table_last_page first (level + 1)) (\<lambda>entry_va_stop.
            let sub_table_va = the (resolve_pa tbl) (get_table_pa_from_entry entry) in
            bindE (rec sub_table_va entry_va_start st) (\<lambda>st.
              if va_start \<le> entry_va_start \<and> entry_va_stop \<le> va_end then
                bindE (the (free_fun tbl) sub_table_va st) (\<lambda>st. ok (set_entry st table index 0))
              else ok st)))"

primrec unmap_range_in_table :: "nat \<Rightarrow> 'a MMUTable \<Rightarrow> addr \<Rightarrow> addr \<Rightarrow> addr \<Rightarrow> addr \<Rightarrow> 'a mmu_state \<Rightarrow> 'a mmu_state outcome" where
  "unmap_range_in_table 0 tbl va_start va_end = (\<lambda>table first st.
     visit_range (unmap_entry (\<lambda>_ _ _ _ _ _ _. Inl Undefined) (\<lambda>_ _ _. Inl Undefined) tbl va_start va_end table 4 first) va_start va_end 4 first st)"
| "unmap_range_in_table (Suc n) tbl va_start va_end = (\<lambda>table first st.
     visit_range (unmap_entry (map_range_in_table n tbl) (unmap_range_in_table n tbl va_start va_end) tbl va_start va_end table (3 - n) first)
       va_start va_end (3 - n) first st)"

definition unmap_range :: "'a MMUTable \<Rightarrow> addr \<Rightarrow> addr \<Rightarrow> 'a mmu_state \<Rightarrow> (bool \<times> 'a mmu_state) outcome" where
  "unmap_range tbl va_start va_end st =
     (if alloc_fun tbl = None \<or> free_fun tbl = None \<or> resolve_va tbl = None \<or> resolve_pa tbl = None \<or> pgd tbl = 0
        \<or> \<not> check_va (kind tbl) va_start \<or> \<not> check_va (kind tbl) va_end then ok (False, st)
      else bindE (unmap_range_in_table 3 tbl va_start va_end (pgd tbl) (get_base_address (kind tbl)) st) (\<lambda>st. ok (True, st)))"

subsection \<open>Clearing and changing attributes\<close>

definition clear_entry :: "(addr \<Rightarrow> 'a mmu_state \<Rightarrow> 'a mmu_state outcome) \<Rightarrow> 'a MMUTable \<Rightarrow> addr \<Rightarrow> nat \<Rightarrow> nat \<Rightarrow> 'a mmu_state \<Rightarrow> 'a mmu_state outcome" where
  "clear_entry rec tbl table level i st =
     (let entry = tables st table i;
          st = set_entry st table i 0 in
      if get_entry_kind entry level = Table then
        let sub_table = the (resolve_pa tbl) (get_table_pa_from_entry entry) in
        bindE (rec sub_table st) (the (free_fun tbl) sub_table)
      else ok st)"

primrec clear_table :: "nat \<Rightarrow> 'a MMUTable \<Rightarrow> addr \<Rightarrow> 'a mmu_state \<Rightarrow> 'a mmu_state outcome" where
  "clear_table 0 tbl = (\<lambda>table. for_each (clear_entry (\<lambda>_ _. Inl Undefined) tbl table 4) [0 ..< TABLE_ENTRIES])"
| "clear_table (Suc n) tbl = (\<lambda>table. for_each (clear_entry (clear_table n tbl) tbl table (3 - n)) [0 ..< TABLE_ENTRIES])"

definition clear_all :: "'a MMUTable \<Rightarrow> 'a mmu_state \<Rightarrow> 'a mmu_state outcome" where
  "clear_all tbl st =
     (if free_fun tbl = None \<or> resolve_pa tbl = None \<or> pgd tbl = 0 then ok st else clear_table 3 tbl (pgd tbl) st)"

definition change_split ::
  "'a map_fun \<Rightarrow> 'a MMUTable \<Rightarrow> addr \<Rightarrow> addr \<Rightarrow> PagesAttributes \<Rightarrow> addr \<Rightarrow> nat \<Rightarrow> addr \<Rightarrow> addr \<Rightarrow> 'a mmu_state \<Rightarrow> 'a mmu_state outcome" where
  "change_split rec tbl va_start va_end attr table index entry_va_start entry_va_stop st =
     (let (entry_pa, entry_attr) = decode_entry (tables st table index) in
      bindE (the (alloc_fun tbl) st) (\<lambda>(new_table, st).
        let new_table_pa = the (resolve_va tbl) new_table;
            st = set_entry st table index (new_table_pa OR TABLE_MARKER) in
        bindE (rec entry_va_start (va_start - PAGE_BYTES) entry_pa entry_attr new_table entry_va_start st) (\<lambda>st.
          let pa_offset1 = va_start - entry_va_start in
          bindE (rec va_start va_end (entry_pa + pa_offset1) attr new_table entry_va_start st) (\<lambda>st.
            let pa_offset2 = va_end + PAGE_BYTES - entry_va_start in
            rec (va_end + PAGE_BYTES) entry_va_stop (entry_pa + pa_offset2) entry_attr new_table entry_va_start st))))"

definition change_entry ::
  "'a map_fun \<Rightarrow> (addr \<Rightarrow> addr \<Rightarrow> 'a mmu_state \<Rightarrow> 'a mmu_state outcome) \<Rightarrow> 'a MMUTable \<Rightarrow> addr \<Rightarrow> addr \<Rightarrow> PagesAttributes \<Rightarrow> addr
    \<Rightarrow> nat \<Rightarrow> addr \<Rightarrow> nat \<Rightarrow> 'a mmu_state \<Rightarrow> 'a mmu_state outcome" where
  "change_entry map_rec rec tbl va_start va_end attr table level first index st =
     (let entry = tables st table index;
          entry_va_start = get_entry_va_from_table_index first level index in
      case get_entry_kind entry level of
        Invalid \<Rightarrow> ok st
      | Block \<Rightarrow>
          bindE (table_last_page first (level + 1)) (\<lambda>entry_va_stop.
            if va_start \<le> entry_va_start \<and> entry_va_stop \<le> va_end
            then ok (set_entry st table index (encode_new_entry (kind tbl) (fst (decode_entry entry)) level attr))
            else change_split map_rec tbl va_start va_end attr table index entry_va_start entry_va_stop st)
      | Page \<Rightarrow> ok (set_entry st table index (encode_new_entry (kind tbl) (fst (decode_entry entry)) level attr))
      | Table \<Rightarrow> rec (the (resolve_pa tbl) (get_table_pa_from_entry entry)) entry_va_start st)"

primrec change_properties_for_range ::
  "nat \<Rightarrow> 'a MMUTable \<Rightarrow> addr \<Rightarrow> addr \<Rightarrow> PagesAttributes \<Rightarrow> addr \<Rightarrow> addr \<Rightarrow> 'a mmu_state \<Rightarrow> 'a mmu_state outcome" where
  "change_properties_for_range 0 tbl va_start va_end attr = (\<lambda>table first st.
     visit_range (change_entry (\<lambda>_ _ _ _ _ _ _. Inl Undefined) (\<lambda>_ _ _. Inl Undefined) tbl va_start va_end attr table 4 first)
       va_start va_end 4 first st)"
| "change_properties_for_range (Suc n) tbl va_start va_end attr = (\<lambda>table first st.
     visit_range (change_entry (map_range_in_table n tbl) (change_properties_for_range n tbl va_start va_end attr)
         tbl va_start va_end attr table (3 - n) first)
       va_start va_end (3 - n) first st)"

definition change_attr_range :: "'a MMUTable \<Rightarrow> addr \<Rightarrow> addr \<Rightarrow> PagesAttributes \<Rightarrow> 'a mmu_state \<Rightarrow> (bool \<times> 'a mmu_state) outcome" where
  "change_attr_range tbl va_start va_end attr st =
     (if alloc_fun tbl = None \<or> resolve_va tbl = None \<or> resolve_pa tbl = None \<or> pgd tbl = 0
        \<or> \<not> check_va (kind tbl) va_start \<or> \<not> check_va (kind tbl) va_end then ok (False, st)
      else bindE (change_properties_for_range 3 tbl va_start va_end attr (pgd tbl) (get_base_address (kind tbl)) st) (\<lambda>st. ok (True, st)))"

end
