(* ===== verification/Mmu_Tree.thy ===== *)
theory Mmu_Tree
  imports Mmu_Table
begin

text \<open>
  The tables of \<open>Mmu_Table\<close> as trees. \<open>tree\<close> says that the tables below a table form a tree, with the set of their
  addresses; \<open>view\<close> is the entry of a page and \<open>mapping\<close> the abstract view, the physical page and the attributes of every page
  of the address space. \<open>reworked\<close> is the frame condition of an operation that replaces some tables by others. The lemmas
  say how replacing the part below one entry changes the tree and the view.
\<close>

subsection \<open>Trees of tables\<close>

type_synonym store = "addr \<Rightarrow> nat \<Rightarrow> u64"

text \<open>An entry of a table with \<open>n\<close> levels below it: a block is aligned to its size; \<open>sub\<close> describes the sub-table.\<close>

definition block_aligned :: "nat \<Rightarrow> u64 \<Rightarrow> bool" where
  "block_aligned n e \<longleftrightarrow> 512 ^ n dvd unat (get_table_pa_from_entry e) div PAGE_BYTES"

definition entry_ok :: "(addr \<Rightarrow> addr set \<Rightarrow> bool) \<Rightarrow> nat \<Rightarrow> u64 \<Rightarrow> addr set \<Rightarrow> bool" where
  "entry_ok sub n e g \<longleftrightarrow>
     (case get_entry_kind e (4 - n) of
        Invalid \<Rightarrow> g = {}
      | Page \<Rightarrow> g = {}
      | Block \<Rightarrow> 0 < n \<and> n \<le> 2 \<and> g = {} \<and> block_aligned n e
      | Table \<Rightarrow> sub (get_table_pa_from_entry e) g)"

definition table_ok :: "(addr \<Rightarrow> addr set \<Rightarrow> bool) \<Rightarrow> nat \<Rightarrow> (nat \<Rightarrow> u64) \<Rightarrow> addr \<Rightarrow> (nat \<Rightarrow> addr set) \<Rightarrow> bool" where
  "table_ok sub n entries t G \<longleftrightarrow> (\<forall>i < 512. entry_ok sub n (entries i) (G i) \<and> t \<notin> G i \<and> (\<forall>j < 512. i \<noteq> j \<longrightarrow> G i \<inter> G j = {}))"

primrec tree :: "(addr \<Rightarrow> addr) \<Rightarrow> nat \<Rightarrow> store \<Rightarrow> addr \<Rightarrow> addr set \<Rightarrow> bool" where
  "tree R 0 T t F \<longleftrightarrow> (\<exists>G. F = insert t (\<Union> (G ` {..<512})) \<and> table_ok (\<lambda>_ _. False) 0 (T t) t G)"
| "tree R (Suc n) T t F \<longleftrightarrow> (\<exists>G. F = insert t (\<Union> (G ` {..<512})) \<and> table_ok (\<lambda>pa. tree R n T (R pa)) (Suc n) (T t) t G)"

text \<open>The sub-trees of a table with \<open>n\<close> levels below it.\<close>

definition sub_tree :: "(addr \<Rightarrow> addr) \<Rightarrow> nat \<Rightarrow> store \<Rightarrow> addr \<Rightarrow> addr set \<Rightarrow> bool" where
  "sub_tree R n T pa g \<longleftrightarrow> (case n of 0 \<Rightarrow> False | Suc m \<Rightarrow> tree R m T (R pa) g)"

lemma tree_iff: "tree R n T t F \<longleftrightarrow> (\<exists>G. F = insert t (\<Union> (G ` {..<512})) \<and> table_ok (sub_tree R n T) n (T t) t G)"
  by (cases n) (simp_all add: sub_tree_def [abs_def])

lemma sub_tree_Suc: "sub_tree R (Suc m) T pa g = tree R m T (R pa) g"
  by (simp add: sub_tree_def)

subsection \<open>The entry and the mapping of a page\<close>

definition entry_view :: "(addr \<Rightarrow> (u64 \<times> nat) option) \<Rightarrow> nat \<Rightarrow> u64 \<Rightarrow> (u64 \<times> nat) option" where
  "entry_view sub n e =
     (case get_entry_kind e (4 - n) of
        Invalid \<Rightarrow> None
      | Table \<Rightarrow> sub (get_table_pa_from_entry e)
      | _ \<Rightarrow> Some (e, n))"

primrec view :: "(addr \<Rightarrow> addr) \<Rightarrow> nat \<Rightarrow> store \<Rightarrow> addr \<Rightarrow> nat \<Rightarrow> (u64 \<times> nat) option" where
  "view R 0 T t p = entry_view (\<lambda>_. None) 0 (T t (p mod 512))"
| "view R (Suc n) T t p = entry_view (\<lambda>pa. view R n T (R pa) p) (Suc n) (T t (p div 512 ^ Suc n mod 512))"

definition sub_view :: "(addr \<Rightarrow> addr) \<Rightarrow> nat \<Rightarrow> store \<Rightarrow> nat \<Rightarrow> addr \<Rightarrow> (u64 \<times> nat) option" where
  "sub_view R n T p pa = (case n of 0 \<Rightarrow> None | Suc m \<Rightarrow> view R m T (R pa) p)"

lemma view_iff: "view R n T t p = entry_view (sub_view R n T p) n (T t (p div 512 ^ n mod 512))"
  by (cases n) (simp_all add: sub_view_def [abs_def])

lemma sub_view_Suc: "sub_view R (Suc m) T p pa = view R m T (R pa) p"
  by (simp add: sub_view_def)

text \<open>The physical page and the attributes behind an entry \<open>n\<close> levels above the pages.\<close>

definition page_behind :: "nat \<Rightarrow> u64 \<times> nat \<Rightarrow> nat \<times> PagesAttributes" where
  "page_behind p v = (case v of (e, n) \<Rightarrow> (unat (fst (decode_entry e)) div PAGE_BYTES + p mod 512 ^ n, snd (decode_entry e)))"

definition mapping :: "(addr \<Rightarrow> addr) \<Rightarrow> nat \<Rightarrow> store \<Rightarrow> addr \<Rightarrow> nat \<Rightarrow> (nat \<times> PagesAttributes) option" where
  "mapping R n T t p = map_option (page_behind p) (view R n T t p)"

definition in_block :: "(addr \<Rightarrow> addr) \<Rightarrow> nat \<Rightarrow> store \<Rightarrow> addr \<Rightarrow> nat \<Rightarrow> bool" where
  "in_block R n T t p \<longleftrightarrow> (\<exists>e m. view R n T t p = Some (e, Suc m))"

subsection \<open>Frames\<close>

lemma tree_root: "tree R n T t F \<Longrightarrow> t \<in> F"
  by (auto simp: tree_iff)

text \<open>A tree depends on its own tables only.\<close>

lemma entry_ok_mono: "entry_ok sub n e g \<Longrightarrow> (\<And>pa. sub pa g \<Longrightarrow> sub' pa g) \<Longrightarrow> entry_ok sub' n e g"
  by (auto simp: entry_ok_def split: EntryKind.splits)

lemma tree_frame: "tree R n T t F \<Longrightarrow> (\<And>u. u \<in> F \<Longrightarrow> T' u = T u) \<Longrightarrow> tree R n T' t F"
proof (induction n arbitrary: t F)
  case 0
  then have "T' t = T t" using tree_root by blast
  then show ?case using 0 by simp
next
  case (Suc n)
  then obtain G where G: "F = insert t (\<Union> (G ` {..<512}))" "table_ok (sub_tree R (Suc n) T) (Suc n) (T t) t G" unfolding tree_iff by blast
  have "entry_ok (sub_tree R (Suc n) T') (Suc n) (T' t i) (G i)" if i: "i < 512" for i
  proof -
    have "entry_ok (sub_tree R (Suc n) T) (Suc n) (T t i) (G i)" using G(2) i by (simp add: table_ok_def)
    then have "entry_ok (sub_tree R (Suc n) T') (Suc n) (T t i) (G i)"
      by (rule entry_ok_mono) (use Suc.IH Suc.prems(2) G(1) i in \<open>auto simp: sub_tree_Suc\<close>)
    then show ?thesis using Suc.prems(2) [of t] G(1) by simp
  qed
  then have "table_ok (sub_tree R (Suc n) T') (Suc n) (T' t) t G" using G(2) by (simp add: table_ok_def)
  then show ?case using G(1) unfolding tree_iff by blast
qed

lemma view_frame: "tree R n T t F \<Longrightarrow> (\<And>u. u \<in> F \<Longrightarrow> T' u = T u) \<Longrightarrow> view R n T' t p = view R n T t p"
proof (induction n arbitrary: t F)
  case 0
  then have "T' t = T t" using tree_root by blast
  then show ?case by simp
next
  case (Suc n)
  define i where "i = p div 512 ^ Suc n mod 512"
  obtain G where G: "F = insert t (\<Union> (G ` {..<512}))" "entry_ok (sub_tree R (Suc n) T) (Suc n) (T t i) (G i)"
    using Suc.prems(1) unfolding tree_iff table_ok_def i_def by force
  have "G i \<subseteq> F" using G(1) unfolding i_def by fastforce
  then have "view R n T' (R pa) p = view R n T (R pa) p" if "tree R n T (R pa) (G i)" for pa
    using Suc.IH [OF that] Suc.prems(2) by blast
  moreover have "T' t = T t" using Suc.prems(2) G(1) by blast
  ultimately show ?case
    using G(2) unfolding view_iff [of R "Suc n"] i_def [symmetric]
    by (auto simp: entry_view_def entry_ok_def sub_tree_Suc sub_view_Suc split: EntryKind.splits)
qed

text \<open>A zeroed table is a tree that maps nothing.\<close>

lemma empty_tree: "T t = (\<lambda>_. 0) \<Longrightarrow> tree R n T t {t}"
  unfolding tree_iff by (rule exI [of _ "\<lambda>_. {}"]) (simp add: table_ok_def entry_ok_def get_entry_kind_def)

lemma empty_view: "T t = (\<lambda>_. 0) \<Longrightarrow> view R n T t p = None"
  by (simp add: view_iff entry_view_def get_entry_kind_def)

subsection \<open>Pages of a table and of an entry\<close>

text \<open>The entry of a page in the table whose first page is \<open>f\<close>.\<close>

lemma page_index:
  fixes f p :: nat
  assumes "512 ^ Suc n dvd f" "f \<le> p" "p < f + 512 ^ Suc n"
  shows "p div 512 ^ n mod 512 = (p - f) div 512 ^ n" "(p - f) div 512 ^ n < 512"
proof -
  obtain m where m: "f = 512 ^ n * (512 * m)" using assms(1) by (auto simp: ac_simps elim!: dvdE)
  define r where "r = p - f"
  have p: "p = r + (512 * m) * 512 ^ n" using assms(2) m by (simp add: r_def)
  have "r < 512 ^ n * 512" using assms by (simp add: r_def)
  then show lt: "(p - f) div 512 ^ n < 512" unfolding r_def [symmetric] by (simp add: less_mult_imp_div_less mult.commute)
  have "p div 512 ^ n = 512 * m + r div 512 ^ n" unfolding p by (subst div_mult_self1) simp_all
  then show "p div 512 ^ n mod 512 = (p - f) div 512 ^ n" using lt by (simp add: r_def)
qed

lemma page_in_entry:
  fixes f p i :: nat
  assumes "f \<le> p"
  shows "(p - f) div 512 ^ n = i \<longleftrightarrow> f + i * 512 ^ n \<le> p \<and> p < f + i * 512 ^ n + 512 ^ n"
proof -
  have "(p - f) div 512 ^ n = i \<longleftrightarrow> i * 512 ^ n \<le> p - f \<and> p - f < (i + 1) * 512 ^ n"
    by (metis add.commute div_less_iff_less_mult div_nat_eqI dividend_less_times_div le_refl less_add_one less_eq_div_iff_mult_less_eq mult.commute plus_1_eq_Suc zero_less_numeral zero_less_power)
  moreover have "i * 512 ^ n \<le> p - f \<longleftrightarrow> f + i * 512 ^ n \<le> p" using assms by linarith
  moreover have "p - f < (i + 1) * 512 ^ n \<longleftrightarrow> p < f + i * 512 ^ n + 512 ^ n" using assms by (simp add: less_diff_conv2 ac_simps)
  ultimately show ?thesis by (simp only:)
qed

subsection \<open>Working on a part of the tables\<close>

text \<open>An operation that replaces the tables \<open>F\<close> by the tables \<open>F'\<close> and leaves the other tables in use alone.\<close>

definition reworked :: "('a \<Rightarrow> addr set) \<Rightarrow> ('a \<Rightarrow> bool) \<Rightarrow> 'a mmu_state \<Rightarrow> addr set \<Rightarrow> 'a mmu_state \<Rightarrow> addr set \<Rightarrow> bool" where
  "reworked live good st F st' F' \<longleftrightarrow> good (pages st') \<and> live (pages st) \<subseteq> live (pages st') \<and> F' \<subseteq> live (pages st')
     \<and> F' \<inter> live (pages st) \<subseteq> F \<and> (\<forall>u \<in> live (pages st) - F. tables st' u = tables st u)"

lemma reworked_refl: "good (pages st) \<Longrightarrow> F \<subseteq> live (pages st) \<Longrightarrow> reworked live good st F st F"
  by (auto simp: reworked_def)

lemma reworked_trans: "reworked live good st F st1 F1 \<Longrightarrow> reworked live good st1 F1 st2 F2 \<Longrightarrow> reworked live good st F st2 F2"
proof -
  assume a: "reworked live good st F st1 F1" and b: "reworked live good st1 F1 st2 F2"
  note A = a [unfolded reworked_def] and B = b [unfolded reworked_def]
  have "tables st2 u = tables st u" if "u \<in> live (pages st) - F" for u
  proof -
    have "u \<in> live (pages st1) - F1" using that A by blast
    then show ?thesis using that A B by simp
  qed
  moreover have "F2 \<inter> live (pages st) \<subseteq> F" using A B by blast
  moreover have "live (pages st) \<subseteq> live (pages st2)" using A B by blast
  ultimately show ?thesis using B by (simp add: reworked_def)
qed

text \<open>Working on the tables below entry \<open>i\<close> of table \<open>t\<close>.\<close>

definition entry_reworked ::
  "('a \<Rightarrow> addr set) \<Rightarrow> ('a \<Rightarrow> bool) \<Rightarrow> addr \<Rightarrow> nat \<Rightarrow> 'a mmu_state \<Rightarrow> addr set \<Rightarrow> 'a mmu_state \<Rightarrow> addr set \<Rightarrow> bool" where
  "entry_reworked live good t i st g st' g' \<longleftrightarrow> reworked live good st (insert t g) st' (insert t g') \<and> t \<notin> g'
     \<and> (\<forall>j. j \<noteq> i \<longrightarrow> tables st' t j = tables st t j)"

lemma tree_replace:
  assumes G: "table_ok (sub_tree R n (tables st)) n (tables st t) t G" and F: "insert t (\<Union> (G ` {..<512})) \<subseteq> live (pages st)"
    and i: "i < 512" and e: "entry_reworked live good t i st (G i) st' g'"
    and ok: "entry_ok (sub_tree R n (tables st')) n (tables st' t i) g'"
  shows "table_ok (sub_tree R n (tables st')) n (tables st' t) t (G(i := g'))"
    and "reworked live good st (insert t (\<Union> (G ` {..<512}))) st' (insert t (\<Union> ((G(i := g')) ` {..<512})))"
    and "\<And>p. p div 512 ^ n mod 512 \<noteq> i \<Longrightarrow> view R n (tables st') t p = view R n (tables st) t p"
proof -
  have r: "reworked live good st (insert t (G i)) st' (insert t g')" and t: "t \<notin> g'"
      and j: "\<And>j. j \<noteq> i \<Longrightarrow> tables st' t j = tables st t j" using e by (auto simp: entry_reworked_def)
  have g': "g' \<inter> live (pages st) \<subseteq> G i" using r t by (auto simp: reworked_def)
  have old: "\<And>j. j < 512 \<Longrightarrow> entry_ok (sub_tree R n (tables st)) n (tables st t j) (G j)" "\<And>j. j < 512 \<Longrightarrow> t \<notin> G j"
      "\<And>j k. j < 512 \<Longrightarrow> k < 512 \<Longrightarrow> j \<noteq> k \<Longrightarrow> G j \<inter> G k = {}" "\<And>j. j < 512 \<Longrightarrow> G j \<subseteq> live (pages st)"
    using G F by (auto simp: table_ok_def)
  have same: "tables st' u = tables st u" if "u \<in> G j" "j < 512" "j \<noteq> i" for u j
  proof -
    have "u \<in> live (pages st) - insert t (G i)" using old(2) [OF that(2)] old(3) [OF that(2) i that(3)] old(4) [OF that(2)] that(1) by auto
    then show ?thesis using r by (simp add: reworked_def)
  qed
  have sub: "sub_tree R n (tables st') pa (G j)" if "sub_tree R n (tables st) pa (G j)" "j < 512" "j \<noteq> i" for pa j
    using that tree_frame [of R _ "tables st" "R pa" "G j" "tables st'", OF _ same [OF _ that(2,3)]]
    by (cases n) (simp_all add: sub_tree_def)
  have ents: "entry_ok (sub_tree R n (tables st')) n (tables st' t j) ((G(i := g')) j)" if "j < 512" for j
  proof (cases "j = i")
    case False
    have "entry_ok (sub_tree R n (tables st')) n (tables st t j) (G j)"
      by (rule entry_ok_mono [OF old(1) [OF that]]) (rule sub, use that False in auto)
    then show ?thesis using False j by simp
  qed (use ok in simp)
  have disj: "(G(i := g')) j \<inter> (G(i := g')) k = {}" if "j < 512" "k < 512" "j \<noteq> k" for j k
    using old(3) [OF that] old(3) [OF i that(2)] old(3) [OF that(1) i] old(4) [OF that(1)] old(4) [OF that(2)] g' that(3)
    by (cases "j = i"; cases "k = i"; simp; blast)
  show "table_ok (sub_tree R n (tables st')) n (tables st' t) t (G(i := g'))"
    using ents disj t old(2) unfolding table_ok_def by auto
  show "reworked live good st (insert t (\<Union> (G ` {..<512}))) st' (insert t (\<Union> ((G(i := g')) ` {..<512})))"
  proof -
    define F1 where "F1 = insert t (\<Union> (G ` {..<512}))"
    define F2 where "F2 = insert t (\<Union> ((G(i := g')) ` {..<512}))"
    have F2: "F2 \<subseteq> F1 \<union> g'" unfolding F1_def F2_def by (auto split: if_splits)
    have F1: "insert t (G i) \<subseteq> F1" "F1 \<subseteq> live (pages st)" using i F unfolding F1_def by auto
    note r' = r [unfolded reworked_def]
    have "F2 \<subseteq> live (pages st')" using F2 F1(2) r' by auto
    moreover have "F2 \<inter> live (pages st) \<subseteq> F1" using F2 F1(1) g' by auto
    moreover have "\<forall>u \<in> live (pages st) - F1. tables st' u = tables st u" using r' F1(1) by auto
    ultimately show ?thesis unfolding F1_def [symmetric] F2_def [symmetric] using r' by (simp add: reworked_def)
  qed
  show "view R n (tables st') t p = view R n (tables st) t p" if p: "p div 512 ^ n mod 512 \<noteq> i" for p
  proof -
    define k where "k = p div 512 ^ n mod 512"
    have k: "k < 512" "k \<noteq> i" using p by (simp_all add: k_def)
    have "sub_view R n (tables st') p pa = sub_view R n (tables st) p pa" if "sub_tree R n (tables st) pa (G k)" for pa
      using that view_frame [of R _ "tables st" "R pa" "G k" "tables st'", OF _ same [OF _ k]]
      by (cases n) (simp_all add: sub_tree_def sub_view_def)
    then show ?thesis
      using old(1) [OF k(1)] j [OF k(2)] unfolding view_iff k_def [symmetric] by (auto simp: entry_view_def entry_ok_def split: EntryKind.splits)
  qed
qed

lemma sub_reworked:
  assumes "reworked live good st g st' g'" "t \<in> live (pages st)" "t \<notin> g"
  shows "entry_reworked live good t i st g st' g'" "tables st' t = tables st t"
proof -
  have "t \<notin> g'" "tables st' t = tables st t" "t \<in> live (pages st')" using assms unfolding reworked_def by auto
  moreover have "reworked live good st (insert t g) st' (insert t g')"
    using assms \<open>t \<in> live (pages st')\<close> unfolding reworked_def by auto
  ultimately show "entry_reworked live good t i st g st' g'" "tables st' t = tables st t" by (simp_all add: entry_reworked_def)
qed

lemma entry_reworked_trans:
  "entry_reworked live good t i st g st1 g1 \<Longrightarrow> entry_reworked live good t i st1 g1 st2 g2 \<Longrightarrow> entry_reworked live good t i st g st2 g2"
  by (auto simp: entry_reworked_def intro: reworked_trans)

text \<open>Storing an entry of the table itself.\<close>

lemma set_entry_simps [simp]:
  "pages (set_entry st t i e) = pages st" "tables (set_entry st t i e) t i = e"
  "j \<noteq> i \<Longrightarrow> tables (set_entry st t i e) t j = tables st t j" "u \<noteq> t \<Longrightarrow> tables (set_entry st t i e) u = tables st u"
  by (simp_all add: set_entry_def)

lemma set_entry_twice: "set_entry (set_entry st t i e) t i e' = set_entry st t i e'"
  by (simp add: set_entry_def)

lemma set_entry_reworked:
  "good (pages st) \<Longrightarrow> t \<in> live (pages st) \<Longrightarrow> entry_reworked live good t i st {} (set_entry st t i e) {}"
  by (auto simp: entry_reworked_def reworked_def)

subsection \<open>Physical pages and attributes of entries\<close>

lemma pa_page:
  assumes "q < PAGES"
  shows "of_nat (q * PAGE_BYTES) AND mask_of 12 47 = (of_nat (q * PAGE_BYTES) :: u64)" "unat (of_nat (q * PAGE_BYTES) :: u64) = q * PAGE_BYTES"
proof -
  have q: "take_bit 36 (of_nat q) = (of_nat q :: u64)" using assms by (simp flip: of_nat_take_bit add: take_bit_nat_eq_self)
  have lt: "j < 36" if "bit (of_nat q :: u64) j" for j
    using that arg_cong [OF q, of "\<lambda>x. bit x j"] by (simp add: bit_take_bit_iff)
  have "bit (of_nat q :: u64) (j - 12) \<Longrightarrow> 12 \<le> j \<Longrightarrow> j \<le> 47" for j using lt [of "j - 12"] by linarith
  moreover have "(of_nat (q * PAGE_BYTES) :: u64) = push_bit 12 (of_nat q)" by (simp add: push_bit_eq_mult)
  ultimately show "of_nat (q * PAGE_BYTES) AND mask_of 12 47 = (of_nat (q * PAGE_BYTES) :: u64)"
    by (simp only:) (rule bit_word_eqI, auto simp: bit_and_iff bit_mask_of bit_push_bit_iff)
  show "unat (of_nat (q * PAGE_BYTES) :: u64) = q * PAGE_BYTES"
    using assms by (simp only: unsigned_of_nat) (simp add: take_bit_nat_eq_self)
qed

lemma entry_page:
  obtains q where "get_table_pa_from_entry e = of_nat (q * PAGE_BYTES)" "q < PAGES" "unat (get_table_pa_from_entry e) div PAGE_BYTES = q"
proof -
  define x where "x = get_table_pa_from_entry e"
  have "x AND mask 12 = 0" unfolding x_def get_table_pa_from_entry_def
    by (rule bit_word_eqI) (auto simp: bit_and_iff bit_mask_of bit_mask_iff)
  then have "PAGE_BYTES dvd unat x" unfolding low_bits_zero by simp
  then obtain q where q: "unat x = q * PAGE_BYTES" by (metis dvdE mult.commute)
  have "take_bit 48 x = x" unfolding x_def get_table_pa_from_entry_def
    by (rule bit_word_eqI) (auto simp: bit_and_iff bit_mask_of bit_take_bit_iff)
  then have "unat x = take_bit 48 (unat x)" by (metis unsigned_take_bit_eq)
  then have "unat x < 2 ^ 48" using take_bit_nat_less_exp [of 48 "unat x"] by simp
  then have "q < PAGES" using q by simp
  moreover have "x = of_nat (q * PAGE_BYTES)" by (simp only: flip: q) simp
  ultimately show thesis using that q by (simp add: x_def)
qed

lemma attr_ok_decode: "attr_ok (snd (decode_entry e))"
proof -
  have "ucast ((x :: u64) AND mask k) < (2 ^ k :: u8)" if "k < 8" for x k
  proof -
    have "unat (x AND mask k) < 2 ^ k" by (simp add: unat_and_mask_low)
    moreover have "unat (x AND mask k) < 256" using \<open>unat (x AND mask k) < 2 ^ k\<close> that power_strict_increasing [of k 8 "2 :: nat"] by simp
    ultimately show ?thesis using that by (simp add: word_less_nat_alt unsigned_ucast_eq take_bit_nat_eq_self unat_exp)
  qed
  from this [of 2] this [of 1] show ?thesis by (simp add: attr_ok_def decode_entry_def mask_eq_exp_minus_1)
qed

lemma decode_pa: "fst (decode_entry e) = get_table_pa_from_entry e"
  by (simp add: decode_entry_def get_table_pa_from_entry_def)

end
