(* ===== verification/Mmu_Map.thy ===== *)
theory Mmu_Map
  imports Mmu_Tree
begin

text \<open>
  What mapping a range does to the address space. The page allocator behind the function pointers is the locale
  \<open>page_source\<close>: a fresh table is zeroed, in use by nobody, and reachable through its physical address. The result is
  that \<^verbatim>\<open>map_range\<close> updates the mapping of exactly the pages of its range, splitting and replacing blocks on the way, and
  keeps the tree well formed.
\<close>

subsection \<open>Specification\<close>

text \<open>The mapping in which the pages from \<open>a\<close> to \<open>b\<close> go to the physical pages from \<open>P\<close> on.\<close>

definition remapped ::
  "nat \<Rightarrow> nat \<Rightarrow> nat \<Rightarrow> PagesAttributes \<Rightarrow> (nat \<Rightarrow> (nat \<times> PagesAttributes) option) \<Rightarrow> nat \<Rightarrow> (nat \<times> PagesAttributes) option" where
  "remapped a b P attr old p = (if a \<le> p \<and> p \<le> b then Some (P + (p - a), attr) else old p)"

text \<open>The range lies in the address space and its target in physical memory, and they are aligned alike as far as the range
  is long enough for a block.\<close>

definition map_pre :: "nat \<Rightarrow> nat \<Rightarrow> nat \<Rightarrow> bool" where
  "map_pre a b P \<longleftrightarrow> a < PAGES \<and> b < PAGES \<and> P + (b - a) < PAGES \<and> (\<forall>m \<in> {1, 2}. 512 ^ m \<le> b + 1 - a \<longrightarrow> P mod 512 ^ m = a mod 512 ^ m)"

text \<open>At the ends of the 64-bit range the neighbour of the range wraps around; there must be no block to split then.\<close>

definition edges_ok :: "table_kind \<Rightarrow> (nat \<Rightarrow> bool) \<Rightarrow> nat \<Rightarrow> nat \<Rightarrow> bool" where
  "edges_ok k blocks a b \<longleftrightarrow> (k = Process \<and> a = 0) \<or> (k = Kernel \<and> b = PAGES - 1) \<longrightarrow> \<not> blocks a \<and> \<not> blocks b"

text \<open>The pages \<open>e\<close> to \<open>e + 512 ^ n - 1\<close> of an entry meet the range.\<close>

definition meets :: "nat \<Rightarrow> nat \<Rightarrow> nat \<Rightarrow> nat \<Rightarrow> bool" where
  "meets n e a b \<longleftrightarrow> a \<le> b \<and> e \<le> b \<and> a < e + 512 ^ n"

text \<open>How many tables the range may need below a table: one for each entry that it meets on a level above the pages.\<close>

primrec tables_needed :: "nat \<Rightarrow> nat \<Rightarrow> nat \<Rightarrow> nat \<Rightarrow> nat" where
  "tables_needed 0 f a b = 0"
| "tables_needed (Suc n) f a b =
     (\<Sum>i \<in> set (filter (\<lambda>i. meets (Suc n) (f + i * 512 ^ Suc n) a b) [0..<512]). Suc (tables_needed n (f + i * 512 ^ Suc n) a b))"

definition entry_needs :: "nat \<Rightarrow> nat \<Rightarrow> nat \<Rightarrow> nat \<Rightarrow> nat" where
  "entry_needs n e a b = (case n of 0 \<Rightarrow> 0 | Suc m \<Rightarrow> Suc (tables_needed m e a b))"

text \<open>The outcome of an operation on the tree \<open>F\<close> below the table \<open>t\<close> that maps the pages from \<open>f\<close> on: either fewer than
  \<open>u\<close> pages were left and the kernel ran out of them, or at most \<open>u\<close> pages are spent and the tree has the mapping \<open>m\<close>.\<close>

definition maps ::
  "('a \<Rightarrow> addr set) \<Rightarrow> ('a \<Rightarrow> bool) \<Rightarrow> ('a \<Rightarrow> nat) \<Rightarrow> (addr \<Rightarrow> addr) \<Rightarrow> nat \<Rightarrow> addr \<Rightarrow> nat \<Rightarrow> 'a mmu_state \<Rightarrow> addr set
    \<Rightarrow> (nat \<Rightarrow> (nat \<times> PagesAttributes) option) \<Rightarrow> nat \<Rightarrow> 'a mmu_state outcome \<Rightarrow> bool" where
  "maps live good room R n t f st F m u out \<longleftrightarrow> (out = Inl Panic \<and> room (pages st) < u) \<or>
     (\<exists>st' F'. out = ok st' \<and> room (pages st) \<le> room (pages st') + u \<and> tree R n (tables st') t F' \<and> reworked live good st F st' F'
        \<and> (\<forall>p. f \<le> p \<and> p < f + 512 ^ Suc n \<longrightarrow> mapping R n (tables st') t p = m p))"

text \<open>The same for the part below entry \<open>i\<close> of the table, whose pages start at \<open>e\<close>.\<close>

definition entry_mapping :: "(addr \<Rightarrow> addr) \<Rightarrow> nat \<Rightarrow> store \<Rightarrow> u64 \<Rightarrow> nat \<Rightarrow> (nat \<times> PagesAttributes) option" where
  "entry_mapping R n T e p = map_option (page_behind p) (entry_view (sub_view R n T p) n e)"

definition entry_maps ::
  "('a \<Rightarrow> addr set) \<Rightarrow> ('a \<Rightarrow> bool) \<Rightarrow> ('a \<Rightarrow> nat) \<Rightarrow> (addr \<Rightarrow> addr) \<Rightarrow> nat \<Rightarrow> addr \<Rightarrow> nat \<Rightarrow> nat \<Rightarrow> 'a mmu_state \<Rightarrow> addr set
    \<Rightarrow> (nat \<Rightarrow> (nat \<times> PagesAttributes) option) \<Rightarrow> nat \<Rightarrow> 'a mmu_state outcome \<Rightarrow> bool" where
  "entry_maps live good room R n t i e st g m u out \<longleftrightarrow> (out = Inl Panic \<and> room (pages st) < u) \<or>
     (\<exists>st' g'. out = ok st' \<and> room (pages st) \<le> room (pages st') + u \<and> entry_reworked live good t i st g st' g' \<and> entry_ok (sub_tree R n (tables st')) n (tables st' t i) g'
        \<and> (\<forall>p. e \<le> p \<and> p < e + 512 ^ n \<longrightarrow> entry_mapping R n (tables st') (tables st' t i) p = m p))"

lemma mapping_entry: "mapping R n T t p = entry_mapping R n T (T t (p div 512 ^ n mod 512)) p"
  by (simp add: mapping_def entry_mapping_def view_iff)

lemma entry_mapping_table:
  "get_entry_kind e (3 - m) = Table \<Longrightarrow> entry_mapping R (Suc m) T e p = mapping R m T (R (get_table_pa_from_entry e)) p"
  by (simp add: entry_mapping_def entry_view_def sub_view_Suc mapping_def)

lemma entry_mapping_invalid: "get_entry_kind e (4 - n) = Invalid \<Longrightarrow> entry_mapping R n T e p = None"
  by (simp add: entry_mapping_def entry_view_def)

lemma entry_mapping_leaf:
  "get_entry_kind e (4 - n) = Page \<or> get_entry_kind e (4 - n) = Block \<Longrightarrow>
   entry_mapping R n T e p = Some (unat (get_table_pa_from_entry e) div PAGE_BYTES + p mod 512 ^ n, snd (decode_entry e))"
  by (auto simp: entry_mapping_def entry_view_def page_behind_def decode_pa)

text \<open>A range that does not meet the table.\<close>

lemma visit_range_skip:
  assumes "n \<le> 3" "512 ^ n dvd f" "f < PAGES"
    and "va_end < page_va k f \<or> page_va k (f + 512 ^ Suc n - 1) < va_start \<or> va_end < va_start"
  shows "visit_range body va_start va_end (4 - n) (page_va k f) st = ok st"
  using assms(4) by (simp add: visit_range_def last_page_depth [OF assms(1-3)])

lemma map_range_unfold:
  "map_range_in_table n tbl va_start va_end pa attr t first st =
     visit_range (map_entry (case n of 0 \<Rightarrow> \<lambda>_ _ _ _ _ _ _. Inl Undefined | Suc m \<Rightarrow> map_range_in_table m tbl) tbl va_start va_end pa attr t (4 - n) first)
       va_start va_end (4 - n) first st"
  by (cases n) simp_all

lemma table_fits:
  fixes f :: nat
  assumes "n \<le> 3" "512 ^ Suc n dvd f" "f < PAGES"
  shows "f + 512 ^ Suc n \<le> PAGES"
proof -
  obtain m where m: "f = 512 ^ Suc n * m" using assms(2) by blast
  have p: "PAGES = 512 ^ Suc n * 512 ^ (3 - n)" using assms(1) by (simp flip: power_add)
  have "m < 512 ^ (3 - n)" using assms(3) unfolding m p by simp
  then have "512 ^ Suc n * Suc m \<le> 512 ^ Suc n * 512 ^ (3 - n)" by (intro mult_le_mono2) simp
  then show ?thesis unfolding p m by (simp add: algebra_simps)
qed

definition entry_block :: "(addr \<Rightarrow> addr) \<Rightarrow> nat \<Rightarrow> store \<Rightarrow> u64 \<Rightarrow> nat \<Rightarrow> bool" where
  "entry_block R n T e p \<longleftrightarrow> (\<exists>x d. entry_view (sub_view R n T p) n e = Some (x, Suc d))"

lemma in_block_entry: "in_block R n T t p \<longleftrightarrow> entry_block R n T (T t (p div 512 ^ n mod 512)) p"
  by (simp add: in_block_def entry_block_def view_iff)

lemma not_mapped_not_block: "mapping R n T t p = None \<Longrightarrow> \<not> in_block R n T t p"
  by (auto simp: mapping_def in_block_def)

text \<open>\<^verbatim>\<open>map_range_in_table\<close> is right for tables with \<open>m\<close> levels below.\<close>

definition maps_below :: "('a \<Rightarrow> addr set) \<Rightarrow> ('a \<Rightarrow> bool) \<Rightarrow> ('a \<Rightarrow> nat) \<Rightarrow> 'a MMUTable \<Rightarrow> nat \<Rightarrow> bool" where
  "maps_below live good room tbl m \<longleftrightarrow>
     (\<forall>a b P attr t f st F. map_pre a b P \<longrightarrow> attr_ok attr \<longrightarrow> 512 ^ Suc m dvd f \<longrightarrow> f < PAGES
        \<longrightarrow> tree (the (resolve_pa tbl)) m (tables st) t F \<longrightarrow> F \<subseteq> live (pages st) \<longrightarrow> good (pages st)
        \<longrightarrow> edges_ok (kind tbl) (\<lambda>p. f \<le> p \<and> p < f + 512 ^ Suc m \<and> in_block (the (resolve_pa tbl)) m (tables st) t p) a b
        \<longrightarrow> maps live good room (the (resolve_pa tbl)) m t f st F (remapped a b P attr (mapping (the (resolve_pa tbl)) m (tables st) t)) (tables_needed m f a b)
              (map_range_in_table m tbl (page_va (kind tbl) a) (page_va (kind tbl) b) (of_nat (P * PAGE_BYTES)) attr t (page_va (kind tbl) f) st))"

lemma maps_belowD:
  assumes "maps_below live good room tbl m" "map_pre a b P" "attr_ok attr" "512 ^ Suc m dvd f" "f < PAGES"
    "tree (the (resolve_pa tbl)) m (tables st) t F" "F \<subseteq> live (pages st)" "good (pages st)"
    "edges_ok (kind tbl) (\<lambda>p. f \<le> p \<and> p < f + 512 ^ Suc m \<and> in_block (the (resolve_pa tbl)) m (tables st) t p) a b"
  shows "maps live good room (the (resolve_pa tbl)) m t f st F (remapped a b P attr (mapping (the (resolve_pa tbl)) m (tables st) t)) (tables_needed m f a b)
      (map_range_in_table m tbl (page_va (kind tbl) a) (page_va (kind tbl) b) (of_nat (P * PAGE_BYTES)) attr t (page_va (kind tbl) f) st)"
  using assms unfolding maps_below_def by blast

lemma maps_skip:
  assumes "tree R n (tables st) t F" "F \<subseteq> live (pages st)" "good (pages st)" "\<And>p. f \<le> p \<Longrightarrow> p < f + 512 ^ Suc n \<Longrightarrow> mapping R n (tables st) t p = m p"
  shows "maps live good room R n t f st F m u (ok st)"
  using assms reworked_refl [of good st F live] by (auto simp: maps_def)

lemma maps_cong: "maps live good room R n t f st F m u out \<Longrightarrow> (\<And>p. f \<le> p \<Longrightarrow> p < f + 512 ^ Suc n \<Longrightarrow> m p = m' p) \<Longrightarrow> maps live good room R n t f st F m' u out"
  unfolding maps_def by auto

lemma maps_more: "maps live good room R n t f st F m u out \<Longrightarrow> u \<le> v \<Longrightarrow> maps live good room R n t f st F m v out"
  unfolding maps_def by (erule disj_forward; force)

lemma maps_free:
  assumes "maps live good room R n t f st F m u out" "out = ok st'" "pages st' = pages st"
  shows "maps live good room R n t f st F m 0 out"
  using assms unfolding maps_def by auto

lemma power_dvd_less: "(512 :: nat) ^ j < 512 ^ Suc m \<Longrightarrow> 512 ^ j dvd (512 :: nat) ^ Suc m"
  using power_less_imp_less_exp [of "512 :: nat" j "Suc m"] by (intro le_imp_power_dvd) simp

lemma map_range_skip:
  assumes "m \<le> 3" "512 ^ Suc m dvd f" "f < PAGES"
    and "va_end < page_va k f \<or> page_va k (f + 512 ^ Suc m - 1) < va_start \<or> va_end < va_start"
  shows "map_range_in_table m tbl va_start va_end pa attr t (page_va k f) st = ok st"
proof -
  have "512 ^ m dvd f" by (rule dvd_trans [OF _ assms(2)]) simp
  then show ?thesis by (subst map_range_unfold) (rule visit_range_skip [OF assms(1) _ assms(3,4)])
qed

end
