(* ===== verification/Mmu_Rest.thy ===== *)
theory Mmu_Rest
  imports Mmu_Map
begin

text \<open>
  Mapping what a split block left needs no further table: a part of a table above the pages that the rest of the block meets
  only partly was met by the range itself.
\<close>

subsection \<open>The entries that a range meets\<close>

text \<open>The entry of a page in the table whose first page is \<open>f\<close>.\<close>

definition entry_of :: "nat \<Rightarrow> nat \<Rightarrow> nat \<Rightarrow> nat" where
  "entry_of n f p = (p - f) div 512 ^ n"

definition in_table :: "nat \<Rightarrow> nat \<Rightarrow> nat \<Rightarrow> bool" where
  "in_table n f p \<longleftrightarrow> f \<le> p \<and> p < f + 512 ^ Suc n"

lemma entry_of_iff: "f \<le> p \<Longrightarrow> entry_of n f p = i \<longleftrightarrow> f + i * 512 ^ n \<le> p \<and> p < f + i * 512 ^ n + 512 ^ n"
  unfolding entry_of_def by (rule page_in_entry)

lemma entry_in_table:
  assumes "i < 512" "f + i * 512 ^ n \<le> p" "p < f + i * 512 ^ n + 512 ^ n"
  shows "in_table n f p" "entry_of n f p = i"
proof -
  have "Suc i * 512 ^ n \<le> 512 * (512 :: nat) ^ n" using assms(1) by (intro mult_le_mono1) simp
  then have "512 ^ n + i * 512 ^ n \<le> 512 * (512 :: nat) ^ n" by (simp only: mult_Suc)
  then show "in_table n f p" unfolding in_table_def power_Suc using assms(2,3) by (intro conjI; linarith)
  have "f \<le> p" using assms(2) by simp
  then show "entry_of n f p = i" using assms by (simp add: entry_of_iff)
qed

lemma entry_in_space:
  fixes f :: nat
  assumes "n \<le> 3" "512 ^ Suc n dvd f" "f < PAGES" "i < 512"
  shows "512 ^ n dvd f + i * 512 ^ n" "f + i * 512 ^ n < PAGES"
proof -
  have "512 ^ n dvd f" using assms(2) dvd_trans [of "512 ^ n" "512 ^ Suc n" f] by simp
  then show "512 ^ n dvd f + i * 512 ^ n" by simp
  have "i * 512 ^ n < 512 * (512 :: nat) ^ n" using assms(4) by (intro mult_strict_right_mono) simp_all
  then show "f + i * 512 ^ n < PAGES" using table_fits [OF assms(1-3)] unfolding power_Suc by linarith
qed

lemma meets_entry:
  assumes "f \<le> b" "a \<le> l" "a \<le> b" "f \<le> l" "l = f + 512 ^ Suc n - 1"
  shows "i \<in> {entry_of n f (max a f) ..< Suc (entry_of n f (min b l))} \<longleftrightarrow> i < 512 \<and> meets n (f + i * 512 ^ n) a b"
proof -
  have pos: "(0 :: nat) < 512 ^ n" by simp
  have S: "512 ^ Suc n = 512 * (512 :: nat) ^ n" by simp
  have ge: "entry_of n f (max a f) \<le> i \<longleftrightarrow> a < f + i * 512 ^ n + 512 ^ n"
  proof -
    have "entry_of n f (max a f) \<le> i \<longleftrightarrow> entry_of n f (max a f) < Suc i" by (rule less_Suc_eq_le [symmetric])
    also have "\<dots> \<longleftrightarrow> max a f - f < Suc i * 512 ^ n" unfolding entry_of_def by (rule div_less_iff_less_mult [OF pos])
    finally show ?thesis unfolding mult_Suc using pos by linarith
  qed
  have le: "i \<le> entry_of n f (min b l) \<longleftrightarrow> f + i * 512 ^ n \<le> b \<and> f + i * 512 ^ n \<le> l"
    unfolding entry_of_def less_eq_div_iff_mult_less_eq [OF pos] using assms(1,4) by linarith
  have "f + i * 512 ^ n \<le> l \<longleftrightarrow> i < 512"
  proof -
    have "f + i * 512 ^ n \<le> l \<longleftrightarrow> i * 512 ^ n < 512 * 512 ^ n" unfolding assms(5) S using pos by linarith
    then show ?thesis by simp
  qed
  then show ?thesis unfolding meets_def using ge le assms(3) by auto
qed

text \<open>\<^verbatim>\<open>visit_range\<close> runs its body for exactly the entries that the range meets.\<close>

lemma visit_range_entries:
  assumes n: "n \<le> 3" and f: "512 ^ Suc n dvd f" "f < PAGES" and ab: "a < PAGES" "b < PAGES"
  obtains "is" where "visit_range body (page_va k a) (page_va k b) (4 - n) (page_va k f) st = for_each body is st"
    "distinct is" "\<And>i. i \<in> set is \<longleftrightarrow> i < 512 \<and> meets n (f + i * 512 ^ n) a b"
proof -
  define l where "l = f + 512 ^ Suc n - 1"
  have S: "(0 :: nat) < 512 ^ Suc n" by simp
  have fits: "f + 512 ^ Suc n \<le> PAGES" by (rule table_fits [OF n f])
  have fl: "f \<le> l" "l < PAGES" using S fits unfolding l_def by linarith+
  have fn: "512 ^ n dvd f" using f(1) dvd_trans [of "512 ^ n" "512 ^ Suc n" f] by simp
  show thesis
  proof (cases "a \<le> b \<and> f \<le> b \<and> a \<le> l")
    case False
    have "page_va k b < page_va k f \<or> page_va k (f + 512 ^ Suc n - 1) < page_va k a \<or> page_va k b < page_va k a"
      using False ab fl f(2) unfolding l_def [symmetric] by (simp add: page_va_less) linarith
    note skip = visit_range_skip [OF n fn f(2) this]
    have none: "\<not> meets n (f + i * 512 ^ n) a b" if "i < 512" for i
    proof
      assume m: "meets n (f + i * 512 ^ n) a b"
      then have "f \<le> b" "a \<le> b" "a < f + i * 512 ^ n + 512 ^ n" by (simp_all add: meets_def)
      moreover have "f + i * 512 ^ n + 512 ^ n \<le> f + 512 ^ Suc n" using mult_le_mono1 [of "Suc i" 512 "512 ^ n"] that by simp
      ultimately show False using False unfolding l_def by linarith
    qed
    show ?thesis by (rule that [of "[]"]) (use skip none in auto)
  next
    case True
    have va: "max (page_va k a) (page_va k f) = page_va k (max a f)" "min (page_va k b) (page_va k l) = page_va k (min b l)"
      using ab fl f(2) by (simp_all add: max_def min_def page_va_le)
    have inl: "p < f + 512 ^ Suc n" if "p \<le> l" for p using that S unfolding l_def by linarith
    have index: "get_index_in_table (page_va k p) (4 - n) = entry_of n f p" if "f \<le> p" "p \<le> l" for p
      using index_depth [OF n, of p k] page_index [OF f(1) that(1) inl [OF that(2)]] that fl by (simp_all add: entry_of_def)
    have skip: "\<not> (page_va k b < page_va k f \<or> page_va k l < page_va k a \<or> page_va k b < page_va k a)"
      using True ab fl f(2) by (simp add: page_va_less)
    have ends: "f \<le> max a f" "max a f \<le> l" "f \<le> min b l" "min b l \<le> l" using True fl by auto
    show ?thesis
    proof (rule that [of "[entry_of n f (max a f) ..< Suc (entry_of n f (min b l))]"])
      show "visit_range body (page_va k a) (page_va k b) (4 - n) (page_va k f) st
          = for_each body [entry_of n f (max a f) ..< Suc (entry_of n f (min b l))] st"
        unfolding visit_range_def last_page_depth [OF n fn f(2)] bindE.simps l_def [symmetric] if_not_P [OF skip]
          Let_def min_k_eq max_k_eq va index [OF ends(1,2)] index [OF ends(3,4)] ..
      show "i \<in> set [entry_of n f (max a f) ..< Suc (entry_of n f (min b l))] \<longleftrightarrow> i < 512 \<and> meets n (f + i * 512 ^ n) a b" for i
        using meets_entry [of f b a l n i] True fl(1) by (simp only: set_upt l_def)
    qed simp
  qed
qed

subsection \<open>Ranges that need no table\<close>

lemma for_each_keeps:
  assumes "\<And>i st. i \<in> set is \<Longrightarrow> I st \<Longrightarrow> \<exists>st'. body i st = ok st' \<and> pages st' = pages st \<and> I st'"
  shows "I st \<Longrightarrow> \<exists>st'. for_each body is st = ok st' \<and> pages st' = pages st \<and> I st'"
  using assms
proof (induction "is" arbitrary: st)
  case (Cons i "is")
  then obtain st1 where "body i st = ok st1" "pages st1 = pages st" "I st1" by (metis list.set_intros(1))
  then show ?case using Cons.IH [of st1] Cons.prems(2) by auto
qed simp

lemma map_entry_leaf_keeps:
  assumes "attr_ok attr" and n: "n \<le> 3" "512 ^ n dvd e" "e < PAGES" and fe: "get_entry_va_from_table_index first (4 - n) i = page_va k e"
    and leaf: "n = 0 \<or> (va_start \<le> page_va k e \<and> page_va k (e + 512 ^ n - 1) \<le> va_end \<and> n \<le> 2)"
    and kind: "get_entry_kind (tables st t i) (4 - n) \<noteq> Table"
  shows "\<exists>ent. get_entry_kind ent (4 - n) \<noteq> Table \<and> map_entry rec tbl va_start va_end pa attr t (4 - n) first i st = ok (set_entry st t i ent)"
proof -
  have c: "4 - n = 4 \<or> (va_start \<le> page_va k e \<and> page_va k (e + 512 ^ n - 1) \<le> va_end \<and> 2 \<le> 4 - n)" using leaf n(1) by auto
  define ent where "ent = encode_new_entry (kind tbl) (pa + (page_va k e - va_start)) (4 - n) attr"
  have "get_entry_kind ent (4 - n) \<noteq> Table" using kind_encode [OF assms(1)] by (simp add: ent_def)
  moreover have "map_entry rec tbl va_start va_end pa attr t (4 - n) first i st = ok (set_entry st t i ent)"
    unfolding map_entry_def Let_def fe if_not_P [OF kind] entry_last_page [OF n] bindE.simps if_P [OF c] ent_def by (simp add: set_entry_twice)
  ultimately show ?thesis by blast
qed

lemma no_table_at_level_4: "get_entry_kind e 4 \<noteq> Table"
  by (simp add: get_entry_kind_def)

lemma level_0_keeps:
  assumes attr: "attr_ok attr" and f: "512 dvd f" "f < PAGES" and ab: "a < PAGES" "b < PAGES"
  shows "\<exists>st'. map_range_in_table 0 tbl (page_va k a) (page_va k b) pa attr t (page_va k f) st = ok st'
    \<and> pages st' = pages st \<and> (\<forall>u. u \<noteq> t \<longrightarrow> tables st' u = tables st u)"
proof -
  define body where "body = map_entry (\<lambda>_ _ _ _ _ _ _. Inl Undefined) tbl (page_va k a) (page_va k b) pa attr t 4 (page_va k f)"
  have lvl: "0 \<le> (3 :: nat)" by simp
  have f': "512 ^ Suc 0 dvd f" using f(1) by simp
  obtain js where js: "visit_range body (page_va k a) (page_va k b) (4 - 0) (page_va k f) st = for_each body js st"
      "distinct js" "\<And>i. i \<in> set js \<longleftrightarrow> i < 512 \<and> meets 0 (f + i * 512 ^ 0) a b"
    by (rule visit_range_entries [OF lvl f' f(2) ab, where body = body and k = k and st = st]) (rule that)
  have "\<exists>st'. for_each body js st = ok st'
      \<and> pages st' = pages st \<and> (\<forall>u. u \<noteq> t \<longrightarrow> tables st' u = tables st u)"
  proof (rule for_each_keeps)
    fix i and st1 :: "'a mmu_state"
    assume i: "i \<in> set js" and st1: "\<forall>u. u \<noteq> t \<longrightarrow> tables st1 u = tables st u"
    have "f + i < PAGES" using entry_in_space(2) [of 0 f i] f' f(2) js(3) i by simp
    then obtain ent where "body i st1 = ok (set_entry st1 t i ent)"
      using map_entry_leaf_keeps [OF attr, of 0 "f + i" "page_va k f" i k] entry_va_depth [of 0 k f i] no_table_at_level_4 unfolding body_def by force
    then show "\<exists>st'. body i st1 = ok st'
        \<and> pages st' = pages st1 \<and> (\<forall>u. u \<noteq> t \<longrightarrow> tables st' u = tables st u)"
      using st1 by simp
  qed simp
  then show ?thesis using js(1) by (simp add: body_def)
qed

lemma level_1_keeps:
  assumes attr: "attr_ok attr" and f: "512 ^ 2 dvd f" "f < PAGES" and ab: "a < PAGES" "b < PAGES"
    and entries: "\<And>i. i < 512 \<Longrightarrow> meets 1 (f + i * 512) a b \<Longrightarrow> \<not> (a \<le> f + i * 512 \<and> f + i * 512 + 512 \<le> Suc b) \<Longrightarrow>
      get_entry_kind (tables st t i) 3 = Table \<and> the (resolve_pa tbl) (get_table_pa_from_entry (tables st t i)) \<noteq> t"
    and subs: "\<And>i. i < 512 \<Longrightarrow> get_entry_kind (tables st t i) 3 = Table \<Longrightarrow> the (resolve_pa tbl) (get_table_pa_from_entry (tables st t i)) \<noteq> t"
  shows "\<exists>st'. map_range_in_table 1 tbl (page_va k a) (page_va k b) pa attr t (page_va k f) st = ok st' \<and> pages st' = pages st"
proof -
  define sub where "sub e = the (resolve_pa tbl) (get_table_pa_from_entry e)" for e
  define covered where "covered i \<longleftrightarrow> a \<le> f + i * 512 \<and> f + i * 512 + 512 \<le> Suc b" for i
  define body where "body = map_entry (map_range_in_table 0 tbl) tbl (page_va k a) (page_va k b) pa attr t 3 (page_va k f)"
  define I where "I st \<longleftrightarrow> (\<forall>i < 512. meets 1 (f + i * 512) a b \<longrightarrow> (get_entry_kind (tables st t i) 3 = Table \<longrightarrow> sub (tables st t i) \<noteq> t)
      \<and> (covered i \<or> get_entry_kind (tables st t i) 3 = Table))" for st :: "'a mmu_state"
  have lvl: "1 \<le> (3 :: nat)" by simp
  have f': "512 ^ Suc 1 dvd f" using f(1) by (simp add: power2_eq_square)
  obtain js where js: "visit_range body (page_va k a) (page_va k b) (4 - 1) (page_va k f) st = for_each body js st"
      "distinct js" "\<And>i. i \<in> set js \<longleftrightarrow> i < 512 \<and> meets 1 (f + i * 512 ^ 1) a b"
    by (rule visit_range_entries [OF lvl f' f(2) ab, where body = body and k = k and st = st]) (rule that)
  have "\<exists>st'. for_each body js st = ok st' \<and> pages st' = pages st \<and> I st'"
  proof (rule for_each_keeps)
    fix i and st1 :: "'a mmu_state"
    assume i: "i \<in> set js" and st1: "I st1"
    define e where "e = f + i * 512"
    have e: "512 ^ 1 dvd e" "e < PAGES" using entry_in_space [of 1 f i] f' f(2) js(3) i unfolding e_def by (simp_all add: numeral_2_eq_2)
    have m: "i < 512" "meets 1 e a b" using js(3) [of i] i by (simp_all add: e_def)
    have fe: "get_entry_va_from_table_index (page_va k f) (4 - 1) i = page_va k e" using entry_va_depth [of 1 k f i] by (simp add: e_def)
    show "\<exists>st'. body i st1 = ok st' \<and> pages st' = pages st1 \<and> I st'"
    proof (cases "get_entry_kind (tables st1 t i) 3 = Table")
      case True
      have ne: "sub (tables st1 t i) \<noteq> t" using st1 m True unfolding I_def e_def by blast
      have "body i st1 = map_range_in_table 0 tbl (page_va k a) (page_va k b) pa attr (sub (tables st1 t i)) (page_va k e) st1"
        unfolding body_def map_entry_def Let_def using fe True by (simp add: sub_def)
      moreover obtain st2 where "map_range_in_table 0 tbl (page_va k a) (page_va k b) pa attr (sub (tables st1 t i)) (page_va k e) st1 = ok st2"
          "pages st2 = pages st1" "\<forall>u. u \<noteq> sub (tables st1 t i) \<longrightarrow> tables st2 u = tables st1 u"
        using level_0_keeps [OF attr, of e a b tbl k pa "sub (tables st1 t i)" st1] e ab by auto
      moreover have "tables st2 t = tables st1 t" using calculation(4) ne by metis
      ultimately show ?thesis using st1 by (simp add: I_def)
    next
      case False
      then have "covered i" using st1 m unfolding I_def e_def by blast
      then have leaf: "1 = (0 :: nat) \<or> (page_va k a \<le> page_va k e \<and> page_va k (e + 512 ^ 1 - 1) \<le> page_va k b \<and> 1 \<le> (2 :: nat))"
        using page_va_le [of a e k] page_va_le [of "e + 511" b k] e(2) ab unfolding covered_def e_def by (simp add: add_ac)
      then obtain ent where "body i st1 = ok (set_entry st1 t i ent)" "get_entry_kind ent 3 \<noteq> Table"
        using map_entry_leaf_keeps [where st = st1 and t = t and rec = "map_range_in_table 0 tbl" and tbl = tbl and pa = pa, OF attr lvl e fe leaf] False
        unfolding body_def by auto
      moreover have "I (set_entry st1 t i ent)"
        using st1 calculation(2) \<open>covered i\<close> unfolding I_def by (auto simp: set_entry_def)
      ultimately show ?thesis by simp
    qed
  qed (use entries subs in \<open>auto simp: I_def covered_def sub_def\<close>)
  then show ?thesis using js(1) by (auto simp: body_def)
qed

text \<open>An entry above the pages that has a mapped and an unmapped page is a table.\<close>

lemma mixed_entry_is_table:
  assumes t: "tree R 1 T t F" and f: "512 ^ 2 dvd f" and i: "i < 512"
    and p: "f + i * 512 \<le> p" "p < f + i * 512 + 512" "mapping R 1 T t p = None"
    and q: "f + i * 512 \<le> q" "q < f + i * 512 + 512" "mapping R 1 T t q \<noteq> None"
  shows "get_entry_kind (T t i) 3 = Table"
proof -
  have idx: "x div 512 ^ 1 mod 512 = i" if "f + i * 512 \<le> x" "x < f + i * 512 + 512" for x
    using page_index(1) [of 1 f x] entry_in_table [OF i, of f 1 x] f that by (simp add: in_table_def entry_of_def numeral_2_eq_2)
  have "entry_mapping R 1 T (T t i) p = None" "entry_mapping R 1 T (T t i) q \<noteq> None"
    using p(3) q(3) unfolding mapping_entry idx [OF p(1,2)] idx [OF q(1,2)] by simp_all
  then show ?thesis
    using entry_mapping_invalid [of "T t i" 1 R T q] entry_mapping_leaf [of "T t i" 1 R T p] by (cases "get_entry_kind (T t i) 3") simp_all
qed

lemma tree_sub_ne:
  assumes "tree R (Suc m) T t F" "i < 512" "get_entry_kind (T t i) (3 - m) = Table"
  shows "R (get_table_pa_from_entry (T t i)) \<noteq> t"
proof -
  obtain G where "table_ok (sub_tree R (Suc m) T) (Suc m) (T t) t G" using assms(1) unfolding tree_iff by blast
  then have "entry_ok (sub_tree R (Suc m) T) (Suc m) (T t i) (G i)" "t \<notin> G i" using assms(2) by (simp_all add: table_ok_def)
  then have "tree R m T (R (get_table_pa_from_entry (T t i))) (G i)" "t \<notin> G i"
    using assms(3) by (simp_all add: entry_ok_def sub_tree_Suc)
  then show ?thesis using tree_root by metis
qed

lemma rest_keeps:
  assumes m: "m \<le> 1" and f: "512 ^ Suc m dvd f" "f < PAGES" and xy: "x < PAGES" "y < PAGES" and attr: "attr_ok attr"
    and t: "tree (the (resolve_pa tbl)) m (tables st) t F"
    and mixed: "\<And>i. i < 512 \<Longrightarrow> meets m (f + i * 512 ^ m) x y \<Longrightarrow> \<not> (x \<le> f + i * 512 ^ m \<and> f + i * 512 ^ m + 512 ^ m \<le> Suc y) \<Longrightarrow>
      \<exists>p q. f + i * 512 ^ m \<le> p \<and> p < f + i * 512 ^ m + 512 ^ m \<and> mapping (the (resolve_pa tbl)) m (tables st) t p = None
        \<and> f + i * 512 ^ m \<le> q \<and> q < f + i * 512 ^ m + 512 ^ m \<and> mapping (the (resolve_pa tbl)) m (tables st) t q \<noteq> None"
  shows "\<exists>st'. map_range_in_table m tbl (page_va k x) (page_va k y) pa attr t (page_va k f) st = ok st' \<and> pages st' = pages st"
proof (cases m)
  case 0
  then show ?thesis using level_0_keeps [OF attr _ f(2) xy, of tbl k pa t st] f(1) by auto
next
  case (Suc l)
  then have m: "m = 1" using m by simp
  have f2: "512 ^ 2 dvd f" using f(1) by (simp add: m numeral_2_eq_2)
  have sub: "the (resolve_pa tbl) (get_table_pa_from_entry (tables st t i)) \<noteq> t" if "i < 512" "get_entry_kind (tables st t i) 3 = Table" for i
    using tree_sub_ne [of "the (resolve_pa tbl)" 0 "tables st" t F i] t that by (simp add: m)
  have "get_entry_kind (tables st t i) 3 = Table"
    if i: "i < 512" "meets 1 (f + i * 512) x y" "\<not> (x \<le> f + i * 512 \<and> f + i * 512 + 512 \<le> Suc y)" for i
    using mixed [of i] i mixed_entry_is_table [OF t [unfolded m] f2 i(1)] unfolding m power_one_right by blast
  then show ?thesis unfolding m by (intro level_1_keeps [OF attr f2 f(2) xy]) (use sub in simp_all)
qed

subsection \<open>Mapping what a split block left\<close>

lemma map_low_rest:
  assumes ih: "maps_below live good room tbl m" and m: "m \<le> 1" and e: "512 ^ Suc m dvd e" "e < PAGES" and a: "a < PAGES" "a < e + 512 ^ Suc m"
    and wrap: "\<not> (kind tbl = Process \<and> a = 0)" and Q: "512 ^ Suc m dvd Q" "Q < PAGES" "attr_ok oa"
    and t: "tree (the (resolve_pa tbl)) m (tables st) t F" "F \<subseteq> live (pages st)" "good (pages st)"
    and none: "\<And>p. e \<le> p \<Longrightarrow> p < a \<Longrightarrow> mapping (the (resolve_pa tbl)) m (tables st) t p = None"
    and some: "e \<le> a \<Longrightarrow> mapping (the (resolve_pa tbl)) m (tables st) t a \<noteq> None"
  shows "maps live good room (the (resolve_pa tbl)) m t e st F
    (\<lambda>p. if p < a then Some (Q + (p - e), oa) else mapping (the (resolve_pa tbl)) m (tables st) t p) 0
    (map_range_in_table m tbl (page_va (kind tbl) e) (page_va (kind tbl) a - PAGE_BYTES) (of_nat (Q * PAGE_BYTES)) oa t (page_va (kind tbl) e) st)"
proof (cases "a \<le> e")
  case True
  have "page_va (kind tbl) a - PAGE_BYTES < page_va (kind tbl) e"
  proof (cases "a = 0")
    case True
    then have "kind tbl = Kernel" using wrap by (cases "kind tbl") simp_all
    then have "unat (page_va (kind tbl) a - PAGE_BYTES) < unat (get_base_address (kind tbl))"
      using True by (simp add: page_va_def get_base_address_def)
    then show ?thesis using unat_page_va [OF e(2), of "kind tbl"] by (simp add: word_less_nat_alt)
  next
    case False
    then show ?thesis using page_va_less [of "a - 1" e "kind tbl"] page_va_prev [of a "kind tbl"] True a e by simp
  qed
  then have "map_range_in_table m tbl (page_va (kind tbl) e) (page_va (kind tbl) a - PAGE_BYTES) (of_nat (Q * PAGE_BYTES)) oa t (page_va (kind tbl) e) st = ok st"
    using m e by (intro map_range_skip) simp_all
  then show ?thesis by (simp only:) (rule maps_skip, rule t(1), rule t(2), rule t(3), use True in simp)
next
  case False
  have Q': "Q + 512 ^ Suc m \<le> PAGES" by (rule table_fits) (use m Q in simp_all)
  have "P mod 512 ^ j = e mod 512 ^ j" if "512 ^ j \<le> a - 1 + 1 - e" "P = Q" for j P
  proof -
    have "(512 :: nat) ^ j < 512 ^ Suc m" using that False a by linarith
    then have d: "512 ^ j dvd (512 :: nat) ^ Suc m" by (rule power_dvd_less)
    show ?thesis using dvd_trans [OF d Q(1)] dvd_trans [OF d e(1)] that(2) by (simp add: dvd_imp_mod_0)
  qed
  then have pre: "map_pre e (a - 1) Q" using False a Q' e by (simp add: map_pre_def) arith
  have "edges_ok (kind tbl) (\<lambda>p. e \<le> p \<and> p < e + 512 ^ Suc m \<and> in_block (the (resolve_pa tbl)) m (tables st) t p) e (a - 1)"
    using not_mapped_not_block [OF none] False a unfolding edges_ok_def by auto
  note mp = maps_belowD [where live = live and good = good and st = st, OF ih pre Q(3) e t this]
  have "\<exists>st'. map_range_in_table m tbl (page_va (kind tbl) e) (page_va (kind tbl) (a - 1)) (of_nat (Q * PAGE_BYTES)) oa t (page_va (kind tbl) e) st = ok st'
      \<and> pages st' = pages st"
  proof (rule rest_keeps [OF m e e(2) _ Q(3) t(1)])
    fix i
    assume i: "i < 512" "meets m (e + i * 512 ^ m) e (a - 1)" "\<not> (e \<le> e + i * 512 ^ m \<and> e + i * 512 ^ m + 512 ^ m \<le> Suc (a - 1))"
    then have w: "e + i * 512 ^ m \<le> a - 1" "a < e + i * 512 ^ m + 512 ^ m" "e \<le> a - 1" by (simp_all add: meets_def)
    have "mapping (the (resolve_pa tbl)) m (tables st) t (a - 1) = None" "mapping (the (resolve_pa tbl)) m (tables st) t a \<noteq> None"
      using none [of "a - 1"] some False by simp_all
    then show "\<exists>p q. e + i * 512 ^ m \<le> p \<and> p < e + i * 512 ^ m + 512 ^ m \<and> mapping (the (resolve_pa tbl)) m (tables st) t p = None
        \<and> e + i * 512 ^ m \<le> q \<and> q < e + i * 512 ^ m + 512 ^ m \<and> mapping (the (resolve_pa tbl)) m (tables st) t q \<noteq> None"
      using w by (intro exI [of _ "a - 1"] exI [of _ a] conjI; (assumption | linarith))
  qed (use a in simp)
  then obtain st' where "map_range_in_table m tbl (page_va (kind tbl) e) (page_va (kind tbl) (a - 1)) (of_nat (Q * PAGE_BYTES)) oa t (page_va (kind tbl) e) st = ok st'"
      "pages st' = pages st" by blast
  note free = maps_free [OF mp this]
  have prev: "page_va (kind tbl) a - PAGE_BYTES = page_va (kind tbl) (a - 1)" using page_va_prev [of a "kind tbl"] False by simp
  show ?thesis unfolding prev by (rule maps_cong [OF free]) (use False in \<open>auto simp: remapped_def\<close>)
qed

lemma map_high_rest:
  assumes ih: "maps_below live good room tbl m" and m: "m \<le> 1" and e: "512 ^ Suc m dvd e" "e < PAGES" and b: "b < PAGES" "e \<le> b"
    and wrap: "\<not> (kind tbl = Kernel \<and> b = PAGES - 1)" and Q: "512 ^ Suc m dvd Q" "Q < PAGES" "attr_ok oa"
    and t: "tree (the (resolve_pa tbl)) m (tables st) t F" "F \<subseteq> live (pages st)" "good (pages st)"
    and none: "\<And>p. b < p \<Longrightarrow> p < e + 512 ^ Suc m \<Longrightarrow> mapping (the (resolve_pa tbl)) m (tables st) t p = None"
    and some: "b < e + 512 ^ Suc m \<Longrightarrow> mapping (the (resolve_pa tbl)) m (tables st) t b \<noteq> None"
  shows "maps live good room (the (resolve_pa tbl)) m t e st F
    (\<lambda>p. if b < p then Some (Q + (p - e), oa) else mapping (the (resolve_pa tbl)) m (tables st) t p) 0
    (map_range_in_table m tbl (page_va (kind tbl) b + PAGE_BYTES) (page_va (kind tbl) (e + 512 ^ Suc m - 1))
       (of_nat (Q * PAGE_BYTES) + (page_va (kind tbl) b + PAGE_BYTES - page_va (kind tbl) e)) oa t (page_va (kind tbl) e) st)"
proof -
  define S where "S = (512 :: nat) ^ Suc m"
  have S: "0 < S" by (simp add: S_def)
  have eS: "e + S \<le> PAGES" unfolding S_def by (rule table_fits) (use m e in simp_all)
  have next_va: "page_va (kind tbl) b + PAGE_BYTES = page_va (kind tbl) (Suc b)" by (rule page_va_next)
  show ?thesis
  proof (cases "e + S \<le> Suc b")
    case True
    have "page_va (kind tbl) (e + S - 1) < page_va (kind tbl) (Suc b)"
    proof (cases "Suc b < PAGES")
      case True
      then show ?thesis using page_va_less [of "e + S - 1" "Suc b" "kind tbl"] \<open>e + S \<le> Suc b\<close> S by simp
    next
      case False
      then have "Suc b = PAGES" "kind tbl = Process" using b wrap by (auto intro: table_kind.exhaust)
      then have "unat (page_va (kind tbl) (Suc b)) = 2 ^ 48" by (simp add: page_va_def get_base_address_def)
      moreover have "unat (page_va (kind tbl) (e + S - 1)) < 2 ^ 48"
        using unat_page_va [of "e + S - 1" "kind tbl"] eS S \<open>kind tbl = Process\<close> by (simp add: base_unat)
      ultimately show ?thesis by (simp add: word_less_nat_alt)
    qed
    then have "map_range_in_table m tbl (page_va (kind tbl) b + PAGE_BYTES) (page_va (kind tbl) (e + 512 ^ Suc m - 1))
       (of_nat (Q * PAGE_BYTES) + (page_va (kind tbl) b + PAGE_BYTES - page_va (kind tbl) e)) oa t (page_va (kind tbl) e) st = ok st"
      using m e unfolding next_va S_def by (intro map_range_skip) simp_all
    then show ?thesis by (simp only:) (rule maps_skip, rule t(1), rule t(2), rule t(3), use True in \<open>simp add: S_def\<close>)
  next
    case False
    have Q': "Q + S \<le> PAGES" unfolding S_def by (rule table_fits) (use m Q in simp_all)
    have pa: "of_nat (Q * PAGE_BYTES) + (page_va (kind tbl) b + PAGE_BYTES - page_va (kind tbl) e) = (of_nat ((Q + (Suc b - e)) * PAGE_BYTES) :: addr)"
      using page_va_diff [of e "Suc b" "kind tbl"] b(2) unfolding next_va by (simp add: algebra_simps)
    have "(Q + (Suc b - e)) mod 512 ^ j = Suc b mod 512 ^ j" if "512 ^ j \<le> e + S - 1 + 1 - Suc b" for j
    proof -
      have "(512 :: nat) ^ j < 512 ^ Suc m" using that b S unfolding S_def by linarith
      then have d: "512 ^ j dvd (512 :: nat) ^ Suc m" by (rule power_dvd_less)
      have "Q mod 512 ^ j = e mod 512 ^ j" using dvd_trans [OF d Q(1)] dvd_trans [OF d e(1)] by (simp add: dvd_imp_mod_0)
      then have "(Q + (Suc b - e)) mod 512 ^ j = (e + (Suc b - e)) mod 512 ^ j" by (rule mod_add_cong) simp
      then show ?thesis using b(2) by simp
    qed
    then have pre: "map_pre (Suc b) (e + S - 1) (Q + (Suc b - e))" using False b(2) Q' eS e S by (simp add: map_pre_def) arith
    have ed: "edges_ok (kind tbl) (\<lambda>p. e \<le> p \<and> p < e + 512 ^ Suc m \<and> in_block (the (resolve_pa tbl)) m (tables st) t p) (Suc b) (e + S - 1)"
      using not_mapped_not_block [OF none] False S unfolding edges_ok_def S_def by auto
    note mp = maps_belowD [where live = live and good = good and st = st, OF ih pre Q(3) e t ed]
    have "\<exists>st'. map_range_in_table m tbl (page_va (kind tbl) (Suc b)) (page_va (kind tbl) (e + S - 1)) (of_nat ((Q + (Suc b - e)) * PAGE_BYTES)) oa t
        (page_va (kind tbl) e) st = ok st' \<and> pages st' = pages st"
    proof (rule rest_keeps [OF m e _ _ Q(3) t(1)])
      fix i
      assume i: "i < 512" "meets m (e + i * 512 ^ m) (Suc b) (e + S - 1)"
        "\<not> (Suc b \<le> e + i * 512 ^ m \<and> e + i * 512 ^ m + 512 ^ m \<le> Suc (e + S - 1))"
      have "Suc i * 512 ^ m \<le> 512 * (512 :: nat) ^ m" using i(1) by (intro mult_le_mono1) simp
      then have "i * 512 ^ m + 512 ^ m \<le> S" by (simp add: S_def)
      then have w: "e + i * 512 ^ m \<le> b" "Suc b < e + i * 512 ^ m + 512 ^ m" "b < e + 512 ^ Suc m" "Suc b < e + 512 ^ Suc m"
        using i(2,3) False by (auto simp: meets_def S_def)
      then have "mapping (the (resolve_pa tbl)) m (tables st) t (Suc b) = None" "mapping (the (resolve_pa tbl)) m (tables st) t b \<noteq> None"
        using none [of "Suc b"] some by simp_all
      then show "\<exists>p q. e + i * 512 ^ m \<le> p \<and> p < e + i * 512 ^ m + 512 ^ m \<and> mapping (the (resolve_pa tbl)) m (tables st) t p = None
          \<and> e + i * 512 ^ m \<le> q \<and> q < e + i * 512 ^ m + 512 ^ m \<and> mapping (the (resolve_pa tbl)) m (tables st) t q \<noteq> None"
        using w by (intro exI [of _ "Suc b"] exI [of _ b] conjI; (assumption | linarith))
    qed (use False eS S in simp_all)
    then obtain st' where "map_range_in_table m tbl (page_va (kind tbl) (Suc b)) (page_va (kind tbl) (e + S - 1)) (of_nat ((Q + (Suc b - e)) * PAGE_BYTES)) oa t
        (page_va (kind tbl) e) st = ok st'" "pages st' = pages st" by blast
    note free = maps_free [OF mp this]
    show ?thesis
      unfolding pa unfolding next_va S_def [symmetric]
      by (rule maps_cong [OF free]) (use b(2) in \<open>auto simp: remapped_def S_def\<close>)
  qed
qed

end
