(* ===== verification/Mmu_Mapped.thy ===== *)
theory Mmu_Mapped
  imports Mmu_Rest
begin

text \<open>
  Splitting a block, the loop over the entries of a table, and the refinement: \<^verbatim>\<open>map_range\<close> on the whole tree updates the
  mapping of exactly the pages of its range.
\<close>

subsection \<open>One entry\<close>

lemma map_entry_table:
  assumes ih: "maps_below live good room tbl m" and pre: "map_pre a b P" "attr_ok attr" and e: "512 ^ Suc m dvd e" "e < PAGES"
    and k: "get_entry_kind (tables st t i) (3 - m) = Table" and ok: "entry_ok (sub_tree (the (resolve_pa tbl)) (Suc m) (tables st)) (Suc m) (tables st t i) g"
    and t: "t \<in> live (pages st)" "t \<notin> g" "g \<subseteq> live (pages st)" "good (pages st)"
    and ed: "edges_ok (kind tbl) (\<lambda>p. e \<le> p \<and> p < e + 512 ^ Suc m \<and> entry_block (the (resolve_pa tbl)) (Suc m) (tables st) (tables st t i) p) a b"
    and fe: "get_entry_va_from_table_index first (3 - m) i = page_va (kind tbl) e"
  shows "entry_maps live good room (the (resolve_pa tbl)) (Suc m) t i e st g
    (remapped a b P attr (entry_mapping (the (resolve_pa tbl)) (Suc m) (tables st) (tables st t i))) (entry_needs (Suc m) e a b)
    (map_entry (map_range_in_table m tbl) tbl (page_va (kind tbl) a) (page_va (kind tbl) b) (of_nat (P * PAGE_BYTES)) attr t (3 - m) first i st)"
proof -
  define R where "R = the (resolve_pa tbl)"
  define s where "s = R (get_table_pa_from_entry (tables st t i))"
  have tr: "tree R m (tables st) s g" using ok k by (simp add: entry_ok_def sub_tree_Suc R_def s_def)
  have blk: "entry_block R (Suc m) (tables st) (tables st t i) p \<longleftrightarrow> in_block R m (tables st) s p" for p
    using k by (simp add: entry_block_def in_block_def entry_view_def sub_view_Suc s_def)
  have map: "entry_mapping R (Suc m) T (tables st t i) p = mapping R m T s p" for T p
    using k by (simp add: entry_mapping_table s_def)
  have eq: "map_entry (map_range_in_table m tbl) tbl (page_va (kind tbl) a) (page_va (kind tbl) b) (of_nat (P * PAGE_BYTES)) attr t (3 - m) first i st
      = map_range_in_table m tbl (page_va (kind tbl) a) (page_va (kind tbl) b) (of_nat (P * PAGE_BYTES)) attr s (page_va (kind tbl) e) st"
    using k fe by (simp add: map_entry_def s_def R_def)
  have ed': "edges_ok (kind tbl) (\<lambda>p. e \<le> p \<and> p < e + 512 ^ Suc m \<and> in_block R m (tables st) s p) a b"
    using ed unfolding R_def [symmetric] blk .
  have mp: "maps live good room R m s e st g (remapped a b P attr (mapping R m (tables st) s)) (tables_needed m e a b)
      (map_range_in_table m tbl (page_va (kind tbl) a) (page_va (kind tbl) b) (of_nat (P * PAGE_BYTES)) attr s (page_va (kind tbl) e) st)"
    using maps_belowD [OF ih pre e tr [unfolded R_def] t(3,4) ed' [unfolded R_def]] unfolding R_def .
  show ?thesis
    unfolding eq R_def [symmetric]
  proof (cases "map_range_in_table m tbl (page_va (kind tbl) a) (page_va (kind tbl) b) (of_nat (P * PAGE_BYTES)) attr s (page_va (kind tbl) e) st = Inl Panic")
    case True
    then show "entry_maps live good room R (Suc m) t i e st g (remapped a b P attr (entry_mapping R (Suc m) (tables st) (tables st t i))) (entry_needs (Suc m) e a b)
      (map_range_in_table m tbl (page_va (kind tbl) a) (page_va (kind tbl) b) (of_nat (P * PAGE_BYTES)) attr s (page_va (kind tbl) e) st)"
      using mp by (simp add: entry_maps_def maps_def entry_needs_def)
  next
    case False
    then obtain st' F' where r: "map_range_in_table m tbl (page_va (kind tbl) a) (page_va (kind tbl) b) (of_nat (P * PAGE_BYTES)) attr s (page_va (kind tbl) e) st = ok st'"
        "room (pages st) \<le> room (pages st') + tables_needed m e a b"
        "tree R m (tables st') s F'" "reworked live good st g st' F'"
        "\<And>p. e \<le> p \<Longrightarrow> p < e + 512 ^ Suc m \<Longrightarrow> mapping R m (tables st') s p = remapped a b P attr (mapping R m (tables st) s) p"
      using mp unfolding maps_def by auto
    note sr = sub_reworked [OF r(4) t(1,2)]
    have "entry_ok (sub_tree R (Suc m) (tables st')) (Suc m) (tables st' t i) F'"
      using r(3) k by (simp add: entry_ok_def sub_tree_Suc sr(2) s_def)
    then show "entry_maps live good room R (Suc m) t i e st g (remapped a b P attr (entry_mapping R (Suc m) (tables st) (tables st t i))) (entry_needs (Suc m) e a b)
      (map_range_in_table m tbl (page_va (kind tbl) a) (page_va (kind tbl) b) (of_nat (P * PAGE_BYTES)) attr s (page_va (kind tbl) e) st)"
      using r(1,2,5) sr(1) unfolding entry_maps_def sr(2) map by (auto simp: remapped_def sr(2) map entry_needs_def)
  qed
qed

lemma entry_fits:
  fixes e :: nat
  assumes "n \<le> 3" "512 ^ n dvd e" "e < PAGES"
  shows "e + 512 ^ n \<le> PAGES"
  using assms table_fits [of "n - 1" e] by (cases n) simp_all

lemma page_offset: "512 ^ n dvd (e :: nat) \<Longrightarrow> e \<le> p \<Longrightarrow> p < e + 512 ^ n \<Longrightarrow> p mod 512 ^ n = p - e"
proof -
  assume d: "512 ^ n dvd e" and p: "e \<le> p" "p < e + 512 ^ n"
  have "(e + (p - e)) mod 512 ^ n = (p - e) mod 512 ^ n" using d by (metis dvd_imp_mod_0 mod_add_left_eq add_0)
  then show ?thesis using p by simp
qed

lemma not_table_empty: "entry_ok sub n e g \<Longrightarrow> get_entry_kind e (4 - n) \<noteq> Table \<Longrightarrow> g = {}"
  by (auto simp: entry_ok_def split: EntryKind.splits)

lemma map_entry_leaf:
  assumes n: "n \<le> 3" and pre: "map_pre a b P" "attr_ok attr" and e: "512 ^ n dvd e" "e < PAGES" and meets: "meets n e a b"
    and leaf: "n = 0 \<or> (a \<le> e \<and> e + 512 ^ n \<le> Suc b \<and> n \<le> 2)"
    and k: "get_entry_kind (tables st t i) (4 - n) \<noteq> Table" and ok: "entry_ok (sub_tree (the (resolve_pa tbl)) n (tables st)) n (tables st t i) g"
    and t: "t \<in> live (pages st)" "good (pages st)" and fe: "get_entry_va_from_table_index first (4 - n) i = page_va (kind tbl) e"
  shows "entry_maps live good room (the (resolve_pa tbl)) n t i e st g
    (remapped a b P attr (entry_mapping (the (resolve_pa tbl)) n (tables st) (tables st t i))) (entry_needs n e a b)
    (map_entry rec tbl (page_va (kind tbl) a) (page_va (kind tbl) b) (of_nat (P * PAGE_BYTES)) attr t (4 - n) first i st)"
proof -
  define q where "q = P + (e - a)"
  define ent where "ent = encode_new_entry (kind tbl) (of_nat (q * PAGE_BYTES)) (4 - n) attr"
  have ae: "a \<le> e" "e + 512 ^ n \<le> Suc b" using leaf meets by (auto simp: meets_def)
  have b: "a < PAGES" "b < PAGES" "P + (b - a) < PAGES" using pre(1) by (simp_all add: map_pre_def)
  have "e \<le> b" using meets by (simp add: meets_def)
  then have "e - a \<le> b - a" by (rule diff_le_mono)
  then have q: "q < PAGES" using b(3) unfolding q_def by linarith
  have fits: "e + 512 ^ n \<le> PAGES" by (rule entry_fits [OF n e])
  have g: "g = {}" by (rule not_table_empty [OF ok k])
  have stop: "page_va (kind tbl) (e + 512 ^ n - 1) \<le> page_va (kind tbl) b"
    using page_va_le [of "e + 512 ^ n - 1" b "kind tbl"] fits ae(2) b e(2) by simp
  have start: "page_va (kind tbl) a \<le> page_va (kind tbl) e" using page_va_le [of a e "kind tbl"] ae(1) b e(2) by simp
  have pa: "of_nat (P * PAGE_BYTES) + (page_va (kind tbl) e - page_va (kind tbl) a) = (of_nat (q * PAGE_BYTES) :: addr)"
    using page_va_diff [OF ae(1), of "kind tbl"] by (simp add: q_def algebra_simps)
  have lv: "4 - n = 4 \<longleftrightarrow> n = 0" using n by auto
  have cond: "4 - n = 4 \<or> (page_va (kind tbl) a \<le> page_va (kind tbl) e \<and> page_va (kind tbl) (e + 512 ^ n - 1) \<le> page_va (kind tbl) b \<and> 2 \<le> 4 - n)"
    using leaf start stop by auto
  have eq: "map_entry rec tbl (page_va (kind tbl) a) (page_va (kind tbl) b) (of_nat (P * PAGE_BYTES)) attr t (4 - n) first i st = ok (set_entry st t i ent)"
    unfolding map_entry_def Let_def fe entry_last_page [OF n e] bindE.simps pa ent_def [symmetric]
    using k cond by (simp add: set_entry_twice)
  have kind: "get_entry_kind ent (4 - n) = (if n = 0 then Page else Block)"
    using kind_encode [OF pre(2), of "kind tbl" "of_nat (q * PAGE_BYTES)" "4 - n"] unfolding lv ent_def by simp
  have dec: "get_table_pa_from_entry ent = of_nat (q * PAGE_BYTES)" "snd (decode_entry ent) = attr"
    using decode_encode [OF pre(2), of "kind tbl" "of_nat (q * PAGE_BYTES)" "4 - n"] pa_page(1) [OF q] unfolding ent_def
    by (simp_all flip: decode_pa)
  have page: "unat (get_table_pa_from_entry ent) div PAGE_BYTES = q" using pa_page(2) [OF q] by (simp add: dec(1))
  have "512 ^ n dvd q" if "n \<noteq> 0"
  proof -
    have "n \<in> {1, 2}" "512 ^ n \<le> b + 1 - a" using leaf that ae by auto
    then have "P mod 512 ^ n = a mod 512 ^ n" using pre(1) unfolding map_pre_def by blast
    then have "(P + (e - a)) mod 512 ^ n = (a + (e - a)) mod 512 ^ n" by (rule mod_add_cong) simp
    then show ?thesis using e(1) ae(1) by (simp add: q_def dvd_eq_mod_eq_0)
  qed
  then have ok': "entry_ok sub n ent {}" for sub using kind leaf page by (auto simp: entry_ok_def block_aligned_def)
  have "entry_mapping R n T ent p = Some (P + (p - a), attr)" if "e \<le> p" "p < e + 512 ^ n" for R T p
    using entry_mapping_leaf [of ent n] kind page dec(2) page_offset [OF e(1) that] that ae by (auto simp: q_def)
  then show ?thesis
    using set_entry_reworked [of good st t live i ent] t g ok' ae
    unfolding eq entry_maps_def by (auto simp: remapped_def)
qed

subsection \<open>The page allocator\<close>

text \<open>A fresh page is in use by nobody, zeroed, and reachable through its physical address; there is one as long as there is
  room. \<open>live\<close> are the pages in use, \<open>room\<close> is the number of the others and \<open>good\<close> is the invariant of the allocator.\<close>

locale page_source =
  fixes tbl :: "'a MMUTable" and live :: "'a \<Rightarrow> addr set" and good :: "'a \<Rightarrow> bool" and room :: "'a \<Rightarrow> nat"
  assumes alloc: "good (pages st) \<Longrightarrow> (the (alloc_fun tbl) st = Inl Panic \<and> room (pages st) = 0) \<or>
      (\<exists>t st'. the (alloc_fun tbl) st = ok (t, st') \<and> room (pages st) = Suc (room (pages st')) \<and> good (pages st') \<and> t \<notin> live (pages st) \<and> live (pages st') = insert t (live (pages st))
         \<and> tables st' = (tables st)(t := \<lambda>_. 0) \<and> pa_ok (the (resolve_va tbl) t) \<and> the (resolve_pa tbl) (the (resolve_va tbl) t) = t)"

subsection \<open>Sequences of operations on a table\<close>

lemma maps_bind:
  assumes "maps live good room R m t f st F \<mu> u out"
    and "\<And>st' F'. tree R m (tables st') t F' \<Longrightarrow> F' \<subseteq> live (pages st') \<Longrightarrow> good (pages st') \<Longrightarrow>
      (\<And>p. f \<le> p \<Longrightarrow> p < f + 512 ^ Suc m \<Longrightarrow> mapping R m (tables st') t p = \<mu> p) \<Longrightarrow> maps live good room R m t f st' F' \<mu>' v (k st')"
  shows "maps live good room R m t f st F \<mu>' (u + v) (bindE out k)"
proof (cases "out = Inl Panic")
  case False
  then obtain st' F' where r: "out = ok st'" "room (pages st) \<le> room (pages st') + u" "tree R m (tables st') t F'" "reworked live good st F st' F'"
      "\<And>p. f \<le> p \<Longrightarrow> p < f + 512 ^ Suc m \<Longrightarrow> mapping R m (tables st') t p = \<mu> p"
    using assms(1) unfolding maps_def by blast
  have "F' \<subseteq> live (pages st')" "good (pages st')" using r(4) by (simp_all add: reworked_def)
  then have "maps live good room R m t f st' F' \<mu>' v (k st')" by (rule assms(2) [OF r(3) _ _ r(5)])
  then show ?thesis using r(1,2) reworked_trans [OF r(4)] unfolding maps_def by (fastforce simp: bindE.simps)
qed (use assms(1) in \<open>simp add: maps_def\<close>)

text \<open>Working on a table that was put behind an entry.\<close>

lemma maps_entry:
  assumes "maps live good room R m s e st F \<mu> u out" "entry_reworked live good t i st0 g st F" "F \<subseteq> live (pages st)" "t \<in> live (pages st)"
    and "get_entry_kind (tables st t i) (3 - m) = Table" "R (get_table_pa_from_entry (tables st t i)) = s"
    and "room (pages st0) \<le> Suc (room (pages st))"
  shows "entry_maps live good room R (Suc m) t i e st0 g \<mu> (Suc u) out"
proof (cases "out = Inl Panic")
  case False
  then obtain st' F' where r: "out = ok st'" "room (pages st) \<le> room (pages st') + u" "tree R m (tables st') s F'" "reworked live good st F st' F'"
      "\<And>p. e \<le> p \<Longrightarrow> p < e + 512 ^ Suc m \<Longrightarrow> mapping R m (tables st') s p = \<mu> p"
    using assms(1) unfolding maps_def by blast
  have nt: "t \<notin> F" using assms(2) by (simp add: entry_reworked_def)
  note sr = sub_reworked [OF r(4) assms(4) nt]
  have same: "tables st' t i = tables st t i" by (simp add: sr(2))
  have "entry_ok (sub_tree R (Suc m) (tables st')) (Suc m) (tables st' t i) F'"
    unfolding same using r(3) assms(5,6) by (simp add: entry_ok_def sub_tree_Suc)
  moreover have "entry_mapping R (Suc m) (tables st') (tables st' t i) p = mapping R m (tables st') s p" for p
    unfolding same using assms(5,6) by (simp add: entry_mapping_table)
  moreover have "room (pages st0) \<le> room (pages st') + Suc u" using r(2) assms(7) by simp
  ultimately show ?thesis
    using r(1,5) entry_reworked_trans [OF assms(2) sr(1)] unfolding entry_maps_def by auto
qed (use assms(1,7) in \<open>simp add: entry_maps_def maps_def\<close>)

subsection \<open>Splitting an entry\<close>

context page_source
begin

abbreviation (input) R where "R \<equiv> the (resolve_pa tbl)"

text \<open>The new table maps nothing and is linked into the entry.\<close>

lemma link_new_table:
  assumes st: "good (pages st)" "t \<in> live (pages st)" and m: "m \<le> 2"
    and k: "\<And>nt st2. tree R m (tables st2) nt {nt} \<Longrightarrow> {nt} \<subseteq> live (pages st2) \<Longrightarrow> good (pages st2)
        \<Longrightarrow> (\<And>p. mapping R m (tables st2) nt p = None) \<Longrightarrow> maps live good room R m nt e st2 {nt} \<mu> u (cont nt st2)"
  shows "entry_maps live good room R (Suc m) t i e st {} \<mu> (Suc u)
      (bindE (the (alloc_fun tbl) (if c then set_entry st t i 0 else st)) (\<lambda>(nt, st). cont nt (set_entry st t i (the (resolve_va tbl) nt OR TABLE_MARKER))))"
proof -
  define st0 where "st0 = (if c then set_entry st t i 0 else st)"
  have p0: "pages st0 = pages st" by (simp add: st0_def)
  have t0: "tables st0 u j = tables st u j" if "u \<noteq> t \<or> j \<noteq> i" for u j using that by (cases "u = t") (auto simp: st0_def)
  consider "the (alloc_fun tbl) st0 = Inl Panic" "room (pages st) = 0"
    | nt st1 where "the (alloc_fun tbl) st0 = ok (nt, st1)" "good (pages st1)" "nt \<notin> live (pages st)" "live (pages st1) = insert nt (live (pages st))"
        "tables st1 = (tables st0)(nt := \<lambda>_. 0)" "pa_ok (the (resolve_va tbl) nt)" "R (the (resolve_va tbl) nt) = nt"
        "room (pages st) = Suc (room (pages st1))"
    using alloc [of st0] st(1) unfolding p0 by auto
  then show ?thesis
  proof cases
    case 1
    then show ?thesis unfolding st0_def [symmetric] by (simp add: entry_maps_def)
  next
    case 2
    define st2 where "st2 = set_entry st1 t i (the (resolve_va tbl) nt OR TABLE_MARKER)"
    have ne: "nt \<noteq> t" using 2(3) st(2) by blast
    have z: "tables st2 nt = (\<lambda>_. 0)" using ne by (simp add: st2_def 2(5))
    have l2: "live (pages st2) = insert nt (live (pages st))" "good (pages st2)" by (simp_all add: st2_def 2(2,4))
    have "tables st2 u = tables st u" if "u \<noteq> t" "u \<noteq> nt" for u
      using that t0 by (auto simp: st2_def 2(5))
    moreover have "tables st2 t j = tables st t j" if "j \<noteq> i" for j
      using that t0 ne by (auto simp: st2_def 2(5))
    ultimately have er: "entry_reworked live good t i st {} st2 {nt}"
      using ne 2(3) st(2) l2 by (auto simp: entry_reworked_def reworked_def)
    have ent: "tables st2 t i = the (resolve_va tbl) nt OR TABLE_MARKER" by (simp add: st2_def)
    have lv: "3 - m \<noteq> 4" by simp
    have "maps live good room R m nt e st2 {nt} \<mu> u (cont nt st2)"
      by (rule k, rule empty_tree, rule z) (simp_all add: l2 mapping_def empty_view [of "tables st2", OF z])
    from maps_entry [OF this er]
    have "entry_maps live good room R (Suc m) t i e st {} \<mu> (Suc u) (cont nt st2)"
      using kind_table_entry [OF 2(6) lv] 2(7,8) l2 st(2) unfolding ent by (simp add: st2_def)
    then show ?thesis unfolding st0_def [symmetric] by (simp add: 2(1) st2_def)
  qed
qed

lemma map_entry_split:
  assumes ih: "maps_below live good room tbl m" and m: "m \<le> 2" and pre: "map_pre a b P" "attr_ok attr" and e: "512 ^ Suc m dvd e" "e < PAGES"
    and meets: "meets (Suc m) e a b" and split: "\<not> (a \<le> e \<and> e + 512 ^ Suc m \<le> Suc b \<and> m \<le> 1)"
    and k: "get_entry_kind (tables st t i) (3 - m) \<noteq> Table" and ok: "entry_ok (sub_tree R (Suc m) (tables st)) (Suc m) (tables st t i) g"
    and t: "t \<in> live (pages st)" "good (pages st)" and fe: "get_entry_va_from_table_index first (3 - m) i = page_va (kind tbl) e"
    and ed: "edges_ok (kind tbl) (\<lambda>p. e \<le> p \<and> p < e + 512 ^ Suc m \<and> entry_block R (Suc m) (tables st) (tables st t i) p) a b"
  shows "entry_maps live good room R (Suc m) t i e st g (remapped a b P attr (entry_mapping R (Suc m) (tables st) (tables st t i))) (entry_needs (Suc m) e a b)
    (map_entry (map_range_in_table m tbl) tbl (page_va (kind tbl) a) (page_va (kind tbl) b) (of_nat (P * PAGE_BYTES)) attr t (3 - m) first i st)"
proof -
  define entry where "entry = tables st t i"
  define old where "old = entry_mapping R (Suc m) (tables st) entry"
  define rec where "rec = map_range_in_table m tbl"
  define stop where "stop = page_va (kind tbl) (e + 512 ^ Suc m - 1)"
  obtain Q where Q: "get_table_pa_from_entry entry = of_nat (Q * PAGE_BYTES)" "Q < PAGES" "unat (get_table_pa_from_entry entry) div PAGE_BYTES = Q"
    by (rule entry_page)
  define oa where "oa = snd (decode_entry entry)"
  have dec: "decode_entry entry = (of_nat (Q * PAGE_BYTES), oa)" using decode_pa [of entry] Q(1) by (simp add: oa_def prod_eq_iff)
  have g: "g = {}" using not_table_empty [OF ok] k by simp
  have lv: "3 - m \<noteq> 4" "4 - Suc m = 3 - m" by simp_all
  have no_page: "get_entry_kind entry (3 - m) \<noteq> Page" using lv(1) by (auto simp: get_entry_kind_def split: if_splits)
  have ab: "a < PAGES" "b < PAGES" using pre(1) by (simp_all add: map_pre_def)
  have fits: "e + 512 ^ Suc m \<le> PAGES" using entry_fits [OF _ e] m by simp
  have last: "table_last_page (page_va (kind tbl) e) (3 - m + 1) = ok stop" unfolding stop_def using entry_last_page [OF _ e, of "kind tbl"] m by simp
  have cond: "\<not> (3 - m = 4 \<or> (page_va (kind tbl) a \<le> page_va (kind tbl) e \<and> stop \<le> page_va (kind tbl) b \<and> 2 \<le> 3 - m))"
    using split page_va_le [OF ab(1) e(2), of "kind tbl"] page_va_le [of "e + 512 ^ Suc m - 1" b "kind tbl"] fits ab(2) m unfolding stop_def by auto
  define cont where "cont nt st2 = bindE (rec (page_va (kind tbl) a) (page_va (kind tbl) b) (of_nat (P * PAGE_BYTES)) attr nt (page_va (kind tbl) e) st2)
      (\<lambda>st. if get_entry_kind entry (3 - m) = Block then
          bindE (rec (page_va (kind tbl) e) (page_va (kind tbl) a - PAGE_BYTES) (of_nat (Q * PAGE_BYTES)) oa nt (page_va (kind tbl) e) st)
            (\<lambda>st. rec (page_va (kind tbl) b + PAGE_BYTES) stop (of_nat (Q * PAGE_BYTES) + (page_va (kind tbl) b + PAGE_BYTES - page_va (kind tbl) e)) oa nt (page_va (kind tbl) e) st)
        else ok st)" for nt st2
  have eq: "map_entry rec tbl (page_va (kind tbl) a) (page_va (kind tbl) b) (of_nat (P * PAGE_BYTES)) attr t (3 - m) first i st =
     bindE (the (alloc_fun tbl) (if get_entry_kind entry (3 - m) = Block then set_entry st t i 0 else st))
       (\<lambda>(nt, st). cont nt (set_entry st t i (the (resolve_va tbl) nt OR TABLE_MARKER)))"
    unfolding map_entry_def Let_def fe entry_def [symmetric] if_not_P [OF k [folded entry_def]] last bindE.simps if_not_P [OF cond] dec prod.case cont_def ..
  have needs: "entry_needs (Suc m) e a b = Suc (tables_needed m e a b)" by (simp add: entry_needs_def)
  have blk: "a < e + 512 ^ Suc m" "e \<le> b" "a \<le> b" using meets by (simp_all add: meets_def)
  show ?thesis
    unfolding rec_def [symmetric] eq g entry_def [symmetric] old_def [symmetric] needs
  proof (rule link_new_table [OF t(2,1) m])
    fix nt :: addr and st2 :: "'a mmu_state"
    assume n: "tree R m (tables st2) nt {nt}" "{nt} \<subseteq> live (pages st2)" "good (pages st2)" "\<And>p. mapping R m (tables st2) nt p = None"
    have "edges_ok (kind tbl) (\<lambda>p. e \<le> p \<and> p < e + 512 ^ Suc m \<and> in_block R m (tables st2) nt p) a b"
      using not_mapped_not_block [OF n(4)] by (auto simp: edges_ok_def)
    note new = maps_belowD [where live = live and good = good and st = st2, OF ih pre e n(1,2,3) this, folded rec_def]
    show "maps live good room R m nt e st2 {nt} (remapped a b P attr old) (tables_needed m e a b) (cont nt st2)"
    proof (cases "get_entry_kind entry (3 - m)")
      case Invalid
      then have none: "old p = None" for p using entry_mapping_invalid [of entry "Suc m"] by (simp add: old_def)
      have b: "\<not> get_entry_kind entry (3 - m) = Block" using Invalid by simp
      have "maps live good room R m nt e st2 {nt} (remapped a b P attr old) (tables_needed m e a b + 0) (cont nt st2)"
        unfolding cont_def if_not_P [OF b]
        by (rule maps_bind [OF new], rule maps_skip) (assumption, assumption, assumption, simp add: remapped_def n(4) none)
      then show ?thesis by simp
    next
      case Block
      have m1: "m \<le> 1" "512 ^ Suc m dvd Q"
        using ok Block Q(3) lv(2) unfolding entry_def [symmetric] by (simp_all add: entry_ok_def block_aligned_def)
      have oa: "attr_ok oa" unfolding oa_def by (rule attr_ok_decode)
      have old: "old p = Some (Q + (p - e), oa)" if "e \<le> p" "p < e + 512 ^ Suc m" for p
        using entry_mapping_leaf [of entry "Suc m"] Block page_offset [OF e(1) that] Q(3) by (simp add: old_def oa_def)
      have all: "entry_block R (Suc m) (tables st) entry p" for p using Block by (simp add: entry_block_def entry_view_def)
      have wrap: "\<not> (kind tbl = Process \<and> a = 0)" "\<not> (kind tbl = Kernel \<and> b = PAGES - 1)"
        using ed split m1 blk fits unfolding entry_def [symmetric] edges_ok_def by (auto simp: all)
      have "maps live good room R m nt e st2 {nt} (remapped a b P attr old) (tables_needed m e a b + (0 + 0)) (cont nt st2)"
        unfolding cont_def if_P [OF Block]
      proof (rule maps_bind [OF new])
        fix st3 :: "'a mmu_state" and F3
        assume t3: "tree R m (tables st3) nt F3" "F3 \<subseteq> live (pages st3)" "good (pages st3)"
          and m3: "\<And>p. e \<le> p \<Longrightarrow> p < e + 512 ^ Suc m \<Longrightarrow> mapping R m (tables st3) nt p = remapped a b P attr (mapping R m (tables st2) nt) p"
        have none: "mapping R m (tables st3) nt p = None" if "e \<le> p" "p < a" for p
          using m3 [of p] that blk(1) by (simp add: remapped_def n(4))
        have some: "mapping R m (tables st3) nt a \<noteq> None" if "e \<le> a" using m3 [of a] that blk by (simp add: remapped_def)
        show "maps live good room R m nt e st3 F3 (remapped a b P attr old) (0 + 0)
          (bindE (rec (page_va (kind tbl) e) (page_va (kind tbl) a - PAGE_BYTES) (of_nat (Q * PAGE_BYTES)) oa nt (page_va (kind tbl) e) st3)
            (\<lambda>st. rec (page_va (kind tbl) b + PAGE_BYTES) stop (of_nat (Q * PAGE_BYTES) + (page_va (kind tbl) b + PAGE_BYTES - page_va (kind tbl) e)) oa nt (page_va (kind tbl) e) st))"
        proof (rule maps_bind [OF map_low_rest [where live = live and good = good and st = st3, OF ih m1(1) e ab(1) blk(1) wrap(1) m1(2) Q(2) oa t3 none some, folded rec_def]])
          fix st4 :: "'a mmu_state" and F4
          assume t4: "tree R m (tables st4) nt F4" "F4 \<subseteq> live (pages st4)" "good (pages st4)"
            and m4: "\<And>p. e \<le> p \<Longrightarrow> p < e + 512 ^ Suc m \<Longrightarrow>
              mapping R m (tables st4) nt p = (if p < a then Some (Q + (p - e), oa) else mapping R m (tables st3) nt p)"
          have none: "mapping R m (tables st4) nt p = None" if "b < p" "p < e + 512 ^ Suc m" for p
            using m4 [of p] m3 [of p] that blk by (simp add: remapped_def n(4))
          have some: "mapping R m (tables st4) nt b \<noteq> None" if "b < e + 512 ^ Suc m" using m4 [of b] m3 [of b] that blk by (simp add: remapped_def)
          show "maps live good room R m nt e st4 F4 (remapped a b P attr old) 0
            (rec (page_va (kind tbl) b + PAGE_BYTES) stop (of_nat (Q * PAGE_BYTES) + (page_va (kind tbl) b + PAGE_BYTES - page_va (kind tbl) e)) oa nt (page_va (kind tbl) e) st4)"
            unfolding stop_def
            by (rule maps_cong [OF map_high_rest [where live = live and good = good and st = st4, OF ih m1(1) e ab(2) blk(2) wrap(2) m1(2) Q(2) oa t4 none some, folded rec_def]])
              (use m4 m3 old blk in \<open>auto simp: remapped_def n(4)\<close>)
        qed
      qed
      then show ?thesis by simp
    qed (use k no_page in \<open>simp_all add: entry_def\<close>)
  qed
qed

end

end
