(* ===== verification/Mmu_Range.thy ===== *)
theory Mmu_Range
  imports Mmu_Mapped
begin

text \<open>
  The loop of \<^verbatim>\<open>map_range_in_table\<close> over the entries of a table, the induction over the levels, and the refinement of
  \<^verbatim>\<open>map_range\<close>.
\<close>

subsection \<open>The loop over the entries\<close>

text \<open>The recursive call that the body of the loop makes.\<close>

definition below :: "nat \<Rightarrow> 'a MMUTable \<Rightarrow> 'a map_fun" where
  "below n tbl = (case n of 0 \<Rightarrow> \<lambda>_ _ _ _ _ _ _. Inl Undefined | Suc m \<Rightarrow> map_range_in_table m tbl)"

lemma edges_ok_mono: "edges_ok k B a b \<Longrightarrow> (\<And>p. B' p \<Longrightarrow> B p) \<Longrightarrow> edges_ok k B' a b"
  unfolding edges_ok_def by blast

lemma maps_after:
  assumes "reworked live good st F st1 F1" "maps live good room R n t f st1 F1 \<mu> v out" "room (pages st) \<le> room (pages st1) + u"
  shows "maps live good room R n t f st F \<mu> (u + v) out"
  using assms(2,3) reworked_trans [OF assms(1)] unfolding maps_def by fastforce

text \<open>One page needs at most one table on each level.\<close>

lemma meets_one:
  "meets n (f + i * 512 ^ n) a a \<Longrightarrow> meets n (f + j * 512 ^ n) a a \<Longrightarrow> i = j"
  using entry_of_iff [of f a n i] entry_of_iff [of f a n j] by (auto simp: meets_def)

lemma tables_needed_page: "tables_needed n f a a \<le> n"
proof (induction n arbitrary: f)
  case (Suc n)
  define I where "I = set (filter (\<lambda>i. meets (Suc n) (f + i * 512 ^ Suc n) a a) [0..<512])"
  have fin: "finite I" by (simp add: I_def)
  have "\<forall>i \<in> I. \<forall>j \<in> I. i = j" unfolding I_def set_filter using meets_one [of "Suc n" f _ a] by blast
  then have card: "card I \<le> 1" using card_le_Suc0_iff_eq [OF fin] by simp
  have "tables_needed (Suc n) f a a = (\<Sum>i \<in> I. Suc (tables_needed n (f + i * 512 ^ Suc n) a a))" by (simp add: I_def)
  also have "\<dots> \<le> card I * Suc n" using Suc.IH by (intro sum_bounded_above [THEN order_trans]) auto
  also have "\<dots> \<le> Suc n" using card by (cases "card I") auto
  finally show ?case .
qed simp

context page_source
begin

lemma map_entry_maps:
  assumes ih: "\<And>m. n = Suc m \<Longrightarrow> maps_below live good room tbl m" and n: "n \<le> 3" and pre: "map_pre a b P" "attr_ok attr"
    and e: "512 ^ n dvd e" "e < PAGES" and meets: "meets n e a b"
    and ok: "entry_ok (sub_tree R n (tables st)) n (tables st t i) g"
    and t: "t \<in> live (pages st)" "t \<notin> g" "g \<subseteq> live (pages st)" "good (pages st)"
    and fe: "get_entry_va_from_table_index first (4 - n) i = page_va (kind tbl) e"
    and ed: "edges_ok (kind tbl) (\<lambda>p. e \<le> p \<and> p < e + 512 ^ n \<and> entry_block R n (tables st) (tables st t i) p) a b"
  shows "entry_maps live good room R n t i e st g (remapped a b P attr (entry_mapping R n (tables st) (tables st t i))) (entry_needs n e a b)
    (map_entry (below n tbl) tbl (page_va (kind tbl) a) (page_va (kind tbl) b) (of_nat (P * PAGE_BYTES)) attr t (4 - n) first i st)"
proof (cases "get_entry_kind (tables st t i) (4 - n) \<noteq> Table \<and> (n = 0 \<or> (a \<le> e \<and> e + 512 ^ n \<le> Suc b \<and> n \<le> 2))")
  case True
  show ?thesis by (rule map_entry_leaf; use assms True in simp)
next
  case False
  then obtain m where m: "n = Suc m"
    by (cases n) (auto simp: get_entry_kind_def split: if_splits)
  have lv: "4 - Suc m = 3 - m" by simp
  have rec: "below (Suc m) tbl = map_range_in_table m tbl" by (simp add: below_def)
  show ?thesis
  proof (cases "get_entry_kind (tables st t i) (3 - m) = Table")
    case True
    show ?thesis unfolding m rec lv by (rule map_entry_table; use assms m True in simp)
  next
    case no: False
    have split: "\<not> (a \<le> e \<and> e + 512 ^ Suc m \<le> Suc b \<and> m \<le> 1)" using False no unfolding m lv by auto
    show ?thesis unfolding m rec lv by (rule map_entry_split; use assms m no split in simp)
  qed
qed

lemma for_each_maps:
  assumes ih: "\<And>m. n = Suc m \<Longrightarrow> maps_below live good room tbl m" and n: "n \<le> 3" and pre: "map_pre a b P" "attr_ok attr"
    and f: "512 ^ Suc n dvd f" "f < PAGES"
  shows "distinct is \<Longrightarrow> (\<And>i. i \<in> set is \<Longrightarrow> i < 512 \<and> meets n (f + i * 512 ^ n) a b) \<Longrightarrow>
    tree R n (tables st) t F \<Longrightarrow> F \<subseteq> live (pages st) \<Longrightarrow> good (pages st) \<Longrightarrow>
    edges_ok (kind tbl) (\<lambda>p. in_table n f p \<and> entry_of n f p \<in> set is \<and> in_block R n (tables st) t p) a b \<Longrightarrow>
    maps live good room R n t f st F
      (\<lambda>p. if entry_of n f p \<in> set is then remapped a b P attr (mapping R n (tables st) t) p else mapping R n (tables st) t p)
      (\<Sum>i \<in> set is. entry_needs n (f + i * 512 ^ n) a b)
      (for_each (map_entry (below n tbl) tbl (page_va (kind tbl) a) (page_va (kind tbl) b) (of_nat (P * PAGE_BYTES)) attr t (4 - n) (page_va (kind tbl) f)) is st)"
proof (induction "is" arbitrary: st F)
  case Nil
  show ?case unfolding for_each.simps by (rule maps_skip, rule Nil.prems(3), rule Nil.prems(4), rule Nil.prems(5)) simp
next
  case (Cons i "is")
  define body where "body = map_entry (below n tbl) tbl (page_va (kind tbl) a) (page_va (kind tbl) b) (of_nat (P * PAGE_BYTES)) attr t (4 - n) (page_va (kind tbl) f)"
  define e where "e = f + i * 512 ^ n"
  have i: "i < 512" "meets n e a b" "i \<notin> set is" using Cons.prems(1,2) by (simp_all add: e_def)
  note es = entry_in_space [OF n f i(1), folded e_def]
  obtain G where G: "F = insert t (\<Union> (G ` {..<512}))" "table_ok (sub_tree R n (tables st)) n (tables st t) t G"
    using Cons.prems(3) unfolding tree_iff by blast
  have idx: "p div 512 ^ n mod 512 = entry_of n f p" if "in_table n f p" for p
    using page_index [OF f(1)] that by (simp add: in_table_def entry_of_def)
  have own: "in_table n f p" "entry_of n f p = i" if "e \<le> p" "p < e + 512 ^ n" for p
    using entry_in_table [OF i(1)] that by (simp_all add: e_def)
  have gi: "entry_ok (sub_tree R n (tables st)) n (tables st t i) (G i)" "t \<notin> G i" "G i \<subseteq> live (pages st)" "t \<in> live (pages st)"
    using G Cons.prems(4) i(1) unfolding table_ok_def by auto
  have ed: "edges_ok (kind tbl) (\<lambda>p. e \<le> p \<and> p < e + 512 ^ n \<and> entry_block R n (tables st) (tables st t i) p) a b"
    by (rule edges_ok_mono [OF Cons.prems(6)]) (use own idx in \<open>auto simp: in_block_entry\<close>)
  have em: "entry_maps live good room R n t i e st (G i) (remapped a b P attr (entry_mapping R n (tables st) (tables st t i))) (entry_needs n e a b) (body i st)"
    unfolding body_def by (rule map_entry_maps [OF ih n pre es i(2) gi(1,4,2,3) Cons.prems(5) _ ed]) (simp_all add: e_def entry_va_depth [OF n])
  show ?case
    unfolding body_def [symmetric] for_each.simps
  proof (cases "body i st = Inl Panic")
    case True
    show "maps live good room R n t f st F
      (\<lambda>p. if entry_of n f p \<in> set (i # is) then remapped a b P attr (mapping R n (tables st) t) p else mapping R n (tables st) t p)
      (\<Sum>i \<in> set (i # is). entry_needs n (f + i * 512 ^ n) a b)
      (bindE (body i st) (for_each body is))" using em Cons.prems(1) unfolding True by (simp add: maps_def entry_maps_def e_def)
  next
    case False
    then obtain st1 g1 where sp: "room (pages st) \<le> room (pages st1) + entry_needs n e a b" and r: "body i st = ok st1" "entry_reworked live good t i st (G i) st1 g1" "entry_ok (sub_tree R n (tables st1)) n (tables st1 t i) g1"
        "\<And>p. e \<le> p \<Longrightarrow> p < e + 512 ^ n \<Longrightarrow> entry_mapping R n (tables st1) (tables st1 t i) p
          = remapped a b P attr (entry_mapping R n (tables st) (tables st t i)) p"
      using em unfolding entry_maps_def by blast
    define F1 where "F1 = insert t (\<Union> ((G(i := g1)) ` {..<512}))"
    note tr = tree_replace [OF G(2) Cons.prems(4) [unfolded G(1)] i(1) r(2,3), folded F1_def G(1)]
    have t1: "tree R n (tables st1) t F1" unfolding tree_iff F1_def using tr(1) by blast
    have r1: "F1 \<subseteq> live (pages st1)" "good (pages st1)" using tr(2) by (simp_all add: reworked_def)
    have keep: "mapping R n (tables st1) t p = mapping R n (tables st) t p" "in_block R n (tables st1) t p = in_block R n (tables st) t p"
      if "in_table n f p" "entry_of n f p \<noteq> i" for p
      using tr(3) [of p] idx [OF that(1)] that(2) by (simp_all add: mapping_def in_block_def)
    have new: "mapping R n (tables st1) t p = remapped a b P attr (mapping R n (tables st) t) p" if "in_table n f p" "entry_of n f p = i" for p
      using r(4) [of p] idx [OF that(1)] that entry_of_iff [of f p n i] by (simp add: mapping_entry in_table_def e_def remapped_def)
    have ed1: "edges_ok (kind tbl) (\<lambda>p. in_table n f p \<and> entry_of n f p \<in> set is \<and> in_block R n (tables st1) t p) a b"
      by (rule edges_ok_mono [OF Cons.prems(6)]) (use keep(2) i(3) in auto)
    have sums: "(\<Sum>i \<in> set (i # is). entry_needs n (f + i * 512 ^ n) a b) = entry_needs n e a b + (\<Sum>i \<in> set is. entry_needs n (f + i * 512 ^ n) a b)"
      using Cons.prems(1) by (simp add: e_def)
    have rest: "maps live good room R n t f st1 F1
      (\<lambda>p. if entry_of n f p \<in> set is then remapped a b P attr (mapping R n (tables st1) t) p else mapping R n (tables st1) t p)
      (\<Sum>i \<in> set is. entry_needs n (f + i * 512 ^ n) a b)
      (for_each body is st1)"
      unfolding body_def by (rule Cons.IH [OF _ _ t1 r1 ed1]) (use Cons.prems(1,2) in simp_all)
    show "maps live good room R n t f st F
      (\<lambda>p. if entry_of n f p \<in> set (i # is) then remapped a b P attr (mapping R n (tables st) t) p else mapping R n (tables st) t p)
      (\<Sum>i \<in> set (i # is). entry_needs n (f + i * 512 ^ n) a b)
      (bindE (body i st) (for_each body is))"
      unfolding r(1) bindE.simps sums
    proof (rule maps_cong [OF maps_after [where room = room, OF tr(2) rest sp]])
      fix p
      assume "f \<le> p" "p < f + 512 ^ Suc n"
      then have "in_table n f p" by (simp add: in_table_def)
      then show "(if entry_of n f p \<in> set is then remapped a b P attr (mapping R n (tables st1) t) p else mapping R n (tables st1) t p)
        = (if entry_of n f p \<in> set (i # is) then remapped a b P attr (mapping R n (tables st) t) p else mapping R n (tables st) t p)"
        using keep(1) [of p] new [of p] i(3) by (cases "entry_of n f p = i") (simp_all add: remapped_def)
    qed
  qed
qed

lemma map_range_level:
  assumes ih: "\<And>m. n = Suc m \<Longrightarrow> maps_below live good room tbl m" and n: "n \<le> 3"
  shows "maps_below live good room tbl n"
  unfolding maps_below_def
proof (intro allI impI)
  fix a b P attr t f and st :: "'a mmu_state" and F
  assume pre: "map_pre a b P" "attr_ok attr" and f: "512 ^ Suc n dvd f" "f < PAGES"
    and t: "tree R n (tables st) t F" "F \<subseteq> live (pages st)" "good (pages st)"
    and ed: "edges_ok (kind tbl) (\<lambda>p. f \<le> p \<and> p < f + 512 ^ Suc n \<and> in_block R n (tables st) t p) a b"
  define body where "body = map_entry (below n tbl) tbl (page_va (kind tbl) a) (page_va (kind tbl) b) (of_nat (P * PAGE_BYTES)) attr t (4 - n) (page_va (kind tbl) f)"
  have ab: "a < PAGES" "b < PAGES" using pre(1) by (simp_all add: map_pre_def)
  obtain js where js: "visit_range body (page_va (kind tbl) a) (page_va (kind tbl) b) (4 - n) (page_va (kind tbl) f) st = for_each body js st"
      "distinct js" "\<And>i. i \<in> set js \<longleftrightarrow> i < 512 \<and> meets n (f + i * 512 ^ n) a b"
    by (rule visit_range_entries [OF n f ab, where body = body and k = "kind tbl" and st = st]) (rule that)
  have eq: "map_range_in_table n tbl (page_va (kind tbl) a) (page_va (kind tbl) b) (of_nat (P * PAGE_BYTES)) attr t (page_va (kind tbl) f) st = for_each body js st"
    unfolding map_range_unfold [of n tbl "page_va (kind tbl) a"] body_def [symmetric, unfolded below_def] by (rule js(1))
  have inside: "entry_of n f p \<in> set js" if "a \<le> p" "p \<le> b" "f \<le> p" "p < f + 512 ^ Suc n" for p
  proof -
    have "entry_of n f p < 512" using page_index(2) [OF f(1) that(3,4)] by (simp add: entry_of_def)
    moreover have "f + entry_of n f p * 512 ^ n \<le> p" "p < f + entry_of n f p * 512 ^ n + 512 ^ n"
      using entry_of_iff [OF that(3), of n "entry_of n f p"] by simp_all
    ultimately show ?thesis unfolding js(3) meets_def using that by simp
  qed
  have ed': "edges_ok (kind tbl) (\<lambda>p. in_table n f p \<and> entry_of n f p \<in> set js \<and> in_block R n (tables st) t p) a b"
    by (rule edges_ok_mono [OF ed]) (simp add: in_table_def)
  have needs: "(\<Sum>i \<in> set js. entry_needs n (f + i * 512 ^ n) a b) = tables_needed n f a b"
  proof (cases n)
    case (Suc m)
    have "set js = set (filter (\<lambda>i. meets (Suc m) (f + i * 512 ^ Suc m) a b) [0..<512])" using js(3) unfolding Suc by auto
    then show ?thesis unfolding Suc tables_needed.simps by (simp add: entry_needs_def)
  qed (simp add: entry_needs_def)
  have "maps live good room R n t f st F
      (\<lambda>p. if entry_of n f p \<in> set js then remapped a b P attr (mapping R n (tables st) t) p else mapping R n (tables st) t p)
      (\<Sum>i \<in> set js. entry_needs n (f + i * 512 ^ n) a b) (for_each body js st)"
    unfolding body_def by (rule for_each_maps [OF ih n pre f js(2) _ t ed']) (use js(3) in simp_all)
  then show "maps live good room R n t f st F (remapped a b P attr (mapping R n (tables st) t)) (tables_needed n f a b)
      (map_range_in_table n tbl (page_va (kind tbl) a) (page_va (kind tbl) b) (of_nat (P * PAGE_BYTES)) attr t (page_va (kind tbl) f) st)"
    unfolding eq needs by (rule maps_cong) (use inside in \<open>auto simp: remapped_def\<close>)
qed

lemma map_range_below: "n \<le> 3 \<Longrightarrow> maps_below live good room tbl n"
proof (induction n)
  case 0
  show ?case by (rule map_range_level) simp_all
next
  case (Suc n)
  show ?case by (rule map_range_level) (use Suc in simp_all)
qed

text \<open>\<^verbatim>\<open>map_range\<close> on the whole tree.\<close>

lemma map_range_maps:
  assumes "check_va (kind tbl) va_start" "check_va (kind tbl) va_end" "pgd tbl \<noteq> 0"
    and "alloc_fun tbl \<noteq> None" "resolve_va tbl \<noteq> None" "resolve_pa tbl \<noteq> None"
    and "page_va (kind tbl) a = va_start" "page_va (kind tbl) b = va_end" "map_pre a b P" "attr_ok attr"
    and t: "tree R 3 (tables st) (pgd tbl) F" "F \<subseteq> live (pages st)" "good (pages st)"
    and ed: "edges_ok (kind tbl) (in_block R 3 (tables st) (pgd tbl)) a b"
  shows "map_range tbl va_start va_end (of_nat (P * PAGE_BYTES)) attr st = Inl Panic \<and> room (pages st) < tables_needed 3 0 a b \<or>
    (\<exists>st' F'. map_range tbl va_start va_end (of_nat (P * PAGE_BYTES)) attr st = ok (True, st')
       \<and> room (pages st) \<le> room (pages st') + tables_needed 3 0 a b \<and> tree R 3 (tables st') (pgd tbl) F' \<and> reworked live good st F st' F'
       \<and> (\<forall>p < PAGES. mapping R 3 (tables st') (pgd tbl) p = remapped a b P attr (mapping R 3 (tables st) (pgd tbl)) p))"
proof -
  have base: "page_va (kind tbl) 0 = get_base_address (kind tbl)" by (simp add: page_va_def)
  have ed': "edges_ok (kind tbl) (\<lambda>p. 0 \<le> p \<and> p < 0 + 512 ^ Suc 3 \<and> in_block R 3 (tables st) (pgd tbl) p) a b"
    by (rule edges_ok_mono [OF ed]) simp
  have "maps live good room R 3 (pgd tbl) 0 st F (remapped a b P attr (mapping R 3 (tables st) (pgd tbl))) (tables_needed 3 0 a b)
      (map_range_in_table 3 tbl (page_va (kind tbl) a) (page_va (kind tbl) b) (of_nat (P * PAGE_BYTES)) attr (pgd tbl) (page_va (kind tbl) 0) st)"
    by (rule maps_belowD [OF map_range_below assms(9,10) _ _ t ed']) simp_all
  note mp = this [unfolded assms(7,8) base]
  define out where "out = map_range_in_table 3 tbl va_start va_end (of_nat (P * PAGE_BYTES)) attr (pgd tbl) (get_base_address (kind tbl)) st"
  have eq: "map_range tbl va_start va_end (of_nat (P * PAGE_BYTES)) attr st = bindE out (\<lambda>st. ok (True, st))"
    unfolding map_range_def out_def using assms(1-6) by (simp only: not_True_eq_False simp_thms if_False)
  have all: "0 \<le> p \<and> p < 0 + 512 ^ Suc 3 \<longleftrightarrow> p < PAGES" for p :: nat by simp
  show ?thesis
  proof (cases "out = Inl Panic")
    case True
    then show ?thesis using mp unfolding out_def [symmetric] maps_def eq by simp
  next
    case False
    then show ?thesis using mp unfolding out_def [symmetric] maps_def all eq by (auto simp: bindE.simps)
  qed
qed

end

end
