(* ===== verification/Mmu_Walk.thy ===== *)
theory Mmu_Walk
  imports Mmu_Tree
begin

text \<open>
  The walk of the tables: \<^verbatim>\<open>find_entry_in_table\<close> finds the entry of a page, so that \<^verbatim>\<open>get_attr\<close> reads the mapping.
\<close>

lemma find_entry_view:
  assumes R: "R = the (resolve_pa tbl)" "\<And>e. R (get_table_pa_from_entry e) \<noteq> 0" and p: "p < PAGES"
  shows "n \<le> 3 \<Longrightarrow> (case find_entry_in_table tbl st n t (page_va k p) of
      None \<Rightarrow> view R n (tables st) t p = None
    | Some (t', i, level) \<Rightarrow> \<exists>m \<le> n. level = 4 - m \<and> i = p div 512 ^ m mod 512 \<and> view R n (tables st) t p = Some (tables st t' i, m))"
proof (induction n arbitrary: t)
  case 0
  have "get_index_in_table (page_va k p) 4 = p mod 512" using index_depth [of 0 p k] p by simp
  then show ?case
    by (auto simp: find_entry_in_table.simps [of _ _ 0] entry_view_def get_entry_kind_def Let_def split: EntryKind.splits)
next
  case (Suc n)
  define e where "e = tables st t (p div 512 ^ Suc n mod 512)"
  have idx: "get_index_in_table (page_va k p) (4 - Suc n) = p div 512 ^ Suc n mod 512" by (rule index_depth) (use Suc.prems p in simp_all)
  have v: "view R (Suc n) (tables st) t p = entry_view (sub_view R (Suc n) (tables st) p) (Suc n) e" unfolding e_def by (rule view_iff)
  have f: "find_entry_in_table tbl st (Suc n) t (page_va k p) =
      (case get_entry_kind e (4 - Suc n) of Invalid \<Rightarrow> None | Table \<Rightarrow> find_entry_in_table tbl st n (R (get_table_pa_from_entry e)) (page_va k p)
        | _ \<Rightarrow> Some (t, p div 512 ^ Suc n mod 512, 4 - Suc n))"
    unfolding find_entry_in_table.simps [of _ _ "Suc n"] Let_def idx e_def [symmetric] using R by (simp split: EntryKind.splits)
  show ?case
  proof (cases "get_entry_kind e (4 - Suc n)")
    case Table
    have "find_entry_in_table tbl st (Suc n) t (page_va k p) = find_entry_in_table tbl st n (R (get_table_pa_from_entry e)) (page_va k p)"
      "view R (Suc n) (tables st) t p = view R n (tables st) (R (get_table_pa_from_entry e)) p"
      unfolding f v using Table by (simp_all add: entry_view_def sub_view_Suc)
    then show ?thesis using Suc.IH [of "R (get_table_pa_from_entry e)"] Suc.prems by (fastforce split: option.splits)
  qed (unfold f v, auto simp: entry_view_def e_def)
qed

text \<open>\<^verbatim>\<open>get_attr\<close> gives the attributes in the mapping.\<close>

lemma get_attr_mapping:
  assumes "R = the (resolve_pa tbl)" "\<And>e. R (get_table_pa_from_entry e) \<noteq> 0" "p < PAGES" "resolve_pa tbl \<noteq> None" "pgd tbl \<noteq> 0" "kind tbl = k"
  shows "get_attr tbl st (page_va k p) = map_option snd (mapping R 3 (tables st) (pgd tbl) p)"
proof -
  have c: "check_va (kind tbl) (page_va k p)" using assms(3,6) by (auto simp: check_va_page)
  show ?thesis
    using find_entry_view [OF assms(1-3), where n = 3 and st = st and t = "pgd tbl" and k = k] assms(4,5) c
    by (auto simp: get_attr_def mapping_def page_behind_def split: option.splits)
qed

subsection \<open>The address behind a page\<close>

lemma view_aligned:
  "tree R n T t F \<Longrightarrow> n \<le> 3 \<Longrightarrow> view R n T t p = Some (e, m) \<Longrightarrow> m \<le> n \<and> (m = 0 \<or> block_aligned m e)"
proof (induction n arbitrary: t F)
  case 0
  then show ?case by (auto simp: entry_view_def split: EntryKind.splits)
next
  case (Suc n)
  define e' where "e' = T t (p div 512 ^ Suc n mod 512)"
  obtain G where "table_ok (sub_tree R (Suc n) T) (Suc n) (T t) t G" using Suc.prems(1) unfolding tree_iff by blast
  then have ok: "entry_ok (sub_tree R (Suc n) T) (Suc n) e' (G (p div 512 ^ Suc n mod 512))" by (simp add: table_ok_def e'_def)
  have v: "entry_view (sub_view R (Suc n) T p) (Suc n) e' = Some (e, m)" using Suc.prems(3) unfolding e'_def view_iff [of R "Suc n"] .
  show ?case
  proof (cases "get_entry_kind e' (3 - n)")
    case Table
    then have "tree R n T (R (get_table_pa_from_entry e')) (G (p div 512 ^ Suc n mod 512))" "view R n T (R (get_table_pa_from_entry e')) p = Some (e, m)"
      using ok v by (simp_all add: entry_ok_def entry_view_def sub_tree_Suc sub_view_Suc)
    then show ?thesis using Suc.IH [of "R (get_table_pa_from_entry e')" "G (p div 512 ^ Suc n mod 512)"] Suc.prems(2) by simp
  next
    case Page
    then show ?thesis by (simp add: get_entry_kind_def split: if_splits)
  qed (use ok v in \<open>auto simp: entry_ok_def entry_view_def\<close>)
qed

lemma page_in_block:
  assumes "m \<le> 3" "p < PAGES" "m = 0 \<or> block_aligned m e"
  shows "get_table_pa_from_entry e OR (page_va k p AND mask_of 0 (level_shift (4 - m) - 1))
    = of_nat ((unat (get_table_pa_from_entry e) div PAGE_BYTES + p mod 512 ^ m) * PAGE_BYTES)"
proof -
  define s where "s = 12 + 9 * m"
  define lo where "lo = page_va k p AND mask s"
  obtain Q where Q: "get_table_pa_from_entry e = of_nat (Q * PAGE_BYTES)" "Q < PAGES" "unat (get_table_pa_from_entry e) div PAGE_BYTES = Q"
    by (rule entry_page)
  have ps: "(2 :: nat) ^ s = PAGE_BYTES * 512 ^ m" by (simp add: s_def power_add pow512)
  have "512 ^ m dvd Q" using assms(3) Q(3) by (auto simp: block_aligned_def)
  then have "2 ^ s dvd unat (get_table_pa_from_entry e)" unfolding Q(1) pa_page(2) [OF Q(2)] ps by (simp add: mult.commute mult_dvd_mono)
  then have hi: "get_table_pa_from_entry e AND mask s = 0" by (simp add: low_bits_zero)
  have "bit (get_table_pa_from_entry e) j \<Longrightarrow> \<not> bit lo j" for j
    using arg_cong [OF hi, of "\<lambda>x. bit x j"] unfolding lo_def by (auto simp: bit_and_iff bit_mask_iff)
  then have "get_table_pa_from_entry e OR lo = get_table_pa_from_entry e + lo" by (intro disjunctive_add [symmetric]) blast
  moreover have "lo = of_nat ((p mod 512 ^ m) * PAGE_BYTES)"
  proof -
    have "s \<le> 48" using assms(1) by (simp add: s_def)
    then have d: "(2 :: nat) ^ s dvd 2 ^ 48" by (rule le_imp_power_dvd)
    have "unat (page_va k p) mod 2 ^ s = (p * PAGE_BYTES) mod 2 ^ s"
      unfolding unat_page_va [OF assms(2)] base_unat using d by (simp add: mod_add_left_eq [symmetric] dvd_imp_mod_0 del: mod_add_left_eq)
    also have "\<dots> = (p mod 512 ^ m) * PAGE_BYTES" unfolding ps by (simp add: mult.commute [of PAGE_BYTES] flip: mult_mod_left)
    finally have "unat lo = (p mod 512 ^ m) * PAGE_BYTES" by (simp add: lo_def unat_and_mask_low)
    then have "lo = of_nat ((p mod 512 ^ m) * PAGE_BYTES)" using of_nat_unat [of lo, where ?'a = "64 word"] by simp
    then show ?thesis .
  qed
  moreover have "mask_of 0 (level_shift (4 - m) - 1) = mask s" using assms(1) by (simp add: mask_of_def level_shift_depth s_def)
  ultimately show ?thesis using Q by (simp add: lo_def algebra_simps)
qed

end
