(* ===== verification/Kernel_Memory.thy ===== *)
theory Kernel_Memory
  imports Mmu_Range Mmu_Walk Page_Alloc_List Contiguous_Alloc
begin

text \<open>
  The kernel's memory (\<^verbatim>\<open>kernel/memory/kernel_internal_memory.cpp\<close>, constants of \<^verbatim>\<open>kernel/boot/mmu_utils.hpp\<close>): the page
  allocator behind the translation tables, tables of processes, sections of fresh pages and buffers. The content of a page of
  physical memory is its table of 64-bit words at its address in the direct map at \<open>KERNEL_BASE\<close>. The page allocator provides
  the contract \<open>page_source\<close> of \<open>Mmu_Mapped\<close>, so that \<^verbatim>\<open>map_range\<close> on the kernel's tables is right.
\<close>

subsection \<open>State\<close>

type_synonym kmem = "page_alloc_list mmu_state"

text \<open>The statics of the file; \<open>ttbr0\<close> is the register with the top table of the process whose memory is active, as its
  address in the direct map, 0 for none.\<close>

record kernel_memory =
  mem :: kmem
  kernel_tbl :: "page_alloc_list MMUTable"
  ttbr0 :: addr
  contiguous :: contiguous_alloc
  contiguous_start :: addr
  contiguous_stop :: addr
  custom_pages :: addr
  buffer_pages :: addr

definition VC_MEMORY :: addr where "VC_MEMORY = KERNEL_BASE + 0x100000000000"
definition CUSTOM_PAGES_MEMORY :: addr where "CUSTOM_PAGES_MEMORY = KERNEL_BASE + 0x300000000000"
definition BUFFER_MEMORY :: addr where "BUFFER_MEMORY = KERNEL_BASE + 0x400000000000"
definition HEAP_MEMORY :: addr where "HEAP_MEMORY = KERNEL_BASE + 0x500000000000"
definition RAM_FS_MEMORY :: addr where "RAM_FS_MEMORY = KERNEL_BASE + 0xa00000000000"
definition PROCESS_HEAP_BASE :: addr where "PROCESS_HEAP_BASE = PROCESS_BASE + 0x800000000000"
definition PROCESS_STACK_BASE :: addr where "PROCESS_STACK_BASE = PROCESS_BASE + 0xf00000000000"

definition custom_memory_rw :: PagesAttributes where
  "custom_memory_rw = \<lparr>sh = InnerShareable, exec = NeverExecute, rw = ReadWrite, access = Privileged, mem_type = Normal\<rparr>"

definition buffer_memory_rw :: PagesAttributes where
  "buffer_memory_rw = \<lparr>sh = OuterShareable, exec = NeverExecute, rw = ReadWrite, access = Privileged, mem_type = Device_nGnRnE\<rparr>"

subsection \<open>The functions behind the tables\<close>

definition mmu_resolve_pa :: "addr \<Rightarrow> addr" where
  "mmu_resolve_pa page_address = page_address + KERNEL_BASE"

definition mmu_resolve_va :: "addr \<Rightarrow> addr" where
  "mmu_resolve_va page_address = page_address - KERNEL_BASE"

text \<open>\<^verbatim>\<open>zero_pages(va, 1)\<close> for an address of the direct map.\<close>

definition zero_page :: "addr \<Rightarrow> 'a mmu_state \<Rightarrow> 'a mmu_state" where
  "zero_page va st = st\<lparr>tables := (tables st)(va := \<lambda>_. 0)\<rparr>"

definition fresh_page :: "kmem \<Rightarrow> (addr option \<times> kmem) outcome" where
  "fresh_page st = bindE (pal_fresh_page (pages st)) (\<lambda>(r, l). ok (map_option of_nat r, st\<lparr>pages := l\<rparr>))"

definition free_page :: "addr \<Rightarrow> kmem \<Rightarrow> kmem" where
  "free_page pa st = st\<lparr>pages := pal_free_page (pages st) (unat pa)\<rparr>"

definition mmu_alloc_page :: "kmem \<Rightarrow> (addr \<times> kmem) outcome" where
  "mmu_alloc_page st =
     bindE (fresh_page st) (\<lambda>(r, st).
       case r of
         None \<Rightarrow> Inl Panic
       | Some addr \<Rightarrow> let va = mmu_resolve_pa addr in ok (va, zero_page va st))"

definition mmu_free_page :: "addr \<Rightarrow> kmem \<Rightarrow> kmem outcome" where
  "mmu_free_page page_address st = ok (free_page (mmu_resolve_va page_address) st)"

text \<open>The tables set up in \<^verbatim>\<open>init\<close> and \<^verbatim>\<open>new_process_tbl\<close>.\<close>

definition make_tbl :: "table_kind \<Rightarrow> addr \<Rightarrow> u8 \<Rightarrow> page_alloc_list MMUTable" where
  "make_tbl k top_table number =
     \<lparr>kind = k, pgd = top_table, asid = number, alloc_fun = Some mmu_alloc_page, free_fun = Some mmu_free_page,
      resolve_pa = Some mmu_resolve_pa, resolve_va = Some mmu_resolve_va\<rparr>"

definition new_process_tbl :: "u8 \<Rightarrow> kmem \<Rightarrow> (page_alloc_list MMUTable \<times> kmem) outcome" where
  "new_process_tbl number st = bindE (mmu_alloc_page st) (\<lambda>(process_pgd, st). ok (make_tbl Process process_pgd number, st))"

definition resolve_table_pgd :: "page_alloc_list MMUTable \<Rightarrow> addr" where
  "resolve_table_pgd tbl = mmu_resolve_va (pgd tbl)"

definition delete_process_tbl :: "page_alloc_list MMUTable \<Rightarrow> kmem \<Rightarrow> (page_alloc_list MMUTable \<times> kmem) outcome" where
  "delete_process_tbl tbl st =
     bindE (clear_all tbl st) (\<lambda>st. bindE (mmu_free_page (pgd tbl) st) (\<lambda>st. ok (tbl\<lparr>pgd := 0\<rparr>, st)))"

subsection \<open>Address translation\<close>

text \<open>What the MMU does with an address: the walk of the tables and the offset inside the page or the block.\<close>

definition translate :: "'a MMUTable \<Rightarrow> 'a mmu_state \<Rightarrow> addr \<Rightarrow> (addr \<times> PagesAttributes) option" where
  "translate tbl st va =
     (case find_entry_in_table tbl st 3 (pgd tbl) va of
        None \<Rightarrow> None
      | Some (table, index, level) \<Rightarrow>
          let (pa, attr) = decode_entry (tables st table index) in Some (pa OR (va AND mask_of 0 (level_shift level - 1)), attr))"

text \<open>The result of the instruction \<^verbatim>\<open>at s1e1r\<close> or \<^verbatim>\<open>at s1e1w\<close> in \<^verbatim>\<open>PAR_EL1\<close>: bit 0 set on a fault, otherwise the frame in
  bits 12 to 47; \<open>flags\<close> stands for its attribute bits.\<close>

definition address_translate :: "u64 \<Rightarrow> 'a MMUTable \<Rightarrow> 'a mmu_state \<Rightarrow> addr \<Rightarrow> bool \<Rightarrow> u64" where
  "address_translate flags tbl st va read_only =
     (case translate tbl st va of
        None \<Rightarrow> 1
      | Some (pa, attr) \<Rightarrow>
          if \<not> read_only \<and> rw attr \<noteq> 0 then 1
          else (pa AND mask_of 12 47) OR (flags AND NOT (mask_of 12 47) AND NOT 1))"

definition resolve_kernel_va :: "u64 \<Rightarrow> 'a MMUTable \<Rightarrow> 'a mmu_state \<Rightarrow> addr \<Rightarrow> bool \<Rightarrow> addr outcome" where
  "resolve_kernel_va flags tbl st va read_only =
     (let par_el1 = address_translate flags tbl st va read_only in
      if par_el1 AND 1 \<noteq> 0 then Inl Panic
      else ok ((par_el1 AND mask_of 12 47) OR (va AND mask_of 1 11)))"

text \<open>\<^verbatim>\<open>zero_pages(va, 1)\<close> through the translation of \<open>tbl\<close>; a page that is not mapped for writing faults.\<close>

definition zero_through :: "'a MMUTable \<Rightarrow> addr \<Rightarrow> 'a mmu_state \<Rightarrow> 'a mmu_state outcome" where
  "zero_through tbl va st =
     (case translate tbl st va of
        None \<Rightarrow> Inl Undefined
      | Some (pa, attr) \<Rightarrow> if rw attr \<noteq> 0 then Inl Undefined else ok (zero_page (pa + KERNEL_BASE) st))"

text \<open>The table that translates an address: the kernel's one for the upper half, the active process's for the lower half.\<close>

definition table_for :: "kernel_memory \<Rightarrow> addr \<Rightarrow> page_alloc_list MMUTable" where
  "table_for k va = (if va AND TTBR_MASK = KERNEL_BASE then kernel_tbl k else make_tbl Process (ttbr0 k) 0)"

definition zero_at :: "addr \<Rightarrow> kernel_memory \<Rightarrow> kernel_memory outcome" where
  "zero_at va k = bindE (zero_through (table_for k va) va (mem k)) (\<lambda>st. ok (k\<lparr>mem := st\<rparr>))"

subsection \<open>Sections and buffers\<close>

text \<open>\<^verbatim>\<open>mark_as_used_range\<close>: the contiguous allocator is told the offset of the part inside its memory and a number of pages,
  which it takes for the last address.\<close>

definition kernel_mark_as_used_range :: "addr \<Rightarrow> addr \<Rightarrow> kernel_memory \<Rightarrow> kernel_memory outcome" where
  "kernel_mark_as_used_range start stop k =
     (if stop \<le> start then ok k
      else
        bindE (if contiguous_start k < stop \<and> start < contiguous_stop k then
                 let page_start = max_k start (contiguous_start k) - contiguous_start k;
                     page_stop = min_k stop (contiguous_stop k) - contiguous_start k
                 in bindE (ca_mark_as_used (contiguous k) (unat page_start) (unat (div_round_up (page_stop - page_start + 1) PAGE_BYTES)))
                      (\<lambda>c. ok (k\<lparr>contiguous := c\<rparr>))
               else ok k)
          (\<lambda>k. ok (k\<lparr>mem := (mem k)\<lparr>pages := pal_mark_as_used_range (pages (mem k)) (unat start) (unat stop)\<rparr>\<rparr>)))"

text \<open>\<^verbatim>\<open>allocate_pages_section\<close>; the result 0 is a failure. The physical pages are those stored in \<^verbatim>\<open>pages_ptr\<close> so far.\<close>

fun section_pages :: "nat \<Rightarrow> addr list \<Rightarrow> kernel_memory \<Rightarrow> (bool \<times> addr list \<times> kernel_memory) outcome" where
  "section_pages 0 pas k = ok (True, pas, k)"
| "section_pages (Suc n) pas k =
     bindE (fresh_page (mem k)) (\<lambda>(r, st).
       case r of
         None \<Rightarrow> ok (False, pas, k\<lparr>mem := st\<rparr>)
       | Some pa \<Rightarrow>
           bindE (map_range (kernel_tbl k) (custom_pages k) (custom_pages k) pa custom_memory_rw st) (\<lambda>(mapped, st).
             if \<not> mapped then ok (False, pas @ [pa], k\<lparr>mem := st\<rparr>)
             else
               bindE (zero_at (custom_pages k) (k\<lparr>mem := st\<rparr>)) (\<lambda>k.
                 section_pages n (pas @ [pa]) (k\<lparr>custom_pages := custom_pages k + PAGE_BYTES\<rparr>))))"

definition allocate_pages_section :: "nat \<Rightarrow> kernel_memory \<Rightarrow> (addr \<times> addr list \<times> kernel_memory) outcome" where
  "allocate_pages_section nb_pages k =
     (let section_start_va = custom_pages k in
      bindE (section_pages nb_pages [] k) (\<lambda>(done, pas, k).
        if done then ok (section_start_va, pas, k\<lparr>custom_pages := custom_pages k + PAGE_BYTES\<rparr>)
        else ok (0, pas, k)))"

definition free_section :: "nat \<Rightarrow> addr \<Rightarrow> addr list \<Rightarrow> kernel_memory \<Rightarrow> kernel_memory outcome" where
  "free_section nb_pages kernel_va pas k =
     bindE (unmap_range (kernel_tbl k) kernel_va (kernel_va + (of_nat nb_pages - 1) * PAGE_BYTES) (mem k)) (\<lambda>(unmapped, st).
       if \<not> unmapped then Inl Panic else ok (k\<lparr>mem := fold free_page (take nb_pages pas) st\<rparr>))"

definition allocate_buffer_pa :: "nat \<Rightarrow> kernel_memory \<Rightarrow> ((addr \<times> addr) option \<times> kernel_memory) outcome" where
  "allocate_buffer_pa nb_pages k =
     bindE (ca_fresh_pages (contiguous k) nb_pages) (\<lambda>(r, c).
       ok (map_option (\<lambda>(s, e). (of_nat s + contiguous_start k, of_nat e + contiguous_start k)) r, k\<lparr>contiguous := c\<rparr>))"

definition free_buffer_pa :: "addr \<Rightarrow> addr \<Rightarrow> kernel_memory \<Rightarrow> kernel_memory outcome" where
  "free_buffer_pa buffer_start buffer_end k =
     bindE (ca_free_pages (contiguous k) (unat (buffer_start - contiguous_start k)) (unat (buffer_end - contiguous_start k)))
       (\<lambda>c. ok (k\<lparr>contiguous := c\<rparr>))"

definition map_buffer :: "addr \<Rightarrow> addr \<Rightarrow> kernel_memory \<Rightarrow> (addr \<times> kernel_memory) outcome" where
  "map_buffer buffer_start buffer_end k =
     (let buffer_va_start = buffer_pages k;
          buffer_va_end = buffer_pages k + buffer_end - buffer_start in
      bindE (map_range (kernel_tbl k) buffer_va_start buffer_va_end buffer_start buffer_memory_rw (mem k)) (\<lambda>(mapped, st).
        if \<not> mapped then Inl Panic
        else ok (buffer_va_start, k\<lparr>mem := st, buffer_pages := buffer_va_end + PAGE_BYTES\<rparr>)))"

definition unmap_buffer :: "addr \<Rightarrow> addr \<Rightarrow> kernel_memory \<Rightarrow> kernel_memory outcome" where
  "unmap_buffer buffer_start buffer_end k =
     bindE (unmap_range (kernel_tbl k) buffer_start buffer_end (mem k)) (\<lambda>(unmapped, st).
       if \<not> unmapped then Inl Panic else ok (k\<lparr>mem := st\<rparr>))"

subsection \<open>The allocator of pages for the tables\<close>

text \<open>The pages of physical memory in use, by their address in the direct map, and the invariant of the allocator: its pages
  are below \<open>2 ^ 48\<close>.\<close>

definition in_use :: "page_alloc_list \<Rightarrow> addr set" where
  "in_use l = {t. \<exists>q < PAGES. t = page_va Kernel q \<and> q * PAGE_BYTES \<notin> pal_free_set l}"

definition pages_ok :: "page_alloc_list \<Rightarrow> bool" where
  "pages_ok l \<longleftrightarrow> pal_inv l \<and> (\<forall>a \<in> pal_managed l. \<exists>q < PAGES. a = q * PAGE_BYTES)"

definition pages_left :: "page_alloc_list \<Rightarrow> nat" where
  "pages_left l = card (pal_free_set l)"

lemma free_finite: "pages_ok l \<Longrightarrow> finite (pal_free_set l)"
proof -
  assume l: "pages_ok l"
  have "pal_free_set l \<subseteq> (\<lambda>q. q * PAGE_BYTES) ` {..<PAGES}"
    using pal.free_managed [of l] l unfolding pages_ok_def by auto
  then show ?thesis by (rule finite_subset) simp
qed

lemma page_va_inj: "p < PAGES \<Longrightarrow> q < PAGES \<Longrightarrow> page_va k p = page_va k q \<longleftrightarrow> p = q"
  using page_va_le [of p q k] page_va_le [of q p k] by auto

lemma resolve_page: "mmu_resolve_va (page_va Kernel q) = of_nat (q * PAGE_BYTES)" "mmu_resolve_pa (of_nat (q * PAGE_BYTES)) = page_va Kernel q"
  by (simp_all add: mmu_resolve_va_def mmu_resolve_pa_def page_va_def get_base_address_def)

text \<open>A fresh page is either refused, when none is free, or becomes in use.\<close>

lemma fresh_page_cases:
  assumes "pages_ok (pages st)"
  obtains "fresh_page st = ok (None, st)" "pages_left (pages st) = 0"
  | q st' where "fresh_page st = ok (Some (of_nat (q * PAGE_BYTES)), st')" "q < PAGES" "q * PAGE_BYTES \<in> pal_free_set (pages st)"
      "pages_ok (pages st')" "page_va Kernel q \<notin> in_use (pages st)" "in_use (pages st') = insert (page_va Kernel q) (in_use (pages st))"
      "tables st' = tables st" "pages_left (pages st) = Suc (pages_left (pages st'))"
proof -
  have inv: "pal_inv (pages st)" using assms by (simp add: pages_ok_def)
  consider "pal_fresh_page (pages st) = Inr (None, pages st)" "pal_free_set (pages st) = {}"
    | a l where "a \<in> pal_free_set (pages st)" "pal_fresh_page (pages st) = Inr (Some a, l)" "pal_inv l"
        "pal_managed l = pal_managed (pages st)" "pal_free_set l = pal_free_set (pages st) - {a}"
    using pal.fresh_cases [OF inv] by blast
  then show thesis
  proof cases
    case 1
    then show ?thesis using that(1) by (simp add: fresh_page_def pages_left_def)
  next
    case 2
    have "a \<in> pal_managed (pages st)" using pal.free_managed [OF inv] 2(1) by blast
    then obtain q where q: "q < PAGES" "a = q * PAGE_BYTES" using assms by (auto simp: pages_ok_def)
    have "in_use l = insert (page_va Kernel q) (in_use (pages st))"
      using q 2(1,5) unfolding in_use_def by (auto simp: page_va_inj)
    moreover have "page_va Kernel q \<notin> in_use (pages st)" using q 2(1) by (auto simp: in_use_def page_va_inj)
    moreover have "pages_ok l" using assms 2(3,4) by (simp add: pages_ok_def)
    moreover have "pages_left (pages st) = Suc (pages_left l)"
      unfolding pages_left_def 2(5) using card.remove [OF free_finite [OF assms] 2(1)] .
    ultimately show ?thesis using that(2) [of q "st\<lparr>pages := l\<rparr>"] 2(1,2) q by (simp add: fresh_page_def)
  qed
qed

lemma make_tbl_simps [simp]:
  "kind (make_tbl k top_table number) = k" "pgd (make_tbl k top_table number) = top_table" "asid (make_tbl k top_table number) = number"
  "alloc_fun (make_tbl k top_table number) = Some mmu_alloc_page" "free_fun (make_tbl k top_table number) = Some mmu_free_page"
  "resolve_pa (make_tbl k top_table number) = Some mmu_resolve_pa" "resolve_va (make_tbl k top_table number) = Some mmu_resolve_va"
  by (simp_all add: make_tbl_def)

interpretation table_pages: page_source "make_tbl k top_table number" in_use pages_ok pages_left
proof
  fix st :: kmem
  assume good: "pages_ok (pages st)"
  show "(the (alloc_fun (make_tbl k top_table number)) st = Inl Panic \<and> pages_left (pages st) = 0) \<or>
      (\<exists>t st'. the (alloc_fun (make_tbl k top_table number)) st = ok (t, st') \<and> pages_left (pages st) = Suc (pages_left (pages st')) \<and> pages_ok (pages st') \<and> t \<notin> in_use (pages st)
         \<and> in_use (pages st') = insert t (in_use (pages st)) \<and> tables st' = (tables st)(t := \<lambda>_. 0)
         \<and> pa_ok (the (resolve_va (make_tbl k top_table number)) t)
         \<and> the (resolve_pa (make_tbl k top_table number)) (the (resolve_va (make_tbl k top_table number)) t) = t)"
  proof (cases rule: fresh_page_cases [OF good])
    case 1
    then show ?thesis by (simp add: mmu_alloc_page_def)
  next
    case (2 q st')
    then show ?thesis
      using pa_page(1) [OF 2(2)] resolve_page [of q] by (simp add: mmu_alloc_page_def zero_page_def pa_ok_def Let_def)
  qed
qed

subsection \<open>Mapping a range of the kernel's or a process's memory\<close>

definition tables_ok :: "page_alloc_list MMUTable \<Rightarrow> kmem \<Rightarrow> addr set \<Rightarrow> bool" where
  "tables_ok tbl st F \<longleftrightarrow> pages_ok (pages st) \<and> F \<subseteq> in_use (pages st) \<and> tree mmu_resolve_pa 3 (tables st) (pgd tbl) F"

definition page_map :: "page_alloc_list MMUTable \<Rightarrow> kmem \<Rightarrow> nat \<Rightarrow> (nat \<times> PagesAttributes) option" where
  "page_map tbl st = mapping mmu_resolve_pa 3 (tables st) (pgd tbl)"

definition block_pages :: "page_alloc_list MMUTable \<Rightarrow> kmem \<Rightarrow> nat \<Rightarrow> bool" where
  "block_pages tbl st = in_block mmu_resolve_pa 3 (tables st) (pgd tbl)"

lemma map_range_kernel:
  assumes tbl: "tbl = make_tbl k top_table number" and "top_table \<noteq> 0" and pre: "map_pre a b P" "attr_ok attr"
    and ok: "tables_ok tbl st F" and ed: "edges_ok k (block_pages tbl st) a b"
  shows "map_range tbl (page_va k a) (page_va k b) (of_nat (P * PAGE_BYTES)) attr st = Inl Panic \<and> pages_left (pages st) < tables_needed 3 0 a b \<or>
    (\<exists>st' F'. map_range tbl (page_va k a) (page_va k b) (of_nat (P * PAGE_BYTES)) attr st = ok (True, st')
       \<and> pages_left (pages st) \<le> pages_left (pages st') + tables_needed 3 0 a b \<and> tables_ok tbl st' F'
       \<and> reworked in_use pages_ok st F st' F' \<and> (\<forall>p < PAGES. page_map tbl st' p = remapped a b P attr (page_map tbl st) p))"
proof -
  have va: "check_va k (page_va k a)" "check_va k (page_va k b)" using pre(1) by (auto simp: check_va_page map_pre_def)
  show ?thesis
    using table_pages.map_range_maps [of k top_table number "page_va k a" "page_va k b" a b P attr st F] assms(2) pre va ok ed
    unfolding tbl tables_ok_def page_map_def block_pages_def by (auto simp: reworked_def)
qed

subsection \<open>Fresh pages in an address space\<close>

lemma resolve_pa_not_null: "mmu_resolve_pa (get_table_pa_from_entry e) \<noteq> 0"
proof -
  obtain q where q: "get_table_pa_from_entry e = of_nat (q * PAGE_BYTES)" "q < PAGES" by (rule entry_page)
  have "unat (page_va Kernel q) \<noteq> 0" unfolding unat_page_va [OF q(2)] base_unat by simp
  then have "page_va Kernel q \<noteq> 0" by (metis unat_0)
  then show ?thesis unfolding q(1) resolve_page(2) .
qed

lemma translate_page:
  assumes tbl: "tbl = make_tbl k top_table number" and ok: "tables_ok tbl st F" and p: "p < PAGES"
  shows "translate tbl st (page_va k p) = map_option (\<lambda>(q, attr). (of_nat (q * PAGE_BYTES), attr)) (page_map tbl st p)"
proof -
  have R: "mmu_resolve_pa = the (resolve_pa tbl)" by (simp add: tbl)
  note w = find_entry_view [OF R resolve_pa_not_null p, where n = 3 and st = st and t = "pgd tbl" and k = k]
  show ?thesis
  proof (cases "find_entry_in_table tbl st 3 (pgd tbl) (page_va k p)")
    case None
    then show ?thesis using w by (simp add: translate_def page_map_def mapping_def)
  next
    case (Some r)
    obtain t i level where r: "r = (t, i, level)" by (cases r)
    define e where "e = tables st t i"
    obtain m where m: "level = 4 - m" "view mmu_resolve_pa 3 (tables st) (pgd tbl) p = Some (e, m)"
      using w unfolding Some r e_def by auto
    have "m \<le> 3 \<and> (m = 0 \<or> block_aligned m e)" using view_aligned [OF _ _ m(2)] ok by (auto simp: tables_ok_def)
    then have "get_table_pa_from_entry e OR (page_va k p AND mask_of 0 (level_shift level - 1))
        = of_nat ((unat (get_table_pa_from_entry e) div PAGE_BYTES + p mod 512 ^ m) * PAGE_BYTES)"
      unfolding m(1) by (intro page_in_block [OF _ p]) simp_all
    moreover obtain attr where "decode_entry e = (get_table_pa_from_entry e, attr)" using decode_pa [of e] by (metis prod.collapse)
    ultimately show ?thesis
      using Some r m(2) unfolding translate_def page_map_def mapping_def
      by (simp add: e_def [symmetric] page_behind_def decode_pa split: prod.splits)
  qed
qed

text \<open>The step of the loops that extend an address space: the virtual page \<open>p\<close> goes to a fresh page, which is cleared.\<close>

definition gains :: "page_alloc_list MMUTable \<Rightarrow> PagesAttributes \<Rightarrow> nat \<Rightarrow> nat \<Rightarrow> kmem \<Rightarrow> addr set \<Rightarrow> kmem \<Rightarrow> addr set \<Rightarrow> bool" where
  "gains tbl attr p q st F st' F' \<longleftrightarrow> tables_ok tbl st' F' \<and> q < PAGES \<and> q * PAGE_BYTES \<in> pal_free_set (pages st)
     \<and> pages_left (pages st) \<le> pages_left (pages st') + 4 \<and> in_use (pages st) \<subseteq> in_use (pages st') \<and> page_va Kernel q \<in> in_use (pages st') - F'
     \<and> tables st' (page_va Kernel q) = (\<lambda>_. 0) \<and> F' \<inter> in_use (pages st) \<subseteq> F \<and> (\<forall>u \<in> in_use (pages st) - F. tables st' u = tables st u)
     \<and> (\<forall>x < PAGES. page_map tbl st' x = ((page_map tbl st)(p := Some (q, attr))) x)"

lemma page_map_frame: "tables_ok tbl st F \<Longrightarrow> (\<And>u. u \<in> F \<Longrightarrow> tables st' u = tables st u) \<Longrightarrow> page_map tbl st' p = page_map tbl st p"
  unfolding tables_ok_def page_map_def mapping_def using view_frame by metis

lemma map_fresh_page:
  assumes tbl: "tbl = make_tbl k top_table number" "top_table \<noteq> 0" and ok: "tables_ok tbl st F" and p: "p < PAGES"
    and edge: "edges_ok k (block_pages tbl st) p p" and room: "4 \<le> pages_left (pages st)" and attr: "attr_ok attr" "rw attr = 0"
  obtains q st1 st2 st3 F' where "fresh_page st = ok (Some (of_nat (q * PAGE_BYTES)), st1)"
    "map_range tbl (page_va k p) (page_va k p) (of_nat (q * PAGE_BYTES)) attr st1 = ok (True, st2)"
    "\<And>tbl'. translate tbl' st2 = translate tbl st2 \<Longrightarrow> zero_through tbl' (page_va k p) st2 = ok st3" "gains tbl attr p q st F st3 F'"
proof -
  have good: "pages_ok (pages st)" and F: "F \<subseteq> in_use (pages st)" using ok by (simp_all add: tables_ok_def)
  show thesis
  proof (cases rule: fresh_page_cases [OF good])
    case 1
    then show ?thesis using room by simp
  next
    case (2 q st1)
    have ok1: "tables_ok tbl st1 F" using ok 2 by (auto simp: tables_ok_def)
    have pm1: "page_map tbl st1 = page_map tbl st" "block_pages tbl st1 = block_pages tbl st" by (simp_all add: page_map_def block_pages_def 2(7))
    have pre: "map_pre p p q" using p 2(2) by (auto simp: map_pre_def)
    have "tables_needed 3 0 p p \<le> 3" by (rule tables_needed_page)
    then have need: "\<not> pages_left (pages st1) < tables_needed 3 0 p p" using room 2(8) by simp
    obtain st2 F' where r: "map_range tbl (page_va k p) (page_va k p) (of_nat (q * PAGE_BYTES)) attr st1 = ok (True, st2)"
        "pages_left (pages st1) \<le> pages_left (pages st2) + 3" "tables_ok tbl st2 F'" "reworked in_use pages_ok st1 F st2 F'"
        "\<And>x. x < PAGES \<Longrightarrow> page_map tbl st2 x = remapped p p q attr (page_map tbl st) x"
      using map_range_kernel [OF tbl pre attr(1) ok1 edge [folded pm1(2)]] need \<open>tables_needed 3 0 p p \<le> 3\<close> unfolding pm1 by fastforce
    have new: "page_va Kernel q \<in> in_use (pages st1)" "page_va Kernel q \<notin> F" using 2(5,6) F by auto
    then have q2: "page_va Kernel q \<in> in_use (pages st2)" "page_va Kernel q \<notin> F'" using r(4) by (auto simp: reworked_def)
    define st3 where "st3 = zero_page (page_va Kernel q) st2"
    have pa: "of_nat (q * PAGE_BYTES) + KERNEL_BASE = page_va Kernel q" by (simp add: page_va_def get_base_address_def)
    have "translate tbl st2 (page_va k p) = Some (of_nat (q * PAGE_BYTES), attr)"
      using translate_page [OF tbl(1) r(3) p] r(5) [OF p] by (simp add: remapped_def)
    then have zero: "zero_through tbl' (page_va k p) st2 = ok st3" if "translate tbl' st2 = translate tbl st2" for tbl'
      using that attr(2) pa by (simp add: zero_through_def st3_def)
    have same: "tables st3 u = tables st2 u" if "u \<in> F'" for u using that q2(2) by (auto simp: st3_def zero_page_def)
    have ok3: "tables_ok tbl st3 F'"
      using r(3) tree_frame [of mmu_resolve_pa 3 "tables st2" "pgd tbl" F' "tables st3", OF _ same] by (simp add: tables_ok_def st3_def zero_page_def)
    have "page_map tbl st3 x = ((page_map tbl st)(p := Some (q, attr))) x" if "x < PAGES" for x
      using page_map_frame [OF r(3) same] r(5) [OF that] by (auto simp: remapped_def)
    moreover have "tables st3 u = tables st u" if "u \<in> in_use (pages st) - F" for u
      using that 2(5,6,7) r(4) by (auto simp: st3_def zero_page_def reworked_def)
    ultimately have "gains tbl attr p q st F st3 F'"
      using ok3 2 r(2,4) q2 F unfolding gains_def by (auto simp: st3_def zero_page_def reworked_def)
    then show ?thesis using that 2(1) r(1) zero by blast
  qed
qed

text \<open>The same for several pages in a row.\<close>

primrec extends :: "page_alloc_list MMUTable \<Rightarrow> PagesAttributes \<Rightarrow> nat \<Rightarrow> nat list \<Rightarrow> kmem \<Rightarrow> addr set \<Rightarrow> kmem \<Rightarrow> addr set \<Rightarrow> bool" where
  "extends tbl attr p [] st F st' F' \<longleftrightarrow> st' = st \<and> F' = F"
| "extends tbl attr p (q # qs) st F st' F' \<longleftrightarrow> (\<exists>st1 F1. gains tbl attr p q st F st1 F1 \<and> extends tbl attr (Suc p) qs st1 F1 st' F')"

definition extended :: "page_alloc_list MMUTable \<Rightarrow> PagesAttributes \<Rightarrow> nat \<Rightarrow> nat list \<Rightarrow> kmem \<Rightarrow> addr set \<Rightarrow> kmem \<Rightarrow> addr set \<Rightarrow> bool" where
  "extended tbl attr p qs st F st' F' \<longleftrightarrow> tables_ok tbl st' F' \<and> distinct qs
     \<and> (\<forall>q \<in> set qs. q < PAGES \<and> q * PAGE_BYTES \<in> pal_free_set (pages st) \<and> tables st' (page_va Kernel q) = (\<lambda>_. 0)
         \<and> page_va Kernel q \<in> in_use (pages st') - F')
     \<and> (\<forall>x < PAGES. page_map tbl st' x = (if p \<le> x \<and> x < p + length qs then Some (qs ! (x - p), attr) else page_map tbl st x))
     \<and> (\<forall>u \<in> in_use (pages st) - F. tables st' u = tables st u) \<and> in_use (pages st) \<subseteq> in_use (pages st') \<and> F' \<inter> in_use (pages st) \<subseteq> F
     \<and> pages_left (pages st) \<le> pages_left (pages st') + 4 * length qs"

lemma in_use_free:
  assumes "pages_ok l'" "in_use l \<subseteq> in_use l'" "a \<in> pal_free_set l'"
  shows "a \<in> pal_free_set l"
proof (rule ccontr)
  assume n: "a \<notin> pal_free_set l"
  have "a \<in> pal_managed l'" using pal.free_managed [of l'] assms(1,3) by (auto simp: pages_ok_def)
  then obtain q where q: "q < PAGES" "a = q * PAGE_BYTES" using assms(1) by (auto simp: pages_ok_def)
  then have "page_va Kernel q \<in> in_use l'" using n assms(2) by (auto simp: in_use_def)
  then show False using q assms(3) by (auto simp: in_use_def page_va_inj)
qed

lemma extends_extended:
  "extends tbl attr p qs st F st' F' \<Longrightarrow> tables_ok tbl st F \<Longrightarrow> extended tbl attr p qs st F st' F'"
proof (induction qs arbitrary: p st F)
  case Nil
  then show ?case by (auto simp: extended_def tables_ok_def)
next
  case (Cons q qs)
  then obtain st1 F1 where g: "gains tbl attr p q st F st1 F1" and e: "extends tbl attr (Suc p) qs st1 F1 st' F'" by auto
  note G = g [unfolded gains_def]
  have ok1: "tables_ok tbl st1 F1" using G by blast
  note E = Cons.IH [OF e ok1, unfolded extended_def]
  have q1: "page_va Kernel q \<in> in_use (pages st1) - F1" using G by blast
  have qf: "q * PAGE_BYTES \<notin> pal_free_set (pages st1)" using q1 G by (auto simp: in_use_def page_va_inj)
  have free: "a \<in> pal_free_set (pages st)" if "a \<in> pal_free_set (pages st1)" for a
    using in_use_free [of "pages st1" "pages st" a] G that ok1 by (simp add: tables_ok_def)
  have "tables st' (page_va Kernel q) = (\<lambda>_. 0)" using E q1 G by simp
  moreover have "distinct (q # qs)" using E qf by auto
  moreover have "tables st' u = tables st u" if "u \<in> in_use (pages st) - F" for u
  proof -
    have "u \<in> in_use (pages st1) - F1" using that G by blast
    then show ?thesis using E G that by simp
  qed
  moreover have "page_map tbl st' x = (if p \<le> x \<and> x < p + length (q # qs) then Some ((q # qs) ! (x - p), attr) else page_map tbl st x)" if "x < PAGES" for x
  proof -
    have "page_map tbl st1 x = ((page_map tbl st)(p := Some (q, attr))) x" using G that by blast
    moreover have "page_map tbl st' x = (if Suc p \<le> x \<and> x < Suc p + length qs then Some (qs ! (x - Suc p), attr) else page_map tbl st1 x)"
      using E that by blast
    ultimately show ?thesis by (cases "x = p") (auto simp: nth_Cons' Suc_diff_Suc)
  qed
  moreover have "F' \<inter> in_use (pages st) \<subseteq> F" "in_use (pages st) \<subseteq> in_use (pages st')" using E G by blast+
  moreover have "pages_left (pages st) \<le> pages_left (pages st') + 4 * length (q # qs)" using E G by simp
  moreover have "\<forall>x \<in> set (q # qs). x < PAGES \<and> x * PAGE_BYTES \<in> pal_free_set (pages st)" using E G free by simp
  moreover have "page_va Kernel q \<in> in_use (pages st') - F'" using q1 E by blast
  ultimately show ?case using E unfolding extended_def by simp
qed

text \<open>The table that translates the pages of \<open>tbl\<close>.\<close>

definition active :: "page_alloc_list MMUTable \<Rightarrow> kernel_memory \<Rightarrow> bool" where
  "active tbl k \<longleftrightarrow> (case kind tbl of Kernel \<Rightarrow> kernel_tbl k = tbl | Process \<Rightarrow> ttbr0 k = pgd tbl)"

lemma find_entry_cong:
  "resolve_pa tbl' = resolve_pa tbl \<Longrightarrow> find_entry_in_table tbl' st n t va = find_entry_in_table tbl st n t va"
proof (induction n arbitrary: t)
  case 0
  show ?case unfolding find_entry_in_table.simps [of _ _ 0] Let_def nat.case ..
next
  case (Suc n)
  then show ?case unfolding find_entry_in_table.simps [of _ _ "Suc n"] Let_def nat.case Suc.prems by (simp only:)
qed

lemma translate_active:
  assumes tbl: "tbl = make_tbl kd top_table number" and a: "active tbl k" and p: "p < PAGES"
  shows "translate (table_for k (page_va kd p)) st = translate tbl st"
proof -
  have "page_va kd p AND TTBR_MASK = get_base_address kd" using check_va_page [of kd "page_va kd p"] p by (auto simp: check_va_def)
  then have eq: "pgd (table_for k (page_va kd p)) = pgd tbl \<and> resolve_pa (table_for k (page_va kd p)) = resolve_pa tbl"
    using a tbl by (cases kd) (simp_all add: table_for_def active_def get_base_address_def)
  show ?thesis unfolding translate_def [abs_def] conjunct1 [OF eq] find_entry_cong [OF conjunct2 [OF eq]] ..
qed

subsection \<open>Properties\<close>

text \<open>
  C27. Mapping a range: on a well-formed tree of tables of the kernel or of a process, \<^verbatim>\<open>map_range\<close> succeeds as long as the
  allocator has a page for every entry above the pages that the range meets; it then changes the mapping of the pages of the
  range, and of no other page, to the physical pages from \<open>P\<close> on with the attributes given, splitting the blocks that the range
  covers only partly, keeps the tree well formed and leaves the other pages in use alone. Otherwise the kernel panics. The range
  has to satisfy two conditions that the code does not test. A range of 512 pages or more starts at the same place of a
  2 MiB block in the address space and in the physical memory, and one of \<open>512 * 512\<close> pages or more at the same place of a 1 GiB
  block (\<open>map_pre\<close>), for the blocks it is mapped with must be aligned. And at the two ends of the 64-bit range, where the
  neighbour of the range wraps around, the range must not start or end in a block (\<open>edges_ok\<close>).
\<close>

theorem map_range_updates_the_mapping:
  assumes "tbl = make_tbl k top_table number" and "top_table \<noteq> 0" and "map_pre a b P" and "attr_ok attr"
    and "tables_ok tbl st F" and "edges_ok k (block_pages tbl st) a b"
  shows "map_range tbl (page_va k a) (page_va k b) (of_nat (P * PAGE_BYTES)) attr st = Inl Panic
      \<and> pages_left (pages st) < tables_needed 3 0 a b
    \<or> (\<exists>st' F'. map_range tbl (page_va k a) (page_va k b) (of_nat (P * PAGE_BYTES)) attr st = ok (True, st')
       \<and> tables_ok tbl st' F' \<and> reworked in_use pages_ok st F st' F'
       \<and> (\<forall>p < PAGES. page_map tbl st' p = (if a \<le> p \<and> p \<le> b then Some (P + (p - a), attr) else page_map tbl st p)))"
  using map_range_kernel [OF assms] unfolding remapped_def by blast

text \<open>A memory with eight free pages and an empty table of a process.\<close>

definition example_pages :: page_alloc_list where
  "example_pages =
     \<lparr>contiguous_res_start = 0, contiguous_res_stop = 0,
      sections = [\<lparr>section_start = 4096, section_stop = 9 * 4096, alloc = PageAlloc 8 (Some (\<lambda>_. 0))\<rparr>]\<rparr>"

definition example_mem :: kmem where
  "example_mem = \<lparr>tables = \<lambda>_ _. 0, pages = example_pages\<rparr>"

definition example_tbl :: "page_alloc_list MMUTable" where
  "example_tbl = make_tbl Process KERNEL_BASE 1"

lemma example_free: "pal_free_set example_pages = (\<lambda>i. Suc i * 4096) ` {..<8}" "pal_managed example_pages = (\<lambda>i. Suc i * 4096) ` {..<8}"
proof -
  have m: "pa_managed (PageAlloc 8 (Some (\<lambda>_. 0))) = (\<lambda>i. i * 4096) ` {..<8}"
    by (auto simp: pa_managed_def PageAlloc_def PAGE_SIZE_def)
  then show "pal_free_set example_pages = (\<lambda>i. Suc i * 4096) ` {..<8}" "pal_managed example_pages = (\<lambda>i. Suc i * 4096) ` {..<8}"
    using PageAlloc_correct(2) [of 8 "\<lambda>_. 0"]
    by (simp_all add: pal_free_set_def pal_managed_def section_views example_pages_def image_image add.commute)
qed

lemma example_ok: "pages_ok example_pages" "pages_left example_pages = 8" "tables_ok example_tbl example_mem {KERNEL_BASE}"
proof -
  have "pal_inv example_pages"
    using PageAlloc_correct(1) [of 8 "\<lambda>_. 0"]
    by (simp add: pal_inv_def example_pages_def section_inv_def sections_disjoint_def extents_def PageAlloc_def PAGE_SIZE_def)
  moreover have "\<exists>q < PAGES. Suc i * PAGE_BYTES = q * PAGE_BYTES" if "i < 8" for i using that by (intro exI [of _ "Suc i"]) simp
  ultimately show ok: "pages_ok example_pages" unfolding pages_ok_def example_free by blast
  show "pages_left example_pages = 8" unfolding pages_left_def example_free by (subst card_image) (auto simp: inj_on_def)
  have "KERNEL_BASE \<in> in_use example_pages"
    unfolding in_use_def example_free by (auto intro!: exI [of _ 0] simp: page_va_def get_base_address_def)
  then show "tables_ok example_tbl example_mem {KERNEL_BASE}"
    using ok empty_tree [of "\<lambda>_ _. 0" KERNEL_BASE mmu_resolve_pa 3] by (simp add: tables_ok_def example_tbl_def example_mem_def)
qed

lemma example_no_blocks: "\<not> block_pages example_tbl example_mem p" "page_map example_tbl example_mem p = None"
  using empty_view [of "\<lambda>_ _. 0" KERNEL_BASE mmu_resolve_pa 3 p]
  by (simp_all add: block_pages_def page_map_def mapping_def in_block_def example_tbl_def example_mem_def)

theorem map_range_updates_the_mapping_witness:
  "\<exists>st' F'. map_range example_tbl (page_va Process 5) (page_va Process 5) (of_nat (7 * PAGE_BYTES)) custom_memory_rw example_mem = ok (True, st')
     \<and> tables_ok example_tbl st' F' \<and> reworked in_use pages_ok example_mem {KERNEL_BASE} st' F'
     \<and> (\<forall>p < PAGES. page_map example_tbl st' p
          = (if 5 \<le> p \<and> p \<le> 5 then Some (7 + (p - 5), custom_memory_rw) else page_map example_tbl example_mem p))"
proof -
  have "map_pre 5 5 7" "attr_ok custom_memory_rw" by (auto simp: map_pre_def attr_ok_def custom_memory_rw_def)
  moreover have "edges_ok Process (block_pages example_tbl example_mem) 5 5" by (simp add: edges_ok_def)
  moreover have "tables_needed 3 0 5 5 \<le> 3" by (rule tables_needed_page)
  then have "\<not> pages_left (pages example_mem) < tables_needed 3 0 5 5" using example_ok(2) by (simp add: example_mem_def)
  ultimately show ?thesis
    using map_range_updates_the_mapping [OF example_tbl_def _ _ _ example_ok(3), of 5 5 7 custom_memory_rw] by simp
qed

text \<open>
  Looking an attribute up: for a page of the address space, \<^verbatim>\<open>get_attr\<close> gives the attributes of its mapping, whether the
  page is mapped by itself or in a block, and fails exactly when it is not mapped.
\<close>

lemma get_attr_reads_the_mapping:
  assumes "tbl = make_tbl k top_table number" and "top_table \<noteq> 0" and "p < PAGES"
  shows "get_attr tbl st (page_va k p) = map_option snd (page_map tbl st p)"
  unfolding page_map_def by (rule get_attr_mapping) (use assms resolve_pa_not_null in simp_all)

text \<open>
  Reserving a range of memory in the area of the contiguous allocator has no effect on that allocator when the range has
  at most as many pages as its offset has bytes: \<^verbatim>\<open>mark_as_used\<close> expects the last address, the kernel passes a number of pages.
\<close>

lemma reserved_buffers_stay_free:
  assumes "kernel_mark_as_used_range start stop k = ok k'"
    and "div_round_up (min stop (contiguous_stop k) - contiguous_start k - (max start (contiguous_start k) - contiguous_start k) + 1) PAGE_BYTES
      < max start (contiguous_start k) - contiguous_start k"
  shows "contiguous k' = contiguous k"
proof -
  have "ca_mark_as_used (contiguous k) (unat (max start (contiguous_start k) - contiguous_start k))
      (unat (div_round_up (min stop (contiguous_stop k) - contiguous_start k - (max start (contiguous_start k) - contiguous_start k) + 1) PAGE_BYTES))
    = ok (contiguous k)"
    using assms(2) by (simp add: ca_mark_as_used_def word_less_nat_alt)
  then show ?thesis using assms(1) by (auto simp: kernel_mark_as_used_range_def Let_def split: if_splits)
qed

end
