(* ===== verification/Heap_Manager.thy ===== *)
theory Heap_Manager
  imports Kernel_Memory
begin

text \<open>
  The heap of the kernel or of a process (\<^verbatim>\<open>kernel/memory/heap_manager.cpp\<close>). The pages of the heap are fresh pages mapped
  one after the other; a process's heap keeps their physical addresses in a list, the kernel asks the MMU for them. The table
  behind \<^verbatim>\<open>_tbl\<close> is an argument; the loops take fuel, one unit for each page, and \<open>Diverges\<close> is running out of it.
\<close>

datatype heap_owner = Heap_Process | Heap_Kernel

record HeapManager =
  heap_kind :: heap_owner
  heap_start :: addr
  heap_va_end :: addr
  heap_byte_size :: usize
  allocated_pa :: "addr list"

definition kernel_rw_memory :: PagesAttributes where
  "kernel_rw_memory = \<lparr>sh = InnerShareable, exec = NeverExecute, rw = ReadWrite, access = Privileged, mem_type = Normal\<rparr>"

definition process_rw_memory :: PagesAttributes where
  "process_rw_memory = \<lparr>sh = InnerShareable, exec = NeverExecute, rw = ReadWrite, access = AllProcess, mem_type = Normal\<rparr>"

definition HeapManager_init :: "heap_owner \<Rightarrow> HeapManager" where
  "HeapManager_init owner =
     (let start = (if owner = Heap_Kernel then HEAP_MEMORY else PROCESS_HEAP_BASE) in
      \<lparr>heap_kind = owner, heap_start = start, heap_va_end = start, heap_byte_size = 0, allocated_pa = []\<rparr>)"

definition get_heap_end :: "HeapManager \<Rightarrow> addr" where
  "get_heap_end h = heap_start h + heap_byte_size h"

text \<open>The loop that increases the heap; the flag is false where the function returns 0.\<close>

fun grow_heap :: "nat \<Rightarrow> page_alloc_list MMUTable \<Rightarrow> HeapManager \<Rightarrow> kernel_memory \<Rightarrow> (bool \<times> HeapManager \<times> kernel_memory) outcome" where
  "grow_heap fuel tbl h k =
     (if \<not> heap_va_end h < get_heap_end h then ok (True, h, k)
      else
        (case fuel of
           0 \<Rightarrow> Inl Diverges
         | Suc fuel \<Rightarrow>
             bindE (fresh_page (mem k)) (\<lambda>(r, st).
               case r of
                 None \<Rightarrow> ok (False, h, k\<lparr>mem := st\<rparr>)
               | Some pa \<Rightarrow>
                   bindE (map_range tbl (heap_va_end h) (heap_va_end h) pa
                            (if heap_kind h = Heap_Process then process_rw_memory else kernel_rw_memory) st) (\<lambda>(mapped, st).
                     if \<not> mapped then ok (False, h, k\<lparr>mem := st\<rparr>)
                     else
                       let h = (if heap_kind h = Heap_Process then h\<lparr>allocated_pa := allocated_pa h @ [pa]\<rparr> else h) in
                       bindE (zero_at (heap_va_end h) (k\<lparr>mem := st\<rparr>)) (\<lambda>k.
                         grow_heap fuel tbl (h\<lparr>heap_va_end := heap_va_end h + PAGE_BYTES\<rparr>) k)))))"

declare grow_heap.simps [simp del]

text \<open>The physical address of the last page of the heap; \<open>flags\<close> as in \<open>address_translate\<close>.\<close>

definition last_heap_pa :: "u64 \<Rightarrow> addr \<Rightarrow> HeapManager \<Rightarrow> kernel_memory \<Rightarrow> (addr \<times> HeapManager) outcome" where
  "last_heap_pa flags va_to_del h k =
     (case heap_kind h of
        Heap_Process \<Rightarrow>
          if allocated_pa h = [] then Inl Panic else ok (last (allocated_pa h), h\<lparr>allocated_pa := butlast (allocated_pa h)\<rparr>)
      | Heap_Kernel \<Rightarrow> bindE (resolve_kernel_va flags (kernel_tbl k) (mem k) va_to_del False) (\<lambda>pa. ok (pa, h)))"

fun shrink_heap :: "nat \<Rightarrow> u64 \<Rightarrow> page_alloc_list MMUTable \<Rightarrow> HeapManager \<Rightarrow> kernel_memory \<Rightarrow> (bool \<times> HeapManager \<times> kernel_memory) outcome" where
  "shrink_heap fuel flags tbl h k =
     (if \<not> get_heap_end h \<le> heap_va_end h - PAGE_BYTES then ok (True, h, k)
      else
        (case fuel of
           0 \<Rightarrow> Inl Diverges
         | Suc fuel \<Rightarrow>
             let va_to_del = heap_va_end h - PAGE_BYTES in
             bindE (zero_at va_to_del k) (\<lambda>k.
               bindE (last_heap_pa flags va_to_del h k) (\<lambda>(pa_to_del, h).
                 bindE (unmap_range tbl va_to_del va_to_del (mem k)) (\<lambda>(unmapped, st).
                   if \<not> unmapped then ok (False, h, k\<lparr>mem := st\<rparr>)
                   else shrink_heap fuel flags tbl (h\<lparr>heap_va_end := heap_va_end h - PAGE_BYTES\<rparr>) (k\<lparr>mem := free_page pa_to_del st\<rparr>))))))"

declare shrink_heap.simps [simp del]

definition change_heap_end ::
  "nat \<Rightarrow> u64 \<Rightarrow> page_alloc_list MMUTable \<Rightarrow> int \<Rightarrow> HeapManager \<Rightarrow> kernel_memory \<Rightarrow> (addr \<times> HeapManager \<times> kernel_memory) outcome" where
  "change_heap_end fuel flags tbl byte_offset h k =
     (let h = h\<lparr>heap_byte_size := heap_byte_size h + of_int byte_offset\<rparr> in
      bindE (grow_heap fuel tbl h k) (\<lambda>(grown, h, k).
        if \<not> grown then ok (0, h, k)
        else
          bindE (shrink_heap fuel flags tbl h k) (\<lambda>(shrunk, h, k).
            ok (if shrunk then get_heap_end h else 0, h, k))))"

text \<open>\<^verbatim>\<open>HeapManager::free\<close>.\<close>

fun heap_free :: "nat \<Rightarrow> u64 \<Rightarrow> page_alloc_list MMUTable \<Rightarrow> HeapManager \<Rightarrow> kernel_memory \<Rightarrow> (HeapManager \<times> kernel_memory) outcome" where
  "heap_free fuel flags tbl h k =
     (if \<not> 0 < heap_byte_size h then ok (h, k)
      else
        (case fuel of
           0 \<Rightarrow> Inl Diverges
         | Suc fuel \<Rightarrow>
             let va_to_del = get_heap_end h - PAGE_BYTES in
             bindE (last_heap_pa flags va_to_del h k) (\<lambda>(pa_to_del, h).
               bindE (unmap_range tbl va_to_del va_to_del (mem k)) (\<lambda>(unmapped, st).
                 if \<not> unmapped then Inl Panic
                 else heap_free fuel flags tbl (h\<lparr>heap_byte_size := heap_byte_size h - PAGE_BYTES\<rparr>) (k\<lparr>mem := free_page pa_to_del st\<rparr>)))))"

declare heap_free.simps [simp del]

subsection \<open>Growing the heap\<close>

text \<open>The heap starts at page \<open>s\<close>, has \<open>n\<close> pages mapped and \<open>z\<close> bytes. The heap of a process works on its own table.\<close>

definition heap_attr :: "HeapManager \<Rightarrow> PagesAttributes" where
  "heap_attr h = (if heap_kind h = Heap_Process then process_rw_memory else kernel_rw_memory)"

definition heap_at :: "page_alloc_list MMUTable \<Rightarrow> HeapManager \<Rightarrow> nat \<Rightarrow> nat \<Rightarrow> nat \<Rightarrow> bool" where
  "heap_at tbl h s n z \<longleftrightarrow> heap_start h = page_va (kind tbl) s \<and> heap_va_end h = page_va (kind tbl) (s + n) \<and> heap_byte_size h = of_nat z
     \<and> (heap_kind h = Heap_Process \<longrightarrow> length (allocated_pa h) = n)"

definition tracked :: "HeapManager \<Rightarrow> nat list \<Rightarrow> addr list" where
  "tracked h qs = (if heap_kind h = Heap_Process then map (\<lambda>q. of_nat (q * PAGE_BYTES)) qs else [])"

definition pages_of :: "nat \<Rightarrow> nat" where
  "pages_of z = (z + PAGE_BYTES - 1) div PAGE_BYTES"

lemma heap_attr_ok: "attr_ok (heap_attr h)" "rw (heap_attr h) = 0"
  by (simp_all add: heap_attr_def attr_ok_def process_rw_memory_def kernel_rw_memory_def)

lemma pages_of_bounds: "z \<le> pages_of z * PAGE_BYTES" "n < pages_of z \<longleftrightarrow> n * PAGE_BYTES < z"
  unfolding pages_of_def by linarith+

lemma heap_end_unat:
  assumes "heap_at tbl h s n z" "s + pages_of z < PAGES"
  shows "unat (get_heap_end h) = unat (get_base_address (kind tbl)) + s * PAGE_BYTES + z"
proof -
  have z: "s * PAGE_BYTES + z < 2 ^ 48" using pages_of_bounds(1) [of z] assms(2) by simp
  have s: "unat (page_va (kind tbl) s) = unat (get_base_address (kind tbl)) + s * PAGE_BYTES" using assms(2) by (simp add: unat_page_va)
  have "unat (of_nat z :: usize) = z" using z by (simp only: unsigned_of_nat) (simp add: take_bit_nat_eq_self)
  moreover have "unat (page_va (kind tbl) s) + z < 2 ^ 64" unfolding s using z by (cases "kind tbl") (simp_all add: base_unat)
  ultimately show ?thesis using assms(1) unfolding get_heap_end_def heap_at_def by (subst unat_add_no_wrap) (simp_all add: s)
qed

lemma heap_va_unat:
  "heap_at tbl h s n z \<Longrightarrow> s + n < PAGES \<Longrightarrow> unat (heap_va_end h) = unat (get_base_address (kind tbl)) + (s + n) * PAGE_BYTES"
  by (simp add: heap_at_def unat_page_va)

lemma heap_must_grow:
  assumes "heap_at tbl h s n z" "s + pages_of z < PAGES" "s + n < PAGES"
  shows "heap_va_end h < get_heap_end h \<longleftrightarrow> n < pages_of z"
  unfolding word_less_nat_alt heap_end_unat [OF assms(1,2)] heap_va_unat [OF assms(1,3)] pages_of_bounds(2) by (simp add: algebra_simps)

lemma grow_heap_correct:
  assumes tbl: "tbl = make_tbl kd top_table number" "top_table \<noteq> 0" and edge: "kd = Process \<longrightarrow> 0 < s"
  shows "heap_at tbl h s n z \<Longrightarrow> active tbl k \<Longrightarrow> tables_ok tbl (mem k) F \<Longrightarrow> n \<le> pages_of z \<Longrightarrow> s + pages_of z < PAGES
    \<Longrightarrow> 4 * (pages_of z - n) \<le> pages_left (pages (mem k)) \<Longrightarrow> pages_of z - n \<le> fuel \<Longrightarrow>
    \<exists>h' st' qs F'. grow_heap fuel tbl h k = ok (True, h', k\<lparr>mem := st'\<rparr>) \<and> heap_at tbl h' s (pages_of z) z \<and> heap_kind h' = heap_kind h
      \<and> allocated_pa h' = allocated_pa h @ tracked h qs \<and> length qs = pages_of z - n \<and> extends tbl (heap_attr h) (s + n) qs (mem k) F st' F'"
proof (induction fuel arbitrary: h n k F)
  case 0
  then have "\<not> heap_va_end h < get_heap_end h" "n = pages_of z" by (simp_all add: heap_must_grow)
  then show ?case using 0 by (intro exI [of _ h] exI [of _ "mem k"] exI [of _ "[]"] exI [of _ F]) (simp add: grow_heap.simps tracked_def)
next
  case (Suc fuel)
  show ?case
  proof (cases "n < pages_of z")
    case False
    then have "\<not> heap_va_end h < get_heap_end h" "n = pages_of z" using Suc.prems by (simp_all add: heap_must_grow)
    then show ?thesis using Suc.prems by (intro exI [of _ h] exI [of _ "mem k"] exI [of _ "[]"] exI [of _ F]) (simp add: grow_heap.simps tracked_def)
  next
    case True
    have p: "s + n < PAGES" using True Suc.prems(5) by simp
    have e: "edges_ok kd (block_pages tbl (mem k)) (s + n) (s + n)" using edge True Suc.prems(5) by (auto simp: edges_ok_def)
    have room: "4 \<le> pages_left (pages (mem k))" using True Suc.prems(6) by simp
    obtain q st1 st2 st3 F' where f: "fresh_page (mem k) = ok (Some (of_nat (q * PAGE_BYTES)), st1)"
      "map_range tbl (page_va kd (s + n)) (page_va kd (s + n)) (of_nat (q * PAGE_BYTES)) (heap_attr h) st1 = ok (True, st2)"
      "\<And>tbl'. translate tbl' st2 = translate tbl st2 \<Longrightarrow> zero_through tbl' (page_va kd (s + n)) st2 = ok st3"
      "gains tbl (heap_attr h) (s + n) q (mem k) F st3 F'"
      by (rule map_fresh_page [OF tbl Suc.prems(3) p e room heap_attr_ok]) (rule that)
    have kd: "kind tbl = kd" by (simp add: tbl)
    have va: "heap_va_end h = page_va kd (s + n)" using Suc.prems(1) by (simp add: heap_at_def kd)
    have zero: "zero_at (heap_va_end h) (k\<lparr>mem := st2\<rparr>) = ok (k\<lparr>mem := st3\<rparr>)"
      using f(3) [of "table_for (k\<lparr>mem := st2\<rparr>) (page_va kd (s + n))"] translate_active [OF tbl(1) _ p, of "k\<lparr>mem := st2\<rparr>" st2] Suc.prems(2)
      by (simp add: zero_at_def va active_def split: table_kind.splits)
    define h1 where "h1 = (if heap_kind h = Heap_Process then h\<lparr>allocated_pa := allocated_pa h @ [of_nat (q * PAGE_BYTES)]\<rparr> else h)
      \<lparr>heap_va_end := heap_va_end h + PAGE_BYTES\<rparr>"
    define k1 where "k1 = k\<lparr>mem := st3\<rparr>"
    have step: "grow_heap (Suc fuel) tbl h k = grow_heap fuel tbl h1 k1"
      using True heap_must_grow [OF Suc.prems(1,5) p] f(1,2) zero unfolding h1_def k1_def
      by (subst grow_heap.simps) (cases "heap_kind h"; simp add: va [symmetric] heap_attr_def Let_def)
    have at: "heap_at tbl h1 s (Suc n) z" using Suc.prems(1) page_va_next [of kd "s + n"] by (auto simp: h1_def heap_at_def kd)
    have same: "heap_kind h1 = heap_kind h" "heap_attr h1 = heap_attr h" "tracked h1 = tracked h" by (simp_all add: h1_def heap_attr_def tracked_def fun_eq_iff)
    have ok1: "active tbl k1" "tables_ok tbl (mem k1) F'" using Suc.prems(2) f(4) by (simp_all add: k1_def active_def gains_def split: table_kind.splits)
    have left: "4 * (pages_of z - Suc n) \<le> pages_left (pages (mem k1))" proof -
      have "pages_left (pages (mem k)) \<le> pages_left (pages st3) + 4" using f(4) by (simp add: gains_def)
      then show ?thesis using Suc.prems(6) True by (simp add: k1_def)
    qed
    have fuel: "pages_of z - Suc n \<le> fuel" using Suc.prems(7) by simp
    obtain h' st' qs F'' where r: "grow_heap fuel tbl h1 k1 = ok (True, h', k1\<lparr>mem := st'\<rparr>)" "heap_at tbl h' s (pages_of z) z"
        "heap_kind h' = heap_kind h" "allocated_pa h' = allocated_pa h1 @ tracked h qs" "length qs = pages_of z - Suc n" "extends tbl (heap_attr h) (Suc (s + n)) qs st3 F' st' F''"
      using Suc.IH [OF at ok1 _ Suc.prems(5) left fuel] True unfolding same by (simp add: k1_def) blast
    have "extends tbl (heap_attr h) (s + n) (q # qs) (mem k) F st' F''" using f(4) r(6) by auto
    moreover have "length (q # qs) = pages_of z - n" using r(5) True by simp
    moreover have "allocated_pa h' = allocated_pa h @ tracked h (q # qs)" using r(4) by (simp add: h1_def tracked_def)
    moreover have "k1\<lparr>mem := st'\<rparr> = k\<lparr>mem := st'\<rparr>" by (simp add: k1_def)
    ultimately show ?thesis using r(1-3) unfolding step same(1) by (metis (no_types))
  qed
qed

lemma nothing_to_shrink:
  assumes "heap_at tbl h s (pages_of z) z" "0 < s" "s + pages_of z < PAGES"
  shows "shrink_heap fuel flags tbl h k = ok (True, h, k)"
proof -
  have "heap_va_end h - PAGE_BYTES = page_va (kind tbl) (s + pages_of z - 1)"
    using assms(1,2) page_va_prev [of "s + pages_of z" "kind tbl"] by (simp add: heap_at_def)
  then have "unat (heap_va_end h - PAGE_BYTES) = unat (get_base_address (kind tbl)) + (s + pages_of z - 1) * PAGE_BYTES"
    using assms(3) by (simp add: unat_page_va)
  moreover have "(s + pages_of z - 1) * PAGE_BYTES < s * PAGE_BYTES + z"
    using pages_of_bounds(2) [of "pages_of z - 1" z] assms(2) by (cases "pages_of z") simp_all
  ultimately have "\<not> get_heap_end h \<le> heap_va_end h - PAGE_BYTES"
    unfolding word_le_nat_alt heap_end_unat [OF assms(1,3)] by simp
  then show ?thesis by (subst shrink_heap.simps) simp
qed

text \<open>
  Growing a heap: when enough pages are left (four for each new page of the heap: the page and at most three tables),
  \<^verbatim>\<open>change_heap_end\<close> returns the new end, and exactly the new pages of the heap are mapped, readable and writable, to distinct
  pages that were free and are cleared. Every other page of the address space keeps its mapping, and the content of every
  other page that was in use, tables of this address space apart, is unchanged.
\<close>

lemma heap_grows:
  assumes "tbl = make_tbl kd top_table number" and "top_table \<noteq> 0" and "active tbl k" and "tables_ok tbl (mem k) F"
    and "heap_at tbl h s (pages_of z) z" and "0 < s" and "s + pages_of (z + d) < PAGES"
    and "4 * (pages_of (z + d) - pages_of z) \<le> pages_left (pages (mem k))" and "pages_of (z + d) - pages_of z \<le> fuel"
  shows "\<exists>h' st' qs F'. change_heap_end fuel flags tbl (int d) h k = ok (page_va kd s + of_nat (z + d), h', k\<lparr>mem := st'\<rparr>)
      \<and> heap_at tbl h' s (pages_of (z + d)) (z + d) \<and> allocated_pa h' = allocated_pa h @ tracked h qs
      \<and> length qs = pages_of (z + d) - pages_of z \<and> extended tbl (heap_attr h) (s + pages_of z) qs (mem k) F st' F'"
proof -
  define h0 where "h0 = h\<lparr>heap_byte_size := heap_byte_size h + of_int (int d)\<rparr>"
  have at: "heap_at tbl h0 s (pages_of z) (z + d)" using assms(5) by (simp add: heap_at_def h0_def)
  have same: "heap_attr h0 = heap_attr h" "tracked h0 = tracked h" "allocated_pa h0 = allocated_pa h"
    by (simp_all add: h0_def heap_attr_def tracked_def fun_eq_iff)
  have le: "pages_of z \<le> pages_of (z + d)" by (simp add: pages_of_def div_le_mono)
  obtain h' st' qs F' where g: "grow_heap fuel tbl h0 k = ok (True, h', k\<lparr>mem := st'\<rparr>)" "heap_at tbl h' s (pages_of (z + d)) (z + d)"
      "allocated_pa h' = allocated_pa h @ tracked h qs" "length qs = pages_of (z + d) - pages_of z"
      "extends tbl (heap_attr h) (s + pages_of z) qs (mem k) F st' F'"
    using grow_heap_correct [OF assms(1,2) _ at assms(3,4) le assms(7-9)] assms(6) unfolding same by auto
  have "get_heap_end h' = page_va kd s + of_nat (z + d)" using g(2) assms(1) by (simp add: get_heap_end_def heap_at_def)
  then have "change_heap_end fuel flags tbl (int d) h k = ok (page_va kd s + of_nat (z + d), h', k\<lparr>mem := st'\<rparr>)"
    using nothing_to_shrink [OF g(2) assms(6,7)] g(1) unfolding change_heap_end_def Let_def h0_def [symmetric] by simp
  then show ?thesis using g extends_extended [OF g(5) assms(4)] by blast
qed

definition example_kernel :: kernel_memory where
  "example_kernel =
     \<lparr>mem = example_mem, kernel_tbl = make_tbl Kernel 0 0, ttbr0 = KERNEL_BASE, contiguous = ContiguousPageAllocator 256 (Some (\<lambda>_. 0)),
      contiguous_start = 0x100000, contiguous_stop = 0x200000, custom_pages = CUSTOM_PAGES_MEMORY, buffer_pages = BUFFER_MEMORY\<rparr>"

lemma example_heap: "heap_at example_tbl (HeapManager_init Heap_Process) (2 ^ 35) (pages_of 0) 0" "pages_of 0 = 0" "pages_of 100 = 1"
  by (simp_all add: heap_at_def HeapManager_init_def Let_def example_tbl_def page_va_def get_base_address_def PROCESS_HEAP_BASE_def pages_of_def)

text \<open>
  C28. Freeing a heap whose size is no multiple of the page size stops the kernel: the last step subtracts a whole page from
  the end of the heap and asks for an address that is no page to be unmapped. \<^verbatim>\<open>sys_sbrk\<close> hands any increment of a process
  to \<^verbatim>\<open>change_heap_end\<close>.
\<close>

theorem freeing_an_odd_heap_panics:
  assumes "tbl = make_tbl Process top_table number" and "heap_at tbl h s (pages_of z) z" and "heap_kind h = Heap_Process"
    and "s + pages_of z < PAGES" and "\<not> PAGE_BYTES dvd z" and "0 < fuel"
  shows "heap_free fuel flags tbl h k = Inl Panic"
proof -
  obtain n where n: "fuel = Suc n" using assms(6) by (cases fuel) auto
  have kd: "kind tbl = Process" by (simp add: assms(1))
  have e: "unat (get_heap_end h) = s * PAGE_BYTES + z" using heap_end_unat [OF assms(2,4)] by (simp add: kd base_unat)
  have z: "z \<noteq> 0" using assms(5) by (intro notI) simp
  have size: "0 < heap_byte_size h"
  proof (rule ccontr)
    assume "\<not> 0 < heap_byte_size h"
    then have "heap_byte_size h = 0" by (simp only: word_neq_0_conv [symmetric]) simp
    then have "get_heap_end h = page_va Process s" using assms(2) by (simp add: get_heap_end_def heap_at_def kd)
    then show False using e z assms(4) unat_page_va [of s Process] by (simp add: base_unat)
  qed
  have "\<not> check_va Process (get_heap_end h - PAGE_BYTES)"
  proof
    assume "check_va Process (get_heap_end h - PAGE_BYTES)"
    then obtain p where p: "p < PAGES" "get_heap_end h - PAGE_BYTES = page_va Process p" by (auto simp: check_va_page)
    then have "get_heap_end h = page_va Process (Suc p)" using page_va_next [of Process p] by (metis diff_add_cancel)
    then have "unat (get_heap_end h) = Suc p * PAGE_BYTES mod 2 ^ 64"
      by (simp only: page_va_def get_base_address_def table_kind.case add_0 unsigned_of_nat) (simp add: take_bit_eq_mod)
    moreover have "PAGE_BYTES dvd Suc p * PAGE_BYTES mod 2 ^ 64" by (intro dvd_mod) simp_all
    ultimately have "PAGE_BYTES dvd s * PAGE_BYTES + z" unfolding e by (simp only:)
    then show False using assms(5) by (simp add: dvd_add_right_iff)
  qed
  then have "unmap_range tbl (get_heap_end h - PAGE_BYTES) (get_heap_end h - PAGE_BYTES) st = ok (False, st)" for st
    by (simp add: unmap_range_def kd)
  then show ?thesis
    using size unfolding n by (subst heap_free.simps) (simp add: last_heap_pa_def assms(3))
qed

theorem freeing_an_odd_heap_panics_witness:
  "heap_free 1 0 example_tbl \<lparr>heap_kind = Heap_Process, heap_start = PROCESS_HEAP_BASE, heap_va_end = PROCESS_HEAP_BASE + 0x1000,
     heap_byte_size = 100, allocated_pa = [0x5000]\<rparr> example_kernel = Inl Panic"
  by (rule freeing_an_odd_heap_panics [OF example_tbl_def, of _ "2 ^ 35" 100])
    (simp_all add: example_heap heap_at_def example_tbl_def page_va_def get_base_address_def PROCESS_HEAP_BASE_def)

end
