(* ===== verification/Memory_Chunk.thy ===== *)
theory Memory_Chunk
  imports Heap_Manager
begin

text \<open>
  Memory chunks (\<^verbatim>\<open>kernel/memory/memory_chunk.cpp\<close>): contiguous virtual pages of the kernel on fresh physical pages, read and
  written by bytes. A byte access goes through the translation of the MMU; the result is that a chunk behaves as an array of
  bytes.
\<close>

subsection \<open>Byte access\<close>

definition byte_of :: "u64 \<Rightarrow> nat \<Rightarrow> u8" where
  "byte_of w j = ucast (drop_bit (8 * j) w)"

definition set_byte :: "u64 \<Rightarrow> nat \<Rightarrow> u8 \<Rightarrow> u64" where
  "set_byte w j b = (w AND NOT (push_bit (8 * j) 0xFF)) OR push_bit (8 * j) (ucast b)"

text \<open>The page of the direct map and the offset of a physical address.\<close>

definition frame_of :: "addr \<Rightarrow> addr" where
  "frame_of pa = (pa AND mask_of 12 47) + KERNEL_BASE"

definition load_byte :: "kernel_memory \<Rightarrow> addr \<Rightarrow> u8 outcome" where
  "load_byte k va =
     (case translate (table_for k va) (mem k) va of
        None \<Rightarrow> Inl Undefined
      | Some (pa, _) \<Rightarrow> let off = unat (pa AND mask 12) in ok (byte_of (tables (mem k) (frame_of pa) (off div 8)) (off mod 8)))"

definition store_byte :: "addr \<Rightarrow> u8 \<Rightarrow> kernel_memory \<Rightarrow> kernel_memory outcome" where
  "store_byte va b k =
     (case translate (table_for k va) (mem k) va of
        None \<Rightarrow> Inl Undefined
      | Some (pa, attr) \<Rightarrow>
          if rw attr \<noteq> 0 then Inl Undefined
          else
            let off = unat (pa AND mask 12); w = tables (mem k) (frame_of pa) (off div 8) in
            ok (k\<lparr>mem := set_entry (mem k) (frame_of pa) (off div 8) (set_byte w (off mod 8) b)\<rparr>))"

text \<open>\<^verbatim>\<open>memcpy\<close> to and from mapped memory.\<close>

fun store_bytes :: "addr \<Rightarrow> u8 list \<Rightarrow> kernel_memory \<Rightarrow> kernel_memory outcome" where
  "store_bytes va [] k = ok k"
| "store_bytes va (b # bs) k = bindE (store_byte va b k) (store_bytes (va + 1) bs)"

fun load_bytes :: "addr \<Rightarrow> nat \<Rightarrow> kernel_memory \<Rightarrow> u8 list outcome" where
  "load_bytes va 0 k = ok []"
| "load_bytes va (Suc n) k = bindE (load_byte k va) (\<lambda>b. bindE (load_bytes (va + 1) n k) (\<lambda>bs. ok (b # bs)))"

subsection \<open>Chunks\<close>

text \<open>A process that maps the chunk, by its identifier, and where.\<close>

record ProcessMapped =
  chunk_start :: addr
  proc :: nat

record MemoryChunk =
  nb_pages :: usize
  pas :: "addr list option"
  kernel_va :: addr
  mappings :: "ProcessMapped list"

text \<open>The constructor; the array keeps the pages taken before a failure.\<close>

definition MemoryChunk_new :: "nat \<Rightarrow> kernel_memory \<Rightarrow> (MemoryChunk \<times> kernel_memory) outcome" where
  "MemoryChunk_new n k =
     bindE (allocate_pages_section n k) (\<lambda>(va, pages, k).
       ok (\<lparr>nb_pages = of_nat n, pas = Some pages, kernel_va = va, mappings = []\<rparr>, k))"

definition chunk_byte_size :: "MemoryChunk \<Rightarrow> usize" where
  "chunk_byte_size c = nb_pages c * PAGE_BYTES"

definition chunk_end_address :: "MemoryChunk \<Rightarrow> addr \<Rightarrow> addr" where
  "chunk_end_address c start = start + chunk_byte_size c - PAGE_BYTES"

definition chunk_status_okay :: "MemoryChunk \<Rightarrow> bool" where
  "chunk_status_okay c \<longleftrightarrow> kernel_va c \<noteq> 0"

definition chunk_write :: "MemoryChunk \<Rightarrow> usize \<Rightarrow> u8 list \<Rightarrow> kernel_memory \<Rightarrow> (usize \<times> kernel_memory) outcome" where
  "chunk_write c byte_offset data k =
     (if chunk_byte_size c \<le> byte_offset \<or> kernel_va c = 0 then ok (0, k)
      else
        let available = chunk_byte_size c - byte_offset;
            to_write = min_k available (of_nat (length data)) in
        bindE (store_bytes (kernel_va c + byte_offset) (take (unat to_write) data) k) (\<lambda>k. ok (to_write, k)))"

definition chunk_read :: "MemoryChunk \<Rightarrow> usize \<Rightarrow> usize \<Rightarrow> kernel_memory \<Rightarrow> (usize \<times> u8 list) outcome" where
  "chunk_read c byte_offset count k =
     (if chunk_byte_size c \<le> byte_offset \<or> kernel_va c = 0 then ok (0, [])
      else
        let available = chunk_byte_size c - byte_offset;
            to_read = min_k available count in
        bindE (load_bytes (kernel_va c + byte_offset) (unat to_read) k) (\<lambda>bs. ok (to_read, bs)))"

definition register_chunk :: "nat \<Rightarrow> addr \<Rightarrow> MemoryChunk \<Rightarrow> MemoryChunk" where
  "register_chunk p start c = c\<lparr>mappings := mappings c @ [\<lparr>chunk_start = start, proc = p\<rparr>]\<rparr>"

text \<open>\<^verbatim>\<open>unregister_mapping\<close> erases the first entry of the process, wherever it maps the chunk.\<close>

fun erase_first :: "('a \<Rightarrow> bool) \<Rightarrow> 'a list \<Rightarrow> 'a list option" where
  "erase_first P [] = None"
| "erase_first P (x # xs) = (if P x then Some xs else map_option ((#) x) (erase_first P xs))"

definition unregister_chunk :: "nat \<Rightarrow> MemoryChunk \<Rightarrow> MemoryChunk outcome" where
  "unregister_chunk p c =
     (case erase_first (\<lambda>m. proc m = p) (mappings c) of None \<Rightarrow> Inl Panic | Some ms \<Rightarrow> ok (c\<lparr>mappings := ms\<rparr>))"

subsection \<open>Addresses inside a page\<close>

lemma page_offset_bits:
  assumes "p < PAGES" "o' < PAGE_BYTES"
  shows "drop_bit 12 (page_va k p + of_nat o') = drop_bit 12 (page_va k p)" "(page_va k p + of_nat o') AND mask s = (page_va k p AND mask s) OR (of_nat o' AND mask s)"
    "(page_va k p + of_nat o') AND TTBR_MASK = page_va k p AND TTBR_MASK"
proof -
  define x where "x = page_va k p"
  define y :: u64 where "y = of_nat o'"
  have uy: "unat y = o'" using assms(2) by (simp add: y_def unsigned_of_nat take_bit_nat_eq_self)
  have low: "x AND mask 12 = 0" unfolding low_bits_zero x_def unat_page_va [OF assms(1)] base_unat by (simp add: dvd_add)
  have lo: "bit x j \<Longrightarrow> 12 \<le> j" for j using arg_cong [OF low, of "\<lambda>z. bit z j"] bit_imp_le_length [of x j] by (auto simp: bit_and_iff bit_mask_iff)
  have "take_bit 12 y = y" using assms(2) uy by (simp add: word_unat_eq_iff unsigned_take_bit_eq take_bit_nat_eq_self)
  then have hi: "bit y j \<Longrightarrow> j < 12" for j by (metis bit_take_bit_iff)
  have add: "x + y = x OR y" using lo hi by (intro disjunctive_add) (meson leD)
  show "drop_bit 12 (page_va k p + of_nat o') = drop_bit 12 (page_va k p)"
    unfolding x_def [symmetric] y_def [symmetric] add by (rule bit_word_eqI) (use hi in \<open>auto simp: bit_drop_bit_eq bit_or_iff\<close>)
  show "(page_va k p + of_nat o') AND mask s = (page_va k p AND mask s) OR (of_nat o' AND mask s)"
    unfolding x_def [symmetric] y_def [symmetric] add by (rule bit_word_eqI) (auto simp: bit_or_iff bit_and_iff)
  have "TTBR_MASK = NOT (mask 48)" by (simp add: mask_eq_exp_minus_1)
  then show "(page_va k p + of_nat o') AND TTBR_MASK = page_va k p AND TTBR_MASK"
    unfolding x_def [symmetric] y_def [symmetric] add
  proof (simp only:, intro bit_word_eqI)
    fix j
    show "bit ((x OR y) AND NOT (mask 48)) j = bit (x AND NOT (mask 48)) j"
      using hi [of j] unfolding bit_and_iff bit_or_iff bit_not_iff bit_mask_iff by auto
  qed
qed

lemma index_drop: "drop_bit 12 va = drop_bit 12 va' \<Longrightarrow> n \<le> 3 \<Longrightarrow> get_index_in_table va (4 - n) = get_index_in_table va' (4 - n)"
proof -
  assume v: "drop_bit 12 va = drop_bit 12 va'" "n \<le> 3"
  have "drop_bit (12 + 9 * n) w = drop_bit (9 * n) (drop_bit 12 w)" for w :: addr by (simp only: drop_bit_drop_bit add.commute)
  then show ?thesis unfolding get_index_in_table_def level_shift_depth [OF v(2)] by (simp only: v(1))
qed

lemma find_entry_drop:
  "drop_bit 12 va = drop_bit 12 va' \<Longrightarrow> n \<le> 3 \<Longrightarrow> find_entry_in_table tbl st n t va = find_entry_in_table tbl st n t va'"
proof (induction n arbitrary: t)
  case 0
  show ?case unfolding find_entry_in_table.simps [of _ _ 0] Let_def nat.case index_drop [OF 0] ..
next
  case (Suc n)
  have r: "find_entry_in_table tbl st n u va = find_entry_in_table tbl st n u va'" for u using Suc by simp
  show ?case unfolding find_entry_in_table.simps [of _ _ "Suc n"] Let_def nat.case index_drop [OF Suc.prems] r ..
qed

text \<open>The address behind an address in a page.\<close>

lemma translate_offset:
  assumes tbl: "tbl = make_tbl k top_table number" and ok: "tables_ok tbl st F" and p: "p < PAGES" and o': "o' < PAGE_BYTES"
  shows "translate tbl st (page_va k p + of_nat o') = map_option (\<lambda>(q, attr). (of_nat (q * PAGE_BYTES) OR of_nat o', attr)) (page_map tbl st p)"
proof -
  define va where "va = page_va k p + of_nat o'"
  have f: "find_entry_in_table tbl st 3 (pgd tbl) va = find_entry_in_table tbl st 3 (pgd tbl) (page_va k p)"
    unfolding va_def by (rule find_entry_drop [OF page_offset_bits(1) [OF p o']]) simp
  have R: "mmu_resolve_pa = the (resolve_pa tbl)" by (simp add: tbl)
  note w = find_entry_view [OF R resolve_pa_not_null p, where n = 3 and st = st and t = "pgd tbl" and k = k]
  have "translate tbl st va = map_option (\<lambda>(pa, attr). (pa OR of_nat o', attr)) (translate tbl st (page_va k p))"
  proof (cases "find_entry_in_table tbl st 3 (pgd tbl) (page_va k p)")
    case (Some r)
    obtain t i level where r: "r = (t, i, level)" by (cases r)
    obtain m where m: "m \<le> 3" "level = 4 - m" using w unfolding Some r by auto
    have "mask_of 0 (level_shift level - 1) = mask (12 + 9 * m)" using m by (simp add: mask_of_def level_shift_depth)
    moreover have "(of_nat o' :: u64) AND mask (12 + 9 * m) = of_nat o'"
    proof -
      have "PAGE_BYTES * 1 \<le> PAGE_BYTES * (512 :: nat) ^ m" by (intro mult_le_mono2) simp
      then have "o' < PAGE_BYTES * 512 ^ m" using o' by linarith
      then have "o' < 2 ^ (12 + 9 * m)" by (simp add: power_add power_mult)
      then show ?thesis using m(1) o' by (simp add: word_unat_eq_iff unat_and_mask_low unsigned_of_nat take_bit_nat_eq_self)
    qed
    ultimately have "va AND mask_of 0 (level_shift level - 1) = (page_va k p AND mask_of 0 (level_shift level - 1)) OR of_nat o'"
      using page_offset_bits(2) [OF p o'] by (simp add: va_def)
    then show ?thesis using Some r f by (simp add: translate_def ac_simps split: prod.splits)
  qed (simp add: translate_def f)
  then show ?thesis unfolding va_def translate_page [OF tbl ok p] by (cases "page_map tbl st p") auto
qed

lemma offset_frame:
  assumes "q < PAGES" "o' < PAGE_BYTES"
  shows "frame_of (of_nat (q * PAGE_BYTES) OR of_nat o') = page_va Kernel q" "unat ((of_nat (q * PAGE_BYTES) OR of_nat o' :: addr) AND mask 12) = o'"
proof -
  define x :: addr where "x = of_nat (q * PAGE_BYTES)"
  define y :: addr where "y = of_nat o'"
  have uy: "unat y = o'" using assms(2) by (simp add: y_def unsigned_of_nat take_bit_nat_eq_self)
  then have "take_bit 12 y = y" using assms(2) by (simp add: word_unat_eq_iff unsigned_take_bit_eq take_bit_nat_eq_self)
  then have hi: "bit y j \<Longrightarrow> j < 12" for j by (metis bit_take_bit_iff)
  have lo: "bit x j \<Longrightarrow> 12 \<le> j" for j
    using arg_cong [OF pa_page(1) [OF assms(1)], of "\<lambda>z. bit z j"] unfolding x_def bit_and_iff bit_mask_of by blast
  have "(x OR y) AND mask_of 12 47 = x AND mask_of 12 47" by (rule bit_word_eqI) (use hi in \<open>fastforce simp: bit_and_iff bit_or_iff bit_mask_of\<close>)
  then show "frame_of (of_nat (q * PAGE_BYTES) OR of_nat o') = page_va Kernel q"
    using pa_page(1) [OF assms(1)] unfolding x_def y_def by (simp add: frame_of_def page_va_def get_base_address_def)
  have "(x OR y) AND mask 12 = y" by (rule bit_word_eqI) (use hi lo in \<open>fastforce simp: bit_and_iff bit_or_iff bit_mask_iff\<close>)
  then show "unat ((of_nat (q * PAGE_BYTES) OR of_nat o' :: addr) AND mask 12) = o'" using uy unfolding x_def y_def by simp
qed

subsection \<open>A chunk as an array of bytes\<close>

lemma byte_of_set_byte: "j < 8 \<Longrightarrow> i < 8 \<Longrightarrow> byte_of (set_byte w j b) i = (if i = j then b else byte_of w i)"
proof -
  assume ij: "j < 8" "i < 8"
  have ff: "(0xFF :: u64) = mask 8" by (simp add: mask_eq_exp_minus_1)
  show ?thesis
  proof (rule bit_word_eqI)
    fix n
    assume n: "n < LENGTH(8)"
    have b: "bit b m \<Longrightarrow> m < 8" for m using bit_imp_le_length [of b m] by simp
    have "8 * i + n < 64" using ij n by simp
    moreover have "8 * j \<le> 8 * i + n \<and> 8 * i + n - 8 * j < 8 \<longleftrightarrow> i = j" using n ij by auto
    ultimately show "bit (byte_of (set_byte w j b) i) n \<longleftrightarrow> bit (if i = j then b else byte_of w i) n"
      using n ij b [of "8 * i + n - 8 * j"] unfolding byte_of_def set_byte_def ff
      by (auto simp: bit_unsigned_iff bit_drop_bit_eq bit_or_iff bit_and_iff bit_not_iff bit_push_bit_iff bit_mask_iff)
  qed
qed

text \<open>The chunk lies from page \<open>v\<close> on, on the physical pages \<open>qs\<close>, which are no tables.\<close>

definition chunk_at :: "kernel_memory \<Rightarrow> addr set \<Rightarrow> nat \<Rightarrow> nat list \<Rightarrow> bool" where
  "chunk_at k F v qs \<longleftrightarrow> (\<exists>top_table number. kernel_tbl k = make_tbl Kernel top_table number) \<and> tables_ok (kernel_tbl k) (mem k) F
     \<and> v < PAGES \<and> v + length qs \<le> PAGES \<and> distinct qs
     \<and> (\<forall>i < length qs. qs ! i < PAGES \<and> page_va Kernel (qs ! i) \<notin> F \<and> page_map (kernel_tbl k) (mem k) (v + i) = Some (qs ! i, custom_memory_rw))"

definition chunk_ok :: "kernel_memory \<Rightarrow> addr set \<Rightarrow> nat list \<Rightarrow> MemoryChunk \<Rightarrow> bool" where
  "chunk_ok k F qs c \<longleftrightarrow> (\<exists>v. chunk_at k F v qs \<and> kernel_va c = page_va Kernel v) \<and> unat (nb_pages c) = length qs"

definition page_byte :: "kmem \<Rightarrow> nat \<Rightarrow> nat \<Rightarrow> u8" where
  "page_byte st q off = byte_of (tables st (page_va Kernel q) (off div 8)) (off mod 8)"

definition chunk_bytes :: "kernel_memory \<Rightarrow> nat list \<Rightarrow> u8 list" where
  "chunk_bytes k qs = map (\<lambda>i. page_byte (mem k) (qs ! (i div PAGE_BYTES)) (i mod PAGE_BYTES)) [0 ..< length qs * PAGE_BYTES]"

lemma chunk_bytes_simps [simp]:
  "length (chunk_bytes k qs) = length qs * PAGE_BYTES"
  "i < length qs * PAGE_BYTES \<Longrightarrow> chunk_bytes k qs ! i = page_byte (mem k) (qs ! (i div PAGE_BYTES)) (i mod PAGE_BYTES)"
  by (simp_all add: chunk_bytes_def)

text \<open>The address \<open>a\<close> leads to the byte \<open>i\<close> of the pages \<open>qs\<close>.\<close>

definition byte_address :: "kernel_memory \<Rightarrow> nat list \<Rightarrow> nat \<Rightarrow> addr \<Rightarrow> PagesAttributes \<Rightarrow> bool" where
  "byte_address k qs i a attr \<longleftrightarrow>
     translate (table_for k a) (mem k) a = Some (of_nat (qs ! (i div PAGE_BYTES) * PAGE_BYTES) OR of_nat (i mod PAGE_BYTES), attr)"

lemma mapped_byte_address:
  assumes tbl: "tbl = make_tbl kd top_table number" "active tbl k" "tables_ok tbl (mem k) F" and p: "v + i div PAGE_BYTES < PAGES"
    and m: "page_map tbl (mem k) (v + i div PAGE_BYTES) = Some (qs ! (i div PAGE_BYTES), attr)"
  shows "byte_address k qs i (page_va kd v + of_nat i) attr"
proof -
  define p where "p = v + i div PAGE_BYTES"
  have p: "p < PAGES" using assms(4) by (simp add: p_def)
  have o': "i mod PAGE_BYTES < PAGE_BYTES" by simp
  have "i = i div PAGE_BYTES * PAGE_BYTES + i mod PAGE_BYTES" by simp
  then have "of_nat i = (of_nat (i div PAGE_BYTES * PAGE_BYTES) + of_nat (i mod PAGE_BYTES) :: addr)" by (metis of_nat_add)
  then have va: "page_va kd v + of_nat i = page_va kd p + of_nat (i mod PAGE_BYTES)"
    using page_va_add [of kd v "i div PAGE_BYTES"] by (simp only: p_def add.assoc [symmetric])
  have "table_for k (page_va kd v + of_nat i) = table_for k (page_va kd p)" unfolding table_for_def va page_offset_bits(3) [OF p o'] ..
  then have t: "translate (table_for k (page_va kd v + of_nat i)) (mem k) = translate tbl (mem k)" using translate_active [OF tbl(1,2) p] by simp
  have "page_map tbl (mem k) p = Some (qs ! (i div PAGE_BYTES), attr)" using m by (simp add: p_def)
  then show ?thesis unfolding byte_address_def t unfolding va translate_offset [OF tbl(1,3) p o'] by simp
qed

lemma chunk_address:
  assumes c: "chunk_at k F v qs" and i: "i < length qs * PAGE_BYTES"
  shows "byte_address k qs i (page_va Kernel v + of_nat i) custom_memory_rw"
proof -
  obtain top_table number where tbl: "kernel_tbl k = make_tbl Kernel top_table number" using c by (auto simp: chunk_at_def)
  have q: "i div PAGE_BYTES < length qs" using i by (simp add: less_mult_imp_div_less)
  have "tables_ok (kernel_tbl k) (mem k) F" "v + i div PAGE_BYTES < PAGES"
    "page_map (kernel_tbl k) (mem k) (v + i div PAGE_BYTES) = Some (qs ! (i div PAGE_BYTES), custom_memory_rw)"
    using c q by (simp_all add: chunk_at_def)
  then show ?thesis by (intro mapped_byte_address [OF tbl]) (simp_all add: active_def tbl)
qed

lemma load_at:
  assumes "\<forall>q \<in> set qs. q < PAGES" "i < length qs * PAGE_BYTES" "byte_address k qs i a attr"
  shows "load_byte k a = ok (chunk_bytes k qs ! i)"
proof -
  have "i div PAGE_BYTES < length qs" using assms(2) by (simp add: less_mult_imp_div_less)
  then have "qs ! (i div PAGE_BYTES) < PAGES" using assms(1) by simp
  then show ?thesis
    using assms(3) offset_frame [of "qs ! (i div PAGE_BYTES)" "i mod PAGE_BYTES"] assms(2)
    by (simp add: load_byte_def page_byte_def byte_address_def Let_def del: of_nat_mult)
qed

lemma chunk_load:
  assumes "chunk_at k F v qs" "i < length qs * PAGE_BYTES"
  shows "load_byte k (page_va Kernel v + of_nat i) = ok (chunk_bytes k qs ! i)"
proof (rule load_at [OF _ assms(2) chunk_address [OF assms]])
  show "\<forall>q \<in> set qs. q < PAGES" using assms(1) by (auto simp: chunk_at_def in_set_conv_nth)
qed

lemma read_only_faults:
  assumes "byte_address k qs i a attr" "rw attr \<noteq> 0"
  shows "store_byte a b k = Inl Undefined"
  using assms by (simp add: store_byte_def byte_address_def)

lemma chunk_store:
  assumes c: "chunk_at k F v qs" and i: "i < length qs * PAGE_BYTES" and a: "byte_address k qs i a attr" "rw attr = 0"
  obtains k' where "store_byte a b k = ok k'" "chunk_at k' F v qs" "chunk_bytes k' qs = (chunk_bytes k qs)[i := b]"
    "pages (mem k') = pages (mem k)" "\<And>u. u \<notin> page_va Kernel ` set qs \<Longrightarrow> tables (mem k') u = tables (mem k) u" "kernel_tbl k' = kernel_tbl k"
proof -
  define j where "j = i div PAGE_BYTES"
  define q where "q = qs ! j"
  define d where "d = i mod PAGE_BYTES"
  have j: "j < length qs" using i by (simp add: less_mult_imp_div_less j_def)
  have q: "q < PAGES" "page_va Kernel q \<notin> F" "q \<in> set qs" using c j by (simp_all add: chunk_at_def q_def)
  have d: "d < PAGE_BYTES" by (simp add: d_def)
  define w where "w = tables (mem k) (page_va Kernel q) (d div 8)"
  define k' where "k' = k\<lparr>mem := set_entry (mem k) (page_va Kernel q) (d div 8) (set_byte w (d mod 8) b)\<rparr>"
  have st: "store_byte a b k = ok k'"
    using a offset_frame [OF q(1) d] unfolding byte_address_def q_def [symmetric] j_def [symmetric] d_def [symmetric]
    by (simp add: store_byte_def k'_def w_def Let_def del: of_nat_mult)
  have other: "tables (mem k') u = tables (mem k) u" if "u \<noteq> page_va Kernel q" for u using that by (simp add: k'_def)
  have same: "tables (mem k') u = tables (mem k) u" if "u \<in> F" for u by (rule other) (use that q(2) in auto)
  have ok: "tables_ok (kernel_tbl k) (mem k) F" using c by (simp add: chunk_at_def)
  have "tables_ok (kernel_tbl k) (mem k') F"
    using ok tree_frame [of mmu_resolve_pa 3 "tables (mem k)" "pgd (kernel_tbl k)" F "tables (mem k')", OF _ same] by (simp add: tables_ok_def k'_def)
  then have at: "chunk_at k' F v qs" using c page_map_frame [OF ok same] by (simp add: chunk_at_def k'_def)
  have byte: "page_byte (mem k') q' off = (if q' = q \<and> off = d then b else page_byte (mem k) q' off)" if "q' < PAGES" for q' off
  proof (cases "q' = q \<and> off div 8 = d div 8")
    case True
    then have "off = d \<longleftrightarrow> off mod 8 = d mod 8" by (metis div_mult_mod_eq)
    then show ?thesis using True by (simp add: page_byte_def k'_def byte_of_set_byte w_def)
  next
    case False
    then have "tables (mem k') (page_va Kernel q') (off div 8) = tables (mem k) (page_va Kernel q') (off div 8)"
      using other page_va_inj [OF that q(1), of Kernel] by (cases "q' = q") (simp_all add: k'_def)
    then show ?thesis using False by (auto simp: page_byte_def)
  qed
  have "chunk_bytes k' qs = (chunk_bytes k qs)[i := b]"
  proof (rule nth_equalityI)
    fix x
    assume "x < length (chunk_bytes k' qs)"
    then have x: "x < length qs * PAGE_BYTES" by simp
    have xj: "x div PAGE_BYTES < length qs" using x by (simp add: less_mult_imp_div_less)
    then have "qs ! (x div PAGE_BYTES) < PAGES" "qs ! (x div PAGE_BYTES) = q \<longleftrightarrow> x div PAGE_BYTES = j"
      using c j nth_eq_iff_index_eq [of qs] by (simp_all add: chunk_at_def q_def)
    moreover have "x = i \<longleftrightarrow> x div PAGE_BYTES = j \<and> x mod PAGE_BYTES = d" unfolding j_def d_def by (metis div_mult_mod_eq)
    ultimately show "chunk_bytes k' qs ! x = (chunk_bytes k qs)[i := b] ! x" using x i byte by (auto simp: nth_list_update)
  qed simp
  moreover have "pages (mem k') = pages (mem k)" by (simp add: k'_def)
  moreover have "tables (mem k') u = tables (mem k) u" if "u \<notin> page_va Kernel ` set qs" for u
    by (rule other) (use that q(3) in auto)
  ultimately show thesis by (rule that [OF st at]) (simp_all add: k'_def)
qed

text \<open>Copying several bytes.\<close>

definition overwrite :: "'b list \<Rightarrow> nat \<Rightarrow> 'b list \<Rightarrow> 'b list" where
  "overwrite xs i ys = take i xs @ ys @ drop (i + length ys) xs"

lemma overwrite_Cons: "i < length xs \<Longrightarrow> overwrite (xs[i := y]) (Suc i) ys = overwrite xs i (y # ys)"
  by (simp add: overwrite_def take_Suc_conv_app_nth)

lemma address_Suc: "page_va k v + of_nat i + 1 = page_va k v + (of_nat (Suc i) :: addr)"
  by simp

lemma chunk_store_bytes:
  "chunk_at k F v qs \<Longrightarrow> i + length bs \<le> length qs * PAGE_BYTES \<Longrightarrow>
    \<exists>k'. store_bytes (page_va Kernel v + of_nat i) bs k = ok k' \<and> chunk_at k' F v qs \<and> chunk_bytes k' qs = overwrite (chunk_bytes k qs) i bs
      \<and> pages (mem k') = pages (mem k) \<and> (\<forall>u. u \<notin> page_va Kernel ` set qs \<longrightarrow> tables (mem k') u = tables (mem k) u)"
proof (induction bs arbitrary: i k)
  case Nil
  then show ?case by (simp add: overwrite_def)
next
  case (Cons b bs)
  have i: "i < length qs * PAGE_BYTES" using Cons.prems(2) by simp
  obtain k1 where k1: "store_byte (page_va Kernel v + of_nat i) b k = ok k1" "chunk_at k1 F v qs" "chunk_bytes k1 qs = (chunk_bytes k qs)[i := b]"
    "pages (mem k1) = pages (mem k)" "\<And>u. u \<notin> page_va Kernel ` set qs \<Longrightarrow> tables (mem k1) u = tables (mem k) u"
    by (rule chunk_store [OF Cons.prems(1) i chunk_address [OF Cons.prems(1) i]]) (simp add: custom_memory_rw_def, rule that)
  obtain k2 where "store_bytes (page_va Kernel v + of_nat (Suc i)) bs k1 = ok k2" "chunk_at k2 F v qs"
    "chunk_bytes k2 qs = overwrite (chunk_bytes k1 qs) (Suc i) bs" "pages (mem k2) = pages (mem k1)"
    "\<forall>u. u \<notin> page_va Kernel ` set qs \<longrightarrow> tables (mem k2) u = tables (mem k1) u"
    using Cons.IH [OF k1(2), of "Suc i"] Cons.prems(2) by auto
  then show ?case using k1 overwrite_Cons [of i "chunk_bytes k qs" b bs] i
    unfolding store_bytes.simps address_Suc by (intro exI [of _ k2]) simp
qed

lemma chunk_load_bytes:
  "chunk_at k F v qs \<Longrightarrow> i + n \<le> length qs * PAGE_BYTES \<Longrightarrow> load_bytes (page_va Kernel v + of_nat i) n k = ok (take n (drop i (chunk_bytes k qs)))"
proof (induction n arbitrary: i)
  case (Suc n)
  have i: "i < length qs * PAGE_BYTES" using Suc.prems(2) by simp
  have "load_bytes (page_va Kernel v + of_nat (Suc i)) n k = ok (take n (drop (Suc i) (chunk_bytes k qs)))"
    by (rule Suc.IH [OF Suc.prems(1)]) (use Suc.prems(2) in simp)
  then show ?case
    using chunk_load [OF Suc.prems(1) i] i Cons_nth_drop_Suc [of i "chunk_bytes k qs", symmetric]
    unfolding load_bytes.simps address_Suc by simp
qed simp

lemma chunk_size:
  assumes "chunk_ok k F qs c"
  shows "unat (chunk_byte_size c) = length qs * PAGE_BYTES" "kernel_va c \<noteq> 0"
proof -
  obtain v where v: "chunk_at k F v qs" "kernel_va c = page_va Kernel v" "unat (nb_pages c) = length qs" using assms by (auto simp: chunk_ok_def)
  have n: "v < PAGES" "v + length qs \<le> PAGES" using v(1) by (simp_all add: chunk_at_def)
  then show "unat (chunk_byte_size c) = length qs * PAGE_BYTES"
    unfolding chunk_byte_size_def v(3) [symmetric] by (subst unat_mult_no_wrap) (simp_all add: v(3))
  have "unat (kernel_va c) \<noteq> 0" unfolding v(2) unat_page_va [OF n(1)] base_unat by simp
  then show "kernel_va c \<noteq> 0" by (metis unat_0)
qed

lemma chunk_outside:
  assumes "chunk_ok k F qs c" "\<not> unat off < length qs * PAGE_BYTES"
  shows "chunk_write c off data k = ok (0, k)" "chunk_read c off count k = ok (0, [])"
  using assms(2) chunk_size [OF assms(1)] by (simp_all add: chunk_write_def chunk_read_def word_le_nat_alt)

lemma chunk_inside:
  assumes c: "chunk_ok k F qs c" and off: "unat off < length qs * PAGE_BYTES" and data: "length data < 2 ^ 64"
  defines "n \<equiv> min (length qs * PAGE_BYTES - unat off) (length data)"
  shows "\<exists>k'. chunk_write c off data k = ok (of_nat n, k') \<and> chunk_ok k' F qs c \<and> chunk_bytes k' qs = overwrite (chunk_bytes k qs) (unat off) (take n data)
      \<and> (\<forall>u. u \<notin> page_va Kernel ` set qs \<longrightarrow> tables (mem k') u = tables (mem k) u)"
    and "chunk_read c off count k
      = ok (min (of_nat (length qs * PAGE_BYTES - unat off)) count, take (unat count) (drop (unat off) (chunk_bytes k qs)))"
proof -
  define L where "L = length qs * PAGE_BYTES"
  obtain v where v: "chunk_at k F v qs" "kernel_va c = page_va Kernel v" "unat (nb_pages c) = length qs" using c by (auto simp: chunk_ok_def)
  have inside: "\<not> (chunk_byte_size c \<le> off \<or> kernel_va c = 0)" using chunk_size [OF c] off by (simp add: word_le_nat_alt)
  have avail: "unat (chunk_byte_size c - off) = L - unat off"
    using chunk_size(1) [OF c] off unfolding L_def by (subst unat_sub_no_wrap) (simp_all add: word_le_nat_alt)
  then have word: "chunk_byte_size c - off = of_nat (L - unat off)" by (metis of_nat_unat ucast_id)
  have len: "unat (of_nat (length data) :: usize) = length data" using data by (simp add: unsigned_of_nat take_bit_nat_eq_self)
  have mins: "min x y = (if unat x \<le> unat y then x else y)" for x y :: usize by (simp add: min_def word_le_nat_alt)
  have tw: "min (chunk_byte_size c - off) (of_nat (length data)) = of_nat n" "unat (min (chunk_byte_size c - off) (of_nat (length data))) = n"
    unfolding mins len avail n_def L_def [symmetric] using avail len by (auto simp: word min_def)
  have va: "kernel_va c + off = page_va Kernel v + of_nat (unat off)" unfolding v(2) by simp
  have fit: "unat off + length (take n data) \<le> length qs * PAGE_BYTES" using off by (simp add: n_def)
  obtain k' where k': "store_bytes (page_va Kernel v + of_nat (unat off)) (take n data) k = ok k'" "chunk_at k' F v qs"
      "chunk_bytes k' qs = overwrite (chunk_bytes k qs) (unat off) (take n data)"
      "\<forall>u. u \<notin> page_va Kernel ` set qs \<longrightarrow> tables (mem k') u = tables (mem k) u"
    using chunk_store_bytes [OF v(1) fit] by blast
  have un: "unat (of_nat n :: usize) = n" using tw by simp
  have "chunk_write c off data k = ok (of_nat n, k')"
    unfolding chunk_write_def if_not_P [OF inside] Let_def min_k_eq tw(1) un va k'(1) by simp
  moreover have "chunk_ok k' F qs c" using k'(2) v by (auto simp: chunk_ok_def)
  ultimately show "\<exists>k'. chunk_write c off data k = ok (of_nat n, k') \<and> chunk_ok k' F qs c
      \<and> chunk_bytes k' qs = overwrite (chunk_bytes k qs) (unat off) (take n data)
      \<and> (\<forall>u. u \<notin> page_va Kernel ` set qs \<longrightarrow> tables (mem k') u = tables (mem k) u)" using k' by blast
  have tr: "unat (min (chunk_byte_size c - off) count) = min (L - unat off) (unat count)" unfolding mins avail by (simp add: min_def avail)
  have fit: "unat off + min (L - unat off) (unat count) \<le> length qs * PAGE_BYTES" using off unfolding L_def by simp
  have "take (min (L - unat off) (unat count)) (drop (unat off) (chunk_bytes k qs)) = take (unat count) (drop (unat off) (chunk_bytes k qs))"
    by (simp add: L_def min_def)
  then show "chunk_read c off count k
      = ok (min (of_nat (length qs * PAGE_BYTES - unat off)) count, take (unat count) (drop (unat off) (chunk_bytes k qs)))"
    unfolding chunk_read_def if_not_P [OF inside] Let_def min_k_eq tr va chunk_load_bytes [OF v(1) fit] by (simp add: word L_def)
qed

subsection \<open>Creating a chunk\<close>

lemma section_pages_correct:
  assumes tbl: "tbl = make_tbl Kernel top_table number" "top_table \<noteq> 0"
  shows "kernel_tbl k = tbl \<Longrightarrow> custom_pages k = page_va Kernel v \<Longrightarrow> tables_ok tbl (mem k) F \<Longrightarrow> v + n < PAGES
    \<Longrightarrow> 4 * n \<le> pages_left (pages (mem k)) \<Longrightarrow>
    \<exists>st' qs F'. section_pages n ps k = ok (True, ps @ map (\<lambda>q. of_nat (q * PAGE_BYTES)) qs, k\<lparr>mem := st', custom_pages := page_va Kernel (v + n)\<rparr>)
      \<and> length qs = n \<and> extends tbl custom_memory_rw v qs (mem k) F st' F'"
proof (induction n arbitrary: ps k v F)
  case 0
  then show ?case by (intro exI [of _ "mem k"] exI [of _ "[]"] exI [of _ F]) simp
next
  case (Suc n)
  have p: "v < PAGES" using Suc.prems(4) by simp
  have e: "edges_ok Kernel (block_pages tbl (mem k)) v v" using Suc.prems(4) by (auto simp: edges_ok_def)
  have room: "4 \<le> pages_left (pages (mem k))" using Suc.prems(5) by simp
  have attr: "attr_ok custom_memory_rw" "rw custom_memory_rw = 0" by (simp_all add: attr_ok_def custom_memory_rw_def)
  obtain q st1 st2 st3 F' where f: "fresh_page (mem k) = ok (Some (of_nat (q * PAGE_BYTES)), st1)"
    "map_range tbl (page_va Kernel v) (page_va Kernel v) (of_nat (q * PAGE_BYTES)) custom_memory_rw st1 = ok (True, st2)"
    "\<And>tbl'. translate tbl' st2 = translate tbl st2 \<Longrightarrow> zero_through tbl' (page_va Kernel v) st2 = ok st3" "gains tbl custom_memory_rw v q (mem k) F st3 F'"
    by (rule map_fresh_page [OF tbl Suc.prems(3) p e room attr]) (rule that)
  have zero: "zero_at (page_va Kernel v) (k\<lparr>mem := st2\<rparr>) = ok (k\<lparr>mem := st3\<rparr>)"
    using f(3) [of "table_for (k\<lparr>mem := st2\<rparr>) (page_va Kernel v)"] translate_active [OF tbl(1) _ p, of "k\<lparr>mem := st2\<rparr>" st2] Suc.prems(1)
    by (simp add: zero_at_def active_def tbl(1))
  define k1 where "k1 = k\<lparr>mem := st3, custom_pages := page_va Kernel (Suc v)\<rparr>"
  have "page_va Kernel v + PAGE_BYTES = page_va Kernel (Suc v)" by (rule page_va_next)
  then have step: "section_pages (Suc n) ps k = section_pages n (ps @ [of_nat (q * PAGE_BYTES)]) k1"
    using f(1,2) zero Suc.prems(1,2) by (simp add: k1_def)
  have k1: "kernel_tbl k1 = tbl" "custom_pages k1 = page_va Kernel (Suc v)" "tables_ok tbl (mem k1) F'" "Suc v + n < PAGES"
      "4 * n \<le> pages_left (pages (mem k1))"
    using Suc.prems(1,4,5) f(4) by (simp_all add: k1_def gains_def)
  obtain st' qs F'' where r: "section_pages n (ps @ [of_nat (q * PAGE_BYTES)]) k1
        = ok (True, ps @ map (\<lambda>q. of_nat (q * PAGE_BYTES)) (q # qs), k1\<lparr>mem := st', custom_pages := page_va Kernel (Suc v + n)\<rparr>)"
      "length qs = n" "extends tbl custom_memory_rw (Suc v) qs (mem k1) F' st' F''"
    using Suc.IH [OF k1, of "ps @ [of_nat (q * PAGE_BYTES)]"] by auto
  have "extends tbl custom_memory_rw v (q # qs) (mem k) F st' F''" using f(4) r(3) by (auto simp: k1_def)
  moreover have "k1\<lparr>mem := st', custom_pages := page_va Kernel (Suc v + n)\<rparr> = k\<lparr>mem := st', custom_pages := page_va Kernel (v + Suc n)\<rparr>"
    by (simp add: k1_def)
  moreover have "length (q # qs) = Suc n" using r(2) by simp
  ultimately show ?case using r(1) unfolding step by (intro exI [of _ st'] exI [of _ "q # qs"] exI [of _ F'']) (simp only: simp_thms)
qed

text \<open>
  Creating a chunk: when four pages are left for each page of the chunk, it gets distinct pages that were free, mapped one
  after the other from the next free virtual address of the kernel's sections on; all its bytes are 0, other memory in use
  keeps its content, and the pages behind the chunk are a guard of one page.
\<close>

lemma new_chunk:
  assumes "kernel_tbl k = make_tbl Kernel top_table number" and "top_table \<noteq> 0" and "tables_ok (kernel_tbl k) (mem k) F"
    and "custom_pages k = page_va Kernel v" and "v + n < PAGES" and "4 * n \<le> pages_left (pages (mem k))"
  shows "\<exists>c k' qs F'. MemoryChunk_new n k = ok (c, k') \<and> chunk_ok k' F' qs c \<and> length qs = n \<and> kernel_va c = page_va Kernel v
      \<and> pas c = Some (map (\<lambda>q. of_nat (q * PAGE_BYTES)) qs) \<and> mappings c = []
      \<and> chunk_bytes k' qs = replicate (n * PAGE_BYTES) 0 \<and> custom_pages k' = page_va Kernel (v + n + 1)
      \<and> extended (kernel_tbl k) custom_memory_rw v qs (mem k) F (mem k') F'"
proof -
  obtain st' qs F' where r: "section_pages n [] k = ok (True, map (\<lambda>q. of_nat (q * PAGE_BYTES)) qs, k\<lparr>mem := st', custom_pages := page_va Kernel (v + n)\<rparr>)"
      "length qs = n" "extends (kernel_tbl k) custom_memory_rw v qs (mem k) F st' F'"
    using section_pages_correct [OF assms(1,2) refl assms(4,3,5,6), of "[]"] assms(1) by auto
  have x: "extended (kernel_tbl k) custom_memory_rw v qs (mem k) F st' F'" by (rule extends_extended [OF r(3) assms(3)])
  define k' where "k' = k\<lparr>mem := st', custom_pages := page_va Kernel (v + n + 1)\<rparr>"
  define c where "c = \<lparr>nb_pages = of_nat n, pas = Some (map (\<lambda>q. of_nat (q * PAGE_BYTES)) qs), kernel_va = page_va Kernel v, mappings = []\<rparr>"
  have new: "MemoryChunk_new n k = ok (c, k')"
    using page_va_next [of Kernel "v + n"] by (simp add: MemoryChunk_new_def allocate_pages_section_def r(1) Let_def assms(4) c_def k'_def)
  have fresh: "page_va Kernel (qs ! i) \<notin> F'" if "i < length qs" for i using x that by (simp add: extended_def)
  then have "chunk_at k' F' v qs"
    using x assms(1,5) r(2) unfolding chunk_at_def extended_def k'_def by (intro conjI exI [of _ top_table] exI [of _ number]) simp_all
  then have "chunk_ok k' F' qs c" using r(2) assms(5) by (auto simp: chunk_ok_def c_def unsigned_of_nat take_bit_nat_eq_self)
  moreover have "chunk_bytes k' qs = replicate (n * PAGE_BYTES) 0"
  proof (rule nth_equalityI)
    fix i
    assume "i < length (chunk_bytes k' qs)"
    then have i: "i < length qs * PAGE_BYTES" by simp
    then have "qs ! (i div PAGE_BYTES) \<in> set qs" by (simp add: less_mult_imp_div_less)
    then have "tables st' (page_va Kernel (qs ! (i div PAGE_BYTES))) = (\<lambda>_. 0)" using x by (simp add: extended_def)
    then show "chunk_bytes k' qs ! i = replicate (n * PAGE_BYTES) 0 ! i" using i r(2) by (simp add: page_byte_def k'_def byte_of_def)
  qed (simp add: r(2))
  ultimately show ?thesis using new x r(2) by (simp add: c_def k'_def) blast
qed

subsection \<open>Properties\<close>

definition chunk_kernel :: kernel_memory where
  "chunk_kernel = example_kernel\<lparr>kernel_tbl := make_tbl Kernel KERNEL_BASE 0\<rparr>"

lemma chunk_kernel_ok:
  "kernel_tbl chunk_kernel = make_tbl Kernel KERNEL_BASE 0" "tables_ok (kernel_tbl chunk_kernel) (mem chunk_kernel) {KERNEL_BASE}"
  "custom_pages chunk_kernel = page_va Kernel 0x300000000" "pages_left (pages (mem chunk_kernel)) = 8"
  using example_ok by (simp_all add: chunk_kernel_def example_kernel_def CUSTOM_PAGES_MEMORY_def page_va_def get_base_address_def tables_ok_def
      example_tbl_def example_mem_def)

text \<open>
  C29. A memory chunk is an array of bytes: writing \<open>data\<close> at an offset inside the chunk overwrites exactly the bytes from the
  offset on, up to the end of the chunk, returns their number, and changes no other memory; reading returns the bytes from the
  offset on, as many as asked for and as there are. Reading and writing behind the end transfers nothing.
\<close>

theorem chunk_is_a_byte_array:
  assumes "chunk_ok k F qs c" and "length data < 2 ^ 64"
  shows "(\<exists>k'. let n = min (length qs * PAGE_BYTES - unat off) (length data) in
        chunk_write c off data k = ok (of_nat n, k') \<and> chunk_ok k' F qs c
        \<and> chunk_bytes k' qs = overwrite (chunk_bytes k qs) (unat off) (take n data)
        \<and> (\<forall>u. u \<notin> page_va Kernel ` set qs \<longrightarrow> tables (mem k') u = tables (mem k) u))
    \<and> chunk_read c off count k
      = ok (min (of_nat (length qs * PAGE_BYTES - unat off)) count, take (unat count) (drop (unat off) (chunk_bytes k qs)))"
proof (cases "unat off < length qs * PAGE_BYTES")
  case True
  then show ?thesis using chunk_inside [OF assms(1) _ assms(2)] by (simp add: Let_def)
next
  case False
  then have "overwrite (chunk_bytes k qs) (unat off) [] = chunk_bytes k qs" by (simp add: overwrite_def)
  then show ?thesis using chunk_outside [OF assms(1) False] False assms(1) by (simp add: Let_def)
qed

theorem chunk_is_a_byte_array_witness:
  "\<exists>k F qs c. chunk_ok k F qs c \<and> length qs = 2 \<and>
    (\<exists>k'. let n = min (length qs * PAGE_BYTES - unat (10 :: usize)) (length [1, 2, 3 :: u8]) in
        chunk_write c 10 [1, 2, 3] k = ok (of_nat n, k') \<and> chunk_ok k' F qs c
        \<and> chunk_bytes k' qs = overwrite (chunk_bytes k qs) (unat (10 :: usize)) (take n [1, 2, 3])
        \<and> (\<forall>u. u \<notin> page_va Kernel ` set qs \<longrightarrow> tables (mem k') u = tables (mem k) u))
    \<and> chunk_read c 10 5 k
      = ok (min (of_nat (length qs * PAGE_BYTES - unat (10 :: usize))) 5, take (unat (5 :: usize)) (drop (unat (10 :: usize)) (chunk_bytes k qs)))"
proof -
  obtain c k qs F where c: "chunk_ok k F qs c" "length qs = 2"
    using new_chunk [OF chunk_kernel_ok(1) _ chunk_kernel_ok(2,3), of 2] chunk_kernel_ok(4) by auto
  have "length [1, 2, 3 :: u8] < 2 ^ 64" by simp
  from chunk_is_a_byte_array [OF c(1) this, of 10 5] c show ?thesis by blast
qed

end
