(* ===== verification/Process_Memory.thy ===== *)
theory Process_Memory
  imports Memory_Chunk
begin

text \<open>
  The memory of a process (\<^verbatim>\<open>kernel/memory/process_memory.cpp\<close>) and its buffers (\<^verbatim>\<open>kernel/memory/buffer.cpp\<close>): a table of its
  own, a heap, a stack and the chunks and buffers mapped into its address space. Chunks, buffers and processes refer to each
  other by identifiers in the state. The main result is that a chunk mapped into a process is the same memory there as in the
  kernel, and that no other address space changes.
\<close>

subsection \<open>State\<close>

record Buffer =
  buffer_pa_start :: addr
  buffer_pa_end :: addr
  buffer_kernel_va :: addr
  buffer_mappings :: "ProcessMapped list"

record MappedSections =
  sec_start :: addr
  is_buffer :: bool
  sec_mem :: nat

record ProcessMemory =
  ptbl :: "page_alloc_list MMUTable"
  heap :: HeapManager
  stack :: nat
  secs :: "MappedSections list"

record memory_world =
  kernel :: kernel_memory
  chunks :: "nat \<Rightarrow> MemoryChunk"
  buffers :: "nat \<Rightarrow> Buffer"
  processes :: "nat \<Rightarrow> ProcessMemory"
  new_asid :: u8

definition set_chunk :: "nat \<Rightarrow> MemoryChunk \<Rightarrow> memory_world \<Rightarrow> memory_world" where
  "set_chunk c x w = w\<lparr>chunks := (chunks w)(c := x)\<rparr>"

definition set_buffer :: "nat \<Rightarrow> Buffer \<Rightarrow> memory_world \<Rightarrow> memory_world" where
  "set_buffer b x w = w\<lparr>buffers := (buffers w)(b := x)\<rparr>"

definition set_process :: "nat \<Rightarrow> ProcessMemory \<Rightarrow> memory_world \<Rightarrow> memory_world" where
  "set_process p x w = w\<lparr>processes := (processes w)(p := x)\<rparr>"

definition set_mem :: "kmem \<Rightarrow> memory_world \<Rightarrow> memory_world" where
  "set_mem st w = w\<lparr>kernel := (kernel w)\<lparr>mem := st\<rparr>\<rparr>"

subsection \<open>Buffers\<close>

definition Buffer_new :: "u32 \<Rightarrow> kernel_memory \<Rightarrow> (Buffer \<times> kernel_memory) outcome" where
  "Buffer_new byte_size k =
     bindE (allocate_buffer_pa (unat ((byte_size + 4096 - 1) div 4096)) k) (\<lambda>(r, k).
       case r of
         None \<Rightarrow> Inl Panic
       | Some (pa_start, pa_end) \<Rightarrow>
           bindE (map_buffer pa_start pa_end k) (\<lambda>(va, k).
             ok (\<lparr>buffer_pa_start = pa_start, buffer_pa_end = pa_end, buffer_kernel_va = va, buffer_mappings = []\<rparr>, k)))"

definition buffer_byte_size :: "Buffer \<Rightarrow> usize" where
  "buffer_byte_size b = buffer_pa_end b - buffer_pa_start b + PAGE_BYTES"

definition buffer_end_address :: "Buffer \<Rightarrow> addr \<Rightarrow> addr" where
  "buffer_end_address b start = start + buffer_byte_size b - PAGE_BYTES"

definition register_buffer :: "nat \<Rightarrow> addr \<Rightarrow> Buffer \<Rightarrow> Buffer" where
  "register_buffer p start b = b\<lparr>buffer_mappings := buffer_mappings b @ [\<lparr>chunk_start = start, proc = p\<rparr>]\<rparr>"

definition unregister_buffer :: "nat \<Rightarrow> Buffer \<Rightarrow> Buffer outcome" where
  "unregister_buffer p b =
     (case erase_first (\<lambda>m. proc m = p) (buffer_mappings b) of None \<Rightarrow> Inl Panic | Some ms \<Rightarrow> ok (b\<lparr>buffer_mappings := ms\<rparr>))"

subsection \<open>Mapping into a process\<close>

definition get_properties :: "bool \<Rightarrow> bool \<Rightarrow> PagesAttributes" where
  "get_properties read_only executable =
     \<lparr>sh = InnerShareable, exec = (if executable then ProcessExecute else NeverExecute), rw = (if read_only then ReadOnly else ReadWrite),
      access = AllProcess, mem_type = Normal\<rparr>"

text \<open>The loop of \<^verbatim>\<open>map_chunk\<close> for \<open>n\<close> more pages from \<open>page_id\<close> on; an element of the array that was never written is
  undefined.\<close>

fun map_pages :: "page_alloc_list MMUTable \<Rightarrow> addr \<Rightarrow> addr list \<Rightarrow> PagesAttributes \<Rightarrow> nat \<Rightarrow> nat \<Rightarrow> kmem \<Rightarrow> (bool \<times> kmem) outcome" where
  "map_pages tbl start_va frames attr 0 page_id st = ok (True, st)"
| "map_pages tbl start_va frames attr (Suc n) page_id st =
     (if length frames \<le> page_id then Inl Undefined
      else
        let va = start_va + of_nat page_id * PAGE_BYTES in
        bindE (map_range tbl va va (frames ! page_id) attr st) (\<lambda>(mapped, st).
          if \<not> mapped then ok (False, st) else map_pages tbl start_va frames attr n (Suc page_id) st))"

text \<open>\<^verbatim>\<open>ProcessMemory::map_chunk\<close> and \<^verbatim>\<open>ProcessMemory::map_buffer\<close> for the process \<open>p\<close>.\<close>

definition add_section :: "nat \<Rightarrow> MappedSections \<Rightarrow> memory_world \<Rightarrow> memory_world" where
  "add_section p s w = set_process p ((processes w p)\<lparr>secs := secs (processes w p) @ [s]\<rparr>) w"

definition map_chunk :: "nat \<Rightarrow> nat \<Rightarrow> addr \<Rightarrow> bool \<Rightarrow> bool \<Rightarrow> memory_world \<Rightarrow> (bool \<times> memory_world) outcome" where
  "map_chunk p c start_va read_only executable w =
     (case pas (chunks w c) of
        None \<Rightarrow> ok (False, w)
      | Some frames \<Rightarrow>
          bindE (map_pages (ptbl (processes w p)) start_va frames (get_properties read_only executable) (unat (nb_pages (chunks w c))) 0
                   (mem (kernel w))) (\<lambda>(mapped, st).
            if \<not> mapped then ok (False, set_mem st w)
            else
              ok (True, set_chunk c (register_chunk p start_va (chunks w c))
                (add_section p \<lparr>sec_start = start_va, is_buffer = False, sec_mem = c\<rparr> (set_mem st w)))))"

definition map_process_buffer :: "nat \<Rightarrow> nat \<Rightarrow> addr \<Rightarrow> bool \<Rightarrow> bool \<Rightarrow> memory_world \<Rightarrow> (bool \<times> memory_world) outcome" where
  "map_process_buffer p b start_va read_only executable w =
     (let buffer = buffers w b in
      if buffer_pa_start buffer = 0 then ok (False, w)
      else
        let buffer_va_end = start_va + buffer_pa_end buffer - buffer_pa_start buffer in
        bindE (map_range (ptbl (processes w p)) start_va buffer_va_end (buffer_pa_start buffer) (get_properties read_only executable)
                 (mem (kernel w))) (\<lambda>(mapped, st).
          if \<not> mapped then ok (False, set_mem st w)
          else
            ok (True, set_buffer b (register_buffer p start_va buffer)
              (add_section p \<lparr>sec_start = start_va, is_buffer = True, sec_mem = b\<rparr> (set_mem st w)))))"

subsection \<open>Mapped sections\<close>

definition section_at :: "nat \<Rightarrow> addr \<Rightarrow> memory_world \<Rightarrow> MappedSections option" where
  "section_at p start_address w = List.find (\<lambda>s. sec_start s = start_address) (secs (processes w p))"

definition section_end :: "MappedSections \<Rightarrow> memory_world \<Rightarrow> addr" where
  "section_end s w =
     (if is_buffer s then buffer_end_address (buffers w (sec_mem s)) (sec_start s) else chunk_end_address (chunks w (sec_mem s)) (sec_start s))"

definition unregister_section :: "nat \<Rightarrow> MappedSections \<Rightarrow> memory_world \<Rightarrow> memory_world outcome" where
  "unregister_section p s w =
     (if is_buffer s then bindE (unregister_buffer p (buffers w (sec_mem s))) (\<lambda>b. ok (set_buffer (sec_mem s) b w))
      else bindE (unregister_chunk p (chunks w (sec_mem s))) (\<lambda>c. ok (set_chunk (sec_mem s) c w)))"

text \<open>\<^verbatim>\<open>unmap_memory\<close>; a range that cannot be unmapped is only logged.\<close>

definition unmap_memory :: "nat \<Rightarrow> addr \<Rightarrow> memory_world \<Rightarrow> memory_world outcome" where
  "unmap_memory p start_address w =
     (case section_at p start_address w of
        None \<Rightarrow> ok w
      | Some s \<Rightarrow>
          bindE (unmap_range (ptbl (processes w p)) (sec_start s) (section_end s w) (mem (kernel w))) (\<lambda>(_, st).
            bindE (unregister_section p s (set_mem st w)) (\<lambda>w.
              ok (set_process p ((processes w p)\<lparr>secs := the (erase_first (\<lambda>s. sec_start s = start_address) (secs (processes w p)))\<rparr>) w))))"

definition change_memory_attr :: "nat \<Rightarrow> addr \<Rightarrow> bool \<Rightarrow> bool \<Rightarrow> memory_world \<Rightarrow> (bool \<times> memory_world) outcome" where
  "change_memory_attr p start_address read_only executable w =
     (case section_at p start_address w of
        None \<Rightarrow> ok (False, w)
      | Some s \<Rightarrow>
          bindE (change_attr_range (ptbl (processes w p)) (sec_start s) (section_end s w) (get_properties read_only executable) (mem (kernel w)))
            (\<lambda>(changed, st). ok (changed, set_mem st w)))"

definition is_read_only :: "nat \<Rightarrow> addr \<Rightarrow> memory_world \<Rightarrow> bool" where
  "is_read_only p va w =
     (case get_attr (ptbl (processes w p)) (mem (kernel w)) va of None \<Rightarrow> True | Some attr \<Rightarrow> rw attr = ReadOnly)"

definition is_executable :: "nat \<Rightarrow> addr \<Rightarrow> memory_world \<Rightarrow> bool" where
  "is_executable p va w =
     (case get_attr (ptbl (processes w p)) (mem (kernel w)) va of None \<Rightarrow> True | Some attr \<Rightarrow> exec attr = ProcessExecute)"

subsection \<open>Creation and destruction\<close>

text \<open>\<^verbatim>\<open>ProcessMemory::ProcessMemory\<close> for the new process \<open>p\<close>, whose stack is the new chunk \<open>c\<close>.\<close>

definition ProcessMemory_new :: "nat \<Rightarrow> nat \<Rightarrow> usize \<Rightarrow> memory_world \<Rightarrow> memory_world outcome" where
  "ProcessMemory_new p c minimum_stack_byte_size w =
     bindE (new_process_tbl (new_asid w) (mem (kernel w))) (\<lambda>(tbl, st).
       let w = (set_mem st w)\<lparr>new_asid := new_asid w + 1\<rparr> in
       bindE (MemoryChunk_new (unat (div_round_up minimum_stack_byte_size PAGE_BYTES)) (kernel w)) (\<lambda>(chunk, k).
         let w = set_process p \<lparr>ptbl = tbl, heap = HeapManager_init Heap_Process, stack = c, secs = []\<rparr> (set_chunk c chunk (w\<lparr>kernel := k\<rparr>)) in
         if \<not> chunk_status_okay chunk then Inl Panic
         else bindE (map_chunk p c PROCESS_STACK_BASE False False w) (\<lambda>(_, w). ok w)))"

definition get_stack_end :: addr where
  "get_stack_end = PROCESS_STACK_BASE"

definition get_stack_start :: "nat \<Rightarrow> memory_world \<Rightarrow> addr" where
  "get_stack_start p w = PROCESS_STACK_BASE + chunk_byte_size (chunks w (stack (processes w p)))"

definition change_process_heap_end :: "nat \<Rightarrow> u64 \<Rightarrow> nat \<Rightarrow> int \<Rightarrow> memory_world \<Rightarrow> (addr \<times> memory_world) outcome" where
  "change_process_heap_end fuel flags p byte_offset w =
     (let m = processes w p in
      bindE (change_heap_end fuel flags (ptbl m) byte_offset (heap m) (kernel w)) (\<lambda>(va, h, k).
        ok (va, set_process p (m\<lparr>heap := h\<rparr>) (w\<lparr>kernel := k\<rparr>))))"

definition activate :: "nat \<Rightarrow> memory_world \<Rightarrow> memory_world" where
  "activate p w = w\<lparr>kernel := (kernel w)\<lparr>ttbr0 := mmu_resolve_pa (resolve_table_pgd (ptbl (processes w p)))\<rparr>\<rparr>"

definition deactivate :: "memory_world \<Rightarrow> memory_world" where
  "deactivate w = w\<lparr>kernel := (kernel w)\<lparr>ttbr0 := 0\<rparr>\<rparr>"

text \<open>The loops over \<^verbatim>\<open>_sec\<close> and \<^verbatim>\<open>_proc\<close> in the destructors: \<^verbatim>\<open>unmap_memory\<close> erases the entry that the loop stands on, and
  the step to the next entry reads the freed node.\<close>

definition unmap_sections :: "nat \<Rightarrow> memory_world \<Rightarrow> memory_world outcome" where
  "unmap_sections p w =
     (case secs (processes w p) of [] \<Rightarrow> ok w | s # _ \<Rightarrow> bindE (unmap_memory p (sec_start s) w) (\<lambda>_. Inl Undefined))"

definition ProcessMemory_free :: "nat \<Rightarrow> u64 \<Rightarrow> nat \<Rightarrow> memory_world \<Rightarrow> memory_world outcome" where
  "ProcessMemory_free fuel flags p w =
     (let m = processes w p in
      bindE (heap_free fuel flags (ptbl m) (heap m) (kernel w)) (\<lambda>(h, k).
        bindE (unmap_sections p (set_process p (m\<lparr>heap := h\<rparr>) (w\<lparr>kernel := k\<rparr>))) (\<lambda>w.
          bindE (delete_process_tbl (ptbl (processes w p)) (mem (kernel w))) (\<lambda>(tbl, st).
            ok (set_process p ((processes w p)\<lparr>ptbl := tbl\<rparr>) (set_mem st w))))))"

text \<open>The walk over the entries of a chunk or a buffer, whose list in the state \<open>get\<close> reads; \<open>skipped\<close> are the entries passed so
  far. \<^verbatim>\<open>unregister_mapping\<close> erases the first entry of the process: that is the one the loop stands on, unless one of them was
  skipped. What is left is caught by the assertion behind the loop.\<close>

fun unmap_processes :: "(memory_world \<Rightarrow> ProcessMapped list) \<Rightarrow> ProcessMapped list \<Rightarrow> ProcessMapped list \<Rightarrow> memory_world \<Rightarrow> memory_world outcome" where
  "unmap_processes get skipped [] w = (if get w = [] then ok w else Inl Panic)"
| "unmap_processes get skipped (m # ms) w =
     bindE (unmap_memory (proc m) (chunk_start m) w) (\<lambda>w'.
       if get w' = get w then unmap_processes get (skipped @ [m]) ms w'
       else
         (case erase_first (\<lambda>s. proc s = proc m) skipped of
            None \<Rightarrow> Inl Undefined
          | Some rest \<Rightarrow> unmap_processes get (rest @ [m]) ms w'))"

definition MemoryChunk_destroy :: "nat \<Rightarrow> memory_world \<Rightarrow> memory_world outcome" where
  "MemoryChunk_destroy c w =
     bindE (unmap_processes (\<lambda>w. mappings (chunks w c)) [] (mappings (chunks w c)) w) (\<lambda>w.
       let chunk = chunks w c in
       case pas chunk of
         None \<Rightarrow> Inl Undefined
       | Some frames \<Rightarrow>
           bindE (free_section (unat (nb_pages chunk)) (kernel_va chunk) frames (kernel w)) (\<lambda>k.
             ok (set_chunk c (chunk\<lparr>pas := None, kernel_va := 0\<rparr>) (w\<lparr>kernel := k\<rparr>))))"

definition Buffer_destroy :: "nat \<Rightarrow> memory_world \<Rightarrow> memory_world outcome" where
  "Buffer_destroy b w =
     bindE (unmap_processes (\<lambda>w. buffer_mappings (buffers w b)) [] (buffer_mappings (buffers w b)) w) (\<lambda>w.
       let buffer = buffers w b in
       bindE (unmap_buffer (buffer_kernel_va buffer) (buffer_kernel_va buffer + buffer_pa_end buffer - buffer_pa_start buffer) (kernel w)) (\<lambda>k.
         bindE (free_buffer_pa (buffer_pa_start buffer) (buffer_pa_end buffer) k) (\<lambda>k. ok (w\<lparr>kernel := k\<rparr>))))"

subsection \<open>Mapping the pages of a chunk\<close>

lemma map_pages_correct:
  assumes tbl: "tbl = make_tbl Process top_table number" "top_table \<noteq> 0" and attr: "attr_ok attr" and qs: "\<forall>q \<in> set qs. q < PAGES"
    and s: "0 < s" "s + length qs < PAGES"
  shows "tables_ok tbl st F \<Longrightarrow> i + n = length qs \<Longrightarrow> 3 * n \<le> pages_left (pages st) \<Longrightarrow>
    \<exists>st' F'. map_pages tbl (page_va Process s) (map (\<lambda>q. of_nat (q * PAGE_BYTES)) qs) attr n i st = ok (True, st') \<and> tables_ok tbl st' F'
      \<and> reworked in_use pages_ok st F st' F'
      \<and> (\<forall>x < PAGES. page_map tbl st' x = (if s + i \<le> x \<and> x < s + length qs then Some (qs ! (x - s), attr) else page_map tbl st x))"
proof (induction n arbitrary: i st F)
  case 0
  then show ?case by (intro exI [of _ st] exI [of _ F]) (auto simp: reworked_def tables_ok_def)
next
  case (Suc n)
  define q where "q = qs ! i"
  have i: "i < length qs" using Suc.prems(2) by simp
  have pre: "map_pre (s + i) (s + i) q" using i s qs by (auto simp: map_pre_def q_def)
  have e: "edges_ok Process (block_pages tbl st) (s + i) (s + i)" using s by (simp add: edges_ok_def)
  have "tables_needed 3 0 (s + i) (s + i) \<le> 3" by (rule tables_needed_page)
  then obtain st1 F1 where r: "map_range tbl (page_va Process (s + i)) (page_va Process (s + i)) (of_nat (q * PAGE_BYTES)) attr st = ok (True, st1)"
      "pages_left (pages st) \<le> pages_left (pages st1) + 3" "tables_ok tbl st1 F1" "reworked in_use pages_ok st F st1 F1"
      "\<And>x. x < PAGES \<Longrightarrow> page_map tbl st1 x = remapped (s + i) (s + i) q attr (page_map tbl st) x"
    using map_range_kernel [OF tbl pre attr Suc.prems(1) e] Suc.prems(3) by fastforce
  have va: "page_va Process s + of_nat i * PAGE_BYTES = page_va Process (s + i)" using page_va_add [of Process s i] by simp
  obtain st' F' where r': "map_pages tbl (page_va Process s) (map (\<lambda>q. of_nat (q * PAGE_BYTES)) qs) attr n (Suc i) st1 = ok (True, st')" "tables_ok tbl st' F'"
      "reworked in_use pages_ok st1 F1 st' F'"
      "\<And>x. x < PAGES \<Longrightarrow> page_map tbl st' x = (if s + Suc i \<le> x \<and> x < s + length qs then Some (qs ! (x - s), attr) else page_map tbl st1 x)"
    using Suc.IH [OF r(3), of "Suc i"] Suc.prems(2,3) r(2) by auto
  have "map_pages tbl (page_va Process s) (map (\<lambda>q. of_nat (q * PAGE_BYTES)) qs) attr (Suc n) i st = ok (True, st')"
    using r(1) r'(1) i by (simp add: va Let_def q_def)
  moreover have "page_map tbl st' x = (if s + i \<le> x \<and> x < s + length qs then Some (qs ! (x - s), attr) else page_map tbl st x)" if "x < PAGES" for x
    using r'(4) [OF that] r(5) [OF that] i by (cases "x = s + i") (auto simp: remapped_def q_def)
  ultimately show ?case using r'(2) reworked_trans [OF r(4) r'(3)] by blast
qed

subsection \<open>Shared memory and isolation\<close>

text \<open>Another address space, with tables of its own, is not changed by work on the tables \<open>F\<close> and on free pages.\<close>

lemma other_space_kept:
  assumes "tables_ok tbl st F" "F \<inter> G = {}" "pages_ok (pages st')" "in_use (pages st) \<subseteq> in_use (pages st')"
    and same: "\<And>u. u \<in> in_use (pages st) - G \<Longrightarrow> tables st' u = tables st u"
  shows "tables_ok tbl st' F" "page_map tbl st' = page_map tbl st"
proof -
  have F: "F \<subseteq> in_use (pages st)" using assms(1) by (simp add: tables_ok_def)
  then have eq: "tables st' u = tables st u" if "u \<in> F" for u using that assms(2) by (intro same) auto
  show "page_map tbl st' = page_map tbl st" using page_map_frame [OF assms(1) eq] by (intro ext) simp
  show "tables_ok tbl st' F"
    using assms(1,3,4) F tree_frame [of mmu_resolve_pa 3 "tables st" "pgd tbl" F "tables st'", OF _ eq] by (auto simp: tables_ok_def)
qed

lemma reworked_kept:
  assumes "tables_ok tbl st F" "F \<inter> G = {}" "reworked in_use pages_ok st G st' G'"
  shows "tables_ok tbl st' F" "page_map tbl st' = page_map tbl st"
  using other_space_kept [OF assms(1,2), of st'] assms(3) by (simp_all add: reworked_def)

lemma extended_kept:
  assumes "tables_ok tbl st F" "F \<inter> G = {}" "extended tbl' attr p qs st G st' G'"
  shows "tables_ok tbl st' F" "page_map tbl st' = page_map tbl st"
  using other_space_kept [OF assms(1,2), of st'] assms(3) by (simp_all add: extended_def tables_ok_def)

lemma properties_ok: "attr_ok (get_properties ro ex)" "rw (get_properties ro ex) = (if ro then 1 else 0)"
  by (simp_all add: get_properties_def attr_ok_def)

text \<open>The situation in which a chunk is mapped: the process \<open>p\<close> with the tables \<open>F\<close>, the chunk \<open>c\<close> on the pages \<open>qs\<close>, which are
  no tables, the kernel's tables \<open>K\<close>, and enough pages for the tables of the process.\<close>

definition can_map :: "memory_world \<Rightarrow> nat \<Rightarrow> addr set \<Rightarrow> nat \<Rightarrow> addr set \<Rightarrow> nat list \<Rightarrow> nat \<Rightarrow> bool" where
  "can_map w p F c K qs s \<longleftrightarrow>
     (\<exists>top_table number. ptbl (processes w p) = make_tbl Process top_table number \<and> top_table \<noteq> 0)
     \<and> tables_ok (ptbl (processes w p)) (mem (kernel w)) F \<and> F \<inter> K = {}
     \<and> chunk_ok (kernel w) K qs (chunks w c) \<and> pas (chunks w c) = Some (map (\<lambda>q. of_nat (q * PAGE_BYTES)) qs)
     \<and> page_va Kernel ` set qs \<subseteq> in_use (pages (mem (kernel w))) - F
     \<and> 0 < s \<and> s + length qs < PAGES \<and> 3 * length qs \<le> pages_left (pages (mem (kernel w)))"

lemma map_chunk_correct:
  assumes c: "can_map w p F c K qs s"
  obtains w' F' where "map_chunk p c (page_va Process s) ro ex w = ok (True, w')"
    "tables_ok (ptbl (processes w p)) (mem (kernel w')) F'" "reworked in_use pages_ok (mem (kernel w)) F (mem (kernel w')) F'"
    "\<And>x. x < PAGES \<Longrightarrow> page_map (ptbl (processes w p)) (mem (kernel w')) x
       = (if s \<le> x \<and> x < s + length qs then Some (qs ! (x - s), get_properties ro ex) else page_map (ptbl (processes w p)) (mem (kernel w)) x)"
    "kernel_tbl (kernel w') = kernel_tbl (kernel w)"
    "ptbl (processes w' p) = ptbl (processes w p)"
    "chunks w' = (chunks w)(c := register_chunk p (page_va Process s) (chunks w c))"
    "secs (processes w' p) = secs (processes w p) @ [\<lparr>sec_start = page_va Process s, is_buffer = False, sec_mem = c\<rparr>]"
proof -
  note C = c [unfolded can_map_def]
  obtain top_table number where tbl: "ptbl (processes w p) = make_tbl Process top_table number" "top_table \<noteq> 0" using C by blast
  have q: "\<forall>q \<in> set qs. q < PAGES" using C by (auto simp: chunk_ok_def chunk_at_def in_set_conv_nth)
  have n: "unat (nb_pages (chunks w c)) = length qs" using C by (simp add: chunk_ok_def)
  have s: "0 < s" "s + length qs < PAGES" using C by blast+
  have ok: "tables_ok (ptbl (processes w p)) (mem (kernel w)) F" using C by blast
  obtain st' F' where r: "map_pages (ptbl (processes w p)) (page_va Process s) (map (\<lambda>q. of_nat (q * PAGE_BYTES)) qs) (get_properties ro ex) (length qs) 0
        (mem (kernel w)) = ok (True, st')"
      "tables_ok (ptbl (processes w p)) st' F'" "reworked in_use pages_ok (mem (kernel w)) F st' F'"
      "\<And>x. x < PAGES \<Longrightarrow> page_map (ptbl (processes w p)) st' x
        = (if s \<le> x \<and> x < s + length qs then Some (qs ! (x - s), get_properties ro ex) else page_map (ptbl (processes w p)) (mem (kernel w)) x)"
    using map_pages_correct [OF tbl properties_ok(1) q s ok, of 0 "length qs" ro ex] C by auto
  define w' where "w' = set_chunk c (register_chunk p (page_va Process s) (chunks w c))
    (add_section p \<lparr>sec_start = page_va Process s, is_buffer = False, sec_mem = c\<rparr> (set_mem st' w))"
  note w'_simps = w'_def set_chunk_def add_section_def set_process_def set_mem_def
  have "map_chunk p c (page_va Process s) ro ex w = ok (True, w')"
    using C r(1) by (simp add: map_chunk_def n w'_def)
  moreover have "mem (kernel w') = st'" by (simp add: w'_simps)
  ultimately show thesis using r that [of w' F'] by (simp add: w'_simps)
qed

lemma mapped_chunk_kept:
  assumes c: "can_map w p F c K qs s" and r: "reworked in_use pages_ok (mem (kernel w)) F (mem (kernel w')) F'"
    and k: "kernel_tbl (kernel w') = kernel_tbl (kernel w)"
  shows "chunk_ok (kernel w') K qs (chunks w c)" "chunk_bytes (kernel w') qs = chunk_bytes (kernel w) qs"
proof -
  obtain v where v: "chunk_at (kernel w) K v qs" "kernel_va (chunks w c) = page_va Kernel v" "unat (nb_pages (chunks w c)) = length qs"
    using c by (auto simp: can_map_def chunk_ok_def)
  have "tables_ok (kernel_tbl (kernel w)) (mem (kernel w)) K" using v(1) by (simp add: chunk_at_def)
  note keep = reworked_kept [OF this _ r]
  have "K \<inter> F = {}" using c by (auto simp: can_map_def)
  then have "chunk_at (kernel w') K v qs" using v(1) keep by (simp add: chunk_at_def k)
  then show "chunk_ok (kernel w') K qs (chunks w c)" using v by (auto simp: chunk_ok_def)
  have same: "tables (mem (kernel w')) (page_va Kernel q) = tables (mem (kernel w)) (page_va Kernel q)" if "q \<in> set qs" for q
    using that c r by (auto simp: can_map_def reworked_def)
  show "chunk_bytes (kernel w') qs = chunk_bytes (kernel w) qs"
  proof (rule nth_equalityI)
    fix i
    assume "i < length (chunk_bytes (kernel w') qs)"
    then have i: "i < length qs * PAGE_BYTES" by simp
    then have "qs ! (i div PAGE_BYTES) \<in> set qs" by (simp add: less_mult_imp_div_less)
    then show "chunk_bytes (kernel w') qs ! i = chunk_bytes (kernel w) qs ! i" using i same by (simp add: page_byte_def)
  qed simp
qed

lemma activate_active:
  assumes "ptbl (processes w p) = make_tbl Process top_table number"
  shows "active (ptbl (processes w p)) (kernel (activate p w))" "mem (kernel (activate p w)) = mem (kernel w)"
    "chunk_at (kernel (activate p w)) K v qs \<longleftrightarrow> chunk_at (kernel w) K v qs" "chunk_bytes (kernel (activate p w)) qs = chunk_bytes (kernel w) qs"
  by (simp_all add: assms active_def activate_def mmu_resolve_pa_def resolve_table_pgd_def mmu_resolve_va_def chunk_at_def chunk_bytes_def)

text \<open>
  C30. Shared memory: mapping a chunk into a process succeeds when enough pages are left, changes neither the chunk nor its bytes,
  and while the memory of the process is active each byte of the mapping is the byte of the chunk: it reads as that byte, and
  storing there changes exactly that byte of the chunk, or faults when the chunk was mapped for reading only.
\<close>

theorem mapped_chunk_is_shared:
  assumes "can_map w p F c K qs s"
  shows "\<exists>w'. map_chunk p c (page_va Process s) ro ex w = ok (True, w')
      \<and> chunk_ok (kernel w') K qs (chunks w' c) \<and> chunk_bytes (kernel w') qs = chunk_bytes (kernel w) qs
      \<and> (\<forall>i < length qs * PAGE_BYTES.
           load_byte (kernel (activate p w')) (page_va Process s + of_nat i) = ok (chunk_bytes (kernel w) qs ! i)
         \<and> (if ro then store_byte (page_va Process s + of_nat i) b (kernel (activate p w')) = Inl Undefined
            else \<exists>k'. store_byte (page_va Process s + of_nat i) b (kernel (activate p w')) = ok k'
                   \<and> chunk_ok k' K qs (chunks w' c) \<and> chunk_bytes k' qs = (chunk_bytes (kernel w) qs)[i := b]))"
proof -
  obtain w' F' where r: "map_chunk p c (page_va Process s) ro ex w = ok (True, w')"
    "tables_ok (ptbl (processes w p)) (mem (kernel w')) F'" "reworked in_use pages_ok (mem (kernel w)) F (mem (kernel w')) F'"
    "\<And>x. x < PAGES \<Longrightarrow> page_map (ptbl (processes w p)) (mem (kernel w')) x
       = (if s \<le> x \<and> x < s + length qs then Some (qs ! (x - s), get_properties ro ex) else page_map (ptbl (processes w p)) (mem (kernel w)) x)"
    "kernel_tbl (kernel w') = kernel_tbl (kernel w)" "ptbl (processes w' p) = ptbl (processes w p)"
    "chunks w' = (chunks w)(c := register_chunk p (page_va Process s) (chunks w c))"
    by (rule map_chunk_correct [OF assms, of ro ex]) (rule that)
  obtain top_table number where tbl: "ptbl (processes w' p) = make_tbl Process top_table number"
    using assms r(6) by (auto simp: can_map_def)
  note a = activate_active [OF tbl]
  have kept: "chunk_ok (kernel w') K qs (chunks w' c)" "chunk_bytes (kernel w') qs = chunk_bytes (kernel w) qs"
    using mapped_chunk_kept [OF assms r(3,5)] by (simp_all add: r(7) chunk_ok_def register_chunk_def)
  then obtain v where v: "chunk_at (kernel (activate p w')) K v qs" "kernel_va (chunks w' c) = page_va Kernel v" "unat (nb_pages (chunks w' c)) = length qs"
    unfolding a(3) by (auto simp: chunk_ok_def)
  have q: "\<forall>q \<in> set qs. q < PAGES" using v(1) by (auto simp: chunk_at_def in_set_conv_nth)
  have s: "s + length qs < PAGES" using assms by (simp add: can_map_def)
  have at: "byte_address (kernel (activate p w')) qs i (page_va Process s + of_nat i) (get_properties ro ex)" if i: "i < length qs * PAGE_BYTES" for i
  proof -
    have j: "i div PAGE_BYTES < length qs" using i by (simp add: less_mult_imp_div_less)
    have p: "s + i div PAGE_BYTES < PAGES" using s j by simp
    have "page_map (ptbl (processes w p)) (mem (kernel w')) (s + i div PAGE_BYTES) = Some (qs ! (i div PAGE_BYTES), get_properties ro ex)"
      using r(4) [OF p] j by simp
    then show ?thesis using r(2) p by (intro mapped_byte_address [OF tbl a(1)]) (simp_all only: a(2) r(6))
  qed
  have load: "load_byte (kernel (activate p w')) (page_va Process s + of_nat i) = ok (chunk_bytes (kernel w) qs ! i)" if "i < length qs * PAGE_BYTES" for i
    using load_at [OF q that at [OF that]] by (simp only: a(4) kept(2))
  have store: "\<exists>k'. store_byte (page_va Process s + of_nat i) b (kernel (activate p w')) = ok k'
      \<and> chunk_ok k' K qs (chunks w' c) \<and> chunk_bytes k' qs = (chunk_bytes (kernel w) qs)[i := b]" if i: "i < length qs * PAGE_BYTES" "\<not> ro" for i
  proof -
    have "rw (get_properties ro ex) = 0" using i(2) by (simp add: properties_ok)
    then obtain k' where "store_byte (page_va Process s + of_nat i) b (kernel (activate p w')) = ok k'" "chunk_at k' K v qs"
        "chunk_bytes k' qs = (chunk_bytes (kernel (activate p w')) qs)[i := b]"
      by (rule chunk_store [OF v(1) i(1) at [OF i(1)]])
    then show ?thesis using v(2,3) by (auto simp: a(4) kept(2) chunk_ok_def)
  qed
  have fault: "store_byte (page_va Process s + of_nat i) b (kernel (activate p w')) = Inl Undefined" if "i < length qs * PAGE_BYTES" ro for i
    using read_only_faults [OF at [OF that(1)]] that(2) by (simp add: properties_ok)
  show ?thesis using r(1) kept load store fault by (intro exI [of _ w']) simp
qed

text \<open>
  C31. Isolation: mapping a chunk into a process changes the mapping of exactly the pages of the process that the chunk takes; any
  other address space, with tables of its own, keeps its tables and its whole mapping.
\<close>

theorem address_spaces_are_isolated:
  assumes "can_map w p F c K qs s" and "tables_ok tbl (mem (kernel w)) G" and "G \<inter> F = {}"
  shows "\<exists>w'. map_chunk p c (page_va Process s) ro ex w = ok (True, w')
      \<and> tables_ok tbl (mem (kernel w')) G \<and> page_map tbl (mem (kernel w')) = page_map tbl (mem (kernel w))
      \<and> (\<forall>x < PAGES. page_map (ptbl (processes w p)) (mem (kernel w')) x
           = (if s \<le> x \<and> x < s + length qs then Some (qs ! (x - s), get_properties ro ex)
              else page_map (ptbl (processes w p)) (mem (kernel w)) x))"
proof (rule map_chunk_correct [OF assms(1), of ro ex])
  fix w' F'
  assume "map_chunk p c (page_va Process s) ro ex w = ok (True, w')" "reworked in_use pages_ok (mem (kernel w)) F (mem (kernel w')) F'"
    "\<And>x. x < PAGES \<Longrightarrow> page_map (ptbl (processes w p)) (mem (kernel w')) x
       = (if s \<le> x \<and> x < s + length qs then Some (qs ! (x - s), get_properties ro ex) else page_map (ptbl (processes w p)) (mem (kernel w)) x)"
  then show ?thesis using reworked_kept [OF assms(2,3)] by blast
qed

text \<open>A process with an empty table at page 100 and a chunk of one page.\<close>

definition example_world :: "kernel_memory \<Rightarrow> MemoryChunk \<Rightarrow> memory_world" where
  "example_world k c =
     \<lparr>kernel = k, chunks = \<lambda>_. c, buffers = \<lambda>_. \<lparr>buffer_pa_start = 0, buffer_pa_end = 0, buffer_kernel_va = 0, buffer_mappings = []\<rparr>,
      processes = \<lambda>_. \<lparr>ptbl = make_tbl Process (page_va Kernel 100) 1, heap = HeapManager_init Heap_Process, stack = 0, secs = []\<rparr>, new_asid = 2\<rparr>"

lemma example_can_map:
  obtains w K qs where "can_map w 1 {page_va Kernel 100} 2 K qs 5" "length qs = 1" "tables_ok (kernel_tbl (kernel w)) (mem (kernel w)) K"
    "K \<inter> {page_va Kernel 100} = {}"
proof -
  let ?t = "make_tbl Process (page_va Kernel 100) 1"
  obtain c k' qs F' where r: "MemoryChunk_new 1 chunk_kernel = ok (c, k')" "chunk_ok k' F' qs c" "length qs = 1"
      "pas c = Some (map (\<lambda>q. of_nat (q * PAGE_BYTES)) qs)" "extended (kernel_tbl chunk_kernel) custom_memory_rw 0x300000000 qs (mem chunk_kernel) {KERNEL_BASE} (mem k') F'"
    using new_chunk [OF chunk_kernel_ok(1) _ chunk_kernel_ok(2,3), of 1] chunk_kernel_ok(4) by auto
  note x = r(5) [unfolded extended_def]
  have mem: "mem chunk_kernel = example_mem" by (simp add: chunk_kernel_def example_kernel_def)
  have 100: "page_va Kernel 100 \<in> in_use (pages example_mem)"
    unfolding in_use_def example_mem_def by (auto simp: example_free intro!: exI [of _ 100])
  have ne: "page_va Kernel 100 \<noteq> KERNEL_BASE" by (simp add: page_va_def get_base_address_def)
  have "tables_ok ?t example_mem {page_va Kernel 100}"
    using 100 example_ok(1) empty_tree [of "\<lambda>_ _. 0" "page_va Kernel 100" mmu_resolve_pa 3] by (simp add: tables_ok_def example_mem_def)
  then have t: "tables_ok ?t (mem k') {page_va Kernel 100}"
    using extended_kept(1) [OF _ _ r(5), of ?t "{page_va Kernel 100}"] ne by (simp add: mem)
  have F': "page_va Kernel 100 \<notin> F'" using x 100 ne by (auto simp: mem)
  have "\<forall>q \<in> set qs. q < PAGES \<and> page_va Kernel q \<in> in_use (pages (mem k')) \<and> q * PAGE_BYTES \<in> pal_free_set (pages example_mem)"
    using x by (simp add: mem)
  moreover have "100 * PAGE_BYTES \<notin> pal_free_set (pages example_mem)" by (auto simp: example_mem_def example_free)
  ultimately have qs: "page_va Kernel ` set qs \<subseteq> in_use (pages (mem k')) - {page_va Kernel 100}" by (auto simp: page_va_inj)
  have "pages_left (pages (mem chunk_kernel)) \<le> pages_left (pages (mem k')) + 4 * length qs" using x by blast
  then have "3 * length qs \<le> pages_left (pages (mem k'))" using chunk_kernel_ok(4) r(3) by simp
  moreover have "page_va Kernel 100 \<noteq> 0" by (simp add: page_va_def get_base_address_def)
  ultimately have "can_map (example_world k' c) 1 {page_va Kernel 100} 2 F' qs 5"
    using t F' r qs by (auto simp: can_map_def example_world_def)
  moreover have "tables_ok (kernel_tbl k') (mem k') F'" using r(2) by (auto simp: chunk_ok_def chunk_at_def)
  ultimately show thesis using that r(3) F' by (auto simp: example_world_def)
qed

theorem mapped_chunk_is_shared_witness:
  "\<exists>w K qs. length qs = 1 \<and> (\<exists>w'. map_chunk 1 2 (page_va Process 5) False False w = ok (True, w')
      \<and> chunk_ok (kernel w') K qs (chunks w' 2) \<and> chunk_bytes (kernel w') qs = chunk_bytes (kernel w) qs
      \<and> (\<forall>i < length qs * PAGE_BYTES.
           load_byte (kernel (activate 1 w')) (page_va Process 5 + of_nat i) = ok (chunk_bytes (kernel w) qs ! i)
         \<and> (if False then store_byte (page_va Process 5 + of_nat i) 7 (kernel (activate 1 w')) = Inl Undefined
            else \<exists>k'. store_byte (page_va Process 5 + of_nat i) 7 (kernel (activate 1 w')) = ok k'
                   \<and> chunk_ok k' K qs (chunks w' 2) \<and> chunk_bytes k' qs = (chunk_bytes (kernel w) qs)[i := 7])))"
proof -
  obtain w K qs where c: "can_map w 1 {page_va Kernel 100} 2 K qs 5" "length qs = 1" by (rule example_can_map)
  show ?thesis using mapped_chunk_is_shared [OF c(1)] c(2) by blast
qed

theorem address_spaces_are_isolated_witness:
  "\<exists>w K qs. length qs = 1 \<and> (\<exists>w'. map_chunk 1 2 (page_va Process 5) False False w = ok (True, w')
      \<and> tables_ok (kernel_tbl (kernel w)) (mem (kernel w')) K \<and> page_map (kernel_tbl (kernel w)) (mem (kernel w')) = page_map (kernel_tbl (kernel w)) (mem (kernel w))
      \<and> (\<forall>x < PAGES. page_map (ptbl (processes w 1)) (mem (kernel w')) x
           = (if 5 \<le> x \<and> x < 5 + length qs then Some (qs ! (x - 5), get_properties False False)
              else page_map (ptbl (processes w 1)) (mem (kernel w)) x)))"
proof -
  obtain w K qs where c: "can_map w 1 {page_va Kernel 100} 2 K qs 5" "length qs = 1" "tables_ok (kernel_tbl (kernel w)) (mem (kernel w)) K"
    "K \<inter> {page_va Kernel 100} = {}" by (rule example_can_map)
  show ?thesis using address_spaces_are_isolated [OF c(1,3,4)] c(2) by blast
qed

end
