(* ===== verification/Kernel_Malloc.thy ===== *)
theory Kernel_Malloc
  imports Heap_Manager Utils
begin

text \<open>
  \<^verbatim>\<open>kmalloc\<close> and \<^verbatim>\<open>kfree\<close> (\<^verbatim>\<open>kernel/memory/mem_alloc.cpp\<close>). The blocks of the kernel heap form a doubly linked list in the
  order of their addresses; \<open>blocks\<close> is the memory that holds their headers. The heap below grows through the model of
  \<open>HeapManager\<close>. The loops over the list and over the pages take fuel. The null pointer is 0.
\<close>

record MetaBlock =
  block_size :: usize
  block_next :: addr
  block_previous :: addr
  block_ptr :: addr
  block_is_free :: bool

definition META_BLOCK_SIZE :: usize where "META_BLOCK_SIZE = 33"

record kernel_heap =
  heap_mgr :: HeapManager
  kernel_mem :: kernel_memory
  blocks :: "addr \<Rightarrow> MetaBlock option"
  g_malloc_meta_head :: addr

text \<open>The address of the bytes behind the header.\<close>

definition block_data :: "addr \<Rightarrow> addr" where "block_data a = a + META_BLOCK_SIZE"

definition block_at :: "kernel_heap \<Rightarrow> addr \<Rightarrow> MetaBlock outcome" where
  "block_at s a = (case blocks s a of None \<Rightarrow> Inl Undefined | Some b \<Rightarrow> ok b)"

definition set_block :: "addr \<Rightarrow> MetaBlock \<Rightarrow> kernel_heap \<Rightarrow> kernel_heap" where
  "set_block a b s = s\<lparr>blocks := (blocks s)(a := Some b)\<rparr>"

definition extend_heap ::
  "nat \<Rightarrow> u64 \<Rightarrow> page_alloc_list MMUTable \<Rightarrow> addr \<Rightarrow> usize \<Rightarrow> usize \<Rightarrow> kernel_heap \<Rightarrow> (addr \<times> kernel_heap) outcome" where
  "extend_heap fuel flags tbl last_block bytes alignment s =
     (let end = get_heap_end (heap_mgr s) in
      bindE (align_to_next (end + META_BLOCK_SIZE) alignment) (\<lambda>next_addr.
        let heap_offset = next_addr - end + bytes in
        bindE (change_heap_end fuel flags tbl (sint heap_offset) (heap_mgr s) (kernel_mem s)) (\<lambda>(brk, h, k).
          let s = s\<lparr>heap_mgr := h, kernel_mem := k\<rparr> in
          if brk = 0 then ok (0, s)
          else
            let s = set_block end \<lparr>block_size = bytes, block_next = 0, block_previous = last_block, block_ptr = next_addr, block_is_free = False\<rparr> s in
            if last_block = 0 then ok (end, s)
            else bindE (block_at s last_block) (\<lambda>l. ok (end, set_block last_block (l\<lparr>block_next := end\<rparr>) s)))))"

text \<open>The loop of \<^verbatim>\<open>find_suitable_block\<close>: the flag is true if the block has been found, and the block the last one otherwise.\<close>

fun find_block :: "nat \<Rightarrow> addr \<Rightarrow> usize \<Rightarrow> usize \<Rightarrow> kernel_heap \<Rightarrow> (bool \<times> addr \<times> kernel_heap) outcome" where
  "find_block fuel block memory alignment s =
     (if block = 0 then ok (False, 0, s)
      else bindE (block_at s block) (\<lambda>b.
        if block_next b = 0 then ok (False, block, s)
        else bindE (align_to_next (block_ptr b) alignment) (\<lambda>p.
          let offset = p - block_ptr b in
          if memory + offset \<le> block_size b \<and> block_is_free b then
            ok (True, block, set_block block (b\<lparr>block_ptr := block_ptr b + offset, block_is_free := False, block_size := block_size b - offset\<rparr>) s)
          else
            (case fuel of 0 \<Rightarrow> Inl Diverges | Suc fuel \<Rightarrow> find_block fuel (block_next b) memory alignment s))))"

declare find_block.simps [simp del]

definition find_suitable_block ::
  "nat \<Rightarrow> u64 \<Rightarrow> page_alloc_list MMUTable \<Rightarrow> usize \<Rightarrow> usize \<Rightarrow> kernel_heap \<Rightarrow> (addr \<times> kernel_heap) outcome" where
  "find_suitable_block fuel flags tbl memory alignment s =
     bindE (find_block fuel (g_malloc_meta_head s) memory alignment s) (\<lambda>(found, block, s).
       if found then ok (block, s) else extend_heap fuel flags tbl block memory alignment s)"

fun skip_blocks :: "nat \<Rightarrow> addr \<Rightarrow> addr \<Rightarrow> kernel_heap \<Rightarrow> addr outcome" where
  "skip_blocks fuel b va s =
     (if b = 0 then ok 0
      else bindE (block_at s b) (\<lambda>block.
        if block_ptr block + block_size block < va then
          (case fuel of 0 \<Rightarrow> Inl Diverges | Suc fuel \<Rightarrow> skip_blocks fuel (block_next block) va s)
        else ok b))"

declare skip_blocks.simps [simp del]

definition get_block_addr :: "nat \<Rightarrow> addr \<Rightarrow> kernel_heap \<Rightarrow> addr outcome" where
  "get_block_addr fuel va s =
     (if va < get_heap_end (heap_mgr s) then
        let b = g_malloc_meta_head s in
        bindE (if b = 0 then ok False else bindE (block_at s b) (\<lambda>block. ok (block_ptr block = va))) (\<lambda>is_head.
          if is_head then ok b
          else bindE (skip_blocks fuel b va s) (\<lambda>b.
            if b = 0 then ok 0 else bindE (block_at s b) (\<lambda>block. ok (if va < block_ptr block then 0 else b))))
      else ok 0)"

definition is_addr_valid :: "nat \<Rightarrow> addr \<Rightarrow> kernel_heap \<Rightarrow> bool outcome" where
  "is_addr_valid fuel va s =
     (if g_malloc_meta_head s = 0 then ok False
      else if g_malloc_meta_head s < va \<and> va < get_heap_end (heap_mgr s) then
        bindE (get_block_addr fuel va s) (\<lambda>b. if b = 0 then ok False else bindE (block_at s b) (\<lambda>block. ok (va = block_ptr block)))
      else ok False)"

definition merge_block :: "addr \<Rightarrow> addr \<Rightarrow> kernel_heap \<Rightarrow> kernel_heap outcome" where
  "merge_block lhs rhs s =
     kassert (lhs \<noteq> 0) (kassert (rhs \<noteq> 0) (bindE (block_at s lhs) (\<lambda>l. bindE (block_at s rhs) (\<lambda>r.
       kassert (block_next l = rhs) (kassert (block_is_free r)
         (let s = set_block lhs (l\<lparr>block_size := block_size l + (block_size r + META_BLOCK_SIZE), block_next := block_next r\<rparr>) s in
          if block_next r = 0 then ok s
          else bindE (block_at s (block_next r)) (\<lambda>n. ok (set_block (block_next r) (n\<lparr>block_previous := lhs\<rparr>) s))))))))"

definition kmalloc :: "nat \<Rightarrow> u64 \<Rightarrow> page_alloc_list MMUTable \<Rightarrow> usize \<Rightarrow> usize \<Rightarrow> kernel_heap \<Rightarrow> (addr \<times> kernel_heap) outcome" where
  "kmalloc fuel flags tbl byte_count alignment s =
     (let alignment = (if alignment = 0 then alignment + 1 else alignment);
          byte_count = (if byte_count = 0 then byte_count + 1 else byte_count) in
      if g_malloc_meta_head s = 0 then
        bindE (extend_heap fuel flags tbl 0 byte_count alignment s) (\<lambda>(block, s).
          if block = 0 then ok (0, s)
          else
            let s = s\<lparr>g_malloc_meta_head := block\<rparr> in
            bindE (block_at s block) (\<lambda>b. ok (block_ptr b, s)))
      else
        bindE (find_suitable_block fuel flags tbl byte_count alignment s) (\<lambda>(block, s).
          if block = 0 then ok (0, s) else bindE (block_at s block) (\<lambda>b. ok (block_ptr b, s))))"

text \<open>Merging a freed block with the block behind it and with the block before it.\<close>

definition merge_next :: "addr \<Rightarrow> addr \<Rightarrow> kernel_heap \<Rightarrow> kernel_heap outcome" where
  "merge_next block nxt s =
     (if nxt = 0 then ok s else bindE (block_at s nxt) (\<lambda>n. if block_is_free n then merge_block block nxt s else ok s))"

definition merge_previous :: "nat \<Rightarrow> addr \<Rightarrow> kernel_heap \<Rightarrow> kernel_heap outcome" where
  "merge_previous fuel block s =
     bindE (block_at s block) (\<lambda>b.
       let prev = block_previous b in
       if prev = 0 then ok s
       else bindE (block_at s prev) (\<lambda>p.
         if \<not> block_is_free p then ok s
         else if block_next p \<noteq> block then
           bindE (block_at s (block_next p)) (\<lambda>n. bindE (get_block_addr fuel (block_ptr n) s) (\<lambda>found.
             if found = block then merge_block prev block (set_block prev (p\<lparr>block_next := block\<rparr>) s) else ok s))
         else merge_block prev block s))"

definition kfree :: "nat \<Rightarrow> addr \<Rightarrow> kernel_heap \<Rightarrow> kernel_heap outcome" where
  "kfree fuel ptr s =
     (if ptr = 0 then ok s
      else
        bindE (is_addr_valid fuel ptr s) (\<lambda>valid. kassert valid
          (bindE (get_block_addr fuel ptr s) (\<lambda>block. bindE (block_at s block) (\<lambda>b.
             let b = b\<lparr>block_is_free := True, block_ptr := block_data block\<rparr>;
                 b = b\<lparr>block_size := block_size b + (ptr - block_ptr b)\<rparr>;
                 s = set_block block b s in
             bindE (merge_next block (block_next b) s) (merge_previous fuel block))))))"

definition MAX_ALIGN :: usize where "MAX_ALIGN = 16"

definition krealloc :: "nat \<Rightarrow> u64 \<Rightarrow> page_alloc_list MMUTable \<Rightarrow> addr \<Rightarrow> usize \<Rightarrow> kernel_heap \<Rightarrow> (addr \<times> kernel_heap) outcome" where
  "krealloc fuel flags tbl ptr new_size s = bindE (kfree fuel ptr s) (kmalloc fuel flags tbl new_size MAX_ALIGN)"

text \<open>\<^verbatim>\<open>operator new\<close> and \<^verbatim>\<open>operator delete\<close>.\<close>

definition operator_new :: "nat \<Rightarrow> u64 \<Rightarrow> page_alloc_list MMUTable \<Rightarrow> usize \<Rightarrow> kernel_heap \<Rightarrow> (addr \<times> kernel_heap) outcome" where
  "operator_new fuel flags tbl bytes_count = kmalloc fuel flags tbl bytes_count MAX_ALIGN"

definition operator_delete :: "nat \<Rightarrow> addr \<Rightarrow> kernel_heap \<Rightarrow> kernel_heap outcome" where
  "operator_delete = kfree"

subsection \<open>The list of blocks\<close>

text \<open>
  A segment of the list: the blocks at \<open>as\<close>, before \<open>as\<close> the block \<open>prev\<close>, after it the block \<open>nxt\<close>. A block's memory comes
  after its header and ends before the next header, or before \<open>lim\<close>.
\<close>

definition block_ok :: "addr \<Rightarrow> MetaBlock \<Rightarrow> addr \<Rightarrow> addr \<Rightarrow> nat \<Rightarrow> bool" where
  "block_ok a b prev nxt lim \<longleftrightarrow> a \<noteq> 0 \<and> block_previous b = prev \<and> block_next b = nxt \<and> unat a + 33 \<le> unat (block_ptr b)
     \<and> unat (block_ptr b) + unat (block_size b) \<le> lim \<and> (block_is_free b \<longrightarrow> unat (block_ptr b) = unat a + 33)"

fun heap_list :: "(addr \<Rightarrow> MetaBlock option) \<Rightarrow> addr \<Rightarrow> addr list \<Rightarrow> addr \<Rightarrow> nat \<Rightarrow> bool" where
  "heap_list m prev [] nxt lim = True"
| "heap_list m prev [a] nxt lim = (\<exists>b. m a = Some b \<and> block_ok a b prev nxt lim)"
| "heap_list m prev (a # c # as) nxt lim = ((\<exists>b. m a = Some b \<and> block_ok a b prev c (unat c)) \<and> heap_list m a (c # as) nxt lim)"

lemma heap_list_append:
  "heap_list m prev (xs @ y # ys) nxt lim \<longleftrightarrow> heap_list m prev xs y (unat y) \<and> heap_list m (last (prev # xs)) (y # ys) nxt lim"
proof (induction xs arbitrary: prev)
  case (Cons x xs)
  then show ?case by (cases xs) auto
qed simp

lemma heap_list_cong: "(\<And>a. a \<in> set as \<Longrightarrow> m a = m' a) \<Longrightarrow> heap_list m prev as nxt lim = heap_list m' prev as nxt lim"
proof (induction as arbitrary: prev)
  case (Cons a as)
  have "heap_list m a as nxt lim = heap_list m' a as nxt lim" using Cons by simp
  then show ?case using Cons.prems [of a] by (cases as) auto
qed simp

lemma heap_list_other: "a \<notin> set as \<Longrightarrow> heap_list (m(a := v)) prev as nxt lim = heap_list m prev as nxt lim"
  by (rule heap_list_cong) auto

lemma heap_list_Cons:
  "heap_list m prev (a # as) nxt lim \<longleftrightarrow> (\<exists>b. m a = Some b \<and> block_ok a b prev (case as of [] \<Rightarrow> nxt | c # _ \<Rightarrow> c) (case as of [] \<Rightarrow> lim | c # _ \<Rightarrow> unat c))
    \<and> heap_list m a as nxt lim"
  by (cases as) auto

declare heap_list.simps(2,3) [simp del]

text \<open>The blocks lie in the order of their addresses, below the limit.\<close>

lemma heap_list_order:
  "heap_list m prev (a # as) nxt lim \<Longrightarrow> c \<in> set as \<Longrightarrow> \<exists>b. m a = Some b \<and> unat (block_ptr b) + unat (block_size b) \<le> unat c \<and> unat a + 33 \<le> unat c"
proof (induction as arbitrary: a prev)
  case (Cons x as)
  then obtain b where b: "m a = Some b" "block_ok a b prev x (unat x)" "heap_list m a (x # as) nxt lim" by (auto simp: heap_list_Cons)
  show ?case
  proof (cases "c = x")
    case True
    then show ?thesis using b by (simp add: block_ok_def)
  next
    case False
    then have "unat x + 33 \<le> unat c" using Cons.IH [OF b(3)] Cons.prems(2) by auto
    then show ?thesis using b by (auto simp: block_ok_def)
  qed
qed simp

lemma heap_list_limit: "heap_list m prev as nxt lim \<Longrightarrow> a \<in> set as \<Longrightarrow> \<exists>b. m a = Some b \<and> a \<noteq> 0 \<and> unat a + 33 \<le> unat (block_ptr b)
    \<and> unat (block_ptr b) + unat (block_size b) \<le> lim"
proof (induction as arbitrary: prev a)
  case (Cons x as)
  then obtain b where b: "m x = Some b" "block_ok x b prev (case as of [] \<Rightarrow> nxt | c # _ \<Rightarrow> c) (case as of [] \<Rightarrow> lim | c # _ \<Rightarrow> unat c)"
      "heap_list m x as nxt lim" by (auto simp: heap_list_Cons)
  have rest: "\<exists>b. m c = Some b \<and> c \<noteq> 0 \<and> unat c + 33 \<le> unat (block_ptr b) \<and> unat (block_ptr b) + unat (block_size b) \<le> lim" if "c \<in> set as" for c
    by (rule Cons.IH [OF b(3) that])
  show ?case
  proof (cases "a = x")
    case True
    have "(case as of [] \<Rightarrow> lim | c # _ \<Rightarrow> unat c) \<le> lim" using rest by (cases as) fastforce+
    then show ?thesis using b(1,2) True by (auto simp: block_ok_def)
  qed (use rest Cons.prems(2) in simp)
qed simp

lemma heap_list_distinct: "heap_list m prev as nxt lim \<Longrightarrow> distinct as"
proof (induction as arbitrary: prev)
  case (Cons a as)
  have "a \<notin> set as" using heap_list_order [OF Cons.prems, of a] by auto
  moreover have "heap_list m a as nxt lim" using Cons.prems by (simp add: heap_list_Cons)
  ultimately show ?case using Cons.IH by simp
qed simp

text \<open>A block in the middle, and what changes when it is changed.\<close>

lemma heap_list_split:
  "heap_list m prev (xs @ a # ys) nxt lim \<longleftrightarrow> heap_list m prev xs a (unat a)
    \<and> (\<exists>b. m a = Some b \<and> block_ok a b (last (prev # xs)) (case ys of [] \<Rightarrow> nxt | c # _ \<Rightarrow> c) (case ys of [] \<Rightarrow> lim | c # _ \<Rightarrow> unat c))
    \<and> heap_list m a ys nxt lim"
  by (simp add: heap_list_append heap_list_Cons)

lemma heap_list_update:
  assumes c: "heap_list m prev (xs @ a # ys) nxt lim"
    and b: "block_ok a b (last (prev # xs)) (case ys of [] \<Rightarrow> nxt | c # _ \<Rightarrow> c) (case ys of [] \<Rightarrow> lim | c # _ \<Rightarrow> unat c)"
  shows "heap_list (m(a := Some b)) prev (xs @ a # ys) nxt lim"
proof -
  have d: "a \<notin> set xs" "a \<notin> set ys" using heap_list_distinct [OF c] by auto
  have "heap_list (m(a := Some b)) prev xs a (unat a) = heap_list m prev xs a (unat a)" "heap_list (m(a := Some b)) a ys nxt lim = heap_list m a ys nxt lim"
    using d by (auto intro!: heap_list_cong)
  then show ?thesis using c b unfolding heap_list_split by simp
qed

lemma addr_below: "unat (a :: addr) < 2 ^ 64"
  by (rule order_less_le_trans [OF unsigned_less]) simp

text \<open>Walking along the list finds the block that owns a pointer.\<close>

lemma skip_blocks_finds:
  assumes "heap_list (blocks s) prev (xs @ a # ys) 0 lim" "lim < 2 ^ 64" "blocks s a = Some b" "length xs \<le> fuel"
  shows "skip_blocks fuel (case xs of [] \<Rightarrow> a | x # _ \<Rightarrow> x) (block_ptr b) s = ok a"
  using assms
proof (induction xs arbitrary: prev fuel)
  case Nil
  obtain b' where b': "blocks s a = Some b'" "a \<noteq> 0" "unat (block_ptr b') + unat (block_size b') \<le> lim"
    using heap_list_limit [OF Nil.prems(1), of a] by auto
  have eq: "b' = b" using b'(1) Nil.prems(3) by simp
  have "unat (block_ptr b + block_size b) = unat (block_ptr b) + unat (block_size b)"
    using b'(3) Nil.prems(2) unfolding eq by (intro unat_add_no_wrap) simp
  then have "\<not> block_ptr b + block_size b < block_ptr b" by (simp add: word_less_nat_alt)
  then show ?case using b'(2) Nil.prems(3) by (subst skip_blocks.simps) (simp add: block_at_def)
next
  case (Cons x xs)
  have order: "\<exists>bx. blocks s x = Some bx \<and> unat (block_ptr bx) + unat (block_size bx) \<le> unat a"
    using heap_list_order [of "blocks s" prev x "xs @ a # ys" 0 lim a] Cons.prems(1) by auto
  obtain bx where bx: "blocks s x = Some bx" "block_ok x bx prev (case xs @ a # ys of [] \<Rightarrow> 0 | c # _ \<Rightarrow> c) (case xs @ a # ys of [] \<Rightarrow> lim | c # _ \<Rightarrow> unat c)"
      "heap_list (blocks s) x (xs @ a # ys) 0 lim" using Cons.prems(1) by (auto simp: heap_list_Cons)
  have "unat a + 33 \<le> unat (block_ptr b)" using heap_list_limit [OF Cons.prems(1), of a] Cons.prems(3) by auto
  moreover have le: "unat (block_ptr bx) + unat (block_size bx) \<le> unat a" using order bx(1) by simp
  moreover have "unat (block_ptr bx + block_size bx) = unat (block_ptr bx) + unat (block_size bx)"
    using le addr_below [of a] by (intro unat_add_no_wrap) simp
  ultimately have "block_ptr bx + block_size bx < block_ptr b" by (simp add: word_less_nat_alt)
  moreover obtain fuel' where "fuel = Suc fuel'" using Cons.prems(4) by (cases fuel) auto
  moreover have "block_next bx = (case xs of [] \<Rightarrow> a | x # _ \<Rightarrow> x)" using bx(2) by (cases xs) (simp_all add: block_ok_def)
  ultimately show ?case
    using Cons.IH [OF bx(3) Cons.prems(2,3), of fuel'] bx(1,2) Cons.prems(4)
    by (subst skip_blocks.simps) (simp add: block_at_def block_ok_def)
qed

lemma get_block_addr_finds:
  assumes c: "heap_list (blocks s) 0 (xs @ a # ys) 0 (unat (get_heap_end (heap_mgr s)))" and h: "g_malloc_meta_head s = hd (xs @ [a])"
    and b: "blocks s a = Some b" "0 < block_size b" and fuel: "length xs \<le> fuel"
  shows "get_block_addr fuel (block_ptr b) s = ok a" "is_addr_valid fuel (block_ptr b) s = ok True"
proof -
  let ?lim = "unat (get_heap_end (heap_mgr s))"
  have lim: "a \<noteq> 0" "unat a + 33 \<le> unat (block_ptr b)" "unat (block_ptr b) + unat (block_size b) \<le> ?lim"
    using heap_list_limit [OF c, of a] b(1) by auto
  have "unat (block_size b) \<noteq> 0" using b(2) by (simp add: word_less_nat_alt)
  then have inside: "block_ptr b < get_heap_end (heap_mgr s)" using lim(3) by (simp add: word_less_nat_alt)
  have head: "hd (xs @ [a]) = (case xs of [] \<Rightarrow> a | x # _ \<Rightarrow> x)" by (cases xs) simp_all
  have first: "hd (xs @ [a]) \<noteq> 0 \<and> (\<exists>bx. blocks s (hd (xs @ [a])) = Some bx \<and> (block_ptr bx = block_ptr b \<longrightarrow> xs = [])) \<and> unat (hd (xs @ [a])) \<le> unat a"
  proof (cases xs)
    case Nil
    then show ?thesis using lim b by simp
  next
    case (Cons x xs')
    obtain bx where bx: "blocks s x = Some bx" "unat (block_ptr bx) + unat (block_size bx) \<le> unat a" "unat x + 33 \<le> unat a"
      using heap_list_order [of "blocks s" 0 x "xs' @ a # ys" 0 ?lim a] c Cons by auto
    moreover have "x \<noteq> 0" using heap_list_limit [OF c, of x] Cons by auto
    moreover have "block_ptr bx \<noteq> block_ptr b" using bx(2) lim(2) by auto
    ultimately show ?thesis using Cons by auto
  qed
  then obtain bx where bx: "blocks s (hd (xs @ [a])) = Some bx" "block_ptr bx = block_ptr b \<longrightarrow> xs = []" by blast
  have skip: "skip_blocks fuel (hd (xs @ [a])) (block_ptr b) s = ok a"
    unfolding head by (rule skip_blocks_finds [OF c addr_below b(1) fuel])
  have nz: "hd (xs @ [a]) \<noteq> 0" and le: "unat (hd (xs @ [a])) \<le> unat a" using first by blast+
  have here: "block_at s (hd (xs @ [a])) = ok bx" "block_at s a = ok b" using bx(1) b(1) by (simp_all add: block_at_def)
  show g: "get_block_addr fuel (block_ptr b) s = ok a"
  proof (cases "block_ptr bx = block_ptr b")
    case True
    then have "hd (xs @ [a]) = a" using bx(2) by simp
    then show ?thesis unfolding get_block_addr_def h Let_def if_P [OF inside] if_not_P [OF nz] here(1) bindE.simps by (simp only: True if_True simp_thms)
  next
    case False
    then show ?thesis unfolding get_block_addr_def h Let_def if_P [OF inside] if_not_P [OF nz] here(1) bindE.simps
      by (simp add: skip lim(1) here(2))
  qed
  have "hd (xs @ [a]) < block_ptr b" using le lim(2) by (simp add: word_less_nat_alt)
  then show "is_addr_valid fuel (block_ptr b) s = ok True"
    unfolding is_addr_valid_def h if_not_P [OF nz] using inside by (simp add: g lim(1) here(2))
qed

subsection \<open>Merging\<close>

definition view_block :: "kernel_heap \<Rightarrow> addr \<Rightarrow> (addr \<times> usize \<times> bool) option" where
  "view_block s a = map_option (\<lambda>b. (block_ptr b, block_size b, block_is_free b)) (blocks s a)"

definition same_heap :: "kernel_heap \<Rightarrow> kernel_heap \<Rightarrow> bool" where
  "same_heap s s' \<longleftrightarrow> heap_mgr s' = heap_mgr s \<and> kernel_mem s' = kernel_mem s \<and> g_malloc_meta_head s' = g_malloc_meta_head s"

lemma same_heap_set [simp]: "same_heap s s" "same_heap s (set_block a b s') \<longleftrightarrow> same_heap s s'"
  by (simp_all add: same_heap_def set_block_def)

lemma blocks_set [simp]: "blocks (set_block a b s) = (blocks s)(a := Some b)"
  by (simp add: set_block_def)

lemma relink_previous:
  assumes "heap_list m c (y # ys) nxt lim" "m y = Some b"
  shows "heap_list (m(y := Some (b\<lparr>block_previous := a\<rparr>))) a (y # ys) nxt lim"
proof -
  have "heap_list (m(y := Some (b\<lparr>block_previous := a\<rparr>))) y ys nxt lim = heap_list m y ys nxt lim"
    using heap_list_distinct [OF assms(1)] by (intro heap_list_cong) auto
  then show ?thesis using assms by (auto simp: heap_list_Cons block_ok_def)
qed

lemma merge_block_spec:
  assumes c: "heap_list (blocks s) prev (xs @ a # c # ys) 0 lim" "lim < 2 ^ 64"
    and b: "blocks s a = Some ba" "blocks s c = Some bc" "block_is_free bc"
  shows "\<exists>s' b'. merge_block a c s = ok s' \<and> heap_list (blocks s') prev (xs @ a # ys) 0 lim \<and> same_heap s s'
    \<and> blocks s' a = Some b' \<and> block_ptr b' = block_ptr ba \<and> block_is_free b' = block_is_free ba
    \<and> (\<forall>d. d \<noteq> a \<longrightarrow> view_block s' d = view_block s d)"
proof -
  define N L where "N = (case ys of [] \<Rightarrow> 0 | c # _ \<Rightarrow> c)" and "L = (case ys of [] \<Rightarrow> lim | c # _ \<Rightarrow> unat c)"
  have parts: "heap_list (blocks s) prev xs a (unat a)" "block_ok a ba (last (prev # xs)) c (unat c)" "block_ok c bc a N L"
      "heap_list (blocks s) c ys 0 lim"
    using c(1) b unfolding heap_list_split N_def L_def by (simp_all add: heap_list_Cons)
  have d: "a \<notin> set xs" "a \<notin> set ys" "a \<noteq> c" "set xs \<inter> set ys = {}" using heap_list_distinct [OF c(1)] by auto
  define a' where "a' = ba\<lparr>block_size := block_size ba + (block_size bc + META_BLOCK_SIZE), block_next := block_next bc\<rparr>"
  have lim: "L < 2 ^ 64" using c(2) addr_below by (cases ys) (simp_all add: L_def)
  have e: "unat (block_ptr ba) + unat (block_size ba) \<le> unat c" "unat c + 33 + unat (block_size bc) \<le> L"
    using parts(2,3) b(3) by (auto simp: block_ok_def)
  have "unat (block_size bc + META_BLOCK_SIZE) = unat (block_size bc) + 33"
    using e(2) lim by (subst unat_add_no_wrap) (simp_all add: META_BLOCK_SIZE_def)
  moreover from this have "unat (block_size ba + (block_size bc + META_BLOCK_SIZE)) = unat (block_size ba) + unat (block_size bc + META_BLOCK_SIZE)"
    using e lim by (intro unat_add_no_wrap) simp
  ultimately have size: "unat (block_size a') = unat (block_size ba) + unat (block_size bc) + 33" by (simp add: a'_def)
  have ok_a: "block_ok a a' (last (prev # xs)) N L"
  proof -
    have f: "block_previous a' = block_previous ba" "block_ptr a' = block_ptr ba" "block_next a' = block_next bc" "block_is_free a' = block_is_free ba"
      by (simp_all add: a'_def)
    have "unat (block_ptr ba) + unat (block_size a') \<le> L" unfolding size using e by linarith
    moreover have "block_next bc = N" using parts(3) by (simp add: block_ok_def)
    ultimately show ?thesis using parts(2) unfolding block_ok_def f by blast
  qed
  define m where "m = (blocks s)(a := Some a')"
  have ma: "heap_list m prev xs a (unat a)" "heap_list m c ys 0 lim"
    using parts(1,4) d by (simp_all add: m_def heap_list_other)
  have merge: "merge_block a c s = (if block_next bc = 0 then ok (set_block a a' s)
      else bindE (block_at (set_block a a' s) (block_next bc)) (\<lambda>n. ok (set_block (block_next bc) (n\<lparr>block_previous := a\<rparr>) (set_block a a' s))))"
    using parts(2,3) b unfolding merge_block_def a'_def by (simp add: block_at_def block_ok_def Let_def)
  have nxt: "block_next bc = N" using parts(3) by (simp add: block_ok_def)
  show ?thesis
  proof (cases ys)
    case Nil
    then have "merge_block a c s = ok (set_block a a' s)" using merge nxt by (simp add: N_def)
    moreover have "heap_list (blocks (set_block a a' s)) prev (xs @ a # ys) 0 lim"
      using ma(1) ok_a Nil unfolding heap_list_split by (simp add: m_def N_def L_def)
    ultimately show ?thesis by (intro exI [of _ "set_block a a' s"] exI [of _ a']) (simp add: a'_def view_block_def)
  next
    case (Cons y zs)
    obtain n where n: "blocks s y = Some n" "y \<noteq> 0" using heap_list_limit [OF parts(4), of y] Cons by auto
    have y: "y \<noteq> a" "y \<notin> set xs" using d Cons by auto
    let ?n = "n\<lparr>block_previous := a\<rparr>"
    have "merge_block a c s = ok (set_block y ?n (set_block a a' s))"
      using merge nxt n y Cons by (simp add: block_at_def N_def)
    moreover have "heap_list (m(y := Some ?n)) prev (xs @ a # ys) 0 lim"
    proof -
      have "heap_list (m(y := Some ?n)) prev xs a (unat a) = heap_list m prev xs a (unat a)" using y(2) by (intro heap_list_cong) auto
      moreover have "heap_list (m(y := Some ?n)) a ys 0 lim"
        using relink_previous [of m c y zs 0 lim n a] ma(2) n(1) y(1) unfolding Cons by (simp add: m_def)
      ultimately show ?thesis using ma(1) ok_a y(1) unfolding heap_list_split by (simp add: m_def N_def L_def)
    qed
    ultimately show ?thesis
      using n y by (intro exI [of _ "set_block y ?n (set_block a a' s)"] exI [of _ a']) (simp add: a'_def view_block_def m_def)
  qed
qed

subsection \<open>Freeing\<close>

text \<open>\<open>keeps s as s' as'\<close>: the blocks of \<open>as\<close> that are in use are still in the list, and unchanged.\<close>

definition in_use_block :: "kernel_heap \<Rightarrow> addr \<Rightarrow> bool" where
  "in_use_block s a \<longleftrightarrow> (\<exists>p n. view_block s a = Some (p, n, False))"

definition keeps :: "kernel_heap \<Rightarrow> addr list \<Rightarrow> kernel_heap \<Rightarrow> addr list \<Rightarrow> bool" where
  "keeps s as s' as' \<longleftrightarrow> (\<forall>d \<in> set as. in_use_block s d \<longrightarrow> d \<in> set as' \<and> view_block s' d = view_block s d) \<and> length as' \<le> length as"

lemma keeps_refl: "keeps s as s as"
  by (simp add: keeps_def)

lemma keeps_trans: "keeps s as s1 as1 \<Longrightarrow> keeps s1 as1 s2 as2 \<Longrightarrow> keeps s as s2 as2"
  by (simp add: keeps_def in_use_block_def)

lemma same_heap_trans: "same_heap s s1 \<Longrightarrow> same_heap s1 s2 \<Longrightarrow> same_heap s s2"
  by (simp add: same_heap_def)

lemma merge_keeps:
  assumes "\<forall>d. d \<noteq> a \<longrightarrow> view_block s' d = view_block s d" "\<not> in_use_block s a" "\<not> in_use_block s c"
  shows "keeps s (xs @ a # c # ys) s' (xs @ a # ys)"
  using assms by (auto simp: keeps_def)

lemma merge_previous_spec:
  assumes c: "heap_list (blocks s) 0 (xs @ a # ys) 0 lim" "lim < 2 ^ 64" and b: "blocks s a = Some b" "block_is_free b"
    and h: "g_malloc_meta_head s = hd (xs @ [a])"
  shows "\<exists>s' as'. merge_previous fuel a s = ok s' \<and> heap_list (blocks s') 0 as' 0 lim \<and> same_heap s s' \<and> keeps s (xs @ a # ys) s' as'
    \<and> as' \<noteq> [] \<and> g_malloc_meta_head s' = hd as'"
proof -
  have stay: "\<exists>s' as'. ok s = ok s' \<and> heap_list (blocks s') 0 as' 0 lim \<and> same_heap s s' \<and> keeps s (xs @ a # ys) s' as'
      \<and> as' \<noteq> [] \<and> g_malloc_meta_head s' = hd as'"
    using c(1) h by (intro exI [of _ s] exI [of _ "xs @ a # ys"]) (simp add: keeps_refl hd_append)
  have prev: "block_previous b = last (0 # xs)" using c(1) b(1) unfolding heap_list_split by (simp add: block_ok_def)
  have here: "block_at s a = ok b" using b(1) by (simp add: block_at_def)
  show ?thesis
  proof (cases xs rule: rev_cases)
    case Nil
    then show ?thesis using stay prev here by (simp add: merge_previous_def)
  next
    case (snoc xs' q)
    have l: "heap_list (blocks s) 0 (xs' @ q # a # ys) 0 lim" using c(1) by (simp add: snoc)
    obtain bq where bq: "blocks s q = Some bq" "q \<noteq> 0" "block_next bq = a"
      using l unfolding heap_list_split by (auto simp: block_ok_def)
    have q: "block_at s q = ok bq" "block_previous b = q" using bq(1) prev by (simp_all add: block_at_def snoc)
    show ?thesis
    proof (cases "block_is_free bq")
      case False
      then show ?thesis using stay here q bq by (simp add: merge_previous_def)
    next
      case True
      obtain s' b' where m: "merge_block q a s = ok s'" "heap_list (blocks s') 0 (xs' @ q # ys) 0 lim" "same_heap s s'"
          "\<forall>d. d \<noteq> q \<longrightarrow> view_block s' d = view_block s d"
        using merge_block_spec [OF l c(2) bq(1) b] by blast
      have "keeps s (xs @ a # ys) s' (xs' @ q # ys)"
        using merge_keeps [OF m(4), of a xs' ys] True b bq(1) by (simp add: snoc in_use_block_def view_block_def)
      moreover have "g_malloc_meta_head s' = hd (xs' @ q # ys)" using m(3) h by (cases xs') (simp_all add: same_heap_def snoc)
      moreover have "merge_previous fuel a s = ok s'" using True here q bq m(1) by (simp add: merge_previous_def)
      ultimately show ?thesis using m(2,3) by blast
    qed
  qed
qed

lemma merge_next_spec:
  assumes c: "heap_list (blocks s) 0 (xs @ a # ys) 0 lim" "lim < 2 ^ 64" and b: "blocks s a = Some b" "block_is_free b"
  shows "\<exists>s' zs b'. merge_next a (block_next b) s = ok s' \<and> heap_list (blocks s') 0 (xs @ a # zs) 0 lim \<and> same_heap s s'
    \<and> keeps s (xs @ a # ys) s' (xs @ a # zs) \<and> blocks s' a = Some b' \<and> block_is_free b'"
proof -
  have nxt: "block_next b = (case ys of [] \<Rightarrow> 0 | c # _ \<Rightarrow> c)" using c(1) b(1) unfolding heap_list_split by (simp add: block_ok_def)
  have stay: "\<exists>s' zs b'. ok s = ok s' \<and> heap_list (blocks s') 0 (xs @ a # zs) 0 lim \<and> same_heap s s'
      \<and> keeps s (xs @ a # ys) s' (xs @ a # zs) \<and> blocks s' a = Some b' \<and> block_is_free b'"
    using c(1) b by (intro exI [of _ s] exI [of _ ys] exI [of _ b]) (simp add: keeps_refl)
  show ?thesis
  proof (cases ys)
    case Nil
    then show ?thesis using stay by (simp add: merge_next_def nxt)
  next
    case (Cons y zs)
    obtain n where n: "blocks s y = Some n" "y \<noteq> 0" using heap_list_limit [OF c(1), of y] Cons by auto
    show ?thesis
    proof (cases "block_is_free n")
      case False
      then show ?thesis using stay n Cons by (simp add: merge_next_def nxt block_at_def)
    next
      case True
      obtain s' b' where m: "merge_block a y s = ok s'" "heap_list (blocks s') 0 (xs @ a # zs) 0 lim" "same_heap s s'" "blocks s' a = Some b'"
          "block_is_free b' = block_is_free b" "\<forall>d. d \<noteq> a \<longrightarrow> view_block s' d = view_block s d"
        using merge_block_spec [OF c(1) [unfolded Cons] c(2) b(1) n(1) True] by blast
      have "keeps s (xs @ a # ys) s' (xs @ a # zs)"
        using merge_keeps [OF m(6), of y xs zs] b n(1) True by (simp add: Cons in_use_block_def view_block_def)
      moreover have "merge_next a (block_next b) s = ok s'" using m(1) n True Cons by (simp add: merge_next_def nxt block_at_def)
      ultimately show ?thesis using m(2-5) b(2) by blast
    qed
  qed
qed

lemma kfree_spec:
  assumes c: "heap_list (blocks s) 0 (xs @ a # ys) 0 (unat (get_heap_end (heap_mgr s)))" and h: "g_malloc_meta_head s = hd (xs @ [a])"
    and b: "blocks s a = Some b" "0 < block_size b" and fuel: "length xs \<le> fuel"
  shows "\<exists>s' as'. kfree fuel (block_ptr b) s = ok s' \<and> heap_list (blocks s') 0 as' 0 (unat (get_heap_end (heap_mgr s'))) \<and> same_heap s s'
    \<and> (\<forall>d \<in> set (xs @ a # ys) - {a}. in_use_block s d \<longrightarrow> d \<in> set as' \<and> view_block s' d = view_block s d) \<and> length as' \<le> length (xs @ a # ys)
    \<and> as' \<noteq> [] \<and> g_malloc_meta_head s' = hd as'"
proof -
  define lim where "lim = unat (get_heap_end (heap_mgr s))"
  define N L where "N = (case ys of [] \<Rightarrow> 0 | c # _ \<Rightarrow> c)" and "L = (case ys of [] \<Rightarrow> lim | c # _ \<Rightarrow> unat c)"
  have lim: "lim < 2 ^ 64" unfolding lim_def by (rule addr_below)
  have ok_b: "block_ok a b (last (0 # xs)) N L" using c b(1) unfolding heap_list_split N_def L_def lim_def by simp
  have L: "L < 2 ^ 64" using lim addr_below by (cases ys) (simp_all add: L_def)
  define b1 where "b1 = b\<lparr>block_is_free := True, block_ptr := block_data a, block_size := block_size b + (block_ptr b - block_data a)\<rparr>"
  define s1 where "s1 = set_block a b1 s"
  have e: "unat a + 33 \<le> unat (block_ptr b)" "unat (block_ptr b) + unat (block_size b) \<le> L" using ok_b by (simp_all add: block_ok_def)
  have data: "unat (block_data a) = unat a + 33"
    using e(1) addr_below [of "block_ptr b"] unfolding block_data_def META_BLOCK_SIZE_def by (subst unat_add_no_wrap) simp_all
  have "unat (block_ptr b - block_data a) = unat (block_ptr b) - (unat a + 33)"
    using e(1) data by (simp add: unat_sub_no_wrap word_le_nat_alt)
  then have "unat (block_size b + (block_ptr b - block_data a)) = unat (block_size b) + (unat (block_ptr b) - (unat a + 33))"
    using e L by (subst unat_add_no_wrap) simp_all
  then have "block_ok a b1 (last (0 # xs)) N L" using ok_b e data unfolding b1_def block_ok_def by simp
  then have c1: "heap_list (blocks s1) 0 (xs @ a # ys) 0 lim"
    using heap_list_update [OF c [folded lim_def], of b1] by (simp add: s1_def N_def L_def)
  have b1: "blocks s1 a = Some b1" "block_is_free b1" "block_next b1 = N" "same_heap s s1" "\<not> in_use_block s1 a"
    using ok_b by (simp_all add: s1_def b1_def block_ok_def in_use_block_def view_block_def)
  have keep1: "in_use_block s1 d = in_use_block s d \<and> view_block s1 d = view_block s d" if "d \<noteq> a" for d
    using that by (simp add: s1_def in_use_block_def view_block_def)
  have "a \<noteq> 0" using ok_b by (simp add: block_ok_def)
  then have head: "hd (xs @ [a]) \<noteq> 0" using heap_list_limit [OF c, of "hd (xs @ [a])"] by (cases xs) auto
  obtain s2 zs b2 where s2: "merge_next a N s1 = ok s2" "heap_list (blocks s2) 0 (xs @ a # zs) 0 lim" "same_heap s1 s2"
      "keeps s1 (xs @ a # ys) s2 (xs @ a # zs)" "blocks s2 a = Some b2" "block_is_free b2"
    using merge_next_spec [OF c1 lim b1(1,2)] unfolding b1(3) by blast
  have h2: "g_malloc_meta_head s2 = hd (xs @ [a])" using s2(3) b1(4) h by (simp add: same_heap_def)
  obtain s3 as' where s3: "merge_previous fuel a s2 = ok s3" "heap_list (blocks s3) 0 as' 0 lim" "same_heap s2 s3" "keeps s2 (xs @ a # zs) s3 as'"
      "as' \<noteq> []" "g_malloc_meta_head s3 = hd as'"
    using merge_previous_spec [OF s2(2) lim s2(5,6) h2] by blast
  have same: "same_heap s s3" using same_heap_trans [OF same_heap_trans [OF b1(4) s2(3)] s3(3)] .
  have "block_ptr b \<noteq> 0" using e(1) by (auto simp: unat_eq_0)
  moreover have here: "block_at s a = ok b" using b(1) by (simp add: block_at_def)
  moreover have freed: "b\<lparr>block_is_free := True, block_ptr := block_data a,
      block_size := block_size (b\<lparr>block_is_free := True, block_ptr := block_data a\<rparr>) + (block_ptr b - block_ptr (b\<lparr>block_is_free := True, block_ptr := block_data a\<rparr>))\<rparr> = b1"
    by (simp add: b1_def)
  ultimately have "kfree fuel (block_ptr b) s = bindE (merge_next a N s1) (merge_previous fuel a)"
    unfolding kfree_def get_block_addr_finds [OF c h b fuel] bindE.simps here Let_def freed s1_def [symmetric] b1(3) by simp
  then have "kfree fuel (block_ptr b) s = ok s3" using s2(1) s3(1) by simp
  moreover have "\<forall>d \<in> set (xs @ a # ys) - {a}. in_use_block s d \<longrightarrow> d \<in> set as' \<and> view_block s3 d = view_block s d" "length as' \<le> length (xs @ a # ys)"
    using keeps_trans [OF s2(4) s3(4)] keep1 by (auto simp: keeps_def)
  moreover have "get_heap_end (heap_mgr s3) = get_heap_end (heap_mgr s)" using same by (simp add: same_heap_def)
  ultimately show ?thesis using s3(2,5,6) same unfolding lim_def by auto
qed

subsection \<open>Growing the heap\<close>

text \<open>The heap below is sound; \<open>room\<close> says that \<open>d\<close> more bytes can be had from it.\<close>

definition heap_ready :: "page_alloc_list MMUTable \<Rightarrow> kernel_heap \<Rightarrow> bool" where
  "heap_ready tbl s \<longleftrightarrow> (\<exists>st z F. heap_at tbl (heap_mgr s) st (pages_of z) z \<and> active tbl (kernel_mem s) \<and> tables_ok tbl (mem (kernel_mem s)) F
     \<and> 0 < st \<and> st + pages_of z < PAGES)"

definition room :: "nat \<Rightarrow> kernel_heap \<Rightarrow> nat \<Rightarrow> bool" where
  "room fuel s d \<longleftrightarrow> 4 * pages_of d \<le> pages_left (pages (mem (kernel_mem s))) \<and> unat (get_heap_end (heap_mgr s)) + d + PAGE_BYTES < 2 ^ 64
     \<and> pages_of d \<le> fuel"

lemma pages_of_add: "pages_of (z + d) - pages_of z \<le> pages_of d"
proof -
  have "(z + d + 4095) div 4096 \<le> (z + 4095) div 4096 + (d + 4095) div 4096" by linarith
  then show ?thesis unfolding pages_of_def by simp
qed

lemma pages_of_mono: "d \<le> d' \<Longrightarrow> pages_of d \<le> pages_of d'"
  by (simp add: pages_of_def div_le_mono)

lemma room_mono: "room fuel s d' \<Longrightarrow> d \<le> d' \<Longrightarrow> room fuel s d"
  using pages_of_mono [of d d'] by (auto simp: room_def)

lemma heap_ready_grows:
  assumes tbl: "tbl = make_tbl Kernel top_table number" "top_table \<noteq> 0" and s: "heap_ready tbl s" "room fuel s d" and d: "d < 2 ^ 63"
  shows "\<exists>h k. change_heap_end fuel flags tbl (int d) (heap_mgr s) (kernel_mem s) = ok (get_heap_end h, h, k)
    \<and> heap_ready tbl (s\<lparr>heap_mgr := h, kernel_mem := k\<rparr>) \<and> unat (get_heap_end h) = unat (get_heap_end (heap_mgr s)) + d \<and> get_heap_end h \<noteq> 0"
proof -
  obtain st z F where a: "heap_at tbl (heap_mgr s) st (pages_of z) z" "active tbl (kernel_mem s)" "tables_ok tbl (mem (kernel_mem s)) F"
      "0 < st" "st + pages_of z < PAGES" using s(1) unfolding heap_ready_def by blast
  have kd: "kind tbl = Kernel" by (simp add: tbl(1))
  have base: "unat (get_base_address Kernel) = 2 ^ 64 - 2 ^ 48" by (simp add: base_unat)
  have e: "unat (get_heap_end (heap_mgr s)) = 2 ^ 64 - 2 ^ 48 + st * 4096 + z" using heap_end_unat [OF a(1,5)] by (simp add: kd base)
  have r: "4 * pages_of d \<le> pages_left (pages (mem (kernel_mem s)))" "2 ^ 64 - 2 ^ 48 + st * 4096 + z + d + 4096 < 2 ^ 64" "pages_of d \<le> fuel"
    using s(2) unfolding room_def e by simp_all
  have top: "st + pages_of (z + d) < PAGES"
  proof -
    have "pages_of (z + d) * 4096 \<le> z + d + 4095" unfolding pages_of_def by simp
    then show ?thesis using r(2) by simp
  qed
  have le: "pages_of (z + d) - pages_of z \<le> pages_of d" by (rule pages_of_add)
  obtain h' st' qs F' where g: "change_heap_end fuel flags tbl (int d) (heap_mgr s) (kernel_mem s)
        = ok (page_va Kernel st + of_nat (z + d), h', kernel_mem s\<lparr>mem := st'\<rparr>)"
      "heap_at tbl h' st (pages_of (z + d)) (z + d)" "extended tbl (heap_attr (heap_mgr s)) (st + pages_of z) qs (mem (kernel_mem s)) F st' F'"
    using heap_grows [OF tbl a(2,3,1,4) top, of fuel flags] le r by auto
  have end': "get_heap_end h' = page_va Kernel st + of_nat (z + d)" using g(2) by (simp add: get_heap_end_def heap_at_def kd)
  have ready: "heap_ready tbl (s\<lparr>heap_mgr := h', kernel_mem := kernel_mem s\<lparr>mem := st'\<rparr>\<rparr>)"
  proof -
    have act: "active tbl (kernel_mem s\<lparr>mem := st'\<rparr>)" using a(2) by (simp add: active_def kd)
    have tabs: "tables_ok tbl st' F'" using g(3) by (simp add: extended_def)
    show ?thesis unfolding heap_ready_def
      by (rule exI [of _ st], rule exI [of _ "z + d"], rule exI [of _ F']) (use g(2) a(4) top act tabs in simp)
  qed
  have u: "unat (get_heap_end h') = unat (get_heap_end (heap_mgr s)) + d" using heap_end_unat [OF g(2) top] e by (simp add: kd base)
  then have "get_heap_end h' \<noteq> 0" using e by (auto simp: unat_eq_0)
  then show ?thesis using g(1) end' ready u by auto
qed

lemma heap_end_not_null: "tbl = make_tbl Kernel top_table number \<Longrightarrow> heap_ready tbl s \<Longrightarrow> get_heap_end (heap_mgr s) \<noteq> 0"
  unfolding heap_ready_def using heap_end_unat by (fastforce simp: base_unat)

lemma align_to_next_bounds:
  assumes "k < 64" "unat v + 2 ^ k \<le> 2 ^ 64"
  obtains q where "align_to_next v (2 ^ k) = ok q" "2 ^ k dvd unat q" "unat v \<le> unat q" "unat q < unat v + 2 ^ k"
proof -
  have p: "0 < (2 :: nat) ^ k" by simp
  then have "unat v + (2 ^ k - 1) < 2 ^ 64" using assms(2) by linarith
  then obtain r where "align_to_next v (2 ^ k) = ok r" "unat r = (unat v + (2 ^ k - 1)) - (unat v + (2 ^ k - 1)) mod 2 ^ k"
    using align_to_next_unat [OF assms(1)] by blast
  then show ?thesis using that round_up_bounds [OF p, of "unat v"] by simp
qed

lemma heap_list_snoc:
  assumes c: "heap_list m 0 as 0 lim" and new: "block_ok e b (last (0 # as)) 0 lim'" "lim \<le> unat e"
    and last: "as \<noteq> [] \<Longrightarrow> m (last as) = Some l"
  shows "heap_list (if as = [] then m(e := Some b) else m(e := Some b, last as := Some (l\<lparr>block_next := e\<rparr>))) 0 (as @ [e]) 0 lim'"
proof (cases as rule: rev_cases)
  case Nil
  then show ?thesis using new by (simp add: heap_list_Cons)
next
  case (snoc xs x)
  have d: "x \<notin> set xs" "e \<notin> set (xs @ [x])"
  proof -
    show "x \<notin> set xs" using heap_list_distinct [OF c] by (simp add: snoc)
    show "e \<notin> set (xs @ [x])"
    proof
      assume "e \<in> set (xs @ [x])"
      then show False using heap_list_limit [OF c, of e] new(2) by (auto simp: snoc)
    qed
  qed
  have l: "m x = Some l" "heap_list m 0 xs x (unat x)" "block_ok x l (last (0 # xs)) 0 lim"
    using c last unfolding snoc heap_list_split by simp_all
  have "block_ok x (l\<lparr>block_next := e\<rparr>) (last (0 # xs)) e (unat e)" using l(3) new(2) by (simp add: block_ok_def)
  moreover have "block_ok e b x 0 lim'" using new(1) by (simp add: snoc)
  moreover have "heap_list (m(e := Some b, x := Some (l\<lparr>block_next := e\<rparr>))) 0 xs x (unat x)" using l(2) d by (simp add: heap_list_other)
  moreover have "as @ [e] = xs @ x # [e]" "as \<noteq> []" "last as = x" by (simp_all add: snoc)
  ultimately show ?thesis using d unfolding \<open>as @ [e] = xs @ x # [e]\<close> heap_list_split by (simp add: heap_list_Cons)
qed

lemma extend_heap_spec:
  assumes tbl: "tbl = make_tbl Kernel top_table number" "top_table \<noteq> 0" and s: "heap_ready tbl s" "room fuel s (33 + 2 ^ k + unat n)"
    and k: "k < 32" "unat n < 2 ^ 32" "0 < unat n" and c: "heap_list (blocks s) 0 as 0 (unat (get_heap_end (heap_mgr s)))"
  shows "\<exists>e s' b. extend_heap fuel flags tbl (last (0 # as)) n (2 ^ k) s = ok (e, s') \<and> e \<noteq> 0 \<and> heap_ready tbl s'
    \<and> heap_list (blocks s') 0 (as @ [e]) 0 (unat (get_heap_end (heap_mgr s'))) \<and> g_malloc_meta_head s' = g_malloc_meta_head s
    \<and> blocks s' e = Some b \<and> 2 ^ k dvd unat (block_ptr b) \<and> block_size b = n \<and> \<not> block_is_free b
    \<and> e \<notin> set as \<and> (\<forall>d \<in> set as. view_block s' d = view_block s d)"
proof -
  define e where "e = get_heap_end (heap_mgr s)"
  have pow: "(2 :: nat) ^ k \<le> 2 ^ 31" using k(1) by (intro power_increasing) simp_all
  have top: "unat e + (33 + 2 ^ k + unat n) + 4096 < 2 ^ 64" using s(2) by (simp add: room_def e_def)
  have e33: "unat (e + META_BLOCK_SIZE) = unat e + 33" using top unfolding META_BLOCK_SIZE_def by (subst unat_add_no_wrap) simp_all
  obtain q where q: "align_to_next (e + META_BLOCK_SIZE) (2 ^ k) = ok q" "2 ^ k dvd unat q" "unat e + 33 \<le> unat q" "unat q < unat e + 33 + 2 ^ k"
    using align_to_next_bounds [of k "e + META_BLOCK_SIZE"] k(1) top e33 by auto
  define d where "d = unat q - unat e + unat n"
  have d: "unat (q - e + n) = d" "d \<le> 33 + 2 ^ k + unat n" "d < 2 ^ 63"
  proof -
    have sub: "unat (q - e) = unat q - unat e" using q(3) by (intro unat_sub_no_wrap) (simp add: word_le_nat_alt)
    then show "unat (q - e + n) = d" using q(4) k(2) pow unfolding d_def by (subst unat_add_no_wrap) simp_all
    show "d \<le> 33 + 2 ^ k + unat n" "d < 2 ^ 63" using q(3,4) k(2) pow by (simp_all add: d_def)
  qed
  have int: "sint (q - e + n) = int d" using d(1,3) unfolding sint_uint by (simp add: signed_take_bit_int_eq_self uint_nat)
  obtain h km where g: "change_heap_end fuel flags tbl (int d) (heap_mgr s) (kernel_mem s) = ok (get_heap_end h, h, km)"
      "heap_ready tbl (s\<lparr>heap_mgr := h, kernel_mem := km\<rparr>)" "unat (get_heap_end h) = unat e + d" "get_heap_end h \<noteq> 0"
    using heap_ready_grows [OF tbl s(1) room_mono [OF s(2) d(2)] d(3), of flags] unfolding e_def by blast
  define b where "b = \<lparr>block_size = n, block_next = 0, block_previous = last (0 # as), block_ptr = q, block_is_free = False\<rparr>"
  define s1 where "s1 = s\<lparr>heap_mgr := h, kernel_mem := km\<rparr>"
  have e0: "e \<noteq> 0" unfolding e_def by (rule heap_end_not_null [OF tbl(1) s(1)])
  have s1: "get_heap_end (heap_mgr s1) = get_heap_end h" "blocks s1 = blocks s" "g_malloc_meta_head s1 = g_malloc_meta_head s" "heap_ready tbl s1"
    using g(2) by (simp_all add: s1_def)
  have ok_b: "block_ok e b (last (0 # as)) 0 (unat (get_heap_end h))"
    using e0 q(3) g(3) by (simp add: b_def block_ok_def d_def)
  have ne: "e \<notin> set as" using heap_list_limit [OF c, of e] by (auto simp: e_def)
  have run: "extend_heap fuel flags tbl (last (0 # as)) n (2 ^ k) s
      = (if last (0 # as) = 0 then ok (e, set_block e b s1)
         else bindE (block_at (set_block e b s1) (last (0 # as))) (\<lambda>l. ok (e, set_block (last (0 # as)) (l\<lparr>block_next := e\<rparr>) (set_block e b s1))))"
    unfolding extend_heap_def Let_def e_def [symmetric] q(1) bindE.simps int g(1) using g(4) by (simp add: s1_def b_def)
  have b: "2 ^ k dvd unat (block_ptr b)" "block_size b = n" "\<not> block_is_free b" using q(2) by (simp_all add: b_def)
  show ?thesis
  proof (cases "as = []")
    case True
    have "heap_list (blocks (set_block e b s1)) 0 (as @ [e]) 0 (unat (get_heap_end h))"
      using heap_list_snoc [OF c ok_b, of b] True s1(2) by (simp add: e_def)
    then show ?thesis
      using run True e0 s1 b by (intro exI [of _ e] exI [of _ "set_block e b s1"] exI [of _ b]) (simp add: set_block_def heap_ready_def)
  next
    case False
    then obtain l where l: "blocks s (last as) = Some l" "last as \<noteq> 0" using heap_list_limit [OF c, of "last as"] by auto
    have le: "last as \<noteq> e" using ne False by auto
    define s2 where "s2 = set_block (last as) (l\<lparr>block_next := e\<rparr>) (set_block e b s1)"
    have "heap_list (blocks s2) 0 (as @ [e]) 0 (unat (get_heap_end h))"
      using heap_list_snoc [OF c ok_b _ l(1)] False s1(2) by (simp add: e_def s2_def)
    moreover have "extend_heap fuel flags tbl (last (0 # as)) n (2 ^ k) s = ok (e, s2)"
      using run False l le s1(2) by (simp add: block_at_def s2_def)
    moreover have "\<forall>d \<in> set as. view_block s2 d = view_block s d" using ne l(1) s1(2) by (auto simp: s2_def view_block_def)
    moreover have "heap_ready tbl s2" "heap_mgr s2 = heap_mgr s1" "g_malloc_meta_head s2 = g_malloc_meta_head s" "blocks s2 e = Some b"
      using s1 le by (simp_all add: s2_def set_block_def heap_ready_def)
    ultimately show ?thesis using e0 b ne s1(1) by (intro exI [of _ e] exI [of _ s2] exI [of _ b]) simp
  qed
qed

subsection \<open>Allocating\<close>

text \<open>The block that was found, cut to the alignment.\<close>

definition fits_into :: "MetaBlock \<Rightarrow> nat \<Rightarrow> usize \<Rightarrow> MetaBlock \<Rightarrow> bool" where
  "fits_into b k n b' \<longleftrightarrow> block_is_free b \<and> \<not> block_is_free b' \<and> block_previous b' = block_previous b \<and> block_next b' = block_next b
     \<and> 2 ^ k dvd unat (block_ptr b') \<and> unat (block_ptr b) \<le> unat (block_ptr b') \<and> unat n \<le> unat (block_size b')
     \<and> unat (block_ptr b') + unat (block_size b') = unat (block_ptr b) + unat (block_size b)"

lemma fits_block_ok: "block_ok a b prev nxt lim \<Longrightarrow> fits_into b k n b' \<Longrightarrow> block_ok a b' prev nxt lim"
  unfolding block_ok_def fits_into_def by (elim conjE, intro conjI) simp_all

lemma find_block_spec:
  assumes "heap_list (blocks s) prev (x # as) 0 lim" "lim + 2 ^ k \<le> 2 ^ 64" "k < 64" "unat n + 2 ^ k \<le> 2 ^ 64" "length as \<le> fuel"
  shows "(\<exists>xs a ys b b'. x # as = xs @ a # ys \<and> blocks s a = Some b \<and> fits_into b k n b' \<and> find_block fuel x n (2 ^ k) s = ok (True, a, set_block a b' s))
    \<or> find_block fuel x n (2 ^ k) s = ok (False, last (x # as), s)"
  using assms(1,5)
proof (induction as arbitrary: prev x fuel)
  case Nil
  then show ?case by (subst find_block.simps) (auto simp: heap_list_Cons block_ok_def block_at_def find_block.simps [of fuel x])
next
  case (Cons y ys)
  obtain b where b: "blocks s x = Some b" "block_ok x b prev y (unat y)" "heap_list (blocks s) x (y # ys) 0 lim"
    using Cons.prems(1) by (auto simp: heap_list_Cons)
  have y: "y \<noteq> 0" using heap_list_limit [OF b(3), of y] by auto
  have lim: "unat (block_ptr b) + unat (block_size b) \<le> lim" using heap_list_limit [OF Cons.prems(1), of x] b(1) by auto
  obtain q where q: "align_to_next (block_ptr b) (2 ^ k) = ok q" "2 ^ k dvd unat q" "unat (block_ptr b) \<le> unat q" "unat q < unat (block_ptr b) + 2 ^ k"
    using align_to_next_bounds [OF assms(3), of "block_ptr b"] lim assms(2) by auto
  define offset where "offset = q - block_ptr b"
  have off: "unat offset = unat q - unat (block_ptr b)" "block_ptr b + offset = q"
    using q(3) by (simp_all add: offset_def unat_sub_no_wrap word_le_nat_alt)
  have sum: "unat (n + offset) = unat n + unat offset" using off(1) q(3,4) assms(4) by (intro unat_add_no_wrap) simp
  obtain fuel' where fuel: "fuel = Suc fuel'" "length ys \<le> fuel'" using Cons.prems(2) by (cases fuel) auto
  let ?b = "b\<lparr>block_ptr := q, block_is_free := False, block_size := block_size b - offset\<rparr>"
  have step: "find_block fuel x n (2 ^ k) s = (if n + offset \<le> block_size b \<and> block_is_free b then ok (True, x, set_block x ?b s) else find_block fuel' y n (2 ^ k) s)"
    using b(1,2) y q(1) by (subst find_block.simps) (simp add: block_at_def block_ok_def Let_def offset_def [symmetric] off(2) fuel(1))
  show ?case
  proof (cases "n + offset \<le> block_size b \<and> block_is_free b")
    case True
    then have "unat n + unat offset \<le> unat (block_size b)" using sum by (simp add: word_le_nat_alt)
    moreover from this have "unat (block_size b - offset) = unat (block_size b) - unat offset" by (intro unat_sub_no_wrap) (simp add: word_le_nat_alt)
    ultimately have "fits_into b k n ?b" using True q off(1) by (simp add: fits_into_def)
    then show ?thesis using step True b(1) by (intro disjI1 exI [of _ "[]"] exI [of _ x] exI [of _ "y # ys"] exI [of _ b] exI [of _ ?b]) simp
  next
    case False
    then have next': "find_block fuel x n (2 ^ k) s = find_block fuel' y n (2 ^ k) s" by (subst step) (rule if_not_P [OF False])
    from Cons.IH [OF b(3) fuel(2)] show ?thesis
    proof (elim disjE exE conjE)
      fix xs a zs c c'
      assume "y # ys = xs @ a # zs" "blocks s a = Some c" "fits_into c k n c'" "find_block fuel' y n (2 ^ k) s = ok (True, a, set_block a c' s)"
      then show ?thesis unfolding next' by (intro disjI1 exI [of _ "x # xs"] exI [of _ a] exI [of _ zs] exI [of _ c] exI [of _ c']) simp
    qed (simp add: next')
  qed
qed

definition malloc_ok :: "page_alloc_list MMUTable \<Rightarrow> kernel_heap \<Rightarrow> addr list \<Rightarrow> bool" where
  "malloc_ok tbl s as \<longleftrightarrow> heap_ready tbl s \<and> heap_list (blocks s) 0 as 0 (unat (get_heap_end (heap_mgr s)))
     \<and> g_malloc_meta_head s = (case as of [] \<Rightarrow> 0 | a # _ \<Rightarrow> a)"

definition request_ok :: "nat \<Rightarrow> kernel_heap \<Rightarrow> usize \<Rightarrow> nat \<Rightarrow> bool" where
  "request_ok fuel s n k \<longleftrightarrow> k < 32 \<and> unat n < 2 ^ 31 \<and> room fuel s (34 + 2 ^ k + unat n)"

lemma view_some: "blocks s a = Some b \<Longrightarrow> view_block s a = Some (block_ptr b, block_size b, block_is_free b)"
  by (simp add: view_block_def)

lemma heap_ready_set [simp]: "heap_ready tbl (set_block a b s) = heap_ready tbl s" "heap_mgr (set_block a b s) = heap_mgr s"
    "g_malloc_meta_head (set_block a b s) = g_malloc_meta_head s"
  by (simp_all add: heap_ready_def set_block_def)

lemma kmalloc_spec:
  assumes tbl: "tbl = make_tbl Kernel top_table number" "top_table \<noteq> 0" and s: "malloc_ok tbl s as" "request_ok fuel s n k" "length as \<le> fuel"
  shows "\<exists>p s' as' a m. kmalloc fuel flags tbl n (2 ^ k) s = ok (p, s') \<and> malloc_ok tbl s' as' \<and> length as' \<le> Suc (length as)
    \<and> a \<in> set as' \<and> view_block s' a = Some (p, m, False) \<and> max 1 (unat n) \<le> unat m \<and> 2 ^ k dvd unat p
    \<and> (\<forall>d \<in> set as. in_use_block s d \<longrightarrow> d \<noteq> a \<and> d \<in> set as' \<and> view_block s' d = view_block s d)"
proof -
  define n' where "n' = (if n = 0 then n + 1 else n)"
  have n': "unat n' = max 1 (unat n)" "n' \<noteq> 0" by (simp_all add: n'_def unat_gt_0 Suc_leI max_def)
  have req: "k < 32" "unat n' < 2 ^ 32" "0 < unat n'" "room fuel s (33 + 2 ^ k + unat n')"
    using s(2) room_mono [of fuel s "34 + 2 ^ k + unat n" "33 + 2 ^ k + unat n'"] n' by (auto simp: request_ok_def)
  have ready: "heap_ready tbl s" and c: "heap_list (blocks s) 0 as 0 (unat (get_heap_end (heap_mgr s)))"
    and h: "g_malloc_meta_head s = (case as of [] \<Rightarrow> 0 | a # _ \<Rightarrow> a)" using s(1) by (simp_all add: malloc_ok_def)
  have al: "(if 2 ^ k = (0 :: usize) then 2 ^ k + 1 else 2 ^ k) = (2 ^ k :: usize)"
  proof -
    have "unat (2 ^ k :: usize) = 2 ^ k" using req(1) by (simp add: unat_exp)
    then show ?thesis by (metis power_not_zero unat_0 zero_neq_numeral)
  qed
  obtain e s' b where x: "extend_heap fuel flags tbl (last (0 # as)) n' (2 ^ k) s = ok (e, s')" "e \<noteq> 0" "heap_ready tbl s'"
      "heap_list (blocks s') 0 (as @ [e]) 0 (unat (get_heap_end (heap_mgr s')))" "g_malloc_meta_head s' = g_malloc_meta_head s"
      "blocks s' e = Some b" "2 ^ k dvd unat (block_ptr b)" "block_size b = n'" "\<not> block_is_free b"
      "e \<notin> set as" "\<forall>d \<in> set as. view_block s' d = view_block s d"
    using extend_heap_spec [OF tbl ready req(4,1,2,3) c, of flags] by blast
  have view_e: "view_block s' e = Some (block_ptr b, n', False)" using view_some [OF x(6)] x(8,9) by simp
  show ?thesis
  proof (cases as)
    case Nil
    define s1 where "s1 = s'\<lparr>g_malloc_meta_head := e\<rparr>"
    have "kmalloc fuel flags tbl n (2 ^ k) s = ok (block_ptr b, s1)"
      using x(1,2,6) h Nil unfolding kmalloc_def al n'_def [symmetric] Let_def by (simp add: s1_def block_at_def)
    moreover have "malloc_ok tbl s1 [e]" using x(3,4) Nil by (simp add: malloc_ok_def s1_def heap_ready_def)
    moreover have "view_block s1 e = Some (block_ptr b, n', False)" using view_e by (simp add: s1_def view_block_def)
    ultimately show ?thesis
      using x(7) n'(1) Nil by (intro exI [of _ "block_ptr b"] exI [of _ s1] exI [of _ "[e]"] exI [of _ e] exI [of _ n']) simp
  next
    case (Cons y ys)
    have y: "y \<noteq> 0" using heap_list_limit [OF c, of y] Cons by auto
    have head: "g_malloc_meta_head s = y" using h Cons by simp
    have pow: "(2 :: nat) ^ k \<le> 2 ^ 31" using req(1) by (intro power_increasing) simp_all
    have run: "kmalloc fuel flags tbl n (2 ^ k) s = bindE (find_suitable_block fuel flags tbl n' (2 ^ k) s) (\<lambda>(block, s).
        if block = 0 then ok (0, s) else bindE (block_at s block) (\<lambda>b. ok (block_ptr b, s)))"
      using y unfolding kmalloc_def al n'_def [symmetric] Let_def head by simp
    have "unat (get_heap_end (heap_mgr s)) + 2 ^ k \<le> 2 ^ 64" using req(4) by (simp add: room_def)
    then have "(\<exists>xs a zs b b'. as = xs @ a # zs \<and> blocks s a = Some b \<and> fits_into b k n' b'
          \<and> find_block fuel y n' (2 ^ k) s = ok (True, a, set_block a b' s))
        \<or> find_block fuel y n' (2 ^ k) s = ok (False, last as, s)"
      using find_block_spec [of s 0 y ys "unat (get_heap_end (heap_mgr s))" k n' fuel] c Cons req(1,2) pow s(3) by simp
    then show ?thesis
    proof (elim disjE exE conjE)
      fix xs a zs b b'
      assume f: "as = xs @ a # zs" "blocks s a = Some b" "fits_into b k n' b'" "find_block fuel y n' (2 ^ k) s = ok (True, a, set_block a b' s)"
      have a: "a \<noteq> 0" using heap_list_limit [OF c, of a] f(1) by auto
      have "block_ok a b (last (0 # xs)) (case zs of [] \<Rightarrow> 0 | c # _ \<Rightarrow> c) (case zs of [] \<Rightarrow> unat (get_heap_end (heap_mgr s)) | c # _ \<Rightarrow> unat c)"
        using c f(2) unfolding f(1) heap_list_split by simp
      then have "block_ok a b' (last (0 # xs)) (case zs of [] \<Rightarrow> 0 | c # _ \<Rightarrow> c) (case zs of [] \<Rightarrow> unat (get_heap_end (heap_mgr s)) | c # _ \<Rightarrow> unat c)"
        using f(3) by (rule fits_block_ok)
      then have "malloc_ok tbl (set_block a b' s) as"
        using heap_list_update [OF c [unfolded f(1)]] ready h unfolding f(1) by (simp add: malloc_ok_def)
      moreover have "kmalloc fuel flags tbl n (2 ^ k) s = ok (block_ptr b', set_block a b' s)"
        unfolding run find_suitable_block_def head f(4) using a by (simp add: block_at_def)
      moreover have "\<not> in_use_block s a" using f(2,3) by (simp add: in_use_block_def view_block_def fits_into_def)
      ultimately show ?thesis
        using f(1,3) n'(1) by (intro exI [of _ "block_ptr b'"] exI [of _ "set_block a b' s"] exI [of _ as] exI [of _ a] exI [of _ "block_size b'"])
          (auto simp: fits_into_def view_block_def)
    next
      assume f: "find_block fuel y n' (2 ^ k) s = ok (False, last as, s)"
      have "kmalloc fuel flags tbl n (2 ^ k) s = ok (block_ptr b, s')"
        using x(1,2,6) Cons unfolding run find_suitable_block_def head f by (simp add: block_at_def)
      moreover have "malloc_ok tbl s' (as @ [e])" using x(3,4,5) h Cons by (simp add: malloc_ok_def)
      ultimately show ?thesis
        using view_e x(7,10,11) n'(1) by (intro exI [of _ "block_ptr b"] exI [of _ s'] exI [of _ "as @ [e]"] exI [of _ e] exI [of _ n']) auto
    qed
  qed
qed

subsection \<open>Sessions\<close>

text \<open>
  What the callers of the allocator see: \<open>live\<close> holds the pointers that \<^verbatim>\<open>kmalloc\<close> has returned and that have not been given to
  \<^verbatim>\<open>kfree\<close>, with the number of bytes asked for; \<open>calls\<close> counts the calls of \<^verbatim>\<open>kmalloc\<close>. Meanwhile the rest of the kernel may use
  and free pages.
\<close>

inductive malloc_reachable :: "page_alloc_list MMUTable \<Rightarrow> kernel_heap \<Rightarrow> (addr \<Rightarrow> nat option) \<Rightarrow> nat \<Rightarrow> bool" for tbl where
  start: "heap_ready tbl s \<Longrightarrow> g_malloc_meta_head s = 0 \<Longrightarrow> malloc_reachable tbl s Map.empty 0"
| alloc: "\<lbrakk>malloc_reachable tbl s live calls; request_ok fuel s n k; calls \<le> fuel; kmalloc fuel flags tbl n (2 ^ k) s = ok (p, s')\<rbrakk>
    \<Longrightarrow> malloc_reachable tbl s' (live(p \<mapsto> unat n)) (Suc calls)"
| free: "\<lbrakk>malloc_reachable tbl s live calls; live p \<noteq> None; calls \<le> fuel; kfree fuel p s = ok s'\<rbrakk>
    \<Longrightarrow> malloc_reachable tbl s' (live(p := None)) calls"
| others: "\<lbrakk>malloc_reachable tbl s live calls; heap_ready tbl (s\<lparr>kernel_mem := k\<rparr>)\<rbrakk> \<Longrightarrow> malloc_reachable tbl (s\<lparr>kernel_mem := k\<rparr>) live calls"

definition holds_live :: "kernel_heap \<Rightarrow> addr list \<Rightarrow> (addr \<Rightarrow> nat option) \<Rightarrow> bool" where
  "holds_live s as live \<longleftrightarrow> (\<forall>p n. live p = Some n \<longrightarrow> (\<exists>a \<in> set as. \<exists>m. view_block s a = Some (p, m, False) \<and> max 1 n \<le> unat m))"

text \<open>Two blocks of the list lie one after the other, headers included.\<close>

lemma block_before:
  assumes "heap_list (blocks s) 0 (xs @ a # ys) 0 lim" "view_block s a = Some (p, m, u)" "e \<in> set ys"
  shows "unat p + unat m \<le> unat e"
proof -
  have "heap_list (blocks s) (last (0 # xs)) (a # ys) 0 lim" using assms(1) by (simp add: heap_list_append)
  then show ?thesis using heap_list_order [of "blocks s" _ a ys 0 lim e] assms(2,3) by (auto simp: view_block_def)
qed

lemma blocks_apart:
  assumes c: "heap_list (blocks s) 0 as 0 lim" and a: "a \<in> set as" "view_block s a = Some (p, m, u)"
    and e: "e \<in> set as" "view_block s e = Some (q, m', u')" "a \<noteq> e"
  shows "(unat p + unat m \<le> unat e \<and> unat e + 33 \<le> unat q) \<or> (unat q + unat m' \<le> unat a \<and> unat a + 33 \<le> unat p)"
proof -
  have data: "unat a + 33 \<le> unat p" "unat e + 33 \<le> unat q"
    using heap_list_limit [OF c a(1)] heap_list_limit [OF c e(1)] a(2) e(2) by (auto simp: view_block_def)
  obtain xs ys where as: "as = xs @ a # ys" using a(1) by (meson split_list)
  then consider "e \<in> set ys" | "e \<in> set xs" using e by auto
  then show ?thesis
  proof cases
    case 1
    then show ?thesis using block_before [OF c [unfolded as] a(2)] data by blast
  next
    case 2
    then obtain us vs where xs: "xs = us @ e # vs" by (meson split_list)
    have "heap_list (blocks s) 0 (us @ e # (vs @ a # ys)) 0 lim" using c by (simp add: as xs)
    then show ?thesis using block_before [OF _ e(2), of us "vs @ a # ys" lim a] data by auto
  qed
qed

lemma holds_liveD:
  assumes "holds_live s as live" "live p = Some n"
  obtains a m where "a \<in> set as" "view_block s a = Some (p, m, False)" "max 1 n \<le> unat m"
  using assms unfolding holds_live_def by metis

lemma live_apart:
  assumes c: "heap_list (blocks s) 0 as 0 lim" and l: "holds_live s as live" and p: "live p = Some n" and q: "live q = Some n'" "p \<noteq> q"
  shows "unat p + max 1 n \<le> unat q \<or> unat q + max 1 n' \<le> unat p"
proof -
  obtain a m where a: "a \<in> set as" "view_block s a = Some (p, m, False)" "max 1 n \<le> unat m" by (rule holds_liveD [OF l p])
  obtain e m' where e: "e \<in> set as" "view_block s e = Some (q, m', False)" "max 1 n' \<le> unat m'" by (rule holds_liveD [OF l q(1)])
  have "a \<noteq> e" using a(2) e(2) q(2) by auto
  then show ?thesis using blocks_apart [OF c a(1,2) e(1,2)] a(3) e(3) by linarith
qed

lemma live_apart_header:
  assumes c: "heap_list (blocks s) 0 as 0 lim" and l: "holds_live s as live" and p: "live p = Some n" and e: "e \<in> set as"
  shows "unat p + max 1 n \<le> unat e \<or> unat e + 33 \<le> unat p" "unat p + max 1 n \<le> lim"
proof -
  obtain a m where a: "a \<in> set as" "view_block s a = Some (p, m, False)" "max 1 n \<le> unat m" by (rule holds_liveD [OF l p])
  have data: "unat a + 33 \<le> unat p" "unat p + unat m \<le> lim" using heap_list_limit [OF c a(1)] a(2) by (auto simp: view_block_def)
  then show "unat p + max 1 n \<le> lim" using a(3) by linarith
  obtain b where b: "blocks s e = Some b" "unat e + 33 \<le> unat (block_ptr b)" using heap_list_limit [OF c e] by blast
  show "unat p + max 1 n \<le> unat e \<or> unat e + 33 \<le> unat p"
  proof (cases "a = e")
    case False
    then show ?thesis using blocks_apart [OF c a(1,2) e view_some [OF b(1)]] a(3) b(2) data(1) by linarith
  qed (use data in simp)
qed

lemma malloc_step:
  assumes tbl: "tbl = make_tbl Kernel top_table number" "top_table \<noteq> 0" and s: "malloc_ok tbl s as" "holds_live s as live" "length as \<le> fuel"
    and r: "request_ok fuel s n k"
  obtains p s' as' where "kmalloc fuel flags tbl n (2 ^ k) s = ok (p, s')" "malloc_ok tbl s' as'" "length as' \<le> Suc (length as)"
    "holds_live s' as' (live(p \<mapsto> unat n))" "live p = None" "p \<noteq> 0" "2 ^ k dvd unat p"
proof -
  obtain p s' as' a m where k: "kmalloc fuel flags tbl n (2 ^ k) s = ok (p, s')" "malloc_ok tbl s' as'" "length as' \<le> Suc (length as)"
      "a \<in> set as'" "view_block s' a = Some (p, m, False)" "max 1 (unat n) \<le> unat m" "2 ^ k dvd unat p"
      "\<forall>d \<in> set as. in_use_block s d \<longrightarrow> d \<noteq> a \<and> d \<in> set as' \<and> view_block s' d = view_block s d"
    using kmalloc_spec [OF tbl s(1) r s(3), of flags] by blast
  have c: "heap_list (blocks s') 0 as' 0 (unat (get_heap_end (heap_mgr s')))" using k(2) by (simp add: malloc_ok_def)
  have old: "\<exists>e \<in> set as'. e \<noteq> a \<and> (\<exists>m'. view_block s' e = Some (q, m', False) \<and> max 1 i \<le> unat m')" if q: "live q = Some i" for q i
  proof -
    obtain e m' where "e \<in> set as" "view_block s e = Some (q, m', False)" "max 1 i \<le> unat m'" by (rule holds_liveD [OF s(2) q])
    then show ?thesis using k(8) by (intro bexI [of _ e]) (auto simp: in_use_block_def)
  qed
  have "live p = None"
  proof (rule ccontr)
    assume "live p \<noteq> None"
    then obtain i where "live p = Some i" by blast
    then obtain e m' where e: "e \<in> set as'" "e \<noteq> a" "view_block s' e = Some (p, m', False)" "max 1 i \<le> unat m'" using old by blast
    then show False using blocks_apart [OF c k(4,5) e(1,3)] e(2,4) k(6) by auto
  qed
  moreover have "holds_live s' as' (live(p \<mapsto> unat n))"
    unfolding holds_live_def using old k(4-6) by (auto split: if_splits) (metis max.bounded_iff)+
  moreover have "p \<noteq> 0" using heap_list_limit [OF c k(4)] k(5) by (auto simp: view_block_def)
  ultimately show ?thesis using that k(1-3,7) by blast
qed

lemma free_step:
  assumes s: "malloc_ok tbl s as" "holds_live s as live" "length as \<le> fuel" and p: "live p = Some n"
  obtains s' as' where "kfree fuel p s = ok s'" "malloc_ok tbl s' as'" "length as' \<le> length as" "holds_live s' as' (live(p := None))"
proof -
  have c: "heap_list (blocks s) 0 as 0 (unat (get_heap_end (heap_mgr s)))" using s(1) by (simp add: malloc_ok_def)
  obtain a m where a: "a \<in> set as" "view_block s a = Some (p, m, False)" "max 1 n \<le> unat m" by (rule holds_liveD [OF s(2) p])
  then obtain b where b: "blocks s a = Some b" "block_ptr b = p" "block_size b = m" by (auto simp: view_block_def)
  obtain xs ys where as: "as = xs @ a # ys" using a(1) by (meson split_list)
  have "0 < block_size b" using a(3) b(3) by (auto simp: word_less_nat_alt)
  moreover have "g_malloc_meta_head s = hd (xs @ [a])" using s(1) by (cases xs) (simp_all add: malloc_ok_def as)
  moreover have "length xs \<le> fuel" using s(3) by (simp add: as)
  ultimately obtain s' as' where f: "kfree fuel p s = ok s'" "heap_list (blocks s') 0 as' 0 (unat (get_heap_end (heap_mgr s')))" "same_heap s s'"
      "\<forall>d \<in> set as - {a}. in_use_block s d \<longrightarrow> d \<in> set as' \<and> view_block s' d = view_block s d" "length as' \<le> length as"
      "as' \<noteq> []" "g_malloc_meta_head s' = hd as'"
    using kfree_spec [OF c [unfolded as] _ b(1), of fuel] unfolding as b(2) by blast
  have "heap_ready tbl s'" using s(1) f(3) by (simp add: malloc_ok_def heap_ready_def same_heap_def)
  then have ok: "malloc_ok tbl s' as'" using f(2,6,7) by (cases as') (simp_all add: malloc_ok_def)
  have "\<exists>e \<in> set as'. \<exists>m'. view_block s' e = Some (q, m', False) \<and> max 1 i \<le> unat m'" if q: "live q = Some i" "q \<noteq> p" for q i
  proof -
    obtain e m' where e: "e \<in> set as" "view_block s e = Some (q, m', False)" "max 1 i \<le> unat m'" by (rule holds_liveD [OF s(2) q(1)])
    then have "e \<noteq> a" using a(2) q(2) by auto
    then show ?thesis using f(4) e by (intro bexI [of _ e]) (auto simp: in_use_block_def)
  qed
  then have "holds_live s' as' (live(p := None))" unfolding holds_live_def by simp
  then show ?thesis using that f(1,5) ok by blast
qed

lemma malloc_reachable_ok:
  assumes "malloc_reachable tbl s live calls" and tbl: "tbl = make_tbl Kernel top_table number" "top_table \<noteq> 0"
  shows "\<exists>as. malloc_ok tbl s as \<and> holds_live s as live \<and> length as \<le> calls"
  using assms(1)
proof (induction rule: malloc_reachable.induct)
  case (start s)
  then show ?case by (intro exI [of _ "[]"]) (simp add: malloc_ok_def holds_live_def)
next
  case (alloc s live calls fuel n k flags p s')
  then obtain as where as: "malloc_ok tbl s as" "holds_live s as live" "length as \<le> calls" by blast
  then have "length as \<le> fuel" using alloc.hyps by linarith
  then obtain p' s'' as' where "kmalloc fuel flags tbl n (2 ^ k) s = ok (p', s'')" "malloc_ok tbl s'' as'" "length as' \<le> Suc (length as)"
      "holds_live s'' as' (live(p' \<mapsto> unat n))" using malloc_step [OF tbl as(1,2) _ alloc.hyps(2)] by metis
  moreover from this(1) have "p' = p" "s'' = s'" using alloc.hyps(4) by simp_all
  ultimately show ?case using as(3) by (intro exI [of _ as']) fastforce
next
  case (free s live calls p fuel s')
  then obtain as where as: "malloc_ok tbl s as" "holds_live s as live" "length as \<le> calls" by blast
  then have "length as \<le> fuel" using free.hyps by linarith
  moreover obtain n where "live p = Some n" using free.hyps(2) by blast
  ultimately obtain s'' as' where "kfree fuel p s = ok s''" "malloc_ok tbl s'' as'" "length as' \<le> length as" "holds_live s'' as' (live(p := None))"
    using free_step [OF as(1,2)] by metis
  moreover from this(1) have "s'' = s'" using free.hyps(4) by simp
  ultimately show ?case using as(3) by (intro exI [of _ as']) fastforce
next
  case (others s live calls k)
  then obtain as where as: "malloc_ok tbl s as" "holds_live s as live" "length as \<le> calls" by blast
  then have "malloc_ok tbl (s\<lparr>kernel_mem := k\<rparr>) as" "holds_live (s\<lparr>kernel_mem := k\<rparr>) as live"
    using others.hyps(2) by (simp_all add: malloc_ok_def holds_live_def view_block_def)
  then show ?case using as(3) by blast
qed

subsection \<open>Properties\<close>

text \<open>
  C36. Over any sequence of calls of \<^verbatim>\<open>kmalloc\<close> for less than 2 GiB, aligned to a power of two below \<open>2 ^ 32\<close> and made while pages
  are left for it (\<open>request_ok\<close>), and of calls of \<^verbatim>\<open>kfree\<close> on what is in use, the allocations that are in use never overlap,
  whatever blocks were reused, cut or merged; they lie below the end of the heap, and none of them touches the header of a
  block, so the list of blocks is not overwritten by what the callers write. \<^verbatim>\<open>kmalloc\<close> itself does not limit the size: with one
  near \<open>2 ^ 64\<close> its sums wrap, and the blocks it gives out may overlap.
\<close>

theorem kmalloc_never_overlaps:
  assumes "malloc_reachable tbl s live calls" and "tbl = make_tbl Kernel top_table number" and "top_table \<noteq> 0"
  shows "\<exists>as. heap_list (blocks s) 0 as 0 (unat (get_heap_end (heap_mgr s))) \<and> g_malloc_meta_head s = (case as of [] \<Rightarrow> 0 | a # _ \<Rightarrow> a)
    \<and> (\<forall>p n. live p = Some n \<longrightarrow> unat p + max 1 n \<le> unat (get_heap_end (heap_mgr s))
        \<and> (\<forall>q m. live q = Some m \<and> q \<noteq> p \<longrightarrow> unat p + max 1 n \<le> unat q \<or> unat q + max 1 m \<le> unat p)
        \<and> (\<forall>a \<in> set as. unat p + max 1 n \<le> unat a \<or> unat a + 33 \<le> unat p))"
proof -
  obtain as where as: "malloc_ok tbl s as" "holds_live s as live" using malloc_reachable_ok [OF assms] by blast
  have c: "heap_list (blocks s) 0 as 0 (unat (get_heap_end (heap_mgr s)))" using as(1) by (simp add: malloc_ok_def)
  show ?thesis
  proof (intro exI [of _ as] conjI allI ballI impI)
    show "g_malloc_meta_head s = (case as of [] \<Rightarrow> 0 | a # _ \<Rightarrow> a)" using as(1) by (simp add: malloc_ok_def)
    fix p n
    assume p: "live p = Some n"
    obtain a m where "a \<in> set as" by (rule holds_liveD [OF as(2) p])
    then show "unat p + max 1 n \<le> unat (get_heap_end (heap_mgr s))" by (rule live_apart_header(2) [OF c as(2) p])
    show "unat p + max 1 n \<le> unat q \<or> unat q + max 1 m \<le> unat p" if "live q = Some m \<and> q \<noteq> p" for q m
      by (rule live_apart [OF c as(2) p]) (use that in auto)
    show "unat p + max 1 n \<le> unat a \<or> unat a + 33 \<le> unat p" if "a \<in> set as" for a
      by (rule live_apart_header(1) [OF c as(2) p that])
  qed (rule c)
qed

text \<open>
  C37. While the page allocator has the pages for it, \<^verbatim>\<open>kmalloc\<close> returns, and what it returns is not null, a multiple of the
  alignment asked for, and no pointer in use; \<^verbatim>\<open>kfree\<close> accepts every pointer in use, at any time and in any order, without a failed
  assertion. (\<open>request_ok\<close>: less than 2 GiB, an alignment of at most 2 GiB, and pages left.)
\<close>

theorem kmalloc_and_kfree_return:
  assumes "malloc_reachable tbl s live calls" and "tbl = make_tbl Kernel top_table number" and "top_table \<noteq> 0" and "calls \<le> fuel"
  shows "(request_ok fuel s n k \<longrightarrow> (\<exists>p s'. kmalloc fuel flags tbl n (2 ^ k) s = ok (p, s') \<and> p \<noteq> 0 \<and> 2 ^ k dvd unat p \<and> live p = None
        \<and> malloc_reachable tbl s' (live(p \<mapsto> unat n)) (Suc calls)))
    \<and> (\<forall>p. live p \<noteq> None \<longrightarrow> (\<exists>s'. kfree fuel p s = ok s' \<and> malloc_reachable tbl s' (live(p := None)) calls))"
proof -
  obtain as where as: "malloc_ok tbl s as" "holds_live s as live" "length as \<le> calls" using malloc_reachable_ok [OF assms(1-3)] by blast
  have fuel: "length as \<le> fuel" using as(3) assms(4) by simp
  have "\<exists>p s'. kmalloc fuel flags tbl n (2 ^ k) s = ok (p, s') \<and> p \<noteq> 0 \<and> 2 ^ k dvd unat p \<and> live p = None
        \<and> malloc_reachable tbl s' (live(p \<mapsto> unat n)) (Suc calls)" if r: "request_ok fuel s n k"
  proof -
    obtain p s' as' where "kmalloc fuel flags tbl n (2 ^ k) s = ok (p, s')" "live p = None" "p \<noteq> 0" "2 ^ k dvd unat p"
      by (rule malloc_step [OF assms(2,3) as(1,2) fuel r])
    then show ?thesis using malloc_reachable.alloc [OF assms(1) r assms(4)] by blast
  qed
  moreover have "\<exists>s'. kfree fuel p s = ok s' \<and> malloc_reachable tbl s' (live(p := None)) calls" if p: "live p \<noteq> None" for p
  proof -
    from p obtain n where n: "live p = Some n" by (cases "live p") simp_all
    obtain s' as' where "kfree fuel p s = ok s'" by (rule free_step [OF as(1,2) fuel n])
    then show ?thesis using malloc_reachable.free [OF assms(1) p assms(4)] by blast
  qed
  ultimately show ?thesis by blast
qed

text \<open>A fresh kernel heap on eight free pages.\<close>

definition example_kernel_tbl :: "page_alloc_list MMUTable" where
  "example_kernel_tbl = make_tbl Kernel KERNEL_BASE 0"

definition example_heap_state :: kernel_heap where
  "example_heap_state =
     \<lparr>heap_mgr = HeapManager_init Heap_Kernel, kernel_mem = example_kernel\<lparr>kernel_tbl := example_kernel_tbl\<rparr>, blocks = Map.empty, g_malloc_meta_head = 0\<rparr>"

lemma example_heap_end: "get_heap_end (heap_mgr example_heap_state) = page_va Kernel (0x500000000)"
  by (simp add: example_heap_state_def HeapManager_init_def get_heap_end_def HEAP_MEMORY_def page_va_def get_base_address_def)

lemma example_heap_ready: "heap_ready example_kernel_tbl example_heap_state"
proof -
  have "heap_at example_kernel_tbl (heap_mgr example_heap_state) 0x500000000 (pages_of 0) 0"
    by (simp add: heap_at_def example_heap_state_def HeapManager_init_def example_kernel_tbl_def HEAP_MEMORY_def page_va_def get_base_address_def pages_of_def)
  moreover have "active example_kernel_tbl (kernel_mem example_heap_state)"
    by (simp add: active_def example_heap_state_def example_kernel_tbl_def)
  moreover have "tables_ok example_kernel_tbl (mem (kernel_mem example_heap_state)) {KERNEL_BASE}"
    using example_ok(3) by (simp add: tables_ok_def example_heap_state_def example_kernel_def example_kernel_tbl_def example_tbl_def)
  moreover have "(0x500000000 :: nat) + pages_of 0 < PAGES" by (simp add: pages_of_def)
  ultimately show ?thesis unfolding heap_ready_def by (meson zero_less_numeral)
qed

lemma example_request: "request_ok 5 example_heap_state 100 4"
proof -
  have "unat (page_va Kernel 0x500000000) = unat (get_base_address Kernel) + 0x500000000 * PAGE_BYTES" by (rule unat_page_va) simp
  then show ?thesis using example_ok(2)
    by (simp add: request_ok_def room_def example_heap_end base_unat pages_of_def) (simp add: example_heap_state_def example_kernel_def example_mem_def)
qed

lemma example_malloc: "malloc_reachable example_kernel_tbl example_heap_state Map.empty 0"
  by (rule malloc_reachable.start [OF example_heap_ready]) (simp add: example_heap_state_def)

theorem kmalloc_and_kfree_return_witness:
  "\<exists>p s'. kmalloc 5 0 example_kernel_tbl 100 (2 ^ 4) example_heap_state = ok (p, s') \<and> p \<noteq> 0 \<and> 2 ^ 4 dvd unat p
    \<and> malloc_reachable example_kernel_tbl s' [p \<mapsto> unat (100 :: usize)] (Suc 0)"
  using kmalloc_and_kfree_return [OF example_malloc example_kernel_tbl_def, of 5 100 4 0] example_request by auto

lemma example_allocated:
  obtains p s where "malloc_reachable example_kernel_tbl s [p \<mapsto> 100] 1"
proof -
  obtain as where as: "malloc_ok example_kernel_tbl example_heap_state as" "holds_live example_heap_state as Map.empty" "length as \<le> 0"
    using malloc_reachable_ok [OF example_malloc example_kernel_tbl_def] by auto
  then have len: "length as \<le> 5" by simp
  have nn: "KERNEL_BASE \<noteq> 0" by simp
  obtain p s' as' where "kmalloc 5 0 example_kernel_tbl 100 (2 ^ 4) example_heap_state = ok (p, s')"
    by (rule malloc_step [OF example_kernel_tbl_def nn as(1,2) len example_request])
  then show ?thesis using malloc_reachable.alloc [OF example_malloc example_request, of 0 p s'] that by simp
qed

theorem kmalloc_never_overlaps_witness:
  "\<exists>s p. malloc_reachable example_kernel_tbl s [p \<mapsto> 100] 1 \<and> unat p + 100 \<le> unat (get_heap_end (heap_mgr s))"
proof -
  obtain p s where r: "malloc_reachable example_kernel_tbl s [p \<mapsto> 100] 1" by (rule example_allocated)
  have nn: "KERNEL_BASE \<noteq> 0" by simp
  have "unat p + max 1 100 \<le> unat (get_heap_end (heap_mgr s))"
    using kmalloc_never_overlaps [OF r example_kernel_tbl_def nn] by (metis (no_types, lifting) fun_upd_same)
  then show ?thesis using r by auto
qed

end
