(* ===== verification/Geometry.thy ===== *)
theory Geometry
  imports Prelude
begin

text \<open>
  Rectangles of the window manager (\<^verbatim>\<open>kernel/wm/geometry.hpp\<close>). Coordinates are 32-bit signed integers, kept as integers with
  the wrap-around of the machine written out; for rectangles in range the operations are those on half-open intervals of
  integers.
\<close>

definition i32 :: "int \<Rightarrow> int" where
  "i32 x = signed_take_bit 31 x"

text \<open>The conversion to \<^verbatim>\<open>uint32_t\<close>.\<close>

definition uint32 :: "int \<Rightarrow> int" where
  "uint32 x = take_bit 32 x"

record Rect =
  rx1 :: int
  ry1 :: int
  rx2 :: int
  ry2 :: int

definition normalize :: "Rect \<Rightarrow> Rect" where
  "normalize r =
     (let r = (if rx2 r < rx1 r then r\<lparr>rx1 := rx2 r, rx2 := rx1 r\<rparr> else r) in
      if ry2 r < ry1 r then r\<lparr>ry1 := ry2 r, ry2 := ry1 r\<rparr> else r)"

definition make_rect :: "int \<Rightarrow> int \<Rightarrow> int \<Rightarrow> int \<Rightarrow> Rect" where
  "make_rect a b c d = normalize \<lparr>rx1 = a, ry1 = b, rx2 = c, ry2 = d\<rparr>"

definition null_rect :: Rect where
  "null_rect = \<lparr>rx1 = 0, ry1 = 0, rx2 = 0, ry2 = 0\<rparr>"

definition width :: "Rect \<Rightarrow> int" where "width r = i32 (rx2 r - rx1 r)"
definition height :: "Rect \<Rightarrow> int" where "height r = i32 (ry2 r - ry1 r)"

definition is_null :: "Rect \<Rightarrow> bool" where
  "is_null r \<longleftrightarrow> width r = 0 \<or> height r = 0"

definition has_surface :: "Rect \<Rightarrow> bool" where
  "has_surface r \<longleftrightarrow> 0 < width r \<and> 0 < height r"

definition set_left :: "int \<Rightarrow> Rect \<Rightarrow> Rect" where
  "set_left x r = (let r = r\<lparr>rx1 := x\<rparr> in if rx2 r < rx1 r then r\<lparr>rx1 := rx2 r, rx2 := rx1 r\<rparr> else r)"

definition set_right :: "int \<Rightarrow> Rect \<Rightarrow> Rect" where
  "set_right x r = (let r = r\<lparr>rx2 := x\<rparr> in if rx2 r < rx1 r then r\<lparr>rx1 := rx2 r, rx2 := rx1 r\<rparr> else r)"

definition set_top :: "int \<Rightarrow> Rect \<Rightarrow> Rect" where
  "set_top y r = (let r = r\<lparr>ry1 := y\<rparr> in if ry2 r < ry1 r then r\<lparr>ry1 := ry2 r, ry2 := ry1 r\<rparr> else r)"

definition set_bottom :: "int \<Rightarrow> Rect \<Rightarrow> Rect" where
  "set_bottom y r = (let r = r\<lparr>ry2 := y\<rparr> in if ry2 r < ry1 r then r\<lparr>ry1 := ry2 r, ry2 := ry1 r\<rparr> else r)"

definition set_width :: "int \<Rightarrow> Rect \<Rightarrow> Rect" where
  "set_width w r = r\<lparr>rx2 := i32 (rx1 r + i32 w)\<rparr>"

definition set_height :: "int \<Rightarrow> Rect \<Rightarrow> Rect" where
  "set_height h r = r\<lparr>ry2 := i32 (ry1 r + i32 h)\<rparr>"

text \<open>The ends of an interval whose length may be negative, as \<^verbatim>\<open>intersects\<close> computes them.\<close>

definition ends :: "int \<Rightarrow> int \<Rightarrow> int \<times> int" where
  "ends a b = (if i32 (i32 (b - a) + 1) < 0 then (b, a) else (a, b))"

definition intersects :: "Rect \<Rightarrow> Rect \<Rightarrow> bool" where
  "intersects r s =
     (if is_null r \<or> is_null s then False
      else
        let (l1, r1) = ends (rx1 r) (rx2 r); (l2, r2) = ends (rx1 s) (rx2 s) in
        if r2 < l1 \<or> r1 < l2 then False
        else
          let (t1, b1) = ends (ry1 r) (ry2 r); (t2, b2) = ends (ry1 s) (ry2 s) in
          \<not> (b2 < t1 \<or> b1 < t2))"

definition contains :: "Rect \<Rightarrow> int \<Rightarrow> int \<Rightarrow> bool" where
  "contains r x y \<longleftrightarrow> rx1 r \<le> x \<and> x < rx2 r \<and> ry1 r \<le> y \<and> y < ry2 r"

definition union_with :: "Rect \<Rightarrow> Rect \<Rightarrow> Rect" where
  "union_with r s =
     (if is_null r then s else if is_null s then r
      else make_rect (min (rx1 r) (rx1 s)) (min (ry1 r) (ry1 s)) (max (rx2 r) (rx2 s)) (max (ry2 r) (ry2 s)))"

definition intersection_with :: "Rect \<Rightarrow> Rect \<Rightarrow> Rect" where
  "intersection_with r s =
     (if is_null r \<or> is_null s then null_rect
      else
        let a = normalize r; b = normalize s in
        if rx2 b < rx1 a \<or> rx2 a < rx1 b \<or> ry2 b < ry1 a \<or> ry2 a < ry1 b then null_rect
        else make_rect (max (rx1 a) (rx1 b)) (max (ry1 a) (ry1 b)) (min (rx2 a) (rx2 b)) (min (ry2 a) (ry2 b)))"

definition from_pos_and_size :: "int \<Rightarrow> int \<Rightarrow> int \<Rightarrow> int \<Rightarrow> Rect" where
  "from_pos_and_size x y w h = make_rect x y (i32 (x + w)) (i32 (y + h))"

subsection \<open>Rectangles in range\<close>

lemma i32_id [simp]: "- (2 ^ 31) \<le> x \<Longrightarrow> x < 2 ^ 31 \<Longrightarrow> i32 x = x"
  unfolding i32_def by (rule signed_take_bit_int_eq_self) simp_all

lemma uint32_id [simp]: "0 \<le> x \<Longrightarrow> x < 2 ^ 32 \<Longrightarrow> uint32 x = x"
  unfolding uint32_def by (rule take_bit_int_eq_self) simp_all

text \<open>A normalised rectangle with coordinates of at most 30 bits.\<close>

definition rect_ok :: "Rect \<Rightarrow> bool" where
  "rect_ok r \<longleftrightarrow> rx1 r \<le> rx2 r \<and> ry1 r \<le> ry2 r \<and> - (2 ^ 30) < rx1 r \<and> rx2 r < 2 ^ 30 \<and> - (2 ^ 30) < ry1 r \<and> ry2 r < 2 ^ 30"

lemma rect_ok_size [simp]: "rect_ok r \<Longrightarrow> width r = rx2 r - rx1 r" "rect_ok r \<Longrightarrow> height r = ry2 r - ry1 r"
  by (simp_all add: rect_ok_def width_def height_def)

lemma normalize_id: "rect_ok r \<Longrightarrow> normalize r = r"
  by (simp add: rect_ok_def normalize_def)

lemma make_rect_id: "a \<le> c \<Longrightarrow> b \<le> d \<Longrightarrow> make_rect a b c d = \<lparr>rx1 = a, ry1 = b, rx2 = c, ry2 = d\<rparr>"
  by (simp add: make_rect_def normalize_def)

lemma is_null_iff: "rect_ok r \<Longrightarrow> is_null r \<longleftrightarrow> rx1 r = rx2 r \<or> ry1 r = ry2 r"
  by (auto simp: is_null_def)

lemma null_contains: "rect_ok r \<Longrightarrow> is_null r \<Longrightarrow> \<not> contains r x y"
  by (auto simp: is_null_iff contains_def)

lemma null_rect_ok [simp]: "rect_ok null_rect" "is_null null_rect" "\<not> contains null_rect x y"
  by (simp_all add: null_rect_def rect_ok_def is_null_def width_def height_def contains_def)

lemma intersection_cases:
  assumes "rect_ok r" "rect_ok s"
  obtains "intersection_with r s = null_rect" "\<And>x y. \<not> (contains r x y \<and> contains s x y)"
  | "intersection_with r s = \<lparr>rx1 = max (rx1 r) (rx1 s), ry1 = max (ry1 r) (ry1 s), rx2 = min (rx2 r) (rx2 s), ry2 = min (ry2 r) (ry2 s)\<rparr>"
    "max (rx1 r) (rx1 s) \<le> min (rx2 r) (rx2 s)" "max (ry1 r) (ry1 s) \<le> min (ry2 r) (ry2 s)"
proof (cases "is_null r \<or> is_null s \<or> rx2 s < rx1 r \<or> rx2 r < rx1 s \<or> ry2 s < ry1 r \<or> ry2 r < ry1 s")
  case True
  then have "intersection_with r s = null_rect" by (auto simp: intersection_with_def normalize_id [OF assms(1)] normalize_id [OF assms(2)])
  moreover have "\<not> (contains r x y \<and> contains s x y)" for x y
    using True null_contains [OF assms(1)] null_contains [OF assms(2)] by (auto simp: contains_def)
  ultimately show ?thesis by (rule that(1))
next
  case False
  then have "max (rx1 r) (rx1 s) \<le> min (rx2 r) (rx2 s)" "max (ry1 r) (ry1 s) \<le> min (ry2 r) (ry2 s)" using assms by (auto simp: rect_ok_def)
  then show ?thesis using that(2) False
    by (simp add: intersection_with_def normalize_id [OF assms(1)] normalize_id [OF assms(2)] make_rect_id)
qed

lemma intersection_ok: "rect_ok r \<Longrightarrow> rect_ok s \<Longrightarrow> rect_ok (intersection_with r s)"
  by (rule intersection_cases [of r s]) (auto simp: rect_ok_def null_rect_def)

lemma intersection_contains:
  assumes "rect_ok r" "rect_ok s"
  shows "contains (intersection_with r s) x y \<longleftrightarrow> contains r x y \<and> contains s x y"
  by (rule intersection_cases [OF assms]) (auto simp: contains_def null_rect_def)

lemma union_contains:
  assumes "rect_ok r" "rect_ok s"
  shows "contains r x y \<or> contains s x y \<Longrightarrow> contains (union_with r s) x y" "rect_ok (union_with r s)"
proof -
  have "union_with r s = \<lparr>rx1 = min (rx1 r) (rx1 s), ry1 = min (ry1 r) (ry1 s), rx2 = max (rx2 r) (rx2 s), ry2 = max (ry2 r) (ry2 s)\<rparr>"
    if "\<not> is_null r" "\<not> is_null s"
    unfolding union_with_def using that assms by (subst make_rect_id) (auto simp: rect_ok_def)
  then have u: "(is_null r \<and> union_with r s = s) \<or> (is_null s \<and> union_with r s = r) \<or>
    union_with r s = \<lparr>rx1 = min (rx1 r) (rx1 s), ry1 = min (ry1 r) (ry1 s), rx2 = max (rx2 r) (rx2 s), ry2 = max (ry2 r) (ry2 s)\<rparr>"
    by (auto simp: union_with_def)
  then show "rect_ok (union_with r s)" using assms by (auto simp: rect_ok_def)
  show "contains (union_with r s) x y" if "contains r x y \<or> contains s x y"
    using u that null_contains [OF assms(1)] null_contains [OF assms(2)] by (elim disjE) (auto simp: contains_def)
qed

text \<open>Rectangles that share a point intersect; so do rectangles that only touch.\<close>

lemma intersects_iff:
  assumes "rect_ok r" "rect_ok s"
  shows "intersects r s \<longleftrightarrow> \<not> is_null r \<and> \<not> is_null s \<and> rx1 r \<le> rx2 s \<and> rx1 s \<le> rx2 r \<and> ry1 r \<le> ry2 s \<and> ry1 s \<le> ry2 r"
proof -
  have "ends (rx1 r) (rx2 r) = (rx1 r, rx2 r)" "ends (ry1 r) (ry2 r) = (ry1 r, ry2 r)"
    "ends (rx1 s) (rx2 s) = (rx1 s, rx2 s)" "ends (ry1 s) (ry2 s) = (ry1 s, ry2 s)"
    using assms by (auto simp: ends_def rect_ok_def)
  then show ?thesis by (auto simp: intersects_def Let_def)
qed

lemma shared_point_intersects: "rect_ok r \<Longrightarrow> rect_ok s \<Longrightarrow> contains r x y \<Longrightarrow> contains s x y \<Longrightarrow> intersects r s"
  using null_contains [of r x y] null_contains [of s x y] by (auto simp: intersects_iff contains_def)

end
