(* ===== verification/Window_Draw.thy ===== *)
theory Window_Draw
  imports Geometry Message_Queue
begin

text \<open>
  Windows and how the window manager draws them (\<^verbatim>\<open>kernel/wm/window.hpp\<close>, \<^verbatim>\<open>window.cpp\<close> and the drawing functions of
  \<^verbatim>\<open>kernel/wm/window_manager.cpp\<close>), in the default configuration without DMA. Drawing returns the list of what is drawn, and
  \<open>marks\<close> says which pixels of the screen a copy writes; the decorations that the painter draws into a window and on the
  screen stay commands. The result is that each pixel of the updated rectangle shows the topmost visible window there, or
  the wallpaper.
\<close>

subsection \<open>State\<close>

record sys_message =
  msg_id :: u32
  timestamp :: u32
  param1 :: u64
  param2 :: u64

text \<open>A frame buffer is represented by its number of pixels, \<open>None\<close> is the null pointer.\<close>

record Window =
  win_task :: tptr
  win_queue :: "sys_message message_queue"
  win_title :: string
  geometry :: Rect
  framebuffer :: "int option"
  framebuffer_pitch :: int
  has_frame :: bool
  visible :: bool
  focused :: bool

datatype draw_command =
    Draw_Frame nat
  | Blit nat "int \<times> int" "int \<times> int" "int \<times> int" int
  | Focus_Border nat Rect
  | Wallpaper Rect int
  | Cursor int int

text \<open>The windows are allocated objects, \<open>win\<close> maps the live ones. \<open>drawn\<close> collects what was drawn; \<open>now\<close> is the clock.\<close>

record window_manager =
  is_supported :: bool
  focus_win :: "nat option"
  wm_windows :: "nat list"
  window_count :: nat
  last_window_x :: int
  last_window_y :: int
  wallpaper :: bool
  wallpaper_width :: int
  screen_width :: int
  screen_height :: int
  cursor_x :: int
  cursor_y :: int
  win :: "nat \<Rightarrow> Window option"
  tm :: task_manager
  now :: u32
  drawn :: "draw_command list"

definition CURSOR_WIDTH :: int where "CURSOR_WIDTH = 9"
definition CURSOR_HEIGHT :: int where "CURSOR_HEIGHT = 16"

definition window_at :: "window_manager \<Rightarrow> nat \<Rightarrow> Window outcome" where
  "window_at m w = (case win m w of None \<Rightarrow> Inl Undefined | Some x \<Rightarrow> ok x)"

subsection \<open>Drawing\<close>

definition draw_background :: "window_manager \<Rightarrow> Rect \<Rightarrow> draw_command list" where
  "draw_background m rect = (if is_null rect \<or> \<not> wallpaper m then [] else [Wallpaper rect (wallpaper_width m)])"

definition draw_window :: "window_manager \<Rightarrow> nat \<Rightarrow> Rect \<Rightarrow> draw_command list outcome" where
  "draw_window m w dst =
     bindE (window_at m w) (\<lambda>window.
       let src = geometry window in
       if \<not> visible window \<or> \<not> intersects src dst then ok []
       else
         let x1 = (if rx1 src < rx1 dst then uint32 (rx1 dst - rx1 src) else 0);
             y1 = (if ry1 src < ry1 dst then uint32 (ry1 dst - ry1 src) else 0);
             x2 = (if rx2 dst < rx2 src then uint32 (x1 + rx2 dst - max (rx1 src) (rx1 dst)) else uint32 (width src));
             y2 = (if ry2 dst < ry2 src then uint32 (y1 + ry2 dst - max (ry1 src) (ry1 dst)) else uint32 (height src));
             frame = (if has_frame window then [Draw_Frame w] else []) in
         if x1 = x2 \<or> y1 = y2 then ok frame
         else kassert (framebuffer window \<noteq> None)
           (ok (frame @ [Blit w (x1, x2) (y1, y2) (rx1 src, ry1 src) (uint32 (width src))]
                 @ (if focused window then [Focus_Border w dst] else []))))"

definition both :: "draw_command list outcome \<Rightarrow> draw_command list outcome \<Rightarrow> draw_command list outcome" where
  "both a b = bindE a (\<lambda>xs. bindE b (\<lambda>ys. ok (xs @ ys)))"

text \<open>The iterator of the helper is the rest of the list of windows, from the top to the bottom.\<close>

fun draw_windows_helper :: "window_manager \<Rightarrow> nat list \<Rightarrow> Rect \<Rightarrow> draw_command list outcome" where
  "draw_windows_helper m [] rect = Inl Undefined"
| "draw_windows_helper m (w # ws) rect =
     (if is_null rect then ok []
      else bindE (window_at m w) (\<lambda>window.
        let inter = intersection_with rect (geometry window) in
        if \<not> visible window \<or> is_null inter then
          (if ws \<noteq> [] then draw_windows_helper m ws rect else ok (draw_background m rect))
        else
          let A = make_rect (rx1 rect) (ry1 rect) (rx1 inter) (ry2 rect);
              B = make_rect (rx2 inter) (ry1 rect) (rx2 rect) (ry2 rect);
              C = make_rect (rx1 inter) (ry1 rect) (rx2 inter) (ry1 inter);
              D = make_rect (rx1 inter) (ry2 inter) (rx2 inter) (ry2 rect) in
          both (draw_window m w inter)
            (if ws = [] then ok (draw_background m A @ draw_background m B @ draw_background m C @ draw_background m D)
             else both (draw_windows_helper m ws A) (both (draw_windows_helper m ws B)
               (both (draw_windows_helper m ws C) (draw_windows_helper m ws D))))))"

definition draw_windows :: "window_manager \<Rightarrow> Rect \<Rightarrow> draw_command list outcome" where
  "draw_windows m rect = (if wm_windows m = [] then ok (draw_background m rect) else draw_windows_helper m (wm_windows m) rect)"

definition clip_rect_to_screen :: "window_manager \<Rightarrow> Rect \<Rightarrow> Rect" where
  "clip_rect_to_screen m rect =
     \<lparr>rx1 = max 0 (rx1 rect), ry1 = max 0 (ry1 rect), rx2 = min (screen_width m) (rx2 rect), ry2 = min (screen_height m) (ry2 rect)\<rparr>"

definition update_rect :: "Rect \<Rightarrow> window_manager \<Rightarrow> window_manager outcome" where
  "update_rect rect m =
     (if \<not> is_supported m then ok m
      else bindE (draw_windows m rect) (\<lambda>cmds.
        let cursor = clip_rect_to_screen m (from_pos_and_size (cursor_x m) (cursor_y m) CURSOR_WIDTH CURSOR_HEIGHT) in
        ok (m\<lparr>drawn := drawn m @ cmds @ (if intersects cursor rect then [Cursor (cursor_x m) (cursor_y m)] else [])\<rparr>)))"

definition update_all :: "window_manager \<Rightarrow> window_manager outcome" where
  "update_all m = update_rect (make_rect 0 0 (screen_width m) (screen_height m)) m"

subsection \<open>Pixels\<close>

text \<open>Where the colour of a pixel comes from: a position of a window's frame buffer or of the wallpaper.\<close>

datatype pixel = From_Window nat int | From_Wallpaper int

text \<open>The loops that copy: a pixel of the screen by its column and its row, and its source.\<close>

fun marks :: "draw_command \<Rightarrow> ((int \<times> int) \<times> pixel) list" where
  "marks (Blit w (x1, x2) (y1, y2) (x, y) pitch) =
     concat (map (\<lambda>sx. map (\<lambda>sy. ((uint32 (x + sx), uint32 (y + sy)), From_Window w (uint32 (sx + pitch * sy)))) [y1..y2 - 1]) [x1..x2 - 1])"
| "marks (Wallpaper r pitch) =
     concat (map (\<lambda>x. map (\<lambda>y. ((x, y), From_Wallpaper (uint32 (x + pitch * y)))) [ry1 r..ry2 r - 1]) [rx1 r..rx2 r - 1])"
| "marks _ = []"

definition paint :: "int \<Rightarrow> draw_command list \<Rightarrow> (int \<Rightarrow> pixel) \<Rightarrow> int \<Rightarrow> pixel" where
  "paint screen_pitch cmds screen =
     fold (\<lambda>((x, y), p) screen. screen(x + screen_pitch * y := p)) (concat (map marks cmds)) screen"

text \<open>What is visible at a point: the first visible window of the list that contains it, or the wallpaper.\<close>

fun shown :: "window_manager \<Rightarrow> nat list \<Rightarrow> int \<Rightarrow> int \<Rightarrow> pixel option" where
  "shown m [] x y = (if wallpaper m then Some (From_Wallpaper (uint32 (x + wallpaper_width m * y))) else None)"
| "shown m (w # ws) x y =
     (case win m w of
        Some window \<Rightarrow>
          if visible window \<and> contains (geometry window) x y
          then Some (From_Window w (uint32 (x - rx1 (geometry window) + width (geometry window) * (y - ry1 (geometry window)))))
          else shown m ws x y
      | None \<Rightarrow> shown m ws x y)"

subsection \<open>Every pixel shows the topmost window\<close>

definition drawable :: "window_manager \<Rightarrow> nat list \<Rightarrow> bool" where
  "drawable m ws \<longleftrightarrow> (\<forall>w \<in> set ws. \<exists>window. win m w = Some window \<and> rect_ok (geometry window) \<and> (visible window \<longrightarrow> framebuffer window \<noteq> None))"

text \<open>The commands write exactly the points of the rectangle, with the pixels that \<open>f\<close> gives.\<close>

definition paints :: "draw_command list \<Rightarrow> Rect \<Rightarrow> (int \<Rightarrow> int \<Rightarrow> pixel option) \<Rightarrow> bool" where
  "paints cmds r f \<longleftrightarrow> (\<forall>x y p. ((x, y), p) \<in> set (concat (map marks cmds)) \<longleftrightarrow> contains r x y \<and> f x y = Some p)"

definition on_screen :: "Rect \<Rightarrow> bool" where
  "on_screen r \<longleftrightarrow> rect_ok r \<and> 0 \<le> rx1 r \<and> 0 \<le> ry1 r"

lemma paints_background: "rect_ok r \<Longrightarrow> paints (draw_background m r) r (shown m [])"
  using null_contains [of r] by (auto simp: paints_def draw_background_def contains_def image_iff)

lemma both_ok: "a = ok xs \<Longrightarrow> b = ok ys \<Longrightarrow> both a b = ok (xs @ ys)"
  by (simp add: both_def)

lemma draw_window_correct:
  assumes w: "win m w = Some window" "visible window" "framebuffer window \<noteq> None" and ok: "rect_ok (geometry window)"
    and inter: "on_screen dst" "\<not> is_null dst"
    and sub: "rx1 (geometry window) \<le> rx1 dst" "rx2 dst \<le> rx2 (geometry window)" "ry1 (geometry window) \<le> ry1 dst" "ry2 dst \<le> ry2 (geometry window)"
  shows "\<exists>cmds. draw_window m w dst = ok cmds \<and> paints cmds dst (\<lambda>x y.
     Some (From_Window w (uint32 (x - rx1 (geometry window) + width (geometry window) * (y - ry1 (geometry window))))))"
proof -
  define g where "g = geometry window"
  note b = ok [folded g_def, unfolded rect_ok_def] and d = inter(1) [unfolded on_screen_def rect_ok_def] and s = sub [folded g_def]
  have lt: "rx1 dst < rx2 dst" "ry1 dst < ry2 dst" using inter by (auto simp: on_screen_def is_null_iff rect_ok_def)
  then have i: "intersects g dst" using b d s intersects_iff [of g dst] ok inter by (auto simp: g_def on_screen_def is_null_iff)
  let ?x1 = "rx1 dst - rx1 g" and ?x2 = "rx2 dst - rx1 g" and ?y1 = "ry1 dst - ry1 g" and ?y2 = "ry2 dst - ry1 g"
  have x1: "(if rx1 g < rx1 dst then uint32 (rx1 dst - rx1 g) else 0) = ?x1" using b d s by auto
  have y1: "(if ry1 g < ry1 dst then uint32 (ry1 dst - ry1 g) else 0) = ?y1" using b d s by auto
  have x2: "(if rx2 dst < rx2 g then uint32 (?x1 + rx2 dst - max (rx1 g) (rx1 dst)) else uint32 (width g)) = ?x2"
    using b d s lt ok by (auto simp: g_def [symmetric])
  have y2: "(if ry2 dst < ry2 g then uint32 (?y1 + ry2 dst - max (ry1 g) (ry1 dst)) else uint32 (height g)) = ?y2"
    using b d s lt ok by (auto simp: g_def [symmetric])
  have ne: "\<not> (?x1 = ?x2 \<or> ?y1 = ?y2)" using lt by auto
  have w32: "uint32 (width g) = width g" using b ok by (simp add: g_def)
  let ?cmds = "(if has_frame window then [Draw_Frame w] else []) @ [Blit w (?x1, ?x2) (?y1, ?y2) (rx1 g, ry1 g) (width g)]
    @ (if focused window then [Focus_Border w dst] else [])"
  have "draw_window m w dst = ok ?cmds"
    unfolding draw_window_def window_at_def w(1) option.case bindE.simps Let_def g_def [symmetric] x1 y1 unfolding x2 y2 unfolding w32 if_not_P [OF ne]
    using w(2,3) i by simp
  moreover have "paints ?cmds dst (\<lambda>x y. Some (From_Window w (uint32 (x - rx1 g + width g * (y - ry1 g)))))"
    unfolding paints_def
  proof (intro allI)
    fix x y p
    have "((x, y), p) \<in> set (concat (map marks ?cmds)) \<longleftrightarrow>
        (\<exists>sx \<in> {?x1..?x2 - 1}. \<exists>sy \<in> {?y1..?y2 - 1}. x = uint32 (rx1 g + sx) \<and> y = uint32 (ry1 g + sy)
           \<and> p = From_Window w (uint32 (sx + width g * sy)))"
      by (simp add: image_iff conj_assoc)
    also have "\<dots> \<longleftrightarrow> contains dst x y \<and> p = From_Window w (uint32 (x - rx1 g + width g * (y - ry1 g)))" (is "?L \<longleftrightarrow> ?R")
    proof
      assume ?L
      then obtain sx sy where q: "sx \<in> {?x1..?x2 - 1}" "sy \<in> {?y1..?y2 - 1}" "x = uint32 (rx1 g + sx)" "y = uint32 (ry1 g + sy)"
        "p = From_Window w (uint32 (sx + width g * sy))" by blast
      then have "x = rx1 g + sx" "y = ry1 g + sy" using b d by simp_all
      then show ?R using q by (simp add: contains_def)
    next
      assume r: ?R
      then show ?L using b d s
        by (intro bexI [of _ "x - rx1 g"] bexI [of _ "y - ry1 g"]) (auto simp: contains_def)
    qed
    finally show "((x, y), p) \<in> set (concat (map marks ?cmds)) \<longleftrightarrow>
      contains dst x y \<and> Some (From_Window w (uint32 (x - rx1 g + width g * (y - ry1 g)))) = Some p" by auto
  qed
  ultimately show ?thesis unfolding g_def by blast
qed

text \<open>The rectangle is the window's part and the four parts around it, which do not meet the window.\<close>

lemma split_rect:
  assumes r: "on_screen r" and g: "rect_ok g" and ne: "\<not> is_null (intersection_with r g)"
  defines "e \<equiv> intersection_with r g"
  defines "A \<equiv> make_rect (rx1 r) (ry1 r) (rx1 e) (ry2 r)" and "B \<equiv> make_rect (rx2 e) (ry1 r) (rx2 r) (ry2 r)"
    and "C \<equiv> make_rect (rx1 e) (ry1 r) (rx2 e) (ry1 e)" and "D \<equiv> make_rect (rx1 e) (ry2 e) (rx2 e) (ry2 r)"
  shows "on_screen A" "on_screen B" "on_screen C" "on_screen D" "on_screen e"
    "rx1 g \<le> rx1 e" "rx2 e \<le> rx2 g" "ry1 g \<le> ry1 e" "ry2 e \<le> ry2 g"
    "contains r x y \<longleftrightarrow> contains e x y \<or> contains A x y \<or> contains B x y \<or> contains C x y \<or> contains D x y"
    "contains A x y \<or> contains B x y \<or> contains C x y \<or> contains D x y \<longrightarrow> \<not> contains g x y" "contains e x y \<longrightarrow> contains g x y"
proof -
  have ro: "rect_ok r" using r by (simp add: on_screen_def)
  have e: "e = \<lparr>rx1 = max (rx1 r) (rx1 g), ry1 = max (ry1 r) (ry1 g), rx2 = min (rx2 r) (rx2 g), ry2 = min (ry2 r) (ry2 g)\<rparr>"
    "max (rx1 r) (rx1 g) \<le> min (rx2 r) (rx2 g)" "max (ry1 r) (ry1 g) \<le> min (ry2 r) (ry2 g)"
    using ne by (rule_tac [!] intersection_cases [OF ro g]) (simp_all add: e_def)
  note b = r [unfolded on_screen_def rect_ok_def] g [unfolded rect_ok_def] e(2,3)
  have parts: "A = \<lparr>rx1 = rx1 r, ry1 = ry1 r, rx2 = rx1 e, ry2 = ry2 r\<rparr>" "B = \<lparr>rx1 = rx2 e, ry1 = ry1 r, rx2 = rx2 r, ry2 = ry2 r\<rparr>"
    "C = \<lparr>rx1 = rx1 e, ry1 = ry1 r, rx2 = rx2 e, ry2 = ry1 e\<rparr>" "D = \<lparr>rx1 = rx1 e, ry1 = ry2 e, rx2 = rx2 e, ry2 = ry2 r\<rparr>"
    unfolding A_def B_def C_def D_def using b by (auto simp: make_rect_id e(1))
  show "on_screen A" "on_screen B" "on_screen C" "on_screen D" "on_screen e" "rx1 g \<le> rx1 e" "rx2 e \<le> rx2 g" "ry1 g \<le> ry1 e" "ry2 e \<le> ry2 g"
    using b unfolding parts by (auto simp: on_screen_def rect_ok_def e(1))
  show "contains r x y \<longleftrightarrow> contains e x y \<or> contains A x y \<or> contains B x y \<or> contains C x y \<or> contains D x y"
    using b unfolding parts by (auto simp: contains_def e(1))
  show "contains A x y \<or> contains B x y \<or> contains C x y \<or> contains D x y \<longrightarrow> \<not> contains g x y" "contains e x y \<longrightarrow> contains g x y"
    using b unfolding parts by (auto simp: contains_def e(1))
qed

lemma paints_cong: "paints cmds r f \<Longrightarrow> (\<And>x y. contains r x y \<Longrightarrow> f x y = g x y) \<Longrightarrow> paints cmds r g"
  by (auto simp: paints_def)

lemma paints_parts:
  assumes "paints c1 e f" "paints cA A f" "paints cB B f" "paints cC C f" "paints cD D f"
    and "\<And>x y. contains r x y \<longleftrightarrow> contains e x y \<or> contains A x y \<or> contains B x y \<or> contains C x y \<or> contains D x y"
  shows "paints (c1 @ cA @ cB @ cC @ cD) r f"
proof -
  have "((x, y), p) \<in> set (concat (map marks (c1 @ cA @ cB @ cC @ cD))) \<longleftrightarrow> contains r x y \<and> f x y = Some p" for x y p
    using assms(1-5) [unfolded paints_def, THEN spec, THEN spec, THEN spec, of x y p] assms(6) [of x y]
    unfolding map_append concat_append set_append Un_iff by (auto simp only:)
  then show ?thesis unfolding paints_def by blast
qed

lemma draw_windows_helper_correct:
  "drawable m ws \<Longrightarrow> ws \<noteq> [] \<Longrightarrow> on_screen r \<Longrightarrow> \<exists>cmds. draw_windows_helper m ws r = ok cmds \<and> paints cmds r (shown m ws)"
proof (induction ws arbitrary: r)
  case (Cons w ws)
  have ro: "rect_ok r" using Cons.prems(3) by (simp add: on_screen_def)
  obtain window where w: "win m w = Some window" "rect_ok (geometry window)" "visible window \<longrightarrow> framebuffer window \<noteq> None"
    using Cons.prems(1) by (auto simp: drawable_def)
  define e where "e = intersection_with r (geometry window)"
  have rest: "\<exists>cmds. (if ws \<noteq> [] then draw_windows_helper m ws q else ok (draw_background m q)) = ok cmds \<and> paints cmds q (shown m ws)"
    if "on_screen q" for q
    using Cons.IH [OF _ _ that] Cons.prems(1) paints_background [of q m] that by (cases "ws = []") (auto simp: drawable_def on_screen_def)
  consider "is_null r" | "\<not> is_null r" "\<not> visible window \<or> is_null e" | "\<not> is_null r" "visible window" "\<not> is_null e" by blast
  then show ?case
  proof cases
    case 1
    then show ?thesis using null_contains [OF ro] by (simp add: paints_def)
  next
    case 2
    have "shown m (w # ws) x y = shown m ws x y" if "contains r x y" for x y
    proof -
      have "\<not> (visible window \<and> contains (geometry window) x y)"
        using 2(2) that null_contains [OF intersection_ok [OF ro w(2)], of x y] intersection_contains [OF ro w(2), of x y] by (auto simp: e_def)
      then show ?thesis by (auto simp: w(1))
    qed
    then have up: "paints cmds r (shown m ws) \<Longrightarrow> paints cmds r (shown m (w # ws))" for cmds using paints_cong by metis
    obtain cmds where "(if ws \<noteq> [] then draw_windows_helper m ws r else ok (draw_background m r)) = ok cmds" "paints cmds r (shown m ws)"
      using rest [OF Cons.prems(3)] by blast
    then have "draw_windows_helper m (w # ws) r = ok cmds"
      using 2 by (auto simp: window_at_def w(1) Let_def e_def [symmetric] simp del: shown.simps)
    then show ?thesis using up \<open>paints cmds r (shown m ws)\<close> by blast
  next
    case 3
    note sp = split_rect [OF Cons.prems(3) w(2) 3(3) [unfolded e_def], folded e_def]
    let ?A = "make_rect (rx1 r) (ry1 r) (rx1 e) (ry2 r)" and ?B = "make_rect (rx2 e) (ry1 r) (rx2 r) (ry2 r)"
    let ?C = "make_rect (rx1 e) (ry1 r) (rx2 e) (ry1 e)" and ?D = "make_rect (rx1 e) (ry2 e) (rx2 e) (ry2 r)"
    obtain cA cB cC cD where c:
      "(if ws \<noteq> [] then draw_windows_helper m ws ?A else ok (draw_background m ?A)) = ok cA" "paints cA ?A (shown m ws)"
      "(if ws \<noteq> [] then draw_windows_helper m ws ?B else ok (draw_background m ?B)) = ok cB" "paints cB ?B (shown m ws)"
      "(if ws \<noteq> [] then draw_windows_helper m ws ?C else ok (draw_background m ?C)) = ok cC" "paints cC ?C (shown m ws)"
      "(if ws \<noteq> [] then draw_windows_helper m ws ?D else ok (draw_background m ?D)) = ok cD" "paints cD ?D (shown m ws)"
      using rest [OF sp(1)] rest [OF sp(2)] rest [OF sp(3)] rest [OF sp(4)] by blast
    have fb: "framebuffer window \<noteq> None" using w(3) 3(2) by blast
    obtain c1 where c1: "draw_window m w e = ok c1"
      "paints c1 e (\<lambda>x y. Some (From_Window w (uint32 (x - rx1 (geometry window) + width (geometry window) * (y - ry1 (geometry window))))))"
      using draw_window_correct [OF w(1) 3(2) fb w(2) sp(5) 3(3) sp(6-9)] by blast
    have sh: "shown m (w # ws) x y = (if contains (geometry window) x y
        then Some (From_Window w (uint32 (x - rx1 (geometry window) + width (geometry window) * (y - ry1 (geometry window))))) else shown m ws x y)" for x y
      using 3(2) by (simp add: w(1))
    have "paints c1 e (shown m (w # ws))" using sp(12) by (intro paints_cong [OF c1(2)]) (simp add: sh del: shown.simps)
    moreover have "paints cA ?A (shown m (w # ws))" "paints cB ?B (shown m (w # ws))" "paints cC ?C (shown m (w # ws))" "paints cD ?D (shown m (w # ws))"
      using sp(11) by (intro paints_cong [OF c(2)] paints_cong [OF c(4)] paints_cong [OF c(6)] paints_cong [OF c(8)]; simp add: sh del: shown.simps; blast)+
    ultimately have "paints (c1 @ cA @ cB @ cC @ cD) r (shown m (w # ws))" using sp(10) by (rule paints_parts)
    moreover have "draw_windows_helper m (w # ws) r = ok (c1 @ cA @ cB @ cC @ cD)"
      using 3 c(1,3,5,7) c1(1) by (cases "ws = []") (simp_all add: window_at_def w(1) Let_def e_def [symmetric] both_def)
    ultimately show ?thesis by blast
  qed
qed simp

lemma draw_windows_correct:
  assumes "drawable m (wm_windows m)" "on_screen r"
  shows "\<exists>cmds. draw_windows m r = ok cmds \<and> paints cmds r (shown m (wm_windows m))"
proof (cases "wm_windows m = []")
  case True
  have "rect_ok r" using assms(2) by (simp add: on_screen_def)
  then have "paints (draw_background m r) r (shown m [])" by (rule paints_background)
  then show ?thesis using True by (simp add: draw_windows_def)
next
  case False
  then show ?thesis using draw_windows_helper_correct [OF assms(1) False assms(2)] by (simp add: draw_windows_def)
qed

text \<open>From the points to the array of the screen.\<close>

lemma plot_all:
  "fold (\<lambda>((x, y), p) screen. screen(h x y := p)) ps screen k
    = (case find (\<lambda>((x, y), p). h x y = k) (rev ps) of None \<Rightarrow> screen k | Some (_, p) \<Rightarrow> p)"
  for h :: "int \<Rightarrow> int \<Rightarrow> int"
  by (induction ps arbitrary: screen rule: rev_induct) (auto split: prod.splits)

lemma find_in: "find P xs = Some z \<Longrightarrow> z \<in> set xs \<and> P z"
  by (induction xs) (auto split: if_splits)

lemma paint_at:
  assumes p: "paints cmds r f" and r: "on_screen r" "rx2 r \<le> pitch" and xy: "0 \<le> x" "x < pitch" "0 \<le> y"
  shows "paint pitch cmds screen (x + pitch * y)
    = (if contains r x y then (case f x y of None \<Rightarrow> screen (x + pitch * y) | Some q \<Rightarrow> q) else screen (x + pitch * y))"
proof -
  let ?ps = "concat (map marks cmds)" and ?P = "\<lambda>((x', y'), p::pixel). x' + pitch * y' = x + pitch * y"
  have inj: "x' = x \<and> y' = y" if "contains r x' y'" "x' + pitch * y' = x + pitch * y" for x' y'
  proof -
    have "0 \<le> x'" "x' < pitch" using that(1) r by (auto simp: contains_def on_screen_def)
    then have "(x' + pitch * y') div pitch = y'" "(x + pitch * y) div pitch = y" using xy by simp_all
    then show ?thesis using that(2) by simp
  qed
  have hit: "q = ((x, y), p) \<and> contains r x y \<and> f x y = Some p" if t: "q \<in> set ?ps" "?P q" "snd q = p" for q p
  proof -
    obtain x' y' where q: "q = ((x', y'), p)" using t(3) by (metis prod.collapse)
    have c: "contains r x' y' \<and> f x' y' = Some p" using assms(1) t(1) unfolding q paints_def by blast
    have "x' + pitch * y' = x + pitch * y" using t(2) by (simp add: q)
    then show ?thesis using inj c q by blast
  qed
  show ?thesis
  proof (cases "contains r x y \<and> f x y \<noteq> None")
    case True
    then obtain q where q: "f x y = Some q" by blast
    then have "((x, y), q) \<in> set ?ps" using True p unfolding paints_def by blast
    then obtain z where z: "find ?P (rev ?ps) = Some z" by (cases "find ?P (rev ?ps)") (auto simp: find_None_iff)
    from find_in [OF this] have "z \<in> set ?ps" "?P z" by simp_all
    then have "snd z = q" using hit q by auto
    then show ?thesis using z True q unfolding paint_def plot_all by (auto split: prod.splits)
  next
    case False
    have "\<not> ?P q" if "q \<in> set ?ps" for q using hit [OF that _ refl] False by blast
    then have "find ?P (rev ?ps) = None" by (simp only: find_None_iff set_rev) blast
    then show ?thesis using False unfolding paint_def plot_all by auto
  qed
qed

text \<open>
  C32. Drawing an area of the screen, recursively from the topmost window down, is the same as looking up every pixel: in the area
  each pixel shows the first visible window of the stack that contains it, at the pixel's position in that window, or the wallpaper
  where there is none; outside the area the screen is unchanged. (The painter's decorations come on top.)
\<close>

theorem screen_shows_top_window:
  assumes "drawable m (wm_windows m)" and "on_screen r" and "rx2 r \<le> pitch"
  shows "\<exists>cmds. draw_windows m r = ok cmds \<and> (\<forall>x y. 0 \<le> x \<and> x < pitch \<and> 0 \<le> y \<longrightarrow>
    paint pitch cmds screen (x + pitch * y)
      = (if contains r x y then (case shown m (wm_windows m) x y of None \<Rightarrow> screen (x + pitch * y) | Some p \<Rightarrow> p)
         else screen (x + pitch * y)))"
  using draw_windows_correct [OF assms(1,2)] paint_at [OF _ assms(2,3)] by blast

definition example_window :: "Rect \<Rightarrow> Window" where
  "example_window r =
     \<lparr>win_task = 0, win_queue = \<lparr>mq_wait_list = [], m_pending_count = 0, m_queue = replicate 64 \<lparr>msg_id = 0, timestamp = 0, param1 = 0, param2 = 0\<rparr>\<rparr>,
      win_title = [], geometry = r, framebuffer = Some (width r * height r), framebuffer_pitch = width r, has_frame = True, visible = True, focused = False\<rparr>"

definition example_wm :: window_manager where
  "example_wm =
     \<lparr>is_supported = True, focus_win = None, wm_windows = [0, 1], window_count = 2, last_window_x = 50, last_window_y = 50, wallpaper = True,
      wallpaper_width = 640, screen_width = 640, screen_height = 480, cursor_x = 0, cursor_y = 0,
      win = [0 \<mapsto> example_window \<lparr>rx1 = 0, ry1 = 0, rx2 = 40, ry2 = 30\<rparr>, 1 \<mapsto> example_window \<lparr>rx1 = 10, ry1 = 10, rx2 = 90, ry2 = 80\<rparr>],
      tm = example_tm, now = 0, drawn = []\<rparr>"

theorem screen_shows_top_window_witness:
  "\<exists>cmds. draw_windows example_wm \<lparr>rx1 = 0, ry1 = 0, rx2 = 640, ry2 = 480\<rparr> = ok cmds \<and> (\<forall>x y. 0 \<le> x \<and> x < 640 \<and> 0 \<le> y \<longrightarrow>
    paint 640 cmds (\<lambda>_. From_Wallpaper 0) (x + 640 * y)
      = (if contains \<lparr>rx1 = 0, ry1 = 0, rx2 = 640, ry2 = 480\<rparr> x y
         then (case shown example_wm (wm_windows example_wm) x y of None \<Rightarrow> From_Wallpaper 0 | Some p \<Rightarrow> p)
         else From_Wallpaper 0))"
  by (rule screen_shows_top_window)
    (simp_all add: drawable_def example_wm_def example_window_def on_screen_def rect_ok_def)

end
