(* ===== verification/Window_Manager.thy ===== *)
theory Window_Manager
  imports Window_Draw Key_Event Utils
begin

text \<open>
  The window manager (\<^verbatim>\<open>kernel/wm/window_manager.cpp\<close>, \<^verbatim>\<open>window.cpp\<close>): creating and destroying windows, visibility, geometry,
  focus, messages, layout and the handling of keyboard and mouse events. Windows post their messages to their queue, which
  wakes the tasks that wait for one. \<open>focus_window\<close> and \<open>unfocus_window\<close> call each other; \<open>focus_calls\<close> is the nesting, and two
  levels are always enough.
\<close>

subsection \<open>Messages\<close>

definition SYS_MSG_KEYDOWN :: u32 where "SYS_MSG_KEYDOWN = 1"
definition SYS_MSG_MOUSEMOVE :: u32 where "SYS_MSG_MOUSEMOVE = 3"
definition SYS_MSG_MOUSECLICK :: u32 where "SYS_MSG_MOUSECLICK = 4"
definition SYS_MSG_SHOW :: u32 where "SYS_MSG_SHOW = 6"
definition SYS_MSG_HIDE :: u32 where "SYS_MSG_HIDE = 7"
definition SYS_MSG_CLOSE :: u32 where "SYS_MSG_CLOSE = 8"
definition SYS_MSG_MOVE :: u32 where "SYS_MSG_MOVE = 9"
definition SYS_MSG_RESIZE :: u32 where "SYS_MSG_RESIZE = 10"
definition SYS_MSG_FOCUS_IN :: u32 where "SYS_MSG_FOCUS_IN = 11"
definition SYS_MSG_FOCUS_OUT :: u32 where "SYS_MSG_FOCUS_OUT = 12"

definition message :: "u32 \<Rightarrow> u64 \<Rightarrow> u64 \<Rightarrow> sys_message" where
  "message i a b = \<lparr>msg_id = i, timestamp = 0, param1 = a, param2 = b\<rparr>"

definition set_window :: "nat \<Rightarrow> Window \<Rightarrow> window_manager \<Rightarrow> window_manager" where
  "set_window w x m = m\<lparr>win := (win m)(w := Some x)\<rparr>"

definition is_valid :: "window_manager \<Rightarrow> nat \<Rightarrow> bool" where
  "is_valid m w \<longleftrightarrow> w \<in> set (wm_windows m)"

definition post_to :: "nat \<Rightarrow> sys_message \<Rightarrow> window_manager \<Rightarrow> (bool \<times> window_manager) outcome" where
  "post_to w msg m =
     kassert (is_valid m w) (bindE (window_at m w) (\<lambda>window.
       bindE (mq_enqueue (tm m) (win_queue window) (msg\<lparr>timestamp := now m\<rparr>)) (\<lambda>(posted, q, s).
         ok (posted, set_window w (window\<lparr>win_queue := q\<rparr>) (m\<lparr>tm := s\<rparr>)))))"

definition post :: "nat \<Rightarrow> sys_message \<Rightarrow> window_manager \<Rightarrow> window_manager outcome" where
  "post w msg m = bindE (post_to w msg m) (\<lambda>(_, m). ok m)"

text \<open>An operation on a window that is only defined on a valid one.\<close>

definition change_window :: "nat \<Rightarrow> (Window \<Rightarrow> Window) \<Rightarrow> window_manager \<Rightarrow> window_manager outcome" where
  "change_window w f m = bindE (window_at m w) (\<lambda>window. ok (set_window w (f window) m))"

definition update_window :: "nat \<Rightarrow> window_manager \<Rightarrow> window_manager outcome" where
  "update_window w m = bindE (window_at m w) (\<lambda>window. update_rect (geometry window) m)"

subsection \<open>Focus\<close>

definition focus_with :: "(nat \<Rightarrow> window_manager \<Rightarrow> window_manager outcome) \<Rightarrow> nat \<Rightarrow> window_manager \<Rightarrow> window_manager outcome" where
  "focus_with unfocus w m =
     kassert (is_valid m w)
       (if focus_win m = Some w then ok m
        else
          bindE (case focus_win m of None \<Rightarrow> ok m | Some f \<Rightarrow> unfocus f m) (\<lambda>m.
          bindE (post w (message SYS_MSG_FOCUS_IN 0 0) m) (\<lambda>m.
          bindE (change_window w (\<lambda>window. window\<lparr>focused := True\<rparr>) (m\<lparr>focus_win := Some w\<rparr>)) (\<lambda>m.
          kassert (w \<in> set (wm_windows m))
            (update_window w (m\<lparr>wm_windows := w # remove1 w (wm_windows m)\<rparr>))))))"

text \<open>The loop over the windows keeps the last visible window that is not \<open>w\<close>.\<close>

fun last_visible :: "window_manager \<Rightarrow> nat \<Rightarrow> nat list \<Rightarrow> nat option \<Rightarrow> nat option outcome" where
  "last_visible m w [] r = ok r"
| "last_visible m w (x # xs) r =
     (if x = w then last_visible m w xs r
      else bindE (window_at m x) (\<lambda>window. last_visible m w xs (if visible window then Some x else r)))"

definition unfocus_with :: "(nat \<Rightarrow> window_manager \<Rightarrow> window_manager outcome) \<Rightarrow> nat \<Rightarrow> window_manager \<Rightarrow> window_manager outcome" where
  "unfocus_with focus w m =
     kassert (is_valid m w)
       (if focus_win m \<noteq> Some w then ok m
        else
          bindE (change_window w (\<lambda>window. window\<lparr>focused := False\<rparr>) m) (\<lambda>m.
          bindE (post w (message SYS_MSG_FOCUS_OUT 0 0) m) (\<lambda>m.
          bindE (last_visible m w (wm_windows m) None) (\<lambda>new_focus_window.
            let m = m\<lparr>focus_win := None\<rparr> in
            case new_focus_window of None \<Rightarrow> ok m | Some n \<Rightarrow> focus n m))))"

fun focus_calls :: "nat \<Rightarrow> nat \<Rightarrow> window_manager \<Rightarrow> window_manager outcome" where
  "focus_calls 0 w m = Inl Diverges"
| "focus_calls (Suc n) w m = focus_with (unfocus_with (focus_calls n)) w m"

definition focus_window :: "nat \<Rightarrow> window_manager \<Rightarrow> window_manager outcome" where
  "focus_window = focus_calls 2"

definition unfocus_window :: "nat \<Rightarrow> window_manager \<Rightarrow> window_manager outcome" where
  "unfocus_window = unfocus_with focus_window"

definition switch_focus :: "window_manager \<Rightarrow> window_manager outcome" where
  "switch_focus m =
     (case wm_windows m of
        [] \<Rightarrow> ok m
      | first # _ \<Rightarrow>
          (case focus_win m of
             None \<Rightarrow> focus_window first m
           | Some old \<Rightarrow>
               (case dropWhile (\<lambda>w. w \<noteq> old) (wm_windows m) of
                  [] \<Rightarrow> Inl Undefined
                | _ # behind \<Rightarrow>
                    let new = (case behind of [] \<Rightarrow> first | n # _ \<Rightarrow> n) in
                    if old = new then ok m
                    else
                      bindE (change_window old (\<lambda>window. window\<lparr>focused := False\<rparr>) m) (\<lambda>m.
                      bindE (post old (message SYS_MSG_FOCUS_OUT 0 0) m) (\<lambda>m.
                      bindE (post new (message SYS_MSG_FOCUS_IN 0 0) m) (\<lambda>m.
                      bindE (change_window new (\<lambda>window. window\<lparr>focused := True\<rparr>) (m\<lparr>focus_win := Some new\<rparr>)) (\<lambda>m.
                        let m = m\<lparr>wm_windows := new # remove1 new (wm_windows m)\<rparr>;
                            m = m\<lparr>wm_windows := remove1 old (wm_windows m) @ [old]\<rparr> in
                        update_window new m)))))))"

subsection \<open>Windows\<close>

text \<open>\<^verbatim>\<open>reallocate_framebuffer\<close> without DMA.\<close>

definition reallocate_framebuffer :: "Window \<Rightarrow> Window" where
  "reallocate_framebuffer window =
     window\<lparr>framebuffer := Some (i32 (width (geometry window) * height (geometry window))), framebuffer_pitch := uint32 (width (geometry window))\<rparr>"

definition set_geometry :: "Rect \<Rightarrow> Window \<Rightarrow> Window" where
  "set_geometry rect window =
     (let resized = (width rect \<noteq> width (geometry window) \<or> height rect \<noteq> height (geometry window));
          window = window\<lparr>geometry := rect\<rparr> in
      if resized then reallocate_framebuffer window else window)"

definition MAX_TITLE_LENGTH :: nat where "MAX_TITLE_LENGTH = 255"

definition set_title :: "string \<Rightarrow> Window \<Rightarrow> Window" where
  "set_title title window = window\<lparr>win_title := take (min (length title) MAX_TITLE_LENGTH) title\<rparr>"

definition SYS_WF_NO_FRAME :: u32 where "SYS_WF_NO_FRAME = 1"

text \<open>The object \<open>w\<close> is new. Without DMA the constructor leaves the geometry and the frame buffer as they are in memory: \<open>g\<close>, \<open>fb\<close>
  and the messages of the queue are what is there.\<close>

definition new_window :: "tptr \<Rightarrow> Rect \<Rightarrow> int option \<Rightarrow> sys_message list \<Rightarrow> Window" where
  "new_window task g fb garbage =
     \<lparr>win_task = task, win_queue = \<lparr>mq_wait_list = [], m_pending_count = 0, m_queue = garbage\<rparr>, win_title = [], geometry = g, framebuffer = fb,
      framebuffer_pitch = 0, has_frame = True, visible = False, focused = False\<rparr>"

definition task_of :: "window_manager \<Rightarrow> nat \<Rightarrow> tptr" where
  "task_of m w = (case win m w of None \<Rightarrow> 0 | Some x \<Rightarrow> win_task x)"

definition create_window ::
  "tptr \<Rightarrow> u32 \<Rightarrow> nat \<Rightarrow> Rect \<Rightarrow> int option \<Rightarrow> sys_message list \<Rightarrow> window_manager \<Rightarrow> (nat option \<times> window_manager) outcome" where
  "create_window task flags w g fb garbage m =
     (if \<not> is_supported m then ok (None, m)
      else
        let window = (new_window task g fb garbage)\<lparr>has_frame := (flags AND SYS_WF_NO_FRAME = 0)\<rparr>;
            m = set_window w window m in
        bindE (task_at (tm m) task) (\<lambda>t.
        bindE (register_window (task_of m) task t (Some w)) (\<lambda>t.
          let m = m\<lparr>tm := set_task (tm m) task (\<lambda>_. t), window_count := window_count m + 1, wm_windows := wm_windows m @ [w]\<rparr> in
          bindE (focus_window w m) (\<lambda>m. ok (Some w, m)))))"

definition destroy_window :: "nat \<Rightarrow> window_manager \<Rightarrow> window_manager outcome" where
  "destroy_window w m =
     kassert (is_valid m w) (bindE (window_at m w) (\<lambda>window.
       let p = win_task window in
       bindE (task_at (tm m) p) (\<lambda>t.
       bindE (unregister_window (task_of m) p t (Some w)) (\<lambda>t.
         let m = m\<lparr>tm := set_task (tm m) p (\<lambda>_. t)\<rparr> in
         bindE (if focus_win m = Some w then unfocus_window w m else ok m) (\<lambda>m.
           let m = m\<lparr>wm_windows := remove1 w (wm_windows m), window_count := window_count m - 1\<rparr> in
           bindE (window_at m w) (\<lambda>window.
           bindE (if visible window then update_rect (geometry window) m else ok m) (\<lambda>m.
             let m = m\<lparr>win := (win m)(w := None)\<rparr> in
             if wm_windows m = [] then ok m else focus_window (last (wm_windows m)) m)))))))"

definition set_window_visibility :: "nat \<Rightarrow> bool \<Rightarrow> window_manager \<Rightarrow> window_manager outcome" where
  "set_window_visibility w shows m =
     kassert (is_valid m w) (bindE (window_at m w) (\<lambda>window.
       if visible window = shows then ok m
       else
         let m = set_window w (window\<lparr>visible := shows\<rparr>) m in
         bindE (if shows then (if focus_win m = None then bindE (focus_window w m) (\<lambda>m. ok (True, m)) else ok (False, m))
                else (if focus_win m = Some w then bindE (unfocus_window w m) (\<lambda>m. ok (True, m)) else ok (False, m))) (\<lambda>(updated, m).
         bindE (post w (message (if shows then SYS_MSG_SHOW else SYS_MSG_HIDE) 0 0) m) (\<lambda>m.
           if \<not> updated \<and> shows then update_window w m else ok m))))"

subsection \<open>Geometry\<close>

definition MIN_WIDTH :: int where "MIN_WIDTH = 25"
definition MIN_HEIGHT :: int where "MIN_HEIGHT = 25"
definition MAX_WIDTH :: int where "MAX_WIDTH = 2000"
definition MAX_HEIGHT :: int where "MAX_HEIGHT = 2000"

definition clamp_int :: "int \<Rightarrow> int \<Rightarrow> int \<Rightarrow> int" where
  "clamp_int v low high = min high (max low v)"

definition constrain :: "window_manager \<Rightarrow> Rect \<Rightarrow> Rect" where
  "constrain m r =
     (let r = set_width (uint32 (clamp_int (width r) MIN_WIDTH (min MAX_WIDTH (screen_width m)))) r;
          r = set_height (uint32 (clamp_int (height r) MIN_HEIGHT (min MAX_HEIGHT (screen_height m)))) r;
          w = uint32 (width r);
          h = uint32 (height r);
          r = r\<lparr>rx1 := clamp_int (rx1 r) 0 (i32 (screen_width m - width r))\<rparr>;
          r = r\<lparr>ry1 := clamp_int (ry1 r) 0 (i32 (screen_height m - height r))\<rparr>
      in r\<lparr>rx2 := i32 (rx1 r + w), ry2 := i32 (ry1 r + h)\<rparr>)"

definition set_window_geometry :: "nat \<Rightarrow> Rect \<Rightarrow> window_manager \<Rightarrow> window_manager outcome" where
  "set_window_geometry w rect m =
     kassert (is_valid m w) (bindE (window_at m w) (\<lambda>window.
       let rect = constrain m rect;
           old_rect = geometry window;
           m = set_window w (set_geometry rect window) m;
           moved = (rx1 old_rect \<noteq> rx1 rect \<or> ry1 old_rect \<noteq> ry1 rect);
           resized = (width old_rect \<noteq> width rect \<or> height old_rect \<noteq> height rect) in
       bindE (if moved then post w (message SYS_MSG_MOVE (word_of_int (rx1 rect)) (word_of_int (ry1 rect))) m else ok m) (\<lambda>m.
       bindE (if resized then post w (message SYS_MSG_RESIZE (word_of_int (width rect)) (word_of_int (height rect))) m else ok m) (\<lambda>m.
         if moved \<or> resized then update_rect (union_with old_rect rect) m else ok m))))"

definition half :: "int \<Rightarrow> int" where
  "half x = (if x < 0 then - (- x div 2) else x div 2)"

definition SYS_POS_DEFAULT :: int where "SYS_POS_DEFAULT = - (2 ^ 31)"
definition SYS_POS_CENTERED :: int where "SYS_POS_CENTERED = - (2 ^ 31) + 1"

definition place_window :: "nat \<Rightarrow> int \<Rightarrow> int \<Rightarrow> int \<Rightarrow> int \<Rightarrow> window_manager \<Rightarrow> window_manager outcome" where
  "place_window w x y wd ht m =
     kassert (is_valid m w)
       (let (x, m) =
              (if x = SYS_POS_DEFAULT then (i32 (last_window_x m), m\<lparr>last_window_x := uint32 (last_window_x m + 50)\<rparr>)
               else if x = SYS_POS_CENTERED then (i32 (half (screen_width m) - half wd), m)
               else (x, m));
            (y, m) =
              (if y = SYS_POS_DEFAULT then (i32 (last_window_y m), m\<lparr>last_window_y := uint32 (last_window_y m + 50)\<rparr>)
               else if y = SYS_POS_CENTERED then (i32 (half (screen_height m) - half ht), m)
               else (y, m))
        in set_window_geometry w (from_pos_and_size x y wd ht) m)"

definition present_window :: "nat \<Rightarrow> window_manager \<Rightarrow> window_manager outcome" where
  "present_window w m = kassert (is_valid m w) (update_window w m)"

definition present_part :: "nat \<Rightarrow> int \<Rightarrow> int \<Rightarrow> int \<Rightarrow> int \<Rightarrow> window_manager \<Rightarrow> window_manager outcome" where
  "present_part w x y wd ht m =
     kassert (is_valid m w) (bindE (window_at m w) (\<lambda>window.
       let r = geometry window;
           x = min x (uint32 (width r));
           y = min y (uint32 (height r));
           wd = min wd (uint32 (width r - x));
           ht = min ht (uint32 (height r - y)) in
       update_rect (from_pos_and_size (i32 (rx1 r + x)) (i32 (ry1 r + y)) (i32 wd) (i32 ht)) m))"

text \<open>The loop of \<^verbatim>\<open>mosaic_layout\<close> over the rest of the windows; \<open>i\<close> is the column, \<open>j\<close> the row and \<open>current\<close> the index.\<close>

fun mosaic_loop :: "nat list \<Rightarrow> int \<Rightarrow> int \<Rightarrow> int \<Rightarrow> nat \<Rightarrow> int \<Rightarrow> int \<Rightarrow> window_manager \<Rightarrow> window_manager outcome" where
  "mosaic_loop [] wd ht columns current i j m = ok m"
| "mosaic_loop (w # ws) wd ht columns current i j m =
     (let x = i32 (i * wd);
          y = i32 (j * ht);
          size = (if current + 1 = window_count m then i32 ((columns - i) * wd) else wd) in
      bindE (set_window_geometry w (from_pos_and_size x y size ht) m) (\<lambda>m.
        if columns \<le> i + 1 then mosaic_loop ws wd ht columns (current + 1) 0 (j + 1) m
        else mosaic_loop ws wd ht columns (current + 1) (i + 1) j m))"

definition mosaic_layout :: "window_manager \<Rightarrow> window_manager outcome" where
  "mosaic_layout m =
     (if window_count m = 0 then ok m
      else
        let root = uint (isqrt (of_nat (window_count m)));
            columns = (if root * root \<noteq> int (window_count m) then root + 1 else root);
            rows = i32 ((int (window_count m) + columns - 1) div columns) in
        mosaic_loop (wm_windows m) (screen_width m div columns) (screen_height m div rows) columns 0 0 0 m)"

subsection \<open>Events\<close>

definition move_focus_window :: "int \<Rightarrow> int \<Rightarrow> window_manager \<Rightarrow> window_manager outcome" where
  "move_focus_window dx dy m =
     (case focus_win m of
        None \<Rightarrow> ok m
      | Some w \<Rightarrow> bindE (window_at m w) (\<lambda>window.
          let r = geometry window in
          set_window_geometry w \<lparr>rx1 = i32 (rx1 r + dx), ry1 = i32 (ry1 r + dy), rx2 = i32 (rx2 r + dx), ry2 = i32 (ry2 r + dy)\<rparr> m))"

definition resize_focus_window :: "int \<Rightarrow> int \<Rightarrow> window_manager \<Rightarrow> window_manager outcome" where
  "resize_focus_window dx dy m =
     (case focus_win m of
        None \<Rightarrow> ok m
      | Some w \<Rightarrow> bindE (window_at m w) (\<lambda>window.
          let r = geometry window;
              dx = (if i32 (width r + dx) < MIN_WIDTH then i32 (MIN_WIDTH - width r) else dx);
              r = r\<lparr>rx2 := i32 (rx2 r + dx)\<rparr>;
              dy = (if i32 (height r + dy) < MIN_HEIGHT then i32 (MIN_HEIGHT - height r) else dy);
              r = r\<lparr>ry2 := i32 (ry2 r + dy)\<rparr> in
          set_window_geometry w r m))"

definition WINDOW_STEP :: int where "WINDOW_STEP = 10"

text \<open>\<open>spawn\<close> stands for creating and waking the task \<^verbatim>\<open>/bin/explorer\<close>.\<close>

definition handle_key_event ::
  "(task_manager \<Rightarrow> task_manager outcome) \<Rightarrow> key_event \<Rightarrow> window_manager \<Rightarrow> (bool \<times> window_manager) outcome" where
  "handle_key_event spawn event m =
     (if \<not> sys_is_press_event event \<or> \<not> sys_is_alt_pressed event then ok (False, m)
      else
        let code = sys_get_key_code event;
            handled = (\<lambda>r. bindE r (\<lambda>m. ok (True, m)));
            arrow = (\<lambda>dx dy. handled (if sys_is_shift_pressed event then resize_focus_window dx dy m else move_focus_window dx dy m)) in
        if code = 0x2C then handled (switch_focus m)
        else if code = 0xE06B then arrow (- WINDOW_STEP) 0
        else if code = 0xE074 then arrow WINDOW_STEP 0
        else if code = 0xE075 then arrow 0 (- WINDOW_STEP)
        else if code = 0xE072 then arrow 0 WINDOW_STEP
        else if code = 0x2B then
          handled (case focus_win m of
              None \<Rightarrow> ok m
            | Some w \<Rightarrow> set_window_geometry w (from_pos_and_size 0 0 (screen_width m) (screen_height m)) m)
        else if code = 0x15 then
          handled (case focus_win m of None \<Rightarrow> ok m | Some w \<Rightarrow> post w (message SYS_MSG_CLOSE 0 0) m)
        else if code = 0x3A then handled (mosaic_layout m)
        else if code = 0x24 then handled (bindE (spawn (tm m)) (\<lambda>s. ok (m\<lparr>tm := s\<rparr>)))
        else ok (False, m))"

definition handle_mouse_move_event :: "int \<Rightarrow> int \<Rightarrow> window_manager \<Rightarrow> (bool \<times> window_manager) outcome" where
  "handle_mouse_move_event dx dy m =
     (let previous_x = cursor_x m;
          previous_y = cursor_y m;
          m = m\<lparr>cursor_x := clamp_int (i32 (cursor_x m + dx)) 0 (screen_width m), cursor_y := clamp_int (i32 (cursor_y m + dy)) 0 (screen_height m)\<rparr> in
      if cursor_x m = previous_x \<and> cursor_y m = previous_y then ok (False, m)
      else
        bindE (update_rect (clip_rect_to_screen m (from_pos_and_size previous_x previous_y CURSOR_WIDTH CURSOR_HEIGHT)) m) (\<lambda>m.
          ok (False, m)))"

fun window_under :: "window_manager \<Rightarrow> nat list \<Rightarrow> nat option outcome" where
  "window_under m [] = ok None"
| "window_under m (w # ws) =
     bindE (window_at m w) (\<lambda>window. if contains (geometry window) (cursor_x m) (cursor_y m) then ok (Some w) else window_under m ws)"

definition handle_mouse_click_event :: "int \<Rightarrow> bool \<Rightarrow> window_manager \<Rightarrow> (bool \<times> window_manager) outcome" where
  "handle_mouse_click_event button is_pressed m =
     (if button = 0 \<and> is_pressed then
        bindE (window_under m (wm_windows m)) (\<lambda>r.
          case r of None \<Rightarrow> ok (False, m) | Some w \<Rightarrow> bindE (focus_window w m) (\<lambda>m. ok (True, m)))
      else ok (False, m))"

definition post_event :: "(task_manager \<Rightarrow> task_manager outcome) \<Rightarrow> sys_message \<Rightarrow> window_manager \<Rightarrow> window_manager outcome" where
  "post_event spawn msg m =
     (if \<not> is_supported m then ok m
      else
        bindE (if msg_id msg = SYS_MSG_KEYDOWN then handle_key_event spawn (param1 msg) m else ok (False, m)) (\<lambda>(handled, m).
        if handled then ok m
        else
        bindE (if msg_id msg = SYS_MSG_MOUSEMOVE then handle_mouse_move_event (i32 (uint (param1 msg))) (i32 (uint (param2 msg))) m
               else if msg_id msg = SYS_MSG_MOUSECLICK then handle_mouse_click_event (i32 (uint (param1 msg))) (param2 msg \<noteq> 0) m
               else ok (False, m)) (\<lambda>(handled, m).
        if handled then ok m
        else (case focus_win m of None \<Rightarrow> ok m | Some w \<Rightarrow> post w msg m))))"

end
