(* ===== verification/Window_Inv.thy ===== *)
theory Window_Inv
  imports Window_Manager
begin

text \<open>
  The invariant of the window manager: the windows are distinct and alive, lie on the screen and have sound message queues, the
  window with the focus is one of them, and each is registered with its task. Every operation keeps it and none of them faults.
  A window keeps its task, its geometry and its visibility under everything but the operations that change them (\<open>kept\<close>).
\<close>

subsection \<open>Waking tasks keeps what tasks own\<close>

definition owned :: "task_manager \<Rightarrow> nat list list" where
  "owned s = map m_windows (tasks s)"

lemma map_update_same: "f y = f (xs ! i) \<Longrightarrow> map f (xs[i := y]) = map f xs"
  by (cases "i < length xs") (simp_all add: map_update list_update_same_conv list_update_beyond)

lemma nth_update_same: "f y = f (xs ! i) \<Longrightarrow> f (xs[i := y] ! j) = f (xs ! j)"
  by (cases "i < length xs"; cases "j = i") (simp_all add: list_update_beyond)

lemma wake_task_owned: "wake_task s t = ok s' \<Longrightarrow> owned s' = owned s"
  by (auto simp: wake_task_def with_live_task_def sched_add_task_def rq_push_back_def set_state_def owned_def set_task_def Let_def map_update_same nth_update_same
      split: option.splits if_splits)

lemma wake_each_owned: "wake_each s wl = ok s' \<Longrightarrow> owned s' = owned s"
proof (induction wl arbitrary: s)
  case (Cons p wl)
  then show ?case by (auto split: if_splits dest: wake_task_owned)
qed simp

lemma enqueue_owned: "mq_enqueue s q msg = ok (b, q', s') \<Longrightarrow> owned s' = owned s"
  by (auto simp: mq_enqueue_def wl_wake_all_def Let_def split: if_splits dest: wake_each_owned)

lemma set_windows_inv:
  assumes "tm_inv s" "\<And>t. f t = t\<lparr>m_windows := m_windows (f t)\<rparr>"
  shows "tm_inv (set_task s p f)"
proof (cases "p < length (tasks s)")
  case True
  let ?s = "set_task s p f"
  have f: "m_state (f t) = m_state t \<and> m_priority (f t) = m_priority t \<and> m_manager (f t) = m_manager t" for t
    by (subst (1 2 3) assms(2)) simp
  have len: "length (tasks ?s) = length (tasks s)" by (simp add: set_task_def)
  have t: "tasks ?s ! q = (if q = p then f (tasks s ! p) else tasks s ! q)" for q using True by (simp add: set_task_def)
  have run: "is_running (tasks ?s ! q) = is_running (tasks s ! q)" "prio ?s q = prio s q" "is_terminated (tasks ?s ! q) = is_terminated (tasks s ! q)" for q
    using f by (simp_all add: t is_running_def prio_def is_terminated_def)
  have rs: "running_set ?s = running_set s" by (simp add: running_set_def len run)
  have other: "m_current_task ?s = m_current_task s" "m_run_queue ?s = m_run_queue s" "m_delta_queue ?s = m_delta_queue s" by (simp_all add: set_task_def)
  have "schedules ?s (running_set ?s)" using tm_invD(1) [OF assms(1)] unfolding schedules_def rs len other run by simp
  moreover have "\<forall>t \<in> set (tasks ?s). m_priority t \<le> MAX_PRIORITY \<and> m_manager t"
  proof
    fix x
    assume "x \<in> set (tasks ?s)"
    then obtain q where "q < length (tasks s)" "x = tasks ?s ! q" unfolding in_set_conv_nth len by blast
    then show "m_priority x \<le> MAX_PRIORITY \<and> m_manager x" using tm_invD(2,3) [OF assms(1), of q] f by (cases "q = p") (simp_all add: t)
  qed
  moreover have "live ?s q = live s q" for q by (simp add: live_def len run)
  ultimately show ?thesis using tm_invD(4,5) [OF assms(1)] by (simp add: tm_inv_def other)
next
  case False
  then show ?thesis using assms(1) by (simp add: set_task_def list_update_beyond)
qed

subsection \<open>The invariant\<close>

definition queue_ok :: "window_manager \<Rightarrow> sys_message message_queue \<Rightarrow> bool" where
  "queue_ok m q \<longleftrightarrow> length (m_queue q) = MAX_PENDING_MESSAGES \<and> m_pending_count q \<le> MAX_PENDING_MESSAGES
     \<and> (\<forall>p \<in> set (mq_wait_list q). p < length (tasks (tm m)))"

definition window_ok :: "window_manager \<Rightarrow> nat \<Rightarrow> bool" where
  "window_ok m w \<longleftrightarrow> (\<exists>x. win m w = Some x \<and> on_screen (geometry x) \<and> (visible x \<longrightarrow> framebuffer x \<noteq> None) \<and> queue_ok m (win_queue x)
     \<and> win_task x < length (tasks (tm m)))"

definition screen_ok :: "window_manager \<Rightarrow> bool" where
  "screen_ok m \<longleftrightarrow> MIN_WIDTH \<le> screen_width m \<and> screen_width m < 2 ^ 15 \<and> MIN_HEIGHT \<le> screen_height m \<and> screen_height m < 2 ^ 15
     \<and> 0 \<le> cursor_x m \<and> cursor_x m \<le> screen_width m \<and> 0 \<le> cursor_y m \<and> cursor_y m \<le> screen_height m"

definition base :: "window_manager \<Rightarrow> bool" where
  "base m \<longleftrightarrow> tm_inv (tm m) \<and> distinct (wm_windows m) \<and> (\<forall>w \<in> set (wm_windows m). window_ok m w) \<and> screen_ok m
     \<and> (\<forall>w. focus_win m = Some w \<longrightarrow> w \<in> set (wm_windows m))"

definition view :: "window_manager \<Rightarrow> nat \<Rightarrow> (tptr \<times> Rect \<times> bool \<times> int option) option" where
  "view m w = map_option (\<lambda>x. (win_task x, geometry x, visible x, framebuffer x)) (win m w)"

definition kept :: "window_manager \<Rightarrow> window_manager \<Rightarrow> bool" where
  "kept m m' \<longleftrightarrow> set (wm_windows m') = set (wm_windows m) \<and> length (wm_windows m') = length (wm_windows m) \<and> window_count m' = window_count m
     \<and> owned (tm m') = owned (tm m) \<and> view m' = view m
     \<and> is_supported m' = is_supported m \<and> screen_width m' = screen_width m \<and> screen_height m' = screen_height m"

text \<open>The lists of the tasks hold windows of the list \<open>ws\<close>, each once and with its own task.\<close>

definition lists_ok :: "nat list list \<Rightarrow> nat list \<Rightarrow> (nat \<Rightarrow> tptr) \<Rightarrow> bool" where
  "lists_ok ow ws f \<longleftrightarrow> (\<forall>p < length ow. distinct (ow ! p) \<and> (\<forall>w \<in> set (ow ! p). w \<in> set ws \<and> f w = p))"

lemma lists_ok_set: "lists_ok ow ws f \<Longrightarrow> set ws' = set ws \<Longrightarrow> lists_ok ow ws' f"
  by (simp add: lists_ok_def)

lemma lists_ok_add:
  assumes "lists_ok ow ws f" "w \<notin> set ws" "t < length ow" "set ws' = insert w (set ws)" "f' w = t" "\<And>u. u \<in> set ws \<Longrightarrow> f' u = f u"
  shows "lists_ok (ow[t := ow ! t @ [w]]) ws' f'"
  using assms unfolding lists_ok_def by (auto simp: nth_list_update)

lemma lists_ok_remove:
  assumes "lists_ok ow ws f" "f w = p" "set ws' = set ws - {w}" "\<And>u. u \<in> set ws' \<Longrightarrow> f' u = f u"
  shows "lists_ok (ow[p := remove1 w (ow ! p)]) ws' f'"
  unfolding lists_ok_def
proof (intro allI impI)
  fix q
  assume q: "q < length (ow[p := remove1 w (ow ! p)])"
  have o': "ow[p := remove1 w (ow ! p)] ! q = (if q = p then remove1 w (ow ! p) else ow ! q)" using q by (simp add: nth_list_update)
  have old: "distinct (ow ! q)" "\<And>u. u \<in> set (ow ! q) \<Longrightarrow> u \<in> set ws \<and> f u = q" using assms(1) q by (auto simp: lists_ok_def)
  have "u \<in> set ws' \<and> f' u = q" if u: "u \<in> set (ow[p := remove1 w (ow ! p)] ! q)" for u
  proof -
    have "u \<in> set (ow ! q)" "u \<noteq> w" using u old assms(2) unfolding o' by (auto split: if_splits simp: set_remove1_eq)
    then show ?thesis using old(2) assms(3,4) by simp
  qed
  then show "distinct (ow[p := remove1 w (ow ! p)] ! q) \<and> (\<forall>u \<in> set (ow[p := remove1 w (ow ! p)] ! q). u \<in> set ws' \<and> f' u = q)"
    using old(1) by (auto simp: o' distinct_remove1)
qed

lemma task_of_fields [simp]:
  "task_of (m\<lparr>last_window_x := x\<rparr>) = task_of m" "task_of (m\<lparr>last_window_y := x\<rparr>) = task_of m" "task_of (m\<lparr>cursor_x := x, cursor_y := y\<rparr>) = task_of m"
  "task_of (m\<lparr>now := t\<rparr>) = task_of m" "task_of (m\<lparr>tm := s\<rparr>) = task_of m"
  by (simp_all add: task_of_def fun_eq_iff)

definition registered :: "window_manager \<Rightarrow> bool" where
  "registered m \<longleftrightarrow> window_count m = length (wm_windows m)
     \<and> (\<forall>w \<in> set (wm_windows m). \<exists>x. win m w = Some x \<and> w \<in> set (owned (tm m) ! win_task x))
     \<and> lists_ok (owned (tm m)) (wm_windows m) (task_of m)"

definition wm_inv :: "window_manager \<Rightarrow> bool" where
  "wm_inv m \<longleftrightarrow> base m \<and> registered m"

text \<open>An operation returns, keeps the base of the invariant and what \<open>kept\<close> says, and establishes \<open>P\<close>.\<close>

definition goes :: "window_manager \<Rightarrow> window_manager outcome \<Rightarrow> (window_manager \<Rightarrow> bool) \<Rightarrow> bool" where
  "goes m r P \<longleftrightarrow> (\<exists>m'. r = ok m' \<and> base m' \<and> kept m m' \<and> P m')"

lemma kept_refl [simp]: "kept m m"
  by (simp add: kept_def)

lemma kept_trans: "kept m1 m2 \<Longrightarrow> kept m2 m3 \<Longrightarrow> kept m1 m3"
  by (simp add: kept_def)

lemma view_task_of: "view m' = view m \<Longrightarrow> task_of m' = task_of m"
proof
  fix w
  assume "view m' = view m"
  then have "view m' w = view m w" by simp
  then show "task_of m' w = task_of m w" by (auto simp: view_def task_of_def split: option.splits)
qed

lemma kept_registered: "kept m m' \<Longrightarrow> registered m \<Longrightarrow> registered m'"
proof -
  assume k: "kept m m'" and r: "registered m"
  have "\<exists>x. win m' w = Some x \<and> w \<in> set (owned (tm m') ! win_task x)" if "w \<in> set (wm_windows m')" for w
  proof -
    have "w \<in> set (wm_windows m)" using k that by (simp add: kept_def)
    then obtain x where x: "win m w = Some x" "w \<in> set (owned (tm m) ! win_task x)" using r unfolding registered_def by blast
    have "view m' w = view m w" using k by (simp add: kept_def)
    then obtain x' where "win m' w = Some x'" "win_task x' = win_task x" by (auto simp: view_def x(1))
    then show ?thesis using x(2) k by (simp add: kept_def)
  qed
  moreover have "task_of m' = task_of m" using k by (intro view_task_of) (simp add: kept_def)
  ultimately show ?thesis using k r lists_ok_set [of "owned (tm m)" "wm_windows m" "task_of m" "wm_windows m'"] by (simp add: kept_def registered_def)
qed

lemma goes_ok: "base m \<Longrightarrow> P m \<Longrightarrow> goes m (ok m) P"
  by (simp add: goes_def)

lemma goes_bind:
  assumes "goes m r P" and "\<And>m'. base m' \<Longrightarrow> kept m m' \<Longrightarrow> P m' \<Longrightarrow> goes m' (k m') Q"
  shows "goes m (bindE r k) Q"
  using assms unfolding goes_def by (metis bindE.simps(2) kept_trans)

lemma goes_mono: "goes m r P \<Longrightarrow> (\<And>m'. base m' \<Longrightarrow> kept m m' \<Longrightarrow> P m' \<Longrightarrow> Q m') \<Longrightarrow> goes m r Q"
  unfolding goes_def by blast

lemma goes_step: "base m1 \<Longrightarrow> kept m m1 \<Longrightarrow> goes m1 r P \<Longrightarrow> goes m r P"
  unfolding goes_def using kept_trans by blast

lemma window_okD:
  assumes "base m" "w \<in> set (wm_windows m)"
  obtains x where "win m w = Some x" "window_at m w = ok x" "on_screen (geometry x)" "visible x \<longrightarrow> framebuffer x \<noteq> None" "queue_ok m (win_queue x)"
    "win_task x < length (tasks (tm m))"
  using assms by (auto simp: base_def window_ok_def window_at_def)

lemma length_owned: "length (owned s) = length (tasks s)"
  by (simp add: owned_def)

text \<open>A change of one window that keeps its task, its geometry and so on, and of the task manager.\<close>

lemma set_window_base:
  assumes m: "base m" "win m w = Some x" and x: "view (set_window w x' m) w = view m w" "queue_ok m (win_queue x')"
    and s: "tm_inv s" "owned s = owned (tm m)"
  shows "base (set_window w x' (m\<lparr>tm := s\<rparr>))" "kept m (set_window w x' (m\<lparr>tm := s\<rparr>))"
proof -
  have len: "length (tasks s) = length (tasks (tm m))" using length_owned s(2) by metis
  have v: "win_task x' = win_task x \<and> geometry x' = geometry x \<and> visible x' = visible x \<and> framebuffer x' = framebuffer x"
    using x(1) m(2) by (simp add: view_def set_window_def)
  have "window_ok (set_window w x' (m\<lparr>tm := s\<rparr>)) u" if "u \<in> set (wm_windows m)" for u
    using m that v x(2) len by (cases "u = w") (auto simp: base_def window_ok_def set_window_def queue_ok_def)
  then show "base (set_window w x' (m\<lparr>tm := s\<rparr>))" using m(1) s(1) by (auto simp: base_def set_window_def screen_ok_def)
  show "kept m (set_window w x' (m\<lparr>tm := s\<rparr>))" using m(2) v s(2) by (auto simp: kept_def view_def set_window_def fun_eq_iff)
qed

lemma post_goes:
  assumes m: "base m" "w \<in> set (wm_windows m)"
  shows "goes m (post w msg m) (\<lambda>m'. focus_win m' = focus_win m \<and> wm_windows m' = wm_windows m)"
proof -
  obtain x where x: "win m w = Some x" "window_at m w = ok x" "queue_ok m (win_queue x)" by (rule window_okD [OF m])
  have q: "mq_ok (win_queue x, tm m)" using x(3) m(1) by (simp add: queue_ok_def mq_ok_def waiters_ok_def base_def)
  obtain q' s' where e: "mq_enqueue (tm m) (win_queue x) (msg\<lparr>timestamp := now m\<rparr>) = ok (m_pending_count (win_queue x) < MAX_PENDING_MESSAGES, q', s')"
      "mq_ok (q', s')" by (rule mq_enqueue_spec [OF q])
  have o': "owned s' = owned (tm m)" by (rule enqueue_owned [OF e(1)])
  have "length (tasks s') = length (tasks (tm m))" using length_owned o' by metis
  then have "queue_ok m q'" using e(2) by (simp add: queue_ok_def mq_ok_def waiters_ok_def)
  then show ?thesis
    using set_window_base [OF m(1) x(1), of "x\<lparr>win_queue := q'\<rparr>" s'] e(2) o' m(2) x(2) e(1) x(1)
    by (simp add: goes_def post_def post_to_def is_valid_def mq_ok_def waiters_ok_def view_def set_window_def)
qed

lemma change_goes:
  assumes m: "base m" "w \<in> set (wm_windows m)" and f: "\<And>x. f x = x\<lparr>focused := focused (f x)\<rparr>"
  shows "goes m (change_window w f m) (\<lambda>m'. focus_win m' = focus_win m \<and> wm_windows m' = wm_windows m)"
proof -
  obtain x where x: "win m w = Some x" "window_at m w = ok x" "queue_ok m (win_queue x)" by (rule window_okD [OF m])
  have fx: "win_queue (f x) = win_queue x \<and> win_task (f x) = win_task x \<and> geometry (f x) = geometry x \<and> visible (f x) = visible x \<and> framebuffer (f x) = framebuffer x"
    by (subst (1 2 3 4 5) f) simp
  then show ?thesis
    using set_window_base [OF m(1) x(1), of "f x" "tm m"] m(1) x by (simp add: goes_def change_window_def view_def set_window_def base_def)
qed

lemma drawable_base: "base m \<Longrightarrow> drawable m (wm_windows m)"
  by (fastforce simp: base_def window_ok_def drawable_def on_screen_def)

lemma update_goes:
  assumes m: "base m" and r: "on_screen r"
  shows "goes m (update_rect r m) (\<lambda>m'. focus_win m' = focus_win m \<and> wm_windows m' = wm_windows m \<and> win m' = win m \<and> tm m' = tm m)"
proof -
  obtain cmds where "draw_windows m r = ok cmds" using draw_windows_correct [OF drawable_base [OF m] r] by blast
  then show ?thesis using m
    by (auto simp: goes_def update_rect_def Let_def base_def kept_def view_def fun_eq_iff window_ok_def queue_ok_def screen_ok_def)
qed

lemma update_window_goes:
  assumes m: "base m" "w \<in> set (wm_windows m)"
  shows "goes m (update_window w m) (\<lambda>m'. focus_win m' = focus_win m \<and> wm_windows m' = wm_windows m)"
proof -
  obtain x where "window_at m w = ok x" "on_screen (geometry x)" by (rule window_okD [OF m])
  then show ?thesis using goes_mono [OF update_goes [OF m(1)]] by (simp add: update_window_def)
qed

subsection \<open>Focus\<close>

lemma set_focus_base: "base m \<Longrightarrow> (\<And>w. f = Some w \<Longrightarrow> w \<in> set (wm_windows m)) \<Longrightarrow> base (m\<lparr>focus_win := f\<rparr>)" "kept m (m\<lparr>focus_win := f\<rparr>)"
  by (auto simp: base_def kept_def view_def window_ok_def queue_ok_def screen_ok_def fun_eq_iff)

lemma reorder_base:
  assumes "base m" "set ws = set (wm_windows m)" "length ws = length (wm_windows m)"
  shows "base (m\<lparr>wm_windows := ws\<rparr>)" "kept m (m\<lparr>wm_windows := ws\<rparr>)"
proof -
  have "distinct ws" using assms by (metis base_def card_distinct distinct_card)
  then show "base (m\<lparr>wm_windows := ws\<rparr>)" "kept m (m\<lparr>wm_windows := ws\<rparr>)"
    using assms by (auto simp: base_def kept_def view_def window_ok_def queue_ok_def screen_ok_def fun_eq_iff)
qed

lemma kept_windows: "kept m m' \<Longrightarrow> w \<in> set (wm_windows m') \<longleftrightarrow> w \<in> set (wm_windows m)"
  by (simp add: kept_def)

lemma focus_with_goes:
  assumes m: "base m" "w \<in> set (wm_windows m)"
    and u: "\<And>f. focus_win m = Some f \<Longrightarrow> f \<noteq> w \<Longrightarrow> goes m (unfocus f m) (\<lambda>m'. True)"
  shows "goes m (focus_with unfocus w m) (\<lambda>m'. focus_win m' = Some w)"
proof (cases "focus_win m = Some w")
  case True
  then show ?thesis using m by (simp add: focus_with_def is_valid_def goes_ok)
next
  case False
  have first: "goes m (case focus_win m of None \<Rightarrow> ok m | Some f \<Rightarrow> unfocus f m) (\<lambda>m'. True)"
    using u m(1) False by (cases "focus_win m") (auto intro: goes_ok)
  have rest: "goes m2 (bindE (change_window w (\<lambda>window. window\<lparr>focused := True\<rparr>) (m2\<lparr>focus_win := Some w\<rparr>)) (\<lambda>m.
          kassert (w \<in> set (wm_windows m)) (update_window w (m\<lparr>wm_windows := w # remove1 w (wm_windows m)\<rparr>)))) (\<lambda>m'. focus_win m' = Some w)"
    if m2: "base m2" "w \<in> set (wm_windows m2)" for m2
  proof (rule goes_step [OF _ set_focus_base(2)])
    show b: "base (m2\<lparr>focus_win := Some w\<rparr>)" using set_focus_base(1) [OF m2(1), of "Some w"] m2(2) by simp
    show "goes (m2\<lparr>focus_win := Some w\<rparr>) (bindE (change_window w (\<lambda>window. window\<lparr>focused := True\<rparr>) (m2\<lparr>focus_win := Some w\<rparr>)) (\<lambda>m.
          kassert (w \<in> set (wm_windows m)) (update_window w (m\<lparr>wm_windows := w # remove1 w (wm_windows m)\<rparr>)))) (\<lambda>m'. focus_win m' = Some w)"
    proof (rule goes_bind [OF change_goes [OF b]])
      show "w \<in> set (wm_windows (m2\<lparr>focus_win := Some w\<rparr>))" using m2(2) by simp
      fix m3
      assume m3: "base m3" "kept (m2\<lparr>focus_win := Some w\<rparr>) m3"
        "focus_win m3 = focus_win (m2\<lparr>focus_win := Some w\<rparr>) \<and> wm_windows m3 = wm_windows (m2\<lparr>focus_win := Some w\<rparr>)"
      let ?ws = "w # remove1 w (wm_windows m3)"
      have w3: "w \<in> set (wm_windows m3)" using m3(3) m2(2) by simp
      have ws: "set ?ws = set (wm_windows m3)" "length ?ws = length (wm_windows m3)"
        using w3 m3(1) by (auto simp: base_def length_remove1) (metis length_pos_if_in_set Suc_pred)
      have "goes (m3\<lparr>wm_windows := ?ws\<rparr>) (update_window w (m3\<lparr>wm_windows := ?ws\<rparr>)) (\<lambda>m'. focus_win m' = Some w)"
        using goes_mono [OF update_window_goes [OF reorder_base(1) [OF m3(1) ws], of w]] m3(3) by simp
      then show "goes m3 (kassert (w \<in> set (wm_windows m3)) (update_window w (m3\<lparr>wm_windows := ?ws\<rparr>))) (\<lambda>m'. focus_win m' = Some w)"
        using goes_step [OF reorder_base [OF m3(1) ws]] w3 by simp
    qed simp
  qed
  have "goes m (bindE (case focus_win m of None \<Rightarrow> ok m | Some f \<Rightarrow> unfocus f m) (\<lambda>m.
          bindE (post w (message SYS_MSG_FOCUS_IN 0 0) m) (\<lambda>m.
          bindE (change_window w (\<lambda>window. window\<lparr>focused := True\<rparr>) (m\<lparr>focus_win := Some w\<rparr>)) (\<lambda>m.
          kassert (w \<in> set (wm_windows m)) (update_window w (m\<lparr>wm_windows := w # remove1 w (wm_windows m)\<rparr>)))))) (\<lambda>m'. focus_win m' = Some w)"
    by (rule goes_bind [OF first], rule goes_bind [OF post_goes], assumption, simp add: kept_windows m(2),
        rule rest, assumption, simp add: kept_windows m(2))
  then show ?thesis using m False by (simp add: focus_with_def is_valid_def)
qed

lemma last_visible_cases:
  assumes "base m" "set xs \<subseteq> set (wm_windows m)"
  shows "\<exists>r'. last_visible m w xs r = ok r' \<and> (r' = r \<or> (\<exists>n \<in> set xs. n \<noteq> w \<and> r' = Some n))"
  using assms(2)
proof (induction xs arbitrary: r)
  case (Cons x xs)
  obtain y where "window_at m x = ok y" using Cons.prems by (auto intro: window_okD [OF assms(1), of x])
  then show ?case using Cons.IH [of r] Cons.IH [of "if visible y then Some x else r"] Cons.prems by (auto split: if_splits)
qed simp

lemma unfocus_with_goes:
  assumes m: "base m" "w \<in> set (wm_windows m)"
    and f: "\<And>m n. base m \<Longrightarrow> n \<in> set (wm_windows m) \<Longrightarrow> focus_win m = None \<Longrightarrow> goes m (focus n m) (\<lambda>m'. focus_win m' = Some n)"
  shows "goes m (unfocus_with focus w m) (\<lambda>m'. focus_win m' \<noteq> Some w \<or> focus_win m \<noteq> Some w)"
proof (cases "focus_win m = Some w")
  case False
  then show ?thesis using m by (simp add: unfocus_with_def is_valid_def goes_ok)
next
  case True
  have last: "goes m2 (bindE (last_visible m2 w (wm_windows m2) None) (\<lambda>new_focus_window.
            let m = m2\<lparr>focus_win := None\<rparr> in case new_focus_window of None \<Rightarrow> ok m | Some n \<Rightarrow> focus n m)) (\<lambda>m'. focus_win m' \<noteq> Some w)"
    if m2: "base m2" for m2
  proof -
    have b: "base (m2\<lparr>focus_win := None\<rparr>)" using set_focus_base(1) [OF m2, of None] by simp
    obtain r where r: "last_visible m2 w (wm_windows m2) None = ok r" "r = None \<or> (\<exists>n \<in> set (wm_windows m2). n \<noteq> w \<and> r = Some n)"
      using last_visible_cases [OF m2, of "wm_windows m2" w None] by auto
    have "goes (m2\<lparr>focus_win := None\<rparr>) (case r of None \<Rightarrow> ok (m2\<lparr>focus_win := None\<rparr>) | Some n \<Rightarrow> focus n (m2\<lparr>focus_win := None\<rparr>))
        (\<lambda>m'. focus_win m' \<noteq> Some w)"
      using r(2) b by (auto intro!: goes_ok goes_mono [OF f [OF b]])
    then show ?thesis using goes_step [OF b set_focus_base(2)] r(1) by (simp add: Let_def)
  qed
  have "goes m (bindE (change_window w (\<lambda>window. window\<lparr>focused := False\<rparr>) m) (\<lambda>m.
          bindE (post w (message SYS_MSG_FOCUS_OUT 0 0) m) (\<lambda>m.
          bindE (last_visible m w (wm_windows m) None) (\<lambda>new_focus_window.
            let m = m\<lparr>focus_win := None\<rparr> in
            case new_focus_window of None \<Rightarrow> ok m | Some n \<Rightarrow> focus n m)))) (\<lambda>m'. focus_win m' \<noteq> Some w)"
    by (rule goes_bind [OF change_goes [OF m]], simp, rule goes_bind [OF post_goes], assumption, simp add: kept_windows m(2), rule last)
  then show ?thesis using m True by (simp add: unfocus_with_def is_valid_def goes_mono)
qed

lemma focus_calls_none:
  "base m \<Longrightarrow> w \<in> set (wm_windows m) \<Longrightarrow> focus_win m = None \<Longrightarrow> goes m (focus_calls (Suc n) w m) (\<lambda>m'. focus_win m' = Some w)"
  using focus_with_goes [of m w] by simp

lemma focus_window_goes: "base m \<Longrightarrow> w \<in> set (wm_windows m) \<Longrightarrow> goes m (focus_window w m) (\<lambda>m'. focus_win m' = Some w)"
proof -
  assume m: "base m" "w \<in> set (wm_windows m)"
  have "goes m (unfocus_with (focus_calls (Suc 0)) f m) (\<lambda>m'. True)" if "focus_win m = Some f" for f
  proof -
    have f: "f \<in> set (wm_windows m)" using m(1) that by (simp add: base_def)
    have "goes m (unfocus_with (focus_calls (Suc 0)) f m) (\<lambda>m'. focus_win m' \<noteq> Some f \<or> focus_win m \<noteq> Some f)"
      by (rule unfocus_with_goes [OF m(1) f]) (rule focus_calls_none)
    then show ?thesis by (rule goes_mono) simp
  qed
  then show ?thesis unfolding focus_window_def numeral_2_eq_2 focus_calls.simps(2) [of "Suc 0"] by (intro focus_with_goes [OF m])
qed

lemma unfocus_window_goes:
  "base m \<Longrightarrow> w \<in> set (wm_windows m) \<Longrightarrow> goes m (unfocus_window w m) (\<lambda>m'. focus_win m' \<noteq> Some w \<or> focus_win m \<noteq> Some w)"
  unfolding unfocus_window_def by (rule unfocus_with_goes) (auto intro: focus_window_goes)

text \<open>Deeper nesting than two levels never happens.\<close>

lemma focus_with_none: "focus_win m = None \<Longrightarrow> focus_with u w m = focus_with u' w m"
  by (simp add: focus_with_def)

lemma focus_calls_enough: "focus_calls (Suc (Suc n)) w m = focus_window w m"
proof -
  have "focus_calls (Suc n) x y = focus_calls (Suc 0) x y" if "focus_win y = None" for x y
    unfolding focus_calls.simps by (rule focus_with_none [OF that])
  then have c: "(case r of None \<Rightarrow> ok (y\<lparr>focus_win := None\<rparr>) | Some x \<Rightarrow> focus_calls (Suc n) x (y\<lparr>focus_win := None\<rparr>))
      = (case r of None \<Rightarrow> ok (y\<lparr>focus_win := None\<rparr>) | Some x \<Rightarrow> focus_calls (Suc 0) x (y\<lparr>focus_win := None\<rparr>))" for r y
    by (cases r) (simp_all del: focus_calls.simps)
  have "unfocus_with (focus_calls (Suc n)) = unfocus_with (focus_calls (Suc 0))"
    unfolding unfocus_with_def [abs_def] Let_def c ..
  then show ?thesis by (simp add: focus_window_def numeral_2_eq_2)
qed

subsection \<open>Switching the focus\<close>

lemma rotate_windows:
  assumes "distinct ws" "old \<in> set ws" "new \<in> set ws" "old \<noteq> new"
  shows "set (remove1 old (new # remove1 new ws) @ [old]) = set ws" "length (remove1 old (new # remove1 new ws) @ [old]) = length ws"
proof -
  have "old \<in> set (remove1 new ws)" using assms by simp
  then have "0 < length (remove1 new ws)" by (rule length_pos_if_in_set)
  then show "length (remove1 old (new # remove1 new ws) @ [old]) = length ws"
    using assms by (simp add: length_remove1)
  show "set (remove1 old (new # remove1 new ws) @ [old]) = set ws" using assms by (auto simp: set_remove1_eq distinct_remove1)
qed

lemma switch_focus_goes:
  assumes m: "base m"
  shows "goes m (switch_focus m) (\<lambda>m'. True)"
proof (cases "wm_windows m")
  case Nil
  then show ?thesis using m by (simp add: switch_focus_def goes_ok)
next
  case (Cons first ws)
  show ?thesis
  proof (cases "focus_win m")
    case None
    then show ?thesis using goes_mono [OF focus_window_goes [OF m, of first]] Cons by (simp add: switch_focus_def)
  next
    case (Some old)
    have old: "old \<in> set (wm_windows m)" using m Some by (simp add: base_def)
    then obtain pre post' where split: "wm_windows m = pre @ old # post'" "old \<notin> set pre" by (metis split_list_first)
    then have dw: "dropWhile (\<lambda>w. w \<noteq> old) (wm_windows m) = old # post'" by (simp add: dropWhile_append)
    define new where "new = (case post' of [] \<Rightarrow> first | n # _ \<Rightarrow> n)"
    have first: "first \<in> set (wm_windows m)" by (simp add: Cons)
    have "set post' \<subseteq> set (wm_windows m)" by (auto simp: split(1))
    then have new: "new \<in> set (wm_windows m)" using first by (cases post') (simp_all add: new_def)
    let ?ws = "\<lambda>m. remove1 old (new # remove1 new (wm_windows m)) @ [old]"
    have shift: "goes m2 (update_window new (m2\<lparr>wm_windows := ?ws m2\<rparr>)) (\<lambda>m'. True)" if m2: "base m2" "kept m m2" and ne: "old \<noteq> new" for m2
    proof -
      have w2: "old \<in> set (wm_windows m2)" "new \<in> set (wm_windows m2)" "distinct (wm_windows m2)"
        using m2 old new by (simp_all add: kept_windows) (simp add: base_def)
      note ws = rotate_windows [OF w2(3,1,2) ne]
      have "goes (m2\<lparr>wm_windows := ?ws m2\<rparr>) (update_window new (m2\<lparr>wm_windows := ?ws m2\<rparr>)) (\<lambda>m'. True)"
        using goes_mono [OF update_window_goes [OF reorder_base(1) [OF m2(1) ws], of new]] w2 ws(1) by simp
      then show ?thesis by (rule goes_step [OF reorder_base [OF m2(1) ws]])
    qed
    have focus: "base (m2\<lparr>focus_win := Some new\<rparr>)" if "base m2" "kept m m2" for m2
      using set_focus_base(1) [OF that(1), of "Some new"] new kept_windows [OF that(2)] by simp
    show ?thesis
    proof (cases "old = new")
      case True
      then show ?thesis using m Cons Some dw by (simp add: switch_focus_def new_def goes_ok split: list.splits)
    next
      case False
      have "goes m (bindE (change_window old (\<lambda>window. window\<lparr>focused := False\<rparr>) m) (\<lambda>m.
                      bindE (post old (message SYS_MSG_FOCUS_OUT 0 0) m) (\<lambda>m.
                      bindE (post new (message SYS_MSG_FOCUS_IN 0 0) m) (\<lambda>m.
                      bindE (change_window new (\<lambda>window. window\<lparr>focused := True\<rparr>) (m\<lparr>focus_win := Some new\<rparr>)) (\<lambda>m.
                        update_window new (m\<lparr>wm_windows := ?ws m\<rparr>)))))) (\<lambda>m'. True)"
      proof (rule goes_bind [OF change_goes [OF m old]], simp, rule goes_bind [OF post_goes], assumption, simp add: kept_windows old,
          rule goes_bind [OF post_goes], assumption, simp add: kept_windows new)
        fix m1 m2 m3
        assume k: "kept m m1" "kept m1 m2" "kept m2 m3" and b: "base m3"
        have k3: "kept m m3" using k kept_trans by blast
        show "goes m3 (bindE (change_window new (\<lambda>window. window\<lparr>focused := True\<rparr>) (m3\<lparr>focus_win := Some new\<rparr>)) (\<lambda>m.
                        update_window new (m\<lparr>wm_windows := ?ws m\<rparr>))) (\<lambda>m'. True)"
        proof (rule goes_step [OF focus [OF b k3] set_focus_base(2)], rule goes_bind [OF change_goes [OF focus [OF b k3]]])
          show "new \<in> set (wm_windows (m3\<lparr>focus_win := Some new\<rparr>))" using new kept_windows [OF k3] by simp
          fix m4
          assume "base m4" "kept (m3\<lparr>focus_win := Some new\<rparr>) m4"
          then show "goes m4 (update_window new (m4\<lparr>wm_windows := ?ws m4\<rparr>)) (\<lambda>m'. True)"
            using k3 set_focus_base(2) False kept_trans by (intro shift) blast+
        qed simp
      qed
      then show ?thesis using False Cons Some dw by (simp add: switch_focus_def Let_def new_def split: list.splits)
    qed
  qed
qed

subsection \<open>Geometry and visibility\<close>

text \<open>An operation that keeps the whole invariant.\<close>

definition safe :: "window_manager outcome \<Rightarrow> (window_manager \<Rightarrow> bool) \<Rightarrow> bool" where
  "safe r P \<longleftrightarrow> (\<exists>m'. r = ok m' \<and> wm_inv m' \<and> P m')"

lemma goes_safe: "goes m r P \<Longrightarrow> wm_inv m \<Longrightarrow> safe r (\<lambda>m'. kept m m' \<and> P m')"
  using kept_registered by (fastforce simp: goes_def safe_def wm_inv_def)

lemma safe_bind: "safe r P \<Longrightarrow> (\<And>m'. wm_inv m' \<Longrightarrow> P m' \<Longrightarrow> safe (k m') Q) \<Longrightarrow> safe (bindE r k) Q"
  unfolding safe_def by (metis bindE.simps(2))

lemma safe_ok: "wm_inv m \<Longrightarrow> P m \<Longrightarrow> safe (ok m) P"
  by (simp add: safe_def)

lemma safe_mono: "safe r P \<Longrightarrow> (\<And>m'. wm_inv m' \<Longrightarrow> P m' \<Longrightarrow> Q m') \<Longrightarrow> safe r Q"
  unfolding safe_def by blast

lemma replace_window:
  assumes m: "wm_inv m" "w \<in> set (wm_windows m)" "win m w = Some x"
    and x': "win_task x' = win_task x" "win_queue x' = win_queue x" "on_screen (geometry x')" "visible x' \<longrightarrow> framebuffer x' \<noteq> None"
  shows "wm_inv (set_window w x' m)"
proof -
  have "window_ok (set_window w x' m) u" if "u \<in> set (wm_windows m)" for u
    using m x' that by (cases "u = w") (auto simp: wm_inv_def base_def window_ok_def set_window_def queue_ok_def)
  moreover have "\<exists>y. win (set_window w x' m) u = Some y \<and> u \<in> set (owned (tm m) ! win_task y)" if "u \<in> set (wm_windows m)" for u
    using m x'(1) that by (cases "u = w") (auto simp: wm_inv_def registered_def set_window_def)
  moreover have "task_of (set_window w x' m) = task_of m" using m(3) x'(1) by (simp add: task_of_def set_window_def fun_eq_iff)
  ultimately show ?thesis using m(1) unfolding wm_inv_def base_def registered_def by (simp add: set_window_def screen_ok_def)
qed

lemma union_on_screen: "on_screen r \<Longrightarrow> on_screen s \<Longrightarrow> on_screen (union_with r s)"
proof -
  assume r: "on_screen r" and s: "on_screen s"
  then have b: "0 \<le> rx1 r" "0 \<le> rx1 s" "0 \<le> ry1 r" "0 \<le> ry1 s" "rx1 r \<le> rx2 r" "rx1 s \<le> rx2 s" "ry1 r \<le> ry2 r" "ry1 s \<le> ry2 s"
    and o: "rect_ok (union_with r s)" using union_contains(2) by (auto simp: on_screen_def rect_ok_def)
  have "make_rect (min (rx1 r) (rx1 s)) (min (ry1 r) (ry1 s)) (max (rx2 r) (rx2 s)) (max (ry2 r) (ry2 s))
      = \<lparr>rx1 = min (rx1 r) (rx1 s), ry1 = min (ry1 r) (ry1 s), rx2 = max (rx2 r) (rx2 s), ry2 = max (ry2 r) (ry2 s)\<rparr>"
    using b by (intro make_rect_id) auto
  then have "0 \<le> rx1 (union_with r s) \<and> 0 \<le> ry1 (union_with r s)" using b by (simp add: union_with_def)
  then show ?thesis using o by (simp add: on_screen_def)
qed

lemma i32_diff: "i32 (i32 a - b) = i32 (a - b)"
proof -
  have eq: "i32 x = i32 y \<longleftrightarrow> x mod 2 ^ 32 = y mod 2 ^ 32" for x y
    unfolding i32_def signed_take_bit_eq_iff_take_bit_eq by (simp add: take_bit_eq_mod)
  have "i32 a mod 2 ^ 32 = a mod 2 ^ 32" using eq [of "i32 a" a] by (simp add: i32_def)
  then show ?thesis unfolding eq by (metis mod_diff_left_eq)
qed

text \<open>Whatever rectangle is asked for, the window gets a size in its limits and lies on the screen.\<close>

lemma constrain_bounds:
  assumes "screen_ok m"
  shows "0 \<le> rx1 (constrain m r)" "rx2 (constrain m r) \<le> screen_width m" "0 \<le> ry1 (constrain m r)" "ry2 (constrain m r) \<le> screen_height m"
    "rx2 (constrain m r) = rx1 (constrain m r) + clamp_int (width r) MIN_WIDTH (min MAX_WIDTH (screen_width m))"
    "ry2 (constrain m r) = ry1 (constrain m r) + clamp_int (height r) MIN_HEIGHT (min MAX_HEIGHT (screen_height m))"
proof -
  define w h where "w = clamp_int (width r) MIN_WIDTH (min MAX_WIDTH (screen_width m))"
    and "h = clamp_int (height r) MIN_HEIGHT (min MAX_HEIGHT (screen_height m))"
  have b: "25 \<le> screen_width m" "screen_width m < 2 ^ 15" "25 \<le> screen_height m" "screen_height m < 2 ^ 15"
    using assms by (simp_all add: screen_ok_def MIN_WIDTH_def MIN_HEIGHT_def)
  have wh: "25 \<le> w" "w \<le> screen_width m" "25 \<le> h" "h \<le> screen_height m"
    using b by (auto simp: w_def h_def clamp_int_def MIN_WIDTH_def MIN_HEIGHT_def MAX_WIDTH_def MAX_HEIGHT_def)
  then have small: "w < 2 ^ 15" "h < 2 ^ 15" using b by linarith+
  have id: "i32 w = w" "uint32 w = w" "i32 h = h" "uint32 h = h" using wh small by simp_all
  define r1 where "r1 = set_width (uint32 w) r"
  define r2 where "r2 = set_height (uint32 h) r1"
  have r2: "rx1 r2 = rx1 r" "ry1 r2 = ry1 r" "height r1 = height r" by (simp_all add: r1_def r2_def set_width_def set_height_def height_def)
  have sz: "width r2 = w" "height r2 = h" by (simp_all add: r1_def r2_def set_width_def set_height_def width_def height_def id i32_diff)
  define x y where "x = clamp_int (rx1 r) 0 (screen_width m - w)" and "y = clamp_int (ry1 r) 0 (screen_height m - h)"
  have xy: "0 \<le> x" "x + w \<le> screen_width m" "0 \<le> y" "y + h \<le> screen_height m" using wh by (auto simp: x_def y_def clamp_int_def)
  have d: "i32 (screen_width m - w) = screen_width m - w" "i32 (screen_height m - h) = screen_height m - h" using wh b by simp_all
  have sz3: "height (r2\<lparr>rx1 := u\<rparr>) = h" "ry1 (r2\<lparr>rx1 := u\<rparr>) = ry1 r" for u using sz(2) r2(2) by (simp_all add: height_def)
  have e: "i32 (x + w) = x + w" "i32 (y + h) = y + h" using xy wh b by simp_all
  have "constrain m r = r2\<lparr>rx1 := x, ry1 := y, rx2 := x + w, ry2 := y + h\<rparr>"
    unfolding constrain_def Let_def w_def [symmetric] r1_def [symmetric]
    unfolding r2(3) h_def [symmetric] r2_def [symmetric]
    unfolding sz r2(1) id d x_def [symmetric] sz3 y_def [symmetric]
    by (simp add: e)
  then show "0 \<le> rx1 (constrain m r)" "rx2 (constrain m r) \<le> screen_width m" "0 \<le> ry1 (constrain m r)" "ry2 (constrain m r) \<le> screen_height m"
    "rx2 (constrain m r) = rx1 (constrain m r) + clamp_int (width r) MIN_WIDTH (min MAX_WIDTH (screen_width m))"
    "ry2 (constrain m r) = ry1 (constrain m r) + clamp_int (height r) MIN_HEIGHT (min MAX_HEIGHT (screen_height m))"
    using xy by (simp_all add: w_def h_def)
qed

lemma constrain_on_screen: "screen_ok m \<Longrightarrow> on_screen (constrain m r)"
  using constrain_bounds [of m r] by (auto simp: on_screen_def rect_ok_def screen_ok_def clamp_int_def MIN_WIDTH_def MIN_HEIGHT_def MAX_WIDTH_def
      MAX_HEIGHT_def le_max_iff_disj)

lemma set_window_geometry_safe:
  assumes m: "wm_inv m" "w \<in> set (wm_windows m)"
  shows "safe (set_window_geometry w r m) (\<lambda>m'. wm_windows m' = wm_windows m \<and> focus_win m' = focus_win m
    \<and> (\<exists>x. win m' w = Some x \<and> geometry x = constrain m r) \<and> screen_width m' = screen_width m \<and> screen_height m' = screen_height m)"
proof -
  have b: "base m" "screen_ok m" using m(1) by (simp_all add: wm_inv_def base_def)
  obtain x where x: "win m w = Some x" "window_at m w = ok x" "on_screen (geometry x)" "visible x \<longrightarrow> framebuffer x \<noteq> None"
    by (rule window_okD [OF b(1) m(2)])
  define x' where "x' = set_geometry (constrain m r) x"
  define m1 where "m1 = set_window w x' m"
  note c = constrain_on_screen [OF b(2), of r]
  have x': "win_task x' = win_task x" "win_queue x' = win_queue x" "geometry x' = constrain m r" "visible x' \<longrightarrow> framebuffer x' \<noteq> None"
    using x(4) by (auto simp: x'_def set_geometry_def reallocate_framebuffer_def Let_def)
  then have inv1: "wm_inv m1" using replace_window [OF m x(1), of x'] c by (simp add: m1_def)
  let ?P = "\<lambda>m'. wm_windows m' = wm_windows m \<and> focus_win m' = focus_win m \<and> kept m1 m'"
  have posted: "safe (if b then post w msg m' else ok m') ?P" if "wm_inv m'" "?P m'" for b msg m'
  proof (cases b)
    case True
    have "goes m' (post w msg m') (\<lambda>m''. focus_win m'' = focus_win m' \<and> wm_windows m'' = wm_windows m')"
      using that m(2) by (intro post_goes) (auto simp: wm_inv_def)
    from goes_safe [OF this that(1)] show ?thesis
      unfolding if_P [OF True] by (rule safe_mono) (use that(2) kept_trans in auto)
  qed (use that in \<open>simp add: safe_ok\<close>)
  have P1: "?P m1" by (simp add: m1_def set_window_def)
  have upd: "safe (if b then update_rect (union_with (geometry x) (constrain m r)) m' else ok m') ?P" if "wm_inv m'" "?P m'" for b m'
  proof (cases b)
    case True
    have "base m'" using that(1) by (simp add: wm_inv_def)
    then have "goes m' (update_rect (union_with (geometry x) (constrain m r)) m')
        (\<lambda>m''. focus_win m'' = focus_win m' \<and> wm_windows m'' = wm_windows m' \<and> win m'' = win m' \<and> tm m'' = tm m')"
      by (rule update_goes) (rule union_on_screen [OF x(3) c])
    from goes_safe [OF this that(1)] show ?thesis
      unfolding if_P [OF True] by (rule safe_mono) (use that(2) kept_trans in auto)
  qed (use that in \<open>simp add: safe_ok\<close>)
  have s: "safe (set_window_geometry w r m) ?P"
    using m(2) unfolding set_window_geometry_def Let_def is_valid_def x(2) bindE.simps x'_def [symmetric] m1_def [symmetric]
    by (simp only: kassert_True)
      (rule safe_bind [OF posted [OF inv1 P1]], rule safe_bind [OF posted], assumption+, rule upd, assumption+)
  show ?thesis
  proof (rule safe_mono [OF s])
    fix m'
    assume p: "?P m'"
    then have "view m' w = view m1 w" by (simp add: kept_def)
    then have "\<exists>y. win m' w = Some y \<and> geometry y = constrain m r" using x'(3) by (auto simp: view_def m1_def set_window_def)
    then show "wm_windows m' = wm_windows m \<and> focus_win m' = focus_win m \<and> (\<exists>y. win m' w = Some y \<and> geometry y = constrain m r)
        \<and> screen_width m' = screen_width m \<and> screen_height m' = screen_height m"
      using p by (auto simp: kept_def m1_def set_window_def)
  qed
qed

lemma last_position_inv: "wm_inv m \<Longrightarrow> wm_inv (m\<lparr>last_window_x := x\<rparr>)" "wm_inv m \<Longrightarrow> wm_inv (m\<lparr>last_window_y := x\<rparr>)"
  by (auto simp: wm_inv_def base_def registered_def window_ok_def queue_ok_def screen_ok_def)

lemma place_window_safe:
  assumes "wm_inv m" "w \<in> set (wm_windows m)"
  shows "safe (place_window w x y wd ht m) (\<lambda>_. True)"
proof -
  have "safe (set_window_geometry w r m') (\<lambda>_. True)" if "wm_inv m'" "wm_windows m' = wm_windows m" for r m'
    by (rule safe_mono [OF set_window_geometry_safe [OF that(1)]]) (use assms(2) that(2) in simp_all)
  then show ?thesis using assms last_position_inv by (simp add: place_window_def is_valid_def split: prod.splits if_splits)
qed

lemma set_visibility_safe:
  assumes m: "wm_inv m" "w \<in> set (wm_windows m)" and fb: "\<And>x. win m w = Some x \<Longrightarrow> shows \<Longrightarrow> framebuffer x \<noteq> None"
  shows "safe (set_window_visibility w shows m) (\<lambda>_. True)"
proof -
  have b: "base m" using m(1) by (simp add: wm_inv_def)
  obtain x where x: "win m w = Some x" "window_at m w = ok x" "on_screen (geometry x)" by (rule window_okD [OF b m(2)])
  show ?thesis
  proof (cases "visible x = shows")
    case True
    then show ?thesis using m x(2) by (simp add: set_window_visibility_def is_valid_def safe_ok)
  next
    case False
    define m1 where "m1 = set_window w (x\<lparr>visible := shows\<rparr>) m"
    have i1: "wm_inv m1" unfolding m1_def by (rule replace_window [OF m x(1)]) (use x(3) fb [OF x(1)] in simp_all)
    have w1: "w \<in> set (wm_windows m1)" using m(2) by (simp add: m1_def set_window_def)
    have b1: "base m1" using i1 by (simp add: wm_inv_def)
    have first: "\<exists>m' u. (if shows then (if focus_win m1 = None then bindE (focus_window w m1) (\<lambda>m. ok (True, m)) else ok (False, m1))
        else (if focus_win m1 = Some w then bindE (unfocus_window w m1) (\<lambda>m. ok (True, m)) else ok (False, m1))) = ok (u, m')
        \<and> wm_inv m' \<and> w \<in> set (wm_windows m')"
      using goes_safe [OF focus_window_goes [OF b1 w1] i1] goes_safe [OF unfocus_window_goes [OF b1 w1] i1] i1 w1
      by (auto simp: safe_def kept_windows)
    then obtain m2 u where m2: "(if shows then (if focus_win m1 = None then bindE (focus_window w m1) (\<lambda>m. ok (True, m)) else ok (False, m1))
        else (if focus_win m1 = Some w then bindE (unfocus_window w m1) (\<lambda>m. ok (True, m)) else ok (False, m1))) = ok (u, m2)"
        "wm_inv m2" "w \<in> set (wm_windows m2)" by blast
    have "safe (post w (message (if shows then SYS_MSG_SHOW else SYS_MSG_HIDE) 0 0) m2) (\<lambda>m'. kept m2 m' \<and> focus_win m' = focus_win m2 \<and> wm_windows m' = wm_windows m2)"
      by (rule goes_safe [OF post_goes [OF _ m2(3)] m2(2)]) (use m2(2) in \<open>simp add: wm_inv_def\<close>)
    then have "safe (bindE (post w (message (if shows then SYS_MSG_SHOW else SYS_MSG_HIDE) 0 0) m2) (\<lambda>m.
           if \<not> u \<and> shows then update_window w m else ok m)) (\<lambda>_. True)"
    proof (rule safe_bind)
      fix m3
      assume m3: "wm_inv m3" "kept m2 m3 \<and> focus_win m3 = focus_win m2 \<and> wm_windows m3 = wm_windows m2"
      have "safe (update_window w m3) (\<lambda>_. True)"
        using goes_safe [OF update_window_goes [of m3 w] m3(1)] m3 m2(3) by (auto simp: wm_inv_def elim: safe_mono)
      then show "safe (if \<not> u \<and> shows then update_window w m3 else ok m3) (\<lambda>_. True)" using m3(1) by (simp add: safe_ok)
    qed
    then show ?thesis
      using False m(2) unfolding set_window_visibility_def is_valid_def x(2) bindE.simps Let_def m1_def [symmetric]
      by (simp add: m2(1))
  qed
qed

lemma present_window_safe: "wm_inv m \<Longrightarrow> w \<in> set (wm_windows m) \<Longrightarrow> safe (present_window w m) (\<lambda>_. True)"
  using goes_safe [OF update_window_goes [of m w], of] by (auto simp: wm_inv_def present_window_def is_valid_def elim: safe_mono)

lemma mosaic_loop_safe:
  "wm_inv m \<Longrightarrow> set ws \<subseteq> set (wm_windows m) \<Longrightarrow> safe (mosaic_loop ws wd ht columns current i j m) (\<lambda>_. True)"
proof (induction ws arbitrary: current i j m)
  case (Cons w ws)
  have w: "w \<in> set (wm_windows m)" using Cons.prems(2) by simp
  show ?case
    unfolding mosaic_loop.simps Let_def
  proof (rule safe_bind [OF set_window_geometry_safe [OF Cons.prems(1) w]])
    fix m'
    assume "wm_inv m'" and "wm_windows m' = wm_windows m \<and> focus_win m' = focus_win m
      \<and> (\<exists>x. win m' w = Some x \<and> geometry x = constrain m (from_pos_and_size (i32 (i * wd)) (i32 (j * ht))
          (if current + 1 = window_count m then i32 ((columns - i) * wd) else wd) ht))
      \<and> screen_width m' = screen_width m \<and> screen_height m' = screen_height m"
    then show "safe (if columns \<le> i + 1 then mosaic_loop ws wd ht columns (current + 1) 0 (j + 1) m'
        else mosaic_loop ws wd ht columns (current + 1) (i + 1) j m') (\<lambda>_. True)"
      using Cons.IH Cons.prems(2) by simp
  qed
qed (simp add: safe_ok)

lemma mosaic_layout_safe: "wm_inv m \<Longrightarrow> safe (mosaic_layout m) (\<lambda>_. True)"
  using mosaic_loop_safe [of m "wm_windows m"] by (simp add: mosaic_layout_def Let_def safe_ok)

lemma focus_geometry_safe:
  assumes m: "wm_inv m"
  shows "safe (move_focus_window dx dy m) (\<lambda>_. True)" "safe (resize_focus_window dx dy m) (\<lambda>_. True)"
    "safe (case focus_win m of None \<Rightarrow> ok m | Some w \<Rightarrow> set_window_geometry w r m) (\<lambda>_. True)"
    "safe (case focus_win m of None \<Rightarrow> ok m | Some w \<Rightarrow> post w msg m) (\<lambda>_. True)"
proof -
  have b: "base m" using m by (simp add: wm_inv_def)
  have w: "w \<in> set (wm_windows m)" if "focus_win m = Some w" for w using b that by (simp add: base_def)
  have g: "safe (set_window_geometry w r m) (\<lambda>_. True)" if "focus_win m = Some w" for w r
    by (rule safe_mono [OF set_window_geometry_safe [OF m w [OF that]]]) simp
  have at: "\<exists>x. window_at m w = ok x" if "focus_win m = Some w" for w by (rule window_okD [OF b w [OF that]]) blast
  show "safe (move_focus_window dx dy m) (\<lambda>_. True)"
    using g at m by (cases "focus_win m") (fastforce simp: move_focus_window_def Let_def safe_ok)+
  show "safe (resize_focus_window dx dy m) (\<lambda>_. True)"
    using g at m by (cases "focus_win m") (fastforce simp: resize_focus_window_def Let_def safe_ok)+
  show "safe (case focus_win m of None \<Rightarrow> ok m | Some w \<Rightarrow> set_window_geometry w r m) (\<lambda>_. True)"
    using g m by (cases "focus_win m") (simp_all add: safe_ok)
  have p: "safe (post w msg m) (\<lambda>_. True)" if "focus_win m = Some w" for w
    using goes_safe [OF post_goes [OF b w [OF that]] m] by (rule safe_mono) simp
  show "safe (case focus_win m of None \<Rightarrow> ok m | Some w \<Rightarrow> post w msg m) (\<lambda>_. True)"
    using p m by (cases "focus_win m") (simp_all add: safe_ok)
qed

lemma cursor_inv:
  "wm_inv m \<Longrightarrow> 0 \<le> x \<Longrightarrow> x \<le> screen_width m \<Longrightarrow> 0 \<le> y \<Longrightarrow> y \<le> screen_height m \<Longrightarrow> wm_inv (m\<lparr>cursor_x := x, cursor_y := y\<rparr>)"
  by (auto simp: wm_inv_def base_def registered_def window_ok_def queue_ok_def screen_ok_def)

lemma cursor_rect_on_screen:
  assumes "screen_ok m" "0 \<le> x" "x \<le> screen_width m" "0 \<le> y" "y \<le> screen_height m"
  shows "on_screen (clip_rect_to_screen m (from_pos_and_size x y CURSOR_WIDTH CURSOR_HEIGHT))"
proof -
  have "from_pos_and_size x y CURSOR_WIDTH CURSOR_HEIGHT = \<lparr>rx1 = x, ry1 = y, rx2 = x + 9, ry2 = y + 16\<rparr>"
    using assms by (simp add: from_pos_and_size_def CURSOR_WIDTH_def CURSOR_HEIGHT_def screen_ok_def make_rect_id)
  then show ?thesis using assms by (auto simp: clip_rect_to_screen_def on_screen_def rect_ok_def screen_ok_def)
qed

lemma mouse_move_safe:
  assumes m: "wm_inv m"
  shows "\<exists>m'. handle_mouse_move_event dx dy m = ok (False, m') \<and> wm_inv m'"
proof -
  define m1 where "m1 = m\<lparr>cursor_x := clamp_int (i32 (cursor_x m + dx)) 0 (screen_width m), cursor_y := clamp_int (i32 (cursor_y m + dy)) 0 (screen_height m)\<rparr>"
  have s: "screen_ok m" using m by (simp add: wm_inv_def base_def)
  then have i1: "wm_inv m1" unfolding m1_def by (intro cursor_inv [OF m]) (auto simp: clamp_int_def screen_ok_def MIN_WIDTH_def MIN_HEIGHT_def)
  have "on_screen (clip_rect_to_screen m (from_pos_and_size (cursor_x m) (cursor_y m) CURSOR_WIDTH CURSOR_HEIGHT))"
    using s by (intro cursor_rect_on_screen) (auto simp: screen_ok_def)
  moreover have "clip_rect_to_screen m1 = clip_rect_to_screen m" by (simp add: m1_def clip_rect_to_screen_def fun_eq_iff)
  ultimately have os: "on_screen (clip_rect_to_screen m1 (from_pos_and_size (cursor_x m) (cursor_y m) CURSOR_WIDTH CURSOR_HEIGHT))" by simp
  have b1: "base m1" using i1 by (simp add: wm_inv_def)
  have "safe (update_rect (clip_rect_to_screen m1 (from_pos_and_size (cursor_x m) (cursor_y m) CURSOR_WIDTH CURSOR_HEIGHT)) m1) (\<lambda>_. True)"
    by (rule safe_mono [OF goes_safe [OF update_goes [OF b1 os] i1]]) simp
  then show ?thesis using i1 unfolding handle_mouse_move_event_def Let_def m1_def [symmetric] by (auto simp: safe_def)
qed

lemma window_under_cases:
  assumes "base m" "set ws \<subseteq> set (wm_windows m)"
  shows "\<exists>r. window_under m ws = ok r \<and> (\<forall>w. r = Some w \<longrightarrow> w \<in> set ws)"
  using assms(2)
proof (induction ws)
  case (Cons w ws)
  obtain x where "window_at m w = ok x" using Cons.prems by (auto intro: window_okD [OF assms(1), of w])
  then show ?case using Cons by auto
qed simp

lemma mouse_click_safe:
  assumes m: "wm_inv m"
  shows "\<exists>b m'. handle_mouse_click_event button is_pressed m = ok (b, m') \<and> wm_inv m'"
proof -
  have b: "base m" using m by (simp add: wm_inv_def)
  obtain r where r: "window_under m (wm_windows m) = ok r" "\<And>w. r = Some w \<Longrightarrow> w \<in> set (wm_windows m)"
    using window_under_cases [OF b subset_refl] by blast
  show ?thesis
  proof (cases r)
    case None
    then show ?thesis using m r(1) by (auto simp: handle_mouse_click_event_def)
  next
    case (Some w)
    then show ?thesis using goes_safe [OF focus_window_goes [OF b r(2) [OF Some]] m] r(1) m
      by (auto simp: handle_mouse_click_event_def safe_def)
  qed
qed

end
