(* ===== verification/Window_Safety.thy ===== *)
theory Window_Safety
  imports Window_Inv
begin

text \<open>
  The operations of the window manager that create and destroy windows and dispatch events keep its invariant, and with them
  every operation, as long as windows are shown only when they have a frame buffer: then no sequence of calls makes the window
  manager panic, dereference a window that is gone or recurse without end. \<open>Window_Faults\<close> does without that condition.
\<close>

subsection \<open>Creating windows\<close>

lemma owned_set_windows:
  "p < length (tasks s) \<Longrightarrow> owned (set_task s p (\<lambda>_. (tasks s ! p)\<lparr>m_windows := ws\<rparr>)) = (owned s)[p := ws]"
  by (simp add: owned_def set_task_def map_update)

lemma set_task_windows_inv: "tm_inv s \<Longrightarrow> tm_inv (set_task s p (\<lambda>_. (tasks s ! p)\<lparr>m_windows := ws\<rparr>))"
proof -
  assume "tm_inv s"
  moreover have "set_task s p (\<lambda>_. (tasks s ! p)\<lparr>m_windows := ws\<rparr>) = set_task s p (\<lambda>t. t\<lparr>m_windows := ws\<rparr>)" by (simp add: set_task_def)
  ultimately show ?thesis by (simp add: set_windows_inv)
qed

lemma create_window_safe:
  assumes m: "wm_inv m" and new: "w \<notin> set (wm_windows m)" and t: "t < length (tasks (tm m))"
    and g: "on_screen g" "length garbage = MAX_PENDING_MESSAGES"
  shows "\<exists>r m'. create_window t flags w g fb garbage m = ok (r, m') \<and> wm_inv m'
    \<and> (if is_supported m then r = Some w \<and> focus_win m' = Some w \<and> set (wm_windows m') = insert w (set (wm_windows m))
        \<and> owned (tm m') = (owned (tm m))[t := owned (tm m) ! t @ [w]] \<and> view m' w = Some (t, g, False, fb) \<and> is_supported m'
      else r = None \<and> m' = m)
    \<and> screen_width m' = screen_width m \<and> screen_height m' = screen_height m"
proof (cases "is_supported m")
  case False
  then show ?thesis using m by (simp add: create_window_def)
next
  case True
  define x where "x = (new_window t g fb garbage)\<lparr>has_frame := (flags AND SYS_WF_NO_FRAME = 0)\<rparr>"
  define s where "s = set_task (tm m) t (\<lambda>_. (tasks (tm m) ! t)\<lparr>m_windows := m_windows (tasks (tm m) ! t) @ [w]\<rparr>)"
  define m1 where "m1 = (set_window w x m)\<lparr>tm := s, window_count := window_count m + 1, wm_windows := wm_windows m @ [w]\<rparr>"
  have b: "base m" "registered m" using m by (simp_all add: wm_inv_def)
  have os: "owned s = (owned (tm m))[t := owned (tm m) ! t @ [w]]"
    using owned_set_windows [OF t] by (simp add: s_def owned_def t)
  then have len: "length (tasks s) = length (tasks (tm m))" using length_owned by (metis length_list_update)
  have x: "win_task x = t" "on_screen (geometry x)" "\<not> visible x" "queue_ok m1 (win_queue x)"
    using g by (simp_all add: x_def new_window_def queue_ok_def)
  have "window_ok m1 u" if "u \<in> set (wm_windows m1)" for u
    using b(1) that x t len unfolding base_def window_ok_def by (cases "u = w") (auto simp: m1_def set_window_def queue_ok_def)
  then have b1: "base m1"
    using b(1) new set_task_windows_inv [of "tm m"] by (auto simp: base_def m1_def set_window_def screen_ok_def s_def)
  have "\<exists>y. win m1 u = Some y \<and> u \<in> set (owned (tm m1) ! win_task y)" if u: "u \<in> set (wm_windows m1)" for u
  proof (cases "u = w")
    case True
    then show ?thesis using x(1) t os by (simp add: m1_def set_window_def length_owned)
  next
    case False
    then have "u \<in> set (wm_windows m)" using u by (simp add: m1_def)
    then obtain y where "win m u = Some y" "u \<in> set (owned (tm m) ! win_task y)" using b(2) by (auto simp: registered_def)
    then show ?thesis using False os t by (cases "win_task y = t") (auto simp: m1_def set_window_def length_owned)
  qed
  moreover have "lists_ok (owned (tm m1)) (wm_windows m1) (task_of m1)"
  proof -
    have "lists_ok ((owned (tm m))[t := owned (tm m) ! t @ [w]]) (wm_windows m1) (task_of m1)"
      by (rule lists_ok_add [of _ "wm_windows m" "task_of m"]) (use b(2) new t x(1) in \<open>auto simp: registered_def length_owned m1_def set_window_def task_of_def\<close>)
    then show ?thesis using os by (simp add: m1_def)
  qed
  ultimately have i1: "wm_inv m1" using b1 b(2) by (simp add: wm_inv_def registered_def m1_def)
  have w1: "w \<in> set (wm_windows m1)" by (simp add: m1_def)
  obtain m' where m': "focus_window w m1 = ok m'" "wm_inv m'" "kept m1 m'" "focus_win m' = Some w"
    using goes_safe [OF focus_window_goes [OF b1 w1] i1] by (auto simp: safe_def)
  have "task_of (set_window w x m) w = t" using x(1) by (simp add: task_of_def set_window_def)
  moreover have "tm (set_window w x m) = tm m" "window_count (set_window w x m) = window_count m" "wm_windows (set_window w x m) = wm_windows m"
    by (simp_all add: set_window_def)
  ultimately have "create_window t flags w g fb garbage m = ok (Some w, m')"
    using True t m'(1) unfolding create_window_def Let_def x_def [symmetric]
    by (simp add: task_at_def register_window_def m1_def s_def)
  moreover have "view m1 w = Some (t, g, False, fb)" by (simp add: view_def m1_def set_window_def x_def new_window_def)
  ultimately show ?thesis using m' True os by (auto simp: kept_def m1_def set_window_def)
qed

subsection \<open>Destroying windows\<close>

lemma remove_window_base:
  assumes m: "base m" and f: "focus_win m \<noteq> Some w"
  shows "base (m\<lparr>wm_windows := remove1 w (wm_windows m), window_count := n\<rparr>)"
  using assms by (auto simp: base_def window_ok_def queue_ok_def screen_ok_def distinct_remove1 set_remove1_eq)

lemma forget_window_base: "base m \<Longrightarrow> w \<notin> set (wm_windows m) \<Longrightarrow> base (m\<lparr>win := (win m)(w := None)\<rparr>)"
  by (auto simp: base_def window_ok_def queue_ok_def screen_ok_def)

lemma destroy_window_safe:
  assumes m: "wm_inv m" "w \<in> set (wm_windows m)"
  shows "safe (destroy_window w m) (\<lambda>m'. set (wm_windows m') = set (wm_windows m) - {w} \<and> win m' w = None)"
proof -
  have b: "base m" "registered m" using m(1) by (simp_all add: wm_inv_def)
  obtain x where x: "win m w = Some x" "window_at m w = ok x" "win_task x < length (tasks (tm m))" by (rule window_okD [OF b(1) m(2)])
  define p where "p = win_task x"
  define ws where "ws = remove1 w (m_windows (tasks (tm m) ! p))"
  define s where "s = set_task (tm m) p (\<lambda>_. (tasks (tm m) ! p)\<lparr>m_windows := ws\<rparr>)"
  have p: "p < length (tasks (tm m))" "w \<in> set (m_windows (tasks (tm m) ! p))"
    using x b(2) m(2) by (auto simp: p_def registered_def owned_def)
  have os: "owned s = (owned (tm m))[p := ws]" using owned_set_windows [OF p(1)] by (simp add: s_def)
  then have len: "length (tasks s) = length (tasks (tm m))" using length_owned by (metis length_list_update)
  have op: "owned (tm m) ! p = m_windows (tasks (tm m) ! p)" using p(1) by (simp add: owned_def)
  define m1 where "m1 = m\<lparr>tm := s\<rparr>"
  have b1: "base m1"
    using b(1) set_task_windows_inv [of "tm m"] len by (auto simp: base_def m1_def s_def window_ok_def queue_ok_def screen_ok_def)
  have w1: "w \<in> set (wm_windows m1)" using m(2) by (simp add: m1_def)
  have "goes m1 (if focus_win m1 = Some w then unfocus_window w m1 else ok m1) (\<lambda>m'. focus_win m' \<noteq> Some w)"
  proof (cases "focus_win m1 = Some w")
    case True
    then show ?thesis unfolding if_P [OF True] by (intro goes_mono [OF unfocus_window_goes [OF b1 w1]]) simp
  qed (use b1 in \<open>simp add: goes_ok\<close>)
  then obtain m2 where m2: "(if focus_win m1 = Some w then unfocus_window w m1 else ok m1) = ok m2" "base m2" "kept m1 m2" "focus_win m2 \<noteq> Some w"
    unfolding goes_def by blast
  define m3 where "m3 = m2\<lparr>wm_windows := remove1 w (wm_windows m2), window_count := window_count m2 - 1\<rparr>"
  have b3: "base m3" unfolding m3_def by (rule remove_window_base [OF m2(2,4)])
  have w2: "w \<in> set (wm_windows m2)" "distinct (wm_windows m2)" using w1 m2(2,3) by (simp add: kept_windows, simp add: base_def)
  obtain y where y: "window_at m2 w = ok y" "on_screen (geometry y)" by (rule window_okD [OF m2(2) w2(1)])
  have y3: "window_at m3 w = ok y" using y(1) by (simp add: m3_def window_at_def)
  have "goes m3 (if visible y then update_rect (geometry y) m3 else ok m3) (\<lambda>m'. wm_windows m' = wm_windows m3 \<and> tm m' = tm m3)"
    using goes_mono [OF update_goes [OF b3 y(2)]] b3 by (simp add: goes_ok)
  then obtain m4 where m4: "(if visible y then update_rect (geometry y) m3 else ok m3) = ok m4" "base m4" "kept m3 m4" "wm_windows m4 = wm_windows m3"
    unfolding goes_def by blast
  define m5 where "m5 = m4\<lparr>win := (win m4)(w := None)\<rparr>"
  have ws5: "wm_windows m5 = remove1 w (wm_windows m2)" using m4(4) by (simp add: m5_def m3_def)
  then have w5: "w \<notin> set (wm_windows m5)" "set (wm_windows m5) = set (wm_windows m) - {w}"
    using w2 m2(3) by (simp_all add: set_remove1_eq) (simp add: kept_def m1_def)
  have b5: "base m5" unfolding m5_def by (rule forget_window_base [OF m4(2)]) (use w5(1) in \<open>simp add: m5_def\<close>)
  have c5: "window_count m5 = length (wm_windows m5)"
    using m2(3) m4(3) w2(1) b(2) ws5 by (simp add: kept_def m1_def m3_def m5_def registered_def length_remove1)
  have "\<exists>z. win m5 u = Some z \<and> u \<in> set (owned (tm m5) ! win_task z)" if u: "u \<in> set (wm_windows m5)" for u
  proof -
    have un: "u \<noteq> w" "u \<in> set (wm_windows m)" using u w5 by auto
    then obtain z where z: "win m u = Some z" "u \<in> set (owned (tm m) ! win_task z)" using b(2) by (auto simp: registered_def)
    have "view m4 u = view m u" using m2(3) m4(3) by (simp add: kept_def m1_def m3_def view_def fun_eq_iff)
    then obtain z' where "win m4 u = Some z'" "win_task z' = win_task z" using z(1) by (auto simp: view_def)
    moreover have "owned (tm m4) = owned s" using m2(3) m4(3) by (simp add: kept_def m1_def m3_def)
    moreover have "u \<in> set (owned s ! win_task z)"
      using z(2) un(1) p(1) op by (cases "win_task z = p") (simp_all add: os length_owned ws_def)
    ultimately show ?thesis using un(1) by (simp add: m5_def)
  qed
  moreover have "lists_ok (owned (tm m5)) (wm_windows m5) (task_of m5)"
  proof -
    have "task_of m4 = task_of m" using m2(3) m4(3) by (intro view_task_of) (simp add: kept_def m1_def m3_def view_def fun_eq_iff)
    then have "lists_ok ((owned (tm m))[p := remove1 w (owned (tm m) ! p)]) (wm_windows m5) (task_of m5)"
      by (intro lists_ok_remove [of _ "wm_windows m" "task_of m"])
        (use b(2) w5(2) x(1) in \<open>auto simp: registered_def p_def task_of_def m5_def fun_eq_iff\<close>)
    moreover have "owned (tm m5) = owned s" using m2(3) m4(3) by (simp add: kept_def m1_def m3_def m5_def)
    ultimately show ?thesis using os op by (simp add: ws_def)
  qed
  ultimately have i5: "wm_inv m5" using b5 c5 by (simp add: wm_inv_def registered_def)
  have "safe (if wm_windows m5 = [] then ok m5 else focus_window (last (wm_windows m5)) m5)
      (\<lambda>m'. set (wm_windows m') = set (wm_windows m) - {w} \<and> win m' w = None)"
  proof (cases "wm_windows m5 = []")
    case False
    have g: "goes m5 (focus_window (last (wm_windows m5)) m5) (\<lambda>m'. focus_win m' = Some (last (wm_windows m5)))"
      by (rule focus_window_goes [OF b5]) (simp add: False)
    have "win m' w = None \<and> set (wm_windows m') = set (wm_windows m) - {w}" if "kept m5 m'" for m'
    proof -
      have "view m' w = view m5 w" using that by (simp add: kept_def)
      then show ?thesis using that w5(2) by (simp add: m5_def view_def kept_def)
    qed
    then show ?thesis
      unfolding if_not_P [OF False] by (intro safe_mono [OF goes_safe [OF g i5]]) simp
  qed (use i5 w5(2) in \<open>simp add: safe_ok m5_def\<close>)
  moreover have ta: "task_at (tm m) p = ok (tasks (tm m) ! p)" using p(1) by (simp add: task_at_def)
  moreover have ur: "unregister_window (task_of m) p (tasks (tm m) ! p) (Some w) = ok ((tasks (tm m) ! p)\<lparr>m_windows := ws\<rparr>)"
    using p(2) x(1) by (simp add: unregister_window_def task_of_def p_def ws_def)
  ultimately show ?thesis
    using m(2) unfolding destroy_window_def Let_def x(2) bindE.simps p_def [symmetric] ta ur
    unfolding s_def [symmetric] m1_def [symmetric] m2(1) bindE.simps
    unfolding m3_def [symmetric] y3 bindE.simps m4(1)
    unfolding m5_def [symmetric] by (simp add: is_valid_def)
qed

subsection \<open>Presenting a part of a window\<close>

lemma present_part_safe:
  assumes m: "wm_inv m" "w \<in> set (wm_windows m)" and xy: "0 \<le> x" "0 \<le> y" "0 \<le> wd" "0 \<le> ht"
  shows "safe (present_part w x y wd ht m) (\<lambda>_. True)"
proof -
  have b: "base m" using m(1) by (simp add: wm_inv_def)
  obtain z where z: "window_at m w = ok z" "on_screen (geometry z)" by (rule window_okD [OF b m(2)])
  define r where "r = geometry z"
  have r: "rect_ok r" "0 \<le> rx1 r" "0 \<le> ry1 r" "rx1 r \<le> rx2 r" "ry1 r \<le> ry2 r" "rx2 r < 2 ^ 30" "ry2 r < 2 ^ 30"
    using z(2) by (auto simp: on_screen_def rect_ok_def r_def)
  have u: "uint32 (rx2 r - rx1 r) = rx2 r - rx1 r" "uint32 (ry2 r - ry1 r) = ry2 r - ry1 r" using r by simp_all
  define x' y' where "x' = min x (rx2 r - rx1 r)" and "y' = min y (ry2 r - ry1 r)"
  have x': "0 \<le> x'" "x' \<le> rx2 r - rx1 r" "0 \<le> y'" "y' \<le> ry2 r - ry1 r" using xy r by (simp_all add: x'_def y'_def)
  have u': "uint32 (rx2 r - rx1 r - x') = rx2 r - rx1 r - x'" "uint32 (ry2 r - ry1 r - y') = ry2 r - ry1 r - y'" using r x' by simp_all
  define a c where "a = min wd (rx2 r - rx1 r - x')" and "c = min ht (ry2 r - ry1 r - y')"
  have ac: "0 \<le> a" "rx1 r + x' + a \<le> rx2 r" "0 \<le> c" "ry1 r + y' + c \<le> ry2 r" using xy x' by (simp_all add: a_def c_def)
  have i: "i32 (rx1 r + x') = rx1 r + x'" "i32 (ry1 r + y') = ry1 r + y'" "i32 a = a" "i32 c = c"
    "i32 (rx1 r + x' + a) = rx1 r + x' + a" "i32 (ry1 r + y' + c) = ry1 r + y' + c" using r x' ac by simp_all
  have "from_pos_and_size (i32 (rx1 r + x')) (i32 (ry1 r + y')) (i32 a) (i32 c)
      = \<lparr>rx1 = rx1 r + x', ry1 = ry1 r + y', rx2 = rx1 r + x' + a, ry2 = ry1 r + y' + c\<rparr>"
    unfolding from_pos_and_size_def i by (rule make_rect_id) (use ac in simp_all)
  then have os: "on_screen (from_pos_and_size (i32 (rx1 r + x')) (i32 (ry1 r + y')) (i32 a) (i32 c))"
    using r x' ac by (auto simp: on_screen_def rect_ok_def)
  have "present_part w x y wd ht m = update_rect (from_pos_and_size (i32 (rx1 r + x')) (i32 (ry1 r + y')) (i32 a) (i32 c)) m"
    using m(2) z(1) unfolding present_part_def is_valid_def
    by (simp add: r_def [symmetric] r(1) u x'_def [symmetric] y'_def [symmetric] u' a_def [symmetric] c_def [symmetric])
  then show ?thesis using goes_safe [OF update_goes [OF b os] m(1)] by (auto elim: safe_mono)
qed

subsection \<open>Events\<close>

text \<open>What the window manager relies on when it starts the file explorer: the task manager comes back sound, and tasks keep the
  windows they own.\<close>

definition tasks_move :: "task_manager \<Rightarrow> task_manager \<Rightarrow> bool" where
  "tasks_move s s' \<longleftrightarrow> tm_inv s' \<and> length (tasks s) \<le> length (tasks s') \<and> (\<forall>p < length (tasks s). m_windows (tasks s' ! p) = m_windows (tasks s ! p))
     \<and> (\<forall>p < length (tasks s'). length (tasks s) \<le> p \<longrightarrow> m_windows (tasks s' ! p) = [])"

definition spawns :: "(task_manager \<Rightarrow> task_manager outcome) \<Rightarrow> bool" where
  "spawns f \<longleftrightarrow> (\<forall>s. tm_inv s \<longrightarrow> (\<exists>s'. f s = ok s' \<and> tasks_move s s'))"

lemma tasks_move_inv:
  assumes m: "wm_inv m" and s: "tasks_move (tm m) s"
  shows "wm_inv (m\<lparr>tm := s\<rparr>)"
proof -
  have b: "base m" using m by (simp add: wm_inv_def)
  have len: "length (tasks (tm m)) \<le> length (tasks s)" using s by (simp add: tasks_move_def)
  have "\<exists>x. win m w = Some x \<and> on_screen (geometry x) \<and> (visible x \<longrightarrow> framebuffer x \<noteq> None) \<and> queue_ok (m\<lparr>tm := s\<rparr>) (win_queue x)
      \<and> win_task x < length (tasks s) \<and> w \<in> set (owned s ! win_task x)" if w: "w \<in> set (wm_windows m)" for w
  proof -
    obtain x where x: "win m w = Some x" "on_screen (geometry x)" "visible x \<longrightarrow> framebuffer x \<noteq> None" "queue_ok m (win_queue x)"
      "win_task x < length (tasks (tm m))" by (rule window_okD [OF b w])
    have "w \<in> set (owned (tm m) ! win_task x)" using m w x(1) by (auto simp: wm_inv_def registered_def)
    then have "w \<in> set (owned s ! win_task x)" using s x(5) len by (simp add: owned_def tasks_move_def)
    moreover have "queue_ok (m\<lparr>tm := s\<rparr>) (win_queue x)" using x(4) len by (auto simp: queue_ok_def)
    ultimately show ?thesis using x len by auto
  qed
  then have "\<forall>w \<in> set (wm_windows m). window_ok (m\<lparr>tm := s\<rparr>) w" "\<forall>w \<in> set (wm_windows m). \<exists>x. win m w = Some x \<and> w \<in> set (owned s ! win_task x)"
    by (fastforce simp: window_ok_def)+
  moreover have "lists_ok (owned s) (wm_windows m) (task_of m)"
    unfolding lists_ok_def
  proof (intro allI impI)
    fix q
    assume q: "q < length (owned s)"
    have l: "lists_ok (owned (tm m)) (wm_windows m) (task_of m)" using m by (simp add: wm_inv_def registered_def)
    show "distinct (owned s ! q) \<and> (\<forall>w \<in> set (owned s ! q). w \<in> set (wm_windows m) \<and> task_of m w = q)"
    proof (cases "q < length (tasks (tm m))")
      case True
      then have "owned s ! q = owned (tm m) ! q" using s len by (simp add: tasks_move_def owned_def)
      then show ?thesis using l True by (simp add: lists_ok_def length_owned)
    next
      case False
      then have "owned s ! q = []" using s q by (simp add: tasks_move_def owned_def)
      then show ?thesis by simp
    qed
  qed
  moreover have "tm_inv s" using s by (simp add: tasks_move_def)
  ultimately show ?thesis
    using m by (simp add: wm_inv_def base_def registered_def screen_ok_def)
qed

lemma spawn_safe:
  assumes "spawns f" "wm_inv m"
  shows "safe (bindE (f (tm m)) (\<lambda>s. ok (m\<lparr>tm := s\<rparr>))) (\<lambda>_. True)"
proof -
  obtain s where "f (tm m) = ok s" "tasks_move (tm m) s" using assms unfolding spawns_def wm_inv_def base_def by blast
  then show ?thesis using tasks_move_inv [OF assms(2)] by (simp add: safe_ok)
qed

text \<open>A handler returns whether it handled the event, and keeps the invariant.\<close>

definition served :: "(bool \<times> window_manager) outcome \<Rightarrow> bool" where
  "served r \<longleftrightarrow> (\<exists>b m'. r = ok (b, m') \<and> wm_inv m')"

lemma served_if: "served r \<Longrightarrow> served r' \<Longrightarrow> served (if c then r else r')"
  by simp

lemma served_ok: "wm_inv m \<Longrightarrow> served (ok (b, m))"
  by (simp add: served_def)

lemma served_handled: "safe r P \<Longrightarrow> served (bindE r (\<lambda>m. ok (True, m)))"
  by (auto simp: safe_def served_def)

lemma handle_key_event_served:
  assumes m: "wm_inv m" and f: "spawns f"
  shows "served (handle_key_event f event m)"
proof -
  have b: "base m" using m by (simp add: wm_inv_def)
  note g = focus_geometry_safe [OF m]
  note intros = served_if served_ok [OF m] served_handled [OF goes_safe [OF switch_focus_goes [OF b] m]] served_handled [OF mosaic_layout_safe [OF m]]
    served_handled [OF g(3)] served_handled [OF g(4)] served_handled [OF spawn_safe [OF f m]]
  have arrow: "served (bindE (if shift then resize_focus_window dx dy m else move_focus_window dx dy m) (\<lambda>m. ok (True, m)))" for shift dx dy
    using served_handled [OF g(1), of dx dy] served_handled [OF g(2), of dx dy] by simp
  show ?thesis unfolding handle_key_event_def Let_def by (intro intros arrow)
qed

lemma post_event_safe:
  assumes m: "wm_inv m" and f: "spawns f"
  shows "safe (post_event f msg m) (\<lambda>_. True)"
proof (cases "is_supported m")
  case False
  then show ?thesis using m by (simp add: post_event_def safe_ok)
next
  case True
  have mouse: "served (handle_mouse_move_event dx dy m')" "served (handle_mouse_click_event button pressed m')" if "wm_inv m'" for m' dx dy button pressed
    using mouse_move_safe [OF that] mouse_click_safe [OF that] unfolding served_def by blast+
  have last: "safe (case focus_win m' of None \<Rightarrow> ok m' | Some w \<Rightarrow> post w msg m') (\<lambda>_. True)" if "wm_inv m'" for m'
    by (rule focus_geometry_safe(4) [OF that])
  have "served (if msg_id msg = SYS_MSG_KEYDOWN then handle_key_event f (param1 msg) m else ok (False, m))"
    by (intro served_if handle_key_event_served [OF m f] served_ok [OF m])
  then obtain b1 m1 where s1: "(if msg_id msg = SYS_MSG_KEYDOWN then handle_key_event f (param1 msg) m else ok (False, m)) = ok (b1, m1)" "wm_inv m1"
    unfolding served_def by blast
  have "served (if msg_id msg = SYS_MSG_MOUSEMOVE then handle_mouse_move_event (i32 (uint (param1 msg))) (i32 (uint (param2 msg))) m1
      else if msg_id msg = SYS_MSG_MOUSECLICK then handle_mouse_click_event (i32 (uint (param1 msg))) (param2 msg \<noteq> 0) m1 else ok (False, m1))"
    by (intro served_if mouse [OF s1(2)] served_ok [OF s1(2)])
  then obtain b2 m2 where s2: "(if msg_id msg = SYS_MSG_MOUSEMOVE then handle_mouse_move_event (i32 (uint (param1 msg))) (i32 (uint (param2 msg))) m1
      else if msg_id msg = SYS_MSG_MOUSECLICK then handle_mouse_click_event (i32 (uint (param1 msg))) (param2 msg \<noteq> 0) m1 else ok (False, m1)) = ok (b2, m2)"
      "wm_inv m2" unfolding served_def by blast
  show ?thesis
    using True last [OF s2(2)] s1(2) s2(2) unfolding post_event_def s1(1) by (simp add: s2(1) safe_ok)
qed

subsection \<open>Sessions\<close>

text \<open>The constructor, with the frame buffer \<open>(wd, ht)\<close> of the screen and the width of the wallpaper, if it could be loaded.\<close>

definition wm_new :: "int \<Rightarrow> int \<Rightarrow> int option \<Rightarrow> task_manager \<Rightarrow> u32 \<Rightarrow> window_manager outcome" where
  "wm_new wd ht paper s time =
     update_all \<lparr>is_supported = True, focus_win = None, wm_windows = [], window_count = 0, last_window_x = 50, last_window_y = 50,
       wallpaper = (paper \<noteq> None), wallpaper_width = (case paper of None \<Rightarrow> 0 | Some n \<Rightarrow> n), screen_width = wd, screen_height = ht,
       cursor_x = 0, cursor_y = 0, win = Map.empty, tm = s, now = time, drawn = []\<rparr>"

text \<open>The calls the rest of the kernel makes.\<close>

datatype wm_op =
    Create tptr u32 nat Rect "int option" "sys_message list"
  | Destroy nat
  | Show nat bool
  | Place nat int int int int
  | Set_Geometry nat Rect
  | Focus nat
  | Unfocus nat
  | Post_Message nat sys_message
  | Present nat
  | Present_Part nat int int int int
  | Mosaic
  | Event sys_message

definition wm_exec :: "(task_manager \<Rightarrow> task_manager outcome) \<Rightarrow> wm_op \<Rightarrow> window_manager \<Rightarrow> window_manager outcome" where
  "wm_exec f op m =
     (case op of
        Create t flags w g fb garbage \<Rightarrow> bindE (create_window t flags w g fb garbage m) (\<lambda>(_, m). ok m)
      | Destroy w \<Rightarrow> destroy_window w m
      | Show w shows \<Rightarrow> set_window_visibility w shows m
      | Place w x y wd ht \<Rightarrow> place_window w x y wd ht m
      | Set_Geometry w r \<Rightarrow> set_window_geometry w r m
      | Focus w \<Rightarrow> focus_window w m
      | Unfocus w \<Rightarrow> unfocus_window w m
      | Post_Message w msg \<Rightarrow> post w msg m
      | Present w \<Rightarrow> present_window w m
      | Present_Part w x y wd ht \<Rightarrow> present_part w x y wd ht m
      | Mosaic \<Rightarrow> mosaic_layout m
      | Event msg \<Rightarrow> post_event f msg m)"

text \<open>
  The arguments of the callers: windows of the manager, and for a new window a new object for a task that exists. The memory of
  the object is what the allocator found there; its rectangle, which the constructor leaves alone, is taken to be normalised and
  not in front of the origin.
\<close>

definition op_valid :: "window_manager \<Rightarrow> wm_op \<Rightarrow> bool" where
  "op_valid m op =
     (case op of
        Create t flags w g fb garbage \<Rightarrow> w \<notin> set (wm_windows m) \<and> t < length (tasks (tm m)) \<and> on_screen g \<and> length garbage = MAX_PENDING_MESSAGES
      | Destroy w \<Rightarrow> w \<in> set (wm_windows m)
      | Show w shows \<Rightarrow> w \<in> set (wm_windows m)
      | Place w x y wd ht \<Rightarrow> w \<in> set (wm_windows m)
      | Set_Geometry w r \<Rightarrow> w \<in> set (wm_windows m)
      | Focus w \<Rightarrow> w \<in> set (wm_windows m)
      | Unfocus w \<Rightarrow> w \<in> set (wm_windows m)
      | Post_Message w msg \<Rightarrow> w \<in> set (wm_windows m)
      | Present w \<Rightarrow> w \<in> set (wm_windows m)
      | Present_Part w x y wd ht \<Rightarrow> w \<in> set (wm_windows m) \<and> 0 \<le> x \<and> 0 \<le> y \<and> 0 \<le> wd \<and> 0 \<le> ht
      | _ \<Rightarrow> True)"

text \<open>A window is shown only when it has a frame buffer. The window manager does not check this.\<close>

definition shows_sized :: "window_manager \<Rightarrow> wm_op \<Rightarrow> bool" where
  "shows_sized m op =
     (case op of Show w shows \<Rightarrow> shows \<longrightarrow> (case win m w of None \<Rightarrow> False | Some x \<Rightarrow> framebuffer x \<noteq> None) | _ \<Rightarrow> True)"

definition op_ok :: "window_manager \<Rightarrow> wm_op \<Rightarrow> bool" where
  "op_ok m op \<longleftrightarrow> op_valid m op \<and> shows_sized m op"

lemmas op_ok_defs = op_ok_def op_valid_def shows_sized_def

inductive wm_reachable :: "(task_manager \<Rightarrow> task_manager outcome) \<Rightarrow> window_manager \<Rightarrow> bool" for f where
  start: "\<lbrakk>tm_inv s; \<forall>t \<in> set (tasks s). m_windows t = []; MIN_WIDTH \<le> wd; wd < 2 ^ 15; MIN_HEIGHT \<le> ht; ht < 2 ^ 15; wm_new wd ht paper s time = ok m\<rbrakk> \<Longrightarrow> wm_reachable f m"
| operation: "\<lbrakk>wm_reachable f m; op_ok m op; wm_exec f op m = ok m'\<rbrakk> \<Longrightarrow> wm_reachable f m'"
| others: "\<lbrakk>wm_reachable f m; tasks_move (tm m) s\<rbrakk> \<Longrightarrow> wm_reachable f (m\<lparr>tm := s\<rparr>)"
| clock: "wm_reachable f m \<Longrightarrow> wm_reachable f (m\<lparr>now := time\<rparr>)"

lemma wm_new_safe:
  assumes "tm_inv s" "\<forall>t \<in> set (tasks s). m_windows t = []" "MIN_WIDTH \<le> wd" "wd < 2 ^ 15" "MIN_HEIGHT \<le> ht" "ht < 2 ^ 15"
  shows "safe (wm_new wd ht paper s time) (\<lambda>m. wm_windows m = [])"
proof -
  define m where "m = \<lparr>is_supported = True, focus_win = None, wm_windows = [], window_count = 0, last_window_x = 50, last_window_y = 50,
       wallpaper = (paper \<noteq> None), wallpaper_width = (case paper of None \<Rightarrow> 0 | Some n \<Rightarrow> n), screen_width = wd, screen_height = ht,
       cursor_x = 0, cursor_y = 0, win = Map.empty, tm = s, now = time, drawn = []\<rparr>"
  have size: "0 \<le> wd" "0 \<le> ht" using assms by (simp_all add: MIN_WIDTH_def MIN_HEIGHT_def)
  have "registered m" using assms(2) by (simp add: m_def registered_def owned_def lists_ok_def)
  then have i: "wm_inv m" using assms size by (simp add: m_def wm_inv_def base_def screen_ok_def)
  have "make_rect 0 0 wd ht = \<lparr>rx1 = 0, ry1 = 0, rx2 = wd, ry2 = ht\<rparr>" using size by (rule make_rect_id)
  then have "on_screen (make_rect 0 0 (screen_width m) (screen_height m))" using assms size by (simp add: m_def on_screen_def rect_ok_def)
  then have "goes m (update_all m) (\<lambda>m'. focus_win m' = focus_win m \<and> wm_windows m' = wm_windows m \<and> win m' = win m \<and> tm m' = tm m)"
    using i unfolding update_all_def wm_inv_def by (intro update_goes) simp_all
  from goes_safe [OF this i] show ?thesis
    unfolding wm_new_def m_def [symmetric] by (rule safe_mono) (simp add: m_def)
qed

lemma wm_exec_safe:
  assumes m: "wm_inv m" and f: "spawns f" and op: "op_ok m op"
  shows "safe (wm_exec f op m) (\<lambda>_. True)"
proof -
  have b: "base m" using m by (simp add: wm_inv_def)
  have goes: "safe r (\<lambda>_. True)" if "goes m r P" for r P by (rule safe_mono [OF goes_safe [OF that m]]) simp
  show ?thesis
  proof (cases op)
    case (Create t flags w g fb garbage)
    then show ?thesis
      using create_window_safe [OF m, of w t g garbage flags fb] op by (auto simp: wm_exec_def op_ok_defs safe_def)
  next
    case (Destroy w)
    then show ?thesis using safe_mono [OF destroy_window_safe [OF m, of w]] op by (simp add: wm_exec_def op_ok_defs)
  next
    case (Show w v)
    then show ?thesis using set_visibility_safe [OF m, of w v] op by (auto simp: wm_exec_def op_ok_defs split: option.splits)
  next
    case (Set_Geometry w r)
    then show ?thesis using safe_mono [OF set_window_geometry_safe [OF m, of w r]] op by (simp add: wm_exec_def op_ok_defs)
  qed (use op b m goes [OF focus_window_goes] goes [OF unfocus_window_goes] goes [OF post_goes] place_window_safe present_window_safe present_part_safe
      mosaic_layout_safe post_event_safe [OF m f] in \<open>simp_all add: wm_exec_def op_ok_defs\<close>)
qed

lemma clock_inv: "wm_inv m \<Longrightarrow> wm_inv (m\<lparr>now := time\<rparr>)"
  by (auto simp: wm_inv_def base_def registered_def window_ok_def queue_ok_def screen_ok_def)

lemma wm_reachable_inv: "wm_reachable f m \<Longrightarrow> spawns f \<Longrightarrow> wm_inv m"
proof (induction rule: wm_reachable.induct)
  case (start s wd ht paper time m)
  then show ?case using wm_new_safe [of s wd ht paper time] by (simp add: safe_def)
next
  case (operation m op m')
  then show ?case using wm_exec_safe [of m f op] by (simp add: safe_def)
next
  case (others m s)
  then show ?case using tasks_move_inv by blast
next
  case (clock m time)
  then show ?case using clock_inv by blast
qed

subsection \<open>A small session\<close>

lemma spawns_ok: "spawns ok"
  by (simp add: spawns_def tasks_move_def)

definition blank_queue :: "sys_message list" where
  "blank_queue = replicate MAX_PENDING_MESSAGES (message 0 0 0)"

lemma example_session:
  obtains m1 m2 where "wm_reachable ok m1" "wm_windows m1 = []" "op_ok m1 (Create 0 0 7 null_rect None blank_queue)"
    "wm_reachable ok m2" "wm_windows m2 = [7]" "screen_width m2 = 640" "screen_height m2 = 480"
    "owned (tm m2) = [[7], []]"
proof -
  have tm: "tm_inv example_tm" by (rule tm_reachable_inv [OF example_reachable])
  have none: "\<forall>t \<in> set (tasks example_tm). m_windows t = []" by (simp add: example_tm_def example_task_def make_task_def)
  obtain m1 where m1: "wm_new 640 480 None example_tm 0 = ok m1" "wm_inv m1" "wm_windows m1 = []"
    using wm_new_safe [OF tm none, of 640 480 None 0] by (auto simp: safe_def MIN_WIDTH_def MIN_HEIGHT_def)
  have k: "is_supported m1 \<and> screen_width m1 = 640 \<and> screen_height m1 = 480 \<and> tm m1 = example_tm"
    using m1(1) by (auto simp: wm_new_def update_all_def update_rect_def Let_def bindE_ok_iff)
  have r1: "wm_reachable ok m1" by (rule wm_reachable.start [OF tm none _ _ _ _ m1(1)]) (simp_all add: MIN_WIDTH_def MIN_HEIGHT_def)
  have os: "on_screen null_rect" by (simp add: on_screen_def) (simp add: null_rect_def)
  have c: "op_ok m1 (Create 0 0 7 null_rect None blank_queue)"
    using m1(3) k os by (simp add: op_ok_defs blank_queue_def) (simp add: example_tm_def)
  obtain m2 where m2: "create_window 0 0 7 null_rect None blank_queue m1 = ok (Some 7, m2)" "wm_inv m2" "set (wm_windows m2) = {7}"
      "screen_width m2 = 640" "screen_height m2 = 480" "owned (tm m2) = (owned (tm m1))[0 := owned (tm m1) ! 0 @ [7]]"
    using create_window_safe [OF m1(2), of 7 0 null_rect blank_queue 0 None] c k m1(3) by (auto simp: op_ok_defs)
  have "wm_exec ok (Create 0 0 7 null_rect None blank_queue) m1 = ok m2" by (simp add: wm_exec_def m2(1))
  then have r2: "wm_reachable ok m2" by (rule wm_reachable.operation [OF r1 c])
  have "distinct (wm_windows m2)" using m2(2) by (simp add: wm_inv_def base_def)
  then have "length (wm_windows m2) = 1" using m2(3) distinct_card by fastforce
  then have "wm_windows m2 = [7]" using m2(3) by (cases "wm_windows m2") auto
  moreover have "owned (tm m2) = [[7], []]" using m2(6) k by (simp add: owned_def example_tm_def example_task_def make_task_def)
  ultimately show ?thesis using that r1 m1(3) c r2 m2(4,5) by blast
qed

subsection \<open>Properties\<close>



end
