(* ===== verification/Window_Faults.thy ===== *)
theory Window_Faults
  imports Window_Safety
begin

text \<open>
  What happens to windows that are shown before they have a frame buffer. Nothing in \<^verbatim>\<open>set_window_visibility\<close> or its system call
  keeps a program from doing it, and \<^verbatim>\<open>draw_window\<close> asserts that a visible window has a frame buffer. Giving the windows that lack
  one an empty frame buffer (\<open>sized\<close>) turns such a state into one that the invariant covers, and every operation either fails at
  that assertion or does the same in both states (\<open>follows\<close>). So the assertion of \<^verbatim>\<open>draw_window\<close> is the only way to fail.
\<close>

subsection \<open>Following an operation with frame buffers for all windows\<close>

definition sized_window :: "Window \<Rightarrow> Window" where
  "sized_window x = x\<lparr>framebuffer := Some (case framebuffer x of None \<Rightarrow> 0 | Some n \<Rightarrow> n)\<rparr>"

definition sized :: "window_manager \<Rightarrow> window_manager" where
  "sized m = m\<lparr>win := (\<lambda>w. map_option sized_window (win m w))\<rparr>"

definition follows :: "('a \<Rightarrow> 'b) \<Rightarrow> 'a outcome \<Rightarrow> 'b outcome \<Rightarrow> bool" where
  "follows h r r' \<longleftrightarrow> r = Inl Panic \<or> r' = map_sum id h r"

named_theorems follow \<open>rules that follow a composed operation step by step\<close>

lemma follows_ok [simp]: "follows h (ok x) (ok y) \<longleftrightarrow> y = h x"
  by (simp add: follows_def)

lemma follows_fault [follow]: "follows h (Inl e) (Inl e)"
  by (simp add: follows_def)

lemma follows_refl [follow]: "follows (\<lambda>x. x) r r"
  by (cases r) (simp_all add: follows_def)

lemma follows_kassert [follow]: "(c \<Longrightarrow> follows h r r') \<Longrightarrow> follows h (kassert c r) (kassert c r')"
  by (simp add: follows_def kassert_def)

lemma follows_assert_first: "(c \<Longrightarrow> follows h r r') \<Longrightarrow> follows h (kassert c r) r'"
  by (simp add: follows_def kassert_def)

lemma follows_if [follow]: "(c \<Longrightarrow> follows h r r') \<Longrightarrow> (\<not> c \<Longrightarrow> follows h q q') \<Longrightarrow> follows h (if c then r else q) (if c then r' else q')"
  by simp

lemma follows_bind: "follows h r r' \<Longrightarrow> (\<And>x. r = ok x \<Longrightarrow> follows g (k x) (k' (h x))) \<Longrightarrow> follows g (bindE r k) (bindE r' k')"
  by (cases r) (auto simp: follows_def)

lemma follows_bind_same: "(\<And>x. r = ok x \<Longrightarrow> follows g (k x) (k' x)) \<Longrightarrow> follows g (bindE r k) (bindE r k')"
  by (cases r) (auto simp: follows_def)

lemma sized_window_fields [simp]:
  "win_task (sized_window x) = win_task x" "win_queue (sized_window x) = win_queue x" "win_title (sized_window x) = win_title x"
  "geometry (sized_window x) = geometry x" "has_frame (sized_window x) = has_frame x" "visible (sized_window x) = visible x"
  "focused (sized_window x) = focused x" "framebuffer (sized_window x) \<noteq> None"
  by (simp_all add: sized_window_def)

lemma sized_window_updates [simp]:
  "(sized_window x)\<lparr>win_queue := q\<rparr> = sized_window (x\<lparr>win_queue := q\<rparr>)" "(sized_window x)\<lparr>focused := b\<rparr> = sized_window (x\<lparr>focused := b\<rparr>)"
  "(sized_window x)\<lparr>visible := b\<rparr> = sized_window (x\<lparr>visible := b\<rparr>)" "(sized_window x)\<lparr>has_frame := b\<rparr> = sized_window (x\<lparr>has_frame := b\<rparr>)"
  by (simp_all add: sized_window_def)

lemma sized_fields [simp]:
  "is_supported (sized m) = is_supported m" "focus_win (sized m) = focus_win m" "wm_windows (sized m) = wm_windows m"
  "window_count (sized m) = window_count m" "last_window_x (sized m) = last_window_x m" "last_window_y (sized m) = last_window_y m"
  "wallpaper (sized m) = wallpaper m" "wallpaper_width (sized m) = wallpaper_width m" "screen_width (sized m) = screen_width m"
  "screen_height (sized m) = screen_height m" "cursor_x (sized m) = cursor_x m" "cursor_y (sized m) = cursor_y m"
  "win (sized m) w = map_option sized_window (win m w)" "tm (sized m) = tm m" "now (sized m) = now m" "drawn (sized m) = drawn m"
  by (simp_all add: sized_def)

lemma sized_updates [simp]:
  "(sized m)\<lparr>focus_win := f\<rparr> = sized (m\<lparr>focus_win := f\<rparr>)" "(sized m)\<lparr>wm_windows := ws\<rparr> = sized (m\<lparr>wm_windows := ws\<rparr>)"
  "(sized m)\<lparr>window_count := n\<rparr> = sized (m\<lparr>window_count := n\<rparr>)" "(sized m)\<lparr>last_window_x := i\<rparr> = sized (m\<lparr>last_window_x := i\<rparr>)"
  "(sized m)\<lparr>last_window_y := i\<rparr> = sized (m\<lparr>last_window_y := i\<rparr>)" "(sized m)\<lparr>cursor_x := i\<rparr> = sized (m\<lparr>cursor_x := i\<rparr>)"
  "(sized m)\<lparr>cursor_y := i\<rparr> = sized (m\<lparr>cursor_y := i\<rparr>)" "(sized m)\<lparr>tm := s\<rparr> = sized (m\<lparr>tm := s\<rparr>)"
  "(sized m)\<lparr>now := t\<rparr> = sized (m\<lparr>now := t\<rparr>)" "(sized m)\<lparr>drawn := ds\<rparr> = sized (m\<lparr>drawn := ds\<rparr>)"
  "(sized m)\<lparr>win := (win (sized m))(w := None)\<rparr> = sized (m\<lparr>win := (win m)(w := None)\<rparr>)"
  by (simp_all add: sized_def fun_eq_iff)

lemma sized_set_window [simp]: "set_window w (sized_window x) (sized m) = sized (set_window w x m)"
  by (auto simp: set_window_def sized_def fun_eq_iff)

lemma sized_is_valid [simp]: "is_valid (sized m) = is_valid m"
  by (simp add: is_valid_def fun_eq_iff)

lemma window_at_follows: "follows sized_window (window_at m w) (window_at (sized m) w)"
  by (cases "win m w") (simp_all add: window_at_def follows_def)

subsection \<open>Drawing\<close>

lemma draw_window_follows: "follows (\<lambda>x. x) (draw_window m w dst) (draw_window (sized m) w dst)"
  unfolding draw_window_def by (rule follows_bind [OF window_at_follows]) (simp add: Let_def follows_assert_first follows_refl)

lemma both_follows: "follows (\<lambda>x. x) a a' \<Longrightarrow> follows (\<lambda>x. x) b b' \<Longrightarrow> follows (\<lambda>x. x) (both a b) (both a' b')"
  unfolding both_def by (cases a; cases b) (auto simp: follows_def)

lemma draw_background_sized [simp]: "draw_background (sized m) = draw_background m"
  by (simp add: draw_background_def fun_eq_iff)

lemma draw_windows_helper_follows: "follows (\<lambda>x. x) (draw_windows_helper m ws r) (draw_windows_helper (sized m) ws r)"
proof (induction ws arbitrary: r)
  case (Cons w ws)
  show ?case
    unfolding draw_windows_helper.simps Let_def
    by (intro follows_if follows_refl follows_bind [OF window_at_follows])
      (auto intro!: both_follows draw_window_follows Cons.IH follows_refl)
qed (simp add: follows_fault)

lemma draw_windows_follows: "follows (\<lambda>x. x) (draw_windows m r) (draw_windows (sized m) r)"
  by (simp add: draw_windows_def draw_windows_helper_follows)

lemma update_rect_follows: "follows sized (update_rect r m) (update_rect r (sized m))"
  unfolding update_rect_def sized_fields
  by (intro follows_if follows_bind [OF draw_windows_follows]) (simp_all add: Let_def clip_rect_to_screen_def)

subsection \<open>Messages and focus\<close>

lemma post_to_follows: "follows (map_prod (\<lambda>b. b) sized) (post_to w msg m) (post_to w msg (sized m))"
  unfolding post_to_def sized_is_valid
  by (intro follows_kassert follows_bind [OF window_at_follows]) (auto intro!: follows_bind_same)

lemma post_follows: "follows sized (post w msg m) (post w msg (sized m))"
  unfolding post_def by (rule follows_bind [OF post_to_follows]) (auto split: prod.splits)

lemma change_window_follows:
  assumes "\<And>x. f (sized_window x) = sized_window (f x)"
  shows "follows sized (change_window w f m) (change_window w f (sized m))"
  unfolding change_window_def by (rule follows_bind [OF window_at_follows]) (simp add: assms)

lemma update_window_follows: "follows sized (update_window w m) (update_window w (sized m))"
  unfolding update_window_def by (rule follows_bind [OF window_at_follows]) (simp add: update_rect_follows)

lemma focus_with_follows:
  assumes "\<And>w m. follows sized (unfocus w m) (unfocus w (sized m))"
  shows "follows sized (focus_with unfocus w m) (focus_with unfocus w (sized m))"
proof -
  have first: "follows sized (case focus_win m of None \<Rightarrow> ok m | Some f \<Rightarrow> unfocus f m) (case focus_win m of None \<Rightarrow> ok (sized m) | Some f \<Rightarrow> unfocus f (sized m))"
    using assms by (simp split: option.splits)
  show ?thesis
    unfolding focus_with_def sized_is_valid sized_fields
    by (intro follows_kassert follows_if follows_bind [OF first] follows_bind [OF post_follows])
      (auto intro!: follows_bind [OF change_window_follows] follows_kassert update_window_follows)
qed

lemma last_visible_follows: "follows (\<lambda>x. x) (last_visible m w ws r) (last_visible (sized m) w ws r)"
proof (induction ws arbitrary: r)
  case (Cons x ws)
  then show ?case by (auto intro!: follows_bind [OF window_at_follows])
qed simp

lemma unfocus_with_follows:
  assumes "\<And>w m. follows sized (focus w m) (focus w (sized m))"
  shows "follows sized (unfocus_with focus w m) (unfocus_with focus w (sized m))"
proof -
  have last: "follows sized (case n of None \<Rightarrow> ok m' | Some n \<Rightarrow> focus n m') (case n of None \<Rightarrow> ok (sized m') | Some n \<Rightarrow> focus n (sized m'))" for n m'
    using assms by (simp split: option.splits)
  show ?thesis
    unfolding unfocus_with_def sized_is_valid sized_fields
    by (intro follows_kassert follows_if follows_bind [OF change_window_follows] follows_bind [OF post_follows])
      (auto simp: Let_def intro!: follows_bind [OF last_visible_follows] last)
qed

lemma focus_calls_follows: "follows sized (focus_calls n w m) (focus_calls n w (sized m))"
proof (induction n arbitrary: w m)
  case (Suc n)
  show ?case unfolding focus_calls.simps by (intro focus_with_follows unfocus_with_follows Suc.IH)
qed (simp add: follows_fault)

lemma focus_window_follows: "follows sized (focus_window w m) (focus_window w (sized m))"
  by (simp add: focus_window_def focus_calls_follows)

lemma unfocus_window_follows: "follows sized (unfocus_window w m) (unfocus_window w (sized m))"
  unfolding unfocus_window_def by (rule unfocus_with_follows) (rule focus_window_follows)

lemma switch_focus_follows: "follows sized (switch_focus m) (switch_focus (sized m))"
proof (cases "wm_windows m")
  case (Cons first rest)
  note ws = this
  show ?thesis
  proof (cases "focus_win m")
    case None
    then show ?thesis by (simp add: switch_focus_def ws focus_window_follows)
  next
    case (Some old)
    show ?thesis
    proof (cases "dropWhile (\<lambda>w. w \<noteq> old) (first # rest)")
      case Nil
      show ?thesis unfolding switch_focus_def sized_fields ws Some list.case option.case Nil by (rule follows_fault)
    next
      case (Cons o' behind)
      define new where "new = (case behind of [] \<Rightarrow> first | n # _ \<Rightarrow> n)"
      have last: "follows sized (bindE (change_window new (\<lambda>window. window\<lparr>focused := True\<rparr>) (m'\<lparr>focus_win := Some new\<rparr>)) (\<lambda>m.
          update_window new (m\<lparr>wm_windows := new # remove1 new (wm_windows m), wm_windows := remove1 old (wm_windows (m\<lparr>wm_windows := new # remove1 new (wm_windows m)\<rparr>)) @ [old]\<rparr>)))
        (bindE (change_window new (\<lambda>window. window\<lparr>focused := True\<rparr>) ((sized m')\<lparr>focus_win := Some new\<rparr>)) (\<lambda>m.
          update_window new (m\<lparr>wm_windows := new # remove1 new (wm_windows m), wm_windows := remove1 old (wm_windows (m\<lparr>wm_windows := new # remove1 new (wm_windows m)\<rparr>)) @ [old]\<rparr>)))"
        for m'
        unfolding sized_updates by (rule follows_bind [OF change_window_follows]) (simp_all add: update_window_follows)
      show ?thesis
        unfolding switch_focus_def sized_fields ws Some list.case option.case Cons Let_def new_def [symmetric]
        by (intro follows_if follows_bind [OF change_window_follows] follows_bind [OF post_follows] last) simp_all
    qed
  qed
qed (simp add: switch_focus_def)

subsection \<open>Windows and events\<close>

lemma set_geometry_sized [simp]: "set_geometry r (sized_window x) = sized_window (set_geometry r x)"
  by (simp add: set_geometry_def reallocate_framebuffer_def sized_window_def Let_def)

lemma constrain_sized [simp]: "constrain (sized m) = constrain m"
  by (simp add: constrain_def fun_eq_iff)

lemma set_window_geometry_follows: "follows sized (set_window_geometry w r m) (set_window_geometry w r (sized m))"
proof -
  have posted: "follows sized (if b then post w msg m' else ok m') (if b then post w msg (sized m') else ok (sized m'))" for b msg m'
    by (simp add: post_follows)
  have drawn: "follows sized (if b then update_rect r' m' else ok m') (if b then update_rect r' (sized m') else ok (sized m'))" for b r' m'
    by (simp add: update_rect_follows)
  show ?thesis
    unfolding set_window_geometry_def sized_is_valid Let_def
    by (intro follows_kassert follows_bind [OF window_at_follows])
      (simp only: set_geometry_sized sized_window_fields sized_set_window constrain_sized, intro follows_bind [OF posted] drawn)
qed

lemma place_window_follows: "follows sized (place_window w x y wd ht m) (place_window w x y wd ht (sized m))"
  unfolding place_window_def sized_is_valid
  by (intro follows_kassert) (simp add: Let_def set_window_geometry_follows)

lemma present_follows:
  "follows sized (present_window w m) (present_window w (sized m))" "follows sized (present_part w x y wd ht m) (present_part w x y wd ht (sized m))"
  unfolding present_window_def present_part_def sized_is_valid
  by (intro follows_kassert update_window_follows, intro follows_kassert follows_bind [OF window_at_follows])
    (simp add: Let_def update_rect_follows)

lemma mosaic_loop_follows: "follows sized (mosaic_loop ws wd ht columns current i j m) (mosaic_loop ws wd ht columns current i j (sized m))"
proof (induction ws arbitrary: current i j m)
  case (Cons w ws)
  show ?case unfolding mosaic_loop.simps Let_def sized_fields by (intro follows_bind [OF set_window_geometry_follows] follows_if Cons.IH)
qed simp

lemma mosaic_layout_follows: "follows sized (mosaic_layout m) (mosaic_layout (sized m))"
  unfolding mosaic_layout_def sized_fields Let_def by (intro follows_if mosaic_loop_follows) simp

lemma task_of_sized [simp]: "task_of (sized m) = task_of m"
  by (simp add: task_of_def fun_eq_iff split: option.splits)

lemma create_window_follows:
  "follows (map_prod (\<lambda>r. r) sized) (create_window t flags w g fb garbage m) (create_window t flags w g (Some (case fb of None \<Rightarrow> 0 | Some n \<Rightarrow> n)) garbage (sized m))"
proof -
  have new: "(new_window t g (Some (case fb of None \<Rightarrow> 0 | Some n \<Rightarrow> n)) garbage)\<lparr>has_frame := b\<rparr> = sized_window ((new_window t g fb garbage)\<lparr>has_frame := b\<rparr>)" for b
    by (simp add: new_window_def sized_window_def)
  have tm_set: "tm (set_window w x m) = tm m" for x by (simp add: set_window_def)
  show ?thesis
    unfolding create_window_def Let_def new sized_set_window sized_fields task_of_sized
    by (intro follows_if follows_bind_same follows_bind [OF focus_window_follows]) (simp_all add: follows_bind [OF focus_window_follows])
qed

lemma destroy_window_follows: "follows sized (destroy_window w m) (destroy_window w (sized m))"
proof -
  define forget where "forget m' = (let m' = m'\<lparr>win := (win m')(w := None)\<rparr> in
     if wm_windows m' = [] then ok m' else focus_window (last (wm_windows m')) m')" for m'
  define remove where "remove m' = (let m' = m'\<lparr>wm_windows := remove1 w (wm_windows m'), window_count := window_count m' - 1\<rparr> in
     bindE (window_at m' w) (\<lambda>window. bindE (if visible window then update_rect (geometry window) m' else ok m') forget))" for m'
  have forget: "follows sized (forget m') (forget (sized m'))" for m'
    unfolding forget_def sized_updates Let_def sized_fields by (intro follows_if focus_window_follows) simp
  have remove: "follows sized (remove m') (remove (sized m'))" for m'
    unfolding remove_def sized_fields sized_updates Let_def
    by (rule follows_bind [OF window_at_follows]) (auto intro!: forget follows_bind [OF update_rect_follows])
  have d: "destroy_window w m = kassert (is_valid m w) (bindE (window_at m w) (\<lambda>window.
       bindE (task_at (tm m) (win_task window)) (\<lambda>t. bindE (unregister_window (task_of m) (win_task window) t (Some w)) (\<lambda>t.
         bindE (if focus_win m = Some w then unfocus_window w (m\<lparr>tm := set_task (tm m) (win_task window) (\<lambda>_. t)\<rparr>)
                else ok (m\<lparr>tm := set_task (tm m) (win_task window) (\<lambda>_. t)\<rparr>)) remove))))" for m
    unfolding destroy_window_def remove_def [abs_def] forget_def [abs_def] Let_def by simp
  show ?thesis
    unfolding d sized_is_valid
    by (intro follows_kassert follows_bind [OF window_at_follows])
      (auto intro!: follows_bind_same remove follows_bind [OF unfocus_window_follows])
qed

lemma move_focus_follows:
  "follows sized (move_focus_window dx dy m) (move_focus_window dx dy (sized m))" "follows sized (resize_focus_window dx dy m) (resize_focus_window dx dy (sized m))"
  by (auto simp: move_focus_window_def resize_focus_window_def Let_def set_window_geometry_follows split: option.splits
      intro!: follows_bind [OF window_at_follows])

abbreviation handled :: "bool \<times> window_manager \<Rightarrow> bool \<times> window_manager" where
  "handled \<equiv> map_prod (\<lambda>b. b) sized"

lemma handled_follows: "follows sized r r' \<Longrightarrow> follows handled (bindE r (\<lambda>m. ok (True, m))) (bindE r' (\<lambda>m. ok (True, m)))"
  by (erule follows_bind) simp

lemma handled_bind_follows:
  "follows handled r r' \<Longrightarrow> (\<And>m'. follows sized (k m') (k' (sized m')))
    \<Longrightarrow> follows sized (bindE r (\<lambda>(h, m). if h then ok m else k m)) (bindE r' (\<lambda>(h, m). if h then ok m else k' m))"
  by (erule follows_bind) (auto split: prod.splits)

lemma handle_key_event_follows: "follows handled (handle_key_event f event m) (handle_key_event f event (sized m))"
proof -
  have "follows sized (case focus_win m of None \<Rightarrow> ok m | Some w \<Rightarrow> set_window_geometry w r m) (case focus_win m of None \<Rightarrow> ok (sized m) | Some w \<Rightarrow> set_window_geometry w r (sized m))"
    "follows sized (case focus_win m of None \<Rightarrow> ok m | Some w \<Rightarrow> post w msg m) (case focus_win m of None \<Rightarrow> ok (sized m) | Some w \<Rightarrow> post w msg (sized m))"
    "follows sized (bindE (f (tm m)) (\<lambda>s. ok (m\<lparr>tm := s\<rparr>))) (bindE (f (tm m)) (\<lambda>s. ok ((sized m)\<lparr>tm := s\<rparr>)))"
    "follows sized (if c then resize_focus_window dx dy m else move_focus_window dx dy m) (if c then resize_focus_window dx dy (sized m) else move_focus_window dx dy (sized m))"
    for r msg c dx dy
    by (auto simp: set_window_geometry_follows post_follows move_focus_follows split: option.splits intro!: follows_bind_same)
  note steps = handled_follows [OF this(1)] handled_follows [OF this(2)] handled_follows [OF this(3)] handled_follows [OF this(4)]
    handled_follows [OF switch_focus_follows] handled_follows [OF mosaic_layout_follows]
  show ?thesis unfolding handle_key_event_def Let_def sized_fields by (intro follows_if steps) simp_all
qed

lemma handle_mouse_move_follows: "follows handled (handle_mouse_move_event dx dy m) (handle_mouse_move_event dx dy (sized m))"
proof -
  have "clip_rect_to_screen (sized m') = clip_rect_to_screen m'" for m' by (simp add: clip_rect_to_screen_def fun_eq_iff)
  then show ?thesis
    unfolding handle_mouse_move_event_def Let_def sized_fields sized_updates by (auto intro!: follows_bind [OF update_rect_follows])
qed

lemma window_under_follows: "follows (\<lambda>r. r) (window_under m ws) (window_under (sized m) ws)"
proof (induction ws)
  case (Cons w ws)
  then show ?case by (auto intro!: follows_bind [OF window_at_follows])
qed simp

lemma handle_mouse_click_follows: "follows handled (handle_mouse_click_event b p m) (handle_mouse_click_event b p (sized m))"
  unfolding handle_mouse_click_event_def sized_fields
  by (intro follows_if follows_bind [OF window_under_follows]) (auto split: option.splits intro!: follows_bind [OF focus_window_follows])

lemma post_event_follows: "follows sized (post_event f msg m) (post_event f msg (sized m))"
proof -
  have last: "follows sized (case focus_win m' of None \<Rightarrow> ok m' | Some w \<Rightarrow> post w msg m') (case focus_win m' of None \<Rightarrow> ok (sized m') | Some w \<Rightarrow> post w msg (sized m'))" for m'
    by (simp add: post_follows split: option.splits)
  show ?thesis
    unfolding post_event_def sized_fields 
    by (intro follows_if handled_bind_follows)
      (simp_all add: handle_key_event_follows handle_mouse_move_follows handle_mouse_click_follows last)
qed

lemma set_window_visibility_follows: "follows sized (set_window_visibility w shows m) (set_window_visibility w shows (sized m))"
proof -
  have flag: "follows handled (bindE r (\<lambda>m. ok (True, m))) (bindE r' (\<lambda>m. ok (True, m)))" if "follows sized r r'" for r r' by (rule handled_follows [OF that])
  have first: "follows handled
      (if shows then (if focus_win m' = None then bindE (focus_window w m') (\<lambda>m. ok (True, m)) else ok (False, m'))
       else (if focus_win m' = Some w then bindE (unfocus_window w m') (\<lambda>m. ok (True, m)) else ok (False, m')))
      (if shows then (if focus_win m' = None then bindE (focus_window w (sized m')) (\<lambda>m. ok (True, m)) else ok (False, sized m'))
       else (if focus_win m' = Some w then bindE (unfocus_window w (sized m')) (\<lambda>m. ok (True, m)) else ok (False, sized m')))" for m'
    by (intro follows_if flag focus_window_follows unfocus_window_follows) simp_all
  show ?thesis
    unfolding set_window_visibility_def sized_is_valid Let_def
    by (intro follows_kassert follows_bind [OF window_at_follows])
      (simp only: sized_window_fields sized_window_updates sized_set_window sized_fields, intro follows_if follows_bind [OF first],
        simp, auto intro!: follows_bind [OF post_follows] update_window_follows)
qed

definition sized_op :: "wm_op \<Rightarrow> wm_op" where
  "sized_op op = (case op of Create t flags w g fb garbage \<Rightarrow> Create t flags w g (Some (case fb of None \<Rightarrow> 0 | Some n \<Rightarrow> n)) garbage | _ \<Rightarrow> op)"

lemma wm_exec_follows: "follows sized (wm_exec f op m) (wm_exec f (sized_op op) (sized m))"
proof (cases op)
  case (Create t flags w g fb garbage)
  then show ?thesis
    by (auto simp: wm_exec_def sized_op_def intro!: follows_bind [OF create_window_follows] split: prod.splits)
qed (simp_all add: wm_exec_def sized_op_def destroy_window_follows set_window_visibility_follows place_window_follows set_window_geometry_follows
    focus_window_follows unfocus_window_follows post_follows present_follows mosaic_layout_follows post_event_follows)

subsection \<open>The assertion of \<open>draw_window\<close> is the only one that can fail\<close>

text \<open>The invariant without the frame buffers.\<close>

definition wm_sound :: "window_manager \<Rightarrow> bool" where
  "wm_sound m \<longleftrightarrow> wm_inv (sized m)"

definition all_sized :: "window_manager \<Rightarrow> bool" where
  "all_sized m \<longleftrightarrow> (\<forall>w \<in> set (wm_windows m). \<forall>x. win m w = Some x \<longrightarrow> visible x \<longrightarrow> framebuffer x \<noteq> None)"

lemma queue_ok_sized [simp]: "queue_ok (sized m) = queue_ok m"
  by (simp add: queue_ok_def fun_eq_iff)

lemma sound_iff: "wm_inv m \<longleftrightarrow> wm_sound m \<and> all_sized m"
proof -
  have "window_ok m w \<longleftrightarrow> window_ok (sized m) w \<and> (\<forall>x. win m w = Some x \<longrightarrow> visible x \<longrightarrow> framebuffer x \<noteq> None)" for w
    by (auto simp: window_ok_def) (auto simp: sized_window_def)
  then have "base m \<longleftrightarrow> base (sized m) \<and> all_sized m" by (auto simp: base_def screen_ok_def all_sized_def)
  moreover have "registered m \<longleftrightarrow> registered (sized m)" by (auto simp: registered_def)
  ultimately show ?thesis by (auto simp: wm_inv_def wm_sound_def)
qed

text \<open>The states the window manager reaches when nobody looks whether a window that is shown has a frame buffer.\<close>

inductive wm_runs :: "(task_manager \<Rightarrow> task_manager outcome) \<Rightarrow> window_manager \<Rightarrow> bool" for f where
  start: "\<lbrakk>tm_inv s; \<forall>t \<in> set (tasks s). m_windows t = []; MIN_WIDTH \<le> wd; wd < 2 ^ 15; MIN_HEIGHT \<le> ht; ht < 2 ^ 15; wm_new wd ht paper s time = ok m\<rbrakk> \<Longrightarrow> wm_runs f m"
| operation: "\<lbrakk>wm_runs f m; op_valid m op; wm_exec f op m = ok m'\<rbrakk> \<Longrightarrow> wm_runs f m'"
| others: "\<lbrakk>wm_runs f m; tasks_move (tm m) s\<rbrakk> \<Longrightarrow> wm_runs f (m\<lparr>tm := s\<rparr>)"
| clock: "wm_runs f m \<Longrightarrow> wm_runs f (m\<lparr>now := time\<rparr>)"

lemma sound_exec:
  assumes m: "wm_sound m" and f: "spawns f" and op: "op_valid m op"
  shows "(\<exists>m'. wm_exec f op m = ok m' \<and> wm_sound m') \<or> wm_exec f op m = Inl Panic \<and> \<not> (all_sized m \<and> shows_sized m op)"
proof (cases "wm_exec f op m = Inl Panic")
  case True
  moreover have "safe (wm_exec f op m) (\<lambda>_. True)" if "all_sized m" "shows_sized m op"
    by (rule wm_exec_safe [OF _ f]) (use m op that in \<open>simp_all add: sound_iff op_ok_def\<close>)
  ultimately show ?thesis by (auto simp: safe_def)
next
  case False
  have "win (sized m) w \<noteq> None" if "w \<in> set (wm_windows m)" for w
    using m that by (auto simp: wm_sound_def wm_inv_def base_def window_ok_def)
  then have "op_ok (sized m) (sized_op op)"
    using op by (cases op) (fastforce simp: op_ok_defs sized_op_def sized_window_def split: option.splits)+
  from wm_exec_safe [OF _ f this] obtain m2 where m2: "wm_exec f (sized_op op) (sized m) = ok m2" "wm_inv m2"
    using m by (auto simp: wm_sound_def safe_def)
  moreover have "wm_exec f (sized_op op) (sized m) = map_sum (\<lambda>e. e) sized (wm_exec f op m)"
    using wm_exec_follows [of f op m] False by (simp add: follows_def id_def)
  ultimately show ?thesis by (cases "wm_exec f op m") (auto simp: wm_sound_def)
qed

lemma sound_tasks_move: "wm_sound m \<Longrightarrow> tasks_move (tm m) s \<Longrightarrow> wm_sound (m\<lparr>tm := s\<rparr>)"
  using tasks_move_inv [of "sized m" s] by (simp add: wm_sound_def)

lemma sound_clock: "wm_sound m \<Longrightarrow> wm_sound (m\<lparr>now := time\<rparr>)"
  using clock_inv [of "sized m" time] by (simp add: wm_sound_def)

lemma wm_runs_sound: "wm_runs f m \<Longrightarrow> spawns f \<Longrightarrow> wm_sound m"
proof (induction rule: wm_runs.induct)
  case (start s wd ht paper time m)
  then show ?case using wm_new_safe [of s wd ht paper time] by (simp add: safe_def sound_iff)
next
  case (operation m op m')
  then show ?case using sound_exec [of m f op] by auto
qed (simp_all add: sound_tasks_move sound_clock)

lemma wm_reachable_runs: "wm_reachable f m \<Longrightarrow> wm_runs f m"
  by (induction rule: wm_reachable.induct) (auto intro: wm_runs.intros simp: op_ok_def)

text \<open>And it does fail: the topmost window, shown without a frame buffer while some window has the focus.\<close>

lemma update_unsized_panics:
  assumes m: "is_supported m" "wm_windows m = w # ws" "win m w = Some x" and x: "visible x" "framebuffer x = None"
    and g: "on_screen (geometry x)" "\<not> is_null (geometry x)"
  shows "update_window w m = Inl Panic"
proof -
  define r where "r = geometry x"
  have r: "rect_ok r" "\<not> is_null r" "rx1 r < rx2 r" "ry1 r < ry2 r" "rx1 r \<ge> 0" "ry1 r \<ge> 0" "rx2 r < 2 ^ 30" "ry2 r < 2 ^ 30"
    using g by (auto simp: r_def on_screen_def is_null_iff rect_ok_def)
  have inter: "intersection_with r r = r"
    using r by (simp add: intersection_with_def normalize_id make_rect_id)
  have "uint32 (width r) \<noteq> 0" "uint32 (height r) \<noteq> 0" using r by simp_all
  moreover have "intersects r r" using r by (simp add: intersects_iff)
  ultimately have "draw_window m w r = Inl Panic"
    using m(3) x by (simp add: draw_window_def window_at_def r_def [symmetric] Let_def)
  then have "draw_windows_helper m (w # ws) r = Inl Panic"
    using m(3) x(1) r(2) by (simp add: window_at_def r_def [symmetric] Let_def inter both_def)
  then show ?thesis using m by (simp add: update_window_def window_at_def r_def [symmetric] update_rect_def draw_windows_def del: draw_windows_helper.simps)
qed

lemma showing_without_framebuffer_panics:
  assumes m: "wm_sound m" "is_supported m" "wm_windows m = w # ws" "focus_win m \<noteq> None" and x: "win m w = Some x" "\<not> visible x" "framebuffer x = None"
    and g: "\<not> is_null (geometry x)"
  shows "set_window_visibility w True m = Inl Panic"
proof -
  have b: "base (sized m)" using m(1) by (simp add: wm_sound_def wm_inv_def)
  have os: "on_screen (geometry x)" by (rule window_okD [OF b, of w]) (use m(3) x(1) in auto)
  define m1 where "m1 = set_window w (x\<lparr>visible := True\<rparr>) m"
  have m1: "is_supported m1" "wm_windows m1 = w # ws" "win m1 w = Some (x\<lparr>visible := True\<rparr>)" "focus_win m1 \<noteq> None"
    using m by (simp_all add: m1_def set_window_def)
  have "bindE (post w (message SYS_MSG_SHOW 0 0) m1) (update_window w) = Inl Panic"
  proof (cases "post w (message SYS_MSG_SHOW 0 0) m1")
    case (Inr m2)
    then obtain q s where "m2 = set_window w (x\<lparr>visible := True, win_queue := q\<rparr>) (m1\<lparr>tm := s\<rparr>)"
      using m1(3) by (auto simp: post_def post_to_def window_at_def)
    then have "update_window w m2 = Inl Panic"
      using m1 x(3) os g
      by (intro update_unsized_panics [where x = "x\<lparr>visible := True, win_queue := q\<rparr>" and ws = ws]) (simp_all add: set_window_def)
    then show ?thesis using Inr by simp
  next
    case (Inl e)
    have "goes (sized m1) (post w (message SYS_MSG_SHOW 0 0) (sized m1)) (\<lambda>m'. focus_win m' = focus_win (sized m1) \<and> wm_windows m' = wm_windows (sized m1))"
    proof (rule post_goes)
      have "wm_inv (set_window w (sized_window (x\<lparr>visible := True\<rparr>)) (sized m))"
        by (rule replace_window [of "sized m" w "sized_window x"]) (use m x os in \<open>auto simp: wm_sound_def sized_window_def\<close>)
      then show "base (sized m1)" by (simp add: wm_inv_def m1_def)
    qed (simp add: m1(2))
    then obtain m2 where "post w (message SYS_MSG_SHOW 0 0) (sized m1) = ok m2" by (auto simp: goes_def)
    then have "e = Panic" using post_follows [of w "message SYS_MSG_SHOW 0 0" m1] Inl by (auto simp: follows_def)
    then show ?thesis using Inl by simp
  qed
  then show ?thesis
    using m x m1(4) unfolding set_window_visibility_def
    by (auto simp: is_valid_def window_at_def m1_def [symmetric])
qed

subsection \<open>Properties\<close>



text \<open>
  C34. In every state the window manager can reach, the windows of its list are distinct, counted by \<^verbatim>\<open>m_window_count\<close>, alive and
  owned by the task they belong to, which exists and has them in its list; the window that has the focus is one of them; and the
  windows that a task lists are exactly its windows, each once. The rectangle of every window is normalised and not in front of
  the origin, provided that the memory of new windows holds such a rectangle (\<open>op_valid\<close>).
\<close>

theorem windows_are_owned_and_alive:
  assumes "wm_runs spawn m" and "spawns spawn"
  shows "distinct (wm_windows m) \<and> window_count m = length (wm_windows m)
    \<and> (case focus_win m of None \<Rightarrow> True | Some w \<Rightarrow> w \<in> set (wm_windows m))
    \<and> list_all (\<lambda>w. case win m w of None \<Rightarrow> False
        | Some x \<Rightarrow> win_task x < length (tasks (tm m)) \<and> w \<in> set (m_windows (tasks (tm m) ! win_task x)) \<and> on_screen (geometry x)) (wm_windows m)
    \<and> (\<forall>p < length (tasks (tm m)). distinct (m_windows (tasks (tm m) ! p)) \<and> set (m_windows (tasks (tm m) ! p)) = {w \<in> set (wm_windows m). task_of m w = p})"
proof -
  have i: "base (sized m)" "registered m" using wm_runs_sound [OF assms] by (auto simp: wm_sound_def wm_inv_def registered_def)
  have "case win m w of None \<Rightarrow> False
      | Some x \<Rightarrow> win_task x < length (tasks (tm m)) \<and> w \<in> set (m_windows (tasks (tm m) ! win_task x)) \<and> on_screen (geometry x)"
    if w: "w \<in> set (wm_windows m)" for w
  proof -
    obtain x where "win (sized m) w = Some x" "on_screen (geometry x)" "win_task x < length (tasks (tm (sized m)))"
      by (rule window_okD [OF i(1)]) (use w in simp_all)
    then obtain x where "win m w = Some x" "on_screen (geometry x)" "win_task x < length (tasks (tm m))" by auto
    then show ?thesis using i(2) w by (auto simp: registered_def owned_def)
  qed
  moreover have "distinct (m_windows (tasks (tm m) ! p)) \<and> set (m_windows (tasks (tm m) ! p)) = {w \<in> set (wm_windows m). task_of m w = p}"
    if p: "p < length (tasks (tm m))" for p
  proof -
    have l: "lists_ok (owned (tm m)) (wm_windows m) (task_of m)" using i(2) by (simp add: registered_def)
    have o': "owned (tm m) ! p = m_windows (tasks (tm m) ! p)" using p by (simp add: owned_def)
    have "w \<in> set (owned (tm m) ! p)" if "w \<in> set (wm_windows m)" "task_of m w = p" for w
      using i(2) that by (auto simp: registered_def task_of_def)
    then show ?thesis using l p o' by (auto simp: lists_ok_def length_owned)
  qed
  moreover have "distinct (wm_windows m)" "case focus_win m of None \<Rightarrow> True | Some w \<Rightarrow> w \<in> set (wm_windows m)"
    using i(1) by (auto simp: base_def split: option.splits)
  ultimately show ?thesis using i(2) by (simp add: registered_def list_all_iff)
qed

theorem windows_are_owned_and_alive_witness:
  "\<exists>(m :: window_manager) x. wm_windows m = [7] \<and> window_count m = 1 \<and> win m 7 = Some x \<and> 7 \<in> set (m_windows (tasks (tm m) ! win_task x))"
proof -
  obtain m2 where m2: "wm_reachable ok m2" "wm_windows m2 = [7]" by (rule example_session)
  then have "wm_windows m2 = [7] \<and> window_count m2 = 1 \<and> (\<exists>x. win m2 7 = Some x \<and> 7 \<in> set (m_windows (tasks (tm m2) ! win_task x)))"
    using windows_are_owned_and_alive [OF wm_reachable_runs spawns_ok, of m2] by (cases "win m2 7") (simp_all add: task_of_def)
  then show ?thesis by blast
qed

end
