(* ===== verification/Syscalls.thy ===== *)
theory Syscalls
  imports Window_Faults C_String
begin

text \<open>
  The system calls on tasks, windows and messages (\<^verbatim>\<open>kernel/task/pika_syscalls.cpp\<close>) and their dispatch
  (\<^verbatim>\<open>syscall_table.cpp\<close>). A handler gets the registers of the calling task and returns them changed; \<open>user\<close> is the memory of the
  calling process. A \<^verbatim>\<open>Window*\<close> in a register is the number of the window, 0 the null pointer. \<^verbatim>\<open>check_ptr\<close> tests for null only;
  here every other address is memory of the process, so the fault of a pointer that is not mapped is not modelled. What programs
  draw into their windows is recorded in \<open>painted\<close>; the pixels are not modelled.
\<close>

record Registers =
  gp_regs :: "nat \<Rightarrow> u64"
  elr :: u64
  esr :: u64

datatype gfx_command =
    Clear u32
  | Draw_Line u32 u32 u32 u32 u32
  | Draw_Rect u32 u32 u32 u32 u32
  | Fill_Rect u32 u32 u32 u32 u32
  | Draw_Text u32 u32 addr u32
  | Blit_Pixels u32 u32 u32 u32 addr

record kernel =
  wmgr :: window_manager
  user :: "addr \<Rightarrow> u8"
  painted :: "(nat \<times> gfx_command) list"

type_synonym handler = "Registers \<Rightarrow> kernel \<Rightarrow> (Registers \<times> kernel) outcome"

definition SYS_ERR_OK :: u64 where "SYS_ERR_OK = 0"
definition SYS_ERR_INTERNAL :: u64 where "SYS_ERR_INTERNAL = 2"
definition SYS_ERR_UNKNOWN_SYSCALL :: u64 where "SYS_ERR_UNKNOWN_SYSCALL = 3"
definition SYS_ERR_INVALID_PRIORITY :: u64 where "SYS_ERR_INVALID_PRIORITY = 4"
definition SYS_ERR_MSG_QUEUE_EMPTY :: u64 where "SYS_ERR_MSG_QUEUE_EMPTY = 5"
definition SYS_ERR_INVALID_WINDOW :: u64 where "SYS_ERR_INVALID_WINDOW = 7"

definition set_x0 :: "u64 \<Rightarrow> Registers \<Rightarrow> Registers" where
  "set_x0 v regs = regs\<lparr>gp_regs := (gp_regs regs)(0 := v)\<rparr>"

definition set_error :: "u64 \<Rightarrow> Registers \<Rightarrow> Registers" where
  "set_error = set_x0"

definition step_back_one_inst :: "Registers \<Rightarrow> Registers" where
  "step_back_one_inst regs = regs\<lparr>elr := elr regs - (if esr regs AND push_bit 25 1 \<noteq> 0 then 4 else 2)\<rparr>"

definition check_ptr :: "addr \<Rightarrow> bool" where
  "check_ptr p \<longleftrightarrow> p \<noteq> 0"

text \<open>Stores to the memory of the process.\<close>

definition store_bytes :: "addr \<Rightarrow> u8 list \<Rightarrow> (addr \<Rightarrow> u8) \<Rightarrow> addr \<Rightarrow> u8" where
  "store_bytes p bs mem a = (if unat (a - p) < length bs then bs ! unat (a - p) else mem a)"

definition bytes32 :: "u32 \<Rightarrow> u8 list" where
  "bytes32 v = map (\<lambda>i. ucast (drop_bit (8 * i) v)) [0..<4]"

definition bytes64 :: "u64 \<Rightarrow> u8 list" where
  "bytes64 v = map (\<lambda>i. ucast (drop_bit (8 * i) v)) [0..<8]"

definition message_bytes :: "sys_message \<Rightarrow> u8 list" where
  "message_bytes msg = bytes32 (msg_id msg) @ bytes32 (timestamp msg) @ bytes64 (param1 msg) @ bytes64 (param2 msg)"

definition store_user :: "addr \<Rightarrow> u8 list \<Rightarrow> kernel \<Rightarrow> kernel" where
  "store_user p bs k = k\<lparr>user := store_bytes p bs (user k)\<rparr>"

text \<open>\<^verbatim>\<open>Task::current()\<close>, dereferenced.\<close>

definition current_task :: "kernel \<Rightarrow> (tptr \<times> task) outcome" where
  "current_task k =
     (case m_current_task (tm (wmgr k)) of None \<Rightarrow> Inl Undefined | Some p \<Rightarrow> bindE (task_at (tm (wmgr k)) p) (\<lambda>t. ok (p, t)))"

definition window_ptr :: "u64 \<Rightarrow> nat option" where
  "window_ptr v = (if v = 0 then None else Some (unat v))"

definition wm_do :: "(window_manager \<Rightarrow> window_manager outcome) \<Rightarrow> kernel \<Rightarrow> kernel outcome" where
  "wm_do f k = bindE (f (wmgr k)) (\<lambda>m. ok (k\<lparr>wmgr := m\<rparr>))"

definition tm_do :: "(task_manager \<Rightarrow> task_manager outcome) \<Rightarrow> kernel \<Rightarrow> kernel outcome" where
  "tm_do f k = bindE (f (tm (wmgr k))) (\<lambda>s. ok (k\<lparr>wmgr := (wmgr k)\<lparr>tm := s\<rparr>\<rparr>))"

subsection \<open>Tasks\<close>

definition sys_unknown :: handler where
  "sys_unknown regs k = ok (set_error SYS_ERR_UNKNOWN_SYSCALL regs, k)"

definition sys_getpid :: handler where
  "sys_getpid regs k = bindE (current_task k) (\<lambda>(p, t). ok (set_x0 (ucast (m_id t)) regs, k))"

definition sys_sleep :: handler where
  "sys_sleep regs k =
     (let time_in_us = gp_regs regs 0; regs = set_error SYS_ERR_OK regs in
      if 0 < time_in_us then bindE (tm_do (\<lambda>s. sleep_task s (m_current_task s) time_in_us) k) (\<lambda>k. ok (regs, k)) else ok (regs, k))"

definition sys_yield :: handler where
  "sys_yield regs k = bindE (tm_do schedule k) (\<lambda>k. ok (set_error SYS_ERR_OK regs, k))"

definition sys_sched_set_priority :: handler where
  "sys_sched_set_priority regs k =
     (let s = tm (wmgr k) in
      bindE (set_task_priority s (m_current_task s) (unat (ucast (gp_regs regs 1) :: u32))) (\<lambda>(changed, s).
        ok (set_error (if changed then SYS_ERR_OK else SYS_ERR_INVALID_PRIORITY) regs, k\<lparr>wmgr := (wmgr k)\<lparr>tm := s\<rparr>\<rparr>)))"

definition sys_sched_get_priority :: handler where
  "sys_sched_get_priority regs k =
     (let priority = gp_regs regs 1 in
      if \<not> check_ptr priority then ok (regs, k)
      else bindE (current_task k) (\<lambda>(p, t).
        ok (set_error SYS_ERR_OK regs, store_user priority (bytes32 (of_nat (m_priority t))) k)))"

subsection \<open>Messages\<close>

text \<open>\<^verbatim>\<open>check_window\<close>, and the window behind the pointer.\<close>

definition with_window :: "(nat \<Rightarrow> Window \<Rightarrow> handler) \<Rightarrow> handler" where
  "with_window f regs k =
     bindE (current_task k) (\<lambda>(p, t).
       case window_ptr (gp_regs regs 0) of
         None \<Rightarrow> ok (set_error SYS_ERR_INVALID_WINDOW regs, k)
       | Some w \<Rightarrow>
           if own_window t (Some w) then bindE (window_at (wmgr k) w) (\<lambda>window. f w window regs k)
           else ok (set_error SYS_ERR_INVALID_WINDOW regs, k))"

definition set_queue :: "nat \<Rightarrow> Window \<Rightarrow> sys_message message_queue \<Rightarrow> kernel \<Rightarrow> kernel" where
  "set_queue w window q k = k\<lparr>wmgr := set_window w (window\<lparr>win_queue := q\<rparr>) (wmgr k)\<rparr>"

text \<open>Taking the next message to \<open>msg\<close>; \<open>e\<close> is the error when there is none.\<close>

definition deliver :: "u64 \<Rightarrow> nat \<Rightarrow> addr \<Rightarrow> handler" where
  "deliver e w msg regs k =
     bindE (window_at (wmgr k) w) (\<lambda>window.
       bindE (mq_dequeue (win_queue window)) (\<lambda>(r, q).
         let k = set_queue w window q k in
         ok (case r of None \<Rightarrow> (set_error e regs, k) | Some m \<Rightarrow> (set_error SYS_ERR_OK regs, store_user msg (message_bytes m) k))))"

definition sys_poll_msg :: handler where
  "sys_poll_msg = with_window (\<lambda>w window regs k.
     let msg = gp_regs regs 1 in
     if \<not> check_ptr msg then ok (regs, k) else deliver SYS_ERR_MSG_QUEUE_EMPTY w msg regs k)"

definition sys_wait_msg :: handler where
  "sys_wait_msg = with_window (\<lambda>w window regs k.
     let msg = gp_regs regs 1; s = tm (wmgr k) in
     if \<not> check_ptr msg then ok (regs, k)
     else bindE (block_task_until_not_empty s (win_queue window) (m_current_task s)) (\<lambda>(blocked, q, s).
       let k = set_queue w window q (k\<lparr>wmgr := (wmgr k)\<lparr>tm := s\<rparr>\<rparr>) in
       if blocked then ok (step_back_one_inst regs, k) else deliver SYS_ERR_INTERNAL w msg regs k))"

subsection \<open>Windows\<close>

text \<open>The object of the window that is created, and what is in its memory, come from the allocator.\<close>

definition sys_window_create :: "nat \<Rightarrow> Rect \<Rightarrow> int option \<Rightarrow> sys_message list \<Rightarrow> handler" where
  "sys_window_create w g fb garbage regs k =
     bindE (current_task k) (\<lambda>(p, t).
       bindE (create_window p (ucast (gp_regs regs 0)) w g fb garbage (wmgr k)) (\<lambda>(window, m).
         ok (set_x0 (case window of None \<Rightarrow> 0 | Some w \<Rightarrow> of_nat w) regs, k\<lparr>wmgr := m\<rparr>)))"

definition sys_window_destroy :: handler where
  "sys_window_destroy = with_window (\<lambda>w window regs k. ok (set_error SYS_ERR_OK regs, k))"

definition sys_window_get_visibility :: handler where
  "sys_window_get_visibility = with_window (\<lambda>w window regs k.
     let p = gp_regs regs 1 in
     ok (set_error SYS_ERR_OK regs, if p \<noteq> 0 then store_user p [if visible window then 1 else 0] k else k))"

definition sys_window_set_visibility :: handler where
  "sys_window_set_visibility = with_window (\<lambda>w window regs k.
     bindE (wm_do (set_window_visibility w (gp_regs regs 1 \<noteq> 0)) k) (\<lambda>k. ok (set_error SYS_ERR_OK regs, k)))"

definition store_if :: "addr \<Rightarrow> int \<Rightarrow> kernel \<Rightarrow> kernel" where
  "store_if p v k = (if p \<noteq> 0 then store_user p (bytes32 (word_of_int v)) k else k)"

definition sys_window_get_geometry :: handler where
  "sys_window_get_geometry = with_window (\<lambda>w window regs k.
     let g = geometry window;
         k = store_if (gp_regs regs 1) (rx1 g) k;
         k = store_if (gp_regs regs 2) (ry1 g) k;
         k = store_if (gp_regs regs 3) (width g) k;
         k = store_if (gp_regs regs 4) (height g) k in
     ok (set_error SYS_ERR_OK regs, k))"

definition int32_of :: "u64 \<Rightarrow> int" where
  "int32_of v = sint (ucast v :: u32)"

definition uint32_of :: "u64 \<Rightarrow> int" where
  "uint32_of v = uint (ucast v :: u32)"

definition sys_window_set_geometry :: handler where
  "sys_window_set_geometry = with_window (\<lambda>w window regs k.
     bindE (wm_do (place_window w (int32_of (gp_regs regs 1)) (int32_of (gp_regs regs 2)) (int32_of (gp_regs regs 3)) (int32_of (gp_regs regs 4))) k)
       (\<lambda>k. ok (set_error SYS_ERR_OK regs, k)))"

definition sys_window_present :: handler where
  "sys_window_present = with_window (\<lambda>w window regs k.
     bindE (wm_do (present_part w (uint32_of (gp_regs regs 1)) (uint32_of (gp_regs regs 2)) (uint32_of (gp_regs regs 3)) (uint32_of (gp_regs regs 4))) k)
       (\<lambda>k. ok (set_error SYS_ERR_OK regs, k)))"

text \<open>The title: the characters up to the first zero, found by \<^verbatim>\<open>strlen\<close>.\<close>

definition user_string :: "(addr \<Rightarrow> u8) \<Rightarrow> addr \<Rightarrow> string outcome" where
  "user_string mem p =
     (case strlen (\<lambda>a. mem (of_nat a)) (unat p) of
        None \<Rightarrow> Inl Diverges
      | Some n \<Rightarrow> ok (map (\<lambda>i. char_of (unat (mem (p + of_nat i)))) [0..<n]))"

definition sys_window_set_title :: handler where
  "sys_window_set_title = with_window (\<lambda>w window regs k.
     let title = gp_regs regs 1 in
     if \<not> check_ptr title then ok (regs, k)
     else bindE (user_string (user k) title) (\<lambda>title.
       ok (set_error SYS_ERR_OK regs, k\<lparr>wmgr := set_window w (set_title title window) (wmgr k)\<rparr>)))"

subsection \<open>Drawing into windows\<close>

definition paint_window :: "nat \<Rightarrow> gfx_command \<Rightarrow> kernel \<Rightarrow> kernel" where
  "paint_window w c k = k\<lparr>painted := painted k @ [(w, c)]\<rparr>"

definition unpack_couple :: "u64 \<Rightarrow> u32 \<times> u32" where
  "unpack_couple reg = (ucast (reg AND 0xFFFFFFFF), ucast (drop_bit 32 reg AND 0xFFFFFFFF))"

definition sys_gfx_clear :: handler where
  "sys_gfx_clear = with_window (\<lambda>w window regs k.
     ok (set_error SYS_ERR_OK regs, paint_window w (Clear (ucast (gp_regs regs 1))) k))"

definition sys_gfx_draw_line :: handler where
  "sys_gfx_draw_line = with_window (\<lambda>w window regs k.
     let (x0, y0) = unpack_couple (gp_regs regs 1); (x1, y1) = unpack_couple (gp_regs regs 2) in
     ok (set_error SYS_ERR_OK regs, paint_window w (Draw_Line x0 y0 x1 y1 (ucast (gp_regs regs 3))) k))"

definition sys_gfx_draw_rect :: handler where
  "sys_gfx_draw_rect = with_window (\<lambda>w window regs k.
     let (x, y) = unpack_couple (gp_regs regs 1); (wd, ht) = unpack_couple (gp_regs regs 2) in
     ok (set_error SYS_ERR_OK regs, paint_window w (Draw_Rect x y wd ht (ucast (gp_regs regs 3))) k))"

definition sys_gfx_fill_rect :: handler where
  "sys_gfx_fill_rect = with_window (\<lambda>w window regs k.
     let (x, y) = unpack_couple (gp_regs regs 1); (wd, ht) = unpack_couple (gp_regs regs 2) in
     ok (set_error SYS_ERR_OK regs, paint_window w (Fill_Rect x y wd ht (ucast (gp_regs regs 3))) k))"

definition sys_gfx_draw_text :: handler where
  "sys_gfx_draw_text = with_window (\<lambda>w window regs k.
     let (x, y) = unpack_couple (gp_regs regs 1); text = gp_regs regs 2 in
     if \<not> check_ptr text then ok (regs, k)
     else ok (set_error SYS_ERR_OK regs, paint_window w (Draw_Text x y text (ucast (gp_regs regs 3))) k))"

definition sys_gfx_blit :: handler where
  "sys_gfx_blit = with_window (\<lambda>w window regs k.
     let (x, y) = unpack_couple (gp_regs regs 1); (wd, ht) = unpack_couple (gp_regs regs 2); argb_buffer = gp_regs regs 3 in
     if \<not> check_ptr argb_buffer then ok (regs, k)
     else ok (set_error SYS_ERR_OK regs, paint_window w (Blit_Pixels x y wd ht argb_buffer) k))"

subsection \<open>Dispatch\<close>

text \<open>The table holds a handler or a null pointer for each number below \<^verbatim>\<open>MAX_ID\<close>.\<close>

definition MAX_ID :: nat where "MAX_ID = 512"

record SyscallTable =
  m_unknown_callback :: handler
  m_entries :: "nat \<Rightarrow> handler option"

definition call_syscall :: "SyscallTable \<Rightarrow> u32 \<Rightarrow> handler" where
  "call_syscall t n =
     (if MAX_ID \<le> unat n then m_unknown_callback t else case m_entries t (unat n) of None \<Rightarrow> m_unknown_callback t | Some h \<Rightarrow> h)"

definition register_syscall :: "u32 \<Rightarrow> handler \<Rightarrow> SyscallTable \<Rightarrow> (bool \<times> SyscallTable) outcome" where
  "register_syscall n h t =
     kassert (unat n < MAX_ID)
       (ok (if m_entries t (unat n) \<noteq> None then (False, t) else (True, t\<lparr>m_entries := (m_entries t)(unat n := Some h)\<rparr>)))"

definition set_unknown_callback :: "handler option \<Rightarrow> SyscallTable \<Rightarrow> SyscallTable" where
  "set_unknown_callback callback t =
     t\<lparr>m_unknown_callback := (case callback of None \<Rightarrow> \<lambda>regs k. ok (set_x0 0 regs, k) | Some h \<Rightarrow> h)\<rparr>"

definition unregister_syscall :: "u32 \<Rightarrow> SyscallTable \<Rightarrow> SyscallTable outcome" where
  "unregister_syscall n t = kassert (unat n < MAX_ID) (ok (t\<lparr>m_entries := (m_entries t)(unat n := None)\<rparr>))"

text \<open>The calls whose handlers are above. \<open>a\<close> is what the allocator hands to a window that is created.\<close>

type_synonym allocation = "nat \<times> Rect \<times> int option \<times> sys_message list"

datatype sys_call =
    Unknown | Get_Pid | Sleep | Yield | Set_Priority | Get_Priority | Poll_Message | Wait_Message | Window_Create | Window_Destroy | Window_Set_Title
  | Window_Get_Visibility | Window_Set_Visibility | Window_Get_Geometry | Window_Set_Geometry | Window_Present
  | Gfx_Clear | Gfx_Draw_Line | Gfx_Draw_Rect | Gfx_Fill_Rect | Gfx_Draw_Text | Gfx_Blit

definition run_syscall :: "allocation \<Rightarrow> sys_call \<Rightarrow> handler" where
  "run_syscall a c =
     (case c of
        Unknown \<Rightarrow> sys_unknown
      | Get_Pid \<Rightarrow> sys_getpid
      | Sleep \<Rightarrow> sys_sleep
      | Yield \<Rightarrow> sys_yield
      | Set_Priority \<Rightarrow> sys_sched_set_priority
      | Get_Priority \<Rightarrow> sys_sched_get_priority
      | Poll_Message \<Rightarrow> sys_poll_msg
      | Wait_Message \<Rightarrow> sys_wait_msg
      | Window_Create \<Rightarrow> (case a of (w, g, fb, garbage) \<Rightarrow> sys_window_create w g fb garbage)
      | Window_Destroy \<Rightarrow> sys_window_destroy
      | Window_Set_Title \<Rightarrow> sys_window_set_title
      | Window_Get_Visibility \<Rightarrow> sys_window_get_visibility
      | Window_Set_Visibility \<Rightarrow> sys_window_set_visibility
      | Window_Get_Geometry \<Rightarrow> sys_window_get_geometry
      | Window_Set_Geometry \<Rightarrow> sys_window_set_geometry
      | Window_Present \<Rightarrow> sys_window_present
      | Gfx_Clear \<Rightarrow> sys_gfx_clear
      | Gfx_Draw_Line \<Rightarrow> sys_gfx_draw_line
      | Gfx_Draw_Rect \<Rightarrow> sys_gfx_draw_rect
      | Gfx_Fill_Rect \<Rightarrow> sys_gfx_fill_rect
      | Gfx_Draw_Text \<Rightarrow> sys_gfx_draw_text
      | Gfx_Blit \<Rightarrow> sys_gfx_blit)"

subsection \<open>The table of the kernel\<close>

text \<open>
  \<^verbatim>\<open>create_pika_syscalls\<close>, with the numbers of \<^verbatim>\<open>sys/syscall_table.h\<close> in the order of the registrations; \<open>other\<close> gives the handlers
  that are not modelled.
\<close>

definition pika_handlers :: "allocation \<Rightarrow> (u32 \<Rightarrow> handler) \<Rightarrow> (u32 \<times> handler) list" where
  "pika_handlers a other =
     [(0, other 0), (1, other 1), (2, sys_getpid), (4, other 4), (3, other 3),
      (14, other 14),
      (15, other 15),
      (5, sys_sleep), (6, sys_yield), (7, sys_sched_set_priority), (8, sys_sched_get_priority),
      (9, other 9), (10, other 10), (11, other 11), (12, other 12), (13, other 13),
      (16, other 16), (17, other 17), (18, other 18), (19, other 19), (20, other 20), (21, other 21), (22, other 22),
      (23, sys_poll_msg), (24, sys_wait_msg), (25, case a of (w, g, fb, garbage) \<Rightarrow> sys_window_create w g fb garbage),
      (26, sys_window_destroy), (27, sys_window_set_title), (28, sys_window_get_visibility), (29, sys_window_set_visibility),
      (30, sys_window_get_geometry), (31, sys_window_set_geometry),
      (32, sys_window_present),
      (33, sys_gfx_clear), (34, sys_gfx_draw_line), (35, sys_gfx_draw_rect), (36, sys_gfx_fill_rect), (37, sys_gfx_draw_text), (38, sys_gfx_blit)]"

fun register_all :: "(u32 \<times> handler) list \<Rightarrow> SyscallTable \<Rightarrow> SyscallTable outcome" where
  "register_all [] t = ok t"
| "register_all ((n, h) # hs) t = bindE (register_syscall n h t) (\<lambda>(_, t). register_all hs t)"

definition create_pika_syscalls :: "allocation \<Rightarrow> (u32 \<Rightarrow> handler) \<Rightarrow> SyscallTable outcome" where
  "create_pika_syscalls a other =
     (let t = set_unknown_callback None \<lparr>m_unknown_callback = sys_unknown, m_entries = Map.empty\<rparr>;
          t = set_unknown_callback (Some sys_unknown) t in
      register_all (pika_handlers a other) t)"

text \<open>An \<^verbatim>\<open>svc\<close> of the current task: the number is the low word of \<open>x8\<close>.\<close>

definition do_syscall :: "SyscallTable \<Rightarrow> handler" where
  "do_syscall t regs k = bindE (current_task k) (\<lambda>_. call_syscall t (ucast (gp_regs regs 8)) regs k)"

text \<open>The number of a call, as far as its handler is modelled.\<close>

definition decode :: "u32 \<Rightarrow> sys_call option" where
  "decode n =
     (if 39 \<le> n then Some Unknown
      else map_of [(2, Get_Pid), (5, Sleep), (6, Yield), (7, Set_Priority), (8, Get_Priority), (23, Poll_Message), (24, Wait_Message),
        (25, Window_Create), (26, Window_Destroy), (27, Window_Set_Title), (28, Window_Get_Visibility), (29, Window_Set_Visibility), (30, Window_Get_Geometry),
        (31, Window_Set_Geometry), (32, Window_Present), (33, Gfx_Clear), (34, Gfx_Draw_Line), (35, Gfx_Draw_Rect),
        (36, Gfx_Fill_Rect), (37, Gfx_Draw_Text), (38, Gfx_Blit)] n)"

end
