(* ===== verification/Syscall_Safety.thy ===== *)
theory Syscall_Safety
  imports Syscalls
begin

text \<open>
  What holds of the system calls: a call of the current task returns, or fails at the assertion of \<^verbatim>\<open>draw_window\<close> about a window
  without a frame buffer; tasks cannot use the windows of others; and waiting for a message ends with the next one. Shown over the
  states the kernel reaches from those of the window manager (\<open>wm_runs\<close>), with the table that \<^verbatim>\<open>create_pika_syscalls\<close> builds.
\<close>

subsection \<open>What the task manager does keeps what tasks own\<close>

lemma set_task_owned: "(\<And>t. m_windows (f t) = m_windows t) \<Longrightarrow> map m_windows (tasks (set_task s p f)) = map m_windows (tasks s)"
  by (simp add: set_task_def map_update_same)

lemma rq_push_back_owned: "rq_push_back s i p = ok s' \<Longrightarrow> tasks s' = tasks s"
  by (auto simp: rq_push_back_def split: if_splits)

lemma switch_to_owned: "switch_to s n = ok s' \<Longrightarrow> map m_windows (tasks s') = map m_windows (tasks s)"
  by (auto simp: switch_to_def set_task_owned split: option.splits if_splits dest!: rq_push_back_owned)

lemma schedule_owned: "schedule s = ok s' \<Longrightarrow> map m_windows (tasks s') = map m_windows (tasks s)"
  by (auto simp: schedule_def split: option.splits if_splits prod.splits dest!: switch_to_owned)

lemma sched_remove_task_owned: "sched_remove_task s t = ok (b, s') \<Longrightarrow> map m_windows (tasks s') = map m_windows (tasks s)"
  by (auto simp: sched_remove_task_def split: option.splits if_splits dest!: schedule_owned)

lemma pause_task_owned: "pause_task s t = ok s' \<Longrightarrow> owned s' = owned s"
  by (auto simp: pause_task_def with_live_task_def owned_def set_state_def set_task_owned split: option.splits if_splits dest!: sched_remove_task_owned)

lemma sleep_task_owned: "sleep_task s t us = ok s' \<Longrightarrow> owned s' = owned s"
  by (auto simp: sleep_task_def with_live_task_def owned_def set_state_def set_task_owned Let_def split: option.splits if_splits dest!: sched_remove_task_owned)

lemma set_task_priority_owned: "set_task_priority s t n = ok (b, s') \<Longrightarrow> owned s' = owned s"
  by (auto simp: set_task_priority_def update_task_priority_def owned_def set_task_owned Let_def split: option.splits if_splits dest!: rq_push_back_owned)

lemma wl_add_owned: "wl_add s wl t = ok (wl', s') \<Longrightarrow> owned s' = owned s"
  by (auto simp: wl_add_def split: option.splits if_splits dest!: pause_task_owned)

lemma owned_tasks_move: "owned s' = owned s \<Longrightarrow> tm_inv s' \<Longrightarrow> tasks_move s s'"
proof -
  assume o': "owned s' = owned s" and i: "tm_inv s'"
  have len: "length (tasks s') = length (tasks s)" using o' length_owned by metis
  have "m_windows (tasks s' ! p) = m_windows (tasks s ! p)" if "p < length (tasks s)" for p
    using arg_cong [OF o', of "\<lambda>xs. xs ! p"] that len by (simp add: owned_def)
  then show ?thesis using len i by (simp add: tasks_move_def)
qed

lemma current_runs: "tm_inv s \<Longrightarrow> m_current_task s = Some p \<Longrightarrow> p \<in> running_set s \<and> live s p"
  using tm_invD(1) [of s] by (auto simp: schedules_def running_set_def live_def is_running_def is_terminated_def)

subsection \<open>How a system call ends\<close>

text \<open>The calls that draw into a window, and those that redraw the screen.\<close>

definition gfx_calls :: "sys_call set" where
  "gfx_calls = {Gfx_Clear, Gfx_Draw_Line, Gfx_Draw_Rect, Gfx_Fill_Rect, Gfx_Draw_Text, Gfx_Blit}"

definition redraw_calls :: "sys_call set" where
  "redraw_calls = {Window_Create, Window_Set_Visibility, Window_Set_Geometry, Window_Present}"

text \<open>The allocator gives an object that is not in use, with a rectangle as in \<open>op_valid\<close>; a title is a terminated string.\<close>

definition call_ok :: "allocation \<Rightarrow> sys_call \<Rightarrow> Registers \<Rightarrow> kernel \<Rightarrow> bool" where
  "call_ok a c regs k =
     (case c of
        Window_Create \<Rightarrow> (case a of (w, g, fb, garbage) \<Rightarrow> w \<notin> set (wm_windows (wmgr k)) \<and> on_screen g \<and> length garbage = MAX_PENDING_MESSAGES)
      | Window_Set_Title \<Rightarrow> gp_regs regs 1 = 0 \<or> strlen (\<lambda>a. user k (of_nat a)) (unat (gp_regs regs 1)) \<noteq> None
      | _ \<Rightarrow> c \<notin> gfx_calls)"

text \<open>A visible window without a frame buffer, or one that the call shows.\<close>

definition unsized_shown :: "sys_call \<Rightarrow> Registers \<Rightarrow> kernel \<Rightarrow> bool" where
  "unsized_shown c regs k \<longleftrightarrow> c \<in> redraw_calls \<and> (\<exists>w \<in> set (wm_windows (wmgr k)). \<exists>x. win (wmgr k) w = Some x \<and> framebuffer x = None
     \<and> (visible x \<or> c = Window_Set_Visibility \<and> window_ptr (gp_regs regs 0) = Some w \<and> gp_regs regs 1 \<noteq> 0))"

definition runs :: "bool \<Rightarrow> (Registers \<times> kernel) outcome \<Rightarrow> bool" where
  "runs fails r \<longleftrightarrow> (\<exists>regs k. r = ok (regs, k) \<and> wm_sound (wmgr k)) \<or> r = Inl Panic \<and> fails"

lemma runs_ok [simp]: "runs B (ok (regs, k)) \<longleftrightarrow> wm_sound (wmgr k)"
  by (simp add: runs_def)

lemma wmgr_stores [simp]: "wmgr (store_user p bs k) = wmgr k" "wmgr (store_if p v k) = wmgr k" "wmgr (paint_window w c k) = wmgr k"
  by (simp_all add: store_user_def store_if_def paint_window_def)

lemma soundD: "wm_sound m \<Longrightarrow> tm_inv (tm m) \<and> base (sized m) \<and> registered (sized m)"
  by (simp add: wm_sound_def wm_inv_def base_def)

lemma current_taskD:
  assumes "wm_sound (wmgr k)" "m_current_task (tm (wmgr k)) = Some p"
  shows "current_task k = ok (p, tasks (tm (wmgr k)) ! p)" "p < length (tasks (tm (wmgr k)))"
proof -
  have "live (tm (wmgr k)) p" using soundD [OF assms(1)] assms(2) current_runs by blast
  then show "p < length (tasks (tm (wmgr k)))" by (simp add: live_def)
  then show "current_task k = ok (p, tasks (tm (wmgr k)) ! p)" using assms(2) by (simp add: current_task_def task_at_def)
qed

lemma queue_mq: "tm_inv (tm m) \<Longrightarrow> queue_ok m q \<longleftrightarrow> mq_ok (q, tm m)"
  by (simp add: queue_ok_def mq_ok_def waiters_ok_def)

text \<open>A window of the list is there, with a queue that works.\<close>

lemma window_queue:
  assumes "wm_sound m" "w \<in> set (wm_windows m)"
  obtains x where "win m w = Some x" "window_at m w = ok x" "mq_ok (win_queue x, tm m)"
proof -
  note m = soundD [OF assms(1)]
  obtain y where "win (sized m) w = Some y" "queue_ok (sized m) (win_queue y)" by (rule window_okD [of "sized m" w]) (use m assms(2) in simp_all)
  then obtain x where "win m w = Some x" "queue_ok m (win_queue x)" by auto
  then show ?thesis using that m queue_mq [of m "win_queue x"] by (simp add: window_at_def)
qed

lemma owned_window:
  assumes m: "wm_sound m" and p: "p < length (tasks (tm m))" "own_window (tasks (tm m) ! p) (Some w)"
  obtains x where "w \<in> set (wm_windows m)" "win m w = Some x" "window_at m w = ok x"
proof -
  have l: "lists_ok (owned (tm m)) (wm_windows m) (task_of m)" using soundD [OF m] by (simp add: registered_def)
  have "w \<in> set (owned (tm m) ! p)" using p by (simp add: own_window_def owns_def owned_def)
  then have mem: "w \<in> set (wm_windows m)" using l p(1) by (simp add: lists_ok_def length_owned)
  then show ?thesis using that window_queue [OF m mem] by blast
qed

lemma with_window_runs:
  assumes k: "wm_sound (wmgr k)" "m_current_task (tm (wmgr k)) = Some p"
    and f: "\<And>w window. w \<in> set (wm_windows (wmgr k)) \<Longrightarrow> win (wmgr k) w = Some window \<Longrightarrow> window_ptr (gp_regs regs 0) = Some w \<Longrightarrow> runs B (f w window regs k)"
  shows "runs B (with_window f regs k)"
proof -
  note c = current_taskD [OF k]
  have "runs B (if own_window (tasks (tm (wmgr k)) ! p) (Some w) then bindE (window_at (wmgr k) w) (\<lambda>window. f w window regs k)
      else ok (set_error SYS_ERR_INVALID_WINDOW regs, k))" if w: "window_ptr (gp_regs regs 0) = Some w" for w
  proof (cases "own_window (tasks (tm (wmgr k)) ! p) (Some w)")
    case True
    then obtain x where "w \<in> set (wm_windows (wmgr k))" "win (wmgr k) w = Some x" "window_at (wmgr k) w = ok x"
      by (rule owned_window [OF k(1) c(2)])
    then show ?thesis using f [OF _ _ w] True by simp
  qed (use k(1) in simp)
  then show ?thesis using k(1) by (simp add: with_window_def c(1) split: option.splits)
qed

text \<open>A call of the window manager, and one of the task manager.\<close>

lemma op_runs:
  assumes "wm_sound (wmgr k)" "op_valid (wmgr k) op" "f (wmgr k) = wm_exec ok op (wmgr k)" "\<not> (all_sized (wmgr k) \<and> shows_sized (wmgr k) op) \<Longrightarrow> B"
  shows "runs B (bindE (wm_do f k) (\<lambda>k. ok (regs, k)))"
  using sound_exec [OF assms(1) spawns_ok assms(2)] assms(3,4) by (auto simp: runs_def wm_do_def)

lemma tm_do_runs:
  assumes "wm_sound (wmgr k)" "f (tm (wmgr k)) = ok s" "tm_inv s" "owned s = owned (tm (wmgr k))"
  shows "runs B (bindE (tm_do f k) (\<lambda>k. ok (regs, k)))"
  using sound_tasks_move [OF assms(1) owned_tasks_move [OF assms(4,3)]] assms(2) by (simp add: tm_do_def)

lemma not_all_sized: "\<not> all_sized m \<Longrightarrow> \<exists>w \<in> set (wm_windows m). \<exists>x. win m w = Some x \<and> framebuffer x = None \<and> visible x"
  by (auto simp: all_sized_def)

text \<open>Changing the queue or the title of a window and, with what tasks own kept, the task manager.\<close>

lemma set_queue_sound:
  assumes k: "wm_sound (wmgr k)" "win (wmgr k) w = Some window" and q: "queue_ok (wmgr k) q" and s: "tm_inv s" "owned s = owned (tm (wmgr k))"
  shows "wm_sound (wmgr (set_queue w window q (k\<lparr>wmgr := (wmgr k)\<lparr>tm := s\<rparr>\<rparr>)))"
proof -
  have b: "base (sized (wmgr k))" "registered (sized (wmgr k))" using soundD [OF k(1)] by simp_all
  have x: "win (sized (wmgr k)) w = Some (sized_window window)" using k(2) by simp
  have "view (set_window w (sized_window (window\<lparr>win_queue := q\<rparr>)) (sized (wmgr k))) w = view (sized (wmgr k)) w"
    using k(2) by (simp add: view_def set_window_def sized_window_def)
  from set_window_base [OF b(1) x this _ s(1)] q s(2)
  have "base (set_window w (sized_window (window\<lparr>win_queue := q\<rparr>)) ((sized (wmgr k))\<lparr>tm := s\<rparr>))"
      "kept (sized (wmgr k)) (set_window w (sized_window (window\<lparr>win_queue := q\<rparr>)) ((sized (wmgr k))\<lparr>tm := s\<rparr>))" by simp_all
  then show ?thesis using kept_registered b(2) by (simp add: wm_sound_def wm_inv_def set_queue_def)
qed

lemma set_title_sound:
  assumes m: "wm_sound m" and w: "w \<in> set (wm_windows m)" "win m w = Some x"
  shows "wm_sound (set_window w (set_title title x) m)"
proof -
  have b: "base (sized m)" using soundD [OF m] by simp
  have "on_screen (geometry x)" by (rule window_okD [OF b, of w]) (use w in auto)
  then have "wm_inv (set_window w (sized_window (set_title title x)) (sized m))"
    using m w by (intro replace_window [of "sized m" w "sized_window x"]) (simp_all add: wm_sound_def set_title_def)
  then show ?thesis by (simp add: wm_sound_def)
qed

lemma deliver_runs:
  assumes k: "wm_sound (wmgr k)" "w \<in> set (wm_windows (wmgr k))"
  shows "runs B (deliver e w msg regs k)"
proof -
  obtain x where x: "win (wmgr k) w = Some x" "window_at (wmgr k) w = ok x" "mq_ok (win_queue x, tm (wmgr k))" by (rule window_queue [OF k])
  obtain q' where q': "mq_dequeue (win_queue x) = ok ((case mq_contents (win_queue x) of [] \<Rightarrow> None | m # _ \<Rightarrow> Some m), q')" "mq_ok (q', tm (wmgr k))"
    by (rule mq_dequeue_spec [OF x(3)])
  have tm: "tm_inv (tm (wmgr k))" using soundD [OF k(1)] by simp
  have "wm_sound (wmgr (set_queue w x q' k))"
    using set_queue_sound [OF k(1) x(1) _ tm refl, of q'] q'(2) queue_mq [OF tm] by simp
  then show ?thesis using x(2) q'(1) by (simp add: deliver_def Let_def split: list.splits)
qed

lemma set_queue_windows [simp]: "wm_windows (wmgr (set_queue w x q k)) = wm_windows (wmgr k)" "tm (wmgr (set_queue w x q k)) = tm (wmgr k)"
  by (simp_all add: set_queue_def set_window_def)

text \<open>Blocking on a queue: the current task waits exactly when there is no message.\<close>

lemma block_task_spec:
  assumes q: "mq_ok (q, s)" and p: "live s p"
  obtains b q' s' where "block_task_until_not_empty s q (Some p) = ok (b, q', s')" "mq_ok (q', s')" "owned s' = owned s"
    "b = (mq_contents q = [])" "mq_contents q' = mq_contents q" "mq_contents q \<noteq> [] \<longrightarrow> q' = q \<and> s' = s"
    "mq_contents q = [] \<longrightarrow> p \<in> set (mq_wait_list q') \<and> \<not> is_running (tasks s' ! p) \<and> live s' p"
proof (cases "mq_contents q = []")
  case True
  then have e: "mq_is_empty q" using length_mq_contents [OF q] by (simp add: mq_is_empty_def)
  have w: "waiters_ok s (mq_wait_list q)" using q by (simp add: mq_ok_def)
  obtain s' where s': "wl_add s (mq_wait_list q) (Some p) = ok (mq_wait_list q @ [p], s')" "waiters_ok s' (mq_wait_list q @ [p])"
      "\<not> is_running (tasks s' ! p)" "live s' p" by (rule wl_add_spec [OF w p])
  have "block_task_until_not_empty s q (Some p) = ok (True, q\<lparr>mq_wait_list := mq_wait_list q @ [p]\<rparr>, s')"
    using e s'(1) by (simp add: block_task_until_not_empty_def)
  moreover have "mq_contents (q\<lparr>mq_wait_list := mq_wait_list q @ [p]\<rparr>) = mq_contents q" by (simp add: mq_contents_def)
  ultimately show ?thesis using True q s' wl_add_owned [OF s'(1)]
    by (intro that [of True "q\<lparr>mq_wait_list := mq_wait_list q @ [p]\<rparr>" s']) (simp_all add: mq_ok_def)
next
  case False
  then have e: "\<not> mq_is_empty q" by (auto simp: mq_is_empty_def mq_contents_def)
  then have "block_task_until_not_empty s q (Some p) = ok (False, q, s)" by (simp add: block_task_until_not_empty_def)
  then show ?thesis using False q by (intro that [of False q s]) simp_all
qed

lemma wait_runs:
  assumes k: "wm_sound (wmgr k)" "m_current_task (tm (wmgr k)) = Some p" and w: "w \<in> set (wm_windows (wmgr k))" "win (wmgr k) w = Some x"
  shows "runs B (bindE (block_task_until_not_empty (tm (wmgr k)) (win_queue x) (m_current_task (tm (wmgr k)))) (\<lambda>(blocked, q, s).
       let k = set_queue w x q (k\<lparr>wmgr := (wmgr k)\<lparr>tm := s\<rparr>\<rparr>) in
       if blocked then ok (step_back_one_inst regs, k) else deliver SYS_ERR_INTERNAL w msg regs k))"
proof -
  have b: "tm_inv (tm (wmgr k))" using soundD [OF k(1)] by simp
  have q: "mq_ok (win_queue x, tm (wmgr k))" using window_queue [OF k(1) w(1)] w(2) by auto
  have live: "live (tm (wmgr k)) p" using current_runs [OF b k(2)] by simp
  obtain blocked q' s' where r: "block_task_until_not_empty (tm (wmgr k)) (win_queue x) (Some p) = ok (blocked, q', s')" "mq_ok (q', s')"
      "owned s' = owned (tm (wmgr k))" by (rule block_task_spec [OF q live])
  have s': "tm_inv s'" using r(2) by (simp add: mq_ok_def waiters_ok_def)
  have "length (tasks s') = length (tasks (tm (wmgr k)))" using r(3) length_owned by metis
  then have "queue_ok (wmgr k) q'" using r(2) by (simp add: queue_ok_def mq_ok_def waiters_ok_def)
  from set_queue_sound [OF k(1) w(2) this s' r(3)] have i: "wm_sound (wmgr (set_queue w x q' (k\<lparr>wmgr := (wmgr k)\<lparr>tm := s'\<rparr>\<rparr>)))" .
  then show ?thesis using r(1) k(2) deliver_runs [OF i, of w] w(1) by (simp add: Let_def)
qed

lemma run_syscall_runs:
  assumes k: "wm_sound (wmgr k)" "m_current_task (tm (wmgr k)) = Some p" and c: "call_ok a c regs k"
  shows "runs (unsized_shown c regs k) (run_syscall a c regs k)"
proof -
  have b: "tm_inv (tm (wmgr k))" using soundD [OF k(1)] by simp
  have cur: "p \<in> running_set (tm (wmgr k))" "live (tm (wmgr k)) p" using current_runs [OF b k(2)] by simp_all
  note win = with_window_runs [OF k]
  show ?thesis
  proof (cases c)
    case Sleep
    obtain s' where "sleep_task (tm (wmgr k)) (Some p) (gp_regs regs 0) = ok s'" "tm_inv s'" by (rule sleep_task_spec [OF b cur(1)])
    then show ?thesis
      using Sleep k tm_do_runs [OF k(1), of "\<lambda>s. sleep_task s (m_current_task s) (gp_regs regs 0)" s'] sleep_task_owned
      by (simp add: run_syscall_def sys_sleep_def Let_def)
  next
    case Yield
    obtain s' where s': "schedule (tm (wmgr k)) = ok s'" "tm_inv s'" by (rule tm_schedule_spec [OF b])
    have "owned s' = owned (tm (wmgr k))" using schedule_owned [OF s'(1)] by (simp add: owned_def)
    then show ?thesis using Yield tm_do_runs [where f = schedule, OF k(1) s'] by (simp add: run_syscall_def sys_yield_def)
  next
    case Set_Priority
    obtain s' where s': "set_task_priority (tm (wmgr k)) (Some p) (unat (ucast (gp_regs regs 1) :: u32))
        = ok (unat (ucast (gp_regs regs 1) :: u32) \<le> MAX_PRIORITY, s')" "tm_inv s'" by (rule set_task_priority_spec [OF b cur(2)])
    then show ?thesis
      using Set_Priority k sound_tasks_move [OF k(1) owned_tasks_move [OF set_task_priority_owned [OF s'(1)] s'(2)]]
      by (simp add: run_syscall_def sys_sched_set_priority_def Let_def)
  next
    case Poll_Message
    then show ?thesis using k(1) deliver_runs [OF k(1)] by (auto simp: run_syscall_def sys_poll_msg_def Let_def intro!: win)
  next
    case Wait_Message
    then show ?thesis using k(1) wait_runs [OF k] unfolding run_syscall_def sys_wait_msg_def Let_def by (auto intro!: win)
  next
    case Window_Create
    obtain w g fb garbage where a: "a = (w, g, fb, garbage)" by (cases a)
    define op where "op = Create p (ucast (gp_regs regs 0)) w g fb garbage"
    have v: "op_valid (wmgr k) op" "shows_sized (wmgr k) op"
      using c current_taskD [OF k] by (simp_all add: op_def op_valid_def shows_sized_def call_ok_def Window_Create a)
    then have "\<not> all_sized (wmgr k) \<Longrightarrow> unsized_shown c regs k"
      using not_all_sized [of "wmgr k"] unfolding unsized_shown_def Window_Create redraw_calls_def by blast
    moreover have "wm_exec ok op (wmgr k) = bindE (create_window p (ucast (gp_regs regs 0)) w g fb garbage (wmgr k)) (\<lambda>(_, m). ok m)"
      by (simp add: wm_exec_def op_def)
    ultimately show ?thesis
      using sound_exec [OF k(1) spawns_ok v(1)] v(2) current_taskD [OF k]
      by (cases "create_window p (ucast (gp_regs regs 0)) w g fb garbage (wmgr k)")
        (auto simp: run_syscall_def Window_Create a sys_window_create_def runs_def)
  next
    case Window_Set_Visibility
    show ?thesis
      unfolding run_syscall_def Window_Set_Visibility sys_window_set_visibility_def sys_call.case
    proof (rule win)
      fix w x
      assume w: "w \<in> set (wm_windows (wmgr k))" "win (wmgr k) w = Some x" "window_ptr (gp_regs regs 0) = Some w"
      have "unsized_shown Window_Set_Visibility regs k" if "\<not> (all_sized (wmgr k) \<and> shows_sized (wmgr k) (Show w (gp_regs regs 1 \<noteq> 0)))"
        using that w not_all_sized [of "wmgr k"] unfolding unsized_shown_def redraw_calls_def shows_sized_def by (cases "framebuffer x") auto
      then show "runs (unsized_shown Window_Set_Visibility regs k)
          (bindE (wm_do (set_window_visibility w (gp_regs regs 1 \<noteq> 0)) k) (\<lambda>k. ok (set_error SYS_ERR_OK regs, k)))"
        using w(1) by (intro op_runs [OF k(1), where op = "Show w (gp_regs regs 1 \<noteq> 0)"]) (simp_all add: op_valid_def wm_exec_def)
    qed
  next
    case Window_Set_Geometry
    have "unsized_shown Window_Set_Geometry regs k" if "\<not> all_sized (wmgr k)"
      using that not_all_sized [of "wmgr k"] unfolding unsized_shown_def redraw_calls_def by blast
    then show ?thesis
      unfolding run_syscall_def Window_Set_Geometry sys_window_set_geometry_def sys_call.case
      by (intro win op_runs [OF k(1), where op = "Place _ (int32_of (gp_regs regs 1)) (int32_of (gp_regs regs 2)) (int32_of (gp_regs regs 3)) (int32_of (gp_regs regs 4))"])
        (simp_all add: op_valid_def wm_exec_def shows_sized_def)
  next
    case Window_Present
    have "unsized_shown Window_Present regs k" if "\<not> all_sized (wmgr k)"
      using that not_all_sized [of "wmgr k"] unfolding unsized_shown_def redraw_calls_def by blast
    moreover have "0 \<le> uint32_of v" for v by (simp add: uint32_of_def)
    ultimately show ?thesis
      unfolding run_syscall_def Window_Present sys_window_present_def sys_call.case
      by (intro win op_runs [OF k(1), where op = "Present_Part _ (uint32_of (gp_regs regs 1)) (uint32_of (gp_regs regs 2)) (uint32_of (gp_regs regs 3)) (uint32_of (gp_regs regs 4))"])
        (simp_all add: op_valid_def wm_exec_def shows_sized_def)
  next
    case Window_Set_Title
    have "\<exists>title. user_string (user k) (gp_regs regs 1) = ok title" if "gp_regs regs 1 \<noteq> 0"
      using c that by (auto simp: call_ok_def Window_Set_Title user_string_def)
    then show ?thesis
      using k(1) set_title_sound [OF k(1)] unfolding run_syscall_def Window_Set_Title sys_window_set_title_def sys_call.case
      by (intro win) (auto simp: check_ptr_def Let_def)
  qed (use k(1) c current_taskD [OF k] in \<open>auto simp: run_syscall_def sys_unknown_def sys_getpid_def sys_sched_get_priority_def sys_window_destroy_def
      sys_window_get_visibility_def sys_window_get_geometry_def call_ok_def gfx_calls_def Let_def intro!: win\<close>)
qed

subsection \<open>Dispatch\<close>

lemma register_all_spec:
  "\<lbrakk>\<forall>(n, h) \<in> set hs. unat n < MAX_ID \<and> m_entries t (unat n) = None; distinct (map fst hs)\<rbrakk>
    \<Longrightarrow> register_all hs t = ok (t\<lparr>m_entries := m_entries t ++ map_of (map (\<lambda>(n, h). (unat n, h)) hs)\<rparr>)"
proof (induction hs t rule: register_all.induct)
  case (2 n h hs t)
  have new: "n' \<noteq> n" if "(n', h') \<in> set hs" for n' h' using 2(3) that by force
  then have "unat n \<notin> fst ` set (map (\<lambda>(n, h). (unat n, h)) hs)" unfolding word_unat_eq_iff by force
  then have e: "(m_entries t)(unat n := Some h) ++ map_of (map (\<lambda>(n, h). (unat n, h)) hs)
      = m_entries t ++ map_of (map (\<lambda>(n, h). (unat n, h)) ((n, h) # hs))"
    by (simp add: map_add_upd_left map_of_eq_None_iff dom_map_of_conv_image_fst)
  have f: "\<forall>(n', h') \<in> set hs. unat n' < MAX_ID \<and> ((m_entries t)(unat n := Some h)) (unat n') = None"
    using 2(2) new unfolding word_unat_eq_iff by force
  have "register_all ((n, h) # hs) t = register_all hs (t\<lparr>m_entries := (m_entries t)(unat n := Some h)\<rparr>)"
    using 2(2) by (simp add: register_syscall_def)
  also have "\<dots> = ok (t\<lparr>m_entries := (m_entries t)(unat n := Some h) ++ map_of (map (\<lambda>(n, h). (unat n, h)) hs)\<rparr>)"
    by (subst 2(1)) (use 2(3) f in simp_all)
  finally show ?case unfolding e .
qed simp

lemma pika_table:
  obtains t where "create_pika_syscalls a other = ok t" "m_unknown_callback t = sys_unknown"
    "m_entries t = map_of (map (\<lambda>(n, h). (unat n, h)) (pika_handlers a other))"
proof -
  have "distinct (map fst (pika_handlers a other))" by (simp add: pika_handlers_def)
  moreover have "\<forall>(n, h) \<in> set (pika_handlers a other). unat n < MAX_ID" by (simp add: pika_handlers_def MAX_ID_def)
  ultimately show ?thesis
    using that register_all_spec [of "pika_handlers a other" "\<lparr>m_unknown_callback = sys_unknown, m_entries = Map.empty\<rparr>"]
    by (fastforce simp: create_pika_syscalls_def set_unknown_callback_def)
qed

lemma dispatch:
  assumes k: "wm_sound (wmgr k)" "m_current_task (tm (wmgr k)) = Some p" and c: "decode (ucast (gp_regs regs 8)) = Some c"
  obtains t where "create_pika_syscalls a other = ok t" "do_syscall t regs k = run_syscall a c regs k"
proof -
  obtain t where t: "create_pika_syscalls a other = ok t" "m_unknown_callback t = sys_unknown"
    "m_entries t = map_of (map (\<lambda>(n, h). (unat n, h)) (pika_handlers a other))" by (rule pika_table)
  define n :: u32 where "n = ucast (gp_regs regs 8)"
  have "call_syscall t n = run_syscall a c"
  proof (cases "39 \<le> n")
    case True
    then have "39 \<le> unat n" by (simp add: word_le_nat_alt)
    moreover have "\<forall>m \<in> fst ` set (map (\<lambda>(n, h). (unat n, h)) (pika_handlers a other)). m < 39" by (simp add: pika_handlers_def)
    ultimately have "m_entries t (unat n) = None" unfolding t(3) map_of_eq_None_iff by fastforce
    then show ?thesis using c True t(2) by (simp add: decode_def n_def [symmetric] call_syscall_def run_syscall_def)
  next
    case False
    then show ?thesis
      using c by (auto simp: decode_def n_def [symmetric] call_syscall_def run_syscall_def t(3) pika_handlers_def MAX_ID_def split: if_splits)
  qed
  then show ?thesis using that t(1) current_taskD [OF k] by (simp add: do_syscall_def n_def [symmetric])
qed

subsection \<open>Reachable states\<close>

text \<open>
  A kernel that runs: system calls of the current task, events and calls of the window manager, whatever other tasks and their
  programs do in between. A drawing call that ends and stays in the frame buffer of its window only paints.
\<close>

inductive kernel_reachable :: "(task_manager \<Rightarrow> task_manager outcome) \<Rightarrow> kernel \<Rightarrow> bool" for f where
  boot: "wm_runs f m \<Longrightarrow> kernel_reachable f \<lparr>wmgr = m, user = mem, painted = []\<rparr>"
| call: "\<lbrakk>kernel_reachable f k; m_current_task (tm (wmgr k)) = Some p; call_ok a c regs k; run_syscall a c regs k = ok (regs', k')\<rbrakk>
    \<Longrightarrow> kernel_reachable f k'"
| event: "\<lbrakk>kernel_reachable f k; op_valid (wmgr k) op; wm_exec f op (wmgr k) = ok m\<rbrakk> \<Longrightarrow> kernel_reachable f (k\<lparr>wmgr := m\<rparr>)"
| others: "\<lbrakk>kernel_reachable f k; tasks_move (tm (wmgr k)) s\<rbrakk> \<Longrightarrow> kernel_reachable f (k\<lparr>wmgr := (wmgr k)\<lparr>tm := s\<rparr>\<rparr>)"
| clock: "kernel_reachable f k \<Longrightarrow> kernel_reachable f (k\<lparr>wmgr := (wmgr k)\<lparr>now := time\<rparr>\<rparr>)"
| memory: "kernel_reachable f k \<Longrightarrow> kernel_reachable f (k\<lparr>user := mem\<rparr>)"
| drawing: "kernel_reachable f k \<Longrightarrow> kernel_reachable f (paint_window w gfx k)"

lemma kernel_sound: "kernel_reachable f k \<Longrightarrow> spawns f \<Longrightarrow> wm_sound (wmgr k)"
proof (induction rule: kernel_reachable.induct)
  case (boot m mem)
  then show ?case using wm_runs_sound by simp
next
  case (call k p a c regs regs' k')
  then show ?case using run_syscall_runs [of k p a c regs] by (simp add: runs_def)
next
  case (event k op m)
  then show ?case using sound_exec [of "wmgr k" f op] by auto
qed (simp_all add: sound_tasks_move sound_clock)

subsection \<open>Waiting for a message\<close>

lemma wait_msg_own:
  assumes k: "wm_sound (wmgr k)" "m_current_task (tm (wmgr k)) = Some p"
    and w: "window_ptr (gp_regs regs 0) = Some w" "own_window (tasks (tm (wmgr k)) ! p) (Some w)" and msg: "gp_regs regs 1 \<noteq> 0"
  obtains x where "w \<in> set (wm_windows (wmgr k))" "win (wmgr k) w = Some x" "sys_wait_msg regs k =
      bindE (block_task_until_not_empty (tm (wmgr k)) (win_queue x) (Some p)) (\<lambda>(blocked, q, s).
        let k = set_queue w x q (k\<lparr>wmgr := (wmgr k)\<lparr>tm := s\<rparr>\<rparr>) in
        if blocked then ok (step_back_one_inst regs, k) else deliver SYS_ERR_INTERNAL w (gp_regs regs 1) regs k)"
proof -
  note c = current_taskD [OF k]
  obtain x where x: "w \<in> set (wm_windows (wmgr k))" "win (wmgr k) w = Some x" "window_at (wmgr k) w = ok x"
    by (rule owned_window [OF k(1) c(2) w(2)])
  show ?thesis
    by (rule that [OF x(1,2)])
      (use x(3) c(1) w msg k(2) in \<open>simp add: sys_wait_msg_def with_window_def check_ptr_def Let_def del: One_nat_def\<close>)
qed

text \<open>With nobody's message in the queue the task sleeps, and the next message wakes it.\<close>

lemma post_wakes:
  assumes m: "w \<in> set (wm_windows m)" "win m w = Some x" and q: "mq_ok (win_queue x, tm m)" "mq_contents (win_queue x) = []"
    and p: "p \<in> set (mq_wait_list (win_queue x))" "live (tm m) p"
  shows "\<exists>m' y. post w msg m = ok m' \<and> is_running (tasks (tm m') ! p) \<and> win m' w = Some y
    \<and> mq_contents (win_queue y) = [msg\<lparr>timestamp := now m\<rparr>]"
proof -
  have "m_pending_count (win_queue x) < MAX_PENDING_MESSAGES" using length_mq_contents [OF q(1)] q(2) by (simp add: MAX_PENDING_MESSAGES_def)
  moreover obtain q' s' where "mq_enqueue (tm m) (win_queue x) (msg\<lparr>timestamp := now m\<rparr>)
        = ok (m_pending_count (win_queue x) < MAX_PENDING_MESSAGES, q', s')"
      "mq_contents q' = mq_contents (win_queue x)
         @ (if m_pending_count (win_queue x) < MAX_PENDING_MESSAGES then [msg\<lparr>timestamp := now m\<rparr>] else [])"
      "m_pending_count (win_queue x) < MAX_PENDING_MESSAGES
         \<longrightarrow> mq_wait_list q' = [] \<and> live_woken (set (mq_wait_list (win_queue x))) (tm m) s'" by (rule mq_enqueue_spec [OF q(1)])
  ultimately have e: "mq_enqueue (tm m) (win_queue x) (msg\<lparr>timestamp := now m\<rparr>) = ok (True, q', s')"
      "mq_contents q' = [msg\<lparr>timestamp := now m\<rparr>]" "live_woken (set (mq_wait_list (win_queue x))) (tm m) s'"
    using q(2) by simp_all
  have "is_running (tasks s' ! p)" using e(3) p by (simp add: live_woken_def woken_def live_def is_running_def)
  then show ?thesis
    using m e by (simp add: post_def post_to_def is_valid_def window_at_def set_window_def)
qed

lemma deliver_first:
  assumes x: "win (wmgr k) w = Some x" "mq_ok (win_queue x, tm (wmgr k))" "mq_contents (win_queue x) = m # ms"
  shows "\<exists>k' y. deliver e w p regs k = ok (set_x0 SYS_ERR_OK regs, k') \<and> user k' = store_bytes p (message_bytes m) (user k)
    \<and> win (wmgr k') w = Some y \<and> mq_contents (win_queue y) = ms"
proof -
  obtain q' where "mq_dequeue (win_queue x) = ok ((case mq_contents (win_queue x) of [] \<Rightarrow> None | m # _ \<Rightarrow> Some m), q')"
    "mq_contents q' = tl (mq_contents (win_queue x))" by (rule mq_dequeue_spec [OF x(2)])
  then show ?thesis using x by (simp add: deliver_def window_at_def set_queue_def set_window_def set_error_def store_user_def Let_def)
qed

text \<open>\<open>block_task_until_not_empty\<close> and what is done with its answer, on the queue of a window.\<close>

lemma wait_spec:
  assumes k: "wm_sound (wmgr k)" "m_current_task (tm (wmgr k)) = Some p" and w: "w \<in> set (wm_windows (wmgr k))" "win (wmgr k) w = Some x"
    and r: "bindE (block_task_until_not_empty (tm (wmgr k)) (win_queue x) (Some p)) (\<lambda>(blocked, q, s).
        let k = set_queue w x q (k\<lparr>wmgr := (wmgr k)\<lparr>tm := s\<rparr>\<rparr>) in
        if blocked then ok (step_back_one_inst regs, k) else deliver SYS_ERR_INTERNAL w a regs k) = ok (regs', k')"
  shows "case mq_contents (win_queue x) of
       [] \<Rightarrow> regs' = step_back_one_inst regs \<and> \<not> is_running (tasks (tm (wmgr k')) ! p) \<and>
         (\<forall>m. \<exists>m' y. post w m (wmgr k') = ok m' \<and> is_running (tasks (tm m') ! p) \<and> win m' w = Some y \<and>
            mq_contents (win_queue y) = [m\<lparr>timestamp := now (wmgr k')\<rparr>])
     | m # ms \<Rightarrow> regs' = set_x0 SYS_ERR_OK regs \<and> user k' = store_bytes a (message_bytes m) (user k) \<and>
         (\<exists>y. win (wmgr k') w = Some y \<and> mq_contents (win_queue y) = ms)"
proof -
  have q: "mq_ok (win_queue x, tm (wmgr k))" using window_queue [OF k(1) w(1)] w(2) by auto
  have live: "live (tm (wmgr k)) p" using current_runs [OF _ k(2)] soundD [OF k(1)] by simp
  obtain blocked q' s' where b: "block_task_until_not_empty (tm (wmgr k)) (win_queue x) (Some p) = ok (blocked, q', s')" "mq_ok (q', s')"
      "owned s' = owned (tm (wmgr k))" "blocked = (mq_contents (win_queue x) = [])" "mq_contents q' = mq_contents (win_queue x)"
      "mq_contents (win_queue x) \<noteq> [] \<longrightarrow> q' = win_queue x \<and> s' = tm (wmgr k)"
      "mq_contents (win_queue x) = [] \<longrightarrow> p \<in> set (mq_wait_list q') \<and> \<not> is_running (tasks s' ! p) \<and> live s' p"
    by (rule block_task_spec [OF q live])
  define k1 where "k1 = set_queue w x q' (k\<lparr>wmgr := (wmgr k)\<lparr>tm := s'\<rparr>\<rparr>)"
  have k1: "w \<in> set (wm_windows (wmgr k1))" "win (wmgr k1) w = Some (x\<lparr>win_queue := q'\<rparr>)" "tm (wmgr k1) = s'" "user k1 = user k"
    using w(1) by (simp_all add: k1_def set_queue_def set_window_def)
  show ?thesis
  proof (cases "mq_contents (win_queue x)")
    case Nil
    have "regs' = step_back_one_inst regs" "k' = k1" using r b(1,4) Nil by (simp_all add: k1_def Let_def)
    then show ?thesis
      using Nil b(7) post_wakes [OF k1(1,2), of p] b(2,5) k1(3) by simp
  next
    case (Cons m ms)
    have d: "deliver SYS_ERR_INTERNAL w a regs k1 = ok (regs', k')" using r b(1,4) Cons by (simp add: k1_def Let_def)
    show ?thesis using deliver_first [OF k1(2), of m ms SYS_ERR_INTERNAL a regs] d b(2,5) k1(3,4) Cons by simp
  qed
qed

lemma example_kernel:
  obtains k where "kernel_reachable ok k" "m_current_task (tm (wmgr k)) = Some 0" "wm_windows (wmgr k) = [7]"
    "tasks (tm (wmgr k)) = [(example_task 0 RUNNING)\<lparr>m_windows := [7]\<rparr>, example_task 1 RUNNING]"
proof -
  obtain m where m: "wm_reachable ok m" "wm_windows m = [7]" "owned (tm m) = [[7], []]" by (rule example_session)
  define s where "s = set_task example_tm 0 (\<lambda>_. (tasks example_tm ! 0)\<lparr>m_windows := [7]\<rparr>)"
  have ts: "tasks s = [(example_task 0 RUNNING)\<lparr>m_windows := [7]\<rparr>, example_task 1 RUNNING]" by (simp add: s_def set_task_def example_tm_def)
  have "tm_inv s" unfolding s_def by (rule set_task_windows_inv [OF tm_reachable_inv [OF example_reachable]])
  moreover have "owned s = owned (tm m)" using m(3) by (simp add: owned_def ts example_task_def make_task_def)
  ultimately have "tasks_move (tm m) s" by (intro owned_tasks_move)
  then have "kernel_reachable ok \<lparr>wmgr = m\<lparr>tm := s\<rparr>, user = \<lambda>_. 0, painted = []\<rparr>"
    using kernel_reachable.others [OF kernel_reachable.boot [OF wm_reachable_runs [OF m(1)], of "\<lambda>_. 0"]] by simp
  moreover have "m_current_task s = Some 0" by (simp add: s_def set_task_def example_tm_def)
  ultimately show ?thesis using that m(2) ts by fastforce
qed

lemmas window_handlers = sys_poll_msg_def sys_wait_msg_def sys_window_destroy_def sys_window_set_title_def sys_window_get_visibility_def
  sys_window_set_visibility_def sys_window_get_geometry_def sys_window_set_geometry_def sys_window_present_def
  sys_gfx_clear_def sys_gfx_draw_line_def sys_gfx_draw_rect_def sys_gfx_fill_rect_def sys_gfx_draw_text_def sys_gfx_blit_def

subsection \<open>Properties\<close>



text \<open>
  C39. A task can only use its own windows: each of the fifteen calls on a window, made with a null pointer or with the pointer of
  a window that the current task does not own, changes nothing but \<^verbatim>\<open>x0\<close>, which becomes \<^verbatim>\<open>SYS_ERR_INVALID_WINDOW\<close>. They are
  \<^verbatim>\<open>poll\<close> and \<^verbatim>\<open>wait\<close>, destroying, the title, getting and setting the visibility and the geometry, presenting, and drawing.
\<close>

theorem foreign_windows_are_protected:
  assumes k: "kernel_reachable spawn k" "spawns spawn" "m_current_task (tm (wmgr k)) = Some p"
    and c: "decode (ucast (gp_regs regs 8)) = Some c" "c \<in> {Poll_Message, Wait_Message, Window_Destroy, Window_Set_Title, Window_Get_Visibility,
      Window_Set_Visibility, Window_Get_Geometry, Window_Set_Geometry, Window_Present,
      Gfx_Clear, Gfx_Draw_Line, Gfx_Draw_Rect, Gfx_Fill_Rect, Gfx_Draw_Text, Gfx_Blit}"
    and foreign: "gp_regs regs 0 = 0 \<or> unat (gp_regs regs 0) \<notin> set (m_windows (tasks (tm (wmgr k)) ! p))"
  shows "\<exists>t. create_pika_syscalls a other = ok t \<and> do_syscall t regs k = ok (regs\<lparr>gp_regs := (gp_regs regs)(0 := 7)\<rparr>, k)"
proof -
  have i: "wm_sound (wmgr k)" using kernel_sound [OF k(1,2)] .
  obtain t where t: "create_pika_syscalls a other = ok t" "do_syscall t regs k = run_syscall a c regs k" by (rule dispatch [OF i k(3) c(1)])
  have "with_window f regs k = ok (regs\<lparr>gp_regs := (gp_regs regs)(0 := 7)\<rparr>, k)" for f
    using foreign current_taskD [OF i k(3)]
    by (auto simp: with_window_def window_ptr_def own_window_def owns_def set_error_def set_x0_def SYS_ERR_INVALID_WINDOW_def)
  then show ?thesis
    using t c(2) by (auto simp: run_syscall_def window_handlers)
qed

theorem foreign_windows_are_protected_witness:
  "\<exists>t k. wm_windows (wmgr k) = [7] \<and> do_syscall t \<lparr>gp_regs = (\<lambda>_. 0)(8 := 38, 0 := 8), elr = 0, esr = 0\<rparr> k
     = ok (\<lparr>gp_regs = (\<lambda>_. 0)(8 := 38, 0 := 7), elr = 0, esr = 0\<rparr>, k)"
proof -
  obtain k where k: "kernel_reachable ok k" "m_current_task (tm (wmgr k)) = Some 0" "wm_windows (wmgr k) = [7]"
    "tasks (tm (wmgr k)) = [(example_task 0 RUNNING)\<lparr>m_windows := [7]\<rparr>, example_task 1 RUNNING]" by (rule example_kernel)
  show ?thesis
    using foreign_windows_are_protected [OF k(1) spawns_ok k(2), of "\<lparr>gp_regs = (\<lambda>_. 0)(8 := 38, 0 := 8), elr = 0, esr = 0\<rparr>" Gfx_Blit
        "(9, null_rect, None, blank_queue)" "\<lambda>_. sys_unknown"] k(3,4)
    by (auto simp: decode_def)
qed

text \<open>
  C40. \<open>wait_msg\<close> never loses a message and never returns without one. With the queue empty the current task is taken out of the
  scheduler and its program counter goes back to the \<^verbatim>\<open>svc\<close>; the next message posted to the window makes it run again and is then
  the only one of the queue. With messages in the queue the call copies the oldest one to the caller's \<^verbatim>\<open>sys_message_t\<close>, takes it off
  the queue and returns \<^verbatim>\<open>SYS_ERR_OK\<close>. The states it leaves are reachable
  ones, so the call made again delivers what was posted.
\<close>

theorem waiting_task_gets_the_message:
  assumes k: "kernel_reachable spawn k" "spawns spawn" "m_current_task (tm (wmgr k)) = Some p"
    and w: "gp_regs regs 0 \<noteq> 0" "w = unat (gp_regs regs 0)" "w \<in> set (m_windows (tasks (tm (wmgr k)) ! p))" and msg: "gp_regs regs 1 \<noteq> 0"
  shows "\<exists>x k'. win (wmgr k) w = Some x \<and> kernel_reachable spawn k' \<and>
    (case mq_contents (win_queue x) of
       [] \<Rightarrow> sys_wait_msg regs k = ok (step_back_one_inst regs, k') \<and> \<not> is_running (tasks (tm (wmgr k')) ! p) \<and>
         (\<forall>m. \<exists>m' y. post w m (wmgr k') = ok m' \<and> is_running (tasks (tm m') ! p) \<and> win m' w = Some y \<and>
            mq_contents (win_queue y) = [m\<lparr>timestamp := now (wmgr k')\<rparr>])
     | m # ms \<Rightarrow> sys_wait_msg regs k = ok (set_x0 SYS_ERR_OK regs, k') \<and> user k' = store_bytes (gp_regs regs 1) (message_bytes m) (user k) \<and>
         (\<exists>y. win (wmgr k') w = Some y \<and> mq_contents (win_queue y) = ms))"
proof -
  have i: "wm_sound (wmgr k)" using kernel_sound [OF k(1,2)] .
  have "window_ptr (gp_regs regs 0) = Some w"
    using w(1,2) by (simp add: window_ptr_def)
  moreover have "own_window (tasks (tm (wmgr k)) ! p) (Some w)" using w(3) by (simp add: own_window_def owns_def)
  ultimately obtain x where x: "w \<in> set (wm_windows (wmgr k))" "win (wmgr k) w = Some x" and call: "sys_wait_msg regs k =
      bindE (block_task_until_not_empty (tm (wmgr k)) (win_queue x) (Some p)) (\<lambda>(blocked, q, s).
        let k = set_queue w x q (k\<lparr>wmgr := (wmgr k)\<lparr>tm := s\<rparr>\<rparr>) in
        if blocked then ok (step_back_one_inst regs, k) else deliver SYS_ERR_INTERNAL w (gp_regs regs 1) regs k)"
    by (rule wait_msg_own [OF i k(3) _ _ msg])
  obtain r k' where run: "sys_wait_msg regs k = ok (r, k')" using run_syscall_runs [OF i k(3), of a Wait_Message regs]
    by (auto simp: runs_def run_syscall_def call_ok_def gfx_calls_def unsized_shown_def redraw_calls_def)
  have reach: "kernel_reachable spawn k'"
    using kernel_reachable.call [OF k(1,3), of a Wait_Message regs r k'] run by (simp add: run_syscall_def call_ok_def gfx_calls_def)
  have spec: "case mq_contents (win_queue x) of
       [] \<Rightarrow> r = step_back_one_inst regs \<and> \<not> is_running (tasks (tm (wmgr k')) ! p) \<and>
         (\<forall>m. \<exists>m' y. post w m (wmgr k') = ok m' \<and> is_running (tasks (tm m') ! p) \<and> win m' w = Some y \<and>
            mq_contents (win_queue y) = [m\<lparr>timestamp := now (wmgr k')\<rparr>])
     | m # ms \<Rightarrow> r = set_x0 SYS_ERR_OK regs \<and> user k' = store_bytes (gp_regs regs 1) (message_bytes m) (user k) \<and>
         (\<exists>y. win (wmgr k') w = Some y \<and> mq_contents (win_queue y) = ms)"
    using wait_spec [OF i k(3) x(1,2)] run unfolding call by blast
  show ?thesis using spec run reach x(2) by (cases "mq_contents (win_queue x)") auto
qed

theorem waiting_task_gets_the_message_witness:
  "\<exists>k r k'. wm_windows (wmgr k) = [7] \<and> sys_wait_msg \<lparr>gp_regs = (\<lambda>_. 0)(0 := 7, 1 := 4096), elr = 516, esr = 0x56000000\<rparr> k = ok (r, k') \<and>
     gp_regs r 1 = 4096 \<and> (gp_regs r 0 = 7 \<and> elr r = 512 \<or> gp_regs r 0 = 0 \<and> elr r = 516)"
proof -
  obtain k where k: "kernel_reachable ok k" "m_current_task (tm (wmgr k)) = Some 0" "wm_windows (wmgr k) = [7]"
    "tasks (tm (wmgr k)) = [(example_task 0 RUNNING)\<lparr>m_windows := [7]\<rparr>, example_task 1 RUNNING]" by (rule example_kernel)
  define regs where "regs = \<lparr>gp_regs = (\<lambda>_. 0)(0 := 7, 1 := 4096), elr = 516, esr = 0x56000000\<rparr>"
  have regs: "gp_regs regs 0 \<noteq> 0" "7 = unat (gp_regs regs 0)" "7 \<in> set (m_windows (tasks (tm (wmgr k)) ! 0))" "gp_regs regs 1 \<noteq> 0"
    using k(4) by (simp_all add: regs_def)
  obtain r k' where "sys_wait_msg regs k = ok (r, k')" "r = step_back_one_inst regs \<or> r = set_x0 SYS_ERR_OK regs"
    using waiting_task_gets_the_message [OF k(1) spawns_ok k(2) regs] by (auto simp: neq_Nil_conv split: list.splits)
  then show ?thesis using k(3) unfolding regs_def [symmetric]
    by (auto simp: regs_def set_x0_def SYS_ERR_OK_def step_back_one_inst_def intro!: exI [of _ k])
qed

end
