(* ===== verification/Spec2Isabelle.thy ===== *)
theory Spec2Isabelle
  imports Page_Alloc_List Contiguous_Alloc Linked_List Utils Pipe Message_Queue C_String Key_Event
    Fat_Api Process_Memory Kernel_Malloc Syscall_Safety
begin

text \<open>
  Pi-kachULM OS is a kernel for the Raspberry Pi 3 and 4 with a small user library and a few programs.
  This development models its core data structures and services as executable HOL functions, one theory
  per component, and proves what each component promises.

  \<^bold>\<open>Parts of the system and how they interact.\<close> The boot code hands the physical memory to the page
  allocators (\<^verbatim>\<open>kernel/memory\<close>), which use the bit array of \<^verbatim>\<open>lib/libk\<close>. Tasks live in the task manager
  (\<^verbatim>\<open>kernel/task\<close>), which owns the scheduler and the delta queue of sleeping tasks and is driven by a timer
  tick. Pipes and the message queues of windows block and wake tasks through it, pipes by way of wait
  lists. The kernel lists are doubly linked lists of allocated nodes (\<^verbatim>\<open>libk::LinkedList\<close>). Key events travel
  from the keyboard drivers to programs packed in a word. The translation tables of the MMU take their pages from the page
  allocator; heaps, memory chunks, buffers and the memory of processes are built on \<^verbatim>\<open>map_range\<close>, and \<^verbatim>\<open>kmalloc\<close> on the heap of the
  kernel. Files are read from a FAT volume through the cluster chain (\<^verbatim>\<open>kernel/fs/fat\<close>). The window manager
  (\<^verbatim>\<open>kernel/wm\<close>) keeps the windows of the tasks in stacking order, posts events to their message queues and redraws the
  parts of the screen that change. Programs reach tasks, windows and messages through system calls, which the kernel
  dispatches through a table (\<^verbatim>\<open>kernel/task/syscall_table.cpp\<close>, \<^verbatim>\<open>pika_syscalls.cpp\<close>).

  \<^bold>\<open>Theories.\<close>
  \<^item> \<open>Prelude\<close>: shared types (words of the machine's widths, results), partial maps as stores, iteration.
  \<^item> \<open>Utils\<close>: \<^verbatim>\<open>libk/utils.hpp\<close>, alignment, rounding and masks, with their bounds and wrap-around.
  \<^item> \<open>Bit_Array\<close>: \<^verbatim>\<open>bit_array.cpp\<close>, refined to a list of booleans.
  \<^item> \<open>Page_Alloc\<close>, \<open>Page_Alloc_List\<close>, \<open>Contiguous_Alloc\<close>: the physical page allocators. A locale states the
    contract of an allocator (fresh pages, release, marking); the interpretations discharge it.
  \<^item> \<open>Linked_List\<close>: \<^verbatim>\<open>linked_list.hpp\<close> on an explicit heap of nodes, refined to a sequence.
  \<^item> \<open>Delta_Queue\<close>, \<open>Task\<close>, \<open>Scheduler\<close>, \<open>Task_Manager\<close>: scheduling. \<open>tm_step\<close> is the step relation of the task
    manager, \<open>tm_reachable\<close> its reachable states and \<open>tm_inv\<close> the invariant every step keeps. The properties
    cover the contents of the run queues, priorities, fairness of the round robin and wake-up times.
  \<^item> \<open>Wait_List\<close>, \<open>Pipe\<close>, \<open>Message_Queue\<close>: blocking communication, refined to FIFO queues.
  \<^item> \<open>C_String\<close>: the string and memory functions, on a byte-addressed memory.
  \<^item> \<open>Key_Event\<close>: the encoding of key events, with its round trip.
  \<^item> \<open>Fat_Types\<close>, \<open>Fat_Volume\<close>, \<open>Fat_File\<close>, \<open>Fat_Unicode\<close>, \<open>Fat_Dir\<close>, \<open>Fat_Lookup\<close>, \<open>Fat_Path\<close>, \<open>Fat_Mount\<close>, \<open>Fat_Api\<close>: the read-only
    part of \<^verbatim>\<open>fs/fat/ff.c\<close> that the kernel builds, in this order: volume and sector window, the FAT, files and seeking, code
    pages, directory entries, long and short names, paths, mounting, and the API of \<^verbatim>\<open>f_open\<close> and its neighbours with
    \<^verbatim>\<open>fs/fat/fat_fs.cpp\<close>. The disk is a parameter; a file is refined to the bytes of its cluster chain.
  \<^item> \<open>Mmu_Entry\<close>, \<open>Mmu_Table\<close>: \<^verbatim>\<open>mmu_table.cpp\<close>, the bits of an entry and every operation on the tables. \<open>Mmu_Tree\<close>, \<open>Mmu_Map\<close>,
    \<open>Mmu_Rest\<close>, \<open>Mmu_Mapped\<close>, \<open>Mmu_Range\<close>, \<open>Mmu_Walk\<close>: the tree of tables refined to a map from virtual to physical pages; the
    locale \<open>page_source\<close> states what \<^verbatim>\<open>map_range\<close> needs of the allocator behind the tables.
  \<^item> \<open>Kernel_Memory\<close>: \<^verbatim>\<open>kernel_internal_memory.cpp\<close>, which provides that allocator, and the translation of addresses.
    \<open>Heap_Manager\<close>, \<open>Memory_Chunk\<close>, \<open>Process_Memory\<close>: heaps, chunks as arrays of bytes, buffers and the memory of processes.
  \<^item> \<open>Kernel_Malloc\<close>: \<^verbatim>\<open>mem_alloc.cpp\<close>, the list of blocks on the heap of the kernel. \<open>malloc_reachable\<close> are the states that requests
    within the bounds of \<open>request_ok\<close> and releases lead to; allocations in use never overlap there.
  \<^item> \<open>Geometry\<close>: \<^verbatim>\<open>wm/geometry.hpp\<close>, rectangles of 32-bit coordinates. \<open>Window_Draw\<close>: the windows, and the redrawing of a
    rectangle, equal to painting pixel by pixel. \<open>Window_Manager\<close>: \<^verbatim>\<open>wm/window_manager.cpp\<close>, every operation and event.
    \<open>Window_Inv\<close>, \<open>Window_Safety\<close>: the invariant \<open>wm_inv\<close> and that each operation keeps it, over the states \<open>wm_reachable\<close>, in which
    only windows with a frame buffer are shown. \<open>Window_Faults\<close> drops that condition (\<open>wm_runs\<close>): a visible window without a
    frame buffer is then the only reason to fail, at one assertion of the code.
  \<^item> \<open>Syscalls\<close>: the handlers of the system calls on tasks, messages and windows, those that draw up to the call of the painter,
    the table and its dispatch. \<open>Syscall_Safety\<close>: the states the kernel reaches with them (\<open>kernel_reachable\<close>), how a call ends,
    the protection of windows, and waiting for messages.

  \<^bold>\<open>Errors, bounds and fuel.\<close> An assertion of the kernel (\<^verbatim>\<open>KASSERT\<close>) that fails, a null dereference and
  undefined behaviour are values of the result type, and the properties say when they cannot occur.
  Machine integers are words where the code can wrap. Loops over lists of the model are structural; loops that end only
  on good data, such as the walks along strings and cluster chains, are partial functions, whose properties show that they
  return. The walks along the lists of \<open>Linked_List\<close> take one unit of fuel for each node, the loops of a heap one for each
  page, those of \<^verbatim>\<open>kmalloc\<close> one for each block and page, and the calls of \<^verbatim>\<open>focus_window\<close> and \<^verbatim>\<open>unfocus_window\<close> to each other go two levels deep; the properties show
  that this is enough. The configuration is the default one, without DMA and large frame buffers.

  \<^bold>\<open>Not modelled.\<close> The boot code and the device tree, which run once; the registers of the device drivers and the reception
  of key and mouse events; logging; the pixels of graphics and fonts and the vendored image decoder; the ELF loader; the
  system calls on files, pipes and the heap, whose kernel side is modelled below the calls; the user library and programs.
\<close>

end
